(* ===== verification/Go_Prelude.thy ===== *)
theory Go_Prelude
  imports Main "HOL-Library.AList" "HOL-Library.Word"
begin

text \<open>
  The part of Go that every component of the development shares.

  \<^item> A computation that may leave the process (\<open>log.Fatalf\<close>, which logs and exits, and
    \<open>panic\<close>, raised by the program or by the run-time system) has the type
    \<open>'a res = go_err + 'a\<close>; \<open>rbind\<close> runs the rest of a function after a step that may
    fail, and \<open>rfold\<close> is a \<open>for ... range\<close> loop whose body may fail.
  \<^item> A Go map is \<open>('k, 'v) gomap\<close>: \<open>None\<close> is the nil map (which reads as empty and
    panics when written), \<open>Some\<close> of an association list a map made by \<open>make\<close> or a map
    literal. The order of the list is the order in which \<open>range\<close> visits the entries;
    Go leaves that order open, and every theorem of the development quantifies over all
    lists, hence over all orders.
  \<^item> Go's fixed-width integers are words: \<open>+\<close>, \<open>-\<close> and \<open>*\<close> wrap, \<open>push_bit\<close> is the
    left shift (0 when the distance reaches the width, as in Go).
  \<^item> A Go string and a \<open>[]byte\<close> are both lists of bytes, that is \<open>char list\<close>.
\<close>

unbundle bit_operations_syntax

named_theorems go_map \<open>what reads of a Go map return after writes, deletions and loops\<close>
named_theorems go_wf \<open>well-formedness of Go maps is kept\<close>
named_theorems bits \<open>index sets kept as bits of a word\<close>
named_theorems inv_intros \<open>operations keep the invariants of their component\<close>

type_synonym uint8 = "8 word"
type_synonym uint32 = "32 word"
type_synonym uint64 = "64 word"
type_synonym int32 = "32 word"
type_synonym bytes = "char list"

section \<open>Failure\<close>

datatype go_err = Fatal string | Panic string

type_synonym 'a res = "go_err + 'a"

definition rbind :: "'a res \<Rightarrow> ('a \<Rightarrow> 'b res) \<Rightarrow> 'b res" where
  "rbind r f = (case r of Inl e \<Rightarrow> Inl e | Inr x \<Rightarrow> f x)"

definition rmap :: "('a \<Rightarrow> 'b) \<Rightarrow> 'a res \<Rightarrow> 'b res" where
  "rmap f r = rbind r (\<lambda>x. Inr (f x))"

definition guard_fatal :: "bool \<Rightarrow> string \<Rightarrow> unit res" where
  "guard_fatal b msg = (if b then Inr () else Inl (Fatal msg))"

primrec rfold :: "('x \<Rightarrow> 's \<Rightarrow> 's res) \<Rightarrow> 'x list \<Rightarrow> 's \<Rightarrow> 's res" where
  "rfold f [] s = Inr s"
| "rfold f (x # xs) s = rbind (f x s) (rfold f xs)"

lemma rbind_simps [simp]:
  "rbind (Inl e) f = Inl e"
  "rbind (Inr x) f = f x"
  by (simp_all add: rbind_def)

lemma rbind_Inr_conv: "rbind r f = Inr y \<longleftrightarrow> (\<exists>x. r = Inr x \<and> f x = Inr y)"
  by (cases r) auto

lemma rbind_assoc: "rbind (rbind r f) g = rbind r (\<lambda>x. rbind (f x) g)"
  by (cases r) auto

lemma rbind_cong [fundef_cong]:
  "r = r' \<Longrightarrow> (\<And>x. r' = Inr x \<Longrightarrow> f x = f' x) \<Longrightarrow> rbind r f = rbind r' f'"
  by (cases r') auto

lemma rmap_simps [simp]:
  "rmap f (Inl e) = Inl e"
  "rmap f (Inr x) = Inr (f x)"
  by (simp_all add: rmap_def)

lemma rmap_Inr_conv: "rmap f r = Inr y \<longleftrightarrow> (\<exists>x. r = Inr x \<and> y = f x)"
  by (cases r) auto

lemma guard_fatal_simps [simp]:
  "guard_fatal True msg = Inr ()"
  "guard_fatal False msg = Inl (Fatal msg)"
  by (simp_all add: guard_fatal_def)

lemma guard_fatal_Inr [simp]: "guard_fatal b msg = Inr u \<longleftrightarrow> b"
  by (cases b) auto

lemmas res_conv = rbind_Inr_conv rmap_Inr_conv

lemma rfold_append: "rfold f (xs @ ys) s = rbind (rfold f xs s) (rfold f ys)"
proof (induction xs arbitrary: s)
  case Nil
  then show ?case by simp
next
  case (Cons x xs)
  then show ?case by (cases "f x s") auto
qed

text \<open>The loop rule: an invariant the body keeps holds after the loop, if it ends.\<close>

lemma rfold_inv:
  assumes "rfold f xs s = Inr s'" and "I s"
    and "\<And>x s s'. x \<in> set xs \<Longrightarrow> I s \<Longrightarrow> f x s = Inr s' \<Longrightarrow> I s'"
  shows "I s'"
  using assms
proof (induction xs arbitrary: s)
  case Nil
  then show ?case by simp
next
  case (Cons x xs)
  from Cons.prems(1) obtain t where t: "f x s = Inr t" "rfold f xs t = Inr s'"
    by (auto simp: rbind_Inr_conv)
  have "I t" using Cons.prems(3)[of x] Cons.prems(2) t(1) by simp
  then show ?case
    by (rule Cons.IH[OF t(2)]) (meson Cons.prems(3) list.set_intros(2))
qed

text \<open>Total correctness: if the body never fails under the invariant, neither does the loop.\<close>

lemma rfold_total:
  assumes "I s"
    and "\<And>x s. x \<in> set xs \<Longrightarrow> I s \<Longrightarrow> \<exists>s'. f x s = Inr s' \<and> I s'"
  shows "\<exists>s'. rfold f xs s = Inr s' \<and> I s'"
  using assms
proof (induction xs arbitrary: s)
  case Nil
  then show ?case by simp
next
  case (Cons x xs)
  from Cons.prems(2)[of x s] Cons.prems(1) obtain t where t: "f x s = Inr t" "I t" by auto
  from Cons.IH[OF t(2)] Cons.prems(2) obtain s' where "rfold f xs t = Inr s'" "I s'"
    by (metis list.set_intros(2))
  with t(1) show ?case by auto
qed

lemma rfold_pure: "(\<And>x s. x \<in> set xs \<Longrightarrow> f x s = Inr (g x s)) \<Longrightarrow> rfold f xs s = Inr (fold g xs s)"
  by (induction xs arbitrary: s) auto

section \<open>Slices\<close>

text \<open>Indexing a slice panics outside of it.\<close>

definition go_nth :: "'a list \<Rightarrow> int \<Rightarrow> 'a res" where
  "go_nth xs i = (if 0 \<le> i \<and> i < int (length xs) then Inr (xs ! nat i) else Inl (Panic ''index out of range''))"

lemma go_nth_nat [simp]: "i < length xs \<Longrightarrow> go_nth xs (int i) = Inr (xs ! i)"
  by (simp add: go_nth_def)

lemma go_nth_Inr: "go_nth xs (int i) = Inr x \<longleftrightarrow> i < length xs \<and> x = xs ! i"
  by (auto simp: go_nth_def)

section \<open>Maps\<close>

type_synonym ('k, 'v) gomap = "('k \<times> 'v) list option"

definition go_range :: "('k, 'v) gomap \<Rightarrow> ('k \<times> 'v) list" where
  "go_range m = (case m of None \<Rightarrow> [] | Some al \<Rightarrow> al)"

definition go_get :: "('k, 'v) gomap \<Rightarrow> 'k \<Rightarrow> 'v option" where
  "go_get m k = map_of (go_range m) k"

definition go_has :: "('k, 'v) gomap \<Rightarrow> 'k \<Rightarrow> bool" where
  "go_has m k \<longleftrightarrow> go_get m k \<noteq> None"

definition go_keys :: "('k, 'v) gomap \<Rightarrow> 'k list" where
  "go_keys m = map fst (go_range m)"

definition go_len :: "('k, 'v) gomap \<Rightarrow> nat" where
  "go_len m = length (go_range m)"

text \<open>\<open>m[k] = v\<close> as the language has it, and the idiom that makes a nil map first.\<close>

definition go_put :: "'k \<Rightarrow> 'v \<Rightarrow> ('k, 'v) gomap \<Rightarrow> ('k, 'v) gomap res" where
  "go_put k v m = (case m of None \<Rightarrow> Inl (Panic ''assignment to entry in nil map'')
                   | Some al \<Rightarrow> Inr (Some (AList.update k v al)))"

definition go_set :: "'k \<Rightarrow> 'v \<Rightarrow> ('k, 'v) gomap \<Rightarrow> ('k, 'v) gomap" where
  "go_set k v m = Some (AList.update k v (go_range m))"

definition go_del :: "'k \<Rightarrow> ('k, 'v) gomap \<Rightarrow> ('k, 'v) gomap" where
  "go_del k m = map_option (AList.delete k) m"

text \<open>Entries kept by a loop that deletes the others while it ranges over the map.\<close>

definition go_filter :: "('k \<Rightarrow> bool) \<Rightarrow> ('k, 'v) gomap \<Rightarrow> ('k, 'v) gomap" where
  "go_filter P m = map_option (filter (\<lambda>(k, v). P k)) m"

text \<open>A Go map has each key once.\<close>

definition wfm :: "('k, 'v) gomap \<Rightarrow> bool" where
  "wfm m \<longleftrightarrow> distinct (go_keys m)"

lemma go_range_simps [simp]: "go_range None = []" "go_range (Some al) = al"
  by (simp_all add: go_range_def)

lemma go_get_None [simp]: "go_get None k = None"
  by (simp add: go_get_def)

lemma go_get_Some: "go_get (Some al) k = map_of al k"
  by (simp add: go_get_def)

lemma go_get_empty [simp]: "go_get (Some []) k = None"
  by (simp add: go_get_def)

lemma go_set_not_nil [simp]: "go_set k v m \<noteq> None"
  by (simp add: go_set_def)

lemma go_set_made [simp]: "\<exists>al. go_set k v m = Some al"
  by (simp add: go_set_def)

lemma go_get_set [go_map, simp]: "go_get (go_set k v m) k' = (if k = k' then Some v else go_get m k')"
  by (simp add: go_get_def go_set_def update_conv')

lemma go_del_nil [simp]: "go_del k m = None \<longleftrightarrow> m = None" "(\<exists>al. go_del k m = Some al) \<longleftrightarrow> m \<noteq> None"
  by (auto simp: go_del_def)

lemma go_get_del [go_map, simp]: "go_get (go_del k m) k' = (if k = k' then None else go_get m k')"
  by (cases m) (auto simp: go_get_def go_del_def delete_conv')

lemma map_of_filter_key: "map_of (filter (\<lambda>(k, v). P k) al) k = (if P k then map_of al k else None)"
  by (induction al) auto

lemma go_get_filter [go_map, simp]: "go_get (go_filter P m) k = (if P k then go_get m k else None)"
  by (cases m) (auto simp: go_get_def go_filter_def map_of_filter_key)

lemma go_put_conv: "go_put k v m = Inr m' \<longleftrightarrow> m \<noteq> None \<and> m' = go_set k v m"
  by (cases m) (auto simp: go_put_def go_set_def)

lemma go_put_Some [simp]: "m \<noteq> None \<Longrightarrow> go_put k v m = Inr (go_set k v m)"
  by (auto simp: go_put_def go_set_def)

lemma go_has_iff [simp]: "go_has m k \<longleftrightarrow> k \<in> set (go_keys m)"
  by (auto simp: go_has_def go_get_def go_keys_def map_of_eq_None_iff)

lemma go_keys_dom: "set (go_keys m) = dom (go_get m)"
proof -
  have "dom (go_get m) = dom (map_of (go_range m))" by (auto simp: go_get_def)
  then show ?thesis by (simp add: go_keys_def dom_map_of_conv_image_fst)
qed

lemma go_key_iff: "k \<in> set (go_keys m) \<longleftrightarrow> (\<exists>v. go_get m k = Some v)"
  by (auto simp: go_keys_dom)

lemma go_get_key [elim]: "go_get m k = Some v \<Longrightarrow> k \<in> set (go_keys m)"
  by (auto simp: go_key_iff)

lemma go_range_get: "wfm m \<Longrightarrow> (k, v) \<in> set (go_range m) \<longleftrightarrow> go_get m k = Some v"
  by (simp add: wfm_def go_get_def go_keys_def)

lemma go_range_key: "(k, v) \<in> set (go_range m) \<Longrightarrow> k \<in> set (go_keys m)"
  by (force simp: go_keys_def)

lemma go_keys_set [go_map, simp]: "set (go_keys (go_set k v m)) = insert k (set (go_keys m))"
  by (auto simp: go_keys_dom)

lemma go_keys_del [go_map, simp]: "set (go_keys (go_del k m)) = set (go_keys m) - {k}"
  by (auto simp: go_keys_dom split: if_splits)

lemma go_keys_filter [go_map, simp]: "set (go_keys (go_filter P m)) = {k \<in> set (go_keys m). P k}"
  by (auto simp: go_keys_dom split: if_splits)

lemma go_keys_empty [simp]: "go_keys None = []" "go_keys (Some []) = []"
  by (simp_all add: go_keys_def)

lemma go_range_set: "set (go_range (go_set k v m)) \<subseteq> insert (k, v) (set (go_range m))"
proof -
  have "set (AList.update k v al) \<subseteq> insert (k, v) (set al)" for al by (induction al) auto
  then show ?thesis by (simp add: go_set_def)
qed

lemma go_range_del: "set (go_range (go_del k m)) \<subseteq> set (go_range m)"
  by (cases m) (auto simp: go_del_def AList.delete_eq)

lemma go_len_set: "go_len (go_set k v m) = (if go_has m k then go_len m else Suc (go_len m))"
proof -
  have "length (AList.update k v al) = (if k \<in> fst ` set al then length al else Suc (length al))" for al
    by (induction al) auto
  then show ?thesis by (simp add: go_len_def go_set_def go_keys_def)
qed

lemma wfm_empty [go_wf, simp]: "wfm None" "wfm (Some [])"
  by (simp_all add: wfm_def)

lemma wfm_set [go_wf, simp]: "wfm m \<Longrightarrow> wfm (go_set k v m)"
  by (simp add: wfm_def go_keys_def go_set_def distinct_update)

lemma wfm_del [go_wf, simp]: "wfm m \<Longrightarrow> wfm (go_del k m)"
  by (cases m) (auto simp: wfm_def go_keys_def go_del_def distinct_delete)

lemma wfm_filter [go_wf, simp]: "wfm m \<Longrightarrow> wfm (go_filter P m)"
  by (cases m) (auto simp: wfm_def go_keys_def go_filter_def distinct_map_filter)

lemma go_len_0 [simp]: "go_len m = 0 \<longleftrightarrow> (\<forall>k. go_get m k = None)"
  by (cases "go_range m") (force simp: go_len_def go_get_def)+

lemma go_set_same: "go_get m k = Some v \<Longrightarrow> go_get (go_set k v m) = go_get m"
  by (auto simp: fun_eq_iff)

subsection \<open>The merge loop\<close>

text \<open>
  \<^verbatim>\<open>for i, c := range d { if x, ok := m[i]; ok { m[i] = f(x, c) } else { m[i] = g(c) } }\<close>,
  with the nil map made before the first write: the shape of the merge functions of
  \<open>pkg/dra\<close>.
\<close>

definition go_merge :: "('v \<Rightarrow> 'v \<Rightarrow> 'v) \<Rightarrow> ('k, 'v) gomap \<Rightarrow> ('k, 'v) gomap \<Rightarrow> ('k, 'v) gomap" where
  "go_merge f d m = fold (\<lambda>(i, c) m. case go_get m i of
      Some x \<Rightarrow> go_set i (f x c) m | None \<Rightarrow> go_set i c m) (go_range d) m"

definition opt_merge :: "('v \<Rightarrow> 'v \<Rightarrow> 'v) \<Rightarrow> 'v option \<Rightarrow> 'v option \<Rightarrow> 'v option" where
  "opt_merge f x y = (case x of None \<Rightarrow> y | Some a \<Rightarrow> (case y of None \<Rightarrow> x | Some b \<Rightarrow> Some (f a b)))"

lemma opt_merge_simps [simp]:
  "opt_merge f None y = y"
  "opt_merge f x None = x"
  "opt_merge f (Some a) (Some b) = Some (f a b)"
  by (simp_all add: opt_merge_def split: option.split)

lemma fold_merge_get:
  assumes "distinct (map fst al)"
  shows "go_get (fold (\<lambda>(i, c) m. case go_get m i of
      Some x \<Rightarrow> go_set i (f x c) m | None \<Rightarrow> go_set i c m) al m) k
    = opt_merge f (go_get m k) (map_of al k)"
  using assms
proof (induction al arbitrary: m)
  case Nil
  then show ?case by simp
next
  case (Cons p al)
  obtain i c where p: "p = (i, c)" by (cases p)
  have "map_of al i = None"
    using Cons.prems p by (simp add: map_of_eq_None_iff)
  with Cons p show ?case by (auto split: option.split)
qed

lemma go_get_merge [go_map]:
  "wfm d \<Longrightarrow> go_get (go_merge f d m) k = opt_merge f (go_get m k) (go_get d k)"
  by (simp add: go_merge_def fold_merge_get wfm_def go_keys_def go_get_def [of d])

lemma fold_keep: "P m \<Longrightarrow> (\<And>x m. P m \<Longrightarrow> P (f x m)) \<Longrightarrow> P (fold f xs m)"
  by (induction xs arbitrary: m) auto

lemma wfm_merge [go_wf, simp]: "wfm m \<Longrightarrow> wfm (go_merge f d m)"
  unfolding go_merge_def by (rule fold_keep) (auto split: option.split)

lemma go_keys_merge [go_map]: "set (go_keys (go_merge f d m)) = set (go_keys m) \<union> set (go_keys d)"
proof -
  have "set (go_keys (fold (\<lambda>(i, c) m. case go_get m i of
      Some x \<Rightarrow> go_set i (f x c) m | None \<Rightarrow> go_set i c m) al m))
    = set (go_keys m) \<union> fst ` set al" for al
    by (induction al arbitrary: m) (auto split: option.splits)
  then show ?thesis by (simp add: go_merge_def go_keys_def)
qed

text \<open>The nil map stays nil only when there is nothing to merge.\<close>

lemma go_merge_nil: "go_range d = [] \<Longrightarrow> go_merge f d m = m"
  by (simp add: go_merge_def)

lemma go_merge_not_nil [simp]: "m \<noteq> None \<Longrightarrow> go_merge f d m \<noteq> None"
  unfolding go_merge_def by (rule fold_keep) (auto simp: go_set_def split: option.split)

text \<open>\<^verbatim>\<open>for k, v := range d { m[k] = v }\<close> (the entries of \<open>d\<close> win).\<close>

definition go_copy_into :: "('k, 'v) gomap \<Rightarrow> ('k, 'v) gomap \<Rightarrow> ('k, 'v) gomap" where
  "go_copy_into d m = fold (\<lambda>(k, v). go_set k v) (go_range d) m"

lemma fold_set_get:
  "distinct (map fst al) \<Longrightarrow>
    go_get (fold (\<lambda>(k, v). go_set k v) al m) k = (case map_of al k of None \<Rightarrow> go_get m k | Some v \<Rightarrow> Some v)"
proof (induction al arbitrary: m)
  case Nil
  then show ?case by simp
next
  case (Cons p al)
  obtain i c where p: "p = (i, c)" by (cases p)
  have "map_of al i = None"
    using Cons.prems p by (simp add: map_of_eq_None_iff)
  with Cons p show ?case by (auto split: option.split)
qed

lemma go_get_copy_into [go_map]:
  "wfm d \<Longrightarrow> go_get (go_copy_into d m) k = (case go_get d k of None \<Rightarrow> go_get m k | Some v \<Rightarrow> Some v)"
  by (simp add: go_copy_into_def fold_set_get wfm_def go_keys_def go_get_def [of d])

lemma go_keys_copy_into [go_map]:
  "set (go_keys (go_copy_into d m)) = set (go_keys m) \<union> set (go_keys d)"
proof -
  have "set (go_keys (fold (\<lambda>(k, v). go_set k v) al m)) = set (go_keys m) \<union> fst ` set al" for al
    by (induction al arbitrary: m) auto
  then show ?thesis by (simp add: go_copy_into_def go_keys_def)
qed

lemma wfm_copy_into [go_wf, simp]: "wfm m \<Longrightarrow> wfm (go_copy_into d m)"
  unfolding go_copy_into_def by (rule fold_keep) auto

section \<open>Index sets as bits\<close>

text \<open>
  The code keeps a set of call indices below 32 as the bits of a \<open>uint32\<close>.
  \<^verbatim>\<open>for i = 0; i < 32; i++ { if (1<<i)&indexBits > 0 { index = append(index, i) } }\<close>
\<close>

definition bit_indices :: "uint32 \<Rightarrow> uint32 list" where
  "bit_indices w = map of_nat (filter (\<lambda>i. push_bit i 1 AND w > 0) [0..<32])"

definition index_bit :: "uint32 \<Rightarrow> uint32" where
  "index_bit i = push_bit (unat i) 1"

lemma push_bit_and_pos [bits]: "(push_bit i 1 AND w > 0) \<longleftrightarrow> bit w i" for w :: "'a::len word"
proof -
  have "push_bit i 1 AND w = (if bit w i then push_bit i 1 else 0)"
    by (rule bit_eqI) (auto simp: bit_simps)
  moreover have "bit w i \<Longrightarrow> push_bit i (1::'a word) \<noteq> 0"
    by (metis bit_push_bit_iff bit_1_0 bit_imp_le_length diff_self_eq_0 le_refl bit_0_eq bot_apply bot_bool_def possible_bit_word)
  ultimately show ?thesis by (simp add: word_gt_0)
qed

lemma bit_indices_conv: "bit_indices w = map of_nat (filter (bit w) [0..<32])"
  unfolding bit_indices_def push_bit_and_pos ..

lemma set_bit_indices [bits]: "i \<in> set (bit_indices w) \<longleftrightarrow> unat i < 32 \<and> bit w (unat i)"
proof
  assume "i \<in> set (bit_indices w)"
  then obtain n where "n < 32" "bit w n" "i = of_nat n"
    by (auto simp: bit_indices_conv)
  then show "unat i < 32 \<and> bit w (unat i)" by (simp add: unat_of_nat)
next
  assume "unat i < 32 \<and> bit w (unat i)"
  then have "i = of_nat (unat i)" "unat i \<in> set (filter (bit w) [0..<32])" by auto
  then show "i \<in> set (bit_indices w)" unfolding bit_indices_conv by (metis image_eqI set_map)
qed

lemma distinct_bit_indices [simp]: "distinct (bit_indices w)"
  unfolding bit_indices_conv distinct_map
  by (auto simp: inj_on_def word_of_nat_eq_iff take_bit_nat_eq_self)

lemma length_bit_indices: "length (bit_indices w) \<le> 32"
proof -
  have "length (filter P [0..<32]) \<le> 32" for P
    using length_filter_le [of P "[0..<32]"] by simp
  then show ?thesis by (simp add: bit_indices_conv)
qed

lemma bit_index_bit [bits]: "bit (index_bit i) n \<longleftrightarrow> n = unat i \<and> n < 32"
  by (auto simp: index_bit_def bit_simps)

lemma bit_indices_or [bits]: "set (bit_indices (v OR w)) = set (bit_indices v) \<union> set (bit_indices w)"
  by (auto simp: set_bit_indices bit_simps)

lemma bit_indices_index_bit [bits]: "unat i < 32 \<Longrightarrow> set (bit_indices (index_bit i)) = {i}"
  by (auto simp: set_bit_indices bit_index_bit word_unat_eq_iff)

end
