(* ===== verification/Dra_Types.thy ===== *)
theory Dra_Types
  imports Go_Prelude
begin

text \<open>
  The data of \<open>pkg/dra\<close>: the protocol-buffer messages of \<open>05-proto\<close> as the generated
  Go structs have them (without the three fields of the protobuf run-time system), and
  the server's own constants of \<open>default.go\<close>.

  Field names carry a short prefix for their message, since Isabelle's record fields are
  global. Map fields are Go maps and may be nil: an empty map that crosses the wire
  arrives as nil. Messages are values here (the code clones them when they are shared and
  mutated) except for tasks, which one \<open>Tasks\<close> reaches through both its map and its
  array: a task is an object of a store and \<open>Tasks\<close> holds references to it.
\<close>

section \<open>Enumerations\<close>

datatype TaskStatus =
    TaskStatus_untested | TaskStatus_testing
  | TaskStatus_not_find_input | TaskStatus_not_find_write_address | TaskStatus_not_find_write_input
  | TaskStatus_unstable_write | TaskStatus_stable_write
  | TaskStatus_unstable_condition | TaskStatus_stable_condition
  | TaskStatus_unstable_insert_write | TaskStatus_stable_insert_write
  | TaskStatus_unstable_insert_condition | TaskStatus_stable_insert_condition
  | TaskStatus_unstable | TaskStatus_tested | TaskStatus_covered
  | TaskStatus_recursive | TaskStatus_out

text \<open>The code compares statuses with \<open><\<close> on the numbers the enumeration gives them.\<close>

primrec TaskStatus_value :: "TaskStatus \<Rightarrow> int" where
  "TaskStatus_value TaskStatus_untested = 0"
| "TaskStatus_value TaskStatus_testing = 1"
| "TaskStatus_value TaskStatus_not_find_input = -5"
| "TaskStatus_value TaskStatus_not_find_write_address = -4"
| "TaskStatus_value TaskStatus_not_find_write_input = -3"
| "TaskStatus_value TaskStatus_unstable_write = 11"
| "TaskStatus_value TaskStatus_stable_write = 12"
| "TaskStatus_value TaskStatus_unstable_condition = 13"
| "TaskStatus_value TaskStatus_stable_condition = 14"
| "TaskStatus_value TaskStatus_unstable_insert_write = 15"
| "TaskStatus_value TaskStatus_stable_insert_write = 16"
| "TaskStatus_value TaskStatus_unstable_insert_condition = 17"
| "TaskStatus_value TaskStatus_stable_insert_condition = 18"
| "TaskStatus_value TaskStatus_unstable = 19"
| "TaskStatus_value TaskStatus_tested = 21"
| "TaskStatus_value TaskStatus_covered = 22"
| "TaskStatus_value TaskStatus_recursive = 31"
| "TaskStatus_value TaskStatus_out = 32"

lemma TaskStatus_value_inj: "TaskStatus_value a = TaskStatus_value b \<longleftrightarrow> a = b"
  by (cases a; cases b) auto

instantiation TaskStatus :: linorder
begin

definition less_eq_TaskStatus :: "TaskStatus \<Rightarrow> TaskStatus \<Rightarrow> bool" where
  "a \<le> b \<longleftrightarrow> TaskStatus_value a \<le> TaskStatus_value b"

definition less_TaskStatus :: "TaskStatus \<Rightarrow> TaskStatus \<Rightarrow> bool" where
  "a < b \<longleftrightarrow> TaskStatus_value a < TaskStatus_value b"

instance
  by standard (auto simp: less_eq_TaskStatus_def less_TaskStatus_def TaskStatus_value_inj)

end

lemmas status_ord = less_eq_TaskStatus_def less_TaskStatus_def

datatype WriteStatementKind =
    WriteStatementKind_WriteStatementConstant | WriteStatementKind_WriteStatementNonconstant
  | WriteStatementKind_WriteStatementDependencyRelated
  | WriteStatementKind_WriteStatementNotDependencyRelated

datatype TaskKind = TaskKind_Boot | TaskKind_High | TaskKind_Ckeck | TaskKind_Normal

datatype UncoveredAddressKind =
    UncoveredAddressKind_UncoveredAddressOutside
  | UncoveredAddressKind_UncoveredAddressInputRelated
  | UncoveredAddressKind_UncoveredAddressDependencyRelated
  | UncoveredAddressKind_UncoveredAddressOther

datatype FuzzingStat =
    FuzzingStat_StatGenerate | FuzzingStat_StatFuzz | FuzzingStat_StatCandidate
  | FuzzingStat_StatTriage | FuzzingStat_StatMinimize | FuzzingStat_StatSmash
  | FuzzingStat_StatHint | FuzzingStat_StatSeed | FuzzingStat_StatDependency
  | FuzzingStat_StatDependencyBoot | FuzzingStat_StatDefault

section \<open>Messages\<close>

record RunTimeData =
  rtd_Priority :: uint32
  rtd_WriteAddress :: uint32
  rtd_ConditionAddress :: uint32
  rtd_Address :: uint32
  rtd_RightBranchAddress :: "uint32 list"
  rtd_TaskStatus :: TaskStatus
  rtd_Program :: bytes
  rtd_Idx :: uint32
  rtd_RecursiveCount :: uint32
  rtd_CheckWrite :: bool
  rtd_CheckCondition :: bool
  rtd_CheckAddress :: bool
  rtd_CheckRightBranchAddress :: "bool list"

type_synonym rtd_map = "(uint32, RunTimeData) gomap"

record TaskRunTimeData =
  trd_Hash :: string
  trd_Program :: bytes
  trd_WriteIdx :: uint32
  trd_ConditionIdx :: uint32
  trd_Check :: bool
  trd_UncoveredAddress :: rtd_map
  trd_CoveredAddress :: rtd_map

record Task =
  t_Sig :: string
  t_Index :: uint32
  t_Program :: bytes
  t_Kind :: WriteStatementKind
  t_Priority :: int32
  t_Hash :: string
  t_Count :: uint32
  t_WriteSig :: string
  t_WriteIndex :: uint32
  t_WriteProgram :: bytes
  t_TaskStatus :: TaskStatus
  t_Check :: bool
  t_UncoveredAddress :: rtd_map
  t_CoveredAddress :: rtd_map
  t_TaskRunTimeData :: "TaskRunTimeData list"

type_synonym ref = nat

record Tasks =
  ts_Name :: string
  ts_Kind :: TaskKind
  ts_TaskMap :: "(string, ref) gomap"
  ts_TaskArray :: "ref list"

record Call =
  c_Idx :: uint32
  c_Address :: "(uint32, uint32) gomap"

record Path = p_Address :: "uint32 list"

record Paths = ps_Path :: "(uint32, Path) gomap"

record Input =
  i_Sig :: string
  i_Program :: bytes
  i_Call :: "(uint32, Call) gomap"
  i_Stable :: uint32
  i_Paths :: "Paths list"
  i_NumberConditions :: uint32
  i_NumberConditionsDependency :: uint32
  i_Stat :: FuzzingStat
  i_UncoveredAddress :: "(uint32, uint32) gomap"
  i_WriteAddress :: "(uint32, uint32) gomap"
  i_ProgramBeforeMini :: bytes

record UnstableInput =
  ui_Sig :: string
  ui_Program :: bytes
  ui_UnstablePath :: "Paths list"
  ui_Address :: "(uint32, uint32) gomap"

record WriteAddressAttributes =
  waa_WriteAddress :: uint32
  waa_Repeat :: uint32
  waa_Prio :: uint32

record WriteAddress =
  wa_WriteAddress :: uint32
  wa_Kind :: WriteStatementKind
  wa_UncoveredAddress :: "(uint32, WriteAddressAttributes) gomap"
  wa_FileOperationsFunction :: "(string, uint32) gomap"
  wa_Input :: "(string, uint32) gomap"
  wa_RunTimeDate :: "RunTimeData option"

record Status = st_Status :: "(uint32, TaskStatus) gomap"

record UncoveredAddress =
  ua_ConditionAddress :: uint32
  ua_UncoveredAddress :: uint32
  ua_RightBranchAddress :: "uint32 list"
  ua_NumberArriveBasicblocks :: uint32
  ua_Kind :: UncoveredAddressKind
  ua_NumberDominatorInstructions :: uint32
  ua_Input :: "(string, uint32) gomap"
  ua_WriteAddress :: "(uint32, WriteAddressAttributes) gomap"
  ua_Count :: uint32
  ua_RunTimeDate :: "RunTimeData option"
  ua_InputStatus :: "(string, Status) gomap"
  ua_WriteAddressStatus :: "(uint32, TaskStatus) gomap"
  ua_TasksCount :: "(int32, uint32) gomap"
  ua_WriteCount :: "(int32, uint32) gomap"

record Dependency =
  d_Input :: "Input option"
  d_UncoveredAddress :: "UncoveredAddress option"
  d_WriteAddress :: "WriteAddress list"

datatype FileOperationsKind =
    FileOperationsKind_default | FileOperationsKind_init | FileOperationsKind_llseek
  | FileOperationsKind_read | FileOperationsKind_write | FileOperationsKind_poll
  | FileOperationsKind_unlocked_ioctl | FileOperationsKind_mmap | FileOperationsKind_open
  | FileOperationsKind_release

record FileOperationsFunction =
  fof_Name :: string
  fof_FileOperationsName :: string
  fof_Kind :: FileOperationsKind
  fof_Cmd :: uint64
  fof_RunTimeDate :: "RunTimeData option"
  fof_WriteAddress :: "(uint32, uint32) gomap"

record FileOperations =
  fo_Name :: string
  fo_FileOperationsFunction :: "(64 word, FileOperationsFunction) gomap"

record DataDependency =
  dd_Input :: "(string, Input) gomap"
  dd_UncoveredAddress :: "(uint32, UncoveredAddress) gomap"
  dd_WriteAddress :: "(uint32, WriteAddress) gomap"
  dd_OtherInput :: "(string, Input) gomap"

record DataRunTime =
  dr_Tasks :: Tasks
  dr_Return :: Tasks
  dr_HighTask :: Tasks
  dr_BootTask :: Tasks
  dr_ReturnBoot :: Tasks

text \<open>
  Times are \<open>float64\<close>. They are a type parameter of which the code uses the addition
  only, so nothing below depends on how floating-point addition rounds.
\<close>

record 'f Statistic =
  s_Name :: FuzzingStat
  s_ExecuteNum :: uint64
  s_Time :: 'f
  s_NewTestCaseNum :: uint64
  s_NewAddressNum :: uint64

record 'f Time =
  tm_Time :: 'f
  tm_Num :: "64 word"
  tm_ExecuteNum :: "64 word"

record 'f Coverage =
  cov_Coverage :: "(uint32, uint32) gomap"
  cov_Time :: "'f Time list"

record 'f UsefulInput =
  uf_Input :: Input
  uf_Time :: 'f
  uf_Num :: uint64
  uf_NewAddress :: "uint32 list"

section \<open>Zero values\<close>

text \<open>What an empty composite literal such as \<open>&RunTimeData{}\<close> denotes.\<close>

definition RunTimeData_zero :: RunTimeData where
  "RunTimeData_zero = \<lparr>rtd_Priority = 0, rtd_WriteAddress = 0, rtd_ConditionAddress = 0,
     rtd_Address = 0, rtd_RightBranchAddress = [], rtd_TaskStatus = TaskStatus_untested,
     rtd_Program = [], rtd_Idx = 0, rtd_RecursiveCount = 0, rtd_CheckWrite = False,
     rtd_CheckCondition = False, rtd_CheckAddress = False, rtd_CheckRightBranchAddress = []\<rparr>"

definition TaskRunTimeData_zero :: TaskRunTimeData where
  "TaskRunTimeData_zero = \<lparr>trd_Hash = '''', trd_Program = [], trd_WriteIdx = 0,
     trd_ConditionIdx = 0, trd_Check = False, trd_UncoveredAddress = None, trd_CoveredAddress = None\<rparr>"

definition Task_zero :: Task where
  "Task_zero = \<lparr>t_Sig = '''', t_Index = 0, t_Program = [],
     t_Kind = WriteStatementKind_WriteStatementConstant, t_Priority = 0, t_Hash = '''', t_Count = 0,
     t_WriteSig = '''', t_WriteIndex = 0, t_WriteProgram = [], t_TaskStatus = TaskStatus_untested,
     t_Check = False, t_UncoveredAddress = None, t_CoveredAddress = None, t_TaskRunTimeData = []\<rparr>"

definition Input_zero :: Input where
  "Input_zero = \<lparr>i_Sig = '''', i_Program = [], i_Call = None, i_Stable = 0, i_Paths = [],
     i_NumberConditions = 0, i_NumberConditionsDependency = 0, i_Stat = FuzzingStat_StatGenerate,
     i_UncoveredAddress = None, i_WriteAddress = None, i_ProgramBeforeMini = []\<rparr>"

definition WriteAddress_zero :: WriteAddress where
  "WriteAddress_zero = \<lparr>wa_WriteAddress = 0, wa_Kind = WriteStatementKind_WriteStatementConstant,
     wa_UncoveredAddress = None, wa_FileOperationsFunction = None, wa_Input = None,
     wa_RunTimeDate = None\<rparr>"

definition UncoveredAddress_zero :: UncoveredAddress where
  "UncoveredAddress_zero = \<lparr>ua_ConditionAddress = 0, ua_UncoveredAddress = 0,
     ua_RightBranchAddress = [], ua_NumberArriveBasicblocks = 0,
     ua_Kind = UncoveredAddressKind_UncoveredAddressOutside, ua_NumberDominatorInstructions = 0,
     ua_Input = None, ua_WriteAddress = None, ua_Count = 0, ua_RunTimeDate = None,
     ua_InputStatus = None, ua_WriteAddressStatus = None, ua_TasksCount = None,
     ua_WriteCount = None\<rparr>"

lemmas zero_values = RunTimeData_zero_def TaskRunTimeData_zero_def Task_zero_def Input_zero_def
  WriteAddress_zero_def UncoveredAddress_zero_def

section \<open>Constants\<close>

definition TaskQueueNumber :: nat where "TaskQueueNumber = 4"
definition TaskCountLimitation :: uint32 where "TaskCountLimitation = 2"
definition TaskCountBase :: uint32 where "TaskCountBase = 1"
definition NeedBoot :: bool where "NeedBoot = False"
definition NeedInput :: bool where "NeedInput = False"
definition TaskBoot :: bool where "TaskBoot = False"
definition CollectPath :: bool where "CollectPath = False"
definition CollectUnstable :: bool where "CollectUnstable = False"
definition StableCoverage :: bool where "StableCoverage = True"
definition CheckCondition :: bool where "CheckCondition = True"

lemmas dra_consts = TaskQueueNumber_def TaskCountLimitation_def TaskCountBase_def
  NeedBoot_def NeedInput_def TaskBoot_def CollectPath_def CollectUnstable_def
  StableCoverage_def CheckCondition_def

end
