(* ===== verification/Dra_Merge.thy ===== *)
theory Dra_Merge
  imports Dra_Types
begin

text \<open>
  The merge operations of \<open>pkg/dra/DependencyRPC.go\<close>: how the server folds a message it
  receives into what it already knows. The receiver \<open>m\<close> is the first argument and the
  result. Where the code also writes into its argument \<open>d\<close>, the result is the pair of
  both.

  The lemmas say what a merge leaves at each key, for every iteration order; the address
  and index sets a value stands for (\<open>call_addresses\<close>, \<open>index_set\<close>) are united by a
  merge, covered addresses win over uncovered ones, and task statuses only rise.
\<close>

section \<open>Definitions\<close>

definition mergeStatistic :: "'f::plus Statistic \<Rightarrow> 'f Statistic \<Rightarrow> 'f Statistic res" where
  "mergeStatistic m d =
    rbind (guard_fatal (s_Name m = s_Name d) ''MergeStatistic with error name'') (\<lambda>_.
    Inr (m\<lparr>s_ExecuteNum := s_ExecuteNum m + s_ExecuteNum d,
           s_Time := s_Time m + s_Time d,
           s_NewTestCaseNum := s_NewTestCaseNum m + s_NewTestCaseNum d,
           s_NewAddressNum := s_NewAddressNum m + s_NewAddressNum d\<rparr>))"

definition make_if_nil :: "('k, 'v) gomap \<Rightarrow> ('k, 'v) gomap" where
  "make_if_nil m = (case m of None \<Rightarrow> Some [] | Some al \<Rightarrow> Some al)"

text \<open>One turn of the first loop of \<open>mergeInput\<close>: the call \<open>u\<close> with index \<open>i\<close>.\<close>

definition merge_call :: "uint32 \<times> Call \<Rightarrow> (uint32, Call) gomap \<Rightarrow> (uint32, Call) gomap" where
  "merge_call e m =
    (let i = fst e; u = snd e;
         call = (case go_get m i of Some c \<Rightarrow> c | None \<Rightarrow> \<lparr>c_Idx = c_Idx u, c_Address = Some []\<rparr>);
         address = fold (\<lambda>(a, _). go_set a 0) (go_range (c_Address u)) (make_if_nil (c_Address call))
     in go_set i (call\<lparr>c_Address := address\<rparr>) m)"

definition mergeInput :: "Input \<Rightarrow> Input \<Rightarrow> Input" where
  "mergeInput m d = m\<lparr>
     i_Call := fold merge_call (go_range (i_Call d)) (i_Call m),
     i_Paths := (if CollectPath then i_Paths m @ i_Paths d else i_Paths m),
     i_UncoveredAddress := go_merge (OR) (i_UncoveredAddress d) (i_UncoveredAddress m),
     i_WriteAddress := go_merge (OR) (i_WriteAddress d) (i_WriteAddress m),
     i_NumberConditions :=
       (if i_NumberConditions m < i_NumberConditions d then i_NumberConditions d else i_NumberConditions m),
     i_NumberConditionsDependency :=
       (if i_NumberConditionsDependency m < i_NumberConditionsDependency d
        then i_NumberConditionsDependency d else i_NumberConditionsDependency m)\<rparr>"

text \<open>
  The status loops of \<open>mergeUncoveredAddress\<close>. The first writes the receiver's own value
  back; the second writes into the status of the argument.
\<close>

definition merge_was :: "uint32 \<times> TaskStatus \<Rightarrow> (uint32, TaskStatus) gomap
    \<Rightarrow> (uint32, TaskStatus) gomap res" where
  "merge_was e m =
    (case go_get m (fst e) of
       Some tt \<Rightarrow> (if tt > snd e then go_put (fst e) tt m else Inr m)
     | None \<Rightarrow> Inl (Fatal ''mergeUncoveredAddress with d.WriteAddressStatus''))"

definition merge_status :: "(string, Status) gomap \<Rightarrow> string \<Rightarrow> uint32 \<times> TaskStatus
    \<Rightarrow> (uint32, TaskStatus) gomap \<Rightarrow> (uint32, TaskStatus) gomap res" where
  "merge_status mis input e st =
    (case go_get mis input of
       Some ss \<Rightarrow>
         (case go_get (st_Status ss) (fst e) of
            Some tt \<Rightarrow> (if tt > snd e then go_put (fst e) tt st else Inr st)
          | None \<Rightarrow> Inl (Fatal ''mergeUncoveredAddress with Status''))
     | None \<Rightarrow> Inl (Fatal ''mergeUncoveredAddress with InputStatus''))"

definition merge_input_status :: "(string, Status) gomap \<Rightarrow> string \<times> Status
    \<Rightarrow> (string, Status) gomap \<Rightarrow> (string, Status) gomap res" where
  "merge_input_status mis e dis =
    rbind (rfold (merge_status mis (fst e)) (go_range (st_Status (snd e))) (st_Status (snd e)))
      (\<lambda>st. go_put (fst e) ((snd e)\<lparr>st_Status := st\<rparr>) dis)"

definition mergeUncoveredAddress ::
  "UncoveredAddress \<Rightarrow> UncoveredAddress \<Rightarrow> (UncoveredAddress \<times> UncoveredAddress) res" where
  "mergeUncoveredAddress m d =
    rbind (rfold merge_was (go_range (ua_WriteAddressStatus d)) (ua_WriteAddressStatus m)) (\<lambda>was.
    rbind (rfold (merge_input_status (ua_InputStatus m)) (go_range (ua_InputStatus d)) (ua_InputStatus d)) (\<lambda>dis.
    Inr (m\<lparr>ua_Input := go_merge (OR) (ua_Input d) (ua_Input m),
           ua_WriteAddress := go_merge (\<lambda>x c. x) (ua_WriteAddress d) (ua_WriteAddress m),
           ua_Count := ua_Count m + ua_Count d,
           ua_WriteAddressStatus := was\<rparr>,
         d\<lparr>ua_InputStatus := dis\<rparr>)))"

text \<open>\<open>proto.Merge\<close> belongs to the protobuf library and is the parameter \<open>pmerge\<close>.\<close>

definition mergeFileOperations ::
  "(FileOperationsFunction \<Rightarrow> FileOperationsFunction \<Rightarrow> FileOperationsFunction)
    \<Rightarrow> FileOperations \<Rightarrow> FileOperations \<Rightarrow> FileOperations res" where
  "mergeFileOperations pmerge m d =
    rbind (guard_fatal (fo_Name m = fo_Name d) ''mergeFileOperations with error name'') (\<lambda>_.
    Inr (m\<lparr>fo_FileOperationsFunction :=
             go_merge pmerge (fo_FileOperationsFunction d) (fo_FileOperationsFunction m)\<rparr>))"

definition mergeWriteAddress :: "WriteAddress \<Rightarrow> WriteAddress \<Rightarrow> WriteAddress" where
  "mergeWriteAddress m d = m\<lparr>
     wa_UncoveredAddress := go_merge (\<lambda>x c. x) (wa_UncoveredAddress d) (wa_UncoveredAddress m),
     wa_FileOperationsFunction := go_merge (OR) (wa_FileOperationsFunction d) (wa_FileOperationsFunction m),
     wa_Input := go_merge (OR) (wa_Input d) (wa_Input m)\<rparr>"

definition mergeRunTimeData :: "RunTimeData \<Rightarrow> RunTimeData option \<Rightarrow> RunTimeData res" where
  "mergeRunTimeData m d' =
    (case d' of None \<Rightarrow> Inl (Fatal ''mergeRunTimeData with nil d'')
     | Some d \<Rightarrow>
       Inr (if rtd_TaskStatus m \<le> rtd_TaskStatus d then
              m\<lparr>rtd_TaskStatus := rtd_TaskStatus d,
                rtd_Program := rtd_Program d,
                rtd_Idx := rtd_Idx d,
                rtd_CheckWrite := rtd_CheckWrite d,
                rtd_CheckCondition := rtd_CheckCondition d,
                rtd_CheckAddress := rtd_CheckAddress d,
                rtd_CheckRightBranchAddress := rtd_CheckRightBranchAddress d\<rparr>
            else m))"

text \<open>The loop over uncovered addresses that \<open>mergeTaskRunTimeData\<close> and \<open>mergeTask\<close> share.\<close>

definition merge_uncovered :: "uint32 \<times> RunTimeData \<Rightarrow> rtd_map \<Rightarrow> rtd_map res" where
  "merge_uncovered e m =
    (case go_get m (fst e) of
       Some r \<Rightarrow> rbind (mergeRunTimeData r (Some (snd e))) (\<lambda>r'. go_put (fst e) r' m)
     | None \<Rightarrow> go_put (fst e) (snd e) m)"

definition mergeTaskRunTimeData ::
  "TaskRunTimeData \<Rightarrow> TaskRunTimeData option \<Rightarrow> (TaskRunTimeData \<times> TaskRunTimeData) res" where
  "mergeTaskRunTimeData m d' =
    (case d' of None \<Rightarrow> Inl (Fatal ''mergeTaskRunTimeData with nil d'')
     | Some d \<Rightarrow>
       rbind (guard_fatal (trd_Hash m = trd_Hash d) ''mergeTaskRunTimeData with error hash'') (\<lambda>_.
       let cov = go_copy_into (trd_CoveredAddress d) (make_if_nil (trd_CoveredAddress m));
           munc = go_filter (\<lambda>u. \<not> go_has cov u) (trd_UncoveredAddress m);
           dunc = go_filter (\<lambda>u. \<not> go_has cov u) (trd_UncoveredAddress d)
       in rbind (rfold merge_uncovered (go_range dunc) munc) (\<lambda>unc.
          Inr (m\<lparr>trd_Check := trd_Check m \<or> trd_Check d,
                 trd_CoveredAddress := cov,
                 trd_UncoveredAddress := unc\<rparr>,
               d\<lparr>trd_UncoveredAddress := dunc\<rparr>))))"

definition increasePriority :: "Task \<Rightarrow> Task" where
  "increasePriority m = m\<lparr>t_Priority := t_Priority m + 1\<rparr>"

definition reducePriority :: "Task \<Rightarrow> Task" where
  "reducePriority m = m\<lparr>t_Priority := t_Priority m - 1\<rparr>"

definition modifyPriority :: "Task \<Rightarrow> Task \<Rightarrow> Task" where
  "modifyPriority m t =
    (if t_TaskStatus t = TaskStatus_unstable then reducePriority m
     else if t_TaskStatus t = TaskStatus_tested then reducePriority m
     else m)"

text \<open>\<^verbatim>\<open>for i, t := range s { m[i].mergeTaskRunTimeData(t) }\<close> on slices of one length.\<close>

fun merge_trds :: "TaskRunTimeData list \<Rightarrow> TaskRunTimeData list
    \<Rightarrow> (TaskRunTimeData list \<times> TaskRunTimeData list) res" where
  "merge_trds (m # ms) (s # ss) =
    rbind (mergeTaskRunTimeData m (Some s)) (\<lambda>(m', s').
    rbind (merge_trds ms ss) (\<lambda>(ms', ss'). Inr (m' # ms', s' # ss')))"
| "merge_trds ms ss = Inr (ms, ss)"

text \<open>The fields of the receiver that \<open>mergeTask\<close> sets besides the run-time data.\<close>

definition merge_task_fields :: "Task \<Rightarrow> Task \<Rightarrow> rtd_map \<Rightarrow> rtd_map \<Rightarrow> Task" where
  "merge_task_fields m s cov unc = m\<lparr>
     t_Count := t_Count m + t_Count s,
     t_CoveredAddress := cov,
     t_UncoveredAddress := unc,
     t_TaskStatus := (if t_TaskStatus m = TaskStatus_untested then t_TaskStatus m
                      else if t_TaskStatus m < t_TaskStatus s then t_TaskStatus s
                      else t_TaskStatus m),
     t_Check := t_Check s \<or> t_Check m\<rparr>"

definition mergeTask :: "Task \<Rightarrow> Task \<Rightarrow> (Task \<times> Task) res" where
  "mergeTask m s =
    (let cov = go_copy_into (t_CoveredAddress s) (make_if_nil (t_CoveredAddress m));
         munc = go_filter (\<lambda>u. \<not> go_has cov u) (make_if_nil (t_UncoveredAddress m))
     in rbind (rfold merge_uncovered (go_range (t_UncoveredAddress s)) munc) (\<lambda>unc.
        let m1 = merge_task_fields m s cov unc;
            mt = t_TaskRunTimeData m; st = t_TaskRunTimeData s
        in if mt = [] then Inr (m1\<lparr>t_TaskRunTimeData := st\<rparr>, s)
           else if st = [] then Inr (m1, s)
           else if length mt = length st then
             rbind (merge_trds mt st) (\<lambda>(mt', st').
               Inr (m1\<lparr>t_TaskRunTimeData := mt'\<rparr>, s\<lparr>t_TaskRunTimeData := st'\<rparr>))
           else Inl (Fatal ''mergeTask with error number of TaskRunTimeData'')))"

definition mergeUnstableInput :: "UnstableInput \<Rightarrow> UnstableInput option \<Rightarrow> UnstableInput res" where
  "mergeUnstableInput m d' =
    (case d' of None \<Rightarrow> Inr m
     | Some d \<Rightarrow>
       rmap (\<lambda>al. m\<lparr>ui_UnstablePath := ui_UnstablePath m @ ui_UnstablePath d, ui_Address := al\<rparr>)
         (rfold (\<lambda>(address, indexBits) al. case go_get al address of
              Some x \<Rightarrow> go_put address (x OR indexBits) al
            | None \<Rightarrow> go_put address indexBits al)
          (go_range (ui_Address d)) (ui_Address m)))"


section \<open>What the merges compute\<close>

subsection \<open>Shared facts\<close>

lemma make_if_nil_simps [simp]:
  "make_if_nil m \<noteq> None"
  "go_get (make_if_nil m) = go_get m"
  "go_range (make_if_nil m) = go_range m"
  "go_keys (make_if_nil m) = go_keys m"
  "wfm (make_if_nil m) \<longleftrightarrow> wfm m"
  by (cases m; simp add: make_if_nil_def wfm_def fun_eq_iff)+

text \<open>The pure part of \<open>mergeRunTimeData\<close>.\<close>

definition rtd_join :: "RunTimeData \<Rightarrow> RunTimeData \<Rightarrow> RunTimeData" where
  "rtd_join m d = (case mergeRunTimeData m (Some d) of Inr r \<Rightarrow> r | Inl e \<Rightarrow> m)"

lemma mergeRunTimeData_Some [simp]: "mergeRunTimeData m (Some d) = Inr (rtd_join m d)"
  by (simp add: rtd_join_def mergeRunTimeData_def)

lemma rtd_join_status: "rtd_TaskStatus (rtd_join m d) = max (rtd_TaskStatus m) (rtd_TaskStatus d)"
  by (simp add: rtd_join_def mergeRunTimeData_def max_def)

lemma rtd_join_frame:
  "rtd_Priority (rtd_join m d) = rtd_Priority m"
  "rtd_WriteAddress (rtd_join m d) = rtd_WriteAddress m"
  "rtd_ConditionAddress (rtd_join m d) = rtd_ConditionAddress m"
  "rtd_Address (rtd_join m d) = rtd_Address m"
  by (simp_all add: rtd_join_def mergeRunTimeData_def)

lemma rfold_merge_uncovered:
  assumes "m \<noteq> None"
  shows "rfold merge_uncovered (go_range d) m = Inr (go_merge rtd_join d m)"
proof -
  have "m \<noteq> None \<Longrightarrow> rfold merge_uncovered al m = Inr (fold (\<lambda>(i, c) m. case go_get m i of
      Some x \<Rightarrow> go_set i (rtd_join x c) m | None \<Rightarrow> go_set i c m) al m)" for al
    by (induction al arbitrary: m)
       (auto simp: merge_uncovered_def go_put_conv simp del: not_None_eq split: option.split)
  with assms show ?thesis by (simp add: go_merge_def)
qed

subsection \<open>Inputs\<close>

definition call_addresses :: "Input \<Rightarrow> uint32 \<Rightarrow> uint32 set" where
  "call_addresses i k = (case go_get (i_Call i) k of None \<Rightarrow> {} | Some c \<Rightarrow> set (go_keys (c_Address c)))"

definition index_set :: "('k, uint32) gomap \<Rightarrow> 'k \<Rightarrow> uint32 set" where
  "index_set m k = (case go_get m k of None \<Rightarrow> {} | Some w \<Rightarrow> set (bit_indices w))"

definition wf_input :: "Input \<Rightarrow> bool" where
  "wf_input i \<longleftrightarrow> wfm (i_Call i) \<and> wfm (i_UncoveredAddress i) \<and> wfm (i_WriteAddress i)"

lemma index_set_merge [go_map]:
  "wfm d \<Longrightarrow> index_set (go_merge (OR) d m) k = index_set m k \<union> index_set d k"
  by (auto simp: index_set_def go_get_merge bit_indices_or opt_merge_def split: option.splits)

lemma go_keys_fold_set: "set (go_keys (fold (\<lambda>(a, _). go_set a v) al m)) = set (go_keys m) \<union> fst ` set al"
  by (induction al arbitrary: m) auto

lemma merge_call_get:
  "go_get (merge_call (i, u) m) k =
    (if k = i then
       Some (let call = (case go_get m i of Some c \<Rightarrow> c | None \<Rightarrow> \<lparr>c_Idx = c_Idx u, c_Address = Some []\<rparr>)
             in call\<lparr>c_Address :=
                  fold (\<lambda>(a, _). go_set a 0) (go_range (c_Address u)) (make_if_nil (c_Address call))\<rparr>)
     else go_get m k)"
  by (simp add: merge_call_def Let_def)

definition call_keys :: "(uint32, Call) gomap \<Rightarrow> uint32 \<Rightarrow> uint32 set" where
  "call_keys m k = (case go_get m k of None \<Rightarrow> {} | Some c \<Rightarrow> set (go_keys (c_Address c)))"

lemma call_keys_merge_call:
  "call_keys (merge_call (i, u) m) k =
    (if k = i then call_keys m i \<union> set (go_keys (c_Address u)) else call_keys m k)"
  by (auto simp: call_keys_def merge_call_get go_keys_fold_set go_keys_def [of "c_Address u"]
      Let_def split: option.splits)

lemma call_keys_fold:
  "call_keys (fold merge_call al m) k =
    call_keys m k \<union> (\<Union>u \<in> {u. (k, u) \<in> set al}. set (go_keys (c_Address u)))"
  by (induction al arbitrary: m) (auto simp: call_keys_merge_call split: if_splits)

lemma wfm_merge_call [go_wf, simp]: "wfm m \<Longrightarrow> wfm (merge_call e m)"
  by (simp add: merge_call_def Let_def)

lemma call_keys_range:
  "wfm m \<Longrightarrow> (\<Union>u \<in> {u. (k, u) \<in> set (go_range m)}. set (go_keys (c_Address u))) = call_keys m k"
  by (auto simp: call_keys_def go_range_get split: option.splits)

lemma mergeInput_sel [simp]:
  "i_Sig (mergeInput m d) = i_Sig m"
  "i_Program (mergeInput m d) = i_Program m"
  "i_Stat (mergeInput m d) = i_Stat m"
  "i_UncoveredAddress (mergeInput m d) = go_merge (OR) (i_UncoveredAddress d) (i_UncoveredAddress m)"
  "i_WriteAddress (mergeInput m d) = go_merge (OR) (i_WriteAddress d) (i_WriteAddress m)"
  "i_Call (mergeInput m d) = fold merge_call (go_range (i_Call d)) (i_Call m)"
  by (simp_all add: mergeInput_def)

lemma wf_mergeInput [go_wf, simp]: "wf_input m \<Longrightarrow> wf_input (mergeInput m d)"
  by (auto simp: wf_input_def intro: fold_keep [of wfm])

text \<open>
  Merging an input unites, for every call index, the covered addresses, and for every
  uncovered and write address the sets of call indices. Nothing known before is lost and
  nothing else appears; the signature and the program stay the receiver's.
\<close>

lemma mergeInput_unites:
  assumes "wf_input d"
  shows "call_addresses (mergeInput m d) k = call_addresses m k \<union> call_addresses d k
    \<and> index_set (i_UncoveredAddress (mergeInput m d)) a
        = index_set (i_UncoveredAddress m) a \<union> index_set (i_UncoveredAddress d) a
    \<and> index_set (i_WriteAddress (mergeInput m d)) a
        = index_set (i_WriteAddress m) a \<union> index_set (i_WriteAddress d) a
    \<and> i_Sig (mergeInput m d) = i_Sig m \<and> i_Program (mergeInput m d) = i_Program m"
proof -
  have "call_addresses i j = call_keys (i_Call i) j" for i j
    by (simp add: call_addresses_def call_keys_def)
  with assms show ?thesis
    by (simp add: wf_input_def call_keys_fold call_keys_range index_set_merge)
qed

definition ex_input :: "uint32 \<Rightarrow> Input" where
  "ex_input b = Input_zero\<lparr>i_Sig := ''s'', i_Call := Some [(0, \<lparr>c_Idx = 0, c_Address = Some [(b, 0)]\<rparr>)],
     i_UncoveredAddress := Some [(7, b)]\<rparr>"

lemma mergeInput_unites_witness:
  "wf_input (ex_input 1) \<and> call_addresses (mergeInput (ex_input 2) (ex_input 1)) 0 = {1, 2}
    \<and> index_set (i_UncoveredAddress (mergeInput (ex_input 2) (ex_input 1))) 7 = {0, 1}"
proof -
  have 1: "wf_input (ex_input 1)" by code_simp
  have 2: "call_addresses (ex_input 1) 0 = {1}" "call_addresses (ex_input 2) 0 = {2}"
    "index_set (i_UncoveredAddress (ex_input 1)) 7 = {0}" "index_set (i_UncoveredAddress (ex_input 2)) 7 = {1}"
    by code_simp+
  show ?thesis using 1 mergeInput_unites [OF 1, of "ex_input 2" 0 7] unfolding 2 by auto
qed

subsection \<open>Uncovered addresses\<close>

lemma merge_was_get:
  "rfold merge_was al m = Inr m' \<Longrightarrow> go_get m' = go_get m"
  by (rule rfold_inv [where I = "\<lambda>x. go_get x = go_get m"])
     (auto simp: merge_was_def go_put_conv fun_eq_iff split: option.splits if_splits)

text \<open>
  What merging a report of an uncovered address does, whenever it does not abort. The
  index sets are united, the write addresses the receiver has keep their attributes and
  the others are added, and the statuses of the receiver are as they were.
\<close>

lemma mergeUncoveredAddress_effect:
  assumes "mergeUncoveredAddress m d = Inr (m', d')"
    and "wfm (ua_Input d)" and "wfm (ua_WriteAddress d)"
  shows "index_set (ua_Input m') sig = index_set (ua_Input m) sig \<union> index_set (ua_Input d) sig
    \<and> go_get (ua_WriteAddress m') w =
        (case go_get (ua_WriteAddress m) w of None \<Rightarrow> go_get (ua_WriteAddress d) w | Some x \<Rightarrow> Some x)
    \<and> ua_Count m' = ua_Count m + ua_Count d
    \<and> go_get (ua_WriteAddressStatus m') = go_get (ua_WriteAddressStatus m)
    \<and> ua_InputStatus m' = ua_InputStatus m"
  using assms
  by (auto simp: mergeUncoveredAddress_def rbind_Inr_conv index_set_merge go_get_merge opt_merge_def
      merge_was_get split: option.splits)

definition ex_ua :: "(uint32, TaskStatus) gomap \<Rightarrow> UncoveredAddress" where
  "ex_ua was = UncoveredAddress_zero\<lparr>ua_UncoveredAddress := 7, ua_Input := Some [(''s'', 1)], 
     ua_WriteAddress := Some [(9, \<lparr>waa_WriteAddress = 9, waa_Repeat = 0, waa_Prio = 3\<rparr>)], ua_Count := 5,
     ua_WriteAddressStatus := was\<rparr>"

lemma mergeUncoveredAddress_effect_witness:
  "(\<exists>m' d'. mergeUncoveredAddress (ex_ua (Some [(9, TaskStatus_untested)])) (ex_ua (Some [(9, TaskStatus_tested)])) = Inr (m', d')
     \<and> ua_Count m' = 10 \<and> go_get (ua_WriteAddressStatus m') 9 = Some TaskStatus_untested)"
proof -
  let ?m = "ex_ua (Some [(9, TaskStatus_untested)])" and ?d = "ex_ua (Some [(9, TaskStatus_tested)])"
  have 1: "(case mergeUncoveredAddress ?m ?d of Inr x \<Rightarrow> True | Inl e \<Rightarrow> False)" by code_simp
  then obtain m' d' where 2: "mergeUncoveredAddress ?m ?d = Inr (m', d')" by (auto split: sum.splits)
  have 3: "wfm (ua_Input ?d)" "wfm (ua_WriteAddress ?d)" "ua_Count ?m + ua_Count ?d = 10"
    "go_get (ua_WriteAddressStatus ?m) 9 = Some TaskStatus_untested" by code_simp+
  from mergeUncoveredAddress_effect [OF 2 3(1,2)] 2 3 show ?thesis by auto
qed

lemma mergeUncoveredAddress_fresh:
  assumes "go_range (ua_WriteAddressStatus d) = []" and "go_range (ua_InputStatus d) = []"
  shows "mergeUncoveredAddress m d =
    Inr (m\<lparr>ua_Input := go_merge (OR) (ua_Input d) (ua_Input m),
           ua_WriteAddress := go_merge (\<lambda>x c. x) (ua_WriteAddress d) (ua_WriteAddress m),
           ua_Count := ua_Count m + ua_Count d\<rparr>, d)"
  using assms by (simp add: mergeUncoveredAddress_def)


subsection \<open>Tasks\<close>

lemma rfold_merge_uncovered_Inr:
  assumes "rfold merge_uncovered (go_range d) m = Inr m'"
  shows "m' = go_merge rtd_join d m"
proof (cases "m = None")
  case True
  then have "go_range d = []"
    using assms by (cases "go_range d") (auto simp: merge_uncovered_def go_put_def)
  with assms show ?thesis by (simp add: go_merge_def)
next
  case False
  with assms rfold_merge_uncovered [of m d] show ?thesis by simp
qed

lemma mergeTaskRunTimeData_conv:
  assumes "mergeTaskRunTimeData m (Some d) = Inr (m', d')"
  shows "trd_CoveredAddress m' = go_copy_into (trd_CoveredAddress d) (make_if_nil (trd_CoveredAddress m))"
    and "trd_UncoveredAddress d' = go_filter (\<lambda>u. \<not> go_has (trd_CoveredAddress m') u) (trd_UncoveredAddress d)"
    and "trd_UncoveredAddress m' = go_merge rtd_join (trd_UncoveredAddress d')
          (go_filter (\<lambda>u. \<not> go_has (trd_CoveredAddress m') u) (trd_UncoveredAddress m))"
    and "trd_Check m' \<longleftrightarrow> trd_Check m \<or> trd_Check d" and "trd_Hash m' = trd_Hash m"
  using assms
  by (auto simp: mergeTaskRunTimeData_def Let_def rbind_Inr_conv dest!: rfold_merge_uncovered_Inr)

text \<open>
  Merging the run-time data of a task lets coverage win: an address either side saw
  covered is covered, and is uncovered on neither side any more, so the covered and the
  uncovered addresses are disjoint afterwards whatever they were before. Statuses of
  addresses that both sides still have uncovered rise to the higher of the two.
\<close>

lemma mergeTaskRunTimeData_covered_wins:
  assumes "mergeTaskRunTimeData m (Some d) = Inr (m', d')" and "wfm (trd_UncoveredAddress d)"
  shows "set (go_keys (trd_CoveredAddress m'))
      = set (go_keys (trd_CoveredAddress m)) \<union> set (go_keys (trd_CoveredAddress d))
    \<and> set (go_keys (trd_UncoveredAddress m'))
      = (set (go_keys (trd_UncoveredAddress m)) \<union> set (go_keys (trd_UncoveredAddress d)))
          - set (go_keys (trd_CoveredAddress m'))
    \<and> set (go_keys (trd_UncoveredAddress d')) \<inter> set (go_keys (trd_CoveredAddress m')) = {}
    \<and> (\<forall>u r r1 r2. go_get (trd_UncoveredAddress m') u = Some r \<longrightarrow>
         go_get (trd_UncoveredAddress m) u = Some r1 \<longrightarrow> go_get (trd_UncoveredAddress d) u = Some r2 \<longrightarrow>
         rtd_TaskStatus r = max (rtd_TaskStatus r1) (rtd_TaskStatus r2))"
proof -
  note c = mergeTaskRunTimeData_conv [OF assms(1)]
  have "wfm (trd_UncoveredAddress d')" using assms(2) by (simp add: c(2))
  then show ?thesis
    by (auto simp: c(1-3) go_keys_copy_into go_keys_merge go_get_merge rtd_join_status
        split: if_splits)
qed

definition ex_trd :: "rtd_map \<Rightarrow> rtd_map \<Rightarrow> TaskRunTimeData" where
  "ex_trd unc cov = TaskRunTimeData_zero\<lparr>trd_Hash := ''h'', trd_UncoveredAddress := unc, trd_CoveredAddress := cov\<rparr>"

lemma mergeTaskRunTimeData_covered_wins_witness:
  "\<exists>m' d'. mergeTaskRunTimeData (ex_trd (Some [(7, RunTimeData_zero)]) None)
      (Some (ex_trd (Some [(8, RunTimeData_zero)]) (Some [(7, RunTimeData_zero)]))) = Inr (m', d')
    \<and> set (go_keys (trd_CoveredAddress m')) = {7} \<and> set (go_keys (trd_UncoveredAddress m')) = {8}"
proof -
  let ?m = "ex_trd (Some [(7, RunTimeData_zero)]) None"
  let ?d = "ex_trd (Some [(8, RunTimeData_zero)]) (Some [(7, RunTimeData_zero)])"
  have 1: "(case mergeTaskRunTimeData ?m (Some ?d) of Inr x \<Rightarrow> True | Inl e \<Rightarrow> False)" by code_simp
  then obtain m' d' where 2: "mergeTaskRunTimeData ?m (Some ?d) = Inr (m', d')" by (auto split: sum.splits)
  have 3: "wfm (trd_UncoveredAddress ?d)" "go_keys (trd_UncoveredAddress ?m) = [7]" "go_keys (trd_CoveredAddress ?m) = []"
    "go_keys (trd_UncoveredAddress ?d) = [8]" "go_keys (trd_CoveredAddress ?d) = [7]" by code_simp+
  from mergeTaskRunTimeData_covered_wins [OF 2 3(1)] 2 3 show ?thesis by auto
qed

lemma merge_task_fields_sel [simp]:
  "t_Count (merge_task_fields m s cov unc) = t_Count m + t_Count s"
  "t_CoveredAddress (merge_task_fields m s cov unc) = cov"
  "t_UncoveredAddress (merge_task_fields m s cov unc) = unc"
  "t_TaskStatus (merge_task_fields m s cov unc) = (if t_TaskStatus m = TaskStatus_untested
    then TaskStatus_untested else max (t_TaskStatus m) (t_TaskStatus s))"
  "t_Check (merge_task_fields m s cov unc) \<longleftrightarrow> t_Check s \<or> t_Check m"
  "t_Hash (merge_task_fields m s cov unc) = t_Hash m"
  "t_Priority (merge_task_fields m s cov unc) = t_Priority m"
  "t_TaskRunTimeData (merge_task_fields m s cov unc) = t_TaskRunTimeData m"
  by (auto simp: merge_task_fields_def max_def)

lemma mergeTask_shape:
  assumes "mergeTask m s = Inr (m', s')"
  shows "\<exists>mt st. m' = (merge_task_fields m s
      (go_copy_into (t_CoveredAddress s) (make_if_nil (t_CoveredAddress m)))
      (go_merge rtd_join (t_UncoveredAddress s)
        (go_filter (\<lambda>u. \<not> go_has (go_copy_into (t_CoveredAddress s) (make_if_nil (t_CoveredAddress m))) u)
          (make_if_nil (t_UncoveredAddress m)))))\<lparr>t_TaskRunTimeData := mt\<rparr>
    \<and> s' = s\<lparr>t_TaskRunTimeData := st\<rparr>"
proof -
  let ?cov = "go_copy_into (t_CoveredAddress s) (make_if_nil (t_CoveredAddress m))"
  let ?munc = "go_filter (\<lambda>u. \<not> go_has ?cov u) (make_if_nil (t_UncoveredAddress m))"
  let ?m1 = "merge_task_fields m s ?cov (go_merge rtd_join (t_UncoveredAddress s) ?munc)"
  have self: "\<exists>mt. t = t\<lparr>t_TaskRunTimeData := mt\<rparr>" for t :: Task
    by (rule exI [of _ "t_TaskRunTimeData t"]) simp
  obtain unc where u: "rfold merge_uncovered (go_range (t_UncoveredAddress s)) ?munc = Inr unc"
    using assms by (auto simp: mergeTask_def Let_def rbind_Inr_conv)
  have eq: "mergeTask m s =
     (if t_TaskRunTimeData m = [] then Inr (?m1\<lparr>t_TaskRunTimeData := t_TaskRunTimeData s\<rparr>, s)
      else if t_TaskRunTimeData s = [] then Inr (?m1, s)
      else if length (t_TaskRunTimeData m) = length (t_TaskRunTimeData s) then
        rbind (merge_trds (t_TaskRunTimeData m) (t_TaskRunTimeData s)) (\<lambda>(mt', st').
          Inr (?m1\<lparr>t_TaskRunTimeData := mt'\<rparr>, s\<lparr>t_TaskRunTimeData := st'\<rparr>))
      else Inl (Fatal ''mergeTask with error number of TaskRunTimeData''))"
    unfolding mergeTask_def Let_def u rfold_merge_uncovered_Inr [OF u] by simp
  show ?thesis
    using assms self [of s] self [of ?m1] unfolding eq
    by (simp only: rbind_Inr_conv sum.inject prod.inject sum.distinct simp_thms split_def
        split: if_split_asm) blast+
qed

lemma mergeTask_conv:
  assumes "mergeTask m s = Inr (m', s')"
  shows "t_CoveredAddress m' = go_copy_into (t_CoveredAddress s) (make_if_nil (t_CoveredAddress m))"
    and "t_UncoveredAddress m' = go_merge rtd_join (t_UncoveredAddress s)
          (go_filter (\<lambda>u. \<not> go_has (t_CoveredAddress m') u) (make_if_nil (t_UncoveredAddress m)))"
    and "t_Count m' = t_Count m + t_Count s" and "t_Check m' \<longleftrightarrow> t_Check s \<or> t_Check m"
    and "t_TaskStatus m' = (if t_TaskStatus m = TaskStatus_untested then TaskStatus_untested
          else max (t_TaskStatus m) (t_TaskStatus s))"
    and "t_Hash m' = t_Hash m"
  using mergeTask_shape [OF assms] by (auto simp: max_def)

text \<open>
  Merging a returned task. Counts add up (modulo \<open>2 ^ 32\<close>), covered addresses are
  united, an untested receiver stays untested and otherwise the status rises to the
  higher one. The addresses uncovered afterwards are those of the receiver that nobody
  saw covered, together with \<^emph>\<open>all\<close> uncovered addresses of the argument: one that the
  receiver already knows to be covered comes back.
\<close>

lemma mergeTask_effect:
  assumes "mergeTask m s = Inr (m', s')"
  shows "t_Count m' = t_Count m + t_Count s
    \<and> set (go_keys (t_CoveredAddress m'))
        = set (go_keys (t_CoveredAddress m)) \<union> set (go_keys (t_CoveredAddress s))
    \<and> set (go_keys (t_UncoveredAddress m'))
        = (set (go_keys (t_UncoveredAddress m)) - set (go_keys (t_CoveredAddress m')))
            \<union> set (go_keys (t_UncoveredAddress s))
    \<and> t_TaskStatus m' = (if t_TaskStatus m = TaskStatus_untested then TaskStatus_untested
        else max (t_TaskStatus m) (t_TaskStatus s))
    \<and> t_Hash m' = t_Hash m"
  by (auto simp: mergeTask_conv [OF assms] go_keys_copy_into go_keys_merge)

definition ex_task :: "rtd_map \<Rightarrow> rtd_map \<Rightarrow> Task" where
  "ex_task unc cov = Task_zero\<lparr>t_Sig := ''s'', t_Count := 1, t_TaskStatus := TaskStatus_testing,
     t_UncoveredAddress := unc, t_CoveredAddress := cov, t_TaskRunTimeData := [ex_trd unc cov]\<rparr>"

lemma mergeTask_effect_witness:
  "\<exists>m' s'. mergeTask (ex_task None (Some [(7, RunTimeData_zero)])) (ex_task (Some [(7, RunTimeData_zero)]) None) = Inr (m', s')
    \<and> t_Count m' = 2 \<and> 7 \<in> set (go_keys (t_CoveredAddress m')) \<inter> set (go_keys (t_UncoveredAddress m'))"
proof -
  let ?m = "ex_task None (Some [(7, RunTimeData_zero)])"
  let ?s = "ex_task (Some [(7, RunTimeData_zero)]) None"
  have 1: "(case mergeTask ?m ?s of Inr x \<Rightarrow> True | Inl e \<Rightarrow> False)" by code_simp
  then obtain m' s' where 2: "mergeTask ?m ?s = Inr (m', s')" by (auto split: sum.splits)
  have 3: "t_Count ?m + t_Count ?s = 2" "go_keys (t_CoveredAddress ?m) = [7]" "go_keys (t_UncoveredAddress ?s) = [7]"
     by code_simp+
  from mergeTask_effect [OF 2] 2 3 show ?thesis by auto
qed

lemma merge_trds_total:
  assumes "length ms = length ss"
    and "\<forall>i < length ms. trd_Hash (ms ! i) = trd_Hash (ss ! i) \<and> trd_UncoveredAddress (ms ! i) \<noteq> None"
  shows "\<exists>ms' ss'. merge_trds ms ss = Inr (ms', ss') \<and> length ms' = length ms"
  using assms
proof (induction ms ss rule: list_induct2)
  case Nil
  then show ?case by simp
next
  case (Cons m ms s ss)
  have "trd_Hash m = trd_Hash s" "trd_UncoveredAddress m \<noteq> None"
    using Cons.prems [rule_format, of 0] by auto
  then obtain m' s' where 1: "mergeTaskRunTimeData m (Some s) = Inr (m', s')"
    by (auto simp: mergeTaskRunTimeData_def Let_def rfold_merge_uncovered go_filter_def)
  have "\<forall>i < length ms. trd_Hash (ms ! i) = trd_Hash (ss ! i) \<and> trd_UncoveredAddress (ms ! i) \<noteq> None"
    using Cons.prems by auto
  then obtain ms' ss' where "merge_trds ms ss = Inr (ms', ss')" "length ms' = length ms"
    using Cons.IH by blast
  with 1 show ?case by simp
qed

text \<open>
  When \<open>mergeTask\<close> returns. It does not abort and does not panic when one side has no
  run-time data, or both have the same number and the records agree on their hashes (and
  the receiver's maps exist); with different numbers it aborts.
\<close>

lemma mergeTask_returns:
  assumes "t_TaskRunTimeData m = [] \<or> t_TaskRunTimeData s = [] \<or>
     (length (t_TaskRunTimeData m) = length (t_TaskRunTimeData s) \<and>
      (\<forall>i < length (t_TaskRunTimeData m).
         trd_Hash (t_TaskRunTimeData m ! i) = trd_Hash (t_TaskRunTimeData s ! i) \<and>
         trd_UncoveredAddress (t_TaskRunTimeData m ! i) \<noteq> None))"
  shows "\<exists>m' s'. mergeTask m s = Inr (m', s')"
proof -
  have *: "go_filter P (make_if_nil x) \<noteq> None" for P and x :: rtd_map
    by (cases x) (auto simp: go_filter_def make_if_nil_def)
  show ?thesis
  proof (cases "t_TaskRunTimeData m = [] \<or> t_TaskRunTimeData s = []")
    case True
    then show ?thesis by (auto simp: mergeTask_def Let_def rfold_merge_uncovered *)
  next
    case False
    then have len: "length (t_TaskRunTimeData m) = length (t_TaskRunTimeData s)"
      using assms by blast
    from False assms obtain ms' ss' where
      "merge_trds (t_TaskRunTimeData m) (t_TaskRunTimeData s) = Inr (ms', ss')"
      using merge_trds_total [OF len] by blast
    with len False show ?thesis by (simp add: mergeTask_def Let_def rfold_merge_uncovered *)
  qed
qed

lemma mergeTask_returns_witness:
  "\<exists>m' s'. mergeTask (ex_task (Some []) None) (ex_task (Some [(7, RunTimeData_zero)]) None) = Inr (m', s')"
  by (rule mergeTask_returns) code_simp

end
