(* ===== verification/Dra_Tasks.thy ===== *)
theory Dra_Tasks
  imports Dra_Merge Complex_Main
begin

text \<open>
  Tasks and the \<open>Tasks\<close> container of \<open>pkg/dra\<close>.

  A \<open>Tasks\<close> reaches each of its tasks twice, through \<open>TaskMap\<close> by hash and through
  \<open>TaskArray\<close> in order, and the server changes a task through one and reads it through
  the other. So tasks live in a store (\<open>task_store\<close>) and the container holds references.
  \<open>wf_tasks\<close> says that map and array reach the same tasks, each under its own hash; every
  operation keeps it, \<open>AddTask\<close> never aborts under it, and the container is a queue of
  distinct hashes (locale \<open>keyed_queue\<close>).
\<close>

section \<open>The store\<close>

record task_store =
  heap :: "ref \<rightharpoonup> Task"
  next_ref :: ref

definition deref :: "task_store \<Rightarrow> ref \<Rightarrow> Task res" where
  "deref st r = (case heap st r of None \<Rightarrow> Inl (Panic ''nil pointer dereference'') | Some t \<Rightarrow> Inr t)"

definition assign :: "ref \<Rightarrow> Task \<Rightarrow> task_store \<Rightarrow> task_store" where
  "assign r t st = st\<lparr>heap := (heap st)(r \<mapsto> t)\<rparr>"

definition new_task :: "Task \<Rightarrow> task_store \<Rightarrow> ref \<times> task_store" where
  "new_task t st = (next_ref st, st\<lparr>heap := (heap st)(next_ref st \<mapsto> t), next_ref := Suc (next_ref st)\<rparr>)"

definition empty_store :: task_store where
  "empty_store = \<lparr>heap = Map.empty, next_ref = 0\<rparr>"

text \<open>References that have not been handed out yet lead nowhere.\<close>

definition wf_store :: "task_store \<Rightarrow> bool" where
  "wf_store st \<longleftrightarrow> (\<forall>r. heap st r \<noteq> None \<longrightarrow> r < next_ref st)"

section \<open>Hashes\<close>

text \<open>\<open>strconv.FormatInt(n, 10)\<close> for the numbers the code prints, which are not negative.\<close>

fun FormatInt :: "nat \<Rightarrow> string" where
  "FormatInt n = (if n < 10 then [char_of (48 + n)]
                  else FormatInt (n div 10) @ [char_of (48 + n mod 10)])"

declare FormatInt.simps [simp del]

text \<open>The verb \<^verbatim>\<open>%x\<close> of \<open>fmt.Sprintf\<close>.\<close>

fun hex :: "nat \<Rightarrow> string" where
  "hex n = (if n < 16 then [''0123456789abcdef'' ! n] else hex (n div 16) @ [''0123456789abcdef'' ! (n mod 16)])"

declare hex.simps [simp del]

definition computed_hash :: "Task \<Rightarrow> string" where
  "computed_hash m = t_Sig m @ FormatInt (unat (t_Index m)) @ t_WriteSig m @ FormatInt (unat (t_WriteIndex m))"

text \<open>\<open>ComputeHash\<close> remembers the hash in the task; \<open>task_hash\<close> is what it returns.\<close>

definition task_hash :: "Task \<Rightarrow> string" where
  "task_hash m = (if t_Hash m = '''' then computed_hash m else t_Hash m)"

definition ComputeHash :: "Task \<Rightarrow> string \<times> Task" where
  "ComputeHash m =
    (let m' = (if t_Hash m = '''' then m\<lparr>t_Hash := computed_hash m\<rparr> else m) in (t_Hash m', m'))"

definition compute_hash_at :: "ref \<Rightarrow> task_store \<Rightarrow> (string \<times> task_store) res" where
  "compute_hash_at r st = rbind (deref st r) (\<lambda>t. let (h, t') = ComputeHash t in Inr (h, assign r t' st))"

section \<open>The container\<close>

definition Tasks_new :: "string \<Rightarrow> TaskKind \<Rightarrow> Tasks" where
  "Tasks_new name kind = \<lparr>ts_Name = name, ts_Kind = kind, ts_TaskMap = Some [], ts_TaskArray = []\<rparr>"

definition AddTask :: "ref \<Rightarrow> Tasks \<times> task_store \<Rightarrow> (Tasks \<times> task_store) res" where
  "AddTask r s =
    (let m = fst s; st = snd s; tm = make_if_nil (ts_TaskMap m) in
     rbind (guard_fatal (go_len tm = length (ts_TaskArray m)) (ts_Name m @ '' : len(m.Task) != len(m.Tasks)'')) (\<lambda>_.
     rbind (compute_hash_at r st) (\<lambda>(h, st').
       if go_has tm h then Inr (m\<lparr>ts_TaskMap := tm\<rparr>, st')
       else Inr (m\<lparr>ts_TaskMap := go_set h r tm, ts_TaskArray := ts_TaskArray m @ [r]\<rparr>, st'))))"

definition AddTasks :: "Tasks \<Rightarrow> Tasks \<times> task_store \<Rightarrow> (Tasks \<times> task_store) res" where
  "AddTasks t s = rbind (rfold AddTask (map snd (go_range (ts_TaskMap t))) s) (rfold AddTask (ts_TaskArray t))"

definition emptyTask :: "Tasks \<Rightarrow> Tasks" where
  "emptyTask m = m\<lparr>ts_TaskMap := Some [], ts_TaskArray := []\<rparr>"

text \<open>The loop of \<open>pop\<close>: the state is the container, the popped tasks and the store.\<close>

definition pop_one :: "ref \<Rightarrow> Tasks \<times> Tasks \<times> task_store \<Rightarrow> (Tasks \<times> Tasks \<times> task_store) res" where
  "pop_one r s =
    (case s of (m, tasks, st) \<Rightarrow>
     rbind (compute_hash_at r st) (\<lambda>(h, st1).
     rbind (AddTask r (tasks, st1)) (\<lambda>(tasks', st2).
     Inr (m\<lparr>ts_TaskMap := go_del h (ts_TaskMap m)\<rparr>, tasks', st2))))"

definition pop_tasks :: "nat \<Rightarrow> Tasks \<times> task_store \<Rightarrow> (Tasks \<times> Tasks \<times> task_store) res" where
  "pop_tasks number s =
    (let m = fst s; st = snd s in
     rbind (guard_fatal (number \<le> length (ts_TaskArray m)) (ts_Name m @ '' : number > len(m.Tasks)'')) (\<lambda>_.
     rfold pop_one (take number (ts_TaskArray m))
       (m\<lparr>ts_TaskArray := drop number (ts_TaskArray m)\<rparr>, Tasks_new (ts_Name m) TaskKind_Normal, st)))"

definition updatePriority :: "int32 \<Rightarrow> Task \<Rightarrow> Task" where
  "updatePriority p1 m = m\<lparr>t_Priority := p1\<rparr>"

definition rtd_updatePriority :: "uint32 \<Rightarrow> RunTimeData \<Rightarrow> RunTimeData" where
  "rtd_updatePriority p1 m = m\<lparr>rtd_Priority := rtd_Priority m + p1\<rparr>"

text \<open>
  \<open>getRealPriority\<close> scales the (wrapping) sum of the priorities of the uncovered addresses
  by a power of two. The sum has 32 bits, so the \<open>float64\<close> product is exact while it stays
  in the normal range, that is for \<open>\<bar>Priority\<bar> < 990\<close>.
\<close>

definition priority_sum :: "Task \<Rightarrow> uint32" where
  "priority_sum m = fold (\<lambda>(_, r) p. p + rtd_Priority r) (go_range (t_UncoveredAddress m)) 0"

definition getRealPriority :: "Task \<Rightarrow> real" where
  "getRealPriority m = real (unat (priority_sum m)) * 2 powi (sint (t_Priority m))"

text \<open>
  \<open>(ss *Server) addTask\<close>: \<open>task\<close> is a new task for one uncovered address. A known hash
  takes over the address and becomes untested again; otherwise the task is added.
\<close>

definition retarget :: "uint32 \<Rightarrow> RunTimeData \<Rightarrow> Task \<Rightarrow> Task" where
  "retarget u dr t = t\<lparr>
     t_UncoveredAddress := (case go_get (t_UncoveredAddress t) u of
         Some r \<Rightarrow> go_set u (rtd_updatePriority (rtd_Priority dr) r) (t_UncoveredAddress t)
       | None \<Rightarrow> go_set u dr (t_UncoveredAddress t)),
     t_TaskStatus := TaskStatus_untested,
     t_Count := 0\<rparr>"

definition server_addTask :: "Task \<Rightarrow> Tasks \<times> task_store \<Rightarrow> (Tasks \<times> task_store) res" where
  "server_addTask task s =
    (case go_range (t_UncoveredAddress task) of
       [(u, dr)] \<Rightarrow>
         (let (r0, st0) = new_task task (snd s) in
          rbind (compute_hash_at r0 st0) (\<lambda>(h, st1).
          case go_get (ts_TaskMap (fst s)) h of
            Some r \<Rightarrow> rbind (deref st1 r) (\<lambda>t. Inr (fst s, assign r (retarget u dr t) st1))
          | None \<Rightarrow> AddTask r0 (fst s, st1)))
     | _ \<Rightarrow> Inl (Fatal ''AddTask more than one uncovered address''))"


section \<open>The interface of a queue of distinct keys\<close>

text \<open>
  What the server relies on: items are added at the end unless their key is already
  there, and taken from the front; neither fails.
\<close>

primrec picks :: "('q \<Rightarrow> ('q \<times> 'k list) res) \<Rightarrow> nat \<Rightarrow> 'q \<Rightarrow> ('q \<times> 'k list) res" where
  "picks f 0 q = Inr (q, [])"
| "picks f (Suc n) q = rbind (f q) (\<lambda>(q', ks). rmap (\<lambda>(q'', ks'). (q'', ks @ ks')) (picks f n q'))"

locale keyed_queue =
  fixes invar :: "'q \<Rightarrow> bool" and keys :: "'q \<Rightarrow> 'k list" and key :: "'q \<Rightarrow> 'r \<Rightarrow> 'k option"
    and add :: "'r \<Rightarrow> 'q \<Rightarrow> 'q res" and pop :: "nat \<Rightarrow> 'q \<Rightarrow> ('q \<times> 'k list) res"
  assumes distinct_keys: "invar q \<Longrightarrow> distinct (keys q)"
    and add_ok: "invar q \<Longrightarrow> key q r = Some k \<Longrightarrow> \<exists>q'. add r q = Inr q' \<and> invar q' \<and> key q' = key q
      \<and> keys q' = (if k \<in> set (keys q) then keys q else keys q @ [k])"
    and pop_ok: "invar q \<Longrightarrow> n \<le> length (keys q) \<Longrightarrow>
      \<exists>q'. pop n q = Inr (q', take n (keys q)) \<and> invar q' \<and> key q' = key q \<and> keys q' = drop n (keys q)"
begin

lemma add_all_ok:
  assumes "invar q" and "\<forall>r \<in> set rs. key q r \<noteq> None"
  shows "\<exists>q'. rfold add rs q = Inr q' \<and> invar q' \<and> key q' = key q
    \<and> set (keys q') = set (keys q) \<union> (the \<circ> key q) ` set rs
    \<and> (\<exists>ks. keys q' = keys q @ ks)"
  using assms
proof (induction rs arbitrary: q)
  case Nil
  then show ?case by simp
next
  case (Cons r rs)
  then obtain k where k: "key q r = Some k" by auto
  from add_ok [OF Cons.prems(1) k] obtain q1 where
    q1: "add r q = Inr q1" "invar q1" "key q1 = key q"
      "keys q1 = (if k \<in> set (keys q) then keys q else keys q @ [k])" by blast
  from Cons.IH [OF q1(2)] Cons.prems(2) q1(3) obtain q' ks where
    q': "rfold add rs q1 = Inr q'" "invar q'" "key q' = key q"
      "set (keys q') = set (keys q1) \<union> (the \<circ> key q) ` set rs" "keys q' = keys q1 @ ks" by auto
  have "set (keys q') = set (keys q) \<union> (the \<circ> key q) ` set (r # rs)"
    using q'(4) q1(4) k by (auto split: if_splits)
  moreover have "\<exists>ks. keys q' = keys q @ ks" using q'(5) q1(4) by (auto split: if_splits)
  ultimately show ?case using q1(1) q'(1-3) by auto
qed

lemma picks_ok:
  assumes "invar q"
  shows "\<exists>q'. picks (\<lambda>q. pop (min b (length (keys q))) q) n q = Inr (q', take (n * b) (keys q))
    \<and> invar q' \<and> keys q' = drop (n * b) (keys q)"
  using assms
proof (induction n arbitrary: q)
  case 0
  then show ?case by simp
next
  case (Suc n)
  have m: "take (min b (length xs)) xs = take b xs" "drop (min b (length xs)) xs = drop b xs"
    for xs :: "'k list" by (auto simp: min_def)
  from pop_ok [OF Suc.prems, of "min b (length (keys q))"] obtain q1 where
    q1: "pop (min b (length (keys q))) q = Inr (q1, take b (keys q))" "invar q1"
      "keys q1 = drop b (keys q)" by (auto simp: m)
  from Suc.IH [OF q1(2)] obtain q' where
    "picks (\<lambda>q. pop (min b (length (keys q))) q) n q1 = Inr (q', take (n * b) (drop b (keys q)))"
    "invar q'" "keys q' = drop (n * b) (drop b (keys q))" using q1(3) by auto
  with q1(1) show ?case by (simp add: take_add [symmetric] add.commute)
qed

end

section \<open>The container is such a queue\<close>

definition hview :: "task_store \<Rightarrow> ref \<Rightarrow> string option" where
  "hview st r = map_option task_hash (heap st r)"

definition hashes :: "task_store \<Rightarrow> Tasks \<Rightarrow> string list" where
  "hashes st m = map (\<lambda>r. the (hview st r)) (ts_TaskArray m)"

definition wf_tasks :: "task_store \<Rightarrow> Tasks \<Rightarrow> bool" where
  "wf_tasks st m \<longleftrightarrow> wfm (ts_TaskMap m) \<and> distinct (ts_TaskArray m)
    \<and> (\<forall>r \<in> set (ts_TaskArray m). hview st r \<noteq> None)
    \<and> (\<forall>h r. go_get (ts_TaskMap m) h = Some r \<longleftrightarrow> r \<in> set (ts_TaskArray m) \<and> hview st r = Some h)"

lemma wf_tasks_cong: "hview st = hview st' \<Longrightarrow> wf_tasks st m \<longleftrightarrow> wf_tasks st' m"
  by (simp add: wf_tasks_def)

lemma hashes_cong: "hview st = hview st' \<Longrightarrow> hashes st m = hashes st' m"
  by (simp add: hashes_def)

lemma wf_tasks_inj:
  assumes "wf_tasks st m" "r \<in> set (ts_TaskArray m)" "r' \<in> set (ts_TaskArray m)" "hview st r = hview st r'"
  shows "r = r'"
proof -
  obtain h where "hview st r = Some h" using assms by (auto simp: wf_tasks_def)
  then have "go_get (ts_TaskMap m) h = Some r" "go_get (ts_TaskMap m) h = Some r'"
    using assms by (auto simp: wf_tasks_def)
  then show ?thesis by simp
qed

lemma distinct_hashes:
  assumes "wf_tasks st m"
  shows "distinct (hashes st m)"
proof -
  have "inj_on (\<lambda>r. the (hview st r)) (set (ts_TaskArray m))"
  proof (rule inj_onI)
    fix r r'
    assume r: "r \<in> set (ts_TaskArray m)" "r' \<in> set (ts_TaskArray m)" "the (hview st r) = the (hview st r')"
    then have "hview st r = hview st r'" using assms unfolding wf_tasks_def
      by (metis option.expand)
    with r assms show "r = r'" by (blast intro: wf_tasks_inj)
  qed
  then show ?thesis using assms by (simp add: hashes_def distinct_map wf_tasks_def)
qed

lemma keys_hashes: "wf_tasks st m \<Longrightarrow> set (go_keys (ts_TaskMap m)) = set (hashes st m)"
  by (force simp: wf_tasks_def go_key_iff hashes_def)

lemma wf_tasks_len:
  assumes "wf_tasks st m"
  shows "go_len (ts_TaskMap m) = length (ts_TaskArray m)"
proof -
  have "distinct (go_keys (ts_TaskMap m))" using assms by (simp add: wf_tasks_def wfm_def)
  then have "length (go_keys (ts_TaskMap m)) = length (hashes st m)"
    using distinct_hashes [OF assms] keys_hashes [OF assms] by (metis distinct_card)
  then show ?thesis by (simp add: go_len_def go_keys_def hashes_def)
qed

lemma task_hash_cached [simp]: "task_hash (t\<lparr>t_Hash := task_hash t\<rparr>) = task_hash t"
  by (simp add: task_hash_def computed_hash_def)

lemma compute_hash_at_ok:
  assumes "hview st r = Some h"
  shows "\<exists>st'. compute_hash_at r st = Inr (h, st') \<and> hview st' = hview st \<and> next_ref st' = next_ref st"
proof -
  obtain t where t: "heap st r = Some t" "h = task_hash t" using assms by (auto simp: hview_def)
  have "ComputeHash t = (task_hash t, t\<lparr>t_Hash := task_hash t\<rparr>)"
    by (simp add: ComputeHash_def task_hash_def)
  with t show ?thesis
    by (auto simp: compute_hash_at_def deref_def assign_def hview_def fun_eq_iff)
qed

lemma AddTask_ok:
  assumes wf: "wf_tasks st m" and h: "hview st r = Some h"
  shows "\<exists>m' st'. AddTask r (m, st) = Inr (m', st') \<and> wf_tasks st' m' \<and> hview st' = hview st
    \<and> next_ref st' = next_ref st
    \<and> ts_TaskArray m' = (if h \<in> set (hashes st m) then ts_TaskArray m else ts_TaskArray m @ [r])
    \<and> ts_Name m' = ts_Name m \<and> ts_Kind m' = ts_Kind m"
proof -
  obtain st' where st': "compute_hash_at r st = Inr (h, st')" "hview st' = hview st"
    "next_ref st' = next_ref st" using compute_hash_at_ok [OF h] by blast
  have len: "go_len (make_if_nil (ts_TaskMap m)) = length (ts_TaskArray m)"
    using wf_tasks_len [OF wf] by (simp add: go_len_def)
  have "wf_tasks st' (m\<lparr>ts_TaskMap := make_if_nil (ts_TaskMap m)\<rparr>)"
    using wf st'(2) by (simp add: wf_tasks_def)
  moreover have "h \<notin> set (hashes st m) \<Longrightarrow>
      wf_tasks st' (m\<lparr>ts_TaskMap := go_set h r (make_if_nil (ts_TaskMap m)), ts_TaskArray := ts_TaskArray m @ [r]\<rparr>)"
    using wf st'(2) h by (force simp: wf_tasks_def hashes_def)
  ultimately show ?thesis
    using len st' keys_hashes [OF wf] by (simp add: AddTask_def Let_def)
qed


lemma wf_Tasks_new [simp, inv_intros]: "wf_tasks st (Tasks_new name kind)"
  by (simp add: wf_tasks_def Tasks_new_def)

lemma wf_emptyTask [simp, inv_intros]: "wf_tasks st (emptyTask m)"
  by (simp add: wf_tasks_def emptyTask_def)

lemma wf_tasks_name [simp]:
  "wf_tasks st (m\<lparr>ts_Name := n\<rparr>) = wf_tasks st m"
  "wf_tasks st (m\<lparr>ts_Kind := k\<rparr>) = wf_tasks st m"
  by (simp_all add: wf_tasks_def)

text \<open>Taking the head of the array out of the map and out of the array together.\<close>

lemma wf_tasks_tail:
  assumes "wf_tasks st (m\<lparr>ts_TaskArray := r # rs\<rparr>)" and "hview st r = Some h"
  shows "wf_tasks st (m\<lparr>ts_TaskMap := go_del h (ts_TaskMap m), ts_TaskArray := rs\<rparr>)"
proof -
  have "r' \<in> set rs \<Longrightarrow> hview st r' \<noteq> Some h" for r'
    using wf_tasks_inj [OF assms(1), of r r'] assms by (auto simp: wf_tasks_def)
  then show ?thesis using assms by (auto simp: wf_tasks_def)
qed

lemma rfold_pop_one:
  assumes "wf_tasks st (m\<lparr>ts_TaskArray := rs @ rest\<rparr>)" and "wf_tasks st p"
    and "set (hashes st p) \<inter> (\<lambda>r. the (hview st r)) ` set rs = {}"
    and "ts_TaskArray m = rest"
  shows "\<exists>m' p' st'. rfold pop_one rs (m, p, st) = Inr (m', p', st') \<and> hview st' = hview st
    \<and> next_ref st' = next_ref st \<and> wf_tasks st' m' \<and> wf_tasks st' p'
    \<and> ts_TaskArray m' = rest \<and> ts_TaskArray p' = ts_TaskArray p @ rs
    \<and> ts_Name p' = ts_Name p \<and> ts_Kind p' = ts_Kind p"
  using assms
proof (induction rs arbitrary: m p st)
  case Nil
  then show ?case by (simp add: wf_tasks_def)
next
  case (Cons r rs)
  obtain h where h: "hview st r = Some h" using Cons.prems(1) by (auto simp: wf_tasks_def)
  obtain st1 where st1: "compute_hash_at r st = Inr (h, st1)" "hview st1 = hview st"
    "next_ref st1 = next_ref st" using compute_hash_at_ok [OF h] by blast
  have new: "h \<notin> set (hashes st1 p)" using Cons.prems(3) h hashes_cong [OF st1(2), of p] by auto
  have "wf_tasks st1 p" "hview st1 r = Some h"
    using Cons.prems(2) h wf_tasks_cong [OF st1(2)] st1(2) by auto
  from AddTask_ok [OF this] new obtain p1 st2 where
    p1: "AddTask r (p, st1) = Inr (p1, st2)" "wf_tasks st2 p1" "hview st2 = hview st"
      "next_ref st2 = next_ref st" "ts_TaskArray p1 = ts_TaskArray p @ [r]"
      "ts_Name p1 = ts_Name p" "ts_Kind p1 = ts_Kind p"
    using st1(2,3) by auto
  define m1 where "m1 = m\<lparr>ts_TaskMap := go_del h (ts_TaskMap m)\<rparr>"
  have "wf_tasks st (m1\<lparr>ts_TaskArray := rs @ rest\<rparr>)"
    using wf_tasks_tail [of st r "rs @ rest" m] Cons.prems(1) h by (simp add: m1_def)
  then have wf1: "wf_tasks st2 (m1\<lparr>ts_TaskArray := rs @ rest\<rparr>)"
    using wf_tasks_cong [OF p1(3)] by blast
  have "distinct (hashes st (m\<lparr>ts_TaskArray := (r # rs) @ rest\<rparr>))"
    using Cons.prems(1) by (rule distinct_hashes)
  then have dis: "set (hashes st2 p1) \<inter> (\<lambda>r. the (hview st2 r)) ` set rs = {}"
    using Cons.prems(3) h p1(3,5) by (auto simp: hashes_def)
  have "ts_TaskArray m1 = rest" using Cons.prems(4) by (simp add: m1_def)
  from Cons.IH [OF wf1 p1(2) dis this] obtain m' p' st' where
    "rfold pop_one rs (m1, p1, st2) = Inr (m', p', st')" "hview st' = hview st2"
    "next_ref st' = next_ref st2" "wf_tasks st' m'" "wf_tasks st' p'" "ts_TaskArray m' = rest"
    "ts_TaskArray p' = ts_TaskArray p1 @ rs" "ts_Name p' = ts_Name p1" "ts_Kind p' = ts_Kind p1"
    by blast
  moreover have "pop_one r (m, p, st) = Inr (m1, p1, st2)"
    using st1(1) p1(1) by (simp add: pop_one_def m1_def)
  ultimately show ?case using p1 by auto
qed

lemma pop_tasks_ok:
  assumes wf: "wf_tasks st m" and n: "n \<le> length (ts_TaskArray m)"
  shows "\<exists>m' p st'. pop_tasks n (m, st) = Inr (m', p, st') \<and> hview st' = hview st
    \<and> next_ref st' = next_ref st \<and> wf_tasks st' m' \<and> wf_tasks st' p
    \<and> ts_TaskArray m' = drop n (ts_TaskArray m) \<and> ts_TaskArray p = take n (ts_TaskArray m)
    \<and> ts_Name p = ts_Name m \<and> ts_Kind p = TaskKind_Normal"
proof -
  let ?m = "m\<lparr>ts_TaskArray := drop n (ts_TaskArray m)\<rparr>"
  have 1: "wf_tasks st (?m\<lparr>ts_TaskArray := take n (ts_TaskArray m) @ drop n (ts_TaskArray m)\<rparr>)"
    using wf by simp
  have 2: "set (hashes st (Tasks_new (ts_Name m) TaskKind_Normal)) \<inter>
      (\<lambda>r. the (hview st r)) ` set (take n (ts_TaskArray m)) = {}"
    by (simp add: hashes_def Tasks_new_def)
  from rfold_pop_one [OF 1 wf_Tasks_new 2] n show ?thesis
    by (auto simp: pop_tasks_def Tasks_new_def)
qed

text \<open>The container with its store, as the client of the interface sees it.\<close>

definition q_invar :: "Tasks \<times> task_store \<Rightarrow> bool" where
  "q_invar q \<longleftrightarrow> wf_tasks (snd q) (fst q)"

definition q_pop :: "nat \<Rightarrow> Tasks \<times> task_store \<Rightarrow> ((Tasks \<times> task_store) \<times> string list) res" where
  "q_pop n q = rmap (\<lambda>(m, p, st). ((m, st), hashes st p)) (pop_tasks n q)"

interpretation tq: keyed_queue q_invar "\<lambda>q. hashes (snd q) (fst q)" "\<lambda>q. hview (snd q)" AddTask q_pop
proof
  fix q r k
  assume "q_invar q" "hview (snd q) r = Some k"
  from AddTask_ok [OF this [unfolded q_invar_def]] this
  show "\<exists>q'. AddTask r q = Inr q' \<and> q_invar q' \<and> hview (snd q') = hview (snd q)
      \<and> hashes (snd q') (fst q') = (if k \<in> set (hashes (snd q) (fst q)) then hashes (snd q) (fst q)
          else hashes (snd q) (fst q) @ [k])"
    by (auto simp: q_invar_def hashes_def split: if_splits)
next
  fix q n
  assume "q_invar q" "n \<le> length (hashes (snd q) (fst q))"
  then have "wf_tasks (snd q) (fst q)" "n \<le> length (ts_TaskArray (fst q))"
    by (auto simp: q_invar_def hashes_def)
  from pop_tasks_ok [OF this]
  show "\<exists>q'. q_pop n q = Inr (q', take n (hashes (snd q) (fst q))) \<and> q_invar q'
      \<and> hview (snd q') = hview (snd q) \<and> hashes (snd q') (fst q') = drop n (hashes (snd q) (fst q))"
    by (auto simp: q_pop_def q_invar_def hashes_def take_map drop_map)
qed (simp add: q_invar_def distinct_hashes)

text \<open>
  \<open>AddTask\<close> on a well-formed container. It never aborts: map and array keep the same
  length and reach the same tasks, and a task is appended exactly when no task of its hash
  is there.
\<close>

lemma AddTask_keeps:
  assumes "wf_tasks st m" and "heap st r = Some t"
  shows "\<exists>m' st'. AddTask r (m, st) = Inr (m', st') \<and> wf_tasks st' m'
    \<and> go_len (ts_TaskMap m') = length (ts_TaskArray m')
    \<and> hashes st' m' = (if task_hash t \<in> set (hashes st m) then hashes st m else hashes st m @ [task_hash t])"
proof -
  have "q_invar (m, st)" "hview (snd (m, st)) r = Some (task_hash t)"
    using assms by (simp_all add: q_invar_def hview_def)
  from tq.add_ok [OF this] show ?thesis
    using wf_tasks_len by (auto simp: q_invar_def)
qed

definition ex_store :: task_store where
  "ex_store = \<lparr>heap = [0 \<mapsto> ex_task None None, 1 \<mapsto> (ex_task None None)\<lparr>t_Index := 1\<rparr>], next_ref = 2\<rparr>"

lemma AddTask_keeps_witness:
  "\<exists>m' st'. AddTask 0 (Tasks_new ''q'' TaskKind_Normal, ex_store) = Inr (m', st') \<and> hashes st' m' = [''s00'']"
proof -
  have 1: "heap ex_store 0 = Some (ex_task None None)" by (simp add: ex_store_def)
  have 2: "hashes ex_store (Tasks_new ''q'' TaskKind_Normal) = []" by (simp add: hashes_def Tasks_new_def)
  have 3: "task_hash (ex_task None None) = ''s00''" by code_simp
  from AddTask_keeps [OF wf_Tasks_new 1, of "''q''" TaskKind_Normal] show ?thesis by (auto simp: 2 3)
qed

text \<open>
  \<open>pop\<close> hands out the first \<open>number\<close> tasks in their order and keeps the others, both
  as well-formed containers; asked for more than there are it aborts.
\<close>

lemma pop_splits:
  assumes "wf_tasks st m"
  shows "(n \<le> length (ts_TaskArray m) \<longrightarrow>
      (\<exists>m' p st'. pop_tasks n (m, st) = Inr (m', p, st') \<and> wf_tasks st' m' \<and> wf_tasks st' p
        \<and> ts_TaskArray p @ ts_TaskArray m' = ts_TaskArray m \<and> length (ts_TaskArray p) = n
        \<and> set (go_keys (ts_TaskMap p)) \<inter> set (go_keys (ts_TaskMap m')) = {}))
    \<and> (n > length (ts_TaskArray m) \<longrightarrow>
        pop_tasks n (m, st) = Inl (Fatal (ts_Name m @ '' : number > len(m.Tasks)'')))"
proof (intro conjI impI)
  assume n: "n \<le> length (ts_TaskArray m)"
  from pop_tasks_ok [OF assms n] obtain m' p st' where
    p: "pop_tasks n (m, st) = Inr (m', p, st')" "hview st' = hview st" "wf_tasks st' m'" "wf_tasks st' p"
      "ts_TaskArray m' = drop n (ts_TaskArray m)" "ts_TaskArray p = take n (ts_TaskArray m)" by blast
  have "hashes st m = hashes st' p @ hashes st' m'"
    unfolding hashes_def p(2,5,6) map_append [symmetric] append_take_drop_id ..
  then have "set (hashes st' p) \<inter> set (hashes st' m') = {}"
    using distinct_hashes [OF assms] by simp
  with p n keys_hashes [OF p(3)] keys_hashes [OF p(4)] show "\<exists>m' p st'. pop_tasks n (m, st) = Inr (m', p, st') \<and> wf_tasks st' m' \<and> wf_tasks st' p
        \<and> ts_TaskArray p @ ts_TaskArray m' = ts_TaskArray m \<and> length (ts_TaskArray p) = n
        \<and> set (go_keys (ts_TaskMap p)) \<inter> set (go_keys (ts_TaskMap m')) = {}"
    by auto
qed (simp add: pop_tasks_def)


definition ex_tasks :: Tasks where
  "ex_tasks = \<lparr>ts_Name = ''q'', ts_Kind = TaskKind_Normal, ts_TaskMap = Some [(''s10'', 1), (''s00'', 0)],
     ts_TaskArray = [0, 1]\<rparr>"

lemma pop_splits_witness:
  "wf_tasks ex_store ex_tasks
    \<and> (\<exists>m' p st'. pop_tasks 1 (ex_tasks, ex_store) = Inr (m', p, st') \<and> ts_TaskArray p = [0] \<and> ts_TaskArray m' = [1])
    \<and> pop_tasks 3 (ex_tasks, ex_store) = Inl (Fatal ''q : number > len(m.Tasks)'')"
proof -
  have "task_hash (ex_task None None) = ''s00''" "task_hash ((ex_task None None)\<lparr>t_Index := 1\<rparr>) = ''s10''"
    by code_simp+
  then have h: "hview ex_store 0 = Some ''s00''" "hview ex_store 1 = Some ''s10''"
    by (simp_all add: hview_def ex_store_def)
  then have wf: "wf_tasks ex_store ex_tasks"
    by (simp add: wf_tasks_def ex_tasks_def wfm_def go_keys_def go_get_def) (auto split: if_splits intro: gr0I)
  have l: "ts_TaskArray ex_tasks = [0, 1]" "ts_Name ex_tasks = ''q''" by (simp_all add: ex_tasks_def)
  from pop_splits [OF wf, of 1] obtain m' p st' where
    "pop_tasks 1 (ex_tasks, ex_store) = Inr (m', p, st')" "ts_TaskArray p @ ts_TaskArray m' = [0, 1]"
    "length (ts_TaskArray p) = 1" by (auto simp: l)
  moreover from this(2,3) have "ts_TaskArray p = [0]" "ts_TaskArray m' = [1]"
    by (auto simp: length_Suc_conv)
  moreover from pop_splits [OF wf, of 3] have "pop_tasks 3 (ex_tasks, ex_store) = Inl (Fatal ''q : number > len(m.Tasks)'')"
    by (simp add: l)
  ultimately show ?thesis using wf by blast
qed

section \<open>Several containers over one store\<close>

text \<open>
  An operation on one container extends the store without changing the hash of any task
  that exists, so the other containers stay well-formed.
\<close>

definition hext :: "task_store \<Rightarrow> task_store \<Rightarrow> bool" where
  "hext st st' \<longleftrightarrow> (\<forall>r. hview st r \<noteq> None \<longrightarrow> hview st' r = hview st r) \<and> (wf_store st \<longrightarrow> wf_store st')"

lemma hext_refl [simp, inv_intros]: "hext st st"
  by (simp add: hext_def)

lemma hext_trans: "hext st st' \<Longrightarrow> hext st' st'' \<Longrightarrow> hext st st''"
  by (auto simp: hext_def)

lemma hext_wf_tasks:
  assumes "hext st st'" "wf_tasks st m"
  shows "wf_tasks st' m"
proof -
  have "r \<in> set (ts_TaskArray m) \<Longrightarrow> hview st' r = hview st r" for r
    using assms by (auto simp: hext_def wf_tasks_def)
  with assms(2) show ?thesis by (auto simp: wf_tasks_def)
qed

lemma hext_hashes: "hext st st' \<Longrightarrow> wf_tasks st m \<Longrightarrow> hashes st' m = hashes st m"
  by (auto simp: hext_def wf_tasks_def hashes_def)

lemma wf_store_hview: "wf_store st \<longleftrightarrow> (\<forall>r. hview st r \<noteq> None \<longrightarrow> r < next_ref st)"
  by (simp add: wf_store_def hview_def)

lemma hextI: "hview st' = hview st \<Longrightarrow> next_ref st' = next_ref st \<Longrightarrow> hext st st'"
  by (simp add: hext_def wf_store_hview)

lemma hext_new_task:
  assumes wf: "wf_store st" and n: "new_task t st = (r, st')"
  shows "hext st st' \<and> hview st' r = Some (task_hash t) \<and> hview st r = None \<and> heap st' r = Some t
    \<and> (\<forall>r'. r' \<noteq> r \<longrightarrow> heap st' r' = heap st r')"
proof -
  have r: "r = next_ref st" "heap st' = (heap st)(r \<mapsto> t)" "next_ref st' = Suc r"
    using n by (auto simp: new_task_def)
  have "heap st r = None" using wf r(1) unfolding wf_store_def by blast
  moreover have "wf_store st'" using wf unfolding wf_store_def r by (auto simp: less_Suc_eq)
  ultimately show ?thesis unfolding hext_def hview_def r(2) by auto
qed

lemma hext_assign: "heap st r = Some t \<Longrightarrow> task_hash t' = task_hash t \<Longrightarrow> hext st (assign r t' st)"
  by (rule hextI) (auto simp: assign_def hview_def fun_eq_iff)

lemma task_hash_retarget [simp]: "task_hash (retarget u dr t) = task_hash t"
  by (simp add: retarget_def task_hash_def computed_hash_def)

lemma compute_hash_at_hext:
  assumes "hview st r = Some h"
  shows "\<exists>st'. compute_hash_at r st = Inr (h, st') \<and> hext st st' \<and> hview st' = hview st"
  using compute_hash_at_ok [OF assms] by (metis hextI)

lemma server_addTask_ok:
  assumes wf: "wf_tasks st m" "wf_store st" and one: "go_range (t_UncoveredAddress task) = [(u, dr)]"
  shows "\<exists>m' st'. server_addTask task (m, st) = Inr (m', st') \<and> hext st st' \<and> wf_tasks st' m'
    \<and> hashes st' m' = (if task_hash task \<in> set (hashes st m) then hashes st m
                       else hashes st m @ [task_hash task])"
proof -
  obtain r0 st0 where n: "new_task task st = (r0, st0)" by (cases "new_task task st")
  note n' = hext_new_task [OF wf(2) n]
  from compute_hash_at_hext n' obtain st1 where
    st1: "compute_hash_at r0 st0 = Inr (task_hash task, st1)" "hext st0 st1" "hview st1 = hview st0"
    by blast
  have ext: "hext st st1" using n' st1(2) by (blast intro: hext_trans)
  have wf1: "wf_tasks st1 m" using hext_wf_tasks [OF ext wf(1)] .
  have hs: "hashes st1 m = hashes st m" using hext_hashes [OF ext wf(1)] .
  show ?thesis
  proof (cases "go_get (ts_TaskMap m) (task_hash task)")
    case None
    then have new: "task_hash task \<notin> set (hashes st1 m)"
      using keys_hashes [OF wf1] by (metis go_key_iff option.distinct(1))
    have "hview st1 r0 = Some (task_hash task)" using n' st1(3) by simp
    from AddTask_ok [OF wf1 this] new obtain m' st' where
      a: "AddTask r0 (m, st1) = Inr (m', st')" "wf_tasks st' m'" "hview st' = hview st1"
        "next_ref st' = next_ref st1" "ts_TaskArray m' = ts_TaskArray m @ [r0]" by auto
    have "hashes st' m' = hashes st m @ [task_hash task]"
      using a(3,5) hs \<open>hview st1 r0 = _\<close> by (simp add: hashes_def)
    with a ext None n one st1(1) new hs show ?thesis
      by (auto simp: server_addTask_def intro: hext_trans hextI)
  next
    case (Some r)
    then have "hview st1 r = Some (task_hash task)" using wf1 by (simp add: wf_tasks_def)
    have "task_hash task \<in> set (hashes st1 m)" using go_get_key [OF Some] keys_hashes [OF wf1] by simp
    obtain t where t: "heap st1 r = Some t"
      using \<open>hview st1 r = Some (task_hash task)\<close> by (auto simp: hview_def)
    then have e2: "hext st1 (assign r (retarget u dr t) st1)" by (simp add: hext_assign)
    have "server_addTask task (m, st) = Inr (m, assign r (retarget u dr t) st1)"
      using Some n one st1(1) t by (simp add: server_addTask_def deref_def)
    with e2 ext wf1 hs \<open>task_hash task \<in> set (hashes st1 m)\<close> show ?thesis
      by (auto intro: hext_trans hext_wf_tasks simp: hext_hashes)
  qed
qed

section \<open>Hashes tell tasks apart\<close>

definition dec_val :: "string \<Rightarrow> nat" where
  "dec_val = foldl (\<lambda>a c. 10 * a + (of_char c - 48)) 0"

lemma dec_val_FormatInt: "dec_val (FormatInt n) = n"
proof (induction n rule: FormatInt.induct)
  case (1 n)
  have "d < 10 \<Longrightarrow> of_char (char_of (48 + d) :: char) = (48 + d :: nat)" for d :: nat
    by (simp add: of_char_of)
  with 1 show ?case
    by (subst FormatInt.simps) (auto simp: dec_val_def)
qed

lemma FormatInt_inject: "FormatInt m = FormatInt n \<longleftrightarrow> m = n"
  by (metis dec_val_FormatInt)

text \<open>
  The hash tells two tasks apart when their signatures have the same length (the
  program signatures are hexadecimal digests) and their indices the same number of
  digits: then equal hashes mean the same program and call on both sides.
\<close>

lemma computed_hash_inject:
  assumes "length (t_Sig a) = length (t_Sig b)" and "length (t_WriteSig a) = length (t_WriteSig b)"
    and "length (FormatInt (unat (t_Index a))) = length (FormatInt (unat (t_Index b)))"
  shows "computed_hash a = computed_hash b \<longleftrightarrow>
    t_Sig a = t_Sig b \<and> t_Index a = t_Index b \<and> t_WriteSig a = t_WriteSig b \<and> t_WriteIndex a = t_WriteIndex b"
  using assms by (auto simp: computed_hash_def FormatInt_inject word_unat_eq_iff)

lemma computed_hash_inject_witness:
  "computed_hash (ex_task None None) \<noteq> computed_hash ((ex_task None None)\<lparr>t_Index := 1\<rparr>)"
proof -
  have "length (t_Sig (ex_task None None)) = length (t_Sig ((ex_task None None)\<lparr>t_Index := 1\<rparr>))"
    "length (t_WriteSig (ex_task None None)) = length (t_WriteSig ((ex_task None None)\<lparr>t_Index := 1\<rparr>))"
    "length (FormatInt (unat (t_Index (ex_task None None)))) = length (FormatInt (unat (t_Index ((ex_task None None)\<lparr>t_Index := 1\<rparr>))))"
    by code_simp+
  from computed_hash_inject [OF this] show ?thesis by (simp add: ex_task_def Task_zero_def)
qed

end
