(* ===== verification/Dra_Dependency.thy ===== *)
theory Dra_Dependency
  imports Dra_Tasks
begin

text \<open>
  \<open>DataDependency\<close>, the server's (and, cloned, each fuzzer's) knowledge of inputs,
  uncovered addresses and the write addresses that may open them, and the methods of
  \<open>pkg/dra/DependencyRPC.go\<close> that turn it into tasks.

  \<open>linked\<close> is the invariant between the three maps: an uncovered address refers to inputs
  and write addresses that exist and refer back. Under it no method here aborts. The
  number of tasks made for an uncovered address stays within a budget that depends on the
  instructions it dominates.
\<close>

section \<open>Definitions\<close>

definition getPriority :: "uint32 \<Rightarrow> uint32 \<Rightarrow> DataDependency \<Rightarrow> uint32 res" where
  "getPriority writeAddress uncoveredAddress m =
    (case go_get (dd_UncoveredAddress m) uncoveredAddress of
       None \<Rightarrow> Inl (Fatal ''getPriority not find uncoveredAddress'')
     | Some u \<Rightarrow>
       (case go_get (ua_WriteAddress u) writeAddress of
          None \<Rightarrow> Inl (Fatal ''getPriority not find writeAddress'')
        | Some waa \<Rightarrow> Inr (waa_Prio waa * ua_NumberDominatorInstructions u)))"

definition getTask :: "string \<Rightarrow> uint32 \<Rightarrow> string \<Rightarrow> uint32 \<Rightarrow> uint32 \<Rightarrow> uint32
    \<Rightarrow> DataDependency \<Rightarrow> Task res" where
  "getTask sig index writeSig writeIndex writeAddress uncoveredAddress m =
    (let task0 = Task_zero\<lparr>t_Sig := sig, t_Index := index, t_Priority := 10, t_WriteSig := writeSig,
           t_WriteIndex := writeIndex, t_TaskStatus := TaskStatus_untested,
           t_UncoveredAddress := Some [], t_CoveredAddress := Some []\<rparr>;
         task = snd (ComputeHash task0) in
     case go_get (dd_Input m) sig of
       None \<Rightarrow> Inl (Fatal ''getTask with error sig'')
     | Some input \<Rightarrow>
     (case go_get (dd_Input m) writeSig of
       None \<Rightarrow> Inl (Fatal ''getTask with error writeSig'')
     | Some writeInput \<Rightarrow>
     (case go_get (dd_WriteAddress m) writeAddress of
       None \<Rightarrow> Inl (Fatal ''getTask with error writeAddress'')
     | Some wa \<Rightarrow>
     (case go_get (dd_UncoveredAddress m) uncoveredAddress of
       None \<Rightarrow> Inl (Fatal ''getTask with error uncoveredAddress'')
     | Some ua \<Rightarrow>
       rbind (getPriority writeAddress uncoveredAddress m) (\<lambda>p.
       Inr (task\<lparr>t_Program := i_Program input, t_WriteProgram := i_Program writeInput,
                 t_Kind := wa_Kind wa,
                 t_UncoveredAddress := go_set uncoveredAddress
                   (RunTimeData_zero\<lparr>rtd_Priority := p,
                      rtd_ConditionAddress := ua_ConditionAddress ua,
                      rtd_WriteAddress := writeAddress, rtd_Address := uncoveredAddress,
                      rtd_RightBranchAddress := ua_RightBranchAddress ua,
                      rtd_TaskStatus := TaskStatus_untested, rtd_Idx := index\<rparr>)
                   (t_UncoveredAddress task)\<rparr>))))))"

text \<open>
  \<open>getTasks\<close>. A write address without a status becomes untested; the branch for one with
  a status assigns a local variable only. The budget test and the count are on \<open>uint32\<close>.
\<close>

definition task_budget :: "UncoveredAddress \<Rightarrow> uint32" where
  "task_budget ua = (ua_NumberDominatorInstructions ua + TaskCountBase) * TaskCountLimitation"

definition getTasks :: "string \<Rightarrow> uint32 \<Rightarrow> string \<Rightarrow> uint32 \<Rightarrow> uint32 \<Rightarrow> uint32
    \<Rightarrow> DataDependency \<Rightarrow> (DataDependency \<times> Task list) res" where
  "getTasks sig indexBits writeSig writeIndexBits writeAddress uncoveredAddress m =
    (let index = bit_indices indexBits; writeIndex = bit_indices writeIndexBits in
     case go_get (dd_UncoveredAddress m) uncoveredAddress of
       None \<Rightarrow> Inl (Fatal ''(m *DataDependency) getTasks : not find m.UncoveredAddress[uncoveredAddress]'')
     | Some ua \<Rightarrow>
       rbind (case go_get (ua_WriteAddressStatus ua) writeAddress of
                Some t \<Rightarrow> Inr (ua_WriteAddressStatus ua)
              | None \<Rightarrow> go_put writeAddress TaskStatus_untested (ua_WriteAddressStatus ua)) (\<lambda>was.
       if ua_Count ua < task_budget ua then
         (let ua' = ua\<lparr>ua_WriteAddressStatus := was,
                       ua_Count := ua_Count ua + of_nat (length index * length writeIndex)\<rparr>;
              m' = m\<lparr>dd_UncoveredAddress := go_set uncoveredAddress ua' (dd_UncoveredAddress m)\<rparr>
          in rbind (rfold (\<lambda>(i, wi) task.
                 rmap (\<lambda>t. task @ [t]) (getTask sig i writeSig wi writeAddress uncoveredAddress m'))
               (List.product index writeIndex) []) (\<lambda>task. Inr (m', task)))
       else Inr (m\<lparr>dd_UncoveredAddress :=
                     go_set uncoveredAddress (ua\<lparr>ua_WriteAddressStatus := was\<rparr>) (dd_UncoveredAddress m)\<rparr>, [])))"

definition checkUncoveredAddress :: "UncoveredAddress \<Rightarrow> bool" where
  "checkUncoveredAddress m = list_ex (\<lambda>w.
     case go_get (ua_WriteAddressStatus m) w of
       Some t \<Rightarrow> t > TaskStatus_not_find_write_input \<and> t < TaskStatus_tested
     | None \<Rightarrow> False) (go_keys (ua_WriteAddress m))"

text \<open>The first suitable entry in iteration order, with its key.\<close>

definition getUncoveredAddressInCall :: "Call \<Rightarrow> DataDependency \<Rightarrow> (uint32 \<times> UncoveredAddress) option" where
  "getUncoveredAddressInCall call m =
    find (\<lambda>(_, ua). go_has (c_Address call) (ua_ConditionAddress ua) \<and> checkUncoveredAddress ua)
      (go_range (dd_UncoveredAddress m))"

text \<open>
  \<open>GetTaskByInput\<close>, without its log string. The inner loops collect the tasks of one
  write address and of all write addresses of the uncovered address with key \<open>k\<close>; the
  outer loop stops at the first call that yields tasks.
\<close>

definition tasks_of_write :: "string \<Rightarrow> uint32 \<Rightarrow> uint32 \<Rightarrow> uint32
    \<Rightarrow> DataDependency \<times> Task list \<Rightarrow> (DataDependency \<times> Task list) res" where
  "tasks_of_write sig indexBits k w s =
    (case go_get (dd_UncoveredAddress (fst s)) k of
       None \<Rightarrow> Inr s
     | Some ua \<Rightarrow>
       (case go_get (ua_WriteAddressStatus ua) w of
          None \<Rightarrow> Inr s
        | Some ts \<Rightarrow>
          if ts < TaskStatus_tested then
            (case go_get (dd_WriteAddress (fst s)) w of
               None \<Rightarrow> Inr s
             | Some wa \<Rightarrow>
               rfold (\<lambda>(writeSig, wiBits) (m, tasks).
                   rmap (\<lambda>(m', t). (m', tasks @ t))
                     (getTasks sig indexBits writeSig wiBits w (ua_UncoveredAddress ua) m))
                 (go_range (wa_Input wa)) s)
          else Inr s))"

fun tasks_of_calls :: "string \<Rightarrow> (uint32 \<times> Call) list \<Rightarrow> DataDependency \<times> Task list
    \<Rightarrow> (DataDependency \<times> uint32 option \<times> Task list) res" where
  "tasks_of_calls sig [] s = Inr (fst s, None, snd s)"
| "tasks_of_calls sig ((index, call) # calls) s =
    (case getUncoveredAddressInCall call (fst s) of
       None \<Rightarrow> tasks_of_calls sig calls s
     | Some (k, ua) \<Rightarrow>
       rbind (rfold (tasks_of_write sig (index_bit index) k) (go_keys (ua_WriteAddress ua)) s) (\<lambda>s'.
       if snd s' \<noteq> [] then Inr (fst s', Some k, snd s') else tasks_of_calls sig calls s'))"

definition GetTaskByInput :: "Input \<Rightarrow> DataDependency \<Rightarrow> (DataDependency \<times> uint32 option \<times> Task list) res" where
  "GetTaskByInput input m =
    (let m' = m\<lparr>dd_Input := (case go_get (dd_Input m) (i_Sig input) of
                 Some i \<Rightarrow> go_set (i_Sig input) (mergeInput i input) (dd_Input m)
               | None \<Rightarrow> go_set (i_Sig input) input (dd_Input m))\<rparr>
     in tasks_of_calls (i_Sig input) (go_range (i_Call input)) (m', []))"

section \<open>The invariant\<close>

text \<open>
  Uncovered addresses and write addresses name each other. An input an uncovered address names
  is known and names it as well; the converse is not kept, an input may name addresses that do
  not list it. \<open>linked_upto X\<close> allows the uncovered addresses to name inputs that are still to come:
  the pairs in \<open>X\<close>. It holds between two steps of the server, \<open>linked\<close> otherwise.
\<close>

definition linked_upto :: "(uint32 \<times> string) set \<Rightarrow> DataDependency \<Rightarrow> bool" where
  "linked_upto X m \<longleftrightarrow>
    (\<forall>u ua. go_get (dd_UncoveredAddress m) u = Some ua \<longrightarrow>
       ua_UncoveredAddress ua = u \<and> ua_WriteAddressStatus ua \<noteq> None
       \<and> wfm (ua_Input ua) \<and> wfm (ua_WriteAddress ua)
       \<and> (\<forall>sig \<in> set (go_keys (ua_Input ua)). (u, sig) \<in> X \<or> (\<exists>i. go_get (dd_Input m) sig = Some i
            \<and> u \<in> set (go_keys (i_UncoveredAddress i))))
       \<and> (\<forall>w \<in> set (go_keys (ua_WriteAddress ua)). \<exists>wa. go_get (dd_WriteAddress m) w = Some wa
            \<and> u \<in> set (go_keys (wa_UncoveredAddress wa))))
    \<and> (\<forall>w wa. go_get (dd_WriteAddress m) w = Some wa \<longrightarrow>
       wa_WriteAddress wa = w \<and> wa_UncoveredAddress wa \<noteq> None
       \<and> (\<forall>u \<in> set (go_keys (wa_UncoveredAddress wa)). \<forall>ua.
            go_get (dd_UncoveredAddress m) u = Some ua \<longrightarrow> w \<in> set (go_keys (ua_WriteAddress ua)))
       \<and> (\<forall>sig \<in> set (go_keys (wa_Input wa)). sig \<in> set (go_keys (dd_Input m))))"

definition linked :: "DataDependency \<Rightarrow> bool" where
  "linked m \<longleftrightarrow> linked_upto {} m"

lemma linkedD_ua:
  assumes "linked m" "go_get (dd_UncoveredAddress m) u = Some ua"
  shows "ua_UncoveredAddress ua = u" "ua_WriteAddressStatus ua \<noteq> None"
    and "sig \<in> set (go_keys (ua_Input ua)) \<Longrightarrow> \<exists>i. go_get (dd_Input m) sig = Some i \<and> u \<in> set (go_keys (i_UncoveredAddress i))"
    and "w \<in> set (go_keys (ua_WriteAddress ua)) \<Longrightarrow> \<exists>wa. go_get (dd_WriteAddress m) w = Some wa \<and> u \<in> set (go_keys (wa_UncoveredAddress wa))"
    and "wfm (ua_Input ua)" and "wfm (ua_WriteAddress ua)"
  using assms unfolding linked_def linked_upto_def by blast+

lemma linkedD_wa:
  assumes "linked m" "go_get (dd_WriteAddress m) w = Some wa"
  shows "wa_WriteAddress wa = w"
    and "u \<in> set (go_keys (wa_UncoveredAddress wa)) \<Longrightarrow> go_get (dd_UncoveredAddress m) u = Some ua \<Longrightarrow> w \<in> set (go_keys (ua_WriteAddress ua))"
    and "sig \<in> set (go_keys (wa_Input wa)) \<Longrightarrow> sig \<in> set (go_keys (dd_Input m))"
    and "wa_UncoveredAddress wa \<noteq> None"
  using assms unfolding linked_def linked_upto_def by blast+

text \<open>Changing one uncovered address, one input or one write address keeps the links.\<close>

lemma linked_upd_ua:
  assumes "linked_upto X m" "ua_UncoveredAddress ua' = u" "ua_WriteAddressStatus ua' \<noteq> None"
    and "wfm (ua_Input ua')" "wfm (ua_WriteAddress ua')"
    and "\<And>sig. sig \<in> set (go_keys (ua_Input ua')) \<Longrightarrow> (u, sig) \<in> Y \<or> (\<exists>i. go_get (dd_Input m) sig = Some i
            \<and> u \<in> set (go_keys (i_UncoveredAddress i)))"
    and "\<And>w. w \<in> set (go_keys (ua_WriteAddress ua')) \<Longrightarrow> \<exists>wa. go_get (dd_WriteAddress m) w = Some wa
            \<and> u \<in> set (go_keys (wa_UncoveredAddress wa))"
    and "\<And>w wa. go_get (dd_WriteAddress m) w = Some wa \<Longrightarrow> u \<in> set (go_keys (wa_UncoveredAddress wa)) \<Longrightarrow>
            w \<in> set (go_keys (ua_WriteAddress ua'))"
    and "X \<subseteq> Y"
  shows "linked_upto Y (m\<lparr>dd_UncoveredAddress := go_set u ua' (dd_UncoveredAddress m)\<rparr>)"
proof -
  have 1: "\<And>u' ua. go_get (dd_UncoveredAddress m) u' = Some ua \<Longrightarrow>
       ua_UncoveredAddress ua = u' \<and> ua_WriteAddressStatus ua \<noteq> None
       \<and> wfm (ua_Input ua) \<and> wfm (ua_WriteAddress ua)
       \<and> (\<forall>sig \<in> set (go_keys (ua_Input ua)). (u', sig) \<in> Y \<or> (\<exists>i. go_get (dd_Input m) sig = Some i
            \<and> u' \<in> set (go_keys (i_UncoveredAddress i))))
       \<and> (\<forall>w \<in> set (go_keys (ua_WriteAddress ua)). \<exists>wa. go_get (dd_WriteAddress m) w = Some wa
            \<and> u' \<in> set (go_keys (wa_UncoveredAddress wa)))"
    using assms(1,9) unfolding linked_upto_def by blast
  have 2: "\<And>w wa. go_get (dd_WriteAddress m) w = Some wa \<Longrightarrow> wa_WriteAddress wa = w \<and> wa_UncoveredAddress wa \<noteq> None
       \<and> (\<forall>u \<in> set (go_keys (wa_UncoveredAddress wa)). \<forall>ua.
            go_get (dd_UncoveredAddress m) u = Some ua \<longrightarrow> w \<in> set (go_keys (ua_WriteAddress ua)))
       \<and> (\<forall>sig \<in> set (go_keys (wa_Input wa)). sig \<in> set (go_keys (dd_Input m)))"
    using assms(1) unfolding linked_upto_def by blast
  show ?thesis
    unfolding linked_upto_def using 1 2 assms(2-8) by (simp add: if_split_eq2 del: not_None_eq)
qed

lemma linked_upd_input:
  assumes "linked_upto X m"
    and "\<And>i. go_get (dd_Input m) s = Some i \<Longrightarrow>
      set (go_keys (i_UncoveredAddress i)) \<subseteq> set (go_keys (i_UncoveredAddress i'))"
    and "\<And>u sig. (u, sig) \<in> X - Y \<Longrightarrow> sig = s \<and> u \<in> set (go_keys (i_UncoveredAddress i'))"
  shows "linked_upto Y (m\<lparr>dd_Input := go_set s i' (dd_Input m)\<rparr>)"
proof -
  have "(u, sig) \<in> Y \<or> (\<exists>i. go_get (go_set s i' (dd_Input m)) sig = Some i \<and> u \<in> set (go_keys (i_UncoveredAddress i)))"
    if "(u, sig) \<in> X \<or> (\<exists>i. go_get (dd_Input m) sig = Some i \<and> u \<in> set (go_keys (i_UncoveredAddress i)))" for u sig
    using that assms(2) assms(3) [of u sig] by auto
  then show ?thesis using assms(1) unfolding linked_upto_def by (simp add: if_split_eq2 del: go_get_set)
qed

lemma linked_upd_wa:
  assumes "linked_upto X m" "go_get (dd_WriteAddress m) w = None \<or> go_get (dd_WriteAddress m) w = Some wa"
    and "wa_WriteAddress wa' = w" "wa_UncoveredAddress wa' \<noteq> None"
    and "go_get (dd_WriteAddress m) w = Some wa \<Longrightarrow>
        set (go_keys (wa_UncoveredAddress wa)) \<subseteq> set (go_keys (wa_UncoveredAddress wa'))"
    and "\<And>u ua. u \<in> set (go_keys (wa_UncoveredAddress wa')) \<Longrightarrow> go_get (dd_UncoveredAddress m) u = Some ua \<Longrightarrow>
        w \<in> set (go_keys (ua_WriteAddress ua))"
    and "set (go_keys (wa_Input wa')) \<subseteq> set (go_keys (dd_Input m))"
  shows "linked_upto X (m\<lparr>dd_WriteAddress := go_set w wa' (dd_WriteAddress m)\<rparr>)"
proof -
  have "\<exists>wa. go_get (go_set w wa' (dd_WriteAddress m)) x = Some wa \<and> u \<in> set (go_keys (wa_UncoveredAddress wa))"
    if "\<exists>wa. go_get (dd_WriteAddress m) x = Some wa \<and> u \<in> set (go_keys (wa_UncoveredAddress wa))" for x u
    using that assms(2,5) by auto
  moreover have "wa_WriteAddress wb = x \<and> wa_UncoveredAddress wb \<noteq> None
       \<and> (\<forall>u \<in> set (go_keys (wa_UncoveredAddress wb)). \<forall>ua.
            go_get (dd_UncoveredAddress m) u = Some ua \<longrightarrow> x \<in> set (go_keys (ua_WriteAddress ua)))
       \<and> (\<forall>sig \<in> set (go_keys (wa_Input wb)). sig \<in> set (go_keys (dd_Input m)))"
    if "go_get (go_set w wa' (dd_WriteAddress m)) x = Some wb" for x wb
    using that assms(1,3,4,6,7) unfolding linked_upto_def by (auto split: if_splits)
  ultimately show ?thesis using assms(1) unfolding linked_upto_def by (simp del: go_get_set not_None_eq)
qed

section \<open>Making tasks\<close>

lemma getTask_sel:
  assumes "getTask sig i writeSig wi w u m = Inr t"
  shows "t_Sig t = sig" "t_Index t = i" "t_WriteSig t = writeSig" "t_WriteIndex t = wi"
    and "t_TaskStatus t = TaskStatus_untested"
    and "\<exists>r. go_range (t_UncoveredAddress t) = [(u, r)] \<and> rtd_WriteAddress r = w \<and> rtd_Address r = u"
    and "task_hash t = sig @ FormatInt (unat i) @ writeSig @ FormatInt (unat wi)"
  using assms
  by (auto simp: getTask_def Let_def res_conv ComputeHash_def task_hash_def computed_hash_def go_set_def
      zero_values split: option.splits)

lemma getTask_ok:
  assumes "linked m" "go_get (dd_UncoveredAddress m) u = Some ua" "w \<in> set (go_keys (ua_WriteAddress ua))"
    and "sig \<in> set (go_keys (dd_Input m))" "writeSig \<in> set (go_keys (dd_Input m))"
  shows "\<exists>t. getTask sig i writeSig wi w u m = Inr t"
proof -
  from linkedD_ua(4) [OF assms(1-3)] obtain wa where "go_get (dd_WriteAddress m) w = Some wa" by blast
  then show ?thesis using assms by (auto simp: getTask_def getPriority_def Let_def go_key_iff)
qed

lemma rfold_collect:
  assumes "\<And>x. x \<in> set xs \<Longrightarrow> \<exists>t. f x = Inr t \<and> P x t"
  shows "\<exists>ts. rfold (\<lambda>x acc. rmap (\<lambda>t. acc @ [t]) (f x)) xs acc = Inr (acc @ ts) \<and> list_all2 P xs ts"
  using assms
proof (induction xs arbitrary: acc)
  case Nil
  then show ?case by simp
next
  case (Cons x xs)
  from Cons.prems [of x] obtain t where t: "f x = Inr t" "P x t" by auto
  from Cons.IH [of "acc @ [t]"] Cons.prems obtain ts where
    "rfold (\<lambda>x acc. rmap (\<lambda>t. acc @ [t]) (f x)) xs (acc @ [t]) = Inr (acc @ [t] @ ts)" "list_all2 P xs ts"
    by auto
  with t show ?case by (intro exI [of _ "t # ts"]) simp
qed

definition task_for :: "string \<Rightarrow> string \<Rightarrow> uint32 \<Rightarrow> uint32 \<Rightarrow> uint32 \<times> uint32 \<Rightarrow> Task \<Rightarrow> bool" where
  "task_for sig writeSig w u e t \<longleftrightarrow> t_Sig t = sig \<and> t_WriteSig t = writeSig
     \<and> t_Index t = fst e \<and> t_WriteIndex t = snd e \<and> t_TaskStatus t = TaskStatus_untested
     \<and> (\<exists>r. go_range (t_UncoveredAddress t) = [(u, r)] \<and> rtd_WriteAddress r = w)"

definition can_task :: "DataDependency \<Rightarrow> string \<Rightarrow> string \<Rightarrow> uint32 \<Rightarrow> uint32 \<Rightarrow> bool" where
  "can_task m sig writeSig w u \<longleftrightarrow> sig \<in> set (go_keys (dd_Input m)) \<and> writeSig \<in> set (go_keys (dd_Input m))
     \<and> (\<exists>ua. go_get (dd_UncoveredAddress m) u = Some ua \<and> w \<in> set (go_keys (ua_WriteAddress ua)))"

text \<open>What \<open>getTasks\<close> changes: the count and one status of one uncovered address.\<close>

definition counted :: "uint32 \<Rightarrow> uint32 \<Rightarrow> nat \<Rightarrow> DataDependency \<Rightarrow> DataDependency \<Rightarrow> bool" where
  "counted u w n m m' \<longleftrightarrow> (\<exists>ua was. go_get (dd_UncoveredAddress m) u = Some ua
     \<and> m' = m\<lparr>dd_UncoveredAddress := go_set u
         (ua\<lparr>ua_WriteAddressStatus := was, ua_Count := ua_Count ua + of_nat n\<rparr>) (dd_UncoveredAddress m)\<rparr>
     \<and> was \<noteq> None \<and> (\<forall>w'. go_get was w' = (case go_get (ua_WriteAddressStatus ua) w' of
           Some t \<Rightarrow> Some t | None \<Rightarrow> if w' = w then Some TaskStatus_untested else None)))"

lemma counted_linked [inv_intros]: "linked m \<Longrightarrow> counted u w n m m' \<Longrightarrow> linked m'"
  unfolding counted_def linked_def
  by (elim exE conjE) (auto intro!: linked_upd_ua simp: linkedD_ua [unfolded linked_def] linkedD_wa [unfolded linked_def])

definition condition_at :: "DataDependency \<Rightarrow> uint32 \<Rightarrow> uint32 option" where
  "condition_at m u = map_option ua_ConditionAddress (go_get (dd_UncoveredAddress m) u)"

lemma counted_sel:
  assumes "counted u w n m m'"
  shows "dd_Input m' = dd_Input m" "dd_WriteAddress m' = dd_WriteAddress m"
    and "can_task m' = can_task m"
    and "condition_at m' = condition_at m"
    and "wfm (dd_UncoveredAddress m) \<Longrightarrow> wfm (dd_UncoveredAddress m')"
  using assms by (auto simp: counted_def can_task_def condition_at_def fun_eq_iff split: if_splits)

lemma getTasks_ok:
  assumes "linked m" "can_task m sig writeSig w u" "go_get (dd_UncoveredAddress m) u = Some ua"
  shows "\<exists>m' ts. getTasks sig ib writeSig wb w u m = Inr (m', ts) \<and> counted u w (length ts) m m'
    \<and> list_all2 (task_for sig writeSig w u)
        (if ua_Count ua < task_budget ua then List.product (bit_indices ib) (bit_indices wb) else []) ts"
proof -
  define was where "was = (case go_get (ua_WriteAddressStatus ua) w of
      Some t \<Rightarrow> ua_WriteAddressStatus ua | None \<Rightarrow> go_set w TaskStatus_untested (ua_WriteAddressStatus ua))"
  have nn: "ua_WriteAddressStatus ua \<noteq> None" using linkedD_ua(2) [OF assms(1,3)] .
  then have was: "(case go_get (ua_WriteAddressStatus ua) w of Some t \<Rightarrow> Inr (ua_WriteAddressStatus ua)
      | None \<Rightarrow> go_put w TaskStatus_untested (ua_WriteAddressStatus ua)) = Inr was"
    unfolding was_def by (simp del: not_None_eq split: option.split)
  have was': "was \<noteq> None \<and> (\<forall>w'. go_get was w' = (case go_get (ua_WriteAddressStatus ua) w' of
       Some t \<Rightarrow> Some t | None \<Rightarrow> if w' = w then Some TaskStatus_untested else None))"
    using nn go_set_not_nil unfolding was_def by (simp del: not_None_eq split: option.split)
  show ?thesis
  proof (cases "ua_Count ua < task_budget ua")
    case True
    let ?xs = "List.product (bit_indices ib) (bit_indices wb)"
    define m' where "m' = m\<lparr>dd_UncoveredAddress := go_set u (ua\<lparr>ua_WriteAddressStatus := was,
        ua_Count := ua_Count ua + of_nat (length (bit_indices ib) * length (bit_indices wb))\<rparr>) (dd_UncoveredAddress m)\<rparr>"
    have cnt: "counted u w (length ?xs) m m'"
      unfolding counted_def m'_def using assms(3) was' by (intro exI [of _ ua] exI [of _ was]) simp
    then have l: "linked m'" and c: "can_task m' sig writeSig w u"
      using assms counted_linked counted_sel(3) by auto
    have "\<exists>t. getTask sig (fst e) writeSig (snd e) w u m' = Inr t \<and> task_for sig writeSig w u e t" for e
    proof -
      from c getTask_ok [OF l] obtain t where "getTask sig (fst e) writeSig (snd e) w u m' = Inr t"
        unfolding can_task_def by blast
      with getTask_sel [OF this] show ?thesis by (auto simp: task_for_def)
    qed
    from rfold_collect [of ?xs "\<lambda>e. getTask sig (fst e) writeSig (snd e) w u m'" "task_for sig writeSig w u" "[]", OF this]
    obtain ts where "rfold (\<lambda>e acc. rmap (\<lambda>t. acc @ [t]) (getTask sig (fst e) writeSig (snd e) w u m')) ?xs [] = Inr ts"
      "list_all2 (task_for sig writeSig w u) ?xs ts" by auto
    moreover from this(2) have "length ts = length ?xs" by (metis list_all2_lengthD)
    ultimately show ?thesis using assms(3) was True cnt
      by (simp add: getTasks_def Let_def m'_def [symmetric] split_def del: of_nat_mult)
  next
    case False
    let ?m = "m\<lparr>dd_UncoveredAddress := go_set u (ua\<lparr>ua_WriteAddressStatus := was\<rparr>) (dd_UncoveredAddress m)\<rparr>"
    have "counted u w 0 m ?m"
      unfolding counted_def using assms(3) was' by (intro exI [of _ ua] exI [of _ was]) simp
    then show ?thesis using False assms(3) was by (simp add: getTasks_def Let_def)
  qed
qed

text \<open>
  C28: the tasks of one write of an uncovered address. When the dependency data is linked
  and knows both inputs, \<open>getTasks\<close> returns: as long as the count is below the budget it
  makes one untested task for every pair of a call index of the input and one of the write
  input, each for exactly this uncovered address; afterwards none. The count grows by the
  number of tasks and stays below the budget plus 1024, if that does not overflow, and the
  data stays linked.
\<close>

theorem getTasks_within_budget:
  assumes "linked m" and "can_task m sig writeSig w u" and "go_get (dd_UncoveredAddress m) u = Some ua"
  shows "\<exists>m' ts ua'. getTasks sig ib writeSig wb w u m = Inr (m', ts) \<and> linked m'
    \<and> go_get (dd_UncoveredAddress m') u = Some ua'
    \<and> list_all2 (task_for sig writeSig w u)
        (if ua_Count ua < task_budget ua then List.product (bit_indices ib) (bit_indices wb) else []) ts
    \<and> (unat (task_budget ua) + 1024 < 2 ^ 32 \<longrightarrow>
         unat (ua_Count ua') = unat (ua_Count ua) + length ts
         \<and> (ts \<noteq> [] \<longrightarrow> unat (ua_Count ua') < unat (task_budget ua) + 1024))"
proof -
  from getTasks_ok [OF assms, of ib wb] obtain m' ts where
    g: "getTasks sig ib writeSig wb w u m = Inr (m', ts)" "counted u w (length ts) m m'"
      "list_all2 (task_for sig writeSig w u)
        (if ua_Count ua < task_budget ua then List.product (bit_indices ib) (bit_indices wb) else []) ts" by blast
  from g(2) assms(3) obtain ua' where
    u: "go_get (dd_UncoveredAddress m') u = Some ua'" "ua_Count ua' = ua_Count ua + of_nat (length ts)"
    by (auto simp: counted_def)
  have len: "length ts = (if ua_Count ua < task_budget ua then length (bit_indices ib) * length (bit_indices wb) else 0)"
    using list_all2_lengthD [OF g(3)] by (auto split: if_splits)
  have "length (bit_indices ib) * length (bit_indices wb) \<le> 1024"
    using mult_le_mono [OF length_bit_indices length_bit_indices, of ib wb] by simp
  then have le: "length ts \<le> 1024" by (simp add: len)
  have lt: "ts \<noteq> [] \<Longrightarrow> unat (ua_Count ua) < unat (task_budget ua)"
    using len by (auto simp: word_less_nat_alt split: if_splits)
  have "unat (task_budget ua) + 1024 < 2 ^ 32 \<Longrightarrow> unat (ua_Count ua') = unat (ua_Count ua) + length ts"
  proof (cases "ts = []")
    case False
    assume "unat (task_budget ua) + 1024 < 2 ^ 32"
    with lt [OF False] le have "unat (ua_Count ua) + length ts < 2 ^ LENGTH(32)" by simp
    then show ?thesis using u(2) by (simp add: unat_word_ariths unat_of_nat)
  qed (simp add: u(2))
  with g u(1) lt le counted_linked [OF assms(1) g(2)] show ?thesis by fastforce
qed

text \<open>One input, one uncovered address guarded by address 6, one write address.\<close>

definition ex_dd :: DataDependency where
  "ex_dd = \<lparr>
     dd_Input = Some [(''s'', Input_zero\<lparr>i_Sig := ''s'', i_Program := ''open()'', i_UncoveredAddress := Some [(7, 1)]\<rparr>)],
     dd_UncoveredAddress = Some [(7, UncoveredAddress_zero\<lparr>ua_ConditionAddress := 6, ua_UncoveredAddress := 7,
       ua_NumberDominatorInstructions := 3, ua_Input := Some [(''s'', 1)],
       ua_WriteAddress := Some [(9, \<lparr>waa_WriteAddress = 9, waa_Repeat = 0, waa_Prio = 5\<rparr>)],
       ua_WriteAddressStatus := Some [(9, TaskStatus_untested)]\<rparr>)],
     dd_WriteAddress = Some [(9, WriteAddress_zero\<lparr>wa_WriteAddress := 9, wa_Input := Some [(''s'', 6)],
       wa_UncoveredAddress := Some [(7, \<lparr>waa_WriteAddress = 9, waa_Repeat = 0, waa_Prio = 5\<rparr>)]\<rparr>)],
     dd_OtherInput = None\<rparr>"

lemma ex_dd_linked: "linked ex_dd"
  by (simp add: linked_def linked_upto_def ex_dd_def go_get_def go_keys_def wfm_def zero_values)

theorem getTasks_within_budget_witness:
  "\<exists>m' ts. getTasks ''s'' 1 ''s'' 6 9 7 ex_dd = Inr (m', ts) \<and> length ts = 2 \<and> linked m'"
proof -
  have c: "can_task ex_dd ''s'' ''s'' 9 7"
    by (simp add: can_task_def ex_dd_def go_get_def go_keys_def zero_values)
  then obtain ua where u: "go_get (dd_UncoveredAddress ex_dd) 7 = Some ua" by (auto simp: can_task_def)
  then have b: "ua_Count ua < task_budget ua"
    by (auto simp: ex_dd_def go_get_def zero_values task_budget_def dra_consts)
  have "List.product (bit_indices 1) (bit_indices 6) = [(0, 1), (0, 2)]" by code_simp
  with getTasks_within_budget [OF ex_dd_linked c u, of 1 6] b show ?thesis
    by (fastforce dest: list_all2_lengthD)
qed

section \<open>Choosing what to test for an input\<close>

text \<open>
  The loop invariant of \<open>GetTaskByInput\<close>: the data stays linked, the input is known, and
  every collected task is one of this input for the address \<open>k\<close>.
\<close>

definition collecting :: "string \<Rightarrow> uint32 \<Rightarrow> DataDependency \<Rightarrow> DataDependency \<times> Task list \<Rightarrow> bool" where
  "collecting sig k m0 s \<longleftrightarrow> linked (fst s) \<and> can_task (fst s) = can_task m0
     \<and> dd_Input (fst s) = dd_Input m0 \<and> dd_WriteAddress (fst s) = dd_WriteAddress m0
     \<and> condition_at (fst s) = condition_at m0 \<and> wfm (dd_UncoveredAddress (fst s))
     \<and> (\<forall>t \<in> set (snd s). t_Sig t = sig \<and> (\<exists>r. go_range (t_UncoveredAddress t) = [(k, r)]))"

lemma tasks_of_write_ok:
  assumes c: "collecting sig k m0 s" and sig: "sig \<in> set (go_keys (dd_Input m0))"
    and w: "\<exists>ua. go_get (dd_UncoveredAddress m0) k = Some ua \<and> w \<in> set (go_keys (ua_WriteAddress ua))"
  shows "\<exists>s'. tasks_of_write sig ib k w s = Inr s' \<and> collecting sig k m0 s'"
proof -
  let ?f = "\<lambda>(writeSig, wiBits) (m, tasks). rmap (\<lambda>(m', t). (m', tasks @ t)) (getTasks sig ib writeSig wiBits w k m)"
  have step: "\<exists>s'. ?f e s = Inr s' \<and> collecting sig k m0 s'"
    if c: "collecting sig k m0 s" and e: "e \<in> set (go_range (wa_Input wa))"
      and wa: "go_get (dd_WriteAddress m0) w = Some wa" for e s wa
  proof -
    have l: "linked (fst s)" using c by (simp add: collecting_def)
    have "fst e \<in> set (go_keys (wa_Input wa))" using e go_range_key [of "fst e" "snd e"] by simp
    then have "fst e \<in> set (go_keys (dd_Input m0))"
      using linkedD_wa(3) [OF l, of w wa "fst e"] wa c by (simp add: collecting_def)
    then have ct: "can_task (fst s) sig (fst e) w k"
      using sig w c by (auto simp: can_task_def collecting_def)
    then obtain ua where "go_get (dd_UncoveredAddress (fst s)) k = Some ua" by (auto simp: can_task_def)
    from getTasks_ok [OF l ct this, of ib "snd e"] obtain m' ts where
      g: "getTasks sig ib (fst e) (snd e) w k (fst s) = Inr (m', ts)" "counted k w (length ts) (fst s) m'"
      and ts: "list_all2 (task_for sig (fst e) w k)
        (if ua_Count ua < task_budget ua then List.product (bit_indices ib) (bit_indices (snd e)) else []) ts" by blast
    from ts have "\<forall>t \<in> set ts. t_Sig t = sig \<and> (\<exists>r. go_range (t_UncoveredAddress t) = [(k, r)])"
      by (force simp: list_all2_conv_all_nth in_set_conv_nth task_for_def)
    with c counted_linked [OF l g(2)] counted_sel [OF g(2)]
    have "collecting sig k m0 (m', snd s @ ts)" by (auto simp: collecting_def)
    then show ?thesis using g(1) by (simp add: split_def)
  qed
  show ?thesis
  proof (cases "go_get (dd_UncoveredAddress (fst s)) k")
    case None
    then show ?thesis using c by (simp add: tasks_of_write_def)
  next
    case (Some ua)
    have k: "ua_UncoveredAddress ua = k" using linkedD_ua(1) [OF _ Some] c by (simp add: collecting_def)
    have "\<exists>s'. rfold ?f (go_range (wa_Input wa)) s = Inr s' \<and> collecting sig k m0 s'"
      if "go_get (dd_WriteAddress (fst s)) w = Some wa" for wa
    proof -
      have "go_get (dd_WriteAddress m0) w = Some wa" using that c by (simp add: collecting_def)
      from rfold_total [where I = "collecting sig k m0", OF c step [OF _ _ this]] show ?thesis .
    qed
    then show ?thesis using Some c k by (simp add: tasks_of_write_def del: split_paired_Ex split: option.split)
  qed
qed

lemma getUncoveredAddressInCall_key:
  "getUncoveredAddressInCall call m = Some (k, ua) \<Longrightarrow> wfm (dd_UncoveredAddress m) \<Longrightarrow>
    go_get (dd_UncoveredAddress m) k = Some ua \<and> ua_ConditionAddress ua \<in> set (go_keys (c_Address call))
    \<and> checkUncoveredAddress ua"
  by (auto simp: getUncoveredAddressInCall_def find_Some_iff go_range_get [symmetric] in_set_conv_nth)

definition chosen :: "string \<Rightarrow> DataDependency \<Rightarrow> (uint32 \<times> Call) list \<Rightarrow> uint32 option \<Rightarrow> Task list \<Rightarrow> bool" where
  "chosen sig m cs k ts \<longleftrightarrow> (case k of None \<Rightarrow> ts = []
     | Some u \<Rightarrow> ts \<noteq> [] \<and> (\<forall>t \<in> set ts. t_Sig t = sig \<and> (\<exists>r. go_range (t_UncoveredAddress t) = [(u, r)]))
         \<and> (\<exists>a c. condition_at m u = Some a \<and> c \<in> set cs \<and> a \<in> set (go_keys (c_Address (snd c)))))"

lemma chosen_Cons: "chosen sig m cs k ts \<Longrightarrow> chosen sig m (c # cs) k ts"
  unfolding chosen_def by (auto split: option.splits)

lemma chosen_cong: "condition_at m = condition_at m' \<Longrightarrow> chosen sig m = chosen sig m'"
  by (simp add: chosen_def fun_eq_iff split: option.split)

lemma collecting_chosen:
  assumes "collecting sig k m s" "snd s \<noteq> []" "go_get (dd_UncoveredAddress m) k = Some ua"
    and "ua_ConditionAddress ua \<in> set (go_keys (c_Address call))"
  shows "chosen sig m ((i, call) # cs) (Some k) (snd s)"
  using assms unfolding chosen_def collecting_def condition_at_def by force

lemma tasks_of_calls_ok:
  assumes "linked m" "wfm (dd_UncoveredAddress m)" "sig \<in> set (go_keys (dd_Input m))"
  shows "\<exists>m' k ts. tasks_of_calls sig cs (m, []) = Inr (m', k, ts) \<and> linked m' \<and> chosen sig m cs k ts"
  using assms
proof (induction cs arbitrary: m)
  case Nil
  then show ?case by (simp add: chosen_def)
next
  case (Cons c cs)
  obtain i call where c: "c = (i, call)" by (cases c)
  show ?case
  proof (cases "getUncoveredAddressInCall call m")
    case None
    then show ?thesis using Cons.IH [OF Cons.prems] unfolding c by (auto intro: chosen_Cons)
  next
    case (Some e)
    obtain k ua where e: "e = (k, ua)" by (cases e)
    note k = getUncoveredAddressInCall_key [OF Some [unfolded e] Cons.prems(2)]
    have "collecting sig k m (m, [])" using Cons.prems by (simp add: collecting_def)
    moreover have "\<exists>s'. tasks_of_write sig (index_bit i) k w s = Inr s' \<and> collecting sig k m s'"
      if "w \<in> set (go_keys (ua_WriteAddress ua))" "collecting sig k m s" for w s
      using tasks_of_write_ok [OF that(2) Cons.prems(3)] that k by blast
    ultimately obtain s' where
      s': "rfold (tasks_of_write sig (index_bit i) k) (go_keys (ua_WriteAddress ua)) (m, []) = Inr s'"
        "collecting sig k m s'"
      using rfold_total [where I = "collecting sig k m"] by blast
    show ?thesis
    proof (cases "snd s' = []")
      case True
      then have p: "s' = (fst s', [])" by (simp add: prod_eq_iff)
      have m': "linked (fst s')" "wfm (dd_UncoveredAddress (fst s'))" "sig \<in> set (go_keys (dd_Input (fst s')))"
        "condition_at (fst s') = condition_at m"
        using s'(2) Cons.prems(3) by (auto simp: collecting_def)
      have "tasks_of_calls sig (c # cs) (m, []) = tasks_of_calls sig cs (fst s', [])"
        using True p s'(1) Some e c by simp
      with Cons.IH [OF m'(1-3)] chosen_cong [OF m'(4)] show ?thesis by (auto intro: chosen_Cons)
    next
      case False
      have "tasks_of_calls sig (c # cs) (m, []) = Inr (fst s', Some k, snd s')"
        using False s'(1) Some e c by simp
      moreover have "linked (fst s')" using s'(2) by (simp add: collecting_def)
      moreover have "chosen sig m (c # cs) (Some k) (snd s')"
        using collecting_chosen [OF s'(2) False] k unfolding c by blast
      ultimately show ?thesis by blast
    qed
  qed
qed

text \<open>
  Choosing tasks for an input. On linked data \<open>GetTaskByInput\<close> returns and keeps the
  data linked. If it names an uncovered address, it hands over at least one task, every
  task is one of this input for that address alone, and the condition of the address is
  covered by one of the calls of the input; if it names none there are no tasks.
\<close>

lemma GetTaskByInput_on_target:
  assumes "linked m" and "wfm (dd_UncoveredAddress m)"
  shows "\<exists>m' k ts. GetTaskByInput input m = Inr (m', k, ts) \<and> linked m'
    \<and> (case k of None \<Rightarrow> ts = []
       | Some u \<Rightarrow> ts \<noteq> []
           \<and> (\<forall>t \<in> set ts. t_Sig t = i_Sig input \<and> (\<exists>r. go_range (t_UncoveredAddress t) = [(u, r)]))
           \<and> (\<exists>a c. condition_at m u = Some a \<and> c \<in> set (go_range (i_Call input))
                \<and> a \<in> set (go_keys (c_Address (snd c)))))"
proof -
  define i' where "i' = (case go_get (dd_Input m) (i_Sig input) of Some i \<Rightarrow> mergeInput i input | None \<Rightarrow> input)"
  let ?m = "m\<lparr>dd_Input := go_set (i_Sig input) i' (dd_Input m)\<rparr>"
  have "linked ?m"
    using linked_upd_input [of "{}" m "i_Sig input" i' "{}"] assms(1)
    by (simp add: linked_def i'_def go_keys_merge)
  moreover have c: "condition_at m = condition_at ?m" by (simp add: condition_at_def fun_eq_iff)
  moreover have "GetTaskByInput input m = tasks_of_calls (i_Sig input) (go_range (i_Call input)) (?m, [])"
    by (simp add: GetTaskByInput_def Let_def i'_def split: option.split)
  ultimately show ?thesis
    using tasks_of_calls_ok [of ?m "i_Sig input" "go_range (i_Call input)"] assms(2)
    unfolding c by (simp add: chosen_def)
qed

lemma GetTaskByInput_on_target_witness:
  "\<exists>m' ts. GetTaskByInput (Input_zero\<lparr>i_Sig := ''s'', i_Call := Some [(0, \<lparr>c_Idx = 0, c_Address = Some [(6, 0)]\<rparr>)]\<rparr>) ex_dd
      = Inr (m', Some 7, ts) \<and> linked m' \<and> ts \<noteq> []"
proof -
  let ?i = "Input_zero\<lparr>i_Sig := ''s'', i_Call := Some [(0, \<lparr>c_Idx = 0, c_Address = Some [(6, 0)]\<rparr>)]\<rparr>"
  have "wfm (dd_UncoveredAddress ex_dd)" by code_simp
  from GetTaskByInput_on_target [OF ex_dd_linked this, of ?i] obtain m' k ts where
    r: "GetTaskByInput ?i ex_dd = Inr (m', k, ts)" "linked m'"
      "case k of None \<Rightarrow> ts = [] | Some u \<Rightarrow> ts \<noteq> []" by (auto split: option.splits)
  have "rmap (\<lambda>(m, k, ts). k) (GetTaskByInput ?i ex_dd) = Inr (Some 7)" by code_simp
  then have "k = Some 7" by (simp add: r(1))
  with r show ?thesis by simp
qed

end
