(* ===== verification/Dra_Server.thy ===== *)
theory Dra_Server
  imports Dra_Dependency
begin

text \<open>
  The methods of \<open>Server\<close> (\<open>pkg/dra/DependencyRPC.go\<close>) that fold reported inputs, write
  addresses and uncovered addresses into the dependency data, make the tasks that follow
  from them, and take an address out once it is covered.

  A method is modelled on the part of the server it touches: the dependency data alone,
  the data with the global task container and the store (\<open>work\<close>), or the data with the
  map of addresses that became covered. The links between the maps (\<open>linked\<close>) are kept by
  all of them, and under it none aborts. The lines that \<open>addUncoveredAddress\<close> adds to the
  log are with the server that has the log (\<open>uncovered_log\<close> in \<open>Dra_Update\<close>).
\<close>

section \<open>Definitions\<close>

type_synonym work = "DataDependency \<times> Tasks \<times> task_store"

subsection \<open>Tasks\<close>

definition addTasks :: "string \<Rightarrow> uint32 \<Rightarrow> string \<Rightarrow> uint32 \<Rightarrow> uint32 \<Rightarrow> uint32 \<Rightarrow> work \<Rightarrow> work res" where
  "addTasks sig indexBits writeSig writeIndexBits writeAddress uncoveredAddress s =
    rbind (getTasks sig indexBits writeSig writeIndexBits writeAddress uncoveredAddress (fst s)) (\<lambda>(m, tasks).
    rmap (\<lambda>q. (m, q)) (rfold server_addTask tasks (snd s)))"

text \<open>The loop of \<open>addWriteAddressTask\<close> over \<open>wa.UncoveredAddress\<close>; an unknown address ends it.\<close>

fun write_address_tasks :: "uint32 \<Rightarrow> string \<Rightarrow> uint32 \<Rightarrow> uint32 list \<Rightarrow> work \<Rightarrow> work res" where
  "write_address_tasks w writeSig indexBits [] s = Inr s"
| "write_address_tasks w writeSig indexBits (u # us) s =
    (case go_get (dd_UncoveredAddress (fst s)) u of
       None \<Rightarrow> Inr s
     | Some ua \<Rightarrow>
       rbind (rfold (\<lambda>(sig, inputIndexBits). addTasks sig inputIndexBits writeSig indexBits w u)
           (go_range (ua_Input ua)) s)
         (write_address_tasks w writeSig indexBits us))"

definition addWriteAddressTask :: "WriteAddress \<Rightarrow> string \<Rightarrow> uint32 \<Rightarrow> work \<Rightarrow> work res" where
  "addWriteAddressTask wa writeSig indexBits =
    write_address_tasks (wa_WriteAddress wa) writeSig indexBits (go_keys (wa_UncoveredAddress wa))"

text \<open>
  The two loops of \<open>addInputTask\<close>. The flag says that the method goes on: a missing write
  address or uncovered address returns from the whole method.
\<close>

fun input_task_writes :: "string \<Rightarrow> uint32 \<Rightarrow> uint32 \<Rightarrow> uint32 list \<Rightarrow> work \<Rightarrow> (bool \<times> work) res" where
  "input_task_writes sig inputIndexBits u [] s = Inr (True, s)"
| "input_task_writes sig inputIndexBits u (w # ws) s =
    (case go_get (dd_WriteAddress (fst s)) w of
       None \<Rightarrow> Inr (False, s)
     | Some wa \<Rightarrow>
       rbind (rfold (\<lambda>(writeSig, indexBits). addTasks sig inputIndexBits writeSig indexBits w u)
           (go_range (wa_Input wa)) s)
         (input_task_writes sig inputIndexBits u ws))"

fun input_tasks :: "string \<Rightarrow> (uint32 \<times> uint32) list \<Rightarrow> work \<Rightarrow> work res" where
  "input_tasks sig [] s = Inr s"
| "input_tasks sig ((u, inputIndexBits) # us) s =
    (case go_get (dd_UncoveredAddress (fst s)) u of
       None \<Rightarrow> Inr s
     | Some ua \<Rightarrow>
       rbind (input_task_writes sig inputIndexBits u (go_keys (ua_WriteAddress ua)) s) (\<lambda>(go_on, s').
       if go_on then input_tasks sig us s' else Inr s'))"

definition addInputTask :: "Input \<Rightarrow> work \<Rightarrow> work res" where
  "addInputTask d = input_tasks (i_Sig d) (go_range (i_UncoveredAddress d))"

text \<open>
  \<open>addBootTasks\<close>. The task is for the uncovered address on both sides. The global
  container here is \<open>BootTask\<close>.
\<close>

definition addBootTasks :: "string \<Rightarrow> uint32 \<Rightarrow> uint32 \<Rightarrow> work \<Rightarrow> work res" where
  "addBootTasks sig indexBits uncoveredAddress s =
    (case go_get (dd_Input (fst s)) sig of
       None \<Rightarrow> Inl (Fatal ''addBootTasks do not find sig'')
     | Some input \<Rightarrow>
     (case go_get (dd_UncoveredAddress (fst s)) uncoveredAddress of
       None \<Rightarrow> Inl (Fatal ''addBootTasks do not find uncovered address'')
     | Some ua \<Rightarrow>
       let writeIndexBits = fold (\<lambda>(i, c) b. fold (\<lambda>a b. fold (\<lambda>wa b.
               if wa = a then b OR index_bit i else b) (go_keys (ua_WriteAddress ua)) b)
             (go_keys (c_Address c)) b) (go_range (i_Call input)) 0
       in rfold (\<lambda>i s. rbind (getTask sig i sig writeIndexBits uncoveredAddress uncoveredAddress (fst s)) (\<lambda>t.
            rmap (\<lambda>q. (fst s, q)) (server_addTask t (snd s)))) (bit_indices indexBits) s))"

subsection \<open>Inputs\<close>

definition addNewInput :: "Input \<Rightarrow> DataDependency \<Rightarrow> DataDependency res" where
  "addNewInput s m =
    (case go_get (dd_OtherInput m) (i_Sig s) of
       Some i \<Rightarrow> Inr (m\<lparr>dd_OtherInput := go_set (i_Sig s) (mergeInput i s) (dd_OtherInput m)\<rparr>)
     | None \<Rightarrow> rmap (\<lambda>im. m\<lparr>dd_OtherInput := im\<rparr>) (go_put (i_Sig s) s (dd_OtherInput m)))"

definition store_input :: "Input \<Rightarrow> DataDependency \<Rightarrow> DataDependency res" where
  "store_input s m =
    (case go_get (dd_Input m) (i_Sig s) of
       Some i \<Rightarrow> Inr (m\<lparr>dd_Input := go_set (i_Sig s) (mergeInput i s) (dd_Input m)\<rparr>)
     | None \<Rightarrow> rmap (\<lambda>im. m\<lparr>dd_Input := im\<rparr>) (go_put (i_Sig s) s (dd_Input m)))"

text \<open>
  \<open>addWriteAddressMapInput\<close> for one covered address \<open>a\<close> of a call: \<open>hit_bits\<close> are the call
  indices that are new for the write address, \<open>note_write\<close> the write address and
  \<open>note_input\<close> the input that learn of each other.
\<close>

definition hit_bits :: "string \<Rightarrow> uint32 \<Rightarrow> WriteAddress \<Rightarrow> uint32" where
  "hit_bits sig indexBits wa =
    (case go_get (wa_Input wa) sig of
       Some waIndex \<Rightarrow> (if (waIndex OR indexBits) XOR waIndex > 0 then (waIndex OR indexBits) XOR waIndex else 0)
     | None \<Rightarrow> indexBits)"

definition note_write :: "string \<Rightarrow> uint32 \<Rightarrow> WriteAddress \<Rightarrow> WriteAddress" where
  "note_write sig indexBits wa =
    (case go_get (wa_Input wa) sig of
       Some waIndex \<Rightarrow> (if (waIndex OR indexBits) XOR waIndex > 0
           then wa\<lparr>wa_Input := go_set sig (waIndex OR indexBits) (wa_Input wa)\<rparr> else wa)
     | None \<Rightarrow> wa\<lparr>wa_Input := go_set sig indexBits (wa_Input wa)\<rparr>)"

definition note_input :: "string \<Rightarrow> uint32 \<Rightarrow> uint32 \<Rightarrow> DataDependency \<Rightarrow> DataDependency" where
  "note_input sig a indexBits m =
    (case go_get (dd_Input m) sig of
       Some input \<Rightarrow> m\<lparr>dd_Input := go_set sig (input\<lparr>i_WriteAddress :=
           (case go_get (i_WriteAddress input) a of
              Some iIndex \<Rightarrow> go_set a (iIndex OR indexBits) (i_WriteAddress input)
            | None \<Rightarrow> go_set a indexBits (i_WriteAddress input))\<rparr>) (dd_Input m)\<rparr>
     | None \<Rightarrow> m)"

definition hit_write_address :: "string \<Rightarrow> uint32 \<Rightarrow> uint32 \<Rightarrow> work \<Rightarrow> work res" where
  "hit_write_address sig indexBits a s =
    (case go_get (dd_WriteAddress (fst s)) a of
       None \<Rightarrow> Inr s
     | Some wa \<Rightarrow>
       let wa' = note_write sig indexBits wa;
           m1 = (fst s)\<lparr>dd_WriteAddress := go_set a wa' (dd_WriteAddress (fst s))\<rparr>
       in rbind (addWriteAddressTask wa' sig (hit_bits sig indexBits wa) (m1, snd s)) (\<lambda>s'.
          Inr (note_input sig a indexBits (fst s'), snd s')))"

definition addWriteAddressMapInput :: "Input \<Rightarrow> work \<Rightarrow> work res" where
  "addWriteAddressMapInput s =
    rfold (\<lambda>(index, call). rfold (hit_write_address (i_Sig s) (index_bit index)) (go_keys (c_Address call)))
      (go_range (i_Call s))"

definition note_uncovered :: "string \<Rightarrow> uint32 \<times> uint32 \<Rightarrow> DataDependency \<Rightarrow> DataDependency" where
  "note_uncovered sig e m =
    (case go_get (dd_UncoveredAddress m) (fst e) of
       Some u2 \<Rightarrow> m\<lparr>dd_UncoveredAddress := go_set (fst e) (u2\<lparr>ua_Input :=
           (case go_get (ua_Input u2) sig of
              Some i2 \<Rightarrow> go_set sig (i2 OR snd e) (ua_Input u2)
            | None \<Rightarrow> go_set sig (snd e) (ua_Input u2))\<rparr>) (dd_UncoveredAddress m)\<rparr>
     | None \<Rightarrow> m)"

definition addUncoveredAddressMapInput :: "Input \<Rightarrow> DataDependency \<Rightarrow> DataDependency" where
  "addUncoveredAddressMapInput s = fold (note_uncovered (i_Sig s)) (go_range (i_UncoveredAddress s))"

definition forget_calls :: "string \<Rightarrow> DataDependency \<Rightarrow> DataDependency res" where
  "forget_calls sig m =
    (if CollectUnstable then Inr m
     else case go_get (dd_Input m) sig of
       None \<Rightarrow> Inl (Panic ''nil pointer dereference'')
     | Some i \<Rightarrow> Inr (m\<lparr>dd_Input := go_set sig (i\<lparr>i_Call := Some []\<rparr>) (dd_Input m)\<rparr>))"

definition addInput :: "Input \<Rightarrow> work \<Rightarrow> work res" where
  "addInput s w =
    rbind (store_input s (fst w)) (\<lambda>m1.
    rbind (addWriteAddressMapInput s (m1, snd w)) (\<lambda>w2.
    rmap (\<lambda>m3. (m3, snd w2)) (forget_calls (i_Sig s) (addUncoveredAddressMapInput s (fst w2)))))"

subsection \<open>Addresses\<close>

text \<open>The two loops of \<open>deleteUncoveredAddress\<close>, one turn each.\<close>

definition unlink_input :: "uint32 \<Rightarrow> string \<Rightarrow> DataDependency \<Rightarrow> DataDependency res" where
  "unlink_input u sig m =
    (case go_get (dd_Input m) sig of
       None \<Rightarrow> Inl (Fatal ''deleteUncoveredAddress not find sig'')
     | Some input \<Rightarrow>
       if go_has (i_UncoveredAddress input) u
       then Inr (m\<lparr>dd_Input := go_set sig (input\<lparr>i_UncoveredAddress := go_del u (i_UncoveredAddress input)\<rparr>) (dd_Input m)\<rparr>)
       else Inl (Fatal ''deleteUncoveredAddress input not find uncoveredAddress''))"

definition unlink_write :: "uint32 \<Rightarrow> uint32 \<Rightarrow> DataDependency \<Rightarrow> DataDependency res" where
  "unlink_write u w m =
    (case go_get (dd_WriteAddress m) w of
       None \<Rightarrow> Inl (Fatal ''deleteUncoveredAddress not find wa'')
     | Some waa \<Rightarrow>
       if go_has (wa_UncoveredAddress waa) u
       then Inr (m\<lparr>dd_WriteAddress := go_set w (waa\<lparr>wa_UncoveredAddress := go_del u (wa_UncoveredAddress waa)\<rparr>) (dd_WriteAddress m)\<rparr>)
       else Inl (Fatal ''deleteUncoveredAddress write address not find uncoveredAddress''))"

type_synonym covered_map = "(uint32, UncoveredAddress) gomap"

definition deleteUncoveredAddress :: "uint32 \<Rightarrow> DataDependency \<times> covered_map \<Rightarrow> (DataDependency \<times> covered_map) res" where
  "deleteUncoveredAddress uncoveredAddress s =
    (case go_get (dd_UncoveredAddress (fst s)) uncoveredAddress of
       None \<Rightarrow> Inr s
     | Some u \<Rightarrow>
       rbind (rfold (unlink_input uncoveredAddress) (go_keys (ua_Input u)) (fst s)) (\<lambda>m1.
       rbind (rfold (unlink_write uncoveredAddress) (go_keys (ua_WriteAddress u)) m1) (\<lambda>m2.
       rbind (go_put uncoveredAddress u (snd s)) (\<lambda>c.
       Inr (m2\<lparr>dd_UncoveredAddress := go_del uncoveredAddress (dd_UncoveredAddress m2)\<rparr>, c)))))"

definition server_checkUncoveredAddress ::
  "uint32 \<Rightarrow> DataDependency \<times> covered_map \<Rightarrow> (bool \<times> DataDependency \<times> covered_map) res" where
  "server_checkUncoveredAddress uncoveredAddress s =
    (if go_has (dd_UncoveredAddress (fst s)) uncoveredAddress
     then rmap (\<lambda>s'. (True, s')) (deleteUncoveredAddress uncoveredAddress s)
     else Inr (False, s))"

definition link_write :: "uint32 \<Rightarrow> uint32 \<times> WriteAddressAttributes \<Rightarrow> DataDependency \<Rightarrow> DataDependency res" where
  "link_write u e m =
    (case go_get (dd_WriteAddress m) (fst e) of
       Some w2 \<Rightarrow> rmap (\<lambda>um. m\<lparr>dd_WriteAddress := go_set (fst e) (w2\<lparr>wa_UncoveredAddress := um\<rparr>) (dd_WriteAddress m)\<rparr>)
                    (go_put u (snd e) (wa_UncoveredAddress w2))
     | None \<Rightarrow> Inr m)"

definition addWriteAddressMapUncoveredAddress :: "UncoveredAddress \<Rightarrow> DataDependency \<Rightarrow> DataDependency res" where
  "addWriteAddressMapUncoveredAddress s =
    rfold (link_write (ua_UncoveredAddress s)) (go_range (ua_WriteAddress s))"

text \<open>The statuses a new uncovered address starts with.\<close>

definition fresh_uncovered :: "UncoveredAddress \<Rightarrow> UncoveredAddress" where
  "fresh_uncovered s = s\<lparr>
     ua_Count := 0,
     ua_WriteAddressStatus :=
       fold (\<lambda>w. go_set w TaskStatus_not_find_write_input) (go_keys (ua_WriteAddress s)) (Some []),
     ua_InputStatus :=
       fold (\<lambda>(input, indexBits). go_set input \<lparr>st_Status =
           fold (\<lambda>idx. go_set idx TaskStatus_untested) (bit_indices indexBits) (Some [])\<rparr>)
         (go_range (ua_Input s)) (Some [])\<rparr>"

definition addUncoveredAddress :: "(uint32, uint32) gomap \<Rightarrow> UncoveredAddress \<Rightarrow> DataDependency \<Rightarrow> DataDependency res" where
  "addUncoveredAddress coverage s m =
    (if go_has coverage (ua_UncoveredAddress s) then Inr m
     else case go_get (dd_UncoveredAddress m) (ua_UncoveredAddress s) of
       Some ii \<Rightarrow>
         rbind (mergeUncoveredAddress ii s) (\<lambda>(ii', s').
         addWriteAddressMapUncoveredAddress s'
           (m\<lparr>dd_UncoveredAddress := go_set (ua_UncoveredAddress s) ii' (dd_UncoveredAddress m)\<rparr>))
     | None \<Rightarrow>
         rbind (go_put (ua_UncoveredAddress s) (fresh_uncovered s) (dd_UncoveredAddress m)) (\<lambda>um.
         addWriteAddressMapUncoveredAddress (fresh_uncovered s) (m\<lparr>dd_UncoveredAddress := um\<rparr>)))"

definition note_write_of_input :: "uint32 \<Rightarrow> string \<times> uint32 \<Rightarrow> DataDependency \<Rightarrow> DataDependency" where
  "note_write_of_input w e m =
    (case go_get (dd_Input m) (fst e) of
       Some waInput \<Rightarrow> m\<lparr>dd_Input := go_set (fst e) (waInput\<lparr>i_WriteAddress :=
           (case go_get (i_WriteAddress waInput) w of
              Some indexBits2 \<Rightarrow> go_set w (indexBits2 OR snd e) (i_WriteAddress waInput)
            | None \<Rightarrow> go_set w (snd e) (i_WriteAddress waInput))\<rparr>) (dd_Input m)\<rparr>
     | None \<Rightarrow> m)"

definition addWriteAddress :: "WriteAddress \<Rightarrow> DataDependency \<Rightarrow> DataDependency res" where
  "addWriteAddress s m =
    rmap (fold (note_write_of_input (wa_WriteAddress s)) (go_range (wa_Input s)))
      (case go_get (dd_WriteAddress m) (wa_WriteAddress s) of
         Some i \<Rightarrow> Inr (m\<lparr>dd_WriteAddress := go_set (wa_WriteAddress s) (mergeWriteAddress i s) (dd_WriteAddress m)\<rparr>)
       | None \<Rightarrow> rmap (\<lambda>wm. m\<lparr>dd_WriteAddress := wm\<rparr>) (go_put (wa_WriteAddress s) s (dd_WriteAddress m)))"

section \<open>Making tasks never aborts\<close>

text \<open>
  What the task-making methods leave alone: everything but the counts and the write
  statuses of uncovered addresses.
\<close>

definition link_view :: "UncoveredAddress \<Rightarrow> UncoveredAddress" where
  "link_view ua = ua\<lparr>ua_Count := 0, ua_WriteAddressStatus := None\<rparr>"

definition same_links :: "DataDependency \<Rightarrow> DataDependency \<Rightarrow> bool" where
  "same_links m m' \<longleftrightarrow> dd_Input m' = dd_Input m \<and> dd_WriteAddress m' = dd_WriteAddress m
     \<and> dd_OtherInput m' = dd_OtherInput m
     \<and> (\<forall>u. map_option link_view (go_get (dd_UncoveredAddress m') u)
          = map_option link_view (go_get (dd_UncoveredAddress m) u))"

lemma same_links_refl [simp]: "same_links m m"
  by (simp add: same_links_def)

lemma same_links_trans: "same_links m m' \<Longrightarrow> same_links m' m'' \<Longrightarrow> same_links m m''"
  by (simp add: same_links_def)

lemma counted_same: "counted u w n m m' \<Longrightarrow> same_links m m'"
  by (auto simp: counted_def same_links_def link_view_def)

lemma link_view_eq:
  "link_view a = link_view b \<Longrightarrow> ua_Input a = ua_Input b \<and> ua_WriteAddress a = ua_WriteAddress b"
  unfolding link_view_def by (cases a; cases b) simp

lemma same_links_ua:
  assumes "same_links m m'" "go_get (dd_UncoveredAddress m') u = Some ua'"
  obtains ua where "go_get (dd_UncoveredAddress m) u = Some ua" "ua_Input ua = ua_Input ua'"
    "ua_WriteAddress ua = ua_WriteAddress ua'"
proof -
  from assms have "Some (link_view ua') = map_option link_view (go_get (dd_UncoveredAddress m) u)"
    unfolding same_links_def by (metis option.map(2))
  then obtain ua where "go_get (dd_UncoveredAddress m) u = Some ua" "link_view ua' = link_view ua"
    by (cases "go_get (dd_UncoveredAddress m) u") auto
  with that link_view_eq show thesis by metis
qed

lemma same_links_sym: "same_links m m' \<Longrightarrow> same_links m' m"
  by (simp add: same_links_def)

lemma same_links_can:
  assumes "same_links m m'" "can_task m sig writeSig w u"
  shows "can_task m' sig writeSig w u"
proof -
  from assms(2) obtain ua where "go_get (dd_UncoveredAddress m) u = Some ua" "w \<in> set (go_keys (ua_WriteAddress ua))"
    by (auto simp: can_task_def)
  from same_links_ua [OF same_links_sym [OF assms(1)] this(1)] this(2)
  have "\<exists>ua. go_get (dd_UncoveredAddress m') u = Some ua \<and> w \<in> set (go_keys (ua_WriteAddress ua))" by metis
  then show ?thesis using assms by (simp add: can_task_def same_links_def)
qed

lemma same_links_keys: "same_links m m' \<Longrightarrow> set (go_keys (dd_UncoveredAddress m')) = set (go_keys (dd_UncoveredAddress m))"
  unfolding same_links_def go_keys_dom dom_def by (metis option.map_disc_iff)

text \<open>The server makes its maps before it runs; no method makes them nil.\<close>

definition made :: "DataDependency \<Rightarrow> bool" where
  "made m \<longleftrightarrow> dd_Input m \<noteq> None \<and> dd_UncoveredAddress m \<noteq> None \<and> dd_WriteAddress m \<noteq> None"

lemma counted_made: "counted u w n m m' \<Longrightarrow> dd_UncoveredAddress m' \<noteq> None"
  by (auto simp: counted_def)

text \<open>The invariant of the task-making loops, relative to where they started.\<close>

definition working :: "DataDependency \<Rightarrow> task_store \<Rightarrow> work \<Rightarrow> bool" where
  "working m0 st0 s \<longleftrightarrow> (case s of (m, ts, st) \<Rightarrow>
     linked m \<and> same_links m0 m \<and> wf_tasks st ts \<and> wf_store st \<and> hext st0 st
     \<and> (dd_UncoveredAddress m0 \<noteq> None \<longrightarrow> dd_UncoveredAddress m \<noteq> None))"

lemma working_start: "linked m \<Longrightarrow> wf_tasks st ts \<Longrightarrow> wf_store st \<Longrightarrow> working m st (m, ts, st)"
  by (simp add: working_def)

lemma working_ua:
  assumes "working m0 st0 s" "go_get (dd_UncoveredAddress (fst s)) u = Some ua'"
  obtains ua where "go_get (dd_UncoveredAddress m0) u = Some ua" "ua_Input ua = ua_Input ua'"
    "ua_WriteAddress ua = ua_WriteAddress ua'"
proof -
  have "same_links m0 (fst s)" using assms(1) by (auto simp: working_def)
  from same_links_ua [OF this assms(2)] that show thesis .
qed

lemma working_wa: "working m0 st0 s \<Longrightarrow> dd_WriteAddress (fst s) = dd_WriteAddress m0"
  by (auto simp: working_def same_links_def)

lemma server_addTasks_ok:
  assumes "wf_tasks st m" "wf_store st" "\<forall>t \<in> set ts. \<exists>e. go_range (t_UncoveredAddress t) = [e]"
  shows "\<exists>m' st'. rfold server_addTask ts (m, st) = Inr (m', st') \<and> hext st st' \<and> wf_tasks st' m' \<and> wf_store st'
    \<and> set (hashes st' m') = set (hashes st m) \<union> task_hash ` set ts"
  using assms
proof (induction ts arbitrary: m st)
  case Nil
  then show ?case by auto
next
  case (Cons t ts)
  from Cons.prems(3) obtain u dr where "go_range (t_UncoveredAddress t) = [(u, dr)]" by auto
  from server_addTask_ok [OF Cons.prems(1,2) this] obtain m1 st1 where
    1: "server_addTask t (m, st) = Inr (m1, st1)" "hext st st1" "wf_tasks st1 m1"
      "set (hashes st1 m1) = insert (task_hash t) (set (hashes st m))"
    by (auto simp: insert_absorb split: if_splits)
  have "wf_store st1" using 1(2) Cons.prems(2) by (simp add: hext_def)
  with Cons.IH [OF 1(3)] Cons.prems(3) 1 show ?case by (auto intro: hext_trans)
qed

lemma addTasks_ok:
  assumes w: "working m0 st0 s" and can: "can_task m0 sig writeSig w u"
  shows "\<exists>s'. addTasks sig ib writeSig wb w u s = Inr s' \<and> working m0 st0 s'"
proof -
  obtain m ts st where s: "s = (m, ts, st)" by (cases s)
  have l: "linked m" "same_links m0 m" "wf_tasks st ts" "wf_store st" "hext st0 st"
    using w by (simp_all add: working_def s)
  have c: "can_task m sig writeSig w u" using same_links_can [OF l(2) can] .
  then obtain ua where "go_get (dd_UncoveredAddress m) u = Some ua" by (auto simp: can_task_def)
  from getTasks_ok [OF l(1) c this, of ib wb] obtain m' tl where
    g: "getTasks sig ib writeSig wb w u m = Inr (m', tl)" "counted u w (length tl) m m'"
    and all: "list_all2 (task_for sig writeSig w u)
        (if ua_Count ua < task_budget ua then List.product (bit_indices ib) (bit_indices wb) else []) tl" by blast
  from all have "\<forall>t \<in> set tl. \<exists>e. go_range (t_UncoveredAddress t) = [e]"
    by (force simp: list_all2_conv_all_nth in_set_conv_nth task_for_def)
  from server_addTasks_ok [OF l(3,4) this] obtain ts' st' where
    "rfold server_addTask tl (ts, st) = Inr (ts', st')" "hext st st'" "wf_tasks st' ts'" "wf_store st'" by blast
  with g l counted_linked [OF l(1) g(2)] counted_same [OF g(2)] counted_made [OF g(2)] show ?thesis
    by (auto simp: addTasks_def s working_def intro: hext_trans same_links_trans)
qed

lemma write_address_tasks_ok:
  assumes "working m0 st0 s" "linked m0" "writeSig \<in> set (go_keys (dd_Input m0))"
    and "\<forall>u \<in> set us. \<forall>ua. go_get (dd_UncoveredAddress m0) u = Some ua \<longrightarrow> w \<in> set (go_keys (ua_WriteAddress ua))"
  shows "\<exists>s'. write_address_tasks w writeSig wb us s = Inr s' \<and> working m0 st0 s'"
  using assms(1,4)
proof (induction us arbitrary: s)
  case Nil
  then show ?case by simp
next
  case (Cons u us)
  show ?case
  proof (cases "go_get (dd_UncoveredAddress (fst s)) u")
    case None
    then show ?thesis using Cons.prems(1) by simp
  next
    case (Some ua')
    from working_ua [OF Cons.prems(1) Some] obtain ua where
      ua: "go_get (dd_UncoveredAddress m0) u = Some ua" "ua_Input ua = ua_Input ua'" .
    have "\<exists>s'. (\<lambda>(sig, ib). addTasks sig ib writeSig wb w u) e s = Inr s' \<and> working m0 st0 s'"
      if "e \<in> set (go_range (ua_Input ua'))" "working m0 st0 s" for e s
    proof -
      have "fst e \<in> set (go_keys (ua_Input ua))" using go_range_key [of "fst e" "snd e"] that ua by simp
      from linkedD_ua(3) [OF assms(2) ua(1) this] obtain i where "go_get (dd_Input m0) (fst e) = Some i" by auto
      then have "fst e \<in> set (go_keys (dd_Input m0))" by (rule go_get_key)
      moreover have "w \<in> set (go_keys (ua_WriteAddress ua))"
        using Cons.prems(2) [rule_format, OF list.set_intros(1) ua(1)] .
      ultimately have "can_task m0 (fst e) writeSig w u"
        unfolding can_task_def using ua(1) assms(3) by blast
      from addTasks_ok [OF that(2) this] show ?thesis by (simp add: split_def)
    qed
    with rfold_total [of "working m0 st0" s "go_range (ua_Input ua')" "\<lambda>(sig, ib). addTasks sig ib writeSig wb w u",
        OF Cons.prems(1)]
    obtain s1 where
      "rfold (\<lambda>(sig, ib). addTasks sig ib writeSig wb w u) (go_range (ua_Input ua')) s = Inr s1" "working m0 st0 s1"
      by blast
    moreover have "\<exists>s'. write_address_tasks w writeSig wb us s1 = Inr s' \<and> working m0 st0 s'"
      by (rule Cons.IH [OF \<open>working m0 st0 s1\<close>]) (use Cons.prems(2) in simp)
    ultimately show ?thesis using Some by simp
  qed
qed

lemma addWriteAddressTask_ok:
  assumes "working m0 st0 s" "linked m0" "writeSig \<in> set (go_keys (dd_Input m0))"
    and "go_get (dd_WriteAddress m0) a = Some wa"
  shows "\<exists>s'. addWriteAddressTask wa writeSig wb s = Inr s' \<and> working m0 st0 s'"
  unfolding addWriteAddressTask_def
  by (rule write_address_tasks_ok [OF assms(1-3)])
     (use linkedD_wa [OF assms(2,4)] in auto)

lemma input_task_writes_ok:
  assumes "working m0 st0 s" "linked m0" "sig \<in> set (go_keys (dd_Input m0))"
    and "\<exists>ua. go_get (dd_UncoveredAddress m0) u = Some ua \<and> set ws \<subseteq> set (go_keys (ua_WriteAddress ua))"
  shows "\<exists>b s'. input_task_writes sig ib u ws s = Inr (b, s') \<and> working m0 st0 s'"
  using assms(1,4)
proof (induction ws arbitrary: s)
  case Nil
  then show ?case by auto
next
  case (Cons w ws)
  show ?case
  proof (cases "go_get (dd_WriteAddress (fst s)) w")
    case None
    then show ?thesis using Cons.prems by auto
  next
    case (Some wa)
    have wa: "go_get (dd_WriteAddress m0) w = Some wa" using Some working_wa [OF Cons.prems(1)] by simp
    have "\<exists>s'. (\<lambda>(writeSig, wb). addTasks sig ib writeSig wb w u) e s = Inr s' \<and> working m0 st0 s'"
      if "e \<in> set (go_range (wa_Input wa))" "working m0 st0 s" for e s
    proof -
      have "fst e \<in> set (go_keys (wa_Input wa))" using go_range_key [of "fst e" "snd e"] that by simp
      then have "can_task m0 sig (fst e) w u"
        using linkedD_wa(3) [OF assms(2) wa] Cons.prems(2) assms(3) by (auto simp: can_task_def)
      from addTasks_ok [OF that(2) this] show ?thesis by (simp add: split_def)
    qed
    with rfold_total [of "working m0 st0" s "go_range (wa_Input wa)" "\<lambda>(writeSig, wb). addTasks sig ib writeSig wb w u",
        OF Cons.prems(1)]
    obtain s1 where
      "rfold (\<lambda>(writeSig, wb). addTasks sig ib writeSig wb w u) (go_range (wa_Input wa)) s = Inr s1" "working m0 st0 s1"
      by blast
    with Cons.IH [of s1] Cons.prems(2) Some show ?thesis by auto
  qed
qed

lemma addInputTask_ok:
  assumes "working m0 st0 s" "linked m0" "i_Sig d \<in> set (go_keys (dd_Input m0))"
  shows "\<exists>s'. addInputTask d s = Inr s' \<and> working m0 st0 s'"
proof -
  have "\<exists>s'. input_tasks (i_Sig d) us s = Inr s' \<and> working m0 st0 s'" for us
    using assms(1)
  proof (induction us arbitrary: s)
    case Nil
    then show ?case by simp
  next
    case (Cons e us)
    obtain u ib where e: "e = (u, ib)" by (cases e)
    show ?case
    proof (cases "go_get (dd_UncoveredAddress (fst s)) u")
      case None
      then show ?thesis using Cons.prems e by simp
    next
      case (Some ua')
      from working_ua [OF Cons.prems Some] obtain ua where
        "go_get (dd_UncoveredAddress m0) u = Some ua" "ua_WriteAddress ua = ua_WriteAddress ua'" .
      then have ua: "\<exists>ua. go_get (dd_UncoveredAddress m0) u = Some ua \<and> set (go_keys (ua_WriteAddress ua')) \<subseteq> set (go_keys (ua_WriteAddress ua))"
        by auto
      from input_task_writes_ok [OF Cons.prems assms(2,3) ua] obtain b s1 where
        "input_task_writes (i_Sig d) ib u (go_keys (ua_WriteAddress ua')) s = Inr (b, s1)" "working m0 st0 s1" by blast
      with Cons.IH [of s1] Some e show ?thesis by (simp del: split_paired_Ex)
    qed
  qed
  then show ?thesis by (simp add: addInputTask_def)
qed

section \<open>Learning of an input\<close>

lemma store_input_ok:
  assumes "linked_upto X m" "dd_Input m \<noteq> None"
    and "\<And>u sig. (u, sig) \<in> X \<Longrightarrow> sig = i_Sig s \<and> u \<in> set (go_keys (i_UncoveredAddress s))"
  shows "\<exists>i. store_input s m = Inr (m\<lparr>dd_Input := go_set (i_Sig s) i (dd_Input m)\<rparr>)
    \<and> linked (m\<lparr>dd_Input := go_set (i_Sig s) i (dd_Input m)\<rparr>)
    \<and> set (go_keys (i_UncoveredAddress s)) \<subseteq> set (go_keys (i_UncoveredAddress i))"
proof -
  define i' where "i' = (case go_get (dd_Input m) (i_Sig s) of Some i \<Rightarrow> mergeInput i s | None \<Rightarrow> s)"
  have "store_input s m = Inr (m\<lparr>dd_Input := go_set (i_Sig s) i' (dd_Input m)\<rparr>)"
    using assms(2) by (simp add: store_input_def i'_def del: not_None_eq split: option.split)
  moreover have "set (go_keys (i_UncoveredAddress s)) \<subseteq> set (go_keys (i_UncoveredAddress i'))"
    by (simp add: i'_def go_keys_merge split: option.split)
  moreover from this have "linked (m\<lparr>dd_Input := go_set (i_Sig s) i' (dd_Input m)\<rparr>)"
    unfolding linked_def using assms(3)
    by (intro linked_upd_input [OF assms(1)]) (auto simp: i'_def go_keys_merge)
  ultimately show ?thesis by blast
qed

lemma note_write_sel [simp]:
  "wa_WriteAddress (note_write sig b wa) = wa_WriteAddress wa"
  "wa_UncoveredAddress (note_write sig b wa) = wa_UncoveredAddress wa"
  "set (go_keys (wa_Input (note_write sig b wa))) = insert sig (set (go_keys (wa_Input wa)))"
  by (auto simp: note_write_def go_key_iff split: option.splits)

lemma note_input_linked:
  assumes "linked m"
  shows "linked (note_input sig a b m)"
proof (cases "go_get (dd_Input m) sig")
  case (Some i)
  then show ?thesis using assms unfolding note_input_def linked_def
    by (simp split: option.split) (auto intro: linked_upd_input)
qed (simp add: note_input_def assms)

lemma go_keys_set_known: "k \<in> set (go_keys m) \<Longrightarrow> set (go_keys (go_set k v m)) = set (go_keys m)"
  by auto

text \<open>
  The invariant of \<open>addInput\<close>: like \<open>working\<close>, but inputs and write addresses may learn of
  each other on the way. The uncovered addresses an input names stay.
\<close>

definition unc_view :: "DataDependency \<Rightarrow> string \<Rightarrow> uint32 set option" where
  "unc_view m sig = map_option (\<lambda>i. set (go_keys (i_UncoveredAddress i))) (go_get (dd_Input m) sig)"

definition noting :: "DataDependency \<Rightarrow> task_store \<Rightarrow> work \<Rightarrow> bool" where
  "noting m0 st0 s \<longleftrightarrow> (case s of (m, ts, st) \<Rightarrow>
     linked m \<and> wf_tasks st ts \<and> wf_store st \<and> hext st0 st
     \<and> unc_view m = unc_view m0 \<and> made m
     \<and> set (go_keys (dd_UncoveredAddress m)) = set (go_keys (dd_UncoveredAddress m0))
     \<and> set (go_keys (dd_WriteAddress m)) = set (go_keys (dd_WriteAddress m0)))"

lemma unc_view_note_input [simp]: "unc_view (note_input sig a b m) = unc_view m"
  by (auto simp: note_input_def unc_view_def fun_eq_iff split: option.split)

lemma unc_view_key: "sig \<in> set (go_keys (dd_Input m)) \<longleftrightarrow> unc_view m sig \<noteq> None"
  by (auto simp: unc_view_def go_key_iff)

lemma noteD:
  "note_input sig a b m = m \<or> (\<exists>i. note_input sig a b m = m\<lparr>dd_Input := go_set sig i (dd_Input m)\<rparr>)"
  by (auto simp: note_input_def split: option.split)

lemma note_input_sel [simp]:
  "dd_UncoveredAddress (note_input sig a b m) = dd_UncoveredAddress m"
  "dd_WriteAddress (note_input sig a b m) = dd_WriteAddress m"
  "dd_Input m \<noteq> None \<Longrightarrow> dd_Input (note_input sig a b m) \<noteq> None"
  using noteD [of sig a b m] go_set_not_nil by auto

lemma hit_write_address_ok:
  assumes w: "noting m0 st0 s" and sig: "unc_view m0 sig \<noteq> None"
  shows "\<exists>s'. hit_write_address sig b a s = Inr s' \<and> noting m0 st0 s'"
proof -
  obtain m ts st where s: "s = (m, ts, st)" by (cases s)
  have l: "linked m" "wf_tasks st ts" "wf_store st" "hext st0 st" "unc_view m = unc_view m0" "made m"
    "set (go_keys (dd_UncoveredAddress m)) = set (go_keys (dd_UncoveredAddress m0))"
    "set (go_keys (dd_WriteAddress m)) = set (go_keys (dd_WriteAddress m0))"
    using w unfolding noting_def s by blast+
  show ?thesis
  proof (cases "go_get (dd_WriteAddress m) a")
    case None
    then show ?thesis using w s by (simp add: hit_write_address_def)
  next
    case (Some wa)
    define wa' where "wa' = note_write sig b wa"
    define m1 where "m1 = m\<lparr>dd_WriteAddress := go_set a wa' (dd_WriteAddress m)\<rparr>"
    note lw = linkedD_wa [OF l(1) Some]
    have k: "sig \<in> set (go_keys (dd_Input m))" using sig l(5) by (simp add: unc_view_key)
    have "linked_upto {} m1" unfolding m1_def
      by (rule linked_upd_wa [of _ _ _ wa]) (use l(1) Some lw k in \<open>auto simp: wa'_def linked_def\<close>)
    then have l1: "linked m1" by (simp add: linked_def)
    have "working m1 st (m1, ts, st)" using l1 l(2,3) by (rule working_start)
    moreover have "sig \<in> set (go_keys (dd_Input m1))" "go_get (dd_WriteAddress m1) a = Some wa'"
      using k by (simp_all add: m1_def)
    ultimately obtain m2 ts2 st2 where
      s2: "addWriteAddressTask wa' sig (hit_bits sig b wa) (m1, ts, st) = Inr (m2, ts2, st2)" "working m1 st (m2, ts2, st2)"
      using addWriteAddressTask_ok [of m1 st "(m1, ts, st)" sig a wa' "hit_bits sig b wa"] l1 by auto
    then have m2: "linked m2" "same_links m1 m2" "wf_tasks st2 ts2" "wf_store st2" "hext st st2"
      "dd_UncoveredAddress m1 \<noteq> None \<longrightarrow> dd_UncoveredAddress m2 \<noteq> None"
      unfolding working_def by blast+
    have "made m1" using l(6) by (simp add: made_def m1_def)
    then have made: "made (note_input sig a b m2)" using m2(2,6)
      by (simp add: made_def same_links_def del: not_None_eq)
    have "dd_Input m2 = dd_Input m" "dd_WriteAddress m2 = dd_WriteAddress m1"
      using m2(2) by (simp_all add: same_links_def m1_def)
    moreover have "set (go_keys (dd_UncoveredAddress m2)) = set (go_keys (dd_UncoveredAddress m))"
      using same_links_keys [OF m2(2)] by (simp add: m1_def)
    moreover have "set (go_keys (dd_WriteAddress m1)) = set (go_keys (dd_WriteAddress m))"
      using go_get_key [OF Some] by (auto simp: m1_def)
    moreover have "unc_view m2 = unc_view m" using calculation(1) by (simp add: unc_view_def fun_eq_iff)
    ultimately have "noting m0 st0 (note_input sig a b m2, ts2, st2)"
      using l m2 made unfolding noting_def
      by (simp add: note_input_linked hext_trans [OF l(4) m2(5)] del: not_None_eq)
    then show ?thesis using s2(1) Some s by (simp add: hit_write_address_def Let_def wa'_def m1_def)
  qed
qed

lemma addWriteAddressMapInput_ok:
  assumes "noting m0 st0 w" "unc_view m0 (i_Sig s) \<noteq> None"
  shows "\<exists>w'. addWriteAddressMapInput s w = Inr w' \<and> noting m0 st0 w'"
  unfolding addWriteAddressMapInput_def
proof (rule rfold_total [where I = "noting m0 st0", OF assms(1)])
  fix x w
  assume "noting m0 st0 w"
  then have "\<exists>w'. rfold (hit_write_address (i_Sig s) b) as w = Inr w' \<and> noting m0 st0 w'" for b as
    by (rule rfold_total [where I = "noting m0 st0"]) (rule hit_write_address_ok [OF _ assms(2)])
  then show "\<exists>w'. (case x of (index, call) \<Rightarrow>
      rfold (hit_write_address (i_Sig s) (index_bit index)) (go_keys (c_Address call))) w = Inr w' \<and> noting m0 st0 w'"
    by (simp add: split_def)
qed

lemma note_uncovered_ok:
  assumes "linked m" "go_get (dd_Input m) sig = Some i" "fst e \<in> set (go_keys (i_UncoveredAddress i))"
  shows "linked (note_uncovered sig e m)"
proof (cases "go_get (dd_UncoveredAddress m) (fst e)")
  case (Some u2)
  let ?im = "(case go_get (ua_Input u2) sig of
              Some i2 \<Rightarrow> go_set sig (i2 OR snd e) (ua_Input u2)
            | None \<Rightarrow> go_set sig (snd e) (ua_Input u2))"
  note l = linkedD_ua [OF assms(1) Some]
  have k: "set (go_keys ?im) = insert sig (set (go_keys (ua_Input u2)))" "wfm ?im"
    using l(5) by (auto split: option.split)
  have "linked_upto {} (m\<lparr>dd_UncoveredAddress := go_set (fst e) (u2\<lparr>ua_Input := ?im\<rparr>) (dd_UncoveredAddress m)\<rparr>)"
  proof (rule linked_upd_ua [of "{}"])
    show "linked_upto {} m" using assms(1) by (simp add: linked_def)
  qed (use l k assms(2,3) linkedD_wa [OF assms(1)] Some in auto)
  then show ?thesis using Some by (simp add: note_uncovered_def linked_def)
qed (simp add: note_uncovered_def assms)

lemma note_uncovered_sel [simp]:
  "dd_Input (note_uncovered sig e m) = dd_Input m"
  "dd_WriteAddress (note_uncovered sig e m) = dd_WriteAddress m"
  "set (go_keys (dd_UncoveredAddress (note_uncovered sig e m))) = set (go_keys (dd_UncoveredAddress m))"
  "made m \<Longrightarrow> made (note_uncovered sig e m)"
  by (auto simp: note_uncovered_def go_key_iff made_def split: option.splits if_splits)

lemma addUncoveredAddressMapInput_made: "made m \<Longrightarrow> made (addUncoveredAddressMapInput s m)"
  unfolding addUncoveredAddressMapInput_def by (rule fold_keep) simp_all

lemma addUncoveredAddressMapInput_ok:
  assumes "linked m" "go_get (dd_Input m) (i_Sig s) = Some i"
    and "set (go_keys (i_UncoveredAddress s)) \<subseteq> set (go_keys (i_UncoveredAddress i))"
  shows "linked (addUncoveredAddressMapInput s m) \<and> dd_Input (addUncoveredAddressMapInput s m) = dd_Input m
    \<and> dd_WriteAddress (addUncoveredAddressMapInput s m) = dd_WriteAddress m
    \<and> set (go_keys (dd_UncoveredAddress (addUncoveredAddressMapInput s m))) = set (go_keys (dd_UncoveredAddress m))"
proof -
  have "fst ` set es \<subseteq> set (go_keys (i_UncoveredAddress i)) \<Longrightarrow>
      linked (fold (note_uncovered (i_Sig s)) es m) \<and> dd_Input (fold (note_uncovered (i_Sig s)) es m) = dd_Input m
      \<and> dd_WriteAddress (fold (note_uncovered (i_Sig s)) es m) = dd_WriteAddress m
      \<and> set (go_keys (dd_UncoveredAddress (fold (note_uncovered (i_Sig s)) es m))) = set (go_keys (dd_UncoveredAddress m))" for es
    using assms(1,2)
  proof (induction es arbitrary: m)
    case Nil
    then show ?case by simp
  next
    case (Cons e es)
    then have "linked (note_uncovered (i_Sig s) e m)" using note_uncovered_ok by simp
    with Cons show ?case by simp
  qed
  then show ?thesis using assms(3) by (simp add: addUncoveredAddressMapInput_def go_keys_def)
qed

lemma addInput_ok:
  assumes "linked_upto X m" "made m" "wf_tasks st ts" "wf_store st"
    and "\<And>u sig. (u, sig) \<in> X \<Longrightarrow> sig = i_Sig s \<and> u \<in> set (go_keys (i_UncoveredAddress s))"
  shows "\<exists>m' ts' st'. addInput s (m, ts, st) = Inr (m', ts', st') \<and> linked m' \<and> made m'
    \<and> wf_tasks st' ts' \<and> wf_store st' \<and> hext st st'
    \<and> set (go_keys (dd_Input m')) = insert (i_Sig s) (set (go_keys (dd_Input m)))
    \<and> set (go_keys (dd_UncoveredAddress m')) = set (go_keys (dd_UncoveredAddress m))
    \<and> set (go_keys (dd_WriteAddress m')) = set (go_keys (dd_WriteAddress m))"
proof -
  from store_input_ok [OF assms(1) _ assms(5)] assms(2) obtain i where
    i: "store_input s m = Inr (m\<lparr>dd_Input := go_set (i_Sig s) i (dd_Input m)\<rparr>)"
      "linked (m\<lparr>dd_Input := go_set (i_Sig s) i (dd_Input m)\<rparr>)"
      "set (go_keys (i_UncoveredAddress s)) \<subseteq> set (go_keys (i_UncoveredAddress i))"
    unfolding made_def by blast
  define m1 where "m1 = m\<lparr>dd_Input := go_set (i_Sig s) i (dd_Input m)\<rparr>"
  have "made m1" using assms(2) by (simp add: made_def m1_def)
  then have "noting m1 st (m1, ts, st)"
    using i(2) assms(3,4) unfolding noting_def m1_def by simp
  moreover have "unc_view m1 (i_Sig s) = Some (set (go_keys (i_UncoveredAddress i)))"
    by (simp add: unc_view_def m1_def)
  ultimately obtain m2 ts2 st2 where
    w2: "addWriteAddressMapInput s (m1, ts, st) = Inr (m2, ts2, st2)" "noting m1 st (m2, ts2, st2)"
    using addWriteAddressMapInput_ok [of m1 st "(m1, ts, st)" s] by auto
  then have n2: "linked m2" "wf_tasks st2 ts2" "wf_store st2" "hext st st2" "unc_view m2 = unc_view m1"
    "set (go_keys (dd_UncoveredAddress m2)) = set (go_keys (dd_UncoveredAddress m1))"
    "set (go_keys (dd_WriteAddress m2)) = set (go_keys (dd_WriteAddress m1))" "made m2"
    by (simp_all add: noting_def)
  have "unc_view m2 (i_Sig s) = Some (set (go_keys (i_UncoveredAddress i)))"
    using n2(5) \<open>unc_view m1 (i_Sig s) = _\<close> by simp
  then obtain i2 where i2: "go_get (dd_Input m2) (i_Sig s) = Some i2"
    "set (go_keys (i_UncoveredAddress i2)) = set (go_keys (i_UncoveredAddress i))"
    by (auto simp: unc_view_def)
  define m3 where "m3 = addUncoveredAddressMapInput s m2"
  have m3: "linked m3" "dd_Input m3 = dd_Input m2" "dd_WriteAddress m3 = dd_WriteAddress m2"
    "set (go_keys (dd_UncoveredAddress m3)) = set (go_keys (dd_UncoveredAddress m2))"
    using addUncoveredAddressMapInput_ok [OF n2(1) i2(1)] i(3) i2(2) by (simp_all add: m3_def)
  let ?m4 = "m3\<lparr>dd_Input := go_set (i_Sig s) (i2\<lparr>i_Call := Some []\<rparr>) (dd_Input m3)\<rparr>"
  have "linked ?m4" using m3(1) i2(1) m3(2) unfolding linked_def
    by (intro linked_upd_input [of "{}"]) auto
  moreover have "made ?m4" using addUncoveredAddressMapInput_made [OF n2(8)] by (simp add: made_def m3_def)
  moreover have "addInput s (m, ts, st) = Inr (?m4, ts2, st2)"
    using i(1) w2(1) i2(1) m3(2) by (simp add: addInput_def m1_def [symmetric] m3_def [symmetric] forget_calls_def dra_consts)
  moreover have "set (go_keys (dd_Input m2)) = insert (i_Sig s) (set (go_keys (dd_Input m)))"
  proof -
    have "set (go_keys (dd_Input m2)) = set (go_keys (dd_Input m1))"
      using n2(5) by (auto simp: unc_view_key)
    then show ?thesis by (simp add: m1_def)
  qed
  ultimately show ?thesis using n2 m3 by (auto simp: m1_def)
qed

text \<open>
  C33: the server learns of an input. On linked data and a well-formed global task container
  \<open>addInput\<close> returns: the data stays linked, the input is known afterwards, no
  uncovered address and no write address appears or disappears, and the container stays
  well-formed. So the tasks that the input makes possible are all made without an abort.
\<close>

theorem addInput_keeps_links:
  assumes "linked m" and "made m" and "wf_tasks st ts" and "wf_store st"
  shows "\<exists>m' ts' st'. addInput s (m, ts, st) = Inr (m', ts', st') \<and> linked m'
    \<and> wf_tasks st' ts' \<and> wf_store st'
    \<and> set (go_keys (dd_Input m')) = insert (i_Sig s) (set (go_keys (dd_Input m)))
    \<and> set (go_keys (dd_UncoveredAddress m')) = set (go_keys (dd_UncoveredAddress m))
    \<and> set (go_keys (dd_WriteAddress m')) = set (go_keys (dd_WriteAddress m))"
  using addInput_ok [of "{}" m st ts s] assms by (auto simp: linked_def)

lemma ex_dd_made: "made ex_dd"
  by (simp add: made_def ex_dd_def)

lemma empty_store_wf: "wf_store empty_store"
  by (simp add: wf_store_def empty_store_def)

theorem addInput_keeps_links_witness:
  "\<exists>m' ts' st'. addInput (ex_input 9) (ex_dd, Tasks_new ''q'' TaskKind_Normal, empty_store) = Inr (m', ts', st')
    \<and> linked m' \<and> set (go_keys (dd_UncoveredAddress m')) = {7}"
proof -
  have "go_keys (dd_UncoveredAddress ex_dd) = [7]" by code_simp
  with addInput_keeps_links [OF ex_dd_linked ex_dd_made wf_Tasks_new empty_store_wf, of "ex_input 9" "''q''" TaskKind_Normal]
  show ?thesis by auto
qed

section \<open>An address becomes covered\<close>







section \<open>Learning of a dependency\<close>

text \<open>
  One turn of the loop of \<open>Update\<close> over the reported dependencies.
\<close>

definition handle_dependency :: "(uint32, uint32) gomap \<Rightarrow> Dependency \<Rightarrow> work \<Rightarrow> work res" where
  "handle_dependency coverage d w =
    (case d_UncoveredAddress d of
       None \<Rightarrow> Inl (Panic ''nil pointer dereference'')
     | Some ua \<Rightarrow>
       if ua_Kind ua = UncoveredAddressKind_UncoveredAddressDependencyRelated then
         rbind (rfold addWriteAddress (d_WriteAddress d) (fst w)) (\<lambda>m1.
         rbind (addUncoveredAddress coverage ua m1) (\<lambda>m2.
         case d_Input d of
           None \<Rightarrow> Inr (m2, snd w)
         | Some i \<Rightarrow> rbind (addInput i (m2, snd w)) (addInputTask i)))
       else if ua_Kind ua = UncoveredAddressKind_UncoveredAddressInputRelated then
         rmap (\<lambda>m. (m, snd w)) (addUncoveredAddress coverage ua (fst w))
       else Inr w)"

text \<open>
  What the analyser's reports have to agree with. A reported write address names known
  inputs and, of the uncovered addresses already known, only those it is listed for.
\<close>

definition write_fits :: "WriteAddress \<Rightarrow> DataDependency \<Rightarrow> bool" where
  "write_fits s m \<longleftrightarrow> wa_UncoveredAddress s \<noteq> None
     \<and> set (go_keys (wa_Input s)) \<subseteq> set (go_keys (dd_Input m))
     \<and> (\<forall>u \<in> set (go_keys (wa_UncoveredAddress s)). \<forall>ua. go_get (dd_UncoveredAddress m) u = Some ua \<longrightarrow>
          wa_WriteAddress s \<in> set (go_keys (ua_WriteAddress ua)))"

text \<open>
  A reported uncovered address carries no statuses; its write addresses are known, and
  those that name it are the ones it lists; its inputs name it, or the one input \<open>pend\<close>
  that is still to come does.
\<close>

definition uncovered_fits :: "string set \<Rightarrow> UncoveredAddress \<Rightarrow> DataDependency \<Rightarrow> bool" where
  "uncovered_fits pend s m \<longleftrightarrow> (let u = ua_UncoveredAddress s in
     wfm (ua_Input s) \<and> wfm (ua_WriteAddress s)
     \<and> go_range (ua_WriteAddressStatus s) = [] \<and> go_range (ua_InputStatus s) = []
     \<and> set (go_keys (ua_WriteAddress s)) \<subseteq> set (go_keys (dd_WriteAddress m))
     \<and> (\<forall>w wa. go_get (dd_WriteAddress m) w = Some wa \<longrightarrow> u \<in> set (go_keys (wa_UncoveredAddress wa)) \<longrightarrow>
          u \<in> set (go_keys (dd_UncoveredAddress m)) \<or> w \<in> set (go_keys (ua_WriteAddress s)))
     \<and> (\<forall>sig \<in> set (go_keys (ua_Input s)). sig \<in> pend \<or> (\<exists>i. go_get (dd_Input m) sig = Some i
          \<and> u \<in> set (go_keys (i_UncoveredAddress i)))))"

lemma note_write_of_input_linked: "linked m \<Longrightarrow> linked (note_write_of_input w e m)"
  unfolding note_write_of_input_def linked_def
  by (auto intro: linked_upd_input split: option.split)

lemma note_write_of_input_sel [simp]:
  "dd_UncoveredAddress (note_write_of_input w e m) = dd_UncoveredAddress m"
  "dd_WriteAddress (note_write_of_input w e m) = dd_WriteAddress m"
  "unc_view (note_write_of_input w e m) = unc_view m"
  "dd_Input (note_write_of_input w e m) = None \<longleftrightarrow> dd_Input m = None"
  by (cases "dd_Input m"; auto simp: note_write_of_input_def unc_view_def fun_eq_iff split: option.split)+

lemma fold_note_write_of_input:
  assumes "linked m"
  shows "linked (fold (note_write_of_input w) es m)
    \<and> dd_UncoveredAddress (fold (note_write_of_input w) es m) = dd_UncoveredAddress m
    \<and> dd_WriteAddress (fold (note_write_of_input w) es m) = dd_WriteAddress m
    \<and> unc_view (fold (note_write_of_input w) es m) = unc_view m
    \<and> (dd_Input (fold (note_write_of_input w) es m) = None \<longleftrightarrow> dd_Input m = None)"
  using assms by (induction es arbitrary: m) (simp_all add: note_write_of_input_linked)

lemma addWriteAddress_ok:
  assumes "linked m" "dd_WriteAddress m \<noteq> None" "write_fits s m"
  shows "\<exists>m'. addWriteAddress s m = Inr m' \<and> linked m' \<and> dd_UncoveredAddress m' = dd_UncoveredAddress m
    \<and> unc_view m' = unc_view m \<and> (dd_Input m' = None \<longleftrightarrow> dd_Input m = None) \<and> dd_WriteAddress m' \<noteq> None
    \<and> set (go_keys (dd_WriteAddress m')) = insert (wa_WriteAddress s) (set (go_keys (dd_WriteAddress m)))"
proof -
  define wa' where "wa' = (case go_get (dd_WriteAddress m) (wa_WriteAddress s) of
      Some i \<Rightarrow> mergeWriteAddress i s | None \<Rightarrow> s)"
  define m1 where "m1 = m\<lparr>dd_WriteAddress := go_set (wa_WriteAddress s) wa' (dd_WriteAddress m)\<rparr>"
  have "linked_upto {} m1" unfolding m1_def
  proof (cases "go_get (dd_WriteAddress m) (wa_WriteAddress s)")
    case None
    then show "linked_upto {} (m\<lparr>dd_WriteAddress := go_set (wa_WriteAddress s) wa' (dd_WriteAddress m)\<rparr>)"
      using assms by (intro linked_upd_wa) (auto simp: wa'_def linked_def write_fits_def)
  next
    case (Some wa)
    have k: "wa_WriteAddress wa' = wa_WriteAddress s" "wa_UncoveredAddress wa' \<noteq> None"
      "set (go_keys (wa_UncoveredAddress wa')) = set (go_keys (wa_UncoveredAddress wa)) \<union> set (go_keys (wa_UncoveredAddress s))"
      "set (go_keys (wa_Input wa')) = set (go_keys (wa_Input wa)) \<union> set (go_keys (wa_Input s))"
      using linkedD_wa(1,4) [OF assms(1) Some] Some go_merge_not_nil
      by (simp_all add: wa'_def mergeWriteAddress_def go_keys_merge del: not_None_eq)
    show "linked_upto {} (m\<lparr>dd_WriteAddress := go_set (wa_WriteAddress s) wa' (dd_WriteAddress m)\<rparr>)"
    proof (rule linked_upd_wa [of _ _ _ wa])
      show "linked_upto {} m" using assms(1) by (simp add: linked_def)
    qed (use k Some linkedD_wa [OF assms(1) Some] assms(3) in \<open>auto simp: write_fits_def\<close>)
  qed
  then have l1: "linked m1" by (simp add: linked_def)
  have "addWriteAddress s m = Inr (fold (note_write_of_input (wa_WriteAddress s)) (go_range (wa_Input s)) m1)"
    using assms(2) by (simp add: addWriteAddress_def m1_def wa'_def del: not_None_eq split: option.split)
  with fold_note_write_of_input [OF l1] show ?thesis
    by (simp add: m1_def unc_view_def fun_eq_iff)
qed

text \<open>What the loop of \<open>addWriteAddressMapUncoveredAddress\<close> does to the write addresses.\<close>

definition write_linked :: "uint32 \<Rightarrow> bool \<Rightarrow> WriteAddress option \<Rightarrow> WriteAddress option \<Rightarrow> bool" where
  "write_linked u b x y \<longleftrightarrow> (case x of None \<Rightarrow> y = None
     | Some wa \<Rightarrow> \<exists>um. y = Some (wa\<lparr>wa_UncoveredAddress := um\<rparr>) \<and> (wa_UncoveredAddress wa \<noteq> None \<longrightarrow> um \<noteq> None)
         \<and> set (go_keys um) = set (go_keys (wa_UncoveredAddress wa)) \<union> (if b then {u} else {}))"

definition writes_linked :: "uint32 \<Rightarrow> uint32 set \<Rightarrow> (uint32, WriteAddress) gomap \<Rightarrow> (uint32, WriteAddress) gomap \<Rightarrow> bool" where
  "writes_linked u W wm wm' \<longleftrightarrow> (\<forall>w. write_linked u (w \<in> W) (go_get wm w) (go_get wm' w))"

lemma write_linked_None [simp]: "write_linked u b None y \<longleftrightarrow> y = None"
  by (simp add: write_linked_def)

lemma writes_linked_refl: "writes_linked u {} wm wm"
proof -
  have "\<exists>um. wa = wa\<lparr>wa_UncoveredAddress := um\<rparr> \<and> (wa_UncoveredAddress wa \<noteq> None \<longrightarrow> um \<noteq> None)
      \<and> set (go_keys um) = set (go_keys (wa_UncoveredAddress wa))" for wa :: WriteAddress
    by (rule exI [of _ "wa_UncoveredAddress wa"]) simp
  then show ?thesis unfolding writes_linked_def write_linked_def by (simp del: not_None_eq split: option.split)
qed

lemma write_linked_step:
  "write_linked u b (Some (wa\<lparr>wa_UncoveredAddress := go_set u v (wa_UncoveredAddress wa)\<rparr>)) y \<Longrightarrow>
    write_linked u True (Some wa) y"
  unfolding write_linked_def by (auto split: if_splits)

lemma writes_linkedD:
  assumes "writes_linked u W wm wm'"
  shows "go_get wm w = None \<longleftrightarrow> go_get wm' w = None"
    and "go_get wm' w = Some wb \<Longrightarrow> \<exists>wa um. go_get wm w = Some wa \<and> wb = wa\<lparr>wa_UncoveredAddress := um\<rparr>
      \<and> (wa_UncoveredAddress wa \<noteq> None \<longrightarrow> um \<noteq> None)
      \<and> set (go_keys um) = set (go_keys (wa_UncoveredAddress wa)) \<union> (if w \<in> W then {u} else {})"
    and "go_get wm w = Some wa \<Longrightarrow> \<exists>wb. go_get wm' w = Some wb
      \<and> set (go_keys (wa_UncoveredAddress wb)) = set (go_keys (wa_UncoveredAddress wa)) \<union> (if w \<in> W then {u} else {})"
  using assms [unfolded writes_linked_def write_linked_def, rule_format, of w] by (auto split: option.splits)

lemma link_writes_ok:
  assumes "\<forall>w wa. go_get (dd_WriteAddress m) w = Some wa \<longrightarrow> wa_UncoveredAddress wa \<noteq> None"
  shows "\<exists>wm. rfold (link_write u) es m = Inr (m\<lparr>dd_WriteAddress := wm\<rparr>)
    \<and> writes_linked u (fst ` set es) (dd_WriteAddress m) wm \<and> (dd_WriteAddress m \<noteq> None \<longrightarrow> wm \<noteq> None)"
  using assms
proof (induction es arbitrary: m)
  case Nil
  show ?case by (rule exI [of _ "dd_WriteAddress m"]) (simp add: writes_linked_refl)
next
  case (Cons e es)
  show ?case
  proof (cases "go_get (dd_WriteAddress m) (fst e)")
    case None
    then have "link_write u e m = Inr m" by (simp add: link_write_def)
    moreover from Cons.IH [of m] Cons.prems obtain wm where
      "rfold (link_write u) es m = Inr (m\<lparr>dd_WriteAddress := wm\<rparr>)"
      "writes_linked u (fst ` set es) (dd_WriteAddress m) wm" "dd_WriteAddress m \<noteq> None \<longrightarrow> wm \<noteq> None" by blast
    moreover have "writes_linked u (fst ` set (e # es)) (dd_WriteAddress m) wm" unfolding writes_linked_def
    proof
      fix w
      have "write_linked u (w \<in> fst ` set es) (go_get (dd_WriteAddress m) w) (go_get wm w)"
        using calculation(3) unfolding writes_linked_def by blast
      then show "write_linked u (w \<in> fst ` set (e # es)) (go_get (dd_WriteAddress m) w) (go_get wm w)"
        using None by (cases "w = fst e") auto
    qed
    ultimately show ?thesis by auto
  next
    case (Some wa)
    define um where "um = go_set u (snd e) (wa_UncoveredAddress wa)"
    define m1 where "m1 = m\<lparr>dd_WriteAddress := go_set (fst e) (wa\<lparr>wa_UncoveredAddress := um\<rparr>) (dd_WriteAddress m)\<rparr>"
    have "link_write u e m = Inr m1"
      using Some Cons.prems [rule_format, OF Some] by (simp add: link_write_def m1_def um_def del: not_None_eq)
    moreover from Cons.prems have "\<forall>w wa. go_get (dd_WriteAddress m1) w = Some wa \<longrightarrow> wa_UncoveredAddress wa \<noteq> None"
      by (auto simp: m1_def um_def)
    from Cons.IH [OF this] obtain wm where
      wm: "rfold (link_write u) es m1 = Inr (m1\<lparr>dd_WriteAddress := wm\<rparr>)"
        "writes_linked u (fst ` set es) (dd_WriteAddress m1) wm" "dd_WriteAddress m1 \<noteq> None \<longrightarrow> wm \<noteq> None" by blast
    have "writes_linked u (fst ` set (e # es)) (dd_WriteAddress m) wm" unfolding writes_linked_def
    proof
      fix w
      have "write_linked u (w \<in> fst ` set es) (go_get (dd_WriteAddress m1) w) (go_get wm w)"
        using wm(2) unfolding writes_linked_def by blast
      then show "write_linked u (w \<in> fst ` set (e # es)) (go_get (dd_WriteAddress m) w) (go_get wm w)"
        using Some by (cases "w = fst e") (auto simp: m1_def um_def dest: write_linked_step)
    qed
    ultimately show ?thesis using wm by (auto simp: m1_def)
  qed
qed

lemma linked_add_uncovered:
  assumes l: "linked m" and fits: "uncovered_fits pend s m" and u: "u = ua_UncoveredAddress s"
    and ua: "ua_UncoveredAddress ua' = u" "ua_WriteAddressStatus ua' \<noteq> None" "wfm (ua_Input ua')" "wfm (ua_WriteAddress ua')"
    and old: "\<And>ua. go_get (dd_UncoveredAddress m) u = Some ua \<Longrightarrow> I = set (go_keys (ua_Input ua)) \<and> V = set (go_keys (ua_WriteAddress ua))"
      "go_get (dd_UncoveredAddress m) u = None \<Longrightarrow> I = {} \<and> V = {}"
    and keys: "set (go_keys (ua_Input ua')) = I \<union> set (go_keys (ua_Input s))"
      "set (go_keys (ua_WriteAddress ua')) = V \<union> set (go_keys (ua_WriteAddress s))"
    and wm: "writes_linked u (set (go_keys (ua_WriteAddress s))) (dd_WriteAddress m) wm"
  shows "linked_upto ({u} \<times> pend) (m\<lparr>dd_UncoveredAddress := go_set u ua' (dd_UncoveredAddress m), dd_WriteAddress := wm\<rparr>)"
proof -
  have fi: "sig \<in> set (go_keys (ua_Input ua')) \<Longrightarrow> sig \<in> pend \<or> (\<exists>i. go_get (dd_Input m) sig = Some i
      \<and> u \<in> set (go_keys (i_UncoveredAddress i)))" for sig
    using fits old keys(1) linkedD_ua(3) [OF l, of u _ sig] unfolding uncovered_fits_def u [symmetric] Let_def
    by (cases "go_get (dd_UncoveredAddress m) u") auto
  have known: "w \<in> set (go_keys (ua_WriteAddress ua)) \<Longrightarrow> go_get (dd_UncoveredAddress m) x = Some ua \<Longrightarrow>
      \<exists>wa. go_get wm w = Some wa \<and> x \<in> set (go_keys (wa_UncoveredAddress wa))" for w x ua
    using linkedD_ua(4) [OF l, of x ua w] writes_linkedD(3) [OF wm, of w] by fastforce
  have fw: "\<exists>wa. go_get wm w = Some wa \<and> u \<in> set (go_keys (wa_UncoveredAddress wa))"
    if "w \<in> set (go_keys (ua_WriteAddress ua'))" for w
  proof (cases "w \<in> set (go_keys (ua_WriteAddress s))")
    case True
    then have "w \<in> set (go_keys (dd_WriteAddress m))"
      using fits unfolding uncovered_fits_def Let_def by blast
    then obtain wa where "go_get (dd_WriteAddress m) w = Some wa" by (auto simp: go_key_iff)
    then show ?thesis using True writes_linkedD(3) [OF wm, of w] by fastforce
  next
    case False
    then have "w \<in> V" using that keys(2) by blast
    then show ?thesis using old known by (cases "go_get (dd_UncoveredAddress m) u") auto
  qed
  have wa: "wa_WriteAddress wb = w \<and> wa_UncoveredAddress wb \<noteq> None
       \<and> (\<forall>x \<in> set (go_keys (wa_UncoveredAddress wb)). \<forall>ua.
            go_get (go_set u ua' (dd_UncoveredAddress m)) x = Some ua \<longrightarrow> w \<in> set (go_keys (ua_WriteAddress ua)))
       \<and> (\<forall>sig \<in> set (go_keys (wa_Input wb)). sig \<in> set (go_keys (dd_Input m)))"
    if wb: "go_get wm w = Some wb" for w wb
  proof -
    from writes_linkedD(2) [OF wm wb] obtain w0 um where
      w0: "go_get (dd_WriteAddress m) w = Some w0" "wb = w0\<lparr>wa_UncoveredAddress := um\<rparr>" "wa_UncoveredAddress w0 \<noteq> None \<longrightarrow> um \<noteq> None"
        "set (go_keys um) = set (go_keys (wa_UncoveredAddress w0)) \<union> (if w \<in> set (go_keys (ua_WriteAddress s)) then {u} else {})"
      by blast
    note d = linkedD_wa [OF l w0(1)]
    have "w \<in> set (go_keys (ua_WriteAddress ua'))" if "u \<in> set (go_keys um)"
    proof (cases "w \<in> set (go_keys (ua_WriteAddress s))")
      case False
      then have n: "u \<in> set (go_keys (wa_UncoveredAddress w0))" using that w0(4) by simp
      then have "u \<in> set (go_keys (dd_UncoveredAddress m))"
        using fits False w0(1) unfolding uncovered_fits_def u [symmetric] Let_def by blast
      then show ?thesis using d(2) [OF n] old(1) keys(2) by (auto simp: go_key_iff)
    qed (simp add: keys(2))
    moreover have "x \<noteq> u \<Longrightarrow> x \<in> set (go_keys um) \<Longrightarrow> go_get (dd_UncoveredAddress m) x = Some ub \<Longrightarrow>
        w \<in> set (go_keys (ua_WriteAddress ub))" for x ub
      using d(2) w0(4) by (auto split: if_splits)
    ultimately show ?thesis using d w0 by auto
  qed
  show ?thesis
    unfolding linked_upto_def
    using fi fw wa ua known linkedD_ua [OF l] by (auto split: if_splits)
qed

lemma fold_go_set_made: "m \<noteq> None \<Longrightarrow> fold (\<lambda>w. go_set w v) ws m \<noteq> None"
  by (rule fold_keep) auto

lemma addUncoveredAddress_ok:
  assumes l: "linked m" and nn: "dd_UncoveredAddress m \<noteq> None" and fits: "uncovered_fits pend s m"
  shows "\<exists>m'. addUncoveredAddress cov s m = Inr m' \<and> linked_upto ({ua_UncoveredAddress s} \<times> pend) m'
    \<and> dd_Input m' = dd_Input m \<and> (dd_WriteAddress m \<noteq> None \<longrightarrow> dd_WriteAddress m' \<noteq> None) \<and> dd_UncoveredAddress m' \<noteq> None
    \<and> set (go_keys (dd_UncoveredAddress m')) = set (go_keys (dd_UncoveredAddress m)) \<union>
        (if go_has cov (ua_UncoveredAddress s) then {} else {ua_UncoveredAddress s})"
proof (cases "go_has cov (ua_UncoveredAddress s)")
  case True
  have "linked_upto ({ua_UncoveredAddress s} \<times> pend) m"
    using l unfolding linked_def linked_upto_def by blast
  with True nn show ?thesis by (simp add: addUncoveredAddress_def)
next
  case False
  let ?u = "ua_UncoveredAddress s"
  have f: "wfm (ua_Input s)" "wfm (ua_WriteAddress s)" "go_range (ua_WriteAddressStatus s) = []" "go_range (ua_InputStatus s) = []"
    using fits by (simp_all add: uncovered_fits_def Let_def)
  define ua' where "ua' = (case go_get (dd_UncoveredAddress m) ?u of
      Some ii \<Rightarrow> ii\<lparr>ua_Input := go_merge (OR) (ua_Input s) (ua_Input ii),
           ua_WriteAddress := go_merge (\<lambda>x c. x) (ua_WriteAddress s) (ua_WriteAddress ii),
           ua_Count := ua_Count ii + ua_Count s\<rparr>
    | None \<Rightarrow> fresh_uncovered s)"
  define m1 where "m1 = m\<lparr>dd_UncoveredAddress := go_set ?u ua' (dd_UncoveredAddress m)\<rparr>"
  have "\<forall>w wa. go_get (dd_WriteAddress m1) w = Some wa \<longrightarrow> wa_UncoveredAddress wa \<noteq> None"
    using linkedD_wa(4) [OF l] by (simp add: m1_def)
  from link_writes_ok [OF this, of ?u "go_range (ua_WriteAddress s)"] obtain wm where
    wm: "rfold (link_write ?u) (go_range (ua_WriteAddress s)) m1 = Inr (m1\<lparr>dd_WriteAddress := wm\<rparr>)"
      "writes_linked ?u (set (go_keys (ua_WriteAddress s))) (dd_WriteAddress m) wm" "dd_WriteAddress m \<noteq> None \<longrightarrow> wm \<noteq> None"
    by (auto simp: m1_def go_keys_def)
  have e: "addUncoveredAddress cov s m = Inr (m1\<lparr>dd_WriteAddress := wm\<rparr>)"
    using False nn wm(1) f(3,4)
    by (cases "go_get (dd_UncoveredAddress m) ?u")
       (simp_all add: addUncoveredAddress_def mergeUncoveredAddress_fresh addWriteAddressMapUncoveredAddress_def
         m1_def ua'_def fresh_uncovered_def del: not_None_eq)
  have "linked_upto ({?u} \<times> pend) (m\<lparr>dd_UncoveredAddress := go_set ?u ua' (dd_UncoveredAddress m), dd_WriteAddress := wm\<rparr>)"
  proof (cases "go_get (dd_UncoveredAddress m) ?u")
    case None
    have "ua_WriteAddressStatus ua' \<noteq> None"
      using None fold_go_set_made [of "Some []" TaskStatus_not_find_write_input "go_keys (ua_WriteAddress s)"]
      by (simp add: ua'_def fresh_uncovered_def del: not_None_eq)
    then show ?thesis
      by (rule linked_add_uncovered [OF l fits refl _ _ _ _ _ _ _ _ wm(2), where I = "{}" and V = "{}", rotated 1])
         (use None f in \<open>simp_all add: ua'_def fresh_uncovered_def\<close>)
  next
    case (Some ii)
    note d = linkedD_ua [OF l Some]
    show ?thesis
      by (rule linked_add_uncovered [OF l fits refl _ _ _ _ _ _ _ _ wm(2), where I = "set (go_keys (ua_Input ii))" and V = "set (go_keys (ua_WriteAddress ii))"])
         (use Some d f in \<open>simp_all add: ua'_def go_keys_merge\<close>)
  qed
  then show ?thesis using e wm(3) False by (simp add: m1_def)
qed

text \<open>
  A report fits the data when each of its write addresses does, and its uncovered address
  is present and does once they are in. The input that comes with the report is the pending one.
\<close>

definition pending :: "Dependency \<Rightarrow> UncoveredAddress \<Rightarrow> string set" where
  "pending d s = (case d_Input d of
     Some i \<Rightarrow> if ua_UncoveredAddress s \<in> set (go_keys (i_UncoveredAddress i)) then {i_Sig i} else {}
   | None \<Rightarrow> {})"

definition dependency_fits :: "Dependency \<Rightarrow> DataDependency \<Rightarrow> bool" where
  "dependency_fits d m \<longleftrightarrow>
    (case d_UncoveredAddress d of
       None \<Rightarrow> False
     | Some s \<Rightarrow>
       if ua_Kind s = UncoveredAddressKind_UncoveredAddressDependencyRelated then
         (\<forall>wa \<in> set (d_WriteAddress d). write_fits wa m)
         \<and> (\<forall>m1. rfold addWriteAddress (d_WriteAddress d) m = Inr m1 \<longrightarrow> uncovered_fits (pending d s) s m1)
       else uncovered_fits {} s m)"

lemma write_fits_cong: "unc_view m' = unc_view m \<Longrightarrow> dd_UncoveredAddress m' = dd_UncoveredAddress m \<Longrightarrow>
    write_fits s m \<Longrightarrow> write_fits s m'"
  unfolding write_fits_def subset_iff by (simp add: unc_view_key)

lemma addWriteAddresses_ok:
  assumes "linked m" "dd_WriteAddress m \<noteq> None" "\<forall>s \<in> set ss. write_fits s m"
  shows "\<exists>m'. rfold addWriteAddress ss m = Inr m' \<and> linked m' \<and> dd_UncoveredAddress m' = dd_UncoveredAddress m
    \<and> unc_view m' = unc_view m \<and> (dd_Input m' = None \<longleftrightarrow> dd_Input m = None) \<and> dd_WriteAddress m' \<noteq> None"
  using assms
proof (induction ss arbitrary: m)
  case Nil
  then show ?case by simp
next
  case (Cons s ss)
  from addWriteAddress_ok [OF Cons.prems(1,2), of s] Cons.prems(3) obtain m1 where
    m1: "addWriteAddress s m = Inr m1" "linked m1" "dd_UncoveredAddress m1 = dd_UncoveredAddress m"
      "unc_view m1 = unc_view m" "dd_Input m1 = None \<longleftrightarrow> dd_Input m = None" "dd_WriteAddress m1 \<noteq> None" by auto
  have "\<forall>s \<in> set ss. write_fits s m1" using Cons.prems(3) write_fits_cong [OF m1(4,3)] by simp
  from Cons.IH [OF m1(2,6) this] m1 show ?case by auto
qed

text \<open>
  C29: the server learns of a dependency. When the report fits the linked data, handling it
  returns: no \<open>log.Fatalf\<close>, no write to a nil map. The data is linked afterwards, the
  task container and the store stay well-formed, and the only uncovered address that may
  appear is the reported one, and only if it is not already covered.
\<close>

theorem handle_dependency_keeps_links:
  assumes "linked m" and "made m" and "wf_tasks st ts" and "wf_store st" and "dependency_fits d m"
    and d: "d_UncoveredAddress d = Some s"
  shows "\<exists>m' ts' st'. handle_dependency cov d (m, ts, st) = Inr (m', ts', st') \<and> linked m' \<and> made m'
    \<and> wf_tasks st' ts' \<and> wf_store st' \<and> hext st st'
    \<and> set (go_keys (dd_UncoveredAddress m')) \<subseteq> set (go_keys (dd_UncoveredAddress m)) \<union>
        (if go_has cov (ua_UncoveredAddress s) then {} else {ua_UncoveredAddress s})"
proof (cases "ua_Kind s = UncoveredAddressKind_UncoveredAddressDependencyRelated")
  case False
  then have "uncovered_fits {} s m" using assms(5) d by (simp add: dependency_fits_def)
  from addUncoveredAddress_ok [OF assms(1) _ this, of cov] assms(1-4) False show ?thesis
    by (auto simp: d handle_dependency_def made_def linked_def)
next
  case True
  from assms(5) True have f: "\<forall>wa \<in> set (d_WriteAddress d). write_fits wa m"
    "\<And>m1. rfold addWriteAddress (d_WriteAddress d) m = Inr m1 \<Longrightarrow> uncovered_fits (pending d s) s m1"
    by (auto simp: d dependency_fits_def)
  from addWriteAddresses_ok [OF assms(1) _ f(1)] assms(2) obtain m1 where
    m1: "rfold addWriteAddress (d_WriteAddress d) m = Inr m1" "linked m1" "dd_UncoveredAddress m1 = dd_UncoveredAddress m" "made m1"
    unfolding made_def by metis
  from addUncoveredAddress_ok [OF m1(2) _ f(2) [OF m1(1)], of cov] m1(4) obtain m2 where
    m2: "addUncoveredAddress cov s m1 = Inr m2" "linked_upto ({ua_UncoveredAddress s} \<times> pending d s) m2" "made m2"
      "set (go_keys (dd_UncoveredAddress m2)) = set (go_keys (dd_UncoveredAddress m1)) \<union>
        (if go_has cov (ua_UncoveredAddress s) then {} else {ua_UncoveredAddress s})"
    unfolding made_def by metis
  show ?thesis
  proof (cases "d_Input d")
    case None
    then have "linked m2" using m2(2) by (simp add: linked_def pending_def)
    then show ?thesis using None True m1 m2 assms(3,4) by (simp add: d handle_dependency_def)
  next
    case (Some i)
    have p: "\<And>u sig. (u, sig) \<in> {ua_UncoveredAddress s} \<times> pending d s \<Longrightarrow>
        sig = i_Sig i \<and> u \<in> set (go_keys (i_UncoveredAddress i))"
      using Some by (auto simp: pending_def split: if_splits)
    from addInput_ok [OF m2(2,3) assms(3,4) p] obtain m3 ts3 st3 where
      m3: "addInput i (m2, ts, st) = Inr (m3, ts3, st3)" "linked m3" "made m3" "wf_tasks st3 ts3" "wf_store st3" "hext st st3"
        "i_Sig i \<in> set (go_keys (dd_Input m3))" "set (go_keys (dd_UncoveredAddress m3)) = set (go_keys (dd_UncoveredAddress m2))"
      by auto
    from addInputTask_ok [OF working_start [OF m3(2,4,5)] m3(2,7)] obtain m4 ts4 st4 where
      m4: "addInputTask i (m3, ts3, st3) = Inr (m4, ts4, st4)" "working m3 st3 (m4, ts4, st4)" by auto
    then have w: "linked m4" "same_links m3 m4" "wf_tasks st4 ts4" "wf_store st4" "hext st3 st4"
      "dd_UncoveredAddress m3 \<noteq> None \<longrightarrow> dd_UncoveredAddress m4 \<noteq> None"
      unfolding working_def by blast+
    have "made m4" using m3(3) w(2,6) by (simp add: made_def same_links_def)
    moreover have "handle_dependency cov d (m, ts, st) = Inr (m4, ts4, st4)"
      using True Some m1(1) m2(1) m3(1) m4(1) by (simp add: d handle_dependency_def)
    ultimately show ?thesis
      using w hext_trans [OF m3(6) w(5)] same_links_keys [OF w(2)] m3(8) m2(4) m1(3) by auto
  qed
qed

definition ex_report :: Dependency where
  "ex_report = \<lparr>d_Input = Some (Input_zero\<lparr>i_Sig := ''s'', i_UncoveredAddress := Some [(8, 1)]\<rparr>),
     d_UncoveredAddress = Some (UncoveredAddress_zero\<lparr>ua_UncoveredAddress := 8, ua_ConditionAddress := 6,
       ua_Kind := UncoveredAddressKind_UncoveredAddressDependencyRelated, ua_Input := Some [(''s'', 1)],
       ua_WriteAddress := Some [(9, \<lparr>waa_WriteAddress = 9, waa_Repeat = 0, waa_Prio = 5\<rparr>)]\<rparr>),
     d_WriteAddress = []\<rparr>"

lemma ex_report_fits: "dependency_fits ex_report ex_dd"
  by (simp add: dependency_fits_def ex_report_def ex_dd_def uncovered_fits_def pending_def go_get_def go_keys_def wfm_def zero_values)

theorem handle_dependency_keeps_links_witness:
  "\<exists>m' ts' st'. handle_dependency (Some []) ex_report (ex_dd, Tasks_new ''q'' TaskKind_Normal, empty_store) = Inr (m', ts', st')
    \<and> linked m' \<and> wf_tasks st' ts'"
proof -
  obtain s where "d_UncoveredAddress ex_report = Some s" by (simp add: ex_report_def)
  from handle_dependency_keeps_links [OF ex_dd_linked ex_dd_made wf_Tasks_new empty_store_wf ex_report_fits this,
      of "Some []" "''q''" TaskKind_Normal] show ?thesis by blast
qed

end
