(* ===== verification/Dra_Status.thy ===== *)
theory Dra_Status
  imports Dra_Server
begin

text \<open>
  How the result of a task reaches the uncovered addresses it was made for:
  \<open>checkTaskStatus\<close> and \<open>updateUncoveredAddress\<close> of \<open>pkg/dra/DependencyRPC.go\<close>.

  The statuses of an uncovered address, per write address and per call of an input, only
  rise. A status derived from a run without insertion is the highest level that the run
  reached for the address.
\<close>

section \<open>Definitions\<close>

type_synonym status_map = "(uint32, TaskStatus) gomap"

text \<open>A read of a missing key yields the zero value, \<open>TaskStatus_untested\<close>.\<close>

definition status_at :: "status_map \<Rightarrow> uint32 \<Rightarrow> TaskStatus" where
  "status_at m a = (case go_get m a of Some t \<Rightarrow> t | None \<Rightarrow> TaskStatus_untested)"

definition raise_to :: "uint32 \<Rightarrow> TaskStatus \<Rightarrow> status_map \<Rightarrow> status_map" where
  "raise_to a t m = (if status_at m a < t then go_set a t m else m)"

definition move_to :: "uint32 \<Rightarrow> TaskStatus \<Rightarrow> TaskStatus \<Rightarrow> status_map \<Rightarrow> status_map" where
  "move_to a t t' m = (if status_at m a = t then go_set a t' m else m)"

definition check_write :: "bool \<Rightarrow> RunTimeData \<Rightarrow> status_map \<Rightarrow> status_map" where
  "check_write ins ua wTS =
    (if rtd_CheckWrite ua then
       (if ins then raise_to (rtd_Address ua) TaskStatus_stable_insert_write wTS
        else raise_to (rtd_Address ua) TaskStatus_stable_write wTS)
     else
       (if ins then move_to (rtd_Address ua) TaskStatus_stable_write TaskStatus_unstable_insert_write wTS
        else raise_to (rtd_Address ua) TaskStatus_unstable_write wTS))"

definition check_condition :: "bool \<Rightarrow> RunTimeData \<Rightarrow> status_map \<Rightarrow> status_map" where
  "check_condition ins ua uaTS =
    (if rtd_CheckCondition ua then
       (if rtd_CheckAddress ua then raise_to (rtd_Address ua) TaskStatus_covered uaTS
        else if ins then raise_to (rtd_Address ua) TaskStatus_tested uaTS
        else raise_to (rtd_Address ua) TaskStatus_stable_condition uaTS)
     else
       (if ins then move_to (rtd_Address ua) TaskStatus_stable_condition TaskStatus_unstable_insert_condition uaTS
        else raise_to (rtd_Address ua) TaskStatus_unstable_condition uaTS))"

definition checkTaskStatus :: "rtd_map \<Rightarrow> bool \<Rightarrow> status_map \<times> status_map \<Rightarrow> status_map \<times> status_map" where
  "checkTaskStatus rTD ins = fold (\<lambda>(_, ua) (wTS, uaTS). (check_write ins ua wTS, check_condition ins ua uaTS)) (go_range rTD)"

text \<open>The two maps \<open>updateUncoveredAddress\<close> computes for a task before it updates.\<close>

definition task_statuses :: "Task \<Rightarrow> status_map \<times> status_map" where
  "task_statuses t =
    (let start = fold (\<lambda>a. go_set a TaskStatus_untested) (go_keys (t_UncoveredAddress t)) (Some []);
         s1 = checkTaskStatus (t_UncoveredAddress t) False (start, start)
     in if t_Check t then fold (\<lambda>trd. checkTaskStatus (trd_UncoveredAddress trd) False) (t_TaskRunTimeData t) s1
        else s1)"

text \<open>The update of one uncovered address \<open>ua\<close> the server still has.\<close>

definition raise_write_status :: "uint32 \<Rightarrow> TaskStatus \<Rightarrow> UncoveredAddress \<Rightarrow> UncoveredAddress" where
  "raise_write_status w t ua =
    (case go_get (ua_WriteAddressStatus ua) w of
       Some ts \<Rightarrow> (if ts < t then ua\<lparr>ua_WriteAddressStatus := go_set w t (ua_WriteAddressStatus ua)\<rparr> else ua)
     | None \<Rightarrow> ua)"

definition raise_input_status :: "string \<Rightarrow> uint32 \<Rightarrow> TaskStatus \<Rightarrow> UncoveredAddress \<Rightarrow> UncoveredAddress res" where
  "raise_input_status sig index t ua =
    (let status = (case go_get (ua_InputStatus ua) sig of Some st \<Rightarrow> st | None \<Rightarrow> \<lparr>st_Status = Some []\<rparr>) in
     rbind (case go_get (st_Status status) index of
              Some ts \<Rightarrow> (if ts < t then go_put index t (st_Status status) else Inr (st_Status status))
            | None \<Rightarrow> go_put index t (st_Status status)) (\<lambda>m.
     rmap (\<lambda>is. ua\<lparr>ua_InputStatus := is\<rparr>) (go_put sig (status\<lparr>st_Status := m\<rparr>) (ua_InputStatus ua))))"

definition update_uncovered :: "Task \<Rightarrow> RunTimeData \<Rightarrow> DataDependency \<times> covered_map \<Rightarrow> (DataDependency \<times> covered_map) res" where
  "update_uncovered t r s =
    (case go_get (dd_UncoveredAddress (fst s)) (rtd_Address r) of
       Some ua \<Rightarrow>
         rmap (\<lambda>ua'. ((fst s)\<lparr>dd_UncoveredAddress := go_set (rtd_Address r) ua' (dd_UncoveredAddress (fst s))\<rparr>, snd s))
           (raise_input_status (t_Sig t) (t_Index t) (status_at (snd (task_statuses t)) (rtd_Address r))
             (raise_write_status (rtd_WriteAddress r) (status_at (fst (task_statuses t)) (rtd_Address r)) ua))
     | None \<Rightarrow>
         if go_has (snd s) (rtd_Address r) then Inr s
         else Inl (Fatal ''updateUncoveredAddress : can not find the uaTS''))"

definition updateUncoveredAddress :: "Task \<Rightarrow> DataDependency \<times> covered_map \<Rightarrow> (DataDependency \<times> covered_map) res" where
  "updateUncoveredAddress t = rfold (\<lambda>(_, r). update_uncovered t r) (go_range (t_UncoveredAddress t))"

section \<open>The level a run reaches\<close>

definition write_level :: "RunTimeData \<Rightarrow> TaskStatus" where
  "write_level r = (if rtd_CheckWrite r then TaskStatus_stable_write else TaskStatus_unstable_write)"

definition condition_level :: "RunTimeData \<Rightarrow> TaskStatus" where
  "condition_level r = (if rtd_CheckCondition r then
      (if rtd_CheckAddress r then TaskStatus_covered else TaskStatus_stable_condition)
    else TaskStatus_unstable_condition)"

definition reached :: "(RunTimeData \<Rightarrow> TaskStatus) \<Rightarrow> uint32 \<Rightarrow> RunTimeData list \<Rightarrow> TaskStatus \<Rightarrow> TaskStatus" where
  "reached f a rs t = fold (\<lambda>r. max (f r)) (filter (\<lambda>r. rtd_Address r = a) rs) t"

lemma status_at_raise [simp]: "status_at (raise_to a t m) b = (if a = b then max t (status_at m a) else status_at m b)"
  by (auto simp: raise_to_def status_at_def max_def not_less split: option.splits)

lemma check_False:
  "check_write False r m = raise_to (rtd_Address r) (write_level r) m"
  "check_condition False r m = raise_to (rtd_Address r) (condition_level r) m"
  by (simp_all add: check_write_def check_condition_def write_level_def condition_level_def)

text \<open>
  A run without insertion. For every address the write status afterwards is the highest
  of the one before and of the levels the run-time data of this address reached (stable
  or unstable write), and so is the condition status (covered, stable or unstable
  condition); other addresses are as they were.
\<close>

lemma checkTaskStatus_levels:
  "status_at (fst (checkTaskStatus rTD False (wTS, uaTS))) a
     = reached write_level a (map snd (go_range rTD)) (status_at wTS a)
   \<and> status_at (snd (checkTaskStatus rTD False (wTS, uaTS))) a
     = reached condition_level a (map snd (go_range rTD)) (status_at uaTS a)"
proof -
  have "status_at (fst (fold (\<lambda>(_, ua) (wTS, uaTS). (check_write False ua wTS, check_condition False ua uaTS)) al (wTS, uaTS))) a
     = reached write_level a (map snd al) (status_at wTS a)
   \<and> status_at (snd (fold (\<lambda>(_, ua) (wTS, uaTS). (check_write False ua wTS, check_condition False ua uaTS)) al (wTS, uaTS))) a
     = reached condition_level a (map snd al) (status_at uaTS a)" for al
    by (induction al arbitrary: wTS uaTS) (auto simp: check_False reached_def)
  then show ?thesis by (simp add: checkTaskStatus_def)
qed

section \<open>Statuses only rise\<close>

definition write_status :: "DataDependency \<Rightarrow> uint32 \<Rightarrow> uint32 \<Rightarrow> TaskStatus option" where
  "write_status m u w = (case go_get (dd_UncoveredAddress m) u of None \<Rightarrow> None
     | Some ua \<Rightarrow> go_get (ua_WriteAddressStatus ua) w)"

definition input_status :: "DataDependency \<Rightarrow> uint32 \<Rightarrow> string \<Rightarrow> uint32 \<Rightarrow> TaskStatus option" where
  "input_status m u sig idx = (case go_get (dd_UncoveredAddress m) u of None \<Rightarrow> None
     | Some ua \<Rightarrow> (case go_get (ua_InputStatus ua) sig of None \<Rightarrow> None | Some st \<Rightarrow> go_get (st_Status st) idx))"

definition risen :: "DataDependency \<Rightarrow> DataDependency \<Rightarrow> bool" where
  "risen m m' \<longleftrightarrow> set (go_keys (dd_UncoveredAddress m')) = set (go_keys (dd_UncoveredAddress m))
     \<and> (\<forall>u w t. write_status m u w = Some t \<longrightarrow> (\<exists>t'. write_status m' u w = Some t' \<and> t \<le> t'))
     \<and> (\<forall>u sig idx t. input_status m u sig idx = Some t \<longrightarrow> (\<exists>t'. input_status m' u sig idx = Some t' \<and> t \<le> t'))"

lemma risen_refl [simp]: "risen m m"
  by (simp add: risen_def)

lemma risen_trans: "risen m m' \<Longrightarrow> risen m' m'' \<Longrightarrow> risen m m''"
  unfolding risen_def by (intro conjI) (simp, (meson order_trans)+)

lemma raise_write_status_get:
  "go_get (ua_WriteAddressStatus (raise_write_status w t ua)) w' =
    (if w' = w then map_option (max t) (go_get (ua_WriteAddressStatus ua) w) else go_get (ua_WriteAddressStatus ua) w')"
  by (auto simp: raise_write_status_def max_def split: option.splits)

lemma raise_write_status_sel [simp]:
  "ua_InputStatus (raise_write_status w t ua) = ua_InputStatus ua"
  "ua_Input (raise_write_status w t ua) = ua_Input ua"
  "ua_WriteAddress (raise_write_status w t ua) = ua_WriteAddress ua"
  "ua_UncoveredAddress (raise_write_status w t ua) = ua_UncoveredAddress ua"
  by (auto simp: raise_write_status_def split: option.splits)

lemma raise_input_status_conv:
  assumes "raise_input_status sig index t ua = Inr ua'"
  shows "ua_WriteAddressStatus ua' = ua_WriteAddressStatus ua"
    and "ua_Input ua' = ua_Input ua" "ua_WriteAddress ua' = ua_WriteAddress ua" "ua_UncoveredAddress ua' = ua_UncoveredAddress ua"
    and "(case go_get (ua_InputStatus ua) s of None \<Rightarrow> None | Some st \<Rightarrow> go_get (st_Status st) i) = Some x \<Longrightarrow>
      \<exists>y. (case go_get (ua_InputStatus ua') s of None \<Rightarrow> None | Some st \<Rightarrow> go_get (st_Status st) i) = Some y \<and> x \<le> y"
  using assms unfolding raise_input_status_def Let_def
  by (auto simp: res_conv go_put_conv split: option.splits if_splits)

lemma update_uncovered_risen:
  assumes "update_uncovered t r (m, c) = Inr (m', c')"
  shows "risen m m' \<and> c' = c"
proof (cases "go_get (dd_UncoveredAddress m) (rtd_Address r)")
  case None
  then show ?thesis using assms by (auto simp: update_uncovered_def split: if_splits)
next
  case (Some ua)
  define ua1 where "ua1 = raise_write_status (rtd_WriteAddress r) (status_at (fst (task_statuses t)) (rtd_Address r)) ua"
  from assms Some obtain ua' where
    u: "raise_input_status (t_Sig t) (t_Index t) (status_at (snd (task_statuses t)) (rtd_Address r)) ua1 = Inr ua'"
    and m': "m' = m\<lparr>dd_UncoveredAddress := go_set (rtd_Address r) ua' (dd_UncoveredAddress m)\<rparr>" "c' = c"
    by (auto simp: update_uncovered_def rmap_Inr_conv ua1_def)
  note c = raise_input_status_conv [OF u]
  have k: "rtd_Address r \<in> set (go_keys (dd_UncoveredAddress m))" using Some by (rule go_get_key)
  have "\<exists>y. write_status m' x w = Some y \<and> ts \<le> y" if "write_status m x w = Some ts" for x w ts
    using that Some c(1) unfolding write_status_def m'
    by (auto simp: ua1_def raise_write_status_get split: if_splits)
  moreover have "\<exists>y. input_status m' x sig idx = Some y \<and> ts \<le> y" if "input_status m x sig idx = Some ts" for x sig idx ts
    using that Some c(5) [where s = sig and i = idx and x = ts] unfolding input_status_def m'
    by (auto simp: ua1_def split: if_splits)
  ultimately show ?thesis using k m' by (auto simp: risen_def)
qed

lemma update_status_risen:
  assumes "updateUncoveredAddress t (m, c) = Inr (m', c')"
  shows "risen m m' \<and> c' = c"
proof -
  have "(case (m', c') of (m'', c'') \<Rightarrow> risen m m'' \<and> c'' = c)"
    using assms unfolding updateUncoveredAddress_def
    by (rule rfold_inv) (auto dest!: update_uncovered_risen intro: risen_trans)
  then show ?thesis by simp
qed

lemma update_status_keys: "updateUncoveredAddress t (m, c) = Inr (m', c') \<Longrightarrow>
    set (go_keys (dd_UncoveredAddress m')) = set (go_keys (dd_UncoveredAddress m))"
  using update_status_risen by (simp add: risen_def)

text \<open>
  C40: a returned task never takes a status back. Whenever \<open>updateUncoveredAddress\<close>
  returns, every status of a write address and of a call of an input is at least what it
  was, no uncovered address appears or disappears, and the covered addresses are as they
  were.
\<close>

theorem updateUncoveredAddress_risen:
  assumes "updateUncoveredAddress t (m, c) = Inr (m', c')"
  shows "risen m m' \<and> c' = c"
  using update_status_risen [OF assms] .


definition ex_update_dd :: DataDependency where
  "ex_update_dd = ex_dd\<lparr>dd_UncoveredAddress := Some [(7, fresh_uncovered (ex_ua None))]\<rparr>"

definition ex_returned :: Task where
  "ex_returned = (ex_task (Some [(7, RunTimeData_zero\<lparr>rtd_Address := 7, rtd_WriteAddress := 9, rtd_CheckWrite := True\<rparr>)]) None)"

theorem updateUncoveredAddress_risen_witness:
  "\<exists>m' c'. updateUncoveredAddress ex_returned (ex_update_dd, Some []) = Inr (m', c') \<and> risen ex_update_dd m'
    \<and> write_status m' 7 9 = Some TaskStatus_stable_write"
proof -
  let ?r = "updateUncoveredAddress ex_returned (ex_update_dd, Some [])"
  have 1: "rmap (\<lambda>(m, c). write_status m 7 9) ?r = Inr (Some TaskStatus_stable_write)" by code_simp
  then obtain m' c' where 2: "?r = Inr (m', c')" by (auto simp: rmap_Inr_conv)
  from updateUncoveredAddress_risen [OF 2] 1 2 show ?thesis by auto
qed

section \<open>When it returns\<close>

definition statuses_made :: "DataDependency \<Rightarrow> bool" where
  "statuses_made m \<longleftrightarrow> (\<forall>u ua. go_get (dd_UncoveredAddress m) u = Some ua \<longrightarrow> ua_InputStatus ua \<noteq> None
     \<and> (\<forall>sig st. go_get (ua_InputStatus ua) sig = Some st \<longrightarrow> st_Status st \<noteq> None))"

lemma raise_input_status_total:
  assumes "ua_InputStatus ua \<noteq> None" "\<forall>sig st. go_get (ua_InputStatus ua) sig = Some st \<longrightarrow> st_Status st \<noteq> None"
  shows "\<exists>ua'. raise_input_status sig index t ua = Inr ua' \<and> ua_InputStatus ua' \<noteq> None
    \<and> (\<forall>sig st. go_get (ua_InputStatus ua') sig = Some st \<longrightarrow> st_Status st \<noteq> None)"
proof -
  define st where "st = (case go_get (ua_InputStatus ua) sig of Some st \<Rightarrow> st | None \<Rightarrow> \<lparr>st_Status = Some []\<rparr>)"
  have nn: "st_Status st \<noteq> None" using assms(2) by (auto simp: st_def split: option.split)
  define m where "m = (case go_get (st_Status st) index of
      Some ts \<Rightarrow> (if ts < t then go_set index t (st_Status st) else st_Status st)
    | None \<Rightarrow> go_set index t (st_Status st))"
  have m: "(case go_get (st_Status st) index of
              Some ts \<Rightarrow> (if ts < t then go_put index t (st_Status st) else Inr (st_Status st))
            | None \<Rightarrow> go_put index t (st_Status st)) = Inr m" "m \<noteq> None"
    unfolding m_def using nn by (simp_all del: not_None_eq split: option.split)
  let ?ua = "ua\<lparr>ua_InputStatus := go_set sig (st\<lparr>st_Status := m\<rparr>) (ua_InputStatus ua)\<rparr>"
  have "raise_input_status sig index t ua = Inr ?ua"
    using assms(1) m(1) unfolding raise_input_status_def st_def [symmetric] Let_def by (simp del: not_None_eq)
  moreover have "\<forall>sig st. go_get (ua_InputStatus ?ua) sig = Some st \<longrightarrow> st_Status st \<noteq> None"
    using assms(2) m(2) by (auto split: if_splits)
  ultimately show ?thesis by auto
qed

text \<open>
  \<open>updateUncoveredAddress\<close> returns when every address of the task is still uncovered or
  known to be covered, and the status maps of the uncovered addresses exist (as they do for
  every address the server added); otherwise it aborts at the first unknown address.
\<close>

lemma updateUncoveredAddress_returns:
  assumes "statuses_made m"
  shows "(\<exists>s'. updateUncoveredAddress t (m, c) = Inr s') \<longleftrightarrow>
    (\<forall>(_, r) \<in> set (go_range (t_UncoveredAddress t)). rtd_Address r \<in> set (go_keys (dd_UncoveredAddress m)) \<union> set (go_keys c))"
proof -
  define I where "I = (\<lambda>s. statuses_made (fst s) \<and> snd s = c
      \<and> set (go_keys (dd_UncoveredAddress (fst s))) = set (go_keys (dd_UncoveredAddress m)))"
  have step: "\<exists>s'. update_uncovered t r s = Inr s' \<and> I s'"
    if "I s" "rtd_Address r \<in> set (go_keys (dd_UncoveredAddress m)) \<union> set (go_keys c)" for r s
  proof (cases "go_get (dd_UncoveredAddress (fst s)) (rtd_Address r)")
    case None
    then have "rtd_Address r \<notin> set (go_keys (dd_UncoveredAddress (fst s)))" by (simp add: go_key_iff)
    then have "rtd_Address r \<notin> set (go_keys (dd_UncoveredAddress m))" using that(1) by (simp add: I_def)
    then show ?thesis using None that by (simp add: update_uncovered_def I_def)
  next
    case (Some ua)
    let ?ua = "raise_write_status (rtd_WriteAddress r) (status_at (fst (task_statuses t)) (rtd_Address r)) ua"
    have "ua_InputStatus ?ua \<noteq> None" "\<forall>sig st. go_get (ua_InputStatus ?ua) sig = Some st \<longrightarrow> st_Status st \<noteq> None"
      using that(1) Some unfolding I_def statuses_made_def by auto
    from raise_input_status_total [OF this] obtain ua' where
      "raise_input_status (t_Sig t) (t_Index t) (status_at (snd (task_statuses t)) (rtd_Address r)) ?ua = Inr ua'"
      "ua_InputStatus ua' \<noteq> None" "\<forall>sig st. go_get (ua_InputStatus ua') sig = Some st \<longrightarrow> st_Status st \<noteq> None" by blast
    with that Some go_get_key [OF Some] show ?thesis
      unfolding I_def statuses_made_def by (auto simp: update_uncovered_def)
  qed
  have "(\<exists>s'. rfold (\<lambda>(_, r). update_uncovered t r) al s = Inr s') \<longleftrightarrow>
    (\<forall>(_, r) \<in> set al. rtd_Address r \<in> set (go_keys (dd_UncoveredAddress m)) \<union> set (go_keys c))" if "I s" for al s
    using that
  proof (induction al arbitrary: s)
    case Nil
    then show ?case by simp
  next
    case (Cons e al)
    show ?case
    proof (cases "rtd_Address (snd e) \<in> set (go_keys (dd_UncoveredAddress m)) \<union> set (go_keys c)")
      case True
      from step [OF Cons.prems True] obtain s1 where "update_uncovered t (snd e) s = Inr s1" "I s1" by blast
      with Cons.IH [OF this(2)] True show ?thesis by (simp add: split_def)
    next
      case False
      then have "rtd_Address (snd e) \<notin> set (go_keys (dd_UncoveredAddress (fst s)))" "\<not> go_has (snd s) (rtd_Address (snd e))"
        using Cons.prems by (auto simp: I_def)
      then have "go_get (dd_UncoveredAddress (fst s)) (rtd_Address (snd e)) = None" "\<not> go_has (snd s) (rtd_Address (snd e))"
        by (auto simp: go_keys_dom)
      then show ?thesis using False by (auto simp: update_uncovered_def split_def)
    qed
  qed
  moreover have "I (m, c)" using assms by (simp add: I_def)
  ultimately show ?thesis by (simp add: updateUncoveredAddress_def)
qed

lemma updateUncoveredAddress_returns_witness:
  "statuses_made ex_update_dd \<and> (\<exists>s'. updateUncoveredAddress ex_returned (ex_update_dd, Some []) = Inr s')
    \<and> \<not> (\<exists>s'. updateUncoveredAddress (ex_task (Some [(5, RunTimeData_zero\<lparr>rtd_Address := 5\<rparr>)]) None) (ex_update_dd, Some []) = Inr s')"
proof -
  have st: "fresh_uncovered (ex_ua None) = (ex_ua None)\<lparr>ua_Count := 0, ua_WriteAddressStatus := Some [(9, TaskStatus_not_find_write_input)],
      ua_InputStatus := Some [(''s'', \<lparr>st_Status = Some [(0, TaskStatus_untested)]\<rparr>)]\<rparr>" by code_simp
  then have 1: "statuses_made ex_update_dd"
    by (simp add: statuses_made_def ex_update_dd_def go_get_def)
  have k: "go_keys (dd_UncoveredAddress ex_update_dd) = [7]" by code_simp
  have r: "go_range (t_UncoveredAddress ex_returned) = [(7, RunTimeData_zero\<lparr>rtd_Address := 7, rtd_WriteAddress := 9, rtd_CheckWrite := True\<rparr>)]"
    by code_simp
  have "\<exists>s'. updateUncoveredAddress ex_returned (ex_update_dd, Some []) = Inr s'"
    using updateUncoveredAddress_returns [OF 1, of ex_returned "Some []"] by (simp add: k r)
  moreover have "\<not> (\<exists>s'. updateUncoveredAddress (ex_task (Some [(5, RunTimeData_zero\<lparr>rtd_Address := 5\<rparr>)]) None) (ex_update_dd, Some []) = Inr s')"
    using updateUncoveredAddress_returns [OF 1, of "ex_task (Some [(5, RunTimeData_zero\<lparr>rtd_Address := 5\<rparr>)]) None" "Some []"]
    by (simp add: k ex_task_def Task_zero_def)
  ultimately show ?thesis using 1 by blast
qed

end
