(* ===== verification/Dra_RPC.thy ===== *)
theory Dra_RPC
  imports Dra_Status
begin

text \<open>
  The server of \<open>pkg/dra/DependencyRPCServer.go\<close>: its state, the handlers of the remote
  calls of the fuzzers and of the analyser, and \<open>Update\<close>, which the manager runs
  periodically and which folds everything the handlers queued into the data.

  A handler holds the mutex of the queue it touches for its whole effect, so it is one
  step here. \<open>Update\<close> takes the queues under their mutexes and then works on data that no
  handler touches, so it is one step as well. Reading the clock and writing files are
  not modelled: what \<open>Update\<close> learns from the clock is the argument \<open>clock\<close>.
\<close>

section \<open>State\<close>

record syzFuzzer =
  fz_dataDependency :: DataDependency
  fz_dataRunTime :: DataRunTime

record DataResult =
  res_CoveredAddress :: "(uint32, UncoveredAddress) gomap"
  res_FileOperations :: "(string, FileOperations) gomap"

text \<open>\<open>Stat\<close> is keyed by the number of the kind in the code, by the kind itself here.\<close>

record 'f Statistics =
  ss_SignalNum :: uint64
  ss_NumberBasicBlock :: uint32
  ss_NumberBasicBlockReal :: uint32
  ss_NumberBasicBlockCovered :: uint32
  ss_NumberBasicBlockUncovered :: uint32
  ss_Coverage :: "'f Coverage"
  ss_Stat :: "(FuzzingStat, 'f Statistic) gomap"
  ss_UsefulInput :: "'f UsefulInput list"

record 'f Server =
  sv_address :: uint32
  sv_DependencyTask :: bool
  sv_DependencyPriority :: bool
  sv_NeedInput :: bool
  sv_NeedBoot :: bool
  sv_dataDependency :: DataDependency
  sv_dataResult :: DataResult
  sv_dataRunTime :: DataRunTime
  sv_stat :: "'f Statistics"
  sv_fuzzers :: "(string, syzFuzzer) gomap"
  sv_log :: string
  sv_newStat :: "'f Statistic list"
  sv_newDependency :: "Dependency list"
  sv_newInput :: "Input list"
  sv_needInput :: "Input list"
  sv_input :: "Input list"
  sv_coveredInput :: "Input list"
  sv_unstableInputs :: "(string, UnstableInput) gomap"
  sv_unstableInputsData :: "(string, UnstableInput) gomap"
  sv_store :: task_store

record Empty =
  e_Address :: uint32
  e_Name :: string

definition DataDependency_zero :: DataDependency where
  "DataDependency_zero = \<lparr>dd_Input = None, dd_UncoveredAddress = None, dd_WriteAddress = None, dd_OtherInput = None\<rparr>"

definition DataRunTime_new :: DataRunTime where
  "DataRunTime_new = \<lparr>dr_Tasks = Tasks_new '''' TaskKind_Boot, dr_Return = Tasks_new '''' TaskKind_Boot,
     dr_HighTask = Tasks_new '''' TaskKind_Boot, dr_BootTask = Tasks_new '''' TaskKind_Boot,
     dr_ReturnBoot = Tasks_new '''' TaskKind_Boot\<rparr>"

text \<open>The state \<open>RunDependencyRPCServer\<close> sets up before it listens.\<close>

definition RunDependencyRPCServer :: "'f Server \<Rightarrow> 'f Server" where
  "RunDependencyRPCServer ss = ss\<lparr>
     sv_NeedInput := (if NeedInput then False else sv_NeedInput ss),
     sv_NeedBoot := (if NeedBoot then False else sv_NeedBoot ss),
     sv_dataDependency := \<lparr>dd_Input = Some [], dd_UncoveredAddress = Some [], dd_WriteAddress = Some [], dd_OtherInput = Some []\<rparr>,
     sv_dataResult := \<lparr>res_CoveredAddress = Some [], res_FileOperations = Some []\<rparr>,
     sv_dataRunTime := DataRunTime_new,
     sv_stat := \<lparr>ss_SignalNum = 0, ss_NumberBasicBlock = 0, ss_NumberBasicBlockReal = 0, ss_NumberBasicBlockCovered = 0,
       ss_NumberBasicBlockUncovered = 0, ss_Coverage = \<lparr>cov_Coverage = Some [], cov_Time = []\<rparr>,
       ss_Stat = Some [], ss_UsefulInput = []\<rparr>,
     sv_fuzzers := Some [], sv_log := '''', sv_newStat := [], sv_newDependency := [], sv_newInput := [],
     sv_needInput := [], sv_input := [], sv_coveredInput := [],
     sv_unstableInputs := (if CollectUnstable then Some [] else sv_unstableInputs ss),
     sv_unstableInputsData := (if CollectUnstable then Some [] else sv_unstableInputsData ss)\<rparr>"

section \<open>Handlers\<close>

definition SendNumberBasicBlock :: "Empty \<Rightarrow> 'f Server \<Rightarrow> 'f Server" where
  "SendNumberBasicBlock e ss = ss\<lparr>sv_stat := (sv_stat ss)\<lparr>ss_NumberBasicBlockReal := e_Address e\<rparr>\<rparr>"

definition SendNumberBasicBlockCovered :: "Empty \<Rightarrow> 'f Server \<Rightarrow> 'f Server" where
  "SendNumberBasicBlockCovered e ss = ss\<lparr>sv_stat := (sv_stat ss)\<lparr>ss_NumberBasicBlockCovered := e_Address e\<rparr>\<rparr>"

definition GetVMOffsets :: "'f Server \<Rightarrow> Empty" where
  "GetVMOffsets ss = \<lparr>e_Address = sv_address ss, e_Name = ''''\<rparr>"

definition GetNewInput :: "'f Server \<Rightarrow> Input list \<times> 'f Server" where
  "GetNewInput ss =
    (let q = sv_newInput ss;
         reply = (if q = [] then [] else [last q]) in
     (map (\<lambda>i. i\<lparr>i_Paths := []\<rparr>) reply,
      ss\<lparr>sv_newInput := butlast q, sv_input := sv_input ss @ reply\<rparr>))"

definition SendDependency :: "Dependency \<Rightarrow> 'f Server \<Rightarrow> 'f Server" where
  "SendDependency d ss = ss\<lparr>sv_newDependency := sv_newDependency ss @ [d]\<rparr>"

definition Connect :: "string \<Rightarrow> 'f Server \<Rightarrow> (Empty \<times> 'f Server) res" where
  "Connect name ss =
    rbind (if go_has (sv_fuzzers ss) name then Inr (sv_fuzzers ss)
           else go_put name \<lparr>fz_dataDependency = DataDependency_zero, fz_dataRunTime = DataRunTime_new\<rparr> (sv_fuzzers ss)) (\<lambda>fs.
    Inr (\<lparr>e_Address = (if sv_DependencyPriority ss then 1 else 0), e_Name = ''''\<rparr>, ss\<lparr>sv_fuzzers := fs\<rparr>))"

definition GetDataDependency :: "string \<Rightarrow> 'f Server \<Rightarrow> DataDependency res" where
  "GetDataDependency name ss =
    (case go_get (sv_fuzzers ss) name of
       Some f \<Rightarrow> Inr (fz_dataDependency f)
     | None \<Rightarrow> Inl (Fatal ''GetDataDependency with error name''))"

definition SendNewInput :: "Input \<Rightarrow> 'f Server \<Rightarrow> 'f Server" where
  "SendNewInput r ss = ss\<lparr>sv_newInput := sv_newInput ss @ [r], sv_coveredInput := sv_coveredInput ss @ [r]\<rparr>"

text \<open>
  A \<open>Tasks\<close> message carries its tasks by value; received, each is an object of its own.
\<close>

record TasksMsg =
  tk_Name :: string
  tk_Kind :: TaskKind
  tk_TaskMap :: "(string, Task) gomap"
  tk_TaskArray :: "Task list"

definition deref_all :: "task_store \<Rightarrow> ref list \<Rightarrow> Task list res" where
  "deref_all st rs = rfold (\<lambda>r ts. rmap (\<lambda>t. ts @ [t]) (deref st r)) rs []"

definition tasks_msg :: "task_store \<Rightarrow> Tasks \<Rightarrow> TasksMsg res" where
  "tasks_msg st m =
    rbind (deref_all st (map snd (go_range (ts_TaskMap m)))) (\<lambda>tm.
    rbind (deref_all st (ts_TaskArray m)) (\<lambda>ta.
    Inr \<lparr>tk_Name = ts_Name m, tk_Kind = ts_Kind m, tk_TaskMap = Some (zip (go_keys (ts_TaskMap m)) tm), tk_TaskArray = ta\<rparr>))"

definition alloc_all :: "Task list \<Rightarrow> task_store \<Rightarrow> ref list \<times> task_store" where
  "alloc_all ts st = fold (\<lambda>t (rs, st). let (r, st') = new_task t st in (rs @ [r], st')) ts ([], st)"

definition load_tasks :: "TasksMsg \<Rightarrow> task_store \<Rightarrow> Tasks \<times> task_store" where
  "load_tasks msg st =
    (let (rm, st1) = alloc_all (map snd (go_range (tk_TaskMap msg))) st;
         (ra, st2) = alloc_all (tk_TaskArray msg) st1
     in (\<lparr>ts_Name = tk_Name msg, ts_Kind = tk_Kind msg, ts_TaskMap = Some (zip (go_keys (tk_TaskMap msg)) rm),
          ts_TaskArray = ra\<rparr>, st2))"

definition pop_some :: "Tasks \<times> task_store \<Rightarrow> (Tasks \<times> Tasks \<times> task_store) res" where
  "pop_some s = (let last = length (ts_TaskArray (fst s)) in
     pop_tasks (if last > TaskQueueNumber then TaskQueueNumber else last) s)"

text \<open>
  \<open>pickTask\<close>. When both queues of the fuzzer have tasks, the ones popped from \<open>HighTask\<close> are
  dropped: the variable is assigned again.
\<close>

definition pickTask :: "string \<Rightarrow> 'f Server \<Rightarrow> (Tasks \<times> 'f Server) res" where
  "pickTask name ss =
    (let none = Tasks_new name TaskKind_Normal in
     case go_get (sv_fuzzers ss) name of
       None \<Rightarrow> Inr (none, ss)
     | Some f \<Rightarrow>
       let dr = fz_dataRunTime f in
       rbind (if ts_TaskArray (dr_HighTask dr) \<noteq> [] then
                rmap (\<lambda>(h, p, st). (h, Some (p\<lparr>ts_Kind := TaskKind_High\<rparr>), st)) (pop_some (dr_HighTask dr, sv_store ss))
              else Inr (dr_HighTask dr, None, sv_store ss)) (\<lambda>(h, p1, st1).
       rbind (if ts_TaskArray (dr_Tasks dr) \<noteq> [] then
                rmap (\<lambda>(q, p, st). (q, Some p, st)) (pop_some (dr_Tasks dr, st1))
              else Inr (dr_Tasks dr, p1, st1)) (\<lambda>(q, p2, st2).
       Inr (case p2 of Some p \<Rightarrow> p | None \<Rightarrow> none,
            ss\<lparr>sv_fuzzers := go_set name (f\<lparr>fz_dataRunTime := dr\<lparr>dr_HighTask := h, dr_Tasks := q\<rparr>\<rparr>) (sv_fuzzers ss),
               sv_store := st2\<rparr>))))"

definition pickBootTask :: "string \<Rightarrow> 'f Server \<Rightarrow> (Tasks option \<times> 'f Server) res" where
  "pickBootTask name ss =
    (case go_get (sv_fuzzers ss) name of
       None \<Rightarrow> Inr (None, ss)
     | Some f \<Rightarrow>
       let dr = fz_dataRunTime f in
       rmap (\<lambda>(b, p, st). (Some (p\<lparr>ts_Kind := TaskKind_Boot\<rparr>),
            ss\<lparr>sv_fuzzers := go_set name (f\<lparr>fz_dataRunTime := dr\<lparr>dr_BootTask := b\<rparr>\<rparr>) (sv_fuzzers ss), sv_store := st\<rparr>))
         (pop_tasks (length (ts_TaskArray (dr_BootTask dr))) (dr_BootTask dr, sv_store ss)))"

definition GetTasks :: "string \<Rightarrow> 'f Server \<Rightarrow> (TasksMsg \<times> 'f Server) res" where
  "GetTasks name ss = rbind (pickTask name ss) (\<lambda>(p, ss'). rmap (\<lambda>msg. (msg, ss')) (tasks_msg (sv_store ss') p))"

definition GetBootTasks :: "string \<Rightarrow> 'f Server \<Rightarrow> (TasksMsg option \<times> 'f Server) res" where
  "GetBootTasks name ss = rbind (pickBootTask name ss) (\<lambda>(p, ss').
     case p of None \<Rightarrow> Inr (None, ss')
     | Some q \<Rightarrow> rmap (\<lambda>msg. (Some msg, ss')) (tasks_msg (sv_store ss') q))"

definition ReturnTasks :: "TasksMsg \<Rightarrow> 'f Server \<Rightarrow> 'f Server res" where
  "ReturnTasks request ss =
    (let (tasks, st) = load_tasks request (sv_store ss) in
     case go_get (sv_fuzzers ss) (ts_Name tasks) of
       None \<Rightarrow> Inl (Fatal ''ReturnTasks with error name'')
     | Some f \<Rightarrow>
       let dr = fz_dataRunTime f;
           put = (\<lambda>dr' st'. ss\<lparr>sv_fuzzers := go_set (ts_Name tasks) (f\<lparr>fz_dataRunTime := dr'\<rparr>) (sv_fuzzers ss), sv_store := st'\<rparr>)
       in (case ts_Kind tasks of
             TaskKind_Boot \<Rightarrow> rmap (\<lambda>(q, st'). put (dr\<lparr>dr_ReturnBoot := q\<rparr>) st') (AddTasks tasks (dr_ReturnBoot dr, st))
           | _ \<Rightarrow> rmap (\<lambda>(q, st'). put (dr\<lparr>dr_Return := q\<rparr>) st') (AddTasks tasks (dr_Return dr, st))))"

definition SendBootInput :: "Input \<Rightarrow> 'f Server \<Rightarrow> 'f Server" where
  "SendBootInput r ss = ss\<lparr>sv_coveredInput := sv_coveredInput ss @ [r]\<rparr>"

definition SendUnstableInput :: "UnstableInput \<Rightarrow> 'f Server \<Rightarrow> 'f Server res" where
  "SendUnstableInput ui ss =
    (if CollectUnstable then
       (case go_get (sv_unstableInputs ss) (ui_Sig ui) of
          Some u \<Rightarrow> rmap (\<lambda>u'. ss\<lparr>sv_unstableInputs := go_set (ui_Sig ui) u' (sv_unstableInputs ss)\<rparr>) (mergeUnstableInput u (Some ui))
        | None \<Rightarrow> rmap (\<lambda>um. ss\<lparr>sv_unstableInputs := um\<rparr>) (go_put (ui_Sig ui) ui (sv_unstableInputs ss)))
     else Inr ss)"

definition SendLog :: "string \<Rightarrow> 'f Server \<Rightarrow> 'f Server" where
  "SendLog name ss = ss\<lparr>sv_log := sv_log ss @ name\<rparr>"

definition SendStat :: "'f Statistic \<Rightarrow> 'f Server \<Rightarrow> 'f Server" where
  "SendStat stat ss = ss\<lparr>sv_newStat := sv_newStat ss @ [stat]\<rparr>"

definition GetNeed :: "'f Server \<Rightarrow> Empty" where
  "GetNeed ss = \<lparr>e_Address = (if NeedInput then (if sv_NeedInput ss then 1 else 0) else 0), e_Name = ''''\<rparr>"

definition SendNeedInput :: "Input \<Rightarrow> 'f Server \<Rightarrow> 'f Server" where
  "SendNeedInput r ss = ss\<lparr>sv_needInput := sv_needInput ss @ [r]\<rparr>"

definition SetAddress :: "uint32 \<Rightarrow> 'f Server \<Rightarrow> 'f Server" where
  "SetAddress a ss = ss\<lparr>sv_address := a\<rparr>"

definition SyncSignal :: "uint64 \<Rightarrow> 'f Server \<Rightarrow> 'f Server" where
  "SyncSignal n ss = ss\<lparr>sv_stat := (sv_stat ss)\<lparr>ss_SignalNum := n\<rparr>\<rparr>"

section \<open>Update\<close>

text \<open>
  What \<open>Update\<close> reads of the clock: the seconds since the start, and whether they exceed
  \<open>TimeStart\<close> and, since the last new input, \<open>TimeNew\<close> and \<open>TimeBoot\<close>.
\<close>

record 'f clock =
  ck_elapsed :: 'f
  ck_started :: bool
  ck_new :: bool
  ck_boot :: bool

subsection \<open>Covered inputs\<close>

text \<open>All addresses of an input, call by call, in iteration order.\<close>

definition input_addresses :: "Input \<Rightarrow> uint32 list" where
  "input_addresses i = concat (map (\<lambda>(_, c). go_keys (c_Address c)) (go_range (i_Call i)))"

definition cover :: "uint32 \<Rightarrow> uint32 list \<Rightarrow> (uint32, uint32) gomap \<times> nat \<Rightarrow> (uint32, uint32) gomap \<times> nat" where
  "cover isDependency = fold (\<lambda>a (m, n). if go_has m a then (m, n) else (go_set a isDependency m, Suc n))"

definition addCoveredAddress :: "'f::{plus,zero} clock \<Rightarrow> Input \<Rightarrow> 'f Server \<Rightarrow> 'f Server res" where
  "addCoveredAddress ck input ss =
    (let isDependency = (if i_Stat input = FuzzingStat_StatDependency \<or> i_Stat input = FuzzingStat_StatDependencyBoot then 1 else 0);
         aa = input_addresses input;
         st = sv_stat ss;
         (coverage, n) = cover isDependency aa (cov_Coverage (ss_Coverage st), 0);
         newAddressNum = of_nat n;
         cv = \<lparr>cov_Coverage = coverage, cov_Time = cov_Time (ss_Coverage st) @
                [\<lparr>tm_Time = ck_elapsed ck, tm_Num = of_nat (go_len coverage), tm_ExecuteNum = 0\<rparr>]\<rparr>;
         s' = (case go_get (ss_Stat st) (i_Stat input) of
                 Some s \<Rightarrow> s\<lparr>s_NewTestCaseNum := s_NewTestCaseNum s + 1, s_NewAddressNum := s_NewAddressNum s + newAddressNum\<rparr>
               | None \<Rightarrow> \<lparr>s_Name = i_Stat input, s_ExecuteNum = 0, s_Time = 0, s_NewTestCaseNum = 1, s_NewAddressNum = newAddressNum\<rparr>);
         useful = (if newAddressNum > 100
                   then [\<lparr>uf_Input = input, uf_Time = ck_elapsed ck, uf_Num = newAddressNum, uf_NewAddress = aa\<rparr>] else [])
     in rbind (rfold (\<lambda>a s. rmap snd (server_checkUncoveredAddress a s)) aa (sv_dataDependency ss, res_CoveredAddress (sv_dataResult ss)))
        (\<lambda>(m, c).
        Inr (ss\<lparr>sv_dataDependency := m, sv_dataResult := (sv_dataResult ss)\<lparr>res_CoveredAddress := c\<rparr>,
                sv_stat := st\<lparr>ss_Coverage := cv, ss_Stat := go_set (i_Stat input) s' (ss_Stat st),
                              ss_UsefulInput := ss_UsefulInput st @ useful\<rparr>\<rparr>)))"

end
