(* ===== verification/Step_System.thy ===== *)
theory Step_System
  imports Main
begin

text \<open>
  The contract of the components that run as state machines: the server between its remote
  calls and updates, the goroutines at the work queue and at the gate, the loops of the
  fuzzer. \<open>step_system\<close> asks for an invariant that holds at the start and is kept by each
  step, and gives it in every state that is reached; \<open>step_progress\<close> asks in addition for a
  measure that some step lowers as long as a goal is not met, and gives a run to the goal.
  The interpretations are with the components.
\<close>

inductive reaches :: "('s \<Rightarrow> bool) \<Rightarrow> ('s \<Rightarrow> 's \<Rightarrow> bool) \<Rightarrow> 's \<Rightarrow> bool" for start step where
  at_start: "start s \<Longrightarrow> reaches start step s"
| after_step: "reaches start step s \<Longrightarrow> step s t \<Longrightarrow> reaches start step t"

lemma reaches_run: "reaches start step s \<Longrightarrow> step\<^sup>*\<^sup>* s t \<Longrightarrow> reaches start step t"
  by (rotate_tac, induction rule: rtranclp_induct) (auto intro: after_step)

lemma reaches_conv: "reaches start step t \<longleftrightarrow> (\<exists>s. start s \<and> step\<^sup>*\<^sup>* s t)"
proof
  assume "reaches start step t"
  then show "\<exists>s. start s \<and> step\<^sup>*\<^sup>* s t"
    by induction (auto intro: rtranclp.rtrancl_into_rtrancl)
qed (auto intro: reaches_run at_start)

locale step_system =
  fixes start :: "'s \<Rightarrow> bool" and step :: "'s \<Rightarrow> 's \<Rightarrow> bool" and invar :: "'s \<Rightarrow> bool"
  assumes start_inv: "start s \<Longrightarrow> invar s"
    and step_inv: "invar s \<Longrightarrow> step s t \<Longrightarrow> invar t"
begin

lemma reaches_inv: "reaches start step s \<Longrightarrow> invar s"
proof (induction rule: reaches.induct)
  case (at_start s)
  then show ?case by (rule start_inv)
next
  case (after_step s t)
  from after_step.IH after_step.hyps(2) show ?case by (rule step_inv)
qed

lemma run_inv: "start s \<Longrightarrow> step\<^sup>*\<^sup>* s t \<Longrightarrow> invar t"
  by (rule reaches_inv, rule reaches_run, rule at_start)

end

locale step_progress = step_system +
  fixes keep goal :: "'s \<Rightarrow> bool" and rank :: "'s \<Rightarrow> nat"
  assumes progress: "invar s \<Longrightarrow> keep s \<Longrightarrow> \<not> goal s \<Longrightarrow> \<exists>t. step s t \<and> keep t \<and> rank t < rank s"
begin

lemma run_to_goal: "invar s \<Longrightarrow> keep s \<Longrightarrow> \<exists>t. step\<^sup>*\<^sup>* s t \<and> invar t \<and> keep t \<and> goal t"
proof (induction "rank s" arbitrary: s rule: less_induct)
  case less
  show ?case
  proof (cases "goal s")
    case False
    then obtain u where u: "step s u" "keep u" "rank u < rank s" using progress less.prems by blast
    then obtain t where "step\<^sup>*\<^sup>* u t" "invar t \<and> keep t \<and> goal t"
      using less.hyps [of u] step_inv [OF less.prems(1) u(1)] by blast
    with u(1) show ?thesis by (meson converse_rtranclp_into_rtranclp)
  qed (use less.prems in blast)
qed

end

end
