(* ===== verification/Dra_Update.thy ===== *)
theory Dra_Update
  imports Dra_RPC Step_System
begin

text \<open>
  \<open>Update\<close> of \<open>pkg/dra/DependencyRPCServer.go\<close>, phase by phase in the order of the code.

  \<open>sort.Slice\<close> is not stable: which of several sorted permutations it leaves is open. It
  is the argument \<open>srt\<close>, applied to the comparison of the code. Writing the messages and
  the log to disk is left out.
\<close>

section \<open>Definitions\<close>

text \<open>Running a method of the work part on the server.\<close>

definition on_work :: "(work \<Rightarrow> work res) \<Rightarrow> 'f Server \<Rightarrow> 'f Server res" where
  "on_work f ss =
    rmap (\<lambda>(m, ts, st). ss\<lparr>sv_dataDependency := m, sv_dataRunTime := (sv_dataRunTime ss)\<lparr>dr_Tasks := ts\<rparr>, sv_store := st\<rparr>)
      (f (sv_dataDependency ss, dr_Tasks (sv_dataRunTime ss), sv_store ss))"

definition update_covered :: "'f::{plus,zero} clock \<Rightarrow> 'f Server \<Rightarrow> 'f Server res" where
  "update_covered ck ss = rfold (addCoveredAddress ck) (sv_coveredInput ss) (ss\<lparr>sv_coveredInput := []\<rparr>)"

definition update_inputs :: "'f clock \<Rightarrow> 'f Server \<Rightarrow> 'f Server res" where
  "update_inputs ck ss =
    (let input = sv_input ss in
     rmap (\<lambda>ss'. if input = []
         then ss'\<lparr>sv_NeedInput := (if NeedInput \<and> ck_new ck then True else sv_NeedInput ss'),
                  sv_NeedBoot := (if NeedBoot \<and> ck_boot ck then True else sv_NeedBoot ss')\<rparr>
         else ss'\<lparr>sv_NeedInput := (if NeedInput then False else sv_NeedInput ss'),
                  sv_NeedBoot := (if NeedBoot then False else sv_NeedBoot ss')\<rparr>)
       (rfold (\<lambda>i. on_work (addInput i)) input (ss\<lparr>sv_input := []\<rparr>)))"

definition update_need_inputs :: "'f Server \<Rightarrow> 'f Server res" where
  "update_need_inputs ss =
    (if NeedInput then rfold (\<lambda>i. on_work (addInput i)) (sv_needInput ss) (ss\<lparr>sv_needInput := []\<rparr>) else Inr ss)"

definition coverage_of :: "'f Server \<Rightarrow> (uint32, uint32) gomap" where
  "coverage_of ss = cov_Coverage (ss_Coverage (sv_stat ss))"

text \<open>
  What \<open>addUncoveredAddress\<close> appends to the log (\<^verbatim>\<open>fmt.Sprintf("%x")\<close> is \<open>hex\<close>): nothing for
  an address that is covered.
\<close>

definition uncovered_log :: "(uint32, uint32) gomap \<Rightarrow> UncoveredAddress \<Rightarrow> DataDependency \<Rightarrow> string" where
  "uncovered_log coverage s m =
    (if go_has coverage (ua_UncoveredAddress s) then ''''
     else ''uncovered address : '' @ hex (unat (ua_UncoveredAddress s)) @ [CHR 0x0A] @
       (if go_has (dd_UncoveredAddress m) (ua_UncoveredAddress s) then ''ii.mergeUncoveredAddress(s)'' @ [CHR 0x0A]
        else ''new uncovered address'' @ [CHR 0x0A] @
          concat (map (\<lambda>w. ''write address : '' @ hex (unat w) @ [CHR 0x0A]) (go_keys (ua_WriteAddress s)))))"

definition deal_dependency :: "Dependency \<Rightarrow> 'f Server \<Rightarrow> 'f Server res" where
  "deal_dependency d ss =
    (let txt = (case d_UncoveredAddress d of
                  None \<Rightarrow> ''''
                | Some ua \<Rightarrow>
                    if ua_Kind ua \<in> {UncoveredAddressKind_UncoveredAddressDependencyRelated, UncoveredAddressKind_UncoveredAddressInputRelated}
                    then uncovered_log (coverage_of ss) ua (sv_dataDependency ss) else '''')
     in on_work (handle_dependency (coverage_of ss) d) (ss\<lparr>sv_log := sv_log ss @ txt\<rparr>))"

definition update_dependencies :: "'f Server \<Rightarrow> 'f Server res" where
  "update_dependencies ss = rfold deal_dependency (sv_newDependency ss) (ss\<lparr>sv_newDependency := []\<rparr>)"

text \<open>\<^verbatim>\<open>for _, f := range ss.fuzzers { f.dataRunTime = ... }\<close>, with the store threaded through.\<close>

definition each_fuzzer :: "(DataRunTime \<times> task_store \<Rightarrow> (DataRunTime \<times> task_store) res) \<Rightarrow> 'f Server \<Rightarrow> 'f Server res" where
  "each_fuzzer g ss =
    rfold (\<lambda>(name, f) ss.
        rmap (\<lambda>(dr, st). ss\<lparr>sv_fuzzers := go_set name (f\<lparr>fz_dataRunTime := dr\<rparr>) (sv_fuzzers ss), sv_store := st\<rparr>)
          (g (fz_dataRunTime f, sv_store ss)))
      (go_range (sv_fuzzers ss)) ss"

text \<open>Uncovered addresses the server no longer has are dropped from a task.\<close>

definition prune :: "DataDependency \<Rightarrow> Task \<Rightarrow> Task" where
  "prune m t = t\<lparr>t_UncoveredAddress := go_filter (\<lambda>u. go_has (dd_UncoveredAddress m) u) (t_UncoveredAddress t)\<rparr>"

definition return_task :: "ref \<Rightarrow> 'f Server \<Rightarrow> 'f Server res" where
  "return_task r ss =
    rbind (deref (sv_store ss) r) (\<lambda>task.
    rbind (case go_get (ts_TaskMap (dr_Tasks (sv_dataRunTime ss))) (t_Hash task) of
             Some r' \<Rightarrow>
               rbind (deref (sv_store ss) r') (\<lambda>t.
               rbind (mergeTask t task) (\<lambda>(t', task').
               Inr (task', ss\<lparr>sv_store := assign r' (prune (sv_dataDependency ss) t') (assign r task' (sv_store ss))\<rparr>)))
           | None \<Rightarrow>
               rbind (AddTask r (dr_Tasks (sv_dataRunTime ss), sv_store ss)) (\<lambda>(q, st).
               rmap (\<lambda>task'. (task', ss\<lparr>sv_dataRunTime := (sv_dataRunTime ss)\<lparr>dr_Tasks := q\<rparr>, sv_store := st\<rparr>)) (deref st r))) (\<lambda>(task', ss').
    rmap (\<lambda>(m, c). ss'\<lparr>sv_dataDependency := m, sv_dataResult := (sv_dataResult ss')\<lparr>res_CoveredAddress := c\<rparr>\<rparr>)
      (updateUncoveredAddress task' (sv_dataDependency ss', res_CoveredAddress (sv_dataResult ss')))))"

text \<open>The comparison of the sort: by \<open>Priority\<close>, then by the real priority.\<close>

definition task_less :: "task_store \<Rightarrow> ref \<Rightarrow> ref \<Rightarrow> bool" where
  "task_less st i j =
    (case (heap st i, heap st j) of
       (Some a, Some b) \<Rightarrow>
         if t_Priority a = t_Priority b then getRealPriority a < getRealPriority b
         else t_Priority a <s t_Priority b
     | _ \<Rightarrow> False)"

type_synonym sort_slice = "(ref \<Rightarrow> ref \<Rightarrow> bool) \<Rightarrow> ref list \<Rightarrow> ref list"

definition update_returns :: "sort_slice \<Rightarrow> 'f Server \<Rightarrow> 'f Server res" where
  "update_returns srt ss =
    (let returned = concat (map (\<lambda>(_, f). ts_TaskArray (dr_Return (fz_dataRunTime f))) (go_range (sv_fuzzers ss))) in
     rbind (each_fuzzer (\<lambda>(dr, st). Inr (dr\<lparr>dr_Return := emptyTask (dr_Return dr)\<rparr>, st)) ss) (\<lambda>ss1.
     rbind (rfold return_task returned ss1) (\<lambda>ss2.
     let q = dr_Tasks (sv_dataRunTime ss2) in
     Inr (ss2\<lparr>sv_dataRunTime := (sv_dataRunTime ss2)\<lparr>dr_Tasks :=
            q\<lparr>ts_TaskArray := srt (task_less (sv_store ss2)) (ts_TaskArray q)\<rparr>\<rparr>\<rparr>))))"

subsection \<open>Handing out tasks\<close>

definition prune_at :: "DataDependency \<Rightarrow> ref \<Rightarrow> task_store \<Rightarrow> task_store res" where
  "prune_at m r st = rmap (\<lambda>t. assign r (prune m t) st) (deref st r)"

text \<open>
  The loop that chooses from the global queue: a task with uncovered addresses left is
  taken as a copy when it is untested (and becomes testing), itself when it may be tried
  again; the loop stops once more than \<open>TaskQueueNumber\<close> are chosen.
\<close>

fun choose_tasks :: "DataDependency \<Rightarrow> ref list \<Rightarrow> ref list \<times> task_store \<Rightarrow> (ref list \<times> task_store) res" where
  "choose_tasks m [] s = Inr s"
| "choose_tasks m (r # rs) (task, st) =
    rbind (prune_at m r st) (\<lambda>st1.
    rbind (deref st1 r) (\<lambda>t.
    if go_len (t_UncoveredAddress t) > 0 then
      (let (task', st') =
         (if t_TaskStatus t = TaskStatus_untested then
            (let t' = reducePriority (t\<lparr>t_TaskStatus := TaskStatus_testing\<rparr>);
                 (r', st2) = new_task t' (assign r t' st1)
             in (task @ [r'], st2))
          else if t_TaskStatus t < TaskStatus_tested \<and> t_Count t < TaskCountLimitation then
            (task @ [r], assign r (reducePriority t) st1)
          else (task, st1))
       in if length task' > TaskQueueNumber then Inr (task', st') else choose_tasks m rs (task', st'))
    else choose_tasks m rs (task, st1)))"

definition clear_run_data :: "ref \<Rightarrow> task_store \<Rightarrow> task_store res" where
  "clear_run_data r st = rmap (\<lambda>t. assign r (t\<lparr>t_TaskRunTimeData := []\<rparr>) st) (deref st r)"

text \<open>\<open>f.dataRunTime.X.AddTask(proto.Clone(t))\<close>\<close>

definition add_clone :: "ref \<Rightarrow> Tasks \<times> task_store \<Rightarrow> (Tasks \<times> task_store) res" where
  "add_clone r s = rbind (deref (snd s) r) (\<lambda>t. let (r', st) = new_task t (snd s) in AddTask r' (fst s, st))"

definition give_tasks :: "'f Server \<Rightarrow> 'f Server res" where
  "give_tasks ss =
    rbind (choose_tasks (sv_dataDependency ss) (ts_TaskArray (dr_Tasks (sv_dataRunTime ss))) ([], sv_store ss)) (\<lambda>(task, st1).
    rbind (rfold clear_run_data task st1) (\<lambda>st2.
    each_fuzzer (\<lambda>(dr, st). rmap (\<lambda>(q, st'). (dr\<lparr>dr_Tasks := q\<rparr>, st'))
        (rfold add_clone task (emptyTask (dr_Tasks dr), st))) (ss\<lparr>sv_store := st2\<rparr>)))"

text \<open>
  The high-priority queue: the tasks it collects are dropped (\<open>task = []*Task{}\<close>) before
  they are handed out, so only the pruning and the emptying have an effect.
\<close>

definition give_high_tasks :: "'f Server \<Rightarrow> 'f Server res" where
  "give_high_tasks ss =
    (let h = dr_HighTask (sv_dataRunTime ss) in
     if ts_TaskArray h = [] then Inr ss
     else rmap (\<lambda>st. ss\<lparr>sv_store := st, sv_dataRunTime := (sv_dataRunTime ss)\<lparr>dr_HighTask := emptyTask h\<rparr>\<rparr>)
            (rfold (prune_at (sv_dataDependency ss)) (ts_TaskArray h) (sv_store ss)))"

definition update_tasks :: "'f clock \<Rightarrow> 'f Server \<Rightarrow> 'f Server res" where
  "update_tasks ck ss =
    (if sv_DependencyTask ss then
       (if ck_started ck then rbind (give_high_tasks ss) give_tasks else Inr ss)
     else Inr (ss\<lparr>sv_dataRunTime := (sv_dataRunTime ss)\<lparr>
                 dr_HighTask := emptyTask (dr_HighTask (sv_dataRunTime ss)),
                 dr_Tasks := emptyTask (dr_Tasks (sv_dataRunTime ss))\<rparr>\<rparr>))"

subsection \<open>Boot tasks, which \<open>TaskBoot\<close> turns off\<close>

definition collect_boot :: "'f Server \<Rightarrow> (Tasks \<times> 'f Server) res" where
  "collect_boot ss =
    rfold (\<lambda>(name, f) (q, ss).
        let dr = fz_dataRunTime f in
        rmap (\<lambda>(q', st). (q', ss\<lparr>sv_fuzzers := go_set name (f\<lparr>fz_dataRunTime := dr\<lparr>dr_ReturnBoot := emptyTask (dr_ReturnBoot dr)\<rparr>\<rparr>) (sv_fuzzers ss),
                                 sv_store := st\<rparr>))
          (AddTasks (dr_ReturnBoot dr) (q, sv_store ss)))
      (go_range (sv_fuzzers ss)) (Tasks_new '''' TaskKind_Boot, ss)"

definition return_boot_task :: "string \<times> ref \<Rightarrow> 'f Server \<Rightarrow> 'f Server res" where
  "return_boot_task e ss =
    (case go_get (ts_TaskMap (dr_BootTask (sv_dataRunTime ss))) (fst e) of
       None \<Rightarrow> Inr ss
     | Some r' \<Rightarrow>
       rbind (deref (sv_store ss) (snd e)) (\<lambda>task.
       rbind (deref (sv_store ss) r') (\<lambda>t.
       rbind (if t_TaskStatus task = TaskStatus_covered then mergeTask t task
              else Inr (t\<lparr>t_TaskStatus := TaskStatus_tested\<rparr>, task)) (\<lambda>(t1, task1).
       rbind (mergeTask t1 task1) (\<lambda>(t2, task2).
       Inr (ss\<lparr>sv_store := assign r' (prune (sv_dataDependency ss) t2) (assign (snd e) task2 (sv_store ss))\<rparr>))))))"

definition real_less :: "task_store \<Rightarrow> ref \<Rightarrow> ref \<Rightarrow> bool" where
  "real_less st i j =
    (case (heap st i, heap st j) of (Some a, Some b) \<Rightarrow> getRealPriority a < getRealPriority b | _ \<Rightarrow> False)"

fun choose_boot_tasks :: "DataDependency \<Rightarrow> ref list \<Rightarrow> ref list \<times> task_store \<Rightarrow> (ref list \<times> task_store) res" where
  "choose_boot_tasks m [] s = Inr s"
| "choose_boot_tasks m (r # rs) (task, st) =
    rbind (deref st r) (\<lambda>t.
    if t_TaskStatus t = TaskStatus_untested then
      choose_boot_tasks m rs
        (if go_len (t_UncoveredAddress (prune m t)) > 0 then task @ [r] else task, assign r (prune m t) st)
    else choose_boot_tasks m rs (task, st))"

definition update_boot :: "sort_slice \<Rightarrow> 'f clock \<Rightarrow> 'f Server \<Rightarrow> 'f Server res" where
  "update_boot srt ck ss =
    (if TaskBoot then
       rbind (collect_boot ss) (\<lambda>(returned, ss1).
       rbind (rfold return_boot_task (go_range (ts_TaskMap returned)) ss1) (\<lambda>ss2.
       let b = dr_BootTask (sv_dataRunTime ss2);
           b' = b\<lparr>ts_TaskArray := srt (real_less (sv_store ss2)) (ts_TaskArray b)\<rparr>;
           ss3 = ss2\<lparr>sv_dataRunTime := (sv_dataRunTime ss2)\<lparr>dr_BootTask := b'\<rparr>\<rparr>
       in if sv_DependencyTask ss3 then
            (if ck_started ck \<and> ts_TaskArray b' \<noteq> [] then
               rbind (choose_boot_tasks (sv_dataDependency ss3) (ts_TaskArray b') ([], sv_store ss3)) (\<lambda>(task, st1).
               rbind (rfold clear_run_data task st1) (\<lambda>st2.
               each_fuzzer (\<lambda>(dr, st). rmap (\<lambda>(q, st'). (dr\<lparr>dr_BootTask := q\<rparr>, st'))
                   (rfold add_clone task (dr_BootTask dr, st))) (ss3\<lparr>sv_store := st2\<rparr>)))
             else Inr ss3)
          else Inr (ss3\<lparr>sv_dataRunTime := (sv_dataRunTime ss3)\<lparr>dr_BootTask := emptyTask b'\<rparr>\<rparr>)))
     else Inr ss)"

subsection \<open>Statistics, unstable inputs, and what the fuzzers are told\<close>

definition update_stats :: "'f::plus Server \<Rightarrow> 'f Server res" where
  "update_stats ss =
    rmap (\<lambda>sm. ss\<lparr>sv_newStat := [], sv_stat := (sv_stat ss)\<lparr>ss_Stat := sm\<rparr>\<rparr>)
      (rfold (\<lambda>stat sm. case go_get sm (s_Name stat) of
           Some s \<Rightarrow> rbind (mergeStatistic s stat) (\<lambda>s'. go_put (s_Name stat) s' sm)
         | None \<Rightarrow> go_put (s_Name stat) stat sm) (sv_newStat ss) (ss_Stat (sv_stat ss)))"

definition update_unstable :: "'f Server \<Rightarrow> 'f Server res" where
  "update_unstable ss =
    (if CollectUnstable then
       rmap (\<lambda>d. ss\<lparr>sv_unstableInputs := Some [], sv_unstableInputsData := d\<rparr>)
         (rfold (\<lambda>(sig, ui) d. case go_get d sig of
              Some i \<Rightarrow> rbind (mergeUnstableInput i (Some ui)) (\<lambda>i'. go_put sig i' d)
            | None \<Rightarrow> go_put sig ui d) (go_range (sv_unstableInputs ss)) (sv_unstableInputsData ss))
     else Inr ss)"

definition shared_dependency :: "DataDependency \<Rightarrow> DataDependency" where
  "shared_dependency m = m\<lparr>dd_Input := map_option (map (\<lambda>(sig, i). (sig, i\<lparr>i_Paths := [], i_Call := None\<rparr>))) (dd_Input m),
     dd_OtherInput := None\<rparr>"

definition update_shared :: "'f Server \<Rightarrow> 'f Server" where
  "update_shared ss =
    (if CheckCondition then
       ss\<lparr>sv_fuzzers := map_option (map (\<lambda>(name, f). (name, f\<lparr>fz_dataDependency := shared_dependency (sv_dataDependency ss)\<rparr>)))
            (sv_fuzzers ss)\<rparr>
     else ss)"

definition Update :: "sort_slice \<Rightarrow> 'f::{plus,zero} clock \<Rightarrow> 'f Server \<Rightarrow> 'f Server res" where
  "Update srt ck ss0 =
    rbind (update_covered ck ss0) (\<lambda>ss1.
    rbind (update_inputs ck ss1) (\<lambda>ss2.
    rbind (update_need_inputs ss2) (\<lambda>ss3.
    rbind (update_dependencies ss3) (\<lambda>ss4.
    rbind (update_returns srt ss4) (\<lambda>ss5.
    rbind (update_tasks ck ss5) (\<lambda>ss6.
    rbind (update_boot srt ck ss6) (\<lambda>ss7.
    rbind (update_stats (ss7\<lparr>sv_log := ''''\<rparr>)) (\<lambda>ss8.
    rbind (update_unstable ss8) (\<lambda>ss9.
    Inr (update_shared ss9))))))))))"

section \<open>Covered addresses stay out\<close>

text \<open>Which of the methods change the set of uncovered addresses, whenever they return.\<close>

abbreviation unc_keys :: "DataDependency \<Rightarrow> uint32 set" where
  "unc_keys m \<equiv> set (go_keys (dd_UncoveredAddress m))"

named_theorems keeps_unc \<open>methods that keep the set of uncovered addresses\<close>

lemma getTasks_unc [keeps_unc]: "getTasks sig ib ws wb w u m = Inr (m', ts) \<Longrightarrow> unc_keys m' = unc_keys m"
  by (auto simp: getTasks_def Let_def res_conv go_key_iff split: option.splits if_splits)

lemma addTasks_unc [keeps_unc]: "addTasks sig ib ws wb w u s = Inr s' \<Longrightarrow> unc_keys (fst s') = unc_keys (fst s)"
  by (auto simp: addTasks_def res_conv dest: getTasks_unc)

lemma rfold_unc:
  assumes "rfold f xs s = Inr s'" "\<And>x s s'. f x s = Inr s' \<Longrightarrow> unc_keys (g s') = unc_keys (g s)"
  shows "unc_keys (g s') = unc_keys (g s)"
  using assms(1) by (rule rfold_inv [where I = "\<lambda>x. unc_keys (g x) = unc_keys (g s)"]) (auto dest: assms(2))

lemma write_address_tasks_unc [keeps_unc]:
  "write_address_tasks w ws wb us s = Inr s' \<Longrightarrow> unc_keys (fst s') = unc_keys (fst s)"
proof (induction us arbitrary: s)
  case (Cons u us)
  show ?case
  proof (cases "go_get (dd_UncoveredAddress (fst s)) u")
    case (Some ua)
    with Cons.prems obtain s1 where
      1: "rfold (\<lambda>(sig, ib). addTasks sig ib ws wb w u) (go_range (ua_Input ua)) s = Inr s1"
         "write_address_tasks w ws wb us s1 = Inr s'" by (auto simp: rbind_Inr_conv)
    from 1(1) have "unc_keys (fst s1) = unc_keys (fst s)"
      by (rule rfold_unc [where g = fst]) (auto dest: addTasks_unc)
    with Cons.IH [OF 1(2)] show ?thesis by simp
  qed (use Cons.prems in simp)
qed simp

lemma input_task_writes_unc [keeps_unc]:
  "input_task_writes sig ib u ws s = Inr (b, s') \<Longrightarrow> unc_keys (fst s') = unc_keys (fst s)"
proof (induction ws arbitrary: s)
  case (Cons w ws)
  show ?case
  proof (cases "go_get (dd_WriteAddress (fst s)) w")
    case (Some wa)
    with Cons.prems obtain s1 where
      1: "rfold (\<lambda>(writeSig, wb). addTasks sig ib writeSig wb w u) (go_range (wa_Input wa)) s = Inr s1"
         "input_task_writes sig ib u ws s1 = Inr (b, s')" by (auto simp: rbind_Inr_conv)
    from 1(1) have "unc_keys (fst s1) = unc_keys (fst s)"
      by (rule rfold_unc [where g = fst]) (auto dest: addTasks_unc)
    with Cons.IH [OF 1(2)] show ?thesis by simp
  qed (use Cons.prems in simp)
qed simp

lemma input_tasks_unc: "input_tasks sig us s = Inr s' \<Longrightarrow> unc_keys (fst s') = unc_keys (fst s)"
proof (induction us arbitrary: s)
  case (Cons e us)
  obtain u ib where e: "e = (u, ib)" by (cases e)
  show ?case
  proof (cases "go_get (dd_UncoveredAddress (fst s)) u")
    case (Some ua)
    with Cons.prems e obtain b s1 where
      1: "input_task_writes sig ib u (go_keys (ua_WriteAddress ua)) s = Inr (b, s1)"
         "(if b then input_tasks sig us s1 else Inr s1) = Inr s'" by (auto simp: rbind_Inr_conv)
    with Cons.IH [of s1] input_task_writes_unc [OF 1(1)] show ?thesis by (cases b) auto
  qed (use Cons.prems e in simp)
qed simp

lemma addInputTask_unc [keeps_unc]: "addInputTask d s = Inr s' \<Longrightarrow> unc_keys (fst s') = unc_keys (fst s)"
  by (simp add: addInputTask_def input_tasks_unc)

lemma hit_write_address_unc [keeps_unc]: "hit_write_address sig b a s = Inr s' \<Longrightarrow> unc_keys (fst s') = unc_keys (fst s)"
  by (auto simp: hit_write_address_def Let_def rbind_Inr_conv addWriteAddressTask_def
      dest!: write_address_tasks_unc split: option.splits)

lemma addWriteAddressMapInput_unc [keeps_unc]:
  assumes "addWriteAddressMapInput i s = Inr s'"
  shows "unc_keys (fst s') = unc_keys (fst s)"
  using assms unfolding addWriteAddressMapInput_def
  by (rule rfold_unc [where g = fst])
     (auto dest!: rfold_unc [where g = fst, OF _ hit_write_address_unc])

lemma addInput_unc [keeps_unc]:
  assumes "addInput i s = Inr s'"
  shows "unc_keys (fst s') = unc_keys (fst s)"
proof -
  have u: "unc_keys (addUncoveredAddressMapInput i m) = unc_keys m" for m
    unfolding addUncoveredAddressMapInput_def by (rule fold_keep) simp_all
  have f: "forget_calls sig m = Inr m' \<Longrightarrow> unc_keys m' = unc_keys m" for sig m m'
    by (auto simp: forget_calls_def split: option.splits if_splits)
  have st: "store_input i m = Inr m' \<Longrightarrow> unc_keys m' = unc_keys m" for m m'
    by (auto simp: store_input_def res_conv split: option.splits)
  from assms obtain m1 w2 m3 where
    1: "store_input i (fst s) = Inr m1" "addWriteAddressMapInput i (m1, snd s) = Inr w2"
       "forget_calls (i_Sig i) (addUncoveredAddressMapInput i (fst w2)) = Inr m3" "s' = (m3, snd w2)"
    by (auto simp: addInput_def res_conv)
  from f [OF 1(3)] u st [OF 1(1)] addWriteAddressMapInput_unc [OF 1(2)] 1(4) show ?thesis by simp
qed

lemma addWriteAddress_unc [keeps_unc]: "addWriteAddress wa m = Inr m' \<Longrightarrow> unc_keys m' = unc_keys m"
proof -
  have "unc_keys (fold (note_write_of_input w) es m) = unc_keys m" for w es m
    by (rule fold_keep) simp_all
  then show "addWriteAddress wa m = Inr m' \<Longrightarrow> unc_keys m' = unc_keys m"
    by (auto simp: addWriteAddress_def res_conv split: option.splits)
qed

lemma link_write_unc: "link_write u e m = Inr m' \<Longrightarrow> unc_keys m' = unc_keys m"
  by (auto simp: link_write_def res_conv split: option.splits)

lemma addUncoveredAddress_unc:
  assumes "addUncoveredAddress cov s m = Inr m'"
  shows "unc_keys m' = unc_keys m \<union> (if go_has cov (ua_UncoveredAddress s) then {} else {ua_UncoveredAddress s})"
proof -
  have "addWriteAddressMapUncoveredAddress x m1 = Inr m2 \<Longrightarrow> unc_keys m2 = unc_keys m1" for x m1 m2
    unfolding addWriteAddressMapUncoveredAddress_def
    by (erule rfold_unc [where g = id, simplified]) (rule link_write_unc)
  with assms show ?thesis
    by (auto simp: addUncoveredAddress_def res_conv go_put_conv split: option.splits if_splits)
qed

lemma handle_dependency_unc:
  assumes "handle_dependency cov d s = Inr s'"
  shows "unc_keys (fst s') \<subseteq> unc_keys (fst s) \<union> (- set (go_keys cov))"
proof -
  have a: "unc_keys m2 \<subseteq> unc_keys m1 \<union> (- set (go_keys cov))" if "addUncoveredAddress cov x m1 = Inr m2" for x m1 m2
    using addUncoveredAddress_unc [OF that] by auto
  have w: "rfold addWriteAddress ws m1 = Inr m2 \<Longrightarrow> unc_keys m2 = unc_keys m1" for ws m1 m2
    by (erule rfold_unc [where g = id, simplified]) (rule addWriteAddress_unc)
  have i: "rbind (addInput i s1) (addInputTask i) = Inr s2 \<Longrightarrow> unc_keys (fst s2) = unc_keys (fst s1)" for i s1 s2
    by (auto simp only: rbind_Inr_conv dest: addInput_unc addInputTask_unc)
  obtain ua where d: "d_UncoveredAddress d = Some ua" using assms by (auto simp: handle_dependency_def split: option.splits)
  show ?thesis
  proof (cases "ua_Kind ua = UncoveredAddressKind_UncoveredAddressDependencyRelated")
    case True
    with assms obtain m1 m2 where
      1: "rfold addWriteAddress (d_WriteAddress d) (fst s) = Inr m1" "addUncoveredAddress cov ua m1 = Inr m2"
        "(case d_Input d of None \<Rightarrow> Inr (m2, snd s) | Some i \<Rightarrow> rbind (addInput i (m2, snd s)) (addInputTask i)) = Inr s'"
      by (auto simp: d handle_dependency_def rbind_Inr_conv [of "rfold _ _ _"] rbind_Inr_conv [of "addUncoveredAddress _ _ _"])
    have "unc_keys (fst s') = unc_keys m2" using 1(3) by (auto dest: i split: option.splits)
    with a [OF 1(2)] w [OF 1(1)] show ?thesis by simp
  next
    case False
    with assms show ?thesis by (auto simp: d handle_dependency_def rmap_Inr_conv split: if_splits dest!: a)
  qed
qed

lemma unlink_unc:
  "unlink_input u sig m = Inr m' \<Longrightarrow> dd_UncoveredAddress m' = dd_UncoveredAddress m"
  "unlink_write u w m = Inr m' \<Longrightarrow> dd_UncoveredAddress m' = dd_UncoveredAddress m"
  by (auto simp: unlink_input_def unlink_write_def split: option.splits if_splits)

lemma server_checkUncoveredAddress_unc:
  assumes "server_checkUncoveredAddress u s = Inr (b, s')"
  shows "unc_keys (fst s') = unc_keys (fst s) - {u}"
proof -
  have i: "rfold (unlink_input u) xs m = Inr m' \<Longrightarrow> dd_UncoveredAddress m' = dd_UncoveredAddress m" for xs m m'
    by (rule rfold_inv [where I = "\<lambda>x. dd_UncoveredAddress x = dd_UncoveredAddress m"]) (auto dest: unlink_unc)
  have w: "rfold (unlink_write u) xs m = Inr m' \<Longrightarrow> dd_UncoveredAddress m' = dd_UncoveredAddress m" for xs m m'
    by (rule rfold_inv [where I = "\<lambda>x. dd_UncoveredAddress x = dd_UncoveredAddress m"]) (auto dest: unlink_unc)
  show ?thesis
  proof (cases "go_get (dd_UncoveredAddress (fst s)) u")
    case None
    then have "u \<notin> unc_keys (fst s)" by (simp add: go_key_iff)
    then show ?thesis using assms by (simp add: server_checkUncoveredAddress_def)
  next
    case (Some ua)
    then show ?thesis using assms go_get_key [OF Some]
      by (auto simp: server_checkUncoveredAddress_def deleteUncoveredAddress_def res_conv dest!: i w)
  qed
qed

text \<open>The invariant: no address that was ever covered is among the uncovered ones.\<close>

definition cov_inv :: "'f Server \<Rightarrow> bool" where
  "cov_inv ss \<longleftrightarrow> set (go_keys (coverage_of ss)) \<inter> unc_keys (sv_dataDependency ss) = {}"

lemma cover_keys: "set (go_keys (fst (cover b as (m, n)))) = set (go_keys m) \<union> set as"
  unfolding cover_def by (induction as arbitrary: m n) auto

lemma check_all_unc:
  assumes "rfold (\<lambda>a s. rmap snd (server_checkUncoveredAddress a s)) as s = Inr s'"
  shows "unc_keys (fst s') = unc_keys (fst s) - set as"
  using assms
proof (induction as arbitrary: s)
  case (Cons a as)
  from Cons.prems obtain b s1 where
    "server_checkUncoveredAddress a s = Inr (b, s1)" "rfold (\<lambda>a s. rmap snd (server_checkUncoveredAddress a s)) as s1 = Inr s'"
    by (auto simp: res_conv)
  with Cons.IH server_checkUncoveredAddress_unc show ?case by fastforce
qed simp

lemma addCoveredAddress_conv:
  assumes "addCoveredAddress ck i ss = Inr ss'"
  shows "set (go_keys (coverage_of ss')) = set (go_keys (coverage_of ss)) \<union> set (input_addresses i)"
    and "unc_keys (sv_dataDependency ss') = unc_keys (sv_dataDependency ss) - set (input_addresses i)"
  using assms cover_keys [of _ "input_addresses i" "coverage_of ss" 0]
  by (auto simp: addCoveredAddress_def Let_def rbind_Inr_conv coverage_of_def split_def dest!: check_all_unc)

lemma addCoveredAddress_inv [inv_intros]: "addCoveredAddress ck i ss = Inr ss' \<Longrightarrow> cov_inv ss \<Longrightarrow> cov_inv ss'"
  by (auto simp: cov_inv_def addCoveredAddress_conv)

lemma on_work_conv:
  assumes "on_work f ss = Inr ss'"
  obtains m ts st where "f (sv_dataDependency ss, dr_Tasks (sv_dataRunTime ss), sv_store ss) = Inr (m, ts, st)"
    "sv_dataDependency ss' = m" "coverage_of ss' = coverage_of ss"
  using assms by (auto simp: on_work_def rmap_Inr_conv coverage_of_def)

lemma on_work_addInput_inv:
  assumes "on_work (addInput i) ss = Inr ss'" "cov_inv ss"
  shows "cov_inv ss'"
proof -
  from assms(1) obtain m ts st where
    1: "addInput i (sv_dataDependency ss, dr_Tasks (sv_dataRunTime ss), sv_store ss) = Inr (m, ts, st)"
      "sv_dataDependency ss' = m" "coverage_of ss' = coverage_of ss" by (rule on_work_conv)
  from addInput_unc [OF 1(1)] 1(2,3) assms(2) show ?thesis by (simp add: cov_inv_def)
qed

lemma on_work_dependency_inv:
  assumes "on_work (handle_dependency (coverage_of ss) d) ss = Inr ss'" "cov_inv ss"
  shows "cov_inv ss'"
proof -
  from assms(1) obtain m ts st where
    1: "handle_dependency (coverage_of ss) d (sv_dataDependency ss, dr_Tasks (sv_dataRunTime ss), sv_store ss) = Inr (m, ts, st)"
      "sv_dataDependency ss' = m" "coverage_of ss' = coverage_of ss" by (rule on_work_conv)
  from handle_dependency_unc [OF 1(1)] 1(2,3) assms(2) show ?thesis by (auto simp: cov_inv_def)
qed

lemma deal_dependency_inv:
  assumes "deal_dependency d ss = Inr ss'" "cov_inv ss"
  shows "cov_inv ss'"
proof -
  have log: "coverage_of (ss\<lparr>sv_log := l\<rparr>) = coverage_of ss" "cov_inv (ss\<lparr>sv_log := l\<rparr>)" for l
    using assms(2) by (simp_all add: cov_inv_def coverage_of_def)
  obtain l where "on_work (handle_dependency (coverage_of (ss\<lparr>sv_log := l\<rparr>)) d) (ss\<lparr>sv_log := l\<rparr>) = Inr ss'"
    using assms(1) unfolding deal_dependency_def Let_def log(1) by blast
  then show ?thesis by (rule on_work_dependency_inv) (rule log(2))
qed

lemma return_task_inv:
  assumes "return_task r ss = Inr ss'" "cov_inv ss"
  shows "cov_inv ss'"
proof -
  from assms(1) obtain task' x m c where
    1: "updateUncoveredAddress task' (sv_dataDependency ss, x) = Inr (m, c)"
      "sv_dataDependency ss' = m" "sv_stat ss' = sv_stat ss"
    by (auto simp: return_task_def res_conv split: option.splits)
  have "unc_keys m = unc_keys (sv_dataDependency ss)"
    using update_status_keys [OF 1(1)] by simp
  then show ?thesis using assms(2) 1 by (simp add: cov_inv_def coverage_of_def)
qed

text \<open>Steps that touch neither the data nor the coverage.\<close>

definition same_data :: "'f Server \<Rightarrow> 'f Server \<Rightarrow> bool" where
  "same_data ss ss' \<longleftrightarrow> sv_dataDependency ss' = sv_dataDependency ss \<and> coverage_of ss' = coverage_of ss"

lemma same_data_inv [inv_intros]: "same_data ss ss' \<Longrightarrow> cov_inv ss \<Longrightarrow> cov_inv ss'"
  by (simp add: same_data_def cov_inv_def)

lemma each_fuzzer_same:
  assumes "each_fuzzer g ss = Inr ss'"
  shows "same_data ss ss'"
  using assms unfolding each_fuzzer_def
  by (rule rfold_inv) (auto simp: same_data_def coverage_of_def rmap_Inr_conv)

lemma give_same:
  "give_high_tasks ss = Inr ss' \<Longrightarrow> same_data ss ss'"
  "give_tasks ss = Inr ss' \<Longrightarrow> same_data ss ss'"
  by (auto simp: give_high_tasks_def give_tasks_def Let_def res_conv same_data_def coverage_of_def
      dest!: each_fuzzer_same split: if_splits)

lemma update_tasks_same: "update_tasks ck ss = Inr ss' \<Longrightarrow> same_data ss ss'"
  by (auto simp: update_tasks_def rbind_Inr_conv same_data_def coverage_of_def dest!: give_same split: if_splits)

lemma update_tail_same:
  "update_boot srt ck ss = Inr ss' \<Longrightarrow> same_data ss ss'"
  "update_stats ss = Inr ss' \<Longrightarrow> same_data ss ss'"
  "update_unstable ss = Inr ss' \<Longrightarrow> same_data ss ss'"
  "same_data ss (update_shared ss)"
  by (auto simp: update_boot_def update_stats_def update_unstable_def update_shared_def dra_consts res_conv
      same_data_def coverage_of_def)

lemma update_returns_inv:
  assumes "update_returns srt ss = Inr ss'" "cov_inv ss"
  shows "cov_inv ss'"
proof -
  from assms(1) obtain rs ss1 ss2 where
    1: "each_fuzzer (\<lambda>(dr, st). Inr (dr\<lparr>dr_Return := emptyTask (dr_Return dr)\<rparr>, st)) ss = Inr ss1"
      "rfold return_task rs ss1 = Inr ss2" "same_data ss2 ss'"
    by (auto simp: update_returns_def Let_def rbind_Inr_conv same_data_def coverage_of_def)
  have "cov_inv ss1" using each_fuzzer_same [OF 1(1)] assms(2) by (rule same_data_inv)
  with 1(2) have "cov_inv ss2" by (rule rfold_inv) (rule return_task_inv)
  with 1(3) show ?thesis by (rule same_data_inv)
qed

lemma update_inputs_inv:
  assumes "update_inputs ck ss = Inr ss'" "cov_inv ss"
  shows "cov_inv ss'"
proof -
  from assms(1) obtain ss1 where
    1: "rfold (\<lambda>i. on_work (addInput i)) (sv_input ss) (ss\<lparr>sv_input := []\<rparr>) = Inr ss1" "same_data ss1 ss'"
    by (auto simp: update_inputs_def Let_def rmap_Inr_conv same_data_def coverage_of_def split: if_splits)
  have "cov_inv (ss\<lparr>sv_input := []\<rparr>)" using assms(2) by (simp add: cov_inv_def coverage_of_def)
  with 1(1) have "cov_inv ss1" by (rule rfold_inv) (rule on_work_addInput_inv)
  with 1(2) show ?thesis by (rule same_data_inv)
qed

lemma update_dependencies_inv:
  assumes "update_dependencies ss = Inr ss'" "cov_inv ss"
  shows "cov_inv ss'"
proof -
  have "cov_inv (ss\<lparr>sv_newDependency := []\<rparr>)" using assms(2) by (simp add: cov_inv_def coverage_of_def)
  with assms(1) [unfolded update_dependencies_def] show ?thesis
    by (rule rfold_inv) (rule deal_dependency_inv)
qed

lemma update_covered_inv:
  assumes "update_covered ck ss = Inr ss'" "cov_inv ss"
  shows "cov_inv ss'"
proof -
  have "cov_inv (ss\<lparr>sv_coveredInput := []\<rparr>)" using assms(2) by (simp add: cov_inv_def coverage_of_def)
  with assms(1) [unfolded update_covered_def] show ?thesis
    by (rule rfold_inv) (rule addCoveredAddress_inv)
qed

lemma Update_inv [inv_intros]:
  assumes "Update srt ck ss = Inr ss'" "cov_inv ss"
  shows "cov_inv ss'"
proof -
  from assms(1) obtain s1 s2 s4 s5 s6 s7 s8 s9 where
    s: "update_covered ck ss = Inr s1" "update_inputs ck s1 = Inr s2" "update_dependencies s2 = Inr s4"
      "update_returns srt s4 = Inr s5" "update_tasks ck s5 = Inr s6" "update_boot srt ck s6 = Inr s7"
      "update_stats (s7\<lparr>sv_log := ''''\<rparr>) = Inr s8" "update_unstable s8 = Inr s9" "ss' = update_shared s9"
    unfolding Update_def by (auto simp: rbind_Inr_conv update_need_inputs_def dra_consts)
  have "cov_inv s5"
    using s(1-4) assms(2) update_covered_inv update_inputs_inv update_dependencies_inv update_returns_inv by blast
  then have "cov_inv s7" using update_tasks_same [OF s(5)] update_tail_same(1) [OF s(6)] same_data_inv by blast
  then have "cov_inv (s7\<lparr>sv_log := ''''\<rparr>)" by (simp add: cov_inv_def coverage_of_def)
  then show ?thesis
    using update_tail_same(2) [OF s(7)] update_tail_same(3) [OF s(8)] update_tail_same(4) [of s9] s(9) same_data_inv by blast
qed

section \<open>The server as a state machine\<close>

datatype 'f event =
    E_SendNumberBasicBlock Empty | E_SendNumberBasicBlockCovered Empty | E_GetVMOffsets
  | E_GetNewInput | E_SendDependency Dependency | E_Connect string | E_GetDataDependency string
  | E_SendNewInput Input | E_GetTasks string | E_GetBootTasks string | E_ReturnTasks TasksMsg
  | E_SendBootInput Input | E_SendUnstableInput UnstableInput | E_SendLog string | E_SendStat "'f Statistic"
  | E_GetNeed | E_SendNeedInput Input | E_SetAddress uint32 | E_SyncSignal uint64 | E_Update "'f clock"

primrec server_step :: "sort_slice \<Rightarrow> 'f::{plus,zero} event \<Rightarrow> 'f Server \<Rightarrow> 'f Server res" where
  "server_step srt (E_SendNumberBasicBlock e) ss = Inr (SendNumberBasicBlock e ss)"
| "server_step srt (E_SendNumberBasicBlockCovered e) ss = Inr (SendNumberBasicBlockCovered e ss)"
| "server_step srt E_GetVMOffsets ss = Inr ss"
| "server_step srt E_GetNewInput ss = Inr (snd (GetNewInput ss))"
| "server_step srt (E_SendDependency d) ss = Inr (SendDependency d ss)"
| "server_step srt (E_Connect name) ss = rmap snd (Connect name ss)"
| "server_step srt (E_GetDataDependency name) ss = rmap (\<lambda>_. ss) (GetDataDependency name ss)"
| "server_step srt (E_SendNewInput i) ss = Inr (SendNewInput i ss)"
| "server_step srt (E_GetTasks name) ss = rmap snd (GetTasks name ss)"
| "server_step srt (E_GetBootTasks name) ss = rmap snd (GetBootTasks name ss)"
| "server_step srt (E_ReturnTasks msg) ss = ReturnTasks msg ss"
| "server_step srt (E_SendBootInput i) ss = Inr (SendBootInput i ss)"
| "server_step srt (E_SendUnstableInput ui) ss = SendUnstableInput ui ss"
| "server_step srt (E_SendLog l) ss = Inr (SendLog l ss)"
| "server_step srt (E_SendStat st) ss = Inr (SendStat st ss)"
| "server_step srt E_GetNeed ss = Inr ss"
| "server_step srt (E_SendNeedInput i) ss = Inr (SendNeedInput i ss)"
| "server_step srt (E_SetAddress a) ss = Inr (SetAddress a ss)"
| "server_step srt (E_SyncSignal n) ss = Inr (SyncSignal n ss)"
| "server_step srt (E_Update ck) ss = Update srt ck ss"

abbreviation server_start :: "'f Server \<Rightarrow> bool" where
  "server_start ss \<equiv> \<exists>ss0. ss = RunDependencyRPCServer ss0"

abbreviation server_steps :: "sort_slice \<Rightarrow> 'f::{plus,zero} Server \<Rightarrow> 'f Server \<Rightarrow> bool" where
  "server_steps srt ss ss' \<equiv> \<exists>ev. server_step srt ev ss = Inr ss'"

abbreviation reachable :: "sort_slice \<Rightarrow> 'f::{plus,zero} Server \<Rightarrow> bool" where
  "reachable srt \<equiv> reaches server_start (server_steps srt)"

lemmas handler_defs = SendNumberBasicBlock_def SendNumberBasicBlockCovered_def GetNewInput_def SendDependency_def
  Connect_def SendNewInput_def GetTasks_def GetBootTasks_def pickTask_def pickBootTask_def ReturnTasks_def
  SendBootInput_def SendUnstableInput_def SendLog_def SendStat_def SendNeedInput_def SetAddress_def SyncSignal_def

lemma rbind_rule: "rbind r f = Inr y \<Longrightarrow> (\<And>x. f x = Inr y \<Longrightarrow> P y) \<Longrightarrow> P y"
  by (auto simp: rbind_Inr_conv)

lemma pickTask_same: "pickTask name ss = Inr y \<Longrightarrow> same_data ss (snd y)"
proof (cases "go_get (sv_fuzzers ss) name")
  case None
  then show "pickTask name ss = Inr y \<Longrightarrow> same_data ss (snd y)"
    by (auto simp: pickTask_def Let_def same_data_def)
next
  case (Some f)
  then show "pickTask name ss = Inr y \<Longrightarrow> same_data ss (snd y)"
    unfolding pickTask_def Let_def Some option.case split_def
    by (elim rbind_rule) (auto simp: same_data_def coverage_of_def)
qed

lemma pick_same:
  "pickTask name ss = Inr (p, ss') \<Longrightarrow> same_data ss ss'"
  "pickBootTask name ss = Inr (b, ss') \<Longrightarrow> same_data ss ss'"
  by (auto dest: pickTask_same)
     (auto simp: pickBootTask_def Let_def res_conv same_data_def coverage_of_def split: option.splits)

lemma ReturnTasks_same: "ReturnTasks msg ss = Inr ss' \<Longrightarrow> same_data ss ss'"
  by (auto simp: ReturnTasks_def Let_def res_conv same_data_def coverage_of_def split: option.splits TaskKind.splits prod.splits)

lemma handler_same:
  assumes "server_step srt ev ss = Inr ss'" "\<And>ck. ev \<noteq> E_Update ck"
  shows "same_data ss ss'"
  using assms
proof (cases ev)
  case (E_GetTasks name)
  then show ?thesis using assms(1) by (auto simp: GetTasks_def res_conv dest: pick_same)
next
  case (E_GetBootTasks name)
  then show ?thesis using assms(1) by (auto simp: GetBootTasks_def res_conv dest: pick_same split: option.splits)
next
  case (E_ReturnTasks msg)
  then show ?thesis using assms(1) by (simp add: ReturnTasks_same)
next
  case (E_SendUnstableInput ui)
  then show ?thesis using assms(1) by (simp add: SendUnstableInput_def dra_consts same_data_def)
qed (use assms in \<open>auto simp: handler_defs Let_def res_conv same_data_def coverage_of_def split: if_splits\<close>)

lemma server_step_inv: "server_step srt ev ss = Inr ss' \<Longrightarrow> cov_inv ss \<Longrightarrow> cov_inv ss'"
  by (cases "\<exists>ck. ev = E_Update ck") (auto intro: Update_inv same_data_inv handler_same)

interpretation server: step_system server_start "server_steps srt" cov_inv for srt
proof unfold_locales
  show "server_start s \<Longrightarrow> cov_inv s" for s :: "'b Server"
    by (auto simp: cov_inv_def coverage_of_def RunDependencyRPCServer_def)
qed (blast intro: server_step_inv)

text \<open>
  C1: covered addresses stay out. In every state the server reaches, through any sequence
  of remote calls and updates, no address whose coverage was ever reported is among the
  uncovered addresses it makes tasks for.
\<close>

theorem reachable_coverage_disjoint:
  assumes "reachable srt ss"
  shows "set (go_keys (coverage_of ss)) \<inter> set (go_keys (dd_UncoveredAddress (sv_dataDependency ss))) = {}"
  using server.reaches_inv [OF assms] by (simp add: cov_inv_def)

text \<open>A server with one fuzzer connected; times are natural numbers here.\<close>

definition ex_blank :: "nat Server" where
  "ex_blank = \<lparr>sv_address = 0, sv_DependencyTask = True, sv_DependencyPriority = False, sv_NeedInput = False, sv_NeedBoot = False,
     sv_dataDependency = DataDependency_zero, sv_dataResult = \<lparr>res_CoveredAddress = None, res_FileOperations = None\<rparr>,
     sv_dataRunTime = DataRunTime_new,
     sv_stat = \<lparr>ss_SignalNum = 0, ss_NumberBasicBlock = 0, ss_NumberBasicBlockReal = 0, ss_NumberBasicBlockCovered = 0,
       ss_NumberBasicBlockUncovered = 0, ss_Coverage = \<lparr>cov_Coverage = None, cov_Time = []\<rparr>, ss_Stat = None, ss_UsefulInput = []\<rparr>,
     sv_fuzzers = None, sv_log = [], sv_newStat = [], sv_newDependency = [], sv_newInput = [], sv_needInput = [],
     sv_input = [], sv_coveredInput = [], sv_unstableInputs = None, sv_unstableInputsData = None, sv_store = empty_store\<rparr>"

definition ex_server :: "nat Server" where
  "ex_server = (RunDependencyRPCServer ex_blank)\<lparr>sv_fuzzers := Some [(''f'', \<lparr>fz_dataDependency = DataDependency_zero, fz_dataRunTime = DataRunTime_new\<rparr>)]\<rparr>"

theorem reachable_coverage_disjoint_witness:
  "\<exists>ss :: nat Server. reachable (\<lambda>less xs. xs) ss \<and> set (go_keys (coverage_of ss)) = {9}
    \<and> 9 \<notin> set (go_keys (dd_UncoveredAddress (sv_dataDependency ss)))"
proof -
  let ?s1 = "SendNewInput (ex_input 9) (RunDependencyRPCServer ex_blank)"
  let ?ck = "\<lparr>ck_elapsed = 0, ck_started = False, ck_new = False, ck_boot = False\<rparr> :: nat clock"
  have r1: "reachable (\<lambda>less xs. xs) ?s1"
    by (rule after_step [OF at_start]) (blast, intro exI [of _ "E_SendNewInput (ex_input 9)"], simp)
  have 1: "rmap (\<lambda>ss. go_keys (coverage_of ss)) (Update (\<lambda>less xs. xs) ?ck ?s1) = Inr [9]" by code_simp
  then obtain ss where ss: "Update (\<lambda>less xs. xs) ?ck ?s1 = Inr ss" "go_keys (coverage_of ss) = [9]"
    by (auto simp: rmap_Inr_conv)
  have r: "reachable (\<lambda>less xs. xs) ss"
    by (rule after_step [OF r1]) (intro exI [of _ "E_Update ?ck"], simp add: ss(1))
  from reachable_coverage_disjoint [OF r] ss(2) r show ?thesis by auto
qed

end
