(* ===== verification/Dra_Queues.thy ===== *)
theory Dra_Queues
  imports Dra_Update
begin

text \<open>
  What the queues between the server and its fuzzers guarantee: new inputs go to the
  analyser last in, first out; tasks go to a fuzzer in the order of its queue, a few at a
  time and none twice; returned tasks are all collected; and what \<open>Update\<close> hands out is
  bounded and aims only at addresses that are still uncovered.
\<close>

section \<open>New inputs\<close>

primrec drain_inputs :: "nat \<Rightarrow> 'f Server \<Rightarrow> Input list \<times> 'f Server" where
  "drain_inputs 0 ss = ([], ss)"
| "drain_inputs (Suc n) ss = (let (r, ss1) = GetNewInput ss; (rs, ss2) = drain_inputs n ss1 in (r @ rs, ss2))"

lemma drain_inputs_conv:
  "drain_inputs n ss = (map (\<lambda>i. i\<lparr>i_Paths := []\<rparr>) (take n (rev (sv_newInput ss))),
     ss\<lparr>sv_newInput := take (length (sv_newInput ss) - n) (sv_newInput ss),
        sv_input := sv_input ss @ take n (rev (sv_newInput ss))\<rparr>)"
proof (induction n arbitrary: ss)
  case 0
  then show ?case by simp
next
  case (Suc n)
  show ?case
  proof (cases "sv_newInput ss" rule: rev_cases)
    case Nil
    then show ?thesis by (simp add: Suc.IH GetNewInput_def)
  next
    case (snoc q i)
    then show ?thesis by (simp add: Suc.IH GetNewInput_def Let_def)
  qed
qed

text \<open>
  The queue of new inputs is a stack. \<open>n\<close> calls of \<open>GetNewInput\<close> hand the analyser the
  last \<open>n\<close> inputs that were sent, latest first and without their paths; exactly these, with
  their paths, are queued for \<open>Update\<close>, and the others stay. The inputs that were sent with
  \<open>SendNewInput\<close> are all queued for the coverage as well.
\<close>

lemma new_inputs_stack:
  "drain_inputs n (fold SendNewInput is ss) =
    (map (\<lambda>i. i\<lparr>i_Paths := []\<rparr>) (take n (rev (sv_newInput ss @ is))),
     ss\<lparr>sv_newInput := take (length (sv_newInput ss @ is) - n) (sv_newInput ss @ is),
        sv_input := sv_input ss @ take n (rev (sv_newInput ss @ is)),
        sv_coveredInput := sv_coveredInput ss @ is\<rparr>)"
proof -
  have "fold SendNewInput is ss = ss\<lparr>sv_newInput := sv_newInput ss @ is, sv_coveredInput := sv_coveredInput ss @ is\<rparr>"
    by (induction "is" arbitrary: ss) (simp_all add: SendNewInput_def)
  then show ?thesis by (simp add: drain_inputs_conv)
qed

section \<open>Tasks for a fuzzer\<close>

definition fuzzer_queue :: "string \<Rightarrow> 'f Server \<Rightarrow> Tasks" where
  "fuzzer_queue name ss = (case go_get (sv_fuzzers ss) name of
     Some f \<Rightarrow> dr_Tasks (fz_dataRunTime f) | None \<Rightarrow> Tasks_new name TaskKind_Normal)"

text \<open>A fuzzer that is connected and whose high-priority queue is empty, as it always is.\<close>

definition fuzzer_ready :: "string \<Rightarrow> 'f Server \<Rightarrow> bool" where
  "fuzzer_ready name ss \<longleftrightarrow> (\<exists>f. go_get (sv_fuzzers ss) name = Some f
     \<and> ts_TaskArray (dr_HighTask (fz_dataRunTime f)) = [] \<and> wf_tasks (sv_store ss) (dr_Tasks (fz_dataRunTime f)))"

definition pick_hashes :: "string \<Rightarrow> 'f Server \<Rightarrow> ('f Server \<times> string list) res" where
  "pick_hashes name ss = rmap (\<lambda>(p, ss'). (ss', hashes (sv_store ss') p)) (pickTask name ss)"

abbreviation queued :: "string \<Rightarrow> 'f Server \<Rightarrow> string list" where
  "queued name ss \<equiv> hashes (sv_store ss) (fuzzer_queue name ss)"

lemma pickTask_ok:
  assumes "fuzzer_ready name ss"
  shows "\<exists>p ss'. pickTask name ss = Inr (p, ss') \<and> fuzzer_ready name ss'
    \<and> hashes (sv_store ss') p = take TaskQueueNumber (queued name ss)
    \<and> queued name ss' = drop TaskQueueNumber (queued name ss)"
proof -
  from assms obtain f where f: "go_get (sv_fuzzers ss) name = Some f"
    "ts_TaskArray (dr_HighTask (fz_dataRunTime f)) = []" "wf_tasks (sv_store ss) (dr_Tasks (fz_dataRunTime f))"
    by (auto simp: fuzzer_ready_def)
  let ?q = "dr_Tasks (fz_dataRunTime f)"
  have q: "fuzzer_queue name ss = ?q" using f(1) by (simp add: fuzzer_queue_def)
  show ?thesis
  proof (cases "ts_TaskArray ?q = []")
    case True
    have "pickTask name ss = Inr (Tasks_new name TaskKind_Normal,
        ss\<lparr>sv_fuzzers := go_set name f (sv_fuzzers ss)\<rparr>)"
      using f True by (simp add: pickTask_def Let_def)
    moreover have "hashes (sv_store ss) (Tasks_new name TaskKind_Normal) = []" "queued name ss = []"
      using True q by (simp_all add: hashes_def Tasks_new_def)
    ultimately show ?thesis using f True by (auto simp: fuzzer_ready_def fuzzer_queue_def hashes_def)
  next
    case False
    define n where "n = (if length (ts_TaskArray ?q) > TaskQueueNumber then TaskQueueNumber else length (ts_TaskArray ?q))"
    have "n \<le> length (ts_TaskArray ?q)" by (simp add: n_def)
    from pop_tasks_ok [OF f(3) this] obtain q' p st' where
      p: "pop_tasks n (?q, sv_store ss) = Inr (q', p, st')" "hview st' = hview (sv_store ss)" "wf_tasks st' q'"
        "ts_TaskArray q' = drop n (ts_TaskArray ?q)" "ts_TaskArray p = take n (ts_TaskArray ?q)" by blast
    have pop: "pop_some (?q, sv_store ss) = Inr (q', p, st')" using p(1) by (simp add: pop_some_def n_def Let_def)
    let ?f = "f\<lparr>fz_dataRunTime := (fz_dataRunTime f)\<lparr>dr_HighTask := dr_HighTask (fz_dataRunTime f), dr_Tasks := q'\<rparr>\<rparr>"
    have r: "pickTask name ss = Inr (p, ss\<lparr>sv_fuzzers := go_set name ?f (sv_fuzzers ss), sv_store := st'\<rparr>)"
      using f(1,2) False pop by (simp add: pickTask_def Let_def)
    have t: "take n (ts_TaskArray ?q) = take TaskQueueNumber (ts_TaskArray ?q)"
      "drop n (ts_TaskArray ?q) = drop TaskQueueNumber (ts_TaskArray ?q)" by (auto simp: n_def)
    have "hashes st' p = take TaskQueueNumber (queued name ss)" "hashes st' q' = drop TaskQueueNumber (queued name ss)"
      unfolding hashes_def p(2,4,5) t q by (simp_all add: take_map drop_map)
    then show ?thesis using r p(3) f(2) by (simp add: fuzzer_ready_def fuzzer_queue_def)
  qed
qed

text \<open>The queue of a fuzzer behaves like the queue of the interface, popped by its own rule.\<close>

lemma picks_server:
  assumes "fuzzer_ready name ss"
  shows "\<exists>ss'. picks (pick_hashes name) n ss = Inr (ss', take (n * TaskQueueNumber) (queued name ss))
    \<and> fuzzer_ready name ss' \<and> queued name ss' = drop (n * TaskQueueNumber) (queued name ss)"
  using assms
proof (induction n arbitrary: ss)
  case 0
  then show ?case by simp
next
  case (Suc n)
  from pickTask_ok [OF Suc.prems] obtain p ss1 where
    1: "pickTask name ss = Inr (p, ss1)" "fuzzer_ready name ss1" "hashes (sv_store ss1) p = take TaskQueueNumber (queued name ss)"
      "queued name ss1 = drop TaskQueueNumber (queued name ss)" by blast
  from Suc.IH [OF 1(2)] obtain ss' where
    "picks (pick_hashes name) n ss1 = Inr (ss', take (n * TaskQueueNumber) (queued name ss1))"
    "fuzzer_ready name ss'" "queued name ss' = drop (n * TaskQueueNumber) (queued name ss1)" by blast
  moreover have "pick_hashes name ss = Inr (ss1, take TaskQueueNumber (queued name ss))"
    using 1(1,3) by (simp add: pick_hashes_def)
  ultimately show ?case using 1(4) by (simp add: take_add [symmetric] add.commute)
qed

text \<open>
  C35: tasks reach a fuzzer in order and once. \<open>n\<close> calls of \<open>GetTasks\<close> hand out the first
  \<open>n * TaskQueueNumber\<close> tasks of its queue, in the order of the queue, all different, and
  leave the rest; enough calls hand out everything.
\<close>

theorem GetTasks_in_order:
  assumes "fuzzer_ready name ss"
  shows "\<exists>ss' hs. picks (pick_hashes name) n ss = Inr (ss', hs) \<and> fuzzer_ready name ss'
    \<and> hs @ queued name ss' = queued name ss \<and> distinct hs \<and> length hs = min (n * TaskQueueNumber) (length (queued name ss))"
proof -
  have "distinct (queued name ss)"
    using assms by (auto simp: fuzzer_ready_def fuzzer_queue_def intro: distinct_hashes)
  then show ?thesis using picks_server [OF assms, of n] by (auto simp: distinct_take min_def)
qed

definition ex_busy :: "nat Server" where
  "ex_busy = ex_server\<lparr>sv_store := ex_store, sv_fuzzers := Some [(''f'', \<lparr>fz_dataDependency = DataDependency_zero,
     fz_dataRunTime = DataRunTime_new\<lparr>dr_Tasks := ex_tasks\<rparr>\<rparr>)]\<rparr>"

lemma ex_tasks_wf: "wf_tasks ex_store ex_tasks" "hashes ex_store ex_tasks = [''s00'', ''s10'']" "wf_store ex_store"
proof -
  have "task_hash (ex_task None None) = ''s00''" "task_hash ((ex_task None None)\<lparr>t_Index := 1\<rparr>) = ''s10''"
    by code_simp+
  then have h: "hview ex_store 0 = Some ''s00''" "hview ex_store 1 = Some ''s10''"
    by (simp_all add: hview_def ex_store_def)
  then show "wf_tasks ex_store ex_tasks"
    by (simp add: wf_tasks_def ex_tasks_def wfm_def go_keys_def go_get_def) (auto split: if_splits intro: gr0I)
  show "hashes ex_store ex_tasks = [''s00'', ''s10'']" using h by (simp add: hashes_def ex_tasks_def)
  show "wf_store ex_store" by (simp add: wf_store_def ex_store_def)
qed

theorem GetTasks_in_order_witness:
  "\<exists>ss'. picks (pick_hashes ''f'') 1 ex_busy = Inr (ss', [''s00'', ''s10'']) \<and> queued ''f'' ss' = []"
proof -
  have r: "fuzzer_ready ''f'' ex_busy"
    using ex_tasks_wf by (simp add: fuzzer_ready_def ex_busy_def go_get_def DataRunTime_new_def Tasks_new_def)
  have q: "queued ''f'' ex_busy = [''s00'', ''s10'']"
    using ex_tasks_wf(2) by (simp add: fuzzer_queue_def ex_busy_def go_get_def)
  from GetTasks_in_order [OF r, of 1] obtain ss' hs where
    1: "picks (pick_hashes ''f'') 1 ex_busy = Inr (ss', hs)" "hs @ queued ''f'' ss' = [''s00'', ''s10'']" "length hs = 2"
    unfolding q by (auto simp: dra_consts)
  then have "hs = [''s00'', ''s10'']" "queued ''f'' ss' = []" by (auto simp: append_eq_Cons_conv)
  with 1(1) show ?thesis by blast
qed

section \<open>Returned tasks\<close>

lemma alloc_all_ok:
  assumes "wf_store st"
  shows "\<exists>rs st'. alloc_all ts st = (rs, st') \<and> hext st st' \<and> wf_store st' \<and> map (hview st') rs = map (Some \<circ> task_hash) ts"
proof -
  have "\<exists>rs st'. fold (\<lambda>t (rs, st). let (r, st') = new_task t st in (rs @ [r], st')) ts (rs0, st) = (rs0 @ rs, st')
      \<and> hext st st' \<and> wf_store st' \<and> map (hview st') rs = map (Some \<circ> task_hash) ts" for rs0
    using assms
  proof (induction ts arbitrary: rs0 st)
    case Nil
    then show ?case by auto
  next
    case (Cons t ts)
    obtain r st1 where n: "new_task t st = (r, st1)" by (cases "new_task t st")
    note h = hext_new_task [OF Cons.prems n]
    then have "wf_store st1" using Cons.prems by (auto simp: hext_def)
    from Cons.IH [OF this, of "rs0 @ [r]"] obtain rs st' where
      1: "fold (\<lambda>t (rs, st). let (r, st') = new_task t st in (rs @ [r], st')) ts (rs0 @ [r], st1) = ((rs0 @ [r]) @ rs, st')"
        "hext st1 st'" "wf_store st'" "map (hview st') rs = map (Some \<circ> task_hash) ts" by blast
    have "hview st' r = Some (task_hash t)" using h 1(2) by (auto simp: hext_def)
    with 1 n h show ?case by (auto intro: hext_trans)
  qed
  from this [of "[]"] show ?thesis by (simp add: alloc_all_def)
qed

lemma AddTasks_ok:
  assumes "wf_tasks st q" "\<forall>r \<in> set (map snd (go_range (ts_TaskMap t)) @ ts_TaskArray t). hview st r \<noteq> None"
  shows "\<exists>q' st'. AddTasks t (q, st) = Inr (q', st') \<and> wf_tasks st' q' \<and> hview st' = hview st
    \<and> set (hashes st' q') = set (hashes st q) \<union> (the \<circ> hview st) ` set (map snd (go_range (ts_TaskMap t)) @ ts_TaskArray t)"
proof -
  have "AddTasks t s = rfold AddTask (map snd (go_range (ts_TaskMap t)) @ ts_TaskArray t) s" for s
    by (simp add: AddTasks_def rfold_append)
  with tq.add_all_ok [of "(q, st)" "map snd (go_range (ts_TaskMap t)) @ ts_TaskArray t"] assms show ?thesis
    by (fastforce simp: q_invar_def)
qed

text \<open>
  Every task a fuzzer returns is collected. For a connected fuzzer with a well-formed
  container \<open>ReturnTasks\<close> does not abort, and afterwards the container holds, besides what
  it held, exactly the tasks of the message, each hash once; the containers of every other
  task queue stay well-formed. An unknown fuzzer aborts the server.
\<close>

lemma ReturnTasks_collects:
  assumes "go_get (sv_fuzzers ss) (tk_Name msg) = Some f" and "tk_Kind msg \<noteq> TaskKind_Boot"
    and "wf_tasks (sv_store ss) (dr_Return (fz_dataRunTime f))" and "wf_store (sv_store ss)"
  shows "\<exists>ss' f'. ReturnTasks msg ss = Inr ss' \<and> go_get (sv_fuzzers ss') (tk_Name msg) = Some f'
    \<and> wf_tasks (sv_store ss') (dr_Return (fz_dataRunTime f'))
    \<and> set (hashes (sv_store ss') (dr_Return (fz_dataRunTime f'))) = set (hashes (sv_store ss) (dr_Return (fz_dataRunTime f)))
        \<union> task_hash ` (set (map snd (go_range (tk_TaskMap msg))) \<union> set (tk_TaskArray msg))
    \<and> (\<forall>q. wf_tasks (sv_store ss) q \<longrightarrow> wf_tasks (sv_store ss') q)"
proof -
  from alloc_all_ok [OF assms(4), of "map snd (go_range (tk_TaskMap msg))"] obtain rm st1 where
    1: "alloc_all (map snd (go_range (tk_TaskMap msg))) (sv_store ss) = (rm, st1)" "hext (sv_store ss) st1" "wf_store st1"
      "map (hview st1) rm = map (Some \<circ> task_hash) (map snd (go_range (tk_TaskMap msg)))" by blast
  from alloc_all_ok [OF 1(3), of "tk_TaskArray msg"] obtain ra st2 where
    2: "alloc_all (tk_TaskArray msg) st1 = (ra, st2)" "hext st1 st2" "wf_store st2"
      "map (hview st2) ra = map (Some \<circ> task_hash) (tk_TaskArray msg)" by blast
  have len: "length (go_keys (tk_TaskMap msg)) = length rm"
    using arg_cong [OF 1(4), of length] by (simp add: go_keys_def)
  have e: "hext (sv_store ss) st2" using 1(2) 2(2) by (rule hext_trans)
  have rm: "map (hview st2) rm = map (Some \<circ> task_hash) (map snd (go_range (tk_TaskMap msg)))"
  proof -
    have "hview st2 r = hview st1 r" if "r \<in> set rm" for r
    proof -
      from that have "hview st1 r \<in> set (map (hview st1) rm)" by simp
      then have "hview st1 r \<noteq> None" unfolding 1(4) by auto
      then show ?thesis using 2(2) by (simp add: hext_def)
    qed
    then show ?thesis unfolding 1(4) [symmetric] by simp
  qed
  define t where "t = \<lparr>ts_Name = tk_Name msg, ts_Kind = tk_Kind msg, ts_TaskMap = Some (zip (go_keys (tk_TaskMap msg)) rm), ts_TaskArray = ra\<rparr>"
  have load: "load_tasks msg (sv_store ss) = (t, st2)" using 1(1) 2(1) by (simp add: load_tasks_def t_def)
  have refs: "map snd (go_range (ts_TaskMap t)) @ ts_TaskArray t = rm @ ra" using len by (simp add: t_def)
  have hv: "map (hview st2) (rm @ ra) = map (Some \<circ> task_hash) (map snd (go_range (tk_TaskMap msg)) @ tk_TaskArray msg)"
    using rm 2(4) by simp
  have nn: "\<forall>r \<in> set (rm @ ra). hview st2 r \<noteq> None"
  proof
    fix r assume "r \<in> set (rm @ ra)"
    then have "hview st2 r \<in> set (map (hview st2) (rm @ ra))" by (metis image_eqI list.set_map)
    then show "hview st2 r \<noteq> None" unfolding hv by auto
  qed
  have wf2: "wf_tasks st2 (dr_Return (fz_dataRunTime f))" using hext_wf_tasks [OF e assms(3)] .
  from AddTasks_ok [OF wf2, of t] nn obtain q' st' where
    q': "AddTasks t (dr_Return (fz_dataRunTime f), st2) = Inr (q', st')" "wf_tasks st' q'" "hview st' = hview st2"
      "set (hashes st' q') = set (hashes st2 (dr_Return (fz_dataRunTime f))) \<union> (the \<circ> hview st2) ` set (rm @ ra)"
    unfolding refs by blast
  have im: "(the \<circ> hview st2) ` set (rm @ ra) = task_hash ` (set (map snd (go_range (tk_TaskMap msg))) \<union> set (tk_TaskArray msg))"
  proof -
    have "map (the \<circ> hview st2) (rm @ ra) = map task_hash (map snd (go_range (tk_TaskMap msg)) @ tk_TaskArray msg)"
      using arg_cong [OF hv, of "map the"] by simp
    from arg_cong [OF this, of set] show ?thesis by (simp add: image_Un image_image)
  qed
  let ?f = "f\<lparr>fz_dataRunTime := (fz_dataRunTime f)\<lparr>dr_Return := q'\<rparr>\<rparr>"
  have "ReturnTasks msg ss = Inr (ss\<lparr>sv_fuzzers := go_set (tk_Name msg) ?f (sv_fuzzers ss), sv_store := st'\<rparr>)"
    using assms(1,2) load q'(1) unfolding ReturnTasks_def Let_def
    by (cases "tk_Kind msg") (simp_all add: t_def)
  moreover have "hashes st2 (dr_Return (fz_dataRunTime f)) = hashes (sv_store ss) (dr_Return (fz_dataRunTime f))"
    using e assms(3) by (rule hext_hashes)
  moreover have "wf_tasks (sv_store ss) q \<longrightarrow> wf_tasks st' q" for q
    using hext_wf_tasks [OF e, of q] wf_tasks_cong [OF q'(3), of q] by simp
  ultimately show ?thesis using q'(2,4) im by simp
qed

lemma ReturnTasks_collects_witness:
  "\<exists>ss' f'. ReturnTasks \<lparr>tk_Name = ''f'', tk_Kind = TaskKind_Normal, tk_TaskMap = None, tk_TaskArray = [ex_task None None]\<rparr> ex_busy = Inr ss'
    \<and> go_get (sv_fuzzers ss') ''f'' = Some f' \<and> set (hashes (sv_store ss') (dr_Return (fz_dataRunTime f'))) = {''s00''}"
proof -
  let ?msg = "\<lparr>tk_Name = ''f'', tk_Kind = TaskKind_Normal, tk_TaskMap = None, tk_TaskArray = [ex_task None None]\<rparr>"
  have f: "go_get (sv_fuzzers ex_busy) (tk_Name ?msg) = Some \<lparr>fz_dataDependency = DataDependency_zero,
      fz_dataRunTime = DataRunTime_new\<lparr>dr_Tasks := ex_tasks\<rparr>\<rparr>" by (simp add: ex_busy_def go_get_def)
  have h: "task_hash (ex_task None None) = ''s00''" by code_simp
  have s: "wf_store (sv_store ex_busy)" using ex_tasks_wf(3) by (simp add: ex_busy_def)
  from ReturnTasks_collects [OF f _ _ s] show ?thesis
    by (simp add: DataRunTime_new_def h hashes_def) (auto simp: Tasks_new_def)
qed

section \<open>What Update hands out\<close>

text \<open>A task worth handing out: it has uncovered addresses, all of them still uncovered.\<close>

definition worthy :: "DataDependency \<Rightarrow> Task \<Rightarrow> bool" where
  "worthy m t \<longleftrightarrow> go_keys (t_UncoveredAddress t) \<noteq> [] \<and> set (go_keys (t_UncoveredAddress t)) \<subseteq> set (go_keys (dd_UncoveredAddress m))"

definition all_worthy :: "DataDependency \<Rightarrow> task_store \<Rightarrow> ref list \<Rightarrow> bool" where
  "all_worthy m st rs \<longleftrightarrow> (\<forall>r \<in> set rs. \<exists>t. heap st r = Some t \<and> worthy m t)"

text \<open>
  A step of the store after which existing tasks have their hashes, and worthy tasks are
  still worthy.
\<close>

definition wext :: "DataDependency \<Rightarrow> task_store \<Rightarrow> task_store \<Rightarrow> bool" where
  "wext m st st' \<longleftrightarrow> hext st st' \<and> (\<forall>r t. heap st r = Some t \<longrightarrow> worthy m t \<longrightarrow> (\<exists>t'. heap st' r = Some t' \<and> worthy m t'))"

lemma wext_refl [simp]: "wext m st st"
  by (auto simp: wext_def)

lemma wext_trans:
  assumes "wext m st st'" "wext m st' st''"
  shows "wext m st st''"
proof -
  have "\<exists>t'. heap st'' r = Some t' \<and> worthy m t'" if "heap st r = Some t" "worthy m t" for r t
    using that assms unfolding wext_def by blast
  moreover have "hext st st''" using assms hext_trans unfolding wext_def by blast
  ultimately show ?thesis unfolding wext_def by blast
qed

lemma wext_worthy: "wext m st st' \<Longrightarrow> all_worthy m st rs \<Longrightarrow> all_worthy m st' rs"
  unfolding wext_def all_worthy_def by blast

lemma wext_wf: "wext m st st' \<Longrightarrow> wf_store st \<Longrightarrow> wf_store st'"
  by (simp add: wext_def hext_def)

lemma wext_assign:
  assumes "heap st r = Some t" "task_hash t' = task_hash t" "worthy m t \<Longrightarrow> worthy m t'"
  shows "wext m st (assign r t' st)"
  using assms hext_assign [OF assms(1,2)] unfolding wext_def by (auto simp: assign_def)

lemma wext_new:
  assumes "wf_store st" "new_task t st = (r, st')"
  shows "wext m st st' \<and> heap st' r = Some t"
proof -
  note h = hext_new_task [OF assms]
  have "heap st r = None" using h by (auto simp: hview_def)
  then have "\<exists>t'. heap st' r' = Some t' \<and> worthy m t'" if "heap st r' = Some t0" "worthy m t0" for r' t0
    using h that by (cases "r' = r") auto
  then show ?thesis using h by (auto simp: wext_def)
qed

lemma go_keys_filter_conv: "go_keys (go_filter P m) = filter P (go_keys m)"
  by (cases m) (auto simp: go_keys_def go_filter_def filter_map comp_def split_def)

lemma worthy_prune:
  "worthy m (prune m t) \<longleftrightarrow> go_keys (t_UncoveredAddress (prune m t)) \<noteq> []"
  "worthy m t \<Longrightarrow> worthy m (prune m t)"
  by (auto simp: worthy_def prune_def go_keys_filter_conv filter_empty_conv)
     (metis last_in_set subsetD)

lemma task_hash_sel [simp]:
  "task_hash (prune m t) = task_hash t" "task_hash (t\<lparr>t_TaskStatus := s\<rparr>) = task_hash t"
  "task_hash (reducePriority t) = task_hash t" "task_hash (t\<lparr>t_TaskRunTimeData := d\<rparr>) = task_hash t"
  by (simp_all add: prune_def reducePriority_def task_hash_def computed_hash_def)

lemma worthy_sel [simp]:
  "worthy m (t\<lparr>t_TaskStatus := s\<rparr>) = worthy m t" "worthy m (reducePriority t) = worthy m t"
  "worthy m (t\<lparr>t_TaskRunTimeData := d\<rparr>) = worthy m t" "worthy m (t\<lparr>t_Hash := h\<rparr>) = worthy m t"
  by (simp_all add: worthy_def reducePriority_def)

lemma go_len_keys: "go_len m > 0 \<longleftrightarrow> go_keys m \<noteq> []"
  by (simp add: go_len_def go_keys_def)

text \<open>One turn of the loop of \<open>choose_tasks\<close> on a task that exists.\<close>

lemma choose_one:
  assumes wf: "wf_store st" and r: "hview st r \<noteq> None" and tasks: "all_worthy m st task"
  shows "\<exists>task' st'. wext m st st' \<and> wf_store st' \<and> all_worthy m st' task' \<and> length task' \<le> Suc (length task)
    \<and> (choose_tasks m (r # rs) (task, st) = Inr (task', st') \<or>
       choose_tasks m (r # rs) (task, st) = choose_tasks m rs (task', st')
         \<and> (length task \<le> TaskQueueNumber \<longrightarrow> length task' \<le> TaskQueueNumber))"
proof -
  obtain t0 where t0: "heap st r = Some t0" using r by (auto simp: hview_def)
  define t where "t = prune m t0"
  define st1 where "st1 = assign r t st"
  have e1: "wext m st st1" unfolding st1_def t_def
    by (rule wext_assign [OF t0]) (simp_all add: worthy_prune(2))
  have wf1: "wf_store st1" using wext_wf [OF e1 wf] .
  have tr: "heap st1 r = Some t" by (simp add: st1_def assign_def)
  have w1: "all_worthy m st1 task" using wext_worthy [OF e1 tasks] .
  have p: "prune_at m r st = Inr st1" "deref st1 r = Inr t"
    using t0 tr by (simp_all add: prune_at_def deref_def st1_def t_def)
  show ?thesis
  proof (cases "go_len (t_UncoveredAddress t) > 0")
    case False
    then have "choose_tasks m (r # rs) (task, st) = choose_tasks m rs (task, st1)"
      using p by (simp only: choose_tasks.simps rbind_simps if_False)
    then show ?thesis using e1 wf1 w1 by (intro exI [of _ task] exI [of _ st1]) simp
  next
    case True
    then have wt: "worthy m t" by (simp add: t_def worthy_prune(1) go_len_keys)
    consider (u) "t_TaskStatus t = TaskStatus_untested"
      | (a) "t_TaskStatus t \<noteq> TaskStatus_untested" "t_TaskStatus t < TaskStatus_tested \<and> t_Count t < TaskCountLimitation"
      | (n) "t_TaskStatus t \<noteq> TaskStatus_untested" "\<not> (t_TaskStatus t < TaskStatus_tested \<and> t_Count t < TaskCountLimitation)"
      by blast
    then show ?thesis
    proof cases
      case u
      define t' where "t' = reducePriority (t\<lparr>t_TaskStatus := TaskStatus_testing\<rparr>)"
      have e2: "wext m st1 (assign r t' st1)" by (rule wext_assign [OF tr]) (simp_all add: t'_def)
      obtain r' st2 where n: "new_task t' (assign r t' st1) = (r', st2)" by (cases "new_task t' (assign r t' st1)")
      note e3 = wext_new [OF wext_wf [OF e2 wf1] n, of m]
      have e: "wext m st st2" using e1 e2 e3 wext_trans by blast
      have "all_worthy m st2 (task @ [r'])"
        using wext_worthy [OF e tasks] e3 wt by (auto simp: all_worthy_def t'_def)
      moreover have "choose_tasks m (r # rs) (task, st) = (if length (task @ [r']) > TaskQueueNumber then Inr (task @ [r'], st2)
          else choose_tasks m rs (task @ [r'], st2))"
        using p True u n by (simp add: t'_def Let_def)
      ultimately show ?thesis using e wext_wf [OF e wf] by (intro exI [of _ "task @ [r']"] exI [of _ st2]) auto
    next
      case a
      have e2: "wext m st1 (assign r (reducePriority t) st1)" by (rule wext_assign [OF tr]) simp_all
      have e: "wext m st (assign r (reducePriority t) st1)" using e1 e2 wext_trans by blast
      have "all_worthy m (assign r (reducePriority t) st1) (task @ [r])"
        using wext_worthy [OF e tasks] wt by (auto simp: all_worthy_def assign_def)
      moreover have "choose_tasks m (r # rs) (task, st) = (if length (task @ [r]) > TaskQueueNumber
          then Inr (task @ [r], assign r (reducePriority t) st1) else choose_tasks m rs (task @ [r], assign r (reducePriority t) st1))"
        using p True a by (simp add: Let_def)
      ultimately show ?thesis using e wext_wf [OF e wf]
        by (intro exI [of _ "task @ [r]"] exI [of _ "assign r (reducePriority t) st1"]) auto
    next
      case n
      have "choose_tasks m (r # rs) (task, st) = (if length task > TaskQueueNumber then Inr (task, st1) else choose_tasks m rs (task, st1))"
        using p True n by (simp add: Let_def) blast
      then show ?thesis using e1 wf1 w1 by (intro exI [of _ task] exI [of _ st1]) auto
    qed
  qed
qed

lemma choose_tasks_ok:
  assumes "wf_store st" "\<forall>r \<in> set rs. hview st r \<noteq> None" "all_worthy m st task" "length task \<le> TaskQueueNumber"
  shows "\<exists>task' st'. choose_tasks m rs (task, st) = Inr (task', st') \<and> wext m st st' \<and> wf_store st'
    \<and> all_worthy m st' task' \<and> length task' \<le> Suc TaskQueueNumber"
  using assms
proof (induction rs arbitrary: task st)
  case Nil
  then show ?case by simp
next
  case (Cons r rs)
  have "hview st r \<noteq> None" using Cons.prems(2) by simp
  from choose_one [OF Cons.prems(1) this Cons.prems(3), of rs] obtain task1 st1 where
    1: "wext m st st1" "wf_store st1" "all_worthy m st1 task1" "length task1 \<le> Suc (length task)"
      "choose_tasks m (r # rs) (task, st) = Inr (task1, st1) \<or>
       choose_tasks m (r # rs) (task, st) = choose_tasks m rs (task1, st1) \<and> length task1 \<le> TaskQueueNumber"
    using Cons.prems(4) by blast
  from 1(5) show ?case
  proof
    assume "choose_tasks m (r # rs) (task, st) = Inr (task1, st1)"
    with 1 Cons.prems(4) show ?thesis by auto
  next
    assume c: "choose_tasks m (r # rs) (task, st) = choose_tasks m rs (task1, st1) \<and> length task1 \<le> TaskQueueNumber"
    have "\<forall>r \<in> set rs. hview st1 r \<noteq> None"
      using Cons.prems(2) 1(1) by (auto simp: wext_def hext_def)
    from Cons.IH [OF 1(2) this 1(3)] c 1(1) show ?thesis by (auto intro: wext_trans)
  qed
qed

lemma clear_all_ok:
  assumes "wf_store st" "all_worthy m st task"
  shows "\<exists>st'. rfold clear_run_data task st = Inr st' \<and> wf_store st' \<and> all_worthy m st' task"
proof -
  have "\<exists>st'. rfold clear_run_data task st = Inr st' \<and> (wf_store st' \<and> all_worthy m st' task)"
  proof (rule rfold_total)
    fix r st
    assume r: "r \<in> set task" and s: "wf_store st \<and> all_worthy m st task"
    then obtain t where t: "heap st r = Some t" by (auto simp: all_worthy_def)
    have "wext m st (assign r (t\<lparr>t_TaskRunTimeData := []\<rparr>) st)" by (rule wext_assign [OF t]) simp_all
    then show "\<exists>st'. clear_run_data r st = Inr st' \<and> (wf_store st' \<and> all_worthy m st' task)"
      using s t wext_wf wext_worthy by (auto simp: clear_run_data_def deref_def)
  qed (use assms in simp)
  then show ?thesis by blast
qed

lemma AddTask_wext:
  assumes "wf_tasks st q" "heap st r = Some t" "worthy m t" "all_worthy m st (ts_TaskArray q)"
  shows "\<exists>q' st'. AddTask r (q, st) = Inr (q', st') \<and> wf_tasks st' q' \<and> wext m st st'
    \<and> all_worthy m st' (ts_TaskArray q') \<and> length (ts_TaskArray q') \<le> Suc (length (ts_TaskArray q))"
proof -
  have h: "hview st r = Some (task_hash t)" using assms(2) by (simp add: hview_def)
  from AddTask_ok [OF assms(1) h] obtain q' st' where
    a: "AddTask r (q, st) = Inr (q', st')" "wf_tasks st' q'"
      "ts_TaskArray q' = (if task_hash t \<in> set (hashes st q) then ts_TaskArray q else ts_TaskArray q @ [r])" by blast
  have "ComputeHash t = (task_hash t, t\<lparr>t_Hash := task_hash t\<rparr>)" by (simp add: ComputeHash_def task_hash_def)
  then have "compute_hash_at r st = Inr (task_hash t, assign r (t\<lparr>t_Hash := task_hash t\<rparr>) st)"
    using assms(2) by (simp add: compute_hash_at_def deref_def)
  then have st': "st' = assign r (t\<lparr>t_Hash := task_hash t\<rparr>) st"
    using a(1) by (auto simp: AddTask_def Let_def rbind_Inr_conv split: if_splits)
  then have e: "wext m st st'" unfolding st' by (intro wext_assign [OF assms(2)]) simp_all
  have "all_worthy m st' (ts_TaskArray q @ [r])"
    using wext_worthy [OF e assms(4)] assms(3) by (auto simp: all_worthy_def st' assign_def)
  then have "all_worthy m st' (ts_TaskArray q')" unfolding a(3) by (simp add: all_worthy_def)
  with a e show ?thesis by auto
qed

definition handed :: "DataDependency \<Rightarrow> nat \<Rightarrow> DataRunTime \<Rightarrow> task_store \<Rightarrow> bool" where
  "handed m n dr st \<longleftrightarrow> wf_tasks st (dr_Tasks dr) \<and> all_worthy m st (ts_TaskArray (dr_Tasks dr))
     \<and> length (ts_TaskArray (dr_Tasks dr)) \<le> n"

lemma handed_wext: "wext m st st' \<Longrightarrow> handed m n dr st \<Longrightarrow> handed m n dr st'"
  unfolding handed_def using wext_worthy hext_wf_tasks wext_def by blast

lemma add_clones_ok:
  assumes "wf_store st" "all_worthy m st task"
  shows "\<exists>q st'. rfold add_clone task (emptyTask q0, st) = Inr (q, st') \<and> wext m st st' \<and> wf_store st'
    \<and> all_worthy m st' (ts_TaskArray q) \<and> wf_tasks st' q \<and> length (ts_TaskArray q) \<le> length task"
proof -
  have "\<exists>q' st'. rfold add_clone rs (q, st) = Inr (q', st') \<and> wext m st st' \<and> wf_store st'
    \<and> all_worthy m st' (ts_TaskArray q') \<and> wf_tasks st' q' \<and> length (ts_TaskArray q') \<le> length (ts_TaskArray q) + length rs"
    if "wf_store st" "all_worthy m st rs" "all_worthy m st (ts_TaskArray q)" "wf_tasks st q" for rs q st
    using that
  proof (induction rs arbitrary: q st)
    case Nil
    then show ?case by simp
  next
    case (Cons r rs)
    then obtain t where t: "heap st r = Some t" "worthy m t" by (auto simp: all_worthy_def)
    obtain r' st1 where n: "new_task t st = (r', st1)" by (cases "new_task t st")
    note e1 = wext_new [OF Cons.prems(1) n, of m]
    have "wf_tasks st1 q" using e1 Cons.prems(4) hext_wf_tasks by (auto simp: wext_def)
    moreover have "all_worthy m st1 (ts_TaskArray q)" using e1 Cons.prems(3) wext_worthy by blast
    ultimately obtain q1 st2 where
      a: "AddTask r' (q, st1) = Inr (q1, st2)" "wf_tasks st2 q1" "wext m st1 st2" "all_worthy m st2 (ts_TaskArray q1)"
        "length (ts_TaskArray q1) \<le> Suc (length (ts_TaskArray q))"
      using AddTask_wext [of st1 q r' t m] e1 t(2) by auto
    have e: "wext m st st2" using e1 a(3) wext_trans by blast
    have "all_worthy m st2 rs" using wext_worthy [OF e] Cons.prems(2) by (auto simp: all_worthy_def)
    from Cons.IH [OF wext_wf [OF e Cons.prems(1)] this a(4,2)] obtain q' st' where
      "rfold add_clone rs (q1, st2) = Inr (q', st')" "wext m st2 st'" "wf_store st'" "all_worthy m st' (ts_TaskArray q')" "wf_tasks st' q'"
      "length (ts_TaskArray q') \<le> length (ts_TaskArray q1) + length rs" by blast
    moreover have "add_clone r (q, st) = Inr (q1, st2)" using t(1) n a(1) by (simp add: add_clone_def deref_def)
    ultimately show ?case using e a(5) by (auto intro: wext_trans)
  qed
  from this [OF assms(1,2), of "emptyTask q0"] show ?thesis by (simp add: emptyTask_def all_worthy_def wf_tasks_def)
qed

text \<open>The loop over the fuzzers: what its body establishes for one, it establishes for all.\<close>

lemma each_fuzzer_rule:
  assumes "wfm (sv_fuzzers ss)" and "I (sv_store ss)"
    and body: "\<And>dr st. I st \<Longrightarrow> \<exists>dr' st'. g (dr, st) = Inr (dr', st') \<and> I st' \<and> Q dr' st' \<and> (\<forall>dr0. Q dr0 st \<longrightarrow> Q dr0 st')"
  shows "\<exists>ss'. each_fuzzer g ss = Inr ss' \<and> I (sv_store ss') \<and> set (go_keys (sv_fuzzers ss')) = set (go_keys (sv_fuzzers ss))
    \<and> sv_dataDependency ss' = sv_dataDependency ss \<and> sv_dataRunTime ss' = sv_dataRunTime ss
    \<and> (\<forall>name f. go_get (sv_fuzzers ss') name = Some f \<longrightarrow> Q (fz_dataRunTime f) (sv_store ss'))"
proof -
  let ?step = "\<lambda>(name, f) ss. rmap (\<lambda>(dr, st). ss\<lparr>sv_fuzzers := go_set name (f\<lparr>fz_dataRunTime := dr\<rparr>) (sv_fuzzers ss), sv_store := st\<rparr>)
          (g (fz_dataRunTime f, sv_store ss))"
  have "\<exists>ss'. rfold ?step al s = Inr ss' \<and> I (sv_store ss') \<and> set (go_keys (sv_fuzzers ss')) = set (go_keys (sv_fuzzers s)) \<union> fst ` set al
    \<and> sv_dataDependency ss' = sv_dataDependency s \<and> sv_dataRunTime ss' = sv_dataRunTime s
    \<and> (\<forall>name f. go_get (sv_fuzzers ss') name = Some f \<longrightarrow> name \<in> N \<union> fst ` set al \<longrightarrow> Q (fz_dataRunTime f) (sv_store ss'))"
    if "I (sv_store s)" "\<forall>name f. go_get (sv_fuzzers s) name = Some f \<longrightarrow> name \<in> N \<longrightarrow> Q (fz_dataRunTime f) (sv_store s)" for al s N
    using that
  proof (induction al arbitrary: s N)
    case Nil
    then show ?case by simp
  next
    case (Cons e al)
    from body [OF Cons.prems(1), of "fz_dataRunTime (snd e)"] obtain dr' st' where
      b: "g (fz_dataRunTime (snd e), sv_store s) = Inr (dr', st')" "I st'" "Q dr' st'" "\<forall>dr0. Q dr0 (sv_store s) \<longrightarrow> Q dr0 st'" by blast
    define s1 where "s1 = s\<lparr>sv_fuzzers := go_set (fst e) ((snd e)\<lparr>fz_dataRunTime := dr'\<rparr>) (sv_fuzzers s), sv_store := st'\<rparr>"
    have 1: "?step e s = Inr s1" using b(1) by (simp add: s1_def split_def)
    have "\<forall>name f. go_get (sv_fuzzers s1) name = Some f \<longrightarrow> name \<in> insert (fst e) N \<longrightarrow> Q (fz_dataRunTime f) (sv_store s1)"
      using Cons.prems(2) b(3,4) by (auto simp: s1_def)
    moreover have "I (sv_store s1)" using b(2) by (simp add: s1_def)
    ultimately obtain ss' where "rfold ?step al s1 = Inr ss'" "I (sv_store ss')"
      "set (go_keys (sv_fuzzers ss')) = set (go_keys (sv_fuzzers s1)) \<union> fst ` set al"
      "sv_dataDependency ss' = sv_dataDependency s1" "sv_dataRunTime ss' = sv_dataRunTime s1"
      "\<forall>name f. go_get (sv_fuzzers ss') name = Some f \<longrightarrow> name \<in> insert (fst e) N \<union> fst ` set al \<longrightarrow> Q (fz_dataRunTime f) (sv_store ss')"
      using Cons.IH [of s1 "insert (fst e) N"] by auto
    with 1 show ?case by (auto simp: s1_def)
  qed
  from this [of ss "{}" "go_range (sv_fuzzers ss)"] assms(2) obtain ss' where
    ss': "rfold ?step (go_range (sv_fuzzers ss)) ss = Inr ss'" "I (sv_store ss')"
    "set (go_keys (sv_fuzzers ss')) = set (go_keys (sv_fuzzers ss))"
    "sv_dataDependency ss' = sv_dataDependency ss" "sv_dataRunTime ss' = sv_dataRunTime ss"
    "\<forall>name f. go_get (sv_fuzzers ss') name = Some f \<longrightarrow> name \<in> fst ` set (go_range (sv_fuzzers ss)) \<longrightarrow> Q (fz_dataRunTime f) (sv_store ss')"
    by (auto simp: go_keys_def)
  have "go_get (sv_fuzzers ss') name = Some f \<Longrightarrow> name \<in> fst ` set (go_range (sv_fuzzers ss))" for name f
    using go_get_key [of "sv_fuzzers ss'" name f] ss'(3) by (simp add: go_keys_def)
  with ss'(6) have "\<forall>name f. go_get (sv_fuzzers ss') name = Some f \<longrightarrow> Q (fz_dataRunTime f) (sv_store ss')" by blast
  with ss'(1-5) show ?thesis unfolding each_fuzzer_def by (intro exI [of _ ss']) simp
qed

text \<open>
  C34: what the fuzzers are given. When the references of the global queue are valid,
  handing out tasks does not abort, and afterwards every fuzzer has a well-formed queue of
  at most \<open>TaskQueueNumber + 1\<close> tasks, each with at least one uncovered address, and with
  no address that is no longer uncovered. The data and the global queue are as they were.
\<close>

theorem give_tasks_bounded:
  assumes "wf_store (sv_store ss)" and "wf_tasks (sv_store ss) (dr_Tasks (sv_dataRunTime ss))" and "wfm (sv_fuzzers ss)"
  shows "\<exists>ss'. give_tasks ss = Inr ss' \<and> wf_store (sv_store ss')
    \<and> set (go_keys (sv_fuzzers ss')) = set (go_keys (sv_fuzzers ss))
    \<and> sv_dataDependency ss' = sv_dataDependency ss \<and> sv_dataRunTime ss' = sv_dataRunTime ss
    \<and> (\<forall>name f. go_get (sv_fuzzers ss') name = Some f \<longrightarrow>
         handed (sv_dataDependency ss) (Suc TaskQueueNumber) (fz_dataRunTime f) (sv_store ss'))"
proof -
  let ?m = "sv_dataDependency ss"
  have v: "\<forall>r \<in> set (ts_TaskArray (dr_Tasks (sv_dataRunTime ss))). hview (sv_store ss) r \<noteq> None"
    using assms(2) by (simp add: wf_tasks_def)
  from choose_tasks_ok [OF assms(1) v, of ?m "[]"] obtain task st1 where
    1: "choose_tasks ?m (ts_TaskArray (dr_Tasks (sv_dataRunTime ss))) ([], sv_store ss) = Inr (task, st1)"
      "wf_store st1" "all_worthy ?m st1 task" "length task \<le> Suc TaskQueueNumber"
    by (auto simp: all_worthy_def)
  from clear_all_ok [OF 1(2,3)] obtain st2 where
    2: "rfold clear_run_data task st1 = Inr st2" "wf_store st2" "all_worthy ?m st2 task" by blast
  define I where "I = (\<lambda>st. wf_store st \<and> all_worthy ?m st task)"
  let ?g = "\<lambda>(dr, st). rmap (\<lambda>(q, st'). (dr\<lparr>dr_Tasks := q\<rparr>, st')) (rfold add_clone task (emptyTask (dr_Tasks dr), st))"
  have "\<exists>dr' st'. ?g (dr, st) = Inr (dr', st') \<and> I st' \<and> handed ?m (Suc TaskQueueNumber) dr' st'
      \<and> (\<forall>dr0. handed ?m (Suc TaskQueueNumber) dr0 st \<longrightarrow> handed ?m (Suc TaskQueueNumber) dr0 st')" if "I st" for dr st
  proof -
    from add_clones_ok [of st ?m task "dr_Tasks dr"] that obtain q st' where
      "rfold add_clone task (emptyTask (dr_Tasks dr), st) = Inr (q, st')" "wext ?m st st'" "wf_store st'"
      "all_worthy ?m st' (ts_TaskArray q)" "wf_tasks st' q" "length (ts_TaskArray q) \<le> length task" by (auto simp: I_def)
    then show ?thesis using that wext_worthy handed_wext 1(4) by (auto simp: I_def handed_def)
  qed
  from each_fuzzer_rule [of "ss\<lparr>sv_store := st2\<rparr>" I ?g "handed ?m (Suc TaskQueueNumber)", OF _ _ this] assms(3) 2(2,3)
  obtain ss' where
    "each_fuzzer ?g (ss\<lparr>sv_store := st2\<rparr>) = Inr ss'" "I (sv_store ss')" "set (go_keys (sv_fuzzers ss')) = set (go_keys (sv_fuzzers ss))"
    "sv_dataDependency ss' = ?m" "sv_dataRunTime ss' = sv_dataRunTime ss"
    "\<forall>name f. go_get (sv_fuzzers ss') name = Some f \<longrightarrow> handed ?m (Suc TaskQueueNumber) (fz_dataRunTime f) (sv_store ss')"
    by (auto simp: I_def)
  then show ?thesis using 1(1) 2(1) by (auto simp: give_tasks_def I_def)
qed

definition ex_full :: "nat Server" where
  "ex_full = ex_busy\<lparr>sv_dataRunTime := DataRunTime_new\<lparr>dr_Tasks := ex_tasks\<rparr>\<rparr>"

theorem give_tasks_bounded_witness:
  "\<exists>ss' f. give_tasks ex_full = Inr ss' \<and> go_get (sv_fuzzers ss') ''f'' = Some f
    \<and> length (ts_TaskArray (dr_Tasks (fz_dataRunTime f))) \<le> 5"
proof -
  have h: "wf_store (sv_store ex_full)" "wf_tasks (sv_store ex_full) (dr_Tasks (sv_dataRunTime ex_full))" "wfm (sv_fuzzers ex_full)"
    "go_keys (sv_fuzzers ex_full) = [''f'']"
    using ex_tasks_wf by (simp_all add: ex_full_def ex_busy_def DataRunTime_new_def wfm_def go_keys_def)
  from give_tasks_bounded [OF h(1-3)] obtain ss' where
    "give_tasks ex_full = Inr ss'" "set (go_keys (sv_fuzzers ss')) = {''f''}"
    "\<forall>name f. go_get (sv_fuzzers ss') name = Some f \<longrightarrow>
         handed (sv_dataDependency ex_full) (Suc TaskQueueNumber) (fz_dataRunTime f) (sv_store ss')" unfolding h(4) by auto
  moreover from this(2) obtain f where "go_get (sv_fuzzers ss') ''f'' = Some f" by (metis go_key_iff insertI1)
  ultimately show ?thesis by (auto simp: handed_def dra_consts)
qed

end
