(* ===== verification/Dra_Path.thy ===== *)
theory Dra_Path
  imports Go_Prelude
begin

text \<open>
  \<open>CheckPath\<close> of \<open>pkg/dra/DependencyRPC.go\<close>: where two executions of a program, recorded
  as sequences of addresses, first meet, and how far they agree from there on. The fuzzer
  compares an unstable execution with the first one this way.
\<close>

section \<open>Definitions\<close>

text \<open>The loop over \<open>j\<close>: an address of one path at \<open>i\<close> that the other has before \<open>i\<close>.\<close>

fun meet_before :: "uint32 list \<Rightarrow> uint32 list \<Rightarrow> nat \<Rightarrow> nat list \<Rightarrow> nat \<times> nat \<Rightarrow> nat \<times> nat" where
  "meet_before newPath unstablePath i [] s = s"
| "meet_before newPath unstablePath i (j # js) s =
    (if newPath ! i = unstablePath ! j then (i, j)
     else if unstablePath ! i = newPath ! j then (j, i)
     else meet_before newPath unstablePath i js s)"

text \<open>The loop over \<open>i\<close>.\<close>

fun meet :: "uint32 list \<Rightarrow> uint32 list \<Rightarrow> nat list \<Rightarrow> nat \<times> nat \<Rightarrow> nat \<times> nat" where
  "meet newPath unstablePath [] s = s"
| "meet newPath unstablePath (i # is) s =
    (if newPath ! i = unstablePath ! i then (i, i)
     else let s' = meet_before newPath unstablePath i [0..<i] s in
       if newPath ! fst s' = unstablePath ! snd s' then s' else meet newPath unstablePath is s')"

text \<open>The last loop: the first difference, 0 when there is none.\<close>

fun first_difference :: "uint32 list \<Rightarrow> uint32 list \<Rightarrow> nat \<Rightarrow> nat \<Rightarrow> nat list \<Rightarrow> nat" where
  "first_difference newPath unstablePath a b [] = 0"
| "first_difference newPath unstablePath a b (i # is) =
    (if newPath ! (i + a) \<noteq> unstablePath ! (i + b) then i else first_difference newPath unstablePath a b is)"

definition CheckPath :: "uint32 list \<Rightarrow> uint32 list \<Rightarrow> (nat \<times> nat \<times> nat) res" where
  "CheckPath newPath unstablePath =
    (let l1 = length newPath; l2 = length unstablePath;
         l = (if l1 < l2 then l1 else l2);
         (a, b) = meet newPath unstablePath [0..<l] (0, 0)
     in if a = 0 \<and> b = 0 \<and> (newPath = [] \<or> unstablePath = []) then Inl (Panic ''index out of range'')
        else if a = 0 \<and> b = 0 \<and> newPath ! 0 \<noteq> unstablePath ! 0
        then Inl (Fatal ''checkPath : can not find the address'')
        else let l1' = l1 - a; l2' = l2 - b; l' = (if l1' < l2' then l1' else l2')
             in Inr (a, b, first_difference newPath unstablePath a b [0..<l']))"

section \<open>What it finds\<close>

text \<open>The paths share no address within their first \<open>k\<close> positions.\<close>

definition apart :: "uint32 list \<Rightarrow> uint32 list \<Rightarrow> nat \<Rightarrow> bool" where
  "apart p q k \<longleftrightarrow> (\<forall>i < k. \<forall>j < k. p ! i \<noteq> q ! j)"

definition touch :: "uint32 list \<Rightarrow> uint32 list \<Rightarrow> nat \<Rightarrow> nat \<times> nat \<Rightarrow> bool" where
  "touch p q l s \<longleftrightarrow> fst s < l \<and> snd s < l \<and> p ! fst s = q ! snd s"

definition miss :: "uint32 list \<Rightarrow> uint32 list \<Rightarrow> nat \<Rightarrow> nat \<Rightarrow> bool" where
  "miss p q i j \<longleftrightarrow> p ! i \<noteq> q ! j \<and> q ! i \<noteq> p ! j"

lemma meet_before_cases:
  assumes "set js \<subseteq> {..<i}" "i < l"
  shows "(meet_before p q i js s = s \<and> (\<forall>j \<in> set js. miss p q i j)) \<or> touch p q l (meet_before p q i js s)"
  using assms(1)
proof (induction js)
  case (Cons j js)
  then have j: "j < l" and IH: "(meet_before p q i js s = s \<and> (\<forall>j \<in> set js. miss p q i j)) \<or> touch p q l (meet_before p q i js s)"
    using assms(2) by auto
  consider "p ! i = q ! j" | "p ! i \<noteq> q ! j" "q ! i = p ! j" | "miss p q i j" unfolding miss_def by blast
  then show ?case
  proof cases
    case 3
    then have "meet_before p q i (j # js) s = meet_before p q i js s" unfolding miss_def by simp
    with IH 3 show ?thesis by simp
  qed (use j assms(2) in \<open>simp_all add: touch_def\<close>)
qed simp

lemma apart_Suc:
  assumes "apart p q k" "p ! k \<noteq> q ! k" "\<forall>j \<in> set [0..<k]. miss p q k j"
  shows "apart p q (Suc k)"
  unfolding apart_def
proof (intro allI impI)
  fix i j assume "i < Suc k" "j < Suc k"
  then consider "i < k" "j < k" | "i = k" "j < k" | "i < k" "j = k" | "i = k" "j = k" by linarith
  then show "p ! i \<noteq> q ! j"
  proof cases
    case 1
    then show ?thesis using assms(1) unfolding apart_def by blast
  next
    case 2
    then have "miss p q k j" using assms(3) by simp
    then show ?thesis unfolding miss_def 2(1) by blast
  next
    case 3
    then have "miss p q k i" using assms(3) by simp
    then show ?thesis unfolding miss_def 3(2) by metis
  qed (use assms(2) in simp)
qed

lemma meet_cases:
  assumes "p ! 0 \<noteq> q ! 0 \<or> k = 0" "apart p q k" "k \<le> l"
  shows "(meet p q [k..<l] (0, 0) = (0, 0) \<and> apart p q l) \<or> touch p q l (meet p q [k..<l] (0, 0))"
  using assms
proof (induction "l - k" arbitrary: k)
  case 0
  then have "k = l" by simp
  then show ?case using 0 by simp
next
  case (Suc n)
  then have k: "k < l" "[k..<l] = k # [Suc k..<l]" by (simp_all add: upt_conv_Cons)
  show ?case
  proof (cases "p ! k = q ! k")
    case True
    then have "meet p q [k..<l] (0, 0) = (k, k)" using k(2) by simp
    then show ?thesis using True k(1) by (simp add: touch_def)
  next
    case False
    let ?s = "meet_before p q k [0..<k] (0, 0)"
    have k0: "p ! 0 \<noteq> q ! 0" using Suc.prems(1) False by (cases "k = 0") simp_all
    have "set [0..<k] \<subseteq> {..<k}" by auto
    from meet_before_cases [OF this k(1), of p q "(0, 0)"] show ?thesis
    proof
      assume n: "?s = (0, 0) \<and> (\<forall>j \<in> set [0..<k]. miss p q k j)"
      then have "apart p q (Suc k)" using apart_Suc [OF Suc.prems(2) False] by blast
      moreover have "meet p q [k..<l] (0, 0) = meet p q [Suc k..<l] (0, 0)"
        using n False k0 unfolding k(2) by simp
      moreover have "n = l - Suc k" using Suc.hyps(2) by simp
      ultimately show ?thesis using Suc.hyps(1) [of "Suc k"] k(1) k0 by simp
    next
      assume t: "touch p q l ?s"
      then have "meet p q [k..<l] (0, 0) = ?s" using False unfolding k(2) touch_def by simp
      with t show ?thesis by simp
    qed
  qed
qed

lemma first_difference_cases:
  assumes "k \<le> l"
  shows "(first_difference p q a b [k..<l] = 0 \<and> (\<forall>i. k \<le> i \<longrightarrow> i < l \<longrightarrow> p ! (i + a) = q ! (i + b)))
    \<or> (\<exists>d. k \<le> d \<and> d < l \<and> first_difference p q a b [k..<l] = d \<and> p ! (d + a) \<noteq> q ! (d + b)
        \<and> (\<forall>i. k \<le> i \<longrightarrow> i < d \<longrightarrow> p ! (i + a) = q ! (i + b)))"
  using assms
proof (induction "l - k" arbitrary: k)
  case 0
  then show ?case by auto
next
  case (Suc n)
  then have k: "k < l" "[k..<l] = k # [Suc k..<l]" by (simp_all add: upt_conv_Cons)
  show ?case
  proof (cases "p ! (k + a) = q ! (k + b)")
    case False
    then show ?thesis using k by auto
  next
    case True
    have le: "k \<le> i \<longleftrightarrow> i = k \<or> Suc k \<le> i" for i by auto
    from Suc.hyps(1) [of "Suc k"] Suc.hyps(2) k(1)
    have "(first_difference p q a b [Suc k..<l] = 0 \<and> (\<forall>i. Suc k \<le> i \<longrightarrow> i < l \<longrightarrow> p ! (i + a) = q ! (i + b)))
    \<or> (\<exists>d. Suc k \<le> d \<and> d < l \<and> first_difference p q a b [Suc k..<l] = d \<and> p ! (d + a) \<noteq> q ! (d + b)
        \<and> (\<forall>i. Suc k \<le> i \<longrightarrow> i < d \<longrightarrow> p ! (i + a) = q ! (i + b)))" by simp
    then show ?thesis using True unfolding k(2) le by auto
  qed
qed

text \<open>
  What \<open>CheckPath\<close> returns for two non-empty paths. If they share an address within
  the length of the shorter one, it returns a pair of positions of a shared address, and
  the third result is the distance to the first difference from there, or 0 when the rest
  of the shorter path agrees; otherwise it aborts. On an empty path it panics.
\<close>

lemma CheckPath_aligns:
  "(p = [] \<or> q = [] \<longrightarrow> CheckPath p q = Inl (Panic ''index out of range''))
   \<and> (p \<noteq> [] \<longrightarrow> q \<noteq> [] \<longrightarrow>
     (case CheckPath p q of
        Inl e \<Rightarrow> e = Fatal ''checkPath : can not find the address''
          \<and> (\<forall>i < min (length p) (length q). \<forall>j < min (length p) (length q). p ! i \<noteq> q ! j)
      | Inr (a, b, d) \<Rightarrow> a < length p \<and> b < length q \<and> p ! a = q ! b
          \<and> (let l = min (length p - a) (length q - b) in
             (d = 0 \<longrightarrow> (\<forall>i < l. p ! (a + i) = q ! (b + i)))
             \<and> (d \<noteq> 0 \<longrightarrow> d < l \<and> p ! (a + d) \<noteq> q ! (b + d) \<and> (\<forall>i < d. p ! (a + i) = q ! (b + i))))))"
proof (intro conjI impI)
  assume "p = [] \<or> q = []"
  then show "CheckPath p q = Inl (Panic ''index out of range'')" by (auto simp: CheckPath_def)
next
  assume ne: "p \<noteq> []" "q \<noteq> []"
  let ?l = "min (length p) (length q)"
  have l: "(if length p < length q then length p else length q) = ?l" by auto
  have "apart p q 0" by (simp add: apart_def)
  with meet_cases [of p q 0 ?l]
  consider (no) "meet p q [0..<?l] (0, 0) = (0, 0)" "\<forall>i < ?l. \<forall>j < ?l. p ! i \<noteq> q ! j"
    | (yes) a b where "a < ?l" "b < ?l" "meet p q [0..<?l] (0, 0) = (a, b)" "p ! a = q ! b"
    unfolding apart_def [of p q ?l] touch_def by (metis le0 prod.collapse)
  then show "case CheckPath p q of
        Inl e \<Rightarrow> e = Fatal ''checkPath : can not find the address''
          \<and> (\<forall>i < ?l. \<forall>j < ?l. p ! i \<noteq> q ! j)
      | Inr (a, b, d) \<Rightarrow> a < length p \<and> b < length q \<and> p ! a = q ! b
          \<and> (let l = min (length p - a) (length q - b) in
             (d = 0 \<longrightarrow> (\<forall>i < l. p ! (a + i) = q ! (b + i)))
             \<and> (d \<noteq> 0 \<longrightarrow> d < l \<and> p ! (a + d) \<noteq> q ! (b + d) \<and> (\<forall>i < d. p ! (a + i) = q ! (b + i))))"
  proof cases
    case no
    have "0 < ?l" using ne by simp
    with no(2) have "p ! 0 \<noteq> q ! 0" by blast
    then have "CheckPath p q = Inl (Fatal ''checkPath : can not find the address'')"
      using no(1) ne unfolding CheckPath_def Let_def l by simp
    then show ?thesis using no(2) by simp
  next
    case (yes a b)
    let ?l' = "min (length p - a) (length q - b)"
    have l': "(if length p - a < length q - b then length p - a else length q - b) = ?l'" by auto
    let ?d = "first_difference p q a b [0..<?l']"
    have "\<not> (a = 0 \<and> b = 0 \<and> p ! 0 \<noteq> q ! 0)" using yes(4) by metis
    then have r: "CheckPath p q = Inr (a, b, ?d)"
      using yes(3) ne unfolding CheckPath_def Let_def l by (simp add: l')
    have lp: "0 < ?l'" using yes(1,2) by auto
    from first_difference_cases [where k = 0 and l = ?l' and p = p and q = q and a = a and b = b, OF le0] show ?thesis
    proof
      assume "?d = 0 \<and> (\<forall>i. 0 \<le> i \<longrightarrow> i < ?l' \<longrightarrow> p ! (i + a) = q ! (i + b))"
      then show ?thesis using r yes(1,2,4) by (simp add: Let_def add.commute)
    next
      assume "\<exists>d. 0 \<le> d \<and> d < ?l' \<and> ?d = d \<and> p ! (d + a) \<noteq> q ! (d + b) \<and> (\<forall>i. 0 \<le> i \<longrightarrow> i < d \<longrightarrow> p ! (i + a) = q ! (i + b))"
      then have "?d < ?l'" "p ! (?d + a) \<noteq> q ! (?d + b)" "\<forall>i < ?d. p ! (i + a) = q ! (i + b)" by auto
      moreover from this(2) yes(4) have "?d \<noteq> 0" by (cases "?d = 0") auto
      ultimately show ?thesis using r yes(1,2,4) by (simp add: Let_def add.commute)
    qed
  qed
qed

lemma CheckPath_aligns_witness:
  "CheckPath [1, 2, 3] [9, 2, 4] = Inr (1, 1, 1) \<and> CheckPath [1] [] = Inl (Panic ''index out of range'')"
proof -
  have "CheckPath [1, 2, 3] [9, 2, 4] = Inr (1, 1, 1)" by code_simp
  moreover have "CheckPath [1] [] = Inl (Panic ''index out of range'')" using CheckPath_aligns [of "[1]" "[]"] by blast
  ultimately show ?thesis ..
qed

end
