(* ===== verification/Join_Merge.thy ===== *)
theory Join_Merge
  imports Dra_Merge "HOL-Library.Multiset" "HOL-Library.Option_ord"
begin

text \<open>
  The contract that the accumulating operations of the program share: merging \<open>b\<close> into
  \<open>a\<close> joins, point by point, what the two stand for. The manager and the server rely on it
  when they fold reports of many fuzzers into one value: the result depends neither on the
  order of the reports nor on reports that come twice. The interpretations are with the
  components: covered addresses and index sets of inputs here, signals and coverage in
  their own theories.
\<close>

locale join_merge =
  fixes ok :: "'s \<Rightarrow> bool" and sem :: "'s \<Rightarrow> 'k \<Rightarrow> 'v::semilattice_sup" and merge :: "'s \<Rightarrow> 's \<Rightarrow> 's"
  assumes sem_merge: "ok b \<Longrightarrow> sem (merge a b) k = sup (sem a k) (sem b k)"
begin

lemma grows: "ok b \<Longrightarrow> sem a k \<le> sem (merge a b) k"
  by (simp add: sem_merge)

lemma again: "ok b \<Longrightarrow> sem (merge (merge a b) b) k = sem (merge a b) k"
  by (simp add: sem_merge sup.assoc)

lemma known: "ok b \<Longrightarrow> (\<forall>k. sem b k \<le> sem a k) \<longleftrightarrow> (\<forall>k. sem (merge a b) k = sem a k)"
  by (auto simp: sem_merge sup_absorb1) (metis sup.cobounded2)

definition merge_all :: "'s list \<Rightarrow> 's \<Rightarrow> 's" where
  "merge_all bs a = fold (\<lambda>b a. merge a b) bs a"

lemma sem_merge_all:
  assumes "\<forall>b \<in> set bs. ok b"
  shows "sem (merge_all bs a) k = fold (\<lambda>b v. sup v (sem b k)) bs (sem a k)"
  using assms by (induction bs arbitrary: a) (simp_all add: merge_all_def sem_merge)

lemma merge_all_perm:
  assumes "mset bs = mset cs" "\<forall>b \<in> set bs. ok b"
  shows "sem (merge_all bs a) k = sem (merge_all cs a) k"
proof -
  have "fold (\<lambda>b v. sup v (sem b k)) bs = fold (\<lambda>b v. sup v (sem b k)) cs"
    by (rule fold_multiset_equiv) (use assms(1) in \<open>auto simp: fun_eq_iff sup.assoc sup.commute sup.left_commute\<close>)
  moreover have "\<forall>c \<in> set cs. ok c" using assms by (metis set_mset_mset)
  ultimately show ?thesis using assms(2) by (simp add: sem_merge_all)
qed

lemma merge_all_member:
  assumes "b \<in> set bs" "\<forall>b \<in> set bs. ok b"
  shows "sem b k \<le> sem (merge_all bs a) k"
proof -
  have mono: "v \<le> fold (\<lambda>b v. sup v (sem b k)) xs v" for xs v
    by (induction xs arbitrary: v) (auto intro: order_trans [OF sup.cobounded1])
  from assms(1) have "sem b k \<le> fold (\<lambda>b v. sup v (sem b k)) bs v" for v
  proof (induction bs arbitrary: v)
    case (Cons c bs)
    show ?case
    proof (cases "b = c")
      case True
      then show ?thesis using mono [of "sup v (sem c k)" bs] by (auto intro: order_trans [OF sup.cobounded2])
    next
      case False
      then show ?thesis using Cons by simp
    qed
  qed simp
  then show ?thesis using assms(2) by (simp add: sem_merge_all)
qed

end

text \<open>Inputs: what is joined are the covered addresses of a call and the sets of call indices.\<close>

datatype input_key = Covers uint32 | Misses uint32 | Writes uint32

definition input_sem :: "Input \<Rightarrow> input_key \<Rightarrow> uint32 set" where
  "input_sem i k = (case k of Covers c \<Rightarrow> call_addresses i c
     | Misses a \<Rightarrow> index_set (i_UncoveredAddress i) a | Writes a \<Rightarrow> index_set (i_WriteAddress i) a)"

lemma input_join:
  assumes "wf_input d"
  shows "input_sem (mergeInput m d) k = input_sem m k \<union> input_sem d k"
proof -
  have "call_addresses i j = call_keys (i_Call i) j" for i j
    by (simp add: call_addresses_def call_keys_def)
  with assms show ?thesis
    by (cases k) (simp_all add: input_sem_def wf_input_def call_keys_fold call_keys_range index_set_merge)
qed

interpretation input: join_merge wf_input input_sem mergeInput
  by unfold_locales (simp add: input_join)

text \<open>
  What the server knows of an input does not depend on the order in which the fuzzers
  report it: folding the same reports in another order gives the same covered addresses per
  call and the same call indices per address, and no report is lost.
\<close>

lemma input_reports_commute:
  assumes "mset ds = mset ds'" and "\<forall>d \<in> set ds. wf_input d"
  shows "call_addresses (fold (\<lambda>d m. mergeInput m d) ds m) k = call_addresses (fold (\<lambda>d m. mergeInput m d) ds' m) k
    \<and> index_set (i_UncoveredAddress (fold (\<lambda>d m. mergeInput m d) ds m)) a
        = index_set (i_UncoveredAddress (fold (\<lambda>d m. mergeInput m d) ds' m)) a
    \<and> (d \<in> set ds \<longrightarrow> call_addresses d k \<subseteq> call_addresses (fold (\<lambda>d m. mergeInput m d) ds m) k)"
  using input.merge_all_perm [OF assms, of m "Covers k"] input.merge_all_perm [OF assms, of m "Misses a"]
    input.merge_all_member [OF _ assms(2), of d "Covers k" m]
  by (simp add: input.merge_all_def input_sem_def)

lemma input_reports_commute_witness:
  "call_addresses (fold (\<lambda>d m. mergeInput m d) [ex_input 1, ex_input 2] Input_zero) 0 =
    call_addresses (fold (\<lambda>d m. mergeInput m d) [ex_input 2, ex_input 1] Input_zero) 0"
proof -
  have "\<forall>d \<in> set [ex_input 1, ex_input 2]. wf_input d" by code_simp
  with input_reports_commute [of "[ex_input 1, ex_input 2]" "[ex_input 2, ex_input 1]" Input_zero 0 0]
  show ?thesis by simp
qed

end
