(* ===== verification/Signal.thy ===== *)
theory Signal
  imports Join_Merge
begin

text \<open>
  Feedback signal, \<open>pkg/signal/signal.go\<close>, and coverage, \<open>pkg/cover/cover.go\<close>.

  A signal is a Go map from elements (\<open>uint32\<close>) to priorities (\<open>int8\<close>, compared as signed
  numbers). \<open>level\<close> is the priority a signal gives an element, with no priority below all
  others; \<open>Merge\<close> takes the higher level, \<open>Diff\<close> keeps what is new, and \<open>Minimize\<close> keeps
  enough of a corpus to reach every level.
\<close>

section \<open>Signals\<close>

type_synonym elemType = "32 word"
type_synonym prioType = "8 word"
type_synonym Signal = "(elemType, prioType) gomap"

record Serial =
  Elems :: "elemType list"
  Prios :: "prioType list"

definition sig_Len :: "Signal \<Rightarrow> nat" where
  "sig_Len s = go_len s"

definition sig_Empty :: "Signal \<Rightarrow> bool" where
  "sig_Empty s \<longleftrightarrow> go_len s = 0"

definition sig_Copy :: "Signal \<Rightarrow> Signal" where
  "sig_Copy s = fold (\<lambda>(e, p). go_set e p) (go_range s) (Some [])"

text \<open>The loop of \<open>Split\<close>; \<open>n\<close> is decremented before it is compared with 0.\<close>

fun split_loop :: "(elemType \<times> prioType) list \<Rightarrow> int \<Rightarrow> Signal \<times> Signal \<Rightarrow> Signal \<times> Signal" where
  "split_loop [] n (s, c) = (s, c)"
| "split_loop ((e, p) # al) n (s, c) =
    (let s' = go_del e s; c' = go_set e p c in
     if n - 1 = 0 then (s', c') else split_loop al (n - 1) (s', c'))"

definition sig_Split :: "int \<Rightarrow> Signal \<Rightarrow> Signal \<times> Signal" where
  "sig_Split n s =
    (if sig_Empty s then (s, None)
     else let (s', c) = split_loop (go_range s) n (s, Some [])
          in (if go_len s' = 0 then None else s', c))"

definition FromRaw :: "uint32 list \<Rightarrow> uint8 \<Rightarrow> Signal" where
  "FromRaw raw prio = (if raw = [] then None else fold (\<lambda>e. go_set e prio) raw (Some []))"

definition sig_Serialize :: "Signal \<Rightarrow> Serial" where
  "sig_Serialize s = (if sig_Empty s then \<lparr>Elems = [], Prios = []\<rparr>
     else \<lparr>Elems = map fst (go_range s), Prios = map snd (go_range s)\<rparr>)"

definition sig_Deserialize :: "Serial \<Rightarrow> Signal res" where
  "sig_Deserialize ser =
    (if length (Elems ser) \<noteq> length (Prios ser) then Inl (Panic ''corrupted Serial'')
     else if Elems ser = [] then Inr None
     else Inr (fold (\<lambda>(e, p). go_set e p) (zip (Elems ser) (Prios ser)) (Some [])))"

text \<open>\<open>var res Signal\<close> is nil until the first element is written.\<close>

definition sig_Diff :: "Signal \<Rightarrow> Signal \<Rightarrow> Signal" where
  "sig_Diff s s1 =
    (if sig_Empty s1 then None
     else fold (\<lambda>(e, p1) res. case go_get s e of
         Some p \<Rightarrow> if p1 <=s p then res else go_set e p1 res
       | None \<Rightarrow> go_set e p1 res) (go_range s1) None)"

definition DiffRaw :: "Signal \<Rightarrow> uint32 list \<Rightarrow> uint8 \<Rightarrow> Signal" where
  "DiffRaw s raw prio =
    fold (\<lambda>e res. case go_get s e of
        Some p \<Rightarrow> if prio <=s p then res else go_set e prio res
      | None \<Rightarrow> go_set e prio res) raw None"

definition Intersection :: "Signal \<Rightarrow> Signal \<Rightarrow> Signal" where
  "Intersection s s1 =
    (if sig_Empty s1 then None
     else fold (\<lambda>(e, p) res. case go_get s1 e of
         Some p1 \<Rightarrow> if p <=s p1 then go_set e p res else res
       | None \<Rightarrow> res) (go_range s) (Some []))"

definition sig_Merge :: "Signal \<Rightarrow> Signal \<Rightarrow> Signal" where
  "sig_Merge s s1 =
    (if sig_Empty s1 then s
     else fold (\<lambda>(e, p1) s0. case go_get s0 e of
         Some p \<Rightarrow> if p <s p1 then go_set e p1 s0 else s0
       | None \<Rightarrow> go_set e p1 s0) (go_range s1) (make_if_nil s))"

text \<open>
  \<open>Minimize\<close>. \<open>srt\<close> is \<open>sort.Slice\<close> with the comparison of the code. The order in which
  the chosen entries come out is that of the iteration over the index set.
\<close>

record 'c Context =
  ctx_Signal :: Signal
  ctx_Context :: 'c

type_synonym cover_map = "(elemType, prioType \<times> nat) gomap"

definition cover_elem :: "nat \<Rightarrow> elemType \<times> prioType \<Rightarrow> cover_map \<Rightarrow> cover_map" where
  "cover_elem i e covered =
    (case go_get covered (fst e) of
       Some (q, _) \<Rightarrow> (if q <s snd e then go_set (fst e) (snd e, i) covered else covered)
     | None \<Rightarrow> go_set (fst e) (snd e, i) covered)"

fun cover_corpus :: "nat \<Rightarrow> 'c Context list \<Rightarrow> cover_map \<Rightarrow> cover_map" where
  "cover_corpus i [] covered = covered"
| "cover_corpus i (c # cs) covered = cover_corpus (Suc i) cs (fold (cover_elem i) (go_range (ctx_Signal c)) covered)"

definition Minimize :: "(('c Context \<Rightarrow> 'c Context \<Rightarrow> bool) \<Rightarrow> 'c Context list \<Rightarrow> 'c Context list) \<Rightarrow> 'c Context list \<Rightarrow> 'c list" where
  "Minimize srt corpus0 =
    (let corpus = srt (\<lambda>a b. sig_Len (ctx_Signal a) > sig_Len (ctx_Signal b)) corpus0;
         covered = cover_corpus 0 corpus (Some []);
         indices = fold (\<lambda>(_, cp) m. go_set (snd cp) () m) (go_range covered) (Some [])
     in map (\<lambda>idx. ctx_Context (corpus ! idx)) (go_keys indices))"

section \<open>Coverage\<close>

type_synonym Cover = "(uint32, unit) gomap"

definition cov_Merge :: "Cover \<Rightarrow> uint32 list \<Rightarrow> Cover" where
  "cov_Merge cov raw = fold (\<lambda>pc. go_set pc ()) raw (make_if_nil cov)"

definition cov_Serialize :: "Cover \<Rightarrow> uint32 list" where
  "cov_Serialize cov = go_keys cov"

definition RestorePC :: "uint32 \<Rightarrow> uint32 \<Rightarrow> uint64" where
  "RestorePC pc base = push_bit 32 (ucast base) + ucast pc"

section \<open>Levels\<close>

definition level :: "Signal \<Rightarrow> elemType \<Rightarrow> int option" where
  "level s e = map_option sint (go_get s e)"

lemma level_set [simp]: "level (go_set e p s) e' = (if e = e' then Some (sint p) else level s e')"
  by (simp add: level_def)

lemma level_nil [simp]: "level None e = None" "level (Some []) e = None" "level (make_if_nil s) = level s"
  by (simp_all add: level_def fun_eq_iff)

lemma sig_Empty_level: "sig_Empty s \<longleftrightarrow> (\<forall>e. level s e = None)"
  by (simp add: sig_Empty_def level_def)

lemma map_of_level: "map_option sint (map_of al e) = None \<longleftrightarrow> e \<notin> fst ` set al"
  by (simp add: map_of_eq_None_iff)

lemma sig_Merge_level:
  assumes "wfm s1"
  shows "level (sig_Merge s s1) e = sup (level s e) (level s1 e)"
proof -
  let ?f = "\<lambda>(e, p1) s0. case go_get s0 e of Some p \<Rightarrow> if p <s p1 then go_set e p1 s0 else s0 | None \<Rightarrow> go_set e p1 s0"
  have step: "level (?f (e', p1) s0) e = sup (level s0 e) (if e = e' then Some (sint p1) else None)" for e' p1 and s0 :: Signal
    by (auto simp: level_def word_sless_alt sup_max split: option.splits)
  have "level (fold ?f al s0) e = sup (level s0 e) (map_option sint (map_of al e))" if "distinct (map fst al)" for al s0
    using that
  proof (induction al arbitrary: s0)
    case (Cons x al)
    obtain e' p1 where x: "x = (e', p1)" by (cases x)
    have "e = e' \<Longrightarrow> map_of al e = None" using Cons.prems x by (auto simp: map_of_eq_None_iff)
    then show ?case using Cons step [of e' p1 s0] x by (auto simp del: split_paired_All)
  qed simp
  with assms show ?thesis
    by (auto simp: sig_Merge_def wfm_def go_keys_def level_def [of s1] go_get_def [of s1] sig_Empty_level)
qed

interpretation signal: join_merge wfm level sig_Merge
  by unfold_locales (rule sig_Merge_level)

lemma cov_Merge_keys: "set (go_keys (cov_Merge cov raw)) = set (go_keys cov) \<union> set raw"
proof -
  have "set (go_keys (fold (\<lambda>pc. go_set pc ()) raw m)) = set (go_keys m) \<union> set raw" for m
    by (induction raw arbitrary: m) auto
  then show ?thesis by (simp add: cov_Merge_def)
qed

interpretation cover: join_merge "\<lambda>_. True" "\<lambda>c (_ :: unit). set (go_keys c)" "\<lambda>a b. cov_Merge a (cov_Serialize b)"
  by unfold_locales (simp add: cov_Merge_keys cov_Serialize_def)

section \<open>What is new\<close>

lemma wfm_Diff [go_wf, simp]: "wfm (sig_Diff s s1)"
  unfolding sig_Diff_def by (auto intro!: fold_keep [where P = wfm] split: option.splits)

lemma sig_Diff_level:
  assumes "wfm s1"
  shows "level (sig_Diff s s1) e = (if level s1 e \<le> level s e then None else level s1 e)"
proof -
  let ?f = "\<lambda>(e, p1) res. case go_get s e of Some p \<Rightarrow> if p1 <=s p then res else go_set e p1 res | None \<Rightarrow> go_set e p1 res"
  have step: "level (?f (e', p1) res) e = (if e = e' \<and> \<not> Some (sint p1) \<le> level s e then Some (sint p1) else level res e)"
    for e' p1 and res :: Signal
    by (auto simp: level_def word_sle_eq split: option.splits)
  have "level (fold ?f al res) e =
      (if map_option sint (map_of al e) \<le> level s e then level res e else map_option sint (map_of al e))"
    if "distinct (map fst al)" for al res
    using that
  proof (induction al arbitrary: res)
    case (Cons x al)
    obtain e' p1 where x: "x = (e', p1)" by (cases x)
    have "e = e' \<Longrightarrow> map_of al e = None" using Cons.prems x by (auto simp: map_of_eq_None_iff)
    then show ?case using Cons step [of e' p1 res] x by (auto simp del: split_paired_All)
  qed simp
  with assms show ?thesis
    by (auto simp: sig_Diff_def wfm_def go_keys_def level_def [of s1] go_get_def [of s1] sig_Empty_level)
qed

text \<open>
  C39: \<open>Diff\<close> is what a signal adds: an element is in the result, with the priority of the
  argument, exactly when the receiver has it at no priority that high; merging the difference
  instead of the whole argument gives the same levels; the difference is empty exactly when
  merging the argument changes nothing.
\<close>

theorem sig_Diff_is_news:
  assumes "wfm s1"
  shows "level (sig_Diff s s1) e = (if level s1 e \<le> level s e then None else level s1 e)
    \<and> level (sig_Merge s (sig_Diff s s1)) = level (sig_Merge s s1)
    \<and> (sig_Empty (sig_Diff s s1) \<longleftrightarrow> level (sig_Merge s s1) = level s)"
proof (intro conjI)
  show "level (sig_Diff s s1) e = (if level s1 e \<le> level s e then None else level s1 e)"
    by (rule sig_Diff_level [OF assms])
  show "level (sig_Merge s (sig_Diff s s1)) = level (sig_Merge s s1)"
    by (rule ext) (simp add: sig_Merge_level assms sig_Diff_level sup_absorb1 sup.absorb_iff1)
  show "sig_Empty (sig_Diff s s1) \<longleftrightarrow> level (sig_Merge s s1) = level s"
    using signal.known [OF assms, of s]
    by (auto simp: sig_Empty_level sig_Diff_level assms fun_eq_iff)
qed

theorem sig_Diff_is_news_witness:
  "level (sig_Diff (Some [(1, 2), (5, 3)]) (Some [(1, 1), (5, 4), (7, 0)])) 5 = Some 4"
  using sig_Diff_is_news [of "Some [(1, 1), (5, 4), (7, 0)]" "Some [(1, 2), (5, 3)]" 5]
  by (simp add: wfm_def go_keys_def level_def go_get_def)

text \<open>
  The signal a manager gathers does not depend on the order in which signals are merged,
  and it reaches at every element the priority of each signal merged.
\<close>

lemma signal_reports_commute:
  assumes "mset ss = mset ss'" and "\<forall>s \<in> set ss. wfm s"
  shows "level (fold (\<lambda>s a. sig_Merge a s) ss a) e = level (fold (\<lambda>s a. sig_Merge a s) ss' a) e
    \<and> (s \<in> set ss \<longrightarrow> level s e \<le> level (fold (\<lambda>s a. sig_Merge a s) ss a) e)"
  using signal.merge_all_perm [OF assms, of a e] signal.merge_all_member [OF _ assms(2), of s e a]
  by (simp add: signal.merge_all_def)

lemma signal_reports_commute_witness:
  "level (fold (\<lambda>s a. sig_Merge a s) [Some [(1, 2)], Some [(1, 3)]] None) 1
    = level (fold (\<lambda>s a. sig_Merge a s) [Some [(1, 3)], Some [(1, 2)]] None) 1"
  using signal_reports_commute [of "[Some [(1, 2)], Some [(1, 3)]]" "[Some [(1, 3)], Some [(1, 2)]]" None 1 None]
  by (simp add: wfm_def go_keys_def)

section \<open>Serialization and splitting\<close>

lemma fold_set_level:
  "distinct (map fst al) \<Longrightarrow> go_get (fold (\<lambda>(e, p). go_set e p) al (Some [])) e = map_of al e"
  by (simp add: fold_set_get split: option.splits)

lemma sig_Deserialize_Serialize:
  assumes "wfm s"
  shows "\<exists>s'. sig_Deserialize (sig_Serialize s) = Inr s' \<and> go_get s' = go_get s"
proof -
  have "zip (map fst al) (map snd al) = al" for al :: "(elemType \<times> prioType) list" by (rule zip_map_fst_snd)
  moreover have "sig_Empty s \<Longrightarrow> go_get s = go_get None" by (simp add: sig_Empty_def fun_eq_iff)
  moreover have "\<not> sig_Empty s \<Longrightarrow> go_range s \<noteq> []" by (auto simp: sig_Empty_def go_get_def)
  moreover have "go_get (fold (\<lambda>(e, p). go_set e p) (go_range s) (Some [])) = go_get s"
    using assms by (simp add: fun_eq_iff fold_set_level wfm_def go_keys_def go_get_def [of s])
  ultimately show ?thesis by (auto simp: sig_Deserialize_def sig_Serialize_def)
qed

lemma wfm_Deserialize [go_wf]: "sig_Deserialize ser = Inr s \<Longrightarrow> wfm s"
  by (auto simp: sig_Deserialize_def split: if_splits intro!: fold_keep [where P = wfm])

text \<open>
  A signal that is serialized and deserialized has the same priority for every element,
  and deserializing fails only on lists of different lengths, with a panic.
\<close>

lemma sig_Serialize_roundtrip:
  assumes "wfm s"
  shows "(\<exists>s'. sig_Deserialize (sig_Serialize s) = Inr s' \<and> go_get s' = go_get s)
    \<and> (sig_Deserialize ser = Inl (Panic ''corrupted Serial'') \<longleftrightarrow> length (Elems ser) \<noteq> length (Prios ser))"
  using sig_Deserialize_Serialize [OF assms] by (simp add: sig_Deserialize_def)

lemma sig_Serialize_roundtrip_witness:
  "\<exists>s'. sig_Deserialize (sig_Serialize (Some [(1, 2), (5, 3)])) = Inr s' \<and> go_get s' = go_get (Some [(1, 2), (5, 3)])"
  using sig_Serialize_roundtrip [of "Some [(1, 2), (5, 3)]"] by (simp add: wfm_def go_keys_def)

lemma split_loop_take:
  "split_loop al n (s, c) =
    (let xs = (if 0 < n then take (nat n) al else al)
     in (fold (\<lambda>(e, p). go_del e) xs s, fold (\<lambda>(e, p). go_set e p) xs c))"
proof (induction al n "(s, c)" arbitrary: s c rule: split_loop.induct)
  case (2 e p al n s c)
  have "nat n = Suc (nat (n - 1))" if "0 < n" using that by simp
  with 2 show ?case by (auto simp: Let_def)
qed simp

lemma fold_del_get: "go_get (fold (\<lambda>(e, p). go_del e) xs s) e = (if e \<in> fst ` set xs then None else go_get s e)"
  by (induction xs arbitrary: s) auto

lemma fold_set_len:
  "distinct (map fst xs) \<Longrightarrow> fst ` set xs \<inter> set (go_keys m) = {} \<Longrightarrow>
    go_len (fold (\<lambda>(e, p). go_set e p) xs m) = length xs + go_len m"
proof (induction xs arbitrary: m)
  case (Cons x xs)
  obtain e p where x: "x = (e, p)" by (cases x)
  have "length (AList.update e p al) = Suc (length al)" if "e \<notin> fst ` set al" for al :: "(_ \<times> _) list"
    using that by (induction al) auto
  then have "go_len (go_set e p m) = Suc (go_len m)"
    using Cons.prems x by (auto simp: go_len_def go_set_def go_keys_def)
  with Cons x show ?case by auto
qed simp

text \<open>
  \<open>Split\<close> with a positive count moves that many elements, or all when there are fewer,
  out of the signal: each element is afterwards in exactly one of the two parts with the
  priority it had, and the receiver becomes nil when it is emptied.
\<close>

lemma sig_Split_partitions:
  assumes "wfm s" and "0 < n" and "sig_Split n s = (s', c)"
  shows "sig_Len c = min (nat n) (sig_Len s)
    \<and> (\<forall>e. go_get s e = (case go_get c e of Some p \<Rightarrow> Some p | None \<Rightarrow> go_get s' e))
    \<and> (\<forall>e. go_get c e = None \<or> go_get s' e = None)
    \<and> (\<not> sig_Empty s \<and> sig_Empty s' \<longrightarrow> s' = None)"
proof (cases "sig_Empty s")
  case True
  then show ?thesis using assms(3) by (auto simp: sig_Split_def sig_Len_def sig_Empty_def go_len_def)
next
  case False
  define xs where "xs = take (nat n) (go_range s)"
  have d: "distinct (map fst (go_range s))" using assms(1) by (simp add: wfm_def go_keys_def)
  then have dx: "distinct (map fst xs)" by (simp add: xs_def take_map [symmetric] distinct_take)
  have c: "c = fold (\<lambda>(e, p). go_set e p) xs (Some [])"
    and s': "go_get s' = go_get (fold (\<lambda>(e, p). go_del e) xs s)" "sig_Empty s' \<Longrightarrow> s' = None"
    using False assms(2,3) by (auto simp: sig_Split_def split_loop_take xs_def Let_def sig_Empty_def fun_eq_iff split: if_splits)
  have cget: "go_get c e = map_of xs e" for e unfolding c by (rule fold_set_level [OF dx])
  have "map_of xs e = Some p \<Longrightarrow> go_get s e = Some p" for e p
    using d by (metis go_get_def in_set_takeD map_of_SomeD map_of_is_SomeI xs_def)
  moreover have "sig_Len c = length xs"
    unfolding c using fold_set_len [OF dx, of "Some []"] by (simp add: sig_Len_def go_len_def)
  then have "sig_Len c = min (nat n) (sig_Len s)" by (simp add: xs_def sig_Len_def go_len_def min.commute)
  ultimately show ?thesis
    using s' by (auto simp: cget fold_del_get map_of_eq_None_iff split: option.splits)
qed

lemma sig_Split_partitions_witness:
  "sig_Len (snd (sig_Split 2 (Some [(1, 1), (2, 1), (3, 1)]))) = 2"
  using sig_Split_partitions [of "Some [(1, 1), (2, 1), (3, 1)]" 2 "fst (sig_Split 2 (Some [(1, 1), (2, 1), (3, 1)]))"
      "snd (sig_Split 2 (Some [(1, 1), (2, 1), (3, 1)]))"]
  by (simp add: wfm_def go_keys_def sig_Len_def [of "Some [(1, 1), (2, 1), (3, 1)]"] go_len_def)

section \<open>Minimizing a corpus\<close>

definition covered_level :: "cover_map \<Rightarrow> elemType \<Rightarrow> int option" where
  "covered_level cm e = map_option (\<lambda>(p, i). sint p) (go_get cm e)"

lemma cover_elem_level:
  "covered_level (cover_elem i (e, p) cm) e' = (if e = e' then sup (covered_level cm e) (Some (sint p)) else covered_level cm e')"
  by (auto simp: cover_elem_def covered_level_def word_sless_alt sup_max split: option.splits prod.splits)

text \<open>Every entry of the map points at a program of the corpus that has the element at that priority.\<close>

definition cover_points :: "'c Context list \<Rightarrow> cover_map \<Rightarrow> bool" where
  "cover_points cs cm \<longleftrightarrow> (\<forall>e p i. go_get cm e = Some (p, i) \<longrightarrow> i < length cs \<and> go_get (ctx_Signal (cs ! i)) e = Some p)"

lemma cover_fold:
  assumes "i < length cs" "\<forall>(e, p) \<in> set xs. go_get (ctx_Signal (cs ! i)) e = Some p" "cover_points cs cm"
  shows "cover_points cs (fold (cover_elem i) xs cm)
    \<and> (\<forall>e. covered_level cm e \<le> covered_level (fold (cover_elem i) xs cm) e)
    \<and> (\<forall>(e, p) \<in> set xs. Some (sint p) \<le> covered_level (fold (cover_elem i) xs cm) e)"
  using assms
proof (induction xs arbitrary: cm)
  case (Cons x xs)
  obtain e p where x: "x = (e, p)" by (cases x)
  have pts: "cover_points cs (cover_elem i (e, p) cm)"
    using Cons.prems x by (auto simp: cover_points_def cover_elem_def split: option.splits)
  have up: "covered_level cm e' \<le> covered_level (cover_elem i (e, p) cm) e'"
      "Some (sint p) \<le> covered_level (cover_elem i (e, p) cm) e" for e'
    by (simp_all add: cover_elem_level)
  define cm' where "cm' = fold (cover_elem i) xs (cover_elem i (e, p) cm)"
  have IH: "cover_points cs cm'" "covered_level (cover_elem i (e, p) cm) e' \<le> covered_level cm' e'"
      "\<forall>(e, p) \<in> set xs. Some (sint p) \<le> covered_level cm' e" for e'
    using Cons.IH [OF Cons.prems(1) _ pts] Cons.prems(2) by (simp_all add: cm'_def)
  have "covered_level cm e' \<le> covered_level cm' e'" for e'
    using up(1) IH(2) by (rule order_trans)
  moreover have "Some (sint p) \<le> covered_level cm' e"
    using up(2) IH(2) by (rule order_trans)
  moreover have "fold (cover_elem i) (x # xs) cm = cm'" by (simp add: cm'_def x)
  ultimately show ?case using IH(1,3) x by simp
qed simp

lemma cover_corpus_spec:
  assumes "i + length ds = length cs" "\<forall>j < length ds. ds ! j = cs ! (i + j)" "\<forall>c \<in> set cs. wfm (ctx_Signal c)" "cover_points cs cm"
  shows "cover_points cs (cover_corpus i ds cm)
    \<and> (\<forall>e. covered_level cm e \<le> covered_level (cover_corpus i ds cm) e)
    \<and> (\<forall>d \<in> set ds. \<forall>e. level (ctx_Signal d) e \<le> covered_level (cover_corpus i ds cm) e)"
  using assms
proof (induction ds arbitrary: i cm)
  case (Cons d ds)
  have i: "i < length cs" and d: "d = cs ! i" using Cons.prems(1) Cons.prems(2) [rule_format, of 0] by auto
  then have w: "wfm (ctx_Signal d)" using Cons.prems(3) by simp
  have range: "\<forall>(e, p) \<in> set (go_range (ctx_Signal d)). go_get (ctx_Signal (cs ! i)) e = Some p"
    using w d by (auto simp: go_range_get)
  define cm1 where "cm1 = fold (cover_elem i) (go_range (ctx_Signal d)) cm"
  define cm2 where "cm2 = cover_corpus (Suc i) ds cm1"
  have 1: "cover_points cs cm1" "covered_level cm e \<le> covered_level cm1 e"
      "\<forall>(e, p) \<in> set (go_range (ctx_Signal d)). Some (sint p) \<le> covered_level cm1 e" for e
    using cover_fold [OF i range Cons.prems(4)] d unfolding cm1_def by blast+
  have tl: "\<forall>j < length ds. ds ! j = cs ! (Suc i + j)"
    using Cons.prems(2) by (metis Suc_less_eq add_Suc_shift length_Cons nth_Cons_Suc)
  have 2: "cover_points cs cm2" "covered_level cm1 e \<le> covered_level cm2 e"
      "\<forall>d \<in> set ds. \<forall>e. level (ctx_Signal d) e \<le> covered_level cm2 e" for e
    using Cons.IH [OF _ tl Cons.prems(3) 1(1)] Cons.prems(1) by (simp_all add: cm2_def)
  have "level (ctx_Signal d) e \<le> covered_level cm1 e" for e
    using 1(3) w by (cases "go_get (ctx_Signal d) e") (auto simp: level_def go_range_get)
  then have "level (ctx_Signal d) e \<le> covered_level cm2 e" for e
    using 2(2) by (rule order_trans)
  moreover have "covered_level cm e \<le> covered_level cm2 e" for e
    using 1(2) 2(2) by (rule order_trans)
  moreover have "cover_corpus i (d # ds) cm = cm2" by (simp add: cm1_def cm2_def)
  ultimately show ?case using 2(1,3) by simp
qed simp

lemma fold_indices:
  "set (go_keys (fold (\<lambda>(e, cp) m. go_set (snd cp) () m) al m)) = set (go_keys m) \<union> (\<lambda>x. snd (snd x)) ` set al"
  by (induction al arbitrary: m) auto

lemma wfm_cover_corpus: "wfm cm \<Longrightarrow> wfm (cover_corpus i ds cm)"
proof (induction i ds cm rule: cover_corpus.induct)
  case (2 i c cs covered)
  have "wfm (fold (cover_elem i) (go_range (ctx_Signal c)) covered)"
    by (rule fold_keep) (use 2 in \<open>auto simp: cover_elem_def split: option.splits\<close>)
  then show ?case using 2 by simp
qed simp

lemma Minimize_levels:
  assumes sorts: "\<And>less xs. mset (srt less xs) = mset xs" and wf: "\<forall>c \<in> set corpus. wfm (ctx_Signal c)"
  shows "(\<forall>c \<in> set corpus. \<forall>e p. level (ctx_Signal c) e = Some p \<longrightarrow>
      (\<exists>d \<in> set corpus. ctx_Context d \<in> set (Minimize srt corpus) \<and> Some p \<le> level (ctx_Signal d) e))
    \<and> mset (Minimize srt corpus) \<subseteq># image_mset ctx_Context (mset corpus)"
proof -
  define cs where "cs = srt (\<lambda>a b. sig_Len (ctx_Signal a) > sig_Len (ctx_Signal b)) corpus"
  define cm where "cm = cover_corpus 0 cs (Some [])"
  define ix where "ix = fold (\<lambda>(_, cp) m. go_set (snd cp) () m) (go_range cm) (Some [])"
  have M: "Minimize srt corpus = map (\<lambda>i. ctx_Context (cs ! i)) (go_keys ix)"
    by (simp add: Minimize_def cs_def cm_def ix_def Let_def)
  have set: "mset cs = mset corpus" "set cs = set corpus"
    using sorts [of _ corpus] by (auto simp: cs_def dest: mset_eq_setD)
  have spec: "cover_points cs cm" "d \<in> set cs \<Longrightarrow> level (ctx_Signal d) e \<le> covered_level cm e" for d e
    using cover_corpus_spec [of 0 cs cs "Some []"] wf set by (auto simp: cm_def cover_points_def)
  have keys: "set (go_keys ix) = (\<lambda>x. snd (snd x)) ` set (go_range cm)"
    by (simp add: ix_def fold_indices)
  have wcm: "wfm cm" by (simp add: cm_def wfm_cover_corpus)
  have bound: "\<forall>i \<in> set (go_keys ix). i < length cs"
    using spec(1) wcm by (auto simp: keys cover_points_def go_range_get)
  have "wfm ix" unfolding ix_def by (rule fold_keep) auto
  then have "mset (go_keys ix) \<subseteq># mset [0..<length cs]"
    using bound by (simp add: wfm_def mset_set_set [symmetric] subset_imp_msubset_mset_set subset_iff del: mset_upt)
  then have "mset (Minimize srt corpus) \<subseteq># image_mset (\<lambda>i. ctx_Context (cs ! i)) (mset [0..<length cs])"
    unfolding M mset_map by (rule image_mset_subseteq_mono)
  also have "image_mset (\<lambda>i. ctx_Context (cs ! i)) (mset [0..<length cs]) = image_mset ctx_Context (mset cs)"
  proof -
    have "map (\<lambda>i. ctx_Context (cs ! i)) [0..<length cs] = map ctx_Context cs"
      by (rule nth_equalityI) simp_all
    then show ?thesis by (metis mset_map)
  qed
  finally have 1: "mset (Minimize srt corpus) \<subseteq># image_mset ctx_Context (mset corpus)" by (simp add: set)
  have 2: "\<exists>d \<in> set corpus. ctx_Context d \<in> set (Minimize srt corpus) \<and> Some p \<le> level (ctx_Signal d) e"
    if "c \<in> set corpus" "level (ctx_Signal c) e = Some p" for c e p
  proof -
    have "Some p \<le> covered_level cm e" using spec(2) [of c e] that set by simp
    then obtain q i where qi: "go_get cm e = Some (q, i)" "p \<le> sint q"
      by (cases "go_get cm e") (auto simp: covered_level_def)
    then have i: "i < length cs" "go_get (ctx_Signal (cs ! i)) e = Some q"
      using spec(1) by (simp_all add: cover_points_def)
    have "(e, q, i) \<in> set (go_range cm)" using qi(1) wcm by (simp add: go_range_get)
    then have "i \<in> set (go_keys ix)" unfolding keys by (rule rev_image_eqI) simp
    have "cs ! i \<in> set corpus" using i(1) set(2) nth_mem by metis
    moreover have "ctx_Context (cs ! i) \<in> set (Minimize srt corpus)"
      unfolding M set_map using \<open>i \<in> set (go_keys ix)\<close> by (rule imageI)
    moreover have "Some p \<le> level (ctx_Signal (cs ! i)) e" using i qi by (simp add: level_def)
    ultimately show ?thesis by blast
  qed
  from 1 2 show ?thesis by blast
qed

text \<open>
  C36: the minimized corpus covers what the corpus covers: for every element of every program
  there is a program among those kept that has the element at the same or a higher priority,
  and only programs of the corpus are kept, each at most once.
\<close>

theorem Minimize_keeps_levels:
  assumes sorts: "\<And>less xs. mset (srt less xs) = mset xs" and wf: "\<forall>c \<in> set corpus. wfm (ctx_Signal c)"
  shows "(\<forall>c \<in> set corpus. \<forall>e p. level (ctx_Signal c) e = Some p \<longrightarrow>
      (\<exists>d \<in> set corpus. ctx_Context d \<in> set (Minimize srt corpus) \<and> Some p \<le> level (ctx_Signal d) e))
    \<and> mset (Minimize srt corpus) \<subseteq># image_mset ctx_Context (mset corpus)"
  by (rule Minimize_levels [OF sorts wf])

theorem Minimize_keeps_levels_witness:
  "mset (Minimize (\<lambda>_ xs. xs) [\<lparr>ctx_Signal = Some [(1, 2), (2, 1)], ctx_Context = ''a''\<rparr>,
      \<lparr>ctx_Signal = Some [(1, 1)], ctx_Context = ''b''\<rparr>]) \<subseteq># {#''a'', ''b''#}"
  using Minimize_keeps_levels [of "\<lambda>_ xs. xs" "[\<lparr>ctx_Signal = Some [(1, 2), (2, 1)], ctx_Context = ''a''\<rparr>,
      \<lparr>ctx_Signal = Some [(1, 1)], ctx_Context = ''b''\<rparr>]"]
  by (simp add: wfm_def go_keys_def)

text \<open>
  A program counter is restored from its two halves: the low word is the recorded
  counter and the high word the base, so different recorded pairs give different counters.
\<close>

lemma RestorePC_halves:
  "ucast (RestorePC pc base) = pc \<and> ucast (drop_bit 32 (RestorePC pc base)) = base"
proof -
  have "push_bit 32 (ucast base :: uint64) AND ucast pc = 0"
    by (rule bit_word_eqI) (auto simp: bit_simps dest: bit_imp_le_length)
  then have "RestorePC pc base = push_bit 32 (ucast base) OR ucast pc"
    by (simp add: RestorePC_def disjunctive_add_eq_or)
  moreover have "\<not> bit pc (32 + n)" for n
    by (auto dest: bit_imp_le_length)
  ultimately show ?thesis
    by (auto intro!: bit_word_eqI simp: bit_simps dest: bit_imp_le_length)
qed

end
