(* ===== verification/Work_Queue.thy ===== *)
theory Work_Queue
  imports Dra_Types Step_System "HOL-Library.Multiset"
begin

text \<open>
  The work queue of a fuzzer process, \<open>syz-fuzzer/workqueue.go\<close>.

  The queue holds one stack per kind of work. The programs (\<open>'p\<close>) and the results of an
  execution (\<open>'i\<close>) it carries are never looked into. \<open>needCandidates\<close> is a buffered
  channel, of which only the number of pending values matters.

  \<open>dequeue\<close> tests for work under the read lock, gives the lock up and takes an item under
  the write lock; the two halves are \<open>dequeue_check\<close> and \<open>dequeue_take\<close>, and
  \<open>wq_step\<close> interleaves them between any number of goroutines.
\<close>

section \<open>Definitions\<close>

type_synonym ProgTypes = "64 word"

definition ProgCandidate :: ProgTypes where "ProgCandidate = 1"

definition ProgMinimized :: ProgTypes where "ProgMinimized = 2"

definition ProgSmashed :: ProgTypes where "ProgSmashed = 4"

definition ProgNormal :: ProgTypes where "ProgNormal = 0"

record ('p, 'i) WorkTriage =
  wt_p :: 'p
  wt_call :: int
  wt_info :: 'i
  wt_flags :: ProgTypes

record 'p WorkCandidate =
  wc_p :: 'p
  wc_flags :: ProgTypes

record 'p WorkSmash =
  ws_p :: 'p
  ws_call :: int

record WorkDependency =
  wd_task :: Task
  wd_call :: int

record WorkBoot =
  wb_task :: Task
  wb_call :: int

text \<open>A value of the type \<^verbatim>\<open>interface{}\<close>: one of the kinds of work, or anything else.\<close>

datatype ('p, 'i) work_item =
  ItemTriage "('p, 'i) WorkTriage" | ItemCandidate "'p WorkCandidate" | ItemSmash "'p WorkSmash"
| ItemDependency WorkDependency | ItemBoot WorkBoot | ItemOther

record channel =
  ch_cap :: nat
  ch_len :: nat

record ('p, 'i) WorkQueue =
  wq_triageCandidate :: "('p, 'i) WorkTriage list"
  wq_candidate :: "'p WorkCandidate list"
  wq_triage :: "('p, 'i) WorkTriage list"
  wq_smash :: "'p WorkSmash list"
  wq_high :: "WorkDependency list"
  wq_dependency :: "WorkDependency list"
  wq_boot :: "WorkBoot list"
  wq_procs :: int
  wq_needCandidates :: channel

definition newWorkQueue :: "int \<Rightarrow> channel \<Rightarrow> ('p, 'i) WorkQueue" where
  "newWorkQueue procs needCandidates = \<lparr>wq_triageCandidate = [], wq_candidate = [], wq_triage = [], wq_smash = [],
     wq_high = [], wq_dependency = [], wq_boot = [], wq_procs = procs, wq_needCandidates = needCandidates\<rparr>"

definition addDependency :: "WorkDependency \<Rightarrow> ('p, 'i) WorkQueue \<Rightarrow> ('p, 'i) WorkQueue" where
  "addDependency task wq = wq\<lparr>wq_dependency := wq_dependency wq @ [task]\<rparr>"

fun enqueue :: "('p, 'i) work_item \<Rightarrow> ('p, 'i) WorkQueue \<Rightarrow> ('p, 'i) WorkQueue res" where
  "enqueue (ItemTriage item) wq =
    Inr (if wt_flags item AND ProgCandidate \<noteq> 0 then wq\<lparr>wq_triageCandidate := wq_triageCandidate wq @ [item]\<rparr>
         else wq\<lparr>wq_triage := wq_triage wq @ [item]\<rparr>)"
| "enqueue (ItemCandidate item) wq = Inr (wq\<lparr>wq_candidate := wq_candidate wq @ [item]\<rparr>)"
| "enqueue (ItemSmash item) wq = Inr (wq\<lparr>wq_smash := wq_smash wq @ [item]\<rparr>)"
| "enqueue (ItemDependency item) wq = Inr (wq\<lparr>wq_high := wq_high wq @ [item]\<rparr>)"
| "enqueue (ItemBoot item) wq = Inr (wq\<lparr>wq_boot := wq_boot wq @ [item]\<rparr>)"
| "enqueue ItemOther wq = Inl (Panic ''unknown work type'')"

text \<open>A send inside \<open>select\<close> with a default: lost when the buffer is full.\<close>

definition try_send :: "channel \<Rightarrow> channel" where
  "try_send ch = (if ch_len ch < ch_cap ch then ch\<lparr>ch_len := Suc (ch_len ch)\<rparr> else ch)"

definition dequeue_check :: "('p, 'i) WorkQueue \<Rightarrow> bool" where
  "dequeue_check wq \<longleftrightarrow> length (wq_triageCandidate wq) + length (wq_candidate wq) + length (wq_triage wq) +
     length (wq_high wq) + length (wq_boot wq) + length (wq_smash wq) \<noteq> 0"

definition dequeue_take :: "('p, 'i) WorkQueue \<Rightarrow> ('p, 'i) work_item option \<times> ('p, 'i) WorkQueue" where
  "dequeue_take wq =
    (if wq_boot wq \<noteq> [] then (Some (ItemBoot (last (wq_boot wq))), wq\<lparr>wq_boot := butlast (wq_boot wq)\<rparr>)
     else if wq_high wq \<noteq> [] then (Some (ItemDependency (last (wq_high wq))), wq\<lparr>wq_high := butlast (wq_high wq)\<rparr>)
     else if wq_triageCandidate wq \<noteq> [] then
       (Some (ItemTriage (last (wq_triageCandidate wq))), wq\<lparr>wq_triageCandidate := butlast (wq_triageCandidate wq)\<rparr>)
     else if wq_candidate wq \<noteq> [] then
       (let wq' = wq\<lparr>wq_candidate := butlast (wq_candidate wq)\<rparr>;
            wantCandidates = (int (length (wq_candidate wq')) < wq_procs wq')
        in (Some (ItemCandidate (last (wq_candidate wq))),
            if wantCandidates then wq'\<lparr>wq_needCandidates := try_send (wq_needCandidates wq')\<rparr> else wq'))
     else if wq_triage wq \<noteq> [] then (Some (ItemTriage (last (wq_triage wq))), wq\<lparr>wq_triage := butlast (wq_triage wq)\<rparr>)
     else if wq_smash wq \<noteq> [] then (Some (ItemSmash (last (wq_smash wq))), wq\<lparr>wq_smash := butlast (wq_smash wq)\<rparr>)
     else (None, wq))"

definition dequeue :: "('p, 'i) WorkQueue \<Rightarrow> ('p, 'i) work_item option \<times> ('p, 'i) WorkQueue" where
  "dequeue wq = (if dequeue_check wq then dequeue_take wq else (None, wq))"

definition dequeueDependency :: "('p, 'i) WorkQueue \<Rightarrow> WorkDependency option \<times> ('p, 'i) WorkQueue" where
  "dequeueDependency wq =
    (if wq_dependency wq = [] then (None, wq)
     else (Some (last (wq_dependency wq)), wq\<lparr>wq_dependency := butlast (wq_dependency wq)\<rparr>))"

definition wantCandidates :: "('p, 'i) WorkQueue \<Rightarrow> bool" where
  "wantCandidates wq \<longleftrightarrow> int (length (wq_candidate wq)) < wq_procs wq"

section \<open>The contract: a stack with priorities\<close>

text \<open>
  The abstract queue is the list of the items in the order in which they came; what is
  handed out is the newest item of the most urgent kind present.
\<close>

fun rank :: "('p, 'i) work_item \<Rightarrow> nat" where
  "rank (ItemBoot _) = 0"
| "rank (ItemDependency _) = 1"
| "rank (ItemTriage t) = (if wt_flags t AND ProgCandidate \<noteq> 0 then 2 else 4)"
| "rank (ItemCandidate _) = 3"
| "rank (ItemSmash _) = 5"
| "rank ItemOther = 6"

definition of_rank :: "nat \<Rightarrow> ('p, 'i) work_item list \<Rightarrow> ('p, 'i) work_item list" where
  "of_rank k = filter (\<lambda>i. rank i = k)"

definition spec_take :: "('p, 'i) work_item list \<Rightarrow> ('p, 'i) work_item \<Rightarrow> ('p, 'i) work_item list \<Rightarrow> bool" where
  "spec_take xs i ys \<longleftrightarrow> (\<exists>us vs. xs = us @ i # vs \<and> ys = us @ vs \<and>
     (\<forall>j \<in> set xs. rank i \<le> rank j) \<and> (\<forall>j \<in> set vs. rank j \<noteq> rank i))"

text \<open>The concrete queue has the items of each rank, in the same order, in the stack for that rank.\<close>

definition stack :: "nat \<Rightarrow> ('p, 'i) WorkQueue \<Rightarrow> ('p, 'i) work_item list" where
  "stack k wq =
    (if k = 0 then map ItemBoot (wq_boot wq) else if k = 1 then map ItemDependency (wq_high wq)
     else if k = 2 then map ItemTriage (wq_triageCandidate wq) else if k = 3 then map ItemCandidate (wq_candidate wq)
     else if k = 4 then map ItemTriage (wq_triage wq) else if k = 5 then map ItemSmash (wq_smash wq) else [])"

definition implements :: "('p, 'i) WorkQueue \<Rightarrow> ('p, 'i) work_item list \<Rightarrow> bool" where
  "implements wq xs \<longleftrightarrow> (\<forall>k. stack k wq = of_rank k xs)"

lemmas stacks = stack_def of_rank_def

lemma of_rank_simps [simp]: "of_rank k [] = []" "of_rank k (xs @ ys) = of_rank k xs @ of_rank k ys"
  "of_rank k (i # xs) = (if rank i = k then i # of_rank k xs else of_rank k xs)"
  by (simp_all add: of_rank_def)

lemma implements_new: "implements (newWorkQueue procs ch) []"
  by (simp add: implements_def newWorkQueue_def stack_def)

lemma enqueue_stack:
  "enqueue i wq = Inr wq' \<Longrightarrow> stack k wq' = stack k wq @ of_rank k [i]"
  by (cases i) (auto simp: stack_def)

lemma implements_no_other: "implements wq xs \<Longrightarrow> j \<in> set xs \<Longrightarrow> rank j < 6"
proof (rule ccontr)
  assume *: "implements wq xs" "j \<in> set xs" "\<not> rank j < 6"
  then have "stack (rank j) wq = []" by (simp add: stack_def)
  then have "of_rank (rank j) xs = []" using *(1) by (metis implements_def)
  then show False using *(2) by (auto simp: of_rank_def filter_empty_conv)
qed

lemma dequeue_check_stack: "dequeue_check wq \<longleftrightarrow> (\<exists>k < 6. stack k wq \<noteq> [])"
proof
  assume "dequeue_check wq"
  then have "\<exists>k \<in> {0, 1, 2, 3, 4, 5}. stack k wq \<noteq> []" by (auto simp: dequeue_check_def stack_def)
  then show "\<exists>k < 6. stack k wq \<noteq> []" by force
next
  assume "\<exists>k < 6. stack k wq \<noteq> []"
  then show "dequeue_check wq" by (auto simp: dequeue_check_def stack_def split: if_splits)
qed

text \<open>Taking an item pops the first stack that is not empty.\<close>

lemma dequeue_pops:
  assumes "dequeue wq = (Some i, wq')"
  shows "\<exists>k < 6. stack k wq \<noteq> [] \<and> i = last (stack k wq) \<and> (\<forall>j < k. stack j wq = [])
    \<and> (\<forall>j. stack j wq' = (if j = k then butlast (stack k wq) else stack j wq))"
proof -
  have cand: "stack j (if b then w\<lparr>wq_needCandidates := c\<rparr> else w) = stack j w" for j b c and w :: "('a, 'b) WorkQueue"
    by (simp add: stack_def)
  have take: "dequeue_take wq = (Some i, wq')" using assms by (auto simp: dequeue_def split: if_splits)
  consider "wq_boot wq \<noteq> []" | "wq_boot wq = []" "wq_high wq \<noteq> []"
    | "wq_boot wq = []" "wq_high wq = []" "wq_triageCandidate wq \<noteq> []"
    | "wq_boot wq = []" "wq_high wq = []" "wq_triageCandidate wq = []" "wq_candidate wq \<noteq> []"
    | "wq_boot wq = []" "wq_high wq = []" "wq_triageCandidate wq = []" "wq_candidate wq = []" "wq_triage wq \<noteq> []"
    | "wq_boot wq = []" "wq_high wq = []" "wq_triageCandidate wq = []" "wq_candidate wq = []" "wq_triage wq = []"
      "wq_smash wq \<noteq> []"
    using take by (auto simp: dequeue_take_def split: if_splits)
  then show ?thesis
  proof cases
    case 1 with take show ?thesis by (intro exI [of _ 0]) (auto simp: dequeue_take_def stack_def last_map map_butlast)
  next
    case 2 with take show ?thesis by (intro exI [of _ 1]) (auto simp: dequeue_take_def stack_def last_map map_butlast)
  next
    case 3 with take show ?thesis by (intro exI [of _ 2]) (auto simp: dequeue_take_def stack_def last_map map_butlast)
  next
    case 4
    with take have "i = last (map ItemCandidate (wq_candidate wq))"
        "stack j wq' = stack j (wq\<lparr>wq_candidate := butlast (wq_candidate wq)\<rparr>)" for j
      by (auto simp: dequeue_take_def Let_def cand last_map)
    with 4 show ?thesis by (intro exI [of _ 3]) (auto simp: stack_def map_butlast)
  next
    case 5 with take show ?thesis by (intro exI [of _ 4]) (auto simp: dequeue_take_def stack_def last_map map_butlast)
  next
    case 6 with take show ?thesis by (intro exI [of _ 5]) (auto simp: dequeue_take_def stack_def last_map map_butlast)
  qed
qed

lemma split_last_of_rank:
  assumes "of_rank k xs \<noteq> []"
  shows "\<exists>us vs. xs = us @ last (of_rank k xs) # vs \<and> of_rank k vs = [] \<and> rank (last (of_rank k xs)) = k"
  using assms
proof (induction xs rule: rev_induct)
  case (snoc x xs)
  show ?case
  proof (cases "rank x = k")
    case False
    then obtain us vs where "xs = us @ last (of_rank k xs) # vs" "of_rank k vs = []" "rank (last (of_rank k xs)) = k"
      using snoc by auto
    then show ?thesis using False by (intro exI [of _ us] exI [of _ "vs @ [x]"]) simp
  next
    case True
    then show ?thesis by (intro exI [of _ xs] exI [of _ "[]"]) simp
  qed
qed simp

lemma of_rank_empty: "of_rank k xs = [] \<longleftrightarrow> (\<forall>j \<in> set xs. rank j \<noteq> k)"
  by (auto simp: of_rank_def filter_empty_conv)

lemma dequeue_none: "dequeue wq = (None, wq') \<longleftrightarrow> \<not> dequeue_check wq \<and> wq' = wq"
  by (auto simp: dequeue_def dequeue_take_def dequeue_check_def Let_def split: if_splits)

lemma enqueue_implements:
  assumes "implements wq xs" "enqueue i wq = Inr wq'"
  shows "implements wq' (xs @ [i])"
  using assms(1) by (simp add: implements_def enqueue_stack [OF assms(2)])

lemma implements_empty:
  assumes "implements wq xs"
  shows "dequeue_check wq \<longleftrightarrow> xs \<noteq> []"
proof -
  have stack: "stack k wq = of_rank k xs" for k using assms by (simp add: implements_def)
  show ?thesis
    using implements_no_other [OF assms]
    by (cases xs) (auto simp: dequeue_check_stack stack of_rank_empty)
qed

lemma dequeue_implements:
  assumes "implements wq xs" "dequeue wq = (Some i, wq')"
  shows "\<exists>ys. spec_take xs i ys \<and> implements wq' ys"
proof -
  have stack: "stack k wq = of_rank k xs" for k using assms(1) by (simp add: implements_def)
  obtain k where k: "of_rank k xs \<noteq> []" "i = last (of_rank k xs)" "\<forall>j < k. of_rank j xs = []"
      "\<forall>j. stack j wq' = (if j = k then butlast (of_rank k xs) else of_rank j xs)"
    using dequeue_pops [OF assms(2)] by (auto simp: stack)
  then obtain us vs where xs: "xs = us @ i # vs" "of_rank k vs = []" "rank i = k"
    using split_last_of_rank [of k xs] by auto
  have "\<forall>j \<in> set xs. k \<le> rank j" using k(3) of_rank_empty leI by metis
  then have "spec_take xs i (us @ vs)"
    using xs by (auto simp: spec_take_def of_rank_empty)
  moreover have "implements wq' (us @ vs)"
    using k(4) xs by (auto simp: implements_def butlast_append)
  ultimately show ?thesis by blast
qed

text \<open>
  C30: the work queue refines a stack with priorities: if the six stacks hold the items of an
  abstract list by kind, \<open>enqueue\<close> appends to the list (and panics only on a value that is
  no work), and \<open>dequeue\<close> returns nil exactly when the list is empty and otherwise removes
  the newest item of the most urgent kind present (boot, high, candidate triage, candidate,
  triage, smash).
\<close>

theorem work_queue_refines:
  assumes "implements wq xs"
  shows "(case enqueue i wq of Inr wq' \<Rightarrow> implements wq' (xs @ [i])
        | Inl e \<Rightarrow> i = ItemOther \<and> e = Panic ''unknown work type'')
    \<and> (case dequeue wq of (None, wq') \<Rightarrow> xs = [] \<and> wq' = wq
        | (Some j, wq') \<Rightarrow> \<exists>ys. spec_take xs j ys \<and> implements wq' ys)"
proof
  have "enqueue i wq = Inl e \<longleftrightarrow> i = ItemOther \<and> e = Panic ''unknown work type''" for e by (cases i) auto
  then show "case enqueue i wq of Inr wq' \<Rightarrow> implements wq' (xs @ [i])
      | Inl e \<Rightarrow> i = ItemOther \<and> e = Panic ''unknown work type''"
    using enqueue_implements [OF assms] by (auto split: sum.split)
  show "case dequeue wq of (None, wq') \<Rightarrow> xs = [] \<and> wq' = wq
      | (Some j, wq') \<Rightarrow> \<exists>ys. spec_take xs j ys \<and> implements wq' ys"
    using dequeue_implements [OF assms] implements_empty [OF assms]
    by (auto simp: dequeue_none split: option.split)
qed

theorem work_queue_refines_witness:
  "fst (dequeue (newWorkQueue 1 \<lparr>ch_cap = 1, ch_len = 0\<rparr> :: (nat, nat) WorkQueue)) = None"
  using work_queue_refines [OF implements_new, of "ItemOther :: (nat, nat) work_item" 1 "\<lparr>ch_cap = 1, ch_len = 0\<rparr>"]
  by (auto split: prod.splits option.splits simp: spec_take_def)

section \<open>Goroutines\<close>

text \<open>
  The state of a fuzzer's procs around the queue: the procs that have passed the first half
  of \<open>dequeue\<close>, and, as history, what was enqueued and what each call handed out.
\<close>

record ('p, 'i) wq_state =
  st_queue :: "('p, 'i) WorkQueue"
  st_waiting :: "nat set"
  st_added :: "('p, 'i) work_item multiset"
  st_taken :: "('p, 'i) work_item multiset"

inductive wq_step :: "('p, 'i) wq_state \<Rightarrow> ('p, 'i) wq_state \<Rightarrow> bool" where
  Enqueue: "enqueue i (st_queue s) = Inr wq \<Longrightarrow>
    wq_step s (s\<lparr>st_queue := wq, st_added := st_added s + {#i#}\<rparr>)"
| Check: "p \<notin> st_waiting s \<Longrightarrow> dequeue_check (st_queue s) \<Longrightarrow>
    wq_step s (s\<lparr>st_waiting := insert p (st_waiting s)\<rparr>)"
| Take: "p \<in> st_waiting s \<Longrightarrow> dequeue_take (st_queue s) = (r, wq) \<Longrightarrow>
    wq_step s (s\<lparr>st_queue := wq, st_waiting := st_waiting s - {p},
      st_taken := st_taken s + (case r of None \<Rightarrow> {#} | Some i \<Rightarrow> {#i#})\<rparr>)"

definition wq_start :: "int \<Rightarrow> channel \<Rightarrow> ('p, 'i) wq_state" where
  "wq_start procs ch = \<lparr>st_queue = newWorkQueue procs ch, st_waiting = {}, st_added = {#}, st_taken = {#}\<rparr>"

abbreviation wq_reachable :: "int \<Rightarrow> channel \<Rightarrow> ('p, 'i) wq_state \<Rightarrow> bool" where
  "wq_reachable procs ch \<equiv> reaches (\<lambda>s. s = wq_start procs ch) wq_step"

inductive_cases wq_stepE: "wq_step s t"

definition queued :: "('p, 'i) WorkQueue \<Rightarrow> ('p, 'i) work_item multiset" where
  "queued wq = mset (stack 0 wq) + mset (stack 1 wq) + mset (stack 2 wq) + mset (stack 3 wq) + mset (stack 4 wq) + mset (stack 5 wq)"

lemma enqueue_queued: "enqueue i wq = Inr wq' \<Longrightarrow> queued wq' = queued wq + {#i#}"
  by (cases i) (auto simp: queued_def stack_def)

lemma mset_butlast: "xs \<noteq> [] \<Longrightarrow> mset xs = mset (butlast xs) + {#last xs#}"
  by (metis append_butlast_last_id mset_append mset.simps)

lemma take_queued:
  assumes "dequeue_take wq = (r, wq')"
  shows "queued wq = queued wq' + (case r of None \<Rightarrow> {#} | Some i \<Rightarrow> {#i#})"
proof (cases r)
  case None
  with assms show ?thesis by (auto simp: dequeue_take_def Let_def split: if_splits)
next
  case (Some i)
  with assms have "dequeue_check wq" "dequeue wq = (Some i, wq')"
    by (auto simp: dequeue_def dequeue_take_def dequeue_check_def Let_def split: if_splits)
  then obtain k where k: "k < 6" "stack k wq \<noteq> []" "i = last (stack k wq)"
      "\<forall>j. stack j wq' = (if j = k then butlast (stack k wq) else stack j wq)"
    using dequeue_pops by blast
  from k(1) have "k \<in> {0, 1, 2, 3, 4, 5}" by auto
  then show ?thesis using k(4) Some mset_butlast [OF k(2)] k(3)
    by (auto simp: queued_def)
qed

lemma queue_procs:
  "enqueue i wq = Inr wq' \<Longrightarrow> wq_procs wq' = wq_procs wq"
  "dequeue_take wq = (r, wq') \<Longrightarrow> wq_procs wq' = wq_procs wq"
  by (cases i) (auto simp: dequeue_take_def Let_def split: if_splits)

definition wq_account :: "int \<Rightarrow> ('p, 'i) wq_state \<Rightarrow> bool" where
  "wq_account procs s \<longleftrightarrow> st_added s = queued (st_queue s) + st_taken s \<and> wq_procs (st_queue s) = procs"

lemma wq_step_account: "wq_step s t \<Longrightarrow> wq_account procs s \<Longrightarrow> wq_account procs t"
  by (cases rule: wq_step.cases) (auto simp: wq_account_def enqueue_queued queue_procs dest: take_queued)

interpretation wq: step_system "\<lambda>s. s = wq_start procs ch" wq_step "wq_account procs" for procs ch
proof unfold_locales
  show "s = wq_start procs ch \<Longrightarrow> wq_account procs s" for s :: "('p, 'i) wq_state"
    by (simp add: wq_account_def wq_start_def queued_def stack_def newWorkQueue_def)
qed (rule wq_step_account)

text \<open>
  C31: no item is lost and none is handed out twice, whatever the interleaving of the procs:
  in every reachable state the items enqueued are exactly those still queued together with
  those handed out, although a proc gives up the lock between seeing work and taking it.
\<close>

theorem work_conserved:
  assumes "wq_reachable procs ch s"
  shows "st_added s = queued (st_queue s) + st_taken s \<and> wq_procs (st_queue s) = procs"
  using wq.reaches_inv [OF assms] by (simp add: wq_account_def)

theorem work_conserved_witness:
  "\<exists>s :: (nat, nat) wq_state. wq_reachable 1 \<lparr>ch_cap = 1, ch_len = 0\<rparr> s
    \<and> st_added s = queued (st_queue s) + st_taken s \<and> st_added s = {#ItemSmash \<lparr>ws_p = 7, ws_call = 0\<rparr>#}"
proof -
  let ?i = "ItemSmash \<lparr>ws_p = 7, ws_call = 0\<rparr> :: (nat, nat) work_item"
  let ?s = "wq_start 1 \<lparr>ch_cap = 1, ch_len = 0\<rparr>"
  obtain wq where wq: "enqueue ?i (st_queue ?s) = Inr wq" by simp
  have "wq_reachable 1 \<lparr>ch_cap = 1, ch_len = 0\<rparr> ?s" by (rule at_start) simp
  then have "wq_reachable 1 \<lparr>ch_cap = 1, ch_len = 0\<rparr> (?s\<lparr>st_queue := wq, st_added := st_added ?s + {#?i#}\<rparr>)"
    by (rule after_step) (rule wq_step.Enqueue [OF wq])
  then show ?thesis using work_conserved by (intro exI conjI) (assumption, blast, simp add: wq_start_def)
qed

text \<open>
  The dependency stack is last in, first out, and apart from the rest of the queue: what
  \<open>addDependency\<close> put last comes back first and the queue is as before.
\<close>

lemma dependency_lifo:
  "dequeueDependency (addDependency d wq) = (Some d, wq) \<and> dequeue_check (addDependency d wq) = dequeue_check wq
    \<and> (wq_dependency wq = [] \<longleftrightarrow> dequeueDependency wq = (None, wq))"
  by (simp add: dequeueDependency_def addDependency_def dequeue_check_def)

end
