(* ===== verification/Hints.thy ===== *)
theory Hints
  imports Go_Prelude
begin

text \<open>
  Comparison hints (\<open>prog/hints.go\<close>): the kernel reports the operands of its comparisons; where
  one operand matches an argument of the program, possibly after a cast to another width or a
  change of byte order, the argument is replaced so that the comparison would hold.

  A data argument is a list of bytes. The callback \<open>exec\<close> is modelled by the list of values it
  is called with.
\<close>

section \<open>Byte order\<close>

definition swap16 :: "16 word \<Rightarrow> 16 word" where
  "swap16 v = (let v0 = (ucast v :: 8 word); v1 = (ucast (drop_bit 8 v) :: 8 word)
     in ucast v1 OR push_bit 8 (ucast v0))"

definition swap32 :: "32 word \<Rightarrow> 32 word" where
  "swap32 v = (let v0 = (ucast v :: 8 word); v1 = (ucast (drop_bit 8 v) :: 8 word);
       v2 = (ucast (drop_bit 16 v) :: 8 word); v3 = (ucast (drop_bit 24 v) :: 8 word)
     in ucast v3 OR push_bit 8 (ucast v2) OR push_bit 16 (ucast v1) OR push_bit 24 (ucast v0))"

definition swap64 :: "64 word \<Rightarrow> 64 word" where
  "swap64 v = (let v0 = (ucast v :: 8 word); v1 = (ucast (drop_bit 8 v) :: 8 word);
       v2 = (ucast (drop_bit 16 v) :: 8 word); v3 = (ucast (drop_bit 24 v) :: 8 word);
       v4 = (ucast (drop_bit 32 v) :: 8 word); v5 = (ucast (drop_bit 40 v) :: 8 word);
       v6 = (ucast (drop_bit 48 v) :: 8 word); v7 = (ucast (drop_bit 56 v) :: 8 word)
     in ucast v7 OR push_bit 8 (ucast v6) OR push_bit 16 (ucast v5) OR push_bit 24 (ucast v4)
        OR push_bit 32 (ucast v3) OR push_bit 40 (ucast v2) OR push_bit 48 (ucast v1) OR push_bit 56 (ucast v0))"

definition swapInt :: "uint64 \<Rightarrow> nat \<Rightarrow> uint64 res" where
  "swapInt v sz =
    (if sz = 1 then Inr v
     else if sz = 2 then Inr (ucast (swap16 (ucast v)))
     else if sz = 4 then Inr (ucast (swap32 (ucast v)))
     else if sz = 8 then Inr (swap64 v)
     else Inl (Panic ''swapInt: bad size''))"






section \<open>The code\<close>

type_synonym CompMap = "(uint64, (uint64, bool) gomap) gomap"

definition AddComp :: "uint64 \<Rightarrow> uint64 \<Rightarrow> CompMap \<Rightarrow> CompMap res" where
  "AddComp arg1 arg2 m =
    rbind (if go_has m arg1 then Inr m else go_put arg1 (Some []) m) (\<lambda>m1.
    rbind (go_put arg2 True (case go_get m1 arg1 of Some c \<Rightarrow> c | None \<Rightarrow> None)) (\<lambda>c.
    go_put arg1 c m1))"

definition specialInts :: "uint64 list" where
  "specialInts = [0, 1, 31, 32, 63, 64, 127, 128, 129, 255, 256, 257, 511, 512, 1023, 1024, 1025, 2047, 2048, 4095, 4096,
     push_bit 15 1 - 1, push_bit 15 1, push_bit 15 1 + 1, push_bit 16 1 - 1, push_bit 16 1, push_bit 16 1 + 1,
     push_bit 31 1 - 1, push_bit 31 1, push_bit 31 1 + 1, push_bit 32 1 - 1, push_bit 32 1, push_bit 32 1 + 1]"

definition hint_mask :: "nat \<Rightarrow> uint64" where
  "hint_mask width = push_bit (width * 8) 1 - 1"

text \<open>The argument as the kernel sees it: cut to \<open>iwidth\<close> bytes, or extended from \<open>-iwidth\<close> bytes with ones.\<close>

definition hint_mutant :: "uint64 \<Rightarrow> int \<Rightarrow> uint64" where
  "hint_mutant v iwidth =
    (if 0 < iwidth then v AND hint_mask (nat iwidth) else v OR NOT (hint_mask (nat (- iwidth))))"

definition add_replacer :: "uint64 \<Rightarrow> nat \<Rightarrow> bool \<Rightarrow> uint64 \<Rightarrow> (uint64, bool) gomap \<Rightarrow> (uint64, bool) gomap res" where
  "add_replacer v width bigendian newV0 replacers =
    (let mask = hint_mask width; newHi = newV0 AND NOT mask; newV1 = newV0 AND mask in
     if newHi \<noteq> 0 \<and> newHi XOR NOT mask \<noteq> 0 then Inr replacers
     else
       rbind (if bigendian then swapInt newV1 width else Inr newV1) (\<lambda>newV.
       if newV \<in> set specialInts then Inr replacers
       else
         let replacer = (v AND NOT mask) OR newV in
         if replacer = v then Inr replacers else Inr (go_set replacer True replacers)))"

definition operands :: "CompMap \<Rightarrow> uint64 \<Rightarrow> uint64 list" where
  "operands compMap mutant = (case go_get compMap mutant of Some c \<Rightarrow> go_keys c | None \<Rightarrow> [])"

definition expand_endian ::
  "uint64 \<Rightarrow> CompMap \<Rightarrow> nat \<Rightarrow> bool \<Rightarrow> uint64 \<times> (uint64, bool) gomap \<Rightarrow> (uint64 \<times> (uint64, bool) gomap) res" where
  "expand_endian v compMap width bigendian s =
    (case s of (mutant, replacers) \<Rightarrow>
     if bigendian \<and> width = 1 then Inr s
     else
       rbind (if bigendian then swapInt mutant width else Inr mutant) (\<lambda>mutant'.
       rmap (\<lambda>r. (mutant', r)) (rfold (add_replacer v width bigendian) (operands compMap mutant') replacers)))"

definition expand_width :: "uint64 \<Rightarrow> CompMap \<Rightarrow> int \<Rightarrow> (uint64, bool) gomap \<Rightarrow> (uint64, bool) gomap res" where
  "expand_width v compMap iwidth replacers =
    rmap snd (rfold (expand_endian v compMap (nat \<bar>iwidth\<bar>)) [False, True] (hint_mutant v iwidth, replacers))"

definition hint_widths :: "int list" where
  "hint_widths = [8, 4, 2, 1, -4, -2, -1]"

definition shrinkExpand :: "uint64 \<Rightarrow> CompMap \<Rightarrow> uint64 list res" where
  "shrinkExpand v compMap = rmap (\<lambda>replacers. sort (go_keys replacers)) (rfold (expand_width v compMap) hint_widths None)"

definition checkConstArg :: "uint64 \<Rightarrow> CompMap \<Rightarrow> (uint64 list \<times> uint64) res" where
  "checkConstArg original compMap = rmap (\<lambda>rs. (rs, original)) (shrinkExpand original compMap)"

section \<open>What a replacer does\<close>

text \<open>The value after a swap of the low bytes, as a total function on the widths in use.\<close>

definition swapped :: "nat \<Rightarrow> uint64 \<Rightarrow> uint64" where
  "swapped w x = (if w = 2 then ucast (swap16 (ucast x)) else if w = 4 then ucast (swap32 (ucast x)) else if w = 8 then swap64 x else x)"

definition in_order :: "bool \<Rightarrow> nat \<Rightarrow> uint64 \<Rightarrow> uint64" where
  "in_order bigendian w x = (if bigendian then swapped w x else x)"

lemma hint_mask_eq: "hint_mask w = mask (8 * w)"
  by (simp add: hint_mask_def mask_eq_exp_minus_1 mult.commute)

lemma swapInt_eq: "w \<in> {1, 2, 4, 8} \<Longrightarrow> swapInt x w = Inr (swapped w x)"
  by (auto simp: swapInt_def swapped_def)


lemma take_bit_64 [simp]: "take_bit 64 (x :: uint64) = x"
  by (rule bit_word_eqI) (simp add: bit_simps)



text \<open>
  The argument with its low bytes replaced by those of an operand, and when the code does it:
  the operand fits the width, the value is none of those that are tried anyway, and it is new.
\<close>

definition patch :: "uint64 \<Rightarrow> nat \<Rightarrow> bool \<Rightarrow> uint64 \<Rightarrow> uint64" where
  "patch v w bigendian n = (v AND NOT (mask (8 * w))) OR in_order bigendian w (take_bit (8 * w) n)"

definition useful :: "uint64 \<Rightarrow> nat \<Rightarrow> bool \<Rightarrow> uint64 \<Rightarrow> bool" where
  "useful v w bigendian n \<longleftrightarrow> n AND NOT (mask (8 * w)) \<in> {0, NOT (mask (8 * w))}
     \<and> in_order bigendian w (take_bit (8 * w) n) \<notin> set specialInts \<and> patch v w bigendian n \<noteq> v"

lemma xor_eq_0_iff: "a XOR b = 0 \<longleftrightarrow> a = (b :: uint64)"
proof
  assume eq: "a XOR b = 0"
  show "a = b"
  proof (rule bit_word_eqI)
    fix n show "bit a n = bit b n" using arg_cong [OF eq, of "\<lambda>w. bit w n"] by (simp add: bit_xor_iff)
  qed
qed simp

lemma xnor_eq_0_iff: "NOT (a XOR b) = 0 \<longleftrightarrow> a = NOT (b :: uint64)"
  using xor_eq_0_iff [of a "NOT b"] by simp

lemma add_replacer_conv:
  assumes "w \<in> {1, 2, 4, 8}"
  shows "add_replacer v w be n m = Inr (if useful v w be n then go_set (patch v w be n) True m else m)"
proof -
  have "(if be then swapInt x w else Inr x) = Inr (in_order be w x)" for x
    using assms by (simp add: swapInt_eq in_order_def)
  then show ?thesis
    by (simp add: add_replacer_def Let_def hint_mask_eq xnor_eq_0_iff useful_def patch_def take_bit_eq_mask)
qed

definition patches :: "uint64 \<Rightarrow> CompMap \<Rightarrow> int \<Rightarrow> bool \<Rightarrow> uint64 set" where
  "patches v compMap iw be = (let w = nat \<bar>iw\<bar> in
     {patch v w be n |n. n \<in> set (operands compMap (in_order be w (hint_mutant v iw))) \<and> useful v w be n})"

lemma add_replacers_conv:
  assumes "w \<in> {1, 2, 4, 8}" "wfm m"
  shows "\<exists>m'. rfold (add_replacer v w be) ns m = Inr m' \<and> wfm m' \<and> set (go_keys m') = set (go_keys m) \<union> {patch v w be n |n. n \<in> set ns \<and> useful v w be n}"
  using assms(2)
proof (induction ns arbitrary: m)
  case (Cons n ns)
  have "wfm (if useful v w be n then go_set (patch v w be n) True m else m)" using Cons.prems by simp
  from Cons.IH [OF this] show ?case by (auto simp: add_replacer_conv [OF assms(1)])
qed simp

lemma expand_width_conv:
  assumes "iw \<in> set hint_widths" "wfm m"
  shows "\<exists>m'. expand_width v compMap iw m = Inr m' \<and> wfm m'
    \<and> set (go_keys m') = set (go_keys m) \<union> patches v compMap iw False \<union> (if \<bar>iw\<bar> = 1 then {} else patches v compMap iw True)"
proof -
  let ?w = "nat \<bar>iw\<bar>"
  have w: "?w \<in> {1, 2, 4, 8}" "\<bar>iw\<bar> = 1 \<longleftrightarrow> ?w = 1" using assms(1) by (auto simp: hint_widths_def)
  obtain m1 where m1: "rfold (add_replacer v ?w False) (operands compMap (hint_mutant v iw)) m = Inr m1" "wfm m1"
    "set (go_keys m1) = set (go_keys m) \<union> patches v compMap iw False"
    using add_replacers_conv [OF w(1) assms(2), of v False "operands compMap (hint_mutant v iw)"] by (auto simp: patches_def in_order_def Let_def)
  obtain m2 where "rfold (add_replacer v ?w True) (operands compMap (swapped ?w (hint_mutant v iw))) m1 = Inr m2" "wfm m2"
    "set (go_keys m2) = set (go_keys m1) \<union> patches v compMap iw True"
    using add_replacers_conv [OF w(1) m1(2), of v True "operands compMap (swapped ?w (hint_mutant v iw))"] by (auto simp: patches_def in_order_def Let_def)
  then show ?thesis using m1 w by (auto simp: expand_width_def expand_endian_def swapInt_eq)
qed

lemma expand_widths_conv:
  assumes "set iws \<subseteq> set hint_widths" "wfm m"
  shows "\<exists>m'. rfold (expand_width v compMap) iws m = Inr m' \<and> wfm m'
    \<and> set (go_keys m') = set (go_keys m) \<union> (\<Union>iw \<in> set iws. patches v compMap iw False \<union> (if \<bar>iw\<bar> = 1 then {} else patches v compMap iw True))"
  using assms
proof (induction iws arbitrary: m)
  case (Cons iw iws)
  from Cons.prems expand_width_conv [of iw m v compMap] obtain m1 where m1: "expand_width v compMap iw m = Inr m1" "wfm m1"
    "set (go_keys m1) = set (go_keys m) \<union> patches v compMap iw False \<union> (if \<bar>iw\<bar> = 1 then {} else patches v compMap iw True)" by auto
  from Cons.IH [OF _ m1(2)] Cons.prems m1 show ?case by auto
qed simp

text \<open>
  \<open>shrinkExpand\<close> never panics and returns, in ascending order and each once, exactly the
  values that come from a reported operand: the argument cut or extended to one of the seven
  widths, in either byte order, was compared with it, and the operand's bytes replace the low
  bytes of the argument.
\<close>

lemma shrinkExpand_exact:
  "\<exists>rs. shrinkExpand v compMap = Inr rs \<and> sorted rs \<and> distinct rs
    \<and> set rs = (\<Union>iw \<in> set hint_widths. patches v compMap iw False \<union> (if \<bar>iw\<bar> = 1 then {} else patches v compMap iw True))"
proof -
  obtain m where m: "rfold (expand_width v compMap) hint_widths None = Inr m" "wfm m"
    "set (go_keys m) = (\<Union>iw \<in> set hint_widths. patches v compMap iw False \<union> (if \<bar>iw\<bar> = 1 then {} else patches v compMap iw True))"
    using expand_widths_conv [of hint_widths None v compMap] by auto
  moreover have "distinct (go_keys m)" using m(2) by (simp add: wfm_def)
  ultimately show ?thesis by (simp add: shrinkExpand_def)
qed










section \<open>Data arguments\<close>

text \<open>Eight bytes, least significant first, as \<open>binary.LittleEndian\<close> has them.\<close>

fun le64 :: "nat \<Rightarrow> uint64 \<Rightarrow> uint8 list" where
  "le64 0 x = []"
| "le64 (Suc n) x = ucast x # le64 n (drop_bit 8 x)"

fun of_le64 :: "uint8 list \<Rightarrow> uint64" where
  "of_le64 [] = 0"
| "of_le64 (b # bs) = ucast b OR push_bit 8 (of_le64 bs)"

text \<open>\<open>copy(data[i:], src)\<close> overwrites what fits.\<close>

definition copy_at :: "nat \<Rightarrow> uint8 list \<Rightarrow> uint8 list \<Rightarrow> uint8 list" where
  "copy_at i src data = take i data @ take (length data - i) src @ drop (i + length src) data"

definition maxDataLength :: nat where "maxDataLength = 100"

text \<open>One execution: the new value is copied into the data; then one position of \<open>checkDataArg\<close>.\<close>

definition exec_replacer :: "nat \<Rightarrow> uint64 \<Rightarrow> uint8 list list \<times> uint8 list \<Rightarrow> uint8 list list \<times> uint8 list" where
  "exec_replacer i replacer s = (let data = copy_at i (le64 8 replacer) (snd s) in (fst s @ [data], data))"

definition check_position :: "CompMap \<Rightarrow> nat \<Rightarrow> uint8 list list \<times> uint8 list \<Rightarrow> (uint8 list list \<times> uint8 list) res" where
  "check_position compMap i s =
    (let original = take 8 (drop i (snd s) @ replicate 8 0) in
     rmap (\<lambda>replacers. let (execs, data) = fold (exec_replacer i) replacers s in (execs, copy_at i original data))
       (shrinkExpand (of_le64 original) compMap))"

definition checkDataArg :: "CompMap \<Rightarrow> uint8 list \<Rightarrow> (uint8 list list \<times> uint8 list) res" where
  "checkDataArg compMap data = rfold (check_position compMap) [0..<min (length data) maxDataLength] ([], data)"

lemma le64_length [simp]: "length (le64 n x) = n"
  by (induction n arbitrary: x) auto

lemma of_le64_le64: "of_le64 (le64 8 x) = x"
proof -
  have "of_le64 (le64 n x) = take_bit (8 * n) x" for n x
  proof (induction n arbitrary: x)
    case (Suc n)
    show ?case by (rule bit_word_eqI) (auto simp: Suc bit_simps)
  qed simp
  then show ?thesis by simp
qed

lemma copy_at_length [simp]: "i \<le> length data \<Longrightarrow> length (copy_at i src data) = length data"
  by (auto simp: copy_at_def)

lemma copy_at_nth:
  "i \<le> length data \<Longrightarrow> j < length data \<Longrightarrow> copy_at i src data ! j = (if i \<le> j \<and> j < i + length src then src ! (j - i) else data ! j)"
  by (auto simp: copy_at_def nth_append min_def)

text \<open>The data differs from the original in the eight bytes at a position at most.\<close>

definition same_but :: "nat \<Rightarrow> uint8 list \<Rightarrow> uint8 list \<Rightarrow> bool" where
  "same_but i data d \<longleftrightarrow> length d = length data \<and> (\<forall>j < length data. j < i \<or> i + 8 \<le> j \<longrightarrow> d ! j = data ! j)"

lemma exec_replacers_conv:
  assumes "i \<le> length data" "same_but i data d"
  shows "\<exists>es d'. fold (exec_replacer i) rs (execs, d) = (execs @ es, d') \<and> same_but i data d' \<and> (\<forall>e \<in> set es. same_but i data e)"
  using assms(2)
proof (induction rs arbitrary: execs d)
  case (Cons r rs)
  have "same_but i data (copy_at i (le64 8 r) d)" using Cons.prems assms(1) by (auto simp: same_but_def copy_at_nth)
  moreover obtain es d' where "fold (exec_replacer i) rs (execs @ [copy_at i (le64 8 r) d], copy_at i (le64 8 r) d) = ((execs @ [copy_at i (le64 8 r) d]) @ es, d')"
    "same_but i data d'" "\<forall>e \<in> set es. same_but i data e"
    using Cons.IH [OF calculation] by blast
  moreover have "exec_replacer i r (execs, d) = (execs @ [copy_at i (le64 8 r) d], copy_at i (le64 8 r) d)" by (simp add: exec_replacer_def Let_def)
  ultimately show ?case by (intro exI [of _ "copy_at i (le64 8 r) d # es"] exI [of _ d']) simp
qed simp

lemma restore_original:
  assumes "i \<le> length data" "same_but i data d"
  shows "copy_at i (take 8 (drop i data @ replicate 8 0)) d = data"
proof (rule nth_equalityI)
  show "length (copy_at i (take 8 (drop i data @ replicate 8 0)) d) = length data" using assms by (simp add: same_but_def)
next
  fix j assume "j < length (copy_at i (take 8 (drop i data @ replicate 8 0)) d)"
  then have j: "j < length data" "j < length d" using assms by (simp_all add: same_but_def)
  then show "copy_at i (take 8 (drop i data @ replicate 8 0)) d ! j = data ! j"
    using assms by (auto simp: same_but_def copy_at_nth nth_append)
qed

text \<open>
  \<open>checkDataArg\<close> never panics, executes only data of the same length that differs from the
  argument in eight bytes at one of the first hundred positions, and restores the argument.
\<close>

lemma checkDataArg_restores:
  "\<exists>execs. checkDataArg compMap data = Inr (execs, data)
    \<and> (\<forall>d \<in> set execs. \<exists>i < min (length data) 100. length d = length data \<and> (\<forall>j < length data. j < i \<or> i + 8 \<le> j \<longrightarrow> d ! j = data ! j))"
proof -
  have step: "\<exists>es. check_position compMap i (execs, data) = Inr (execs @ es, data) \<and> (\<forall>e \<in> set es. same_but i data e)" if i: "i < length data" for i execs
  proof -
    obtain rs where "shrinkExpand (of_le64 (take 8 (drop i data @ replicate 8 0))) compMap = Inr rs" using shrinkExpand_exact by blast
    moreover have "same_but i data data" by (simp add: same_but_def)
    ultimately show ?thesis
      using exec_replacers_conv [of i data data rs execs] restore_original [of i data] i by (auto simp: check_position_def Let_def)
  qed
  have "\<exists>execs. rfold (check_position compMap) [0..<n] ([], data) = Inr (execs, data) \<and> (\<forall>d \<in> set execs. \<exists>i < n. same_but i data d)" if "n \<le> length data" for n
    using that
  proof (induction n)
    case (Suc n)
    then obtain execs where ih: "rfold (check_position compMap) [0..<n] ([], data) = Inr (execs, data)" "\<forall>d \<in> set execs. \<exists>i < n. same_but i data d" by auto
    from step [of n execs] Suc.prems obtain es where "check_position compMap n (execs, data) = Inr (execs @ es, data)" "\<forall>e \<in> set es. same_but n data e" by auto
    with ih show ?case by (auto simp: rfold_append) (meson less_SucI)
  qed simp
  from this [of "min (length data) maxDataLength"] show ?thesis by (auto simp: checkDataArg_def same_but_def maxDataLength_def)
qed

text \<open>An argument the kernel compares with \<open>0xabcd\<close> after a cut to two bytes.\<close>

definition ex_comps :: CompMap where
  "ex_comps = Some [(0x5678, Some [(0xabcd, True)])]"



lemma checkDataArg_restores_witness:
  "\<exists>execs. checkDataArg ex_comps [0x78, 0x56, 0x34, 0x12] = Inr (execs, [0x78, 0x56, 0x34, 0x12]) \<and> length execs = 1
    \<and> length (execs ! 0) = 4"
proof -
  let ?d = "[0x78, 0x56, 0x34, 0x12] :: uint8 list"
  have n: "rmap (\<lambda>(execs, d). length execs) (checkDataArg ex_comps ?d) = Inr 1" by code_simp
  obtain execs where e: "checkDataArg ex_comps ?d = Inr (execs, ?d)" "\<forall>d \<in> set execs. length d = length ?d"
    using checkDataArg_restores [of ex_comps ?d] by blast
  with n have "length execs = 1" by simp
  with e show ?thesis by (intro exI [of _ execs]) (simp add: nth_mem)
qed

end
