(* ===== verification/Fuzzer_State.thy ===== *)
theory Fuzzer_State
  imports Signal Work_Queue Dra_Tasks Hints
begin

text \<open>
  The state of the fuzzer process (\<open>syz-fuzzer/fuzzer.go\<close>) and the execution of programs
  (\<open>execute\<close> and what it calls in \<open>syz-fuzzer/proc.go\<close>).

  A program is a list of calls, whose type \<open>'c\<close> stays open, with comments. What the fuzzer
  asks of the package \<open>prog\<close> and of the executor is a record \<open>Ops\<close> of functions, an argument
  of every definition that uses it: \<open>Deserialize\<close>, \<open>Serialize\<close>, the mutations, and
  \<open>Exec\<close>, which runs a program in the executor and changes the outside world \<open>'w\<close> (which
  also holds the random generator). Calls to the managers are recorded in \<open>f_sent\<close> in the
  order in which they are made.

  A definition is what one goroutine does from the call of a function to its return, as if it ran
  alone. How the goroutines interleave on the shared signals and the corpus, statement by
  statement and under the mutexes the code takes, is the subject of \<open>Fuzzer_Locks\<close>. Logging is
  left out.
\<close>

section \<open>Programs and results\<close>

record 'c Prog =
  pr_Calls :: "'c list"
  pr_Comments :: "string list"

record CallInfo =
  ci_Flags :: uint32
  ci_Signal :: "uint32 list"
  ci_Cover :: "uint32 list"
  ci_Comps :: CompMap
  ci_Errno :: int

record ProgInfo =
  pi_Calls :: "CallInfo list"
  pi_Extra :: CallInfo

record ExecOpts =
  eo_Flags :: uint64
  eo_FaultCall :: int
  eo_FaultNth :: int

definition FlagCollectCover :: uint64 where "FlagCollectCover = 1"
definition FlagDedupCover :: uint64 where "FlagDedupCover = 2"
definition FlagInjectFault :: uint64 where "FlagInjectFault = 4"
definition FlagCollectComps :: uint64 where "FlagCollectComps = 8"
definition FlagThreaded :: uint64 where "FlagThreaded = 16"
definition FlagCollide :: uint64 where "FlagCollide = 32"
definition CallFaultInjected :: uint32 where "CallFaultInjected = 8"

datatype Stat = StatGenerate | StatFuzz | StatCandidate | StatTriage | StatMinimize | StatSmash
  | StatHint | StatSeed | StatDependency

primrec Stat_value :: "Stat \<Rightarrow> int" where
  "Stat_value StatGenerate = 0"
| "Stat_value StatFuzz = 1"
| "Stat_value StatCandidate = 2"
| "Stat_value StatTriage = 3"
| "Stat_value StatMinimize = 4"
| "Stat_value StatSmash = 5"
| "Stat_value StatHint = 6"
| "Stat_value StatSeed = 7"
| "Stat_value StatDependency = 8"

text \<open>The tables the protocol compiler generates for \<open>FuzzingStat\<close>.\<close>

definition FuzzingStat_table :: "(int \<times> string \<times> FuzzingStat) list" where
  "FuzzingStat_table =
    [(0, ''StatGenerate'', FuzzingStat_StatGenerate), (1, ''StatFuzz'', FuzzingStat_StatFuzz),
     (2, ''StatCandidate'', FuzzingStat_StatCandidate), (3, ''StatTriage'', FuzzingStat_StatTriage),
     (4, ''StatMinimize'', FuzzingStat_StatMinimize), (5, ''StatSmash'', FuzzingStat_StatSmash),
     (6, ''StatHint'', FuzzingStat_StatHint), (7, ''StatSeed'', FuzzingStat_StatSeed),
     (8, ''StatDependency'', FuzzingStat_StatDependency), (9, ''StatDependencyBoot'', FuzzingStat_StatDependencyBoot),
     (- 1, ''StatDefault'', FuzzingStat_StatDefault)]"

definition FuzzingStat_name :: "int \<Rightarrow> string" where
  "FuzzingStat_name i = (case map_of FuzzingStat_table i of Some (n, _) \<Rightarrow> n | None \<Rightarrow> '''')"

definition FuzzingStat_of :: "int \<Rightarrow> FuzzingStat" where
  "FuzzingStat_of i = (case map_of FuzzingStat_table i of Some (_, s) \<Rightarrow> s | None \<Rightarrow> FuzzingStat_StatDefault)"

definition FuzzingStat_value :: "string \<Rightarrow> FuzzingStat option" where
  "FuzzingStat_value n = map_of (map (\<lambda>(_, n, s). (n, s)) FuzzingStat_table) n"

section \<open>Parameters\<close>

text \<open>
  \<open>prog.Minimize\<close> asks a predicate that executes programs. It is a tree of questions: the
  program and the call to try, and what follows from the answer (the predicate may also
  leave other comments in the program).
\<close>

datatype 'c mini = MiniDone "'c Prog" int | MiniAsk "'c Prog" int "bool \<Rightarrow> string list \<Rightarrow> 'c mini"

record ('c, 'w) Ops =
  o_Deserialize :: "bytes \<Rightarrow> 'c Prog option"
  o_Serialize :: "'c Prog \<Rightarrow> bytes"
  o_Hash :: "bytes \<Rightarrow> string"
  o_Exec :: "ExecOpts \<Rightarrow> 'c Prog \<Rightarrow> 'w \<Rightarrow> ProgInfo option option \<times> 'w"
  o_CallContainsAny :: "'c \<Rightarrow> bool"
  o_CallName :: "'c \<Rightarrow> string"
  o_RemoveCall :: "int \<Rightarrow> 'c Prog \<Rightarrow> 'c Prog res"
  o_Generate :: "'w \<Rightarrow> 'c Prog \<times> 'w"
  o_Mutate :: "'c Prog \<Rightarrow> 'c Prog list \<Rightarrow> 'w \<Rightarrow> 'c Prog \<times> 'w"
  o_MutateD :: "'c Prog \<Rightarrow> 'c Prog list \<Rightarrow> 'w \<Rightarrow> 'c Prog \<times> 'w"
  o_MutateIoctl3Arg :: "'c Prog \<Rightarrow> int \<Rightarrow> 'w \<Rightarrow> 'c Prog \<times> 'w"
  o_MutateWithHints :: "'c Prog \<Rightarrow> int \<Rightarrow> CompMap \<Rightarrow> 'c Prog list"
  o_Minimize :: "'c Prog \<Rightarrow> int \<Rightarrow> 'c mini"
  o_Intn :: "nat \<Rightarrow> 'w \<Rightarrow> nat \<times> 'w"
  o_Now :: "'w \<Rightarrow> string"

section \<open>State\<close>

record RPCInput =
  ri_Call :: string
  ri_Prog :: bytes
  ri_Signal :: Serial
  ri_Cover :: "uint32 list"

record RPCCandidate =
  rc_Prog :: bytes
  rc_Minimized :: bool
  rc_Smashed :: bool

record PollRes =
  po_Candidates :: "RPCCandidate list"
  po_NewInputs :: "RPCInput list"
  po_MaxSignal :: Serial

text \<open>What the fuzzer sends: to the manager, and through the client of the dependency server.\<close>

datatype message =
  ManagerNewInput RPCInput | ManagerPoll bool Serial "(Stat \<times> uint64) list" | SendStatMsg FuzzingStat uint64
| SendNewInputMsg Input | SendNeedInputMsg Input | SendBootInputMsg Input | SendUnstableInputMsg UnstableInput
| ReturnTasksMsg TaskKind Task | SendLogMsg string

record ('c, 'w) Fuzzer =
  f_name :: string
  f_workQueue :: "('c Prog, CallInfo) WorkQueue"
  f_faultInjectionEnabled :: bool
  f_comparisonTracingEnabled :: bool
  f_corpus :: "'c Prog list"
  f_corpusHashes :: "(string, unit) gomap"
  f_corpusSignal :: Signal
  f_maxSignal :: Signal
  f_newSignal :: Signal
  f_stats :: "Stat \<Rightarrow> uint64"
  f_need :: bool
  f_cover :: "(int, Call) gomap"
  f_DependencyPriority :: bool
  f_DataDependency :: DataDependency
  f_log :: string
  f_sent :: "message list"
  f_world :: 'w

record Proc =
  pc_execOpts :: ExecOpts
  pc_execOptsCover :: ExecOpts
  pc_execOptsComps :: ExecOpts
  pc_execOptsNoCollide :: ExecOpts

definition newProc :: "ExecOpts \<Rightarrow> Proc" where
  "newProc execOpts =
    (let nc = execOpts\<lparr>eo_Flags := eo_Flags execOpts AND NOT FlagCollide\<rparr> in
     \<lparr>pc_execOpts = execOpts,
      pc_execOptsCover = nc\<lparr>eo_Flags := eo_Flags nc OR FlagCollectCover\<rparr>,
      pc_execOptsComps = nc\<lparr>eo_Flags := eo_Flags nc OR FlagCollectComps\<rparr>,
      pc_execOptsNoCollide = nc\<rparr>)"

definition send :: "message \<Rightarrow> ('c, 'w) Fuzzer \<Rightarrow> ('c, 'w) Fuzzer" where
  "send m f = f\<lparr>f_sent := f_sent f @ [m]\<rparr>"

text \<open>The log of the client (\<open>pkg/dra/DependencyRPCClient.go\<close>): lines are gathered, then sent at once.\<close>

definition client_SendLog :: "('c, 'w) Ops \<Rightarrow> string \<Rightarrow> ('c, 'w) Fuzzer \<Rightarrow> ('c, 'w) Fuzzer" where
  "client_SendLog ops txt f =
    f\<lparr>f_log := f_log f @ o_Now ops (f_world f) @ f_name f @ '' syz_fuzzer : '' @ txt @ [CHR 0x0A]\<rparr>"

definition client_SSendLog :: "('c, 'w) Fuzzer \<Rightarrow> ('c, 'w) Fuzzer" where
  "client_SSendLog f = (send (SendLogMsg (f_log f)) f)\<lparr>f_log := ''''\<rparr>"

section \<open>Corpus and signal\<close>

definition addInputToCorpus :: "'c Prog \<Rightarrow> Signal \<Rightarrow> string \<Rightarrow> ('c, 'w) Fuzzer \<Rightarrow> ('c, 'w) Fuzzer res" where
  "addInputToCorpus p sign sig f =
    rbind (if go_has (f_corpusHashes f) sig then Inr f
           else rmap (\<lambda>h. f\<lparr>f_corpus := f_corpus f @ [p], f_corpusHashes := h\<rparr>) (go_put sig () (f_corpusHashes f))) (\<lambda>f1.
    Inr (if sig_Empty sign then f1
         else f1\<lparr>f_corpusSignal := sig_Merge (f_corpusSignal f1) sign, f_maxSignal := sig_Merge (f_maxSignal f1) sign\<rparr>))"

definition addInputFromAnotherFuzzer :: "('c, 'w) Ops \<Rightarrow> RPCInput \<Rightarrow> ('c, 'w) Fuzzer \<Rightarrow> ('c, 'w) Fuzzer res" where
  "addInputFromAnotherFuzzer ops inp f =
    (case o_Deserialize ops (ri_Prog inp) of
       None \<Rightarrow> Inl (Fatal ''failed to deserialize prog from another fuzzer'')
     | Some p \<Rightarrow> rbind (sig_Deserialize (ri_Signal inp)) (\<lambda>sign. addInputToCorpus p sign (o_Hash ops (ri_Prog inp)) f))"

definition corpusSnapshot :: "('c, 'w) Fuzzer \<Rightarrow> 'c Prog list" where
  "corpusSnapshot f = f_corpus f"

definition addMaxSignal :: "Signal \<Rightarrow> ('c, 'w) Fuzzer \<Rightarrow> ('c, 'w) Fuzzer" where
  "addMaxSignal sign f = (if sig_Len sign = 0 then f else f\<lparr>f_maxSignal := sig_Merge (f_maxSignal f) sign\<rparr>)"

definition grabNewSignal :: "('c, 'w) Fuzzer \<Rightarrow> Signal \<times> ('c, 'w) Fuzzer" where
  "grabNewSignal f =
    (let sign = f_newSignal f in if sig_Empty sign then (None, f) else (sign, f\<lparr>f_newSignal := None\<rparr>))"

definition corpusSignalDiff :: "Signal \<Rightarrow> ('c, 'w) Fuzzer \<Rightarrow> Signal" where
  "corpusSignalDiff sign f = sig_Diff (f_corpusSignal f) sign"

definition signalPrio :: "('c, 'w) Ops \<Rightarrow> 'c Prog \<Rightarrow> CallInfo \<Rightarrow> int \<Rightarrow> uint8 res" where
  "signalPrio ops p info call =
    (if call = - 1 then Inr 0
     else rbind (go_nth (pr_Calls p) call) (\<lambda>c.
       Inr ((if ci_Errno info = 0 then 2 else 0) OR (if o_CallContainsAny ops c then 0 else 1))))"

definition checkNewCallSignal ::
  "('c, 'w) Ops \<Rightarrow> 'c Prog \<Rightarrow> CallInfo \<Rightarrow> int \<Rightarrow> ('c, 'w) Fuzzer \<Rightarrow> (bool \<times> ('c, 'w) Fuzzer) res" where
  "checkNewCallSignal ops p info call f =
    rbind (signalPrio ops p info call) (\<lambda>prio.
    let diff = DiffRaw (f_maxSignal f) (ci_Signal info) prio in
    if sig_Empty diff then Inr (False, f)
    else Inr (True, f\<lparr>f_maxSignal := sig_Merge (f_maxSignal f) diff, f_newSignal := sig_Merge (f_newSignal f) diff\<rparr>))"

fun new_signal_calls ::
  "('c, 'w) Ops \<Rightarrow> 'c Prog \<Rightarrow> nat \<Rightarrow> CallInfo list \<Rightarrow> ('c, 'w) Fuzzer \<Rightarrow> (nat list \<times> ('c, 'w) Fuzzer) res" where
  "new_signal_calls ops p i [] f = Inr ([], f)"
| "new_signal_calls ops p i (nfo # nfos) f =
    rbind (checkNewCallSignal ops p nfo (int i) f) (\<lambda>(new, f1).
    rmap (\<lambda>(calls, f2). (if new then i # calls else calls, f2)) (new_signal_calls ops p (Suc i) nfos f1))"

definition checkNewSignal ::
  "('c, 'w) Ops \<Rightarrow> 'c Prog \<Rightarrow> ProgInfo option \<Rightarrow> ('c, 'w) Fuzzer \<Rightarrow> ((nat list \<times> bool) \<times> ('c, 'w) Fuzzer) res" where
  "checkNewSignal ops p info f =
    (case info of
       None \<Rightarrow> Inl (Panic ''nil pointer dereference'')
     | Some nfo \<Rightarrow>
       rbind (new_signal_calls ops p 0 (pi_Calls nfo) f) (\<lambda>(calls, f1).
       rmap (\<lambda>(extra, f2). ((calls, extra), f2)) (checkNewCallSignal ops p (pi_Extra nfo) (- 1) f1)))"

definition reexecutionSuccess :: "ProgInfo option \<Rightarrow> CallInfo \<Rightarrow> int \<Rightarrow> bool res" where
  "reexecutionSuccess info oldInfo call =
    (case info of
       None \<Rightarrow> Inr False
     | Some nfo \<Rightarrow>
       if pi_Calls nfo = [] then Inr False
       else if call \<noteq> - 1 then
         rbind (go_nth (pi_Calls nfo) call) (\<lambda>c.
           if ci_Errno oldInfo = 0 \<and> ci_Errno c \<noteq> 0 then Inr False else Inr (ci_Signal c \<noteq> []))
       else Inr (ci_Signal (pi_Extra nfo) \<noteq> []))"

definition getSignalAndCover :: "('c, 'w) Ops \<Rightarrow> 'c Prog \<Rightarrow> ProgInfo \<Rightarrow> int \<Rightarrow> (Signal \<times> uint32 list) res" where
  "getSignalAndCover ops p info call =
    rbind (if call \<noteq> - 1 then go_nth (pi_Calls info) call else Inr (pi_Extra info)) (\<lambda>nfo.
    rmap (\<lambda>prio. (FromRaw (ci_Signal nfo) prio, ci_Cover nfo)) (signalPrio ops p nfo call))"

section \<open>Execution\<close>

text \<open>
  \<open>executeRaw\<close> tries up to twelve times; the argument counts the attempts left. The
  ticket of the gate and the log of the program are left out.
\<close>

fun exec_tries :: "('c, 'w) Ops \<Rightarrow> ExecOpts \<Rightarrow> 'c Prog \<Rightarrow> Stat \<Rightarrow> nat \<Rightarrow> ('c, 'w) Fuzzer \<Rightarrow> (ProgInfo option \<times> ('c, 'w) Fuzzer) res" where
  "exec_tries ops opts p stat 0 f = Inl (Fatal ''executor failed'')"
| "exec_tries ops opts p stat (Suc n) f =
    (let (r, w) = o_Exec ops opts p (f_world f);
         f' = f\<lparr>f_world := w, f_stats := (f_stats f)(stat := f_stats f stat + 1)\<rparr>
     in case r of Some info \<Rightarrow> Inr (info, f') | None \<Rightarrow> exec_tries ops opts p stat n f')"

definition executeRaw :: "('c, 'w) Ops \<Rightarrow> ExecOpts \<Rightarrow> 'c Prog \<Rightarrow> Stat \<Rightarrow> ('c, 'w) Fuzzer \<Rightarrow> (ProgInfo option \<times> ('c, 'w) Fuzzer) res" where
  "executeRaw ops opts p stat f =
    (if \<not> CollectPath \<and> eo_Flags opts AND FlagDedupCover = 0 then Inl (Fatal ''dedup cover is not enabled'')
     else exec_tries ops opts p stat 12 f)"

definition enqueueCallTriage :: "'c Prog \<Rightarrow> ProgTypes \<Rightarrow> int \<Rightarrow> CallInfo \<Rightarrow> ('c, 'w) Fuzzer \<Rightarrow> ('c, 'w) Fuzzer res" where
  "enqueueCallTriage p flags callIndex info f =
    rmap (\<lambda>wq. f\<lparr>f_workQueue := wq\<rparr>)
      (enqueue (ItemTriage \<lparr>wt_p = p, wt_call = callIndex, wt_info = info\<lparr>ci_Cover := []\<rparr>, wt_flags = flags\<rparr>) (f_workQueue f))"

text \<open>The input \<open>SendNeedInput\<close> reports: the whole coverage of every call.\<close>

definition cover_call :: "nat \<Rightarrow> uint32 list \<Rightarrow> Call" where
  "cover_call i cov = \<lparr>c_Idx = of_nat i, c_Address = fold (\<lambda>a. go_set a 0) cov (Some [])\<rparr>"

definition stat_of_comments :: "string list \<Rightarrow> FuzzingStat \<Rightarrow> FuzzingStat" where
  "stat_of_comments cs s = fold (\<lambda>c s. case FuzzingStat_value c of Some i \<Rightarrow> i | None \<Rightarrow> s) cs s"

definition proc_SendNeedInput :: "('c, 'w) Ops \<Rightarrow> 'c Prog \<Rightarrow> ProgInfo \<Rightarrow> ('c, 'w) Fuzzer \<Rightarrow> ('c, 'w) Fuzzer" where
  "proc_SendNeedInput ops p info f =
    (let data = o_Serialize ops p in
     send (SendNeedInputMsg (Input_zero\<lparr>
       i_Sig := o_Hash ops data, i_Program := data,
       i_Call := fold (\<lambda>(i, c). go_set (of_nat i) (cover_call i (ci_Cover c))) (enumerate 0 (pi_Calls info)) (Some []),
       i_Stat := stat_of_comments (pr_Comments p) FuzzingStat_StatTriage\<rparr>)) f)"

text \<open>One program in a hundred is reported while the server wants inputs.\<close>

definition report_need :: "('c, 'w) Ops \<Rightarrow> 'c Prog \<Rightarrow> ProgInfo \<Rightarrow> ('c, 'w) Fuzzer \<Rightarrow> ('c, 'w) Fuzzer" where
  "report_need ops p info f =
    (if f_need f then
      (case o_Intn ops 100 (f_world f) of (r, w) \<Rightarrow>
         if r < 1 then proc_SendNeedInput ops p info (f\<lparr>f_world := w\<rparr>) else f\<lparr>f_world := w\<rparr>)
     else f)"

text \<open>
  \<open>execute\<close> leaves the kind of the execution as the comment of the program when a call of
  it has new signal; the program is returned with the result.
\<close>

definition execute ::
  "('c, 'w) Ops \<Rightarrow> ExecOpts \<Rightarrow> 'c Prog \<Rightarrow> ProgTypes \<Rightarrow> Stat \<Rightarrow> ('c, 'w) Fuzzer \<Rightarrow> ((ProgInfo \<times> 'c Prog) \<times> ('c, 'w) Fuzzer) res" where
  "execute ops execOpts p flags stat f =
    rbind (executeRaw ops execOpts p stat f) (\<lambda>(info, f1).
    rbind (checkNewSignal ops p info f1) (\<lambda>((calls, extra), f2).
    let nfo = the info;
        p' = (if calls = [] then p else p\<lparr>pr_Comments := [FuzzingStat_name (Stat_value stat + 1)]\<rparr>) in
    rbind (rfold (\<lambda>i f. rbind (go_nth (pi_Calls nfo) (int i)) (\<lambda>c. enqueueCallTriage p' flags (int i) c f)) calls f2) (\<lambda>f3.
    rbind (if extra then enqueueCallTriage p' flags (- 1) (pi_Extra nfo) f3 else Inr f3) (\<lambda>f4.
    Inr ((nfo, p'), report_need ops p' nfo f4)))))"

text \<open>
  \<open>MutateWithHints\<close> changes one program in place and hands it to a callback that executes
  it, so the comments an execution leaves stay for the next mutant.
\<close>

definition execute_mutants ::
  "('c, 'w) Ops \<Rightarrow> ExecOpts \<Rightarrow> Stat \<Rightarrow> string list \<Rightarrow> 'c Prog list \<Rightarrow> ('c, 'w) Fuzzer \<Rightarrow> ('c, 'w) Fuzzer res" where
  "execute_mutants ops opts stat comments mutants f =
    rmap snd (rfold (\<lambda>q (cs, f). rmap (\<lambda>((_, q'), f'). (pr_Comments q', f')) (execute ops opts (q\<lparr>pr_Comments := cs\<rparr>) ProgNormal stat f))
      mutants (comments, f))"

section \<open>New signal is found once\<close>

lemma FromRaw_level: "level (FromRaw raw prio) e = (if e \<in> set raw then Some (sint prio) else None)"
proof -
  have "level (fold (\<lambda>e. go_set e prio) raw s) e = (if e \<in> set raw then Some (sint prio) else level s e)" for s
    by (induction raw arbitrary: s) auto
  then show ?thesis by (simp add: FromRaw_def)
qed

lemma DiffRaw_level: "level (DiffRaw s raw prio) e = (if level (FromRaw raw prio) e \<le> level s e then None else level (FromRaw raw prio) e)"
proof -
  let ?f = "\<lambda>e res. case go_get s e of Some p \<Rightarrow> if prio <=s p then res else go_set e prio res | None \<Rightarrow> go_set e prio res"
  have step: "level (?f e' res) e = (if e = e' \<and> \<not> Some (sint prio) \<le> level s e then Some (sint prio) else level res e)"
    for e' and res :: Signal
    by (auto simp: level_def word_sle_eq split: option.splits)
  have "level (fold ?f raw res) e = (if e \<in> set raw \<and> \<not> Some (sint prio) \<le> level s e then Some (sint prio) else level res e)" for res
    by (induction raw arbitrary: res) (use step in auto)
  then show ?thesis by (auto simp: DiffRaw_def FromRaw_level)
qed

lemma wfm_FromRaw [go_wf, simp]: "wfm (FromRaw raw prio)"
  unfolding FromRaw_def by (auto intro!: fold_keep [where P = wfm])

lemma wfm_DiffRaw [go_wf, simp]: "wfm (DiffRaw s raw prio)"
  unfolding DiffRaw_def by (auto intro!: fold_keep [where P = wfm] split: option.splits)

lemma wfm_make_if_nil [go_wf, simp]: "wfm (make_if_nil s) = wfm s"
  by (cases s) (simp_all add: make_if_nil_def)

lemma wfm_sig_Merge [go_wf, simp]: "wfm s \<Longrightarrow> wfm (sig_Merge s s1)"
  unfolding sig_Merge_def by (auto intro!: fold_keep [where P = wfm] split: option.splits)

definition grown :: "('c, 'w) Fuzzer \<Rightarrow> ('c, 'w) Fuzzer \<Rightarrow> bool" where
  "grown f f' \<longleftrightarrow> (\<forall>e. level (f_maxSignal f) e \<le> level (f_maxSignal f') e)"

lemma grown_refl [simp]: "grown f f"
  by (simp add: grown_def)

lemma grown_trans [trans]: "grown a b \<Longrightarrow> grown b c \<Longrightarrow> grown a c"
  unfolding grown_def by (meson order_trans)

text \<open>The signal of a call is no news to the fuzzer.\<close>

definition known_signal :: "('c, 'w) Ops \<Rightarrow> 'c Prog \<Rightarrow> CallInfo \<Rightarrow> int \<Rightarrow> ('c, 'w) Fuzzer \<Rightarrow> bool" where
  "known_signal ops p info call f \<longleftrightarrow> (\<exists>prio. signalPrio ops p info call = Inr prio
     \<and> (\<forall>e. level (FromRaw (ci_Signal info) prio) e \<le> level (f_maxSignal f) e))"

lemma known_signal_grown: "known_signal ops p info call f \<Longrightarrow> grown f f' \<Longrightarrow> known_signal ops p info call f'"
  unfolding known_signal_def grown_def by (meson order_trans)

lemma DiffRaw_Empty: "sig_Empty (DiffRaw s raw prio) \<longleftrightarrow> (\<forall>e. level (FromRaw raw prio) e \<le> level s e)"
proof -
  have "(if a \<le> b then None else a) = None \<longleftrightarrow> a \<le> b" for a b :: "int option" by (cases a) auto
  then show ?thesis by (simp add: sig_Empty_level DiffRaw_level)
qed

lemma checkNewCallSignal_known:
  assumes "checkNewCallSignal ops p info call f = Inr (new, f')"
  shows "known_signal ops p info call f' \<and> grown f f' \<and> (new \<longleftrightarrow> \<not> known_signal ops p info call f) \<and> (\<not> new \<longrightarrow> f' = f)"
proof -
  from assms obtain prio where p: "signalPrio ops p info call = Inr prio" by (auto simp: checkNewCallSignal_def res_conv)
  let ?d = "DiffRaw (f_maxSignal f) (ci_Signal info) prio"
  have merged: "level (sig_Merge (f_maxSignal f) ?d) e = sup (level (f_maxSignal f) e) (level (FromRaw (ci_Signal info) prio) e)" for e
    by (simp add: sig_Merge_level DiffRaw_level sup_absorb1)
  show ?thesis
  proof (cases "sig_Empty ?d")
    case True
    then have "known_signal ops p info call f" "new = False" "f' = f"
      using assms p by (auto simp: checkNewCallSignal_def known_signal_def DiffRaw_Empty)
    then show ?thesis by simp
  next
    case False
    then have f': "new" "f' = f\<lparr>f_maxSignal := sig_Merge (f_maxSignal f) ?d, f_newSignal := sig_Merge (f_newSignal f) ?d\<rparr>"
      using assms p by (auto simp: checkNewCallSignal_def Let_def)
    then have "known_signal ops p info call f'" "grown f f'"
      using p by (auto simp: known_signal_def grown_def merged)
    moreover have "\<not> known_signal ops p info call f"
      using False p by (auto simp: known_signal_def DiffRaw_Empty)
    ultimately show ?thesis using f'(1) by simp
  qed
qed

lemma known_checkNewCallSignal:
  "known_signal ops p info call f \<Longrightarrow> checkNewCallSignal ops p info call f = Inr (False, f)"
  by (auto simp: known_signal_def checkNewCallSignal_def DiffRaw_Empty)

lemma new_signal_calls_known:
  assumes "new_signal_calls ops p i infos f = Inr (calls, f')"
  shows "grown f f' \<and> (\<forall>j < length infos. known_signal ops p (infos ! j) (int (i + j)) f') \<and> set calls \<subseteq> {i..<i + length infos}"
  using assms
proof (induction infos arbitrary: i f calls)
  case (Cons c cs)
  then obtain new f1 calls1 where
    1: "checkNewCallSignal ops p c (int i) f = Inr (new, f1)" "new_signal_calls ops p (Suc i) cs f1 = Inr (calls1, f')"
      "calls = (if new then i # calls1 else calls1)"
    by (auto simp: res_conv)
  note k = checkNewCallSignal_known [OF 1(1)] and IH = Cons.IH [OF 1(2)]
  have "known_signal ops p ((c # cs) ! j) (int (i + j)) f'" if "j < length (c # cs)" for j
    using that k IH known_signal_grown [of ops p c "int i" f1 f'] by (cases j) auto
  then show ?case using k IH 1(3) by (auto intro: grown_trans)
qed simp

lemma known_new_signal_calls:
  "(\<forall>j < length infos. known_signal ops p (infos ! j) (int (i + j)) f) \<Longrightarrow> new_signal_calls ops p i infos f = Inr ([], f)"
proof (induction infos arbitrary: i)
  case (Cons c cs)
  have c: "known_signal ops p c (int i) f" using Cons.prems [rule_format, of 0] by simp
  have "\<forall>j < length cs. known_signal ops p (cs ! j) (int (Suc i + j)) f"
  proof (intro allI impI)
    fix j assume "j < length cs"
    then show "known_signal ops p (cs ! j) (int (Suc i + j)) f" using Cons.prems [rule_format, of "Suc j"] by simp
  qed
  then have "new_signal_calls ops p (Suc i) cs f = Inr ([], f)" by (rule Cons.IH)
  then show ?case using known_checkNewCallSignal [OF c] by simp
qed simp

text \<open>
  C5: the same result of an execution is triaged once. After \<open>checkNewSignal\<close> has looked at
  the signals of an execution, looking at the same ones again, now or after the maximal signal
  has grown further, reports no call and changes nothing; the maximal signal never shrinks.
\<close>

theorem checkNewSignal_once:
  assumes "checkNewSignal ops p (Some info) f = Inr (r, f')" and "grown f' g"
  shows "checkNewSignal ops p (Some info) g = Inr (([], False), g) \<and> grown f f'"
proof -
  from assms(1) obtain calls extra f1 where
    1: "new_signal_calls ops p 0 (pi_Calls info) f = Inr (calls, f1)" "checkNewCallSignal ops p (pi_Extra info) (- 1) f1 = Inr (extra, f')"
    by (auto simp: checkNewSignal_def res_conv)
  note a = new_signal_calls_known [OF 1(1)] and b = checkNewCallSignal_known [OF 1(2)]
  have "grown f1 g" using b assms(2) grown_trans by blast
  then have "new_signal_calls ops p 0 (pi_Calls info) g = Inr ([], g)"
    using a by (intro known_new_signal_calls) (auto intro: known_signal_grown)
  moreover have "checkNewCallSignal ops p (pi_Extra info) (- 1) g = Inr (False, g)"
    using b assms(2) by (intro known_checkNewCallSignal) (auto intro: known_signal_grown)
  ultimately show ?thesis using a b by (auto simp: checkNewSignal_def intro: grown_trans)
qed

section \<open>An example\<close>

definition ex_proc :: Proc where
  "ex_proc = newProc \<lparr>eo_Flags = FlagDedupCover, eo_FaultCall = 0, eo_FaultNth = 0\<rparr>"

definition ex_fuzzer :: "(string, unit) Fuzzer" where
  "ex_fuzzer = \<lparr>f_name = ''f'', f_workQueue = newWorkQueue 1 \<lparr>ch_cap = 1, ch_len = 0\<rparr>, f_faultInjectionEnabled = False,
     f_comparisonTracingEnabled = False, f_corpus = [], f_corpusHashes = Some [], f_corpusSignal = None, f_maxSignal = None,
     f_newSignal = None, f_stats = (\<lambda>_. 0), f_need = False, f_cover = Some [], f_DependencyPriority = False,
     f_DataDependency = \<lparr>dd_Input = Some [], dd_UncoveredAddress = None, dd_WriteAddress = None, dd_OtherInput = None\<rparr>,
     f_log = [], f_sent = [], f_world = ()\<rparr>"

text \<open>Every call has the signal 5.\<close>

definition ex_info :: ProgInfo where
  "ex_info = \<lparr>pi_Calls = [\<lparr>ci_Flags = 0, ci_Signal = [5], ci_Cover = [], ci_Comps = None, ci_Errno = 0\<rparr>],
     pi_Extra = \<lparr>ci_Flags = 0, ci_Signal = [], ci_Cover = [], ci_Comps = None, ci_Errno = 0\<rparr>\<rparr>"

definition ex_sig_ops :: "(string, unit) Ops" where
  "ex_sig_ops = \<lparr>o_Deserialize = (\<lambda>data. None), o_Serialize = (\<lambda>p. concat (pr_Calls p)), o_Hash = (\<lambda>data. data),
     o_Exec = (\<lambda>opts p w. (Some (Some ex_info), w)), o_CallContainsAny = (\<lambda>c. False), o_CallName = (\<lambda>c. c),
     o_RemoveCall = (\<lambda>i p. Inr p), o_Generate = (\<lambda>w. (\<lparr>pr_Calls = [], pr_Comments = []\<rparr>, w)), o_Mutate = (\<lambda>p cs w. (p, w)),
     o_MutateD = (\<lambda>p cs w. (p, w)), o_MutateIoctl3Arg = (\<lambda>p i w. (p, w)), o_MutateWithHints = (\<lambda>p i m. []),
     o_Minimize = (\<lambda>p i. MiniDone p i), o_Intn = (\<lambda>n w. (0, w)), o_Now = (\<lambda>w. [])\<rparr>"

theorem checkNewSignal_once_witness:
  "\<exists>f'. checkNewSignal ex_sig_ops \<lparr>pr_Calls = [''c''], pr_Comments = []\<rparr> (Some ex_info) ex_fuzzer = Inr (([0], False), f')
    \<and> checkNewSignal ex_sig_ops \<lparr>pr_Calls = [''c''], pr_Comments = []\<rparr> (Some ex_info) f' = Inr (([], False), f')"
proof -
  have "case checkNewSignal ex_sig_ops \<lparr>pr_Calls = [''c''], pr_Comments = []\<rparr> (Some ex_info) ex_fuzzer of
      Inr (r, f') \<Rightarrow> r = ([0], False) | Inl _ \<Rightarrow> False"
    by code_simp
  then obtain f' where f': "checkNewSignal ex_sig_ops \<lparr>pr_Calls = [''c''], pr_Comments = []\<rparr> (Some ex_info) ex_fuzzer = Inr (([0], False), f')"
    by (auto split: sum.splits)
  with checkNewSignal_once [OF f' grown_refl] show ?thesis by blast
qed

end
