(* ===== verification/Remove_Resource.thy ===== *)
theory Remove_Resource
  imports Go_Prelude
begin

text \<open>
  Removing calls that open the same resource twice: \<open>dealAddress\<close> and
  \<open>removeSameResource\<close> of \<open>syz-fuzzer/dependencyMutate.go\<close>, which work on the text of a
  program, one call per line.

  The second result gives, for every line of the program, the line of the new program that
  takes its place. The fuzzer indexes the result of an execution with it, so it has to stay
  within the new program.
\<close>

section \<open>Strings\<close>

text \<open>\<open>string(c)\<close> of a byte is the encoding of the character with that number.\<close>

definition byte_string :: "char \<Rightarrow> string" where
  "byte_string c = (if of_char c < (128 :: nat) then [c] else [char_of (192 + of_char c div (64 :: nat)), char_of (128 + of_char c mod (64 :: nat))])"

definition is_prefix :: "string \<Rightarrow> string \<Rightarrow> bool" where
  "is_prefix p s \<longleftrightarrow> take (length p) s = p"

text \<open>\<open>strings.Index\<close>, with \<open>None\<close> for \<open>-1\<close>.\<close>

fun str_Index :: "string \<Rightarrow> string \<Rightarrow> nat option" where
  "str_Index s sub =
    (if is_prefix sub s then Some 0
     else case s of [] \<Rightarrow> None | c # cs \<Rightarrow> map_option Suc (str_Index cs sub))"

declare str_Index.simps [simp del]

definition str_Contains :: "string \<Rightarrow> string \<Rightarrow> bool" where
  "str_Contains s sub \<longleftrightarrow> str_Index s sub \<noteq> None"

text \<open>\<open>strings.ReplaceAll\<close> for a pattern that is not empty.\<close>

function str_ReplaceAll :: "string \<Rightarrow> string \<Rightarrow> string \<Rightarrow> string" where
  "str_ReplaceAll s old new =
    (case s of [] \<Rightarrow> []
     | c # cs \<Rightarrow> if old \<noteq> [] \<and> is_prefix old s then new @ str_ReplaceAll (drop (length old) s) old new
                else c # str_ReplaceAll cs old new)"
  by pat_completeness auto
termination by (relation "measure (\<lambda>(s, _, _). length s)") auto

declare str_ReplaceAll.simps [simp del]

section \<open>The code\<close>

text \<open>The loop of \<open>dealAddress\<close>; the flag is \<open>add\<close>. It looks one character ahead of an ampersand.\<close>

fun deal_loop :: "bool \<Rightarrow> string \<Rightarrow> string res" where
  "deal_loop add [] = Inr []"
| "deal_loop add (c # cs) =
    rbind (if c = CHR 0x26 then (case cs of [] \<Rightarrow> Inl (Panic ''index out of range'')
             | d # _ \<Rightarrow> Inr (if d = CHR 0x28 then False else add)) else Inr add) (\<lambda>add'.
    if add' then rmap (\<lambda>res. c # res) (deal_loop True cs)
    else deal_loop (c = CHR 0x29) cs)"

definition dealAddress :: "string \<Rightarrow> string res" where
  "dealAddress open = deal_loop True open"

text \<open>The lines of the program; the text after the last newline is a line as well.\<close>

fun split_calls :: "bytes \<Rightarrow> string list" where
  "split_calls [] = ['''']"
| "split_calls (c # cs) =
    (if c = CHR 0x0A then '''' # split_calls cs
     else case split_calls cs of l # ls \<Rightarrow> (byte_string c @ l) # ls | [] \<Rightarrow> [byte_string c])"

type_synonym calls_state = "string list \<times> uint32 list"

text \<open>Line \<open>k\<close> against the earlier line \<open>i\<close>, whose name is \<open>res\<close> and whose call is \<open>open\<close>.\<close>

definition drop_line :: "nat \<Rightarrow> string \<Rightarrow> string \<Rightarrow> nat \<Rightarrow> calls_state \<Rightarrow> calls_state res" where
  "drop_line i res open k s =
    (let calls = fst s; newIdx = snd s in
     rbind (dealAddress (calls ! k)) (\<lambda>call.
     if str_Contains call open then
       (case str_Index (calls ! k) '' = '' of
          Some j \<Rightarrow>
            (let rres = take j (calls ! k) @ '','';
                 calls' = map (\<lambda>h. if k < h then str_ReplaceAll (calls ! h) rres res else calls ! h) [0..<length calls]
             in Inr (calls'[k := ''''], newIdx[k := of_nat i]))
        | None \<Rightarrow> Inr s)
     else Inr s))"

definition remove_line :: "nat \<Rightarrow> calls_state \<Rightarrow> calls_state res" where
  "remove_line i s =
    (let call = fst s ! i in
     case str_Index call '' = '' of
       Some j \<Rightarrow>
         (let res = take j call @ '','' in
          rbind (dealAddress (drop j call)) (\<lambda>open.
          rfold (drop_line i res open) [Suc i..<length (fst s)] s))
     | None \<Rightarrow> Inr s)"

text \<open>
  The last loop: the kept lines are printed and numbered, a dropped one gets the number of
  the line that replaces it, which comes before it. An entry of \<open>newIdx\<close> that is not the number
  of a line makes the read fail.
\<close>

definition number_line :: "string list \<Rightarrow> nat \<Rightarrow> bytes \<times> uint32 \<times> uint32 list \<Rightarrow> (bytes \<times> uint32 \<times> uint32 list) res" where
  "number_line calls i s =
    (case s of (pc, idx, newIdx) \<Rightarrow>
     if calls ! i \<noteq> '''' then Inr (pc @ calls ! i @ [CHR 0x0A], idx + 1, newIdx[i := idx])
     else rmap (\<lambda>v. (pc, idx, newIdx[i := v])) (go_nth newIdx (uint (newIdx ! i))))"

definition removeSameResource :: "bytes \<Rightarrow> (bytes \<times> uint32 list) res" where
  "removeSameResource p =
    (let calls = split_calls p; n = length calls in
     rbind (rfold remove_line [0..<n] (calls, replicate n 0)) (\<lambda>(calls', newIdx).
     rmap (\<lambda>(pc, _, newIdx'). (pc, newIdx')) (rfold (number_line calls') [0..<n] ([], 0, newIdx))))"

section \<open>It returns\<close>

text \<open>A line that does not end in an ampersand, as no call of a printed program does.\<close>

definition calm :: "string \<Rightarrow> bool" where
  "calm s \<longleftrightarrow> s = [] \<or> last s \<noteq> CHR 0x26"

lemma deal_loop_returns: "calm s \<Longrightarrow> \<exists>r. deal_loop add s = Inr r"
proof (induction s arbitrary: add)
  case (Cons c cs)
  show ?case
  proof (cases cs)
    case Nil
    with Cons show ?thesis by (simp add: calm_def)
  next
    case (Cons d ds)
    then have "calm cs" using Cons.prems by (simp add: calm_def)
    then obtain r1 r2 where "deal_loop True cs = Inr r1" "deal_loop False cs = Inr r2"
      using Cons.IH by metis
    then show ?thesis using Cons by (cases "c = CHR 0x29") auto
  qed
qed simp

lemma calm_drop: "calm s \<Longrightarrow> calm (drop j s)"
  by (auto simp: calm_def last_drop)

lemma ReplaceAll_nonempty: "s \<noteq> [] \<Longrightarrow> new \<noteq> [] \<Longrightarrow> str_ReplaceAll s old new \<noteq> []"
  by (subst str_ReplaceAll.simps) (auto split: list.split)

lemma ReplaceAll_nil [simp]: "str_ReplaceAll [] old new = []"
  by (subst str_ReplaceAll.simps) simp

lemma ReplaceAll_calm: "calm s \<Longrightarrow> new \<noteq> [] \<Longrightarrow> last new \<noteq> CHR 0x26 \<Longrightarrow> calm (str_ReplaceAll s old new)"
proof (induction s old new rule: str_ReplaceAll.induct)
  case (1 s old new)
  show ?case
  proof (cases s)
    case (Cons c cs)
    let ?r = "str_ReplaceAll (drop (length old) s) old new" and ?t = "str_ReplaceAll cs old new"
    show ?thesis
    proof (cases "old \<noteq> [] \<and> is_prefix old s")
      case True
      then have "calm ?r" using 1 Cons calm_drop by blast
      moreover have "str_ReplaceAll s old new = new @ ?r"
        using True Cons by (subst str_ReplaceAll.simps) simp
      ultimately show ?thesis using 1 by (auto simp: calm_def last_append)
    next
      case False
      have "calm cs" using 1(3) Cons by (auto simp: calm_def)
      then have "calm ?t" using 1 False Cons by blast
      moreover have "cs \<noteq> [] \<Longrightarrow> ?t \<noteq> []" using ReplaceAll_nonempty 1 by blast
      moreover have eq: "str_ReplaceAll s old new = c # ?t"
        using False Cons by (subst str_ReplaceAll.simps) auto
      ultimately show ?thesis using 1(3) Cons by (cases "cs = []") (auto simp: calm_def)
    qed
  qed (simp add: calm_def)
qed

section \<open>The indices\<close>

text \<open>
  What holds during the outer loop at line \<open>i\<close>: a line that had text still has it, or its
  entry names an earlier line that has it; no line ends in an ampersand, and every entry is
  the number of a line.
\<close>

definition lines_inv :: "string list \<Rightarrow> nat \<Rightarrow> calls_state \<Rightarrow> bool" where
  "lines_inv orig i s \<longleftrightarrow> length (fst s) = length orig \<and> length (snd s) = length orig \<and>
     (\<forall>k < length orig. calm (fst s ! k) \<and> unat (snd s ! k) < length orig \<and> (orig ! k \<noteq> [] \<longrightarrow> fst s ! k \<noteq> [] \<or>
        (\<exists>j < k. j \<le> i \<and> snd s ! k = of_nat j \<and> fst s ! j \<noteq> [])))"

lemma lines_inv_mono: "lines_inv orig i s \<Longrightarrow> i \<le> i' \<Longrightarrow> lines_inv orig i' s"
  unfolding lines_inv_def by (meson order_trans)

lemma unat_of_nat_le: "unat (of_nat i :: uint32) \<le> i"
  by (simp add: unat_of_nat take_bit_nat_less_eq_self)

lemma drop_line_inv:
  assumes inv: "lines_inv orig i s" "fst s ! i \<noteq> []" and k: "i < k" "k < length orig"
    and res: "res \<noteq> []" "last res \<noteq> CHR 0x26"
  shows "\<exists>s'. drop_line i res open k s = Inr s' \<and> lines_inv orig i s' \<and> fst s' ! i \<noteq> []"
proof -
  obtain calls nidx where s: "s = (calls, nidx)" by (cases s)
  have len: "length calls = length orig" "length nidx = length orig" using inv s by (auto simp: lines_inv_def)
  have calm: "k' < length orig \<Longrightarrow> calm (calls ! k')" for k' using inv s by (auto simp: lines_inv_def)
  obtain call where call: "dealAddress (calls ! k) = Inr call"
    using deal_loop_returns [OF calm [OF k(2)]] by (auto simp: dealAddress_def)
  show ?thesis
  proof (cases "str_Contains call open \<and> str_Index (calls ! k) '' = '' \<noteq> None")
    case False
    then have "drop_line i res open k s = Inr s"
      using call by (auto simp: drop_line_def s split: option.split)
    then show ?thesis using inv by simp
  next
    case True
    then obtain j where j: "str_Index (calls ! k) '' = '' = Some j" by auto
    define rr where "rr = take j (calls ! k) @ '',''"
    define cs where "cs = (map (\<lambda>h. if k < h then str_ReplaceAll (calls ! h) rr res else calls ! h) [0..<length calls])[k := []]"
    have step: "drop_line i res open k s = Inr (cs, nidx[k := of_nat i])"
      using True j call unfolding cs_def rr_def by (simp add: drop_line_def s Let_def)
    have cs: "h < length orig \<Longrightarrow> cs ! h = (if h = k then [] else if k < h then str_ReplaceAll (calls ! h) rr res else calls ! h)" for h
      using len k by (auto simp: cs_def nth_list_update)
    have lcs: "length cs = length orig" by (simp add: cs_def len)
    have stays: "h < length orig \<Longrightarrow> h \<noteq> k \<Longrightarrow> calls ! h \<noteq> [] \<Longrightarrow> cs ! h \<noteq> []" for h
      using cs ReplaceAll_nonempty res(1) by simp
    have "lines_inv orig i (cs, nidx[k := of_nat i])"
      unfolding lines_inv_def fst_conv snd_conv
    proof (intro conjI allI impI)
      fix h assume h: "h < length orig"
      show "calm (cs ! h)" using cs [OF h] calm [OF h] ReplaceAll_calm res by (auto simp: calm_def)
      show "unat (nidx[k := of_nat i] ! h) < length orig"
        using inv(1) s h k len unat_of_nat_le [of i] by (auto simp: lines_inv_def nth_list_update)
      assume "orig ! h \<noteq> []"
      with inv h s consider "calls ! h \<noteq> []" | g where "g < h" "g \<le> i" "nidx ! h = of_nat g" "calls ! g \<noteq> []"
        by (auto simp: lines_inv_def)
      then show "cs ! h \<noteq> [] \<or> (\<exists>j < h. j \<le> i \<and> nidx[k := of_nat i] ! h = of_nat j \<and> cs ! j \<noteq> [])"
      proof cases
        case 1
        have "cs ! i \<noteq> []" using stays inv(2) k s by simp
        then show ?thesis using stays [OF h _ 1] k len by (cases "h = k") auto
      next
        case 2
        have "cs ! i \<noteq> []" using stays inv(2) k s by simp
        moreover have "cs ! g \<noteq> []" using stays 2 k h by simp
        ultimately show ?thesis using 2 k len h by (cases "h = k") auto
      qed
    qed (simp_all add: lcs len)
    moreover have "cs ! i \<noteq> []" using stays inv(2) k s by simp
    ultimately show ?thesis using step by simp
  qed
qed

lemma Index_nonempty: "str_Index s '' = '' = Some j \<Longrightarrow> s \<noteq> []"
  by (auto simp: str_Index.simps [of "[]"] is_prefix_def)

lemma remove_line_inv:
  assumes "lines_inv orig i s" "i < length orig"
  shows "\<exists>s'. remove_line i s = Inr s' \<and> lines_inv orig i s'"
proof (cases "str_Index (fst s ! i) '' = ''")
  case None
  then show ?thesis using assms by (simp add: remove_line_def)
next
  case (Some j)
  let ?res = "take j (fst s ! i) @ '',''"
  have ne: "fst s ! i \<noteq> []" using Some by (rule Index_nonempty)
  have "calm (drop j (fst s ! i))" using assms by (intro calm_drop) (simp add: lines_inv_def)
  then obtain open' where o: "dealAddress (drop j (fst s ! i)) = Inr open'"
    using deal_loop_returns by (auto simp: dealAddress_def)
  have "\<exists>s'. rfold (drop_line i ?res open') [Suc i..<length (fst s)] s = Inr s' \<and> (lines_inv orig i s' \<and> fst s' ! i \<noteq> [])"
  proof (rule rfold_total [where I = "\<lambda>s. lines_inv orig i s \<and> fst s ! i \<noteq> []"])
    show "lines_inv orig i s \<and> fst s ! i \<noteq> []" using assms ne by simp
    have "length (fst s) = length orig" using assms by (simp add: lines_inv_def)
    then show "\<exists>s'. drop_line i ?res open' k t = Inr s' \<and> lines_inv orig i s' \<and> fst s' ! i \<noteq> []"
      if "k \<in> set [Suc i..<length (fst s)]" "lines_inv orig i t \<and> fst t ! i \<noteq> []" for k t
      using that drop_line_inv [of orig i t k ?res open'] by simp
  qed
  then show ?thesis using Some o by (auto simp: remove_line_def Let_def)
qed

lemma remove_lines_inv:
  assumes "\<forall>l \<in> set orig. calm l" "m \<le> length orig"
  shows "\<exists>s. rfold remove_line [0..<m] (orig, replicate (length orig) 0) = Inr s \<and> lines_inv orig m s"
  using assms(2)
proof (induction m)
  case 0
  then show ?case using assms(1) by (auto simp: lines_inv_def)
next
  case (Suc m)
  then obtain s where s: "rfold remove_line [0..<m] (orig, replicate (length orig) 0) = Inr s" "lines_inv orig m s" by auto
  then obtain t where "remove_line m s = Inr t" "lines_inv orig m t"
    using remove_line_inv Suc by fastforce
  then show ?case using s lines_inv_mono [of orig m t "Suc m"] by (auto simp: rfold_append)
qed

definition kept :: "string list \<Rightarrow> nat \<Rightarrow> string list" where
  "kept calls m = filter (\<lambda>l. l \<noteq> []) (take m calls)"

lemma kept_Suc: "m < length calls \<Longrightarrow> kept calls (Suc m) = kept calls m @ (if calls ! m \<noteq> [] then [calls ! m] else [])"
  by (simp add: kept_def take_Suc_conv_app_nth)

lemma length_kept: "length (kept calls m) \<le> m"
  unfolding kept_def using length_filter_le [of _ "take m calls"] by (metis le_trans length_take min.cobounded2)

text \<open>After \<open>m\<close> turns of the last loop.\<close>

definition numbered :: "string list \<Rightarrow> string list \<Rightarrow> uint32 list \<Rightarrow> nat \<Rightarrow> bytes \<times> uint32 \<times> uint32 list \<Rightarrow> bool" where
  "numbered orig calls nidx m s \<longleftrightarrow>
     (case s of (pc, idx, out) \<Rightarrow>
       pc = concat (map (\<lambda>l. l @ [CHR 0x0A]) (kept calls m)) \<and> idx = of_nat (length (kept calls m)) \<and>
       length out = length orig \<and> (\<forall>k < m. (calls ! k \<noteq> [] \<longrightarrow> kept calls m ! unat (out ! k) = calls ! k) \<and>
         (orig ! k \<noteq> [] \<longrightarrow> unat (out ! k) < length (kept calls m))) \<and>
       (\<forall>k < m. calls ! k \<noteq> [] \<longrightarrow> unat (out ! k) < length (kept calls m)) \<and>
       (\<forall>k < length orig. unat (out ! k) < length orig) \<and>
       (\<forall>k < length orig. m \<le> k \<longrightarrow> out ! k = nidx ! k))"

lemma number_line_step:
  assumes inv: "lines_inv orig i (calls, nidx)" and m: "m < length orig" "length orig < 2 ^ 32"
    and s: "numbered orig calls nidx m s"
  shows "\<exists>s'. number_line calls m s = Inr s' \<and> numbered orig calls nidx (Suc m) s'"
proof -
  obtain pc idx out where e: "s = (pc, idx, out)" by (cases s)
  have len: "length calls = length orig" "length out = length orig" using inv s e by (auto simp: lines_inv_def numbered_def)
  have n: "unat (of_nat (length (kept calls m)) :: uint32) = length (kept calls m)"
    using length_kept [of calls m] m by (simp add: unat_of_nat take_bit_nat_eq_self)
  have old: "k < m \<Longrightarrow> calls ! k \<noteq> [] \<Longrightarrow> kept calls m ! unat (out ! k) = calls ! k \<and> unat (out ! k) < length (kept calls m)"
    "k < m \<Longrightarrow> orig ! k \<noteq> [] \<Longrightarrow> unat (out ! k) < length (kept calls m)"
    "m \<le> k \<Longrightarrow> k < length orig \<Longrightarrow> out ! k = nidx ! k" "k < length orig \<Longrightarrow> unat (out ! k) < length orig" for k
    using s e by (auto simp: numbered_def)
  have pc: "pc = concat (map (\<lambda>l. l @ [CHR 0x0A]) (kept calls m))" "idx = of_nat (length (kept calls m))"
    using s e by (auto simp: numbered_def)
  show ?thesis
  proof (cases "calls ! m \<noteq> []")
    case True
    then have k: "kept calls (Suc m) = kept calls m @ [calls ! m]" using kept_Suc m len by simp
    have "numbered orig calls nidx (Suc m) (pc @ calls ! m @ [CHR 0x0A], idx + 1, out[m := idx])"
      unfolding numbered_def prod.case k
      using old pc n len m length_kept [of calls m] by (auto simp: less_Suc_eq nth_append nth_list_update add.commute)
    then show ?thesis using True e by (simp add: number_line_def)
  next
    case False
    then have k: "kept calls (Suc m) = kept calls m" using kept_Suc m len by simp
    let ?v = "out ! unat (out ! m)"
    have v: "unat ?v < length (kept calls m)" if o: "orig ! m \<noteq> []"
    proof -
      obtain j where j: "j < m" "nidx ! m = of_nat j" "calls ! j \<noteq> []"
        using inv m o False by (auto simp: lines_inv_def)
      then have "unat (out ! m) = j" using old(3) [of m] m by (simp add: unat_of_nat take_bit_nat_eq_self)
      then show ?thesis using old(1) j by simp
    qed
    have bound: "unat ?v < length orig" using old(4) [OF old(4) [OF m(1)]] .
    have in_range: "k < length orig \<Longrightarrow> unat (out[m := ?v] ! k) < length orig" for k
      using bound old(4) len m by (cases "k = m") simp_all
    have "numbered orig calls nidx (Suc m) (pc, idx, out[m := ?v])"
      unfolding numbered_def prod.case k
    proof (intro conjI)
      show "\<forall>k<length orig. unat (out[m := ?v] ! k) < length orig" using in_range by blast
    qed (use old pc len m v False in \<open>auto simp: less_Suc_eq nth_list_update\<close>)
    moreover have "go_nth out (uint (out ! m)) = Inr ?v" using old(4) [OF m(1)] len go_nth_nat [of "unat (out ! m)" out] by simp
    ultimately show ?thesis using False e by (simp add: number_line_def)
  qed
qed

lemma number_lines:
  assumes "lines_inv orig i (calls, nidx)" "length orig < 2 ^ 32" "m \<le> length orig"
  shows "\<exists>s. rfold (number_line calls) [0..<m] ([], 0, nidx) = Inr s \<and> numbered orig calls nidx m s"
  using assms(3)
proof (induction m)
  case 0
  then show ?case using assms(1) by (simp add: numbered_def kept_def lines_inv_def)
next
  case (Suc m)
  then obtain s where "rfold (number_line calls) [0..<m] ([], 0, nidx) = Inr s" "numbered orig calls nidx m s" by auto
  then show ?case using number_line_step [OF assms(1) _ assms(2), of m s] Suc.prems by (auto simp: rfold_append)
qed

text \<open>
  C4: removing duplicate resources keeps the call indices usable. For a program text with
  fewer than \<open>2 ^ 32\<close> lines, none of which ends in an ampersand, \<open>removeSameResource\<close> returns;
  the new text consists of non-empty lines, at most as many as before, and the index it gives
  for any non-empty line of the program is the number of a line of the new text.
\<close>

theorem removeSameResource_indices:
  assumes "\<forall>l \<in> set (split_calls p). calm l" and "length (split_calls p) < 2 ^ 32"
  shows "\<exists>ls newIdx. removeSameResource p = Inr (concat (map (\<lambda>l. l @ [CHR 0x0A]) ls), newIdx)
    \<and> [] \<notin> set ls \<and> length ls \<le> length (split_calls p) \<and> length newIdx = length (split_calls p)
    \<and> (\<forall>k < length (split_calls p). split_calls p ! k \<noteq> [] \<longrightarrow> unat (newIdx ! k) < length ls)"
proof -
  let ?orig = "split_calls p" let ?n = "length ?orig"
  obtain calls nidx where s: "rfold remove_line [0..<?n] (?orig, replicate ?n 0) = Inr (calls, nidx)"
      "lines_inv ?orig ?n (calls, nidx)"
    using remove_lines_inv [OF assms(1), of ?n] by auto
  obtain pc idx out where f: "rfold (number_line calls) [0..<?n] ([], 0, nidx) = Inr (pc, idx, out)"
      "numbered ?orig calls nidx ?n (pc, idx, out)"
    using number_lines [OF s(2) assms(2), of ?n] by auto
  then have "pc = concat (map (\<lambda>l. l @ [CHR 0x0A]) (kept calls ?n))" "length out = ?n"
      "\<forall>k < ?n. ?orig ! k \<noteq> [] \<longrightarrow> unat (out ! k) < length (kept calls ?n)"
    by (simp_all add: numbered_def)
  moreover have "[] \<notin> set (kept calls ?n)" by (simp add: kept_def)
  moreover have "removeSameResource p = Inr (pc, out)" using s(1) f(1) by (simp add: removeSameResource_def Let_def)
  ultimately show ?thesis using length_kept [of calls ?n] by (intro exI [of _ "kept calls ?n"] exI [of _ out]) simp
qed

definition ex_text :: bytes where
  "ex_text = ''r0 = open()'' @ [CHR 0x0A] @ ''r1 = open()'' @ [CHR 0x0A] @ ''read(r1, 2)'' @ [CHR 0x0A]"

theorem removeSameResource_indices_witness:
  "length (split_calls ex_text) = 4 \<and> (\<exists>ls newIdx. removeSameResource ex_text = Inr (concat (map (\<lambda>l. l @ [CHR 0x0A]) ls), newIdx)
    \<and> unat (newIdx ! 1) < length ls)"
proof -
  have "\<forall>l \<in> set (split_calls ex_text). calm l" "length (split_calls ex_text) = 4" "split_calls ex_text ! 1 \<noteq> []"
    by code_simp+
  then show ?thesis using removeSameResource_indices [of ex_text] by (auto elim!: allE [of _ 1])
qed

lemma removeSameResource_example:
  "removeSameResource ex_text = Inr (''r0 = open()'' @ [CHR 0x0A] @ ''read(r0, 2)'' @ [CHR 0x0A], [0, 0, 1, 0])"
  by code_simp

end
