(* ===== verification/Fuzzer_Dependency.thy ===== *)
theory Fuzzer_Dependency
  imports Fuzzer_State Remove_Resource Dra_Dependency "HOL-Library.Sublist"
begin

text \<open>
  How the fuzzer works on a task, \<open>syz-fuzzer/dependency.go\<close> and
  \<open>syz-fuzzer/dependencyMutate.go\<close>.

  A task names a program with a condition to be met (\<open>Program\<close>, call \<open>Index\<close>) and a program
  that writes what the condition reads (\<open>WriteProgram\<close>, call \<open>WriteIndex\<close>). The fuzzer runs
  both, then runs the condition's program with the writing calls inserted in front, with
  and without duplicate resources, and records for every uncovered address of the task how
  far it got. The run-time data a step appends to the task is changed by the next step
  through a pointer; here it is named by its position in \<open>TaskRunTimeData\<close>.

  The text the methods collect for the log is not modelled.
\<close>

section \<open>Addresses in coverage\<close>

definition checkAddressInArray :: "uint32 \<Rightarrow> uint32 list \<Rightarrow> bool" where
  "checkAddressInArray a cov \<longleftrightarrow> list_ex (\<lambda>c. c = a) cov"

definition checkAddressInCover :: "uint32 \<Rightarrow> Cover \<Rightarrow> bool" where
  "checkAddressInCover a cov \<longleftrightarrow> go_has cov a"

definition checkAddressArrayInCover :: "uint32 list \<Rightarrow> Cover \<Rightarrow> bool" where
  "checkAddressArrayInCover as cov \<longleftrightarrow> list_ex (\<lambda>a. go_has cov a) as"

definition checkAddressMapInCover :: "(uint32, uint32) gomap \<Rightarrow> Cover \<Rightarrow> bool" where
  "checkAddressMapInCover as cov \<longleftrightarrow> list_ex (\<lambda>a. go_has cov a) (go_keys as)"

definition checkAddressIsCovered :: "int \<Rightarrow> uint32 \<Rightarrow> ('c, 'w) Fuzzer \<Rightarrow> (bool \<times> ('c, 'w) Fuzzer) res" where
  "checkAddressIsCovered k address f =
    (case go_get (f_cover f) k of
       Some c \<Rightarrow> Inr (go_has (c_Address c) address, f)
     | None \<Rightarrow> rmap (\<lambda>m. (False, f\<lparr>f_cover := m\<rparr>))
         (go_put k \<lparr>c_Idx = 0, c_Address = Some [(address, 0)]\<rparr> (f_cover f)))"

lemma checkAddressInArray_iff [simp]: "checkAddressInArray a cov \<longleftrightarrow> a \<in> set cov"
  by (auto simp: checkAddressInArray_def list_ex_iff)

section \<open>Running the two programs of a task\<close>

definition at_least :: "TaskStatus \<Rightarrow> RunTimeData \<Rightarrow> RunTimeData" where
  "at_least ts r = (if rtd_TaskStatus r \<le> ts then r\<lparr>rtd_TaskStatus := ts\<rparr> else r)"

definition check_task_write :: "bool \<Rightarrow> RunTimeData \<Rightarrow> RunTimeData" where
  "check_task_write check1 rTD =
    (if check1 then at_least TaskStatus_stable_write (rTD\<lparr>rtd_CheckWrite := True\<rparr>)
     else at_least TaskStatus_unstable_write (rTD\<lparr>rtd_CheckWrite := False\<rparr>))"

definition check_branches :: "uint32 list \<Rightarrow> RunTimeData \<Rightarrow> RunTimeData" where
  "check_branches cov r = r\<lparr>rtd_CheckRightBranchAddress := map (\<lambda>a. checkAddressInArray a cov) (rtd_RightBranchAddress r)\<rparr>"

definition check_task_condition :: "uint32 list \<Rightarrow> RunTimeData \<Rightarrow> RunTimeData" where
  "check_task_condition cov rTD =
    (if checkAddressInArray (rtd_ConditionAddress rTD) cov then
       check_branches cov
         (if checkAddressInArray (rtd_Address rTD) cov
          then rTD\<lparr>rtd_CheckCondition := True, rtd_CheckAddress := True, rtd_TaskStatus := TaskStatus_covered\<rparr>
          else at_least TaskStatus_stable_condition (rTD\<lparr>rtd_CheckCondition := True, rtd_CheckAddress := False\<rparr>))
     else at_least TaskStatus_unstable_condition (rTD\<lparr>rtd_CheckCondition := False\<rparr>))"

text \<open>The report of an unstable path, which \<open>CollectUnstable\<close> turns on.\<close>

definition unstable_report :: "Task \<Rightarrow> RunTimeData \<Rightarrow> ProgInfo \<Rightarrow> message" where
  "unstable_report task rTD info = SendUnstableInputMsg
     \<lparr>ui_Sig = t_Sig task, ui_Program = t_Program task,
      ui_UnstablePath = [\<lparr>ps_Path = fold (\<lambda>(i, c). go_set (of_nat i) \<lparr>p_Address = ci_Cover c\<rparr>) (enumerate 0 (pi_Calls info)) (Some [])\<rparr>],
      ui_Address = Some [(rtd_ConditionAddress rTD, index_bit (t_Index task))]\<rparr>"

text \<open>One uncovered address; the state is the task, the addresses found covered, and the fuzzer.\<close>

definition check_task_entry ::
  "ProgInfo \<Rightarrow> ProgInfo \<Rightarrow> uint32 \<times> RunTimeData \<Rightarrow> Task \<times> uint32 list \<times> ('c, 'w) Fuzzer \<Rightarrow> (Task \<times> uint32 list \<times> ('c, 'w) Fuzzer) res" where
  "check_task_entry info1 info2 e s =
    (case (e, s) of ((k, rTD), (task, temp, f)) \<Rightarrow>
     rbind (go_nth (pi_Calls info1) (uint (t_WriteIndex task))) (\<lambda>c1.
     let check1 = checkAddressInArray (rtd_WriteAddress rTD) (ci_Cover c1);
         r1 = check_task_write check1 rTD;
         f1 = (if CollectUnstable \<and> \<not> check1 \<and> rtd_TaskStatus rTD \<le> TaskStatus_unstable_write
               then send (unstable_report task r1 info1) f else f)
     in rbind (go_nth (pi_Calls info2) (uint (t_Index task))) (\<lambda>c2.
     let check2 = checkAddressInArray (rtd_ConditionAddress r1) (ci_Cover c2);
         covered = (check2 \<and> checkAddressInArray (rtd_Address r1) (ci_Cover c2));
         r2 = check_task_condition (ci_Cover c2) r1;
         f2 = (if CollectUnstable \<and> \<not> check2 \<and> rtd_TaskStatus r1 \<le> TaskStatus_unstable_condition
               then send (unstable_report task r2 info2) f1 else f1)
     in rbind (if covered then go_put (rtd_Address r2) r2 (t_CoveredAddress task) else Inr (t_CoveredAddress task)) (\<lambda>cov.
     Inr (task\<lparr>t_UncoveredAddress := go_set k r2 (t_UncoveredAddress task), t_CoveredAddress := cov,
               t_Check := t_Check task \<or> (check1 \<and> check2)\<rparr>,
          if covered then temp @ [rtd_Address r2] else temp, f2)))))"

definition deserialize_or_die :: "('c, 'w) Ops \<Rightarrow> bytes \<Rightarrow> 'c Prog res" where
  "deserialize_or_die ops data =
    (case o_Deserialize ops data of
       Some p \<Rightarrow> Inr p | None \<Rightarrow> Inl (Fatal ''dependency failed to deserialize program from task.Program''))"

definition dependencyMutateCheckATask :: "('c, 'w) Ops \<Rightarrow> Proc \<Rightarrow> Task \<Rightarrow> ('c, 'w) Fuzzer \<Rightarrow> (Task \<times> ('c, 'w) Fuzzer) res" where
  "dependencyMutateCheckATask ops pc task f =
    rbind (deserialize_or_die ops (t_WriteProgram task)) (\<lambda>ProgWrite.
    rbind (execute ops (pc_execOptsCover pc) ProgWrite ProgNormal StatDependency f) (\<lambda>((info1, _), f1).
    rbind (deserialize_or_die ops (t_Program task)) (\<lambda>ProgCondition.
    rbind (execute ops (pc_execOptsCover pc) ProgCondition ProgNormal StatDependency f1) (\<lambda>((info2, _), f2).
    rbind (rfold (check_task_entry info1 info2) (go_range (t_UncoveredAddress task)) (task, [], f2)) (\<lambda>(task', temp, f3).
    Inr (task'\<lparr>t_UncoveredAddress := fold go_del temp (t_UncoveredAddress task')\<rparr>, f3))))))"

section \<open>Inserting the writing calls\<close>

text \<open>The run-time data of a task's uncovered addresses for a new program.\<close>

definition fresh_rtds :: "bytes \<Rightarrow> uint32 \<Rightarrow> rtd_map \<Rightarrow> rtd_map" where
  "fresh_rtds data idx m = fold (\<lambda>(ua, r). go_set ua (r\<lparr>rtd_TaskStatus := TaskStatus_untested,
     rtd_Program := rtd_Program r @ data, rtd_Idx := idx, rtd_CheckWrite := False, rtd_CheckAddress := False,
     rtd_CheckCondition := False\<rparr>)) (go_range m) (Some [])"

definition insert_calls :: "nat \<Rightarrow> uint32 \<Rightarrow> 'c list \<Rightarrow> 'c list \<Rightarrow> 'c list res" where
  "insert_calls idx writeIndex write cond =
    rbind (guard_fatal (unat writeIndex \<le> length write) ''dependency int(task.WriteIndex) > len(ProgWrite.Calls)'') (\<lambda>_.
    if idx \<le> length cond then Inr (take idx cond @ take (Suc (unat writeIndex)) write @ drop idx cond)
    else Inl (Panic ''slice bounds out of range''))"

definition dependencyMutateInsert :: "('c, 'w) Ops \<Rightarrow> Task \<Rightarrow> nat \<Rightarrow> (nat \<times> Task) res" where
  "dependencyMutateInsert ops task idx =
    rbind (deserialize_or_die ops (t_WriteProgram task)) (\<lambda>ProgWrite.
    rbind (deserialize_or_die ops (t_Program task)) (\<lambda>ProgCondition.
    rbind (insert_calls idx (t_WriteIndex task) (pr_Calls ProgWrite) (pr_Calls ProgCondition)) (\<lambda>calls.
    let data = o_Serialize ops (ProgCondition\<lparr>pr_Calls := calls\<rparr>);
        conditionIdx = t_Index task + t_WriteIndex task + 1;
        trd = \<lparr>trd_Hash = o_Hash ops data, trd_Program = data, trd_WriteIdx = of_nat idx + t_WriteIndex task,
               trd_ConditionIdx = conditionIdx, trd_Check = False,
               trd_UncoveredAddress = fresh_rtds data conditionIdx (t_UncoveredAddress task), trd_CoveredAddress = Some []\<rparr>
    in Inr (length (t_TaskRunTimeData task), task\<lparr>t_TaskRunTimeData := t_TaskRunTimeData task @ [trd]\<rparr>))))"

definition dependencyMutateRemove :: "('c, 'w) Ops \<Rightarrow> Task \<Rightarrow> nat \<Rightarrow> (nat \<times> Task) res" where
  "dependencyMutateRemove ops task n =
    (let old = t_TaskRunTimeData task ! n in
     rbind (removeSameResource (trd_Program old)) (\<lambda>(data, removeIdx).
     rbind (go_nth removeIdx (uint (trd_WriteIdx old))) (\<lambda>writeIdx.
     rbind (go_nth removeIdx (uint (trd_ConditionIdx old))) (\<lambda>conditionIdx.
     let trd = \<lparr>trd_Hash = o_Hash ops data, trd_Program = data, trd_WriteIdx = writeIdx, trd_ConditionIdx = conditionIdx,
                trd_Check = False, trd_UncoveredAddress = fresh_rtds data conditionIdx (t_UncoveredAddress task),
                trd_CoveredAddress = Some []\<rparr>
     in Inr (length (t_TaskRunTimeData task), task\<lparr>t_TaskRunTimeData := t_TaskRunTimeData task @ [trd]\<rparr>)))))"

section \<open>Running the changed program\<close>

definition check_run_entry ::
  "ProgInfo \<Rightarrow> uint32 \<times> RunTimeData \<Rightarrow> TaskRunTimeData \<times> uint32 list \<Rightarrow> (TaskRunTimeData \<times> uint32 list) res" where
  "check_run_entry info e s =
    (case (e, s) of ((ua, r), (trd, temp)) \<Rightarrow>
     let store = (\<lambda>r' trd. trd\<lparr>trd_UncoveredAddress := go_set ua r' (trd_UncoveredAddress trd)\<rparr>);
         raise = (\<lambda>ts r. if rtd_TaskStatus r < ts then r\<lparr>rtd_TaskStatus := ts\<rparr> else r)
     in rbind (go_nth (pi_Calls info) (uint (trd_WriteIdx trd))) (\<lambda>c1.
     if checkAddressInArray (rtd_WriteAddress r) (ci_Cover c1) then
       rbind (go_nth (pi_Calls info) (uint (trd_ConditionIdx trd))) (\<lambda>c2.
       let r1 = r\<lparr>rtd_CheckWrite := True\<rparr> in
       if checkAddressInArray (rtd_ConditionAddress r) (ci_Cover c2) then
         (let r2 = r1\<lparr>rtd_CheckCondition := True\<rparr> in
          if checkAddressInArray ua (ci_Cover c2) then
            (let r3 = check_branches (ci_Cover c2) (r2\<lparr>rtd_CheckAddress := True, rtd_TaskStatus := TaskStatus_covered\<rparr>) in
             rmap (\<lambda>cov. ((store r3 trd)\<lparr>trd_CoveredAddress := cov\<rparr>, temp @ [ua])) (go_put ua r3 (trd_CoveredAddress trd)))
          else Inr (store (check_branches (ci_Cover c2) (raise TaskStatus_tested (r2\<lparr>rtd_CheckAddress := False\<rparr>))) trd, temp))
       else Inr (store (raise TaskStatus_unstable_insert_condition (r1\<lparr>rtd_CheckCondition := False\<rparr>)) trd, temp))
     else Inr (store (raise TaskStatus_unstable_insert_write (r\<lparr>rtd_CheckWrite := False\<rparr>)) trd, temp)))"

text \<open>What a run covered is taken over into the task.\<close>

definition take_covered :: "uint32 \<times> RunTimeData \<Rightarrow> Task \<Rightarrow> Task res" where
  "take_covered e task =
    (let task1 = task\<lparr>t_UncoveredAddress := go_del (fst e) (t_UncoveredAddress task)\<rparr> in
     if go_has (t_CoveredAddress task1) (fst e) then Inr task1
     else rmap (\<lambda>cov. task1\<lparr>t_CoveredAddress := cov\<rparr>) (go_put (fst e) (snd e) (t_CoveredAddress task1)))"

definition dependencyMutateCheck :: "('c, 'w) Ops \<Rightarrow> Proc \<Rightarrow> nat \<Rightarrow> Task \<Rightarrow> ('c, 'w) Fuzzer \<Rightarrow> (Task \<times> ('c, 'w) Fuzzer) res" where
  "dependencyMutateCheck ops pc n task f =
    (let trd = t_TaskRunTimeData task ! n in
     rbind (deserialize_or_die ops (trd_Program trd)) (\<lambda>p.
     rbind (execute ops (pc_execOptsCover pc) p ProgNormal StatDependency f) (\<lambda>((info, _), f1).
     rbind (rfold (check_run_entry info) (go_range (trd_UncoveredAddress trd)) (trd, [])) (\<lambda>(trd1, temp).
     let trd2 = trd1\<lparr>trd_UncoveredAddress := fold go_del temp (trd_UncoveredAddress trd1)\<rparr>;
         task1 = task\<lparr>t_TaskRunTimeData := (t_TaskRunTimeData task)[n := trd2]\<rparr>
     in rmap (\<lambda>task2. (task2, f1)) (rfold take_covered (go_range (trd_CoveredAddress trd2)) task1)))))"

section \<open>Mutating arguments\<close>

definition executeDependencyHintSeed :: "('c, 'w) Ops \<Rightarrow> Proc \<Rightarrow> 'c Prog \<Rightarrow> int \<Rightarrow> ('c, 'w) Fuzzer \<Rightarrow> ('c Prog \<times> ('c, 'w) Fuzzer) res" where
  "executeDependencyHintSeed ops pc p call f =
    rbind (execute ops (pc_execOptsComps pc) p ProgNormal StatDependency f) (\<lambda>((info, p1), f1).
    rbind (go_nth (pi_Calls info) call) (\<lambda>c.
    rmap (\<lambda>f2. (p1, f2)) (execute_mutants ops (pc_execOpts pc) StatDependency (pr_Comments p1) (o_MutateWithHints ops p1 call (ci_Comps c)) f1)))"

definition dependencyMutateArguement :: "('c, 'w) Ops \<Rightarrow> Proc \<Rightarrow> Task \<Rightarrow> nat \<Rightarrow> ('c, 'w) Fuzzer \<Rightarrow> ('c, 'w) Fuzzer res" where
  "dependencyMutateArguement ops pc task n f =
    (let trd = t_TaskRunTimeData task ! n in
     if t_Check task \<and> t_Kind task = WriteStatementKind_WriteStatementNonconstant \<and> trd_WriteIdx trd < trd_ConditionIdx trd
        \<and> \<not> f_comparisonTracingEnabled f then
       rbind (deserialize_or_die ops (trd_Program trd)) (\<lambda>p.
       rbind (executeDependencyHintSeed ops pc p (uint (trd_WriteIdx trd)) f) (\<lambda>(p1, f1).
       rmap snd (executeDependencyHintSeed ops pc p1 (uint (trd_ConditionIdx trd)) f1)))
     else Inr f)"

section \<open>A task\<close>

definition try_insert :: "('c, 'w) Ops \<Rightarrow> Proc \<Rightarrow> nat \<Rightarrow> Task \<times> ('c, 'w) Fuzzer \<Rightarrow> (Task \<times> ('c, 'w) Fuzzer) res" where
  "try_insert ops pc i s =
    (case s of (task, f) \<Rightarrow>
     rbind (dependencyMutateInsert ops task i) (\<lambda>(n, task1).
     rbind (dependencyMutateCheck ops pc n task1 f) (\<lambda>(task2, f2).
     rbind (dependencyMutateArguement ops pc task2 n f2) (\<lambda>f3.
     rbind (dependencyMutateRemove ops task2 n) (\<lambda>(n', task3).
     rbind (dependencyMutateCheck ops pc n' task3 f3) (\<lambda>(task4, f4).
     rmap (\<lambda>f5. (task4, f5)) (dependencyMutateArguement ops pc task4 n f4)))))))"

definition final_status :: "Task \<Rightarrow> Task" where
  "final_status task =
    (if go_len (t_UncoveredAddress task) = 0 then task\<lparr>t_TaskStatus := TaskStatus_covered\<rparr>
     else if \<not> t_Check task then task\<lparr>t_TaskStatus := TaskStatus_unstable\<rparr>
     else fold (\<lambda>trd task. fold (\<lambda>(_, ua) task. if t_TaskStatus task < rtd_TaskStatus ua
           then task\<lparr>t_TaskStatus := rtd_TaskStatus ua\<rparr> else task) (go_range (trd_UncoveredAddress trd)) task)
         (t_TaskRunTimeData task) task)"

definition dependency :: "('c, 'w) Ops \<Rightarrow> Proc \<Rightarrow> Task \<Rightarrow> TaskKind \<Rightarrow> ('c, 'w) Fuzzer \<Rightarrow> (Task \<times> ('c, 'w) Fuzzer) res" where
  "dependency ops pc task0 kind f =
    (let task = snd (ComputeHash task0) in
     rbind (dependencyMutateCheckATask ops pc task f) (\<lambda>(task1, f1).
     rbind (if t_Check task1 then rfold (try_insert ops pc) [0, unat (t_Index task1)] (task1, f1) else Inr (task1, f1)) (\<lambda>(task2, f2).
     let task3 = snd (ComputeHash ((final_status task2)\<lparr>t_Count := 1\<rparr>)) in
     Inr (task3, send (ReturnTasksMsg kind task3) f2))))"

section \<open>Boot tasks and inputs\<close>

definition boot_calls :: "('c, 'w) Ops \<Rightarrow> Task \<Rightarrow> 'c Prog \<Rightarrow> 'c Prog res" where
  "boot_calls ops task p =
    (let l = length (pr_Calls p); idx = unat (t_Index task);
         index = takeWhile (\<lambda>i. int i < int l - 1) (map unat (bit_indices (t_WriteIndex task)))
     in rbind (rfold (\<lambda>i p. o_RemoveCall ops (int i) p) [Suc idx..<l] p) (\<lambda>p1.
        rfold (\<lambda>(ii, i) p. o_RemoveCall ops (int i - int ii) p) (enumerate 0 index) p1))"

definition dependencyBoot :: "('c, 'w) Ops \<Rightarrow> Proc \<Rightarrow> WorkBoot \<Rightarrow> ('c, 'w) Fuzzer \<Rightarrow> (Task \<times> ('c, 'w) Fuzzer) res" where
  "dependencyBoot ops pc item f =
    (let task = wb_task item in
     rbind (deserialize_or_die ops (t_WriteProgram task)) (\<lambda>p0.
     rbind (boot_calls ops task p0) (\<lambda>p.
     rbind (execute ops (pc_execOptsCover pc) p ProgNormal StatDependency f) (\<lambda>((info, p1), f1).
     rbind (rfold (\<lambda>(ua, r) task. rbind (go_nth (pi_Calls info) (uint (t_Index task))) (\<lambda>c.
              if checkAddressInArray ua (ci_Cover c)
              then rmap (\<lambda>cov. task\<lparr>t_CoveredAddress := cov\<rparr>) (go_put ua r (t_CoveredAddress task)) else Inr task))
            (go_range (t_UncoveredAddress task)) task) (\<lambda>task1.
     let data = o_Serialize ops p1;
         task2 = task1\<lparr>t_WriteProgram := t_WriteProgram task1 @ data,
                       t_UncoveredAddress := fold go_del (go_keys (t_CoveredAddress task1)) (t_UncoveredAddress task1)\<rparr> in
     rbind (if go_len (t_CoveredAddress task2) \<noteq> 0 then
              rbind (if wb_call item \<noteq> - 1
                     then rmap (\<lambda>c. Some [(of_int (wb_call item), (cover_call 0 (ci_Cover c))\<lparr>c_Idx := of_int (wb_call item)\<rparr>)])
                            (go_nth (pi_Calls info) (uint (t_Index task)))
                     else Inr (Some [])) (\<lambda>calls.
              Inr (task2\<lparr>t_TaskStatus := TaskStatus_covered\<rparr>,
                   send (SendBootInputMsg (Input_zero\<lparr>i_Sig := t_Sig task, i_Program := data, i_Call := calls,
                     i_Stat := FuzzingStat_StatDependencyBoot\<rparr>)) f1))
            else Inr (task2\<lparr>t_TaskStatus := TaskStatus_tested\<rparr>, f1)) (\<lambda>(task3, f2).
     let task4 = snd (ComputeHash task3) in Inr (task4, send (ReturnTasksMsg TaskKind_Boot task4) f2)))))))"

text \<open>\<open>txt\<close> is the text the methods collect for the log.\<close>

definition checkInput :: "('c, 'w) Ops \<Rightarrow> Proc \<Rightarrow> string \<Rightarrow> Input \<Rightarrow> ('c, 'w) Fuzzer \<Rightarrow> ('c, 'w) Fuzzer res" where
  "checkInput ops pc txt input f =
    rbind (GetTaskByInput input (f_DataDependency f)) (\<lambda>(_, ua, tasks).
    rbind (rfold (\<lambda>t f. rmap snd (dependency ops pc t TaskKind_Ckeck f)) tasks f) (\<lambda>f1.
    let f2 = client_SSendLog (client_SendLog ops txt f1) in
    if tasks \<noteq> [] then
      (case ua of
         Some u \<Rightarrow> Inr (f2\<lparr>f_DataDependency := (f_DataDependency f2)\<lparr>
             dd_UncoveredAddress := go_del u (dd_UncoveredAddress (f_DataDependency f2))\<rparr>\<rparr>)
       | None \<Rightarrow> Inl (Panic ''nil pointer dereference''))
    else Inr f2))"

text \<open>\<open>dependencyMutateParameter\<close> tries at most 40 random arguments of the condition's call.\<close>

definition parameter_entry :: "('c, 'w) Ops \<Rightarrow> 'c Prog \<Rightarrow> nat \<Rightarrow> Cover \<Rightarrow> uint32 \<times> RunTimeData \<Rightarrow> Task \<Rightarrow> Task res" where
  "parameter_entry ops p i cov e task =
    (case e of (u, r) \<Rightarrow>
     if checkAddressInCover (rtd_ConditionAddress r) cov \<and> checkAddressInCover (rtd_Address r) cov then
       rmap (\<lambda>m. task\<lparr>t_CoveredAddress := m, t_UncoveredAddress := go_del u (t_UncoveredAddress task)\<rparr>)
         (go_put u (r\<lparr>rtd_Program := rtd_Program r @ o_Serialize ops p, rtd_TaskStatus := TaskStatus_covered,
            rtd_Idx := of_nat i, rtd_CheckAddress := True\<rparr>) (t_CoveredAddress task))
     else Inr task)"

fun mutate_parameter :: "('c, 'w) Ops \<Rightarrow> Proc \<Rightarrow> 'c Prog \<Rightarrow> nat list \<Rightarrow> Task \<times> ('c, 'w) Fuzzer \<Rightarrow> (Task \<times> ('c, 'w) Fuzzer) res" where
  "mutate_parameter ops pc p [] s = Inr s"
| "mutate_parameter ops pc p (i # is) (task, f) =
    (if go_len (t_UncoveredAddress task) > 0 then
       (let (q, w) = o_MutateIoctl3Arg ops p (uint (t_Index task)) (f_world f) in
        rbind (execute ops (pc_execOptsCover pc) q ProgNormal StatDependency (f\<lparr>f_world := w\<rparr>)) (\<lambda>((info, q1), f1).
        rbind (go_nth (pi_Calls info) (uint (t_Index task))) (\<lambda>c.
        rbind (rfold (parameter_entry ops q1 i (cov_Merge (Some []) (ci_Cover c))) (go_range (t_UncoveredAddress task)) task) (\<lambda>task1.
        mutate_parameter ops pc p is (task1, f1)))))
     else Inr (task, f))"

definition dependencyMutateParameter :: "('c, 'w) Ops \<Rightarrow> Proc \<Rightarrow> Task \<Rightarrow> 'c Prog \<Rightarrow> ('c, 'w) Fuzzer \<Rightarrow> (Task \<times> ('c, 'w) Fuzzer) res" where
  "dependencyMutateParameter ops pc task p f = mutate_parameter ops pc p [0..<40] (task, f)"

section \<open>Every address is accounted for\<close>

text \<open>
  A record is marked as covered, and the coverage that an execution reported for the call \<open>i\<close>
  holds the address of its condition and the address it is recorded under.
\<close>

definition covered_by :: "ProgInfo \<Rightarrow> uint32 \<Rightarrow> uint32 \<Rightarrow> RunTimeData \<Rightarrow> bool" where
  "covered_by info i k r \<longleftrightarrow> rtd_TaskStatus r = TaskStatus_covered \<and> rtd_CheckCondition r \<and> rtd_CheckAddress r
     \<and> (\<exists>c. go_nth (pi_Calls info) (uint i) = Inr c \<and> rtd_ConditionAddress r \<in> set (ci_Cover c) \<and> k \<in> set (ci_Cover c))"

text \<open>The programs a task has run for its condition, with the index of the condition's call.\<close>

definition progs :: "Task \<Rightarrow> (bytes \<times> uint32) set" where
  "progs t = insert (t_Program t, t_Index t) (set (map (\<lambda>trd. (trd_Program trd, trd_ConditionIdx trd)) (t_TaskRunTimeData t)))"

text \<open>The outside world gets from one state to another by running programs and drawing random numbers.\<close>

definition world_step :: "('c, 'w) Ops \<Rightarrow> 'w \<Rightarrow> 'w \<Rightarrow> bool" where
  "world_step ops w w' \<longleftrightarrow> (\<exists>opts p. w' = snd (o_Exec ops opts p w)) \<or> (\<exists>n. w' = snd (o_Intn ops n w))"

definition later :: "('c, 'w) Ops \<Rightarrow> ('c, 'w) Fuzzer \<Rightarrow> ('c, 'w) Fuzzer \<Rightarrow> bool" where
  "later ops f f' \<longleftrightarrow> (world_step ops)\<^sup>*\<^sup>* (f_world f) (f_world f')"

text \<open>Between \<open>f\<close> and \<open>f'\<close> one of the programs was executed, and its coverage shows that the record is covered.\<close>

definition seen :: "('c, 'w) Ops \<Rightarrow> Proc \<Rightarrow> ('c, 'w) Fuzzer \<Rightarrow> ('c, 'w) Fuzzer \<Rightarrow> (bytes \<times> uint32) set \<Rightarrow> uint32 \<Rightarrow> RunTimeData \<Rightarrow> bool" where
  "seen ops pc f f' ps k r \<longleftrightarrow> (\<exists>data i p g info q g'. (data, i) \<in> ps \<and> o_Deserialize ops data = Some p
     \<and> later ops f g \<and> execute ops (pc_execOptsCover pc) p ProgNormal StatDependency g = Inr ((info, q), g') \<and> later ops g' f'
     \<and> covered_by info i k r)"

definition hits_since :: "(uint32 \<Rightarrow> RunTimeData \<Rightarrow> bool) \<Rightarrow> rtd_map \<Rightarrow> rtd_map \<Rightarrow> bool" where
  "hits_since S m m' \<longleftrightarrow> (\<forall>(k, r) \<in> set (go_range m'). (k, r) \<in> set (go_range m) \<or> S k r)"

definition accounts :: "(uint32 \<Rightarrow> RunTimeData \<Rightarrow> bool) \<Rightarrow> Task \<Rightarrow> Task \<Rightarrow> bool" where
  "accounts S t t' \<longleftrightarrow> set (go_keys (t_UncoveredAddress t')) \<subseteq> set (go_keys (t_UncoveredAddress t))
     \<and> set (go_keys (t_CoveredAddress t)) \<subseteq> set (go_keys (t_CoveredAddress t'))
     \<and> set (go_keys (t_UncoveredAddress t)) - set (go_keys (t_UncoveredAddress t')) \<subseteq> set (go_keys (t_CoveredAddress t'))
     \<and> progs t \<subseteq> progs t' \<and> hits_since S (t_CoveredAddress t) (t_CoveredAddress t')"

lemma hits_since_refl [simp]: "hits_since S m m"
  by (auto simp: hits_since_def)

lemma hits_since_trans: "hits_since S a b \<Longrightarrow> hits_since S b c \<Longrightarrow> hits_since S a c"
  by (auto simp: hits_since_def)

lemma hits_since_set: "S k r \<Longrightarrow> hits_since S m (go_set k r m)"
  using go_range_set [of k r m] by (auto simp: hits_since_def)

lemma accounts_refl [simp]: "accounts S t t"
  by (simp add: accounts_def)

lemma accounts_trans [trans]: "accounts S a b \<Longrightarrow> accounts S b c \<Longrightarrow> accounts S a c"
  unfolding accounts_def using hits_since_trans by blast

lemma accounts_mono: "accounts S t t' \<Longrightarrow> (\<And>k r. S k r \<Longrightarrow> S' k r) \<Longrightarrow> accounts S' t t'"
  by (auto simp: accounts_def hits_since_def)

lemma accounts_same:
  "t_UncoveredAddress t' = t_UncoveredAddress t \<Longrightarrow> t_CoveredAddress t' = t_CoveredAddress t \<Longrightarrow> progs t \<subseteq> progs t' \<Longrightarrow> accounts S t t'"
  by (simp add: accounts_def)

lemma later_refl [simp]: "later ops f f"
  by (simp add: later_def)

lemma later_trans [trans]: "later ops a b \<Longrightarrow> later ops b c \<Longrightarrow> later ops a c"
  unfolding later_def by (rule rtranclp_trans)

lemma seen_mono:
  assumes "seen ops pc g g' ps k r" "later ops f g" "later ops g' f'" "ps \<subseteq> ps'"
  shows "seen ops pc f f' ps' k r"
  using assms unfolding seen_def by (meson later_trans subsetD)

subsection \<open>Executions\<close>

lemma exec_tries_later: "exec_tries ops opts p stat n f = Inr (info, f') \<Longrightarrow> later ops f f'"
proof (induction n arbitrary: f)
  case (Suc n)
  obtain r w where e: "o_Exec ops opts p (f_world f) = (r, w)" by fastforce
  let ?f = "f\<lparr>f_world := w, f_stats := (f_stats f)(stat := f_stats f stat + 1)\<rparr>"
  have "world_step ops (f_world f) w" by (metis e snd_conv world_step_def)
  then have "later ops f ?f" by (simp add: later_def r_into_rtranclp)
  moreover have "later ops ?f f'" using Suc.IH [of ?f] Suc.prems by (auto simp: e Let_def split: option.splits)
  ultimately show ?case by (rule later_trans)
qed simp

lemma checkNewSignal_world: "checkNewSignal ops p info f = Inr (r, f') \<Longrightarrow> f_world f' = f_world f"
proof -
  have one: "f_world g' = f_world g" if "checkNewCallSignal ops p c i g = Inr (b, g')" for c i g b g'
    using that by (auto simp: checkNewCallSignal_def Let_def rbind_Inr_conv split: if_splits)
  have "f_world g' = f_world g" if "new_signal_calls ops p i infos g = Inr (calls, g')" for i infos g calls g'
    using that by (induction infos arbitrary: i g calls) (auto simp: res_conv dest: one)
  then show "checkNewSignal ops p info f = Inr (r, f') \<Longrightarrow> f_world f' = f_world f"
    using one by (auto simp: checkNewSignal_def res_conv split: option.splits)
qed

lemma report_need_later: "later ops f (report_need ops p info f)"
proof (cases "f_need f")
  case True
  obtain r w where r: "o_Intn ops 100 (f_world f) = (r, w)" by fastforce
  then have "world_step ops (f_world f) w" by (metis snd_conv world_step_def)
  moreover have "f_world (report_need ops p info f) = w"
    using True r by (simp add: report_need_def proc_SendNeedInput_def Let_def send_def)
  ultimately show ?thesis by (simp add: later_def r_into_rtranclp)
qed (simp add: report_need_def)

lemma execute_later:
  assumes "execute ops opts p flags stat f = Inr (r, f')"
  shows "later ops f f'"
proof -
  from assms obtain info f1 calls extra f2 p' f3 f4 nfo where
    1: "executeRaw ops opts p stat f = Inr (info, f1)" and 2: "checkNewSignal ops p info f1 = Inr ((calls, extra), f2)"
    and 3: "rfold (\<lambda>i f. rbind (go_nth (pi_Calls (the info)) (int i)) (\<lambda>c. enqueueCallTriage p' flags (int i) c f)) calls f2 = Inr f3"
    and 4: "(if extra then enqueueCallTriage p' flags (- 1) (pi_Extra (the info)) f3 else Inr f3) = Inr f4"
    and 5: "f' = report_need ops p' nfo f4"
    unfolding execute_def Let_def by (auto simp: rbind_Inr_conv split del: if_split)
  have enq: "f_world g' = f_world g" if "enqueueCallTriage p' flags i c g = Inr g'" for i c g g'
    using that by (auto simp: enqueueCallTriage_def rmap_Inr_conv)
  have "f_world f3 = f_world f2"
    by (rule rfold_inv [OF 3, of "\<lambda>g. f_world g = f_world f2"]) (auto simp: rbind_Inr_conv dest: enq)
  then have "f_world f4 = f_world f1" using 4 checkNewSignal_world [OF 2] by (auto split: if_splits dest: enq)
  moreover have "later ops f f1" using 1 by (auto simp: executeRaw_def dest: exec_tries_later split: if_splits)
  ultimately have "later ops f f4" by (simp add: later_def)
  then show ?thesis unfolding 5 using report_need_later later_trans by blast
qed

lemma executeDependencyHintSeed_later:
  assumes "executeDependencyHintSeed ops pc p call f = Inr (q, f')"
  shows "later ops f f'"
proof -
  have mutants: "later ops g g'" if "execute_mutants ops opts stat cs qs g = Inr g'" for opts stat cs qs g g'
  proof -
    from that obtain cs' where "rfold (\<lambda>q (cs, f). rmap (\<lambda>((_, q'), f'). (pr_Comments q', f'))
        (execute ops opts (q\<lparr>pr_Comments := cs\<rparr>) ProgNormal stat f)) qs (cs, g) = Inr (cs', g')"
      by (auto simp: execute_mutants_def rmap_Inr_conv)
    then have "later ops g (snd (cs', g'))"
      by (rule rfold_inv [where I = "\<lambda>s. later ops g (snd s)"]) (auto simp: rmap_Inr_conv dest!: execute_later intro: later_trans)
    then show ?thesis by simp
  qed
  show ?thesis
    using assms unfolding executeDependencyHintSeed_def
    by (auto simp: rbind_Inr_conv rmap_Inr_conv dest!: mutants execute_later intro: later_trans)
qed

lemma Arguement_later: "dependencyMutateArguement ops pc task n f = Inr f' \<Longrightarrow> later ops f f'"
  by (auto simp: dependencyMutateArguement_def Let_def res_conv dest!: executeDependencyHintSeed_later intro: later_trans split: if_splits)

subsection \<open>The steps\<close>

lemma fold_go_del_keys [simp]: "set (go_keys (fold go_del ks m)) = set (go_keys m) - set ks"
  by (induction ks arbitrary: m) auto

lemma at_least_simps [simp]:
  "rtd_Address (at_least ts r) = rtd_Address r" "rtd_ConditionAddress (at_least ts r) = rtd_ConditionAddress r"
  "rtd_WriteAddress (at_least ts r) = rtd_WriteAddress r"
  by (simp_all add: at_least_def)

lemma check_task_simps [simp]:
  "rtd_Address (check_task_write b r) = rtd_Address r" "rtd_ConditionAddress (check_task_write b r) = rtd_ConditionAddress r"
  "rtd_Address (check_task_condition cov r) = rtd_Address r" "rtd_ConditionAddress (check_task_condition cov r) = rtd_ConditionAddress r"
  by (simp_all add: check_task_write_def check_task_condition_def check_branches_def)

lemma check_task_condition_hit:
  "rtd_ConditionAddress r \<in> set (ci_Cover c) \<Longrightarrow> rtd_Address r \<in> set (ci_Cover c) \<Longrightarrow> go_nth (pi_Calls info) (uint i) = Inr c \<Longrightarrow>
    covered_by info i (rtd_Address r) (check_task_condition (ci_Cover c) r)"
  by (simp add: check_task_condition_def check_branches_def covered_by_def)

lemma check_task_entry_result:
  assumes "check_task_entry info1 info2 (k, r) (task, temp, f) = Inr (task', temp', f')"
  shows "\<exists>c1 c2 cov check r2. go_nth (pi_Calls info1) (uint (t_WriteIndex task)) = Inr c1 \<and> go_nth (pi_Calls info2) (uint (t_Index task)) = Inr c2
    \<and> r2 = check_task_condition (ci_Cover c2) (check_task_write (rtd_WriteAddress r \<in> set (ci_Cover c1)) r)
    \<and> task' = task\<lparr>t_UncoveredAddress := go_set k r2 (t_UncoveredAddress task), t_CoveredAddress := cov, t_Check := check\<rparr>
    \<and> (if rtd_ConditionAddress r \<in> set (ci_Cover c2) \<and> rtd_Address r \<in> set (ci_Cover c2)
       then go_put (rtd_Address r) r2 (t_CoveredAddress task) = Inr cov \<and> temp' = temp @ [rtd_Address r] \<and> covered_by info2 (t_Index task) (rtd_Address r) r2
       else cov = t_CoveredAddress task \<and> temp' = temp)
    \<and> check = (t_Check task \<or> (rtd_WriteAddress r \<in> set (ci_Cover c1) \<and> rtd_ConditionAddress r \<in> set (ci_Cover c2)))"
proof -
  from assms obtain c1 c2 cov where
    c: "go_nth (pi_Calls info1) (uint (t_WriteIndex task)) = Inr c1" "go_nth (pi_Calls info2) (uint (t_Index task)) = Inr c2"
    and r: "(if rtd_ConditionAddress r \<in> set (ci_Cover c2) \<and> rtd_Address r \<in> set (ci_Cover c2)
       then go_put (rtd_Address r) (check_task_condition (ci_Cover c2) (check_task_write (rtd_WriteAddress r \<in> set (ci_Cover c1)) r)) (t_CoveredAddress task)
       else Inr (t_CoveredAddress task)) = Inr cov"
    and t: "task' = task\<lparr>t_UncoveredAddress := go_set k (check_task_condition (ci_Cover c2) (check_task_write (rtd_WriteAddress r \<in> set (ci_Cover c1)) r))
        (t_UncoveredAddress task), t_CoveredAddress := cov,
        t_Check := t_Check task \<or> (rtd_WriteAddress r \<in> set (ci_Cover c1) \<and> rtd_ConditionAddress r \<in> set (ci_Cover c2))\<rparr>"
      "temp' = (if rtd_ConditionAddress r \<in> set (ci_Cover c2) \<and> rtd_Address r \<in> set (ci_Cover c2) then temp @ [rtd_Address r] else temp)"
    unfolding check_task_entry_def prod.case Let_def rbind_Inr_conv checkAddressInArray_iff check_task_simps
    by (auto split del: if_split)
  show ?thesis
    by (intro exI [of _ c1] exI [of _ c2] exI [of _ cov] exI conjI, rule c(1), rule c(2), rule refl, rule t(1))
      (use r t(2) check_task_condition_hit [of "check_task_write (rtd_WriteAddress r \<in> set (ci_Cover c1)) r" c2, OF _ _ c(2)] in \<open>auto split: if_splits\<close>)
qed

lemma if_cases: "(if b then P else Q) \<Longrightarrow> (P \<Longrightarrow> R) \<Longrightarrow> (Q \<Longrightarrow> R) \<Longrightarrow> R"
  by (cases b) auto

lemma check_task_entry_keeps:
  assumes "check_task_entry info1 info2 (k, r) (task, temp, f) = Inr (task', temp', f')" "k \<in> set (go_keys (t_UncoveredAddress task))"
    and "set temp \<subseteq> set (go_keys (t_CoveredAddress task))"
  shows "t_Index task' = t_Index task \<and> progs task' = progs task \<and> set (go_keys (t_UncoveredAddress task')) = set (go_keys (t_UncoveredAddress task))
    \<and> set (go_keys (t_CoveredAddress task)) \<subseteq> set (go_keys (t_CoveredAddress task'))
    \<and> hits_since (covered_by info2 (t_Index task)) (t_CoveredAddress task) (t_CoveredAddress task') \<and> set temp' \<subseteq> set (go_keys (t_CoveredAddress task'))"
proof -
  from check_task_entry_result [OF assms(1)] obtain c2 :: CallInfo and cov r2 check where
    t: "task' = task\<lparr>t_UncoveredAddress := go_set k r2 (t_UncoveredAddress task), t_CoveredAddress := cov, t_Check := check\<rparr>"
    and i: "if rtd_ConditionAddress r \<in> set (ci_Cover c2) \<and> rtd_Address r \<in> set (ci_Cover c2)
       then go_put (rtd_Address r) r2 (t_CoveredAddress task) = Inr cov \<and> temp' = temp @ [rtd_Address r] \<and> covered_by info2 (t_Index task) (rtd_Address r) r2
       else cov = t_CoveredAddress task \<and> temp' = temp"
    by blast
  have keys: "set (go_keys (t_UncoveredAddress task')) = set (go_keys (t_UncoveredAddress task))" "t_CoveredAddress task' = cov"
    using assms(2) by (auto simp: t)
  have "t_Index task' = t_Index task \<and> progs task' = progs task" by (simp add: t progs_def)
  with i show ?thesis
    by (elim if_cases) (use assms(3) keys in \<open>auto simp: go_put_conv hits_since_set\<close>)
qed

lemma check_task_entries_keep:
  assumes "rfold (check_task_entry info1 info2) es (t0, [], f0) = Inr (task, temp, f)"
    and "fst ` set es \<subseteq> set (go_keys (t_UncoveredAddress t0))"
  shows "t_Index task = t_Index t0 \<and> progs task = progs t0 \<and> set (go_keys (t_UncoveredAddress task)) = set (go_keys (t_UncoveredAddress t0))
    \<and> set (go_keys (t_CoveredAddress t0)) \<subseteq> set (go_keys (t_CoveredAddress task))
    \<and> hits_since (covered_by info2 (t_Index t0)) (t_CoveredAddress t0) (t_CoveredAddress task) \<and> set temp \<subseteq> set (go_keys (t_CoveredAddress task))"
proof -
  let ?I = "\<lambda>(task, temp, f). t_Index task = t_Index t0 \<and> progs task = progs t0 \<and> set (go_keys (t_UncoveredAddress task)) = set (go_keys (t_UncoveredAddress t0))
    \<and> set (go_keys (t_CoveredAddress t0)) \<subseteq> set (go_keys (t_CoveredAddress task))
    \<and> hits_since (covered_by info2 (t_Index t0)) (t_CoveredAddress t0) (t_CoveredAddress task) \<and> set temp \<subseteq> set (go_keys (t_CoveredAddress task))"
  have "?I (task, temp, f)"
  proof (rule rfold_inv [OF assms(1), of ?I])
    show "?I (t0, [], f0)" by simp
    show "?I s'" if x: "x \<in> set es" and I: "?I s" and step: "check_task_entry info1 info2 x s = Inr s'" for x s s'
    proof -
      obtain k r where x': "x = (k, r)" by (cases x)
      obtain t1 tmp1 f1 where s: "s = (t1, tmp1, f1)" by (cases s)
      obtain t2 tmp2 f2 where s': "s' = (t2, tmp2, f2)" by (cases s')
      have "k \<in> set (go_keys (t_UncoveredAddress t0))" using x x' assms(2) by force
      then have "k \<in> set (go_keys (t_UncoveredAddress t1))" "set tmp1 \<subseteq> set (go_keys (t_CoveredAddress t1))" using I s by auto
      with check_task_entry_keeps [of info1 info2 k r t1 tmp1 f1 t2 tmp2 f2] step x' s s' I
      show ?thesis by (auto intro: hits_since_trans)
    qed
  qed
  then show ?thesis by simp
qed

lemma CheckATask_accounts:
  assumes "dependencyMutateCheckATask ops pc task f = Inr (task', f')"
  shows "accounts (seen ops pc f f' (progs task')) task task' \<and> later ops f f'"
proof -
  from assms obtain p info1 q1 f1 p2 info2 q2 f2 task1 temp where
    e1: "execute ops (pc_execOptsCover pc) p ProgNormal StatDependency f = Inr ((info1, q1), f1)"
    and p2: "deserialize_or_die ops (t_Program task) = Inr p2"
    and e2: "execute ops (pc_execOptsCover pc) p2 ProgNormal StatDependency f1 = Inr ((info2, q2), f2)"
    and 1: "rfold (check_task_entry info1 info2) (go_range (t_UncoveredAddress task)) (task, [], f2) = Inr (task1, temp, f')"
      "task' = task1\<lparr>t_UncoveredAddress := fold go_del temp (t_UncoveredAddress task1)\<rparr>"
    by (auto simp: dependencyMutateCheckATask_def res_conv)
  have "fst ` set (go_range (t_UncoveredAddress task)) \<subseteq> set (go_keys (t_UncoveredAddress task))"
    by (simp add: go_keys_def)
  note keep = check_task_entries_keep [OF 1(1) this]
  have "accounts (covered_by info2 (t_Index task)) task task'"
    using keep 1(2) by (auto simp: accounts_def progs_def)
  have "f_world f' = f_world (snd (snd (task, [] :: uint32 list, f2)))"
  proof -
    have step: "f_world (snd (snd s')) = f_world (snd (snd s))" if "check_task_entry info1 info2 e s = Inr s'" for e s s'
      using that unfolding check_task_entry_def Let_def
      by (cases e; cases s) (auto simp: rbind_Inr_conv CollectUnstable_def split del: if_split)
    have "f_world (snd (snd (task1, temp, f'))) = f_world f2"
      by (rule rfold_inv [OF 1(1), of "\<lambda>s. f_world (snd (snd s)) = f_world f2"]) (simp, metis step)
    then show ?thesis by simp
  qed
  then have f': "later ops f2 f'" by (simp add: later_def)
  have d: "o_Deserialize ops (t_Program task) = Some p2" using p2 by (auto simp: deserialize_or_die_def split: option.splits)
  have "(t_Program task, t_Index task) \<in> progs task'" using keep 1(2) by (auto simp: progs_def)
  then have "seen ops pc f f' (progs task') k r" if "covered_by info2 (t_Index task) k r" for k r
    unfolding seen_def using d execute_later [OF e1] e2 f' that by blast
  moreover have "later ops f f'" using execute_later [OF e1] execute_later [OF e2] f' later_trans by blast
  moreover note \<open>accounts (covered_by info2 (t_Index task)) task task'\<close>
  ultimately show ?thesis using accounts_mono by blast
qed

lemma check_run_entry_covered:
  assumes "check_run_entry info (ua, r) (trd, temp) = Inr (trd', temp')"
  shows "(trd_CoveredAddress trd' = trd_CoveredAddress trd
      \<or> (\<exists>r3. covered_by info (trd_ConditionIdx trd) ua r3 \<and> trd_CoveredAddress trd' = go_set ua r3 (trd_CoveredAddress trd)))
    \<and> trd_Program trd' = trd_Program trd \<and> trd_ConditionIdx trd' = trd_ConditionIdx trd"
proof -
  from assms obtain c1 where c1: "go_nth (pi_Calls info) (uint (trd_WriteIdx trd)) = Inr c1"
    by (auto simp: check_run_entry_def Let_def rbind_Inr_conv)
  show ?thesis
  proof (cases "rtd_WriteAddress r \<in> set (ci_Cover c1)")
    case False
    with assms c1 show ?thesis by (simp add: check_run_entry_def Let_def) (auto split del: if_split)
  next
    case True
    with assms c1 obtain c2 where c2: "go_nth (pi_Calls info) (uint (trd_ConditionIdx trd)) = Inr c2"
      by (auto simp: check_run_entry_def Let_def rbind_Inr_conv)
    have h: "covered_by info (trd_ConditionIdx trd) ua (check_branches (ci_Cover c2) (r\<lparr>rtd_CheckWrite := True, rtd_CheckCondition := True,
        rtd_CheckAddress := True, rtd_TaskStatus := TaskStatus_covered\<rparr>))"
      if "rtd_ConditionAddress r \<in> set (ci_Cover c2) \<and> ua \<in> set (ci_Cover c2)"
      using that c2 by (simp add: covered_by_def check_branches_def)
    show ?thesis
    proof (cases "rtd_ConditionAddress r \<in> set (ci_Cover c2) \<and> ua \<in> set (ci_Cover c2)")
      case False
      with assms c1 c2 True show ?thesis
        by (cases "rtd_ConditionAddress r \<in> set (ci_Cover c2)") (simp add: check_run_entry_def Let_def; auto split del: if_split)+
    next
      case t2: True
      with assms c1 c2 True show ?thesis
        by (simp add: check_run_entry_def Let_def rmap_Inr_conv go_put_conv) (use h [OF t2] in auto)
    qed
  qed
qed

lemma check_run_entries:
  assumes "rfold (check_run_entry info) es (trd, []) = Inr (trd', temp)" "trd_CoveredAddress trd = Some []"
  shows "hits_since (covered_by info (trd_ConditionIdx trd)) (Some []) (trd_CoveredAddress trd')
    \<and> trd_Program trd' = trd_Program trd \<and> trd_ConditionIdx trd' = trd_ConditionIdx trd"
proof -
  let ?I = "\<lambda>s :: TaskRunTimeData \<times> uint32 list. hits_since (covered_by info (trd_ConditionIdx trd)) (Some []) (trd_CoveredAddress (fst s))
    \<and> trd_Program (fst s) = trd_Program trd \<and> trd_ConditionIdx (fst s) = trd_ConditionIdx trd"
  have "?I (trd', temp)"
  proof (rule rfold_inv [OF assms(1), of ?I])
    show "?I (trd, [])" by (simp add: assms(2))
    show "?I s'" if I: "?I s" and step: "check_run_entry info e s = Inr s'" for e s s'
      using check_run_entry_covered [of info "fst e" "snd e" "fst s" "snd s" "fst s'" "snd s'"] I step
        hits_since_trans hits_since_set by auto
  qed
  then show ?thesis by simp
qed

lemma take_covered_accounts:
  "take_covered (a, r) task = Inr task' \<Longrightarrow> S a r \<Longrightarrow> accounts S task task'"
  by (auto simp: take_covered_def Let_def accounts_def progs_def res_conv go_put_conv hits_since_set split: if_splits)

text \<open>The run-time data a step is about starts without covered addresses.\<close>

lemma Check_accounts:
  assumes "dependencyMutateCheck ops pc n task f = Inr (task', f')"
    and "trd_CoveredAddress (t_TaskRunTimeData task ! n) = Some []" "n < length (t_TaskRunTimeData task)"
  shows "accounts (seen ops pc f f' (progs task')) task task' \<and> later ops f f'
    \<and> length (t_TaskRunTimeData task') = length (t_TaskRunTimeData task)"
proof -
  let ?trd = "t_TaskRunTimeData task ! n"
  from assms(1) obtain p info q trd1 temp where p: "deserialize_or_die ops (trd_Program ?trd) = Inr p"
    and e: "execute ops (pc_execOptsCover pc) p ProgNormal StatDependency f = Inr ((info, q), f')"
    and 1: "rfold (check_run_entry info) (go_range (trd_UncoveredAddress ?trd)) (?trd, []) = Inr (trd1, temp)"
      "rfold take_covered (go_range (trd_CoveredAddress trd1))
        (task\<lparr>t_TaskRunTimeData := (t_TaskRunTimeData task)[n := trd1\<lparr>trd_UncoveredAddress := fold go_del temp (trd_UncoveredAddress trd1)\<rparr>]\<rparr>) = Inr task'"
    by (auto simp: dependencyMutateCheck_def Let_def res_conv)
  note entries = check_run_entries [OF 1(1) assms(2)]
  let ?S = "covered_by info (trd_ConditionIdx ?trd)"
  have h: "(a, r) \<in> set (go_range (trd_CoveredAddress trd1)) \<Longrightarrow> ?S a r" for a r
    using entries by (auto simp: hits_since_def)
  let ?t = "task\<lparr>t_TaskRunTimeData := (t_TaskRunTimeData task)[n := trd1\<lparr>trd_UncoveredAddress := fold go_del temp (trd_UncoveredAddress trd1)\<rparr>]\<rparr>"
  have "map (\<lambda>trd. (trd_Program trd, trd_ConditionIdx trd)) (t_TaskRunTimeData ?t)
      = map (\<lambda>trd. (trd_Program trd, trd_ConditionIdx trd)) (t_TaskRunTimeData task)"
    using entries by (simp add: map_update) (metis (no_types, lifting) list_update_id map_update)
  then have "progs ?t = progs task" by (simp only: progs_def) simp
  then have same: "accounts ?S task ?t" by (intro accounts_same) auto
  have len: "take_covered e t = Inr t' \<Longrightarrow> t_TaskRunTimeData t' = t_TaskRunTimeData t" for e t t'
    by (auto simp: take_covered_def Let_def res_conv split: if_splits)
  have "accounts ?S ?t task' \<and> length (t_TaskRunTimeData task') = length (t_TaskRunTimeData task)"
  proof (rule rfold_inv [OF 1(2), of "\<lambda>t. accounts ?S ?t t \<and> length (t_TaskRunTimeData t) = length (t_TaskRunTimeData task)"])
    show "accounts ?S ?t ?t \<and> length (t_TaskRunTimeData ?t) = length (t_TaskRunTimeData task)" by simp
    show "accounts ?S ?t t' \<and> length (t_TaskRunTimeData t') = length (t_TaskRunTimeData task)"
      if "x \<in> set (go_range (trd_CoveredAddress trd1))"
        "accounts ?S ?t t \<and> length (t_TaskRunTimeData t) = length (t_TaskRunTimeData task)" "take_covered x t = Inr t'" for x t t'
      using that h [of "fst x" "snd x"] take_covered_accounts [of "fst x" "snd x" t t' ?S] len [of x t t'] accounts_trans by auto
  qed
  with same have acc: "accounts ?S task task'" and l: "length (t_TaskRunTimeData task') = length (t_TaskRunTimeData task)"
    using accounts_trans by auto
  have "(trd_Program ?trd, trd_ConditionIdx ?trd) \<in> progs task" using assms(3) by (auto simp: progs_def)
  then have "(trd_Program ?trd, trd_ConditionIdx ?trd) \<in> progs task'" using acc by (auto simp: accounts_def)
  moreover have "o_Deserialize ops (trd_Program ?trd) = Some p" using p by (auto simp: deserialize_or_die_def split: option.splits)
  ultimately have "seen ops pc f f' (progs task') k r" if "?S k r" for k r
    unfolding seen_def using e that later_refl by blast
  then show ?thesis using accounts_mono [OF acc] l execute_later [OF e] by blast
qed

lemma new_run_data:
  assumes "dependencyMutateInsert ops task i = Inr (n, task') \<or> dependencyMutateRemove ops task m = Inr (n, task')"
  shows "accounts S task task' \<and> n = length (t_TaskRunTimeData task) \<and> length (t_TaskRunTimeData task') = Suc n
    \<and> trd_CoveredAddress (t_TaskRunTimeData task' ! n) = Some [] \<and> t_Hash task' = t_Hash task \<and> t_Check task' = t_Check task"
  using assms
proof
  assume "dependencyMutateInsert ops task i = Inr (n, task')"
  then show ?thesis by (auto simp: dependencyMutateInsert_def Let_def res_conv accounts_def progs_def)
next
  assume "dependencyMutateRemove ops task m = Inr (n, task')"
  then show ?thesis by (auto simp: dependencyMutateRemove_def Let_def res_conv accounts_def progs_def)
qed

lemma accounts_seen_trans:
  assumes "accounts (seen ops pc f f1 (progs b)) a b" "accounts (seen ops pc f1 f2 (progs c)) b c" "later ops f f1" "later ops f1 f2"
  shows "accounts (seen ops pc f f2 (progs c)) a c"
proof -
  have ps: "progs b \<subseteq> progs c" using assms(2) by (simp add: accounts_def)
  have "accounts (seen ops pc f f2 (progs c)) a b"
    by (rule accounts_mono [OF assms(1)], erule seen_mono) (simp_all add: assms(4) ps)
  moreover have "accounts (seen ops pc f f2 (progs c)) b c"
    by (rule accounts_mono [OF assms(2)], erule seen_mono) (simp_all add: assms(3))
  ultimately show ?thesis by (rule accounts_trans)
qed

lemma try_insert_accounts:
  assumes "try_insert ops pc i (task, f) = Inr (task', f')"
  shows "accounts (seen ops pc f f' (progs task')) task task' \<and> later ops f f'"
proof -
  from assms obtain n t1 t2 f2 n' t3 f3 f4 where
    1: "dependencyMutateInsert ops task i = Inr (n, t1)" and 2: "dependencyMutateCheck ops pc n t1 f = Inr (t2, f2)"
    and a1: "dependencyMutateArguement ops pc t2 n f2 = Inr f3"
    and 3: "dependencyMutateRemove ops t2 n = Inr (n', t3)" and 4: "dependencyMutateCheck ops pc n' t3 f3 = Inr (task', f4)"
    and a2: "dependencyMutateArguement ops pc task' n f4 = Inr f'"
    unfolding try_insert_def prod.case by (auto simp: res_conv)
  note a = new_run_data [OF disjI1 [OF 1]] and b = new_run_data [OF disjI2 [OF 3]]
  have "n < length (t_TaskRunTimeData t1)" "trd_CoveredAddress (t_TaskRunTimeData t1 ! n) = Some []"
    "n' < length (t_TaskRunTimeData t3)" "trd_CoveredAddress (t_TaskRunTimeData t3 ! n') = Some []"
    using a b by auto
  then have c: "accounts (seen ops pc f f2 (progs t2)) t1 t2 \<and> later ops f f2"
    and d: "accounts (seen ops pc f3 f4 (progs task')) t3 task' \<and> later ops f3 f4"
    using Check_accounts [OF 2] Check_accounts [OF 4] by blast+
  have "accounts (seen ops pc f f2 (progs t2)) task t2" using a c accounts_trans by blast
  moreover have "accounts (seen ops pc f2 f' (progs task')) t2 task'"
  proof -
    have "accounts (seen ops pc f2 f' (progs task')) t3 task'"
      by (rule accounts_mono [OF conjunct1 [OF d]], erule seen_mono) (simp_all add: Arguement_later [OF a1] Arguement_later [OF a2])
    then show ?thesis using b accounts_trans by blast
  qed
  moreover have "later ops f2 f'" using Arguement_later [OF a1] d Arguement_later [OF a2] later_trans by blast
  ultimately show ?thesis using c accounts_seen_trans later_trans by blast
qed

lemma final_status_fields:
  "t_UncoveredAddress (final_status t) = t_UncoveredAddress t" "t_CoveredAddress (final_status t) = t_CoveredAddress t"
  "progs (final_status t) = progs t"
proof -
  let ?P = "\<lambda>t'. t_UncoveredAddress t' = t_UncoveredAddress t \<and> t_CoveredAddress t' = t_CoveredAddress t
    \<and> t_TaskRunTimeData t' = t_TaskRunTimeData t \<and> t_Program t' = t_Program t \<and> t_Index t' = t_Index t"
  have "?P (final_status t)"
    unfolding final_status_def
    by (auto intro!: fold_keep [of ?P] split: prod.splits)
  then show "t_UncoveredAddress (final_status t) = t_UncoveredAddress t" "t_CoveredAddress (final_status t) = t_CoveredAddress t"
    "progs (final_status t) = progs t" by (simp_all add: progs_def)
qed

lemma ComputeHash_fields [simp]:
  "t_UncoveredAddress (snd (ComputeHash t)) = t_UncoveredAddress t" "t_CoveredAddress (snd (ComputeHash t)) = t_CoveredAddress t"
  "t_TaskRunTimeData (snd (ComputeHash t)) = t_TaskRunTimeData t" "t_TaskStatus (snd (ComputeHash t)) = t_TaskStatus t"
  "t_Count (snd (ComputeHash t)) = t_Count t" "progs (snd (ComputeHash t)) = progs t"
  by (simp_all add: ComputeHash_def progs_def)

text \<open>
  C3: working on a task loses no address. Whenever \<open>dependency\<close> returns, every uncovered
  address of the task is still uncovered or is now among the covered ones, nothing else became
  uncovered, covered addresses stay, and for every record newly entered as covered, in the course
  of this call one of the task's programs was executed whose coverage, at the condition's call,
  holds both the address of the record's condition and the address it is entered under. The task
  is counted once, has the status covered if no address is left, and is the last message sent to
  the server.
\<close>

theorem dependency_accounts:
  assumes "dependency ops pc task kind f = Inr (task', f')"
  shows "accounts (seen ops pc f f' (progs task')) task task' \<and> t_Count task' = 1
    \<and> (t_UncoveredAddress task' = Some [] \<longrightarrow> t_TaskStatus task' = TaskStatus_covered)
    \<and> (\<exists>ms. f_sent f' = ms @ [ReturnTasksMsg kind task'])"
proof -
  let ?t0 = "snd (ComputeHash task)"
  from assms obtain t1 f1 t2 f2 where
    1: "dependencyMutateCheckATask ops pc ?t0 f = Inr (t1, f1)"
    and 2: "(if t_Check t1 then rfold (try_insert ops pc) [0, unat (t_Index t1)] (t1, f1) else Inr (t1, f1)) = Inr (t2, f2)"
    and 3: "task' = snd (ComputeHash ((final_status t2)\<lparr>t_Count := 1\<rparr>))" "f' = send (ReturnTasksMsg kind task') f2"
    unfolding dependency_def Let_def by (auto simp: rbind_Inr_conv split del: if_split)
  let ?I = "\<lambda>(t, g). accounts (seen ops pc f1 g (progs t)) t1 t \<and> later ops f1 g"
  have "?I (t2, f2)"
  proof (cases "t_Check t1")
    case True
    with 2 have "rfold (try_insert ops pc) [0, unat (t_Index t1)] (t1, f1) = Inr (t2, f2)" by simp
    then show ?thesis
      by (rule rfold_inv [of _ _ _ _ ?I]) (auto dest!: try_insert_accounts intro: accounts_seen_trans later_trans)
  qed (use 2 in simp)
  moreover note CheckATask_accounts [OF 1]
  ultimately have "accounts (seen ops pc f f2 (progs t2)) ?t0 t2" using accounts_seen_trans by blast
  moreover have "progs ((final_status t2)\<lparr>t_Count := 1\<rparr>) = progs t2"
    using final_status_fields(3) [of t2] by (simp add: progs_def)
  moreover have "seen ops pc f f' = seen ops pc f f2"
    by (simp add: fun_eq_iff 3(2) seen_def later_def send_def)
  ultimately have "accounts (seen ops pc f f' (progs task')) task task'"
    by (simp add: 3(1) accounts_def final_status_fields)
  moreover have "t_UncoveredAddress task' = Some [] \<longrightarrow> t_TaskStatus task' = TaskStatus_covered"
    by (simp add: 3 final_status_fields) (simp add: final_status_def go_len_def)
  ultimately show ?thesis by (simp add: 3 send_def)
qed

section \<open>The inserted calls\<close>

text \<open>
  C6: the writing calls are inserted where the indices say. For programs that deserialize,
  a writing call within its program and an insertion point not behind the condition's call,
  \<open>dependencyMutateInsert\<close> returns; in the new program the call at \<open>WriteIdx\<close> is the writing
  call and the call at \<open>ConditionIdx\<close> the condition's call, in this order, both programs'
  calls keep their order, and every uncovered address of the task is to be tested anew.
\<close>

theorem dependencyMutateInsert_positions:
  assumes "o_Deserialize ops (t_WriteProgram task) = Some pw" and "o_Deserialize ops (t_Program task) = Some pcond"
    and "unat (t_WriteIndex task) < length (pr_Calls pw)" and "unat (t_Index task) < length (pr_Calls pcond)"
    and "idx \<le> unat (t_Index task)" and "unat (t_Index task) + unat (t_WriteIndex task) + 1 < 2 ^ 32"
  shows "\<exists>task' trd calls. dependencyMutateInsert ops task idx = Inr (length (t_TaskRunTimeData task), task')
    \<and> t_TaskRunTimeData task' = t_TaskRunTimeData task @ [trd]
    \<and> trd_Program trd = o_Serialize ops (pcond\<lparr>pr_Calls := calls\<rparr>)
    \<and> calls ! unat (trd_WriteIdx trd) = pr_Calls pw ! unat (t_WriteIndex task)
    \<and> calls ! unat (trd_ConditionIdx trd) = pr_Calls pcond ! unat (t_Index task)
    \<and> unat (trd_WriteIdx trd) < unat (trd_ConditionIdx trd) \<and> unat (trd_ConditionIdx trd) < length calls
    \<and> subseq (pr_Calls pcond) calls \<and> subseq (take (Suc (unat (t_WriteIndex task))) (pr_Calls pw)) calls"
proof -
  let ?w = "unat (t_WriteIndex task)" and ?c = "unat (t_Index task)"
  let ?W = "pr_Calls pw" and ?C = "pr_Calls pcond"
  define calls where "calls = take idx ?C @ take (Suc ?w) ?W @ drop idx ?C"
  have wi: "unat (of_nat idx + t_WriteIndex task) = idx + ?w"
    using assms(5,6) by (simp add: unat_word_ariths unat_of_nat take_bit_nat_eq_self)
  have ci: "unat (t_Index task + t_WriteIndex task + 1) = ?c + ?w + 1"
    using assms(6) by (simp add: unat_word_ariths)
  have lt: "length (take idx ?C) = idx" "length (take (Suc ?w) ?W) = Suc ?w" using assms by simp_all
  have "calls ! (idx + ?w) = ?W ! ?w" using lt by (simp add: calls_def nth_append)
  moreover have "calls ! (?c + ?w + 1) = ?C ! ?c"
  proof -
    have "?c + ?w + 1 = length (take idx ?C) + (length (take (Suc ?w) ?W) + (?c - idx))" using lt assms(5) by simp
    then have "calls ! (?c + ?w + 1) = drop idx ?C ! (?c - idx)"
      unfolding calls_def by (metis nth_append_length_plus)
    then show ?thesis using assms(4,5) by simp
  qed
  moreover have "?c + ?w + 1 < length calls" using lt assms(4,5) by (simp add: calls_def)
  moreover have "subseq ?C calls"
  proof -
    have "subseq (take idx ?C @ drop idx ?C) calls"
      unfolding calls_def by (intro list_emb_append_mono subseq_order.refl) (simp add: list_emb_append2)
    then show ?thesis by simp
  qed
  moreover have "subseq (take (Suc ?w) ?W) calls"
    unfolding calls_def by (simp add: list_emb_append2 list_emb_prefix)
  moreover have "insert_calls idx (t_WriteIndex task) ?W ?C = Inr calls"
    using assms(3-5) by (simp add: insert_calls_def calls_def)
  ultimately show ?thesis
    using assms(1,2,5) wi ci by (auto simp: dependencyMutateInsert_def deserialize_or_die_def Let_def)
qed

section \<open>Tasks that crossed the wire\<close>

text \<open>
  C7: a task without a map for its covered addresses makes the fuzzer panic as soon as one of
  its addresses is covered: a task whose \<open>CoveredAddress\<close> is nil, as in every task that the
  server sends with no covered address, and one address of which is reached by the run of the
  condition's program, is not checked to the end.
\<close>

theorem nil_covered_panics:
  assumes "t_CoveredAddress task = None"
    and "go_nth (pi_Calls info1) (uint (t_WriteIndex task)) = Inr c1" and "go_nth (pi_Calls info2) (uint (t_Index task)) = Inr c2"
    and "\<exists>(k, r) \<in> set es. rtd_ConditionAddress r \<in> set (ci_Cover c2) \<and> rtd_Address r \<in> set (ci_Cover c2)"
  shows "rfold (check_task_entry info1 info2) es (task, temp, f) = Inl (Panic ''assignment to entry in nil map'')"
  using assms
proof (induction es arbitrary: task temp f)
  case (Cons e es)
  obtain k r where e: "e = (k, r)" by (cases e)
  show ?case
  proof (cases "rtd_ConditionAddress r \<in> set (ci_Cover c2) \<and> rtd_Address r \<in> set (ci_Cover c2)")
    case True
    then show ?thesis using Cons.prems e by (simp add: check_task_entry_def Let_def go_put_def)
  next
    case False
    then obtain task' temp' f' where step: "check_task_entry info1 info2 e (task, temp, f) = Inr (task', temp', f')"
        "t_CoveredAddress task' = None" "t_WriteIndex task' = t_WriteIndex task" "t_Index task' = t_Index task"
      using Cons.prems e by (auto simp: check_task_entry_def Let_def split del: if_split)
    have "rfold (check_task_entry info1 info2) es (task', temp', f') = Inl (Panic ''assignment to entry in nil map'')"
      by (rule Cons.IH) (use Cons.prems step e False in auto)
    then show ?thesis using step(1) by simp
  qed
qed simp

section \<open>An example\<close>

text \<open>
  Programs are texts of one call per line, the call \<open>w\<close> covers address 1 and the call \<open>c\<close> the
  addresses 2 and 3.
\<close>

definition ex_ops :: "(string, unit) Ops" where
  "ex_ops = \<lparr>o_Deserialize = (\<lambda>data. Some \<lparr>pr_Calls = filter (\<lambda>l. l \<noteq> []) (split_calls data), pr_Comments = []\<rparr>),
     o_Serialize = (\<lambda>p. concat (map (\<lambda>l. l @ [CHR 0x0A]) (pr_Calls p))),
     o_Hash = (\<lambda>data. data),
     o_Exec = (\<lambda>opts p w. (Some (Some \<lparr>pi_Calls = map (\<lambda>c. \<lparr>ci_Flags = 0, ci_Signal = [],
         ci_Cover = (if c = ''w'' then [1] else if c = ''c'' then [2, 3] else []), ci_Comps = None, ci_Errno = 0\<rparr>) (pr_Calls p),
       pi_Extra = \<lparr>ci_Flags = 0, ci_Signal = [], ci_Cover = [], ci_Comps = None, ci_Errno = 0\<rparr>\<rparr>), w)),
     o_CallContainsAny = (\<lambda>c. False), o_CallName = (\<lambda>c. c), o_RemoveCall = (\<lambda>i p. Inr p), o_Generate = (\<lambda>w. (\<lparr>pr_Calls = [], pr_Comments = []\<rparr>, w)),
     o_Mutate = (\<lambda>p cs w. (p, w)), o_MutateD = (\<lambda>p cs w. (p, w)), o_MutateIoctl3Arg = (\<lambda>p i w. (p, w)), o_MutateWithHints = (\<lambda>p i m. []),
     o_Minimize = (\<lambda>p i. MiniDone p i), o_Intn = (\<lambda>n w. (0, w)), o_Now = (\<lambda>w. [])\<rparr>"

definition ex_rtd :: RunTimeData where
  "ex_rtd = RunTimeData_zero\<lparr>rtd_WriteAddress := 1, rtd_ConditionAddress := 2, rtd_Address := 3\<rparr>"

definition ex_task :: Task where
  "ex_task = Task_zero\<lparr>t_Program := ''c'' @ [CHR 0x0A], t_WriteProgram := ''w'' @ [CHR 0x0A],
     t_UncoveredAddress := Some [(3, ex_rtd)], t_CoveredAddress := Some []\<rparr>"

definition ex_call :: CallInfo where
  "ex_call = \<lparr>ci_Flags = 0, ci_Signal = [], ci_Cover = [2, 3], ci_Comps = None, ci_Errno = 0\<rparr>"

lemma ex_dependency:
  "case dependency ex_ops ex_proc ex_task TaskKind_Normal ex_fuzzer of
     Inr (t, f) \<Rightarrow> t_UncoveredAddress t = Some [] \<and> t_TaskStatus t = TaskStatus_covered \<and> length (t_TaskRunTimeData t) = 4
   | Inl _ \<Rightarrow> False"
  by code_simp

theorem dependency_accounts_witness:
  "\<exists>task' f'. dependency ex_ops ex_proc ex_task TaskKind_Normal ex_fuzzer = Inr (task', f')
    \<and> accounts (seen ex_ops ex_proc ex_fuzzer f' (progs task')) ex_task task' \<and> t_Count task' = 1 \<and> t_TaskStatus task' = TaskStatus_covered"
proof -
  obtain t f where r: "dependency ex_ops ex_proc ex_task TaskKind_Normal ex_fuzzer = Inr (t, f)" "t_UncoveredAddress t = Some []"
    using ex_dependency by (auto split: sum.splits)
  from dependency_accounts [OF r(1)] r(2) have "accounts (seen ex_ops ex_proc ex_fuzzer f (progs t)) ex_task t \<and> t_Count t = 1 \<and> t_TaskStatus t = TaskStatus_covered" by blast
  with r(1) show ?thesis by blast
qed

theorem dependencyMutateInsert_positions_witness:
  "\<exists>task' trd calls. dependencyMutateInsert ex_ops ex_task 0 = Inr (0, task') \<and> t_TaskRunTimeData task' = [trd]
    \<and> calls ! unat (trd_WriteIdx trd) = ''w'' \<and> calls ! unat (trd_ConditionIdx trd) = ''c''"
proof -
  have d: "o_Deserialize ex_ops (t_WriteProgram ex_task) = Some \<lparr>pr_Calls = [''w''], pr_Comments = []\<rparr>"
    "o_Deserialize ex_ops (t_Program ex_task) = Some \<lparr>pr_Calls = [''c''], pr_Comments = []\<rparr>"
    by code_simp+
  have "t_WriteIndex ex_task = 0" "t_Index ex_task = 0" "t_TaskRunTimeData ex_task = []"
    by (simp_all add: ex_task_def Task_zero_def)
  then show ?thesis
    using dependencyMutateInsert_positions [OF d, of 0] by auto
qed

theorem nil_covered_panics_witness:
  "rfold (check_task_entry \<lparr>pi_Calls = [ex_call], pi_Extra = ex_call\<rparr> \<lparr>pi_Calls = [ex_call], pi_Extra = ex_call\<rparr>) [(3, ex_rtd)]
      (ex_task\<lparr>t_CoveredAddress := None\<rparr>, [], ex_fuzzer) = Inl (Panic ''assignment to entry in nil map'')"
  by (rule nil_covered_panics [where ?c1.0 = ex_call and ?c2.0 = ex_call])
    (simp_all add: ex_task_def Task_zero_def ex_rtd_def RunTimeData_zero_def go_nth_def ex_call_def)

end
