(* ===== verification/Fuzzer_Proc.thy ===== *)
theory Fuzzer_Proc
  imports Fuzzer_Dependency
begin

text \<open>
  The loops of the fuzzer: \<open>triageInput\<close>, \<open>smashInput\<close> and one turn of \<open>loop\<close> of
  \<open>syz-fuzzer/proc.go\<close>, and \<open>poll\<close> and one turn of \<open>pollLoop\<close> of \<open>syz-fuzzer/fuzzer.go\<close>.
  What the managers reply to a call is an argument.
\<close>

section \<open>Triage\<close>

text \<open>Running \<open>prog.Minimize\<close>: its questions are answered by a predicate that changes the state.\<close>

primrec run_mini :: "('c Prog \<Rightarrow> int \<Rightarrow> 's \<Rightarrow> ((bool \<times> string list) \<times> 's) res) \<Rightarrow> 'c mini \<Rightarrow> 's \<Rightarrow> (('c Prog \<times> int) \<times> 's) res" where
  "run_mini pred (MiniDone p call) = (\<lambda>s. Inr ((p, call), s))"
| "run_mini pred (MiniAsk p call k) = (\<lambda>s. rbind (pred p call s) (\<lambda>((b, comments), s'). run_mini pred (k b comments) s'))"

text \<open>The predicate of \<open>triageInput\<close>; the number is that of the attempts left (\<open>minimizeAttempts\<close> is 3).\<close>

fun minimize_attempts ::
  "('c, 'w) Ops \<Rightarrow> Proc \<Rightarrow> CallInfo \<Rightarrow> Signal \<Rightarrow> nat \<Rightarrow> 'c Prog \<Rightarrow> int \<Rightarrow> ('c, 'w) Fuzzer \<Rightarrow> ((bool \<times> string list) \<times> ('c, 'w) Fuzzer) res" where
  "minimize_attempts ops pc oldInfo newSignal 0 p call f = Inr ((False, pr_Comments p), f)"
| "minimize_attempts ops pc oldInfo newSignal (Suc n) p call f =
    rbind (execute ops (pc_execOptsNoCollide pc) p ProgNormal StatMinimize f) (\<lambda>((info, p1), f1).
    rbind (reexecutionSuccess (Some info) oldInfo call) (\<lambda>ok.
    if \<not> ok then minimize_attempts ops pc oldInfo newSignal n p1 call f1
    else rbind (getSignalAndCover ops p1 info call) (\<lambda>(thisSignal, _).
      if sig_Len (Intersection newSignal thisSignal) = sig_Len newSignal then Inr ((True, pr_Comments p1), f1)
      else minimize_attempts ops pc oldInfo newSignal n p1 call f1)))"

record triage_state =
  tr_newSignal :: Signal
  tr_cover :: Cover
  tr_call :: "(uint32, uint32) gomap"
  tr_notexecuted :: nat
  tr_paths :: "Paths list"

definition stable_cover :: "uint32 list \<Rightarrow> (uint32, uint32) gomap \<Rightarrow> (uint32, uint32) gomap" where
  "stable_cover thisCover call =
    (if go_len call = 0 then fold (\<lambda>a. go_set a 0) thisCover call
     else fold (\<lambda>a temp. if go_has call a then go_set a 0 temp else temp) thisCover (Some []))"

text \<open>One of the \<open>signalRuns\<close> re-executions, and the loop; \<open>None\<close> is the early return of \<open>triageInput\<close>.\<close>

definition triage_run ::
  "('c, 'w) Ops \<Rightarrow> Proc \<Rightarrow> ('c Prog, CallInfo) WorkTriage \<Rightarrow> triage_state \<Rightarrow> ('c, 'w) Fuzzer \<Rightarrow> (triage_state option \<times> ('c, 'w) Fuzzer) res" where
  "triage_run ops pc item s f =
    rbind (executeRaw ops (pc_execOptsCover pc) (wt_p item) StatTriage f) (\<lambda>(info, f1).
    rbind (reexecutionSuccess info (wt_info item) (wt_call item)) (\<lambda>ok.
    if \<not> ok then
      Inr (if tr_notexecuted s + 1 > 3 div 2 + 1 then None else Some (s\<lparr>tr_notexecuted := tr_notexecuted s + 1\<rparr>), f1)
    else
      rbind (getSignalAndCover ops (wt_p item) (the info) (wt_call item)) (\<lambda>(thisSignal, thisCover).
      let newSignal = Intersection (tr_newSignal s) thisSignal in
      if sig_Empty newSignal \<and> wt_flags item AND ProgMinimized = 0 then Inr (None, f1)
      else Inr (Some (s\<lparr>tr_newSignal := newSignal, tr_cover := cov_Merge (tr_cover s) thisCover,
           tr_call := (if StableCoverage then stable_cover thisCover (tr_call s) else tr_call s),
           tr_paths := (if CollectPath then tr_paths s @
              [\<lparr>ps_Path = fold (\<lambda>(i, c). go_set (of_nat i) \<lparr>p_Address = ci_Cover c\<rparr>) (enumerate 0 (pi_Calls (the info))) (Some [])\<rparr>]
              else tr_paths s)\<rparr>), f1))))"

fun triage_runs ::
  "('c, 'w) Ops \<Rightarrow> Proc \<Rightarrow> ('c Prog, CallInfo) WorkTriage \<Rightarrow> nat \<Rightarrow> triage_state \<Rightarrow> ('c, 'w) Fuzzer \<Rightarrow> (triage_state option \<times> ('c, 'w) Fuzzer) res" where
  "triage_runs ops pc item 0 s f = Inr (Some s, f)"
| "triage_runs ops pc item (Suc n) s f =
    rbind (triage_run ops pc item s f) (\<lambda>(r, f1).
    case r of None \<Rightarrow> Inr (None, f1) | Some s' \<Rightarrow> triage_runs ops pc item n s' f1)"

definition sendInputToManager :: "RPCInput \<Rightarrow> ('c, 'w) Fuzzer \<Rightarrow> ('c, 'w) Fuzzer" where
  "sendInputToManager inp f = send (ManagerNewInput inp) f"

text \<open>The last part: the minimized program goes to the manager, the corpus, the smash stack and the server.\<close>

definition triage_done ::
  "('c, 'w) Ops \<Rightarrow> Proc \<Rightarrow> string \<Rightarrow> ('c Prog, CallInfo) WorkTriage \<Rightarrow> string \<Rightarrow> Signal \<Rightarrow> triage_state \<Rightarrow> 'c Prog \<times> int \<Rightarrow> ('c, 'w) Fuzzer \<Rightarrow> ('c, 'w) Fuzzer res" where
  "triage_done ops pc txt item callName inputSignal s pcall f =
    (let (p, call) = pcall; data = o_Serialize ops p; sig = o_Hash ops data;
         f1 = sendInputToManager \<lparr>ri_Call = callName, ri_Prog = data, ri_Signal = sig_Serialize inputSignal, ri_Cover = cov_Serialize (tr_cover s)\<rparr> f
     in rbind (addInputToCorpus p inputSignal sig f1) (\<lambda>f2.
     rbind (if wt_flags item AND ProgSmashed = 0
            then rmap (\<lambda>wq. f2\<lparr>f_workQueue := wq\<rparr>) (enqueue (ItemSmash \<lparr>ws_p = p, ws_call = call\<rparr>) (f_workQueue f2)) else Inr f2) (\<lambda>f3.
     let addresses = (if StableCoverage then go_keys (tr_call s) else go_keys (tr_cover s));
         input = Input_zero\<lparr>i_Sig := sig, i_Program := data,
           i_Call := (if call \<noteq> - 1 then Some [(of_int call, \<lparr>c_Idx = of_int call, c_Address = fold (\<lambda>a. go_set a 0) addresses (Some [])\<rparr>)] else Some []),
           i_Paths := tr_paths s, i_Stat := stat_of_comments (pr_Comments p) FuzzingStat_StatTriage,
           i_ProgramBeforeMini := o_Serialize ops (wt_p item)\<rparr>;
         f4 = send (SendNewInputMsg input) f3
     in if CheckCondition then checkInput ops pc txt input f4 else Inr f4)))"

definition triage_minimize ::
  "('c, 'w) Ops \<Rightarrow> Proc \<Rightarrow> ('c Prog, CallInfo) WorkTriage \<Rightarrow> Signal \<Rightarrow> ('c, 'w) Fuzzer \<Rightarrow> (('c Prog \<times> int) \<times> ('c, 'w) Fuzzer) res" where
  "triage_minimize ops pc item newSignal f =
    (if wt_flags item AND ProgMinimized = 0
     then run_mini (minimize_attempts ops pc (wt_info item) newSignal 3) (o_Minimize ops (wt_p item) (wt_call item)) f
     else Inr ((wt_p item, wt_call item), f))"

definition triageInput :: "('c, 'w) Ops \<Rightarrow> Proc \<Rightarrow> string \<Rightarrow> ('c Prog, CallInfo) WorkTriage \<Rightarrow> ('c, 'w) Fuzzer \<Rightarrow> ('c, 'w) Fuzzer res" where
  "triageInput ops pc txt item f =
    rbind (signalPrio ops (wt_p item) (wt_info item) (wt_call item)) (\<lambda>prio.
    let inputSignal = FromRaw (ci_Signal (wt_info item)) prio;
        newSignal = corpusSignalDiff inputSignal f
    in if sig_Empty newSignal then Inr f
       else
         rbind (if wt_call item \<noteq> - 1 then rmap (o_CallName ops) (go_nth (pr_Calls (wt_p item)) (wt_call item)) else Inr ''.extra'') (\<lambda>callName.
         rbind (triage_runs ops pc item 3 \<lparr>tr_newSignal = newSignal, tr_cover = Some [], tr_call = Some [], tr_notexecuted = 0, tr_paths = []\<rparr> f) (\<lambda>(r, f1).
         case r of
           None \<Rightarrow> Inr f1
         | Some s \<Rightarrow> rbind (triage_minimize ops pc item (tr_newSignal s) f1) (\<lambda>(pcall, f2).
             triage_done ops pc txt item callName inputSignal s pcall f2))))"

section \<open>Smashing\<close>

text \<open>\<open>failCall\<close> injects a fault into the operations \<open>nth\<close> of a call until none is injected, 100 at most.\<close>

fun fail_loop :: "('c, 'w) Ops \<Rightarrow> Proc \<Rightarrow> 'c Prog \<Rightarrow> int \<Rightarrow> nat list \<Rightarrow> ('c, 'w) Fuzzer \<Rightarrow> ('c, 'w) Fuzzer res" where
  "fail_loop ops pc p call [] f = Inr f"
| "fail_loop ops pc p call (k # ns) f =
    rbind (executeRaw ops \<lparr>eo_Flags = eo_Flags (pc_execOpts pc) OR FlagInjectFault, eo_FaultCall = call, eo_FaultNth = int k\<rparr> p StatSmash f) (\<lambda>(info, f1).
    case info of
      None \<Rightarrow> fail_loop ops pc p call ns f1
    | Some nfo \<Rightarrow>
      if int (length (pi_Calls nfo)) > call then
        rbind (go_nth (pi_Calls nfo) call) (\<lambda>c.
        if ci_Flags c AND CallFaultInjected = 0 then Inr f1 else fail_loop ops pc p call ns f1)
      else fail_loop ops pc p call ns f1)"

definition failCall :: "('c, 'w) Ops \<Rightarrow> Proc \<Rightarrow> 'c Prog \<Rightarrow> int \<Rightarrow> ('c, 'w) Fuzzer \<Rightarrow> ('c, 'w) Fuzzer res" where
  "failCall ops pc p call f = fail_loop ops pc p call [0..<100] f"

definition executeHintSeed :: "('c, 'w) Ops \<Rightarrow> Proc \<Rightarrow> 'c Prog \<Rightarrow> int \<Rightarrow> ('c, 'w) Fuzzer \<Rightarrow> ('c Prog \<times> ('c, 'w) Fuzzer) res" where
  "executeHintSeed ops pc p call f =
    rbind (execute ops (pc_execOptsComps pc) p ProgNormal StatSeed f) (\<lambda>((info, p1), f1).
    rbind (go_nth (pi_Calls info) call) (\<lambda>c.
    rmap (\<lambda>f2. (p1, f2)) (execute_mutants ops (pc_execOpts pc) StatHint (pr_Comments p1) (o_MutateWithHints ops p1 call (ci_Comps c)) f1)))"

definition mutate_once :: "('c, 'w) Ops \<Rightarrow> 'c Prog \<Rightarrow> 'c Prog list \<Rightarrow> ('c, 'w) Fuzzer \<Rightarrow> 'c Prog \<times> ('c, 'w) Fuzzer" where
  "mutate_once ops p corpus f =
    (let (q, w) = (if f_DependencyPriority f then o_MutateD ops else o_Mutate ops) p corpus (f_world f) in (q, f\<lparr>f_world := w\<rparr>))"

definition smashInput :: "('c, 'w) Ops \<Rightarrow> Proc \<Rightarrow> 'c Prog WorkSmash \<Rightarrow> ('c, 'w) Fuzzer \<Rightarrow> ('c, 'w) Fuzzer res" where
  "smashInput ops pc item f =
    rbind (if f_faultInjectionEnabled f \<and> ws_call item \<noteq> - 1 then failCall ops pc (ws_p item) (ws_call item) f else Inr f) (\<lambda>f1.
    rbind (if f_comparisonTracingEnabled f1 \<and> ws_call item \<noteq> - 1 then executeHintSeed ops pc (ws_p item) (ws_call item) f1
           else Inr (ws_p item, f1)) (\<lambda>(p, f2).
    let corpus = corpusSnapshot f2 in
    rfold (\<lambda>i f. case mutate_once ops p corpus f of (q, f') \<Rightarrow> rmap snd (execute ops (pc_execOpts pc) q ProgNormal StatSmash f')) [0..<100] f2))"

section \<open>The loop of a proc\<close>

definition loop_item :: "('c, 'w) Ops \<Rightarrow> Proc \<Rightarrow> string \<Rightarrow> ('c Prog, CallInfo) work_item \<Rightarrow> ('c, 'w) Fuzzer \<Rightarrow> (FuzzingStat \<times> ('c, 'w) Fuzzer) res" where
  "loop_item ops pc txt item f =
    (case item of
       ItemTriage t \<Rightarrow> rmap (\<lambda>f. (FuzzingStat_StatTriage, f)) (triageInput ops pc txt t f)
     | ItemCandidate c \<Rightarrow> rmap (\<lambda>r. (FuzzingStat_StatCandidate, snd r)) (execute ops (pc_execOpts pc) (wc_p c) (wc_flags c) StatCandidate f)
     | ItemDependency d \<Rightarrow> rmap (\<lambda>r. (FuzzingStat_StatDependency, snd r)) (dependency ops pc (wd_task d) TaskKind_High f)
     | ItemBoot b \<Rightarrow> rmap (\<lambda>r. (FuzzingStat_StatDependency, snd r)) (dependencyBoot ops pc b f)
     | ItemSmash s \<Rightarrow> rmap (\<lambda>f. (FuzzingStat_StatSmash, f)) (smashInput ops pc s f)
     | ItemOther \<Rightarrow> Inl (Fatal ''unknown work type''))"

definition loop_fuzz :: "('c, 'w) Ops \<Rightarrow> Proc \<Rightarrow> nat \<Rightarrow> nat \<Rightarrow> ('c, 'w) Fuzzer \<Rightarrow> (FuzzingStat \<times> ('c, 'w) Fuzzer) res" where
  "loop_fuzz ops pc generatePeriod i f =
    (let corpus = corpusSnapshot f in
     if corpus = [] \<or> i mod generatePeriod = 0 then
       (case o_Generate ops (f_world f) of (p, w) \<Rightarrow>
        rmap (\<lambda>r. (FuzzingStat_StatGenerate, snd r)) (execute ops (pc_execOptsCover pc) p ProgNormal StatGenerate (f\<lparr>f_world := w\<rparr>)))
     else
       (case o_Intn ops (length corpus) (f_world f) of (k, w) \<Rightarrow>
        rbind (go_nth corpus (int k)) (\<lambda>p0.
        case mutate_once ops p0 corpus (f\<lparr>f_world := w\<rparr>) of (p, f1) \<Rightarrow>
        rmap (\<lambda>r. (FuzzingStat_StatFuzz, snd r)) (execute ops (pc_execOpts pc) p ProgNormal StatFuzz f1))))"

text \<open>One turn of \<open>loop\<close>; the time it took, which the statistic also carries, is left out.\<close>

definition loop_turn :: "('c, 'w) Ops \<Rightarrow> Proc \<Rightarrow> string \<Rightarrow> nat \<Rightarrow> nat \<Rightarrow> ('c, 'w) Fuzzer \<Rightarrow> ('c, 'w) Fuzzer res" where
  "loop_turn ops pc txt generatePeriod i f =
    rbind (case dequeue (f_workQueue f) of
        (Some item, wq) \<Rightarrow> loop_item ops pc txt item (f\<lparr>f_workQueue := wq\<rparr>)
      | (None, wq) \<Rightarrow>
        (case dequeueDependency wq of
           (Some d, wq') \<Rightarrow> rmap (\<lambda>r. (FuzzingStat_StatDependency, snd r)) (dependency ops pc (wd_task d) TaskKind_Normal (f\<lparr>f_workQueue := wq'\<rparr>))
         | (None, wq') \<Rightarrow> loop_fuzz ops pc generatePeriod i (f\<lparr>f_workQueue := wq'\<rparr>))) (\<lambda>(statName, f1).
    Inr (send (SendStatMsg statName 0) f1))"

section \<open>Polling the managers\<close>

definition add_candidate :: "('c, 'w) Ops \<Rightarrow> RPCCandidate \<Rightarrow> ('c, 'w) Fuzzer \<Rightarrow> ('c, 'w) Fuzzer res" where
  "add_candidate ops candidate f =
    (case o_Deserialize ops (rc_Prog candidate) of
       None \<Rightarrow> Inl (Fatal ''failed to parse program from manager'')
     | Some p \<Rightarrow>
       let flags = ProgCandidate OR (if rc_Minimized candidate then ProgMinimized else 0) OR (if rc_Smashed candidate then ProgSmashed else 0)
       in rmap (\<lambda>wq. f\<lparr>f_workQueue := wq\<rparr>) (enqueue (ItemCandidate \<lparr>wc_p = p, wc_flags = flags\<rparr>) (f_workQueue f)))"

definition poll :: "('c, 'w) Ops \<Rightarrow> bool \<Rightarrow> (Stat \<times> uint64) list \<Rightarrow> PollRes \<Rightarrow> ('c, 'w) Fuzzer \<Rightarrow> (bool \<times> ('c, 'w) Fuzzer) res" where
  "poll ops needCandidates stats r f =
    (case grabNewSignal f of (sign, f1) \<Rightarrow>
     let f2 = send (ManagerPoll needCandidates (sig_Serialize sign) stats) f1 in
     rbind (sig_Deserialize (po_MaxSignal r)) (\<lambda>maxSignal.
     rbind (rfold (addInputFromAnotherFuzzer ops) (po_NewInputs r) (addMaxSignal maxSignal f2)) (\<lambda>f3.
     rbind (rfold (add_candidate ops) (po_Candidates r) f3) (\<lambda>f4.
     Inr (po_NewInputs r \<noteq> [] \<or> po_Candidates r \<noteq> [] \<or> sig_Len maxSignal \<noteq> 0, f4)))))"

definition take_tasks :: "TaskKind \<times> Task list \<Rightarrow> ('c, 'w) Fuzzer \<Rightarrow> ('c, 'w) Fuzzer res" where
  "take_tasks reply f =
    (if fst reply = TaskKind_High
     then rmap (\<lambda>wq. f\<lparr>f_workQueue := wq\<rparr>)
            (rfold (\<lambda>t. enqueue (ItemDependency \<lparr>wd_task = t, wd_call = uint (t_Index t)\<rparr>)) (snd reply) (f_workQueue f))
     else Inr (f\<lparr>f_workQueue := fold (\<lambda>t. addDependency \<lparr>wd_task = t, wd_call = uint (t_Index t)\<rparr>) (snd reply) (f_workQueue f)\<rparr>))"

definition all_stats :: "Stat list" where
  "all_stats = [StatGenerate, StatFuzz, StatCandidate, StatTriage, StatMinimize, StatSmash, StatHint, StatSeed, StatDependency]"

text \<open>
  One turn of \<open>pollLoop\<close> that polls: the replies are that of \<open>Manager.Poll\<close>, of the two calls
  of \<open>GetTasks\<close>, of \<open>GetDataDependency\<close> and of \<open>GetNeed\<close>. The counters of the executor
  processes are left out.
\<close>

record poll_replies =
  re_poll :: PollRes
  re_tasks :: "(TaskKind \<times> Task list) \<times> (TaskKind \<times> Task list)"
  re_dependency :: DataDependency
  re_need :: uint32

definition poll_turn :: "('c, 'w) Ops \<Rightarrow> poll_replies \<Rightarrow> ('c, 'w) Fuzzer \<Rightarrow> ('c, 'w) Fuzzer res" where
  "poll_turn ops r f =
    (let stats = map (\<lambda>s. (s, f_stats f s)) all_stats in
     rbind (poll ops (wantCandidates (f_workQueue f)) stats (re_poll r) (f\<lparr>f_stats := (\<lambda>_. 0)\<rparr>)) (\<lambda>(_, f1).
     let f2 = fold (\<lambda>(s, n). send (SendStatMsg (FuzzingStat_of (Stat_value s + 1)) n)) stats f1 in
     rbind (take_tasks (fst (re_tasks r)) f2) (\<lambda>f3.
     rbind (take_tasks (snd (re_tasks r)) f3) (\<lambda>f4.
     let f5 = (if CheckCondition then f4\<lparr>f_DataDependency := (re_dependency r)\<lparr>dd_Input := make_if_nil (dd_Input (re_dependency r))\<rparr>\<rparr> else f4);
         f6 = client_SSendLog f5
     in Inr (f6\<lparr>f_need := (re_need r \<noteq> 0)\<rparr>)))))"

end
