(* ===== verification/Fuzzer_Locks.thy ===== *)
theory Fuzzer_Locks
  imports Fuzzer_State Step_System
begin

text \<open>
  The corpus and the signals of the fuzzer as its goroutines share them
  (\<open>syz-fuzzer/fuzzer.go\<close>: \<open>addInputToCorpus\<close>, \<open>corpusSnapshot\<close>, \<open>addMaxSignal\<close>,
  \<open>grabNewSignal\<close>, \<open>corpusSignalDiff\<close>, \<open>checkNewSignal\<close> and \<open>checkNewCallSignal\<close>), at the
  grain of their statements: taking a mutex, giving it back, and each read and write between
  the two is a step of its own, and any number of goroutines step in any order.
  \<open>Fuzzer_State\<close> has the same functions as one goroutine computes them; \<open>Fuzzer_Invariant\<close>
  shows that the turns of the fuzzer's loops are runs of these steps.
\<close>

section \<open>The mutexes\<close>

text \<open>
  \<open>sync.RWMutex\<close>, with the names of the goroutines that hold it. \<open>None\<close>: the goroutine
  blocks. (Go also blocks new readers behind a writer that waits, which only takes steps away.)
\<close>

record RWMutex =
  rw_writer :: "nat option"
  rw_readers :: "nat list"

definition rw_free :: RWMutex where
  "rw_free = \<lparr>rw_writer = None, rw_readers = []\<rparr>"

definition rw_Lock :: "nat \<Rightarrow> RWMutex \<Rightarrow> RWMutex option" where
  "rw_Lock g mu = (if rw_writer mu = None \<and> rw_readers mu = [] then Some (mu\<lparr>rw_writer := Some g\<rparr>) else None)"

definition rw_Unlock :: "RWMutex \<Rightarrow> RWMutex res" where
  "rw_Unlock mu = (if rw_writer mu = None then Inl (Fatal ''sync: Unlock of unlocked RWMutex'') else Inr (mu\<lparr>rw_writer := None\<rparr>))"

definition rw_RLock :: "nat \<Rightarrow> RWMutex \<Rightarrow> RWMutex option" where
  "rw_RLock g mu = (if rw_writer mu = None then Some (mu\<lparr>rw_readers := g # rw_readers mu\<rparr>) else None)"

definition rw_RUnlock :: "nat \<Rightarrow> RWMutex \<Rightarrow> RWMutex res" where
  "rw_RUnlock g mu = (if g \<in> set (rw_readers mu) then Inr (mu\<lparr>rw_readers := remove1 g (rw_readers mu)\<rparr>)
     else Inl (Fatal ''sync: RUnlock of unlocked RWMutex''))"

section \<open>Where a goroutine is\<close>

text \<open>What a function returns: nothing, the corpus, a signal, or the calls with new signal.\<close>

datatype 'c outcome = Nothing | Corpus "'c Prog list" | Sign Signal | News "nat list" bool

text \<open>
  Each constructor is a statement that is about to run, with the local variables it needs;
  \<open>Ret\<close> is a goroutine outside of these functions. \<open>checkNewSignal\<close> keeps the program, the
  calls it has still to look at (with their index, \<open>-1\<close> for the extra one) and those found.
\<close>

type_synonym 'c todo = "'c Prog \<times> (int \<times> CallInfo) list \<times> int list"

datatype 'c location =
  Ret "'c outcome"
| AddInput "'c Prog" Signal string | AddFind "'c Prog" Signal string | AddAppend "'c Prog" Signal string
| AddHash Signal string | AddUnlock Signal | AddSignal Signal | AddMergeCorpus Signal
| MergeMax Signal | SignalUnlock "'c outcome"
| SnapLock | SnapRead | SnapUnlock "'c Prog list"
| AddMax Signal
| Grab | GrabTake
| DiffLock Signal | DiffRead Signal | SignalRUnlock "'c outcome"
| Check "'c Prog" ProgInfo | CheckCall "'c todo"
| NewRUnlock "'c todo" Signal | NewLock "'c todo" Signal | NewMergeMax "'c todo" Signal | NewMergeNew "'c todo" Signal
| NewUnlock "'c todo" | NewRLock "'c todo"

record ('c, 'w) Shared =
  sh_f :: "('c, 'w) Fuzzer"
  sh_corpusMu :: RWMutex
  sh_signalMu :: RWMutex

definition todo_of :: "ProgInfo \<Rightarrow> (int \<times> CallInfo) list" where
  "todo_of info = map (\<lambda>(i, c). (int i, c)) (enumerate 0 (pi_Calls info)) @ [(- 1, pi_Extra info)]"

definition news_of :: "int list \<Rightarrow> 'c outcome" where
  "news_of found = News (map nat (filter (\<lambda>i. i \<noteq> - 1) found)) (- 1 \<in> set found)"

section \<open>The statements\<close>

text \<open>\<open>None\<close>: blocked (or outside); \<open>Some (Inl e)\<close>: the process dies; otherwise the next statement.\<close>

fun advance :: "('c, 'w) Ops \<Rightarrow> nat \<Rightarrow> 'c location \<Rightarrow> ('c, 'w) Shared \<Rightarrow> ('c location \<times> ('c, 'w) Shared) res option" where
  "advance ops g (Ret r) s = None"
| "advance ops g (AddInput p sign sig) s = map_option (\<lambda>mu. Inr (AddFind p sign sig, s\<lparr>sh_corpusMu := mu\<rparr>)) (rw_Lock g (sh_corpusMu s))"
| "advance ops g (AddFind p sign sig) s =
    Some (Inr (if go_has (f_corpusHashes (sh_f s)) sig then AddUnlock sign else AddAppend p sign sig, s))"
| "advance ops g (AddAppend p sign sig) s = Some (Inr (AddHash sign sig, s\<lparr>sh_f := (sh_f s)\<lparr>f_corpus := f_corpus (sh_f s) @ [p]\<rparr>\<rparr>))"
| "advance ops g (AddHash sign sig) s =
    Some (rmap (\<lambda>h. (AddUnlock sign, s\<lparr>sh_f := (sh_f s)\<lparr>f_corpusHashes := h\<rparr>\<rparr>)) (go_put sig () (f_corpusHashes (sh_f s))))"
| "advance ops g (AddUnlock sign) s = Some (rmap (\<lambda>mu. (AddSignal sign, s\<lparr>sh_corpusMu := mu\<rparr>)) (rw_Unlock (sh_corpusMu s)))"
| "advance ops g (AddSignal sign) s =
    (if sig_Empty sign then Some (Inr (Ret Nothing, s))
     else map_option (\<lambda>mu. Inr (AddMergeCorpus sign, s\<lparr>sh_signalMu := mu\<rparr>)) (rw_Lock g (sh_signalMu s)))"
| "advance ops g (AddMergeCorpus sign) s =
    Some (Inr (MergeMax sign, s\<lparr>sh_f := (sh_f s)\<lparr>f_corpusSignal := sig_Merge (f_corpusSignal (sh_f s)) sign\<rparr>\<rparr>))"
| "advance ops g (MergeMax sign) s =
    Some (Inr (SignalUnlock Nothing, s\<lparr>sh_f := (sh_f s)\<lparr>f_maxSignal := sig_Merge (f_maxSignal (sh_f s)) sign\<rparr>\<rparr>))"
| "advance ops g (SignalUnlock r) s = Some (rmap (\<lambda>mu. (Ret r, s\<lparr>sh_signalMu := mu\<rparr>)) (rw_Unlock (sh_signalMu s)))"
| "advance ops g SnapLock s = map_option (\<lambda>mu. Inr (SnapRead, s\<lparr>sh_corpusMu := mu\<rparr>)) (rw_RLock g (sh_corpusMu s))"
| "advance ops g SnapRead s = Some (Inr (SnapUnlock (f_corpus (sh_f s)), s))"
| "advance ops g (SnapUnlock ps) s = Some (rmap (\<lambda>mu. (Ret (Corpus ps), s\<lparr>sh_corpusMu := mu\<rparr>)) (rw_RUnlock g (sh_corpusMu s)))"
| "advance ops g (AddMax sign) s =
    (if sig_Len sign = 0 then Some (Inr (Ret Nothing, s))
     else map_option (\<lambda>mu. Inr (MergeMax sign, s\<lparr>sh_signalMu := mu\<rparr>)) (rw_Lock g (sh_signalMu s)))"
| "advance ops g Grab s = map_option (\<lambda>mu. Inr (GrabTake, s\<lparr>sh_signalMu := mu\<rparr>)) (rw_Lock g (sh_signalMu s))"
| "advance ops g GrabTake s =
    (let sign = f_newSignal (sh_f s) in
     if sig_Empty sign then Some (Inr (SignalUnlock (Sign None), s))
     else Some (Inr (SignalUnlock (Sign sign), s\<lparr>sh_f := (sh_f s)\<lparr>f_newSignal := None\<rparr>\<rparr>)))"
| "advance ops g (DiffLock sign) s = map_option (\<lambda>mu. Inr (DiffRead sign, s\<lparr>sh_signalMu := mu\<rparr>)) (rw_RLock g (sh_signalMu s))"
| "advance ops g (DiffRead sign) s = Some (Inr (SignalRUnlock (Sign (sig_Diff (f_corpusSignal (sh_f s)) sign)), s))"
| "advance ops g (SignalRUnlock r) s = Some (rmap (\<lambda>mu. (Ret r, s\<lparr>sh_signalMu := mu\<rparr>)) (rw_RUnlock g (sh_signalMu s)))"
| "advance ops g (Check p info) s =
    map_option (\<lambda>mu. Inr (CheckCall (p, todo_of info, []), s\<lparr>sh_signalMu := mu\<rparr>)) (rw_RLock g (sh_signalMu s))"
| "advance ops g (CheckCall (p, [], found)) s = Some (Inr (SignalRUnlock (news_of found), s))"
| "advance ops g (CheckCall (p, (call, info) # todo, found)) s =
    Some (rmap (\<lambda>prio.
      let diff = DiffRaw (f_maxSignal (sh_f s)) (ci_Signal info) prio in
      (if sig_Empty diff then CheckCall (p, todo, found) else NewRUnlock (p, todo, found @ [call]) diff, s)) (signalPrio ops p info call))"
| "advance ops g (NewRUnlock k diff) s = Some (rmap (\<lambda>mu. (NewLock k diff, s\<lparr>sh_signalMu := mu\<rparr>)) (rw_RUnlock g (sh_signalMu s)))"
| "advance ops g (NewLock k diff) s = map_option (\<lambda>mu. Inr (NewMergeMax k diff, s\<lparr>sh_signalMu := mu\<rparr>)) (rw_Lock g (sh_signalMu s))"
| "advance ops g (NewMergeMax k diff) s =
    Some (Inr (NewMergeNew k diff, s\<lparr>sh_f := (sh_f s)\<lparr>f_maxSignal := sig_Merge (f_maxSignal (sh_f s)) diff\<rparr>\<rparr>))"
| "advance ops g (NewMergeNew k diff) s =
    Some (Inr (NewUnlock k, s\<lparr>sh_f := (sh_f s)\<lparr>f_newSignal := sig_Merge (f_newSignal (sh_f s)) diff\<rparr>\<rparr>))"
| "advance ops g (NewUnlock k) s = Some (rmap (\<lambda>mu. (NewRLock k, s\<lparr>sh_signalMu := mu\<rparr>)) (rw_Unlock (sh_signalMu s)))"
| "advance ops g (NewRLock k) s = map_option (\<lambda>mu. Inr (CheckCall k, s\<lparr>sh_signalMu := mu\<rparr>)) (rw_RLock g (sh_signalMu s))"

text \<open>The calls of the functions; a signal that is passed is a Go map.\<close>

fun entry :: "'c location \<Rightarrow> bool" where
  "entry (AddInput p sign sig) = wfm sign"
| "entry (AddMax sign) = wfm sign"
| "entry (DiffLock sign) = wfm sign"
| "entry (Check p info) = True"
| "entry SnapLock = True"
| "entry Grab = True"
| "entry _ = False"

text \<open>What the functions have to do with.\<close>

definition same_signals :: "('c, 'w) Fuzzer \<Rightarrow> ('c, 'w) Fuzzer \<Rightarrow> bool" where
  "same_signals f f' \<longleftrightarrow> f_corpusSignal f' = f_corpusSignal f \<and> f_maxSignal f' = f_maxSignal f \<and> f_newSignal f' = f_newSignal f
     \<and> f_corpusHashes f' = f_corpusHashes f \<and> f_corpus f' = f_corpus f"

text \<open>
  The goroutines: one calls a function, or runs its next statement, or the rest of the fuzzer's
  state changes. A statement that dies ends the process, so it has no successor.
\<close>

type_synonym ('c, 'w) goroutines = "(nat \<Rightarrow> 'c location) \<times> ('c, 'w) Shared"

inductive fuzz_step :: "('c, 'w) Ops \<Rightarrow> ('c, 'w) goroutines \<Rightarrow> ('c, 'w) goroutines \<Rightarrow> bool" for ops where
  call: "loc g = Ret r \<Longrightarrow> entry a \<Longrightarrow> fuzz_step ops (loc, s) (loc(g := a), s)"
| statement: "advance ops g (loc g) s = Some (Inr (a, s')) \<Longrightarrow> fuzz_step ops (loc, s) (loc(g := a), s')"
| elsewhere: "same_signals (sh_f s) f \<Longrightarrow> fuzz_step ops (loc, s) (loc, s\<lparr>sh_f := f\<rparr>)"

inductive_cases fuzz_stepE: "fuzz_step ops m m'"

definition fuzz_init :: "('c, 'w) Fuzzer \<Rightarrow> bool" where
  "fuzz_init f \<longleftrightarrow> f_corpus f = [] \<and> f_corpusHashes f = Some [] \<and> f_corpusSignal f = None \<and> f_maxSignal f = None \<and> f_newSignal f = None"

definition go_init :: "('c, 'w) goroutines \<Rightarrow> bool" where
  "go_init m \<longleftrightarrow> (\<forall>g. fst m g = Ret Nothing) \<and> sh_corpusMu (snd m) = rw_free \<and> sh_signalMu (snd m) = rw_free \<and> fuzz_init (sh_f (snd m))"

section \<open>Who holds what\<close>

fun holds_corpus :: "'c location \<Rightarrow> bool" where
  "holds_corpus (AddFind p sign sig) = True"
| "holds_corpus (AddAppend p sign sig) = True"
| "holds_corpus (AddHash sign sig) = True"
| "holds_corpus (AddUnlock sign) = True"
| "holds_corpus _ = False"

fun reads_corpus :: "'c location \<Rightarrow> bool" where
  "reads_corpus SnapRead = True"
| "reads_corpus (SnapUnlock ps) = True"
| "reads_corpus _ = False"

fun holds_signal :: "'c location \<Rightarrow> bool" where
  "holds_signal (AddMergeCorpus sign) = True"
| "holds_signal (MergeMax sign) = True"
| "holds_signal (SignalUnlock r) = True"
| "holds_signal GrabTake = True"
| "holds_signal (NewMergeMax k diff) = True"
| "holds_signal (NewMergeNew k diff) = True"
| "holds_signal (NewUnlock k) = True"
| "holds_signal _ = False"

fun reads_signal :: "'c location \<Rightarrow> bool" where
  "reads_signal (DiffRead sign) = True"
| "reads_signal (SignalRUnlock r) = True"
| "reads_signal (CheckCall k) = True"
| "reads_signal (NewRUnlock k diff) = True"
| "reads_signal _ = False"

definition lock_inv :: "('c location \<Rightarrow> bool) \<Rightarrow> ('c location \<Rightarrow> bool) \<Rightarrow> (nat \<Rightarrow> 'c location) \<Rightarrow> RWMutex \<Rightarrow> bool" where
  "lock_inv wr rd loc mu \<longleftrightarrow> (\<forall>g. rw_writer mu = Some g \<longleftrightarrow> wr (loc g)) \<and> (\<forall>g. g \<in> set (rw_readers mu) \<longleftrightarrow> rd (loc g))
     \<and> distinct (rw_readers mu) \<and> (rw_writer mu \<noteq> None \<longrightarrow> rw_readers mu = [])"

text \<open>How a step of one goroutine may treat a mutex.\<close>

definition lock_move :: "('c location \<Rightarrow> bool) \<Rightarrow> ('c location \<Rightarrow> bool) \<Rightarrow> nat \<Rightarrow> 'c location \<Rightarrow> RWMutex \<Rightarrow> 'c location \<Rightarrow> RWMutex \<Rightarrow> bool" where
  "lock_move wr rd g a mu b mu' \<longleftrightarrow>
     mu' = mu \<and> wr b = wr a \<and> rd b = rd a
   \<or> rw_Lock g mu = Some mu' \<and> \<not> wr a \<and> \<not> rd a \<and> wr b \<and> \<not> rd b
   \<or> rw_Unlock mu = Inr mu' \<and> wr a \<and> \<not> rd a \<and> \<not> wr b \<and> \<not> rd b
   \<or> rw_RLock g mu = Some mu' \<and> \<not> wr a \<and> \<not> rd a \<and> \<not> wr b \<and> rd b
   \<or> rw_RUnlock g mu = Inr mu' \<and> \<not> wr a \<and> rd a \<and> \<not> wr b \<and> \<not> rd b"

lemma lock_move_inv:
  assumes "lock_move wr rd g (loc g) mu b mu'" "lock_inv wr rd loc mu"
  shows "lock_inv wr rd (loc(g := b)) mu'"
proof -
  have one: "g' = h" if "wr (loc g')" "wr (loc h)" for g' h
    using assms(2) that by (metis lock_inv_def option.inject)
  show ?thesis
    using assms(1) unfolding lock_move_def
    by (elim disjE) (use assms(2) one in \<open>auto simp: lock_inv_def rw_Lock_def rw_Unlock_def rw_RLock_def rw_RUnlock_def split: if_splits\<close>)
qed

lemma advance_moves:
  assumes "advance ops g a s = Some (Inr (b, s'))"
  shows "lock_move holds_corpus reads_corpus g a (sh_corpusMu s) b (sh_corpusMu s')"
    and "lock_move holds_signal reads_signal g a (sh_signalMu s) b (sh_signalMu s')"
  using assms by (induction ops g a s rule: advance.induct; auto simp: lock_move_def rmap_Inr_conv Let_def split: if_splits)+

section \<open>The invariant\<close>

text \<open>The program appended before its hash is stored, and the signal that is in the corpus signal only.\<close>

fun appended :: "'c location \<Rightarrow> nat" where
  "appended (AddHash sign sig) = 1"
| "appended _ = 0"

fun pending :: "'c location \<Rightarrow> Signal" where
  "pending (MergeMax sign) = sign"
| "pending _ = None"

definition writer_place :: "(nat \<Rightarrow> 'c location) \<Rightarrow> RWMutex \<Rightarrow> 'c location" where
  "writer_place loc mu = (case rw_writer mu of Some g \<Rightarrow> loc g | None \<Rightarrow> Ret Nothing)"

text \<open>What a goroutine knows of the shared state, and that its signals are Go maps.\<close>

fun place_ok :: "('c, 'w) Fuzzer \<Rightarrow> 'c location \<Rightarrow> bool" where
  "place_ok f (AddInput p sign sig) = wfm sign"
| "place_ok f (AddFind p sign sig) = wfm sign"
| "place_ok f (AddAppend p sign sig) = (wfm sign \<and> \<not> go_has (f_corpusHashes f) sig)"
| "place_ok f (AddHash sign sig) = (wfm sign \<and> \<not> go_has (f_corpusHashes f) sig)"
| "place_ok f (AddUnlock sign) = wfm sign"
| "place_ok f (AddSignal sign) = wfm sign"
| "place_ok f (AddMergeCorpus sign) = wfm sign"
| "place_ok f (MergeMax sign) = wfm sign"
| "place_ok f (AddMax sign) = wfm sign"
| "place_ok f (NewRUnlock k diff) = wfm diff"
| "place_ok f (NewLock k diff) = wfm diff"
| "place_ok f (NewMergeMax k diff) = wfm diff"
| "place_ok f (NewMergeNew k diff) = (wfm diff \<and> (\<forall>e. level diff e \<le> level (f_maxSignal f) e))"
| "place_ok f _ = True"

definition shared_ok :: "('c, 'w) Fuzzer \<Rightarrow> 'c location \<Rightarrow> 'c location \<Rightarrow> bool" where
  "shared_ok f a b \<longleftrightarrow> wfm (f_corpusSignal f) \<and> wfm (f_maxSignal f) \<and> wfm (f_newSignal f)
     \<and> f_corpusHashes f \<noteq> None \<and> wfm (f_corpusHashes f)
     \<and> length (f_corpus f) = go_len (f_corpusHashes f) + appended a
     \<and> (\<forall>e. level (f_corpusSignal f) e \<le> sup (level (f_maxSignal f) e) (level (pending b) e))
     \<and> (\<forall>e. level (f_newSignal f) e \<le> level (f_maxSignal f) e)"

definition go_inv :: "('c, 'w) goroutines \<Rightarrow> bool" where
  "go_inv = (\<lambda>(loc, s). lock_inv holds_corpus reads_corpus loc (sh_corpusMu s) \<and> lock_inv holds_signal reads_signal loc (sh_signalMu s)
     \<and> (\<forall>g. place_ok (sh_f s) (loc g))
     \<and> shared_ok (sh_f s) (writer_place loc (sh_corpusMu s)) (writer_place loc (sh_signalMu s)))"

lemma writer_place_eq: "lock_inv wr rd loc mu \<Longrightarrow> wr (loc g) \<Longrightarrow> writer_place loc mu = loc g"
  by (metis lock_inv_def option.simps(5) writer_place_def)

lemma writer_place_none: "lock_inv wr rd loc mu \<Longrightarrow> (\<And>g. \<not> wr (loc g)) \<Longrightarrow> writer_place loc mu = Ret Nothing"
  by (auto simp: lock_inv_def writer_place_def split: option.split)

text \<open>A step of one goroutine: the place of the writer of a mutex changes only if it is that goroutine.\<close>

lemma writer_place_move:
  assumes "lock_inv wr rd loc mu" "lock_move wr rd g (loc g) mu b mu'"
  shows "writer_place (loc(g := b)) mu' =
    (if wr b then b else if wr (loc g) then Ret Nothing else writer_place loc mu)"
proof -
  have inv: "lock_inv wr rd (loc(g := b)) mu'" using lock_move_inv assms by blast
  show ?thesis
  proof (cases "wr b")
    case True
    then show ?thesis using writer_place_eq [OF inv, of g] by simp
  next
    case False
    show ?thesis
    proof (cases "wr (loc g)")
      case True
      have "\<not> wr ((loc(g := b)) h)" for h
        using True False assms(1) by (metis fun_upd_apply lock_inv_def option.inject)
      then show ?thesis using writer_place_none [OF inv] True False by simp
    next
      case not_g: False
      have "rw_writer mu' = rw_writer mu"
        using assms(2) False not_g by (auto simp: lock_move_def rw_RLock_def rw_RUnlock_def split: if_splits)
      moreover have "rw_writer mu \<noteq> Some g" using assms(1) not_g by (simp add: lock_inv_def)
      ultimately show ?thesis using False not_g by (auto simp: writer_place_def split: option.split)
    qed
  qed
qed

text \<open>What a statement writes.\<close>

inductive effect :: "'c location \<Rightarrow> ('c, 'w) Fuzzer \<Rightarrow> 'c location \<Rightarrow> ('c, 'w) Fuzzer \<Rightarrow> bool" where
  quiet: "appended a = 0 \<Longrightarrow> appended b = 0 \<Longrightarrow> pending a = None \<Longrightarrow> effect a f b f"
| append: "effect (AddAppend p sign sig) f (AddHash sign sig) (f\<lparr>f_corpus := f_corpus f @ [p]\<rparr>)"
| hash: "go_put sig () (f_corpusHashes f) = Inr h \<Longrightarrow> effect (AddHash sign sig) f (AddUnlock sign) (f\<lparr>f_corpusHashes := h\<rparr>)"
| merge_corpus: "effect (AddMergeCorpus sign) f (MergeMax sign) (f\<lparr>f_corpusSignal := sig_Merge (f_corpusSignal f) sign\<rparr>)"
| merge_max: "effect (MergeMax sign) f (SignalUnlock r) (f\<lparr>f_maxSignal := sig_Merge (f_maxSignal f) sign\<rparr>)"
| take: "effect GrabTake f (SignalUnlock r) (f\<lparr>f_newSignal := None\<rparr>)"
| new_max: "effect (NewMergeMax k diff) f (NewMergeNew k diff) (f\<lparr>f_maxSignal := sig_Merge (f_maxSignal f) diff\<rparr>)"
| new_new: "effect (NewMergeNew k diff) f (NewUnlock k) (f\<lparr>f_newSignal := sig_Merge (f_newSignal f) diff\<rparr>)"

lemma advance_effect: "advance ops g a s = Some (Inr (b, s')) \<Longrightarrow> effect a (sh_f s) b (sh_f s')"
  by (cases "(ops, g, a, s)" rule: advance.cases) (auto simp: rmap_Inr_conv Let_def split: if_splits intro!: effect.intros)

text \<open>Seen by the other goroutines, by the goroutine itself, and in the shared state.\<close>

lemma effect_other:
  assumes "effect a f b f'" "place_ok f a" "place_ok f c" "holds_corpus a \<Longrightarrow> \<not> holds_corpus c"
  shows "place_ok f' c"
proof -
  have "(\<forall>e. level (f_maxSignal f) e \<le> level (f_maxSignal f') e) \<and> (f_corpusHashes f' = f_corpusHashes f \<or> holds_corpus a)"
    using assms(1,2) by cases (simp_all add: sig_Merge_level)
  then show ?thesis using assms(3,4) by (cases c) (auto intro: order_trans)
qed

lemma advance_own: "advance ops g a s = Some (Inr (b, s')) \<Longrightarrow> place_ok (sh_f s) a \<Longrightarrow> place_ok (sh_f s') b"
  by (cases "(ops, g, a, s)" rule: advance.cases) (auto simp: rmap_Inr_conv Let_def sig_Merge_level split: if_splits)

lemma shared_ok_mono:
  "shared_ok f c d \<Longrightarrow> appended c' = appended c \<Longrightarrow> pending d = None \<or> pending d' = pending d \<Longrightarrow> shared_ok f c' d'"
  by (auto simp: shared_ok_def level_def le_supI1)

lemma effect_shared:
  assumes "effect a f b f'" "place_ok f a" "shared_ok f c d"
    and "holds_corpus a \<Longrightarrow> c = a" "holds_signal a \<Longrightarrow> d = a"
    and "holds_corpus b \<Longrightarrow> \<not> holds_corpus a \<Longrightarrow> c = Ret Nothing" "holds_signal b \<Longrightarrow> \<not> holds_signal a \<Longrightarrow> d = Ret Nothing"
  shows "shared_ok f' (if holds_corpus b then b else if holds_corpus a then Ret Nothing else c)
    (if holds_signal b then b else if holds_signal a then Ret Nothing else d)"
  using assms(1)
proof cases
  case quiet
  show ?thesis unfolding quiet(1) by (rule shared_ok_mono [OF assms(3)]) (use quiet assms(4-7) in auto)
next
  case append
  then show ?thesis using assms(3-7) by (simp add: shared_ok_def)
next
  case hash
  then show ?thesis using assms(2-7) by (auto simp: shared_ok_def go_put_conv go_len_set)
next
  case (merge_corpus sign)
  then show ?thesis using assms(2-7) by (auto simp: shared_ok_def sig_Merge_level le_supI1 level_def [of None])
next
  case merge_max
  then show ?thesis using assms(2-7) by (auto simp: shared_ok_def sig_Merge_level le_supI1)
next
  case take
  then show ?thesis using assms(2-7) by (auto simp: shared_ok_def level_def [of None])
next
  case new_max
  then show ?thesis using assms(2-7) by (auto simp: shared_ok_def sig_Merge_level le_supI1)
next
  case new_new
  then show ?thesis using assms(2-7) by (auto simp: shared_ok_def sig_Merge_level)
qed

lemma go_inv_statement:
  assumes inv: "go_inv (loc, s)" and adv: "advance ops g (loc g) s = Some (Inr (b, s'))"
  shows "go_inv (loc(g := b), s')"
proof -
  let ?c = "writer_place loc (sh_corpusMu s)" and ?d = "writer_place loc (sh_signalMu s)"
  from inv have lc: "lock_inv holds_corpus reads_corpus loc (sh_corpusMu s)" and ls: "lock_inv holds_signal reads_signal loc (sh_signalMu s)"
    and ok: "\<And>h. place_ok (sh_f s) (loc h)" and sh: "shared_ok (sh_f s) ?c ?d"
    by (auto simp: go_inv_def)
  note mc = advance_moves(1) [OF adv] and ms = advance_moves(2) [OF adv] and eff = advance_effect [OF adv]
  have alone: "\<not> holds_corpus (loc h)" if "holds_corpus (loc g)" "h \<noteq> g" for h
    using lc that by (metis lock_inv_def option.inject)
  have newc: "?c = Ret Nothing" if "holds_corpus b" "\<not> holds_corpus (loc g)"
    using mc that by (auto simp: lock_move_def rw_Lock_def writer_place_def split: if_splits)
  have news: "?d = Ret Nothing" if "holds_signal b" "\<not> holds_signal (loc g)"
    using ms that by (auto simp: lock_move_def rw_Lock_def writer_place_def split: if_splits)
  have "place_ok (sh_f s') ((loc(g := b)) h)" for h
    using effect_other [OF eff ok ok, of h] alone [of h] advance_own [OF adv ok] by auto
  moreover have "shared_ok (sh_f s') (writer_place (loc(g := b)) (sh_corpusMu s')) (writer_place (loc(g := b)) (sh_signalMu s'))"
    unfolding writer_place_move [OF lc mc] writer_place_move [OF ls ms]
    by (rule effect_shared [OF eff ok sh]) (use newc news writer_place_eq [OF lc] writer_place_eq [OF ls] in auto)
  ultimately show ?thesis using lock_move_inv [OF mc lc] lock_move_inv [OF ms ls] by (simp add: go_inv_def)
qed

lemma entry_quiet:
  "entry a \<Longrightarrow> \<not> holds_corpus a \<and> \<not> reads_corpus a \<and> \<not> holds_signal a \<and> \<not> reads_signal a \<and> place_ok f a"
  by (cases a) auto

lemma go_inv_call:
  assumes inv: "go_inv (loc, s)" and "loc g = Ret r" "entry a"
  shows "go_inv (loc(g := a), s)"
proof -
  have "lock_move holds_corpus reads_corpus g (loc g) (sh_corpusMu s) a (sh_corpusMu s)"
    "lock_move holds_signal reads_signal g (loc g) (sh_signalMu s) a (sh_signalMu s)"
    using assms(2) entry_quiet [OF assms(3)] by (auto simp: lock_move_def)
  note moves = this
  from inv have lc: "lock_inv holds_corpus reads_corpus loc (sh_corpusMu s)" and ls: "lock_inv holds_signal reads_signal loc (sh_signalMu s)"
    by (simp_all add: go_inv_def)
  have "writer_place (loc(g := a)) (sh_corpusMu s) = writer_place loc (sh_corpusMu s)"
    "writer_place (loc(g := a)) (sh_signalMu s) = writer_place loc (sh_signalMu s)"
    using writer_place_move [OF lc moves(1)] writer_place_move [OF ls moves(2)] assms(2) entry_quiet [OF assms(3)] by auto
  then show ?thesis
    using inv lock_move_inv [OF moves(1) lc] lock_move_inv [OF moves(2) ls] entry_quiet [OF assms(3), of "sh_f s"] by (simp add: go_inv_def)
qed

lemma same_signals_ok:
  assumes "same_signals f f'"
  shows "place_ok f' a = place_ok f a" "shared_ok f' c d = shared_ok f c d"
proof -
  show "place_ok f' a = place_ok f a" using assms by (cases a) (simp_all add: same_signals_def)
  show "shared_ok f' c d = shared_ok f c d" using assms by (simp add: same_signals_def shared_ok_def)
qed

lemma go_init_inv: "go_init m \<Longrightarrow> go_inv m"
  by (cases m) (auto simp: go_init_def fuzz_init_def go_inv_def lock_inv_def rw_free_def writer_place_def shared_ok_def level_def)

lemma fuzz_step_inv: "fuzz_step ops m m' \<Longrightarrow> go_inv m \<Longrightarrow> go_inv m'"
proof (induction rule: fuzz_step.induct)
  case (elsewhere s f loc)
  then show ?case by (simp add: go_inv_def same_signals_ok)
qed (auto intro: go_inv_statement go_inv_call)

interpretation fuzz: step_system go_init "fuzz_step ops" go_inv for ops
  by unfold_locales (auto intro: go_init_inv fuzz_step_inv)

section \<open>No deadlock and no failure\<close>

lemma holder_goes_on: "holds_corpus a \<or> reads_corpus a \<or> holds_signal a \<or> reads_signal a \<Longrightarrow> advance ops g a s \<noteq> None"
  by (cases "(ops, g, a, s)" rule: advance.cases) (auto simp: Let_def)

lemma blocked_waits:
  assumes "advance ops g a s = None" "\<And>r. a \<noteq> Ret r"
  shows "rw_writer (sh_corpusMu s) \<noteq> None \<or> rw_readers (sh_corpusMu s) \<noteq> [] \<or> rw_writer (sh_signalMu s) \<noteq> None \<or> rw_readers (sh_signalMu s) \<noteq> []"
  using assms by (cases "(ops, g, a, s)" rule: advance.cases) (auto simp: rw_Lock_def rw_RLock_def Let_def split: if_splits)

lemma locked_held:
  assumes "lock_inv wr rd loc mu" "rw_writer mu \<noteq> None \<or> rw_readers mu \<noteq> []"
  shows "\<exists>h. wr (loc h) \<or> rd (loc h)"
proof (cases "rw_writer mu")
  case None
  then obtain h where "h \<in> set (rw_readers mu)" using assms(2) by (cases "rw_readers mu") auto
  then show ?thesis using assms(1) by (auto simp: lock_inv_def)
next
  case (Some h)
  then show ?thesis using assms(1) by (auto simp: lock_inv_def)
qed

lemma not_stuck:
  assumes "go_inv (loc, s)" "\<And>r. loc g \<noteq> Ret r"
  shows "\<exists>h. advance ops h (loc h) s \<noteq> None"
proof (cases "advance ops g (loc g) s = None")
  case True
  from blocked_waits [OF this assms(2)] obtain h where
    "holds_corpus (loc h) \<or> reads_corpus (loc h) \<or> holds_signal (loc h) \<or> reads_signal (loc h)"
    using assms(1) locked_held [of holds_corpus reads_corpus loc "sh_corpusMu s"] locked_held [of holds_signal reads_signal loc "sh_signalMu s"]
    by (auto simp: go_inv_def)
  then show ?thesis using holder_goes_on by blast
qed blast

lemma lock_inv_held:
  assumes "lock_inv wr rd loc mu"
  shows "wr (loc g) \<Longrightarrow> rw_writer mu = Some g" "rd (loc g) \<Longrightarrow> g \<in> set (rw_readers mu)"
    and "wr (loc g) \<Longrightarrow> g \<noteq> h \<Longrightarrow> \<not> wr (loc h) \<and> \<not> rd (loc h)"
proof -
  have w: "rw_writer mu = Some g \<longleftrightarrow> wr (loc g)" for g using assms by (simp add: lock_inv_def)
  show "wr (loc g) \<Longrightarrow> rw_writer mu = Some g" by (simp add: w)
  show "rd (loc g) \<Longrightarrow> g \<in> set (rw_readers mu)" using assms by (simp add: lock_inv_def)
  show "\<not> wr (loc h) \<and> \<not> rd (loc h)" if "wr (loc g)" "g \<noteq> h"
  proof -
    have "rw_writer mu = Some g" "rw_readers mu = []" using assms that(1) w by (auto simp: lock_inv_def)
    then show ?thesis using assms that(2) w [of h] by (auto simp: lock_inv_def)
  qed
qed

lemma signalPrio_fails: "signalPrio ops p info call = Inl e \<Longrightarrow> e = Panic ''index out of range''"
  by (auto simp: signalPrio_def go_nth_def rbind_def split: if_splits sum.splits)

lemma advance_fails:
  assumes "go_inv (loc, s)" "advance ops g (loc g) s = Some (Inl e)"
  shows "e = Panic ''index out of range''"
proof -
  from assms(1) have lc: "lock_inv holds_corpus reads_corpus loc (sh_corpusMu s)" and ls: "lock_inv holds_signal reads_signal loc (sh_signalMu s)"
    and h: "f_corpusHashes (sh_f s) \<noteq> None"
    by (auto simp: go_inv_def shared_ok_def)
  have "(\<exists>mu. rw_Unlock (sh_corpusMu s) = Inr mu) \<or> \<not> holds_corpus (loc g)" "(\<exists>mu. rw_RUnlock g (sh_corpusMu s) = Inr mu) \<or> \<not> reads_corpus (loc g)"
    "(\<exists>mu. rw_Unlock (sh_signalMu s) = Inr mu) \<or> \<not> holds_signal (loc g)" "(\<exists>mu. rw_RUnlock g (sh_signalMu s) = Inr mu) \<or> \<not> reads_signal (loc g)"
    using lock_inv_held(1,2) [OF lc] lock_inv_held(1,2) [OF ls] by (auto simp: rw_Unlock_def rw_RUnlock_def)
  then show ?thesis
    using assms(2) h by (cases "(ops, g, loc g, s)" rule: advance.cases)
      (auto simp: Let_def rmap_def rbind_def signalPrio_fails split: sum.splits if_splits)
qed

text \<open>
  C2: any number of goroutines run \<open>addInputToCorpus\<close>, \<open>addMaxSignal\<close>, \<open>grabNewSignal\<close>,
  \<open>checkNewSignal\<close> and the two functions that only read, with any arguments and interleaved
  statement by statement. Outside of a section that holds \<open>signalMu\<close> for writing, the signal of
  the corpus is within the maximal signal; the signal still to be reported always is. Outside of
  a section that holds \<open>corpusMu\<close> for writing, the corpus holds one program per known hash. While
  one goroutine writes what a mutex guards, no other one reads or writes it. Some goroutine can go
  on as long as one is inside of a function, and no statement fails but for the index of a call
  that the program does not have.
\<close>

theorem reachable_signals_bounded:
  assumes "go_init m\<^sub>0" "(fuzz_step ops)\<^sup>*\<^sup>* m\<^sub>0 (loc, s)"
  shows "(rw_writer (sh_signalMu s) = None \<longrightarrow> (\<forall>e. level (f_corpusSignal (sh_f s)) e \<le> level (f_maxSignal (sh_f s)) e))
    \<and> (\<forall>e. level (f_newSignal (sh_f s)) e \<le> level (f_maxSignal (sh_f s)) e)
    \<and> (rw_writer (sh_corpusMu s) = None \<longrightarrow> distinct (go_keys (f_corpusHashes (sh_f s)))
         \<and> length (f_corpus (sh_f s)) = length (go_keys (f_corpusHashes (sh_f s))))
    \<and> (\<forall>g h. holds_signal (loc g) \<and> g \<noteq> h \<longrightarrow> \<not> holds_signal (loc h) \<and> \<not> reads_signal (loc h))
    \<and> (\<forall>g h. holds_corpus (loc g) \<and> g \<noteq> h \<longrightarrow> \<not> holds_corpus (loc h) \<and> \<not> reads_corpus (loc h))
    \<and> ((\<exists>g. \<forall>r. loc g \<noteq> Ret r) \<longrightarrow> (\<exists>g. advance ops g (loc g) s \<noteq> None))
    \<and> (\<forall>g e. advance ops g (loc g) s = Some (Inl e) \<longrightarrow> e = Panic ''index out of range'')"
proof -
  have inv: "go_inv (loc, s)" using fuzz.run_inv [OF assms] .
  then have lc: "lock_inv holds_corpus reads_corpus loc (sh_corpusMu s)" and ls: "lock_inv holds_signal reads_signal loc (sh_signalMu s)"
    and sh: "shared_ok (sh_f s) (writer_place loc (sh_corpusMu s)) (writer_place loc (sh_signalMu s))"
    by (auto simp: go_inv_def)
  have "rw_writer (sh_signalMu s) = None \<longrightarrow> (\<forall>e. level (f_corpusSignal (sh_f s)) e \<le> level (f_maxSignal (sh_f s)) e)"
    using sh by (auto simp: shared_ok_def writer_place_def level_def [of None] sup_absorb1)
  moreover have "\<forall>e. level (f_newSignal (sh_f s)) e \<le> level (f_maxSignal (sh_f s)) e"
    using sh by (simp add: shared_ok_def)
  moreover have "rw_writer (sh_corpusMu s) = None \<longrightarrow> distinct (go_keys (f_corpusHashes (sh_f s)))
         \<and> length (f_corpus (sh_f s)) = length (go_keys (f_corpusHashes (sh_f s)))"
    using sh by (auto simp: shared_ok_def writer_place_def wfm_def go_len_def go_keys_def)
  moreover note lock_inv_held(3) [OF lc] lock_inv_held(3) [OF ls] not_stuck [OF inv] advance_fails [OF inv]
  ultimately show ?thesis by blast
qed

text \<open>A schedule: which goroutine runs its next statement.\<close>

fun schedule :: "('c, 'w) Ops \<Rightarrow> nat list \<Rightarrow> ('c, 'w) goroutines \<Rightarrow> ('c, 'w) goroutines option" where
  "schedule ops [] m = Some m"
| "schedule ops (g # gs) (loc, s) =
    (case advance ops g (loc g) s of Some (Inr (a, s')) \<Rightarrow> schedule ops gs (loc(g := a), s') | _ \<Rightarrow> None)"

lemma schedule_run: "schedule ops gs m = Some m' \<Longrightarrow> (fuzz_step ops)\<^sup>*\<^sup>* m m'"
proof (induction ops gs m rule: schedule.induct)
  case (2 ops g gs loc s)
  then obtain a s' where a: "advance ops g (loc g) s = Some (Inr (a, s'))" "schedule ops gs (loc(g := a), s') = Some m'"
    by (auto split: option.splits sum.splits)
  from a(1) have "fuzz_step ops (loc, s) (loc(g := a), s')" by (rule statement)
  also from 2(1) [OF a(1) _ _ a(2)] have "(fuzz_step ops)\<^sup>*\<^sup>* (loc(g := a), s') m'" by blast
  finally show ?case .
qed simp

text \<open>
  Two goroutines come upon the signal 5: one adds its program to the corpus while the other one
  has looked at the maximal signal and waits to merge the difference.
\<close>

definition ex_loc :: "nat \<Rightarrow> string location" where
  "ex_loc = (\<lambda>g. Ret Nothing)(0 := AddInput \<lparr>pr_Calls = [''c''], pr_Comments = []\<rparr> (Some [(5, 3)]) ''h'',
     1 := Check \<lparr>pr_Calls = [''c''], pr_Comments = []\<rparr> ex_info)"

definition ex_shared :: "(string, unit) Shared" where
  "ex_shared = \<lparr>sh_f = ex_fuzzer, sh_corpusMu = rw_free, sh_signalMu = rw_free\<rparr>"

lemma ex_schedule:
  "case schedule ex_sig_ops [1, 0, 0, 1, 0, 0, 1, 0, 0, 0, 0, 0, 1, 1, 1, 1, 1, 1, 1, 1] (ex_loc, ex_shared) of
     Some (loc, s) \<Rightarrow> rw_writer (sh_signalMu s) = None \<and> rw_writer (sh_corpusMu s) = None \<and> length (f_corpus (sh_f s)) = 1
       \<and> go_get (f_newSignal (sh_f s)) 5 = Some 3 \<and> go_get (f_corpusSignal (sh_f s)) 5 = Some 3
   | None \<Rightarrow> False"
  by code_simp

theorem reachable_signals_bounded_witness:
  "\<exists>loc s. (fuzz_step ex_sig_ops)\<^sup>*\<^sup>* (\<lambda>_. Ret Nothing, ex_shared) (loc, s) \<and> length (go_keys (f_corpusHashes (sh_f s))) = 1
     \<and> go_get (f_newSignal (sh_f s)) 5 = Some 3 \<and> Some 3 \<le> level (f_maxSignal (sh_f s)) 5
     \<and> level (f_corpusSignal (sh_f s)) 5 \<le> level (f_maxSignal (sh_f s)) 5"
proof -
  obtain loc s where s: "schedule ex_sig_ops [1, 0, 0, 1, 0, 0, 1, 0, 0, 0, 0, 0, 1, 1, 1, 1, 1, 1, 1, 1] (ex_loc, ex_shared) = Some (loc, s)"
      "rw_writer (sh_signalMu s) = None" "rw_writer (sh_corpusMu s) = None" "length (f_corpus (sh_f s)) = 1"
      "go_get (f_newSignal (sh_f s)) 5 = Some 3"
    using ex_schedule by (auto split: option.splits)
  let ?idle = "\<lambda>_. Ret Nothing :: string location"
  have "(fuzz_step ex_sig_ops)\<^sup>*\<^sup>* (?idle, ex_shared) (?idle(0 := ex_loc 0), ex_shared)"
    by (rule r_into_rtranclp, rule call) (auto simp: ex_loc_def wfm_def go_keys_def)
  also have "(fuzz_step ex_sig_ops)\<^sup>*\<^sup>* (?idle(0 := ex_loc 0), ex_shared) ((?idle(0 := ex_loc 0))(1 := ex_loc 1), ex_shared)"
    by (rule r_into_rtranclp, rule call) (auto simp: ex_loc_def)
  also have "(?idle(0 := ex_loc 0))(1 := ex_loc 1) = ex_loc" by (simp add: ex_loc_def fun_eq_iff)
  also note schedule_run [OF s(1)]
  finally have run: "(fuzz_step ex_sig_ops)\<^sup>*\<^sup>* (?idle, ex_shared) (loc, s)" .
  have "go_init (?idle, ex_shared)" by (simp add: go_init_def ex_shared_def fuzz_init_def ex_fuzzer_def)
  from reachable_signals_bounded [OF this run] have le: "level (f_newSignal (sh_f s)) 5 \<le> level (f_maxSignal (sh_f s)) 5"
    "level (f_corpusSignal (sh_f s)) 5 \<le> level (f_maxSignal (sh_f s)) 5" "length (go_keys (f_corpusHashes (sh_f s))) = 1"
    using s(2-4) by auto
  have "level (f_newSignal (sh_f s)) 5 = Some 3" using s(5) by (simp add: level_def)
  then show ?thesis using run s(5) le by metis
qed

section \<open>One goroutine alone\<close>

text \<open>
  A goroutine that nobody disturbs computes what \<open>Fuzzer_State\<close> says. \<open>runs_to\<close>: from the
  statement \<open>a\<close> it gets to \<open>b\<close>, wherever the others are.
\<close>

definition runs_to :: "('c, 'w) Ops \<Rightarrow> nat \<Rightarrow> 'c location \<Rightarrow> ('c, 'w) Shared \<Rightarrow> 'c location \<Rightarrow> ('c, 'w) Shared \<Rightarrow> bool" where
  "runs_to ops g a s b s' \<longleftrightarrow> (\<forall>loc. (fuzz_step ops)\<^sup>*\<^sup>* (loc(g := a), s) (loc(g := b), s'))"

lemma runs_to_refl [simp]: "runs_to ops g a s a s"
  by (simp add: runs_to_def)

lemma runs_to_step:
  assumes "advance ops g a s = Some (Inr (b, s1))" "runs_to ops g b s1 c s'"
  shows "runs_to ops g a s c s'"
  unfolding runs_to_def
proof
  fix loc
  have "fuzz_step ops (loc(g := a), s) ((loc(g := a))(g := b), s1)" by (rule statement) (simp add: assms(1))
  then have "fuzz_step ops (loc(g := a), s) (loc(g := b), s1)" by simp
  also have "(fuzz_step ops)\<^sup>*\<^sup>* (loc(g := b), s1) (loc(g := c), s')" using assms(2) by (simp add: runs_to_def)
  finally show "(fuzz_step ops)\<^sup>*\<^sup>* (loc(g := a), s) (loc(g := c), s')" .
qed

lemma runs_to_go: "(case advance ops g a s of Some (Inr (b, s1)) \<Rightarrow> runs_to ops g b s1 c s' | _ \<Rightarrow> False) \<Longrightarrow> runs_to ops g a s c s'"
  by (auto split: option.splits sum.splits intro: runs_to_step)

lemma runs_to_trans: "runs_to ops g a s b s1 \<Longrightarrow> runs_to ops g b s1 c s' \<Longrightarrow> runs_to ops g a s c s'"
  unfolding runs_to_def by (meson rtranclp_trans)

definition unlocked :: "('c, 'w) Fuzzer \<Rightarrow> ('c, 'w) Shared" where
  "unlocked f = \<lparr>sh_f = f, sh_corpusMu = rw_free, sh_signalMu = rw_free\<rparr>"

lemmas rw_simps = rw_free_def rw_Lock_def rw_Unlock_def rw_RLock_def rw_RUnlock_def

lemma addInputToCorpus_runs:
  assumes "addInputToCorpus p sign sig f = Inr f'"
  shows "runs_to ops g (AddInput p sign sig) (unlocked f) (Ret Nothing) (unlocked f')"
proof -
  from assms obtain f1 where f1: "(if go_has (f_corpusHashes f) sig then Inr f
        else rmap (\<lambda>h. f\<lparr>f_corpus := f_corpus f @ [p], f_corpusHashes := h\<rparr>) (go_put sig () (f_corpusHashes f))) = Inr f1"
    and f': "f' = (if sig_Empty sign then f1
        else f1\<lparr>f_corpusSignal := sig_Merge (f_corpusSignal f1) sign, f_maxSignal := sig_Merge (f_maxSignal f1) sign\<rparr>)"
    by (auto simp: addInputToCorpus_def rbind_Inr_conv)
  have "runs_to ops g (AddSignal sign) (unlocked f1) (Ret Nothing) (unlocked f')"
  proof (cases "sig_Empty sign")
    case True
    then show ?thesis using f' by (intro runs_to_go) simp
  next
    case False
    then show ?thesis using f'
      by (simp add: unlocked_def) (rule runs_to_go, simp add: rw_simps)+
  qed
  moreover have "runs_to ops g (AddInput p sign sig) (unlocked f) (AddSignal sign) (unlocked f1)"
  proof (cases "go_has (f_corpusHashes f) sig")
    case True
    then show ?thesis using f1
      by (simp add: unlocked_def) (rule runs_to_go, simp add: rw_simps)+
  next
    case False
    then obtain h where "go_put sig () (f_corpusHashes f) = Inr h" "f1 = f\<lparr>f_corpus := f_corpus f @ [p], f_corpusHashes := h\<rparr>"
      using f1 by (auto simp: rmap_Inr_conv)
    then show ?thesis using False
      by (simp add: unlocked_def) (rule runs_to_go, simp add: rw_simps)+
  qed
  ultimately show ?thesis using runs_to_trans by blast
qed

lemma addMaxSignal_runs: "runs_to ops g (AddMax sign) (unlocked f) (Ret Nothing) (unlocked (addMaxSignal sign f))"
proof (cases "sig_Len sign = 0")
  case True
  then show ?thesis by (intro runs_to_go) (simp add: addMaxSignal_def)
next
  case False
  then show ?thesis
    by (simp add: unlocked_def addMaxSignal_def) (rule runs_to_go, simp add: rw_simps)+
qed

lemma grabNewSignal_runs:
  assumes "grabNewSignal f = (sign, f')"
  shows "runs_to ops g Grab (unlocked f) (Ret (Sign sign)) (unlocked f')"
proof (cases "sig_Empty (f_newSignal f)")
  case True
  then show ?thesis using assms
    by (simp add: unlocked_def grabNewSignal_def Let_def) (rule runs_to_go, simp add: rw_simps)+
next
  case False
  then show ?thesis using assms
    by (simp add: unlocked_def grabNewSignal_def Let_def) (rule runs_to_go, simp add: rw_simps)+
qed

lemma readers_run:
  "runs_to ops g SnapLock (unlocked f) (Ret (Corpus (corpusSnapshot f))) (unlocked f)"
  "runs_to ops g (DiffLock sign) (unlocked f) (Ret (Sign (corpusSignalDiff sign f))) (unlocked f)"
  by (simp_all add: unlocked_def corpusSnapshot_def corpusSignalDiff_def)
    (rule runs_to_go, simp add: rw_simps)+

text \<open>The loop of \<open>checkNewSignal\<close> over all calls and the extra one.\<close>

fun check_todo :: "('c, 'w) Ops \<Rightarrow> 'c Prog \<Rightarrow> (int \<times> CallInfo) list \<Rightarrow> int list \<Rightarrow> ('c, 'w) Fuzzer \<Rightarrow> (int list \<times> ('c, 'w) Fuzzer) res" where
  "check_todo ops p [] found f = Inr (found, f)"
| "check_todo ops p ((call, info) # todo) found f =
    rbind (checkNewCallSignal ops p info call f) (\<lambda>(new, f1). check_todo ops p todo (if new then found @ [call] else found) f1)"

lemma check_todo_calls:
  "new_signal_calls ops p i infos f = Inr (calls, f') \<Longrightarrow>
    check_todo ops p (map (\<lambda>(i, c). (int i, c)) (enumerate i infos) @ rest) found f = check_todo ops p rest (found @ map int calls) f'"
proof (induction infos arbitrary: i f calls found)
  case (Cons c cs)
  then obtain new f1 calls1 where "checkNewCallSignal ops p c (int i) f = Inr (new, f1)"
      "new_signal_calls ops p (Suc i) cs f1 = Inr (calls1, f')" "calls = (if new then i # calls1 else calls1)"
    by (auto simp: res_conv)
  then show ?case using Cons.IH [of "Suc i" f1 calls1] by simp
qed simp

lemma check_todo_news:
  fixes p :: "'c Prog"
  assumes "checkNewSignal ops p (Some info) f = Inr ((calls, extra), f')"
  shows "\<exists>found. check_todo ops p (todo_of info) [] f = Inr (found, f') \<and> news_of found = (News calls extra :: 'c outcome)"
proof -
  from assms obtain f1 where 1: "new_signal_calls ops p 0 (pi_Calls info) f = Inr (calls, f1)"
      "checkNewCallSignal ops p (pi_Extra info) (- 1) f1 = Inr (extra, f')"
    by (auto simp: checkNewSignal_def res_conv)
  then have "check_todo ops p (todo_of info) [] f = Inr (map int calls @ (if extra then [- 1] else []), f')"
    using check_todo_calls [OF 1(1), of "[(- 1, pi_Extra info)]" "[]"] by (simp add: todo_of_def)
  moreover have "news_of (map int calls @ (if extra then [- 1] else [])) = (News calls extra :: 'c outcome)" for calls
    by (auto simp: news_of_def comp_def)
  ultimately show ?thesis by blast
qed

definition reading :: "nat \<Rightarrow> ('c, 'w) Fuzzer \<Rightarrow> ('c, 'w) Shared" where
  "reading g f = (unlocked f)\<lparr>sh_signalMu := \<lparr>rw_writer = None, rw_readers = [g]\<rparr>\<rparr>"

lemma check_todo_runs:
  "check_todo ops p todo found f = Inr (found', f') \<Longrightarrow>
    runs_to ops g (CheckCall (p, todo, found)) (reading g f) (SignalRUnlock (news_of found')) (reading g f')"
proof (induction todo arbitrary: found f)
  case Nil
  then show ?case by (intro runs_to_go) simp
next
  case (Cons c todo)
  obtain call info where c: "c = (call, info)" by (cases c)
  with Cons.prems obtain prio where prio: "signalPrio ops p info call = Inr prio"
    by (auto simp: checkNewCallSignal_def rbind_Inr_conv)
  let ?d = "DiffRaw (f_maxSignal f) (ci_Signal info) prio"
  show ?case
  proof (cases "sig_Empty ?d")
    case True
    then show ?thesis using Cons c prio
      by (intro runs_to_go) (simp add: checkNewCallSignal_def Let_def reading_def unlocked_def)
  next
    case False
    let ?f1 = "f\<lparr>f_maxSignal := sig_Merge (f_maxSignal f) ?d, f_newSignal := sig_Merge (f_newSignal f) ?d\<rparr>"
    have "runs_to ops g (CheckCall (p, c # todo, found)) (reading g f) (CheckCall (p, todo, found @ [call])) (reading g ?f1)"
      using False c prio
      by (simp add: reading_def unlocked_def) (rule runs_to_go, simp add: rw_simps Let_def)+
    moreover have "runs_to ops g (CheckCall (p, todo, found @ [call])) (reading g ?f1) (SignalRUnlock (news_of found')) (reading g f')"
      using Cons.prems c prio False by (intro Cons.IH) (simp add: checkNewCallSignal_def Let_def)
    ultimately show ?thesis by (rule runs_to_trans)
  qed
qed

lemma checkNewSignal_runs:
  fixes p :: "'c Prog"
  assumes "checkNewSignal ops p (Some info) f = Inr ((calls, extra), f')"
  shows "runs_to ops g (Check p info) (unlocked f) (Ret (News calls extra)) (unlocked f')"
proof -
  obtain found where found: "check_todo ops p (todo_of info) [] f = Inr (found, f')" "news_of found = (News calls extra :: 'c outcome)"
    using check_todo_news [OF assms] by metis
  have "runs_to ops g (Check p info) (unlocked f) (CheckCall (p, todo_of info, [])) (reading g f)"
    by (rule runs_to_go) (simp add: unlocked_def reading_def rw_simps)
  moreover note check_todo_runs [OF found(1), of g]
  moreover have "runs_to ops g (SignalRUnlock (news_of found)) (reading g f') (Ret (News calls extra)) (unlocked f')"
    by (rule runs_to_go) (simp add: found(2) unlocked_def reading_def rw_simps)
  ultimately show ?thesis using runs_to_trans by metis
qed

text \<open>A goroutine outside of the functions gets the shared state to \<open>f\<close> by calling them, one after the other.\<close>

definition alone :: "('c, 'w) Ops \<Rightarrow> nat \<Rightarrow> (nat \<Rightarrow> 'c location) \<Rightarrow> ('c, 'w) Fuzzer \<Rightarrow> ('c, 'w) Fuzzer \<Rightarrow> bool" where
  "alone ops g loc f f' \<longleftrightarrow> (\<exists>r. (fuzz_step ops)\<^sup>*\<^sup>* (loc(g := Ret Nothing), unlocked f) (loc(g := Ret r), unlocked f'))"

lemma alone_refl: "alone ops g loc f f"
  unfolding alone_def by blast

lemma alone_elsewhere:
  assumes "alone ops g loc f f1" "same_signals f1 f'"
  shows "alone ops g loc f f'"
proof -
  obtain r where "(fuzz_step ops)\<^sup>*\<^sup>* (loc(g := Ret Nothing), unlocked f) (loc(g := Ret r), unlocked f1)"
    using assms(1) by (auto simp: alone_def)
  also have "(fuzz_step ops)\<^sup>*\<^sup>* (loc(g := Ret r), unlocked f1) (loc(g := Ret r), (unlocked f1)\<lparr>sh_f := f'\<rparr>)"
    by (rule r_into_rtranclp, rule elsewhere) (simp add: assms(2) unlocked_def)
  finally show ?thesis by (auto simp: alone_def unlocked_def)
qed

lemma alone_call:
  assumes "alone ops g loc f f1" "entry a" "runs_to ops g a (unlocked f1) (Ret r') (unlocked f')"
  shows "alone ops g loc f f'"
proof -
  obtain r where "(fuzz_step ops)\<^sup>*\<^sup>* (loc(g := Ret Nothing), unlocked f) (loc(g := Ret r), unlocked f1)"
    using assms(1) by (auto simp: alone_def)
  also have "(fuzz_step ops)\<^sup>*\<^sup>* (loc(g := Ret r), unlocked f1) ((loc(g := Ret r))(g := a), unlocked f1)"
    by (rule r_into_rtranclp, rule call) (auto simp: assms(2))
  also have "(fuzz_step ops)\<^sup>*\<^sup>* ((loc(g := Ret r))(g := a), unlocked f1) (loc(g := Ret r'), unlocked f')"
    using assms(3) by (simp add: runs_to_def)
  finally show ?thesis unfolding alone_def by blast
qed

end
