(* ===== verification/Fuzzer_Invariant.thy ===== *)
theory Fuzzer_Invariant
  imports Fuzzer_Proc Fuzzer_Locks
begin

text \<open>
  The turns of the fuzzer's two loops change the corpus and the signals through the functions of
  \<open>fuzzer.go\<close> only. \<open>signal_property\<close> is the contract of a property that those functions
  keep and that depends on nothing else; it is kept by every turn, whatever the executor, the
  program operations and the managers do. The property it is used for: the state is reached by
  the statements of \<open>Fuzzer_Locks\<close>, so that every turn is a run of those statements.
\<close>

lemma sig_Deserialize_wfm: "sig_Deserialize ser = Inr s \<Longrightarrow> wfm s"
  by (auto simp: sig_Deserialize_def intro!: fold_keep [where P = wfm] split: if_splits)

lemma same_signals_fields [simp]:
  "same_signals f (send m f)" "same_signals f (f\<lparr>f_world := w\<rparr>)" "same_signals f (f\<lparr>f_workQueue := wq\<rparr>)"
  "same_signals f (f\<lparr>f_log := l\<rparr>)" "same_signals f (f\<lparr>f_DataDependency := d\<rparr>)" "same_signals f (f\<lparr>f_stats := st\<rparr>)"
  "same_signals f (f\<lparr>f_need := b\<rparr>)" "same_signals f (f\<lparr>f_world := w, f_stats := st\<rparr>)"
  by (simp_all add: same_signals_def send_def)

lemma same_signals_sym: "same_signals f f' \<Longrightarrow> same_signals f' f"
  by (simp add: same_signals_def)

locale signal_property =
  fixes P :: "('c, 'w) Fuzzer \<Rightarrow> bool" and ops :: "('c, 'w) Ops"
  assumes elsewhere_keeps: "same_signals f f' \<Longrightarrow> P f \<Longrightarrow> P f'"
    and addInputToCorpus_keeps: "addInputToCorpus p sign sig f = Inr f' \<Longrightarrow> P f \<Longrightarrow> wfm sign \<Longrightarrow> P f'"
    and addMaxSignal_keeps: "P f \<Longrightarrow> wfm sign \<Longrightarrow> P (addMaxSignal sign f)"
    and grabNewSignal_keeps: "grabNewSignal f = (s, f') \<Longrightarrow> P f \<Longrightarrow> P f'"
    and checkNewSignal_keeps: "checkNewSignal ops p (Some info) f = Inr (r, f') \<Longrightarrow> P f \<Longrightarrow> P f'"
begin

lemma P_same: "same_signals f f' \<Longrightarrow> P f' = P f"
  using elsewhere_keeps same_signals_sym by blast

lemma P_fields [simp]:
  "P (send m f) = P f" "P (f\<lparr>f_world := w\<rparr>) = P f" "P (f\<lparr>f_workQueue := wq\<rparr>) = P f"
  "P (f\<lparr>f_log := l\<rparr>) = P f" "P (f\<lparr>f_DataDependency := d\<rparr>) = P f"
  "P (f\<lparr>f_stats := st\<rparr>) = P f" "P (f\<lparr>f_need := b\<rparr>) = P f"
  "P (f\<lparr>f_world := w, f_stats := st\<rparr>) = P f"
  by (rule P_same, simp)+

lemma addInputFromAnotherFuzzer_inv:
  "addInputFromAnotherFuzzer ops inp f = Inr f' \<Longrightarrow> P f \<Longrightarrow> P f'"
  by (auto simp: addInputFromAnotherFuzzer_def rbind_Inr_conv split: option.splits
      intro: addInputToCorpus_keeps sig_Deserialize_wfm)

lemma checkNewSignal_inv: "checkNewSignal ops p info f = Inr (r, f') \<Longrightarrow> P f \<Longrightarrow> P f'"
  by (cases info) (auto simp: checkNewSignal_def [of ops p None] dest: checkNewSignal_keeps)

section \<open>Execution\<close>

lemma exec_tries_inv: "exec_tries ops opts p stat n f = Inr (info, f') \<Longrightarrow> P f \<Longrightarrow> P f'"
proof (induction n arbitrary: f)
  case (Suc n)
  then show ?case by (auto simp: Let_def split: prod.splits option.splits)
qed simp

lemma executeRaw_inv: "executeRaw ops opts p stat f = Inr (info, f') \<Longrightarrow> P f \<Longrightarrow> P f'"
  by (auto simp: executeRaw_def dest: exec_tries_inv split: if_splits)

lemma enqueueCallTriage_inv: "enqueueCallTriage p flags i info f = Inr f' \<Longrightarrow> P f \<Longrightarrow> P f'"
  by (auto simp: enqueueCallTriage_def rmap_Inr_conv)

lemma proc_SendNeedInput_inv [simp]: "P (proc_SendNeedInput ops p info f) = P f"
  by (simp add: proc_SendNeedInput_def Let_def)

lemma report_need_inv [simp]: "P (report_need ops p info f) = P f"
  by (simp add: report_need_def split: prod.split)

lemma execute_inv:
  assumes "execute ops opts p flags stat f = Inr (r, f')" "P f"
  shows "P f'"
proof -
  from assms(1) obtain info f1 calls extra f2 p' f3 f4 where
    1: "executeRaw ops opts p stat f = Inr (info, f1)" and 2: "checkNewSignal ops p info f1 = Inr ((calls, extra), f2)"
    and 3: "rfold (\<lambda>i f. rbind (go_nth (pi_Calls (the info)) (int i)) (\<lambda>c. enqueueCallTriage p' flags (int i) c f)) calls f2 = Inr f3"
    and 4: "(if extra then enqueueCallTriage p' flags (- 1) (pi_Extra (the info)) f3 else Inr f3) = Inr f4"
    and 5: "P f' = P f4"
    unfolding execute_def Let_def by (auto simp: rbind_Inr_conv split del: if_split)
  have "P f2" using 1 2 assms(2) executeRaw_inv checkNewSignal_inv by blast
  with 3 have "P f3" by (rule rfold_inv) (auto simp: rbind_Inr_conv dest: enqueueCallTriage_inv)
  then have "P f4" using 4 by (auto split: if_splits dest: enqueueCallTriage_inv)
  then show ?thesis using 5 by simp
qed

lemma execute_mutants_inv:
  assumes "execute_mutants ops opts stat cs qs f = Inr f'" "P f"
  shows "P f'"
proof -
  from assms(1) obtain cs' where "rfold (\<lambda>q (cs, f). rmap (\<lambda>((_, q'), f'). (pr_Comments q', f'))
      (execute ops opts (q\<lparr>pr_Comments := cs\<rparr>) ProgNormal stat f)) qs (cs, f) = Inr (cs', f')"
    by (auto simp: execute_mutants_def rmap_Inr_conv)
  then have "P (snd (cs', f'))"
    by (rule rfold_inv [where I = "\<lambda>s. P (snd s)"]) (use assms(2) in \<open>auto simp: rmap_Inr_conv dest: execute_inv\<close>)
  then show ?thesis by simp
qed

section \<open>Tasks\<close>

lemma check_task_entry_inv:
  assumes "check_task_entry info1 info2 e s = Inr s'" "P (snd (snd s))"
  shows "P (snd (snd s'))"
proof -
  obtain k r task temp f where e: "e = (k, r)" "s = (task, temp, f)" by (metis surj_pair)
  then show ?thesis
    using assms unfolding check_task_entry_def Let_def by (auto simp: rbind_Inr_conv CollectUnstable_def split del: if_split)
qed

lemma CheckATask_inv:
  assumes "dependencyMutateCheckATask ops pc task f = Inr (task', f')" "P f"
  shows "P f'"
proof -
  from assms(1) obtain r1 f1 r2 f2 info1 info2 t1 temp opts p q flags stat where
    1: "execute ops opts p flags stat f = Inr (r1, f1)" "execute ops opts q flags stat f1 = Inr (r2, f2)"
    and 2: "rfold (check_task_entry info1 info2) (go_range (t_UncoveredAddress task)) (task, [], f2) = Inr (t1, temp, f')"
    unfolding dependencyMutateCheckATask_def by (auto simp: rbind_Inr_conv)
  have "P f2" using 1 assms(2) execute_inv by blast
  then have "P (snd (snd (task, [] :: uint32 list, f2)))" by simp
  with 2 have "P (snd (snd (t1, temp, f')))" by (rule rfold_inv) (rule check_task_entry_inv)
  then show ?thesis by simp
qed

lemma Check_inv: "dependencyMutateCheck ops pc n task f = Inr (task', f') \<Longrightarrow> P f \<Longrightarrow> P f'"
  by (auto simp: dependencyMutateCheck_def Let_def res_conv dest: execute_inv)

lemma executeDependencyHintSeed_inv:
  "executeDependencyHintSeed ops pc p call f = Inr (q, f') \<Longrightarrow> P f \<Longrightarrow> P f'"
  unfolding executeDependencyHintSeed_def by (auto simp: rbind_Inr_conv rmap_Inr_conv dest!: execute_mutants_inv dest: execute_inv)

lemma Arguement_inv: "dependencyMutateArguement ops pc task n f = Inr f' \<Longrightarrow> P f \<Longrightarrow> P f'"
  by (auto simp: dependencyMutateArguement_def Let_def res_conv dest!: executeDependencyHintSeed_inv split: if_splits)

lemma try_insert_inv:
  assumes "try_insert ops pc i s = Inr s'" "P (snd s)"
  shows "P (snd s')"
proof -
  obtain task f where s: "s = (task, f)" by (cases s)
  from assms(1) s obtain n t1 t2 f2 f3 n' t3 t4 f4 f5 where
    "dependencyMutateCheck ops pc n t1 f = Inr (t2, f2)" "dependencyMutateArguement ops pc t2 n f2 = Inr f3"
    "dependencyMutateCheck ops pc n' t3 f3 = Inr (t4, f4)" "dependencyMutateArguement ops pc t4 n f4 = Inr f5" "snd s' = f5"
    unfolding try_insert_def by (auto simp: res_conv)
  then show ?thesis using assms(2) s Check_inv Arguement_inv by (metis snd_conv)
qed

lemma dependency_inv:
  assumes "dependency ops pc task kind f = Inr (task', f')" "P f"
  shows "P f'"
proof -
  from assms(1) obtain t1 f1 t2 f2 where
    1: "dependencyMutateCheckATask ops pc (snd (ComputeHash task)) f = Inr (t1, f1)"
    and 2: "(if t_Check t1 then rfold (try_insert ops pc) [0, unat (t_Index t1)] (t1, f1) else Inr (t1, f1)) = Inr (t2, f2)"
    and 3: "P f' = P f2"
    unfolding dependency_def Let_def by (auto simp: rbind_Inr_conv split del: if_split)
  have f1: "P f1" using 1 assms(2) by (rule CheckATask_inv)
  have "P (snd (t2, f2))"
  proof (cases "t_Check t1")
    case True
    with 2 have "rfold (try_insert ops pc) [0, unat (t_Index t1)] (t1, f1) = Inr (t2, f2)" by simp
    then show ?thesis by (rule rfold_inv [where I = "\<lambda>s. P (snd s)"]) (use f1 try_insert_inv in auto)
  qed (use 2 f1 in simp)
  then show ?thesis using 3 by simp
qed

lemma dependencyBoot_inv:
  assumes "dependencyBoot ops pc item f = Inr (task', f')" "P f"
  shows "P f'"
proof -
  from assms(1) obtain opts p flags stat r f1 where "execute ops opts p flags stat f = Inr (r, f1)" "P f' = P f1"
    unfolding dependencyBoot_def Let_def by (auto simp: res_conv split: if_splits)
  then show ?thesis using assms(2) execute_inv by blast
qed

lemma client_log_inv [simp]: "P (client_SSendLog f) = P f" "P (client_SendLog ops t f) = P f"
  by (simp_all add: client_SSendLog_def client_SendLog_def)

lemma checkInput_inv:
  assumes "checkInput ops pc txt input f = Inr f'" "P f"
  shows "P f'"
proof -
  have run: "P g'" if "rfold (\<lambda>t f. rmap snd (dependency ops pc t TaskKind_Ckeck f)) tasks g = Inr g'" "P g" for tasks g g'
    using that by (rule rfold_inv) (auto simp: rmap_Inr_conv dest: dependency_inv)
  show ?thesis
    using assms unfolding checkInput_def Let_def by (auto simp: rbind_Inr_conv split: if_splits option.splits prod.splits dest: run)
qed

section \<open>The loops\<close>

lemma minimize_attempts_inv:
  "minimize_attempts ops pc old new n p call f = Inr (r, f') \<Longrightarrow> P f \<Longrightarrow> P f'"
proof (induction n arbitrary: p f)
  case (Suc n)
  then show ?case by (auto simp: rbind_Inr_conv split: if_splits dest: execute_inv)
qed auto

lemma run_mini_inv:
  assumes "\<And>p call f r f'. pred p call f = Inr (r, f') \<Longrightarrow> P f \<Longrightarrow> P f'"
  shows "run_mini pred m f = Inr (r, f') \<Longrightarrow> P f \<Longrightarrow> P f'"
proof (induction m arbitrary: f)
  case (MiniAsk p call k)
  then obtain b comments f1 where "pred p call f = Inr ((b, comments), f1)" "run_mini pred (k b comments) f1 = Inr (r, f')"
    by (auto simp: rbind_Inr_conv)
  then show ?case using MiniAsk assms by blast
qed simp

lemma triage_run_inv: "triage_run ops pc item s f = Inr (r, f') \<Longrightarrow> P f \<Longrightarrow> P f'"
  unfolding triage_run_def by (auto simp: rbind_Inr_conv Let_def dest: executeRaw_inv split: if_splits)

lemma triage_runs_inv: "triage_runs ops pc item n s f = Inr (r, f') \<Longrightarrow> P f \<Longrightarrow> P f'"
proof (induction n arbitrary: s f)
  case (Suc n)
  then show ?case by (auto simp: rbind_Inr_conv dest: triage_run_inv split: option.splits)
qed simp

lemma triage_minimize_inv: "triage_minimize ops pc item new f = Inr (r, f') \<Longrightarrow> P f \<Longrightarrow> P f'"
  using run_mini_inv [of "minimize_attempts ops pc (wt_info item) new 3", OF minimize_attempts_inv]
  unfolding triage_minimize_def by (auto split: if_splits)

lemma triage_done_inv:
  assumes "triage_done ops pc txt item cn sign s pcall f = Inr f'" "P f" "wfm sign"
  shows "P f'"
proof -
  obtain p call where pc: "pcall = (p, call)" by (cases pcall)
  from assms(1) pc obtain ri sig f2 f3 input where
    1: "addInputToCorpus p sign sig (send (ManagerNewInput ri) f) = Inr f2"
    and 2: "(if wt_flags item AND ProgSmashed = 0
        then rmap (\<lambda>wq. f2\<lparr>f_workQueue := wq\<rparr>) (enqueue (ItemSmash \<lparr>ws_p = p, ws_call = call\<rparr>) (f_workQueue f2)) else Inr f2) = Inr f3"
    and 3: "checkInput ops pc txt input (send (SendNewInputMsg input) f3) = Inr f'"
    unfolding triage_done_def Let_def sendInputToManager_def CheckCondition_def by (auto simp: rbind_Inr_conv split del: if_split)
  have "P f2" using addInputToCorpus_keeps [OF 1] assms by simp
  then have "P f3" using 2 by (auto simp: rmap_Inr_conv split: if_splits)
  then show ?thesis using checkInput_inv [OF 3] by simp
qed

lemma triageInput_inv:
  assumes "triageInput ops pc txt item f = Inr f'" "P f"
  shows "P f'"
proof -
  from assms(1) obtain prio where prio: "signalPrio ops (wt_p item) (wt_info item) (wt_call item) = Inr prio"
    by (auto simp: triageInput_def rbind_Inr_conv)
  let ?sig = "FromRaw (ci_Signal (wt_info item)) prio"
  show ?thesis
  proof (cases "sig_Empty (corpusSignalDiff ?sig f)")
    case True
    then show ?thesis using assms prio by (simp add: triageInput_def Let_def)
  next
    case False
    with assms(1) prio obtain s0 r f1 where
      1: "triage_runs ops pc item 3 s0 f = Inr (r, f1)"
      and 2: "f' = f1 \<or> (\<exists>new pcall f2 cn s. triage_minimize ops pc item new f1 = Inr (pcall, f2) \<and> triage_done ops pc txt item cn ?sig s pcall f2 = Inr f')"
      unfolding triageInput_def Let_def by (fastforce simp: rbind_Inr_conv split: option.splits if_splits)
    have "P f1" using 1 assms(2) by (rule triage_runs_inv)
    then show ?thesis using 2 triage_minimize_inv triage_done_inv wfm_FromRaw by blast
  qed
qed

lemma fail_loop_inv: "fail_loop ops pc p call ns f = Inr f' \<Longrightarrow> P f \<Longrightarrow> P f'"
proof (induction ns arbitrary: f)
  case (Cons k ns)
  then show ?case by (auto simp: rbind_Inr_conv dest: executeRaw_inv split: option.splits if_splits)
qed simp

lemma executeHintSeed_inv: "executeHintSeed ops pc p call f = Inr (q, f') \<Longrightarrow> P f \<Longrightarrow> P f'"
  unfolding executeHintSeed_def by (auto simp: rbind_Inr_conv rmap_Inr_conv dest!: execute_mutants_inv dest: execute_inv)

lemma mutate_once_inv: "mutate_once ops p corpus f = (q, f') \<Longrightarrow> P f' = P f"
  by (auto simp: mutate_once_def split: prod.splits)

lemma smashInput_inv:
  assumes "smashInput ops pc item f = Inr f'" "P f"
  shows "P f'"
proof -
  from assms(1) obtain f1 p f2 where
    1: "(if f_faultInjectionEnabled f \<and> ws_call item \<noteq> - 1 then failCall ops pc (ws_p item) (ws_call item) f else Inr f) = Inr f1"
    and 2: "(if f_comparisonTracingEnabled f1 \<and> ws_call item \<noteq> - 1 then executeHintSeed ops pc (ws_p item) (ws_call item) f1
             else Inr (ws_p item, f1)) = Inr (p, f2)"
    and 3: "rfold (\<lambda>i f. case mutate_once ops p (corpusSnapshot f2) f of (q, f') \<Rightarrow> rmap snd (execute ops (pc_execOpts pc) q ProgNormal StatSmash f')) [0..<100] f2 = Inr f'"
    unfolding smashInput_def Let_def by (auto simp: rbind_Inr_conv split del: if_split)
  have "P f1" using 1 assms(2) by (auto simp: failCall_def dest: fail_loop_inv split: if_splits)
  then have "P f2" using 2 by (auto dest: executeHintSeed_inv split: if_splits)
  with 3 show ?thesis
    by (rule rfold_inv) (auto simp: rmap_Inr_conv dest: execute_inv mutate_once_inv split: prod.splits)
qed

lemma loop_item_inv: "loop_item ops pc txt item f = Inr (s, f') \<Longrightarrow> P f \<Longrightarrow> P f'"
  by (cases item) (auto simp: loop_item_def rmap_Inr_conv intro: triageInput_inv execute_inv dependency_inv dependencyBoot_inv smashInput_inv)

lemma loop_P: "loop_fuzz ops pc n i f = Inr (s, f') \<Longrightarrow> P f \<Longrightarrow> P f'"
  by (auto simp: mutate_once_inv [OF prod.collapse [symmetric]] loop_fuzz_def Let_def rmap_Inr_conv rbind_Inr_conv case_prod_unfold split: if_splits elim!: execute_inv)

lemma loop_turn_inv:
  "loop_turn ops pc txt n i f = Inr f' \<Longrightarrow> P f \<Longrightarrow> P f'"
  by (auto simp: loop_turn_def rbind_Inr_conv rmap_Inr_conv split: prod.splits option.splits
      dest: loop_item_inv loop_P dependency_inv)

section \<open>Polling\<close>

lemma add_candidate_inv: "add_candidate ops c f = Inr f' \<Longrightarrow> P f \<Longrightarrow> P f'"
  by (auto simp: add_candidate_def Let_def rmap_Inr_conv split: option.splits)

lemma poll_inv:
  assumes "poll ops need stats r f = Inr (b, f')" "P f"
  shows "P f'"
proof -
  obtain sign f1 where g: "grabNewSignal f = (sign, f1)" by (cases "grabNewSignal f")
  from assms(1) g obtain m f3 where m: "sig_Deserialize (po_MaxSignal r) = Inr m"
    and 3: "rfold (addInputFromAnotherFuzzer ops) (po_NewInputs r) (addMaxSignal m (send (ManagerPoll need (sig_Serialize sign) stats) f1)) = Inr f3"
    and 4: "rfold (add_candidate ops) (po_Candidates r) f3 = Inr f'"
    by (auto simp: poll_def Let_def rbind_Inr_conv)
  have "P (addMaxSignal m (send (ManagerPoll need (sig_Serialize sign) stats) f1))"
    using grabNewSignal_keeps [OF g assms(2)] sig_Deserialize_wfm [OF m] by (simp add: addMaxSignal_keeps)
  with 3 have "P f3" by (rule rfold_inv) (rule addInputFromAnotherFuzzer_inv)
  with 4 show ?thesis by (rule rfold_inv) (rule add_candidate_inv)
qed

lemma take_tasks_inv: "take_tasks r f = Inr f' \<Longrightarrow> P f \<Longrightarrow> P f'"
  by (auto simp: take_tasks_def rmap_Inr_conv split: if_splits)

lemma fold_send_inv: "P (fold (\<lambda>(s, n). send (m s n)) xs f) = P f"
  by (induction xs arbitrary: f) (auto split: prod.split)

lemma poll_turn_inv:
  assumes "poll_turn ops r f = Inr f'" "P f"
  shows "P f'"
proof -
  from assms(1) obtain need stats b f1 f3 f4 where
    1: "poll ops need stats (re_poll r) (f\<lparr>f_stats := (\<lambda>_. 0)\<rparr>) = Inr (b, f1)"
    and 3: "take_tasks (fst (re_tasks r)) (fold (\<lambda>(s, n). send (SendStatMsg (FuzzingStat_of (Stat_value s + 1)) n)) stats f1) = Inr f3"
    and 4: "take_tasks (snd (re_tasks r)) f3 = Inr f4" and 5: "P f' = P f4"
    unfolding poll_turn_def Let_def by (auto simp: rbind_Inr_conv)
  have "P f1" using poll_inv [OF 1] assms(2) by simp
  then have "P f3" using take_tasks_inv [OF 3] by (simp add: fold_send_inv)
  then show ?thesis using take_tasks_inv [OF 4] 5 by simp
qed

end

section \<open>The turns are runs of the statements\<close>

interpretation turns: signal_property "alone ops g loc f\<^sub>0" ops for ops :: "('c, 'w) Ops" and g loc f\<^sub>0
proof unfold_locales
  fix f f' :: "('c, 'w) Fuzzer" and p sign sig r and s :: Signal and info
  assume from0: "alone ops g loc f\<^sub>0 f"
  show "alone ops g loc f\<^sub>0 f'" if "same_signals f f'"
    using from0 that by (rule alone_elsewhere)
  show "alone ops g loc f\<^sub>0 f'" if "addInputToCorpus p sign sig f = Inr f'" "wfm sign"
    using alone_call [OF from0 _ addInputToCorpus_runs [OF that(1)]] that(2) by simp
  show "alone ops g loc f\<^sub>0 (addMaxSignal sign f)" if "wfm sign"
    using alone_call [OF from0 _ addMaxSignal_runs] that by simp
  show "alone ops g loc f\<^sub>0 f'" if "grabNewSignal f = (s, f')"
    using alone_call [OF from0 _ grabNewSignal_runs [OF that]] by simp
  show "alone ops g loc f\<^sub>0 f'" if "checkNewSignal ops p (Some info) f = Inr (r, f')"
    using alone_call [OF from0 _ checkNewSignal_runs] that by (cases r) auto
qed

text \<open>
  A turn of a proc and a turn of the poll loop, run by one goroutine while the others stand
  still, get the shared state to where the statements of \<open>Fuzzer_Locks\<close> can get it.
\<close>

lemma loop_turn_runs: "loop_turn ops pc txt n i f = Inr f' \<Longrightarrow> alone ops g loc f f'"
  using turns.loop_turn_inv alone_refl by blast

lemma poll_turn_runs: "poll_turn ops r f = Inr f' \<Longrightarrow> alone ops g loc f f'"
  using turns.poll_turn_inv alone_refl by blast

text \<open>A program with a new signal is triaged, and then the manager hands over the input of another fuzzer.\<close>

definition ex_start :: "(string, unit) Fuzzer" where
  "ex_start = ex_fuzzer\<lparr>f_workQueue := (f_workQueue ex_fuzzer)\<lparr>wq_triage := [\<lparr>wt_p = \<lparr>pr_Calls = [''c''], pr_Comments = []\<rparr>, wt_call = 0,
     wt_info = \<lparr>ci_Flags = 0, ci_Signal = [5], ci_Cover = [], ci_Comps = None, ci_Errno = 0\<rparr>, wt_flags = 0\<rparr>]\<rparr>\<rparr>"

definition ex_run_ops :: "(string, unit) Ops" where
  "ex_run_ops = ex_sig_ops\<lparr>o_Deserialize := (\<lambda>data. Some \<lparr>pr_Calls = [data], pr_Comments = []\<rparr>)\<rparr>"

definition ex_replies :: poll_replies where
  "ex_replies = \<lparr>re_poll = \<lparr>po_Candidates = [], po_NewInputs = [\<lparr>ri_Call = ''d'', ri_Prog = ''d'',
       ri_Signal = \<lparr>Elems = [9], Prios = [1]\<rparr>, ri_Cover = []\<rparr>], po_MaxSignal = \<lparr>Elems = [], Prios = []\<rparr>\<rparr>,
     re_tasks = ((TaskKind_Normal, []), (TaskKind_Normal, [])),
     re_dependency = \<lparr>dd_Input = None, dd_UncoveredAddress = None, dd_WriteAddress = None, dd_OtherInput = None\<rparr>, re_need = 0\<rparr>"

lemma ex_run:
  "case rbind (loop_turn ex_run_ops ex_proc [] 100 1 ex_start) (poll_turn ex_run_ops ex_replies) of
     Inr f \<Rightarrow> length (f_corpus f) = 2 \<and> Some 0 \<le> level (f_corpusSignal f) 5 | Inl _ \<Rightarrow> False"
  by code_simp

lemma ex_run_reached:
  "\<exists>f. alone ex_run_ops 0 (\<lambda>_. Ret Nothing) ex_start f \<and> length (f_corpus f) = 2 \<and> Some 0 \<le> level (f_corpusSignal f) 5"
proof -
  obtain f1 f where f: "loop_turn ex_run_ops ex_proc [] 100 1 ex_start = Inr f1" "poll_turn ex_run_ops ex_replies f1 = Inr f"
    "length (f_corpus f) = 2" "Some 0 \<le> level (f_corpusSignal f) 5"
    using ex_run by (auto simp: rbind_def split: sum.splits)
  have "alone ex_run_ops 0 (\<lambda>_. Ret Nothing) ex_start f"
    using turns.poll_turn_inv [OF f(2) loop_turn_runs [OF f(1)]] .
  then show ?thesis using f(3,4) by blast
qed

end
