(* ===== verification/Gate.thy ===== *)
theory Gate
  imports Go_Prelude Step_System
begin

text \<open>
  The gate of \<open>pkg/ipc/gate.go\<close>, which every execution of the fuzzer passes
  (\<open>executeRaw\<close>): it limits how many activities run at once and how far they may run
  ahead of the oldest one, and calls a function after each batch, when nothing runs.

  \<open>Enter\<close> and \<open>Leave\<close> hold the lock of a condition variable except while they wait on it.
  A goroutine therefore moves in steps from one wait to the next, and the gate with its
  goroutines is a step relation over them. A broadcast turns every goroutine that waits into
  one that checks its condition again.
\<close>

section \<open>The code\<close>

text \<open>\<open>g_f\<close> says whether the function is given; \<open>g_calls\<close> counts its calls.\<close>

record Gate =
  g_busy :: "bool list"
  g_pos :: nat
  g_running :: int
  g_stop :: bool
  g_f :: bool
  g_calls :: nat

definition NewGate :: "nat \<Rightarrow> bool \<Rightarrow> Gate" where
  "NewGate c f = \<lparr>g_busy = replicate c False, g_pos = 0, g_running = 0, g_stop = False, g_f = f, g_calls = 0\<rparr>"

text \<open>\<open>Enter\<close> from the check of its loop: it waits (\<open>None\<close>) or returns a ticket.\<close>

definition Enter_try :: "Gate \<Rightarrow> (nat option \<times> Gate) res" where
  "Enter_try g =
    rbind (go_nth (g_busy g) (int (g_pos g))) (\<lambda>busy.
    if busy \<or> g_stop g then Inr (None, g)
    else
      let idx = g_pos g;
          g1 = g\<lparr>g_pos := (if idx + 1 \<ge> length (g_busy g) then 0 else idx + 1),
                 g_busy := (g_busy g)[idx := True], g_running := g_running g + 1\<rparr>
      in if g_running g1 > int (length (g_busy g1)) then Inl (Panic ''broken gate'') else Inr (Some idx, g1))"

text \<open>\<open>Leave\<close> ends, with or without a broadcast, or waits.\<close>

datatype leaving = Left bool | LeaveWaits

definition Leave_signal :: "nat \<Rightarrow> Gate \<Rightarrow> bool" where
  "Leave_signal idx g \<longleftrightarrow> idx = g_pos g \<and> \<not> g_stop g \<or> g_running g = 0 \<and> g_stop g"

text \<open>The inner loop of \<open>Leave\<close> and what follows; the broadcast after \<open>f\<close> comes first.\<close>

definition Leave_loop :: "Gate \<Rightarrow> leaving \<times> Gate" where
  "Leave_loop g =
    (if g_running g \<noteq> 0 then (LeaveWaits, g)
     else (Left True, g\<lparr>g_stop := False, g_calls := Suc (g_calls g)\<rparr>))"

definition Leave_start :: "nat \<Rightarrow> Gate \<Rightarrow> (leaving \<times> Gate) res" where
  "Leave_start idx g =
    rbind (go_nth (g_busy g) (int idx)) (\<lambda>busy.
    if \<not> busy then Inl (Panic ''broken gate'')
    else
      let g1 = g\<lparr>g_busy := (g_busy g)[idx := False], g_running := g_running g - 1\<rparr> in
      if g_running g1 < 0 then Inl (Panic ''broken gate'')
      else if idx = 0 \<and> g_f g1 then
        if g_stop g1 then Inl (Panic ''broken gate'') else Inr (Leave_loop (g1\<lparr>g_stop := True\<rparr>))
      else Inr (Left (Leave_signal idx g1), g1))"

section \<open>Goroutines\<close>

text \<open>
  Where a goroutine is: outside, before the check of \<open>Enter\<close>, asleep in \<open>Enter\<close>, inside
  with a ticket, before the check of the loop of \<open>Leave\<close>, or asleep there. The number of the
  entry is kept with the ticket to speak about the window.
\<close>

datatype place = Outside | Entering | EnterAsleep | Inside nat nat | Leaving | LeaveAsleep

primrec wake :: "place \<Rightarrow> place" where
  "wake Outside = Outside"
| "wake Entering = Entering"
| "wake EnterAsleep = Entering"
| "wake (Inside i e) = Inside i e"
| "wake Leaving = Leaving"
| "wake LeaveAsleep = Leaving"

definition broadcast :: "bool \<Rightarrow> place list \<Rightarrow> place list" where
  "broadcast b ps = (if b then map wake ps else ps)"

record gated =
  gs_gate :: Gate
  gs_places :: "place list"
  gs_entered :: nat

fun after_leave :: "nat \<Rightarrow> leaving \<Rightarrow> place list \<Rightarrow> place list" where
  "after_leave t (Left b) ps = (broadcast b ps)[t := Outside]"
| "after_leave t LeaveWaits ps = ps[t := LeaveAsleep]"

inductive gate_step :: "gated \<Rightarrow> gated \<Rightarrow> bool" where
  call_Enter: "t < length (gs_places s) \<Longrightarrow> gs_places s ! t = Outside \<Longrightarrow>
    gate_step s (s\<lparr>gs_places := (gs_places s)[t := Entering]\<rparr>)"
| sleep_Enter: "t < length (gs_places s) \<Longrightarrow> gs_places s ! t = Entering \<Longrightarrow> Enter_try (gs_gate s) = Inr (None, g) \<Longrightarrow>
    gate_step s (s\<lparr>gs_gate := g, gs_places := (gs_places s)[t := EnterAsleep]\<rparr>)"
| return_Enter: "t < length (gs_places s) \<Longrightarrow> gs_places s ! t = Entering \<Longrightarrow> Enter_try (gs_gate s) = Inr (Some i, g) \<Longrightarrow>
    gate_step s \<lparr>gs_gate = g, gs_places = (gs_places s)[t := Inside i (gs_entered s)], gs_entered = Suc (gs_entered s)\<rparr>"
| call_Leave: "t < length (gs_places s) \<Longrightarrow> gs_places s ! t = Inside i e \<Longrightarrow> Leave_start i (gs_gate s) = Inr (r, g) \<Longrightarrow>
    gate_step s (s\<lparr>gs_gate := g, gs_places := after_leave t r (gs_places s)\<rparr>)"
| resume_Leave: "t < length (gs_places s) \<Longrightarrow> gs_places s ! t = Leaving \<Longrightarrow> Leave_loop (gs_gate s) = (r, g) \<Longrightarrow>
    gate_step s (s\<lparr>gs_gate := g, gs_places := after_leave t r (gs_places s)\<rparr>)"

inductive_cases gate_stepE: "gate_step s s'"

definition gate_start :: "nat \<Rightarrow> bool \<Rightarrow> nat \<Rightarrow> gated" where
  "gate_start c f n = \<lparr>gs_gate = NewGate c f, gs_places = replicate n Outside, gs_entered = 0\<rparr>"

abbreviation gate_reachable :: "nat \<Rightarrow> bool \<Rightarrow> nat \<Rightarrow> gated \<Rightarrow> bool" where
  "gate_reachable c f n \<equiv> gate_step\<^sup>*\<^sup>* (gate_start c f n)"

section \<open>Counting\<close>

definition cnt :: "('a \<Rightarrow> bool) \<Rightarrow> 'a list \<Rightarrow> int" where
  "cnt P xs = int (length (filter P xs))"

lemma cnt_bounds [simp]: "0 \<le> cnt P xs" "cnt P xs \<le> int (length xs)"
  by (simp_all add: cnt_def)

lemma cnt_update [simp]: "t < length xs \<Longrightarrow> cnt P (xs[t := y]) = cnt P xs - of_bool (P (xs ! t)) + of_bool (P y)"
proof (induction xs arbitrary: t)
  case (Cons x xs)
  then show ?case by (cases t) (fastforce simp: cnt_def)+
qed simp

lemma cnt_zero: "cnt P xs = 0 \<longleftrightarrow> (\<forall>x \<in> set xs. \<not> P x)"
  by (simp add: cnt_def filter_empty_conv)

lemma cnt_pos: "t < length xs \<Longrightarrow> P (xs ! t) \<Longrightarrow> 0 < cnt P xs"
  by (auto simp: cnt_def filter_empty_conv)

lemma cnt_less: "t < length xs \<Longrightarrow> \<not> P (xs ! t) \<Longrightarrow> cnt P xs < int (length xs)"
  by (simp add: cnt_def) (meson length_filter_less nth_mem)

primrec inside :: "place \<Rightarrow> bool" where
  "inside Outside = False"
| "inside Entering = False"
| "inside EnterAsleep = False"
| "inside (Inside i e) = True"
| "inside Leaving = False"
| "inside LeaveAsleep = False"

primrec inside_at :: "nat \<Rightarrow> place \<Rightarrow> bool" where
  "inside_at k Outside = False"
| "inside_at k Entering = False"
| "inside_at k EnterAsleep = False"
| "inside_at k (Inside i e) = (i = k)"
| "inside_at k Leaving = False"
| "inside_at k LeaveAsleep = False"

definition leaver :: "place \<Rightarrow> bool" where
  "leaver p \<longleftrightarrow> p = Leaving \<or> p = LeaveAsleep"

lemma leaver_simps [simp]:
  "leaver Leaving" "leaver LeaveAsleep" "\<not> leaver Outside" "\<not> leaver Entering" "\<not> leaver EnterAsleep" "\<not> leaver (Inside i e)"
  by (simp_all add: leaver_def)

lemma wake_keeps [simp]: "inside (wake p) = inside p" "inside_at i (wake p) = inside_at i p" "leaver (wake p) = leaver p"
  by (cases p; simp)+

lemma wake_not_asleep [simp]: "wake p \<noteq> EnterAsleep" "wake p \<noteq> LeaveAsleep" "wake p = Inside i e \<longleftrightarrow> p = Inside i e"
  by (cases p; simp)+

lemma broadcast_simps [simp]: "length (broadcast b ps) = length ps"
  "cnt inside (broadcast b ps) = cnt inside ps" "cnt (inside_at i) (broadcast b ps) = cnt (inside_at i) ps"
  "cnt leaver (broadcast b ps) = cnt leaver ps"
  by (simp_all add: broadcast_def cnt_def filter_map comp_def)

lemma broadcast_nth [simp]: "t < length ps \<Longrightarrow> inside (broadcast b ps ! t) = inside (ps ! t)"
  "t < length ps \<Longrightarrow> inside_at i (broadcast b ps ! t) = inside_at i (ps ! t)" "t < length ps \<Longrightarrow> leaver (broadcast b ps ! t) = leaver (ps ! t)"
  by (simp_all add: broadcast_def)

lemma broadcast_Inside: "Inside i e \<in> set (broadcast b ps) \<longleftrightarrow> Inside i e \<in> set ps"
proof (cases b)
  case True
  have "(Inside i e = wake p) = (p = Inside i e)" for p by (metis wake_not_asleep(3))
  then show ?thesis using True by (auto simp: broadcast_def image_iff)
qed (simp add: broadcast_def)

lemma broadcast_asleep: "p \<in> {EnterAsleep, LeaveAsleep} \<Longrightarrow> p \<in> set (broadcast b ps) \<longleftrightarrow> \<not> b \<and> p \<in> set ps"
  by (auto simp: broadcast_def image_iff dest: sym)

section \<open>The invariant\<close>

definition tickets_inv :: "nat \<Rightarrow> gated \<Rightarrow> bool" where
  "tickets_inv c s \<longleftrightarrow> 0 < c \<and> length (g_busy (gs_gate s)) = c \<and> g_pos (gs_gate s) = gs_entered s mod c
     \<and> g_running (gs_gate s) = cnt inside (gs_places s) \<and> g_running (gs_gate s) = cnt id (g_busy (gs_gate s))
     \<and> (\<forall>i < c. cnt (inside_at i) (gs_places s) = of_bool (g_busy (gs_gate s) ! i))"

definition window_inv :: "nat \<Rightarrow> gated \<Rightarrow> bool" where
  "window_inv c s \<longleftrightarrow> (\<forall>i e. Inside i e \<in> set (gs_places s) \<longrightarrow> i = e mod c \<and> e < gs_entered s \<and> gs_entered s \<le> e + c)"

definition stop_inv :: "gated \<Rightarrow> bool" where
  "stop_inv s \<longleftrightarrow> cnt leaver (gs_places s) = of_bool (g_stop (gs_gate s))
     \<and> (g_stop (gs_gate s) \<longrightarrow> \<not> g_busy (gs_gate s) ! 0)"

definition wake_inv :: "gated \<Rightarrow> bool" where
  "wake_inv s \<longleftrightarrow> (LeaveAsleep \<in> set (gs_places s) \<longrightarrow> g_running (gs_gate s) \<noteq> 0)
     \<and> (EnterAsleep \<in> set (gs_places s) \<longrightarrow> g_busy (gs_gate s) ! g_pos (gs_gate s) \<or> g_stop (gs_gate s))"

definition gate_inv :: "nat \<Rightarrow> gated \<Rightarrow> bool" where
  "gate_inv c s \<longleftrightarrow> tickets_inv c s \<and> window_inv c s \<and> stop_inv s \<and> wake_inv s"

lemma gate_inv_start: "0 < c \<Longrightarrow> gate_inv c (gate_start c f n)"
  by (simp add: gate_inv_def tickets_inv_def window_inv_def stop_inv_def wake_inv_def gate_start_def NewGate_def cnt_def)

text \<open>What a check of \<open>Enter\<close> does, in terms of the invariant.\<close>

lemma Enter_try_conv:
  assumes "tickets_inv c s"
  shows "Enter_try (gs_gate s) =
    (let g = gs_gate s in
     if g_busy g ! g_pos g \<or> g_stop g then Inr (None, g)
     else Inr (Some (g_pos g), g\<lparr>g_pos := Suc (gs_entered s) mod c, g_busy := (g_busy g)[g_pos g := True], g_running := g_running g + 1\<rparr>))"
proof -
  let ?g = "gs_gate s"
  have pos: "g_pos ?g < length (g_busy ?g)" and len: "length (g_busy ?g) = c" using assms by (auto simp: tickets_inv_def)
  have "Suc (gs_entered s) mod c = (if Suc (gs_entered s mod c) \<ge> c then 0 else Suc (gs_entered s mod c))"
    using assms mod_less_divisor [of c "gs_entered s"] by (auto simp: tickets_inv_def mod_Suc simp del: mod_less_divisor)
  moreover have "g_busy ?g ! g_pos ?g \<or> g_running ?g + 1 \<le> int c"
  proof (cases "g_busy ?g ! g_pos ?g")
    case False
    then have "cnt id (g_busy ?g) < int c" using cnt_less [of "g_pos ?g" "g_busy ?g" id] pos len by simp
    then show ?thesis using assms by (simp add: tickets_inv_def)
  qed simp
  ultimately show ?thesis
    using pos len assms by (auto simp: Enter_try_def Let_def tickets_inv_def)
qed

lemma Leave_start_conv:
  assumes inv: "gate_inv c s" and t: "t < length (gs_places s)" "gs_places s ! t = Inside i e"
  shows "i < c \<and> g_busy (gs_gate s) ! i \<and>
    (let g = (gs_gate s)\<lparr>g_busy := (g_busy (gs_gate s))[i := False], g_running := g_running (gs_gate s) - 1\<rparr> in
     Leave_start i (gs_gate s) =
       Inr (if i = 0 \<and> g_f g then Leave_loop (g\<lparr>g_stop := True\<rparr>) else (Left (Leave_signal i g), g)) \<and>
       0 \<le> g_running g \<and> (i = 0 \<longrightarrow> \<not> g_stop g))"
proof -
  have "Inside i e \<in> set (gs_places s)" using t by (metis nth_mem)
  then have "i = e mod c" "0 < c" using inv by (auto simp: gate_inv_def window_inv_def tickets_inv_def)
  then have i: "i < c" by simp
  have "0 < cnt (inside_at i) (gs_places s)" using t by (intro cnt_pos) auto
  then have busy: "g_busy (gs_gate s) ! i" using i inv by (auto simp: gate_inv_def tickets_inv_def)
  have "0 < cnt inside (gs_places s)" using t by (intro cnt_pos) auto
  then have "0 \<le> g_running (gs_gate s) - 1" using inv by (simp add: gate_inv_def tickets_inv_def)
  moreover have "i = 0 \<longrightarrow> \<not> g_stop (gs_gate s)" using busy inv by (auto simp: gate_inv_def stop_inv_def)
  ultimately show ?thesis
    using i busy inv by (auto simp: Leave_start_def Let_def gate_inv_def tickets_inv_def)
qed

section \<open>Every step keeps it\<close>

lemma set_update_elem: "x \<in> set (xs[t := y]) \<Longrightarrow> x = y \<or> x \<in> set xs"
  using set_update_subset_insert by fastforce

lemma quiet_update:
  assumes "gate_inv c s" "t < length (gs_places s)" "\<not> inside (gs_places s ! t)" "\<not> inside q" "leaver q = leaver (gs_places s ! t)"
    and "q \<noteq> LeaveAsleep" "q = EnterAsleep \<Longrightarrow> g_busy (gs_gate s) ! g_pos (gs_gate s) \<or> g_stop (gs_gate s)"
  shows "gate_inv c (s\<lparr>gs_places := (gs_places s)[t := q]\<rparr>)"
proof -
  have "\<not> inside_at i (gs_places s ! t)" "\<not> inside_at i q" for i
    using assms(3,4) by (cases "gs_places s ! t"; cases q; simp)+
  then show ?thesis
    using assms unfolding gate_inv_def tickets_inv_def window_inv_def stop_inv_def wake_inv_def
    by (auto dest!: set_update_elem)
qed

lemma return_Enter_inv:
  assumes inv: "gate_inv c s" and t: "t < length (gs_places s)" "gs_places s ! t = Entering"
    and e: "Enter_try (gs_gate s) = Inr (Some i, g)"
  shows "gate_inv c \<lparr>gs_gate = g, gs_places = (gs_places s)[t := Inside i (gs_entered s)], gs_entered = Suc (gs_entered s)\<rparr>"
proof -
  let ?g = "gs_gate s" and ?ps = "gs_places s"
  have tk: "tickets_inv c s" using inv by (simp add: gate_inv_def)
  have free: "\<not> g_busy ?g ! g_pos ?g" "\<not> g_stop ?g" and i: "i = g_pos ?g"
    and g: "g = ?g\<lparr>g_pos := Suc (gs_entered s) mod c, g_busy := (g_busy ?g)[g_pos ?g := True], g_running := g_running ?g + 1\<rparr>"
    using e unfolding Enter_try_conv [OF tk] by (auto simp: Let_def split: if_splits)
  have pos: "g_pos ?g = gs_entered s mod c" "g_pos ?g < c" "0 < c" "length (g_busy ?g) = c" using tk by (auto simp: tickets_inv_def)
  have "gs_entered s < e + c" if ke: "Inside k e \<in> set ?ps" for k e
  proof (rule ccontr)
    assume "\<not> gs_entered s < e + c"
    moreover have "gs_entered s \<le> e + c" "k = e mod c" using ke inv by (auto simp: gate_inv_def window_inv_def)
    ultimately have "gs_entered s = e + c" "k = e mod c" by simp_all
    then have "k = g_pos ?g" using pos by simp
    moreover obtain u where "u < length ?ps" "?ps ! u = Inside k e" using ke by (auto simp: in_set_conv_nth)
    ultimately have "0 < cnt (inside_at (g_pos ?g)) ?ps" by (intro cnt_pos [of u]) auto
    with tk free pos show False by (auto simp: tickets_inv_def)
  qed
  then have "k = e mod c \<and> e < Suc (gs_entered s) \<and> Suc (gs_entered s) \<le> e + c" if "Inside k e \<in> set ?ps" for k e
    using that inv by (fastforce simp: gate_inv_def window_inv_def)
  then have "window_inv c \<lparr>gs_gate = g, gs_places = ?ps[t := Inside i (gs_entered s)], gs_entered = Suc (gs_entered s)\<rparr>"
    using pos i Suc_leI [OF pos(3)] by (fastforce simp: window_inv_def dest!: set_update_elem)
  moreover have "EnterAsleep \<notin> set ?ps" "cnt leaver ?ps = 0" using inv free by (auto simp: gate_inv_def wake_inv_def stop_inv_def)
  ultimately show ?thesis
    using inv t free pos i g unfolding gate_inv_def tickets_inv_def stop_inv_def wake_inv_def cnt_zero
    by (auto simp: nth_list_update dest!: set_update_elem)
qed

lemma release_tickets:
  assumes "tickets_inv c s" "window_inv c s" "t < length (gs_places s)" "gs_places s ! t = Inside i e" "i < c"
    and "g_busy (gs_gate s) ! i" "\<not> inside q"
    and g: "g_busy g = (g_busy (gs_gate s))[i := False]" "g_running g = g_running (gs_gate s) - 1" "g_pos g = g_pos (gs_gate s)"
  shows "tickets_inv c (s\<lparr>gs_gate := g, gs_places := (broadcast b (gs_places s))[t := q]\<rparr>)"
    "window_inv c (s\<lparr>gs_gate := g, gs_places := (broadcast b (gs_places s))[t := q]\<rparr>)"
proof -
  have "\<not> inside_at k q" "q \<noteq> Inside k e'" for k e' using assms(7) by (cases q; simp)+
  then show "tickets_inv c (s\<lparr>gs_gate := g, gs_places := (broadcast b (gs_places s))[t := q]\<rparr>)"
    "window_inv c (s\<lparr>gs_gate := g, gs_places := (broadcast b (gs_places s))[t := q]\<rparr>)"
    using assms by (auto simp: tickets_inv_def window_inv_def nth_list_update broadcast_Inside dest!: set_update_elem)
qed

lemma call_Leave_inv:
  assumes inv: "gate_inv c s" and t: "t < length (gs_places s)" "gs_places s ! t = Inside i e"
    and l: "Leave_start i (gs_gate s) = Inr (r, g)"
  shows "gate_inv c (s\<lparr>gs_gate := g, gs_places := after_leave t r (gs_places s)\<rparr>)"
proof -
  let ?g = "gs_gate s" and ?ps = "gs_places s"
  let ?g1 = "?g\<lparr>g_busy := (g_busy ?g)[i := False], g_running := g_running ?g - 1\<rparr>"
  have i: "i < c" "g_busy ?g ! i" and zero: "i = 0 \<longrightarrow> \<not> g_stop ?g"
    and rg: "(r, g) = (if i = 0 \<and> g_f ?g then Leave_loop (?g1\<lparr>g_stop := True\<rparr>) else (Left (Leave_signal i ?g1), ?g1))"
    using Leave_start_conv [OF inv t] l by (auto simp: Let_def)
  have tk: "tickets_inv c s" "window_inv c s" and si: "stop_inv s" and wi: "wake_inv s" using inv by (simp_all add: gate_inv_def)
  have len: "length (g_busy ?g) = c" "0 < c" using tk by (auto simp: tickets_inv_def)
  have asleep: "LeaveAsleep \<in> set ?ps \<longrightarrow> g_stop ?g"
    using si cnt_zero [of leaver ?ps] by (auto simp: stop_inv_def)
  note rel = release_tickets [OF tk t i]
  show ?thesis
  proof (cases "i = 0 \<and> g_f ?g")
    case True
    then have ns: "\<not> g_stop ?g" "cnt leaver ?ps = 0" using zero si by (auto simp: stop_inv_def)
    then have "LeaveAsleep \<notin> set ?ps" by (auto simp: cnt_zero)
    then show ?thesis
      using True rg t len ns i si wi rel [of LeaveAsleep g False] rel [of Outside g True]
      by (auto simp: Leave_loop_def gate_inv_def stop_inv_def wake_inv_def broadcast_def [of False] broadcast_asleep
          dest!: set_update_elem split: if_splits)
  next
    case False
    then have r: "r = Left (Leave_signal i ?g1)" and g: "g = ?g1" using rg by (auto split: if_splits)
    have "\<not> inside Outside" by simp
    with rel [of Outside g "Leave_signal i ?g1"] g have
      "tickets_inv c (s\<lparr>gs_gate := g, gs_places := after_leave t r ?ps\<rparr>)" "window_inv c (s\<lparr>gs_gate := g, gs_places := after_leave t r ?ps\<rparr>)"
      by (auto simp: r)
    moreover have "stop_inv (s\<lparr>gs_gate := g, gs_places := after_leave t r ?ps\<rparr>)"
      using si t g i len by (auto simp: stop_inv_def r nth_list_update)
    moreover have "wake_inv (s\<lparr>gs_gate := g, gs_places := after_leave t r ?ps\<rparr>)"
      using wi asleep g i len by (auto simp: wake_inv_def r Leave_signal_def broadcast_asleep nth_list_update dest!: set_update_elem)
    ultimately show ?thesis by (simp add: gate_inv_def)
  qed
qed

lemma resume_Leave_inv:
  assumes inv: "gate_inv c s" and t: "t < length (gs_places s)" "gs_places s ! t = Leaving"
    and l: "Leave_loop (gs_gate s) = (r, g)"
  shows "gate_inv c (s\<lparr>gs_gate := g, gs_places := after_leave t r (gs_places s)\<rparr>)"
proof -
  let ?g = "gs_gate s" and ?ps = "gs_places s"
  have "0 < cnt leaver ?ps" using t by (intro cnt_pos) auto
  then have stop: "g_stop ?g" "cnt leaver ?ps = 1" using inv by (auto simp: gate_inv_def stop_inv_def)
  have "\<not> inside_at k (?ps ! t)" for k using t by simp
  then show ?thesis
    using inv t l stop
    by (auto simp: Leave_loop_def gate_inv_def tickets_inv_def window_inv_def stop_inv_def wake_inv_def broadcast_Inside broadcast_asleep
        dest!: set_update_elem split: if_splits)
qed

lemma gate_step_inv: "gate_step s s' \<Longrightarrow> gate_inv c s \<Longrightarrow> gate_inv c s'"
proof (induction rule: gate_step.induct)
  case (call_Enter t s)
  then show ?case by (intro quiet_update) auto
next
  case (sleep_Enter t s g)
  then have "g = gs_gate s" "g_busy (gs_gate s) ! g_pos (gs_gate s) \<or> g_stop (gs_gate s)"
    using Enter_try_conv [of c s] by (auto simp: gate_inv_def Let_def split: if_splits)
  then show ?case using sleep_Enter quiet_update [of c s t EnterAsleep] by simp
qed (blast intro: return_Enter_inv call_Leave_inv resume_Leave_inv)+

definition gate_starts :: "nat \<Rightarrow> gated \<Rightarrow> bool" where
  "gate_starts c s \<longleftrightarrow> 0 < c \<and> (\<exists>f n. s = gate_start c f n)"

interpretation gate: step_system "gate_starts c" gate_step "gate_inv c" for c
  by unfold_locales (auto simp: gate_starts_def intro: gate_inv_start gate_step_inv)

lemma gate_reachable_inv: "gate_reachable c f n s \<Longrightarrow> 0 < c \<Longrightarrow> gate_inv c s"
  by (rule gate.run_inv) (auto simp: gate_starts_def)

section \<open>What the gate promises\<close>

text \<open>
  C25: in every state the goroutines reach, those inside are as many as \<open>running\<close> says and at
  most \<open>c\<close>, no two of them have the same ticket, and none of them is more than \<open>c\<close> entries
  old: an old activity keeps new ones out.
\<close>

theorem gate_limits:
  assumes "gate_reachable c f n s" "0 < c"
  shows "g_running (gs_gate s) = int (length (filter inside (gs_places s))) \<and> g_running (gs_gate s) \<le> int c
    \<and> (\<forall>i < c. length (filter (inside_at i) (gs_places s)) \<le> 1)
    \<and> (\<forall>i e. Inside i e \<in> set (gs_places s) \<longrightarrow> i < c \<and> e < gs_entered s \<and> gs_entered s \<le> e + c)"
proof -
  have inv: "gate_inv c s" using gate_reachable_inv assms by blast
  then have "cnt id (g_busy (gs_gate s)) \<le> int c" using cnt_bounds(2) [of id "g_busy (gs_gate s)"] by (simp add: gate_inv_def tickets_inv_def)
  moreover have "cnt (inside_at i) (gs_places s) \<le> 1" if "i < c" for i using inv that by (simp add: gate_inv_def tickets_inv_def)
  moreover have "i < c" if "Inside i e \<in> set (gs_places s)" for i e
    using inv that assms(2) by (auto simp: gate_inv_def window_inv_def simp del: mod_less_divisor intro!: mod_less_divisor)
  ultimately show ?thesis using inv by (auto simp: gate_inv_def tickets_inv_def window_inv_def cnt_def)
qed

text \<open>
  The gate never breaks. Whatever the goroutines do, \<open>Enter\<close> and \<open>Leave\<close> return or wait
  instead of panicking.
\<close>

lemma gate_never_breaks:
  assumes "gate_reachable c f n s" "0 < c"
  shows "(\<exists>r. Enter_try (gs_gate s) = Inr r) \<and> (\<forall>i e. Inside i e \<in> set (gs_places s) \<longrightarrow> (\<exists>r. Leave_start i (gs_gate s) = Inr r))"
proof -
  have inv: "gate_inv c s" using gate_reachable_inv assms by blast
  then have "\<exists>r. Enter_try (gs_gate s) = Inr r" using Enter_try_conv [of c s] by (simp add: gate_inv_def Let_def)
  moreover have "\<exists>r. Leave_start i (gs_gate s) = Inr r" if "Inside i e \<in> set (gs_places s)" for i e
    using Leave_start_conv [OF inv, of _ i e] that unfolding Let_def in_set_conv_nth by blast
  ultimately show ?thesis by blast
qed

lemma Leave_start_calls: "Leave_start i g = Inr (r, g') \<Longrightarrow> g_calls g' \<noteq> g_calls g \<Longrightarrow> g_running g' = 0"
  by (auto simp: Leave_start_def Let_def Leave_loop_def rbind_Inr_conv split: if_splits)

lemma Enter_try_calls: "Enter_try g = Inr (r, g') \<Longrightarrow> g_calls g' = g_calls g"
  by (auto simp: Enter_try_def Let_def rbind_Inr_conv split: if_splits)

text \<open>The function given to the gate is called only when no goroutine is inside.\<close>

lemma gate_batch_alone:
  assumes "gate_reachable c f n s" "0 < c" "gate_step s s'" "g_calls (gs_gate s') \<noteq> g_calls (gs_gate s)"
  shows "\<forall>p \<in> set (gs_places s'). \<not> inside p"
proof -
  from assms(3,4) have "g_running (gs_gate s') = 0"
    by (cases rule: gate_step.cases) (auto simp: Leave_loop_def dest: Leave_start_calls Enter_try_calls split: if_splits)
  moreover have "gate_inv c s'" using gate_step_inv gate_reachable_inv assms by blast
  ultimately have "cnt inside (gs_places s') = 0" by (simp add: gate_inv_def tickets_inv_def)
  then show ?thesis by (simp add: cnt_zero)
qed

text \<open>
  No wake-up is lost: when nobody is inside or at the end of \<open>Leave\<close>, nobody sleeps and the
  next ticket is free.
\<close>

lemma gate_no_lost_wakeup:
  assumes inv: "gate_inv c s" and none: "cnt inside (gs_places s) = 0" "Leaving \<notin> set (gs_places s)"
  shows "EnterAsleep \<notin> set (gs_places s) \<and> LeaveAsleep \<notin> set (gs_places s)
    \<and> \<not> g_busy (gs_gate s) ! g_pos (gs_gate s) \<and> \<not> g_stop (gs_gate s)"
proof -
  from none inv have run: "g_running (gs_gate s) = 0" and idle: "cnt id (g_busy (gs_gate s)) = 0"
    by (simp_all add: gate_inv_def tickets_inv_def)
  from run inv have nl: "LeaveAsleep \<notin> set (gs_places s)" by (auto simp: gate_inv_def wake_inv_def)
  with none have "cnt leaver (gs_places s) = 0" by (auto simp: cnt_zero leaver_def)
  with inv have "\<not> g_stop (gs_gate s)" by (simp add: gate_inv_def stop_inv_def)
  moreover have "g_pos (gs_gate s) < length (g_busy (gs_gate s))" using inv by (simp add: gate_inv_def tickets_inv_def)
  with idle have "\<not> g_busy (gs_gate s) ! g_pos (gs_gate s)" using nth_mem by (fastforce simp: cnt_zero)
  ultimately show ?thesis using inv nl by (auto simp: gate_inv_def wake_inv_def)
qed

text \<open>As long as somebody is inside or at the end of \<open>Leave\<close>, one of them can go on towards the exit.\<close>

definition wants_in :: "place \<Rightarrow> bool" where
  "wants_in p \<longleftrightarrow> p = EnterAsleep \<or> p = Entering"

definition drain_size :: "gated \<Rightarrow> nat" where
  "drain_size s = nat (2 * cnt inside (gs_places s) + cnt leaver (gs_places s))"

lemma drain_size_less:
  "2 * cnt inside (gs_places s') + cnt leaver (gs_places s') < 2 * cnt inside (gs_places s) + cnt leaver (gs_places s) \<Longrightarrow>
   drain_size s' < drain_size s"
  using cnt_bounds(1) [of inside "gs_places s'"] cnt_bounds(1) [of leaver "gs_places s'"] unfolding drain_size_def by linarith

lemma after_leave_keeps:
  assumes "wants_in (ps ! t)" "u \<noteq> t" "t < length ps"
  shows "wants_in (after_leave u r ps ! t) \<and> length (after_leave u r ps) = length ps"
  using assms by (cases r) (auto simp: wants_in_def broadcast_def)

lemma drain_step:
  assumes inv: "gate_inv c s" and t: "t < length (gs_places s)" "wants_in (gs_places s ! t)"
    and busy: "\<not> (cnt inside (gs_places s) = 0 \<and> Leaving \<notin> set (gs_places s))"
  shows "\<exists>s'. gate_step s s' \<and> drain_size s' < drain_size s \<and> t < length (gs_places s') \<and> wants_in (gs_places s' ! t)"
proof (cases "cnt inside (gs_places s) = 0")
  case False
  then obtain u where u: "u < length (gs_places s)" "inside (gs_places s ! u)" by (auto simp: cnt_zero in_set_conv_nth)
  then obtain i e where ie: "gs_places s ! u = Inside i e" by (cases "gs_places s ! u") auto
  with Leave_start_conv [OF inv u(1) ie] obtain r g where l: "Leave_start i (gs_gate s) = Inr (r, g)" by (metis surj_pair)
  let ?s = "s\<lparr>gs_gate := g, gs_places := after_leave u r (gs_places s)\<rparr>"
  have "gate_step s ?s" using u(1) ie l by (rule call_Leave)
  moreover have "drain_size ?s < drain_size s" using u(1) ie by (intro drain_size_less, cases r) simp_all
  moreover have "u \<noteq> t" using t(2) ie by (auto simp: wants_in_def)
  ultimately show ?thesis using after_leave_keeps t by (intro exI [of _ ?s]) simp
next
  case True
  with busy obtain u where u: "u < length (gs_places s)" "gs_places s ! u = Leaving" by (auto simp: in_set_conv_nth)
  have "g_running (gs_gate s) = 0" using True inv by (simp add: gate_inv_def tickets_inv_def)
  then obtain g where l: "Leave_loop (gs_gate s) = (Left True, g)" by (simp add: Leave_loop_def)
  let ?s = "s\<lparr>gs_gate := g, gs_places := after_leave u (Left True) (gs_places s)\<rparr>"
  have "gate_step s ?s" using u l by (rule resume_Leave)
  moreover have "drain_size ?s < drain_size s" using u by (intro drain_size_less) simp_all
  moreover have "u \<noteq> t" using t(2) u by (auto simp: wants_in_def)
  ultimately show ?thesis using after_leave_keeps [of "gs_places s" t u "Left True"] t by (intro exI [of _ ?s]) simp
qed

interpretation drain: step_progress "gate_starts c" gate_step "gate_inv c"
    "\<lambda>s. t < length (gs_places s) \<and> wants_in (gs_places s ! t)"
    "\<lambda>s. cnt inside (gs_places s) = 0 \<and> Leaving \<notin> set (gs_places s)" drain_size for c t
  by unfold_locales (use drain_step in blast)

text \<open>
  C24: a goroutine that waits to enter can always get in: from every state the goroutines reach,
  some continuation lets it return from \<open>Enter\<close>. In particular no wake-up is lost and the
  goroutines never block each other for good.
\<close>

theorem gate_lets_in:
  assumes "gate_reachable c f n s" "0 < c" "t < length (gs_places s)" "gs_places s ! t = EnterAsleep \<or> gs_places s ! t = Entering"
  shows "\<exists>s'. gate_step\<^sup>*\<^sup>* s s' \<and> inside (gs_places s' ! t)"
proof -
  have "gate_inv c s" using gate_reachable_inv assms(1,2) by blast
  then obtain s' where s': "gate_step\<^sup>*\<^sup>* s s'" "gate_inv c s'" "t < length (gs_places s')" "wants_in (gs_places s' ! t)"
    and none: "cnt inside (gs_places s') = 0" "Leaving \<notin> set (gs_places s')"
    using drain.run_to_goal [of c s t] assms(3,4) unfolding wants_in_def by meson
  from gate_no_lost_wakeup [OF s'(2) none] have "gs_places s' ! t \<noteq> EnterAsleep" using s'(3) by (metis nth_mem)
  then have "gs_places s' ! t = Entering" using s'(4) by (simp add: wants_in_def)
  moreover obtain g i where "Enter_try (gs_gate s') = Inr (Some i, g)"
    using Enter_try_conv [of c s'] s'(2) gate_no_lost_wakeup [OF s'(2) none] by (auto simp: gate_inv_def Let_def)
  ultimately have "gate_step s' \<lparr>gs_gate = g, gs_places = (gs_places s')[t := Inside i (gs_entered s')], gs_entered = Suc (gs_entered s')\<rparr>"
    using s'(3) by (intro return_Enter)
  with s'(1) have "gate_step\<^sup>*\<^sup>* s \<lparr>gs_gate = g, gs_places = (gs_places s')[t := Inside i (gs_entered s')], gs_entered = Suc (gs_entered s')\<rparr>"
    by (rule rtranclp.rtrancl_into_rtrancl)
  then show ?thesis using s'(3) by force
qed

section \<open>An example\<close>

text \<open>Two goroutines at a gate for one: the first is inside, the second sleeps; then the first leaves.\<close>

definition ex_gate :: "bool \<Rightarrow> nat \<Rightarrow> Gate" where
  "ex_gate b n = \<lparr>g_busy = [b], g_pos = 0, g_running = of_bool b, g_stop = False, g_f = True, g_calls = n\<rparr>"

definition ex_full :: gated where
  "ex_full = \<lparr>gs_gate = ex_gate True 0, gs_places = [Inside 0 0, EnterAsleep], gs_entered = 1\<rparr>"

definition ex_left :: gated where
  "ex_left = \<lparr>gs_gate = ex_gate False 1, gs_places = [Outside, Entering], gs_entered = 1\<rparr>"

lemma ex_full_reachable: "gate_reachable 1 True 2 ex_full"
proof -
  have "gate_step (gate_start 1 True 2) \<lparr>gs_gate = ex_gate False 0, gs_places = [Entering, Outside], gs_entered = 0\<rparr>"
    using call_Enter [of 0 "gate_start 1 True 2"] by (simp add: gate_start_def NewGate_def ex_gate_def eval_nat_numeral)
  moreover have "gate_step \<lparr>gs_gate = ex_gate False 0, gs_places = [Entering, Outside], gs_entered = 0\<rparr>
      \<lparr>gs_gate = ex_gate True 0, gs_places = [Inside 0 0, Outside], gs_entered = 1\<rparr>"
    using return_Enter [of 0 "\<lparr>gs_gate = ex_gate False 0, gs_places = [Entering, Outside], gs_entered = 0\<rparr>" 0 "ex_gate True 0"]
    by (simp add: Enter_try_def ex_gate_def go_nth_def)
  moreover have "gate_step \<lparr>gs_gate = ex_gate True 0, gs_places = [Inside 0 0, Outside], gs_entered = 1\<rparr>
      \<lparr>gs_gate = ex_gate True 0, gs_places = [Inside 0 0, Entering], gs_entered = 1\<rparr>"
    using call_Enter [of 1 "\<lparr>gs_gate = ex_gate True 0, gs_places = [Inside 0 0, Outside], gs_entered = 1\<rparr>"] by simp
  moreover have "gate_step \<lparr>gs_gate = ex_gate True 0, gs_places = [Inside 0 0, Entering], gs_entered = 1\<rparr> ex_full"
    using sleep_Enter [of 1 "\<lparr>gs_gate = ex_gate True 0, gs_places = [Inside 0 0, Entering], gs_entered = 1\<rparr>" "ex_gate True 0"]
    by (simp add: Enter_try_def ex_gate_def go_nth_def ex_full_def)
  ultimately show ?thesis by (meson converse_rtranclp_into_rtranclp r_into_rtranclp)
qed

lemma ex_full_left: "gate_step ex_full ex_left"
  using call_Leave [of 0 ex_full 0 0 "Left True" "ex_gate False 1"]
  by (simp add: ex_full_def ex_left_def ex_gate_def Leave_start_def Leave_loop_def go_nth_def broadcast_def)

theorem gate_limits_witness:
  "gate_reachable 1 True 2 ex_full \<and> g_running (gs_gate ex_full) \<le> 1 \<and> length (filter (inside_at 0) (gs_places ex_full)) \<le> 1"
  using gate_limits [OF ex_full_reachable] ex_full_reachable by simp

lemma gate_batch_alone_witness:
  "gate_reachable 1 True 2 ex_full \<and> gate_step ex_full ex_left \<and> g_calls (gs_gate ex_left) = 1
     \<and> \<not> inside (gs_places ex_left ! 0) \<and> \<not> inside (gs_places ex_left ! 1)"
  using gate_batch_alone [OF ex_full_reachable _ ex_full_left] ex_full_reachable ex_full_left
  by (simp add: ex_full_def ex_left_def ex_gate_def)

theorem gate_lets_in_witness:
  "gate_reachable 1 True 2 ex_full \<and> gs_places ex_full ! 1 = EnterAsleep \<and> (\<exists>s. gate_step\<^sup>*\<^sup>* ex_full s \<and> inside (gs_places s ! 1))"
  using gate_lets_in [OF ex_full_reachable, of 1] ex_full_reachable by (simp add: ex_full_def)

end
