(* ===== verification/Mem_Alloc.thy ===== *)
theory Mem_Alloc
  imports Go_Prelude
begin

text \<open>
  Where the objects of a program go in memory (\<open>prog/alloc.go\<close>).

  \<open>memAlloc\<close> is a two-level bitmap with a bit per granule of 64 bytes. Its first level is an
  array of 64 pointers to blocks of 64 words (the block \<open>buf\<close> is reached through the first
  pointer only). \<open>granules\<close> is the set of granules marked as used; the operations are shown
  to be those of this set, and \<open>alloc\<close> to find the first gap, or to forget everything and
  start anew.

  \<open>vmaAlloc\<close> keeps the pages in use; its random choices are an argument.
\<close>

section \<open>The bitmap\<close>

record memAlloc =
  ma_size :: uint64
  ma_mem :: "uint64 list option list"

definition memAllocGranule :: uint64 where "memAllocGranule = 64"
definition memAllocMaxMem :: uint64 where "memAllocMaxMem = 16777216"
definition memAllocL0Size :: uint64 where "memAllocL0Size = 64"
definition bitsPerUint64 :: uint64 where "bitsPerUint64 = 64"
definition memAllocL0Mem :: uint64 where "memAllocL0Mem = memAllocL0Size * memAllocGranule * bitsPerUint64"
definition memAllocL1Size :: uint64 where "memAllocL1Size = memAllocMaxMem div memAllocL0Mem"

definition newMemAlloc :: "uint64 \<Rightarrow> memAlloc res" where
  "newMemAlloc totalMemSize =
    (if memAllocMaxMem < totalMemSize then Inl (Panic ''newMemAlloc: too much mem'')
     else if totalMemSize mod memAllocL0Mem \<noteq> 0 then Inl (Panic ''newMemAlloc: unaligned size'')
     else Inr \<lparr>ma_size = totalMemSize div memAllocGranule,
       ma_mem = (replicate (unat memAllocL1Size) None)[0 := Some (replicate (unat memAllocL0Size) 0)]\<rparr>)"

definition ma_pos :: "uint64 \<Rightarrow> uint64 \<times> uint64 \<times> uint64" where
  "ma_pos idx =
    (let r1 = idx mod (memAllocL0Size * bitsPerUint64)
     in (idx div (memAllocL0Size * bitsPerUint64), r1 div bitsPerUint64, push_bit (unat (r1 mod bitsPerUint64)) 1))"

definition ma_set :: "uint64 \<Rightarrow> memAlloc \<Rightarrow> memAlloc res" where
  "ma_set idx ma =
    (case ma_pos idx of (i1, i0, b) \<Rightarrow>
     rbind (go_nth (ma_mem ma) (uint i1)) (\<lambda>m.
     let blk = (case m of None \<Rightarrow> replicate (unat memAllocL0Size) 0 | Some blk \<Rightarrow> blk) in
     rbind (go_nth blk (uint i0)) (\<lambda>w.
     Inr (ma\<lparr>ma_mem := (ma_mem ma)[unat i1 := Some (blk[unat i0 := w OR b])]\<rparr>))))"

definition ma_get :: "uint64 \<Rightarrow> memAlloc \<Rightarrow> bool res" where
  "ma_get idx ma =
    (case ma_pos idx of (i1, i0, b) \<Rightarrow>
     rbind (go_nth (ma_mem ma) (uint i1)) (\<lambda>m.
     case m of None \<Rightarrow> Inr False | Some blk \<Rightarrow> rmap (\<lambda>w. w AND b \<noteq> 0) (go_nth blk (uint i0))))"

definition ma_noteAlloc :: "uint64 \<Rightarrow> uint64 \<Rightarrow> memAlloc \<Rightarrow> memAlloc res" where
  "ma_noteAlloc addr0 size0 ma =
    (let addr = addr0 div memAllocGranule;
         size = (addr0 + size0 + memAllocGranule - 1) div memAllocGranule - addr
     in rfold (\<lambda>i. ma_set (addr + of_nat i)) [0..<unat size] ma)"

definition ma_bankruptcy :: "memAlloc \<Rightarrow> memAlloc res" where
  "ma_bankruptcy ma =
    rfold (\<lambda>i1 ma. rmap (\<lambda>m. ma\<lparr>ma_mem := (ma_mem ma)[i1 := map_option (map (\<lambda>_. 0)) m]\<rparr>) (go_nth (ma_mem ma) (int i1)))
      [0..<unat (ma_size ma div (memAllocL0Size * bitsPerUint64))] ma"

text \<open>The two loops of \<open>alloc\<close>: whether a range is free, and the search for the first such range.\<close>

fun range_free :: "memAlloc \<Rightarrow> uint64 \<Rightarrow> nat \<Rightarrow> nat \<Rightarrow> bool res" where
  "range_free ma start i 0 = Inr True"
| "range_free ma start i (Suc n) =
    rbind (ma_get (start + of_nat i) ma) (\<lambda>b. if b then Inr False else range_free ma start (Suc i) n)"

text \<open>
  The last argument counts the values of \<open>start\<close> that are left. With the greatest word as
  \<open>end\<close> the loop of the code would have no end, but it is stopped by an index out of range.
\<close>

fun search_free :: "memAlloc \<Rightarrow> uint64 \<Rightarrow> uint64 \<Rightarrow> nat \<Rightarrow> uint64 option res" where
  "search_free ma sz start 0 = Inr None"
| "search_free ma sz start (Suc n) =
    rbind (range_free ma start 0 (unat sz)) (\<lambda>empty.
    if empty then Inr (Some start) else search_free ma sz (start + 1) n)"

text \<open>\<open>alloc\<close> calls itself after a bankruptcy; the first argument bounds the depth.\<close>

fun ma_alloc :: "nat \<Rightarrow> uint64 \<Rightarrow> memAlloc \<Rightarrow> (uint64 \<times> memAlloc) res option" where
  "ma_alloc 0 size00 ma = None"
| "ma_alloc (Suc n) size00 ma =
    (let size0 = (if size00 = 0 then 1 else size00);
         size = (size0 + memAllocGranule - 1) div memAllocGranule;
         stop = ma_size ma - size
     in case search_free ma size 0 (Suc (unat stop)) of
          Inl e \<Rightarrow> Some (Inl e)
        | Inr (Some start) \<Rightarrow>
            (let start0 = start * memAllocGranule in Some (rmap (\<lambda>ma'. (start0, ma')) (ma_noteAlloc start0 size0 ma)))
        | Inr None \<Rightarrow>
            (case ma_bankruptcy ma of Inl e \<Rightarrow> Some (Inl e) | Inr ma' \<Rightarrow> ma_alloc n size0 ma'))"

section \<open>The bitmap as a set\<close>

definition slot :: "memAlloc \<Rightarrow> nat \<Rightarrow> bool" where
  "slot ma k = (case ma_mem ma ! (k div 4096) of None \<Rightarrow> False | Some blk \<Rightarrow> bit (blk ! (k mod 4096 div 64)) (k mod 64))"

definition granules :: "memAlloc \<Rightarrow> nat set" where
  "granules ma = {k. k < 262144 \<and> slot ma k}"

definition ma_shape :: "memAlloc \<Rightarrow> bool" where
  "ma_shape ma \<longleftrightarrow> length (ma_mem ma) = 64 \<and> (\<forall>i < 64. \<forall>blk. ma_mem ma ! i = Some blk \<longrightarrow> length blk = 64)"

definition ma_wf :: "memAlloc \<Rightarrow> bool" where
  "ma_wf ma \<longleftrightarrow> ma_shape ma
     \<and> unat (ma_size ma) \<le> 262144 \<and> unat (ma_size ma) mod 4096 = 0 \<and> granules ma \<subseteq> {..<unat (ma_size ma)}"

lemmas ma_consts = memAllocGranule_def memAllocMaxMem_def memAllocL0Size_def bitsPerUint64_def memAllocL0Mem_def memAllocL1Size_def

lemma unat_small: "k < 262144 \<Longrightarrow> unat (of_nat k :: uint64) = k"
  by (simp add: unat_of_nat take_bit_nat_eq_self)

lemma ma_pos_conv:
  assumes "k < 262144"
  shows "ma_pos (of_nat k) = (of_nat (k div 4096), of_nat (k mod 4096 div 64), push_bit (k mod 64) 1)"
proof -
  have "(of_nat k :: uint64) div 4096 = of_nat (k div 4096)" "(of_nat k :: uint64) mod 4096 = of_nat (k mod 4096)"
    using assms by (auto simp: word_unat_eq_iff unat_div unat_mod unat_small)
  moreover have "(of_nat (k mod 4096) :: uint64) div 64 = of_nat (k mod 4096 div 64)"
    "unat ((of_nat (k mod 4096) :: uint64) mod 64) = k mod 64"
    using assms by (auto simp: word_unat_eq_iff unat_div unat_mod unat_small mod_mod_cancel)
  ultimately show ?thesis by (simp add: ma_pos_def Let_def ma_consts)
qed

lemma pos_bounds:
  assumes "k < 262144"
  shows "k div 4096 < 64" "k mod 4096 div 64 < 64" "uint (of_nat (k div 4096) :: uint64) = int (k div 4096)"
    "unat (of_nat (k div 4096) :: uint64) = k div 4096" "uint (of_nat (k mod 4096 div 64) :: uint64) = int (k mod 4096 div 64)"
    "unat (of_nat (k mod 4096 div 64) :: uint64) = k mod 4096 div 64"
  using assms by (auto simp: unat_small uint_nat less_mult_imp_div_less)

lemma pos_inject:
  "(j :: nat) = k \<longleftrightarrow> j div 4096 = k div 4096 \<and> j mod 4096 div 64 = k mod 4096 div 64 \<and> j mod 64 = k mod 64"
proof
  assume eq: "j div 4096 = k div 4096 \<and> j mod 4096 div 64 = k mod 4096 div 64 \<and> j mod 64 = k mod 64"
  have "x mod 4096 mod 64 = x mod 64" for x :: nat by (simp add: mod_mod_cancel)
  with eq have "j mod 4096 = k mod 4096" by (metis div_mod_decomp)
  with eq show "j = k" by (metis div_mod_decomp)
qed simp

lemma ma_get_conv:
  assumes "ma_shape ma" "k < 262144"
  shows "ma_get (of_nat k) ma = Inr (k \<in> granules ma)"
proof (cases "ma_mem ma ! (k div 4096)")
  case None
  then show ?thesis using assms pos_bounds [OF assms(2)]
    by (simp add: ma_get_def ma_pos_conv granules_def slot_def ma_shape_def)
next
  case (Some blk)
  with assms have "length blk = 64" using pos_bounds [OF assms(2)] by (auto simp: ma_shape_def)
  then show ?thesis using assms pos_bounds [OF assms(2)] Some
    by (simp add: ma_get_def ma_pos_conv granules_def slot_def ma_shape_def bit_iff_and_push_bit_not_eq_0)
qed

lemma ma_set_conv:
  assumes "ma_shape ma" "k < 262144"
  shows "\<exists>ma'. ma_set (of_nat k) ma = Inr ma' \<and> ma_shape ma' \<and> ma_size ma' = ma_size ma \<and> granules ma' = insert k (granules ma)"
proof -
  note b = pos_bounds [OF assms(2)]
  define blk where "blk = (case ma_mem ma ! (k div 4096) of None \<Rightarrow> replicate (unat memAllocL0Size) 0 | Some blk \<Rightarrow> blk)"
  define ma' where "ma' = ma\<lparr>ma_mem := (ma_mem ma)[k div 4096 := Some (blk[k mod 4096 div 64 := blk ! (k mod 4096 div 64) OR push_bit (k mod 64) 1])]\<rparr>"
  have len: "length blk = 64" "length (ma_mem ma) = 64" using assms b(1) by (auto simp: blk_def ma_consts ma_shape_def split: option.splits)
  have "ma_set (of_nat k) ma = Inr ma'"
    using len b assms(2) by (simp add: ma_set_def ma_pos_conv Let_def ma'_def flip: blk_def)
  moreover have "ma_shape ma'" using assms(1) len b(1) by (auto simp: ma'_def ma_shape_def nth_list_update split: if_splits)
  moreover have old: "slot ma j \<longleftrightarrow> bit (blk ! (j mod 4096 div 64)) (j mod 64)" if "j div 4096 = k div 4096" for j
    using that b(1) pos_bounds(2) [of j] less_mult_imp_div_less [of "j mod 4096" 64 64] by (auto simp: slot_def blk_def ma_consts split: option.splits)
  have "slot ma' j \<longleftrightarrow> j = k \<or> slot ma j" if "j < 262144" for j
  proof (cases "j div 4096 = k div 4096")
    case True
    then show ?thesis
      using old [OF True] len b(1,2) pos_inject [of j k]
      by (auto simp: slot_def ma'_def nth_list_update bit_simps)
  next
    case False
    then have "j \<noteq> k" "slot ma' j = slot ma j" using len b(1) by (auto simp: slot_def ma'_def)
    then show ?thesis by simp
  qed
  then have "granules ma' = insert k (granules ma)" using assms(2) by (auto simp: granules_def)
  ultimately show ?thesis by (auto simp: ma'_def)
qed

section \<open>The operations on the set\<close>

definition fits :: "nat set \<Rightarrow> nat \<Rightarrow> nat \<Rightarrow> bool" where
  "fits A s n \<longleftrightarrow> {s..<s + n} \<inter> A = {}"

lemma newMemAlloc_conv:
  assumes "unat tot \<le> 16777216" "unat tot mod 262144 = 0"
  shows "\<exists>ma. newMemAlloc tot = Inr ma \<and> ma_wf ma \<and> unat (ma_size ma) = unat tot div 64 \<and> granules ma = {}"
proof -
  have le: "\<not> memAllocMaxMem < tot" using assms(1) by (simp add: ma_consts word_less_nat_alt)
  have "tot mod memAllocL0Mem = 0" using assms(2) by (simp add: ma_consts word_unat_eq_iff unat_mod)
  moreover define ma where "ma = \<lparr>ma_size = tot div memAllocGranule, ma_mem = (replicate 64 None)[0 := Some (replicate 64 0)]\<rparr>"
  ultimately have new: "newMemAlloc tot = Inr ma" using le by (simp add: newMemAlloc_def ma_def ma_consts unat_div)
  have mem: "ma_mem ma ! i = (if i = 0 then Some (replicate 64 0) else None)" if "i < 64" for i
    using that by (simp add: ma_def nth_list_update)
  have "\<not> slot ma k" if "k < 262144" for k
    using mem [OF pos_bounds(1) [OF that]] pos_bounds(2) [OF that] by (simp add: slot_def)
  then have empty: "granules ma = {}" by (auto simp: granules_def)
  have sz: "unat (ma_size ma) = unat tot div 64" by (simp add: ma_def ma_consts unat_div)
  moreover have "unat tot div 64 mod 4096 = 0" using assms(2) by (auto simp: mod_eq_0_iff_dvd elim!: dvdE)
  moreover have "ma_shape ma" using mem by (auto simp: ma_shape_def ma_def split: if_splits)
  ultimately have "ma_wf ma" using assms(1) empty by (simp add: ma_wf_def)
  then show ?thesis using new sz empty by blast
qed

lemma range_free_conv:
  assumes "ma_shape ma" "a + i + n \<le> 262144"
  shows "range_free ma (of_nat a) i n = Inr (fits (granules ma) (a + i) n)"
  using assms(2)
proof (induction n arbitrary: i)
  case (Suc n)
  have "ma_get (of_nat a + of_nat i) ma = Inr (a + i \<in> granules ma)"
    using ma_get_conv [OF assms(1), of "a + i"] Suc.prems by simp
  moreover have "fits (granules ma) (a + i) (Suc n) \<longleftrightarrow> a + i \<notin> granules ma \<and> fits (granules ma) (a + Suc i) n"
  proof -
    have "{a + i..<a + i + Suc n} = insert (a + i) {a + Suc i..<a + Suc i + n}" by auto
    then show ?thesis by (simp add: fits_def)
  qed
  ultimately show ?case using Suc.IH [of "Suc i"] Suc.prems by simp
qed (simp add: fits_def)

lemma search_free_conv:
  assumes "ma_shape ma" "a + n + sz \<le> Suc 262144"
  shows "\<exists>r. search_free ma (of_nat sz) (of_nat a) n = Inr r \<and>
    (case r of None \<Rightarrow> \<forall>s \<in> {a..<a + n}. \<not> fits (granules ma) s sz
     | Some w \<Rightarrow> \<exists>s. w = of_nat s \<and> a \<le> s \<and> s < a + n \<and> fits (granules ma) s sz \<and> (\<forall>s' \<in> {a..<s}. \<not> fits (granules ma) s' sz))"
  using assms(2)
proof (induction n arbitrary: a)
  case (Suc n)
  have "unat (of_nat sz :: uint64) = sz" using Suc.prems by (simp add: unat_of_nat take_bit_nat_eq_self)
  then have free: "range_free ma (of_nat a) 0 (unat (of_nat sz :: uint64)) = Inr (fits (granules ma) a sz)"
    using range_free_conv [OF assms(1), of a 0 sz] Suc.prems by simp
  show ?case
  proof (cases "fits (granules ma) a sz")
    case True
    then show ?thesis using free by auto
  next
    case False
    obtain r where r: "search_free ma (of_nat sz) (of_nat (Suc a)) n = Inr r" and
      c: "case r of None \<Rightarrow> \<forall>s \<in> {Suc a..<Suc a + n}. \<not> fits (granules ma) s sz
         | Some w \<Rightarrow> \<exists>s. w = of_nat s \<and> Suc a \<le> s \<and> s < Suc a + n \<and> fits (granules ma) s sz \<and> (\<forall>s' \<in> {Suc a..<s}. \<not> fits (granules ma) s' sz)"
      using Suc.IH [of "Suc a"] Suc.prems by auto
    have step: "P a \<Longrightarrow> \<forall>s \<in> {Suc a..<m}. P s \<Longrightarrow> \<forall>s \<in> {a..<m}. P s" for P m by (metis Suc_le_eq atLeastLessThan_iff le_eq_less_or_eq)
    have "search_free ma (of_nat sz) (of_nat a) (Suc n) = Inr r" using free False r by (simp add: add.commute)
    then show ?thesis using c False step [of "\<lambda>s. \<not> fits (granules ma) s sz"] by (fastforce split: option.splits)
  qed
qed simp

lemma set_range_conv:
  assumes "ma_shape ma" "a + n \<le> 262144"
  shows "\<exists>ma'. rfold (\<lambda>i. ma_set (of_nat a + of_nat i)) [0..<n] ma = Inr ma' \<and> ma_shape ma' \<and> ma_size ma' = ma_size ma
    \<and> granules ma' = granules ma \<union> {a..<a + n}"
  using assms(2)
proof (induction n)
  case (Suc n)
  then obtain ma1 where ma1: "rfold (\<lambda>i. ma_set (of_nat a + of_nat i)) [0..<n] ma = Inr ma1" "ma_shape ma1" "ma_size ma1 = ma_size ma"
    "granules ma1 = granules ma \<union> {a..<a + n}" by auto
  from ma_set_conv [OF ma1(2), of "a + n"] Suc.prems obtain ma2 where
    "ma_set (of_nat a + of_nat n) ma1 = Inr ma2" "ma_shape ma2" "ma_size ma2 = ma_size ma1" "granules ma2 = insert (a + n) (granules ma1)"
    by auto
  then show ?case using ma1 by (auto simp: rfold_append)
qed (use assms in simp)

lemma ma_noteAlloc_conv:
  assumes "ma_shape ma" "a + n \<le> 16777216"
  shows "\<exists>ma'. ma_noteAlloc (of_nat a) (of_nat n) ma = Inr ma' \<and> ma_shape ma' \<and> ma_size ma' = ma_size ma
    \<and> granules ma' = granules ma \<union> {a div 64..<(a + n + 63) div 64}"
proof -
  have small: "unat (of_nat k :: uint64) = k" if "k \<le> 16777279" for k using that by (simp add: unat_of_nat take_bit_nat_eq_self)
  have up: "(of_nat a + of_nat n + memAllocGranule - 1 :: uint64) = of_nat (a + n + 63)" by (simp add: ma_consts)
  have quot: "(of_nat k :: uint64) div memAllocGranule = of_nat (k div 64)" if "k \<le> 16777279" for k
    using that by (simp add: word_unat_eq_iff unat_div small ma_consts)
  have "(of_nat a :: uint64) div memAllocGranule = of_nat (a div 64)"
    "(of_nat a + of_nat n + memAllocGranule - 1 :: uint64) div memAllocGranule = of_nat ((a + n + 63) div 64)"
    unfolding up using assms(2) by (simp_all only: quot)
  moreover have le: "a div 64 \<le> (a + n + 63) div 64" by (simp add: div_le_mono)
  then have "unat ((of_nat ((a + n + 63) div 64) :: uint64) - of_nat (a div 64)) = (a + n + 63) div 64 - a div 64"
    using assms(2) by (simp add: unat_sub word_le_nat_alt small)
  ultimately show ?thesis
    using set_range_conv [OF assms(1), of "a div 64" "(a + n + 63) div 64 - a div 64"] assms(2) le by (simp add: ma_noteAlloc_def Let_def)
qed

lemma clear_blocks:
  assumes "ma_shape ma" "n \<le> 64"
  shows "\<exists>ma'. rfold (\<lambda>i1 ma. rmap (\<lambda>m. ma\<lparr>ma_mem := (ma_mem ma)[i1 := map_option (map (\<lambda>_. 0)) m]\<rparr>) (go_nth (ma_mem ma) (int i1))) [0..<n] ma = Inr ma'
    \<and> ma_shape ma' \<and> ma_size ma' = ma_size ma \<and> (\<forall>i < 64. ma_mem ma' ! i = (if i < n then map_option (map (\<lambda>_. 0)) (ma_mem ma ! i) else ma_mem ma ! i))"
  using assms(2)
proof (induction n)
  case (Suc n)
  then obtain ma1 where ma1: "rfold (\<lambda>i1 ma. rmap (\<lambda>m. ma\<lparr>ma_mem := (ma_mem ma)[i1 := map_option (map (\<lambda>_. 0)) m]\<rparr>) (go_nth (ma_mem ma) (int i1))) [0..<n] ma = Inr ma1"
    "ma_shape ma1" "ma_size ma1 = ma_size ma" "\<forall>i < 64. ma_mem ma1 ! i = (if i < n then map_option (map (\<lambda>_. 0)) (ma_mem ma ! i) else ma_mem ma ! i)"
    by auto
  let ?ma = "ma1\<lparr>ma_mem := (ma_mem ma1)[n := map_option (map (\<lambda>_. 0)) (ma_mem ma1 ! n)]\<rparr>"
  have "n < 64" using Suc.prems by simp
  then have "ma_mem ma1 ! n = Some blk \<Longrightarrow> length blk = 64" for blk using ma1(2) unfolding ma_shape_def by blast
  then have "ma_shape ?ma" using ma1(2) Suc.prems by (auto simp: ma_shape_def nth_list_update)
  moreover have "\<forall>i < 64. ma_mem ?ma ! i = (if i < Suc n then map_option (map (\<lambda>_. 0)) (ma_mem ma ! i) else ma_mem ma ! i)"
    using ma1(2,4) Suc.prems by (auto simp: nth_list_update ma_shape_def)
  ultimately show ?case using ma1 Suc.prems by (auto simp: rfold_append ma_shape_def)
qed (use assms in simp)

lemma ma_bankruptcy_conv:
  assumes "ma_wf ma"
  shows "\<exists>ma'. ma_bankruptcy ma = Inr ma' \<and> ma_wf ma' \<and> ma_size ma' = ma_size ma \<and> granules ma' = {}"
proof -
  let ?n = "unat (ma_size ma) div 4096"
  have wf: "ma_shape ma" "?n \<le> 64" "unat (ma_size ma) = 4096 * ?n" using assms by (auto simp: ma_wf_def)
  have "unat (ma_size ma div (memAllocL0Size * bitsPerUint64)) = ?n" by (simp add: ma_consts unat_div)
  then obtain ma' where ma': "ma_bankruptcy ma = Inr ma'" "ma_shape ma'" "ma_size ma' = ma_size ma"
    and mem: "\<forall>i < 64. ma_mem ma' ! i = (if i < ?n then map_option (map (\<lambda>_. 0)) (ma_mem ma ! i) else ma_mem ma ! i)"
    using clear_blocks [OF wf(1,2)] by (auto simp: ma_bankruptcy_def)
  have "\<not> slot ma' k" if k: "k < 262144" for k
  proof (cases "k div 4096 < ?n")
    case True
    have "length blk = 64" if "ma_mem ma ! (k div 4096) = Some blk" for blk using wf(1) that pos_bounds(1) [OF k] by (auto simp: ma_shape_def)
    then show ?thesis using True mem pos_bounds(1,2) [OF k] by (auto simp: slot_def split: option.splits)
  next
    case False
    then have "\<not> k < unat (ma_size ma)" using wf(3) by (metis div_less_iff_less_mult mult.commute zero_less_numeral)
    then have "k \<notin> granules ma" using assms by (auto simp: ma_wf_def)
    moreover have "slot ma' k = slot ma k" using False mem pos_bounds(1) [OF k] by (simp add: slot_def)
    ultimately show ?thesis using k by (simp add: granules_def)
  qed
  then have "granules ma' = {}" by (auto simp: granules_def)
  then show ?thesis using ma' assms by (simp add: ma_wf_def)
qed

section \<open>Allocation\<close>

text \<open>Numbers of granules of an object, at least one.\<close>

definition granules_of :: "uint64 \<Rightarrow> nat" where
  "granules_of size0 = (max 1 (unat size0) + 63) div 64"

lemma alloc_one:
  assumes wf: "ma_wf ma" and fit: "unat size0 \<le> 64 * unat (ma_size ma)" and s0: "size0 \<noteq> 0"
  shows "(\<exists>s ma'. ma_alloc (Suc n) size0 ma = Some (Inr (of_nat (64 * s), ma')) \<and> s + granules_of size0 \<le> unat (ma_size ma)
      \<and> fits (granules ma) s (granules_of size0) \<and> (\<forall>s' < s. \<not> fits (granules ma) s' (granules_of size0))
      \<and> ma_wf ma' \<and> ma_size ma' = ma_size ma \<and> granules ma' = granules ma \<union> {s..<s + granules_of size0})
    \<or> (\<forall>s. s + granules_of size0 \<le> unat (ma_size ma) \<longrightarrow> \<not> fits (granules ma) s (granules_of size0))
      \<and> (\<exists>ma'. ma_bankruptcy ma = Inr ma' \<and> ma_alloc (Suc n) size0 ma = ma_alloc n size0 ma')"
proof -
  define k where "k = granules_of size0"
  have pos: "0 < unat size0" using s0 by (simp add: unat_gt_0)
  have bound: "unat (ma_size ma) \<le> 262144" "ma_shape ma" using wf by (simp_all add: ma_wf_def)
  have up: "unat (size0 + memAllocGranule - 1) = unat size0 + 63"
  proof -
    have "unat size0 + 63 < 2 ^ 64" using fit bound by simp
    moreover have "size0 + memAllocGranule - 1 = of_nat (unat size0 + 63)" by (simp add: ma_consts)
    ultimately show ?thesis by (simp only: unat_of_nat) (simp add: take_bit_nat_eq_self)
  qed
  have k: "k = (unat size0 + 63) div 64" "1 \<le> k" "k \<le> unat (ma_size ma)" using pos fit by (auto simp: k_def granules_of_def)
  have sz: "(size0 + memAllocGranule - 1) div memAllocGranule = of_nat k"
    using up k bound by (simp add: word_unat_eq_iff unat_div unat_of_nat take_bit_nat_eq_self) (simp add: ma_consts)
  have stop: "unat (ma_size ma - of_nat k) = unat (ma_size ma) - k"
    using k bound by (simp add: unat_sub word_le_nat_alt unat_of_nat take_bit_nat_eq_self)
  obtain r where r: "search_free ma (of_nat k) (of_nat 0) (Suc (unat (ma_size ma) - k)) = Inr r"
    and c: "case r of None \<Rightarrow> \<forall>s \<in> {0..<0 + Suc (unat (ma_size ma) - k)}. \<not> fits (granules ma) s k
     | Some w \<Rightarrow> \<exists>s. w = of_nat s \<and> 0 \<le> s \<and> s < 0 + Suc (unat (ma_size ma) - k) \<and> fits (granules ma) s k \<and> (\<forall>s' \<in> {0..<s}. \<not> fits (granules ma) s' k)"
    using search_free_conv [OF bound(2), of 0 "Suc (unat (ma_size ma) - k)" k] k bound by auto
  show ?thesis
  proof (cases r)
    case None
    obtain ma' where b: "ma_bankruptcy ma = Inr ma'" using ma_bankruptcy_conv [OF wf] by blast
    have "ma_alloc (Suc n) size0 ma = ma_alloc n size0 ma'"
      using r None s0 sz stop b by (simp add: Let_def del: search_free.simps)
    moreover have "\<forall>s. s + k \<le> unat (ma_size ma) \<longrightarrow> \<not> fits (granules ma) s k"
    proof (intro allI impI)
      fix s assume "s + k \<le> unat (ma_size ma)"
      then have "s \<in> {0..<0 + Suc (unat (ma_size ma) - k)}" by auto
      then show "\<not> fits (granules ma) s k" using c None by simp
    qed
    ultimately show ?thesis using b unfolding k_def by blast
  next
    case (Some w)
    with c obtain s where s: "w = of_nat s" "s \<le> unat (ma_size ma) - k" "fits (granules ma) s k" "\<forall>s' < s. \<not> fits (granules ma) s' k" by auto
    have sk: "s + k \<le> unat (ma_size ma)" using s(2) k by simp
    have top: "(64 * s + unat size0 + 63) div 64 = s + k" using k by (simp add: add.assoc)
    have "64 * s + unat size0 \<le> 64 * (s + k)" using k(1) by simp
    moreover have "64 * (s + k) \<le> 64 * 262144" using sk bound(1) by (intro mult_le_mono2) simp
    ultimately have "64 * s + unat size0 \<le> 16777216" by simp
    from ma_noteAlloc_conv [OF bound(2) this] obtain ma' where
      ma': "ma_noteAlloc (of_nat (64 * s)) size0 ma = Inr ma'" "ma_shape ma'" "ma_size ma' = ma_size ma" "granules ma' = granules ma \<union> {s..<s + k}"
      unfolding top by auto
    then have "ma_wf ma'" using wf sk by (auto simp: ma_wf_def)
    moreover have "ma_alloc (Suc n) size0 ma = Some (Inr (of_nat (64 * s), ma'))"
      using r Some s0 sz stop s(1) ma'(1) by (simp add: Let_def mult.commute del: search_free.simps) (simp add: ma_consts mult.commute)
    ultimately show ?thesis using s sk ma' unfolding k_def by blast
  qed
qed

lemma alloc_zero: "ma_alloc (Suc n) 0 ma = ma_alloc (Suc n) 1 ma"
  by (simp add: Let_def del: search_free.simps)

lemma alloc_two:
  assumes wf: "ma_wf ma" and fit: "unat size0 \<le> 64 * unat (ma_size ma)" and s0: "size0 \<noteq> 0"
  shows "\<exists>s ma'. ma_alloc (Suc (Suc n)) size0 ma = Some (Inr (of_nat (64 * s), ma')) \<and> ma_wf ma' \<and> ma_size ma' = ma_size ma
    \<and> s + granules_of size0 \<le> unat (ma_size ma)
    \<and> (if \<exists>s. s + granules_of size0 \<le> unat (ma_size ma) \<and> fits (granules ma) s (granules_of size0)
       then fits (granules ma) s (granules_of size0) \<and> (\<forall>s' < s. \<not> fits (granules ma) s' (granules_of size0))
         \<and> granules ma' = granules ma \<union> {s..<s + granules_of size0}
       else s = 0 \<and> granules ma' = {0..<granules_of size0})"
  using alloc_one [OF assms, of "Suc n"]
proof (elim disjE exE conjE)
  fix s ma'
  assume "ma_alloc (Suc (Suc n)) size0 ma = Some (Inr (of_nat (64 * s), ma'))" "s + granules_of size0 \<le> unat (ma_size ma)"
    "fits (granules ma) s (granules_of size0)" "\<forall>s' < s. \<not> fits (granules ma) s' (granules_of size0)"
    "ma_wf ma'" "ma_size ma' = ma_size ma" "granules ma' = granules ma \<union> {s..<s + granules_of size0}"
  then show ?thesis by (intro exI [of _ s] exI [of _ ma']) auto
next
  fix ma1
  assume none: "\<forall>s. s + granules_of size0 \<le> unat (ma_size ma) \<longrightarrow> \<not> fits (granules ma) s (granules_of size0)"
    and b: "ma_bankruptcy ma = Inr ma1" and eq: "ma_alloc (Suc (Suc n)) size0 ma = ma_alloc (Suc n) size0 ma1"
  then have ma1: "ma_wf ma1" "ma_size ma1 = ma_size ma" "granules ma1 = {}" using ma_bankruptcy_conv [OF wf] by auto
  have all: "fits {} s k" for s k by (simp add: fits_def)
  have "unat size0 \<le> 64 * unat (ma_size ma1)" using fit ma1(2) by simp
  note one = alloc_one [OF ma1(1) this s0, of n, unfolded ma1(2,3)]
  have "0 < unat size0" using s0 by (simp add: unat_gt_0)
  then have "0 + granules_of size0 \<le> unat (ma_size ma)" using fit by (auto simp: granules_of_def)
  then have "\<not> (\<forall>s. s + granules_of size0 \<le> unat (ma_size ma) \<longrightarrow> \<not> fits {} s (granules_of size0))" using all by blast
  with one obtain s ma' where r: "ma_alloc (Suc n) size0 ma1 = Some (Inr (of_nat (64 * s), ma'))"
    "s + granules_of size0 \<le> unat (ma_size ma)" "\<forall>s' < s. \<not> fits {} s' (granules_of size0)" "ma_wf ma'" "ma_size ma' = ma_size ma"
    "granules ma' = {} \<union> {s..<s + granules_of size0}" by blast
  from r(3) all have "s = 0" by blast
  with r none eq show ?thesis by (intro exI [of _ s] exI [of _ ma']) (simp del: ma_alloc.simps)
qed

text \<open>
  C26: \<open>alloc\<close> of an object that fits the memory returns after at most one bankruptcy, within
  the memory, and keeps the bitmap well formed. If a gap is large enough it takes the first
  one, which nothing in use overlaps, and marks exactly its granules; otherwise it forgets
  everything and starts again at address 0.
\<close>

theorem ma_alloc_first_fit:
  assumes "ma_wf ma" "max 1 (unat size0) \<le> 64 * unat (ma_size ma)"
  shows "\<exists>s ma'. ma_alloc 2 size0 ma = Some (Inr (of_nat (64 * s), ma')) \<and> ma_wf ma' \<and> ma_size ma' = ma_size ma
    \<and> s + granules_of size0 \<le> unat (ma_size ma)
    \<and> (if \<exists>s. s + granules_of size0 \<le> unat (ma_size ma) \<and> fits (granules ma) s (granules_of size0)
       then fits (granules ma) s (granules_of size0) \<and> (\<forall>s' < s. \<not> fits (granules ma) s' (granules_of size0))
         \<and> granules ma' = granules ma \<union> {s..<s + granules_of size0}
       else s = 0 \<and> granules ma' = {0..<granules_of size0})"
proof (cases "size0 = 0")
  case True
  have "granules_of 0 = granules_of 1" by (simp add: granules_of_def)
  moreover have "unat (1 :: uint64) \<le> 64 * unat (ma_size ma)" using assms(2) by simp
  ultimately show ?thesis
    using alloc_two [OF assms(1), of 1 0] True alloc_zero [of 1 ma] by (simp only: numeral_2_eq_2) simp
next
  case False
  moreover have fit: "unat size0 \<le> 64 * unat (ma_size ma)" using assms(2) by simp
  ultimately show ?thesis using alloc_two [OF assms(1) fit, of 0] unfolding numeral_2_eq_2 by blast
qed

text \<open>Four mebibytes, where the first 100 bytes are in use: the next object goes behind them.\<close>

definition ex_mem :: memAlloc where
  "ex_mem = \<lparr>ma_size = 65536, ma_mem = Some (3 # replicate 63 0) # replicate 63 None\<rparr>"

lemma ex_mem_wf: "ma_wf ex_mem" and ex_mem_granules: "granules ex_mem = {0, 1}"
proof -
  have mem: "ma_mem ex_mem ! i = (if i = 0 then Some (3 # replicate 63 0) else None)" if "i < 64" for i
    using that by (cases i) (simp_all add: ex_mem_def)
  have three: "bit (3 :: uint64) n \<longleftrightarrow> n = 0 \<or> n = 1" for n
    by (cases n) (auto simp: bit_0 bit_Suc bit_1_iff)
  have "slot ex_mem k \<longleftrightarrow> k = 0 \<or> k = 1" if k: "k < 262144" for k
  proof (cases "k div 4096 = 0 \<and> k mod 4096 div 64 = 0")
    case True
    then have "k < 64" by (metis div_eq_0_iff mod_less zero_neq_numeral)
    then show ?thesis using True mem [of 0] three by (auto simp: slot_def)
  next
    case False
    then have "\<not> slot ex_mem k" using mem [OF pos_bounds(1) [OF k]] pos_bounds(2) [OF k] by (auto simp: slot_def nth_Cons' split: if_splits)
    moreover have "k \<noteq> 0 \<and> k \<noteq> 1" using False by auto
    ultimately show ?thesis by simp
  qed
  then show g: "granules ex_mem = {0, 1}" by (auto simp: granules_def)
  have "ma_shape ex_mem" using mem by (auto simp: ma_shape_def ex_mem_def split: if_splits)
  then show "ma_wf ex_mem" using g by (simp add: ma_wf_def ex_mem_def)
qed

theorem ma_alloc_first_fit_witness:
  "\<exists>ma'. ma_alloc 2 70 ex_mem = Some (Inr (128, ma')) \<and> granules ma' = {0, 1} \<union> {2..<4}"
proof -
  have g: "granules_of 70 = 2" by (simp add: granules_of_def)
  have fit: "fits {0, 1} 2 2" "\<not> fits {0, 1} 0 2" "\<not> fits {0, 1} 1 2" by (auto simp: fits_def)
  have "max 1 (unat (70 :: uint64)) \<le> 64 * unat (ma_size ex_mem)" "unat (ma_size ex_mem) = 65536" by (simp_all add: ex_mem_def)
  moreover from this(2) fit(1) have "\<exists>s. s + 2 \<le> unat (ma_size ex_mem) \<and> fits {0, 1} s 2" by (intro exI [of _ 2]) simp
  ultimately obtain s ma' where
    s: "ma_alloc 2 70 ex_mem = Some (Inr (of_nat (64 * s), ma'))" "fits {0, 1} s 2" "\<forall>s' < s. \<not> fits {0, 1} s' 2" "granules ma' = {0, 1} \<union> {s..<s + 2}"
    using ma_alloc_first_fit [OF ex_mem_wf, of 70] unfolding g ex_mem_granules by (simp only: if_True) blast
  have "s \<noteq> 0" using s(2) fit(2) by (intro notI) simp
  moreover have "s \<noteq> 1" using s(2) fit(3) by (intro notI) simp
  ultimately have "\<not> s < 2" by simp
  moreover have "\<not> 2 < s" using s(3) fit(1) by blast
  ultimately have "s = 2" by simp
  then show ?thesis using s(1,4) by auto
qed

section \<open>Pages\<close>

record vmaAlloc =
  va_numPages :: uint64
  va_used :: "uint64 list"
  va_m :: "(uint64, unit) gomap"

definition newVmaAlloc :: "uint64 \<Rightarrow> vmaAlloc" where
  "newVmaAlloc totalPages = \<lparr>va_numPages = totalPages, va_used = [], va_m = Some []\<rparr>"

definition note_page :: "uint64 \<Rightarrow> vmaAlloc \<Rightarrow> vmaAlloc res" where
  "note_page i va =
    (if go_has (va_m va) i then Inr va
     else rmap (\<lambda>m. va\<lparr>va_m := m, va_used := va_used va @ [i]\<rparr>) (go_put i () (va_m va)))"

definition va_noteAlloc :: "uint64 \<Rightarrow> uint64 \<Rightarrow> vmaAlloc \<Rightarrow> vmaAlloc res" where
  "va_noteAlloc page n va = rfold note_page (map of_nat [unat page..<unat (page + n)]) va"

text \<open>What the random generator answers, in the order in which \<open>alloc\<close> asks.\<close>

record vma_choices =
  vc_fresh :: bool
  vc_rand4 :: nat
  vc_low :: bool
  vc_used :: nat
  vc_back :: bool
  vc_off :: nat

definition va_alloc :: "vma_choices \<Rightarrow> uint64 \<Rightarrow> vmaAlloc \<Rightarrow> (uint64 \<times> vmaAlloc) res" where
  "va_alloc r n va =
    (if va_numPages va < n then Inl (Panic ''vmaAlloc: bad size'')
     else
       rbind (if va_used va = [] \<or> vc_fresh r then
                Inr (if vc_low r then of_nat (vc_rand4 r) else va_numPages va - of_nat (vc_rand4 r) - n)
              else
                rmap (\<lambda>page.
                  let page1 = (if 1 < n \<and> vc_back r then page - min (of_nat (vc_off r)) page else page)
                  in if va_numPages va < page1 + n then va_numPages va - n else page1)
                (go_nth (va_used va) (int (vc_used r)))) (\<lambda>page.
       if va_numPages va \<le> page \<or> va_numPages va < n \<or> va_numPages va < page + n then Inl (Panic ''vmaAlloc: bad page'')
       else rmap (\<lambda>va'. (page, va')) (va_noteAlloc page n va)))"

text \<open>The pages in use are listed once each, as in the map, and exist.\<close>

definition va_wf :: "vmaAlloc \<Rightarrow> bool" where
  "va_wf va \<longleftrightarrow> va_m va \<noteq> None \<and> distinct (va_used va) \<and> set (va_used va) = set (go_keys (va_m va))
     \<and> (\<forall>i \<in> set (va_used va). i < va_numPages va) \<and> unat (va_numPages va) < 2 ^ 62"

definition choices_ok :: "vma_choices \<Rightarrow> uint64 \<Rightarrow> vmaAlloc \<Rightarrow> bool" where
  "choices_ok r n va \<longleftrightarrow> vc_rand4 r < 4 \<and> (va_used va \<noteq> [] \<longrightarrow> vc_used r < length (va_used va)) \<and> (1 < n \<longrightarrow> vc_off r < unat n)"

lemma note_page_conv:
  assumes "va_wf va" "i < va_numPages va"
  shows "\<exists>va'. note_page i va = Inr va' \<and> va_wf va' \<and> va_numPages va' = va_numPages va \<and> set (va_used va') = insert i (set (va_used va))"
proof (cases "i \<in> set (go_keys (va_m va))")
  case True
  then show ?thesis using assms by (auto simp: note_page_def va_wf_def)
next
  case False
  then show ?thesis using assms by (auto simp: note_page_def va_wf_def)
qed

lemma va_noteAlloc_conv:
  assumes "va_wf va" "\<forall>i \<in> set is. i < va_numPages va"
  shows "\<exists>va'. rfold note_page is va = Inr va' \<and> va_wf va' \<and> va_numPages va' = va_numPages va \<and> set (va_used va') = set (va_used va) \<union> set is"
  using assms
proof (induction "is" arbitrary: va)
  case (Cons i "is")
  then obtain va1 where "note_page i va = Inr va1" "va_wf va1" "va_numPages va1 = va_numPages va" "set (va_used va1) = insert i (set (va_used va))"
    using note_page_conv by (metis list.set_intros(1))
  with Cons.IH [of va1] Cons.prems show ?case by auto
qed simp

lemma page_range:
  assumes "unat page + unat n < 2 ^ 64"
  shows "set (map of_nat [unat page..<unat (page + n)]) = {i :: uint64. page \<le> i \<and> i < page + n}"
proof -
  have sum: "unat (page + n) = unat page + unat n" using assms by (simp add: unat_word_ariths)
  have "i \<in> of_nat ` {unat page..<unat page + unat n} \<longleftrightarrow> unat page \<le> unat i \<and> unat i < unat page + unat n" for i :: uint64
  proof
    assume "i \<in> of_nat ` {unat page..<unat page + unat n}"
    then show "unat page \<le> unat i \<and> unat i < unat page + unat n"
      using assms by (auto simp: unat_of_nat take_bit_nat_eq_self)
  qed (auto intro!: image_eqI [of _ _ "unat i"])
  then show ?thesis by (auto simp: sum word_le_nat_alt word_less_nat_alt)
qed

lemma va_page_ok:
  assumes "va_wf va" "choices_ok r n va" "1 \<le> unat n" "unat n + 3 \<le> unat (va_numPages va)"
  shows "\<exists>page. (if va_used va = [] \<or> vc_fresh r then
                Inr (if vc_low r then of_nat (vc_rand4 r) else va_numPages va - of_nat (vc_rand4 r) - n)
              else rmap (\<lambda>page.
                  let page1 = (if 1 < n \<and> vc_back r then page - min (of_nat (vc_off r)) page else page)
                  in if va_numPages va < page1 + n then va_numPages va - n else page1)
                (go_nth (va_used va) (int (vc_used r)))) = Inr page \<and> unat page + unat n \<le> unat (va_numPages va)"
proof (cases "va_used va = [] \<or> vc_fresh r")
  case True
  have four: "unat (of_nat (vc_rand4 r) :: uint64) = vc_rand4 r" "vc_rand4 r \<le> 3"
    using assms(2) by (auto simp: choices_ok_def unat_of_nat take_bit_nat_eq_self)
  then have "unat (va_numPages va - of_nat (vc_rand4 r)) = unat (va_numPages va) - vc_rand4 r"
    using assms(4) by (simp add: unat_sub word_le_nat_alt)
  then have "unat (va_numPages va - of_nat (vc_rand4 r) - n) = unat (va_numPages va) - vc_rand4 r - unat n"
    using assms(4) four by (simp add: unat_sub word_le_nat_alt)
  then show ?thesis using True four assms(4) by auto
next
  case False
  then have lt: "vc_used r < length (va_used va)" using assms(2) by (simp add: choices_ok_def)
  define page where "page = va_used va ! vc_used r"
  define page1 where "page1 = (if 1 < n \<and> vc_back r then page - min (of_nat (vc_off r)) page else page)"
  have "page < va_numPages va" using lt assms(1) by (auto simp: page_def va_wf_def)
  moreover have "unat (page - min x page) = unat page - unat (min x page)" for x by (rule unat_sub) simp
  then have "page - min x page \<le> page" for x by (simp add: word_le_nat_alt)
  ultimately have lt1: "unat page1 < unat (va_numPages va)" unfolding page1_def by (auto simp: word_less_nat_alt word_le_nat_alt intro: le_less_trans)
  have "unat (page1 + n) = unat page1 + unat n" using lt1 assms(1,4) by (simp add: unat_word_ariths va_wf_def)
  moreover have "unat (va_numPages va - n) = unat (va_numPages va) - unat n" using assms(4) by (simp add: unat_sub word_le_nat_alt)
  ultimately have "unat (if va_numPages va < page1 + n then va_numPages va - n else page1) + unat n \<le> unat (va_numPages va)"
    using assms(4) by (simp add: word_less_nat_alt)
  then show ?thesis using False lt by (auto simp: Let_def simp flip: page_def page1_def split: if_splits)
qed

text \<open>
  \<open>vmaAlloc.alloc\<close> of some pages that leave at least three others returns, whatever the
  random generator says, pages that exist, and adds exactly them to the pages in use.
\<close>

lemma va_alloc_in_range:
  assumes "va_wf va" "choices_ok r n va" "1 \<le> unat n" "unat n + 3 \<le> unat (va_numPages va)"
  shows "\<exists>page va'. va_alloc r n va = Inr (page, va') \<and> unat page + unat n \<le> unat (va_numPages va) \<and> va_wf va'
    \<and> set (va_used va') = set (va_used va) \<union> {i. page \<le> i \<and> i < page + n}"
proof -
  obtain page where page: "(if va_used va = [] \<or> vc_fresh r then
                Inr (if vc_low r then of_nat (vc_rand4 r) else va_numPages va - of_nat (vc_rand4 r) - n)
              else rmap (\<lambda>page.
                  let page1 = (if 1 < n \<and> vc_back r then page - min (of_nat (vc_off r)) page else page)
                  in if va_numPages va < page1 + n then va_numPages va - n else page1)
                (go_nth (va_used va) (int (vc_used r)))) = Inr page" "unat page + unat n \<le> unat (va_numPages va)"
    using va_page_ok [OF assms] by blast
  have small: "unat page + unat n < 2 ^ 64" using page(2) assms(1) by (simp add: va_wf_def)
  then have "unat (page + n) = unat page + unat n" by (simp add: unat_word_ariths)
  then have guards: "\<not> va_numPages va < n" "\<not> (va_numPages va \<le> page \<or> va_numPages va < n \<or> va_numPages va < page + n)" "page + n \<le> va_numPages va"
    using page(2) assms(3,4) by (simp_all add: word_less_nat_alt word_le_nat_alt)
  have "\<forall>i \<in> set (map of_nat [unat page..<unat (page + n)]). i < va_numPages va"
    unfolding page_range [OF small] using guards(3) by auto
  from va_noteAlloc_conv [OF assms(1) this] obtain va' where
    "va_noteAlloc page n va = Inr va'" "va_wf va'" "set (va_used va') = set (va_used va) \<union> {i. page \<le> i \<and> i < page + n}"
    unfolding page_range [OF small] va_noteAlloc_def by blast
  then show ?thesis using guards(1,2) page by (intro exI conjI) (simp_all add: va_alloc_def)
qed

text \<open>With fewer pages left the position counted from the end is below zero: the call panics.\<close>

lemma va_alloc_can_panic:
  "va_alloc \<lparr>vc_fresh = True, vc_rand4 = 3, vc_low = False, vc_used = 0, vc_back = False, vc_off = 0\<rparr> 2 (newVmaAlloc 4) = Inl (Panic ''vmaAlloc: bad page'')"
  by (simp add: va_alloc_def newVmaAlloc_def)

lemma va_alloc_in_range_witness:
  "\<exists>page va'. va_alloc \<lparr>vc_fresh = True, vc_rand4 = 3, vc_low = False, vc_used = 0, vc_back = False, vc_off = 0\<rparr> 2 (newVmaAlloc 16) = Inr (page, va')
    \<and> unat page + 2 \<le> 16 \<and> set (va_used va') = {i. page \<le> i \<and> i < page + 2}"
  using va_alloc_in_range [of "newVmaAlloc 16" "\<lparr>vc_fresh = True, vc_rand4 = 3, vc_low = False, vc_used = 0, vc_back = False, vc_off = 0\<rparr>" 2]
  by (auto simp: va_wf_def newVmaAlloc_def choices_ok_def)

end
