(* ===== verification/Corpus_DB.thy ===== *)
theory Corpus_DB
  imports Go_Prelude
begin

text \<open>
  The key-value database the corpus is kept in (\<open>pkg/db/db.go\<close>): a map in memory, mirrored
  in a file to which every change is appended, and which is rewritten when it has grown too
  long.

  The content of the file is a field of the state. Compression (\<open>compress/flate\<close>) is a
  parameter: a record of the two functions. A file operation may fail; how it ends is an
  argument of the operations that write. An error that is returned is the value \<open>False\<close> (or
  \<open>None\<close> for \<open>Open\<close>), since its text is only logged.
\<close>

section \<open>Little-endian numbers\<close>

fun le_bytes :: "nat \<Rightarrow> nat \<Rightarrow> bytes" where
  "le_bytes 0 x = []"
| "le_bytes (Suc n) x = char_of (x mod 256) # le_bytes n (x div 256)"

fun of_le :: "bytes \<Rightarrow> nat" where
  "of_le [] = 0"
| "of_le (c # cs) = of_char c + 256 * of_le cs"

definition put32 :: "uint32 \<Rightarrow> bytes" where "put32 w = le_bytes 4 (unat w)"
definition put64 :: "uint64 \<Rightarrow> bytes" where "put64 w = le_bytes 8 (unat w)"

text \<open>\<open>binary.Read\<close>: \<open>None\<close> at the end of the data, or when there is too little of it.\<close>

definition get32 :: "bytes \<Rightarrow> (uint32 \<times> bytes) option" where
  "get32 bs = (if length bs < 4 then None else Some (of_nat (of_le (take 4 bs)), drop 4 bs))"

definition get64 :: "bytes \<Rightarrow> (uint64 \<times> bytes) option" where
  "get64 bs = (if length bs < 8 then None else Some (of_nat (of_le (take 8 bs)), drop 8 bs))"

lemma le_bytes_length [simp]: "length (le_bytes n x) = n"
  by (induction n arbitrary: x) auto

lemma of_le_le_bytes: "x < 256 ^ n \<Longrightarrow> of_le (le_bytes n x) = x"
  by (induction n arbitrary: x) (auto simp: less_mult_imp_div_less mult.commute)

lemma get32_put32 [simp]: "get32 (put32 w @ rest) = Some (w, rest)"
  using unsigned_less [of w, where ?'a = nat] by (simp add: get32_def put32_def of_le_le_bytes)

lemma get64_put64 [simp]: "get64 (put64 w @ rest) = Some (w, rest)"
  using unsigned_less [of w, where ?'a = nat] by (simp add: get64_def put64_def of_le_le_bytes)

lemma put_length [simp]: "length (put32 w) = 4" "length (put64 v) = 8"
  by (simp_all add: put32_def put64_def)

section \<open>The code\<close>

record flate =
  fl_Write :: "bytes \<Rightarrow> bytes"
  fl_Read :: "bytes \<Rightarrow> bytes option"

record Record =
  r_Val :: bytes
  r_Seq :: uint64

record DB =
  db_Version :: uint64
  db_Records :: "(string, Record) gomap"
  db_uncompacted :: nat
  db_pending :: "bytes option"
  db_file :: bytes

definition dbMagic :: uint32 where "dbMagic = 0xbaddb"
definition recMagic :: uint32 where "recMagic = 0xfee1bad"
definition curVersion :: uint32 where "curVersion = 2"
definition seqDeleted :: uint64 where "seqDeleted = NOT 0"

definition serializeHeader :: "uint64 \<Rightarrow> bytes" where
  "serializeHeader version = put32 dbMagic @ put32 curVersion @ put64 version"

definition serializeRecord :: "flate \<Rightarrow> string \<Rightarrow> bytes \<Rightarrow> uint64 \<Rightarrow> bytes res" where
  "serializeRecord fl key val seq =
    (let hdr = put32 recMagic @ put32 (of_nat (length key)) @ key @ put64 seq in
     if seq = seqDeleted then (if val \<noteq> [] then Inl (Panic ''deleting record with value'') else Inr hdr)
     else if val = [] then Inr (hdr @ put32 0)
     else let z = fl_Write fl val in Inr (hdr @ put32 (of_nat (length z)) @ z))"

definition deserializeHeader :: "bytes \<Rightarrow> (uint64 \<times> bytes) option" where
  "deserializeHeader bs =
    (if bs = [] then Some (0, [])
     else case get32 bs of None \<Rightarrow> None | Some (magic, bs1) \<Rightarrow>
       if magic \<noteq> dbMagic then None
       else case get32 bs1 of None \<Rightarrow> None | Some (ver, bs2) \<Rightarrow>
         if ver = 0 \<or> curVersion < ver then None
         else if 2 \<le> ver then get64 bs2 else Some (0, bs2))"

definition deserializeRecord :: "flate \<Rightarrow> bytes \<Rightarrow> ((string \<times> bytes \<times> uint64) \<times> bytes) option" where
  "deserializeRecord fl bs =
    (case get32 bs of None \<Rightarrow> None | Some (magic, bs1) \<Rightarrow>
     if magic \<noteq> recMagic then None
     else case get32 bs1 of None \<Rightarrow> None | Some (keyLen, bs2) \<Rightarrow>
       if length bs2 < unat keyLen then None
       else case get64 (drop (unat keyLen) bs2) of None \<Rightarrow> None | Some (seq, bs3) \<Rightarrow>
         let key = take (unat keyLen) bs2 in
         if seq = seqDeleted then Some ((key, [], seq), bs3)
         else case get32 bs3 of None \<Rightarrow> None | Some (valLen, bs4) \<Rightarrow>
           if valLen = 0 then Some ((key, [], seq), bs4)
           else case fl_Read fl (take (unat valLen) bs4) of
             None \<Rightarrow> None | Some val \<Rightarrow> Some ((key, val, seq), drop (unat valLen) bs4))"

definition apply_record :: "string \<times> bytes \<times> uint64 \<Rightarrow> (string, Record) gomap \<Rightarrow> (string, Record) gomap" where
  "apply_record e records =
    (case e of (key, val, seq) \<Rightarrow> if seq = seqDeleted then go_del key records else go_set key \<lparr>r_Val = val, r_Seq = seq\<rparr> records)"

lemma get_shorter: "get32 bs = Some (w, bs') \<Longrightarrow> length bs' < length bs" "get64 bs = Some (v, bs') \<Longrightarrow> length bs' < length bs"
  by (auto simp: get32_def get64_def split: if_splits)

lemma deserializeRecord_shorter: "deserializeRecord fl bs = Some (e, bs') \<Longrightarrow> length bs' < length bs"
  by (fastforce simp: deserializeRecord_def Let_def split: option.splits prod.splits if_splits dest!: get_shorter)

text \<open>The loop of \<open>deserializeDB\<close>.\<close>

function load_records :: "flate \<Rightarrow> bytes \<Rightarrow> (string, Record) gomap \<Rightarrow> nat \<Rightarrow> (string, Record) gomap \<times> nat" where
  "load_records fl bs records n =
    (case deserializeRecord fl bs of
       None \<Rightarrow> (records, n)
     | Some (e, bs') \<Rightarrow> load_records fl bs' (apply_record e records) (Suc n))"
  by pat_completeness auto
termination by (relation "measure (\<lambda>(_, bs, _). length bs)") (auto dest: deserializeRecord_shorter)

declare load_records.simps [simp del]

definition deserializeDB :: "flate \<Rightarrow> bytes \<Rightarrow> uint64 \<times> (string, Record) gomap \<times> nat" where
  "deserializeDB fl bs =
    (case deserializeHeader bs of
       None \<Rightarrow> (0, Some [], 0)
     | Some (ver, rest) \<Rightarrow> (ver, load_records fl rest (Some []) 0))"

definition db_serialize :: "flate \<Rightarrow> string \<Rightarrow> bytes \<Rightarrow> uint64 \<Rightarrow> DB \<Rightarrow> DB res" where
  "db_serialize fl key val seq db =
    rmap (\<lambda>bs. db\<lparr>db_pending := Some ((case db_pending db of None \<Rightarrow> [] | Some p \<Rightarrow> p) @ bs)\<rparr>) (serializeRecord fl key val seq)"

definition Save :: "flate \<Rightarrow> string \<Rightarrow> bytes \<Rightarrow> uint64 \<Rightarrow> DB \<Rightarrow> DB res" where
  "Save fl key val seq db =
    (if seq = seqDeleted then Inl (Panic ''reserved seq'')
     else if (case go_get (db_Records db) key of None \<Rightarrow> False | Some rec \<Rightarrow> seq = r_Seq rec \<and> val = r_Val rec) then Inr db
     else
       rbind (go_put key \<lparr>r_Val = val, r_Seq = seq\<rparr> (db_Records db)) (\<lambda>m.
       rbind (db_serialize fl key val seq (db\<lparr>db_Records := m\<rparr>)) (\<lambda>db1.
       Inr (db1\<lparr>db_uncompacted := Suc (db_uncompacted db1)\<rparr>))))"

definition Delete :: "flate \<Rightarrow> string \<Rightarrow> DB \<Rightarrow> DB res" where
  "Delete fl key db =
    (if \<not> go_has (db_Records db) key then Inr db
     else
       rbind (db_serialize fl key [] seqDeleted (db\<lparr>db_Records := go_del key (db_Records db)\<rparr>)) (\<lambda>db1.
       Inr (db1\<lparr>db_uncompacted := Suc (db_uncompacted db1)\<rparr>)))"

text \<open>How writing a file ends: well, or with an error after some bytes have reached it.\<close>

datatype io = Written | Failed nat

definition compact :: "flate \<Rightarrow> io \<Rightarrow> DB \<Rightarrow> (bool \<times> DB) res" where
  "compact fl io db =
    rbind (rfold (\<lambda>(key, rec) buf. rmap (\<lambda>bs. buf @ bs) (serializeRecord fl key (r_Val rec) (r_Seq rec)))
        (go_range (db_Records db)) (serializeHeader (db_Version db))) (\<lambda>buf.
    Inr (case io of
       Written \<Rightarrow> (True, db\<lparr>db_file := buf, db_uncompacted := go_len (db_Records db), db_pending := None\<rparr>)
     | Failed _ \<Rightarrow> (False, db)))"

definition Flush :: "flate \<Rightarrow> io \<Rightarrow> DB \<Rightarrow> (bool \<times> DB) res" where
  "Flush fl io db =
    (if go_len (db_Records db) < db_uncompacted db div 10 * 9 then compact fl io db
     else case db_pending db of
       None \<Rightarrow> Inr (True, db)
     | Some p \<Rightarrow>
       Inr (case io of
          Written \<Rightarrow> (True, db\<lparr>db_file := db_file db @ p, db_pending := None\<rparr>)
        | Failed n \<Rightarrow> (False, db\<lparr>db_file := db_file db @ take n p\<rparr>)))"

definition BumpVersion :: "flate \<Rightarrow> io \<Rightarrow> uint64 \<Rightarrow> DB \<Rightarrow> (bool \<times> DB) res" where
  "BumpVersion fl io version db =
    (if db_Version db = version then Flush fl io db else compact fl io (db\<lparr>db_Version := version\<rparr>))"

definition db_Open :: "flate \<Rightarrow> io \<Rightarrow> bytes \<Rightarrow> DB option res" where
  "db_Open fl io file =
    (case deserializeDB fl file of (ver, records, n) \<Rightarrow>
     let db = \<lparr>db_Version = ver, db_Records = records, db_uncompacted = n, db_pending = None, db_file = file\<rparr> in
     if go_len records = 0 \<or> go_len records < n div 10 * 9
     then rmap (\<lambda>(ok, db'). if ok then Some db' else None) (compact fl io db)
     else Inr (Some db))"

definition db_Create :: "flate \<Rightarrow> (bytes \<Rightarrow> string) \<Rightarrow> io \<times> io \<times> io \<Rightarrow> uint64 \<Rightarrow> Record list \<Rightarrow> DB option res" where
  "db_Create fl hash ios version records =
    (case ios of (io1, io2, io3) \<Rightarrow>
     rbind (db_Open fl io1 []) (\<lambda>opened.
     case opened of None \<Rightarrow> Inr None | Some db \<Rightarrow>
       rbind (BumpVersion fl io2 version db) (\<lambda>(ok, db1).
       if \<not> ok then Inr None
       else
         rbind (rfold (\<lambda>rec. Save fl (hash (r_Val rec)) (r_Val rec) (r_Seq rec)) records db1) (\<lambda>db2.
         rmap (\<lambda>(ok, db3). if ok then Some db3 else None) (Flush fl io3 db2)))))"

section \<open>Reading back what was written\<close>

text \<open>What the code relies on of compression; a truncated stream is an error.\<close>

definition flate_ok :: "flate \<Rightarrow> bool" where
  "flate_ok fl \<longleftrightarrow> (\<forall>v. fl_Read fl (fl_Write fl v) = Some v \<and> fl_Write fl v \<noteq> []
     \<and> (\<forall>n < length (fl_Write fl v). fl_Read fl (take n (fl_Write fl v)) = None))"

type_synonym db_entry = "string \<times> bytes \<times> uint64"

text \<open>Lengths are written with 32 bits.\<close>

definition valid_entry :: "flate \<Rightarrow> db_entry \<Rightarrow> bool" where
  "valid_entry fl e \<longleftrightarrow> (case e of (key, val, seq) \<Rightarrow>
     length key < 2 ^ 32 \<and> (if seq = seqDeleted then val = [] else length (fl_Write fl val) < 2 ^ 32))"

definition enc :: "flate \<Rightarrow> db_entry \<Rightarrow> bytes" where
  "enc fl e = (case e of (key, val, seq) \<Rightarrow> case serializeRecord fl key val seq of Inl _ \<Rightarrow> [] | Inr bs \<Rightarrow> bs)"

definition enc_all :: "flate \<Rightarrow> db_entry list \<Rightarrow> bytes" where
  "enc_all fl es = concat (map (enc fl) es)"

lemma enc_all_simps [simp]: "enc_all fl [] = []" "enc_all fl (e # es) = enc fl e @ enc_all fl es" "enc_all fl (xs @ ys) = enc_all fl xs @ enc_all fl ys"
  by (simp_all add: enc_all_def)

lemma serializeRecord_enc: "valid_entry fl (key, val, seq) \<Longrightarrow> serializeRecord fl key val seq = Inr (enc fl (key, val, seq))"
  by (auto simp: enc_def serializeRecord_def valid_entry_def Let_def split: if_splits)

lemma unat_length32 [simp]: "k < 2 ^ 32 \<Longrightarrow> unat (of_nat k :: uint32) = k"
  by (simp add: unat_of_nat take_bit_nat_eq_self)

lemma get_take:
  "get32 (take n (put32 w @ r)) = (if n < 4 then None else Some (w, take (n - 4) r))"
  "get64 (take n (put64 v @ r)) = (if n < 8 then None else Some (v, take (n - 8) r))"
proof -
  have "get32 (put32 w @ take (n - 4) r) = Some (w, take (n - 4) r)" "get64 (put64 v @ take (n - 8) r) = Some (v, take (n - 8) r)" by simp_all
  then show "get32 (take n (put32 w @ r)) = (if n < 4 then None else Some (w, take (n - 4) r))"
    "get64 (take n (put64 v @ r)) = (if n < 8 then None else Some (v, take (n - 8) r))"
    by (auto simp: get32_def [of "take n _"] get64_def [of "take n _"] get32_def get64_def)
qed

lemma value_length:
  assumes "flate_ok fl" "length (fl_Write fl val) < 2 ^ 32"
  shows "(of_nat (length (fl_Write fl val)) :: uint32) \<noteq> 0"
proof
  assume "(of_nat (length (fl_Write fl val)) :: uint32) = 0"
  then have "length (fl_Write fl val) = 0" using unat_length32 [OF assms(2)] by simp
  then show False using assms(1) by (simp add: flate_ok_def)
qed

lemma enc_conv:
  "valid_entry fl (key, val, seq) \<Longrightarrow> enc fl (key, val, seq) = put32 recMagic @ put32 (of_nat (length key)) @ key @ put64 seq
     @ (if seq = seqDeleted then [] else if val = [] then put32 0 else put32 (of_nat (length (fl_Write fl val))) @ fl_Write fl val)"
  by (auto simp: enc_def serializeRecord_def valid_entry_def Let_def)

lemma decode_enc:
  assumes "flate_ok fl" "valid_entry fl e"
  shows "deserializeRecord fl (enc fl e @ rest) = Some (e, rest)"
proof -
  obtain key val seq where e: "e = (key, val, seq)" by (cases e)
  have "fl_Read fl (fl_Write fl val) = Some val" using assms(1) by (simp add: flate_ok_def)
  then show ?thesis
    using assms(2) value_length [OF assms(1), of val] unfolding e enc_conv [OF assms(2) [unfolded e]]
    by (auto simp: deserializeRecord_def valid_entry_def Let_def split: if_splits)
qed

lemma drop_take_append: "drop (length xs) (take n (xs @ ys)) = take (n - length xs) ys"
  by (simp only: drop_take) simp

lemma decode_truncated:
  assumes "flate_ok fl" "valid_entry fl e" "n < length (enc fl e)"
  shows "deserializeRecord fl (take n (enc fl e)) = None"
proof -
  obtain key val seq where e: "e = (key, val, seq)" by (cases e)
  have cut: "fl_Read fl (take k (fl_Write fl val)) = None" if "k < length (fl_Write fl val)" for k
    using assms(1) that by (simp add: flate_ok_def)
  have z: "get32 (take n (put32 w)) = (if n < 4 then None else Some (w, []))" for n w using get_take(1) [of n w "[]"] by simp
  show ?thesis
    using assms(2,3) value_length [OF assms(1), of val] cut unfolding e enc_conv [OF assms(2) [unfolded e]]
    by (auto simp: deserializeRecord_def valid_entry_def Let_def get_take drop_take_append z min_def
        simp del: take_append split: if_splits option.splits)
qed

lemma load_enc:
  assumes "flate_ok fl" "\<forall>e \<in> set es. valid_entry fl e"
  shows "load_records fl (enc_all fl es @ rest) m n = load_records fl rest (fold apply_record es m) (n + length es)"
  using assms(2)
proof (induction es arbitrary: m n)
  case (Cons e es)
  then have "deserializeRecord fl (enc fl e @ enc_all fl es @ rest) = Some (e, enc_all fl es @ rest)"
    using decode_enc [OF assms(1)] by simp
  then show ?case using Cons by (simp add: load_records.simps [of fl "enc fl e @ enc_all fl es @ rest"])
qed simp

lemma load_end: "deserializeRecord fl bs = None \<Longrightarrow> load_records fl bs m n = (m, n)"
  by (simp add: load_records.simps)

lemma decode_Nil [simp]: "deserializeRecord fl [] = None"
  by (simp add: deserializeRecord_def get32_def)

text \<open>A header: what follows it does not matter for reading it.\<close>

definition header_for :: "uint64 \<Rightarrow> bytes \<Rightarrow> bool" where
  "header_for v hdr \<longleftrightarrow> (\<forall>rest. deserializeHeader (hdr @ rest) = Some (v, rest))"

lemma serializeHeader_for: "header_for v (serializeHeader v)"
proof -
  have "put32 dbMagic \<noteq> []" by (metis length_0_conv put_length(1) zero_neq_numeral)
  then show ?thesis by (simp add: header_for_def deserializeHeader_def serializeHeader_def curVersion_def)
qed

lemma deserializeDB_enc:
  assumes "flate_ok fl" "header_for v hdr" "\<forall>e \<in> set es. valid_entry fl e" "deserializeRecord fl rest = None"
  shows "deserializeDB fl (hdr @ enc_all fl es @ rest) = (v, fold apply_record es (Some []), length es)"
  using assms by (simp add: deserializeDB_def header_for_def load_enc load_end)

section \<open>The file mirrors the map\<close>

definition entry_of :: "string \<times> Record \<Rightarrow> db_entry" where
  "entry_of kr = (fst kr, r_Val (snd kr), r_Seq (snd kr))"

text \<open>
  The entries \<open>es\<close> are in the file, the entries \<open>ps\<close> wait to be written, and together they make
  up the map. \<open>v\<close> is the version in the file.
\<close>

definition db_mirror :: "flate \<Rightarrow> uint64 \<Rightarrow> db_entry list \<Rightarrow> db_entry list \<Rightarrow> DB \<Rightarrow> bool" where
  "db_mirror fl v es ps db \<longleftrightarrow>
     (\<exists>hdr. header_for v hdr \<and> db_file db = hdr @ enc_all fl es)
     \<and> (\<forall>e \<in> set (es @ ps). valid_entry fl e)
     \<and> db_pending db = (if ps = [] then None else Some (enc_all fl ps))
     \<and> db_Records db = fold apply_record (es @ ps) (Some [])
     \<and> db_uncompacted db = length (es @ ps)"

text \<open>The map itself: each key once, and what is in it can be written.\<close>

definition records_ok :: "flate \<Rightarrow> (string, Record) gomap \<Rightarrow> bool" where
  "records_ok fl m \<longleftrightarrow> m \<noteq> None \<and> wfm m \<and> (\<forall>kr \<in> set (go_range m). valid_entry fl (entry_of kr) \<and> r_Seq (snd kr) \<noteq> seqDeleted)"

definition db_inv :: "flate \<Rightarrow> uint64 \<Rightarrow> DB \<Rightarrow> bool" where
  "db_inv fl v db \<longleftrightarrow> (\<exists>es ps. db_mirror fl v es ps db)"

lemma records_ok_apply:
  assumes "records_ok fl m" "valid_entry fl e"
  shows "records_ok fl (apply_record e m)"
proof -
  obtain key val seq where e: "e = (key, val, seq)" by (cases e)
  show ?thesis
    using assms go_range_set [of key "\<lparr>r_Val = val, r_Seq = seq\<rparr>" m] go_range_del [of key m]
    by (auto simp: records_ok_def apply_record_def e entry_of_def)
qed

lemma records_ok_fold: "records_ok fl m \<Longrightarrow> \<forall>e \<in> set es. valid_entry fl e \<Longrightarrow> records_ok fl (fold apply_record es m)"
  by (induction es arbitrary: m) (auto intro: records_ok_apply)

lemma records_ok_empty: "records_ok fl (Some [])"
  by (simp add: records_ok_def)

lemma db_mirror_records: "db_mirror fl v es ps db \<Longrightarrow> records_ok fl (db_Records db)"
  unfolding db_mirror_def by (metis records_ok_fold records_ok_empty)

text \<open>Compaction writes the map entry by entry; reading that gives the map.\<close>

lemma fold_entries:
  assumes "wfm (Some (xs @ al))" "\<forall>kr \<in> set al. r_Seq (snd kr) \<noteq> seqDeleted"
  shows "fold apply_record (map entry_of al) (Some xs) = Some (xs @ al)"
  using assms
proof (induction al arbitrary: xs)
  case (Cons kr al)
  have "fst kr \<notin> fst ` set xs" using Cons.prems(1) by (auto simp: wfm_def go_keys_def)
  then have "AList.update (fst kr) (snd kr) xs = xs @ [kr]" by (induction xs) auto
  moreover obtain k v s where "kr = (k, \<lparr>r_Val = v, r_Seq = s\<rparr>)" by (cases kr; cases "snd kr") auto
  ultimately have "apply_record (entry_of kr) (Some xs) = Some (xs @ [kr])"
    using Cons.prems(2) by (simp add: apply_record_def entry_of_def go_set_def)
  then show ?case using Cons.IH [of "xs @ [kr]"] Cons.prems by simp
qed simp

lemma compact_buffer:
  assumes "\<forall>kr \<in> set al. valid_entry fl (entry_of kr)"
  shows "rfold (\<lambda>(key, rec) buf. rmap (\<lambda>bs. buf @ bs) (serializeRecord fl key (r_Val rec) (r_Seq rec))) al buf
    = Inr (buf @ enc_all fl (map entry_of al))"
  using assms
proof (induction al arbitrary: buf)
  case (Cons kr al)
  then have "serializeRecord fl (fst kr) (r_Val (snd kr)) (r_Seq (snd kr)) = Inr (enc fl (entry_of kr))"
    using serializeRecord_enc by (simp add: entry_of_def)
  then show ?case using Cons by (cases kr) simp
qed simp

lemma compact_mirror:
  assumes "records_ok fl (db_Records db)"
  shows "\<exists>db'. compact fl Written db = Inr (True, db') \<and> db_mirror fl (db_Version db) (map entry_of (go_range (db_Records db))) [] db'
      \<and> db_Records db' = db_Records db \<and> db_Version db' = db_Version db"
    and "compact fl (Failed n) db = Inr (False, db)"
proof -
  obtain al where al: "db_Records db = Some al" using assms by (auto simp: records_ok_def)
  have ok: "\<forall>kr \<in> set al. valid_entry fl (entry_of kr)" using assms al by (auto simp: records_ok_def)
  have "fold apply_record (map entry_of al) (Some []) = Some al"
    using fold_entries [of "[]" al] assms al by (auto simp: records_ok_def)
  then have "db_mirror fl (db_Version db) (map entry_of al) []
      (db\<lparr>db_file := serializeHeader (db_Version db) @ enc_all fl (map entry_of al), db_uncompacted := go_len (db_Records db), db_pending := None\<rparr>)"
    using ok al serializeHeader_for by (auto simp: db_mirror_def go_len_def)
  then show "\<exists>db'. compact fl Written db = Inr (True, db') \<and> db_mirror fl (db_Version db) (map entry_of (go_range (db_Records db))) [] db'
      \<and> db_Records db' = db_Records db \<and> db_Version db' = db_Version db"
    by (simp add: compact_def al compact_buffer [OF ok])
  show "compact fl (Failed n) db = Inr (False, db)" by (simp add: compact_def al compact_buffer [OF ok])
qed

section \<open>Every operation keeps the mirror\<close>

lemma mirror_append:
  assumes m: "db_mirror fl v es ps db" and e: "valid_entry fl (key, val, seq)"
  shows "\<exists>db'. db_serialize fl key val seq (db\<lparr>db_Records := apply_record (key, val, seq) (db_Records db)\<rparr>) = Inr db'
    \<and> db_mirror fl v es (ps @ [(key, val, seq)]) (db'\<lparr>db_uncompacted := Suc (db_uncompacted db')\<rparr>)
    \<and> db_Records db' = apply_record (key, val, seq) (db_Records db) \<and> db_Version db' = db_Version db"
  using m e by (auto simp: db_serialize_def serializeRecord_enc db_mirror_def)

lemma Save_conv:
  assumes m: "db_mirror fl v es ps db" and e: "valid_entry fl (key, val, seq)" "seq \<noteq> seqDeleted"
  shows "\<exists>db'. Save fl key val seq db = Inr db' \<and> (db_mirror fl v es ps db' \<or> db_mirror fl v es (ps @ [(key, val, seq)]) db')
    \<and> go_get (db_Records db') = (go_get (db_Records db))(key \<mapsto> \<lparr>r_Val = val, r_Seq = seq\<rparr>) \<and> db_Version db' = db_Version db"
proof (cases "case go_get (db_Records db) key of None \<Rightarrow> False | Some rec \<Rightarrow> seq = r_Seq rec \<and> val = r_Val rec")
  case True
  then obtain rec where rec: "go_get (db_Records db) key = Some rec" "seq = r_Seq rec" "val = r_Val rec" by (auto split: option.splits)
  then have "go_get (db_Records db) = (go_get (db_Records db))(key \<mapsto> \<lparr>r_Val = val, r_Seq = seq\<rparr>)" by (simp add: fun_upd_idem)
  moreover have "Save fl key val seq db = Inr db" using True e by (simp add: Save_def)
  ultimately show ?thesis using m by (intro exI [of _ db]) simp
next
  case False
  have "db_Records db \<noteq> None" using db_mirror_records [OF m] by (simp add: records_ok_def)
  moreover have app: "apply_record (key, val, seq) (db_Records db) = go_set key \<lparr>r_Val = val, r_Seq = seq\<rparr> (db_Records db)"
    using e(2) by (simp add: apply_record_def)
  ultimately show ?thesis
    using mirror_append [OF m e(1)] False e(2) by (auto simp: Save_def app fun_eq_iff split: option.splits)
qed

lemma Delete_conv:
  assumes m: "db_mirror fl v es ps db" and k: "length key < 2 ^ 32"
  shows "\<exists>db'. Delete fl key db = Inr db' \<and> (db_mirror fl v es ps db' \<or> db_mirror fl v es (ps @ [(key, [], seqDeleted)]) db')
    \<and> go_get (db_Records db') = (go_get (db_Records db))(key := None) \<and> db_Version db' = db_Version db"
proof (cases "go_has (db_Records db) key")
  case True
  have app: "apply_record (key, [], seqDeleted) (db_Records db) = go_del key (db_Records db)" by (simp add: apply_record_def)
  have "valid_entry fl (key, [], seqDeleted)" using k by (simp add: valid_entry_def)
  from mirror_append [OF m this] True show ?thesis by (auto simp: Delete_def app fun_eq_iff)
next
  case False
  then have "go_get (db_Records db) key = None" using go_key_iff by fastforce
  then show ?thesis using False m by (intro exI [of _ db]) (auto simp: Delete_def)
qed

lemma compact_failed: "records_ok fl (db_Records db) \<Longrightarrow> compact fl (Failed n) db = Inr (False, db)"
  by (rule compact_mirror(2))

text \<open>A successful flush that does not compact appends what is pending.\<close>

lemma Flush_appends:
  assumes "db_mirror fl v es ps db" "\<not> go_len (db_Records db) < db_uncompacted db div 10 * 9"
  shows "\<exists>db'. Flush fl Written db = Inr (True, db') \<and> db_mirror fl v (es @ ps) [] db' \<and> db_Records db' = db_Records db \<and> db_Version db' = db_Version db"
  using assms by (auto simp: Flush_def db_mirror_def)

lemma Open_conv:
  assumes m: "db_mirror fl v es [] db" and fl: "flate_ok fl"
  shows "\<exists>db' es'. db_Open fl Written (db_file db) = Inr (Some db') \<and> db_mirror fl v es' [] db' \<and> db_Records db' = db_Records db \<and> db_Version db' = v"
proof -
  obtain hdr where hdr: "header_for v hdr" "db_file db = hdr @ enc_all fl es" using m by (auto simp: db_mirror_def)
  have es: "\<forall>e \<in> set es. valid_entry fl e" using m by (simp add: db_mirror_def)
  have des: "deserializeDB fl (db_file db) = (v, db_Records db, db_uncompacted db)"
    using deserializeDB_enc [OF fl hdr(1) es, of "[]"] m hdr(2) by (simp add: db_mirror_def)
  let ?db = "\<lparr>db_Version = v, db_Records = db_Records db, db_uncompacted = db_uncompacted db, db_pending = None, db_file = db_file db\<rparr>"
  have "db_mirror fl v es [] ?db" using m by (simp add: db_mirror_def)
  moreover have "records_ok fl (db_Records ?db)" using db_mirror_records [OF m] by simp
  note compact_mirror(1) [OF this]
  ultimately show ?thesis by (auto simp: db_Open_def des Let_def)
qed

section \<open>Durability\<close>

text \<open>Commands, each with the way its write ends, and what they mean for a map.\<close>

datatype db_cmd = CSave string bytes uint64 | CDelete string | CFlush io | CBump io uint64

fun db_exec :: "flate \<Rightarrow> db_cmd \<Rightarrow> DB \<Rightarrow> DB res" where
  "db_exec fl (CSave key val seq) db = Save fl key val seq db"
| "db_exec fl (CDelete key) db = Delete fl key db"
| "db_exec fl (CFlush io) db = rmap snd (Flush fl io db)"
| "db_exec fl (CBump io version) db = rmap snd (BumpVersion fl io version db)"

fun map_exec :: "db_cmd \<Rightarrow> (string \<rightharpoonup> Record) \<Rightarrow> (string \<rightharpoonup> Record)" where
  "map_exec (CSave key val seq) m = m(key \<mapsto> \<lparr>r_Val = val, r_Seq = seq\<rparr>)"
| "map_exec (CDelete key) m = m(key := None)"
| "map_exec (CFlush io) m = m"
| "map_exec (CBump io version) m = m"

fun cmd_version :: "db_cmd \<Rightarrow> uint64 \<Rightarrow> uint64" where
  "cmd_version (CBump io version) v = version"
| "cmd_version c v = v"

fun valid_cmd :: "flate \<Rightarrow> db_cmd \<Rightarrow> bool" where
  "valid_cmd fl (CSave key val seq) \<longleftrightarrow> valid_entry fl (key, val, seq) \<and> seq \<noteq> seqDeleted"
| "valid_cmd fl (CDelete key) \<longleftrightarrow> length key < 2 ^ 32"
| "valid_cmd fl c \<longleftrightarrow> True"

text \<open>
  A command rewrites the whole file, or it leaves a part of an append in the file. \<open>file_state\<close>
  follows both: whether the file has such a torn end, and the version that is in the file.
\<close>

definition worn :: "DB \<Rightarrow> bool" where
  "worn db \<longleftrightarrow> go_len (db_Records db) < db_uncompacted db div 10 * 9"

fun compacts :: "db_cmd \<Rightarrow> DB \<Rightarrow> bool" where
  "compacts (CFlush io) db \<longleftrightarrow> io = Written \<and> worn db"
| "compacts (CBump io version) db \<longleftrightarrow> io = Written \<and> (db_Version db = version \<longrightarrow> worn db)"
| "compacts c db \<longleftrightarrow> False"

fun tears :: "db_cmd \<Rightarrow> DB \<Rightarrow> bool" where
  "tears (CFlush (Failed n)) db \<longleftrightarrow> \<not> worn db \<and> db_pending db \<noteq> None \<and> 0 < n"
| "tears (CBump (Failed n) version) db \<longleftrightarrow> db_Version db = version \<and> \<not> worn db \<and> db_pending db \<noteq> None \<and> 0 < n"
| "tears c db \<longleftrightarrow> False"

fun file_state :: "flate \<Rightarrow> db_cmd list \<Rightarrow> DB \<Rightarrow> bool \<times> uint64 \<Rightarrow> bool \<times> uint64" where
  "file_state fl [] db g = g"
| "file_state fl (c # cs) db (torn, v) =
    (case db_exec fl c db of
       Inl _ \<Rightarrow> (torn, v)
     | Inr db' \<Rightarrow> file_state fl cs db' (if compacts c db then (False, db_Version db') else (torn \<or> tears c db, v)))"

text \<open>Without these no file is torn and no version is lost.\<close>

fun clean_cmd :: "db_cmd \<Rightarrow> bool" where
  "clean_cmd (CFlush io) \<longleftrightarrow> io = Written \<or> io = Failed 0"
| "clean_cmd (CBump io version) \<longleftrightarrow> io = Written"
| "clean_cmd c \<longleftrightarrow> True"

definition db_state :: "flate \<Rightarrow> bool \<Rightarrow> uint64 \<Rightarrow> DB \<Rightarrow> bool" where
  "db_state fl torn v db \<longleftrightarrow> records_ok fl (db_Records db) \<and> (\<not> torn \<longrightarrow> db_inv fl v db)"

lemma Save_records:
  assumes "records_ok fl (db_Records db)" "valid_entry fl (key, val, seq)" "seq \<noteq> seqDeleted"
  shows "\<exists>db'. Save fl key val seq db = Inr db' \<and> records_ok fl (db_Records db')
    \<and> go_get (db_Records db') = (go_get (db_Records db))(key \<mapsto> \<lparr>r_Val = val, r_Seq = seq\<rparr>) \<and> db_Version db' = db_Version db"
proof -
  have "db_Records db \<noteq> None" using assms(1) by (simp add: records_ok_def)
  moreover have "records_ok fl (go_set key \<lparr>r_Val = val, r_Seq = seq\<rparr> (db_Records db))"
    using records_ok_apply [OF assms(1,2)] assms(3) by (simp add: apply_record_def)
  ultimately show ?thesis
    using assms serializeRecord_enc [OF assms(2)]
    by (auto simp: Save_def db_serialize_def fun_eq_iff split: option.splits)
qed

lemma Delete_records:
  assumes "records_ok fl (db_Records db)" "length key < 2 ^ 32"
  shows "\<exists>db'. Delete fl key db = Inr db' \<and> records_ok fl (db_Records db')
    \<and> go_get (db_Records db') = (go_get (db_Records db))(key := None) \<and> db_Version db' = db_Version db"
proof (cases "go_has (db_Records db) key")
  case True
  have "valid_entry fl (key, [], seqDeleted)" using assms(2) by (simp add: valid_entry_def)
  from serializeRecord_enc [OF this] records_ok_apply [OF assms(1) this] True show ?thesis
    by (auto simp: Delete_def db_serialize_def apply_record_def fun_eq_iff)
next
  case False
  then have "go_get (db_Records db) key = None" using go_key_iff by fastforce
  then show ?thesis using False assms(1) by (intro exI [of _ db]) (auto simp: Delete_def)
qed

lemma Flush_state:
  assumes "db_state fl torn v db"
  shows "\<exists>ok db'. Flush fl io db = Inr (ok, db') \<and> db_Records db' = db_Records db \<and> db_Version db' = db_Version db
    \<and> (io = Written \<longrightarrow> ok) \<and> (if compacts (CFlush io) db then db_state fl False (db_Version db) db' else db_state fl (torn \<or> tears (CFlush io) db) v db')"
proof (cases io)
  case Written
  have ok: "records_ok fl (db_Records db)" using assms by (simp add: db_state_def)
  show ?thesis
  proof (cases "worn db")
    case True
    from compact_mirror(1) [OF ok] obtain db' where c: "compact fl Written db = Inr (True, db')"
      "db_mirror fl (db_Version db) (map entry_of (go_range (db_Records db))) [] db'" "db_Records db' = db_Records db" "db_Version db' = db_Version db"
      by blast
    moreover from c(2) have "db_inv fl (db_Version db) db'" by (auto simp: db_inv_def)
    ultimately show ?thesis using True Written ok by (auto simp: Flush_def worn_def db_state_def)
  next
    case False
    then have "\<exists>db'. Flush fl Written db = Inr (True, db') \<and> db_Records db' = db_Records db \<and> db_Version db' = db_Version db"
      by (auto simp: Flush_def worn_def split: option.split)
    then obtain db' where db': "Flush fl Written db = Inr (True, db')" "db_Records db' = db_Records db" "db_Version db' = db_Version db" by blast
    have "db_inv fl v db'" if whole: "\<not> torn"
    proof -
      obtain es ps where "db_mirror fl v es ps db" using assms whole by (auto simp: db_state_def db_inv_def)
      from Flush_appends [OF this] db' False show ?thesis by (auto simp: worn_def db_inv_def)
    qed
    then show ?thesis using False Written db' ok by (auto simp: db_state_def)
  qed
next
  case (Failed n)
  have ok: "records_ok fl (db_Records db)" using assms by (simp add: db_state_def)
  show ?thesis
  proof (cases "worn db \<or> db_pending db = None \<or> n = 0")
    case True
    then have "\<exists>ok. Flush fl (Failed n) db = Inr (ok, db)"
      using compact_failed [OF ok] by (auto simp: Flush_def worn_def split: option.split)
    then show ?thesis using True Failed assms by (auto simp: db_state_def)
  next
    case False
    then have "\<exists>db'. Flush fl (Failed n) db = Inr (False, db') \<and> db_Records db' = db_Records db \<and> db_Version db' = db_Version db"
      by (auto simp: Flush_def worn_def)
    then show ?thesis using False Failed ok by (auto simp: db_state_def)
  qed
qed

lemma Bump_state:
  assumes "db_state fl torn v db"
  shows "\<exists>ok db'. BumpVersion fl io version db = Inr (ok, db') \<and> db_Records db' = db_Records db \<and> db_Version db' = version
    \<and> (if compacts (CBump io version) db then db_state fl False version db' else db_state fl (torn \<or> tears (CBump io version) db) v db')"
proof (cases "db_Version db = version")
  case True
  have "tears (CBump io version) db = tears (CFlush io) db" "compacts (CBump io version) db = compacts (CFlush io) db"
    using True by (cases io; auto)+
  moreover have "BumpVersion fl io version db = Flush fl io db" using True by (simp add: BumpVersion_def)
  ultimately show ?thesis using Flush_state [OF assms, of io] True by metis
next
  case False
  let ?db = "db\<lparr>db_Version := version\<rparr>"
  have ok: "records_ok fl (db_Records ?db)" using assms by (simp add: db_state_def)
  have inv: "db_inv fl v ?db = db_inv fl v db" by (simp add: db_inv_def db_mirror_def)
  show ?thesis
  proof (cases io)
    case Written
    from compact_mirror(1) [OF ok] obtain db' where c: "compact fl Written ?db = Inr (True, db')"
      "db_mirror fl version (map entry_of (go_range (db_Records db))) [] db'" "db_Records db' = db_Records db" "db_Version db' = version"
      by auto
    moreover from c(2) have "db_inv fl version db'" by (auto simp: db_inv_def)
    ultimately show ?thesis using False Written ok by (auto simp: BumpVersion_def db_state_def)
  next
    case (Failed n)
    then show ?thesis using False compact_failed [OF ok] assms inv by (auto simp: BumpVersion_def db_state_def)
  qed
qed

lemma db_exec_state:
  assumes "db_state fl torn v db" "valid_cmd fl c"
  shows "\<exists>db'. db_exec fl c db = Inr db' \<and> go_get (db_Records db') = map_exec c (go_get (db_Records db))
    \<and> db_Version db' = cmd_version c (db_Version db)
    \<and> (if compacts c db then db_state fl False (db_Version db') db' else db_state fl (torn \<or> tears c db) v db')"
proof (cases c)
  case (CSave key val seq)
  from Save_records [of fl db key val seq] assms CSave obtain db' where db': "Save fl key val seq db = Inr db'" "records_ok fl (db_Records db')"
    "go_get (db_Records db') = (go_get (db_Records db))(key \<mapsto> \<lparr>r_Val = val, r_Seq = seq\<rparr>)" "db_Version db' = db_Version db"
    by (auto simp: db_state_def)
  have "db_inv fl v db'" if "\<not> torn"
    using that assms CSave db'(1) Save_conv [of fl v _ _ db key val seq] by (fastforce simp: db_state_def db_inv_def)
  then show ?thesis using CSave db' by (simp add: db_state_def)
next
  case (CDelete key)
  from Delete_records [of fl db key] assms CDelete obtain db' where db': "Delete fl key db = Inr db'" "records_ok fl (db_Records db')"
    "go_get (db_Records db') = (go_get (db_Records db))(key := None)" "db_Version db' = db_Version db"
    by (auto simp: db_state_def)
  have "db_inv fl v db'" if "\<not> torn"
    using that assms CDelete db'(1) Delete_conv [of fl v _ _ db key] by (fastforce simp: db_state_def db_inv_def)
  then show ?thesis using CDelete db' by (simp add: db_state_def)
next
  case (CFlush io)
  then show ?thesis using Flush_state [OF assms(1), of io] by auto
next
  case (CBump io version)
  then show ?thesis using Bump_state [OF assms(1), of io version] by auto
qed

lemma db_run_state:
  assumes "db_state fl torn v db" "\<forall>c \<in> set cmds. valid_cmd fl c" "file_state fl cmds db (torn, v) = (torn', v')"
  shows "\<exists>db'. rfold (db_exec fl) cmds db = Inr db' \<and> db_state fl torn' v' db'
    \<and> go_get (db_Records db') = fold map_exec cmds (go_get (db_Records db)) \<and> db_Version db' = fold cmd_version cmds (db_Version db)"
  using assms
proof (induction cmds arbitrary: db torn v)
  case (Cons c cmds)
  then obtain db1 where db1: "db_exec fl c db = Inr db1" "go_get (db_Records db1) = map_exec c (go_get (db_Records db))"
    "db_Version db1 = cmd_version c (db_Version db)"
    "if compacts c db then db_state fl False (db_Version db1) db1 else db_state fl (torn \<or> tears c db) v db1"
    using db_exec_state [of fl torn v db c] by auto
  obtain t w where tw: "(if compacts c db then (False, db_Version db1) else (torn \<or> tears c db, v)) = (t, w)" by fastforce
  with db1(4) have "db_state fl t w db1" by (auto split: if_splits)
  from Cons.IH [OF this] Cons.prems(2,3) db1(1-3) tw show ?case by auto
qed simp

lemma file_state_append:
  "rfold (db_exec fl) cmds db = Inr db1 \<Longrightarrow> file_state fl (cmds @ cs) db g = file_state fl cs db1 (file_state fl cmds db g)"
proof (induction cmds arbitrary: db g)
  case (Cons c cmds)
  then show ?case by (cases g) (auto simp: rbind_Inr_conv)
qed simp

lemma clean_file_state:
  assumes "\<forall>c \<in> set cmds. clean_cmd c" "rfold (db_exec fl) cmds db = Inr db1"
    and "\<forall>c \<in> set cmds. valid_cmd fl c" "db_state fl False (db_Version db) db"
  shows "file_state fl cmds db (False, db_Version db) = (False, db_Version db1)"
  using assms
proof (induction cmds arbitrary: db)
  case (Cons c cmds)
  then obtain db' where db': "db_exec fl c db = Inr db'" "rfold (db_exec fl) cmds db' = Inr db1" by (auto simp: rbind_Inr_conv)
  have "\<not> tears c db" using Cons.prems(1) by (cases "(c, db)" rule: tears.cases) auto
  moreover have "compacts c db \<or> db_Version db' = db_Version db"
    using db_exec_state [OF Cons.prems(4), of c] Cons.prems(1,3) db'(1) by (cases c) auto
  ultimately have g: "(if compacts c db then (False, db_Version db') else (False \<or> tears c db, db_Version db)) = (False, db_Version db')" by auto
  have "db_state fl False (db_Version db') db'"
    using db_exec_state [OF Cons.prems(4), of c] Cons.prems(3) db'(1) g by (auto split: if_splits)
  from Cons.IH [OF _ db'(2) _ this] Cons.prems(1,3) show ?case by (simp only: file_state.simps db'(1) sum.case g) simp
qed simp

lemma db_inv_state: "db_inv fl v db \<Longrightarrow> db_state fl False v db"
  by (auto simp: db_state_def db_inv_def dest: db_mirror_records)

text \<open>
  C8: the database is durable. Whatever is saved, deleted, flushed and bumped, with or without
  compactions in between, and however the writes end, no operation panics and the map in memory
  is the one the operations make. After a flush that succeeds, the file opened again holds exactly
  that map, unless an append has failed with some of its bytes written and no compaction has
  succeeded since; and it has the version of the last compaction. When no write has failed but for
  flushes that left no byte, the file is not torn and the version is the one that was set last.
\<close>

theorem db_durable:
  assumes fl: "flate_ok fl" and inv: "db_inv fl (db_Version db) db" and cmds: "\<forall>c \<in> set cmds. valid_cmd fl c"
  shows "\<exists>db1 db2. rfold (db_exec fl) cmds db = Inr db1 \<and> go_get (db_Records db1) = fold map_exec cmds (go_get (db_Records db))
    \<and> Flush fl Written db1 = Inr (True, db2)
    \<and> (\<forall>v. file_state fl (cmds @ [CFlush Written]) db (False, db_Version db) = (False, v) \<longrightarrow>
         (\<exists>db3. db_Open fl Written (db_file db2) = Inr (Some db3)
           \<and> go_get (db_Records db3) = fold map_exec cmds (go_get (db_Records db)) \<and> db_Version db3 = v \<and> db_inv fl v db3))
    \<and> ((\<forall>c \<in> set cmds. clean_cmd c) \<longrightarrow>
         file_state fl (cmds @ [CFlush Written]) db (False, db_Version db) = (False, fold cmd_version cmds (db_Version db)))"
proof -
  note st = db_inv_state [OF inv]
  obtain t w where tw: "file_state fl cmds db (False, db_Version db) = (t, w)" by fastforce
  obtain db1 where db1: "rfold (db_exec fl) cmds db = Inr db1" "db_state fl t w db1"
    "go_get (db_Records db1) = fold map_exec cmds (go_get (db_Records db))" "db_Version db1 = fold cmd_version cmds (db_Version db)"
    using db_run_state [OF st cmds tw] by blast
  obtain db2 where db2: "Flush fl Written db1 = Inr (True, db2)" "db_Records db2 = db_Records db1" "db_Version db2 = db_Version db1"
    using Flush_state [OF db1(2), of Written] by auto
  have all: "rfold (db_exec fl) (cmds @ [CFlush Written]) db = Inr db2" using db1(1) db2(1) by (simp add: rfold_append)
  have none: "db_pending db2 = None"
    using db2(1) by (auto simp: Flush_def compact_def rbind_Inr_conv split: if_splits option.splits)
  have "\<exists>db3. db_Open fl Written (db_file db2) = Inr (Some db3) \<and> go_get (db_Records db3) = fold map_exec cmds (go_get (db_Records db))
      \<and> db_Version db3 = v \<and> db_inv fl v db3"
    if "file_state fl (cmds @ [CFlush Written]) db (False, db_Version db) = (False, v)" for v
  proof -
    have "db_state fl False v db2" using db_run_state [OF st _ that] cmds all by auto
    then obtain es where "db_mirror fl v es [] db2" using none by (auto simp: db_state_def db_inv_def db_mirror_def split: if_splits)
    from Open_conv [OF this fl] show ?thesis using db2(2) db1(3) unfolding db_inv_def by metis
  qed
  moreover have "file_state fl (cmds @ [CFlush Written]) db (False, db_Version db) = (False, fold cmd_version cmds (db_Version db))"
    if "\<forall>c \<in> set cmds. clean_cmd c"
    using clean_file_state [of "cmds @ [CFlush Written]", OF _ all _ st] that cmds db2(3) db1(4) by simp
  ultimately show ?thesis using db1(1,3) db2(1) by blast
qed

section \<open>A write that fails half-way\<close>

lemma take_enc_all:
  assumes "flate_ok fl" "\<forall>e \<in> set ps. valid_entry fl e"
  shows "\<exists>i \<le> length ps. \<exists>rest. take n (enc_all fl ps) = enc_all fl (take i ps) @ rest \<and> deserializeRecord fl rest = None"
  using assms(2)
proof (induction ps arbitrary: n)
  case (Cons e ps)
  show ?case
  proof (cases "n < length (enc fl e)")
    case True
    then have "deserializeRecord fl (take n (enc fl e)) = None" using decode_truncated [OF assms(1)] Cons.prems by simp
    then show ?thesis using True by (intro exI [of _ 0]) auto
  next
    case False
    obtain i rest where "i \<le> length ps" "take (n - length (enc fl e)) (enc_all fl ps) = enc_all fl (take i ps) @ rest" "deserializeRecord fl rest = None"
      using Cons.IH [of "n - length (enc fl e)"] Cons.prems by auto
    then show ?thesis using False by (intro exI [of _ "Suc i"]) auto
  qed
qed simp

lemma log_prefixes:
  assumes "db_mirror fl v es [] db" "\<forall>c \<in> set cmds. valid_cmd fl c \<and> (\<forall>io. c \<noteq> CFlush io) \<and> (\<forall>io w. c \<noteq> CBump io w)"
    and "rfold (db_exec fl) cmds db = Inr db1"
  shows "\<exists>ps. db_mirror fl v es ps db1 \<and> go_get (db_Records db1) = fold map_exec cmds (go_get (db_Records db))
    \<and> (\<forall>i \<le> length ps. \<exists>j \<le> length cmds. go_get (fold apply_record (es @ take i ps) (Some [])) = fold map_exec (take j cmds) (go_get (db_Records db)))"
  using assms(2,3)
proof (induction cmds arbitrary: db1 rule: rev_induct)
  case Nil
  then show ?case using assms(1) by (intro exI [of _ "[]"]) (auto simp: db_mirror_def)
next
  case (snoc c cmds)
  from snoc.prems(2) obtain db' where db': "rfold (db_exec fl) cmds db = Inr db'" "db_exec fl c db' = Inr db1"
    by (auto simp: rfold_append rbind_Inr_conv)
  from snoc.IH [OF _ db'(1)] snoc.prems(1) obtain ps where m: "db_mirror fl v es ps db'"
    and now: "go_get (db_Records db') = fold map_exec cmds (go_get (db_Records db))"
    and old: "\<forall>i \<le> length ps. \<exists>j \<le> length cmds. go_get (fold apply_record (es @ take i ps) (Some [])) = fold map_exec (take j cmds) (go_get (db_Records db))"
    by auto
  obtain e where e: "db_mirror fl v es ps db1 \<or> db_mirror fl v es (ps @ [e]) db1" "go_get (db_Records db1) = map_exec c (go_get (db_Records db'))"
  proof (cases c)
    case (CSave key val seq)
    then show ?thesis using that Save_conv [OF m, of key val seq] snoc.prems(1) db'(2) by fastforce
  next
    case (CDelete key)
    then show ?thesis using that Delete_conv [OF m, of key] snoc.prems(1) db'(2) by fastforce
  qed (use snoc.prems(1) in auto)
  then have new: "go_get (db_Records db1) = fold map_exec (cmds @ [c]) (go_get (db_Records db))" using now by simp
  have old': "\<exists>j \<le> length (cmds @ [c]). go_get (fold apply_record (es @ take i ps) (Some [])) = fold map_exec (take j (cmds @ [c])) (go_get (db_Records db))"
    if i: "i \<le> length ps" for i
  proof -
    obtain j where "j \<le> length cmds" "go_get (fold apply_record (es @ take i ps) (Some [])) = fold map_exec (take j cmds) (go_get (db_Records db))"
      using old i by blast
    then show ?thesis by (intro exI [of _ j]) simp
  qed
  from e(1) show ?case
  proof
    assume "db_mirror fl v es ps db1"
    then show ?thesis using new old' by blast
  next
    assume m1: "db_mirror fl v es (ps @ [e]) db1"
    then have "db_Records db1 = fold apply_record (es @ ps @ [e]) (Some [])" by (simp add: db_mirror_def)
    with new have "go_get (fold apply_record (es @ take (Suc (length ps)) (ps @ [e])) (Some [])) = fold map_exec (take (Suc (length cmds)) (cmds @ [c])) (go_get (db_Records db))"
      by simp
    then have "\<forall>i \<le> length (ps @ [e]). \<exists>j \<le> length (cmds @ [c]). go_get (fold apply_record (es @ take i (ps @ [e])) (Some [])) = fold map_exec (take j (cmds @ [c])) (go_get (db_Records db))"
      using old' by (auto simp: le_Suc_eq)
    then show ?thesis using m1 new by blast
  qed
qed

text \<open>
  C9: a flush that fails half-way, however many bytes have reached the file, leaves a file that
  reads as the map after some of the operations since the last flush, in their order; none of
  them is seen in part.
\<close>

theorem db_crash_prefix:
  assumes fl: "flate_ok fl" and inv: "db_inv fl v db" "db_pending db = None"
    and cmds: "\<forall>c \<in> set cmds. valid_cmd fl c \<and> (\<forall>io. c \<noteq> CFlush io) \<and> (\<forall>io w. c \<noteq> CBump io w)"
    and run: "rfold (db_exec fl) cmds db = Inr db1" and flush: "Flush fl (Failed n) db1 = Inr (ok, db2)"
  shows "\<exists>j \<le> length cmds. \<exists>m k. deserializeDB fl (db_file db2) = (v, m, k) \<and> go_get m = fold map_exec (take j cmds) (go_get (db_Records db))"
proof -
  obtain es where m0: "db_mirror fl v es [] db"
    using inv by (auto simp: db_inv_def db_mirror_def split: if_splits)
  obtain ps where m: "db_mirror fl v es ps db1"
    and pre: "\<forall>i \<le> length ps. \<exists>j \<le> length cmds. go_get (fold apply_record (es @ take i ps) (Some [])) = fold map_exec (take j cmds) (go_get (db_Records db))"
    using log_prefixes [OF m0 cmds run] by blast
  obtain hdr where hdr: "header_for v hdr" "db_file db1 = hdr @ enc_all fl es" using m by (auto simp: db_mirror_def)
  have ve: "\<forall>e \<in> set ps. valid_entry fl e" "\<forall>e \<in> set es. valid_entry fl e" using m by (auto simp: db_mirror_def)
  have "\<exists>k. db_file db2 = hdr @ enc_all fl es @ take k (enc_all fl ps)"
  proof (cases "go_len (db_Records db1) < db_uncompacted db1 div 10 * 9 \<or> db_pending db1 = None")
    case True
    then have "db_file db2 = db_file db1"
      using flush compact_mirror(2) [OF db_mirror_records [OF m]] by (auto simp: Flush_def split: if_splits)
    then show ?thesis using hdr(2) by (intro exI [of _ 0]) simp
  next
    case False
    then show ?thesis using flush hdr(2) m by (auto simp: Flush_def db_mirror_def split: if_splits)
  qed
  then obtain k where k: "db_file db2 = hdr @ enc_all fl es @ take k (enc_all fl ps)" by blast
  obtain i rest where i: "i \<le> length ps" and t: "take k (enc_all fl ps) = enc_all fl (take i ps) @ rest" and r: "deserializeRecord fl rest = None"
    using take_enc_all [OF fl ve(1), of k] by blast
  have disk: "db_file db2 = hdr @ enc_all fl (es @ take i ps) @ rest" using k t by simp
  have "\<forall>e \<in> set (es @ take i ps). valid_entry fl e" using ve by (auto dest: in_set_takeD)
  then have "deserializeDB fl (db_file db2) = (v, fold apply_record (es @ take i ps) (Some []), length (es @ take i ps))"
    unfolding disk using deserializeDB_enc [OF fl hdr(1) _ r] by blast
  moreover obtain j where "j \<le> length cmds" "go_get (fold apply_record (es @ take i ps) (Some [])) = fold map_exec (take j cmds) (go_get (db_Records db))"
    using pre i by blast
  ultimately show ?thesis by blast
qed

section \<open>Examples\<close>

text \<open>A stand-in for compression that marks the end of the data: every byte is preceded by a one, the end is a zero.\<close>

fun ex_deflate :: "bytes \<Rightarrow> bytes" where
  "ex_deflate [] = [CHR 0x00]"
| "ex_deflate (c # cs) = CHR 0x01 # c # ex_deflate cs"

fun ex_inflate :: "bytes \<Rightarrow> bytes option" where
  "ex_inflate (x # xs) = (if x = CHR 0x00 then Some [] else case xs of [] \<Rightarrow> None | c # ys \<Rightarrow> map_option (\<lambda>cs. c # cs) (ex_inflate ys))"
| "ex_inflate [] = None"

definition ex_flate :: flate where
  "ex_flate = \<lparr>fl_Write = ex_deflate, fl_Read = ex_inflate\<rparr>"

lemma ex_flate_ok: "flate_ok ex_flate"
proof -
  have "ex_inflate (ex_deflate v) = Some v \<and> ex_deflate v \<noteq> []" for v by (induction v) auto
  moreover have "n < length (ex_deflate v) \<Longrightarrow> ex_inflate (take n (ex_deflate v)) = None" for n v
  proof (induction v arbitrary: n)
    case (Cons c v)
    then show ?case by (cases n; cases "n - 1") auto
  qed simp
  ultimately show ?thesis by (simp add: flate_ok_def ex_flate_def)
qed

definition ex_db :: DB where
  "ex_db = \<lparr>db_Version = 0, db_Records = Some [], db_uncompacted = 0, db_pending = None, db_file = serializeHeader 0\<rparr>"

lemma ex_db_opened: "db_Open fl Written [] = Inr (Some ex_db)"
  by (simp add: db_Open_def deserializeDB_def deserializeHeader_def load_end compact_def ex_db_def go_len_def)

lemma ex_db_inv: "db_inv fl 0 ex_db"
  unfolding db_inv_def db_mirror_def
  by (intro exI [of _ "[]"] conjI exI [of _ "serializeHeader 0"]) (simp_all add: ex_db_def serializeHeader_for)

lemma ex_cmds_valid: "\<forall>c \<in> set [CSave ''a'' ''x'' 1, CSave ''b'' ''y'' 2, CDelete ''a'']. valid_cmd ex_flate c"
  by (simp add: valid_entry_def ex_flate_def seqDeleted_def)

text \<open>A flush fails after 7 bytes; then a bump rewrites the file.\<close>

definition ex_cmds :: "db_cmd list" where
  "ex_cmds = [CSave ''a'' ''x'' 1, CFlush (Failed 7), CBump Written 5, CSave ''b'' ''y'' 2, CDelete ''a'']"

lemma ex_file_state: "file_state ex_flate (ex_cmds @ [CFlush Written]) ex_db (False, 0) = (False, 5)"
  by (simp add: ex_cmds_def ex_db_def worn_def Save_def Delete_def Flush_def BumpVersion_def compact_def db_serialize_def
      serializeRecord_def seqDeleted_def Let_def go_len_def go_set_def go_del_def go_put_def go_get_def go_keys_def)

theorem db_durable_witness:
  "\<exists>db1 db2 db3. rfold (db_exec ex_flate) ex_cmds ex_db = Inr db1
    \<and> Flush ex_flate Written db1 = Inr (True, db2) \<and> db_Open ex_flate Written (db_file db2) = Inr (Some db3)
    \<and> go_get (db_Records db3) = [''b'' \<mapsto> \<lparr>r_Val = ''y'', r_Seq = 2\<rparr>] \<and> db_Version db3 = 5"
proof -
  have inv: "db_inv ex_flate (db_Version ex_db) ex_db" and v: "db_Version ex_db = 0" using ex_db_inv by (simp_all add: ex_db_def)
  have valid: "\<forall>c \<in> set ex_cmds. valid_cmd ex_flate c"
    by (simp add: ex_cmds_def valid_entry_def ex_flate_def seqDeleted_def)
  have "fold map_exec ex_cmds (go_get (db_Records ex_db)) = [''b'' \<mapsto> \<lparr>r_Val = ''y'', r_Seq = 2\<rparr>]"
    by (auto simp: ex_cmds_def ex_db_def fun_eq_iff)
  with db_durable [OF ex_flate_ok inv valid] ex_file_state [folded v] show ?thesis by metis
qed

theorem db_crash_prefix_witness:
  "\<exists>db1 ok db2 j m k. rfold (db_exec ex_flate) [CSave ''a'' ''x'' 1, CSave ''b'' ''y'' 2] ex_db = Inr db1 \<and> Flush ex_flate (Failed 30) db1 = Inr (ok, db2)
    \<and> j \<le> 2 \<and> deserializeDB ex_flate (db_file db2) = (0, m, k)
    \<and> go_get m = fold map_exec (take j [CSave ''a'' ''x'' 1, CSave ''b'' ''y'' 2]) (go_get (db_Records ex_db))"
proof -
  let ?cmds = "[CSave ''a'' ''x'' 1, CSave ''b'' ''y'' 2]"
  have ex: "db_inv ex_flate (db_Version ex_db) ex_db" "db_pending ex_db = None" using ex_db_inv by (simp_all add: ex_db_def)
  have cmds: "\<forall>c \<in> set ?cmds. valid_cmd ex_flate c \<and> (\<forall>io. c \<noteq> CFlush io) \<and> (\<forall>io w. c \<noteq> CBump io w)"
    using ex_cmds_valid by simp
  obtain t v where "file_state ex_flate ?cmds ex_db (False, db_Version ex_db) = (t, v)" by fastforce
  from db_run_state [OF db_inv_state [OF ex(1)] _ this] cmds obtain db1 where
    db1: "rfold (db_exec ex_flate) ?cmds ex_db = Inr db1" "db_state ex_flate t v db1" by blast
  then have "records_ok ex_flate (db_Records db1)" by (simp add: db_state_def)
  then have "\<exists>ok db2. Flush ex_flate (Failed 30) db1 = Inr (ok, db2)"
    by (auto simp: Flush_def compact_mirror(2) split: option.split)
  then obtain ok db2 where db2: "Flush ex_flate (Failed 30) db1 = Inr (ok, db2)" by blast
  from db_crash_prefix [OF ex_flate_ok ex_db_inv ex(2) cmds db1(1) db2] obtain j m k where
    "j \<le> length ?cmds" and r: "deserializeDB ex_flate (db_file db2) = (0, m, k)" "go_get m = fold map_exec (take j ?cmds) (go_get (db_Records ex_db))"
    by blast
  then have "j \<le> 2" by simp
  then show ?thesis using db1(1) db2 r by blast
qed

text \<open>
  The code keeps the pending data after such a failure and appends it again, behind the part
  that was written, where nothing is read any more: the retry succeeds and its data is lost.
\<close>

definition ex_retry :: "(string, Record) gomap res" where
  "ex_retry =
    rbind (Save ex_flate ''a'' ''x'' 1 ex_db) (\<lambda>db1.
    rbind (Flush ex_flate (Failed 7) db1) (\<lambda>(_, db2).
    rbind (Flush ex_flate Written db2) (\<lambda>(ok, db3).
    if ok then Inr (fst (snd (deserializeDB ex_flate (db_file db3)))) else Inl (Fatal ''not written''))))"

lemma le_bytes_numeral: "le_bytes (numeral k) x = char_of (x mod 256) # le_bytes (pred_numeral k) (x div 256)"
  by (simp only: numeral_eq_Suc [of k] le_bytes.simps)

lemma char_of_bytes: "char_of (173 :: nat) = CHR 0xad" "char_of (27 :: nat) = CHR 0x1b" "char_of (238 :: nat) = CHR 0xee" "char_of (15 :: nat) = CHR 0x0f"
  "char_of (Suc 0) = CHR 0x01" "char_of (0 :: nat) = CHR 0x00"
  using char_of_char [where ?'a = nat and c = "CHR 0xad"] char_of_char [where ?'a = nat and c = "CHR 0x1b"]
    char_of_char [where ?'a = nat and c = "CHR 0xee"] char_of_char [where ?'a = nat and c = "CHR 0x0f"]
    char_of_char [where ?'a = nat and c = "CHR 0x01"] char_of_char [where ?'a = nat and c = "CHR 0x00"]
  by (simp_all del: char_of_char)

lemma put_small: "put32 recMagic = [CHR 0xad, CHR 0x1b, CHR 0xee, CHR 0x0f]" "put32 1 = [CHR 0x01, CHR 0x00, CHR 0x00, CHR 0x00]"
  "put64 1 = [CHR 0x01, CHR 0x00, CHR 0x00, CHR 0x00, CHR 0x00, CHR 0x00, CHR 0x00, CHR 0x00]"
  by (simp_all add: put32_def put64_def recMagic_def le_bytes_numeral char_of_bytes)

lemma retry_loses_data: "ex_retry = Inr (Some [])"
proof -
  have "deserializeDB ex_flate (serializeHeader 0 @ bs) = (0, load_records ex_flate bs (Some []) 0)" for bs
    using serializeHeader_for [of 0] by (simp add: deserializeDB_def header_for_def)
  moreover have "deserializeRecord fl (CHR 0xAD # CHR 0x1B # CHR 0xEE # CHR 0x0F # CHR 0x01 # CHR 0x00 # CHR 0x00 # CHR 0xAD # rest) = None"
    if "length rest < 100" for fl rest
    using that by (simp add: deserializeRecord_def get32_def recMagic_def)
  ultimately show ?thesis
    by (simp add: ex_retry_def Save_def Flush_def ex_db_def db_serialize_def serializeRecord_def ex_flate_def put_small seqDeleted_def load_end)
qed

text \<open>
  A bump whose compaction fails has changed the version in memory already; the same bump again
  only flushes, succeeds, and the file keeps the old version.
\<close>

lemma bump_retry_keeps_version:
  assumes "flate_ok fl" "db_inv fl v db" "db_Version db = v" "version \<noteq> v" "\<not> worn db"
  shows "\<exists>db1 db2 db3. BumpVersion fl (Failed n) version db = Inr (False, db1) \<and> BumpVersion fl Written version db1 = Inr (True, db2)
    \<and> db_Open fl Written (db_file db2) = Inr (Some db3) \<and> db_Version db3 = v"
proof -
  obtain es ps where m: "db_mirror fl v es ps db" using assms(2) by (auto simp: db_inv_def)
  let ?db = "db\<lparr>db_Version := version\<rparr>"
  have "records_ok fl (db_Records ?db)" using db_mirror_records [OF m] by simp
  then have "BumpVersion fl (Failed n) version db = Inr (False, ?db)"
    using compact_failed [of fl ?db] assms(3,4) by (simp add: BumpVersion_def)
  moreover have "db_mirror fl v es ps ?db" using m by (simp add: db_mirror_def)
  from Flush_appends [OF this] assms(5) obtain db2 where "Flush fl Written ?db = Inr (True, db2)" "db_mirror fl v (es @ ps) [] db2"
    by (auto simp: worn_def)
  moreover from Open_conv [OF this(2) assms(1)] obtain db3 where "db_Open fl Written (db_file db2) = Inr (Some db3)" "db_Version db3 = v" by blast
  ultimately show ?thesis by (intro exI [of _ ?db] exI [of _ db2] exI [of _ db3]) (simp add: BumpVersion_def)
qed

section \<open>The database as a store\<close>

text \<open>
  What the users of a database rely on: saving and deleting change the map at one key, flushing
  does not change it, and none of them panics on records with ordinary sequence numbers. The
  loops of the hub over keys are here, for any such store.
\<close>

locale kv_store =
  fixes view :: "'s \<Rightarrow> 'k \<Rightarrow> 'v option" and good :: "'s \<Rightarrow> bool" and fits :: "'v \<Rightarrow> bool"
    and save :: "'k \<Rightarrow> 'v \<Rightarrow> 's \<Rightarrow> 's res" and del :: "'k \<Rightarrow> 's \<Rightarrow> 's res" and flush :: "io \<Rightarrow> 's \<Rightarrow> (bool \<times> 's) res"
  assumes save_law: "good s \<Longrightarrow> fits v \<Longrightarrow> \<exists>s'. save k v s = Inr s' \<and> good s' \<and> view s' = (view s)(k \<mapsto> v)"
    and del_law: "good s \<Longrightarrow> \<exists>s'. del k s = Inr s' \<and> good s' \<and> view s' = (view s)(k := None)"
    and flush_law: "good s \<Longrightarrow> \<exists>b s'. flush i s = Inr (b, s') \<and> good s' \<and> view s' = view s"
begin

lemma del_unless:
  "good s \<Longrightarrow> \<exists>s'. rfold (\<lambda>k s. if P k then Inr s else del k s) ks s = Inr s' \<and> good s'
     \<and> view s' = (\<lambda>k. if k \<in> set ks \<and> \<not> P k then None else view s k)"
proof (induction ks arbitrary: s)
  case (Cons k ks)
  show ?case
  proof (cases "P k")
    case True
    with Cons.IH [OF Cons.prems] show ?thesis by (auto simp: fun_eq_iff)
  next
    case False
    obtain s1 where s1: "del k s = Inr s1" "good s1" "view s1 = (view s)(k := None)" using del_law [OF Cons.prems] by blast
    from Cons.IH [OF s1(2)] s1 False show ?thesis by (auto simp: fun_eq_iff)
  qed
qed simp

lemma del_all:
  "good s \<Longrightarrow> \<exists>s'. rfold del ks s = Inr s' \<and> good s' \<and> view s' = (\<lambda>k. if k \<in> set ks then None else view s k)"
  using del_unless [of s "\<lambda>_. False" ks] by simp

end

definition db_good :: "DB \<Rightarrow> bool" where
  "db_good db \<longleftrightarrow> db_Records db \<noteq> None \<and> wfm (db_Records db) \<and> (\<forall>kr \<in> set (go_range (db_Records db)). r_Seq (snd kr) \<noteq> seqDeleted)"

abbreviation db_view :: "DB \<Rightarrow> string \<Rightarrow> Record option" where
  "db_view db \<equiv> go_get (db_Records db)"

lemma serializeRecord_returns: "seq \<noteq> seqDeleted \<or> val = [] \<Longrightarrow> \<exists>bs. serializeRecord fl key val seq = Inr bs"
  by (auto simp: serializeRecord_def Let_def)

lemma compact_returns:
  assumes "db_good db"
  shows "\<exists>b db'. compact fl i db = Inr (b, db') \<and> db_good db' \<and> db_Records db' = db_Records db \<and> (i = Written \<longrightarrow> b)"
proof -
  have "\<exists>buf. rfold (\<lambda>(key, rec) buf. rmap (\<lambda>bs. buf @ bs) (serializeRecord fl key (r_Val rec) (r_Seq rec)))
      (go_range (db_Records db)) (serializeHeader (db_Version db)) = Inr buf \<and> True"
  proof (rule rfold_total)
    fix kr buf assume "kr \<in> set (go_range (db_Records db))"
    then have "r_Seq (snd kr) \<noteq> seqDeleted" using assms by (auto simp: db_good_def)
    then show "\<exists>s'. (case kr of (key, rec) \<Rightarrow> \<lambda>buf. rmap (\<lambda>bs. buf @ bs) (serializeRecord fl key (r_Val rec) (r_Seq rec))) buf = Inr s' \<and> True"
      using serializeRecord_returns [of "r_Seq (snd kr)" "r_Val (snd kr)" fl "fst kr"] by (cases kr) auto
  qed simp
  then show ?thesis using assms by (cases i) (auto simp: compact_def db_good_def)
qed

lemma db_good_set: "db_good db \<Longrightarrow> seq \<noteq> seqDeleted \<Longrightarrow> db_good (db\<lparr>db_Records := go_set key \<lparr>r_Val = val, r_Seq = seq\<rparr> (db_Records db)\<rparr>)"
  using go_range_set [of key "\<lparr>r_Val = val, r_Seq = seq\<rparr>" "db_Records db"] by (auto simp: db_good_def)

lemma db_good_del: "db_good db \<Longrightarrow> db_good (db\<lparr>db_Records := go_del key (db_Records db)\<rparr>)"
  using go_range_del [of key "db_Records db"] by (auto simp: db_good_def)

lemma db_good_fields [simp]:
  "db_good (db\<lparr>db_pending := p\<rparr>) = db_good db" "db_good (db\<lparr>db_uncompacted := n\<rparr>) = db_good db" "db_good (db\<lparr>db_file := f\<rparr>) = db_good db"
  by (simp_all add: db_good_def)

lemma Save_law:
  assumes "db_good db" "r_Seq rec \<noteq> seqDeleted"
  shows "\<exists>db'. Save fl key (r_Val rec) (r_Seq rec) db = Inr db' \<and> db_good db' \<and> db_view db' = (db_view db)(key \<mapsto> rec)"
proof -
  obtain bs where "serializeRecord fl key (r_Val rec) (r_Seq rec) = Inr bs" using serializeRecord_returns assms(2) by blast
  moreover have "db_Records db \<noteq> None" using assms by (simp add: db_good_def)
  ultimately show ?thesis
    using assms db_good_set [OF assms, of key "r_Val rec"] by (auto simp: Save_def db_serialize_def fun_eq_iff split: option.splits)
qed

lemma Delete_law:
  assumes "db_good db"
  shows "\<exists>db'. Delete fl key db = Inr db' \<and> db_good db' \<and> db_view db' = (db_view db)(key := None)"
proof (cases "go_has (db_Records db) key")
  case True
  then show ?thesis
    using db_good_del [OF assms, of key] serializeRecord_returns [of seqDeleted "[]" fl key] by (auto simp: Delete_def db_serialize_def fun_eq_iff)
next
  case False
  then have "db_view db key = None" using go_key_iff by fastforce
  then show ?thesis using assms False by (auto simp: Delete_def fun_eq_iff)
qed

lemma Flush_law: "db_good db \<Longrightarrow> \<exists>b db'. Flush fl i db = Inr (b, db') \<and> db_good db' \<and> db_view db' = db_view db"
  using compact_returns [of db fl i] by (auto simp: Flush_def split: option.splits io.splits)

interpretation store: kv_store db_view db_good "\<lambda>rec. r_Seq rec \<noteq> seqDeleted"
    "\<lambda>key rec. Save fl key (r_Val rec) (r_Seq rec)" "Delete fl" "Flush fl" for fl
  by unfold_locales (auto intro: Save_law Delete_law Flush_law)

lemma load_records_good:
  "wfm m \<Longrightarrow> m \<noteq> None \<Longrightarrow> \<forall>kr \<in> set (go_range m). r_Seq (snd kr) \<noteq> seqDeleted \<Longrightarrow> load_records fl bs m n = (m', n') \<Longrightarrow>
   wfm m' \<and> m' \<noteq> None \<and> (\<forall>kr \<in> set (go_range m'). r_Seq (snd kr) \<noteq> seqDeleted)"
proof (induction fl bs m n rule: load_records.induct)
  case (1 fl bs m n)
  show ?case
  proof (cases "deserializeRecord fl bs")
    case None
    then show ?thesis using "1.prems" by (simp add: load_records.simps [of fl bs])
  next
    case (Some e)
    obtain key val seq bs' where e: "e = ((key, val, seq), bs')" by (cases e) auto
    have "wfm (apply_record (key, val, seq) m) \<and> apply_record (key, val, seq) m \<noteq> None
        \<and> (\<forall>kr \<in> set (go_range (apply_record (key, val, seq) m)). r_Seq (snd kr) \<noteq> seqDeleted)"
      using "1.prems" go_range_set [of key "\<lparr>r_Val = val, r_Seq = seq\<rparr>" m] go_range_del [of key m] by (auto simp: apply_record_def)
    then show ?thesis using "1.IH" [OF Some e [symmetric]] "1.prems"(4) Some e by (simp add: load_records.simps [of fl bs])
  qed
qed

lemma db_Open_returns:
  "\<exists>r. db_Open fl i bs = Inr r \<and> (\<forall>db. r = Some db \<longrightarrow> db_good db \<and> (bs = [] \<longrightarrow> db_view db = Map.empty)) \<and> (i = Written \<longrightarrow> r \<noteq> None)"
proof -
  obtain ver records n where d: "deserializeDB fl bs = (ver, records, n)" by (metis surj_pair)
  let ?db = "\<lparr>db_Version = ver, db_Records = records, db_uncompacted = n, db_pending = None, db_file = bs\<rparr>"
  have "load_records fl rest (Some []) 0 = (m', n') \<Longrightarrow> wfm m' \<and> m' \<noteq> None \<and> (\<forall>kr \<in> set (go_range m'). r_Seq (snd kr) \<noteq> seqDeleted)" for rest m' n'
    using load_records_good [of "Some []"] by simp
  then have good: "db_good ?db"
    using d by (auto simp: deserializeDB_def db_good_def split: option.splits prod.splits)
  have "bs = [] \<Longrightarrow> records = Some []"
    using d by (auto simp: deserializeDB_def deserializeHeader_def load_end)
  then show ?thesis using compact_returns [OF good, of fl i] good by (auto simp: db_Open_def d Let_def fun_eq_iff split: if_splits)
qed

end
