(* ===== verification/Hub_State.thy ===== *)
theory Hub_State
  imports Corpus_DB Step_System "HOL-Library.Multiset"
begin

text \<open>
  The hub (\<open>syz-hub/state/state.go\<close>, \<open>syz-hub/hub.go\<close>), through which managers exchange
  programs and reproducers. It keeps one database of all programs, numbered by the exchange in
  which they arrived, and for every manager the set of programs the manager has and the number
  up to which it has been served.

  The databases are those of \<open>Corpus_DB\<close>. The files of a manager that hold its two sequence
  numbers are fields of its record. How the file operations to come end is a field of the state,
  \<open>hs_io\<close>, which they use up; when it is used up they succeed. Removing the old corpus file of a
  manager that connects is taken to succeed. The hash, the sorting algorithm and compression
  are the argument \<open>env\<close>. Log messages are left out.
\<close>

section \<open>Numbers as text\<close>

fun dec :: "nat \<Rightarrow> string" where
  "dec n = (if n < 10 then [''0123456789'' ! n] else dec (n div 10) @ [''0123456789'' ! (n mod 10)])"

declare dec.simps [simp del]

definition digit_of :: "char \<Rightarrow> uint64 option" where
  "digit_of c = (if 48 \<le> (of_char c :: nat) \<and> (of_char c :: nat) \<le> 57 then Some (of_nat (of_char c - 48)) else None)"

text \<open>\<open>strconv.ParseUint\<close> in base 10 with 64 bits, without its error: 0 for a bad digit, the largest number on overflow.\<close>

fun parse_digits :: "uint64 \<Rightarrow> string \<Rightarrow> uint64" where
  "parse_digits n [] = n"
| "parse_digits n (c # cs) =
    (case digit_of c of
       None \<Rightarrow> 0
     | Some d \<Rightarrow>
         if NOT 0 div 10 + 1 \<le> n then NOT 0
         else if n * 10 + d < n * 10 then NOT 0
         else parse_digits (n * 10 + d) cs)"

definition parseUint :: "string \<Rightarrow> uint64" where
  "parseUint s = (if s = [] then 0 else parse_digits 0 s)"

section \<open>The calls of a program\<close>

definition maxLineLen :: int where "maxLineLen = 2 ^ 20"

text \<open>\<open>bufio.ScanLines\<close>: the lines without their end; the last one may lack it. A carriage return before it is dropped.\<close>

fun scan_lines :: "bytes \<Rightarrow> bytes \<Rightarrow> bytes list" where
  "scan_lines cur [] = (if cur = [] then [] else [cur])"
| "scan_lines cur (c # cs) = (if c = CHR 0x0A then cur # scan_lines [] cs else scan_lines (cur @ [c]) cs)"

definition drop_cr :: "bytes \<Rightarrow> bytes" where
  "drop_cr ln = (if ln \<noteq> [] \<and> last ln = CHR 0x0D then butlast ln else ln)"

definition call_name :: "bytes \<Rightarrow> string option" where
  "call_name ln =
    (if CHR ''('' \<notin> set ln then None
     else
       let call = takeWhile (\<lambda>c. c \<noteq> CHR ''('') ln;
           call' = (if CHR ''='' \<in> set call then dropWhile (\<lambda>c. c = CHR '' '') (tl (dropWhile (\<lambda>c. c \<noteq> CHR ''='') call)) else call)
       in if call' = [] then None else Some call')"

fun call_set_loop :: "bytes list \<Rightarrow> (string, unit) gomap \<Rightarrow> (string, unit) gomap option" where
  "call_set_loop [] calls = Some calls"
| "call_set_loop (ln0 # lns) calls =
    (if maxLineLen \<le> int (length ln0) then None
     else let ln = drop_cr ln0 in
       if ln = [] \<or> hd ln = CHR ''#'' then call_set_loop lns calls
       else case call_name ln of None \<Rightarrow> None | Some call \<Rightarrow> call_set_loop lns (go_set call () calls))"

definition CallSet :: "bytes \<Rightarrow> (string, unit) gomap option" where
  "CallSet data =
    (case call_set_loop (scan_lines [] data) (Some []) of
       None \<Rightarrow> None | Some calls \<Rightarrow> if go_len calls = 0 then None else Some calls)"

section \<open>State\<close>

record hub_env =
  he_flate :: flate
  he_hash :: "bytes \<Rightarrow> string"
  he_sort :: "(Record \<Rightarrow> Record \<Rightarrow> bool) \<Rightarrow> Record list \<Rightarrow> Record list"

record hub_Manager =
  hm_name :: string
  hm_corpusSeq :: uint64
  hm_reproSeq :: uint64
  hm_corpusSeqFile :: bytes
  hm_reproSeqFile :: bytes
  hm_ownRepros :: "(string, bool) gomap"
  hm_Connected :: bool
  hm_Added :: int
  hm_Deleted :: int
  hm_New :: int
  hm_SentRepros :: int
  hm_RecvRepros :: int
  hm_Calls :: "(string, unit) gomap"
  hm_Corpus :: "DB option"

record hub_State =
  hs_corpusSeq :: uint64
  hs_reproSeq :: uint64
  hs_Corpus :: DB
  hs_Repros :: DB
  hs_Managers :: "(string, hub_Manager) gomap"
  hs_io :: "io list"

text \<open>What a manager's directory holds.\<close>

record mgr_files =
  mf_corpus :: bytes
  mf_seq :: bytes
  mf_reproSeq :: bytes

definition next_io :: "io list \<Rightarrow> io \<times> io list" where
  "next_io ios = (case ios of [] \<Rightarrow> (Written, []) | i # is \<Rightarrow> (i, is))"

definition writeFile :: "io \<Rightarrow> bytes \<Rightarrow> bytes" where
  "writeFile i data = (case i of Written \<Rightarrow> data | Failed n \<Rightarrow> take n data)"

definition saveSeqFile :: "uint64 \<Rightarrow> io list \<Rightarrow> bytes \<times> io list" where
  "saveSeqFile seq ios = (case next_io ios of (i, ios') \<Rightarrow> (writeFile i (dec (unat seq)), ios'))"

definition loadSeqFile :: "bytes \<Rightarrow> uint64" where
  "loadSeqFile str = parseUint str"

definition managerSupportsAllCalls :: "(string, unit) gomap \<Rightarrow> (string, unit) gomap \<Rightarrow> bool" where
  "managerSupportsAllCalls mgr calls \<longleftrightarrow> (\<forall>c \<in> set (go_keys calls). go_has mgr c)"

text \<open>A database that is flushed; an error is only logged.\<close>

definition flush_logged :: "flate \<Rightarrow> DB \<Rightarrow> io list \<Rightarrow> (DB \<times> io list) res" where
  "flush_logged fl db ios = (case next_io ios of (i, ios') \<Rightarrow> rmap (\<lambda>(ok, db'). (db', ios')) (Flush fl i db))"

section \<open>Loading\<close>

definition check_record :: "hub_env \<Rightarrow> string \<times> Record \<Rightarrow> DB \<times> uint64 \<Rightarrow> (DB \<times> uint64) res" where
  "check_record env kr s =
    (case (kr, s) of ((key, rec), (db, maxSeq)) \<Rightarrow>
     if CallSet (r_Val rec) = None \<or> he_hash env (r_Val rec) \<noteq> key then rmap (\<lambda>db'. (db', maxSeq)) (Delete (he_flate env) key db)
     else Inr (db, if maxSeq < r_Seq rec then r_Seq rec else maxSeq))"

definition loadDB :: "hub_env \<Rightarrow> bytes \<Rightarrow> io list \<Rightarrow> ((DB \<times> uint64) \<times> io list) res" where
  "loadDB env fl ios =
    (case next_io ios of (i, ios1) \<Rightarrow>
     rbind (db_Open (he_flate env) i fl) (\<lambda>opened.
     case opened of None \<Rightarrow> Inl (Fatal ''failed to open database'') | Some db \<Rightarrow>
       rbind (rfold (check_record env) (go_range (db_Records db)) (db, 0)) (\<lambda>(db1, maxSeq).
       case next_io ios1 of (j, ios2) \<Rightarrow>
       rbind (Flush (he_flate env) j db1) (\<lambda>(ok, db2).
       if ok then Inr ((db2, maxSeq), ios2) else Inl (Fatal ''failed to flush corpus database'')))))"

text \<open>\<open>createManager\<close>; the result is \<open>False\<close> when the corpus of the manager cannot be opened.\<close>

definition createManager :: "hub_env \<Rightarrow> mgr_files \<Rightarrow> string \<Rightarrow> hub_State \<Rightarrow> (bool \<times> hub_State) res" where
  "createManager env fs name st =
    (let corpusSeq = loadSeqFile (mf_seq fs);
         stCorpusSeq = (if hs_corpusSeq st < corpusSeq then corpusSeq else hs_corpusSeq st);
         loaded = loadSeqFile (mf_reproSeq fs);
         reproSeq = (if loaded = 0 then hs_reproSeq st else loaded);
         stReproSeq = (if hs_reproSeq st < reproSeq then reproSeq else hs_reproSeq st);
         (i, ios) = next_io (hs_io st);
         st1 = st\<lparr>hs_corpusSeq := stCorpusSeq, hs_reproSeq := stReproSeq, hs_io := ios\<rparr>
     in rbind (db_Open (he_flate env) i (mf_corpus fs)) (\<lambda>opened.
        case opened of None \<Rightarrow> Inr (False, st1) | Some db \<Rightarrow>
          rbind (go_put name
            \<lparr>hm_name = name, hm_corpusSeq = corpusSeq, hm_reproSeq = reproSeq, hm_corpusSeqFile = mf_seq fs,
              hm_reproSeqFile = mf_reproSeq fs, hm_ownRepros = Some [], hm_Connected = False, hm_Added = 0, hm_Deleted = 0,
              hm_New = 0, hm_SentRepros = 0, hm_RecvRepros = 0, hm_Calls = None, hm_Corpus = Some db\<rparr> (hs_Managers st1)) (\<lambda>ms.
          Inr (True, st1\<lparr>hs_Managers := ms\<rparr>))))"

text \<open>The database pointer of a manager that is nil panics when it is used.\<close>

definition need_db :: "DB option \<Rightarrow> DB res" where
  "need_db d = (case d of None \<Rightarrow> Inl (Panic ''nil pointer dereference'') | Some db \<Rightarrow> Inr db)"

definition purgeCorpus :: "hub_env \<Rightarrow> hub_State \<Rightarrow> hub_State res" where
  "purgeCorpus env st =
    rbind (rfold (\<lambda>(name, mgr) used. rmap (\<lambda>db. used @ go_keys (db_Records db)) (need_db (hm_Corpus mgr)))
       (go_range (hs_Managers st)) []) (\<lambda>used.
    rbind (rfold (\<lambda>key db. if key \<in> set used then Inr db else Delete (he_flate env) key db)
       (go_keys (db_Records (hs_Corpus st))) (hs_Corpus st)) (\<lambda>db.
    rbind (flush_logged (he_flate env) db (hs_io st)) (\<lambda>(db', ios).
    Inr (st\<lparr>hs_Corpus := db', hs_io := ios\<rparr>))))"

text \<open>
  \<open>Make\<close>, on what the directory of the hub holds: the two databases and, unless it cannot be
  read, the directories of the managers. The result is \<open>None\<close> for an error.
\<close>

definition create_each :: "hub_env \<Rightarrow> string \<times> mgr_files \<Rightarrow> bool \<times> hub_State \<Rightarrow> (bool \<times> hub_State) res" where
  "create_each env nf s = (if fst s then createManager env (snd nf) (fst nf) (snd s) else Inr s)"

definition Make :: "hub_env \<Rightarrow> bytes \<Rightarrow> bytes \<Rightarrow> (string \<times> mgr_files) list option \<Rightarrow> io list \<Rightarrow> hub_State option res" where
  "Make env corpus repro managers ios =
    rbind (loadDB env corpus ios) (\<lambda>((db, corpusSeq), ios1).
    rbind (loadDB env repro ios1) (\<lambda>((rdb, reproSeq), ios2).
    case managers of None \<Rightarrow> Inr None | Some ms \<Rightarrow>
      rbind (rfold (create_each env) ms (True,
        \<lparr>hs_corpusSeq = corpusSeq, hs_reproSeq = reproSeq, hs_Corpus = db, hs_Repros = rdb, hs_Managers = Some [], hs_io = ios2\<rparr>)) (\<lambda>(ok, st).
      if ok then rmap Some (purgeCorpus env st) else Inr None)))"

section \<open>Exchange of programs\<close>

definition hub_addInput :: "hub_env \<Rightarrow> bytes \<Rightarrow> DB \<times> DB \<times> uint64 \<Rightarrow> (DB \<times> DB \<times> uint64) res" where
  "hub_addInput env inp s =
    (case s of (mdb, db, seq) \<Rightarrow>
     if CallSet inp = None then Inr s
     else
       rbind (Save (he_flate env) (he_hash env inp) [] 0 mdb) (\<lambda>mdb'.
       if go_has (db_Records db) (he_hash env inp) then Inr (mdb', db, seq)
       else rmap (\<lambda>db'. (mdb', db', seq)) (Save (he_flate env) (he_hash env inp) inp seq db)))"

definition add_step :: "hub_env \<Rightarrow> uint64 \<Rightarrow> bytes \<Rightarrow> DB option \<times> DB \<Rightarrow> (DB option \<times> DB) res" where
  "add_step env seq inp s =
    (case s of
       (Some mdb, db) \<Rightarrow> rmap (\<lambda>(mdb', db', seq). (Some mdb', db')) (hub_addInput env inp (mdb, db, seq))
     | (None, db) \<Rightarrow> if CallSet inp = None then Inr (None, db) else Inl (Panic ''nil pointer dereference''))"

definition put_mgr :: "hub_Manager \<Rightarrow> hub_State \<Rightarrow> hub_State" where
  "put_mgr mgr st = st\<lparr>hs_Managers := go_set (hm_name mgr) mgr (hs_Managers st)\<rparr>"

definition addInputs :: "hub_env \<Rightarrow> hub_Manager \<Rightarrow> bytes list \<Rightarrow> hub_State \<Rightarrow> (hub_Manager \<times> hub_State) res" where
  "addInputs env mgr inputs st =
    (if inputs = [] then Inr (mgr, st)
     else
       let st1 = st\<lparr>hs_corpusSeq := hs_corpusSeq st + 1\<rparr> in
       rbind (rfold (add_step env (hs_corpusSeq st1)) inputs (hm_Corpus mgr, hs_Corpus st1)) (\<lambda>(mc, db).
       rbind (need_db mc) (\<lambda>mdb.
       rbind (flush_logged (he_flate env) mdb (hs_io st1)) (\<lambda>(mdb', ios1).
       rbind (flush_logged (he_flate env) db ios1) (\<lambda>(db', ios2).
       let mgr' = mgr\<lparr>hm_Corpus := Some mdb'\<rparr> in
       Inr (mgr', put_mgr mgr' (st1\<lparr>hs_Corpus := db', hs_io := ios2\<rparr>)))))))"

fun pending_records :: "hub_Manager \<Rightarrow> (string \<times> Record) list \<Rightarrow> Record list option res" where
  "pending_records mgr [] = Inr (Some [])"
| "pending_records mgr ((key, rec) # rs) =
    (if r_Seq rec \<le> hm_corpusSeq mgr then pending_records mgr rs
     else
       rbind (need_db (hm_Corpus mgr)) (\<lambda>mdb.
       if go_has (db_Records mdb) key then pending_records mgr rs
       else case CallSet (r_Val rec) of
         None \<Rightarrow> Inr None
       | Some calls \<Rightarrow>
         if managerSupportsAllCalls (hm_Calls mgr) calls then rmap (map_option (\<lambda>l. rec # l)) (pending_records mgr rs)
         else pending_records mgr rs))"

definition seq_less :: "Record \<Rightarrow> Record \<Rightarrow> bool" where
  "seq_less a b \<longleftrightarrow> r_Seq a < r_Seq b"

definition maxRecords :: nat where "maxRecords = 100"

text \<open>The loop over \<open>pos\<close>: how many records behind a position have its sequence number.\<close>

definition same_seq :: "Record list \<Rightarrow> nat \<Rightarrow> nat" where
  "same_seq records pos = pos + length (takeWhile (\<lambda>r. r_Seq r = r_Seq (records ! pos)) (drop (Suc pos) records))"

definition cut_records :: "hub_env \<Rightarrow> uint64 \<Rightarrow> Record list \<Rightarrow> Record list \<times> nat \<times> uint64" where
  "cut_records env corpusSeq records =
    (if maxRecords < length records then
       let sorted_records = he_sort env seq_less records;
           maxSeq = r_Seq (sorted_records ! maxRecords);
           pos = same_seq sorted_records maxRecords + 1
       in (take pos sorted_records, length sorted_records - pos, maxSeq)
     else (records, 0, corpusSeq))"

definition pendingInputs :: "hub_env \<Rightarrow> hub_Manager \<Rightarrow> hub_State \<Rightarrow> ((bytes list \<times> nat) option \<times> hub_Manager \<times> hub_State) res" where
  "pendingInputs env mgr st =
    (if hm_corpusSeq mgr = hs_corpusSeq st then Inr (Some ([], 0), mgr, st)
     else
       rbind (pending_records mgr (go_range (db_Records (hs_Corpus st)))) (\<lambda>found.
       case found of None \<Rightarrow> Inr (None, mgr, st) | Some records \<Rightarrow>
         (case cut_records env (hs_corpusSeq st) records of (out, left, maxSeq) \<Rightarrow>
          case saveSeqFile maxSeq (hs_io st) of (file', ios) \<Rightarrow>
          let mgr' = mgr\<lparr>hm_corpusSeq := maxSeq, hm_corpusSeqFile := file'\<rparr> in
          Inr (Some (replicate (length out) [] @ map r_Val out, left), mgr', put_mgr mgr' (st\<lparr>hs_io := ios\<rparr>)))))"

definition hub_Connect :: "hub_env \<Rightarrow> mgr_files \<Rightarrow> string \<Rightarrow> bool \<Rightarrow> string list \<Rightarrow> bytes list \<Rightarrow> hub_State \<Rightarrow> (bool \<times> hub_State) res" where
  "hub_Connect env fs name fresh calls corpus st =
    rbind (case go_get (hs_Managers st) name of Some _ \<Rightarrow> Inr (True, st) | None \<Rightarrow> createManager env fs name st) (\<lambda>(ok, st1).
    case go_get (hs_Managers st1) name of
      None \<Rightarrow> Inr (False, st1)
    | Some mgr0 \<Rightarrow>
      let mgr1 = mgr0\<lparr>hm_Connected := True, hm_corpusSeq := (if fresh then 0 else hm_corpusSeq mgr0),
             hm_reproSeq := (if fresh then hs_reproSeq st1 else hm_reproSeq mgr0)\<rparr>;
          (file1, ios1) = saveSeqFile (hm_corpusSeq mgr1) (hs_io st1);
          (file2, ios2) = saveSeqFile (hm_reproSeq mgr1) ios1;
          (i, ios3) = next_io ios2
      in rbind (db_Open (he_flate env) i []) (\<lambda>opened.
         let mgr2 = mgr1\<lparr>hm_corpusSeqFile := file1, hm_reproSeqFile := file2,
               hm_Calls := fold (\<lambda>c. go_set c ()) calls (Some []), hm_Corpus := opened\<rparr>;
             st2 = put_mgr mgr2 (st1\<lparr>hs_io := ios3\<rparr>)
         in if opened = None then Inr (False, st2)
            else rbind (addInputs env mgr2 corpus st2) (\<lambda>(mgr3, st3). rmap (\<lambda>st4. (True, st4)) (purgeCorpus env st3))))"

definition deleteInputs :: "hub_env \<Rightarrow> hub_Manager \<Rightarrow> string list \<Rightarrow> hub_State \<Rightarrow> (hub_Manager \<times> hub_State) res" where
  "deleteInputs env mgr del st =
    (if del = [] then Inr (mgr, st)
     else
       rbind (need_db (hm_Corpus mgr)) (\<lambda>mdb.
       rbind (rfold (Delete (he_flate env)) del mdb) (\<lambda>mdb1.
       rbind (flush_logged (he_flate env) mdb1 (hs_io st)) (\<lambda>(mdb2, ios).
       let mgr' = mgr\<lparr>hm_Corpus := Some mdb2\<rparr> in
       rmap (\<lambda>st'. (mgr', st')) (purgeCorpus env (put_mgr mgr' (st\<lparr>hs_io := ios\<rparr>)))))))"

definition hub_Sync :: "hub_env \<Rightarrow> string \<Rightarrow> bytes list \<Rightarrow> string list \<Rightarrow> hub_State \<Rightarrow> ((bytes list \<times> nat) option \<times> hub_State) res" where
  "hub_Sync env name add del st =
    (case go_get (hs_Managers st) name of
       None \<Rightarrow> Inr (None, st)
     | Some mgr \<Rightarrow>
       if \<not> hm_Connected mgr then Inr (None, st)
       else
         rbind (deleteInputs env mgr del st) (\<lambda>(mgr1, st1).
         rbind (addInputs env mgr1 add st1) (\<lambda>(mgr2, st2).
         rbind (pendingInputs env mgr2 st2) (\<lambda>(r, mgr3, st3).
         let sent = (case r of None \<Rightarrow> 0 | Some (progs, left) \<Rightarrow> length progs) in
         Inr (r, put_mgr (mgr3\<lparr>hm_Added := hm_Added mgr3 + int (length add), hm_Deleted := hm_Deleted mgr3 + int (length del),
           hm_New := hm_New mgr3 + int sent\<rparr>) st3)))))"

section \<open>Exchange of reproducers\<close>

definition AddRepro :: "hub_env \<Rightarrow> string \<Rightarrow> bytes \<Rightarrow> hub_State \<Rightarrow> (bool \<times> hub_State) res" where
  "AddRepro env name repro st =
    (case go_get (hs_Managers st) name of
       None \<Rightarrow> Inr (False, st)
     | Some mgr \<Rightarrow>
       if \<not> hm_Connected mgr then Inr (False, st)
       else if CallSet repro = None then Inr (True, st)
       else
         let sig = he_hash env repro in
         if go_has (db_Records (hs_Repros st)) sig then Inr (True, st)
         else
           rbind (go_put sig True (hm_ownRepros mgr)) (\<lambda>own.
           let mgr1 = mgr\<lparr>hm_ownRepros := own, hm_SentRepros := hm_SentRepros mgr + 1\<rparr>;
               (mgr2, ios1) = (if hm_reproSeq mgr1 = hs_reproSeq st
                 then case saveSeqFile (hm_reproSeq mgr1 + 1) (hs_io st) of (file', ios) \<Rightarrow>
                   (mgr1\<lparr>hm_reproSeq := hm_reproSeq mgr1 + 1, hm_reproSeqFile := file'\<rparr>, ios)
                 else (mgr1, hs_io st));
               st1 = put_mgr mgr2 (st\<lparr>hs_reproSeq := hs_reproSeq st + 1\<rparr>)
           in rbind (Save (he_flate env) sig repro (hs_reproSeq st1) (hs_Repros st1)) (\<lambda>db.
              rbind (flush_logged (he_flate env) db ios1) (\<lambda>(db', ios2).
              Inr (True, st1\<lparr>hs_Repros := db', hs_io := ios2\<rparr>)))))"

fun pick_repro :: "hub_Manager \<Rightarrow> (string \<times> Record) list \<Rightarrow> bytes \<times> uint64 \<Rightarrow> (bytes \<times> uint64) option" where
  "pick_repro mgr [] best = Some best"
| "pick_repro mgr ((key, rec) # rs) best =
    (if r_Seq rec \<le> hm_reproSeq mgr then pick_repro mgr rs best
     else if go_get (hm_ownRepros mgr) key = Some True then pick_repro mgr rs best
     else case CallSet (r_Val rec) of
       None \<Rightarrow> None
     | Some calls \<Rightarrow>
       if \<not> managerSupportsAllCalls (hm_Calls mgr) calls then pick_repro mgr rs best
       else pick_repro mgr rs (if r_Seq rec < snd best then (r_Val rec, r_Seq rec) else best))"

text \<open>\<open>PendingRepro\<close>: \<open>None\<close> is an error and \<open>Some []\<close> the reply that there is nothing.\<close>

definition PendingRepro :: "string \<Rightarrow> hub_State \<Rightarrow> bytes option \<times> hub_State" where
  "PendingRepro name st =
    (case go_get (hs_Managers st) name of
       None \<Rightarrow> (None, st)
     | Some mgr \<Rightarrow>
       if \<not> hm_Connected mgr then (None, st)
       else if hm_reproSeq mgr = hs_reproSeq st then (Some [], st)
       else case pick_repro mgr (go_range (db_Records (hs_Repros st))) ([], NOT 0) of
         None \<Rightarrow> (None, st)
       | Some (repro, minSeq) \<Rightarrow>
         let seq = (if repro = [] then hs_reproSeq st else minSeq);
             (file', ios) = saveSeqFile seq (hs_io st)
         in (Some repro, put_mgr (mgr\<lparr>hm_reproSeq := seq, hm_reproSeqFile := file',
               hm_RecvRepros := hm_RecvRepros mgr + (if repro = [] then 0 else 1)\<rparr>) (st\<lparr>hs_io := ios\<rparr>)))"

section \<open>Remote calls\<close>

record Hub =
  hub_st :: hub_State
  hub_keys :: "(string, string) gomap"

definition has_prefix :: "string \<Rightarrow> string \<Rightarrow> bool" where
  "has_prefix s p \<longleftrightarrow> take (length p) s = p"

definition auth :: "Hub \<Rightarrow> string \<Rightarrow> string \<Rightarrow> string \<Rightarrow> string option" where
  "auth hub client key manager =
    (if go_get (hub_keys hub) client \<noteq> Some key then None
     else if manager = [] then Some client
     else if \<not> has_prefix manager client then None
     else Some manager)"

definition rpc_Connect :: "hub_env \<Rightarrow> mgr_files \<Rightarrow> string \<Rightarrow> string \<Rightarrow> string \<Rightarrow> bool \<Rightarrow> string list \<Rightarrow> bytes list \<Rightarrow> Hub \<Rightarrow> (bool \<times> Hub) res" where
  "rpc_Connect env fs client key manager fresh calls corpus hub =
    (case auth hub client key manager of
       None \<Rightarrow> Inr (False, hub)
     | Some name \<Rightarrow> rmap (\<lambda>(ok, st). (ok, hub\<lparr>hub_st := st\<rparr>)) (hub_Connect env fs name fresh calls corpus (hub_st hub)))"

record HubSyncRes =
  sr_Progs :: "bytes list"
  sr_More :: nat
  sr_Repros :: "bytes list"

definition rpc_Sync :: "hub_env \<Rightarrow> string \<Rightarrow> string \<Rightarrow> string \<Rightarrow> bytes list \<Rightarrow> string list \<Rightarrow> bytes list \<Rightarrow> bool \<Rightarrow> Hub \<Rightarrow> (HubSyncRes option \<times> Hub) res" where
  "rpc_Sync env client key manager add del repros needRepros hub =
    (case auth hub client key manager of
       None \<Rightarrow> Inr (None, hub)
     | Some name \<Rightarrow>
       rbind (hub_Sync env name add del (hub_st hub)) (\<lambda>(r, st1).
       case r of None \<Rightarrow> Inr (None, hub\<lparr>hub_st := st1\<rparr>) | Some (progs, left) \<Rightarrow>
         rbind (rfold (\<lambda>repro st. rmap snd (AddRepro env name repro st)) repros st1) (\<lambda>st2.
         let (found, st3) = (if needRepros then PendingRepro name st2 else (None, st2)) in
         Inr (Some \<lparr>sr_Progs = progs, sr_More = left,
           sr_Repros = (case found of None \<Rightarrow> [] | Some repro \<Rightarrow> if repro = [] then [] else [repro])\<rparr>, hub\<lparr>hub_st := st3\<rparr>))))"

section \<open>What the operations do\<close>

lemma flush_logged_law:
  "db_good db \<Longrightarrow> \<exists>db' ios'. flush_logged fl db ios = Inr (db', ios') \<and> db_good db' \<and> db_view db' = db_view db"
  using store.flush_law [of db fl "fst (next_io ios)"] by (auto simp: flush_logged_def split: prod.splits)

lemma need_db_simps [simp]: "need_db (Some db) = Inr db" "need_db None = Inl (Panic ''nil pointer dereference'')" "need_db d = Inr db \<longleftrightarrow> d = Some db"
  by (auto simp: need_db_def split: option.splits)

text \<open>A program is in use when a manager has it.\<close>

definition in_use :: "hub_State \<Rightarrow> string \<Rightarrow> bool" where
  "in_use st key \<longleftrightarrow> (\<exists>name mgr mdb. go_get (hs_Managers st) name = Some mgr \<and> hm_Corpus mgr = Some mdb \<and> key \<in> dom (db_view mdb))"

definition all_open :: "hub_State \<Rightarrow> bool" where
  "all_open st \<longleftrightarrow> (\<forall>name mgr. go_get (hs_Managers st) name = Some mgr \<longrightarrow> hm_Corpus mgr \<noteq> None)"

lemma collect_used:
  "(\<forall>(name, mgr) \<in> set ms. hm_Corpus mgr \<noteq> None) \<Longrightarrow>
   \<exists>u. rfold (\<lambda>(name, mgr) used. rmap (\<lambda>db. used @ go_keys (db_Records db)) (need_db (hm_Corpus mgr))) ms acc = Inr u
     \<and> set u = set acc \<union> {key. \<exists>name mgr mdb. (name, mgr) \<in> set ms \<and> hm_Corpus mgr = Some mdb \<and> key \<in> dom (db_view mdb)}"
proof (induction ms arbitrary: acc)
  case (Cons m ms)
  then obtain name mgr mdb where m: "m = (name, mgr)" "hm_Corpus mgr = Some mdb" by (cases m) auto
  from Cons.IH [of "acc @ go_keys (db_Records mdb)"] Cons.prems m show ?case by (fastforce simp: go_keys_dom)
qed simp

lemma collect_used_open:
  "rfold (\<lambda>(name, mgr) used. rmap (\<lambda>db. used @ go_keys (db_Records db)) (need_db (hm_Corpus mgr))) ms acc = Inr u \<Longrightarrow>
   (name, mgr) \<in> set ms \<Longrightarrow> hm_Corpus mgr \<noteq> None"
  by (induction ms arbitrary: acc) (auto simp: res_conv)

lemma purgeCorpus_law:
  assumes "wfm (hs_Managers st)" "db_good (hs_Corpus st)" "all_open st"
  shows "\<exists>db ios. purgeCorpus env st = Inr (st\<lparr>hs_Corpus := db, hs_io := ios\<rparr>) \<and> db_good db
    \<and> db_view db = (\<lambda>key. if in_use st key then db_view (hs_Corpus st) key else None)"
proof -
  have "\<forall>(name, mgr) \<in> set (go_range (hs_Managers st)). hm_Corpus mgr \<noteq> None"
    using assms by (auto simp: all_open_def go_range_get)
  from collect_used [OF this, of "[]"] obtain u where
    u: "rfold (\<lambda>(name, mgr) used. rmap (\<lambda>db. used @ go_keys (db_Records db)) (need_db (hm_Corpus mgr))) (go_range (hs_Managers st)) [] = Inr u"
      "set u = {key. in_use st key}"
    using assms(1) by (auto simp: in_use_def go_range_get)
  obtain db1 where db1: "rfold (\<lambda>key db. if key \<in> set u then Inr db else Delete (he_flate env) key db)
       (go_keys (db_Records (hs_Corpus st))) (hs_Corpus st) = Inr db1" "db_good db1"
      "db_view db1 = (\<lambda>k. if k \<in> set (go_keys (db_Records (hs_Corpus st))) \<and> k \<notin> set u then None else db_view (hs_Corpus st) k)"
    using store.del_unless [OF assms(2), of "\<lambda>k. k \<in> set u"] by blast
  obtain db2 ios where "flush_logged (he_flate env) db1 (hs_io st) = Inr (db2, ios)" "db_good db2" "db_view db2 = db_view db1"
    using flush_logged_law [OF db1(2)] by blast
  moreover have "db_view db1 = (\<lambda>key. if in_use st key then db_view (hs_Corpus st) key else None)"
    using db1(3) u(2) by (auto simp: fun_eq_iff go_keys_dom)
  ultimately show ?thesis unfolding purgeCorpus_def u(1) by (intro exI [of _ db2] exI [of _ ios]) (simp add: db1(1))
qed

lemma purgeCorpus_open:
  assumes "purgeCorpus env st = Inr st'" "wfm (hs_Managers st)"
  shows "all_open st"
  using assms collect_used_open unfolding purgeCorpus_def all_open_def go_range_get [OF assms(2), symmetric]
  by (auto simp: rbind_Inr_conv)

text \<open>What adding programs does to the corpus of the manager and to that of the hub.\<close>

definition good_inputs :: "hub_env \<Rightarrow> bytes list \<Rightarrow> string set" where
  "good_inputs env inputs = he_hash env ` {i \<in> set inputs. CallSet i \<noteq> None}"

definition inputs_added :: "hub_env \<Rightarrow> uint64 \<Rightarrow> bytes list \<Rightarrow> DB \<Rightarrow> DB \<Rightarrow> DB \<Rightarrow> DB \<Rightarrow> bool" where
  "inputs_added env seq inputs mdb db mdb' db' \<longleftrightarrow> db_good mdb' \<and> db_good db'
     \<and> dom (db_view mdb') = dom (db_view mdb) \<union> good_inputs env inputs
     \<and> dom (db_view db') = dom (db_view db) \<union> good_inputs env inputs
     \<and> db_view db \<subseteq>\<^sub>m db_view db'
     \<and> (\<forall>k r. db_view db' k = Some r \<longrightarrow> db_view db k = Some r \<or> k = he_hash env (r_Val r) \<and> CallSet (r_Val r) \<noteq> None \<and> r_Seq r = seq)"

lemma hub_addInput_law:
  assumes "db_good mdb" "db_good db" "seq \<noteq> seqDeleted"
  shows "\<exists>mdb' db'. hub_addInput env inp (mdb, db, seq) = Inr (mdb', db', seq) \<and> inputs_added env seq [inp] mdb db mdb' db'"
proof (cases "CallSet inp = None")
  case True
  then show ?thesis using assms by (auto simp: hub_addInput_def inputs_added_def good_inputs_def)
next
  case False
  obtain mdb' where m: "Save (he_flate env) (he_hash env inp) [] 0 mdb = Inr mdb'" "db_good mdb'"
      "db_view mdb' = (db_view mdb)(he_hash env inp \<mapsto> \<lparr>r_Val = [], r_Seq = 0\<rparr>)"
    using store.save_law [OF assms(1), of "\<lparr>r_Val = [], r_Seq = 0\<rparr>" "he_flate env"] by (auto simp: seqDeleted_def)
  obtain db' where d: "Save (he_flate env) (he_hash env inp) inp seq db = Inr db'" "db_good db'"
      "db_view db' = (db_view db)(he_hash env inp \<mapsto> \<lparr>r_Val = inp, r_Seq = seq\<rparr>)"
    using store.save_law [OF assms(2), of "\<lparr>r_Val = inp, r_Seq = seq\<rparr>" "he_flate env"] assms(3) by auto
  show ?thesis
    using False m d assms by (auto simp: hub_addInput_def inputs_added_def good_inputs_def go_keys_dom map_le_def split: if_splits)
qed

lemma inputs_added_trans:
  "inputs_added env seq xs mdb db mdb1 db1 \<Longrightarrow> inputs_added env seq ys mdb1 db1 mdb2 db2 \<Longrightarrow> inputs_added env seq (xs @ ys) mdb db mdb2 db2"
proof -
  assume a: "inputs_added env seq xs mdb db mdb1 db1" and b: "inputs_added env seq ys mdb1 db1 mdb2 db2"
  have "good_inputs env (xs @ ys) = good_inputs env xs \<union> good_inputs env ys" by (auto simp: good_inputs_def)
  moreover have "db_view db \<subseteq>\<^sub>m db_view db2" using a b map_le_trans unfolding inputs_added_def by blast
  moreover have "db_view db k = Some r \<or> k = he_hash env (r_Val r) \<and> CallSet (r_Val r) \<noteq> None \<and> r_Seq r = seq" if "db_view db2 k = Some r" for k r
    using a b that unfolding inputs_added_def by blast
  ultimately show ?thesis using a b by (simp add: inputs_added_def Un_assoc)
qed

lemma add_step_simps [simp]:
  "add_step env seq inp (Some mdb, db) = rmap (\<lambda>(mdb', db', seq). (Some mdb', db')) (hub_addInput env inp (mdb, db, seq))"
  "add_step env seq inp (None, db) = (if CallSet inp = None then Inr (None, db) else Inl (Panic ''nil pointer dereference''))"
  by (simp_all add: add_step_def)

lemma add_loop:
  assumes "seq \<noteq> seqDeleted"
  shows "db_good mdb \<Longrightarrow> db_good db \<Longrightarrow>
   \<exists>mdb' db'. rfold (add_step env seq) inputs (Some mdb, db)
     = Inr (Some mdb', db') \<and> inputs_added env seq inputs mdb db mdb' db'"
proof (induction inputs arbitrary: mdb db)
  case Nil
  then show ?case by (simp add: inputs_added_def good_inputs_def)
next
  case (Cons inp inputs)
  obtain mdb1 db1 where one: "hub_addInput env inp (mdb, db, seq) = Inr (mdb1, db1, seq)" "inputs_added env seq [inp] mdb db mdb1 db1"
    using hub_addInput_law [OF Cons.prems assms] by blast
  from one(2) have "db_good mdb1" "db_good db1" by (simp_all add: inputs_added_def)
  from Cons.IH [OF this] obtain mdb' db' where "inputs_added env seq inputs mdb1 db1 mdb' db'"
     "rfold (add_step env seq) inputs (Some mdb1, db1) = Inr (Some mdb', db')"
    by blast
  then show ?case using inputs_added_trans [OF one(2)] one(1) by auto
qed

lemma add_loop_nil:
  "rfold (add_step env seq) inputs (None, db) = Inr (mc, db') \<Longrightarrow> mc = None"
  by (induction inputs) (auto simp: res_conv split: if_splits)

lemma addInputs_law:
  assumes "hm_Corpus mgr = Some mdb" "db_good mdb" "db_good (hs_Corpus st)" "hs_corpusSeq st + 1 \<noteq> seqDeleted" "inputs \<noteq> []"
  shows "\<exists>mdb' db' ios. inputs_added env (hs_corpusSeq st + 1) inputs mdb (hs_Corpus st) mdb' db'
    \<and> addInputs env mgr inputs st = Inr (mgr\<lparr>hm_Corpus := Some mdb'\<rparr>,
        put_mgr (mgr\<lparr>hm_Corpus := Some mdb'\<rparr>) (st\<lparr>hs_corpusSeq := hs_corpusSeq st + 1, hs_Corpus := db', hs_io := ios\<rparr>))"
proof -
  from add_loop [OF assms(4,2,3)] obtain mdb1 db1 where
    l: "rfold (add_step env (hs_corpusSeq st + 1)) inputs (Some mdb, hs_Corpus st) = Inr (Some mdb1, db1)"
      "inputs_added env (hs_corpusSeq st + 1) inputs mdb (hs_Corpus st) mdb1 db1"
    by blast
  then have "db_good mdb1" "db_good db1" by (simp_all add: inputs_added_def)
  then obtain mdb2 db2 ios1 ios2 where "flush_logged (he_flate env) mdb1 (hs_io st) = Inr (mdb2, ios1)" "db_good mdb2" "db_view mdb2 = db_view mdb1"
    "flush_logged (he_flate env) db1 ios1 = Inr (db2, ios2)" "db_good db2" "db_view db2 = db_view db1"
    using flush_logged_law by meson
  moreover from this l(2) have "inputs_added env (hs_corpusSeq st + 1) inputs mdb (hs_Corpus st) mdb2 db2" by (simp add: inputs_added_def)
  ultimately show ?thesis
    using assms(1,5) l(1) by (rule_tac exI [of _ mdb2], rule_tac exI [of _ db2], rule_tac exI [of _ ios2]) (simp add: addInputs_def Let_def)
qed

lemma addInputs_open: "addInputs env mgr inputs st = Inr r \<Longrightarrow> inputs \<noteq> [] \<Longrightarrow> hm_Corpus mgr \<noteq> None"
  by (cases "hm_Corpus mgr") (auto simp: addInputs_def rbind_Inr_conv Let_def dest!: add_loop_nil)

section \<open>The invariant\<close>

text \<open>
  Each program is stored under its hash, can be parsed for its calls and has a number that is
  not beyond the last one given out.
\<close>

definition recs_good :: "hub_env \<Rightarrow> uint64 \<Rightarrow> DB \<Rightarrow> bool" where
  "recs_good env seq db \<longleftrightarrow> db_good db
     \<and> (\<forall>key rec. db_view db key = Some rec \<longrightarrow> key = he_hash env (r_Val rec) \<and> CallSet (r_Val rec) \<noteq> None \<and> r_Seq rec \<le> seq)"

definition mgr_good :: "hub_State \<Rightarrow> hub_Manager \<Rightarrow> bool" where
  "mgr_good st mgr \<longleftrightarrow> (\<forall>mdb. hm_Corpus mgr = Some mdb \<longrightarrow> db_good mdb) \<and> hm_corpusSeq mgr \<le> hs_corpusSeq st
     \<and> hm_reproSeq mgr \<le> hs_reproSeq st \<and> hm_ownRepros mgr \<noteq> None"

definition hub_base :: "hub_env \<Rightarrow> hub_State \<Rightarrow> bool" where
  "hub_base env st \<longleftrightarrow> recs_good env (hs_corpusSeq st) (hs_Corpus st) \<and> recs_good env (hs_reproSeq st) (hs_Repros st)
     \<and> hs_Managers st \<noteq> None \<and> wfm (hs_Managers st)
     \<and> (\<forall>name mgr. go_get (hs_Managers st) name = Some mgr \<longrightarrow> hm_name mgr = name \<and> mgr_good st mgr)"

text \<open>The hub keeps no program that no manager has, unless the corpus of a manager could not be opened.\<close>

definition hub_used :: "hub_State \<Rightarrow> bool" where
  "hub_used st \<longleftrightarrow> (all_open st \<longrightarrow> (\<forall>key \<in> dom (db_view (hs_Corpus st)). in_use st key))"

definition hub_inv :: "hub_env \<Rightarrow> hub_State \<Rightarrow> bool" where
  "hub_inv env st \<longleftrightarrow> hub_base env st \<and> hub_used st"

lemma recs_good_mono: "recs_good env seq db \<Longrightarrow> seq \<le> seq' \<Longrightarrow> recs_good env seq' db"
  unfolding recs_good_def by (meson order_trans)

lemma mgr_good_mono: "mgr_good st mgr \<Longrightarrow> hs_corpusSeq st \<le> hs_corpusSeq st' \<Longrightarrow> hs_reproSeq st \<le> hs_reproSeq st' \<Longrightarrow> mgr_good st' mgr"
  unfolding mgr_good_def by (meson order_trans)

lemma put_mgr_get [simp]: "go_get (hs_Managers (put_mgr mgr st)) name = (if name = hm_name mgr then Some mgr else go_get (hs_Managers st) name)"
  by (auto simp: put_mgr_def)

lemma put_mgr_fields [simp]:
  "hs_corpusSeq (put_mgr mgr st) = hs_corpusSeq st" "hs_reproSeq (put_mgr mgr st) = hs_reproSeq st" "hs_Corpus (put_mgr mgr st) = hs_Corpus st"
  "hs_Repros (put_mgr mgr st) = hs_Repros st" "hs_io (put_mgr mgr st) = hs_io st" "hs_Managers (put_mgr mgr st) \<noteq> None"
  "wfm (hs_Managers st) \<Longrightarrow> wfm (hs_Managers (put_mgr mgr st))"
  by (simp_all add: put_mgr_def)

text \<open>A change of the state keeps the basic invariant when the new corpus is good, the numbers grow and the managers stay or are good.\<close>

lemma hub_base_change:
  assumes "hub_base env st" "recs_good env (hs_corpusSeq st') (hs_Corpus st')" "recs_good env (hs_reproSeq st') (hs_Repros st')"
    "hs_corpusSeq st \<le> hs_corpusSeq st'" "hs_reproSeq st \<le> hs_reproSeq st'" "hs_Managers st' \<noteq> None" "wfm (hs_Managers st')"
    "\<And>name mgr. go_get (hs_Managers st') name = Some mgr \<Longrightarrow> go_get (hs_Managers st) name = Some mgr \<or> hm_name mgr = name \<and> mgr_good st' mgr"
  shows "hub_base env st'"
  using assms unfolding hub_base_def by (meson mgr_good_mono)

lemma hub_base_put: "hub_base env st \<Longrightarrow> mgr_good st mgr \<Longrightarrow> hub_base env (put_mgr mgr st)"
  by (rule hub_base_change) (auto simp: hub_base_def mgr_good_def split: if_splits)

text \<open>Numbers are left as long as the next one is neither reserved nor wraps.\<close>

definition seq_room :: "uint64 \<Rightarrow> bool" where
  "seq_room seq \<longleftrightarrow> seq < - 2"

lemma seq_room_next: "seq_room seq \<Longrightarrow> seq < seq + 1 \<and> seq + 1 \<noteq> seqDeleted"
proof -
  assume "seq_room seq"
  then have "unat seq < 2 ^ 64 - 2" by (simp add: seq_room_def word_less_nat_alt)
  then have "unat (seq + 1) = Suc (unat seq)" by (simp add: unat_word_ariths)
  moreover have "unat seqDeleted = 2 ^ 64 - 1" unfolding seqDeleted_def by (simp add: unsigned_minus_1_eq_mask mask_eq_exp_minus_1)
  ultimately have "unat seq < unat (seq + 1)" "unat (seq + 1) \<noteq> unat seqDeleted" using \<open>unat seq < 2 ^ 64 - 2\<close> by simp_all
  then show ?thesis by (auto simp: word_less_nat_alt)
qed

lemma in_use_cong:
  "(\<And>name. map_option hm_Corpus (go_get (hs_Managers st') name) = map_option hm_Corpus (go_get (hs_Managers st) name)) \<Longrightarrow> in_use st' = in_use st \<and> all_open st' = all_open st"
proof -
  assume eq: "\<And>name. map_option hm_Corpus (go_get (hs_Managers st') name) = map_option hm_Corpus (go_get (hs_Managers st) name)"
  have u: "in_use s = (\<lambda>key. \<exists>name mdb. map_option hm_Corpus (go_get (hs_Managers s) name) = Some (Some mdb) \<and> key \<in> dom (db_view mdb))" for s
    by (auto simp: in_use_def fun_eq_iff)
  have o: "all_open s = (\<forall>name. map_option hm_Corpus (go_get (hs_Managers s) name) \<noteq> Some None)" for s
    by (auto simp: all_open_def)
  show ?thesis unfolding u o eq by simp
qed

lemma hub_used_cong:
  "hub_used st \<Longrightarrow> db_view (hs_Corpus st') = db_view (hs_Corpus st) \<Longrightarrow>
   (\<And>name. map_option hm_Corpus (go_get (hs_Managers st') name) = map_option hm_Corpus (go_get (hs_Managers st) name)) \<Longrightarrow> hub_used st'"
  using in_use_cong [of st' st] unfolding hub_used_def by metis

lemma purge_inv:
  assumes "hub_base env st" "purgeCorpus env st = Inr st'"
  shows "hub_inv env st' \<and> (\<exists>db ios. st' = st\<lparr>hs_Corpus := db, hs_io := ios\<rparr>)"
proof -
  have pre: "wfm (hs_Managers st)" "db_good (hs_Corpus st)" using assms(1) by (auto simp: hub_base_def recs_good_def)
  from purgeCorpus_law [OF pre purgeCorpus_open [OF assms(2) pre(1)], of env] obtain db ios where
    st': "st' = st\<lparr>hs_Corpus := db, hs_io := ios\<rparr>" "db_good db" "db_view db = (\<lambda>key. if in_use st key then db_view (hs_Corpus st) key else None)"
    using assms(2) by auto
  have "recs_good env (hs_corpusSeq st) db" using assms(1) st'(2,3) by (auto simp: hub_base_def recs_good_def split: if_splits)
  then have "hub_base env st'" using assms(1) by (auto simp: hub_base_def mgr_good_def st'(1))
  moreover have "in_use st' = in_use st" using in_use_cong [of st' st] by (simp add: st'(1))
  then have "hub_used st'" using st'(3) by (auto simp: hub_used_def st'(1) split: if_splits)
  ultimately show ?thesis using st'(1) by (auto simp: hub_inv_def)
qed

lemma inputs_added_recs:
  assumes "inputs_added env seq' inputs mdb db mdb' db'" "recs_good env seq db" "seq \<le> seq'"
  shows "recs_good env seq' db'"
proof -
  have "key = he_hash env (r_Val rec) \<and> CallSet (r_Val rec) \<noteq> None \<and> r_Seq rec \<le> seq'" if "db_view db' key = Some rec" for key rec
  proof -
    from assms(1) that consider "db_view db key = Some rec" | "key = he_hash env (r_Val rec)" "CallSet (r_Val rec) \<noteq> None" "r_Seq rec = seq'"
      unfolding inputs_added_def by blast
    then show ?thesis using recs_good_mono [OF assms(2,3)] by cases (auto simp: recs_good_def)
  qed
  then show ?thesis using assms(1) by (simp add: recs_good_def inputs_added_def)
qed

lemma hub_used_put:
  assumes "hub_used st" "go_get (hs_Managers st) name = Some mgr" "hm_Corpus mgr = Some mdb" "hm_name mgr' = name" "hm_Corpus mgr' = Some mdb'"
    "dom (db_view mdb) \<subseteq> dom (db_view mdb')" "dom (db_view (hs_Corpus st1)) \<subseteq> dom (db_view (hs_Corpus st)) \<union> dom (db_view mdb')"
    "hs_Managers st1 = hs_Managers st"
  shows "hub_used (put_mgr mgr' st1)"
  unfolding hub_used_def
proof (intro impI ballI)
  let ?st = "put_mgr mgr' st1"
  fix key assume o: "all_open ?st" and key: "key \<in> dom (db_view (hs_Corpus ?st))"
  have new: "in_use ?st key" if "key \<in> dom (db_view mdb')"
    unfolding in_use_def by (rule exI [of _ name], rule exI [of _ mgr'], rule exI [of _ mdb']) (use that assms(4,5) in simp)
  have "all_open st"
    unfolding all_open_def
  proof (intro allI impI)
    fix n m assume "go_get (hs_Managers st) n = Some m"
    moreover have "n \<noteq> name \<Longrightarrow> go_get (hs_Managers ?st) n = go_get (hs_Managers st) n" using assms(4,8) by simp
    ultimately show "hm_Corpus m \<noteq> None" using o assms(2,3) unfolding all_open_def by (cases "n = name") auto
  qed
  then have "in_use st key" if "key \<in> dom (db_view (hs_Corpus st))" using assms(1) that by (auto simp: hub_used_def)
  moreover have "in_use ?st key" if u: "in_use st key"
  proof -
    obtain n m d where n: "go_get (hs_Managers st) n = Some m" "hm_Corpus m = Some d" "key \<in> dom (db_view d)" using u by (auto simp: in_use_def)
    show ?thesis
    proof (cases "n = name")
      case True
      then show ?thesis using n assms(2,3,6) new by auto
    next
      case False
      then have "go_get (hs_Managers ?st) n = Some m" using n(1) assms(4,8) by simp
      then show ?thesis using n(2,3) unfolding in_use_def by blast
    qed
  qed
  ultimately show "in_use ?st key" using key new assms(7) by auto
qed

lemma addInputs_inv:
  assumes base: "hub_base env st" and mgr: "go_get (hs_Managers st) name = Some mgr" and room: "seq_room (hs_corpusSeq st)"
    and add: "addInputs env mgr inputs st = Inr (mgr', st')"
  shows "hub_base env st' \<and> go_get (hs_Managers st') name = Some mgr' \<and> (hub_used st \<longrightarrow> hub_used st') \<and> hs_corpusSeq st \<le> hs_corpusSeq st'
    \<and> hm_corpusSeq mgr' = hm_corpusSeq mgr \<and> hm_Calls mgr' = hm_Calls mgr \<and> (hm_Corpus mgr \<noteq> None \<longrightarrow> hm_Corpus mgr' \<noteq> None)"
proof (cases "inputs = []")
  case True
  then show ?thesis using assms by (simp add: addInputs_def)
next
  case False
  have nm: "hm_name mgr = name" "mgr_good st mgr" using base mgr by (auto simp: hub_base_def)
  obtain mdb where mdb: "hm_Corpus mgr = Some mdb" "db_good mdb" using addInputs_open [OF add False] nm by (auto simp: mgr_good_def)
  have good: "db_good (hs_Corpus st)" using base by (simp add: hub_base_def recs_good_def)
  note next1 = seq_room_next [OF room]
  obtain mdb' db' ios where new: "inputs_added env (hs_corpusSeq st + 1) inputs mdb (hs_Corpus st) mdb' db'"
    and mgr': "mgr' = mgr\<lparr>hm_Corpus := Some mdb'\<rparr>"
    and st': "st' = put_mgr mgr' (st\<lparr>hs_corpusSeq := hs_corpusSeq st + 1, hs_Corpus := db', hs_io := ios\<rparr>)"
    using addInputs_law [OF mdb good _ False, of env] next1 add by auto
  have seq: "hs_corpusSeq st \<le> hs_corpusSeq st + 1" using next1 by (simp add: order_less_imp_le)
  have "recs_good env (hs_corpusSeq st + 1) db'" using inputs_added_recs [OF new _ seq] base by (simp add: hub_base_def)
  moreover have "mgr_good st' mgr'" using nm(2) new seq by (auto simp: mgr_good_def mgr' st' inputs_added_def)
  ultimately have "hub_base env st'"
    using base seq nm(1) by (intro hub_base_change [OF base]) (auto simp: st' mgr' hub_base_def split: if_splits)
  moreover have "hub_used st'" if "hub_used st"
    unfolding st' by (rule hub_used_put [OF that mgr mdb(1)]) (use new nm(1) in \<open>auto simp: mgr' inputs_added_def\<close>)
  ultimately show ?thesis using seq nm(1) by (simp add: st' mgr')
qed

section \<open>What a manager still has to get\<close>

text \<open>What the code relies on of \<open>sort.Sort\<close>: a permutation, sorted, in whatever order among equals.\<close>

definition sort_ok :: "hub_env \<Rightarrow> bool" where
  "sort_ok env \<longleftrightarrow> (\<forall>rs. mset (he_sort env seq_less rs) = mset rs \<and> sorted (map r_Seq (he_sort env seq_less rs)))"

definition supports :: "hub_Manager \<Rightarrow> bytes \<Rightarrow> bool" where
  "supports mgr val \<longleftrightarrow> (case CallSet val of None \<Rightarrow> False | Some calls \<Rightarrow> managerSupportsAllCalls (hm_Calls mgr) calls)"

definition wanted :: "hub_Manager \<Rightarrow> DB \<Rightarrow> uint64 \<Rightarrow> string \<times> Record \<Rightarrow> bool" where
  "wanted mgr mdb seq kr \<longleftrightarrow> seq < r_Seq (snd kr) \<and> fst kr \<notin> dom (db_view mdb) \<and> supports mgr (r_Val (snd kr))"

text \<open>The programs of the hub beyond a number that a manager does not have and can run.\<close>

definition hub_pending :: "hub_State \<Rightarrow> hub_Manager \<Rightarrow> uint64 \<Rightarrow> string set" where
  "hub_pending st mgr seq = {key. \<exists>mdb rec. hm_Corpus mgr = Some mdb \<and> db_view (hs_Corpus st) key = Some rec \<and> wanted mgr mdb seq (key, rec)}"

lemma pending_records_conv:
  assumes "hm_Corpus mgr = Some mdb" "\<forall>kr \<in> set rs. CallSet (r_Val (snd kr)) \<noteq> None"
  shows "pending_records mgr rs = Inr (Some (map snd (filter (wanted mgr mdb (hm_corpusSeq mgr)) rs)))"
  using assms(2)
proof (induction rs)
  case (Cons kr rs)
  obtain calls where "CallSet (r_Val (snd kr)) = Some calls" using Cons.prems by auto
  with Cons assms(1) show ?case by (cases kr) (auto simp: wanted_def supports_def go_keys_dom not_less)
qed simp

lemma sorted_takeWhile_le:
  fixes f :: "'a \<Rightarrow> 'b::linorder"
  shows "sorted (map f xs) \<Longrightarrow> takeWhile (\<lambda>x. f x \<le> m) xs = filter (\<lambda>x. f x \<le> m) xs"
proof (induction xs)
  case (Cons a xs)
  then have "filter (\<lambda>x. f x \<le> m) xs = []" if "\<not> f a \<le> m" using that by (fastforce simp: filter_empty_conv)
  with Cons show ?case by simp
qed simp

lemma cut_sorted:
  assumes s: "sorted (map r_Seq xs)" and n: "n < length xs"
  shows "take (same_seq xs n + 1) xs = filter (\<lambda>r. r_Seq r \<le> r_Seq (xs ! n)) xs" "same_seq xs n + 1 \<le> length xs"
proof -
  let ?m = "r_Seq (xs ! n)" and ?d = "drop (Suc n) xs"
  have le: "r_Seq (xs ! i) \<le> r_Seq (xs ! j)" if "i \<le> j" "j < length xs" for i j
    using s that by (simp add: sorted_iff_nth_mono)
  have "\<forall>r \<in> set (take (Suc n) xs). r_Seq r \<le> ?m" using le n by (auto simp: in_set_conv_nth)
  then have front: "takeWhile (\<lambda>r. r_Seq r \<le> ?m) (take (Suc n) xs @ ?d) = take (Suc n) xs @ takeWhile (\<lambda>r. r_Seq r \<le> ?m) ?d"
    by (intro takeWhile_append2) blast
  have "\<forall>r \<in> set ?d. ?m \<le> r_Seq r" using le by (auto simp: in_set_conv_nth)
  then have "takeWhile (\<lambda>r. r_Seq r \<le> ?m) ?d = takeWhile (\<lambda>r. r_Seq r = ?m) ?d" by (intro takeWhile_cong) auto
  moreover have "take (same_seq xs n + 1) xs = take (Suc n) xs @ takeWhile (\<lambda>r. r_Seq r = ?m) ?d"
  proof -
    have "take (same_seq xs n + 1) xs = take (Suc n) xs @ take (length (takeWhile (\<lambda>r. r_Seq r = ?m) ?d)) ?d"
      by (simp add: same_seq_def take_add flip: add_Suc)
    then show ?thesis using takeWhile_eq_take [of "\<lambda>r. r_Seq r = ?m" ?d] by simp
  qed
  ultimately show "take (same_seq xs n + 1) xs = filter (\<lambda>r. r_Seq r \<le> ?m) xs"
    using front sorted_takeWhile_le [OF s, of ?m] by simp
  show "same_seq xs n + 1 \<le> length xs" using n length_takeWhile_le [of "\<lambda>r. r_Seq r = ?m" ?d] by (simp add: same_seq_def)
qed

lemma cut_records_conv:
  assumes "sort_ok env" "cut_records env seq records = (out, left, maxSeq)" "\<forall>r \<in> set records. r_Seq r \<le> seq"
  shows "mset out = filter_mset (\<lambda>r. r_Seq r \<le> maxSeq) (mset records)" "left = size (filter_mset (\<lambda>r. maxSeq < r_Seq r) (mset records))"
    "maxSeq \<le> seq" "maxSeq = seq \<or> maxSeq \<in> r_Seq ` set out" "left \<noteq> 0 \<Longrightarrow> maxRecords < length out"
proof -
  have "mset out = filter_mset (\<lambda>r. r_Seq r \<le> maxSeq) (mset records) \<and> left = size (filter_mset (\<lambda>r. maxSeq < r_Seq r) (mset records))
      \<and> maxSeq \<le> seq \<and> (maxSeq = seq \<or> maxSeq \<in> r_Seq ` set out) \<and> (left \<noteq> 0 \<longrightarrow> maxRecords < length out)"
  proof (cases "maxRecords < length records")
    case True
    let ?xs = "he_sort env seq_less records"
    have xs: "mset ?xs = mset records" "sorted (map r_Seq ?xs)" using assms(1) by (auto simp: sort_ok_def)
    then have len: "length ?xs = length records" and sub: "set ?xs = set records" by (metis size_mset, metis set_mset_mset)
    have n: "maxRecords < length ?xs" using True len by simp
    note cut = cut_sorted [OF xs(2) n]
    have r: "maxSeq = r_Seq (?xs ! maxRecords)" "out = take (same_seq ?xs maxRecords + 1) ?xs" "left = length ?xs - (same_seq ?xs maxRecords + 1)"
      using assms(2) True by (auto simp: cut_records_def Let_def)
    then have many: "maxRecords < length out" using cut(2) by (simp add: same_seq_def)
    from r have r: "maxSeq = r_Seq (?xs ! maxRecords)" "out = filter (\<lambda>r. r_Seq r \<le> maxSeq) ?xs" "left = length ?xs - length out"
      using cut by (metis, metis, metis length_take min.absorb2)
    have "length (filter (\<lambda>r. r_Seq r \<le> maxSeq) ?xs) + length (filter (\<lambda>r. maxSeq < r_Seq r) ?xs) = length ?xs"
      using sum_length_filter_compl [of "\<lambda>r. r_Seq r \<le> maxSeq" ?xs] by (simp add: not_le)
    then have "left = length (filter (\<lambda>r. maxSeq < r_Seq r) ?xs)" using r by simp
    moreover have "?xs ! maxRecords \<in> set out" using r(1,2) n by simp
    moreover have "?xs ! maxRecords \<in> set records" using n sub nth_mem by metis
    ultimately show ?thesis using r xs(1) assms(3) many by (metis image_eqI mset_filter size_mset)
  next
    case False
    then have "out = records" "left = 0" "maxSeq = seq" using assms(2) by (auto simp: cut_records_def)
    moreover have "filter_mset (\<lambda>r. r_Seq r \<le> seq) (mset records) = mset records" "filter_mset (\<lambda>r. seq < r_Seq r) (mset records) = {#}"
      using assms(3) by (auto simp: filter_mset_eq_conv)
    ultimately show ?thesis by simp
  qed
  then show "mset out = filter_mset (\<lambda>r. r_Seq r \<le> maxSeq) (mset records)" "left = size (filter_mset (\<lambda>r. maxSeq < r_Seq r) (mset records))"
    "maxSeq \<le> seq" "maxSeq = seq \<or> maxSeq \<in> r_Seq ` set out" "left \<noteq> 0 \<Longrightarrow> maxRecords < length out" by blast+
qed

lemma split_pending:
  fixes S :: "'a \<Rightarrow> 'b::linorder"
  assumes d: "distinct (map K records)" and out: "mset out = filter_mset (\<lambda>r. S r \<le> m) (mset records)"
    and left: "left = size (filter_mset (\<lambda>r. m < S r) (mset records))"
  shows "distinct (map K out)" "K ` set records = K ` set out \<union> K ` {r \<in> set records. m < S r}"
    "K ` set out \<inter> K ` {r \<in> set records. m < S r} = {}" "card (K ` {r \<in> set records. m < S r}) = left"
proof -
  have dr: "distinct records" "inj_on K (set records)" using d by (simp_all add: distinct_map)
  have so: "set out = {r \<in> set records. S r \<le> m}" using arg_cong [OF out, of set_mset] by simp
  have "mset out = mset (filter (\<lambda>r. S r \<le> m) records)" using out by simp
  then have "distinct out" using dr(1) distinct_filter mset_eq_imp_distinct_iff by blast
  moreover have "inj_on K (set out)" using dr(2) so by (auto intro: inj_on_subset)
  ultimately show "distinct (map K out)" by (simp add: distinct_map)
  have "set records = set out \<union> {r \<in> set records. m < S r}" by (auto simp: so)
  then have "K ` set records = K ` (set out \<union> {r \<in> set records. m < S r})" by (rule arg_cong)
  then show "K ` set records = K ` set out \<union> K ` {r \<in> set records. m < S r}" by (simp only: image_Un)
  have "K ` set out \<inter> K ` {r \<in> set records. m < S r} = K ` (set out \<inter> {r \<in> set records. m < S r})"
    by (rule inj_on_image_Int [OF dr(2), symmetric]) (auto simp: so)
  also have "set out \<inter> {r \<in> set records. m < S r} = {}" by (auto simp: so)
  finally show "K ` set out \<inter> K ` {r \<in> set records. m < S r} = {}" by simp
  have "card (K ` {r \<in> set records. m < S r}) = card {r \<in> set records. m < S r}" by (intro card_image inj_on_subset [OF dr(2)]) auto
  also have "\<dots> = length (filter (\<lambda>r. m < S r) records)" using distinct_card [OF distinct_filter [OF dr(1)], of "\<lambda>r. m < S r"] by simp
  finally show "card (K ` {r \<in> set records. m < S r}) = left" using left by (metis mset_filter size_mset)
qed

text \<open>A step that replaces the record of one manager, for which only its corpus and sequence numbers matter.\<close>

definition mgr_update :: "string \<Rightarrow> hub_Manager \<Rightarrow> hub_State \<Rightarrow> hub_State \<Rightarrow> bool" where
  "mgr_update name mgr' st st' \<longleftrightarrow> hs_corpusSeq st' = hs_corpusSeq st \<and> hs_reproSeq st' = hs_reproSeq st \<and> hs_Corpus st' = hs_Corpus st
     \<and> hs_Repros st' = hs_Repros st \<and> hs_Managers st' \<noteq> None \<and> wfm (hs_Managers st')
     \<and> (\<forall>n. go_get (hs_Managers st') n = (if n = name then Some mgr' else go_get (hs_Managers st) n))"

lemma mgr_update_put:
  assumes "hub_base env st" "hm_name mgr' = name"
  shows "mgr_update name mgr' st (put_mgr mgr' (st\<lparr>hs_io := ios\<rparr>))"
  using assms by (auto simp: mgr_update_def hub_base_def put_mgr_def)

lemma mgr_update_inv:
  assumes "mgr_update name mgr' st st'" "hub_base env st" "go_get (hs_Managers st) name = Some mgr" "mgr_good st mgr'" "hm_name mgr' = name" "hm_Corpus mgr' = hm_Corpus mgr"
  shows "hub_base env st'" "hub_used st \<Longrightarrow> hub_used st'"
proof -
  show "hub_base env st'"
    using assms(1,2,4,5) by (intro hub_base_change [OF assms(2)]) (auto simp: mgr_update_def hub_base_def mgr_good_def split: if_splits)
  show "hub_used st \<Longrightarrow> hub_used st'" by (erule hub_used_cong) (use assms(1,3,6) in \<open>auto simp: mgr_update_def\<close>)
qed

text \<open>What is pending, as records of the hub's corpus.\<close>

lemma pending_as_records:
  assumes base: "hub_base env st" and c: "hm_Corpus mgr = Some mdb" and s: "hm_corpusSeq mgr \<le> seq"
    and rs: "records = map snd (filter (wanted mgr mdb (hm_corpusSeq mgr)) (go_range (db_Records (hs_Corpus st))))"
  shows "hub_pending st mgr seq = (\<lambda>r. he_hash env (r_Val r)) ` {r \<in> set records. seq < r_Seq r}"
    "distinct (map (\<lambda>r. he_hash env (r_Val r)) records)"
proof -
  let ?rs = "go_range (db_Records (hs_Corpus st))"
  have wf: "wfm (db_Records (hs_Corpus st))" using base by (simp add: hub_base_def recs_good_def db_good_def)
  have key: "he_hash env (r_Val (snd kr)) = fst kr" if "kr \<in> set ?rs" for kr
    using base that go_range_get [OF wf, of "fst kr" "snd kr"] by (auto simp: hub_base_def recs_good_def)
  then have "map (\<lambda>r. he_hash env (r_Val r)) records = map fst (filter (wanted mgr mdb (hm_corpusSeq mgr)) ?rs)" by (simp add: rs)
  then show "distinct (map (\<lambda>r. he_hash env (r_Val r)) records)" using wf by (simp add: wfm_def go_keys_def distinct_map_filter)
  have w: "wanted mgr mdb seq kr \<longleftrightarrow> wanted mgr mdb (hm_corpusSeq mgr) kr \<and> seq < r_Seq (snd kr)" for kr
    using s by (auto simp: wanted_def)
  have "hub_pending st mgr seq = fst ` {kr \<in> set ?rs. wanted mgr mdb seq kr}"
    using c go_range_get [OF wf] by (force simp: hub_pending_def)
  also have "\<dots> = (\<lambda>r. he_hash env (r_Val r)) ` {r \<in> set records. seq < r_Seq r}"
    using key by (force simp: w rs)
  finally show "hub_pending st mgr seq = (\<lambda>r. he_hash env (r_Val r)) ` {r \<in> set records. seq < r_Seq r}" .
qed

definition delivered :: "hub_env \<Rightarrow> bytes list \<Rightarrow> string list" where
  "delivered env progs = map (he_hash env) (drop (length progs div 2) progs)"

text \<open>
  What a reply means for a manager that has been served up to \<open>seq\<close> and afterwards up to \<open>seq'\<close>:
  its first half is empty programs, the other half is distinct programs of the hub, which together with
  those still pending, of which there are \<open>left\<close>, are the programs that were pending; something is
  left only when more than \<open>maxRecords\<close> are sent.
\<close>

definition serves :: "hub_env \<Rightarrow> hub_State \<Rightarrow> hub_Manager \<Rightarrow> uint64 \<Rightarrow> uint64 \<Rightarrow> bytes list \<Rightarrow> nat \<Rightarrow> bool" where
  "serves env st mgr seq seq' progs left \<longleftrightarrow> (\<exists>out. progs = replicate (length out) [] @ out)
     \<and> distinct (delivered env progs) \<and> hub_pending st mgr seq = set (delivered env progs) \<union> hub_pending st mgr seq'
     \<and> set (delivered env progs) \<inter> hub_pending st mgr seq' = {} \<and> card (hub_pending st mgr seq') = left
     \<and> (left \<noteq> 0 \<longrightarrow> maxRecords < length (delivered env progs))
     \<and> (\<forall>p \<in> set (drop (length progs div 2) progs). \<exists>key rec. db_view (hs_Corpus st) key = Some rec \<and> r_Val rec = p)"

lemma delivered_conv: "delivered env (replicate (length out) [] @ map r_Val out) = map (\<lambda>r. he_hash env (r_Val r)) out"
  by (simp add: delivered_def)

lemma pendingInputs_law:
  assumes base: "hub_base env st" and srt: "sort_ok env" and mgr: "go_get (hs_Managers st) name = Some mgr" and c: "hm_Corpus mgr = Some mdb"
  shows "\<exists>progs left mgr' st'. pendingInputs env mgr st = Inr (Some (progs, left), mgr', st') \<and> mgr_update name mgr' st st'
    \<and> (\<exists>f. mgr' = mgr\<lparr>hm_corpusSeq := hm_corpusSeq mgr', hm_corpusSeqFile := f\<rparr>) \<and> hm_corpusSeq mgr' \<le> hs_corpusSeq st
    \<and> hm_corpusSeq mgr \<le> hm_corpusSeq mgr' \<and> serves env st mgr (hm_corpusSeq mgr) (hm_corpusSeq mgr') progs left"
proof -
  have nm: "hm_name mgr = name" "hm_corpusSeq mgr \<le> hs_corpusSeq st" using base mgr by (auto simp: hub_base_def mgr_good_def)
  have wf: "wfm (db_Records (hs_Corpus st))" using base by (simp add: hub_base_def recs_good_def db_good_def)
  let ?records = "map snd (filter (wanted mgr mdb (hm_corpusSeq mgr)) (go_range (db_Records (hs_Corpus st))))"
  note pend = pending_as_records [OF base c _ refl]
  show ?thesis
  proof (cases "hm_corpusSeq mgr = hs_corpusSeq st")
    case True
    have none: "\<not> hs_corpusSeq st < r_Seq rec" if "db_view (hs_Corpus st) key = Some rec" for key rec
      using base that by (auto simp: hub_base_def recs_good_def not_less)
    have "hub_pending st mgr (hm_corpusSeq mgr) = {}" using none True by (auto simp: hub_pending_def wanted_def)
    then have "serves env st mgr (hm_corpusSeq mgr) (hm_corpusSeq mgr) [] 0" by (simp add: serves_def delivered_def)
    moreover have "mgr_update name mgr st st" using base mgr by (auto simp: mgr_update_def hub_base_def)
    moreover have "mgr = mgr\<lparr>hm_corpusSeq := hm_corpusSeq mgr, hm_corpusSeqFile := hm_corpusSeqFile mgr\<rparr>" by simp
    moreover have "pendingInputs env mgr st = Inr (Some ([], 0), mgr, st)" using True by (simp add: pendingInputs_def)
    ultimately show ?thesis using nm(2) by blast
  next
    case False
    have rs: "CallSet (r_Val rec) \<noteq> None \<and> r_Seq rec \<le> hs_corpusSeq st" if "(key, rec) \<in> set (go_range (db_Records (hs_Corpus st)))" for key rec
      using base that go_range_get [OF wf] by (auto simp: hub_base_def recs_good_def)
    then have p: "pending_records mgr (go_range (db_Records (hs_Corpus st))) = Inr (Some ?records)" by (intro pending_records_conv [OF c]) auto
    obtain out left maxSeq where cut: "cut_records env (hs_corpusSeq st) ?records = (out, left, maxSeq)" by (metis surj_pair)
    have "\<forall>r \<in> set ?records. r_Seq r \<le> hs_corpusSeq st" using rs by auto
    note cc = cut_records_conv [OF srt cut this]
    have "hm_corpusSeq mgr \<le> r_Seq r" if "r \<in> set out" for r
      using that arg_cong [OF cc(1), of set_mset] by (auto simp: wanted_def)
    then have up: "hm_corpusSeq mgr \<le> maxSeq" using cc(4) nm(2) by auto
    have all: "{r \<in> set ?records. hm_corpusSeq mgr < r_Seq r} = set ?records" by (auto simp: wanted_def)
    have "\<exists>o1. replicate (length out) [] @ map r_Val out = replicate (length o1) [] @ o1" by (rule exI [of _ "map r_Val out"]) simp
    moreover have "\<exists>key rec. db_view (hs_Corpus st) key = Some rec \<and> r_Val rec = r_Val r" if "r \<in> set out" for r
    proof -
      have "r \<in> snd ` set (go_range (db_Records (hs_Corpus st)))" using that arg_cong [OF cc(1), of set_mset] by auto
      then obtain key where "db_view (hs_Corpus st) key = Some r" using go_range_get [OF wf] by force
      then show ?thesis by blast
    qed
    ultimately have "serves env st mgr (hm_corpusSeq mgr) maxSeq (replicate (length out) [] @ map r_Val out) left"
      using split_pending [OF pend(2) [OF order_refl] cc(1,2)] cc(5) unfolding serves_def delivered_conv pend(1) [OF up] pend(1) [OF order_refl] all by simp
    moreover obtain f ios where "saveSeqFile maxSeq (hs_io st) = (f, ios)" by (metis surj_pair)
    ultimately show ?thesis
      using mgr_update_put [OF base, of "mgr\<lparr>hm_corpusSeq := maxSeq, hm_corpusSeqFile := f\<rparr>" name ios] nm(1) cc(3) up False p cut
      by (fastforce simp: pendingInputs_def Let_def)
  qed
qed

lemma deleteInputs_inv:
  assumes base: "hub_base env st" and mgr: "go_get (hs_Managers st) name = Some mgr"
    and del: "deleteInputs env mgr del st = Inr (mgr', st')"
  shows "hub_base env st' \<and> go_get (hs_Managers st') name = Some mgr' \<and> (hub_used st \<longrightarrow> hub_used st') \<and> hs_corpusSeq st' = hs_corpusSeq st
    \<and> hm_corpusSeq mgr' = hm_corpusSeq mgr \<and> hm_Calls mgr' = hm_Calls mgr \<and> (hm_Corpus mgr \<noteq> None \<longrightarrow> hm_Corpus mgr' \<noteq> None)"
proof (cases "del = []")
  case True
  then show ?thesis using assms by (simp add: deleteInputs_def)
next
  case False
  have nm: "hm_name mgr = name" "mgr_good st mgr" using base mgr by (auto simp: hub_base_def)
  obtain mdb mdb1 mdb2 ios where d: "hm_Corpus mgr = Some mdb" "rfold (Delete (he_flate env)) del mdb = Inr mdb1"
    "flush_logged (he_flate env) mdb1 (hs_io st) = Inr (mdb2, ios)" "mgr' = mgr\<lparr>hm_Corpus := Some mdb2\<rparr>"
    "purgeCorpus env (put_mgr mgr' (st\<lparr>hs_io := ios\<rparr>)) = Inr st'"
    using del False by (auto simp: deleteInputs_def res_conv Let_def)
  have "db_good mdb" using nm(2) d(1) by (simp add: mgr_good_def)
  then have "db_good mdb2" using store.del_all [of mdb "he_flate env" del] flush_logged_law [of mdb1 "he_flate env" "hs_io st"] d(2,3) by auto
  then have "mgr_good st mgr'" using nm(2) d(4) by (simp add: mgr_good_def)
  then have "mgr_good (st\<lparr>hs_io := ios\<rparr>) mgr'" "hub_base env (st\<lparr>hs_io := ios\<rparr>)" using base by (auto simp: mgr_good_def hub_base_def)
  then have "hub_base env (put_mgr mgr' (st\<lparr>hs_io := ios\<rparr>))" by (intro hub_base_put)
  from purge_inv [OF this d(5)] show ?thesis using nm(1) d(4) by (auto simp: hub_inv_def)
qed

lemma deleteInputs_dom:
  assumes good: "db_good mdb" and c: "hm_Corpus mgr = Some mdb" and del: "deleteInputs env mgr del st = Inr (mgr', st')"
  shows "\<exists>mdb'. hm_Corpus mgr' = Some mdb' \<and> dom (db_view mdb') = dom (db_view mdb) - set del"
proof (cases "del = []")
  case False
  obtain mdb1 where m1: "rfold (Delete (he_flate env)) del mdb = Inr mdb1" "db_good mdb1"
      "db_view mdb1 = (\<lambda>k. if k \<in> set del then None else db_view mdb k)" using store.del_all [OF good] by blast
  obtain mdb2 ios where "flush_logged (he_flate env) mdb1 (hs_io st) = Inr (mdb2, ios)" "db_view mdb2 = db_view mdb1" using flush_logged_law [OF m1(2)] by blast
  then show ?thesis using del False c m1 by (auto simp: deleteInputs_def res_conv Let_def dom_def)
qed (use c del in \<open>auto simp: deleteInputs_def\<close>)

lemma addInputs_dom:
  assumes good: "db_good mdb" "db_good (hs_Corpus st)" and c: "hm_Corpus mgr = Some mdb" and room: "seq_room (hs_corpusSeq st)"
    and add: "addInputs env mgr inputs st = Inr (mgr', st')"
  shows "\<exists>mdb'. hm_Corpus mgr' = Some mdb' \<and> dom (db_view mdb') = dom (db_view mdb) \<union> good_inputs env inputs"
proof (cases "inputs = []")
  case False
  obtain mdb' db' ios where "inputs_added env (hs_corpusSeq st + 1) inputs mdb (hs_Corpus st) mdb' db'" "mgr' = mgr\<lparr>hm_Corpus := Some mdb'\<rparr>"
    using addInputs_law [OF c good _ False, of env] seq_room_next [OF room] add by auto
  then show ?thesis by (simp add: inputs_added_def)
qed (use c add in \<open>auto simp: addInputs_def good_inputs_def\<close>)

lemma deleteInputs_returns:
  assumes base: "hub_base env st" and mgr: "go_get (hs_Managers st) name = Some mgr" and opn: "all_open st"
  shows "\<exists>mgr' st'. deleteInputs env mgr del st = Inr (mgr', st') \<and> all_open st'"
proof (cases "del = []")
  case True
  then show ?thesis using opn by (simp add: deleteInputs_def)
next
  case False
  have nm: "hm_name mgr = name" "mgr_good st mgr" using base mgr by (auto simp: hub_base_def)
  obtain mdb where mdb: "hm_Corpus mgr = Some mdb" using opn mgr by (auto simp: all_open_def)
  then have "db_good mdb" using nm(2) by (simp add: mgr_good_def)
  from store.del_all [OF this, of "he_flate env" del] obtain mdb1 where m1: "rfold (Delete (he_flate env)) del mdb = Inr mdb1" "db_good mdb1" by blast
  from flush_logged_law [OF m1(2)] obtain mdb2 ios where m2: "flush_logged (he_flate env) mdb1 (hs_io st) = Inr (mdb2, ios)" "db_good mdb2" by blast
  let ?mgr = "mgr\<lparr>hm_Corpus := Some mdb2\<rparr>" and ?st = "put_mgr (mgr\<lparr>hm_Corpus := Some mdb2\<rparr>) (st\<lparr>hs_io := ios\<rparr>)"
  have o: "all_open ?st" using opn nm(1) by (auto simp: all_open_def split: if_splits)
  have "wfm (hs_Managers ?st)" "db_good (hs_Corpus ?st)" using base by (auto simp: hub_base_def recs_good_def put_mgr_def)
  from purgeCorpus_law [OF this o, of env] obtain db ios' where p: "purgeCorpus env ?st = Inr (?st\<lparr>hs_Corpus := db, hs_io := ios'\<rparr>)" by blast
  have "all_open (?st\<lparr>hs_Corpus := db, hs_io := ios'\<rparr>)" using o by (simp add: all_open_def)
  then show ?thesis using False mdb m1(1) m2(1) p by (simp add: deleteInputs_def Let_def)
qed

lemma addInputs_returns:
  assumes base: "hub_base env st" and mgr: "go_get (hs_Managers st) name = Some mgr" and opn: "all_open st" and room: "seq_room (hs_corpusSeq st)"
  shows "\<exists>mgr' st'. addInputs env mgr inputs st = Inr (mgr', st') \<and> all_open st'"
proof (cases "inputs = []")
  case True
  then show ?thesis using opn by (simp add: addInputs_def)
next
  case False
  have nm: "hm_name mgr = name" "mgr_good st mgr" using base mgr by (auto simp: hub_base_def)
  obtain mdb where "hm_Corpus mgr = Some mdb" using opn mgr unfolding all_open_def by blast
  with nm(2) have mdb: "hm_Corpus mgr = Some mdb" "db_good mdb" by (auto simp: mgr_good_def)
  have "db_good (hs_Corpus st)" using base by (simp add: hub_base_def recs_good_def)
  from addInputs_law [OF mdb this _ False, of env] seq_room_next [OF room] obtain mdb' db' ios where
    "addInputs env mgr inputs st = Inr (mgr\<lparr>hm_Corpus := Some mdb'\<rparr>,
        put_mgr (mgr\<lparr>hm_Corpus := Some mdb'\<rparr>) (st\<lparr>hs_corpusSeq := hs_corpusSeq st + 1, hs_Corpus := db', hs_io := ios\<rparr>))" by blast
  then show ?thesis using opn nm(1) by (auto simp: all_open_def split: if_splits)
qed

definition served :: "hub_Manager \<Rightarrow> hub_Manager \<Rightarrow> bool" where
  "served mgr mgr' \<longleftrightarrow> hm_corpusSeq mgr \<le> hm_corpusSeq mgr' \<and> hm_Calls mgr' = hm_Calls mgr \<and> hm_Corpus mgr' \<noteq> None"

lemma pending_cong: "hm_Corpus mgr' = hm_Corpus mgr \<Longrightarrow> hm_Calls mgr' = hm_Calls mgr \<Longrightarrow> hs_Corpus st' = hs_Corpus st \<Longrightarrow> hub_pending st' mgr' seq = hub_pending st mgr seq"
  by (simp add: hub_pending_def wanted_def supports_def cong: option.case_cong)

lemma serves_cong: "hm_Corpus mgr' = hm_Corpus mgr \<Longrightarrow> hm_Calls mgr' = hm_Calls mgr \<Longrightarrow> hs_Corpus st' = hs_Corpus st \<Longrightarrow> serves env st' mgr' = serves env st mgr"
  by (simp add: serves_def fun_eq_iff pending_cong [of mgr' mgr st' st])

text \<open>The last step of \<open>Sync\<close> only counts.\<close>

lemma count_sync:
  assumes "mgr_update name mgr' st st'" "hub_base env st" "go_get (hs_Managers st) name = Some mgr" "mgr_good st mgr'" "hm_name mgr' = name" "hm_Corpus mgr' = hm_Corpus mgr"
    and m2: "m2 = mgr'\<lparr>hm_Added := a, hm_Deleted := b, hm_New := n\<rparr>"
  shows "hub_base env (put_mgr m2 st')" "hub_used st \<Longrightarrow> hub_used (put_mgr m2 st')" "go_get (hs_Managers (put_mgr m2 st')) name = Some m2" "all_open st \<Longrightarrow> all_open (put_mgr m2 st')"
proof -
  have u: "mgr_update name m2 st (put_mgr m2 st')" using assms(1,2,5) m2 by (auto simp: mgr_update_def)
  have "mgr_good st m2" "hm_name m2 = name" "hm_Corpus m2 = hm_Corpus mgr" using assms m2 by (auto simp: mgr_good_def)
  from mgr_update_inv [OF u assms(2,3) this] show "hub_base env (put_mgr m2 st')" "hub_used st \<Longrightarrow> hub_used (put_mgr m2 st')" by blast+
  show "go_get (hs_Managers (put_mgr m2 st')) name = Some m2" using assms(5) m2 by simp
  have "all_open (put_mgr m2 st') = all_open st"
    by (rule conjunct2 [OF in_use_cong]) (use u assms(3,6) m2 in \<open>auto simp: mgr_update_def\<close>)
  then show "all_open st \<Longrightarrow> all_open (put_mgr m2 st')" by simp
qed

lemma hub_Sync_conv:
  assumes "go_get (hs_Managers st) name = Some mgr" "hm_Connected mgr" "deleteInputs env mgr del st = Inr (m1, s1)" "addInputs env m1 add s1 = Inr (m2, s2)"
    "pendingInputs env m2 s2 = Inr (r, m3, s3)"
  shows "\<exists>n. hub_Sync env name add del st = Inr (r, put_mgr (m3\<lparr>hm_Added := hm_Added m3 + int (length add),
    hm_Deleted := hm_Deleted m3 + int (length del), hm_New := n\<rparr>) s3)"
  using assms unfolding hub_Sync_def by (simp add: Let_def) blast

lemma sync_tail:
  assumes base: "hub_base env s2" and srt: "sort_ok env" and m2: "go_get (hs_Managers s2) name = Some m2" and c: "hm_Corpus m2 = Some mdb"
  shows "\<exists>progs left m3 s3. pendingInputs env m2 s2 = Inr (Some (progs, left), m3, s3)
    \<and> (\<forall>m4 a b n. m4 = m3\<lparr>hm_Added := a, hm_Deleted := b, hm_New := n\<rparr> \<longrightarrow>
        hub_base env (put_mgr m4 s3) \<and> (hub_used s2 \<longrightarrow> hub_used (put_mgr m4 s3)) \<and> (all_open s2 \<longrightarrow> all_open (put_mgr m4 s3))
        \<and> go_get (hs_Managers (put_mgr m4 s3)) name = Some m4 \<and> hs_corpusSeq (put_mgr m4 s3) = hs_corpusSeq s2
        \<and> hm_corpusSeq m2 \<le> hm_corpusSeq m4 \<and> hm_Connected m4 = hm_Connected m2
        \<and> hm_Corpus m4 = hm_Corpus m2 \<and> hm_Calls m4 = hm_Calls m2 \<and> hs_Corpus (put_mgr m4 s3) = hs_Corpus s2
        \<and> serves env (put_mgr m4 s3) m4 (hm_corpusSeq m2) (hm_corpusSeq m4) progs left)"
proof -
  obtain progs left m3 s3 f where p: "pendingInputs env m2 s2 = Inr (Some (progs, left), m3, s3)" "mgr_update name m3 s2 s3"
    "m3 = m2\<lparr>hm_corpusSeq := hm_corpusSeq m3, hm_corpusSeqFile := f\<rparr>" "hm_corpusSeq m3 \<le> hs_corpusSeq s2" "hm_corpusSeq m2 \<le> hm_corpusSeq m3"
    "serves env s2 m2 (hm_corpusSeq m2) (hm_corpusSeq m3) progs left"
    using pendingInputs_law [OF assms] by metis
  have nm: "hm_name m2 = name" "mgr_good s2 m2" using base m2 by (auto simp: hub_base_def)
  have f3: "hm_name m3 = name" "hm_Corpus m3 = hm_Corpus m2" "hm_Calls m3 = hm_Calls m2" "hm_Connected m3 = hm_Connected m2"
      "hm_reproSeq m3 = hm_reproSeq m2" "hm_ownRepros m3 = hm_ownRepros m2"
    using arg_cong [OF p(3), of hm_name] arg_cong [OF p(3), of hm_Corpus] arg_cong [OF p(3), of hm_Calls] arg_cong [OF p(3), of hm_Connected]
      arg_cong [OF p(3), of hm_reproSeq] arg_cong [OF p(3), of hm_ownRepros] nm(1) by simp_all
  have good: "mgr_good s2 m3" using nm(2) p(4) f3 by (simp add: mgr_good_def)
  show ?thesis
  proof (rule exI [of _ progs], rule exI [of _ left], rule exI [of _ m3], rule exI [of _ s3], intro conjI p(1) allI impI)
    fix m4 a b n assume m4: "m4 = m3\<lparr>hm_Added := a, hm_Deleted := b, hm_New := n\<rparr>"
    note cs = count_sync [OF p(2) base m2 good f3(1,2) m4]
    show "hub_base env (put_mgr m4 s3)" "hub_used s2 \<Longrightarrow> hub_used (put_mgr m4 s3)" "all_open s2 \<Longrightarrow> all_open (put_mgr m4 s3)"
      "go_get (hs_Managers (put_mgr m4 s3)) name = Some m4" using cs by blast+
    show "hs_corpusSeq (put_mgr m4 s3) = hs_corpusSeq s2" "hs_Corpus (put_mgr m4 s3) = hs_Corpus s2" using p(2) by (simp_all add: mgr_update_def)
    show "hm_corpusSeq m2 \<le> hm_corpusSeq m4" "hm_Connected m4 = hm_Connected m2" "hm_Corpus m4 = hm_Corpus m2" "hm_Calls m4 = hm_Calls m2"
      using p(5) f3 by (simp_all add: m4)
    have "serves env (put_mgr m4 s3) m4 = serves env s2 m2" by (rule serves_cong) (use p(2) f3 in \<open>simp_all add: m4 mgr_update_def\<close>)
    then show "serves env (put_mgr m4 s3) m4 (hm_corpusSeq m2) (hm_corpusSeq m4) progs left" using p(6) by (simp add: m4)
  qed
qed

lemma hub_Sync_law:
  assumes inv: "hub_inv env st" and srt: "sort_ok env" and mgr: "go_get (hs_Managers st) name = Some mgr" "hm_Connected mgr"
    and opn: "all_open st" and room: "seq_room (hs_corpusSeq st)"
  shows "\<exists>progs left st' mgr'. hub_Sync env name add del st = Inr (Some (progs, left), st') \<and> hub_inv env st' \<and> all_open st'
    \<and> go_get (hs_Managers st') name = Some mgr' \<and> hm_Connected mgr' \<and> hm_corpusSeq mgr \<le> hm_corpusSeq mgr'
    \<and> serves env st' mgr' (hm_corpusSeq mgr) (hm_corpusSeq mgr') progs left \<and> hm_Calls mgr' = hm_Calls mgr
    \<and> (\<exists>mdb mdb'. hm_Corpus mgr = Some mdb \<and> hm_Corpus mgr' = Some mdb' \<and> dom (db_view mdb') = dom (db_view mdb) - set del \<union> good_inputs env add)
    \<and> (add = [] \<and> del = [] \<longrightarrow> hs_Corpus st' = hs_Corpus st \<and> hm_Corpus mgr' = hm_Corpus mgr)
    \<and> hs_corpusSeq st' = (if add = [] then hs_corpusSeq st else hs_corpusSeq st + 1)"
proof -
  have base: "hub_base env st" "hub_used st" using inv by (simp_all add: hub_inv_def)
  obtain m1 s1 where d: "deleteInputs env mgr del st = Inr (m1, s1)" "all_open s1" using deleteInputs_returns [OF base(1) mgr(1) opn] by blast
  note di = deleteInputs_inv [OF base(1) mgr(1) d(1)]
  then have room1: "seq_room (hs_corpusSeq s1)" using room by simp
  obtain m2 s2 where a: "addInputs env m1 add s1 = Inr (m2, s2)" "all_open s2"
    using addInputs_returns [of env s1 name m1 add] di d(2) room1 by blast
  have ai: "hub_base env s2 \<and> go_get (hs_Managers s2) name = Some m2 \<and> (hub_used s1 \<longrightarrow> hub_used s2)
      \<and> hm_corpusSeq m2 = hm_corpusSeq m1 \<and> hm_Calls m2 = hm_Calls m1" using addInputs_inv [of env s1 name m1 add m2 s2] di room1 a(1) by blast
  then obtain mdb where c: "hm_Corpus m2 = Some mdb" using a(2) unfolding all_open_def by blast
  from sync_tail [of env s2 name m2, OF _ srt _ c] ai obtain progs left m3 s3 where
    p: "pendingInputs env m2 s2 = Inr (Some (progs, left), m3, s3)" "\<And>m4 a b n. m4 = m3\<lparr>hm_Added := a, hm_Deleted := b, hm_New := n\<rparr> \<Longrightarrow>
        hub_base env (put_mgr m4 s3) \<and> (hub_used s2 \<longrightarrow> hub_used (put_mgr m4 s3)) \<and> (all_open s2 \<longrightarrow> all_open (put_mgr m4 s3))
        \<and> go_get (hs_Managers (put_mgr m4 s3)) name = Some m4 \<and> hs_corpusSeq (put_mgr m4 s3) = hs_corpusSeq s2
        \<and> hm_corpusSeq m2 \<le> hm_corpusSeq m4 \<and> hm_Connected m4 = hm_Connected m2
        \<and> hm_Corpus m4 = hm_Corpus m2 \<and> hm_Calls m4 = hm_Calls m2 \<and> hs_Corpus (put_mgr m4 s3) = hs_Corpus s2
        \<and> serves env (put_mgr m4 s3) m4 (hm_corpusSeq m2) (hm_corpusSeq m4) progs left" by blast
  have con: "hm_Connected m2" using mgr(2) d(1) a(1) by (auto simp: deleteInputs_def addInputs_def res_conv Let_def split: if_splits)
  from hub_Sync_conv [OF mgr d(1) a(1) p(1)] obtain n where
    r: "hub_Sync env name add del st = Inr (Some (progs, left), put_mgr (m3\<lparr>hm_Added := hm_Added m3 + int (length add),
      hm_Deleted := hm_Deleted m3 + int (length del), hm_New := n\<rparr>) s3)" by blast
  define m where "m = m3\<lparr>hm_Added := hm_Added m3 + int (length add), hm_Deleted := hm_Deleted m3 + int (length del), hm_New := n\<rparr>"
  have seq: "hm_corpusSeq m2 = hm_corpusSeq mgr" using ai di by simp
  note tail = p(2) [OF m_def]
  obtain mdb0 where m0: "hm_Corpus mgr = Some mdb0" using opn mgr(1) unfolding all_open_def by blast
  have "mgr_good st mgr" using base(1) mgr(1) unfolding hub_base_def by blast
  with m0 have m0: "hm_Corpus mgr = Some mdb0" "db_good mdb0" by (simp_all add: mgr_good_def)
  obtain mdb1 where m1: "hm_Corpus m1 = Some mdb1" "dom (db_view mdb1) = dom (db_view mdb0) - set del" using deleteInputs_dom [OF m0(2,1) d(1)] by blast
  have "db_good mdb1" "db_good (hs_Corpus s1)" using di m1(1) by (auto simp: hub_base_def mgr_good_def recs_good_def)
  from addInputs_dom [OF this m1(1) room1 a(1)] obtain mdb2 where "hm_Corpus m2 = Some mdb2" "dom (db_view mdb2) = dom (db_view mdb0) - set del \<union> good_inputs env add"
    by (auto simp: m1(2))
  then have dom: "\<exists>mdb mdb'. hm_Corpus mgr = Some mdb \<and> hm_Corpus m = Some mdb' \<and> dom (db_view mdb') = dom (db_view mdb) - set del \<union> good_inputs env add"
    using m0(1) tail by auto
  have "hs_corpusSeq s2 = (if add = [] then hs_corpusSeq s1 else hs_corpusSeq s1 + 1)" using a(1) by (auto simp: addInputs_def res_conv Let_def)
  then have num: "hs_corpusSeq (put_mgr m s3) = (if add = [] then hs_corpusSeq st else hs_corpusSeq st + 1)" using tail di by simp
  have same: "add = [] \<and> del = [] \<longrightarrow> hs_Corpus (put_mgr m s3) = hs_Corpus st \<and> hm_Corpus m = hm_Corpus mgr"
    using d(1) a(1) tail by (auto simp: deleteInputs_def addInputs_def)
  have inv': "hub_inv env (put_mgr m s3)" "all_open (put_mgr m s3)" "hm_Connected m" "hm_corpusSeq mgr \<le> hm_corpusSeq m" "hm_Calls m = hm_Calls mgr"
    "serves env (put_mgr m s3) m (hm_corpusSeq mgr) (hm_corpusSeq m) progs left" "go_get (hs_Managers (put_mgr m s3)) name = Some m"
    using tail ai di base(2) a(2) con seq by (auto simp: hub_inv_def)
  show ?thesis
    by (rule exI [of _ progs], rule exI [of _ left], rule exI [of _ "put_mgr m s3"], rule exI [of _ m]) (intro conjI r [folded m_def] inv' dom same num)
qed

text \<open>
  C10: \<open>Sync\<close> of a connected manager, in a state where the corpora of all managers could be opened
  and the sequence numbers have not run out, neither fails nor panics and keeps the invariant. When
  the corpus of a manager could not be opened, the next purge panics (\<open>closed_corpus_breaks\<close>).
  The reply accounts exactly for what was pending: each program the manager had to get is in the
  reply, or is still pending and counted.
\<close>

theorem hub_Sync_serves:
  assumes inv: "hub_inv env st" and srt: "sort_ok env" and mgr: "go_get (hs_Managers st) name = Some mgr" "hm_Connected mgr"
    and opn: "all_open st" and room: "seq_room (hs_corpusSeq st)"
  shows "\<exists>progs left st' mgr'. hub_Sync env name add del st = Inr (Some (progs, left), st') \<and> hub_inv env st' \<and> all_open st'
    \<and> go_get (hs_Managers st') name = Some mgr' \<and> hm_Connected mgr' \<and> hm_corpusSeq mgr \<le> hm_corpusSeq mgr'
    \<and> serves env st' mgr' (hm_corpusSeq mgr) (hm_corpusSeq mgr') progs left"
  using hub_Sync_law [OF assms, of add del] by blast

section \<open>Reachable states\<close>

lemma hub_base_fields [simp]:
  "hub_base env (st\<lparr>hs_io := ios\<rparr>) = hub_base env st" "mgr_good (st\<lparr>hs_io := ios\<rparr>) mgr = mgr_good st mgr"
  by (auto simp: hub_base_def mgr_good_def)

lemma createManager_inv:
  assumes base: "hub_base env st" and cr: "createManager env fs name st = Inr (ok, st')"
  shows "hub_base env st'" "hs_corpusSeq st' = max (hs_corpusSeq st) (loadSeqFile (mf_seq fs))" "\<not> ok \<Longrightarrow> hub_used st \<Longrightarrow> hub_used st'" "\<not> ok \<Longrightarrow> hs_Managers st' = hs_Managers st"
proof -
  let ?seq = "loadSeqFile (mf_seq fs)" and ?rs = "if loadSeqFile (mf_reproSeq fs) = 0 then hs_reproSeq st else loadSeqFile (mf_reproSeq fs)"
  obtain i ios where io: "next_io (hs_io st) = (i, ios)" by (metis surj_pair)
  let ?st = "st\<lparr>hs_corpusSeq := max (hs_corpusSeq st) ?seq, hs_reproSeq := max (hs_reproSeq st) ?rs, hs_io := ios\<rparr>"
  obtain r where op: "db_Open (he_flate env) i (mf_corpus fs) = Inr r" "\<And>db. r = Some db \<Longrightarrow> db_good db"
    using db_Open_returns [of "he_flate env" i "mf_corpus fs"] by blast
  have b1: "hub_base env ?st"
    using base recs_good_mono [of env "hs_corpusSeq st" "hs_Corpus st" "max (hs_corpusSeq st) ?seq"]
      recs_good_mono [of env "hs_reproSeq st" "hs_Repros st" "max (hs_reproSeq st) ?rs"]
    by (intro hub_base_change [OF base]) (auto simp: hub_base_def)
  have st1: "createManager env fs name st = (case r of None \<Rightarrow> Inr (False, ?st) | Some db \<Rightarrow>
      Inr (True, put_mgr \<lparr>hm_name = name, hm_corpusSeq = ?seq, hm_reproSeq = ?rs, hm_corpusSeqFile = mf_seq fs,
              hm_reproSeqFile = mf_reproSeq fs, hm_ownRepros = Some [], hm_Connected = False, hm_Added = 0, hm_Deleted = 0,
              hm_New = 0, hm_SentRepros = 0, hm_RecvRepros = 0, hm_Calls = None, hm_Corpus = Some db\<rparr> ?st))"
    using base by (auto simp: createManager_def Let_def io op(1) hub_base_def put_mgr_def max_def not_less split: option.splits)
  have "hub_base env st' \<and> hs_corpusSeq st' = max (hs_corpusSeq st) ?seq \<and> (\<not> ok \<longrightarrow> hub_used st \<longrightarrow> hub_used st') \<and> (\<not> ok \<longrightarrow> hs_Managers st' = hs_Managers st)"
  proof (cases r)
    case None
    then have "st' = ?st" using cr st1 by simp
    moreover have "hub_used st \<Longrightarrow> hub_used ?st" by (erule hub_used_cong) auto
    ultimately show ?thesis using b1 by simp
  next
    case (Some db)
    then show ?thesis using cr st1 hub_base_put [OF b1] op(2) [OF Some] by (auto simp: mgr_good_def)
  qed
  then show "hub_base env st'" "hs_corpusSeq st' = max (hs_corpusSeq st) ?seq" "\<not> ok \<Longrightarrow> hub_used st \<Longrightarrow> hub_used st'" "\<not> ok \<Longrightarrow> hs_Managers st' = hs_Managers st" by blast+
qed

lemma connect_found:
  assumes base: "hub_base env st" "hub_used st" and room: "seq_room (hs_corpusSeq st)" "seq_room (loadSeqFile (mf_seq fs))"
    and c1: "(case go_get (hs_Managers st) name of Some _ \<Rightarrow> Inr (True, st) | None \<Rightarrow> createManager env fs name st) = Inr (ok1, st1)"
  shows "hub_base env st1 \<and> seq_room (hs_corpusSeq st1) \<and> (go_get (hs_Managers st1) name = None \<longrightarrow> hub_used st1)"
proof (cases "go_get (hs_Managers st) name")
  case None
  then have "createManager env fs name st = Inr (ok1, st1)" using c1 by simp
  note ci = createManager_inv [OF base(1) this]
  have "ok1 \<Longrightarrow> go_get (hs_Managers st1) name \<noteq> None"
    using None c1 by (auto simp: createManager_def Let_def res_conv go_put_conv split: prod.splits option.splits)
  then show ?thesis using ci base(2) room by (cases ok1) (auto simp: seq_room_def)
qed (use c1 base room in auto)

lemma hub_Connect_inv:
  assumes inv: "hub_inv env st" and room: "seq_room (hs_corpusSeq st)" "seq_room (loadSeqFile (mf_seq fs))"
    and con: "hub_Connect env fs name fresh calls corpus st = Inr (ok, st')"
  shows "hub_inv env st'"
proof -
  have base: "hub_base env st" "hub_used st" using inv by (simp_all add: hub_inv_def)
  obtain ok1 st1 where c1: "(case go_get (hs_Managers st) name of Some _ \<Rightarrow> Inr (True, st) | None \<Rightarrow> createManager env fs name st) = Inr (ok1, st1)"
    using con by (auto simp: hub_Connect_def rbind_Inr_conv)
  have st1: "hub_base env st1" "seq_room (hs_corpusSeq st1)" "go_get (hs_Managers st1) name = None \<Longrightarrow> hub_used st1"
    using connect_found [OF base room c1] by blast+
  show ?thesis
  proof (cases "go_get (hs_Managers st1) name")
    case None
    then show ?thesis using con c1 st1 by (simp add: hub_Connect_def hub_inv_def)
  next
    case (Some mgr0)
    have nm: "hm_name mgr0 = name" "mgr_good st1 mgr0" using st1(1) Some by (auto simp: hub_base_def)
    obtain f1 ios1 f2 ios2 i ios3 where io: "saveSeqFile (if fresh then 0 else hm_corpusSeq mgr0) (hs_io st1) = (f1, ios1)"
      "saveSeqFile (if fresh then hs_reproSeq st1 else hm_reproSeq mgr0) ios1 = (f2, ios2)" "next_io ios2 = (i, ios3)" by (metis surj_pair)
    obtain r where r: "db_Open (he_flate env) i [] = Inr r" "\<And>db. r = Some db \<Longrightarrow> db_good db" using db_Open_returns [of "he_flate env" i "[]"] by blast
    define mgr2 where "mgr2 = mgr0\<lparr>hm_Connected := True, hm_corpusSeq := (if fresh then 0 else hm_corpusSeq mgr0),
       hm_reproSeq := (if fresh then hs_reproSeq st1 else hm_reproSeq mgr0), hm_corpusSeqFile := f1, hm_reproSeqFile := f2,
       hm_Calls := fold (\<lambda>c. go_set c ()) calls (Some []), hm_Corpus := r\<rparr>"
    define st2 where "st2 = put_mgr mgr2 (st1\<lparr>hs_io := ios3\<rparr>)"
    have res: "(if r = None then Inr (False, st2) else rbind (addInputs env mgr2 corpus st2) (\<lambda>(mgr3, st3). rmap (\<lambda>st4. (True, st4)) (purgeCorpus env st3))) = Inr (ok, st')"
      using con c1 Some io r(1) unfolding mgr2_def st2_def by (simp add: hub_Connect_def Let_def split del: if_split)
    have "mgr_good st1 mgr2" using nm(2) r(2) by (simp add: mgr_good_def mgr2_def)
    then have b2: "hub_base env st2" using st1(1) hub_base_put [of env "st1\<lparr>hs_io := ios3\<rparr>" mgr2] by (simp add: st2_def)
    have g2: "go_get (hs_Managers st2) name = Some mgr2" "seq_room (hs_corpusSeq st2)" using nm(1) st1(2) by (simp_all add: st2_def mgr2_def)
    show ?thesis
    proof (cases "r = None")
      case True
      then have "hm_Corpus mgr2 = None" by (simp add: mgr2_def)
      then have "\<not> all_open st2" using g2(1) unfolding all_open_def by blast
      then show ?thesis using res True b2 by (auto simp: hub_inv_def hub_used_def)
    next
      case False
      then obtain mgr3 st3 where "addInputs env mgr2 corpus st2 = Inr (mgr3, st3)" "purgeCorpus env st3 = Inr st'" using res by (auto simp: res_conv)
      then show ?thesis using addInputs_inv [OF b2 g2] purge_inv by blast
    qed
  qed
qed

text \<open>The reproducers a manager has still to get.\<close>

definition wanted_repro :: "hub_Manager \<Rightarrow> string \<times> Record \<Rightarrow> bool" where
  "wanted_repro mgr kr \<longleftrightarrow> hm_reproSeq mgr < r_Seq (snd kr) \<and> go_get (hm_ownRepros mgr) (fst kr) \<noteq> Some True \<and> supports mgr (r_Val (snd kr))"

lemma pick_repro_conv:
  assumes "\<forall>kr \<in> set rs. CallSet (r_Val (snd kr)) \<noteq> None"
  shows "\<exists>v s. pick_repro mgr rs best = Some (v, s) \<and> s \<le> snd best \<and> (\<forall>kr \<in> set rs. wanted_repro mgr kr \<longrightarrow> s \<le> r_Seq (snd kr))
    \<and> ((v, s) = best \<or> (\<exists>kr \<in> set rs. wanted_repro mgr kr \<and> v = r_Val (snd kr) \<and> s = r_Seq (snd kr)))"
  using assms
proof (induction rs arbitrary: best)
  case Nil
  then show ?case by (cases best) simp
next
  case (Cons kr rs)
  obtain key rec where kr: "kr = (key, rec)" by (cases kr)
  obtain calls where calls: "CallSet (r_Val rec) = Some calls" using Cons.prems kr by auto
  let ?best = "if wanted_repro mgr kr \<and> r_Seq rec < snd best then (r_Val rec, r_Seq rec) else best"
  have "pick_repro mgr (kr # rs) best = pick_repro mgr rs ?best"
    using calls by (auto simp: kr wanted_repro_def supports_def not_le)
  moreover obtain v s where "pick_repro mgr rs ?best = Some (v, s)" "s \<le> snd ?best" "\<forall>kr \<in> set rs. wanted_repro mgr kr \<longrightarrow> s \<le> r_Seq (snd kr)"
     "(v, s) = ?best \<or> (\<exists>kr \<in> set rs. wanted_repro mgr kr \<and> v = r_Val (snd kr) \<and> s = r_Seq (snd kr))"
    using Cons.IH [of ?best] Cons.prems by auto
  ultimately show ?case by (auto simp: kr split: if_splits)
qed

lemma CallSet_Nil: "CallSet [] = None"
  by (simp add: CallSet_def go_len_def)

text \<open>\<open>PendingRepro\<close> in a good state.\<close>

lemma PendingRepro_law:
  assumes base: "hub_base env st" and mgr: "go_get (hs_Managers st) name = Some mgr" "hm_Connected mgr"
  shows "\<exists>repro st' mgr'. PendingRepro name st = (Some repro, st') \<and> mgr_update name mgr' st st' \<and> hm_name mgr' = name
    \<and> hm_Corpus mgr' = hm_Corpus mgr \<and> mgr_good st mgr'
    \<and> (if repro = [] then hm_reproSeq mgr' = hs_reproSeq st \<and> (\<forall>key rec. db_view (hs_Repros st) key = Some rec \<longrightarrow> \<not> wanted_repro mgr (key, rec))
       else (\<exists>key rec. db_view (hs_Repros st) key = Some rec \<and> wanted_repro mgr (key, rec) \<and> repro = r_Val rec \<and> hm_reproSeq mgr' = r_Seq rec)
         \<and> (\<forall>key rec. db_view (hs_Repros st) key = Some rec \<longrightarrow> wanted_repro mgr (key, rec) \<longrightarrow> hm_reproSeq mgr' \<le> r_Seq rec))"
proof (cases "hm_reproSeq mgr = hs_reproSeq st")
  case True
  have nm: "hm_name mgr = name" "mgr_good st mgr" using base mgr(1) by (auto simp: hub_base_def)
  have "\<not> wanted_repro mgr (key, rec)" if "db_view (hs_Repros st) key = Some rec" for key rec
    using base that True by (auto simp: hub_base_def recs_good_def wanted_repro_def not_less)
  moreover have "mgr_update name mgr st st" using base mgr by (auto simp: mgr_update_def hub_base_def)
  moreover have "PendingRepro name st = (Some [], st)" using True mgr by (simp add: PendingRepro_def)
  ultimately show ?thesis using nm True by auto
next
  case False
  have nm: "hm_name mgr = name" "mgr_good st mgr" using base mgr(1) by (auto simp: hub_base_def)
  have wf: "wfm (db_Records (hs_Repros st))" using base by (simp add: hub_base_def recs_good_def db_good_def)
  let ?rs = "go_range (db_Records (hs_Repros st))"
  have rs: "CallSet (r_Val (snd kr)) \<noteq> None \<and> r_Seq (snd kr) \<le> hs_reproSeq st \<and> r_Seq (snd kr) \<noteq> NOT 0" if "kr \<in> set ?rs" for kr
    using base that go_range_get [OF wf, of "fst kr" "snd kr"] by (auto simp: hub_base_def recs_good_def db_good_def seqDeleted_def)
  obtain v s where p: "pick_repro mgr ?rs ([], NOT 0) = Some (v, s)" "\<forall>kr \<in> set ?rs. wanted_repro mgr kr \<longrightarrow> s \<le> r_Seq (snd kr)"
      "(v, s) = ([], NOT 0) \<or> (\<exists>kr \<in> set ?rs. wanted_repro mgr kr \<and> v = r_Val (snd kr) \<and> s = r_Seq (snd kr))"
    using pick_repro_conv [of ?rs mgr "([], NOT 0)"] rs by auto
  obtain f ios where io: "saveSeqFile (if v = [] then hs_reproSeq st else s) (hs_io st) = (f, ios)" by (metis surj_pair)
  let ?m = "mgr\<lparr>hm_reproSeq := (if v = [] then hs_reproSeq st else s), hm_reproSeqFile := f, hm_RecvRepros := hm_RecvRepros mgr + (if v = [] then 0 else 1)\<rparr>"
  have r: "PendingRepro name st = (Some v, put_mgr ?m (st\<lparr>hs_io := ios\<rparr>))" using False mgr p(1) io by (simp add: PendingRepro_def Let_def)
  have ne: "r_Val (snd kr) \<noteq> []" if "kr \<in> set ?rs" for kr using rs [OF that] CallSet_Nil by auto
  have "\<not> wanted_repro mgr kr" if "v = []" "kr \<in> set ?rs" for kr
    using that p rs [OF that(2)] ne word_not_simps(1) by (metis (no_types, lifting) Pair_inject bit.compl_zero word_order.extremum_unique)
  moreover have "v \<noteq> [] \<Longrightarrow> \<exists>kr \<in> set ?rs. wanted_repro mgr kr \<and> v = r_Val (snd kr) \<and> s = r_Seq (snd kr)" using p(3) by auto
  moreover have "mgr_good st ?m" using nm(2) \<open>v \<noteq> [] \<Longrightarrow> _\<close> rs by (auto simp: mgr_good_def)
  moreover have "mgr_update name ?m st (put_mgr ?m (st\<lparr>hs_io := ios\<rparr>))" using mgr_update_put [OF base] nm(1) by simp
  ultimately show ?thesis
    using p(2) nm(1) go_range_get [OF wf] by (intro exI [of _ v] exI [of _ "put_mgr ?m (st\<lparr>hs_io := ios\<rparr>)"] exI [of _ ?m]) (auto simp: r Bex_def Ball_def)
qed

lemma AddRepro_inv:
  assumes inv: "hub_inv env st" and room: "seq_room (hs_reproSeq st)" and add: "AddRepro env name repro st = Inr (ok, st')"
  shows "hub_inv env st'"
proof -
  have base: "hub_base env st" "hub_used st" using inv by (simp_all add: hub_inv_def)
  consider "st' = st" | mgr own where "go_get (hs_Managers st) name = Some mgr" "CallSet repro \<noteq> None" "go_put (he_hash env repro) True (hm_ownRepros mgr) = Inr own"
    using add by (auto simp: AddRepro_def Let_def rbind_Inr_conv split: option.splits if_splits)
  then show ?thesis
  proof cases
    case (2 mgr own)
    show ?thesis
    proof (cases "st' = st")
      case False
      have nm: "hm_name mgr = name" "mgr_good st mgr" using base(1) 2(1) by (auto simp: hub_base_def)
      note next1 = seq_room_next [OF room]
      define rec where "rec = \<lparr>r_Val = repro, r_Seq = hs_reproSeq st + 1\<rparr>"
      have good: "recs_good env (hs_reproSeq st) (hs_Repros st)" using base(1) by (simp add: hub_base_def)
      obtain db where db: "Save (he_flate env) (he_hash env repro) repro (hs_reproSeq st + 1) (hs_Repros st) = Inr db" "db_good db"
          "db_view db = (db_view (hs_Repros st))(he_hash env repro \<mapsto> rec)"
        using store.save_law [of "hs_Repros st" rec "he_flate env" "he_hash env repro"] good next1 by (auto simp: rec_def recs_good_def)
      obtain f ios where io: "saveSeqFile (hm_reproSeq mgr + 1) (hs_io st) = (f, ios)" by (metis surj_pair)
      define m ios1 where "m = (if hm_reproSeq mgr = hs_reproSeq st then mgr\<lparr>hm_ownRepros := own, hm_SentRepros := hm_SentRepros mgr + 1, hm_reproSeq := hm_reproSeq mgr + 1, hm_reproSeqFile := f\<rparr>
           else mgr\<lparr>hm_ownRepros := own, hm_SentRepros := hm_SentRepros mgr + 1\<rparr>)"
        and "ios1 = (if hm_reproSeq mgr = hs_reproSeq st then ios else hs_io st)"
      obtain db' ios2 where db': "flush_logged (he_flate env) db ios1 = Inr (db', ios2)" "db_good db'" "db_view db' = db_view db"
        using flush_logged_law [OF db(2)] by blast
      have st': "st' = put_mgr m (st\<lparr>hs_reproSeq := hs_reproSeq st + 1, hs_Repros := db', hs_io := ios2\<rparr>)"
        using add False 2 db(1) db'(1) io by (auto simp: AddRepro_def Let_def m_def ios1_def put_mgr_def split: if_splits)
      have le: "hs_reproSeq st \<le> hs_reproSeq st + 1" using next1 by (simp add: order_less_imp_le)
      have rr: "recs_good env (hs_reproSeq st + 1) db'"
        using recs_good_mono [OF good le] db'(2,3) db(3) 2(2) by (auto simp: recs_good_def rec_def split: if_splits)
      have "hm_name m = name" "hm_Corpus m = hm_Corpus mgr" "hm_corpusSeq m = hm_corpusSeq mgr" "hm_ownRepros m \<noteq> None" "hm_reproSeq m \<le> hs_reproSeq st + 1"
        using nm 2(3) le by (auto simp: m_def go_put_conv mgr_good_def)
      then have m: "hm_name m = name" "hm_Corpus m = hm_Corpus mgr" "mgr_good st' m" using nm(2) by (auto simp: mgr_good_def st')
      then have "hub_base env st'" using base(1) rr le by (intro hub_base_change [OF base(1)]) (auto simp: st' hub_base_def split: if_splits)
      moreover have "hub_used st'" using 2(1) m(1,2) by (intro hub_used_cong [OF base(2)]) (auto simp: st')
      ultimately show ?thesis by (simp add: hub_inv_def)
    qed (use inv in simp)
  qed (use inv in simp)
qed

lemma check_record_law:
  assumes "db_good db"
  shows "\<exists>db' m'. check_record env (key, rec) (db, m) = Inr (db', m') \<and> db_good db' \<and> m \<le> m'
    \<and> db_view db' \<subseteq>\<^sub>m db_view db
    \<and> (\<forall>rec'. db_view db' key = Some rec' \<longrightarrow> db_view db key = Some rec \<longrightarrow> key = he_hash env (r_Val rec) \<and> CallSet (r_Val rec) \<noteq> None \<and> r_Seq rec \<le> m')"
proof (cases "CallSet (r_Val rec) = None \<or> he_hash env (r_Val rec) \<noteq> key")
  case True
  then show ?thesis using store.del_law [OF assms, of "he_flate env" key] by (auto simp: check_record_def map_le_def)
next
  case False
  then show ?thesis using assms by (auto simp: check_record_def)
qed

lemma check_records:
  assumes "db_good db" "distinct (map fst rs)" "\<forall>(key, rec) \<in> set rs. db_view db key = Some rec"
  shows "\<exists>db' m'. rfold (check_record env) rs (db, m) = Inr (db', m') \<and> db_good db' \<and> m \<le> m' \<and> db_view db' \<subseteq>\<^sub>m db_view db
    \<and> (\<forall>(key, rec) \<in> set rs. db_view db' key \<noteq> None \<longrightarrow> key = he_hash env (r_Val rec) \<and> CallSet (r_Val rec) \<noteq> None \<and> r_Seq rec \<le> m')"
  using assms
proof (induction rs rule: rev_induct)
  case (snoc kr rs)
  obtain key rec where kr: "kr = (key, rec)" by (cases kr)
  obtain db1 m1 where 1: "rfold (check_record env) rs (db, m) = Inr (db1, m1)" "db_good db1" "m \<le> m1" "db_view db1 \<subseteq>\<^sub>m db_view db"
    "\<forall>(key, rec) \<in> set rs. db_view db1 key \<noteq> None \<longrightarrow> key = he_hash env (r_Val rec) \<and> CallSet (r_Val rec) \<noteq> None \<and> r_Seq rec \<le> m1"
    using snoc by auto
  obtain db2 m2 where 2: "check_record env (key, rec) (db1, m1) = Inr (db2, m2)" "db_good db2" "m1 \<le> m2" "db_view db2 \<subseteq>\<^sub>m db_view db1"
    "\<forall>rec'. db_view db2 key = Some rec' \<longrightarrow> db_view db1 key = Some rec \<longrightarrow> key = he_hash env (r_Val rec) \<and> CallSet (r_Val rec) \<noteq> None \<and> r_Seq rec \<le> m2"
    using check_record_law [OF 1(2)] by blast
  have up: "db_view db1 k \<noteq> None" if "db_view db2 k \<noteq> None" for k using 2(4) that by (auto simp: map_le_def dom_def)
  have "key = he_hash env (r_Val rec) \<and> CallSet (r_Val rec) \<noteq> None \<and> r_Seq rec \<le> m2" if "db_view db2 key \<noteq> None"
  proof -
    have "db_view db1 key = Some rec" using up [OF that] 1(4) snoc.prems(3) kr by (auto simp: map_le_def dom_def)
    then show ?thesis using 2(5) that by auto
  qed
  moreover have "k = he_hash env (r_Val r) \<and> CallSet (r_Val r) \<noteq> None \<and> r_Seq r \<le> m2" if "(k, r) \<in> set rs" "db_view db2 k \<noteq> None" for k r
    using 1(5) that up [OF that(2)] 2(3) by fastforce
  ultimately have "\<forall>(k, r) \<in> set (rs @ [kr]). db_view db2 k \<noteq> None \<longrightarrow> k = he_hash env (r_Val r) \<and> CallSet (r_Val r) \<noteq> None \<and> r_Seq r \<le> m2"
    by (auto simp: kr)
  then show ?case using 1(1,3) 2(1,2,3) map_le_trans [OF 2(4) 1(4)] by (auto simp: rfold_append kr intro: order_trans)
qed simp

lemma loadDB_good:
  assumes "loadDB env f ios = Inr ((db, m), ios')"
  shows "recs_good env m db"
proof -
  obtain i ios1 j ios2 where io: "next_io ios = (i, ios1)" "next_io ios1 = (j, ios2)" by (metis surj_pair)
  obtain db0 where op: "db_Open (he_flate env) i f = Inr (Some db0)" using assms by (auto simp: loadDB_def io rbind_Inr_conv split: option.splits)
  then have good: "db_good db0" using db_Open_returns [of "he_flate env" i f] by auto
  then have wf: "wfm (db_Records db0)" by (simp add: db_good_def)
  have d: "distinct (map fst (go_range (db_Records db0)))" using wf by (simp add: wfm_def go_keys_def)
  have all: "\<forall>(key, rec) \<in> set (go_range (db_Records db0)). db_view db0 key = Some rec" using go_range_get [OF wf] by auto
  from check_records [OF good d all, of env 0] obtain db1 m1 where
    c: "rfold (check_record env) (go_range (db_Records db0)) (db0, 0) = Inr (db1, m1)" "db_good db1" "db_view db1 \<subseteq>\<^sub>m db_view db0"
      "\<forall>(key, rec) \<in> set (go_range (db_Records db0)). db_view db1 key \<noteq> None \<longrightarrow> key = he_hash env (r_Val rec) \<and> CallSet (r_Val rec) \<noteq> None \<and> r_Seq rec \<le> m1"
    by blast
  have "m = m1" "\<exists>b. Flush (he_flate env) j db1 = Inr (b, db)" using assms op c(1) by (auto simp: loadDB_def io res_conv split: if_splits)
  then have db: "m = m1" "db_good db" "db_view db = db_view db1" using store.flush_law [OF c(2), of "he_flate env" j] by auto
  have "key = he_hash env (r_Val rec) \<and> CallSet (r_Val rec) \<noteq> None \<and> r_Seq rec \<le> m1" if "db_view db1 key = Some rec" for key rec
  proof -
    have "db_view db0 key = Some rec" using c(3) that by (auto simp: map_le_def dom_def)
    then have "(key, rec) \<in> set (go_range (db_Records db0))" using go_range_get [OF wf] by simp
    then show ?thesis using c(4) that by fastforce
  qed
  then show ?thesis using db by (simp add: recs_good_def)
qed

lemma Make_inv:
  assumes "Make env corpus repro managers ios = Inr (Some st)"
  shows "hub_inv env st"
proof -
  obtain db seq ios1 rdb rseq ios2 ms ok st1 where m: "loadDB env corpus ios = Inr ((db, seq), ios1)" "loadDB env repro ios1 = Inr ((rdb, rseq), ios2)"
    "rfold (create_each env) ms (True, \<lparr>hs_corpusSeq = seq, hs_reproSeq = rseq, hs_Corpus = db, hs_Repros = rdb, hs_Managers = Some [], hs_io = ios2\<rparr>) = Inr (ok, st1)"
    "purgeCorpus env st1 = Inr st"
    using assms by (auto simp: Make_def res_conv split: option.splits if_splits)
  have "hub_base env (snd (ok, st1))"
  proof (rule rfold_inv [where I = "\<lambda>s. hub_base env (snd s)", OF m(3)])
    show "hub_base env (snd (True, \<lparr>hs_corpusSeq = seq, hs_reproSeq = rseq, hs_Corpus = db, hs_Repros = rdb, hs_Managers = Some [], hs_io = ios2\<rparr>))"
      using loadDB_good [OF m(1)] loadDB_good [OF m(2)] by (simp add: hub_base_def)
  qed (auto simp: create_each_def split: if_splits dest: createManager_inv(1))
  then show ?thesis using purge_inv m(4) by auto
qed

text \<open>The hub between the remote calls of its managers, started on any directory, as long as sequence numbers are left.\<close>

definition hub_start :: "hub_env \<Rightarrow> hub_State \<Rightarrow> bool" where
  "hub_start env st \<longleftrightarrow> (\<exists>corpus repro managers ios. Make env corpus repro managers ios = Inr (Some st))"

inductive hub_step :: "hub_env \<Rightarrow> hub_State \<Rightarrow> hub_State \<Rightarrow> bool" for env where
  connect: "hub_Connect env fs name fresh calls corpus st = Inr (ok, st') \<Longrightarrow> seq_room (hs_corpusSeq st) \<Longrightarrow> seq_room (loadSeqFile (mf_seq fs)) \<Longrightarrow> hub_step env st st'"
| sync: "hub_Sync env name add del st = Inr (r, st') \<Longrightarrow> seq_room (hs_corpusSeq st) \<Longrightarrow> hub_step env st st'"
| add_repro: "AddRepro env name repro st = Inr (ok, st') \<Longrightarrow> seq_room (hs_reproSeq st) \<Longrightarrow> hub_step env st st'"
| pending_repro: "PendingRepro name st = (r, st') \<Longrightarrow> hub_step env st st'"

inductive_cases hub_stepE: "hub_step env st st'"

lemma pendingInputs_closed:
  assumes base: "hub_base env st" and srt: "sort_ok env" and mgr: "go_get (hs_Managers st) name = Some mgr" and c: "hm_Corpus mgr = None"
    and p: "pendingInputs env mgr st = Inr (r, mgr', st')"
  shows "mgr_update name mgr' st st' \<and> hm_name mgr' = name \<and> hm_Corpus mgr' = hm_Corpus mgr \<and> mgr_good st mgr'"
proof -
  have nm: "hm_name mgr = name" "mgr_good st mgr" using base mgr by (auto simp: hub_base_def)
  have empty: "pending_records mgr rs = Inr f \<Longrightarrow> f = Some []" for rs f using c by (induction rs) (auto split: if_splits)
  consider "mgr' = mgr" "st' = st" | out left maxSeq f ios where "cut_records env (hs_corpusSeq st) [] = (out, left, maxSeq)"
      "mgr' = mgr\<lparr>hm_corpusSeq := maxSeq, hm_corpusSeqFile := f\<rparr>" "st' = put_mgr mgr' (st\<lparr>hs_io := ios\<rparr>)"
  proof (cases "hm_corpusSeq mgr = hs_corpusSeq st")
    case True
    then show ?thesis using p that(1) by (simp add: pendingInputs_def)
  next
    case False
    then obtain f where f: "pending_records mgr (go_range (db_Records (hs_Corpus st))) = Inr f" using p by (auto simp: pendingInputs_def rbind_Inr_conv)
    then show ?thesis using p False that(2) empty [OF f] by (auto simp: pendingInputs_def Let_def split: prod.splits)
  qed
  then show ?thesis
  proof cases
    case 1
    then show ?thesis using nm base mgr by (auto simp: mgr_update_def hub_base_def)
  next
    case 2
    have "maxSeq \<le> hs_corpusSeq st" using cut_records_conv(3) [OF srt 2(1)] by simp
    then show ?thesis using mgr_update_put [OF base, of mgr' name ios] nm 2(2,3) by (auto simp: mgr_good_def)
  qed
qed

lemma hub_Sync_inv:
  assumes inv: "hub_inv env st" and srt: "sort_ok env" and room: "seq_room (hs_corpusSeq st)" and sy: "hub_Sync env name add del st = Inr (r, st')"
  shows "hub_inv env st'"
proof (cases "\<exists>mgr. go_get (hs_Managers st) name = Some mgr \<and> hm_Connected mgr")
  case True
  then obtain mgr where mgr: "go_get (hs_Managers st) name = Some mgr" "hm_Connected mgr" by blast
  have base: "hub_base env st" "hub_used st" using inv by (simp_all add: hub_inv_def)
  obtain m1 s1 m2 s2 r1 m3 s3 where d: "deleteInputs env mgr del st = Inr (m1, s1)" "addInputs env m1 add s1 = Inr (m2, s2)" "pendingInputs env m2 s2 = Inr (r1, m3, s3)"
    using sy mgr by (auto simp: hub_Sync_def rbind_Inr_conv Let_def)
  obtain n where st': "r = r1" "st' = put_mgr (m3\<lparr>hm_Added := hm_Added m3 + int (length add), hm_Deleted := hm_Deleted m3 + int (length del), hm_New := n\<rparr>) s3"
    using hub_Sync_conv [OF mgr d] sy by auto
  note di = deleteInputs_inv [OF base(1) mgr(1) d(1)]
  have ai: "hub_base env s2" "go_get (hs_Managers s2) name = Some m2" "hub_used s2" using addInputs_inv [of env s1 name m1 add m2 s2] di room d(2) base(2) by auto
  show ?thesis
  proof (cases "hm_Corpus m2")
    case (Some mdb)
    from sync_tail [OF ai(1) srt ai(2) Some] d(3) ai(3) have "m4 = m3\<lparr>hm_Added := a, hm_Deleted := b, hm_New := n\<rparr> \<Longrightarrow> hub_inv env (put_mgr m4 s3)" for m4 a b n
      by (auto simp: hub_inv_def)
    then show ?thesis using st'(2) by blast
  next
    case None
    note pc = pendingInputs_closed [OF ai(1) srt ai(2) None d(3)]
    show ?thesis using count_sync(1,2) [of name m3 s2 s3 env m2, OF _ ai(1,2) _ _ _ refl] pc ai(3) by (simp add: st'(2) hub_inv_def)
  qed
next
  case False
  then show ?thesis using sy inv by (auto simp: hub_Sync_def split: option.splits)
qed

lemma PendingRepro_inv:
  assumes inv: "hub_inv env st" and p: "PendingRepro name st = (r, st')"
  shows "hub_inv env st'"
proof (cases "\<exists>mgr. go_get (hs_Managers st) name = Some mgr \<and> hm_Connected mgr")
  case True
  then obtain mgr where mgr: "go_get (hs_Managers st) name = Some mgr" "hm_Connected mgr" by blast
  have base: "hub_base env st" "hub_used st" using inv by (simp_all add: hub_inv_def)
  from PendingRepro_law [OF base(1) mgr] p obtain mgr' where "mgr_update name mgr' st st'" "hm_name mgr' = name" "hm_Corpus mgr' = hm_Corpus mgr" "mgr_good st mgr'"
    by auto
  from mgr_update_inv [OF this(1) base(1) mgr(1) this(4,2,3)] base(2) show ?thesis by (simp add: hub_inv_def)
next
  case False
  then show ?thesis using p inv by (auto simp: PendingRepro_def split: option.splits)
qed

lemma hub_step_inv: "hub_step env st st' \<Longrightarrow> sort_ok env \<Longrightarrow> hub_inv env st \<Longrightarrow> hub_inv env st'"
  by (auto elim!: hub_stepE dest: hub_Connect_inv hub_Sync_inv AddRepro_inv PendingRepro_inv)

interpretation hub: step_system "\<lambda>st. sort_ok env \<and> hub_start env st" "hub_step env" "\<lambda>st. sort_ok env \<and> hub_inv env st" for env
  by unfold_locales (auto simp: hub_start_def dest: Make_inv hub_step_inv)

text \<open>
  C11: in every state the hub reaches, from any directory and by any sequence of remote calls, with
  any failures of file operations, each program is stored under its hash with a number that was
  given out, no manager has been served beyond the last number, and the hub keeps no program
  that no manager has, unless a corpus could not be opened.
\<close>

theorem hub_consistent:
  assumes "sort_ok env" "reaches (\<lambda>st. sort_ok env \<and> hub_start env st) (hub_step env) st"
  shows "(\<forall>key rec. db_view (hs_Corpus st) key = Some rec \<longrightarrow> key = he_hash env (r_Val rec) \<and> r_Seq rec \<le> hs_corpusSeq st)
    \<and> (\<forall>name mgr. go_get (hs_Managers st) name = Some mgr \<longrightarrow> hm_corpusSeq mgr \<le> hs_corpusSeq st \<and> hm_reproSeq mgr \<le> hs_reproSeq st)
    \<and> (all_open st \<longrightarrow> (\<forall>key \<in> dom (db_view (hs_Corpus st)). in_use st key))"
  using hub.reaches_inv [OF assms(2)] by (auto simp: hub_inv_def hub_base_def recs_good_def mgr_good_def hub_used_def)

text \<open>
  C38: the reproducer \<open>PendingRepro\<close> hands to a connected manager is the oldest one the manager
  has not been served, did not send itself and can run; when it hands out none, there is none.
\<close>

theorem PendingRepro_oldest:
  assumes "hub_inv env st" "go_get (hs_Managers st) name = Some mgr" "hm_Connected mgr"
  shows "\<exists>repro st' mgr'. PendingRepro name st = (Some repro, st') \<and> go_get (hs_Managers st') name = Some mgr' \<and> hub_inv env st'
    \<and> (if repro = [] then \<forall>key rec. db_view (hs_Repros st) key = Some rec \<longrightarrow> \<not> wanted_repro mgr (key, rec)
       else (\<exists>key rec. db_view (hs_Repros st) key = Some rec \<and> wanted_repro mgr (key, rec) \<and> repro = r_Val rec \<and> hm_reproSeq mgr' = r_Seq rec)
         \<and> (\<forall>key rec. db_view (hs_Repros st) key = Some rec \<longrightarrow> wanted_repro mgr (key, rec) \<longrightarrow> hm_reproSeq mgr' \<le> r_Seq rec))"
proof -
  have "hub_base env st" using assms(1) by (simp add: hub_inv_def)
  from PendingRepro_law [OF this assms(2,3)] obtain repro st' mgr' where p: "PendingRepro name st = (Some repro, st')" "mgr_update name mgr' st st'"
    "if repro = [] then hm_reproSeq mgr' = hs_reproSeq st \<and> (\<forall>key rec. db_view (hs_Repros st) key = Some rec \<longrightarrow> \<not> wanted_repro mgr (key, rec))
       else (\<exists>key rec. db_view (hs_Repros st) key = Some rec \<and> wanted_repro mgr (key, rec) \<and> repro = r_Val rec \<and> hm_reproSeq mgr' = r_Seq rec)
         \<and> (\<forall>key rec. db_view (hs_Repros st) key = Some rec \<longrightarrow> wanted_repro mgr (key, rec) \<longrightarrow> hm_reproSeq mgr' \<le> r_Seq rec)" by blast
  then show ?thesis using PendingRepro_inv [OF assms(1) p(1)] by (auto simp: mgr_update_def)
qed

lemma parse_one:
  assumes "a * 10 + d < 2 ^ 64" "d < 10"
  shows "parse_digits (of_nat a) (''0123456789'' ! d # ys) = parse_digits (of_nat (a * 10 + d)) ys"
proof -
  have "d \<in> {0, 1, 2, 3, 4, 5, 6, 7, 8, 9}" using assms(2) by auto
  then have dig: "digit_of (''0123456789'' ! d) = Some (of_nat d)" by (auto simp: digit_of_def)
  have c: "unat (NOT 0 div 10 + 1 :: uint64) = 1844674407370955162" by (simp add: unat_word_ariths unat_div)
  have u: "unat (of_nat a :: uint64) = a" "unat (of_nat a * 10 :: uint64) = a * 10" "unat (of_nat a * 10 + of_nat d :: uint64) = a * 10 + d"
    using assms by (simp_all add: unat_word_ariths unat_of_nat take_bit_nat_eq_self)
  have "\<not> NOT 0 div 10 + 1 \<le> (of_nat a :: uint64)" unfolding word_le_nat_alt u c using assms(1) by simp
  moreover have "\<not> of_nat a * 10 + of_nat d < (of_nat a * 10 :: uint64)" unfolding word_less_nat_alt u by simp
  ultimately show ?thesis by (simp add: dig)
qed

lemma parse_dec:
  "a * 10 ^ length (dec k) + k < 2 ^ 64 \<Longrightarrow> parse_digits (of_nat a) (dec k @ ys) = parse_digits (of_nat (a * 10 ^ length (dec k) + k)) ys"
proof (induction k arbitrary: a ys rule: dec.induct)
  case (1 k)
  show ?case
  proof (cases "k < 10")
    case True
    then show ?thesis using "1.prems" parse_one [of a k ys] by (simp add: dec.simps [of k])
  next
    case False
    let ?n = "a * 10 ^ length (dec (k div 10)) + k div 10"
    have k: "dec k = dec (k div 10) @ [''0123456789'' ! (k mod 10)]" "a * 10 ^ length (dec k) + k = ?n * 10 + k mod 10"
      using False by (simp_all add: dec.simps [of k] algebra_simps)
    have "?n * 10 + k mod 10 < 2 ^ 64" using "1.prems" k(2) by simp
    then have n: "?n < 2 ^ 64" "?n * 10 + k mod 10 < 2 ^ 64" by simp_all
    have "parse_digits (of_nat a) (dec k @ ys) = parse_digits (of_nat a) (dec (k div 10) @ (''0123456789'' ! (k mod 10) # ys))" unfolding k(1) append_assoc append.simps ..
    also have "\<dots> = parse_digits (of_nat ?n) (''0123456789'' ! (k mod 10) # ys)" using False n(1) by (intro "1.IH")
    also have "\<dots> = parse_digits (of_nat (?n * 10 + k mod 10)) ys" by (rule parse_one [OF n(2)]) simp
    finally show ?thesis unfolding k(2) .
  qed
qed

text \<open>A sequence number that was written is read back.\<close>

lemma loadSeqFile_saved: "saveSeqFile seq [] = (f, ios) \<Longrightarrow> loadSeqFile f = seq"
proof -
  assume "saveSeqFile seq [] = (f, ios)"
  then have f: "f = dec (unat seq)" by (auto simp: saveSeqFile_def next_io_def writeFile_def)
  have "dec (unat seq) \<noteq> []" by (simp add: dec.simps [of "unat seq"])
  then show ?thesis using parse_dec [of 0 "unat seq" "[]"] unsigned_less [of seq, where ?'a = nat] by (simp add: f loadSeqFile_def parseUint_def)
qed

text \<open>After a corpus could not be opened in \<open>Connect\<close>, the next purge panics.\<close>

lemma closed_corpus_breaks: "wfm (hs_Managers st) \<Longrightarrow> \<not> all_open st \<Longrightarrow> \<exists>e. purgeCorpus env st = Inl e"
  using purgeCorpus_open [of env st] by (cases "purgeCorpus env st") auto

section \<open>An example\<close>

definition ex_hub_flate :: flate where
  "ex_hub_flate = \<lparr>fl_Write = (\<lambda>v. v), fl_Read = Some\<rparr>"

definition ex_env :: hub_env where
  "ex_env = \<lparr>he_flate = ex_hub_flate, he_hash = (\<lambda>v. v), he_sort = (\<lambda>less rs. sort_key r_Seq rs)\<rparr>"

lemma ex_env_sort: "sort_ok ex_env"
  by (simp add: sort_ok_def ex_env_def)

definition ex_mdb :: "(string \<times> Record) list \<Rightarrow> DB" where
  "ex_mdb recs = \<lparr>db_Version = 0, db_Records = Some recs, db_uncompacted = 0, db_pending = None, db_file = []\<rparr>"

definition ex_mgr :: "string \<Rightarrow> uint64 \<Rightarrow> (string \<times> Record) list \<Rightarrow> hub_Manager" where
  "ex_mgr name seq recs = \<lparr>hm_name = name, hm_corpusSeq = seq, hm_reproSeq = 0, hm_corpusSeqFile = [], hm_reproSeqFile = [], hm_ownRepros = Some [],
     hm_Connected = True, hm_Added = 0, hm_Deleted = 0, hm_New = 0, hm_SentRepros = 0, hm_RecvRepros = 0,
     hm_Calls = Some [(''a'', ())], hm_Corpus = Some (ex_mdb recs)\<rparr>"

text \<open>A program of the manager \<open>m\<close> that the manager \<open>n\<close> does not have, and a reproducer that neither has.\<close>

definition ex_hub :: hub_State where
  "ex_hub = \<lparr>hs_corpusSeq = 1, hs_reproSeq = 1, hs_Corpus = ex_mdb [(''a()'', \<lparr>r_Val = ''a()'', r_Seq = 1\<rparr>)],
     hs_Repros = ex_mdb [(''a()'', \<lparr>r_Val = ''a()'', r_Seq = 1\<rparr>)],
     hs_Managers = Some [(''m'', ex_mgr ''m'' 1 [(''a()'', \<lparr>r_Val = [], r_Seq = 0\<rparr>)]), (''n'', ex_mgr ''n'' 0 [])], hs_io = []\<rparr>"

lemma ex_CallSet: "CallSet ''a()'' = Some (Some [(''a'', ())])"
  by code_simp

lemma ex_db_good: "recs = [] \<or> recs = [(''a()'', \<lparr>r_Val = v, r_Seq = s\<rparr>)] \<and> s < 2 \<Longrightarrow> db_good (ex_mdb recs)"
  by (auto simp: db_good_def ex_mdb_def wfm_def go_keys_def seqDeleted_def)

lemma ex_hub_inv: "hub_inv ex_env ex_hub"
proof -
  have r: "recs_good ex_env 1 (ex_mdb [(''a()'', \<lparr>r_Val = ''a()'', r_Seq = 1\<rparr>)])"
    using ex_db_good [of "[(''a()'', \<lparr>r_Val = ''a()'', r_Seq = 1\<rparr>)]"] by (auto simp: recs_good_def ex_env_def ex_CallSet go_get_def ex_mdb_def split: if_splits)
  have g: "go_get (hs_Managers ex_hub) name = Some mgr \<longleftrightarrow> name = ''m'' \<and> mgr = ex_mgr ''m'' 1 [(''a()'', \<lparr>r_Val = [], r_Seq = 0\<rparr>)] \<or> name = ''n'' \<and> mgr = ex_mgr ''n'' 0 []" for name mgr
    by (auto simp: ex_hub_def go_get_def)
  have "mgr_good ex_hub (ex_mgr ''m'' 1 [(''a()'', \<lparr>r_Val = [], r_Seq = 0\<rparr>)])" "mgr_good ex_hub (ex_mgr ''n'' 0 [])"
    using ex_db_good [of "[]"] ex_db_good [of "[(''a()'', \<lparr>r_Val = [], r_Seq = 0\<rparr>)]"] by (auto simp: mgr_good_def ex_mgr_def ex_hub_def)
  then have "hub_base ex_env ex_hub" using r unfolding hub_base_def g by (auto simp: ex_hub_def wfm_def go_keys_def ex_mgr_def)
  moreover have "in_use ex_hub ''a()''" unfolding in_use_def g
    by (rule exI [of _ "''m''"], rule exI [of _ "ex_mgr ''m'' 1 [(''a()'', \<lparr>r_Val = [], r_Seq = 0\<rparr>)]"]) (simp add: ex_mgr_def ex_mdb_def go_get_def dom_def)
  then have "hub_used ex_hub" by (auto simp: hub_used_def ex_hub_def ex_mdb_def go_get_def split: if_splits)
  ultimately show ?thesis by (simp add: hub_inv_def)
qed

lemma ex_open: "all_open ex_hub" "go_get (hs_Managers ex_hub) ''n'' = Some (ex_mgr ''n'' 0 [])" "hm_Connected (ex_mgr ''n'' 0 [])" "seq_room (hs_corpusSeq ex_hub)"
  by (auto simp: all_open_def ex_hub_def go_get_def ex_mgr_def seq_room_def word_less_nat_alt split: if_splits)

lemma ex_wanted:
  "wanted (ex_mgr ''n'' 0 []) (ex_mdb []) 0 (''a()'', \<lparr>r_Val = ''a()'', r_Seq = 1\<rparr>)"
  "wanted_repro (ex_mgr ''n'' 0 []) (''a()'', \<lparr>r_Val = ''a()'', r_Seq = 1\<rparr>)"
  by (simp_all add: wanted_def wanted_repro_def supports_def ex_CallSet managerSupportsAllCalls_def ex_mgr_def ex_mdb_def go_keys_def go_get_def dom_def)

theorem PendingRepro_oldest_witness:
  "\<exists>st'. PendingRepro ''n'' ex_hub = (Some ''a()'', st') \<and> hub_inv ex_env st'"
proof -
  have r: "db_view (hs_Repros ex_hub) key = Some rec \<longleftrightarrow> key = ''a()'' \<and> rec = \<lparr>r_Val = ''a()'', r_Seq = 1\<rparr>" for key rec
    by (auto simp: ex_hub_def ex_mdb_def go_get_def)
  from PendingRepro_oldest [OF ex_hub_inv ex_open(2,3)] show ?thesis using ex_wanted(2) unfolding r by (fastforce split: if_splits)
qed

theorem hub_Sync_serves_witness:
  "\<exists>progs left st' mgr'. hub_Sync ex_env ''n'' [] [] ex_hub = Inr (Some (progs, left), st')
    \<and> hub_inv ex_env st' \<and> all_open st' \<and> serves ex_env st' mgr' 0 (hm_corpusSeq mgr') progs left"
proof -
  have "hm_corpusSeq (ex_mgr ''n'' 0 []) = 0" by (simp add: ex_mgr_def)
  with hub_Sync_serves [OF ex_hub_inv ex_env_sort ex_open(2,3,1,4), of "[]" "[]"] show ?thesis by metis
qed

lemma ex_Make: "\<exists>st. Make ex_env [] [] (Some []) [] = Inr (Some st) \<and> hs_corpusSeq st = 0 \<and> hs_Managers st = Some [] \<and> hs_io st = []"
  by (simp add: Make_def loadDB_def next_io_def db_Open_def deserializeDB_def deserializeHeader_def load_end compact_def Flush_def purgeCorpus_def
      flush_logged_def go_keys_def go_len_def)

text \<open>While file operations succeed, so does \<open>Connect\<close>.\<close>

lemma hub_Connect_returns:
  assumes base: "hub_base env st" and opn: "all_open st" and io: "hs_io st = []" and room: "seq_room (hs_corpusSeq st)" "seq_room (loadSeqFile (mf_seq fs))"
  shows "\<exists>st'. hub_Connect env fs name fresh calls corpus st = Inr (True, st')"
proof -
  obtain ok st1 mgr0 where c1: "(case go_get (hs_Managers st) name of Some _ \<Rightarrow> Inr (True, st) | None \<Rightarrow> createManager env fs name st) = Inr (ok, st1)"
    and mgr0: "go_get (hs_Managers st1) name = Some mgr0" and o1: "all_open st1" "hs_io st1 = []" and b1: "hub_base env st1" "seq_room (hs_corpusSeq st1)"
  proof (cases "go_get (hs_Managers st) name")
    case None
    obtain db where "db_Open (he_flate env) Written (mf_corpus fs) = Inr (Some db)" using db_Open_returns [of "he_flate env" Written "mf_corpus fs"] by auto
    moreover have "hs_Managers st \<noteq> None" using base by (simp add: hub_base_def)
    ultimately obtain st1 where st1: "createManager env fs name st = Inr (True, st1)" "hs_io st1 = []" "hs_Managers st1 = go_set name (the (go_get (hs_Managers st1) name)) (hs_Managers st)"
        "hm_Corpus (the (go_get (hs_Managers st1) name)) \<noteq> None"
      using io by (simp add: createManager_def next_io_def Let_def)
    define mgr0 where "mgr0 = the (go_get (hs_Managers st1) name)"
    have cm: "createManager env fs name st = Inr (True, st1)" "hm_Corpus mgr0 \<noteq> None" "hs_io st1 = []" "go_get (hs_Managers st1) = (go_get (hs_Managers st))(name \<mapsto> mgr0)"
      using st1(1) st1(4) [folded mgr0_def] st1(2) by (simp_all add: st1(3) [folded mgr0_def] fun_eq_iff)
    have "all_open st1" using opn cm(2,4) unfolding all_open_def by (metis fun_upd_apply option.inject)
    then show ?thesis using that [of True st1 mgr0] cm None createManager_inv(1,2) [OF base cm(1)] room by (auto simp: seq_room_def)
  next
    case (Some m)
    then show ?thesis using that [of True st m] base opn io room by simp
  qed
  have nm: "hm_name mgr0 = name" "mgr_good st1 mgr0" using b1(1) mgr0 by (auto simp: hub_base_def)
  obtain f1 f2 where f: "saveSeqFile (if fresh then 0 else hm_corpusSeq mgr0) [] = (f1, [])" "saveSeqFile (if fresh then hs_reproSeq st1 else hm_reproSeq mgr0) [] = (f2, [])"
    by (simp add: saveSeqFile_def next_io_def)
  obtain db where db: "db_Open (he_flate env) Written [] = Inr (Some db)" "db_good db" using db_Open_returns [of "he_flate env" Written "[]"] by auto
  define mgr2 where "mgr2 = mgr0\<lparr>hm_Connected := True, hm_corpusSeq := (if fresh then 0 else hm_corpusSeq mgr0),
     hm_reproSeq := (if fresh then hs_reproSeq st1 else hm_reproSeq mgr0), hm_corpusSeqFile := f1, hm_reproSeqFile := f2,
     hm_Calls := fold (\<lambda>c. go_set c ()) calls (Some []), hm_Corpus := Some db\<rparr>"
  define st2 where "st2 = put_mgr mgr2 (st1\<lparr>hs_io := []\<rparr>)"
  have "mgr_good st1 mgr2" using nm(2) db(2) by (simp add: mgr_good_def mgr2_def)
  then have b2: "hub_base env st2" using b1(1) hub_base_put [of env "st1\<lparr>hs_io := []\<rparr>" mgr2] by (simp add: st2_def)
  have g2: "go_get (hs_Managers st2) name = Some mgr2" "seq_room (hs_corpusSeq st2)" using nm(1) b1(2) by (simp_all add: st2_def mgr2_def)
  have o2: "all_open st2" using o1(1) by (auto simp: all_open_def st2_def mgr2_def split: if_splits)
  obtain mgr3 st3 where a: "addInputs env mgr2 corpus st2 = Inr (mgr3, st3)" "all_open st3" using addInputs_returns [OF b2 g2(1) o2 g2(2)] by blast
  have "wfm (hs_Managers st3)" "db_good (hs_Corpus st3)" using addInputs_inv [OF b2 g2 a(1)] by (auto simp: hub_base_def recs_good_def)
  from purgeCorpus_law [OF this a(2), of env] obtain st4 where "purgeCorpus env st3 = Inr st4" by blast
  then have "rbind (addInputs env mgr2 corpus st2) (\<lambda>(mgr3, st3). rmap (\<lambda>st4. (True, st4)) (purgeCorpus env st3)) = Inr (True, st4)" using a(1) by simp
  then show ?thesis using c1 mgr0 f db(1) o1(2) unfolding mgr2_def st2_def
    by (simp add: hub_Connect_def next_io_def Let_def split del: if_split)
qed

theorem hub_consistent_witness:
  "\<exists>st. reaches (\<lambda>st. sort_ok ex_env \<and> hub_start ex_env st) (hub_step ex_env) st
    \<and> (\<exists>st0. hub_Connect ex_env \<lparr>mf_corpus = [], mf_seq = [], mf_reproSeq = []\<rparr> ''m'' False [''a''] [''a()''] st0 = Inr (True, st))
    \<and> hub_used st"
proof -
  let ?fs = "\<lparr>mf_corpus = [], mf_seq = [], mf_reproSeq = []\<rparr>"
  obtain st0 where st0: "Make ex_env [] [] (Some []) [] = Inr (Some st0)" "hs_corpusSeq st0 = 0" "hs_Managers st0 = Some []" "hs_io st0 = []" using ex_Make by blast
  have b: "hub_base ex_env st0" using Make_inv [OF st0(1)] by (simp add: hub_inv_def)
  have room: "seq_room (hs_corpusSeq st0)" "seq_room (loadSeqFile (mf_seq ?fs))" using st0(2) by (simp_all add: seq_room_def loadSeqFile_def parseUint_def word_less_nat_alt)
  have "all_open st0" using st0(3) by (simp add: all_open_def)
  from hub_Connect_returns [OF b this st0(4) room, of "''m''" False "[''a'']" "[''a()'']"] obtain st1 where
    c: "hub_Connect ex_env ?fs ''m'' False [''a''] [''a()''] st0 = Inr (True, st1)" by blast
  have "reaches (\<lambda>st. sort_ok ex_env \<and> hub_start ex_env st) (hub_step ex_env) st0"
    using st0(1) ex_env_sort by (intro at_start) (auto simp: hub_start_def)
  then have r: "reaches (\<lambda>st. sort_ok ex_env \<and> hub_start ex_env st) (hub_step ex_env) st1" by (rule after_step) (rule connect [OF c room])
  have "hub_used st1" using hub_consistent [OF ex_env_sort r] by (auto simp: hub_used_def)
  then show ?thesis using r c by blast
qed

end
