(* ===== verification/Manager.thy ===== *)
theory Manager
  imports Hub_State Fuzzer_State
begin

text \<open>
  The manager: the corpus it keeps (\<open>syz-manager/manager.go\<close>), the remote calls of the fuzzers
  (\<open>syz-manager/rpc.go\<close>) and the counters (\<open>syz-manager/stats.go\<close>).

  A fuzzer connects, has its machine checked once, sends inputs that reach new signal and polls
  for the signal, inputs and candidates the others found. The manager keeps for each hash one
  program with its signal, saves the programs in the corpus database and minimizes the corpus
  now and then. \<open>env\<close> holds the configuration, the hash, the parser of programs (the numbers of
  the calls of a program, or \<open>None\<close>), compression and the sorting algorithm; how file operations
  end is the field \<open>m_io\<close>. Log messages are left out.

  \<open>mgr.mu\<close> and \<open>serv.mu\<close> make each of \<open>fuzzerConnect\<close>, \<open>Check\<close>, \<open>NewInput\<close>, \<open>Poll\<close> and the
  operations of the hub connector one step; \<open>Connect\<close> holds no lock between \<open>fuzzerConnect\<close> and
  the registration of the fuzzer, so it is two steps.
\<close>

section \<open>Counters\<close>

record mgr_Stats =
  st_crashes :: uint64
  st_crashTypes :: uint64
  st_crashSuppressed :: uint64
  st_vmRestarts :: uint64
  st_newInputs :: uint64
  st_execTotal :: uint64
  st_hubSendProgAdd :: uint64
  st_hubSendProgDel :: uint64
  st_hubSendRepro :: uint64
  st_hubRecvProg :: uint64
  st_hubRecvProgDrop :: uint64
  st_hubRecvRepro :: uint64
  st_hubRecvReproDrop :: uint64
  st_corpusCover :: uint64
  st_corpusSignal :: uint64
  st_namedStats :: "(string, uint64) gomap"

definition merge_stat :: "string \<times> uint64 \<Rightarrow> mgr_Stats \<Rightarrow> mgr_Stats" where
  "merge_stat kv st =
    (if fst kv = ''exec total'' then st\<lparr>st_execTotal := st_execTotal st + snd kv\<rparr>
     else st\<lparr>st_namedStats := go_set (fst kv) ((case go_get (st_namedStats st) (fst kv) of None \<Rightarrow> 0 | Some v \<Rightarrow> v) + snd kv) (st_namedStats st)\<rparr>)"

definition mergeNamed :: "(string, uint64) gomap \<Rightarrow> mgr_Stats \<Rightarrow> mgr_Stats" where
  "mergeNamed named st = fold merge_stat (go_range named)
    (st\<lparr>st_namedStats := (case st_namedStats st of None \<Rightarrow> Some [] | Some m \<Rightarrow> Some m)\<rparr>)"

section \<open>State\<close>

record SyscallReason =
  sy_ID :: int
  sy_Reason :: string

record CheckArgs =
  ca_Error :: string
  ca_EnabledCalls :: "(string, int list) gomap"
  ca_DisabledCalls :: "(string, SyscallReason list) gomap"

record mgr_env =
  me_flate :: flate
  me_hash :: "bytes \<Rightarrow> string"
  me_Deserialize :: "bytes \<Rightarrow> int list option"
  me_sort :: "(RPCInput Context \<Rightarrow> RPCInput Context \<Rightarrow> bool) \<Rightarrow> RPCInput Context list \<Rightarrow> RPCInput Context list"
  me_Syscalls :: "string list"
  me_Sandbox :: string
  me_HubClient :: string
  me_HubKey :: string
  me_Name :: string
  me_cfgEnabled :: bool
  me_enabledSyscalls :: "int list"
  me_Procs :: nat

definition phaseInit :: nat where "phaseInit = 0"
definition phaseLoadedCorpus :: nat where "phaseLoadedCorpus = 1"
definition phaseTriagedCorpus :: nat where "phaseTriagedCorpus = 2"
definition phaseQueriedHub :: nat where "phaseQueriedHub = 3"
definition phaseTriagedHub :: nat where "phaseTriagedHub = 4"

lemmas phases = phaseInit_def phaseLoadedCorpus_def phaseTriagedCorpus_def phaseQueriedHub_def phaseTriagedHub_def

definition currentDBVersion :: uint64 where "currentDBVersion = 3"

text \<open>\<open>m_hubLoops\<close> counts the goroutines started for \<open>hubSyncLoop\<close>.\<close>

record Manager =
  m_corpusDB :: DB
  m_firstConnect :: bool
  m_checkResult :: "CheckArgs option"
  m_fresh :: bool
  m_phase :: nat
  m_candidates :: "RPCCandidate list"
  m_disabledHashes :: "(string, unit) gomap"
  m_corpus :: "(string, RPCInput) gomap"
  m_newRepros :: "bytes list"
  m_lastMinCorpus :: nat
  m_memoryLeakFrames :: "(string, bool) gomap"
  m_hubLoops :: nat
  m_io :: "io list"

definition RunManager :: "mgr_env \<Rightarrow> bytes \<Rightarrow> io list \<Rightarrow> Manager res" where
  "RunManager env fl ios =
    (case next_io ios of (i, ios1) \<Rightarrow>
     rbind (db_Open (me_flate env) i fl) (\<lambda>opened.
     case opened of
       None \<Rightarrow> Inl (Fatal ''failed to open corpus database'')
     | Some db \<Rightarrow> Inr \<lparr>m_corpusDB = db, m_firstConnect = False, m_checkResult = None, m_fresh = True, m_phase = phaseInit, m_candidates = [],
         m_disabledHashes = Some [], m_corpus = Some [], m_newRepros = [], m_lastMinCorpus = 0, m_memoryLeakFrames = Some [],
         m_hubLoops = 0, m_io = ios1\<rparr>))"

section \<open>The corpus\<close>

definition input_context :: "RPCInput \<Rightarrow> RPCInput Context list \<Rightarrow> RPCInput Context list res" where
  "input_context inp inputs = rmap (\<lambda>s. inputs @ [\<lparr>ctx_Signal = s, ctx_Context = inp\<rparr>]) (sig_Deserialize (ri_Signal inp))"

definition kept_inputs :: "mgr_env \<Rightarrow> RPCInput list \<Rightarrow> (string, RPCInput) gomap" where
  "kept_inputs env inps = fold (\<lambda>inp. go_set (me_hash env (ri_Prog inp)) inp) inps (Some [])"

definition minimizeCorpus :: "mgr_env \<Rightarrow> Manager \<Rightarrow> Manager res" where
  "minimizeCorpus env m =
    (if m_phase m < phaseLoadedCorpus \<or> go_len (m_corpus m) \<le> m_lastMinCorpus m * 101 div 100 then Inr m
     else
       rbind (rfold input_context (map snd (go_range (m_corpus m))) []) (\<lambda>inputs.
       let newCorpus = kept_inputs env (Minimize (me_sort env) inputs);
           m1 = m\<lparr>m_corpus := newCorpus, m_lastMinCorpus := go_len newCorpus\<rparr>
       in if m_phase m < phaseTriagedCorpus then Inr m1
          else
            rbind (rfold (\<lambda>key db. if go_has newCorpus key \<or> go_has (m_disabledHashes m) key then Inr db else Delete (me_flate env) key db)
              (go_keys (db_Records (m_corpusDB m))) (m_corpusDB m)) (\<lambda>db.
            case next_io (m_io m) of (i, ios) \<Rightarrow>
            rmap (\<lambda>(_, db'). m1\<lparr>m_corpusDB := db', m_io := ios\<rparr>) (BumpVersion (me_flate env) i currentDBVersion db))))"

definition getMinimizedCorpus :: "mgr_env \<Rightarrow> Manager \<Rightarrow> ((bytes list \<times> bytes list) \<times> Manager) res" where
  "getMinimizedCorpus env m =
    rmap (\<lambda>m1. ((map (ri_Prog o snd) (go_range (m_corpus m1)), m_newRepros m1), m1\<lparr>m_newRepros := []\<rparr>)) (minimizeCorpus env m)"

definition addNewCandidates :: "bytes list \<Rightarrow> Manager \<Rightarrow> Manager" where
  "addNewCandidates progs m =
    m\<lparr>m_candidates := m_candidates m @ map (\<lambda>inp. \<lparr>rc_Prog = inp, rc_Minimized = False, rc_Smashed = False\<rparr>) progs,
      m_phase := (if m_phase m = phaseTriagedCorpus then phaseQueriedHub else m_phase m)\<rparr>"

definition fuzzerConnect :: "mgr_env \<Rightarrow> Manager \<Rightarrow> ((RPCInput list \<times> string list) \<times> Manager) res" where
  "fuzzerConnect env m =
    rmap (\<lambda>m1. ((map snd (go_range (m_corpus m1)), go_keys (m_memoryLeakFrames m1)), m1)) (minimizeCorpus env m)"

text \<open>
  \<open>newInput\<close>. The map \<open>sign\<close> is that of the caller, so what is merged into it is part of the
  result.
\<close>

definition newInput :: "mgr_env \<Rightarrow> RPCInput \<Rightarrow> Signal \<Rightarrow> Manager \<Rightarrow> (Signal \<times> Manager) res" where
  "newInput env inp sign m =
    (let sig = me_hash env (ri_Prog inp) in
     case go_get (m_corpus m) sig of
       Some old \<Rightarrow>
         rbind (sig_Deserialize (ri_Signal old)) (\<lambda>oldSignal.
         let sign' = sig_Merge sign oldSignal;
             cov = cov_Merge (cov_Merge None (ri_Cover old)) (ri_Cover inp);
             old' = old\<lparr>ri_Signal := sig_Serialize sign', ri_Cover := cov_Serialize cov\<rparr>
         in rmap (\<lambda>c. (sign', m\<lparr>m_corpus := c\<rparr>)) (go_put sig old' (m_corpus m)))
     | None \<Rightarrow>
         rbind (go_put sig inp (m_corpus m)) (\<lambda>c.
         rbind (Save (me_flate env) sig (ri_Prog inp) 0 (m_corpusDB m)) (\<lambda>db.
         rbind (flush_logged (me_flate env) db (m_io m)) (\<lambda>(db', ios).
         Inr (sign, m\<lparr>m_corpus := c, m_corpusDB := db', m_io := ios\<rparr>)))))"

section \<open>Candidates\<close>

text \<open>The loop that takes up to \<open>n\<close> elements from the end of a slice.\<close>

fun pop_last :: "nat \<Rightarrow> 'a list \<Rightarrow> 'a list \<times> 'a list" where
  "pop_last 0 xs = ([], xs)"
| "pop_last (Suc n) xs = (if xs = [] then ([], xs) else case pop_last n (butlast xs) of (res, rest) \<Rightarrow> (last xs # res, rest))"

definition candidateBatch :: "mgr_env \<Rightarrow> nat \<Rightarrow> Manager \<Rightarrow> RPCCandidate list \<times> Manager" where
  "candidateBatch env n m =
    (case pop_last n (m_candidates m) of (res, rest) \<Rightarrow>
     let m1 = m\<lparr>m_candidates := rest\<rparr> in
     (res,
      if rest \<noteq> [] then m1
      else if m_phase m1 = phaseLoadedCorpus then
        if me_HubClient env \<noteq> [] then m1\<lparr>m_phase := phaseTriagedCorpus, m_hubLoops := m_hubLoops m1 + 1\<rparr>
        else m1\<lparr>m_phase := phaseTriagedHub\<rparr>
      else if m_phase m1 = phaseQueriedHub then m1\<lparr>m_phase := phaseTriagedHub\<rparr>
      else m1))"

section \<open>Loading the corpus\<close>

text \<open>What the version of the database says of its programs: whether they are minimized and smashed.\<close>

definition db_trust :: "uint64 \<Rightarrow> bool \<times> bool" where
  "db_trust version = (version \<noteq> 0 \<and> version \<noteq> 1, version \<noteq> 0 \<and> version \<noteq> 1 \<and> version \<noteq> 2)"

definition load_record :: "mgr_env \<Rightarrow> int list \<Rightarrow> bool \<times> bool \<Rightarrow> string \<times> Record \<Rightarrow> Manager \<Rightarrow> Manager res" where
  "load_record env enabled trust kr m =
    (case me_Deserialize env (r_Val (snd kr)) of
       None \<Rightarrow> rmap (\<lambda>db. m\<lparr>m_corpusDB := db\<rparr>) (Delete (me_flate env) (fst kr) (m_corpusDB m))
     | Some calls \<Rightarrow>
       if \<not> set calls \<subseteq> set enabled then
         rmap (\<lambda>d. m\<lparr>m_disabledHashes := d\<rparr>) (go_put (me_hash env (r_Val (snd kr))) () (m_disabledHashes m))
       else Inr (m\<lparr>m_candidates := m_candidates m @ [\<lparr>rc_Prog = r_Val (snd kr), rc_Minimized = fst trust, rc_Smashed = snd trust\<rparr>]\<rparr>))"

text \<open>The shuffle; the \<open>i\<close>-th call of \<open>rand.Intn\<close> returns what \<open>rnd i\<close> leaves modulo its argument.\<close>

definition swap_step :: "(nat \<Rightarrow> nat) \<Rightarrow> nat \<Rightarrow> 'a list \<Rightarrow> 'a list" where
  "swap_step rnd i xs = (let j = i + rnd i mod (length xs - i) in xs[i := xs ! j, j := xs ! i])"

definition shuffle :: "(nat \<Rightarrow> nat) \<Rightarrow> 'a list \<Rightarrow> 'a list" where
  "shuffle rnd xs = fold (swap_step rnd) [0..<length xs] xs"

definition loadCorpus :: "mgr_env \<Rightarrow> (nat \<Rightarrow> nat) \<Rightarrow> Manager \<Rightarrow> Manager res" where
  "loadCorpus env rnd m =
    (case m_checkResult m of
       None \<Rightarrow> Inl (Panic ''nil pointer dereference'')
     | Some a \<Rightarrow>
       let enabled = (case go_get (ca_EnabledCalls a) (me_Sandbox env) of None \<Rightarrow> [] | Some l \<Rightarrow> l) in
       rbind (rfold (load_record env enabled (db_trust (db_Version (m_corpusDB m)))) (go_range (db_Records (m_corpusDB m))) m) (\<lambda>m1.
       let m2 = m1\<lparr>m_fresh := go_len (db_Records (m_corpusDB m1)) = 0\<rparr>;
           cands = m_candidates m2 @ m_candidates m2;
           half = length cands div 2;
           m3 = m2\<lparr>m_candidates := take half cands @ shuffle rnd (drop half cands)\<rparr>
       in if m_phase m3 \<noteq> phaseInit then Inl (Panic ''loadCorpus: bad phase'')
          else Inr (m3\<lparr>m_phase := phaseLoadedCorpus\<rparr>)))"

definition machineChecked :: "mgr_env \<Rightarrow> (nat \<Rightarrow> nat) \<Rightarrow> CheckArgs \<Rightarrow> Manager \<Rightarrow> Manager res" where
  "machineChecked env rnd a m =
    (let disabled = (case go_get (ca_DisabledCalls a) (me_Sandbox env) of None \<Rightarrow> [] | Some l \<Rightarrow> l);
         names = (if me_cfgEnabled env \<and> disabled \<noteq> [] then map sy_ID disabled @ me_enabledSyscalls env else [])
     in rbind (rfold (\<lambda>id _. rmap (\<lambda>_. ()) (go_nth (me_Syscalls env) id)) names ()) (\<lambda>_.
        rbind (guard_fatal (ca_Error a = []) ''machine check'') (\<lambda>_.
        rmap (\<lambda>m1. m1\<lparr>m_firstConnect := True\<rparr>) (loadCorpus env rnd (m\<lparr>m_checkResult := Some a\<rparr>)))))"

section \<open>Remote calls\<close>

record rpc_Fuzzer =
  rf_name :: string
  rf_inputs :: "RPCInput list"
  rf_newMaxSignal :: Signal

record RPCServer =
  rs_mgr :: Manager
  rs_stats :: mgr_Stats
  rs_fuzzers :: "(string, rpc_Fuzzer) gomap"
  rs_checkResult :: "CheckArgs option"
  rs_maxSignal :: Signal
  rs_corpusSignal :: Signal
  rs_corpusCover :: Cover

definition startRPCServer :: "Manager \<Rightarrow> mgr_Stats \<Rightarrow> RPCServer" where
  "startRPCServer m st = \<lparr>rs_mgr = m, rs_stats = st, rs_fuzzers = Some [], rs_checkResult = None, rs_maxSignal = None,
     rs_corpusSignal = None, rs_corpusCover = None\<rparr>"

definition rpc_batchSize :: "mgr_env \<Rightarrow> nat" where
  "rpc_batchSize env = (if 5 < me_Procs env then me_Procs env else 5)"

record ConnectRes =
  cr_MemoryLeakFrames :: "string list"
  cr_EnabledCalls :: "int list"
  cr_CheckResult :: "CheckArgs option"

text \<open>\<open>Connect\<close> up to the call of \<open>fuzzerConnect\<close>, and the rest, given what that returned.\<close>

definition Connect_begin :: "mgr_env \<Rightarrow> RPCServer \<Rightarrow> ((RPCInput list \<times> string list) \<times> RPCServer) res" where
  "Connect_begin env s =
    rmap (\<lambda>(r, m). (r, s\<lparr>rs_mgr := m, rs_stats := (rs_stats s)\<lparr>st_vmRestarts := st_vmRestarts (rs_stats s) + 1\<rparr>\<rparr>))
      (fuzzerConnect env (rs_mgr s))"

definition Connect_end :: "mgr_env \<Rightarrow> string \<Rightarrow> RPCInput list \<times> string list \<Rightarrow> RPCServer \<Rightarrow> ConnectRes \<times> RPCServer" where
  "Connect_end env name r s =
    (\<lparr>cr_MemoryLeakFrames = snd r, cr_EnabledCalls = me_enabledSyscalls env, cr_CheckResult = rs_checkResult s\<rparr>,
     s\<lparr>rs_fuzzers := go_set name \<lparr>rf_name = name, rf_inputs = fst r, rf_newMaxSignal = sig_Copy (rs_maxSignal s)\<rparr> (rs_fuzzers s)\<rparr>)"

text \<open>\<open>Check\<close>. The arguments are shared with the manager, so \<open>DisabledCalls\<close> becomes nil in both.\<close>

definition rpc_Check :: "mgr_env \<Rightarrow> (nat \<Rightarrow> nat) \<Rightarrow> CheckArgs \<Rightarrow> RPCServer \<Rightarrow> RPCServer res" where
  "rpc_Check env rnd a s =
    (if rs_checkResult s \<noteq> None then Inr s
     else
       rmap (\<lambda>m. let a' = a\<lparr>ca_DisabledCalls := None\<rparr> in
          s\<lparr>rs_mgr := m\<lparr>m_checkResult := Some a'\<rparr>, rs_checkResult := Some a'\<rparr>) (machineChecked env rnd a (rs_mgr s)))"

text \<open>A loop over the connected fuzzers that changes each.\<close>

definition each_rpc_fuzzer :: "(rpc_Fuzzer \<Rightarrow> rpc_Fuzzer) \<Rightarrow> (string, rpc_Fuzzer) gomap \<Rightarrow> (string, rpc_Fuzzer) gomap" where
  "each_rpc_fuzzer g fs = map_option (map (\<lambda>(name, f). (name, g f))) fs"

definition NewInput :: "mgr_env \<Rightarrow> string \<Rightarrow> RPCInput \<Rightarrow> RPCServer \<Rightarrow> RPCServer res" where
  "NewInput env name inp s =
    rbind (sig_Deserialize (ri_Signal inp)) (\<lambda>inputSignal.
    if me_Deserialize env (ri_Prog inp) = None then Inr s
    else if sig_Empty (sig_Diff (rs_corpusSignal s) inputSignal) then Inr s
    else
      rbind (newInput env inp inputSignal (rs_mgr s)) (\<lambda>(inputSignal', m).
      let corpusSignal = sig_Merge (rs_corpusSignal s) inputSignal';
          corpusCover = cov_Merge (rs_corpusCover s) (ri_Cover inp);
          st = rs_stats s
      in Inr (s\<lparr>rs_mgr := m,
           rs_stats := st\<lparr>st_newInputs := st_newInputs st + 1, st_corpusSignal := of_nat (sig_Len corpusSignal),
             st_corpusCover := of_nat (go_len corpusCover)\<rparr>,
           rs_corpusSignal := corpusSignal, rs_corpusCover := corpusCover,
           rs_fuzzers := each_rpc_fuzzer (\<lambda>f. if rf_name f = name then f
              else f\<lparr>rf_inputs := rf_inputs f @ [inp\<lparr>ri_Cover := []\<rparr>]\<rparr>) (rs_fuzzers s)\<rparr>)))"

definition spread_signal :: "string \<Rightarrow> Signal \<Rightarrow> RPCServer \<Rightarrow> RPCServer" where
  "spread_signal name newMaxSignal s =
    (if sig_Empty newMaxSignal then s
     else s\<lparr>rs_maxSignal := sig_Merge (rs_maxSignal s) newMaxSignal,
       rs_fuzzers := each_rpc_fuzzer (\<lambda>f. if rf_name f = name then f
          else f\<lparr>rf_newMaxSignal := sig_Merge (rf_newMaxSignal f) newMaxSignal\<rparr>) (rs_fuzzers s)\<rparr>)"

definition rpc_Poll :: "mgr_env \<Rightarrow> string \<Rightarrow> bool \<Rightarrow> Serial \<Rightarrow> (string, uint64) gomap \<Rightarrow> RPCServer \<Rightarrow> (PollRes \<times> RPCServer) res" where
  "rpc_Poll env name needCandidates maxSignal stats s0 =
    (let s = s0\<lparr>rs_stats := mergeNamed stats (rs_stats s0)\<rparr> in
     case go_get (rs_fuzzers s) name of
       None \<Rightarrow> Inl (Fatal ''fuzzer is not connected'')
     | Some f \<Rightarrow>
       rbind (sig_Deserialize maxSignal) (\<lambda>reported.
       let s1 = spread_signal name (sig_Diff (rs_maxSignal s) reported) s;
           (rest, part) = sig_Split 500 (rf_newMaxSignal f);
           (cands, m) = (if needCandidates then candidateBatch env (rpc_batchSize env) (rs_mgr s1) else ([], rs_mgr s1));
           (inputs, left) = (if cands = [] then pop_last (rpc_batchSize env) (rf_inputs f) else ([], rf_inputs f))
       in Inr (\<lparr>po_Candidates = cands, po_NewInputs = inputs, po_MaxSignal = sig_Serialize part\<rparr>,
            s1\<lparr>rs_mgr := m, rs_fuzzers := go_set name (f\<lparr>rf_inputs := left, rf_newMaxSignal := rest\<rparr>) (rs_fuzzers s1)\<rparr>)))"

section \<open>What the operations do\<close>

definition sig_of :: "RPCInput \<Rightarrow> Signal" where
  "sig_of inp = (case sig_Deserialize (ri_Signal inp) of Inr s \<Rightarrow> s | Inl _ \<Rightarrow> None)"

definition parses :: "mgr_env \<Rightarrow> bytes \<Rightarrow> bool" where
  "parses env p \<longleftrightarrow> me_Deserialize env p \<noteq> None"

text \<open>An input the fuzzers can take: its signal can be read and its program parses.\<close>

definition input_ok :: "mgr_env \<Rightarrow> RPCInput \<Rightarrow> bool" where
  "input_ok env inp \<longleftrightarrow> parses env (ri_Prog inp) \<and> length (Elems (ri_Signal inp)) = length (Prios (ri_Signal inp))"

lemma input_ok_signal: "input_ok env inp \<Longrightarrow> sig_Deserialize (ri_Signal inp) = Inr (sig_of inp)"
  by (auto simp: input_ok_def sig_of_def sig_Deserialize_def)

lemma wfm_sig_of [simp]: "wfm (sig_of inp)"
  by (auto simp: sig_of_def split: sum.splits intro: wfm_Deserialize)

lemma serial_lengths [simp]: "length (Elems (sig_Serialize s)) = length (Prios (sig_Serialize s))"
  by (simp add: sig_Serialize_def)

definition sorts :: "mgr_env \<Rightarrow> bool" where
  "sorts env \<longleftrightarrow> (\<forall>less xs. mset (me_sort env less xs) = mset xs)"

text \<open>
  The manager is consistent: each input of the corpus is stored under the hash of its program,
  can be taken by a fuzzer and is saved in the database; all candidates parse; the phase and
  the number of hub loops fit.
\<close>

definition corpus_ok :: "mgr_env \<Rightarrow> (string, RPCInput) gomap \<Rightarrow> DB \<Rightarrow> bool" where
  "corpus_ok env c db \<longleftrightarrow> db_good db \<and> wfm c \<and> c \<noteq> None
     \<and> (\<forall>k inp. go_get c k = Some inp \<longrightarrow> k = me_hash env (ri_Prog inp) \<and> input_ok env inp
          \<and> (\<exists>rec. db_view db k = Some rec \<and> r_Val rec = ri_Prog inp))"

definition phase_ok :: "mgr_env \<Rightarrow> Manager \<Rightarrow> bool" where
  "phase_ok env m \<longleftrightarrow> m_phase m \<le> phaseTriagedHub \<and> (m_phase m = phaseInit \<longleftrightarrow> m_checkResult m = None)
     \<and> m_hubLoops m = (if me_HubClient env \<noteq> [] \<and> phaseTriagedCorpus \<le> m_phase m then 1 else 0)"

definition mgr_inv :: "mgr_env \<Rightarrow> Manager \<Rightarrow> bool" where
  "mgr_inv env m \<longleftrightarrow> corpus_ok env (m_corpus m) (m_corpusDB m) \<and> phase_ok env m \<and> m_disabledHashes m \<noteq> None
     \<and> (\<forall>c \<in> set (m_candidates m). parses env (rc_Prog c))"

text \<open>The corpus reaches exactly the levels of a signal.\<close>

definition corpus_reaches :: "(string, RPCInput) gomap \<Rightarrow> Signal \<Rightarrow> bool" where
  "corpus_reaches c s \<longleftrightarrow> (\<forall>k inp e. go_get c k = Some inp \<longrightarrow> level (sig_of inp) e \<le> level s e)
     \<and> (\<forall>e p. level s e = Some p \<longrightarrow> (\<exists>k inp. go_get c k = Some inp \<and> level (sig_of inp) e = Some p))"

lemma corpus_ok_range:
  assumes "corpus_ok env c db" "inp \<in> set (map snd (go_range c))"
  shows "input_ok env inp"
proof -
  from assms obtain k where "go_get c k = Some inp" by (auto simp: corpus_ok_def go_range_get [symmetric])
  then show ?thesis using assms(1) unfolding corpus_ok_def by blast
qed

lemma BumpVersion_law: "db_good db \<Longrightarrow> \<exists>b db'. BumpVersion fl i v db = Inr (b, db') \<and> db_good db' \<and> db_view db' = db_view db"
  using Flush_law [of db fl i] compact_returns [of "db\<lparr>db_Version := v\<rparr>" fl i] by (auto simp: BumpVersion_def db_good_def)

lemma read_contexts:
  "\<forall>inp \<in> set inps. input_ok env inp \<Longrightarrow>
   rfold input_context inps acc = Inr (acc @ map (\<lambda>inp. \<lparr>ctx_Signal = sig_of inp, ctx_Context = inp\<rparr>) inps)"
  by (induction inps arbitrary: acc) (simp_all add: input_context_def input_ok_signal [of env])

lemma kept_fold:
  "dom (go_get (fold (\<lambda>x. go_set (h x) x) xs m)) = h ` set xs \<union> dom (go_get m)
   \<and> (go_get (fold (\<lambda>x. go_set (h x) x) xs m) k = Some v \<longrightarrow> v \<in> set xs \<and> k = h v \<or> go_get m k = Some v)"
proof (induction xs arbitrary: m)
  case (Cons x xs)
  have "dom (go_get (go_set (h x) x m)) = insert (h x) (dom (go_get m))" by auto
  then show ?case using Cons [of "go_set (h x) x m"] by (auto split: if_splits)
qed simp

lemma kept_inputs_get:
  assumes "inj_on (\<lambda>inp. me_hash env (ri_Prog inp)) (set inps)"
  shows "go_get (kept_inputs env inps) k = Some inp \<longleftrightarrow> inp \<in> set inps \<and> k = me_hash env (ri_Prog inp)"
proof
  assume "go_get (kept_inputs env inps) k = Some inp"
  then show "inp \<in> set inps \<and> k = me_hash env (ri_Prog inp)"
    using kept_fold [of "\<lambda>inp. me_hash env (ri_Prog inp)" inps "Some []" k inp] by (simp add: kept_inputs_def)
next
  assume a: "inp \<in> set inps \<and> k = me_hash env (ri_Prog inp)"
  then have "k \<in> dom (go_get (kept_inputs env inps))"
    using kept_fold [of "\<lambda>inp. me_hash env (ri_Prog inp)" inps "Some []"] by (auto simp: kept_inputs_def)
  then obtain i where i: "go_get (kept_inputs env inps) k = Some i" by auto
  then have "i \<in> set inps" "k = me_hash env (ri_Prog i)"
    using kept_fold [of "\<lambda>inp. me_hash env (ri_Prog inp)" inps "Some []" k i] by (simp_all add: kept_inputs_def)
  with a assms have "i = inp" by (auto dest: inj_onD)
  with i show "go_get (kept_inputs env inps) k = Some inp" by simp
qed

lemma kept_inputs_made: "wfm (kept_inputs env inps) \<and> kept_inputs env inps \<noteq> None"
  unfolding kept_inputs_def by (rule fold_keep) auto

text \<open>Minimizing keeps the levels the corpus reaches, and what it keeps stays in the database.\<close>

lemma minimize_corpus_part:
  assumes ok: "corpus_ok env c db" and srt: "sorts env"
    and k: "kept = kept_inputs env (Minimize (me_sort env) (map (\<lambda>inp. \<lparr>ctx_Signal = sig_of inp, ctx_Context = inp\<rparr>) (map snd (go_range c))))"
  shows "corpus_ok env kept db \<and> go_get kept \<subseteq>\<^sub>m go_get c \<and> (corpus_reaches c s \<longrightarrow> corpus_reaches kept s)"
proof -
  define ctxs where "ctxs = map (\<lambda>inp. \<lparr>ctx_Signal = sig_of inp, ctx_Context = inp\<rparr>) (map snd (go_range c))"
  have range: "inp \<in> snd ` set (go_range c) \<longleftrightarrow> (\<exists>k. go_get c k = Some inp)" for inp
    using ok by (force simp: corpus_ok_def go_range_get [symmetric])
  have "\<forall>c \<in> set ctxs. wfm (ctx_Signal c)" by (auto simp: ctxs_def)
  with srt have lev: "\<forall>c \<in> set ctxs. \<forall>e p. level (ctx_Signal c) e = Some p \<longrightarrow>
      (\<exists>d \<in> set ctxs. ctx_Context d \<in> set (Minimize (me_sort env) ctxs) \<and> Some p \<le> level (ctx_Signal d) e)"
    "mset (Minimize (me_sort env) ctxs) \<subseteq># image_mset ctx_Context (mset ctxs)"
    using Minimize_levels [of "me_sort env" ctxs] unfolding sorts_def by blast+
  have "ctx_Context ` set ctxs = snd ` set (go_range c)" by (simp add: ctxs_def image_image)
  then have sub: "set (Minimize (me_sort env) ctxs) \<subseteq> snd ` set (go_range c)"
    using set_mset_mono [OF lev(2)] by simp
  have "inj_on (\<lambda>inp. me_hash env (ri_Prog inp)) (snd ` set (go_range c))"
  proof (rule inj_onI)
    fix x y assume xy: "x \<in> snd ` set (go_range c)" "y \<in> snd ` set (go_range c)" and eq: "me_hash env (ri_Prog x) = me_hash env (ri_Prog y)"
    from xy obtain k l where "go_get c k = Some x" "go_get c l = Some y" by (auto simp: range)
    with ok eq show "x = y" by (auto simp: corpus_ok_def)
  qed
  then have "inj_on (\<lambda>inp. me_hash env (ri_Prog inp)) (set (Minimize (me_sort env) ctxs))" using sub by (rule inj_on_subset)
  from kept_inputs_get [OF this] have get: "go_get kept k = Some inp \<longleftrightarrow> inp \<in> set (Minimize (me_sort env) ctxs) \<and> k = me_hash env (ri_Prog inp)" for k inp
    by (simp add: k ctxs_def)
  have in_c: "go_get c k = Some inp" if "go_get kept k = Some inp" for k inp
  proof -
    from that have "inp \<in> snd ` set (go_range c)" "k = me_hash env (ri_Prog inp)" using sub by (auto simp: get)
    then obtain l where "go_get c l = Some inp" using range by auto
    with \<open>k = _\<close> ok show ?thesis by (auto simp: corpus_ok_def)
  qed
  have 1: "corpus_ok env kept db" using ok in_c kept_inputs_made k unfolding corpus_ok_def by blast
  have 2: "corpus_reaches kept s" if r: "corpus_reaches c s"
    unfolding corpus_reaches_def
  proof (intro conjI allI impI)
    fix e p assume "level s e = Some p"
    then obtain l inp where "go_get c l = Some inp" and i: "level (sig_of inp) e = Some p" using r unfolding corpus_reaches_def by blast
    then have "\<lparr>ctx_Signal = sig_of inp, ctx_Context = inp\<rparr> \<in> set ctxs" using range by (force simp: ctxs_def)
    then have "\<exists>d \<in> set ctxs. ctx_Context d \<in> set (Minimize (me_sort env) ctxs) \<and> Some p \<le> level (ctx_Signal d) e"
      by (rule lev(1) [rule_format]) (simp add: i)
    then obtain d where d: "d \<in> set ctxs" "ctx_Context d \<in> set (Minimize (me_sort env) ctxs)" "Some p \<le> level (ctx_Signal d) e" by blast
    then have "ctx_Signal d = sig_of (ctx_Context d)" by (auto simp: ctxs_def)
    moreover have "go_get kept (me_hash env (ri_Prog (ctx_Context d))) = Some (ctx_Context d)" using d by (simp add: get)
    moreover have "level (sig_of (ctx_Context d)) e \<le> level s e" using in_c [OF calculation(2)] r unfolding corpus_reaches_def by blast
    ultimately show "\<exists>k inp. go_get kept k = Some inp \<and> level (sig_of inp) e = Some p" using d(3) \<open>level s e = Some p\<close> by (metis order_antisym)
  next
    fix k inp e assume "go_get kept k = Some inp"
    from in_c [OF this] r show "level (sig_of inp) e \<le> level s e" unfolding corpus_reaches_def by blast
  qed
  from 1 2 in_c show ?thesis by (auto simp: map_le_def)
qed

lemma minimizeCorpus_law:
  assumes inv: "mgr_inv env m" and srt: "sorts env"
  shows "\<exists>c n db ios. minimizeCorpus env m = Inr (m\<lparr>m_corpus := c, m_lastMinCorpus := n, m_corpusDB := db, m_io := ios\<rparr>)
    \<and> mgr_inv env (m\<lparr>m_corpus := c, m_lastMinCorpus := n, m_corpusDB := db, m_io := ios\<rparr>)
    \<and> go_get c \<subseteq>\<^sub>m go_get (m_corpus m) \<and> (\<forall>s. corpus_reaches (m_corpus m) s \<longrightarrow> corpus_reaches c s)"
proof (cases "m_phase m < phaseLoadedCorpus \<or> go_len (m_corpus m) \<le> m_lastMinCorpus m * 101 div 100")
  case True
  then show ?thesis using inv
    by (intro exI [of _ "m_corpus m"]) (rule exI [of _ "m_lastMinCorpus m"], rule exI [of _ "m_corpusDB m"], rule exI [of _ "m_io m"],
      simp add: minimizeCorpus_def)
next
  case False
  have ok: "corpus_ok env (m_corpus m) (m_corpusDB m)" using inv by (simp add: mgr_inv_def)
  define ctxs where "ctxs = map (\<lambda>inp. \<lparr>ctx_Signal = sig_of inp, ctx_Context = inp\<rparr>) (map snd (go_range (m_corpus m)))"
  define kept where "kept = kept_inputs env (Minimize (me_sort env) ctxs)"
  from minimize_corpus_part [OF ok srt kept_def [unfolded ctxs_def]] have kept: "corpus_ok env kept (m_corpusDB m)" "go_get kept \<subseteq>\<^sub>m go_get (m_corpus m)"
    "\<forall>s. corpus_reaches (m_corpus m) s \<longrightarrow> corpus_reaches kept s" by blast+
  have "\<forall>inp \<in> set (map snd (go_range (m_corpus m))). input_ok env inp" using corpus_ok_range [OF ok] by blast
  from read_contexts [OF this, of "[]"] have ctxs: "rfold input_context (map snd (go_range (m_corpus m))) [] = Inr ctxs"
    by (simp add: ctxs_def)
  obtain db1 where db1: "rfold (\<lambda>key db. if go_has kept key \<or> go_has (m_disabledHashes m) key then Inr db else Delete (me_flate env) key db)
       (go_keys (db_Records (m_corpusDB m))) (m_corpusDB m) = Inr db1" "db_good db1"
      "db_view db1 = (\<lambda>k. if k \<in> set (go_keys (db_Records (m_corpusDB m))) \<and> \<not> (go_has kept k \<or> go_has (m_disabledHashes m) k) then None
         else db_view (m_corpusDB m) k)"
    using store.del_unless [of "m_corpusDB m" "\<lambda>k. go_has kept k \<or> go_has (m_disabledHashes m) k"] ok unfolding corpus_ok_def by blast
  obtain i ios where io: "next_io (m_io m) = (i, ios)" by (metis surj_pair)
  obtain b db2 where db2: "BumpVersion (me_flate env) i currentDBVersion db1 = Inr (b, db2)" "db_good db2" "db_view db2 = db_view db1"
    using BumpVersion_law [OF db1(2)] by blast
  have view: "db_view db2 k = db_view (m_corpusDB m) k" if "go_get kept k = Some inp" for k inp
    using go_get_key [OF that] by (simp add: db2(3) db1(3))
  have 2: "corpus_ok env kept db2" using kept(1) db2(2) unfolding corpus_ok_def by (simp add: view)
  let ?d = "if m_phase m < phaseTriagedCorpus then (m_corpusDB m, m_io m) else (db2, ios)"
  have "minimizeCorpus env m = Inr (m\<lparr>m_corpus := kept, m_lastMinCorpus := go_len kept, m_corpusDB := fst ?d, m_io := snd ?d\<rparr>)"
    using False ctxs db1(1) db2(1) io by (simp add: minimizeCorpus_def kept_def [symmetric] Let_def)
  moreover have "mgr_inv env (m\<lparr>m_corpus := kept, m_lastMinCorpus := go_len kept, m_corpusDB := fst ?d, m_io := snd ?d\<rparr>)"
    using inv kept(1) 2 by (simp add: mgr_inv_def phase_ok_def)
  ultimately show ?thesis using kept(2,3) by blast
qed

lemma newInput_law:
  assumes inv: "mgr_inv env m" and inp: "input_ok env inp" and sign: "sign = sig_of inp"
  shows "\<exists>sign' c db ios. newInput env inp sign m = Inr (sign', m\<lparr>m_corpus := c, m_corpusDB := db, m_io := ios\<rparr>)
    \<and> mgr_inv env (m\<lparr>m_corpus := c, m_corpusDB := db, m_io := ios\<rparr>) \<and> wfm sign'
    \<and> (\<forall>s. corpus_reaches (m_corpus m) s \<longrightarrow> level (sig_Merge s sign') = level (sig_Merge s sign) \<and> corpus_reaches c (sig_Merge s sign'))"
proof (cases "go_get (m_corpus m) (me_hash env (ri_Prog inp))")
  case None
  have ok: "corpus_ok env (m_corpus m) (m_corpusDB m)" using inv by (simp add: mgr_inv_def)
  obtain db1 where db1: "Save (me_flate env) (me_hash env (ri_Prog inp)) (ri_Prog inp) 0 (m_corpusDB m) = Inr db1" "db_good db1"
      "db_view db1 = (db_view (m_corpusDB m))(me_hash env (ri_Prog inp) \<mapsto> \<lparr>r_Val = ri_Prog inp, r_Seq = 0\<rparr>)"
    using store.save_law [of "m_corpusDB m" "\<lparr>r_Val = ri_Prog inp, r_Seq = 0\<rparr>" "me_flate env" "me_hash env (ri_Prog inp)"] ok
    by (auto simp: corpus_ok_def seqDeleted_def)
  obtain db2 ios where db2: "flush_logged (me_flate env) db1 (m_io m) = Inr (db2, ios)" "db_good db2" "db_view db2 = db_view db1"
    using flush_logged_law [OF db1(2)] by blast
  define c where "c = go_set (me_hash env (ri_Prog inp)) inp (m_corpus m)"
  have c_ok: "corpus_ok env c db2" using ok inp db1(3) db2 by (auto simp: corpus_ok_def c_def)
  have "corpus_reaches c (sig_Merge s sign)" if r: "corpus_reaches (m_corpus m) s" for s
    unfolding corpus_reaches_def
  proof (intro conjI allI impI)
    fix k i e assume "go_get c k = Some i"
    then show "level (sig_of i) e \<le> level (sig_Merge s sign) e"
      using r by (auto simp: c_def sig_Merge_level sign corpus_reaches_def le_supI1 split: if_splits)
  next
    fix e p assume "level (sig_Merge s sign) e = Some p"
    then consider "level s e = Some p" | "level (sig_of inp) e = Some p"
      by (auto simp: sig_Merge_level sign sup_max max_def split: if_splits)
    then show "\<exists>k i. go_get c k = Some i \<and> level (sig_of i) e = Some p"
    proof cases
      case 1
      then obtain k i where "go_get (m_corpus m) k = Some i" "level (sig_of i) e = Some p" using r unfolding corpus_reaches_def by blast
      moreover from this None have "k \<noteq> me_hash env (ri_Prog inp)" by auto
      ultimately show ?thesis by (intro exI [of _ k] exI [of _ i]) (simp add: c_def)
    qed (auto simp: c_def intro: exI [of _ inp])
  qed
  moreover have "newInput env inp sign m = Inr (sign, m\<lparr>m_corpus := c, m_corpusDB := db2, m_io := ios\<rparr>)"
    using None db1(1) db2(1) ok by (simp add: newInput_def Let_def c_def corpus_ok_def)
  moreover have "mgr_inv env (m\<lparr>m_corpus := c, m_corpusDB := db2, m_io := ios\<rparr>)" using inv c_ok by (simp add: mgr_inv_def phase_ok_def)
  ultimately show ?thesis using sign by (metis wfm_sig_of)
next
  case (Some old)
  let ?h = "me_hash env (ri_Prog inp)"
  have ok: "corpus_ok env (m_corpus m) (m_corpusDB m)" using inv by (simp add: mgr_inv_def)
  then have old: "input_ok env old" "?h = me_hash env (ri_Prog old)" "\<exists>rec. db_view (m_corpusDB m) ?h = Some rec \<and> r_Val rec = ri_Prog old"
    using Some by (auto simp: corpus_ok_def)
  define sign' where "sign' = sig_Merge sign (sig_of old)"
  have w: "wfm sign'" unfolding sign'_def sign by (rule wfm_sig_Merge) simp
  define new where "new = old\<lparr>ri_Signal := sig_Serialize sign', ri_Cover := cov_Serialize (cov_Merge (cov_Merge None (ri_Cover old)) (ri_Cover inp))\<rparr>"
  have lev: "level (sig_of new) = level sign'"
    using sig_Deserialize_Serialize [OF w] by (auto simp: sig_of_def new_def level_def fun_eq_iff)
  have new: "input_ok env new" "ri_Prog new = ri_Prog old" using old(1) by (simp_all add: input_ok_def new_def)
  define c where "c = go_set ?h new (m_corpus m)"
  have c_ok: "corpus_ok env c (m_corpusDB m)" using ok new old by (auto simp: corpus_ok_def c_def)
  have reach: "level (sig_Merge s sign') = level (sig_Merge s sign) \<and> corpus_reaches c (sig_Merge s sign')"
    if r: "corpus_reaches (m_corpus m) s" for s
  proof -
    have below: "level (sig_of old) e \<le> level s e" for e using r Some by (auto simp: corpus_reaches_def)
    have l: "level (sig_Merge s sign') e = sup (level s e) (level sign e)" for e
      using below [of e] sup_absorb1 [of "level (sig_of old) e" "level s e"]
      by (simp add: sig_Merge_level w sign'_def sign sup.assoc [symmetric] sup.commute sup.left_commute)
    moreover have "corpus_reaches c (sig_Merge s sign')"
      unfolding corpus_reaches_def
    proof (intro conjI allI impI)
      fix k i e assume "go_get c k = Some i"
      then have "i = new \<or> go_get (m_corpus m) k = Some i" by (auto simp: c_def split: if_splits)
      then show "level (sig_of i) e \<le> level (sig_Merge s sign') e"
        using r by (auto simp: lev sig_Merge_level [OF w] corpus_reaches_def le_supI1 simp del: not_None_eq)
    next
      fix e p assume "level (sig_Merge s sign') e = Some p"
      then consider "level s e = Some p" | "level sign' e = Some p"
        by (auto simp: sig_Merge_level [OF w] sup_max max_def split: if_splits)
      then show "\<exists>k i. go_get c k = Some i \<and> level (sig_of i) e = Some p"
      proof cases
        case 1
        then obtain k i where ki: "go_get (m_corpus m) k = Some i" "level (sig_of i) e = Some p" using r unfolding corpus_reaches_def by blast
        show ?thesis
        proof (cases "k = ?h")
          case True
          then have "level (sig_of old) e = Some p" using ki Some by simp
          then have "Some p \<le> level sign' e" by (simp add: sign'_def sig_Merge_level)
          moreover have "level sign' e \<le> Some p"
            using \<open>level (sig_Merge s sign') e = Some p\<close> by (metis sig_Merge_level [OF w] sup.cobounded2)
          ultimately show ?thesis by (auto simp: c_def lev intro!: exI [of _ ?h])
        qed (use ki in \<open>intro exI [of _ k] exI [of _ i], simp add: c_def\<close>)
      qed (auto simp: c_def lev intro: exI [of _ new])
    qed
    ultimately show ?thesis by (auto simp: fun_eq_iff sig_Merge_level sign)
  qed
  have "newInput env inp sign m = Inr (sign', m\<lparr>m_corpus := c, m_corpusDB := m_corpusDB m, m_io := m_io m\<rparr>)"
    using Some ok by (simp add: newInput_def Let_def c_def corpus_ok_def input_ok_signal [OF old(1)] sign'_def new_def)
  moreover have "mgr_inv env (m\<lparr>m_corpus := c, m_corpusDB := m_corpusDB m, m_io := m_io m\<rparr>)" using inv c_ok by (simp add: mgr_inv_def phase_ok_def)
  ultimately show ?thesis using reach w by blast
qed

lemma pop_last_conv: "pop_last n xs = (rev (drop (length xs - n) xs), take (length xs - n) xs)"
proof (induction n arbitrary: xs)
  case (Suc n)
  show ?case
  proof (cases xs rule: rev_cases)
    case (snoc ys y)
    then show ?thesis using Suc [of ys] by simp
  qed simp
qed simp

lemma length_swap [simp]: "length (swap_step rnd i xs) = length xs"
  by (simp add: swap_step_def Let_def)

lemma mset_swap_step: "i < length xs \<Longrightarrow> mset (swap_step rnd i xs) = mset xs"
  unfolding swap_step_def Let_def
  by (rule mset_swap) (use mod_less_divisor [of "length xs - i" "rnd i"] in linarith)+

lemma mset_shuffle: "mset (shuffle rnd xs) = mset xs"
proof -
  have "mset (fold (swap_step rnd) is ys) = mset ys" if "\<forall>i \<in> set is. i < length ys" for "is" ys
    using that by (induction "is" arbitrary: ys) (auto simp: mset_swap_step)
  then show ?thesis unfolding shuffle_def by (metis atLeastLessThan_iff set_upt)
qed

text \<open>What the loop over the records makes of the database.\<close>

definition runs :: "mgr_env \<Rightarrow> int list \<Rightarrow> bytes \<Rightarrow> bool" where
  "runs env enabled p \<longleftrightarrow> (case me_Deserialize env p of None \<Rightarrow> False | Some calls \<Rightarrow> set calls \<subseteq> set enabled)"

definition loaded :: "mgr_env \<Rightarrow> int list \<Rightarrow> bool \<times> bool \<Rightarrow> (string \<times> Record) list \<Rightarrow> Manager \<Rightarrow> Manager \<Rightarrow> bool" where
  "loaded env enabled trust krs m m' \<longleftrightarrow> db_good (m_corpusDB m') \<and> m_disabledHashes m' \<noteq> None
     \<and> (\<forall>k. db_view (m_corpusDB m') k = (if \<exists>rec. (k, rec) \<in> set krs \<and> \<not> parses env (r_Val rec) then None else db_view (m_corpusDB m) k))
     \<and> set (go_keys (m_disabledHashes m')) = set (go_keys (m_disabledHashes m))
         \<union> {me_hash env (r_Val rec) | k rec. (k, rec) \<in> set krs \<and> parses env (r_Val rec) \<and> \<not> runs env enabled (r_Val rec)}
     \<and> m_candidates m' = m_candidates m @ map (\<lambda>kr. \<lparr>rc_Prog = r_Val (snd kr), rc_Minimized = fst trust, rc_Smashed = snd trust\<rparr>)
         (filter (\<lambda>kr. runs env enabled (r_Val (snd kr))) krs)
     \<and> m_corpus m' = m_corpus m \<and> m_phase m' = m_phase m \<and> m_checkResult m' = m_checkResult m \<and> m_hubLoops m' = m_hubLoops m"

lemma loaded_trans: "loaded env en tr xs m m1 \<Longrightarrow> loaded env en tr ys m1 m2 \<Longrightarrow> loaded env en tr (xs @ ys) m m2"
proof -
  assume a: "loaded env en tr xs m m1" and b: "loaded env en tr ys m1 m2"
  note a' = a [unfolded loaded_def] and b' = b [unfolded loaded_def]
  have "db_view (m_corpusDB m2) k = (if \<exists>rec. (k, rec) \<in> set (xs @ ys) \<and> \<not> parses env (r_Val rec) then None else db_view (m_corpusDB m) k)" for k
    using a' b' by (auto split: if_splits)
  moreover have "set (go_keys (m_disabledHashes m2)) = set (go_keys (m_disabledHashes m))
         \<union> {me_hash env (r_Val rec) | k rec. (k, rec) \<in> set (xs @ ys) \<and> parses env (r_Val rec) \<and> \<not> runs env en (r_Val rec)}"
    unfolding b' [THEN conjunct2, THEN conjunct2, THEN conjunct2, THEN conjunct1] a' [THEN conjunct2, THEN conjunct2, THEN conjunct2, THEN conjunct1]
    by auto
  ultimately show ?thesis using a' b' unfolding loaded_def by simp
qed

lemma loaded_view:
  "loaded env en tr krs m m' \<Longrightarrow>
   db_view (m_corpusDB m') k = (if \<exists>rec. (k, rec) \<in> set krs \<and> \<not> parses env (r_Val rec) then None else db_view (m_corpusDB m) k)"
  unfolding loaded_def by blast

lemma load_record_law:
  assumes "db_good (m_corpusDB m)" "m_disabledHashes m \<noteq> None"
  shows "\<exists>m'. load_record env enabled trust kr m = Inr m' \<and> loaded env enabled trust [kr] m m'"
proof -
  obtain k rec where kr: "kr = (k, rec)" by (cases kr)
  consider (broken) "me_Deserialize env (r_Val rec) = None"
    | (disabled) calls where "me_Deserialize env (r_Val rec) = Some calls" "\<not> set calls \<subseteq> set enabled"
    | (good) calls where "me_Deserialize env (r_Val rec) = Some calls" "set calls \<subseteq> set enabled"
    by (cases "me_Deserialize env (r_Val rec)") auto
  then show ?thesis
  proof cases
    case broken
    obtain db1 where db1: "Delete (me_flate env) k (m_corpusDB m) = Inr db1" "db_good db1" "db_view db1 = (db_view (m_corpusDB m))(k := None)"
      using store.del_law [OF assms(1)] by blast
    then have "load_record env enabled trust kr m = Inr (m\<lparr>m_corpusDB := db1\<rparr>)" by (simp add: load_record_def kr broken)
    moreover have "\<not> runs env enabled (r_Val rec)" "\<not> parses env (r_Val rec)" using broken by (simp_all add: runs_def parses_def)
    ultimately show ?thesis using db1(2,3) assms(2) by (simp add: loaded_def kr)
  next
    case disabled
    then have "\<not> runs env enabled (r_Val rec)" "parses env (r_Val rec)" by (simp_all add: runs_def parses_def)
    then show ?thesis using disabled assms by (auto simp: load_record_def loaded_def kr)
  next
    case good
    then have "runs env enabled (r_Val rec)" "parses env (r_Val rec)" by (simp_all add: runs_def parses_def)
    then show ?thesis using good assms by (auto simp: load_record_def loaded_def kr)
  qed
qed

lemma load_records_law:
  assumes "db_good (m_corpusDB m)" "m_disabledHashes m \<noteq> None"
  shows "\<exists>m'. rfold (load_record env enabled trust) krs m = Inr m' \<and> loaded env enabled trust krs m m'"
  using assms
proof (induction krs arbitrary: m)
  case Nil
  then show ?case by (simp add: loaded_def)
next
  case (Cons kr krs)
  obtain m1 where m1: "load_record env enabled trust kr m = Inr m1" "loaded env enabled trust [kr] m m1"
    using load_record_law [OF Cons.prems] by blast
  then have "db_good (m_corpusDB m1)" "m_disabledHashes m1 \<noteq> None" by (simp_all add: loaded_def)
  from Cons.IH [OF this] obtain m2 where "rfold (load_record env enabled trust) krs m1 = Inr m2" "loaded env enabled trust krs m1 m2" by blast
  then show ?case using m1(1) loaded_trans [OF m1(2)] by auto
qed

lemma loadCorpus_law:
  assumes "db_good (m_corpusDB m)" "m_disabledHashes m \<noteq> None" "m_phase m = phaseInit" "m_checkResult m = Some a"
    and en: "enabled = (case go_get (ca_EnabledCalls a) (me_Sandbox env) of None \<Rightarrow> [] | Some l \<Rightarrow> l)"
  shows "\<exists>m1 cands fresh. loaded env enabled (db_trust (db_Version (m_corpusDB m))) (go_range (db_Records (m_corpusDB m))) m m1
    \<and> loadCorpus env rnd m = Inr (m1\<lparr>m_fresh := fresh, m_candidates := cands, m_phase := phaseLoadedCorpus\<rparr>)
    \<and> mset cands = mset (m_candidates m1) + mset (m_candidates m1)"
proof -
  obtain m1 where m1: "rfold (load_record env enabled (db_trust (db_Version (m_corpusDB m)))) (go_range (db_Records (m_corpusDB m))) m = Inr m1"
      "loaded env enabled (db_trust (db_Version (m_corpusDB m))) (go_range (db_Records (m_corpusDB m))) m m1"
    using load_records_law [OF assms(1,2)] by blast
  then have "m_phase m1 = phaseInit" using assms(3) by (simp add: loaded_def)
  then have "loadCorpus env rnd m = Inr (m1\<lparr>m_fresh := go_len (db_Records (m_corpusDB m1)) = 0,
      m_candidates := m_candidates m1 @ shuffle rnd (m_candidates m1), m_phase := phaseLoadedCorpus\<rparr>)"
    using m1(1) assms(4) by (simp add: loadCorpus_def en Let_def)
  then show ?thesis using m1(2) mset_shuffle by fastforce
qed

text \<open>
  \<open>loadCorpus\<close> of a manager that has been checked neither panics nor loses a program. Each
  program of the database is deleted from it when it does not parse; otherwise it stays, and it
  is a candidate twice when all its calls are enabled, and its hash is remembered as disabled
  when not.
\<close>

lemma loadCorpus_sorts_out:
  assumes "db_good (m_corpusDB m)" "m_disabledHashes m \<noteq> None" "m_phase m = phaseInit" "m_checkResult m = Some a"
    and en: "enabled = (case go_get (ca_EnabledCalls a) (me_Sandbox env) of None \<Rightarrow> [] | Some l \<Rightarrow> l)"
    and rec: "db_view (m_corpusDB m) key = Some rec"
  shows "\<exists>m'. loadCorpus env rnd m = Inr m' \<and> m_phase m' = phaseLoadedCorpus
    \<and> db_view (m_corpusDB m') key = (if parses env (r_Val rec) then Some rec else None)
    \<and> (if runs env enabled (r_Val rec) then 2 \<le> count (image_mset rc_Prog (mset (m_candidates m'))) (r_Val rec)
       else parses env (r_Val rec) \<longrightarrow> go_has (m_disabledHashes m') (me_hash env (r_Val rec)))"
proof -
  obtain m1 cands fresh where l: "loaded env enabled (db_trust (db_Version (m_corpusDB m))) (go_range (db_Records (m_corpusDB m))) m m1"
      "loadCorpus env rnd m = Inr (m1\<lparr>m_fresh := fresh, m_candidates := cands, m_phase := phaseLoadedCorpus\<rparr>)"
      "mset cands = mset (m_candidates m1) + mset (m_candidates m1)"
    using loadCorpus_law [OF assms(1-5)] by blast
  have w: "wfm (db_Records (m_corpusDB m))" using assms(1) by (simp add: db_good_def)
  have range: "(key, rec') \<in> set (go_range (db_Records (m_corpusDB m))) \<longleftrightarrow> rec' = rec" for rec' using rec by (auto simp: go_range_get [OF w])
  have view: "db_view (m_corpusDB m1) key = (if parses env (r_Val rec) then Some rec else None)"
    using l(1) rec by (simp add: loaded_def range)
  have "r_Val rec \<in># image_mset rc_Prog (mset (m_candidates m1))" if "runs env enabled (r_Val rec)"
  proof -
    have "(key, rec) \<in> set (filter (\<lambda>kr. runs env enabled (r_Val (snd kr))) (go_range (db_Records (m_corpusDB m))))" using that range by simp
    then have "r_Val rec \<in> (\<lambda>kr. r_Val (snd kr)) ` set (filter (\<lambda>kr. runs env enabled (r_Val (snd kr))) (go_range (db_Records (m_corpusDB m))))"
      by (rule rev_image_eqI) simp
    moreover have "m_candidates m1 = m_candidates m @ map (\<lambda>kr. \<lparr>rc_Prog = r_Val (snd kr), rc_Minimized = fst (db_trust (db_Version (m_corpusDB m))),
        rc_Smashed = snd (db_trust (db_Version (m_corpusDB m)))\<rparr>) (filter (\<lambda>kr. runs env enabled (r_Val (snd kr))) (go_range (db_Records (m_corpusDB m))))"
      using l(1) by (simp add: loaded_def)
    ultimately show ?thesis by (simp add: image_Un image_image)
  qed
  then have "runs env enabled (r_Val rec) \<Longrightarrow> 1 \<le> count (image_mset rc_Prog (mset (m_candidates m1))) (r_Val rec)"
    by (simp only: count_greater_eq_one_iff)
  then have cand: "runs env enabled (r_Val rec) \<Longrightarrow> 2 \<le> count (image_mset rc_Prog (mset cands)) (r_Val rec)"
    unfolding l(3) image_mset_union count_union by linarith
  have dis: "parses env (r_Val rec) \<Longrightarrow> \<not> runs env enabled (r_Val rec) \<Longrightarrow> go_has (m_disabledHashes m1) (me_hash env (r_Val rec))"
    using l(1) range unfolding loaded_def go_has_iff by blast
  show ?thesis unfolding l(2) using view cand dis by (intro exI [of _ "m1\<lparr>m_fresh := fresh, m_candidates := cands, m_phase := phaseLoadedCorpus\<rparr>"]) simp
qed

lemma mgr_inv_load:
  assumes inv: "mgr_inv env m" and ph: "m_phase m = phaseInit"
  shows "\<exists>m'. loadCorpus env rnd (m\<lparr>m_checkResult := Some a\<rparr>) = Inr m' \<and> mgr_inv env m' \<and> m_checkResult m' = Some a \<and> m_corpus m' = m_corpus m"
proof -
  let ?m = "m\<lparr>m_checkResult := Some a\<rparr>"
  define en where "en = (case go_get (ca_EnabledCalls a) (me_Sandbox env) of None \<Rightarrow> [] | Some l \<Rightarrow> l)"
  have ok: "corpus_ok env (m_corpus m) (m_corpusDB m)" and good: "db_good (m_corpusDB m)" and w: "wfm (db_Records (m_corpusDB m))"
    using inv by (simp_all add: mgr_inv_def corpus_ok_def db_good_def)
  obtain m1 cands fresh where l: "loaded env en (db_trust (db_Version (m_corpusDB ?m))) (go_range (db_Records (m_corpusDB ?m))) ?m m1"
      "loadCorpus env rnd ?m = Inr (m1\<lparr>m_fresh := fresh, m_candidates := cands, m_phase := phaseLoadedCorpus\<rparr>)"
      "mset cands = mset (m_candidates m1) + mset (m_candidates m1)"
    using loadCorpus_law [of ?m a en env rnd] inv ph en_def by (auto simp: mgr_inv_def good)
  note l1 = l(1) [unfolded loaded_def]
  have keep: "db_view (m_corpusDB m1) k = db_view (m_corpusDB m) k" if "go_get (m_corpus m) k = Some inp" for k inp
  proof -
    have "\<exists>rec. db_view (m_corpusDB m) k = Some rec \<and> r_Val rec = ri_Prog inp" "input_ok env inp" using ok that unfolding corpus_ok_def by blast+
    then have "\<not> (\<exists>rec. (k, rec) \<in> set (go_range (db_Records (m_corpusDB m))) \<and> \<not> parses env (r_Val rec))"
      by (auto simp: go_range_get [OF w] input_ok_def)
    then show ?thesis using loaded_view [OF l(1), of k] by (auto split: if_splits)
  qed
  have "corpus_ok env (m_corpus m1) (m_corpusDB m1)" using ok l1 keep unfolding corpus_ok_def by (simp del: not_None_eq)
  moreover have "set cands = set (m_candidates m1)" using l(3) by (metis Un_absorb set_mset_mset set_mset_union)
  moreover have "\<forall>c \<in> set (m_candidates m1). parses env (rc_Prog c)"
    using l1 inv by (auto simp: mgr_inv_def runs_def parses_def split: option.splits)
  moreover have "m_hubLoops m1 = 0" using l1 inv ph by (simp add: mgr_inv_def phase_ok_def phases)
  ultimately show ?thesis using l(2) l1 by (auto simp: mgr_inv_def phase_ok_def phases)
qed

lemma candidateBatch_law:
  assumes inv: "mgr_inv env m" and b: "candidateBatch env n m = (res, m')"
  shows "mgr_inv env m' \<and> m_corpus m' = m_corpus m \<and> m_checkResult m' = m_checkResult m \<and> (\<forall>c \<in> set res. parses env (rc_Prog c))
    \<and> m_phase m \<le> m_phase m' \<and> m_candidates m = m_candidates m' @ rev res \<and> length res = min n (length (m_candidates m))"
proof -
  let ?k = "length (m_candidates m) - n"
  have s: "res = rev (drop ?k (m_candidates m))" "m_candidates m' = take ?k (m_candidates m)" "m_corpus m' = m_corpus m"
    "m_corpusDB m' = m_corpusDB m" "m_disabledHashes m' = m_disabledHashes m" "m_checkResult m' = m_checkResult m"
    using b by (auto simp: candidateBatch_def pop_last_conv Let_def split: if_splits)
  have p: "phase_ok env m'" "m_phase m \<le> m_phase m'"
    using b inv by (auto simp: candidateBatch_def mgr_inv_def phase_ok_def phases Let_def split: if_splits prod.splits)
  have "set res \<subseteq> set (m_candidates m)" "set (m_candidates m') \<subseteq> set (m_candidates m)"
    unfolding s by (auto dest: in_set_dropD in_set_takeD)
  moreover have "length res = min n (length (m_candidates m))" by (simp add: s(1))
  ultimately show ?thesis using inv s p by (auto simp: mgr_inv_def)
qed

section \<open>Reachable states\<close>

lemma each_get [simp]: "go_get (each_rpc_fuzzer g fs) name = map_option g (go_get fs name)"
  by (cases fs) (simp_all add: each_rpc_fuzzer_def go_get_Some map_of_map)

lemma each_id [simp]: "each_rpc_fuzzer (\<lambda>f. f) fs = fs"
  by (cases fs) (simp_all add: each_rpc_fuzzer_def)

lemma each_made [simp]: "each_rpc_fuzzer g fs = None \<longleftrightarrow> fs = None" "wfm (each_rpc_fuzzer g fs) \<longleftrightarrow> wfm fs"
  by (cases fs; simp add: each_rpc_fuzzer_def wfm_def go_keys_def comp_def case_prod_beta)+

text \<open>
  The server with the connections in progress and, for each fuzzer, the levels it knows: what it
  reported or was sent since it connected.
\<close>

record mgr_sys =
  ms_srv :: RPCServer
  ms_pending :: "(string \<times> RPCInput list \<times> string list) list"
  ms_known :: "string \<Rightarrow> elemType \<Rightarrow> int option"

definition serial_level :: "Serial \<Rightarrow> elemType \<Rightarrow> int option" where
  "serial_level ser = (case sig_Deserialize ser of Inr s \<Rightarrow> level s | Inl _ \<Rightarrow> (\<lambda>_. None))"

inductive mgr_step :: "mgr_env \<Rightarrow> mgr_sys \<Rightarrow> mgr_sys \<Rightarrow> bool" for env where
  connect_begin: "Connect_begin env (ms_srv y) = Inr (r, s) \<Longrightarrow> mgr_step env y (y\<lparr>ms_srv := s, ms_pending := (name, r) # ms_pending y\<rparr>)"
| connect_end: "(name, r) \<in> set (ms_pending y) \<Longrightarrow> Connect_end env name r (ms_srv y) = (reply, s) \<Longrightarrow>
    mgr_step env y (y\<lparr>ms_srv := s, ms_pending := remove1 (name, r) (ms_pending y), ms_known := (ms_known y)(name := \<lambda>_. None)\<rparr>)"
| check: "rpc_Check env rnd a (ms_srv y) = Inr s \<Longrightarrow> mgr_step env y (y\<lparr>ms_srv := s\<rparr>)"
| new_input: "NewInput env name inp (ms_srv y) = Inr s \<Longrightarrow> mgr_step env y (y\<lparr>ms_srv := s\<rparr>)"
| poll: "rpc_Poll env name needCandidates ser stats (ms_srv y) = Inr (r, s) \<Longrightarrow>
    mgr_step env y (y\<lparr>ms_srv := s, ms_known := (ms_known y)(name := \<lambda>e. sup (ms_known y name e) (sup (serial_level ser e) (serial_level (po_MaxSignal r) e)))\<rparr>)"
| minimize: "minimizeCorpus env (rs_mgr (ms_srv y)) = Inr m \<Longrightarrow> mgr_step env y (y\<lparr>ms_srv := (ms_srv y)\<lparr>rs_mgr := m\<rparr>\<rparr>)"
| hub_corpus: "getMinimizedCorpus env (rs_mgr (ms_srv y)) = Inr (r, m) \<Longrightarrow> mgr_step env y (y\<lparr>ms_srv := (ms_srv y)\<lparr>rs_mgr := m\<rparr>\<rparr>)"
| hub_candidates: "\<forall>p \<in> set progs. parses env p \<Longrightarrow> mgr_step env y (y\<lparr>ms_srv := (ms_srv y)\<lparr>rs_mgr := addNewCandidates progs (rs_mgr (ms_srv y))\<rparr>\<rparr>)"
| crash_saved: "mgr_step env y (y\<lparr>ms_srv := (ms_srv y)\<lparr>rs_mgr := (rs_mgr (ms_srv y))\<lparr>m_newRepros := repros, m_memoryLeakFrames := frames\<rparr>\<rparr>\<rparr>)"

inductive_cases mgr_stepE: "mgr_step env y y'"

definition mgr_start :: "mgr_env \<Rightarrow> mgr_sys \<Rightarrow> bool" where
  "mgr_start env y \<longleftrightarrow> (\<exists>fl ios m st known. RunManager env fl ios = Inr m \<and> y = \<lparr>ms_srv = startRPCServer m st, ms_pending = [], ms_known = known\<rparr>)"

definition fuzzer_ok :: "mgr_env \<Rightarrow> string \<Rightarrow> rpc_Fuzzer \<Rightarrow> bool" where
  "fuzzer_ok env name f \<longleftrightarrow> rf_name f = name \<and> wfm (rf_newMaxSignal f) \<and> (\<forall>inp \<in> set (rf_inputs f). input_ok env inp)"

definition srv_inv :: "mgr_env \<Rightarrow> RPCServer \<Rightarrow> bool" where
  "srv_inv env s \<longleftrightarrow> mgr_inv env (rs_mgr s) \<and> wfm (rs_corpusSignal s) \<and> wfm (rs_maxSignal s)
     \<and> rs_checkResult s = m_checkResult (rs_mgr s) \<and> corpus_reaches (m_corpus (rs_mgr s)) (rs_corpusSignal s)
     \<and> wfm (rs_fuzzers s) \<and> (\<forall>name f. go_get (rs_fuzzers s) name = Some f \<longrightarrow> fuzzer_ok env name f)"

text \<open>The maximal signal is what a fuzzer knows and what waits to be sent to it.\<close>

definition signal_spread :: "mgr_sys \<Rightarrow> bool" where
  "signal_spread y \<longleftrightarrow> (\<forall>name f e. go_get (rs_fuzzers (ms_srv y)) name = Some f \<longrightarrow>
     level (rs_maxSignal (ms_srv y)) e = sup (level (rf_newMaxSignal f) e) (ms_known y name e))"

definition sys_inv :: "mgr_env \<Rightarrow> mgr_sys \<Rightarrow> bool" where
  "sys_inv env y \<longleftrightarrow> srv_inv env (ms_srv y) \<and> signal_spread y \<and> (\<forall>x \<in> set (ms_pending y). \<forall>inp \<in> set (fst (snd x)). input_ok env inp)"

lemma sys_inv_mgr:
  assumes "sys_inv env y" "mgr_inv env m" "m_checkResult m = m_checkResult (rs_mgr (ms_srv y))"
    "corpus_reaches (m_corpus m) (rs_corpusSignal (ms_srv y))"
  shows "sys_inv env (y\<lparr>ms_srv := (ms_srv y)\<lparr>rs_mgr := m\<rparr>\<rparr>)"
  using assms by (simp add: sys_inv_def srv_inv_def signal_spread_def)

lemma minimize_step:
  assumes "sorts env" "srv_inv env s" "minimizeCorpus env (rs_mgr s) = Inr m"
  shows "mgr_inv env m \<and> m_checkResult m = m_checkResult (rs_mgr s) \<and> corpus_reaches (m_corpus m) (rs_corpusSignal s)"
  using minimizeCorpus_law [of env "rs_mgr s"] assms by (auto simp: srv_inv_def)

lemma wfm_Copy: "wfm (sig_Copy s)"
  unfolding sig_Copy_def by (rule fold_keep) auto

lemma level_Copy: "wfm s \<Longrightarrow> level (sig_Copy s) = level s"
  by (simp add: fun_eq_iff level_def sig_Copy_def fold_set_level wfm_def go_keys_def go_get_def [of s])

lemma Connect_end_inv:
  assumes inv: "sys_inv env y" and r: "(name, r) \<in> set (ms_pending y)" and c: "Connect_end env name r (ms_srv y) = (reply, s)"
  shows "sys_inv env (y\<lparr>ms_srv := s, ms_pending := remove1 (name, r) (ms_pending y), ms_known := (ms_known y)(name := \<lambda>_. None)\<rparr>)"
proof -
  have "\<forall>inp \<in> set (fst r). input_ok env inp" "wfm (rs_maxSignal (ms_srv y))" using inv r by (auto simp: sys_inv_def srv_inv_def)
  then have f: "fuzzer_ok env name \<lparr>rf_name = name, rf_inputs = fst r, rf_newMaxSignal = sig_Copy (rs_maxSignal (ms_srv y))\<rparr>"
    "level (sig_Copy (rs_maxSignal (ms_srv y))) = level (rs_maxSignal (ms_srv y))"
    by (simp_all add: fuzzer_ok_def wfm_Copy level_Copy)
  have s: "s = (ms_srv y)\<lparr>rs_fuzzers := go_set name \<lparr>rf_name = name, rf_inputs = fst r, rf_newMaxSignal = sig_Copy (rs_maxSignal (ms_srv y))\<rparr>
      (rs_fuzzers (ms_srv y))\<rparr>" using c by (simp add: Connect_end_def)
  have "srv_inv env s" using inv f(1) by (simp add: s sys_inv_def srv_inv_def)
  moreover have "signal_spread (y\<lparr>ms_srv := s, ms_pending := remove1 (name, r) (ms_pending y), ms_known := (ms_known y)(name := \<lambda>_. None)\<rparr>)"
    using inv f(2) by (auto simp: s sys_inv_def signal_spread_def)
  moreover have "\<forall>x \<in> set (remove1 (name, r) (ms_pending y)). \<forall>inp \<in> set (fst (snd x)). input_ok env inp"
    using inv set_remove1_subset [of "(name, r)" "ms_pending y"] by (auto simp: sys_inv_def)
  ultimately show ?thesis by (simp add: sys_inv_def)
qed

lemma rpc_Check_inv:
  assumes inv: "sys_inv env y" and c: "rpc_Check env rnd a (ms_srv y) = Inr s"
  shows "sys_inv env (y\<lparr>ms_srv := s\<rparr>)"
proof (cases "rs_checkResult (ms_srv y)")
  case (Some b)
  then have "y\<lparr>ms_srv := s\<rparr> = y" using c by (simp add: rpc_Check_def)
  then show ?thesis using inv by simp
next
  case None
  let ?m = "rs_mgr (ms_srv y)"
  have ph: "m_phase ?m = phaseInit" "mgr_inv env ?m" using inv None by (auto simp: sys_inv_def srv_inv_def mgr_inv_def phase_ok_def)
  obtain m where m: "loadCorpus env rnd (?m\<lparr>m_checkResult := Some a\<rparr>) = Inr m" "mgr_inv env m" "m_checkResult m = Some a" "m_corpus m = m_corpus ?m"
    using mgr_inv_load [OF ph(2,1)] by blast
  then have s: "s = (ms_srv y)\<lparr>rs_mgr := m\<lparr>m_firstConnect := True, m_checkResult := Some (a\<lparr>ca_DisabledCalls := None\<rparr>)\<rparr>,
      rs_checkResult := Some (a\<lparr>ca_DisabledCalls := None\<rparr>)\<rparr>"
    using c None by (auto simp: rpc_Check_def machineChecked_def res_conv Let_def)
  have "mgr_inv env (m\<lparr>m_firstConnect := True, m_checkResult := Some (a\<lparr>ca_DisabledCalls := None\<rparr>)\<rparr>)"
    using m(2,3) by (simp add: mgr_inv_def phase_ok_def)
  then show ?thesis using inv m(4) unfolding s by (simp add: sys_inv_def srv_inv_def signal_spread_def)
qed

lemma NewInput_law:
  assumes inv: "srv_inv env s" and len: "length (Elems (ri_Signal inp)) = length (Prios (ri_Signal inp))"
  shows "\<exists>s'. NewInput env name inp s = Inr s' \<and> srv_inv env s' \<and> rs_maxSignal s' = rs_maxSignal s
    \<and> (\<exists>g. rs_fuzzers s' = each_rpc_fuzzer g (rs_fuzzers s) \<and> (\<forall>f. rf_newMaxSignal (g f) = rf_newMaxSignal f))
    \<and> (parses env (ri_Prog inp) \<longrightarrow> (\<forall>e. level (rs_corpusSignal s') e = sup (level (rs_corpusSignal s) e) (serial_level (ri_Signal inp) e)))"
proof -
  have ser: "sig_Deserialize (ri_Signal inp) = Inr (sig_of inp)" using len by (simp add: sig_of_def sig_Deserialize_def)
  then have lev: "serial_level (ri_Signal inp) = level (sig_of inp)" by (simp add: serial_level_def)
  have same: "\<exists>g. rs_fuzzers s = each_rpc_fuzzer g (rs_fuzzers s) \<and> (\<forall>f. rf_newMaxSignal (g f) = rf_newMaxSignal f)"
    by (intro exI [of _ "\<lambda>f. f"]) simp
  consider (broken) "\<not> parses env (ri_Prog inp)"
    | (old) "parses env (ri_Prog inp)" "sig_Empty (sig_Diff (rs_corpusSignal s) (sig_of inp))"
    | (new) "parses env (ri_Prog inp)" "\<not> sig_Empty (sig_Diff (rs_corpusSignal s) (sig_of inp))" by blast
  then show ?thesis
  proof cases
    case broken
    then show ?thesis using inv same by (simp add: NewInput_def ser parses_def)
  next
    case old
    have "sup (level (rs_corpusSignal s) e) (level (sig_of inp) e) = level (rs_corpusSignal s) e" for e
      using old(2) sig_Diff_level [of "sig_of inp" "rs_corpusSignal s" e] by (auto simp: sig_Empty_level sup_absorb1 split: if_splits)
    then show ?thesis using old inv same lev by (simp add: NewInput_def ser parses_def)
  next
    case new
    then have ok: "input_ok env inp" using len by (simp add: input_ok_def)
    have m: "mgr_inv env (rs_mgr s)" "corpus_reaches (m_corpus (rs_mgr s)) (rs_corpusSignal s)" using inv by (simp_all add: srv_inv_def)
    obtain sign c db ios where n: "newInput env inp (sig_of inp) (rs_mgr s) = Inr (sign, (rs_mgr s)\<lparr>m_corpus := c, m_corpusDB := db, m_io := ios\<rparr>)"
      "mgr_inv env ((rs_mgr s)\<lparr>m_corpus := c, m_corpusDB := db, m_io := ios\<rparr>)" "wfm sign"
      "level (sig_Merge (rs_corpusSignal s) sign) = level (sig_Merge (rs_corpusSignal s) (sig_of inp))"
      "corpus_reaches c (sig_Merge (rs_corpusSignal s) sign)"
      using newInput_law [OF m(1) ok refl] m(2) by blast
    define g :: "rpc_Fuzzer \<Rightarrow> rpc_Fuzzer" where "g = (\<lambda>f. if rf_name f = name then f else f\<lparr>rf_inputs := rf_inputs f @ [inp\<lparr>ri_Cover := []\<rparr>]\<rparr>)"
    obtain s' where s': "NewInput env name inp s = Inr s'" "rs_mgr s' = (rs_mgr s)\<lparr>m_corpus := c, m_corpusDB := db, m_io := ios\<rparr>"
      "rs_corpusSignal s' = sig_Merge (rs_corpusSignal s) sign" "rs_maxSignal s' = rs_maxSignal s" "rs_checkResult s' = rs_checkResult s"
      "rs_fuzzers s' = each_rpc_fuzzer g (rs_fuzzers s)"
      using new n(1) by (auto simp: NewInput_def ser parses_def Let_def g_def)
    have "input_ok env (inp\<lparr>ri_Cover := []\<rparr>)" using ok by (simp add: input_ok_def)
    then have "fuzzer_ok env nm f \<Longrightarrow> fuzzer_ok env nm (g f)" for nm f by (auto simp: fuzzer_ok_def g_def)
    then have "srv_inv env s'" using inv n s'(2-) by (auto simp: srv_inv_def wfm_sig_Merge)
    moreover have "level (rs_corpusSignal s') e = sup (level (rs_corpusSignal s) e) (level (sig_of inp) e)" for e
      by (simp add: s'(3) n(4) sig_Merge_level)
    moreover have "rf_newMaxSignal (g f) = rf_newMaxSignal f" for f by (simp add: g_def)
    ultimately show ?thesis using s' lev by auto
  qed
qed

lemma split_level:
  assumes "wfm s" "sig_Split n s = (rest, part)" "0 < n"
  shows "wfm rest \<and> wfm part \<and> level s e = sup (level rest e) (level part e)"
proof -
  have "go_get s e = (case go_get part e of Some p \<Rightarrow> Some p | None \<Rightarrow> go_get rest e)" "go_get part e = None \<or> go_get rest e = None"
    using sig_Split_partitions [OF assms(1,3,2)] by metis+
  then have "level s e = sup (level rest e) (level part e)" unfolding level_def by (cases "go_get part e"; cases "go_get rest e") simp_all
  moreover have "wfm (fold (\<lambda>(e, p). go_del e) xs s)" "wfm (fold (\<lambda>(e, p). go_set e p) xs (Some []))" for xs :: "(elemType \<times> prioType) list"
    using assms(1) by (auto intro!: fold_keep [where P = wfm])
  ultimately show ?thesis using assms(2,3) assms(1) by (auto simp: sig_Split_def split_loop_take Let_def split: if_splits)
qed

lemma spread_level:
  fixes a :: "'a::lattice"
  assumes "a \<le> a'" "sup a' (sup a k) = sup a (sup r (sup a k))"
  shows "sup a' k = sup (sup a k) r"
  using assms(2) sup_absorb1 [OF assms(1)] by (simp add: sup.assoc [symmetric]) (simp add: sup.assoc sup.commute sup.left_commute)

lemma spread_signal_conv:
  assumes "wfm R"
  shows "\<exists>g. rs_fuzzers (spread_signal name (sig_Diff (rs_maxSignal s) R) s) = each_rpc_fuzzer g (rs_fuzzers s)
    \<and> (\<forall>f. rf_name f = name \<longrightarrow> g f = f)
    \<and> (\<forall>f. rf_name (g f) = rf_name f \<and> rf_inputs (g f) = rf_inputs f \<and> (wfm (rf_newMaxSignal f) \<longrightarrow> wfm (rf_newMaxSignal (g f))))
    \<and> (\<forall>f e. rf_name f \<noteq> name \<longrightarrow> sup (level (rf_newMaxSignal (g f)) e) (level (rs_maxSignal s) e) = sup (level (rf_newMaxSignal f) e) (sup (level R e) (level (rs_maxSignal s) e)))
    \<and> (\<forall>f e. rf_name f \<noteq> name \<longrightarrow> level (rf_newMaxSignal f) e \<le> level (rf_newMaxSignal (g f)) e
         \<and> level (rf_newMaxSignal (g f)) e \<le> sup (level (rf_newMaxSignal f) e) (level R e))
    \<and> (\<forall>e. level (rs_maxSignal (spread_signal name (sig_Diff (rs_maxSignal s) R) s)) e = sup (level (rs_maxSignal s) e) (level R e))
    \<and> (wfm (rs_maxSignal s) \<longrightarrow> wfm (rs_maxSignal (spread_signal name (sig_Diff (rs_maxSignal s) R) s)))
    \<and> rs_mgr (spread_signal name (sig_Diff (rs_maxSignal s) R) s) = rs_mgr s
    \<and> rs_corpusSignal (spread_signal name (sig_Diff (rs_maxSignal s) R) s) = rs_corpusSignal s
    \<and> rs_checkResult (spread_signal name (sig_Diff (rs_maxSignal s) R) s) = rs_checkResult s"
proof (cases "sig_Empty (sig_Diff (rs_maxSignal s) R)")
  case True
  have below: "level R e \<le> level (rs_maxSignal s) e" for e using True sig_Diff_level [OF assms, of "rs_maxSignal s" e] by (auto simp: sig_Empty_level split: if_splits)
  show ?thesis using True below
    by (intro exI [of _ "\<lambda>f. f"]) (simp add: spread_signal_def sup_absorb1 sup_absorb2)
next
  case False
  define D where "D = sig_Diff (rs_maxSignal s) R"
  have D: "wfm D" "level D e = (if level R e \<le> level (rs_maxSignal s) e then None else level R e)" for e
    by (simp_all add: D_def sig_Diff_level [OF assms])
  define g :: "rpc_Fuzzer \<Rightarrow> rpc_Fuzzer" where "g = (\<lambda>f. if rf_name f = name then f else f\<lparr>rf_newMaxSignal := sig_Merge (rf_newMaxSignal f) D\<rparr>)"
  have "sup (sup a (level D e)) (level (rs_maxSignal s) e) = sup a (sup (level R e) (level (rs_maxSignal s) e))" for a e
    by (cases "level R e \<le> level (rs_maxSignal s) e") (simp_all add: D(2) sup_absorb2 sup.assoc)
  moreover have "level D e \<le> level R e" for e by (simp add: D(2))
  moreover have "sup (level (rs_maxSignal s) e) (level D e) = sup (level (rs_maxSignal s) e) (level R e)" for e
    by (simp add: D(2) sup_absorb1)
  ultimately show ?thesis using False unfolding D_def [symmetric]
    by (intro exI [of _ g]) (auto simp: spread_signal_def g_def sig_Merge_level D(1) wfm_sig_Merge intro: le_supI2 sup_mono)
qed

text \<open>The values a poll goes through.\<close>

lemma rpc_Poll_parts:
  assumes "rpc_Poll env name needCandidates ser stats s0 = Inr (r, s)"
  shows "\<exists>f R rest part cands m inputs left s1. go_get (rs_fuzzers s0) name = Some f \<and> sig_Deserialize ser = Inr R
    \<and> s1 = spread_signal name (sig_Diff (rs_maxSignal s0) R) (s0\<lparr>rs_stats := mergeNamed stats (rs_stats s0)\<rparr>)
    \<and> sig_Split 500 (rf_newMaxSignal f) = (rest, part)
    \<and> (if needCandidates then candidateBatch env (rpc_batchSize env) (rs_mgr s1) else ([], rs_mgr s1)) = (cands, m)
    \<and> (if cands = [] then pop_last (rpc_batchSize env) (rf_inputs f) else ([], rf_inputs f)) = (inputs, left)
    \<and> r = \<lparr>po_Candidates = cands, po_NewInputs = inputs, po_MaxSignal = sig_Serialize part\<rparr>
    \<and> s = s1\<lparr>rs_mgr := m, rs_fuzzers := go_set name (f\<lparr>rf_inputs := left, rf_newMaxSignal := rest\<rparr>) (rs_fuzzers s1)\<rparr>"
proof -
  obtain f R where f: "go_get (rs_fuzzers s0) name = Some f" and R: "sig_Deserialize ser = Inr R"
    using assms by (auto simp: rpc_Poll_def Let_def rbind_Inr_conv split: option.splits)
  define s1 where "s1 = spread_signal name (sig_Diff (rs_maxSignal s0) R) (s0\<lparr>rs_stats := mergeNamed stats (rs_stats s0)\<rparr>)"
  obtain rest part where sp: "sig_Split 500 (rf_newMaxSignal f) = (rest, part)" by (metis surj_pair)
  obtain cands m where cm: "(if needCandidates then candidateBatch env (rpc_batchSize env) (rs_mgr s1) else ([], rs_mgr s1)) = (cands, m)"
    by (metis surj_pair)
  obtain inputs left where il: "(if cands = [] then pop_last (rpc_batchSize env) (rf_inputs f) else ([], rf_inputs f)) = (inputs, left)"
    by (metis surj_pair)
  have "r = \<lparr>po_Candidates = cands, po_NewInputs = inputs, po_MaxSignal = sig_Serialize part\<rparr>
    \<and> s = s1\<lparr>rs_mgr := m, rs_fuzzers := go_set name (f\<lparr>rf_inputs := left, rf_newMaxSignal := rest\<rparr>) (rs_fuzzers s1)\<rparr>"
    using assms f R sp cm il by (simp add: rpc_Poll_def Let_def s1_def [symmetric] cong: if_cong split del: if_split)
  then show ?thesis using f R s1_def sp cm il by metis
qed

lemma Poll_inv:
  assumes inv: "sys_inv env y" and p: "rpc_Poll env name needCandidates ser stats (ms_srv y) = Inr (r, s)"
  shows "sys_inv env (y\<lparr>ms_srv := s,
      ms_known := (ms_known y)(name := \<lambda>e. sup (ms_known y name e) (sup (serial_level ser e) (serial_level (po_MaxSignal r) e)))\<rparr>)
    \<and> (\<forall>c \<in> set (po_Candidates r). parses env (rc_Prog c)) \<and> (\<forall>inp \<in> set (po_NewInputs r). input_ok env inp)"
proof -
  let ?s0 = "(ms_srv y)\<lparr>rs_stats := mergeNamed stats (rs_stats (ms_srv y))\<rparr>"
  obtain f R rest part cands m inputs left s1 where f: "go_get (rs_fuzzers (ms_srv y)) name = Some f" and R: "sig_Deserialize ser = Inr R"
    and s1_def: "s1 = spread_signal name (sig_Diff (rs_maxSignal (ms_srv y)) R) ?s0" and sp: "sig_Split 500 (rf_newMaxSignal f) = (rest, part)"
    and cm: "(if needCandidates then candidateBatch env (rpc_batchSize env) (rs_mgr s1) else ([], rs_mgr s1)) = (cands, m)"
    and il: "(if cands = [] then pop_last (rpc_batchSize env) (rf_inputs f) else ([], rf_inputs f)) = (inputs, left)"
    and r: "r = \<lparr>po_Candidates = cands, po_NewInputs = inputs, po_MaxSignal = sig_Serialize part\<rparr>"
    and s: "s = s1\<lparr>rs_mgr := m, rs_fuzzers := go_set name (f\<lparr>rf_inputs := left, rf_newMaxSignal := rest\<rparr>) (rs_fuzzers s1)\<rparr>"
    using rpc_Poll_parts [OF p] by (elim exE conjE) (rule that; assumption)
  have srv: "srv_inv env (ms_srv y)" "wfm R" "fuzzer_ok env name f" using inv R f by (auto simp: sys_inv_def srv_inv_def intro: wfm_Deserialize)
  obtain g where g: "rs_fuzzers s1 = each_rpc_fuzzer g (rs_fuzzers (ms_srv y))"
    "\<forall>f. rf_name (g f) = rf_name f \<and> rf_inputs (g f) = rf_inputs f \<and> (wfm (rf_newMaxSignal f) \<longrightarrow> wfm (rf_newMaxSignal (g f)))"
    "\<forall>f e. rf_name f \<noteq> name \<longrightarrow> sup (level (rf_newMaxSignal (g f)) e) (level (rs_maxSignal (ms_srv y)) e)
       = sup (level (rf_newMaxSignal f) e) (sup (level R e) (level (rs_maxSignal (ms_srv y)) e))"
    "\<forall>f e. rf_name f \<noteq> name \<longrightarrow> level (rf_newMaxSignal f) e \<le> level (rf_newMaxSignal (g f)) e
       \<and> level (rf_newMaxSignal (g f)) e \<le> sup (level (rf_newMaxSignal f) e) (level R e)"
    "\<forall>e. level (rs_maxSignal s1) e = sup (level (rs_maxSignal (ms_srv y)) e) (level R e)" "wfm (rs_maxSignal s1)"
    "rs_mgr s1 = rs_mgr (ms_srv y)" "rs_corpusSignal s1 = rs_corpusSignal (ms_srv y)" "rs_checkResult s1 = rs_checkResult (ms_srv y)"
    using spread_signal_conv [OF srv(2), of name ?s0] srv(1) unfolding s1_def by (auto simp: srv_inv_def)
  have m: "mgr_inv env m" "m_corpus m = m_corpus (rs_mgr (ms_srv y))" "m_checkResult m = m_checkResult (rs_mgr (ms_srv y))"
    "\<forall>c \<in> set cands. parses env (rc_Prog c)"
    using cm candidateBatch_law [of env "rs_mgr s1" "rpc_batchSize env" cands m] srv(1) g(7) by (auto simp: srv_inv_def split: if_splits)
  have "set inputs \<subseteq> set (rf_inputs f)" "set left \<subseteq> set (rf_inputs f)"
    using il by (auto simp: pop_last_conv dest: in_set_dropD in_set_takeD split: if_splits)
  then have i: "\<forall>inp \<in> set inputs. input_ok env inp" "\<forall>inp \<in> set left. input_ok env inp" using srv(3) by (auto simp: fuzzer_ok_def)
  have spl: "wfm rest" "wfm part" "level (rf_newMaxSignal f) e = sup (level rest e) (level part e)" for e
    using split_level [OF _ sp, of e] srv(3) by (auto simp: fuzzer_ok_def)
  have sent: "serial_level (sig_Serialize part) = level part"
    using sig_Deserialize_Serialize [OF spl(2)] by (auto simp: serial_level_def level_def fun_eq_iff)
  have "fuzzer_ok env nm h \<Longrightarrow> fuzzer_ok env nm (g h)" for nm h using g(2) by (auto simp: fuzzer_ok_def)
  then have "srv_inv env s" using srv g m i spl unfolding s by (auto simp: srv_inv_def fuzzer_ok_def)
  moreover have "signal_spread (y\<lparr>ms_srv := s,
      ms_known := (ms_known y)(name := \<lambda>e. sup (ms_known y name e) (sup (serial_level ser e) (serial_level (po_MaxSignal r) e)))\<rparr>)"
    unfolding signal_spread_def
  proof (intro allI impI)
    fix nm h e
    let ?y = "y\<lparr>ms_srv := s, ms_known := (ms_known y)(name := \<lambda>e. sup (ms_known y name e) (sup (serial_level ser e) (serial_level (po_MaxSignal r) e)))\<rparr>"
    assume h: "go_get (rs_fuzzers (ms_srv ?y)) nm = Some h"
    have old: "level (rs_maxSignal (ms_srv y)) e = sup (level (rf_newMaxSignal h') e) (ms_known y nm e)"
      if "go_get (rs_fuzzers (ms_srv y)) nm = Some h'" for h' using inv that by (simp add: sys_inv_def signal_spread_def)
    show "level (rs_maxSignal (ms_srv ?y)) e = sup (level (rf_newMaxSignal h) e) (ms_known ?y nm e)"
    proof (cases "nm = name")
      case True
      then have "h = f\<lparr>rf_inputs := left, rf_newMaxSignal := rest\<rparr>" using h by (simp add: s)
      then show ?thesis using True old [of f] f g(5) R spl(3) sent
        by (simp add: s r serial_level_def sup.assoc sup.left_commute sup.commute)
    next
      case False
      then obtain h' where h': "go_get (rs_fuzzers (ms_srv y)) nm = Some h'" "h = g h'" using h by (auto simp: s g(1))
      then have n: "rf_name h' \<noteq> name" using srv(1) False by (auto simp: srv_inv_def fuzzer_ok_def)
      have "sup (level (rf_newMaxSignal h) e) (ms_known y nm e) = sup (level (rs_maxSignal (ms_srv y)) e) (level R e)"
        unfolding old [OF h'(1)] h'(2)
        by (rule spread_level) (use g(3,4) n old [OF h'(1)] in \<open>metis\<close>)+
      then show ?thesis using False g(5) by (simp add: s)
    qed
  qed
  ultimately show ?thesis using inv m(4) i(1) by (simp add: sys_inv_def r)
qed

lemma mgr_step_inv:
  assumes "mgr_step env y y'" "sorts env" "sys_inv env y"
  shows "sys_inv env y'"
  using assms(1)
proof (cases rule: mgr_step.cases)
  case (connect_begin r s name)
  have srv: "srv_inv env (ms_srv y)" using assms(3) by (simp add: sys_inv_def)
  obtain m where m: "minimizeCorpus env (rs_mgr (ms_srv y)) = Inr m" and r: "fst r = map snd (go_range (m_corpus m))"
    and s: "s = (ms_srv y)\<lparr>rs_mgr := m, rs_stats := (rs_stats (ms_srv y))\<lparr>st_vmRestarts := st_vmRestarts (rs_stats (ms_srv y)) + 1\<rparr>\<rparr>"
    using connect_begin(2) by (auto simp: Connect_begin_def fuzzerConnect_def rmap_Inr_conv)
  note keep = minimize_step [OF assms(2) srv m]
  then have "corpus_ok env (m_corpus m) (m_corpusDB m)" by (simp add: mgr_inv_def)
  then have "\<forall>inp \<in> set (fst r). input_ok env inp" unfolding r by (blast intro: corpus_ok_range)
  then show ?thesis using sys_inv_mgr [OF assms(3), of m] keep unfolding connect_begin(1) s
    by (simp add: sys_inv_def srv_inv_def signal_spread_def)
next
  case (connect_end name r reply s)
  then show ?thesis using Connect_end_inv [OF assms(3)] by simp
next
  case (check rnd a s)
  then show ?thesis using rpc_Check_inv [OF assms(3)] by simp
next
  case (new_input name inp s)
  have srv: "srv_inv env (ms_srv y)" using assms(3) by (simp add: sys_inv_def)
  have "length (Elems (ri_Signal inp)) = length (Prios (ri_Signal inp))"
    using new_input(2) by (auto simp: NewInput_def sig_Deserialize_def rbind_Inr_conv split: if_splits)
  from NewInput_law [OF srv this, of name] new_input(2) obtain g where "srv_inv env s" "rs_maxSignal s = rs_maxSignal (ms_srv y)"
    "rs_fuzzers s = each_rpc_fuzzer g (rs_fuzzers (ms_srv y))" "\<forall>f. rf_newMaxSignal (g f) = rf_newMaxSignal f" by auto
  then show ?thesis using assms(3) unfolding new_input(1) by (auto simp: sys_inv_def signal_spread_def)
next
  case (poll name needCandidates ser stats r s)
  then show ?thesis using Poll_inv [OF assms(3)] by simp
next
  case (minimize m)
  have "srv_inv env (ms_srv y)" using assms(3) by (simp add: sys_inv_def)
  then show ?thesis using sys_inv_mgr [OF assms(3), of m] minimize_step [OF assms(2), of "ms_srv y" m] minimize by simp
next
  case (hub_corpus r m)
  then obtain m1 where "minimizeCorpus env (rs_mgr (ms_srv y)) = Inr m1" "m = m1\<lparr>m_newRepros := []\<rparr>"
    by (auto simp: getMinimizedCorpus_def rmap_Inr_conv)
  then show ?thesis using sys_inv_mgr [OF assms(3), of m] minimize_step [OF assms(2), of "ms_srv y" m1] assms(3) hub_corpus(1)
    by (simp add: sys_inv_def mgr_inv_def phase_ok_def)
next
  case (hub_candidates progs)
  have "mgr_inv env (addNewCandidates progs (rs_mgr (ms_srv y)))"
    using assms(3) hub_candidates(2) by (auto simp: sys_inv_def srv_inv_def mgr_inv_def phase_ok_def addNewCandidates_def phases)
  then show ?thesis using sys_inv_mgr [OF assms(3)] assms(3) unfolding hub_candidates(1)
    by (simp add: addNewCandidates_def sys_inv_def srv_inv_def)
next
  case (crash_saved frames repros)
  then show ?thesis using sys_inv_mgr [OF assms(3), of "(rs_mgr (ms_srv y))\<lparr>m_newRepros := repros, m_memoryLeakFrames := frames\<rparr>"] assms(3)
    by (simp add: sys_inv_def srv_inv_def mgr_inv_def phase_ok_def)
qed

lemma mgr_start_inv: "mgr_start env y \<Longrightarrow> sys_inv env y"
proof -
  assume "mgr_start env y"
  then obtain fl ios m st known where run: "RunManager env fl ios = Inr m" and y: "y = \<lparr>ms_srv = startRPCServer m st, ms_pending = [], ms_known = known\<rparr>"
    unfolding mgr_start_def by blast
  obtain i ios1 where i: "next_io ios = (i, ios1)" by (metis surj_pair)
  then obtain db where m: "db_Open (me_flate env) i fl = Inr (Some db)" "m_corpusDB m = db" "m_corpus m = Some []" "m_disabledHashes m = Some []"
    "m_candidates m = []" "m_phase m = phaseInit" "m_checkResult m = None" "m_hubLoops m = 0"
    using run by (auto simp: RunManager_def rbind_Inr_conv split: option.splits)
  then have "db_good db" using db_Open_returns [of "me_flate env" i fl] by auto
  then have "mgr_inv env m" using m by (simp add: mgr_inv_def corpus_ok_def phase_ok_def phases)
  then show "sys_inv env y" using m unfolding y by (simp add: sys_inv_def srv_inv_def signal_spread_def startRPCServer_def corpus_reaches_def)
qed

interpretation manager: step_system "\<lambda>y. sorts env \<and> mgr_start env y" "mgr_step env" "\<lambda>y. sorts env \<and> sys_inv env y" for env
  by unfold_locales (auto intro: mgr_start_inv mgr_step_inv)

text \<open>
  C12: in every state the manager reaches, whatever the fuzzers, the hub and the failures of file
  operations do, the corpus reaches exactly the priorities of the corpus signal, although it is
  minimized again and again; each program of the corpus is stored under its hash and saved in the
  database; all candidates and all inputs that wait for a fuzzer parse; and the loop that talks
  to the hub is started at most once.
\<close>

theorem manager_corpus_exact:
  assumes "reaches (\<lambda>y. sorts env \<and> mgr_start env y) (mgr_step env) y"
  shows "corpus_reaches (m_corpus (rs_mgr (ms_srv y))) (rs_corpusSignal (ms_srv y))
    \<and> (\<forall>key inp. go_get (m_corpus (rs_mgr (ms_srv y))) key = Some inp \<longrightarrow> key = me_hash env (ri_Prog inp)
         \<and> (\<exists>rec. db_view (m_corpusDB (rs_mgr (ms_srv y))) key = Some rec \<and> r_Val rec = ri_Prog inp))
    \<and> (\<forall>c \<in> set (m_candidates (rs_mgr (ms_srv y))). parses env (rc_Prog c))
    \<and> (\<forall>name f. go_get (rs_fuzzers (ms_srv y)) name = Some f \<longrightarrow> (\<forall>inp \<in> set (rf_inputs f). input_ok env inp))
    \<and> m_hubLoops (rs_mgr (ms_srv y)) \<le> 1"
proof -
  have "srv_inv env (ms_srv y)" using manager.reaches_inv [OF assms] by (simp add: sys_inv_def)
  then show ?thesis unfolding srv_inv_def mgr_inv_def corpus_ok_def phase_ok_def fuzzer_ok_def by (simp del: not_None_eq)
qed

text \<open>
  C13: no signal is lost between the fuzzers: in every state the manager reaches, for every
  connected fuzzer, the maximal signal is exactly what the fuzzer has reported or been sent since
  it connected together with what waits to be sent to it.
\<close>

theorem manager_spreads_signal:
  assumes "reaches (\<lambda>y. sorts env \<and> mgr_start env y) (mgr_step env) y" "go_get (rs_fuzzers (ms_srv y)) name = Some f"
  shows "level (rs_maxSignal (ms_srv y)) e = sup (level (rf_newMaxSignal f) e) (ms_known y name e)"
  using manager.reaches_inv [OF assms(1)] assms(2) by (simp add: sys_inv_def signal_spread_def)

lemma poll_answered:
  "go_has (rs_fuzzers s) name \<Longrightarrow> length (Elems ser) = length (Prios ser) \<Longrightarrow> \<exists>r s'. rpc_Poll env name needCandidates ser stats s = Inr (r, s')"
  by (auto simp: rpc_Poll_def Let_def go_key_iff sig_Deserialize_def split: prod.splits)

text \<open>
  The machine check a fuzzer reports: when the configuration selects system calls and some of them
  are disabled, the manager looks up the names of the disabled and of the selected ones.
\<close>

definition named_ids :: "mgr_env \<Rightarrow> CheckArgs \<Rightarrow> int list" where
  "named_ids env a =
    (case go_get (ca_DisabledCalls a) (me_Sandbox env) of
       Some (d # ds) \<Rightarrow> if me_cfgEnabled env then map sy_ID (d # ds) @ me_enabledSyscalls env else []
     | _ \<Rightarrow> [])"

lemma lookups_work:
  "(\<exists>u. rfold (\<lambda>id _. rmap (\<lambda>_. ()) (go_nth xs id)) ids () = Inr u) \<longleftrightarrow> (\<forall>id \<in> set ids. 0 \<le> id \<and> id < int (length xs))"
  by (induction ids) (auto simp: go_nth_def res_conv)

lemma Check_returns:
  assumes "sys_inv env y" "rs_checkResult (ms_srv y) = None"
  shows "(\<exists>s. rpc_Check env rnd a (ms_srv y) = Inr s)
    \<longleftrightarrow> ca_Error a = [] \<and> (\<forall>id \<in> set (named_ids env a). 0 \<le> id \<and> id < int (length (me_Syscalls env)))"
proof -
  let ?m = "rs_mgr (ms_srv y)"
  have ids: "(let disabled = (case go_get (ca_DisabledCalls a) (me_Sandbox env) of None \<Rightarrow> [] | Some l \<Rightarrow> l)
      in if me_cfgEnabled env \<and> disabled \<noteq> [] then map sy_ID disabled @ me_enabledSyscalls env else []) = named_ids env a"
    by (auto simp: named_ids_def split: option.splits list.splits)
  have ph: "m_phase ?m = phaseInit" "mgr_inv env ?m" using assms by (auto simp: sys_inv_def srv_inv_def mgr_inv_def phase_ok_def)
  obtain m where m: "loadCorpus env rnd (?m\<lparr>m_checkResult := Some a\<rparr>) = Inr m" using mgr_inv_load [OF ph(2,1)] by blast
  then have "(\<exists>s. rpc_Check env rnd a (ms_srv y) = Inr s)
      \<longleftrightarrow> ca_Error a = [] \<and> (\<exists>u. rfold (\<lambda>id _. rmap (\<lambda>_. ()) (go_nth (me_Syscalls env) id)) (named_ids env a) () = Inr u)"
    using assms(2) by (auto simp: rpc_Check_def machineChecked_def ids [unfolded Let_def] Let_def res_conv guard_fatal_def)
  then show ?thesis by (simp only: lookups_work)
qed

text \<open>
  C37: in every state the manager reaches it answers the calls of the fuzzers, with exactly these
  exceptions: a new input or a poll whose serialized signal is corrupted, its lists differing in
  length; a poll of a fuzzer that is not connected; and a machine check, when none has been
  accepted before, that reports an error, which ends the manager, or that has it look up a system
  call by a number out of range.
\<close>

theorem manager_answers:
  assumes "reaches (\<lambda>y. sorts env \<and> mgr_start env y) (mgr_step env) y"
  shows "(\<exists>r s. Connect_begin env (ms_srv y) = Inr (r, s))
    \<and> ((\<exists>s. rpc_Check env rnd a (ms_srv y) = Inr s)
        \<longleftrightarrow> rs_checkResult (ms_srv y) \<noteq> None
          \<or> ca_Error a = [] \<and> (\<forall>id \<in> set (named_ids env a). 0 \<le> id \<and> id < int (length (me_Syscalls env))))
    \<and> ((\<exists>s. NewInput env name inp (ms_srv y) = Inr s) \<longleftrightarrow> length (Elems (ri_Signal inp)) = length (Prios (ri_Signal inp)))
    \<and> ((\<exists>r s. rpc_Poll env name needCandidates ser stats (ms_srv y) = Inr (r, s))
        \<longleftrightarrow> go_has (rs_fuzzers (ms_srv y)) name \<and> length (Elems ser) = length (Prios ser))"
proof (intro conjI)
  have inv: "sorts env" "srv_inv env (ms_srv y)" "mgr_inv env (rs_mgr (ms_srv y))"
    using manager.reaches_inv [OF assms] by (simp_all add: sys_inv_def srv_inv_def)
  show "\<exists>r s. Connect_begin env (ms_srv y) = Inr (r, s)"
    using minimizeCorpus_law [OF inv(3,1)] by (auto simp: Connect_begin_def fuzzerConnect_def)
  show "(\<exists>s. rpc_Check env rnd a (ms_srv y) = Inr s) \<longleftrightarrow> rs_checkResult (ms_srv y) \<noteq> None
      \<or> ca_Error a = [] \<and> (\<forall>id \<in> set (named_ids env a). 0 \<le> id \<and> id < int (length (me_Syscalls env)))"
  proof (cases "rs_checkResult (ms_srv y)")
    case None
    then show ?thesis using Check_returns [of env y rnd a] manager.reaches_inv [OF assms] by simp
  next
    case (Some b)
    then show ?thesis by (simp add: rpc_Check_def)
  qed
  have "length (Elems (ri_Signal inp)) \<noteq> length (Prios (ri_Signal inp)) \<Longrightarrow> NewInput env name inp (ms_srv y) \<noteq> Inr s" for s
    by (simp add: NewInput_def sig_Deserialize_def)
  then show "(\<exists>s. NewInput env name inp (ms_srv y) = Inr s) \<longleftrightarrow> length (Elems (ri_Signal inp)) = length (Prios (ri_Signal inp))"
    using NewInput_law [OF inv(2), of inp name] by blast
  have "go_has (rs_fuzzers (ms_srv y)) name \<and> length (Elems ser) = length (Prios ser)"
    if "rpc_Poll env name needCandidates ser stats (ms_srv y) = Inr (r, s)" for r s
    using rpc_Poll_parts [OF that] by (auto simp: go_key_iff sig_Deserialize_def split: if_splits)
  then show "(\<exists>r s. rpc_Poll env name needCandidates ser stats (ms_srv y) = Inr (r, s))
      \<longleftrightarrow> go_has (rs_fuzzers (ms_srv y)) name \<and> length (Elems ser) = length (Prios ser)" using poll_answered by blast
qed

section \<open>Witnesses\<close>

definition ex_mgr_env :: mgr_env where
  "ex_mgr_env = \<lparr>me_flate = ex_hub_flate, me_hash = (\<lambda>p. p), me_Deserialize = (\<lambda>p. if p = [] then None else Some [0]), me_sort = (\<lambda>_ xs. xs),
     me_Syscalls = [''a''], me_Sandbox = ''none'', me_HubClient = ''c'', me_HubKey = ''k'', me_Name = ''c1'', me_cfgEnabled = False,
     me_enabledSyscalls = [0], me_Procs = 1\<rparr>"

definition ex_stats :: mgr_Stats where
  "ex_stats = \<lparr>st_crashes = 0, st_crashTypes = 0, st_crashSuppressed = 0, st_vmRestarts = 0, st_newInputs = 0, st_execTotal = 0, st_hubSendProgAdd = 0,
     st_hubSendProgDel = 0, st_hubSendRepro = 0, st_hubRecvProg = 0, st_hubRecvProgDrop = 0, st_hubRecvRepro = 0, st_hubRecvReproDrop = 0,
     st_corpusCover = 0, st_corpusSignal = 0, st_namedStats = None\<rparr>"

lemma ex_sorts: "sorts ex_mgr_env"
  by (simp add: sorts_def ex_mgr_env_def)

lemma ex_RunManager: "\<exists>m. RunManager ex_mgr_env [] [] = Inr m \<and> m_phase m = phaseInit \<and> m_corpus m = Some []"
  using db_Open_returns [of "me_flate ex_mgr_env" Written "[]"] by (auto simp: RunManager_def next_io_def)

text \<open>A run in which a fuzzer connects.\<close>

lemma ex_connected:
  "\<exists>y f. reaches (\<lambda>y. sorts ex_mgr_env \<and> mgr_start ex_mgr_env y) (mgr_step ex_mgr_env) y \<and> go_get (rs_fuzzers (ms_srv y)) ''vm-0'' = Some f"
proof -
  obtain m where m: "RunManager ex_mgr_env [] [] = Inr m" "m_phase m = phaseInit" "m_corpus m = Some []" using ex_RunManager by blast
  define y0 where "y0 = \<lparr>ms_srv = startRPCServer m ex_stats, ms_pending = [], ms_known = (\<lambda>_ _. None)\<rparr>"
  have "mgr_start ex_mgr_env y0" using m(1) unfolding mgr_start_def y0_def by blast
  then have r0: "reaches (\<lambda>y. sorts ex_mgr_env \<and> mgr_start ex_mgr_env y) (mgr_step ex_mgr_env) y0" using ex_sorts by (auto intro: at_start)
  obtain r s where cb: "Connect_begin ex_mgr_env (ms_srv y0) = Inr (r, s)"
    using m(2) by (auto simp: Connect_begin_def fuzzerConnect_def minimizeCorpus_def y0_def startRPCServer_def phases)
  let ?y1 = "y0\<lparr>ms_srv := s, ms_pending := (''vm-0'', r) # ms_pending y0\<rparr>"
  have "mgr_step ex_mgr_env y0 ?y1" using cb by (rule mgr_step.connect_begin)
  with r0 have r1: "reaches (\<lambda>y. sorts ex_mgr_env \<and> mgr_start ex_mgr_env y) (mgr_step ex_mgr_env) ?y1" by (rule after_step)
  obtain reply s2 where c: "Connect_end ex_mgr_env ''vm-0'' r s = (reply, s2)" by (metis surj_pair)
  then obtain f where f: "go_get (rs_fuzzers s2) ''vm-0'' = Some f" by (auto simp: Connect_end_def)
  have step: "mgr_step ex_mgr_env ?y1 (?y1\<lparr>ms_srv := s2, ms_pending := remove1 (''vm-0'', r) (ms_pending ?y1), ms_known := (ms_known ?y1)(''vm-0'' := \<lambda>_. None)\<rparr>)"
    by (rule connect_end [where reply = reply]) (simp_all add: c)
  have "reaches (\<lambda>y. sorts ex_mgr_env \<and> mgr_start ex_mgr_env y) (mgr_step ex_mgr_env) (?y1\<lparr>ms_srv := s2,
      ms_pending := remove1 (''vm-0'', r) (ms_pending ?y1), ms_known := (ms_known ?y1)(''vm-0'' := \<lambda>_. None)\<rparr>)"
    using r1 step by (rule after_step)
  then show ?thesis using f by (intro exI conjI) (assumption, simp)
qed

text \<open>A run in which a fuzzer connects and reports a new input.\<close>

definition ex_new_input :: RPCInput where
  "ex_new_input = \<lparr>ri_Call = ''a'', ri_Prog = ''p'', ri_Signal = \<lparr>Elems = [7], Prios = [1]\<rparr>, ri_Cover = []\<rparr>"

lemma ex_reported:
  "\<exists>y. reaches (\<lambda>y. sorts ex_mgr_env \<and> mgr_start ex_mgr_env y) (mgr_step ex_mgr_env) y \<and> level (rs_corpusSignal (ms_srv y)) 7 \<noteq> None"
proof -
  obtain y where y: "reaches (\<lambda>y. sorts ex_mgr_env \<and> mgr_start ex_mgr_env y) (mgr_step ex_mgr_env) y" using ex_connected by blast
  then have inv: "srv_inv ex_mgr_env (ms_srv y)" using manager.reaches_inv [OF y] by (simp add: sys_inv_def)
  have p: "parses ex_mgr_env (ri_Prog ex_new_input)" by (simp add: parses_def ex_mgr_env_def ex_new_input_def)
  have l: "length (Elems (ri_Signal ex_new_input)) = length (Prios (ri_Signal ex_new_input))" by (simp add: ex_new_input_def)
  obtain s where s: "NewInput ex_mgr_env ''vm-0'' ex_new_input (ms_srv y) = Inr s"
    "level (rs_corpusSignal s) 7 = sup (level (rs_corpusSignal (ms_srv y)) 7) (serial_level (ri_Signal ex_new_input) 7)"
    using NewInput_law [OF inv l, of "''vm-0''"] p by blast
  have "serial_level (ri_Signal ex_new_input) 7 = Some 1" by code_simp
  then have "level (rs_corpusSignal s) 7 \<noteq> None" using s(2) by (cases "level (rs_corpusSignal (ms_srv y)) 7") simp_all
  moreover have "reaches (\<lambda>y. sorts ex_mgr_env \<and> mgr_start ex_mgr_env y) (mgr_step ex_mgr_env) (y\<lparr>ms_srv := s\<rparr>)"
    using y s(1) by (blast intro: after_step mgr_step.new_input)
  ultimately show ?thesis by (intro exI conjI) (assumption, simp)
qed

theorem manager_corpus_exact_witness:
  "\<exists>(y :: mgr_sys) key inp rec. reaches (\<lambda>y. sorts ex_mgr_env \<and> mgr_start ex_mgr_env y) (mgr_step ex_mgr_env) y
     \<and> go_get (m_corpus (rs_mgr (ms_srv y))) key = Some inp \<and> key = me_hash ex_mgr_env (ri_Prog inp)
     \<and> db_view (m_corpusDB (rs_mgr (ms_srv y))) key = Some rec \<and> r_Val rec = ri_Prog inp"
proof -
  obtain y p where y: "reaches (\<lambda>y. sorts ex_mgr_env \<and> mgr_start ex_mgr_env y) (mgr_step ex_mgr_env) y" "level (rs_corpusSignal (ms_srv y)) 7 = Some p"
    using ex_reported by blast
  note e = manager_corpus_exact [OF y(1)]
  obtain key inp where k: "go_get (m_corpus (rs_mgr (ms_srv y))) key = Some inp" using e y(2) unfolding corpus_reaches_def by blast
  then show ?thesis using e y(1) by blast
qed

theorem manager_spreads_signal_witness:
  "\<exists>(y :: mgr_sys) f. go_get (rs_fuzzers (ms_srv y)) ''vm-0'' = Some f
     \<and> level (rs_maxSignal (ms_srv y)) 7 = sup (level (rf_newMaxSignal f) 7) (ms_known y ''vm-0'' 7)"
  using ex_connected manager_spreads_signal by blast

theorem manager_answers_witness:
  "\<exists>(y :: mgr_sys) r s s'. rpc_Poll ex_mgr_env ''vm-0'' True \<lparr>Elems = [7], Prios = [1]\<rparr> None (ms_srv y) = Inr (r, s)
     \<and> rpc_Check ex_mgr_env (\<lambda>i. i) \<lparr>ca_Error = [], ca_EnabledCalls = None, ca_DisabledCalls = None\<rparr> (ms_srv y) = Inr s'"
proof -
  obtain y f where y: "reaches (\<lambda>y. sorts ex_mgr_env \<and> mgr_start ex_mgr_env y) (mgr_step ex_mgr_env) y" "go_get (rs_fuzzers (ms_srv y)) ''vm-0'' = Some f"
    using ex_connected by blast
  note m = manager_answers [OF y(1), where name = "''vm-0''" and needCandidates = True and ser = "\<lparr>Elems = [7], Prios = [1]\<rparr>" and stats = None
      and rnd = "\<lambda>i. i" and a = "\<lparr>ca_Error = [], ca_EnabledCalls = None, ca_DisabledCalls = None\<rparr>"]
  have "\<exists>r s. rpc_Poll ex_mgr_env ''vm-0'' True \<lparr>Elems = [7], Prios = [1]\<rparr> None (ms_srv y) = Inr (r, s)"
    using m y(2) by (simp add: go_key_iff)
  moreover have "\<exists>s'. rpc_Check ex_mgr_env (\<lambda>i. i) \<lparr>ca_Error = [], ca_EnabledCalls = None, ca_DisabledCalls = None\<rparr> (ms_srv y) = Inr s'"
    using m by (simp add: named_ids_def)
  ultimately show ?thesis by blast
qed

definition ex_loading :: Manager where
  "ex_loading = \<lparr>m_corpusDB = ex_mdb [(''p'', \<lparr>r_Val = ''p'', r_Seq = 0\<rparr>)], m_firstConnect = False,
     m_checkResult = Some \<lparr>ca_Error = [], ca_EnabledCalls = Some [(''none'', [0])], ca_DisabledCalls = None\<rparr>, m_fresh = True, m_phase = phaseInit,
     m_candidates = [], m_disabledHashes = Some [], m_corpus = Some [], m_newRepros = [], m_lastMinCorpus = 0, m_memoryLeakFrames = Some [],
     m_hubLoops = 0, m_io = []\<rparr>"

lemma loadCorpus_sorts_out_witness:
  "\<exists>m'. loadCorpus ex_mgr_env (\<lambda>i. i) ex_loading = Inr m' \<and> 2 \<le> count (image_mset rc_Prog (mset (m_candidates m'))) ''p''"
proof -
  have "db_good (m_corpusDB ex_loading)" by (simp add: ex_loading_def ex_mdb_def db_good_def wfm_def go_keys_def seqDeleted_def)
  moreover have "m_disabledHashes ex_loading \<noteq> None" "m_phase ex_loading = phaseInit"
    "m_checkResult ex_loading = Some \<lparr>ca_Error = [], ca_EnabledCalls = Some [(''none'', [0])], ca_DisabledCalls = None\<rparr>"
    "[0] = (case go_get (ca_EnabledCalls \<lparr>ca_Error = [], ca_EnabledCalls = Some [(''none'', [0])], ca_DisabledCalls = None\<rparr>) (me_Sandbox ex_mgr_env)
       of None \<Rightarrow> [] | Some l \<Rightarrow> l)"
    "db_view (m_corpusDB ex_loading) ''p'' = Some \<lparr>r_Val = ''p'', r_Seq = 0\<rparr>"
    by (simp_all add: ex_loading_def ex_mgr_env_def ex_mdb_def go_get_Some)
  moreover have "runs ex_mgr_env [0] ''p''" by (simp add: runs_def ex_mgr_env_def)
  ultimately show ?thesis using loadCorpus_sorts_out [of ex_loading _ "[0]" ex_mgr_env "''p''" "\<lparr>r_Val = ''p'', r_Seq = 0\<rparr>" "\<lambda>i. i"] by fastforce
qed

end
