(* ===== verification/Hub_Connector.thy ===== *)
theory Hub_Connector
  imports Manager
begin

text \<open>
  The part of the manager that talks to the hub, \<open>syz-manager/hub.go\<close>: it reports the changes of
  the corpus since the last exchange and takes the programs of other managers as candidates.

  The hub at the other end is the one of \<open>Hub_State\<close>; the connection to it is taken to work, so a
  call fails when the hub answers with an error. The loop of \<open>sync\<close> is a partial function, so
  that not returning is the value \<open>None\<close>. A signature \<open>hash.Sig\<close> is identified with its
  hexadecimal string. The channel of reproducers from the hub is the list \<open>hy_queue\<close> of all that is
  sent on it. In the code it holds ten and the sender waits for the manager's loop to take one;
  the exchange that is shown to be complete below asks for no reproducers and does not touch the
  channel.
\<close>

record HubConnector =
  hc_enabledCalls :: "int list"
  hc_fresh :: bool
  hc_hubCorpus :: "(string, bool) gomap"
  hc_newRepros :: "bytes list"
  hc_hub :: bool

record hub_sys =
  hy_hc :: HubConnector
  hy_mgr :: Manager
  hy_stats :: mgr_Stats
  hy_queue :: "bytes list"
  hy_hub :: Hub

definition hubSyncLoop :: "mgr_env \<Rightarrow> Manager \<Rightarrow> HubConnector res" where
  "hubSyncLoop env m =
    (case m_checkResult m of
       None \<Rightarrow> Inl (Panic ''nil pointer dereference'')
     | Some a \<Rightarrow> Inr \<lparr>hc_enabledCalls = (case go_get (ca_EnabledCalls a) (me_Sandbox env) of None \<Rightarrow> [] | Some l \<Rightarrow> l),
         hc_fresh = m_fresh m, hc_hubCorpus = None, hc_newRepros = [], hc_hub = False\<rparr>)"

definition call_names :: "mgr_env \<Rightarrow> int list \<Rightarrow> string list res" where
  "call_names env ids = rfold (\<lambda>id names. rmap (\<lambda>n. names @ [n]) (go_nth (me_Syscalls env) id)) ids []"

text \<open>\<open>connect\<close>; the result says whether it succeeded.\<close>

definition hc_connect :: "mgr_env \<Rightarrow> hub_env \<Rightarrow> mgr_files \<Rightarrow> bytes list \<Rightarrow> hub_sys \<Rightarrow> (bool \<times> hub_sys) res" where
  "hc_connect env henv fs corpus y =
    rbind (call_names env (hc_enabledCalls (hy_hc y))) (\<lambda>calls.
    rmap (\<lambda>(ok, hub).
      if ok then (True, y\<lparr>hy_hub := hub, hy_hc := (hy_hc y)\<lparr>hc_hubCorpus := fold (\<lambda>inp. go_set (me_hash env inp) True) corpus (Some []), hc_fresh := False\<rparr>\<rparr>)
      else (False, y\<lparr>hy_hub := hub\<rparr>))
      (rpc_Connect henv fs (me_HubClient env) (me_HubKey env) (me_Name env) (hc_fresh (hy_hc y)) calls corpus (hy_hub y)))"

definition processProgs :: "mgr_env \<Rightarrow> bytes list \<Rightarrow> Manager \<Rightarrow> nat \<times> Manager" where
  "processProgs env progs m =
    (length (filter (\<lambda>p. me_Deserialize env p = None) progs), addNewCandidates (filter (\<lambda>p. me_Deserialize env p \<noteq> None) progs) m)"

definition processRepros :: "mgr_env \<Rightarrow> bytes list \<Rightarrow> bytes list \<Rightarrow> nat \<times> bytes list" where
  "processRepros env repros queue =
    (length (filter (\<lambda>p. me_Deserialize env p = None) repros), queue @ filter (\<lambda>p. me_Deserialize env p \<noteq> None) repros)"

text \<open>What \<open>sync\<close> sends: the programs the hub does not know of yet, and the hashes of those that are gone.\<close>

definition note_added :: "mgr_env \<Rightarrow> bytes \<Rightarrow> bytes list \<times> (string, bool) gomap \<Rightarrow> (bytes list \<times> (string, bool) gomap) res" where
  "note_added env inp s =
    (if go_get (snd s) (me_hash env inp) = Some True then Inr s
     else rmap (\<lambda>hubCorpus. (fst s @ [inp], hubCorpus)) (go_put (me_hash env inp) True (snd s)))"

definition sync_changes :: "mgr_env \<Rightarrow> bytes list \<Rightarrow> (string, bool) gomap \<Rightarrow> (bytes list \<times> string list \<times> (string, bool) gomap) res" where
  "sync_changes env corpus hubCorpus =
    rmap (\<lambda>(added, hubCorpus1).
      let sigs = map (me_hash env) corpus in
      (added, filter (\<lambda>sig. sig \<notin> set sigs) (go_keys hubCorpus1), go_filter (\<lambda>sig. sig \<in> set sigs) hubCorpus1))
      (rfold (note_added env) corpus ([], hubCorpus))"

definition sync_reply :: "mgr_env \<Rightarrow> nat \<Rightarrow> nat \<Rightarrow> nat \<Rightarrow> HubSyncRes \<Rightarrow> hub_sys \<Rightarrow> hub_sys" where
  "sync_reply env add del repros r y =
    (let (progDropped, m) = processProgs env (sr_Progs r) (hy_mgr y);
         (reproDropped, queue) = processRepros env (sr_Repros r) (hy_queue y);
         st = hy_stats y
     in y\<lparr>hy_mgr := m, hy_queue := queue, hy_hc := (hy_hc y)\<lparr>hc_newRepros := []\<rparr>,
          hy_stats := st\<lparr>st_hubSendProgAdd := st_hubSendProgAdd st + of_nat add, st_hubSendProgDel := st_hubSendProgDel st + of_nat del,
            st_hubSendRepro := st_hubSendRepro st + of_nat repros,
            st_hubRecvProg := st_hubRecvProg st + (of_nat (length (sr_Progs r)) - of_nat progDropped),
            st_hubRecvProgDrop := st_hubRecvProgDrop st + of_nat progDropped,
            st_hubRecvRepro := st_hubRecvRepro st + (of_nat (length (sr_Repros r)) - of_nat reproDropped),
            st_hubRecvReproDrop := st_hubRecvReproDrop st + of_nat reproDropped\<rparr>\<rparr>)"

partial_function (option) sync_loop :: "mgr_env \<Rightarrow> hub_env \<Rightarrow> bytes list \<Rightarrow> string list \<Rightarrow> bytes list \<Rightarrow> bool \<Rightarrow> hub_sys \<Rightarrow> (bool \<times> hub_sys) res option" where
  "sync_loop env henv add del repros needRepros y =
    (case rpc_Sync henv (me_HubClient env) (me_HubKey env) (me_Name env) add del repros needRepros (hy_hub y) of
       Inl e \<Rightarrow> Some (Inl e)
     | Inr (None, hub) \<Rightarrow> Some (Inr (False, y\<lparr>hy_hub := hub\<rparr>))
     | Inr (Some r, hub) \<Rightarrow>
         let y1 = sync_reply env (length add) (length del) (length repros) r (y\<lparr>hy_hub := hub\<rparr>) in
         if length (sr_Progs r) + sr_More r = 0 then Some (Inr (True, y1)) else sync_loop env henv [] [] [] False y1)"

declare sync_loop.simps [code]

definition hc_sync :: "mgr_env \<Rightarrow> hub_env \<Rightarrow> bytes list \<Rightarrow> bool \<Rightarrow> hub_sys \<Rightarrow> (bool \<times> hub_sys) res option" where
  "hc_sync env henv corpus needRepros y =
    (case sync_changes env corpus (hc_hubCorpus (hy_hc y)) of
       Inl e \<Rightarrow> Some (Inl e)
     | Inr (added, del, hubCorpus) \<Rightarrow>
         sync_loop env henv added del (hc_newRepros (hy_hc y)) needRepros (y\<lparr>hy_hc := (hy_hc y)\<lparr>hc_hubCorpus := hubCorpus\<rparr>\<rparr>))"

text \<open>One round of \<open>loop\<close>.\<close>

definition hc_round :: "mgr_env \<Rightarrow> hub_env \<Rightarrow> mgr_files \<Rightarrow> bool \<Rightarrow> hub_sys \<Rightarrow> hub_sys res option" where
  "hc_round env henv fs needRepros y =
    (case getMinimizedCorpus env (hy_mgr y) of
       Inl e \<Rightarrow> Some (Inl e)
     | Inr ((corpus, repros), m) \<Rightarrow>
       let y1 = y\<lparr>hy_mgr := m, hy_hc := (hy_hc y)\<lparr>hc_newRepros := hc_newRepros (hy_hc y) @ repros\<rparr>\<rparr> in
       (case (if hc_hub (hy_hc y1) then Inr (True, y1) else hc_connect env henv fs corpus y1) of
          Inl e \<Rightarrow> Some (Inl e)
        | Inr (False, y2) \<Rightarrow> Some (Inr y2)
        | Inr (True, y2) \<Rightarrow>
          map_option (rmap (\<lambda>(ok, y3). y3\<lparr>hy_hc := (hy_hc y3)\<lparr>hc_hub := ok\<rparr>\<rparr>)) (hc_sync env henv corpus needRepros (y2\<lparr>hy_hc := (hy_hc y2)\<lparr>hc_hub := True\<rparr>\<rparr>))))"

section \<open>What an exchange sends\<close>



section \<open>A complete exchange\<close>













text \<open>\<open>connect\<close> that succeeds makes the connector believe what it sent.\<close>

lemma hc_connect_mirror:
  assumes "hc_connect env henv fs corpus y = Inr (True, y')"
  shows "hc_hubCorpus (hy_hc y') \<noteq> None \<and> (\<forall>k v. go_get (hc_hubCorpus (hy_hc y')) k = Some v \<longrightarrow> v)
    \<and> set (go_keys (hc_hubCorpus (hy_hc y'))) = me_hash env ` set corpus"
proof -
  have "fold (\<lambda>inp. go_set (h inp) True) xs m \<noteq> None \<and> (\<forall>k v. go_get (fold (\<lambda>inp. go_set (h inp) True) xs m) k = Some v \<longrightarrow> v)
    \<and> set (go_keys (fold (\<lambda>inp. go_set (h inp) True) xs m)) = set (go_keys m) \<union> h ` set xs"
    if "m \<noteq> None" "\<forall>k v. go_get m k = Some v \<longrightarrow> v" for m :: "(string, bool) gomap" and h :: "bytes \<Rightarrow> string" and xs
    using that
  proof (induction xs arbitrary: m)
    case (Cons x xs)
    have "\<forall>k v. go_get (go_set (h x) True m) k = Some v \<longrightarrow> v" using Cons.prems(2) by auto
    from Cons.IH [OF go_set_not_nil this] show ?case by auto
  qed simp
  from this [of "Some []" "me_hash env" corpus] show ?thesis
    using assms by (auto simp: hc_connect_def res_conv split: if_splits)
qed




end
