(* ===== verification/Crash_Loop.thy ===== *)
theory Crash_Loop
  imports Manager Step_System
begin

text \<open>
  The loop of the manager that runs the virtual machines (\<open>vmLoop\<close> of \<open>syz-manager/manager.go\<close>)
  and what becomes of crashes: saving them, deciding whether to reproduce them, and saving
  reproducers or failed attempts.

  The goroutines that run a machine or a reproduction are \<open>vl_running\<close> and \<open>vl_repros\<close>; the loop
  waits for one of them, for the hub, or for shutdown. What a machine or a reproduction reports,
  what the dashboard replies, the phase of the manager and the order in which pending crashes are
  visited are open. Files are a map from directory and name to content and time of
  modification; which writes succeed is an argument. Symbolizing a report, which changes its text
  only, and log messages are left out.
\<close>

section \<open>Crashes\<close>

record Crash =
  cr_vmIndex :: int
  cr_hub :: bool
  cr_Title :: string
  cr_Output :: bytes
  cr_Report :: bytes
  cr_Corrupted :: bool
  cr_Suppressed :: bool

text \<open>The result of \<open>repro.Run\<close>; \<open>rr_csource\<close> is what \<open>csource.Write\<close> and \<open>Format\<close> give for it.\<close>

record repro_Result =
  rr_Title :: string
  rr_Output :: bytes
  rr_Report :: bytes
  rr_Opts :: string
  rr_Prog :: bytes
  rr_CRepro :: bool
  rr_csource :: "bytes option"

record crash_env =
  ce_hash :: "string \<Rightarrow> string"
  ce_Tag :: string
  ce_Reproduce :: bool
  ce_dash :: bool
  ce_EmailAddrs :: "string list"

type_synonym file_system = "string \<times> string \<Rightarrow> (bytes \<times> nat) option"

record crash_state =
  cs_memoryLeakFrames :: "(string, bool) gomap"
  cs_crashTypes :: "(string, bool) gomap"
  cs_stats :: mgr_Stats
  cs_newRepros :: "bytes list"
  cs_emails :: "string list"
  cs_files :: file_system

text \<open>How the world answers: the time, which files can be written, and the replies of the dashboard
  (\<open>None\<close> is an error).\<close>

record crash_io =
  ci_now :: nat
  ci_write :: "string \<Rightarrow> bool"
  ci_ReportCrash :: "bool option"
  ci_NeedRepro :: "Crash \<Rightarrow> bool"
  ci_ReportFailedRepro :: bool

definition MemoryLeakPrefix :: string where "MemoryLeakPrefix = ''memory leak in ''"

definition maxReproAttempts :: nat where "maxReproAttempts = 3"

definition HasPrefix :: "string \<Rightarrow> string \<Rightarrow> bool" where
  "HasPrefix s p \<longleftrightarrow> take (length p) s = p"

definition WriteFile :: "crash_io \<Rightarrow> string \<Rightarrow> string \<Rightarrow> bytes \<Rightarrow> file_system \<Rightarrow> file_system" where
  "WriteFile io dir name data fs = (if ci_write io name then fs((dir, name) \<mapsto> (data, ci_now io)) else fs)"

definition numbered :: "string \<Rightarrow> nat \<Rightarrow> string" where
  "numbered name i = name @ FormatInt i"

definition emailCrash :: "crash_env \<Rightarrow> Crash \<Rightarrow> crash_state \<Rightarrow> crash_state" where
  "emailCrash env crash cs = (if ce_EmailAddrs env = [] then cs else cs\<lparr>cs_emails := cs_emails cs @ [cr_Title crash]\<rparr>)"

definition needLocalRepro :: "crash_env \<Rightarrow> Crash \<Rightarrow> file_system \<Rightarrow> bool" where
  "needLocalRepro env crash fs =
    (if \<not> ce_Reproduce env \<or> cr_Corrupted crash then False
     else let dir = ce_hash env (cr_Title crash) in
       if fs (dir, ''repro.prog'') \<noteq> None then False
       else list_ex (\<lambda>i. fs (dir, numbered ''repro'' i) = None) [0..<maxReproAttempts])"

text \<open>The search for the log to write: the first that is missing, or else the oldest.\<close>

fun log_slot :: "(nat \<Rightarrow> nat option) \<Rightarrow> nat list \<Rightarrow> nat \<Rightarrow> nat option \<Rightarrow> nat" where
  "log_slot modTime [] oldestI oldestTime = oldestI"
| "log_slot modTime (i # is) oldestI oldestTime =
    (case modTime i of
      None \<Rightarrow> i
    | Some t \<Rightarrow> (case oldestTime of
          None \<Rightarrow> log_slot modTime is i (Some t)
        | Some t0 \<Rightarrow> if t < t0 then log_slot modTime is i (Some t) else log_slot modTime is oldestI (Some t0)))"

definition log_time :: "file_system \<Rightarrow> string \<Rightarrow> nat \<Rightarrow> nat option" where
  "log_time fs dir i = map_option snd (fs (dir, numbered ''log'' i))"

definition save_locally :: "crash_env \<Rightarrow> crash_io \<Rightarrow> Crash \<Rightarrow> crash_state \<Rightarrow> bool \<times> crash_state" where
  "save_locally env io crash cs =
    (let dir = ce_hash env (cr_Title crash);
         fs1 = WriteFile io dir ''description'' (cr_Title crash @ ''\<newline>'') (cs_files cs);
         oldestI = log_slot (log_time fs1 dir) [0..<100] 0 None;
         cs1 = (if log_time fs1 dir 0 = None then emailCrash env crash cs else cs);
         fs2 = WriteFile io dir (numbered ''log'' oldestI) (cr_Output crash) fs1;
         fs3 = (if ce_Tag env \<noteq> [] then WriteFile io dir (numbered ''tag'' oldestI) (ce_Tag env) fs2 else fs2);
         fs4 = (if cr_Report crash \<noteq> [] then WriteFile io dir (numbered ''report'' oldestI) (cr_Report crash) fs3 else fs3)
     in (needLocalRepro env crash fs4, cs1\<lparr>cs_files := fs4\<rparr>))"

definition count_crash :: "Crash \<Rightarrow> crash_state \<Rightarrow> crash_state" where
  "count_crash crash cs =
    (let cs1 = cs\<lparr>cs_stats := (cs_stats cs)\<lparr>st_crashes := st_crashes (cs_stats cs) + 1\<rparr>\<rparr> in
     if go_get (cs_crashTypes cs1) (cr_Title crash) \<noteq> Some True
     then cs1\<lparr>cs_crashTypes := go_set (cr_Title crash) True (cs_crashTypes cs1),
              cs_stats := (cs_stats cs1)\<lparr>st_crashTypes := st_crashTypes (cs_stats cs1) + 1\<rparr>\<rparr>
     else cs1)"

definition saveCrash :: "crash_env \<Rightarrow> crash_io \<Rightarrow> Crash \<Rightarrow> crash_state \<Rightarrow> bool \<times> crash_state" where
  "saveCrash env io crash cs =
    (let isMemoryLeak = HasPrefix (cr_Title crash) MemoryLeakPrefix;
         cs1 = (if isMemoryLeak
                then cs\<lparr>cs_memoryLeakFrames := go_set (drop (length MemoryLeakPrefix) (cr_Title crash)) True (cs_memoryLeakFrames cs)\<rparr>
                else cs)
     in
     if cr_Suppressed crash
     then (False, cs1\<lparr>cs_stats := (cs_stats cs1)\<lparr>st_crashSuppressed := st_crashSuppressed (cs_stats cs1) + 1\<rparr>\<rparr>)
     else let cs2 = count_crash crash cs1 in
       if ce_dash env then
         (if isMemoryLeak then (True, cs2)
          else case ci_ReportCrash io of
            Some needRepro \<Rightarrow> (needRepro, cs2)
          | None \<Rightarrow> save_locally env io crash cs2)
       else save_locally env io crash cs2)"

definition needRepro :: "crash_env \<Rightarrow> crash_io \<Rightarrow> Crash \<Rightarrow> file_system \<Rightarrow> bool" where
  "needRepro env io crash fs =
    (if cr_hub crash then True
     else if \<not> ce_dash env then needLocalRepro env crash fs
     else if HasPrefix (cr_Title crash) MemoryLeakPrefix then True
     else ci_NeedRepro io crash)"

text \<open>The statistics of a reproduction are the text that \<open>saveReproStats\<close> prints for them.\<close>

fun save_attempt :: "crash_io \<Rightarrow> string \<Rightarrow> bytes \<Rightarrow> nat list \<Rightarrow> file_system \<Rightarrow> file_system" where
  "save_attempt io dir stats [] fs = fs"
| "save_attempt io dir stats (i # is) fs =
    (if fs (dir, numbered ''repro'' i) = None then WriteFile io dir (numbered ''repro'' i) stats fs
     else save_attempt io dir stats is fs)"

definition saveFailedRepro :: "crash_env \<Rightarrow> crash_io \<Rightarrow> string \<Rightarrow> bytes \<Rightarrow> crash_state \<Rightarrow> crash_state" where
  "saveFailedRepro env io title stats cs =
    (if HasPrefix title MemoryLeakPrefix then cs
     else if ce_dash env \<and> ci_ReportFailedRepro io then cs
     else cs\<lparr>cs_files := save_attempt io (ce_hash env title) stats [0..<maxReproAttempts] (cs_files cs)\<rparr>)"

definition prog_for_hub :: "crash_env \<Rightarrow> repro_Result \<Rightarrow> bytes" where
  "prog_for_hub env res = ''# '' @ rr_Opts res @ ''\<newline># '' @ rr_Title res @ ''\<newline># '' @ ce_Tag env @ ''\<newline>'' @ rr_Prog res"

definition write_when :: "bool \<Rightarrow> crash_io \<Rightarrow> string \<Rightarrow> string \<Rightarrow> bytes \<Rightarrow> file_system \<Rightarrow> file_system" where
  "write_when b io dir name data fs = (if b then WriteFile io dir name data fs else fs)"

definition saveRepro :: "crash_env \<Rightarrow> crash_io \<Rightarrow> repro_Result \<Rightarrow> bytes \<Rightarrow> bool \<Rightarrow> crash_state \<Rightarrow> crash_state" where
  "saveRepro env io res stats hub cs =
    (let cs1 = (if \<not> hub then cs\<lparr>cs_newRepros := cs_newRepros cs @ [prog_for_hub env res]\<rparr> else cs);
         cprogText = (if rr_CRepro res then (case rr_csource res of None \<Rightarrow> [] | Some c \<Rightarrow> c) else [])
     in
     if ce_dash env \<and> ci_ReportCrash io \<noteq> None then cs1
     else let dir = ce_hash env (rr_Title res) in
       cs1\<lparr>cs_files :=
         (WriteFile io dir ''repro.stats'' stats
         \<circ> write_when (cprogText \<noteq> []) io dir ''repro.cprog'' cprogText
         \<circ> write_when (rr_Report res \<noteq> []) io dir ''repro.report'' (rr_Report res)
         \<circ> write_when (rr_Output res \<noteq> []) io dir ''repro.log'' (rr_Output res)
         \<circ> write_when (ce_Tag env \<noteq> []) io dir ''repro.tag'' (ce_Tag env)
         \<circ> WriteFile io dir ''repro.prog'' (''# '' @ rr_Opts res @ ''\<newline>'' @ rr_Prog res)
         \<circ> WriteFile io dir ''description'' (rr_Title res @ ''\<newline>'')) (cs_files cs1)\<rparr>)"

section \<open>The loop\<close>

text \<open>
  \<open>vl_open\<close> says that the channel \<open>shutdown\<close> is not nil, that is, no shutdown was received.
  \<open>pendingRepro\<close> is keyed by pointers, each to a crash of its own, and is the list of them. The ghost
  field \<open>vl_failed\<close> counts, by title, reproductions of crashes of this manager that failed.
\<close>

record VmLoop =
  vl_instances :: "nat list"
  vl_pendingRepro :: "Crash list"
  vl_reproducing :: "(string, bool) gomap"
  vl_reproInstances :: int
  vl_reproQueue :: "Crash list"
  vl_stopPending :: bool
  vl_open :: bool
  vl_numReproducing :: uint32
  vl_running :: "nat list"
  vl_repros :: "(nat list \<times> Crash) list"
  vl_crashes :: crash_state
  vl_failed :: "string \<Rightarrow> nat"

definition instancesPerRepro :: "nat \<Rightarrow> nat" where
  "instancesPerRepro vmCount = (if 4 > vmCount then vmCount else 4)"

definition vmLoop_init :: "nat \<Rightarrow> crash_state \<Rightarrow> VmLoop" where
  "vmLoop_init vmCount cs = \<lparr>vl_instances = map (\<lambda>i. vmCount - i - 1) [0..<vmCount], vl_pendingRepro = [], vl_reproducing = Some [],
     vl_reproInstances = 0, vl_reproQueue = [], vl_stopPending = False, vl_open = True, vl_numReproducing = 0,
     vl_running = [], vl_repros = [], vl_crashes = cs, vl_failed = (\<lambda>_. 0)\<rparr>"

definition take_pending :: "crash_env \<Rightarrow> crash_io \<Rightarrow> Crash \<Rightarrow> VmLoop \<Rightarrow> VmLoop" where
  "take_pending env io crash st =
    (if go_get (vl_reproducing st) (cr_Title crash) = Some True then st
     else let st1 = st\<lparr>vl_pendingRepro := remove1 crash (vl_pendingRepro st)\<rparr> in
       if \<not> needRepro env io crash (cs_files (vl_crashes st1)) then st1
       else st1\<lparr>vl_reproducing := go_set (cr_Title crash) True (vl_reproducing st1),
                vl_reproQueue := vl_reproQueue st1 @ [crash]\<rparr>)"

definition canRepro :: "nat \<Rightarrow> nat \<Rightarrow> VmLoop \<Rightarrow> bool" where
  "canRepro vmCount phase st \<longleftrightarrow> phaseTriagedHub \<le> phase \<and> vl_reproQueue st \<noteq> []
     \<and> vl_reproInstances st + int (instancesPerRepro vmCount) \<le> int vmCount"

definition start_repro :: "nat \<Rightarrow> VmLoop \<Rightarrow> VmLoop" where
  "start_repro vmCount st =
    (let crash = last (vl_reproQueue st);
         rest = length (vl_instances st) - instancesPerRepro vmCount;
         vmIndexes = drop rest (vl_instances st)
     in st\<lparr>vl_reproQueue := butlast (vl_reproQueue st), vl_instances := take rest (vl_instances st),
           vl_reproInstances := vl_reproInstances st + int (instancesPerRepro vmCount),
           vl_numReproducing := vl_numReproducing st + 1, vl_repros := vl_repros st @ [(vmIndexes, crash)]\<rparr>)"

function start_repros :: "nat \<Rightarrow> nat \<Rightarrow> VmLoop \<Rightarrow> VmLoop" where
  "start_repros vmCount phase st =
    (if canRepro vmCount phase st \<and> instancesPerRepro vmCount \<le> length (vl_instances st)
     then start_repros vmCount phase (start_repro vmCount st) else st)"
  by auto
termination
  by (relation "measure (\<lambda>(_, _, st). length (vl_reproQueue st))") (auto simp: canRepro_def start_repro_def Let_def)

definition start_instance :: "VmLoop \<Rightarrow> VmLoop" where
  "start_instance st = st\<lparr>vl_instances := butlast (vl_instances st), vl_running := vl_running st @ [last (vl_instances st)]\<rparr>"

function start_instances :: "nat \<Rightarrow> nat \<Rightarrow> VmLoop \<Rightarrow> VmLoop" where
  "start_instances vmCount phase st =
    (if \<not> canRepro vmCount phase st \<and> vl_instances st \<noteq> []
     then start_instances vmCount phase (start_instance st) else st)"
  by auto
termination
  by (relation "measure (\<lambda>(_, _, st). length (vl_instances st))") (auto simp: start_instance_def)

declare start_repros.simps [simp del] start_instances.simps [simp del]

text \<open>From the head of the loop to the \<open>select\<close>; the result says whether it offers a stop request.\<close>

definition loop_head :: "crash_env \<Rightarrow> crash_io \<Rightarrow> nat \<Rightarrow> nat \<Rightarrow> Crash list \<Rightarrow> VmLoop \<Rightarrow> bool \<times> VmLoop" where
  "loop_head env io vmCount phase order st =
    (let st1 = fold (take_pending env io) order st;
         st2 = (if vl_open st1 then start_instances vmCount phase (start_repros vmCount phase st1) else st1)
     in (\<not> vl_stopPending st2 \<and> canRepro vmCount phase st2, st2))"

definition run_done :: "crash_env \<Rightarrow> crash_io \<Rightarrow> nat \<Rightarrow> Crash option \<Rightarrow> VmLoop \<Rightarrow> VmLoop" where
  "run_done env io idx crash st =
    (let st1 = st\<lparr>vl_stopPending := False, vl_running := remove1 idx (vl_running st), vl_instances := vl_instances st @ [idx]\<rparr>
     in case crash of
       None \<Rightarrow> st1
     | Some c \<Rightarrow> if \<not> vl_open st1 then st1
         else case saveCrash env io c (vl_crashes st1) of (need, cs) \<Rightarrow>
           st1\<lparr>vl_crashes := cs, vl_pendingRepro := (if need then vl_pendingRepro st1 @ [c] else vl_pendingRepro st1)\<rparr>)"

definition repro_done :: "crash_env \<Rightarrow> crash_io \<Rightarrow> nat \<Rightarrow> nat list \<times> Crash \<Rightarrow> repro_Result option \<Rightarrow> bytes \<Rightarrow> VmLoop \<Rightarrow> VmLoop" where
  "repro_done env io vmCount r res stats st =
    (let title0 = cr_Title (snd r); hub = cr_hub (snd r);
         st1 = st\<lparr>vl_repros := remove1 r (vl_repros st), vl_numReproducing := vl_numReproducing st + (- 1),
                  vl_reproducing := go_del title0 (vl_reproducing st), vl_instances := vl_instances st @ fst r,
                  vl_reproInstances := vl_reproInstances st - int (instancesPerRepro vmCount)\<rparr>
     in case res of
       None \<Rightarrow> if hub then st1
         else st1\<lparr>vl_crashes := saveFailedRepro env io title0 stats (vl_crashes st1), vl_failed := (vl_failed st1)(title0 := Suc (vl_failed st1 title0))\<rparr>
     | Some res \<Rightarrow> st1\<lparr>vl_crashes := saveRepro env io res stats hub (vl_crashes st1)\<rparr>)"

definition more_repros :: "nat \<Rightarrow> VmLoop \<Rightarrow> bool" where
  "more_repros phase st \<longleftrightarrow> phaseTriagedHub \<le> phase
     \<and> length (vl_reproQueue st) + length (vl_pendingRepro st) + go_len (vl_reproducing st) = 0"

definition repro_titles :: "VmLoop \<Rightarrow> (string, bool) gomap" where
  "repro_titles st = fold (\<lambda>title. go_set title True) (go_keys (vl_reproducing st)) (Some [])"

text \<open>Where the loop is: at its head, in the \<open>select\<close> (with the phase it read, and whether it offers a stop
  request), or after its end. \<open>ok\<close> restricts how the world answers; \<open>reply\<close> is what the loop tells the
  hub connector (\<open>needMoreRepros\<close>) or the web page (\<open>reproRequest\<close>) before it waits on.\<close>

datatype vm_at = At_head | Waiting nat bool | Ended

inductive vm_step :: "(crash_io \<Rightarrow> bool) \<Rightarrow> crash_env \<Rightarrow> nat \<Rightarrow> vm_at \<times> VmLoop \<Rightarrow> vm_at \<times> VmLoop \<Rightarrow> bool" for ok env vmCount where
  head: "vl_open st \<or> length (vl_instances st) \<noteq> vmCount \<Longrightarrow> mset order = mset (vl_pendingRepro st) \<Longrightarrow> ok io \<Longrightarrow>
    loop_head env io vmCount phase order st = (stop, st') \<Longrightarrow>
    vm_step ok env vmCount (At_head, st) (Waiting phase stop, st')"
| leave: "\<not> vl_open st \<Longrightarrow> length (vl_instances st) = vmCount \<Longrightarrow> vm_step ok env vmCount (At_head, st) (Ended, st)"
| stop_issued: "vm_step ok env vmCount (Waiting phase True, st) (At_head, st\<lparr>vl_stopPending := True\<rparr>)"
| instance_done: "idx \<in> set (vl_running st) \<Longrightarrow> (\<And>c. crash = Some c \<Longrightarrow> \<not> cr_hub c) \<Longrightarrow> ok io \<Longrightarrow>
    vm_step ok env vmCount (Waiting phase stop, st) (At_head, run_done env io idx crash st)"
| reproduced: "r \<in> set (vl_repros st) \<Longrightarrow> ok io \<Longrightarrow>
    vm_step ok env vmCount (Waiting phase stop, st) (At_head, repro_done env io vmCount r res stats st)"
| shutdown: "vl_open st \<Longrightarrow> vm_step ok env vmCount (Waiting phase stop, st) (At_head, st\<lparr>vl_open := False\<rparr>)"
| from_hub: "cr_hub crash \<Longrightarrow>
    vm_step ok env vmCount (Waiting phase stop, st) (At_head, st\<lparr>vl_pendingRepro := vl_pendingRepro st @ [crash]\<rparr>)"
| asked: "reply = (more_repros phase st, repro_titles st) \<Longrightarrow> vm_step ok env vmCount (Waiting phase stop, st) (Waiting phase stop, st)"

inductive_cases vm_stepE: "vm_step ok env vmCount s t"

definition vm_start :: "nat \<Rightarrow> vm_at \<times> VmLoop \<Rightarrow> bool" where
  "vm_start vmCount s \<longleftrightarrow> (\<exists>cs. s = (At_head, vmLoop_init vmCount cs))"

section \<open>Every machine in one place\<close>

definition places :: "VmLoop \<Rightarrow> nat list" where
  "places st = vl_instances st @ vl_running st @ concat (map fst (vl_repros st))"

definition vm_places :: "nat \<Rightarrow> VmLoop \<Rightarrow> bool" where
  "vm_places vmCount st \<longleftrightarrow> mset (places st) = mset [0..<vmCount]
     \<and> (\<forall>r \<in> set (vl_repros st). length (fst r) = instancesPerRepro vmCount)
     \<and> vl_reproInstances st = int (instancesPerRepro vmCount * length (vl_repros st))
     \<and> vl_numReproducing st = of_nat (length (vl_repros st))"

definition busy_titles :: "VmLoop \<Rightarrow> string list" where
  "busy_titles st = map cr_Title (vl_reproQueue st) @ map (cr_Title \<circ> snd) (vl_repros st)"

definition vm_titles :: "VmLoop \<Rightarrow> bool" where
  "vm_titles st \<longleftrightarrow> distinct (busy_titles st) \<and> (\<forall>t. go_get (vl_reproducing st) t = (if t \<in> set (busy_titles st) then Some True else None))"

lemma places_perm: "mset (places st) = mset (vl_instances st) + mset (vl_running st) + mset (concat (map fst (vl_repros st)))"
  by (simp add: places_def)

lemma mset_take_drop: "mset (take n xs) + mset (drop n xs) = mset xs"
  by (metis append_take_drop_id mset_append)

lemma mset_last: "xs \<noteq> [] \<Longrightarrow> add_mset (last xs) (mset (butlast xs)) = mset xs"
  by (cases xs rule: rev_cases) auto

lemma take_pending_places: "vm_places vmCount st \<Longrightarrow> vm_places vmCount (take_pending env io c st)"
  by (simp add: take_pending_def vm_places_def places_def Let_def)

lemma take_pending_titles: "vm_titles st \<Longrightarrow> vm_titles (take_pending env io c st)"
  by (auto simp: take_pending_def vm_titles_def busy_titles_def Let_def split: if_splits)

lemma take_pending_kept [simp]:
  "vl_open (take_pending env io c st) = vl_open st"
  "vl_stopPending (take_pending env io c st) = vl_stopPending st"
  "vl_instances (take_pending env io c st) = vl_instances st"
  "vl_running (take_pending env io c st) = vl_running st"
  "vl_repros (take_pending env io c st) = vl_repros st"
  by (simp_all add: take_pending_def Let_def)

lemma start_repro_places:
  assumes "vm_places vmCount st" "instancesPerRepro vmCount \<le> length (vl_instances st)"
  shows "vm_places vmCount (start_repro vmCount st)"
proof -
  let ?k = "length (vl_instances st) - instancesPerRepro vmCount"
  have "mset (places (start_repro vmCount st)) = mset (places st)"
    using mset_take_drop [of ?k "vl_instances st"] by (simp add: places_def start_repro_def Let_def)
  then show ?thesis using assms by (auto simp: vm_places_def start_repro_def Let_def algebra_simps)
qed

lemma start_repro_titles:
  assumes "vm_titles st" "vl_reproQueue st \<noteq> []"
  shows "vm_titles (start_repro vmCount st)"
proof -
  obtain q c where q: "vl_reproQueue st = q @ [c]" using assms(2) by (cases "vl_reproQueue st" rule: rev_cases) auto
  then show ?thesis using assms(1) by (auto simp: vm_titles_def busy_titles_def start_repro_def Let_def)
qed

text \<open>The rules of the two inner loops: what each round keeps holds at the end, and the guard does not.\<close>

lemma start_repros_rule:
  assumes "I st" and "\<And>st. I st \<Longrightarrow> canRepro vmCount phase st \<Longrightarrow> instancesPerRepro vmCount \<le> length (vl_instances st) \<Longrightarrow> I (start_repro vmCount st)"
  shows "I (start_repros vmCount phase st)"
    and "\<not> (canRepro vmCount phase (start_repros vmCount phase st)
      \<and> instancesPerRepro vmCount \<le> length (vl_instances (start_repros vmCount phase st)))"
  using assms
proof (induction vmCount phase st rule: start_repros.induct)
  case (1 vmCount phase st)
  let ?g = "canRepro vmCount phase st \<and> instancesPerRepro vmCount \<le> length (vl_instances st)"
  have step: "start_repros vmCount phase st = (if ?g then start_repros vmCount phase (start_repro vmCount st) else st)"
    by (rule start_repros.simps)
  { case 1
    then show ?case by (cases ?g) (use step "1.IH"(1) in auto)
  next
    case 2
    then show ?case by (cases ?g) (use step "1.IH"(2) in auto)
  }
qed

lemma start_instances_rule:
  assumes "I st" and "\<And>st. I st \<Longrightarrow> \<not> canRepro vmCount phase st \<Longrightarrow> vl_instances st \<noteq> [] \<Longrightarrow> I (start_instance st)"
  shows "I (start_instances vmCount phase st)"
    and "\<not> (\<not> canRepro vmCount phase (start_instances vmCount phase st) \<and> vl_instances (start_instances vmCount phase st) \<noteq> [])"
  using assms
proof (induction vmCount phase st rule: start_instances.induct)
  case (1 vmCount phase st)
  let ?g = "\<not> canRepro vmCount phase st \<and> vl_instances st \<noteq> []"
  have step: "start_instances vmCount phase st = (if ?g then start_instances vmCount phase (start_instance st) else st)"
    by (rule start_instances.simps)
  { case 1
    then show ?case by (cases ?g) (use step "1.IH"(1) in auto)
  next
    case 2
    then show ?case by (cases ?g) (use step "1.IH"(2) in auto)
  }
qed

lemma start_instance_places: "vm_places vmCount st \<Longrightarrow> vl_instances st \<noteq> [] \<Longrightarrow> vm_places vmCount (start_instance st)"
proof -
  assume v: "vm_places vmCount st" "vl_instances st \<noteq> []"
  then have "mset (places (start_instance st)) = mset (places st)"
    using mset_last [of "vl_instances st"] by (simp add: places_def start_instance_def flip: union_mset_add_mset_left)
  then show ?thesis using v by (simp add: vm_places_def start_instance_def)
qed

lemma start_instance_titles: "vm_titles st \<Longrightarrow> vm_titles (start_instance st)"
  by (simp add: vm_titles_def busy_titles_def start_instance_def)

lemma start_instance_can [simp]: "canRepro vmCount phase (start_instance st) = canRepro vmCount phase st"
  by (simp add: canRepro_def start_instance_def)

lemmas fold_take = fold_keep [where f = "take_pending env io" for env io]

lemma run_done_places:
  assumes "vm_places vmCount st" "idx \<in> set (vl_running st)"
  shows "vm_places vmCount (run_done env io idx crash st)"
proof -
  obtain xs ys where r: "vl_running st = xs @ idx # ys" "idx \<notin> set xs" using split_list_first [OF assms(2)] by blast
  then have rm: "remove1 idx (xs @ idx # ys) = xs @ ys" by (simp add: remove1_append)
  have "mset (places (run_done env io idx crash st)) = mset (places st)"
    by (auto simp: places_def run_done_def Let_def r(1) rm split: option.splits prod.splits)
  then show ?thesis using assms(1) by (auto simp: vm_places_def run_done_def Let_def split: option.splits prod.splits)
qed

lemma run_done_titles: "vm_titles st \<Longrightarrow> vm_titles (run_done env io idx crash st)"
  by (auto simp: vm_titles_def busy_titles_def run_done_def Let_def split: option.splits prod.splits)

definition repro_freed :: "nat \<Rightarrow> nat list \<times> Crash \<Rightarrow> VmLoop \<Rightarrow> VmLoop" where
  "repro_freed vmCount r st = st\<lparr>vl_repros := remove1 r (vl_repros st), vl_numReproducing := vl_numReproducing st + (- 1),
     vl_reproducing := go_del (cr_Title (snd r)) (vl_reproducing st), vl_instances := vl_instances st @ fst r,
     vl_reproInstances := vl_reproInstances st - int (instancesPerRepro vmCount)\<rparr>"

lemma repro_done_frame:
  "\<exists>cs failed. repro_done env io vmCount r res stats st = (repro_freed vmCount r st)\<lparr>vl_crashes := cs, vl_failed := failed\<rparr>"
proof -
  have "\<exists>cs failed. u = u\<lparr>vl_crashes := cs, vl_failed := failed\<rparr>" "\<exists>cs failed. u\<lparr>vl_crashes := cs'\<rparr> = u\<lparr>vl_crashes := cs, vl_failed := failed\<rparr>" for u :: VmLoop and cs'
    by (rule exI [of _ "vl_crashes u"], rule exI [of _ "vl_failed u"], simp)
      (rule exI [of _ cs'], rule exI [of _ "vl_failed u"], simp)
  then show ?thesis by (auto simp: repro_done_def repro_freed_def Let_def split: option.splits)
qed

lemma places_frame [simp]: "vm_places vmCount (st\<lparr>vl_crashes := cs, vl_failed := failed\<rparr>) = vm_places vmCount st"
  "vm_titles (st\<lparr>vl_crashes := cs, vl_failed := failed\<rparr>) = vm_titles st"
  by (simp_all add: vm_places_def places_def vm_titles_def busy_titles_def)

lemma repro_freed_inv:
  assumes "vm_places vmCount st" "vm_titles st" "r \<in> set (vl_repros st)"
  shows "vm_places vmCount (repro_freed vmCount r st) \<and> vm_titles (repro_freed vmCount r st)"
proof -
  obtain xs ys where r: "vl_repros st = xs @ r # ys" "r \<notin> set xs" using split_list_first [OF assms(3)] by blast
  then have rm: "remove1 r (xs @ r # ys) = xs @ ys" by (simp add: remove1_append)
  have "mset (places (repro_freed vmCount r st)) = mset (places st)"
    by (simp add: places_def repro_freed_def r(1) rm)
  then have "vm_places vmCount (repro_freed vmCount r st)"
    using assms(1) by (auto simp: vm_places_def rm r(1) repro_freed_def algebra_simps)
  moreover have "vm_titles (repro_freed vmCount r st)"
    using assms(2) by (auto simp: vm_titles_def busy_titles_def repro_freed_def rm r(1))
  ultimately show ?thesis by blast
qed

lemma repro_instances_bound:
  assumes "vm_places vmCount st"
  shows "instancesPerRepro vmCount * length (vl_repros st) + length (vl_running st) + length (vl_instances st) = vmCount"
proof -
  have "length (concat (map fst rs)) = n * length rs" if "\<forall>r \<in> set rs. length (fst r) = n" for rs :: "(nat list \<times> Crash) list" and n
    using that by (induction rs) auto
  moreover have "length (places st) = vmCount"
    using assms mset_eq_length [of "places st" "[0..<vmCount]"] by (simp add: vm_places_def)
  moreover have "\<forall>r \<in> set (vl_repros st). length (fst r) = instancesPerRepro vmCount" using assms by (simp add: vm_places_def)
  ultimately have "length (concat (map fst (vl_repros st))) = instancesPerRepro vmCount * length (vl_repros st)"
    and "length (vl_instances st) + (length (vl_running st) + length (concat (map fst (vl_repros st)))) = vmCount"
    unfolding places_def length_append by blast+
  then show ?thesis by linarith
qed

text \<open>A reproduction that may start but finds too few free machines leaves a machine to stop.\<close>

lemma repro_finds_running:
  assumes "vm_places vmCount st" "canRepro vmCount phase st" "length (vl_instances st) < instancesPerRepro vmCount"
  shows "vl_running st \<noteq> []"
proof
  assume "vl_running st = []"
  then have "instancesPerRepro vmCount * length (vl_repros st) + length (vl_instances st) = vmCount"
    using repro_instances_bound [OF assms(1)] by simp
  moreover have "int (instancesPerRepro vmCount * length (vl_repros st)) + int (instancesPerRepro vmCount) \<le> int vmCount"
    using assms(1,2) unfolding vm_places_def canRepro_def by metis
  ultimately show False using assms(3) by linarith
qed

text \<open>While the loop waits and nothing was shut down, no machine is idle, except for those kept back for a
  reproduction that needs more of them; then a running machine is, or was, asked to stop.\<close>

definition all_used :: "nat \<Rightarrow> nat \<Rightarrow> bool \<Rightarrow> VmLoop \<Rightarrow> bool" where
  "all_used vmCount phase stop st \<longleftrightarrow> vl_instances st = []
     \<or> canRepro vmCount phase st \<and> length (vl_instances st) < instancesPerRepro vmCount
       \<and> vl_running st \<noteq> [] \<and> (stop \<or> vl_stopPending st)"

fun vm_inv :: "nat \<Rightarrow> vm_at \<times> VmLoop \<Rightarrow> bool" where
  "vm_inv vmCount (loc, st) \<longleftrightarrow> vm_places vmCount st \<and> vm_titles st
     \<and> (case loc of At_head \<Rightarrow> True
        | Waiting phase stop \<Rightarrow> if vl_open st then all_used vmCount phase stop st else length (vl_instances st) \<noteq> vmCount
        | Ended \<Rightarrow> \<not> vl_open st \<and> length (vl_instances st) = vmCount)"

lemma vm_init_inv: "vm_start vmCount s \<Longrightarrow> vm_inv vmCount s"
proof -
  assume "vm_start vmCount s"
  then obtain cs where s: "s = (At_head, vmLoop_init vmCount cs)" by (auto simp: vm_start_def)
  have "map (\<lambda>i. vmCount - i - 1) [0..<vmCount] = rev [0..<vmCount]"
    by (rule nth_equalityI) (auto simp: rev_nth)
  then have "mset (places (vmLoop_init vmCount cs)) = mset [0..<vmCount]"
    by (simp add: places_def vmLoop_init_def)
  then show ?thesis by (simp add: s vm_places_def vm_titles_def busy_titles_def) (simp add: vmLoop_init_def)
qed

lemma starts_open: "vl_open st \<Longrightarrow> vl_open (start_instances vmCount phase (start_repros vmCount phase st))"
  by (intro start_instances_rule(1) [where I = vl_open] start_repros_rule(1) [where I = vl_open])
    (auto simp: start_repro_def start_instance_def Let_def)

lemma loop_head_inv:
  assumes "vm_places vmCount st" "vm_titles st" "loop_head env io vmCount phase order st = (stop, st')"
    and "vl_open st \<or> length (vl_instances st) \<noteq> vmCount"
  shows "vm_inv vmCount (Waiting phase stop, st')"
proof -
  let ?P = "\<lambda>u. vm_places vmCount u \<and> vm_titles u"
  define st1 where "st1 = fold (take_pending env io) order st"
  have 1: "?P st1" unfolding st1_def using assms(1,2)
    by (intro fold_keep [where P = ?P]) (auto intro: take_pending_places take_pending_titles)
  have same: "vl_open st1 = vl_open st" "vl_instances st1 = vl_instances st" unfolding st1_def
    by (rule fold_keep [where P = "\<lambda>u. vl_open u = vl_open st"], auto)
      (rule fold_keep [where P = "\<lambda>u. vl_instances u = vl_instances st"], auto)
  show ?thesis
  proof (cases "vl_open st1")
    case False
    then show ?thesis using assms(3,4) 1 same by (auto simp: loop_head_def Let_def simp flip: st1_def)
  next
    case True
    define st2 where "st2 = start_repros vmCount phase st1"
    have 2: "?P st2" unfolding st2_def
      by (rule start_repros_rule [where I = ?P]) (use 1 start_repro_places start_repro_titles in \<open>auto simp: canRepro_def\<close>)
    have full: "canRepro vmCount phase st2 \<Longrightarrow> length (vl_instances st2) < instancesPerRepro vmCount"
      using start_repros_rule(2) [of "\<lambda>_. True" st1 vmCount phase] unfolding st2_def by fastforce
    define I where "I = (\<lambda>u. ?P u \<and> (canRepro vmCount phase u \<longrightarrow> length (vl_instances u) < instancesPerRepro vmCount))"
    have 3: "I (start_instances vmCount phase st2)"
      by (rule start_instances_rule [where I = I]) (use 2 full start_instance_places start_instance_titles in \<open>auto simp: I_def\<close>)
    have none: "canRepro vmCount phase (start_instances vmCount phase st2) \<or> vl_instances (start_instances vmCount phase st2) = []"
      using start_instances_rule(2) [of "\<lambda>_. True" st2 vmCount phase] by blast
    have st': "st' = start_instances vmCount phase st2" "stop = (\<not> vl_stopPending st' \<and> canRepro vmCount phase st')"
      using assms(3) True by (auto simp: loop_head_def Let_def st2_def simp flip: st1_def)
    have "vl_running st' \<noteq> []" if "canRepro vmCount phase st'"
      using repro_finds_running [of vmCount st'] that 3 st'(1) by (auto simp: I_def)
    moreover have "vl_open st'" using starts_open [OF True] by (simp add: st'(1) st2_def)
    ultimately show ?thesis using 3 none st' by (auto simp: I_def all_used_def)
  qed
qed

lemma vm_step_inv:
  assumes "vm_inv vmCount s" "vm_step ok env vmCount s t"
  shows "vm_inv vmCount t"
  using assms(2)
proof (cases rule: vm_step.cases)
  case (head st order io phase stop st')
  then show ?thesis using assms(1) loop_head_inv [of vmCount st env io phase order stop st'] by simp
next
  case (instance_done idx st crash io phase stop)
  then show ?thesis using assms(1) run_done_places run_done_titles by simp
next
  case (reproduced r st io phase stop res stats)
  then show ?thesis using assms(1) repro_freed_inv [of vmCount st r] repro_done_frame [of env io vmCount r res stats st] by auto
qed (use assms(1) in \<open>auto simp: vm_places_def places_def vm_titles_def busy_titles_def\<close>)

interpretation vms: step_system "vm_start vmCount" "vm_step ok env vmCount" "vm_inv vmCount" for ok env vmCount
  by unfold_locales (auto intro: vm_init_inv vm_step_inv)

text \<open>
  C16: every machine has one place. In every state of the loop each machine is free, runs a fuzzer, or
  belongs to exactly one reproduction of \<open>instancesPerRepro\<close> machines; no title is queued or
  reproduced twice at once; and while the loop waits, no machine idles except for a reproduction
  that has asked a running machine to stop.
\<close>

theorem vm_machines_accounted:
  assumes "reaches (vm_start vmCount) (vm_step ok env vmCount) (loc, st)"
  shows "mset (vl_instances st @ vl_running st @ concat (map fst (vl_repros st))) = mset [0..<vmCount]
    \<and> (\<forall>r \<in> set (vl_repros st). length (fst r) = instancesPerRepro vmCount)
    \<and> distinct (map cr_Title (vl_reproQueue st) @ map (cr_Title \<circ> snd) (vl_repros st))
    \<and> (\<forall>phase stop. loc = Waiting phase stop \<longrightarrow> vl_open st \<longrightarrow> vl_instances st \<noteq> [] \<longrightarrow>
      canRepro vmCount phase st \<and> length (vl_instances st) < instancesPerRepro vmCount \<and> vl_running st \<noteq> [] \<and> (stop \<or> vl_stopPending st))"
proof -
  have inv: "vm_inv vmCount (loc, st)" by (rule vms.reaches_inv [OF assms])
  then have "mset (vl_instances st @ vl_running st @ concat (map fst (vl_repros st))) = mset [0..<vmCount]"
    "\<forall>r \<in> set (vl_repros st). length (fst r) = instancesPerRepro vmCount"
    "distinct (map cr_Title (vl_reproQueue st) @ map (cr_Title \<circ> snd) (vl_repros st))"
    by (simp_all add: vm_places_def vm_titles_def places_def busy_titles_def)
  moreover have "canRepro vmCount phase st \<and> length (vl_instances st) < instancesPerRepro vmCount \<and> vl_running st \<noteq> [] \<and> (stop \<or> vl_stopPending st)"
    if "loc = Waiting phase stop" "vl_open st" "vl_instances st \<noteq> []" for phase stop
    using inv that by (simp add: all_used_def)
  ultimately show ?thesis by blast
qed

section \<open>Shutting down\<close>

fun vm_rank :: "nat \<Rightarrow> vm_at \<times> VmLoop \<Rightarrow> nat" where
  "vm_rank vmCount (loc, st) =
    (if loc = Ended then 0
     else (if vl_open st then 4 * vmCount + 4 else 2 * (length (vl_running st) + length (vl_repros st)))
       + (if loc = At_head then 2 else 1))"

lemma fold_take_kept:
  "vl_open (fold (take_pending env io) cs st) = vl_open st"
  "vl_instances (fold (take_pending env io) cs st) = vl_instances st"
  "vl_running (fold (take_pending env io) cs st) = vl_running st"
  "vl_repros (fold (take_pending env io) cs st) = vl_repros st"
  by (induction cs arbitrary: st) auto

lemma busy_bound:
  assumes "vm_places vmCount st" "0 < vmCount"
  shows "length (vl_running st) + length (vl_repros st) \<le> vmCount"
proof -
  have "1 \<le> instancesPerRepro vmCount" using assms(2) by (simp add: instancesPerRepro_def)
  then have "length (vl_repros st) \<le> instancesPerRepro vmCount * length (vl_repros st)" by simp
  then show ?thesis using repro_instances_bound [OF assms(1)] by linarith
qed

lemma vm_head_step:
  assumes "vl_open st \<or> length (vl_instances st) \<noteq> vmCount" "ok io"
  shows "\<exists>stop st'. vm_step ok env vmCount (At_head, st) (Waiting phase stop, st') \<and> vl_open st' = vl_open st
    \<and> (\<not> vl_open st \<longrightarrow> vl_running st' = vl_running st \<and> vl_repros st' = vl_repros st)"
proof -
  obtain stop st' where h: "loop_head env io vmCount phase (vl_pendingRepro st) st = (stop, st')" by fastforce
  have "vl_open st' = vl_open st" "\<not> vl_open st \<longrightarrow> vl_running st' = vl_running st \<and> vl_repros st' = vl_repros st"
    using h by (auto simp: loop_head_def Let_def fold_take_kept starts_open split: if_splits)
  moreover have "vm_step ok env vmCount (At_head, st) (Waiting phase stop, st')"
    using assms(1) refl assms(2) h by (rule vm_step.head)
  ultimately show ?thesis by blast
qed

lemma vm_progress:
  assumes "vm_inv vmCount (loc, st)" "0 < vmCount" "ok io" "loc \<noteq> Ended"
  shows "\<exists>t. vm_step ok env vmCount (loc, st) t \<and> vm_rank vmCount t < vm_rank vmCount (loc, st)"
proof (cases loc)
  case At_head
  show ?thesis
  proof (cases "vl_open st \<or> length (vl_instances st) \<noteq> vmCount")
    case True
    obtain stop st' where h: "vm_step ok env vmCount (At_head, st) (Waiting 0 stop, st')" "vl_open st' = vl_open st"
      "\<not> vl_open st \<longrightarrow> vl_running st' = vl_running st \<and> vl_repros st' = vl_repros st"
      using vm_head_step [of st vmCount ok io env 0, OF True assms(3)] by blast
    then show ?thesis using At_head by (intro exI [of _ "(Waiting 0 stop, st')"]) simp
  next
    case False
    then show ?thesis using At_head by (intro exI [of _ "(Ended, st)"]) (auto intro: vm_step.leave)
  qed
next
  case (Waiting phase stop)
  show ?thesis
  proof (cases "vl_open st")
    case True
    then show ?thesis using Waiting busy_bound [of vmCount st] assms(1,2) vm_step.shutdown [of st ok env vmCount phase stop]
      by (intro exI [of _ "(At_head, st\<lparr>vl_open := False\<rparr>)"]) auto
  next
    case False
    then have free: "length (vl_instances st) \<noteq> vmCount" "vm_places vmCount st" using assms(1) Waiting by auto
    show ?thesis
    proof (cases "vl_running st")
      case (Cons idx run)
      then have "vl_running (run_done env io idx None st) = run" "vl_repros (run_done env io idx None st) = vl_repros st"
        "vl_open (run_done env io idx None st) = vl_open st" by (simp_all add: run_done_def)
      then show ?thesis using Waiting False Cons vm_step.instance_done [of idx st None ok io env vmCount phase stop] assms(3)
        by (intro exI [of _ "(At_head, run_done env io idx None st)"]) auto
    next
      case Nil
      with free repro_instances_bound [OF free(2)] obtain r rs where r: "vl_repros st = r # rs" by (cases "vl_repros st") auto
      then have "vl_repros (repro_done env io vmCount r None [] st) = rs" "vl_running (repro_done env io vmCount r None [] st) = vl_running st"
        "vl_open (repro_done env io vmCount r None [] st) = vl_open st" by (simp_all add: repro_done_def Let_def)
      then show ?thesis using Waiting False r vm_step.reproduced [of r st ok io env vmCount phase stop None "[]"] assms(3)
        by (intro exI [of _ "(At_head, repro_done env io vmCount r None [] st)"]) auto
    qed
  qed
qed (use assms(4) in simp)

interpretation down: step_progress "\<lambda>s. vm_start vmCount s \<and> 0 < vmCount \<and> Ex ok" "vm_step ok env vmCount"
    "\<lambda>s. vm_inv vmCount s \<and> 0 < vmCount \<and> Ex ok" "\<lambda>_. True" "\<lambda>s. fst s = Ended" "vm_rank vmCount" for ok env vmCount
proof unfold_locales
  fix s assume "vm_inv vmCount s \<and> 0 < vmCount \<and> Ex ok" "fst s \<noteq> Ended"
  then show "\<exists>t. vm_step ok env vmCount s t \<and> True \<and> vm_rank vmCount t < vm_rank vmCount s"
    using vm_progress [of vmCount "fst s" "snd s" ok _ env, unfolded prod.collapse] by blast
qed (use vm_init_inv vm_step_inv in blast)+

text \<open>
  C17: the loop can always be shut down. From every state it reaches, whatever its machines and
  reproductions do, there is a run on which it ends, and it ends only when all machines are
  back and nothing runs any more.
\<close>

theorem vm_loop_can_end:
  assumes "reaches (vm_start vmCount) (vm_step ok env vmCount) s" "0 < vmCount" "ok io"
  shows "\<exists>st. (vm_step ok env vmCount)\<^sup>*\<^sup>* s (Ended, st) \<and> vl_running st = [] \<and> vl_repros st = []
    \<and> mset (vl_instances st) = mset [0..<vmCount]"
proof -
  have "vm_inv vmCount s \<and> 0 < vmCount \<and> Ex ok" using vms.reaches_inv [OF assms(1)] assms(2,3) by blast
  then obtain t where t: "(vm_step ok env vmCount)\<^sup>*\<^sup>* s t" "vm_inv vmCount t" "fst t = Ended" using down.run_to_goal [OF _ TrueI, of vmCount s ok env] by blast
  then obtain st where st: "t = (Ended, st)" by (cases t) auto
  then have v: "vm_places vmCount st" "length (vl_instances st) = vmCount" using t(2) by auto
  then have "vl_running st = []" "vl_repros st = []"
    using repro_instances_bound [OF v(1)] assms(2) by (auto simp: instancesPerRepro_def split: if_splits)
  moreover from this have "mset (vl_instances st) = mset [0..<vmCount]" using v(1) by (simp add: vm_places_def places_def)
  ultimately show ?thesis using t(1) st by blast
qed

section \<open>Attempts to reproduce\<close>

definition attempts :: "crash_env \<Rightarrow> file_system \<Rightarrow> string \<Rightarrow> nat" where
  "attempts env fs t = card {i. i < maxReproAttempts \<and> fs (ce_hash env t, numbered ''repro'' i) \<noteq> None}"

definition same_attempts :: "file_system \<Rightarrow> file_system \<Rightarrow> bool" where
  "same_attempts fs fs' \<longleftrightarrow> (\<forall>d i. i < maxReproAttempts \<longrightarrow> fs' (d, numbered ''repro'' i) = fs (d, numbered ''repro'' i))"

lemma same_attempts_refl [simp]: "same_attempts fs fs"
  by (simp add: same_attempts_def)

lemma same_attempts_trans: "same_attempts fs fs' \<Longrightarrow> same_attempts fs' fs'' \<Longrightarrow> same_attempts fs fs''"
  by (simp add: same_attempts_def)

lemma attempts_same: "same_attempts fs fs' \<Longrightarrow> attempts env fs' t = attempts env fs t"
  unfolding attempts_def same_attempts_def by (metis (no_types, lifting))

lemma attempt_names: "i < maxReproAttempts \<Longrightarrow> numbered ''repro'' i \<in> {''repro0'', ''repro1'', ''repro2''}"
proof -
  assume "i < maxReproAttempts"
  then have "i \<in> {0, 1, 2}" by (auto simp: maxReproAttempts_def)
  moreover have "numbered ''repro'' 0 = ''repro0''" "numbered ''repro'' 1 = ''repro1''" "numbered ''repro'' 2 = ''repro2''"
    by code_simp+
  ultimately show ?thesis by (elim insertE emptyE) simp_all
qed

lemma write_same_attempts:
  assumes "name \<notin> {''repro0'', ''repro1'', ''repro2''}"
  shows "same_attempts fs (WriteFile io dir name data fs)"
proof -
  have "numbered ''repro'' i \<noteq> name" if "i < maxReproAttempts" for i using attempt_names [OF that] assms by metis
  then show ?thesis by (simp add: same_attempts_def WriteFile_def)
qed

lemma same_attempts_step:
  "same_attempts fs fs' \<Longrightarrow> name \<notin> {''repro0'', ''repro1'', ''repro2''} \<Longrightarrow> same_attempts fs (WriteFile io dir name data fs')"
  using same_attempts_trans write_same_attempts by blast

lemma same_attempts_when:
  "same_attempts fs fs' \<Longrightarrow> name \<notin> {''repro0'', ''repro1'', ''repro2''} \<Longrightarrow> same_attempts fs (write_when b io dir name data fs')"
  by (simp add: write_when_def same_attempts_step)

lemma save_locally_attempts: "same_attempts (cs_files cs) (cs_files (snd (save_locally env io crash cs)))"
  unfolding save_locally_def Let_def
  by (simp add: numbered_def) (intro conjI impI same_attempts_step same_attempts_refl; simp)

lemma saveCrash_attempts: "same_attempts (cs_files cs) (cs_files (snd (saveCrash env io crash cs)))"
proof -
  have files: "cs_files (count_crash crash cs) = cs_files cs" for cs by (simp add: count_crash_def Let_def)
  show ?thesis
    using save_locally_attempts [of "count_crash crash cs" env io crash]
      save_locally_attempts [of "count_crash crash (cs\<lparr>cs_memoryLeakFrames := f\<rparr>)" env io crash for f]
    by (simp add: saveCrash_def Let_def files split: option.splits)
qed

lemma saveRepro_attempts: "same_attempts (cs_files cs) (cs_files (saveRepro env io res stats hub cs))"
proof -
  have "same_attempts fs ((WriteFile io d ''repro.stats'' b1 \<circ> write_when c2 io d ''repro.cprog'' b2 \<circ> write_when c3 io d ''repro.report'' b3
      \<circ> write_when c4 io d ''repro.log'' b4 \<circ> write_when c5 io d ''repro.tag'' b5 \<circ> WriteFile io d ''repro.prog'' b6
      \<circ> WriteFile io d ''description'' b7) fs)" for fs d b1 c2 b2 c3 b3 c4 b4 c5 b5 b6 b7
    unfolding o_apply by (intro same_attempts_step same_attempts_when same_attempts_refl; simp)
  then show ?thesis by (simp add: saveRepro_def Let_def del: o_apply)
qed

lemma save_attempt_first:
  "\<exists>i \<in> set is. fs (dir, numbered ''repro'' i) = None \<Longrightarrow>
   \<exists>i \<in> set is. fs (dir, numbered ''repro'' i) = None \<and> save_attempt io dir stats is fs = WriteFile io dir (numbered ''repro'' i) stats fs"
  by (induction "is") auto

lemma attempts_room: "attempts env fs t < maxReproAttempts \<longleftrightarrow> (\<exists>i \<in> set [0..<maxReproAttempts]. fs (ce_hash env t, numbered ''repro'' i) = None)"
proof
  assume "attempts env fs t < maxReproAttempts"
  show "\<exists>i \<in> set [0..<maxReproAttempts]. fs (ce_hash env t, numbered ''repro'' i) = None"
  proof (rule ccontr)
    assume "\<not> ?thesis"
    then have "{i. i < maxReproAttempts \<and> fs (ce_hash env t, numbered ''repro'' i) \<noteq> None} = {..<maxReproAttempts}" by auto
    then show False using \<open>attempts env fs t < maxReproAttempts\<close> by (simp add: attempts_def)
  qed
next
  assume "\<exists>i \<in> set [0..<maxReproAttempts]. fs (ce_hash env t, numbered ''repro'' i) = None"
  then obtain i where i: "i < maxReproAttempts" "fs (ce_hash env t, numbered ''repro'' i) = None" by auto
  let ?A = "{i. i < maxReproAttempts \<and> fs (ce_hash env t, numbered ''repro'' i) \<noteq> None}"
  have "?A \<subseteq> {..<maxReproAttempts}" "i \<notin> ?A" using i(2) by (blast, simp)
  then have "?A \<subset> {..<maxReproAttempts}" using i(1) by blast
  from psubset_card_mono [OF _ this] show "attempts env fs t < maxReproAttempts" by (simp add: attempts_def)
qed

text \<open>The files that record failed attempts can be written.\<close>

definition writes_work :: "crash_io \<Rightarrow> bool" where
  "writes_work io \<longleftrightarrow> (\<forall>i < maxReproAttempts. ci_write io (numbered ''repro'' i))"

lemma attempts_max: "attempts env fs t \<le> maxReproAttempts"
proof -
  have "attempts env fs t \<le> card {..<maxReproAttempts}" unfolding attempts_def by (rule card_mono) auto
  then show ?thesis by simp
qed

text \<open>A failure is one more attempt on record, unless the directory of the title is full; titles may share a directory.\<close>

lemma saveFailedRepro_attempts:
  assumes "\<not> ce_dash env" "\<not> HasPrefix title MemoryLeakPrefix" "writes_work io"
  shows "attempts env (cs_files cs) t \<le> attempts env (cs_files (saveFailedRepro env io title stats cs)) t"
    and "Suc (attempts env (cs_files cs) title) \<le> attempts env (cs_files (saveFailedRepro env io title stats cs)) title
      \<or> attempts env (cs_files (saveFailedRepro env io title stats cs)) title = maxReproAttempts"
proof -
  let ?d = "ce_hash env title" and ?fs = "cs_files cs" and ?fs' = "cs_files (saveFailedRepro env io title stats cs)"
  have fs': "?fs' = save_attempt io ?d stats [0..<maxReproAttempts] ?fs" using assms(1,2) by (simp add: saveFailedRepro_def)
  have keeps: "fs n \<noteq> None \<Longrightarrow> save_attempt io d stats is fs n \<noteq> None" for fs d "is" n
    by (induction "is") (auto simp: WriteFile_def)
  show mono: "attempts env ?fs t \<le> attempts env ?fs' t" for t
    unfolding attempts_def fs' by (rule card_mono) (use keeps in auto)
  show "Suc (attempts env ?fs title) \<le> attempts env ?fs' title \<or> attempts env ?fs' title = maxReproAttempts"
  proof (cases "attempts env ?fs title < maxReproAttempts")
    case True
    then obtain i where i: "i < maxReproAttempts" "?fs (?d, numbered ''repro'' i) = None"
      "?fs' = WriteFile io ?d (numbered ''repro'' i) stats ?fs"
      using save_attempt_first [OF True [unfolded attempts_room], of io stats] fs' by auto
    then have fs: "?fs' = ?fs((?d, numbered ''repro'' i) \<mapsto> (stats, ci_now io))"
      using assms(3) by (simp add: writes_work_def WriteFile_def)
    have "numbered ''repro'' j = numbered ''repro'' i \<longleftrightarrow> j = i" for j using FormatInt_inject by (simp add: numbered_def)
    then have "{j. j < maxReproAttempts \<and> ?fs' (?d, numbered ''repro'' j) \<noteq> None}
        = insert i {j. j < maxReproAttempts \<and> ?fs (?d, numbered ''repro'' j) \<noteq> None}" using i(1) by (auto simp: fs)
    then show ?thesis using i(2) by (simp add: attempts_def card_insert_if)
  next
    case False
    then show ?thesis using mono [of title] attempts_max [of env ?fs' title] by simp
  qed
qed

definition busy_crashes :: "VmLoop \<Rightarrow> Crash set" where
  "busy_crashes st = set (vl_reproQueue st) \<union> snd ` set (vl_repros st)"

abbreviation "vm_files st \<equiv> cs_files (vl_crashes st)"

definition own_crash :: "Crash \<Rightarrow> bool" where
  "own_crash c \<longleftrightarrow> \<not> cr_hub c \<and> \<not> HasPrefix (cr_Title c) MemoryLeakPrefix"

definition attempts_inv :: "crash_env \<Rightarrow> VmLoop \<Rightarrow> bool" where
  "attempts_inv env st \<longleftrightarrow> (\<forall>c \<in> busy_crashes st. own_crash c \<longrightarrow> vl_failed st (cr_Title c) < maxReproAttempts)
     \<and> (\<forall>t. \<not> HasPrefix t MemoryLeakPrefix \<longrightarrow> vl_failed st t \<le> attempts env (vm_files st) t)"

lemma attempts_inv_cong:
  assumes "attempts_inv env st" "busy_crashes st' \<subseteq> busy_crashes st" "same_attempts (vm_files st) (vm_files st')" "vl_failed st' = vl_failed st"
  shows "attempts_inv env st'"
  using assms(1,2,4) by (auto simp: attempts_inv_def attempts_same [OF assms(3)])

lemma needLocalRepro_room: "needLocalRepro env c fs \<Longrightarrow> attempts env fs (cr_Title c) < maxReproAttempts"
  by (auto simp: needLocalRepro_def attempts_room list_ex_iff Let_def split: if_splits)

lemma take_pending_attempts: "attempts_inv env st \<Longrightarrow> \<not> ce_dash env \<Longrightarrow> attempts_inv env (take_pending env io c st)"
  by (auto simp: take_pending_def Let_def attempts_inv_def busy_crashes_def needRepro_def own_crash_def
      intro: le_less_trans [OF _ needLocalRepro_room] split: if_splits)

lemma start_repro_attempts: "attempts_inv env st \<Longrightarrow> canRepro vmCount phase st \<Longrightarrow> attempts_inv env (start_repro vmCount st)"
  by (erule attempts_inv_cong) (auto simp: start_repro_def Let_def busy_crashes_def canRepro_def dest: in_set_butlastD)

lemma start_instance_attempts: "attempts_inv env st \<Longrightarrow> attempts_inv env (start_instance st)"
  by (erule attempts_inv_cong) (auto simp: start_instance_def busy_crashes_def)

lemma loop_head_attempts:
  assumes "attempts_inv env st" "\<not> ce_dash env" "loop_head env io vmCount phase order st = (stop, st')"
  shows "attempts_inv env st'"
proof -
  have 1: "attempts_inv env (fold (take_pending env io) order st)"
    using assms(1) by (rule fold_keep) (use assms(2) take_pending_attempts in blast)
  have "attempts_inv env (start_instances vmCount phase (start_repros vmCount phase u))" if "attempts_inv env u" for u
    using that start_repro_attempts start_instance_attempts
    by (intro start_instances_rule(1) [where I = "attempts_inv env"] start_repros_rule(1) [where I = "attempts_inv env"]) blast+
  with 1 show ?thesis using assms(3) by (auto simp: loop_head_def Let_def split: if_splits)
qed

lemma run_done_attempts: "attempts_inv env st \<Longrightarrow> attempts_inv env (run_done env io idx crash st)"
proof (erule attempts_inv_cong)
  show "same_attempts (vm_files st) (vm_files (run_done env io idx crash st))"
  proof (cases crash)
    case (Some c)
    then show ?thesis using saveCrash_attempts [of "vl_crashes st" env io c]
      by (cases "saveCrash env io c (vl_crashes st)") (simp add: run_done_def Let_def)
  qed (simp add: run_done_def)
qed (auto simp: run_done_def Let_def busy_crashes_def split: option.splits prod.splits)

lemma repro_done_attempts:
  assumes inv: "attempts_inv env st" and titles: "vm_titles st" and r: "r \<in> set (vl_repros st)"
    and env: "\<not> ce_dash env" "writes_work io"
  shows "attempts_inv env (repro_done env io vmCount r res stats st)"
proof (cases "res = None \<and> \<not> cr_hub (snd r) \<and> \<not> HasPrefix (cr_Title (snd r)) MemoryLeakPrefix")
  case True
  let ?t = "cr_Title (snd r)" and ?st = "repro_done env io vmCount r res stats st"
  have st: "vm_files ?st = cs_files (saveFailedRepro env io ?t stats (vl_crashes st))" "vl_failed ?st = (vl_failed st)(?t := Suc (vl_failed st ?t))"
    "busy_crashes ?st = set (vl_reproQueue st) \<union> snd ` set (remove1 r (vl_repros st))"
    using True by (simp_all add: repro_done_def Let_def busy_crashes_def)
  have room: "vl_failed st ?t < maxReproAttempts" using inv r True by (auto simp: attempts_inv_def busy_crashes_def own_crash_def)
  have old: "vl_failed st t \<le> attempts env (vm_files st) t" if "\<not> HasPrefix t MemoryLeakPrefix" for t
    using inv that by (simp add: attempts_inv_def)
  have "vl_failed ?st t \<le> attempts env (vm_files ?st) t" if t: "\<not> HasPrefix t MemoryLeakPrefix" for t
  proof (cases "t = ?t")
    case True
    then show ?thesis
      using saveFailedRepro_attempts(2) [OF env(1) _ env(2), of ?t "vl_crashes st" stats] old [OF t] t room unfolding st(1,2) by auto
  next
    case False
    then show ?thesis
      using saveFailedRepro_attempts(1) [OF env(1) _ env(2), of ?t "vl_crashes st" t stats] old [OF t] True unfolding st(1,2) by auto
  qed
  moreover obtain xs ys where rs: "vl_repros st = xs @ r # ys" "r \<notin> set xs" using split_list_first [OF r] by blast
  then have rm: "remove1 r (vl_repros st) = xs @ ys" by (simp add: remove1_append)
  have "cr_Title c \<noteq> ?t \<and> c \<in> busy_crashes st" if "c \<in> busy_crashes ?st" for c
  proof -
    have c: "c \<in> set (vl_reproQueue st) \<or> c \<in> snd ` set (xs @ ys)" using that unfolding st(3) rm by blast
    have "?t \<notin> cr_Title ` set (vl_reproQueue st) \<union> (cr_Title \<circ> snd) ` set (xs @ ys)"
      using titles by (auto simp: vm_titles_def busy_titles_def rs(1))
    moreover have "cr_Title c \<in> cr_Title ` set (vl_reproQueue st) \<union> (cr_Title \<circ> snd) ` set (xs @ ys)" using c by force
    ultimately have "cr_Title c \<noteq> ?t" by metis
    then show ?thesis using c unfolding busy_crashes_def rs(1) by auto
  qed
  ultimately show ?thesis using inv by (auto simp: attempts_inv_def st(2))
next
  case False
  have "vm_files (repro_done env io vmCount r res stats st) = vm_files st \<or> (\<exists>res. vm_files (repro_done env io vmCount r res' stats st)
      = cs_files (saveRepro env io res stats (cr_hub (snd r)) (vl_crashes st)))" if "res' = res" for res'
    using that False by (auto simp: repro_done_def Let_def saveFailedRepro_def split: option.splits)
  then have "same_attempts (vm_files st) (vm_files (repro_done env io vmCount r res stats st))" using saveRepro_attempts by (metis same_attempts_refl)
  moreover have "busy_crashes (repro_done env io vmCount r res stats st) \<subseteq> busy_crashes st"
    using image_mono [OF set_remove1_subset [of r "vl_repros st"], of snd] by (auto simp: repro_done_def Let_def busy_crashes_def split: option.splits)
  ultimately show ?thesis using inv False
    by (auto simp: attempts_inv_def attempts_same) (auto simp: repro_done_def Let_def own_crash_def split: option.splits if_splits)
qed

lemma vm_step_attempts:
  assumes "vm_step writes_work env vmCount s t" "vm_inv vmCount s" "attempts_inv env (snd s)" "\<not> ce_dash env"
  shows "attempts_inv env (snd t)"
  using assms(1)
proof (cases rule: vm_step.cases)
  case (head st order io phase stop st')
  then show ?thesis using loop_head_attempts [of env st io vmCount phase order stop st'] assms(3,4) by simp
next
  case (instance_done idx st crash io phase stop)
  then show ?thesis using run_done_attempts assms(3) by simp
next
  case (reproduced r st io phase stop res stats)
  then show ?thesis using repro_done_attempts [of env st r io vmCount res stats] assms(2-4) by simp
qed (use assms(3) in \<open>auto simp: attempts_inv_def busy_crashes_def\<close>)

interpretation tries: step_system "\<lambda>s. vm_start vmCount s \<and> \<not> ce_dash env" "vm_step writes_work env vmCount"
    "\<lambda>s. vm_inv vmCount s \<and> attempts_inv env (snd s) \<and> \<not> ce_dash env" for env vmCount
proof unfold_locales
  fix s assume "vm_start vmCount s \<and> \<not> ce_dash env"
  then show "vm_inv vmCount s \<and> attempts_inv env (snd s) \<and> \<not> ce_dash env"
    using vm_init_inv by (auto simp: vm_start_def attempts_inv_def busy_crashes_def vmLoop_init_def)
qed (use vm_step_inv vm_step_attempts in blast)

text \<open>
  C18: reproducing gives up. Without a dashboard, and as long as the files that record a failed
  attempt can be written when one fails, reproducing a crash of the manager itself fails at most
  \<open>maxReproAttempts\<close> times for each title, however often the crash comes back. Nothing is
  asked of the hash that names the directories; titles may share one. Titles of memory leaks
  are excepted: their failures are not recorded.
\<close>

theorem failed_repros_bounded:
  assumes "reaches (\<lambda>s. vm_start vmCount s \<and> \<not> ce_dash env) (vm_step writes_work env vmCount) (loc, st)"
    and "\<not> HasPrefix title MemoryLeakPrefix"
  shows "vl_failed st title \<le> maxReproAttempts"
proof -
  have "attempts_inv env st" using tries.reaches_inv [OF assms(1)] by simp
  then have "vl_failed st title \<le> attempts env (vm_files st) title" using assms(2) by (simp add: attempts_inv_def)
  also have "\<dots> \<le> maxReproAttempts" by (rule attempts_max)
  finally show ?thesis .
qed

section \<open>Logs\<close>

lemma log_slot_correct:
  "log_slot modTime is oldestI oldestTime \<in> insert oldestI (set is)"
  "i \<in> set is \<Longrightarrow> modTime i = None \<Longrightarrow> modTime (log_slot modTime is oldestI oldestTime) = None"
  by (induction "is" arbitrary: oldestI oldestTime) (auto split: option.splits)

lemma log_slot_oldest:
  assumes "\<forall>i \<in> set is. modTime i \<noteq> None" "oldestTime = modTime oldestI \<or> oldestTime = None \<and> is \<noteq> []" "oldestTime = None \<longrightarrow> is \<noteq> []"
    and "i \<in> set is \<or> oldestTime \<noteq> None \<and> i = oldestI" "modTime i = Some t"
  shows "\<exists>t0. modTime (log_slot modTime is oldestI oldestTime) = Some t0 \<and> t0 \<le> t"
  using assms
proof (induction "is" arbitrary: oldestI oldestTime i t)
  case (Cons j js)
  then obtain tj where tj: "modTime j = Some tj" by auto
  show ?case
  proof (cases "oldestTime = None \<or> tj < the oldestTime")
    case True
    then have eq: "log_slot modTime (j # js) oldestI oldestTime = log_slot modTime js j (Some tj)" using tj by (auto split: option.splits)
    show ?thesis
    proof (cases "i \<in> set js \<or> i = j")
      case True
      then show ?thesis using Cons.IH [of "Some tj" j i t] Cons.prems tj eq by auto
    next
      case False
      then have "i = oldestI" "tj < t" using Cons.prems True by auto
      then show ?thesis using Cons.IH [of "Some tj" j j tj] Cons.prems tj eq by (auto intro: order.trans less_imp_le)
    qed
  next
    case False
    then obtain t0 where t0: "oldestTime = Some t0" "t0 \<le> tj" "modTime oldestI = Some t0" using Cons.prems(2) by (cases oldestTime) auto
    then have eq: "log_slot modTime (j # js) oldestI oldestTime = log_slot modTime js oldestI (Some t0)" using tj by auto
    show ?thesis
    proof (cases "i = j")
      case True
      then have "t0 \<le> t" using t0 tj Cons.prems by simp
      then show ?thesis using Cons.IH [of "Some t0" oldestI oldestI t0] Cons.prems t0 eq by (auto intro: order.trans)
    next
      case False
      then show ?thesis using Cons.IH [of "Some t0" oldestI i t] Cons.prems t0 eq by auto
    qed
  qed
qed simp

text \<open>A crash that is saved locally overwrites no log while one of the hundred is free, and then an oldest one.\<close>

lemma save_locally_log:
  assumes "dir = ce_hash env (cr_Title crash)"
  shows "\<exists>k < 100. (if \<exists>i < 100. log_time (cs_files cs) dir i = None then log_time (cs_files cs) dir k = None
       else \<forall>i < 100. the (log_time (cs_files cs) dir k) \<le> the (log_time (cs_files cs) dir i))
    \<and> (\<forall>i. i \<noteq> k \<longrightarrow> cs_files (snd (save_locally env io crash cs)) (dir, numbered ''log'' i) = cs_files cs (dir, numbered ''log'' i))
    \<and> (ci_write io (numbered ''log'' k) \<longrightarrow>
       cs_files (snd (save_locally env io crash cs)) (dir, numbered ''log'' k) = Some (cr_Output crash, ci_now io))"
proof -
  define fs1 where "fs1 = WriteFile io dir ''description'' (cr_Title crash @ ''\<newline>'') (cs_files cs)"
  define k where "k = log_slot (log_time fs1 dir) [0..<100] 0 None"
  have same: "log_time fs1 dir = log_time (cs_files cs) dir" "\<And>i. fs1 (dir, numbered ''log'' i) = cs_files cs (dir, numbered ''log'' i)"
    by (simp_all add: fun_eq_iff log_time_def fs1_def WriteFile_def numbered_def)
  have "k \<in> insert 0 (set [0..<100])" unfolding k_def by (rule log_slot_correct(1))
  then have k: "k < 100" by auto
  have "if \<exists>i < 100. log_time (cs_files cs) dir i = None then log_time (cs_files cs) dir k = None
       else \<forall>i < 100. the (log_time (cs_files cs) dir k) \<le> the (log_time (cs_files cs) dir i)"
  proof (cases "\<exists>i < 100. log_time (cs_files cs) dir i = None")
    case True
    then obtain i where "i \<in> set [0..<100]" "log_time fs1 dir i = None" by (auto simp: same(1))
    from log_slot_correct(2) [where modTime = "log_time fs1 dir", OF this] show ?thesis using True by (simp add: k_def same(1))
  next
    case False
    then have all: "\<forall>i \<in> set [0..<100]. log_time fs1 dir i \<noteq> None" by (auto simp: same(1))
    have "the (log_time (cs_files cs) dir k) \<le> the (log_time (cs_files cs) dir i)" if "i < 100" for i
    proof -
      from all that obtain t where t: "log_time fs1 dir i = Some t" by fastforce
      from log_slot_oldest [OF all _ _ _ t, of None 0] that obtain t0 where "log_time fs1 dir k = Some t0" "t0 \<le> t" by (auto simp: k_def)
      then show ?thesis using t by (simp add: same(1))
    qed
    with False show ?thesis by (subst if_not_P) blast+
  qed
  moreover have "cs_files (snd (save_locally env io crash cs)) (dir, numbered ''log'' i)
      = (if i = k \<and> ci_write io (numbered ''log'' k) then Some (cr_Output crash, ci_now io) else cs_files cs (dir, numbered ''log'' i))" for i
  proof -
    have "cs_files (snd (save_locally env io crash cs)) = write_when (cr_Report crash \<noteq> []) io dir (numbered ''report'' k) (cr_Report crash)
        (write_when (ce_Tag env \<noteq> []) io dir (numbered ''tag'' k) (ce_Tag env) (WriteFile io dir (numbered ''log'' k) (cr_Output crash) fs1))"
      unfolding save_locally_def Let_def snd_conv write_when_def k_def fs1_def assms by simp
    then show ?thesis using FormatInt_inject [of i k] same(2) [of i] by (simp add: write_when_def WriteFile_def numbered_def)
  qed
  ultimately show ?thesis using k by (intro exI [of _ k]) auto
qed

section \<open>Witnesses\<close>

definition ex_crash_env :: crash_env where
  "ex_crash_env = \<lparr>ce_hash = (\<lambda>t. t), ce_Tag = [], ce_Reproduce = True, ce_dash = False, ce_EmailAddrs = []\<rparr>"

definition ex_crash_io :: crash_io where
  "ex_crash_io = \<lparr>ci_now = 7, ci_write = (\<lambda>_. True), ci_ReportCrash = None, ci_NeedRepro = (\<lambda>_. False), ci_ReportFailedRepro = False\<rparr>"

definition ex_crash :: Crash where
  "ex_crash = \<lparr>cr_vmIndex = 0, cr_hub = False, cr_Title = ''BUG'', cr_Output = ''log'', cr_Report = [], cr_Corrupted = False, cr_Suppressed = False\<rparr>"

definition ex_crash_state :: crash_state where
  "ex_crash_state = \<lparr>cs_memoryLeakFrames = Some [], cs_crashTypes = Some [], cs_stats = ex_stats, cs_newRepros = [], cs_emails = [], cs_files = (\<lambda>_. None)\<rparr>"

definition ex_vm1 :: VmLoop where
  "ex_vm1 = snd (loop_head ex_crash_env ex_crash_io 1 4 [] (vmLoop_init 1 ex_crash_state))"

definition ex_vm2 :: VmLoop where "ex_vm2 = run_done ex_crash_env ex_crash_io 0 (Some ex_crash) ex_vm1"

definition ex_vm3 :: VmLoop where "ex_vm3 = snd (loop_head ex_crash_env ex_crash_io 1 4 [ex_crash] ex_vm2)"

definition ex_vm4 :: VmLoop where "ex_vm4 = repro_done ex_crash_env ex_crash_io 1 ([0], ex_crash) None [] ex_vm3"

lemma ex_vm_facts:
  "vl_running ex_vm1 = [0]" "vl_pendingRepro ex_vm2 = [ex_crash]" "vl_open ex_vm2" "vl_repros ex_vm3 = [([0], ex_crash)]"
  "vl_failed ex_vm4 ''BUG'' = 1"
  by code_simp+

lemma ex_vm_run: "(vm_step writes_work ex_crash_env 1)\<^sup>*\<^sup>* (At_head, vmLoop_init 1 ex_crash_state) (At_head, ex_vm4)"
  "\<exists>stop. (vm_step writes_work ex_crash_env 1)\<^sup>*\<^sup>* (At_head, vmLoop_init 1 ex_crash_state) (Waiting 4 stop, ex_vm3)"
proof -
  let ?step = "vm_step writes_work ex_crash_env 1"
  have ok: "writes_work ex_crash_io" by (simp add: writes_work_def ex_crash_io_def)
  obtain stop1 where h1: "loop_head ex_crash_env ex_crash_io 1 4 [] (vmLoop_init 1 ex_crash_state) = (stop1, ex_vm1)"
    unfolding ex_vm1_def by (metis prod.collapse)
  have "?step (At_head, vmLoop_init 1 ex_crash_state) (Waiting 4 stop1, ex_vm1)"
    by (rule vm_step.head [OF _ _ _ h1]) (simp_all add: vmLoop_init_def ok)
  moreover have "?step (Waiting 4 stop1, ex_vm1) (At_head, ex_vm2)" unfolding ex_vm2_def
    by (rule vm_step.instance_done) (simp_all add: ex_vm_facts ok ex_crash_def)
  moreover obtain stop3 where h3: "loop_head ex_crash_env ex_crash_io 1 4 [ex_crash] ex_vm2 = (stop3, ex_vm3)"
    unfolding ex_vm3_def by (metis prod.collapse)
  have "?step (At_head, ex_vm2) (Waiting 4 stop3, ex_vm3)"
    by (rule vm_step.head [OF _ _ _ h3]) (simp_all add: ex_vm_facts ok)
  ultimately have 3: "?step\<^sup>*\<^sup>* (At_head, vmLoop_init 1 ex_crash_state) (Waiting 4 stop3, ex_vm3)"
    by (meson rtranclp.rtrancl_into_rtrancl rtranclp.rtrancl_refl)
  moreover have "?step (Waiting 4 stop3, ex_vm3) (At_head, ex_vm4)" unfolding ex_vm4_def
    by (rule vm_step.reproduced) (simp_all add: ex_vm_facts ok)
  ultimately show "?step\<^sup>*\<^sup>* (At_head, vmLoop_init 1 ex_crash_state) (At_head, ex_vm4)"
    by (rule rtranclp.rtrancl_into_rtrancl)
  show "\<exists>stop. ?step\<^sup>*\<^sup>* (At_head, vmLoop_init 1 ex_crash_state) (Waiting 4 stop, ex_vm3)" using 3 by blast
qed

lemma ex_vm_reached:
  "\<exists>stop. reaches (vm_start 1) (vm_step writes_work ex_crash_env 1) (Waiting 4 stop, ex_vm3)"
  using ex_vm_run(2) by (auto simp: vm_start_def reaches_conv)

theorem vm_machines_accounted_witness:
  "vl_repros ex_vm3 = [([0], ex_crash)] \<and> mset (vl_instances ex_vm3 @ vl_running ex_vm3 @ concat (map fst (vl_repros ex_vm3))) = mset [0..<1]"
  using ex_vm_reached vm_machines_accounted ex_vm_facts(4) by blast

theorem vm_loop_can_end_witness:
  "\<exists>stop st. (vm_step writes_work ex_crash_env 1)\<^sup>*\<^sup>* (Waiting 4 stop, ex_vm3) (Ended, st) \<and> mset (vl_instances st) = mset [0..<1]"
proof -
  obtain stop where s: "reaches (vm_start 1) (vm_step writes_work ex_crash_env 1) (Waiting 4 stop, ex_vm3)" using ex_vm_reached by blast
  have "writes_work ex_crash_io" by (simp add: writes_work_def ex_crash_io_def)
  from vm_loop_can_end [OF s _ this] show ?thesis by auto
qed

theorem failed_repros_bounded_witness: "vl_failed ex_vm4 ''BUG'' = 1 \<and> vl_failed ex_vm4 ''BUG'' \<le> maxReproAttempts"
proof -
  have "reaches (\<lambda>s. vm_start 1 s \<and> \<not> ce_dash ex_crash_env) (vm_step writes_work ex_crash_env 1) (At_head, ex_vm4)"
    using ex_vm_run(1) by (auto simp: reaches_conv vm_start_def ex_crash_env_def)
  moreover have "\<not> HasPrefix ''BUG'' MemoryLeakPrefix" by code_simp
  ultimately show ?thesis using failed_repros_bounded ex_vm_facts(5) by blast
qed

text \<open>A failed reproduction of a memory leak is not recorded, so that nothing bounds the attempts.\<close>

lemma leak_attempts_unrecorded:
  "HasPrefix title MemoryLeakPrefix \<Longrightarrow> needLocalRepro env c (cs_files (saveFailedRepro env io title stats cs)) = needLocalRepro env c (cs_files cs)"
  by (simp add: saveFailedRepro_def)

end
