(* ===== verification/Prog_Types.thy ===== *)
theory Prog_Types
  imports Go_Prelude
begin

text \<open>
  The types of arguments of system calls (\<open>prog/types.go\<close>) and which calls can be used when some
  are disabled (\<open>prog/resources.go\<close>).

  A type holds what the generated tables say about it. Types may be recursive through the fields of
  structs and unions, which the code reaches through a pointer to a description; here the fields
  are looked up in the target by the key of the description, as \<open>initTarget\<close> does, and the rest of
  the description is kept with the type. System calls are named by their number, which is their position
  in \<open>Syscalls\<close>.
\<close>

section \<open>Types\<close>

datatype Dir = DirIn | DirOut | DirInOut

type_synonym BinaryFormat = nat

definition FormatNative :: BinaryFormat where "FormatNative = 0"
definition FormatBigEndian :: BinaryFormat where "FormatBigEndian = 1"
definition FormatStrDec :: BinaryFormat where "FormatStrDec = 2"
definition FormatStrHex :: BinaryFormat where "FormatStrHex = 3"
definition FormatStrOct :: BinaryFormat where "FormatStrOct = 4"

record TypeCommon =
  TypeName :: string
  FldName :: string
  TypeSize :: uint64
  ArgDir :: Dir
  IsOptional :: bool
  IsVarlen :: bool

record IntTypeCommon = TypeCommon +
  ArgFormat :: BinaryFormat
  BitfieldOff :: uint64
  BitfieldLen :: uint64
  BitfieldMdl :: bool

record ResourceDesc =
  rd_Name :: string
  rd_Kind :: "string list"
  rd_Values :: "uint64 list"

datatype IntKind = IntPlain | IntFileoff | IntRange

datatype CsumKind = CsumInet | CsumPseudo

datatype BufferKind = BufferBlobRand | BufferBlobRange | BufferString | BufferFilename | BufferText

datatype TextKind = TextTarget | TextX86Real | TextX86bit16 | TextX86bit32 | TextX86bit64 | TextArm64

datatype ArrayKind = ArrayRandLen | ArrayRangeLen

record StructKey =
  sk_Name :: string
  sk_Dir :: Dir

datatype Type =
    ResourceType TypeCommon BinaryFormat ResourceDesc
  | ConstType IntTypeCommon uint64 bool
  | IntType IntTypeCommon IntKind uint64 uint64
  | FlagsType IntTypeCommon "uint64 list" bool
  | LenType IntTypeCommon uint64 string
  | ProcType IntTypeCommon uint64 uint64
  | CsumType IntTypeCommon CsumKind string uint64
  | VmaType TypeCommon uint64 uint64
  | BufferType TypeCommon BufferKind uint64 uint64 TextKind string "string list" bool
  | ArrayType TypeCommon Type ArrayKind uint64 uint64
  | PtrType TypeCommon Type
  | StructType StructKey string TypeCommon uint64
  | UnionType StructKey string TypeCommon uint64

record Syscall =
  sc_ID :: nat
  sc_NR :: uint64
  sc_Name :: string
  sc_CallName :: string
  sc_MissingArgs :: nat
  sc_Args :: "Type list"
  sc_Ret :: "Type option"

record Target =
  tg_OS :: string
  tg_PageSize :: uint64
  tg_NumPages :: uint64
  tg_DataOffset :: uint64
  tg_Syscalls :: "Syscall list"
  tg_Structs :: "(StructKey \<times> Type list) list"
  tg_SpecialPointers :: "uint64 list"

fun ty_common :: "Type \<Rightarrow> TypeCommon" where
  "ty_common (ResourceType t f d) = t"
| "ty_common (ConstType t v p) = TypeCommon.truncate t"
| "ty_common (IntType t k b e) = TypeCommon.truncate t"
| "ty_common (FlagsType t v b) = TypeCommon.truncate t"
| "ty_common (LenType t s b) = TypeCommon.truncate t"
| "ty_common (ProcType t s p) = TypeCommon.truncate t"
| "ty_common (CsumType t k b p) = TypeCommon.truncate t"
| "ty_common (VmaType t b e) = t"
| "ty_common (BufferType t k b e x s v z) = t"
| "ty_common (ArrayType t e k b n) = t"
| "ty_common (PtrType t e) = t"
| "ty_common (StructType k f t a) = t"
| "ty_common (UnionType k f t a) = t"

text \<open>The integer part of a type, for those that have one.\<close>

fun ty_int :: "Type \<Rightarrow> IntTypeCommon option" where
  "ty_int (ConstType t v p) = Some t"
| "ty_int (IntType t k b e) = Some t"
| "ty_int (FlagsType t v b) = Some t"
| "ty_int (LenType t s b) = Some t"
| "ty_int (ProcType t s p) = Some t"
| "ty_int (CsumType t k b p) = Some t"
| "ty_int _ = None"

definition ty_Name :: "Type \<Rightarrow> string" where "ty_Name t = TypeName (ty_common t)"

definition ty_FieldName :: "Type \<Rightarrow> string" where
  "ty_FieldName t = (case t of StructType k f c a \<Rightarrow> f | UnionType k f c a \<Rightarrow> f | _ \<Rightarrow> FldName (ty_common t))"

definition ty_Dir :: "Type \<Rightarrow> Dir" where "ty_Dir t = ArgDir (ty_common t)"

definition ty_Optional :: "Type \<Rightarrow> bool" where "ty_Optional t = IsOptional (ty_common t)"

definition ty_Varlen :: "Type \<Rightarrow> bool" where "ty_Varlen t = IsVarlen (ty_common t)"

definition ty_Size :: "Type \<Rightarrow> uint64 res" where
  "ty_Size t = (if IsVarlen (ty_common t) then Inl (Panic ''static type size is not known'') else Inr (TypeSize (ty_common t)))"

definition ty_Format :: "Type \<Rightarrow> BinaryFormat" where
  "ty_Format t = (case t of ResourceType c f d \<Rightarrow> f | _ \<Rightarrow> (case ty_int t of Some i \<Rightarrow> ArgFormat i | None \<Rightarrow> FormatNative))"

definition ty_BitfieldOffset :: "Type \<Rightarrow> uint64" where
  "ty_BitfieldOffset t = (case ty_int t of Some i \<Rightarrow> BitfieldOff i | None \<Rightarrow> 0)"

definition ty_BitfieldLength :: "Type \<Rightarrow> uint64" where
  "ty_BitfieldLength t = (case ty_int t of Some i \<Rightarrow> BitfieldLen i | None \<Rightarrow> 0)"

definition ty_BitfieldMiddle :: "Type \<Rightarrow> bool" where
  "ty_BitfieldMiddle t = (case ty_int t of Some i \<Rightarrow> BitfieldMdl i | None \<Rightarrow> False)"

definition IsPad :: "Type \<Rightarrow> bool" where
  "IsPad t = (case t of ConstType i v p \<Rightarrow> p | _ \<Rightarrow> False)"

definition res_Default :: "ResourceDesc \<Rightarrow> uint64 res" where
  "res_Default d = go_nth (rd_Values d) 0"

section \<open>Visiting types\<close>

text \<open>
  \<open>ForeachType\<close> visits the types a call reaches, a type before its parts, and the fields of a struct or
  union only the first time. The recursion of the code is a stack of the types still to be visited.
\<close>

definition tg_fields :: "Target \<Rightarrow> StructKey \<Rightarrow> Type list res" where
  "tg_fields tgt k = (case map_of (rev (tg_Structs tgt)) k of None \<Rightarrow> Inl (Panic ''no struct desc'') | Some fs \<Rightarrow> Inr fs)"

definition unseen :: "Target \<Rightarrow> StructKey list \<Rightarrow> nat" where
  "unseen tgt seen = card (fst ` set (tg_Structs tgt) - set seen)"

lemma unseen_less: "tg_fields tgt k = Inr fs \<Longrightarrow> k \<notin> set seen \<Longrightarrow> unseen tgt (k # seen) < unseen tgt seen"
proof -
  assume "tg_fields tgt k = Inr fs" "k \<notin> set seen"
  then have "k \<in> fst ` set (tg_Structs tgt) - set seen"
    by (auto simp: tg_fields_def split: option.splits dest!: map_of_SomeD intro: rev_image_eqI)
  then show ?thesis unfolding unseen_def by (intro psubset_card_mono) auto
qed

function visit_types :: "Target \<Rightarrow> Type list \<Rightarrow> StructKey list \<Rightarrow> Type list res" where
  "visit_types tgt [] seen = Inr []"
| "visit_types tgt (t # ts) seen = rmap (\<lambda>vs. t # vs)
    (case t of
      PtrType c t1 \<Rightarrow> visit_types tgt (t1 # ts) seen
    | ArrayType c t1 k b e \<Rightarrow> visit_types tgt (t1 # ts) seen
    | StructType k f c a \<Rightarrow> if k \<in> set seen then visit_types tgt ts seen
        else rbind (tg_fields tgt k) (\<lambda>fs. visit_types tgt (fs @ ts) (k # seen))
    | UnionType k f c a \<Rightarrow> if k \<in> set seen then visit_types tgt ts seen
        else rbind (tg_fields tgt k) (\<lambda>fs. visit_types tgt (fs @ ts) (k # seen))
    | _ \<Rightarrow> visit_types tgt ts seen)"
  by pat_completeness auto
termination
  by (relation "inv_image (less_than <*lex*> less_than) (\<lambda>(tgt, ts, seen). (unseen tgt seen, size_list size ts))")
    (auto intro: unseen_less)

definition ForeachType :: "Target \<Rightarrow> Syscall \<Rightarrow> Type list res" where
  "ForeachType tgt meta = visit_types tgt (sc_Args meta @ (case sc_Ret meta of None \<Rightarrow> [] | Some t \<Rightarrow> [t])) []"

end
