(* ===== verification/Prog_Resources.thy ===== *)
theory Prog_Resources
  imports Prog_Types
begin

text \<open>
  Which system calls can be used when only some are enabled (\<open>prog/resources.go\<close>): a call needs a way to
  create each resource it takes. \<open>TransitivelyEnabledCalls\<close> is shown to compute the least set that
  is closed under this, whatever the iteration orders.

  The set \<open>enabled\<close> is a Go map, visited in a new order in every round; the orders are an argument. The
  reason a call is disabled is the pair that the code prints into a message.
\<close>

definition timespecRes :: ResourceDesc where
  "timespecRes = \<lparr>rd_Name = ''timespec'', rd_Kind = [''timespec''], rd_Values = []\<rparr>"

definition isCompatibleResourceImpl :: "string list \<Rightarrow> string list \<Rightarrow> bool \<Rightarrow> bool" where
  "isCompatibleResourceImpl dst src precise =
    (if length dst > length src \<and> precise then False
     else let dst1 = (if length dst > length src then take (length src) dst else dst);
              src1 = (if length src > length dst1 then take (length dst1) src else src)
          in list_all2 (=) dst1 src1)"

definition creates_kind :: "string list \<Rightarrow> bool \<Rightarrow> Type \<Rightarrow> bool" where
  "creates_kind kind precise t =
    (case t of ResourceType c f d \<Rightarrow> ty_Dir t \<noteq> DirIn \<and> isCompatibleResourceImpl kind (rd_Kind d) precise | _ \<Rightarrow> False)"

definition ctor_of :: "Target \<Rightarrow> string list \<Rightarrow> bool \<Rightarrow> Syscall \<Rightarrow> Syscall list \<Rightarrow> Syscall list res" where
  "ctor_of tgt kind precise meta metas =
    rmap (\<lambda>ts. if list_ex (creates_kind kind precise) ts then metas @ [meta] else metas) (ForeachType tgt meta)"

text \<open>\<open>SyscallMap\<close> holds the last call of each name.\<close>

definition SyscallMap :: "Target \<Rightarrow> string \<Rightarrow> Syscall option" where
  "SyscallMap tgt name = find (\<lambda>c. sc_Name c = name) (rev (tg_Syscalls tgt))"

definition calcResourceCtors :: "Target \<Rightarrow> string list \<Rightarrow> bool \<Rightarrow> Syscall list res" where
  "calcResourceCtors tgt kind precise =
    rbind (rfold (ctor_of tgt kind precise) (tg_Syscalls tgt) []) (\<lambda>metas.
    rmap (\<lambda>k. if k = rd_Name timespecRes
      then (case SyscallMap tgt ''clock_gettime'' of None \<Rightarrow> metas | Some c \<Rightarrow> metas @ [c]) else metas) (go_nth kind 0))"

definition input_resource :: "Target \<Rightarrow> Type \<Rightarrow> ResourceDesc list" where
  "input_resource tgt t =
    (if ty_Dir t = DirOut then []
     else case t of
       ResourceType c f d \<Rightarrow> if IsOptional c then [] else [d]
     | StructType k f c a \<Rightarrow> if tg_OS tgt = ''linux'' \<and> (TypeName c = ''timespec'' \<or> TypeName c = ''timeval'') then [timespecRes] else []
     | _ \<Rightarrow> [])"

definition inputResources :: "Target \<Rightarrow> Syscall \<Rightarrow> ResourceDesc list res" where
  "inputResources tgt c = rmap (\<lambda>ts. concat (map (input_resource tgt) ts)) (ForeachType tgt c)"

definition output_resource :: "Type \<Rightarrow> ResourceDesc list" where
  "output_resource t = (case t of ResourceType c f d \<Rightarrow> if ty_Dir t \<noteq> DirIn then [d] else [] | _ \<Rightarrow> [])"

definition outputResources :: "Target \<Rightarrow> Syscall \<Rightarrow> ResourceDesc list res" where
  "outputResources tgt c = rmap (\<lambda>ts. concat (map output_resource ts) @ (if sc_CallName c = ''clock_gettime'' then [timespecRes] else []))
     (ForeachType tgt c)"

section \<open>Enabled calls\<close>

type_synonym calls_map = "(Syscall, bool) gomap"
type_synonym reasons = "(Syscall, string \<times> string list) gomap"

definition note_inputs :: "Target \<Rightarrow> Syscall \<Rightarrow> (Syscall, ResourceDesc list) gomap \<Rightarrow> (Syscall, ResourceDesc list) gomap res" where
  "note_inputs tgt c m = rmap (\<lambda>rs. go_set c rs m) (inputResources tgt c)"

definition inputs_in :: "(Syscall, ResourceDesc list) gomap \<Rightarrow> Syscall \<Rightarrow> ResourceDesc list" where
  "inputs_in m c = (case go_get m c of None \<Rightarrow> [] | Some rs \<Rightarrow> rs)"

definition is_set :: "('k, bool) gomap \<Rightarrow> 'k \<Rightarrow> bool" where
  "is_set m k \<longleftrightarrow> go_get m k = Some True"

definition enable_call ::
  "Target \<Rightarrow> (Syscall, ResourceDesc list) gomap \<Rightarrow> Syscall \<Rightarrow> calls_map \<times> (string, bool) gomap \<Rightarrow> (calls_map \<times> (string, bool) gomap) res" where
  "enable_call tgt inps c st =
    (case st of (supported, canCreate) \<Rightarrow>
     if is_set supported c then Inr st
     else if list_all (\<lambda>res. is_set canCreate (rd_Name res)) (inputs_in inps c)
     then rmap (\<lambda>outs. (go_set c True supported,
                        fold (\<lambda>res m. fold (\<lambda>kind. go_set kind True) (rd_Kind res) m) outs canCreate)) (outputResources tgt c)
     else Inr st)"

text \<open>The rounds of the loop; it ends with the round that adds no call.\<close>

partial_function (option) enable_rounds ::
  "Target \<Rightarrow> (Syscall, ResourceDesc list) gomap \<Rightarrow> (nat \<Rightarrow> Syscall list) \<Rightarrow> nat \<Rightarrow> calls_map \<times> (string, bool) gomap
    \<Rightarrow> (calls_map \<times> (string, bool) gomap) res option" where
  "enable_rounds tgt inps orders r st =
    (case rfold (enable_call tgt inps) (orders r) st of
      Inl e \<Rightarrow> Some (Inl e)
    | Inr st1 \<Rightarrow> if go_len (fst st) = go_len (fst st1) then Some (Inr st1)
        else enable_rounds tgt inps orders (Suc r) st1)"

declare enable_rounds.simps [code]

definition ctor_names :: "Target \<Rightarrow> ResourceDesc \<Rightarrow> (string, string list) gomap \<Rightarrow> (string, string list) gomap res" where
  "ctor_names tgt res ctors =
    (case go_get ctors (rd_Name res) of
      Some (n # ns) \<Rightarrow> Inr ctors
    | _ \<Rightarrow> rmap (\<lambda>calls. go_set (rd_Name res) (map sc_Name calls) ctors) (calcResourceCtors tgt (rd_Kind res) True))"

definition disable_call ::
  "Target \<Rightarrow> (Syscall, ResourceDesc list) gomap \<Rightarrow> calls_map \<Rightarrow> (string, bool) gomap \<Rightarrow> Syscall
    \<Rightarrow> reasons \<times> (string, string list) gomap \<Rightarrow> (reasons \<times> (string, string list) gomap) res" where
  "disable_call tgt inps supported canCreate c st =
    (case st of (disabled, ctors) \<Rightarrow>
     if is_set supported c then Inr st
     else case find (\<lambda>res. \<not> is_set canCreate (rd_Name res)) (inputs_in inps c) of
       None \<Rightarrow> Inr st
     | Some res \<Rightarrow> rmap (\<lambda>ctors1. (go_set c (rd_Name res, case go_get ctors1 (rd_Name res) of None \<Rightarrow> [] | Some ns \<Rightarrow> ns) disabled, ctors1))
         (ctor_names tgt res ctors))"

definition TransitivelyEnabledCalls :: "Target \<Rightarrow> (nat \<Rightarrow> Syscall list) \<Rightarrow> Syscall list \<Rightarrow> (calls_map \<times> reasons) res option" where
  "TransitivelyEnabledCalls tgt orders enabled =
    (case rfold (note_inputs tgt) enabled (Some []) of
      Inl e \<Rightarrow> Some (Inl e)
    | Inr inps \<Rightarrow> (case enable_rounds tgt inps orders 0 (Some [], Some []) of
        None \<Rightarrow> None
      | Some r \<Rightarrow> Some (rbind r (\<lambda>(supported, canCreate).
          rbind (rfold (disable_call tgt inps supported canCreate) enabled (Some [], Some [])) (\<lambda>(disabled, ctors).
          if length enabled \<noteq> go_len supported + go_len disabled then Inl (Panic ''lost syscalls'')
          else Inr (supported, disabled))))))"

section \<open>The least set of calls that can be used\<close>

text \<open>\<open>runnable\<close> says it without an order: a call is runnable when each resource it takes has a kind that a runnable
  call creates.\<close>

definition res_of :: "'a res \<Rightarrow> 'a \<Rightarrow> 'a" where
  "res_of r d = (case r of Inl e \<Rightarrow> d | Inr x \<Rightarrow> x)"

inductive runnable :: "Target \<Rightarrow> Syscall set \<Rightarrow> Syscall \<Rightarrow> bool" for tgt enabled where
  "c \<in> enabled \<Longrightarrow> inputResources tgt c = Inr ins \<Longrightarrow>
   (\<And>res. res \<in> set ins \<Longrightarrow> \<exists>d outs out. runnable tgt enabled d \<and> outputResources tgt d = Inr outs \<and> out \<in> set outs \<and> rd_Name res \<in> set (rd_Kind out)) \<Longrightarrow>
   runnable tgt enabled c"

definition creatable :: "Target \<Rightarrow> Syscall set \<Rightarrow> string \<Rightarrow> bool" where
  "creatable tgt enabled k \<longleftrightarrow> (\<exists>d outs out. runnable tgt enabled d \<and> outputResources tgt d = Inr outs \<and> out \<in> set outs \<and> k \<in> set (rd_Kind out))"

text \<open>What the tables have to provide: the fields of every struct that is reached, and a kind of every resource.\<close>

definition described :: "Target \<Rightarrow> Syscall list \<Rightarrow> bool" where
  "described tgt enabled \<longleftrightarrow> (\<forall>c \<in> set enabled \<union> set (tg_Syscalls tgt). \<exists>ts. ForeachType tgt c = Inr ts)
     \<and> (\<forall>c \<in> set enabled. \<forall>ins. inputResources tgt c = Inr ins \<longrightarrow> (\<forall>res \<in> set ins. rd_Kind res \<noteq> []))"

lemma described_io:
  assumes "described tgt enabled" "c \<in> set enabled"
  shows "\<exists>ins. inputResources tgt c = Inr ins" "\<exists>outs. outputResources tgt c = Inr outs"
  using assms by (force simp: described_def inputResources_def outputResources_def)+

definition inputs_noted :: "Target \<Rightarrow> Syscall list \<Rightarrow> (Syscall, ResourceDesc list) gomap \<Rightarrow> bool" where
  "inputs_noted tgt enabled inps \<longleftrightarrow> (\<forall>c \<in> set enabled. inputResources tgt c = Inr (inputs_in inps c))"

lemma note_inputs_all:
  assumes "described tgt enabled"
  shows "\<exists>inps. rfold (note_inputs tgt) enabled (Some []) = Inr inps \<and> inputs_noted tgt enabled inps"
proof -
  have "\<exists>inps. rfold (note_inputs tgt) cs m = Inr inps \<and> (\<forall>c. go_get inps c = (if c \<in> set cs then Some (res_of (inputResources tgt c) []) else go_get m c))"
    if "set cs \<subseteq> set enabled" for cs m
    using that
  proof (induction cs arbitrary: m)
    case (Cons c cs)
    then obtain ins where "inputResources tgt c = Inr ins" using described_io(1) [OF assms, of c] by auto
    then have step: "rfold (note_inputs tgt) (c # cs) m = rfold (note_inputs tgt) cs (go_set c ins m)" "res_of (inputResources tgt c) [] = ins"
      by (simp_all add: note_inputs_def res_of_def)
    have "set cs \<subseteq> set enabled" using Cons.prems by simp
    from Cons.IH [OF this, of "go_set c ins m"] show ?case unfolding step(1) using step(2) by (auto split: if_splits)
  qed simp
  from this [OF subset_refl, of "Some []"] show ?thesis
    using described_io(1) [OF assms] by (fastforce simp: inputs_noted_def inputs_in_def res_of_def)
qed

definition made_by :: "Target \<Rightarrow> Syscall \<Rightarrow> string \<Rightarrow> bool" where
  "made_by tgt c k \<longleftrightarrow> (\<exists>outs out. outputResources tgt c = Inr outs \<and> out \<in> set outs \<and> k \<in> set (rd_Kind out))"

definition rounds_inv :: "Target \<Rightarrow> Syscall list \<Rightarrow> calls_map \<times> (string, bool) gomap \<Rightarrow> bool" where
  "rounds_inv tgt enabled st \<longleftrightarrow> (case st of (spt, can) \<Rightarrow> wfm spt
     \<and> (\<forall>c. go_get spt c = None \<or> go_get spt c = Some True \<and> runnable tgt (set enabled) c)
     \<and> (\<forall>k. is_set can k \<longleftrightarrow> (\<exists>c. is_set spt c \<and> made_by tgt c k)))"

lemma runnable_enabled: "runnable tgt E c \<Longrightarrow> c \<in> E"
  by (erule runnable.cases) simp

lemma runnable_made: "creatable tgt E k \<longleftrightarrow> (\<exists>d. runnable tgt E d \<and> made_by tgt d k)"
  by (auto simp: creatable_def made_by_def)

lemma set_kinds: "is_set (fold (\<lambda>res m. fold (\<lambda>kind. go_set kind True) (rd_Kind res) m) outs can) k
  \<longleftrightarrow> is_set can k \<or> (\<exists>out \<in> set outs. k \<in> set (rd_Kind out))"
proof -
  have "is_set (fold (\<lambda>kind. go_set kind True) ks m) k \<longleftrightarrow> is_set m k \<or> k \<in> set ks" for ks and m :: "(string, bool) gomap"
    by (induction ks arbitrary: m) (auto simp: is_set_def)
  then show ?thesis by (induction outs arbitrary: can) auto
qed

lemma is_set_add: "is_set (go_set c True m) c' \<longleftrightarrow> c' = c \<or> is_set m c'"
  by (auto simp: is_set_def)

text \<open>A call is either left alone or becomes supported, and then the invariant stays.\<close>

lemma enable_call_cases:
  assumes inv: "rounds_inv tgt enabled (spt, can)" and c: "c \<in> set enabled" and d: "described tgt enabled" and n: "inputs_noted tgt enabled inps"
  obtains (same) "enable_call tgt inps c (spt, can) = Inr (spt, can)"
      "is_set spt c \<or> \<not> list_all (\<lambda>res. is_set can (rd_Name res)) (inputs_in inps c)"
    | (more) can' where "enable_call tgt inps c (spt, can) = Inr (go_set c True spt, can')" "\<not> is_set spt c" "rounds_inv tgt enabled (go_set c True spt, can')"
proof (cases "is_set spt c \<or> \<not> list_all (\<lambda>res. is_set can (rd_Name res)) (inputs_in inps c)")
  case True
  then show ?thesis by (intro same) (auto simp: enable_call_def)
next
  case False
  obtain outs where o: "outputResources tgt c = Inr outs" using described_io(2) [OF d c] by blast
  have r: "runnable tgt (set enabled) c"
  proof (rule runnable.intros [OF c])
    show "inputResources tgt c = Inr (inputs_in inps c)" using n c by (simp add: inputs_noted_def)
    fix res assume "res \<in> set (inputs_in inps c)"
    with False have "is_set can (rd_Name res)" by (simp add: list_all_iff)
    with inv obtain d where d: "is_set spt d" "made_by tgt d (rd_Name res)" by (auto simp: rounds_inv_def)
    then have "runnable tgt (set enabled) d" using inv by (simp add: rounds_inv_def is_set_def) (metis option.distinct(1))
    with d show "\<exists>d outs out. runnable tgt (set enabled) d \<and> outputResources tgt d = Inr outs \<and> out \<in> set outs \<and> rd_Name res \<in> set (rd_Kind out)"
      by (auto simp: made_by_def)
  qed
  let ?can = "fold (\<lambda>res m. fold (\<lambda>kind. go_set kind True) (rd_Kind res) m) outs can"
  have "made_by tgt c k \<longleftrightarrow> (\<exists>out \<in> set outs. k \<in> set (rd_Kind out))" for k using o by (auto simp: made_by_def)
  then have "is_set ?can k \<longleftrightarrow> (\<exists>c'. is_set (go_set c True spt) c' \<and> made_by tgt c' k)" for k
    using inv by (auto simp: set_kinds rounds_inv_def is_set_add)
  then have "rounds_inv tgt enabled (go_set c True spt, ?can)" using inv r by (auto simp: rounds_inv_def)
  with False o show ?thesis by (intro more [of ?can]) (auto simp: enable_call_def)
qed

lemma enable_round:
  assumes "rounds_inv tgt enabled st" "set cs \<subseteq> set enabled" "described tgt enabled" "inputs_noted tgt enabled inps"
  shows "\<exists>st1. rfold (enable_call tgt inps) cs st = Inr st1 \<and> rounds_inv tgt enabled st1 \<and> go_len (fst st) \<le> go_len (fst st1)
    \<and> (go_len (fst st) = go_len (fst st1) \<longrightarrow> st1 = st
       \<and> (\<forall>c \<in> set cs. is_set (fst st) c \<or> \<not> list_all (\<lambda>res. is_set (snd st) (rd_Name res)) (inputs_in inps c)))"
  using assms(1,2)
proof (induction cs arbitrary: st)
  case (Cons c cs)
  obtain spt can where st: "st = (spt, can)" by (cases st)
  from Cons.prems have c: "c \<in> set enabled" "set cs \<subseteq> set enabled" by auto
  from Cons.prems(1)[unfolded st] c(1) assms(3,4) show ?case
  proof (cases rule: enable_call_cases)
    case same
    then show ?thesis using Cons.IH [OF Cons.prems(1) c(2)] st by auto
  next
    case (more can')
    from Cons.prems(1) more(2) have "\<not> go_has spt c" by (auto simp: st rounds_inv_def is_set_def go_key_iff)
    then have "go_len (go_set c True spt) = Suc (go_len spt)" by (simp add: go_len_set)
    with more show ?thesis using Cons.IH [OF more(3) c(2)] st by auto
  qed
qed auto

lemma go_len_card: "wfm m \<Longrightarrow> go_len m = card (set (go_keys m))"
proof -
  assume "wfm m"
  then have "card (set (go_keys m)) = length (go_keys m)" by (simp add: wfm_def distinct_card)
  then show ?thesis by (simp add: go_len_def go_keys_def)
qed

lemma go_len_keys_le: "wfm m \<Longrightarrow> set (go_keys m) \<subseteq> A \<Longrightarrow> finite A \<Longrightarrow> go_len m \<le> card A"
  by (simp add: go_len_card card_mono)

definition closed_calls :: "Target \<Rightarrow> (Syscall, ResourceDesc list) gomap \<Rightarrow> Syscall list \<Rightarrow> calls_map \<times> (string, bool) gomap \<Rightarrow> bool" where
  "closed_calls tgt inps enabled st \<longleftrightarrow>
     (\<forall>c \<in> set enabled. is_set (fst st) c \<or> \<not> list_all (\<lambda>res. is_set (snd st) (rd_Name res)) (inputs_in inps c))"

lemma enable_rounds_returns:
  assumes "described tgt enabled" "inputs_noted tgt enabled inps" "\<forall>r. set (orders r) = set enabled" "rounds_inv tgt enabled st"
  shows "\<exists>st1. enable_rounds tgt inps orders r st = Some (Inr st1) \<and> rounds_inv tgt enabled st1 \<and> closed_calls tgt inps enabled st1"
  using assms(4)
proof (induction "card (set enabled) - go_len (fst st)" arbitrary: st r rule: less_induct)
  case less
  obtain st1 where st1: "rfold (enable_call tgt inps) (orders r) st = Inr st1" "rounds_inv tgt enabled st1" "go_len (fst st) \<le> go_len (fst st1)"
    "go_len (fst st) = go_len (fst st1) \<longrightarrow> st1 = st
       \<and> (\<forall>c \<in> set (orders r). is_set (fst st) c \<or> \<not> list_all (\<lambda>res. is_set (snd st) (rd_Name res)) (inputs_in inps c))"
    using enable_round [OF less.prems _ assms(1,2), of "orders r"] assms(3) by auto
  show ?case
  proof (cases "go_len (fst st) = go_len (fst st1)")
    case True
    then show ?thesis using st1 assms(3) by (subst enable_rounds.simps) (simp add: closed_calls_def)
  next
    case False
    have "set (go_keys (fst st1)) \<subseteq> set enabled"
    proof
      fix c assume "c \<in> set (go_keys (fst st1))"
      then obtain b where "go_get (fst st1) c = Some b" by (auto simp: go_key_iff)
      then show "c \<in> set enabled" using st1(2) runnable_enabled by (auto simp: rounds_inv_def split: prod.splits) (metis option.distinct(1))
    qed
    then have "go_len (fst st1) \<le> card (set enabled)" using go_len_keys_le st1(2) by (auto simp: rounds_inv_def split: prod.splits)
    then have "card (set enabled) - go_len (fst st1) < card (set enabled) - go_len (fst st)" using False st1(3) by simp
    from less.hyps [OF this st1(2), of "Suc r"] show ?thesis using st1(1) False by (subst enable_rounds.simps) simp
  qed
qed

section \<open>The result\<close>

lemma closed_is_runnable:
  assumes "rounds_inv tgt enabled (spt, can)" "closed_calls tgt inps enabled (spt, can)" "inputs_noted tgt enabled inps"
  shows "is_set spt c \<longleftrightarrow> runnable tgt (set enabled) c" "is_set can k \<longleftrightarrow> creatable tgt (set enabled) k"
proof -
  have 1: "is_set spt c \<Longrightarrow> runnable tgt (set enabled) c" for c
    using assms(1) by (simp add: rounds_inv_def is_set_def) (metis option.distinct(1))
  moreover have 2: "runnable tgt (set enabled) c \<Longrightarrow> is_set spt c" for c
  proof (induction rule: runnable.induct)
    case (1 c ins)
    then have "inputs_in inps c = ins" using assms(3) by (simp add: inputs_noted_def)
    moreover have "is_set can (rd_Name res)" if r: "res \<in> set ins" for res
    proof -
      from 1(3) [OF r] obtain d where "is_set spt d" "made_by tgt d (rd_Name res)" by (auto simp: made_by_def)
      then show ?thesis using assms(1) by (auto simp: rounds_inv_def)
    qed
    ultimately show ?case using assms(2) 1(1) by (auto simp: closed_calls_def list_all_iff)
  qed
  ultimately show "is_set spt c \<longleftrightarrow> runnable tgt (set enabled) c" by blast
  show "is_set can k \<longleftrightarrow> creatable tgt (set enabled) k"
    using assms(1) 1 2 by (auto simp: rounds_inv_def runnable_made)
qed

lemma ctors_return:
  assumes "described tgt enabled" "kind \<noteq> []"
  shows "\<exists>metas. calcResourceCtors tgt kind precise = Inr metas"
proof -
  have "\<exists>metas'. ctor_of tgt kind precise c metas = Inr metas' \<and> True" if c: "c \<in> set (tg_Syscalls tgt)" for c metas
  proof -
    obtain ts where "ForeachType tgt c = Inr ts" using assms(1) c unfolding described_def by blast
    then show ?thesis by (simp add: ctor_of_def)
  qed
  from rfold_total [where I = "\<lambda>_. True" and f = "ctor_of tgt kind precise" and xs = "tg_Syscalls tgt" and s = "[]", OF TrueI this]
  have "\<exists>metas. rfold (ctor_of tgt kind precise) (tg_Syscalls tgt) [] = Inr metas" by blast
  with assms(2) show ?thesis by (auto simp: calcResourceCtors_def go_nth_def)
qed

text \<open>The reason given for a call: the first resource it takes that no supported call creates.\<close>

definition lacks :: "Target \<Rightarrow> Syscall list \<Rightarrow> Syscall \<Rightarrow> string \<Rightarrow> bool" where
  "lacks tgt enabled c name \<longleftrightarrow> (\<exists>ins res. inputResources tgt c = Inr ins \<and> res \<in> set ins \<and> rd_Name res = name \<and> \<not> creatable tgt (set enabled) name)"

lemma disable_all:
  assumes d: "described tgt enabled" and n: "inputs_noted tgt enabled inps"
    and inv: "rounds_inv tgt enabled (spt, can)" "closed_calls tgt inps enabled (spt, can)" and cs: "set cs \<subseteq> set enabled"
    and dis: "wfm dis" "\<forall>c r. go_get dis c = Some r \<longrightarrow> lacks tgt enabled c (fst r)"
  shows "\<exists>dis' ctors'. rfold (disable_call tgt inps spt can) cs (dis, ctors) = Inr (dis', ctors') \<and> wfm dis'
    \<and> set (go_keys dis') = set (go_keys dis) \<union> {c \<in> set cs. \<not> runnable tgt (set enabled) c}
    \<and> (\<forall>c r. go_get dis' c = Some r \<longrightarrow> lacks tgt enabled c (fst r))"
  using cs dis
proof (induction cs arbitrary: dis ctors)
  case (Cons c cs)
  note run = closed_is_runnable [OF inv n]
  from Cons.prems(1) have c: "c \<in> set enabled" "set cs \<subseteq> set enabled" by auto
  show ?case
  proof (cases "is_set spt c")
    case True
    then show ?thesis using Cons.IH [OF c(2) Cons.prems(2,3), of ctors] run(1) [of c] by (auto simp: disable_call_def)
  next
    case False
    then have "\<not> list_all (\<lambda>res. is_set can (rd_Name res)) (inputs_in inps c)" using inv(2) c(1) by (auto simp: closed_calls_def)
    then obtain res where f: "find (\<lambda>res. \<not> is_set can (rd_Name res)) (inputs_in inps c) = Some res"
      by (cases "find (\<lambda>res. \<not> is_set can (rd_Name res)) (inputs_in inps c)") (auto simp: find_None_iff list_all_iff)
    then have res: "res \<in> set (inputs_in inps c)" "\<not> is_set can (rd_Name res)" by (auto simp: find_Some_iff)
    have ins: "inputResources tgt c = Inr (inputs_in inps c)" using n c(1) by (simp add: inputs_noted_def)
    then have "rd_Kind res \<noteq> []" using d c(1) res(1) by (auto simp: described_def)
    from ctors_return [OF d this, of True] obtain metas where "calcResourceCtors tgt (rd_Kind res) True = Inr metas" by blast
    then have "\<exists>ctors1. ctor_names tgt res ctors = Inr ctors1"
      by (auto simp: ctor_names_def split: option.split list.split)
    then obtain ctors1 where ctors1: "ctor_names tgt res ctors = Inr ctors1" by blast
    have "lacks tgt enabled c (rd_Name res)" using ins res run(2) by (auto simp: lacks_def)
    moreover have "disable_call tgt inps spt can c (dis, ctors)
        = Inr (go_set c (rd_Name res, case go_get ctors1 (rd_Name res) of None \<Rightarrow> [] | Some ns \<Rightarrow> ns) dis, ctors1)"
      using False f ctors1 by (simp add: disable_call_def)
    ultimately obtain r where r: "disable_call tgt inps spt can c (dis, ctors) = Inr (go_set c r dis, ctors1)" "lacks tgt enabled c (fst r)" by (metis fst_conv)
    have "wfm (go_set c r dis)" "\<forall>c' r'. go_get (go_set c r dis) c' = Some r' \<longrightarrow> lacks tgt enabled c' (fst r')"
      using Cons.prems(2,3) r(2) by auto
    from Cons.IH [OF c(2) this, of ctors1] show ?thesis using r(1) False run(1) [of c] by auto
  qed
qed auto

text \<open>
  C23: \<open>TransitivelyEnabledCalls\<close> returns, and computes exactly the least set: a call is supported
  if and only if it is runnable, that is, it is enabled and every resource it takes can be
  created by runnable calls. Every other enabled call is disabled, with a resource it takes and no runnable
  call creates. The iteration orders do not matter, and no call is lost.
\<close>

theorem TransitivelyEnabledCalls_least:
  assumes "described tgt enabled" "distinct enabled" "\<forall>r. set (orders r) = set enabled"
  shows "\<exists>spt dis. TransitivelyEnabledCalls tgt orders enabled = Some (Inr (spt, dis))
    \<and> set (go_keys spt) = {c. runnable tgt (set enabled) c}
    \<and> set (go_keys dis) = set enabled - {c. runnable tgt (set enabled) c}
    \<and> (\<forall>c r. go_get dis c = Some r \<longrightarrow> lacks tgt enabled c (fst r))"
proof -
  obtain inps where inps: "rfold (note_inputs tgt) enabled (Some []) = Inr inps" "inputs_noted tgt enabled inps"
    using note_inputs_all [OF assms(1)] by blast
  have "rounds_inv tgt enabled (Some [], Some [])" by (simp add: rounds_inv_def is_set_def)
  from enable_rounds_returns [OF assms(1) inps(2) assms(3) this, of 0]
  obtain spt can where st: "enable_rounds tgt inps orders 0 (Some [], Some []) = Some (Inr (spt, can))"
    "rounds_inv tgt enabled (spt, can)" "closed_calls tgt inps enabled (spt, can)" by auto
  obtain dis ctors where dis: "rfold (disable_call tgt inps spt can) enabled (Some [], Some []) = Inr (dis, ctors)" "wfm dis"
    "set (go_keys dis) = {c \<in> set enabled. \<not> runnable tgt (set enabled) c}" "\<forall>c r. go_get dis c = Some r \<longrightarrow> lacks tgt enabled c (fst r)"
    using disable_all [OF assms(1) inps(2) st(2,3) subset_refl, of "Some []" "Some []"] by auto
  have keys: "set (go_keys spt) = {c. runnable tgt (set enabled) c}"
  proof -
    have "go_get spt c = None \<or> go_get spt c = Some True" for c using st(2) unfolding rounds_inv_def by auto
    then have "c \<in> set (go_keys spt) \<longleftrightarrow> is_set spt c" for c unfolding go_key_iff is_set_def by (metis option.distinct(1))
    then show ?thesis using closed_is_runnable(1) [OF st(2,3) inps(2)] by blast
  qed
  have "card {c. runnable tgt (set enabled) c} + card {c \<in> set enabled. \<not> runnable tgt (set enabled) c} = card (set enabled)"
    by (subst card_Un_disjoint [symmetric]) (auto intro!: arg_cong [of _ _ card] finite_subset [OF _ finite_set [of enabled]] dest: runnable_enabled)
  then have "length enabled = go_len spt + go_len dis"
    using go_len_card [OF dis(2)] go_len_card [of spt] st(2) keys dis(3) assms(2) by (simp add: rounds_inv_def distinct_card)
  then have "TransitivelyEnabledCalls tgt orders enabled = Some (Inr (spt, dis))"
    by (simp add: TransitivelyEnabledCalls_def inps(1) st(1) dis(1))
  with keys dis(3,4) show ?thesis by (intro exI [of _ spt] exI [of _ dis]) auto
qed

section \<open>Witness\<close>

text \<open>A call that creates a descriptor, one that takes it, and one that takes a socket nobody creates.\<close>

definition ex_common :: "Dir \<Rightarrow> TypeCommon" where
  "ex_common d = \<lparr>TypeName = ''fd'', FldName = ''fd'', TypeSize = 4, ArgDir = d, IsOptional = False, IsVarlen = False\<rparr>"

definition ex_fd :: ResourceDesc where "ex_fd = \<lparr>rd_Name = ''fd'', rd_Kind = [''fd''], rd_Values = [0]\<rparr>"

definition ex_sock :: ResourceDesc where "ex_sock = \<lparr>rd_Name = ''sock'', rd_Kind = [''fd'', ''sock''], rd_Values = [0]\<rparr>"

definition ex_open_call :: Syscall where
  "ex_open_call = \<lparr>sc_ID = 0, sc_NR = 0, sc_Name = ''open'', sc_CallName = ''open'', sc_MissingArgs = 0, sc_Args = [], sc_Ret = Some (ResourceType (ex_common DirOut) 0 ex_fd)\<rparr>"

definition ex_read_call :: Syscall where
  "ex_read_call = \<lparr>sc_ID = 1, sc_NR = 0, sc_Name = ''read'', sc_CallName = ''read'', sc_MissingArgs = 0, sc_Args = [ResourceType (ex_common DirIn) 0 ex_fd], sc_Ret = None\<rparr>"

definition ex_send_call :: Syscall where
  "ex_send_call = \<lparr>sc_ID = 2, sc_NR = 0, sc_Name = ''send'', sc_CallName = ''send'', sc_MissingArgs = 0, sc_Args = [ResourceType (ex_common DirIn) 0 ex_sock], sc_Ret = None\<rparr>"

definition ex_calls :: "Syscall list" where "ex_calls = [ex_send_call, ex_read_call, ex_open_call]"

definition ex_target :: Target where
  "ex_target = \<lparr>tg_OS = ''linux'', tg_PageSize = 4096, tg_NumPages = 4096, tg_DataOffset = 0x20000000, tg_Syscalls = rev ex_calls,
     tg_Structs = [], tg_SpecialPointers = [0, 0xffffffffffffffff, 0x9999999999999999]\<rparr>"

lemma ex_calls_described: "described ex_target ex_calls" "distinct ex_calls"
  by (simp_all add: described_def ex_calls_def ex_target_def ForeachType_def inputResources_def input_resource_def
      ex_open_call_def ex_read_call_def ex_send_call_def ex_fd_def ex_sock_def)

theorem TransitivelyEnabledCalls_least_witness:
  "\<exists>spt dis. TransitivelyEnabledCalls ex_target (\<lambda>_. ex_calls) ex_calls = Some (Inr (spt, dis))
    \<and> map sc_Name (go_keys spt) = [''open'', ''read''] \<and> map sc_Name (go_keys dis) = [''send'']
    \<and> runnable ex_target (set ex_calls) ex_read_call \<and> \<not> runnable ex_target (set ex_calls) ex_send_call"
proof -
  obtain spt dis where t: "TransitivelyEnabledCalls ex_target (\<lambda>_. ex_calls) ex_calls = Some (Inr (spt, dis))"
    "set (go_keys spt) = {c. runnable ex_target (set ex_calls) c}" "set (go_keys dis) = set ex_calls - {c. runnable ex_target (set ex_calls) c}"
    using TransitivelyEnabledCalls_least [OF ex_calls_described, of "\<lambda>_. ex_calls"] by auto
  have "map_option (rmap (\<lambda>(spt, dis). (go_keys spt, go_keys dis))) (TransitivelyEnabledCalls ex_target (\<lambda>_. ex_calls) ex_calls)
      = Some (Inr ([ex_open_call, ex_read_call], [ex_send_call]))" by code_simp
  then have "go_keys spt = [ex_open_call, ex_read_call]" "go_keys dis = [ex_send_call]" by (simp_all add: t(1))
  then show ?thesis using t by (auto simp: ex_open_call_def ex_read_call_def ex_send_call_def)
qed

end
