(* ===== verification/Prog_Edit.thy ===== *)
theory Prog_Edit
  imports Prog_Resources "HOL-Library.Sublist"
begin

text \<open>
  Programs and how they are edited: \<open>prog/prog.go\<close>, \<open>prog/clone.go\<close>, the walk over the arguments of a
  call in \<open>prog/analysis.go\<close> and the removal of calls in \<open>prog/minimization.go\<close>.

  The arguments of a call are a tree. The arguments that hold results refer to each other across the
  tree, both ways (\<open>Res\<close> and \<open>uses\<close>), and are changed through these references; they are objects of a
  heap, and the tree holds their addresses. The other arguments carry the address that identifies them.
  A callback that a walk takes is run over the list of the arguments it visits; none of the callbacks
  here sets \<open>Stop\<close>.
\<close>

section \<open>Programs\<close>

type_synonym ptr = nat

datatype Arg =
    ConstArg ptr Type uint64
  | PointerArg ptr Type uint64 uint64 "Arg option"
  | DataArg ptr Type bytes uint64
  | GroupArg ptr Type "Arg list"
  | UnionArg ptr Type Arg
  | ResultArg ptr

record result_arg =
  ra_typ :: Type
  ra_Res :: "ptr option"
  ra_OpDiv :: uint64
  ra_OpAdd :: uint64
  ra_Val :: uint64
  ra_uses :: "(ptr, bool) gomap"

record arg_heap =
  h_obj :: "ptr \<Rightarrow> result_arg"
  h_next :: ptr

record prog_call =
  c_ptr :: ptr
  c_Meta :: Syscall
  c_Args :: "Arg list"
  c_Ret :: "ptr option"
  c_Comment :: string

record program =
  pg_Calls :: "prog_call list"
  pg_Comments :: "string list"

definition h_upd :: "ptr \<Rightarrow> (result_arg \<Rightarrow> result_arg) \<Rightarrow> arg_heap \<Rightarrow> arg_heap" where
  "h_upd p f h = h\<lparr>h_obj := (h_obj h)(p := f (h_obj h p))\<rparr>"

definition h_new :: "result_arg \<Rightarrow> arg_heap \<Rightarrow> ptr \<times> arg_heap" where
  "h_new a h = (h_next h, h\<lparr>h_obj := (h_obj h)(h_next h := a), h_next := Suc (h_next h)\<rparr>)"

fun arg_Type :: "arg_heap \<Rightarrow> Arg \<Rightarrow> Type" where
  "arg_Type h (ConstArg p t v) = t"
| "arg_Type h (PointerArg p t a s r) = t"
| "arg_Type h (DataArg p t d s) = t"
| "arg_Type h (GroupArg p t as) = t"
| "arg_Type h (UnionArg p t a) = t"
| "arg_Type h (ResultArg p) = ra_typ (h_obj h p)"

definition maxSpecialPointers :: uint64 where "maxSpecialPointers = 16"

definition MakePointerArg :: "ptr \<Rightarrow> Type \<Rightarrow> uint64 \<Rightarrow> Arg option \<Rightarrow> Arg res" where
  "MakePointerArg p t addr data = (case data of None \<Rightarrow> Inl (Panic ''nil pointer data arg'') | Some d \<Rightarrow> Inr (PointerArg p t addr 0 (Some d)))"

definition MakeVmaPointerArg :: "ptr \<Rightarrow> Type \<Rightarrow> uint64 \<Rightarrow> uint64 \<Rightarrow> Arg res" where
  "MakeVmaPointerArg p t addr sz = (if addr mod 1024 \<noteq> 0 then Inl (Panic ''unaligned vma address'') else Inr (PointerArg p t addr sz None))"

definition MakeSpecialPointerArg :: "ptr \<Rightarrow> Type \<Rightarrow> uint64 \<Rightarrow> Arg res" where
  "MakeSpecialPointerArg p t index = (if index \<ge> maxSpecialPointers then Inl (Panic ''bad special pointer index'') else Inr (PointerArg p t (- index) 0 None))"

definition IsSpecial :: "uint64 \<Rightarrow> uint64 \<Rightarrow> Arg option \<Rightarrow> bool" where
  "IsSpecial addr vmaSize r \<longleftrightarrow> vmaSize = 0 \<and> r = None \<and> - addr < maxSpecialPointers"

definition PhysicalAddr :: "Target \<Rightarrow> uint64 \<Rightarrow> uint64 \<Rightarrow> Arg option \<Rightarrow> uint64 res" where
  "PhysicalAddr tgt addr vmaSize r =
    (if IsSpecial addr vmaSize r then go_nth (tg_SpecialPointers tgt) (uint (- addr)) else Inr (tg_DataOffset tgt + addr))"

definition procDefaultValue :: uint64 where "procDefaultValue = 0xffffffffffffffff"

definition const_Value :: "Type \<Rightarrow> uint64 \<Rightarrow> (uint64 \<times> uint64) res" where
  "const_Value t v =
    (case t of
      IntType i k b e \<Rightarrow> Inr (v, 0)
    | ConstType i x p \<Rightarrow> Inr (v, 0)
    | FlagsType i vs b \<Rightarrow> Inr (v, 0)
    | LenType i s b \<Rightarrow> Inr (v, 0)
    | ResourceType c f d \<Rightarrow> Inr (v, 0)
    | CsumType i k b p \<Rightarrow> Inr (0, 0)
    | ProcType i start perProc \<Rightarrow> if v = procDefaultValue then Inr (0, 0) else Inr (start + v, perProc)
    | _ \<Rightarrow> Inl (Panic ''unknown ConstArg type''))"

text \<open>\<open>MakeResultArg\<close> with the reference the new argument makes, and \<open>MakeReturnArg\<close>.\<close>

definition MakeResultArg :: "Type \<Rightarrow> ptr option \<Rightarrow> uint64 \<Rightarrow> arg_heap \<Rightarrow> ptr \<times> arg_heap" where
  "MakeResultArg t r v h =
    (case h_new \<lparr>ra_typ = t, ra_Res = r, ra_OpDiv = 0, ra_OpAdd = 0, ra_Val = v, ra_uses = None\<rparr> h of (p, h1) \<Rightarrow>
     (p, case r of None \<Rightarrow> h1 | Some q \<Rightarrow> h_upd q (\<lambda>a. a\<lparr>ra_uses := go_set p True (ra_uses a)\<rparr>) h1))"

definition MakeReturnArg :: "Type option \<Rightarrow> arg_heap \<Rightarrow> (ptr option \<times> arg_heap) res" where
  "MakeReturnArg t h =
    (case t of
      None \<Rightarrow> Inr (None, h)
    | Some t \<Rightarrow> if ty_Dir t \<noteq> DirOut then Inl (Panic ''return arg is not out'')
        else case MakeResultArg t None 0 h of (p, h1) \<Rightarrow> Inr (Some p, h1))"

fun arg_Size :: "arg_heap \<Rightarrow> Arg \<Rightarrow> uint64 res"
and inner_Size :: "arg_heap \<Rightarrow> bool \<Rightarrow> Arg list \<Rightarrow> uint64 res" where
  "arg_Size h (ConstArg p t v) = ty_Size t"
| "arg_Size h (PointerArg p t a s r) = ty_Size t"
| "arg_Size h (DataArg p t d s) = Inr (if d \<noteq> [] then of_nat (length d) else s)"
| "arg_Size h (GroupArg p t inner) =
    (if \<not> ty_Varlen t then ty_Size t
     else case t of
       StructType k f c align \<Rightarrow> rmap (\<lambda>sz. if align \<noteq> 0 \<and> sz mod align \<noteq> 0 then sz + (align - sz mod align) else sz) (inner_Size h True inner)
     | ArrayType c e k b n \<Rightarrow> inner_Size h False inner
     | _ \<Rightarrow> Inl (Panic ''bad group arg type''))"
| "arg_Size h (UnionArg p t opt) = (if \<not> ty_Varlen t then ty_Size t else arg_Size h opt)"
| "arg_Size h (ResultArg p) = ty_Size (ra_typ (h_obj h p))"
| "inner_Size h struct [] = Inr 0"
| "inner_Size h struct (a # as) =
    rbind (if struct \<and> ty_BitfieldMiddle (arg_Type h a) then Inr 0 else arg_Size h a) (\<lambda>sz.
    rmap (\<lambda>rest. sz + rest) (inner_Size h struct as))"

section \<open>Walking over arguments\<close>

record ArgCtx =
  ctx_Parent :: "Arg list option"
  ctx_Base :: "Arg option"
  ctx_Offset :: uint64

definition bad_group :: "Type \<Rightarrow> uint64 \<Rightarrow> uint64 \<Rightarrow> bool" where
  "bad_group t totalSize claimed \<longleftrightarrow> ty_Varlen t \<and> totalSize > claimed \<or> \<not> ty_Varlen t \<and> totalSize \<noteq> claimed"

fun foreachArgImpl :: "arg_heap \<Rightarrow> ArgCtx \<Rightarrow> Arg \<Rightarrow> (Arg \<times> ArgCtx) list res"
and foreach_inner :: "arg_heap \<Rightarrow> ArgCtx \<Rightarrow> Arg list \<Rightarrow> ((Arg \<times> ArgCtx) list \<times> uint64) res" where
  "foreachArgImpl h ctx (GroupArg p t inner) =
    rbind (foreach_inner h (if (case t of StructType k f c a \<Rightarrow> True | _ \<Rightarrow> False) then ctx\<lparr>ctx_Parent := Some inner\<rparr> else ctx) inner) (\<lambda>(vs, totalSize).
    rbind (arg_Size h (GroupArg p t inner)) (\<lambda>claimed.
    if bad_group t totalSize claimed then Inl (Panic ''bad group arg size'') else Inr ((GroupArg p t inner, ctx) # vs)))"
| "foreachArgImpl h ctx (PointerArg p t a s (Some r)) =
    rmap (\<lambda>vs. (PointerArg p t a s (Some r), ctx) # vs)
      (foreachArgImpl h (ctx\<lparr>ctx_Base := Some (PointerArg p t a s (Some r)), ctx_Offset := 0\<rparr>) r)"
| "foreachArgImpl h ctx (UnionArg p t opt) = rmap (\<lambda>vs. (UnionArg p t opt, ctx) # vs) (foreachArgImpl h ctx opt)"
| "foreachArgImpl h ctx (PointerArg p t a s None) = Inr [(PointerArg p t a s None, ctx)]"
| "foreachArgImpl h ctx (ConstArg p t v) = Inr [(ConstArg p t v, ctx)]"
| "foreachArgImpl h ctx (DataArg p t d s) = Inr [(DataArg p t d s, ctx)]"
| "foreachArgImpl h ctx (ResultArg p) = Inr [(ResultArg p, ctx)]"
| "foreach_inner h ctx [] = Inr ([], 0)"
| "foreach_inner h ctx (a # as) =
    rbind (foreachArgImpl h ctx a) (\<lambda>vs.
    rbind (if ty_BitfieldMiddle (arg_Type h a) then Inr 0 else arg_Size h a) (\<lambda>sz.
    rmap (\<lambda>(vs', totalSize). (vs @ vs', sz + totalSize)) (foreach_inner h (ctx\<lparr>ctx_Offset := ctx_Offset ctx + sz\<rparr>) as)))"

definition ctx0 :: ArgCtx where "ctx0 = \<lparr>ctx_Parent = None, ctx_Base = None, ctx_Offset = 0\<rparr>"

definition ForeachSubArg :: "arg_heap \<Rightarrow> Arg \<Rightarrow> (Arg \<times> ArgCtx) list res" where
  "ForeachSubArg h arg = foreachArgImpl h ctx0 arg"

definition visit_next :: "arg_heap \<Rightarrow> ArgCtx \<Rightarrow> Arg \<Rightarrow> (Arg \<times> ArgCtx) list \<Rightarrow> (Arg \<times> ArgCtx) list res" where
  "visit_next h ctx arg vs = rmap (\<lambda>vs'. vs @ vs') (foreachArgImpl h ctx arg)"

definition ForeachArg :: "arg_heap \<Rightarrow> prog_call \<Rightarrow> (Arg \<times> ArgCtx) list res" where
  "ForeachArg h c =
    rbind (case c_Ret c of None \<Rightarrow> Inr [] | Some r \<Rightarrow> foreachArgImpl h ctx0 (ResultArg r))
      (rfold (visit_next h (ctx0\<lparr>ctx_Parent := Some (c_Args c)\<rparr>)) (c_Args c))"

section \<open>Editing\<close>

definition insertBefore :: "ptr \<Rightarrow> prog_call list \<Rightarrow> program \<Rightarrow> program" where
  "insertBefore c calls p =
    (let idx = length (takeWhile (\<lambda>d. c_ptr d \<noteq> c) (pg_Calls p)) in
     p\<lparr>pg_Calls := take idx (pg_Calls p) @ calls
        @ (if idx < length (pg_Calls p) then pg_Calls p ! idx # drop (idx + 1) (pg_Calls p) else [])\<rparr>)"

definition replaceAt :: "ptr \<Rightarrow> prog_call list \<Rightarrow> program \<Rightarrow> program" where
  "replaceAt c calls p =
    (let idx = length (takeWhile (\<lambda>d. c_ptr d \<noteq> c) (pg_Calls p)) in
     p\<lparr>pg_Calls := take idx (pg_Calls p) @ calls
        @ (if idx < length (pg_Calls p) then drop (idx + 1) (pg_Calls p) else [])\<rparr>)"

definition replaceResultArg :: "ptr \<Rightarrow> ptr \<Rightarrow> arg_heap \<Rightarrow> arg_heap res" where
  "replaceResultArg arg arg1 h =
    (let h1 = (case ra_Res (h_obj h arg) of None \<Rightarrow> h | Some r \<Rightarrow> h_upd r (\<lambda>a. a\<lparr>ra_uses := go_del arg (ra_uses a)\<rparr>) h);
         h2 = h_upd arg (\<lambda>a. (h_obj h1 arg1)\<lparr>ra_uses := ra_uses a\<rparr>) h1
     in case ra_Res (h_obj h2 arg) of
       None \<Rightarrow> Inr h2
     | Some r \<Rightarrow> rmap (\<lambda>uses. h_upd r (\<lambda>a. a\<lparr>ra_uses := uses\<rparr>) h2) (go_put arg True (go_del arg1 (ra_uses (h_obj h2 r)))))"

text \<open>\<open>arg1.Type().DefaultArg().(*ResultArg)\<close>: the assertion fails for any type but a resource.\<close>

definition default_result :: "Type \<Rightarrow> arg_heap \<Rightarrow> (ptr \<times> arg_heap) res" where
  "default_result t h = (case t of ResourceType c f d \<Rightarrow> rmap (\<lambda>v. MakeResultArg t None v h) (res_Default d)
     | _ \<Rightarrow> Inl (Panic ''interface conversion''))"

definition reset_user :: "ptr \<Rightarrow> arg_heap \<Rightarrow> arg_heap res" where
  "reset_user arg1 h = rbind (default_result (ra_typ (h_obj h arg1)) h) (\<lambda>(arg2, h1). replaceResultArg arg1 arg2 h1)"

definition remove_result :: "ptr \<Rightarrow> arg_heap \<Rightarrow> arg_heap res" where
  "remove_result a h =
    rbind (case ra_Res (h_obj h a) of
        None \<Rightarrow> Inr h
      | Some r \<Rightarrow> if go_get (ra_uses (h_obj h r)) a \<noteq> Some True then Inl (Panic ''broken tree'')
          else Inr (h_upd r (\<lambda>x. x\<lparr>ra_uses := go_del a (ra_uses x)\<rparr>) h))
      (\<lambda>h1. rfold reset_user (go_keys (ra_uses (h_obj h1 a))) h1)"

definition remove_visited :: "Arg \<times> ArgCtx \<Rightarrow> arg_heap \<Rightarrow> arg_heap res" where
  "remove_visited v h = (case fst v of ResultArg a \<Rightarrow> remove_result a h | _ \<Rightarrow> Inr h)"

definition removeArg :: "Arg \<Rightarrow> arg_heap \<Rightarrow> arg_heap res" where
  "removeArg arg h = rbind (ForeachSubArg h arg) (\<lambda>vs. rfold remove_visited vs h)"

definition RemoveCall :: "int \<Rightarrow> program \<times> arg_heap \<Rightarrow> (program \<times> arg_heap) res" where
  "RemoveCall idx s =
    (case s of (p, h) \<Rightarrow>
     rbind (go_nth (pg_Calls p) idx) (\<lambda>c.
     rbind (rfold removeArg (c_Args c) h) (\<lambda>h1.
     rbind (case c_Ret c of None \<Rightarrow> Inr h1 | Some r \<Rightarrow> removeArg (ResultArg r) h1) (\<lambda>h2.
     Inr (p\<lparr>pg_Calls := take (nat idx) (pg_Calls p) @ drop (nat idx + 1) (pg_Calls p)\<rparr>, h2)))))"

section \<open>References between results\<close>

fun arg_results :: "Arg \<Rightarrow> ptr list" where
  "arg_results (ConstArg p t v) = []"
| "arg_results (PointerArg p t a s r) = (case r of None \<Rightarrow> [] | Some arg \<Rightarrow> arg_results arg)"
| "arg_results (DataArg p t d s) = []"
| "arg_results (GroupArg p t inner) = concat (map arg_results inner)"
| "arg_results (UnionArg p t opt) = arg_results opt"
| "arg_results (ResultArg p) = [p]"

definition call_results :: "prog_call \<Rightarrow> ptr list" where
  "call_results c = (case c_Ret c of None \<Rightarrow> [] | Some r \<Rightarrow> [r]) @ concat (map arg_results (c_Args c))"

definition prog_results :: "program \<Rightarrow> ptr list" where
  "prog_results p = concat (map call_results (pg_Calls p))"

definition has_default :: "Type \<Rightarrow> bool" where
  "has_default t \<longleftrightarrow> (\<exists>c f d. t = ResourceType c f d \<and> rd_Values d \<noteq> [])"

definition default_value :: "Type \<Rightarrow> uint64" where
  "default_value t = (case t of ResourceType c f d \<Rightarrow> hd (rd_Values d) | _ \<Rightarrow> 0)"

text \<open>
  The references of a program: each result occurs once, the users a result lists are results that refer
  to it, and a result refers only to results before it, which list it.
\<close>

definition linked_results :: "arg_heap \<Rightarrow> ptr list \<Rightarrow> bool" where
  "linked_results h R \<longleftrightarrow> distinct R
     \<and> (\<forall>a \<in> set R. a < h_next h \<and> has_default (ra_typ (h_obj h a)) \<and> wfm (ra_uses (h_obj h a))
         \<and> (\<forall>u. go_get (ra_uses (h_obj h a)) u \<noteq> None \<longrightarrow>
              go_get (ra_uses (h_obj h a)) u = Some True \<and> u \<in> set R \<and> ra_Res (h_obj h u) = Some a))
     \<and> (\<forall>xs a ys r. R = xs @ a # ys \<longrightarrow> ra_Res (h_obj h a) = Some r \<longrightarrow> r \<in> set xs \<and> go_get (ra_uses (h_obj h r)) a = Some True)"

text \<open>A result that loses its reference.\<close>

definition reset_result :: "result_arg \<Rightarrow> result_arg" where
  "reset_result a = a\<lparr>ra_Res := None, ra_OpDiv := 0, ra_OpAdd := 0, ra_Val := default_value (ra_typ a)\<rparr>"

lemma reset_user_effect:
  assumes t: "has_default (ra_typ (h_obj h u))" and r: "ra_Res (h_obj h u) = Some a" "a \<noteq> u" and n: "u < h_next h" "a < h_next h"
  shows "\<exists>h'. reset_user u h = Inr h' \<and> h_next h \<le> h_next h' \<and> (\<forall>q < h_next h. h_obj h' q =
    (if q = u then reset_result (h_obj h u) else if q = a then (h_obj h a)\<lparr>ra_uses := go_del u (ra_uses (h_obj h a))\<rparr> else h_obj h q))"
proof -
  from t obtain c f d where d: "ra_typ (h_obj h u) = ResourceType c f d" "rd_Values d \<noteq> []" by (auto simp: has_default_def)
  then have "res_Default d = Inr (hd (rd_Values d))" by (simp add: res_Default_def go_nth_def hd_conv_nth)
  with d r n show ?thesis
    by (auto simp: reset_user_def default_result_def MakeResultArg_def h_new_def replaceResultArg_def h_upd_def Let_def
        reset_result_def default_value_def)
qed

lemma reset_users_effect:
  assumes "distinct us" "a \<notin> set us" "a < h_next h"
    and "\<forall>u \<in> set us. has_default (ra_typ (h_obj h u)) \<and> ra_Res (h_obj h u) = Some a \<and> u < h_next h"
  shows "\<exists>h'. rfold reset_user us h = Inr h' \<and> h_next h \<le> h_next h' \<and> (\<forall>q < h_next h. h_obj h' q =
    (if q \<in> set us then reset_result (h_obj h q) else if q = a then (h_obj h a)\<lparr>ra_uses := fold go_del us (ra_uses (h_obj h a))\<rparr> else h_obj h q))"
  using assms
proof (induction us arbitrary: h)
  case (Cons u us)
  from Cons.prems reset_user_effect [of h u a] obtain h1 where h1: "reset_user u h = Inr h1" "h_next h \<le> h_next h1" "\<forall>q < h_next h. h_obj h1 q =
    (if q = u then reset_result (h_obj h u) else if q = a then (h_obj h a)\<lparr>ra_uses := go_del u (ra_uses (h_obj h a))\<rparr> else h_obj h q)" by auto
  have keep: "h_obj h1 v = h_obj h v" if "v \<in> set us" for v using that Cons.prems h1(3) by auto
  have "\<forall>v \<in> set us. has_default (ra_typ (h_obj h1 v)) \<and> ra_Res (h_obj h1 v) = Some a \<and> v < h_next h1"
    using Cons.prems(4) keep h1(2) by (auto intro: less_le_trans)
  then obtain h2 where h2: "rfold reset_user us h1 = Inr h2" "h_next h1 \<le> h_next h2" "\<forall>q < h_next h1. h_obj h2 q =
    (if q \<in> set us then reset_result (h_obj h1 q) else if q = a then (h_obj h1 a)\<lparr>ra_uses := fold go_del us (ra_uses (h_obj h1 a))\<rparr> else h_obj h1 q)"
    using Cons.IH [of h1] Cons.prems h1(2) by auto
  show ?case
  proof (intro exI conjI allI impI)
    show "rfold reset_user (u # us) h = Inr h2" using h1(1) h2(1) by simp
    show "h_next h \<le> h_next h2" using h1(2) h2(2) by simp
    fix q assume q: "q < h_next h"
    then show "h_obj h2 q = (if q \<in> set (u # us) then reset_result (h_obj h q)
        else if q = a then (h_obj h a)\<lparr>ra_uses := fold go_del (u # us) (ra_uses (h_obj h a))\<rparr> else h_obj h q)"
      using h2(3) h1(2,3) Cons.prems(1-3) keep by (auto split: if_splits)
  qed
qed simp

text \<open>
  The heap while the results in \<open>D\<close> are removed: those that remain have lost what they had to do
  with \<open>D\<close>, and nothing else.
\<close>

definition without :: "ptr set \<Rightarrow> result_arg \<Rightarrow> result_arg \<Rightarrow> bool" where
  "without D a a' \<longleftrightarrow> a'\<lparr>ra_uses := None\<rparr> = (if ra_Res a \<in> Some ` D then reset_result a else a)\<lparr>ra_uses := None\<rparr>
     \<and> wfm (ra_uses a') \<and> (\<forall>u. go_get (ra_uses a') u = (if u \<in> D then None else go_get (ra_uses a) u))"

definition removing :: "arg_heap \<Rightarrow> ptr list \<Rightarrow> ptr set \<Rightarrow> arg_heap \<Rightarrow> bool" where
  "removing h0 R D h \<longleftrightarrow> h_next h0 \<le> h_next h \<and> (\<forall>a \<in> set R. ra_typ (h_obj h a) = ra_typ (h_obj h0 a))
     \<and> (\<forall>q < h_next h0. q \<notin> set R \<longrightarrow> h_obj h q = h_obj h0 q) \<and> (\<forall>a \<in> set R - D. without D (h_obj h0 a) (h_obj h a))"

lemma removing_start: "linked_results h R \<Longrightarrow> removing h R {} h"
  by (auto simp: removing_def without_def linked_results_def)

lemma linked_resultsD:
  assumes "linked_results h R" "a \<in> set R"
  shows "a < h_next h" "has_default (ra_typ (h_obj h a))" "wfm (ra_uses (h_obj h a))"
    and "go_get (ra_uses (h_obj h a)) u \<noteq> None \<Longrightarrow> go_get (ra_uses (h_obj h a)) u = Some True \<and> u \<in> set R \<and> ra_Res (h_obj h u) = Some a"
    and "ra_Res (h_obj h a) = Some r \<Longrightarrow> r \<in> set R \<and> r \<noteq> a \<and> go_get (ra_uses (h_obj h r)) a = Some True"
proof -
  show "a < h_next h" "has_default (ra_typ (h_obj h a))" "wfm (ra_uses (h_obj h a))"
    "go_get (ra_uses (h_obj h a)) u \<noteq> None \<Longrightarrow> go_get (ra_uses (h_obj h a)) u = Some True \<and> u \<in> set R \<and> ra_Res (h_obj h u) = Some a"
    using assms by (simp_all add: linked_results_def)
  assume r: "ra_Res (h_obj h a) = Some r"
  obtain xs ys where xs: "R = xs @ a # ys" using split_list [OF assms(2)] by blast
  have "r \<in> set xs \<and> go_get (ra_uses (h_obj h r)) a = Some True" using assms(1) r xs unfolding linked_results_def by blast
  moreover have "a \<notin> set xs" using assms(1) xs unfolding linked_results_def by auto
  ultimately show "r \<in> set R \<and> r \<noteq> a \<and> go_get (ra_uses (h_obj h r)) a = Some True" using xs by auto
qed

lemma Some_in_image [simp]: "Some b \<in> Some ` D \<longleftrightarrow> b \<in> D"
  by auto

lemma without_Res: "without D x x' \<Longrightarrow> ra_Res x' = (if ra_Res x \<in> Some ` D then None else ra_Res x)"
  by (auto simp: without_def reset_result_def dest!: arg_cong [of _ _ ra_Res] split: if_splits)

lemma same_but_uses: "x\<lparr>ra_uses := None\<rparr> = y\<lparr>ra_uses := None\<rparr> \<Longrightarrow> (reset_result x)\<lparr>ra_uses := None\<rparr> = (reset_result y)\<lparr>ra_uses := None\<rparr>"
  by (cases x; cases y) (simp add: reset_result_def)

lemma remove_result_step:
  assumes L: "linked_results h0 R" and h: "removing h0 R D h" and a: "a \<in> set R" "a \<notin> D"
  shows "\<exists>h'. remove_result a h = Inr h' \<and> removing h0 R (insert a D) h'"
proof -
  note LD = linked_resultsD [OF L]
  have W: "without D (h_obj h0 b) (h_obj h b)" if "b \<in> set R" "b \<notin> D" for b using h that by (simp add: removing_def)
  have usg: "go_get (ra_uses (h_obj h b)) u = (if u \<in> D then None else go_get (ra_uses (h_obj h0 b)) u)" if "b \<in> set R" "b \<notin> D" for b u
    using W [OF that] by (simp add: without_def)
  have Res: "ra_Res (h_obj h b) = (if ra_Res (h_obj h0 b) \<in> Some ` D then None else ra_Res (h_obj h0 b))" if "b \<in> set R" "b \<notin> D" for b
    by (rule without_Res [OF W [OF that]])
  have tys: "ra_typ (h_obj h b) = ra_typ (h_obj h0 b)" if "b \<in> set R" for b using h that by (simp add: removing_def)
  have nx: "b < h_next h" if "b \<in> set R" for b using h LD(1) [OF that] by (simp add: removing_def)
  define h1 where "h1 = (case ra_Res (h_obj h a) of None \<Rightarrow> h | Some r \<Rightarrow> h_upd r (\<lambda>x. x\<lparr>ra_uses := go_del a (ra_uses x)\<rparr>) h)"
  have ref: "r \<in> set R \<and> r \<noteq> a \<and> r \<notin> D \<and> go_get (ra_uses (h_obj h r)) a = Some True" if "ra_Res (h_obj h a) = Some r" for r
  proof -
    have r0: "ra_Res (h_obj h0 a) = Some r" "r \<notin> D" using that Res [OF a] by (auto split: if_splits)
    then show ?thesis using LD(5) [OF a(1) r0(1)] usg [of r a] a(2) by simp
  qed
  have step: "remove_result a h = rfold reset_user (go_keys (ra_uses (h_obj h1 a))) h1"
    using ref by (auto simp: remove_result_def h1_def split: option.splits)
  have h1: "h_obj h1 b = (if ra_Res (h_obj h a) = Some b then (h_obj h b)\<lparr>ra_uses := go_del a (ra_uses (h_obj h b))\<rparr> else h_obj h b)" "h_next h1 = h_next h" for b
    by (auto simp: h1_def h_upd_def split: option.splits)
  have ua: "ra_uses (h_obj h1 a) = ra_uses (h_obj h a)" using ref h1(1) by auto
  let ?us = "go_keys (ra_uses (h_obj h1 a))"
  have us: "u \<in> set ?us \<longleftrightarrow> u \<in> set R \<and> u \<notin> D \<and> ra_Res (h_obj h0 u) = Some a" for u
    unfolding ua go_key_iff using usg [OF a, of u] LD(4) [OF a(1), of u] LD(5) [of u a] by (auto split: if_splits)
  have "distinct ?us" using W [OF a] by (simp add: ua without_def wfm_def)
  moreover have "a \<notin> set ?us" using us LD(5) [OF a(1), of a] by auto
  moreover have "\<forall>u \<in> set ?us. has_default (ra_typ (h_obj h1 u)) \<and> ra_Res (h_obj h1 u) = Some a \<and> u < h_next h1"
  proof
    fix u assume "u \<in> set ?us"
    then have u: "u \<in> set R" "u \<notin> D" "ra_Res (h_obj h0 u) = Some a" using us by blast+
    then have "ra_Res (h_obj h u) = Some a" "has_default (ra_typ (h_obj h u))" "u < h_next h"
      using Res [OF u(1,2)] a(2) tys [OF u(1)] LD(2) [OF u(1)] nx [OF u(1)] by auto
    then show "has_default (ra_typ (h_obj h1 u)) \<and> ra_Res (h_obj h1 u) = Some a \<and> u < h_next h1" by (simp add: h1)
  qed
  ultimately obtain h2 where h2: "rfold reset_user ?us h1 = Inr h2" "h_next h1 \<le> h_next h2" "\<forall>q < h_next h1. h_obj h2 q =
      (if q \<in> set ?us then reset_result (h_obj h1 q) else if q = a then (h_obj h1 a)\<lparr>ra_uses := fold go_del ?us (ra_uses (h_obj h1 a))\<rparr> else h_obj h1 q)"
    using reset_users_effect [of ?us a h1] nx [OF a(1)] h1(2) by auto
  have obj: "h_obj h2 b = (if b \<in> set ?us then reset_result (h_obj h1 b) else h_obj h1 b)" if "b \<in> set R" "b \<noteq> a" for b
    using h2(3) nx [OF that(1)] that(2) h1(2) by simp
  have "without (insert a D) (h_obj h0 b) (h_obj h2 b)" if b: "b \<in> set R" "b \<notin> D" "b \<noteq> a" for b
  proof -
    have "(h_obj h2 b)\<lparr>ra_uses := None\<rparr> = (if ra_Res (h_obj h0 b) \<in> Some ` insert a D then reset_result (h_obj h0 b) else h_obj h0 b)\<lparr>ra_uses := None\<rparr>"
    proof -
      have "(h_obj h1 b)\<lparr>ra_uses := None\<rparr> = (h_obj h b)\<lparr>ra_uses := None\<rparr>" by (simp add: h1(1))
      also have "\<dots> = (if ra_Res (h_obj h0 b) \<in> Some ` D then reset_result (h_obj h0 b) else h_obj h0 b)\<lparr>ra_uses := None\<rparr>"
        using W [OF b(1,2)] by (simp add: without_def)
      finally have e: "(h_obj h1 b)\<lparr>ra_uses := None\<rparr> = \<dots>" .
      show ?thesis
      proof (cases "b \<in> set ?us")
        case True
        then have r: "ra_Res (h_obj h0 b) = Some a" using us by blast
        then have "ra_Res (h_obj h0 b) \<notin> Some ` D" using a(2) by auto
        with e have "(h_obj h1 b)\<lparr>ra_uses := None\<rparr> = (h_obj h0 b)\<lparr>ra_uses := None\<rparr>" by simp
        from same_but_uses [OF this] show ?thesis using True r obj [OF b(1,3)] by simp
      next
        case False
        then have "ra_Res (h_obj h0 b) \<noteq> Some a" using us b by blast
        then show ?thesis using False e obj [OF b(1,3)] by auto
      qed
    qed
    moreover have u2: "ra_uses (h_obj h2 b) = (if ra_Res (h_obj h a) = Some b then go_del a (ra_uses (h_obj h b)) else ra_uses (h_obj h b))"
      using obj [OF b(1,3)] by (simp add: h1(1) reset_result_def)
    moreover have "wfm (ra_uses (h_obj h b))" using W [OF b(1,2)] by (simp add: without_def)
    moreover have "go_get (ra_uses (h_obj h b)) a = None" if "ra_Res (h_obj h a) \<noteq> Some b"
    proof (rule ccontr)
      assume "go_get (ra_uses (h_obj h b)) a \<noteq> None"
      then have "ra_Res (h_obj h0 a) = Some b" using usg [OF b(1,2), of a] a(2) LD(4) [OF b(1), of a] by auto
      then show False using Res [OF a] b(2) that by auto
    qed
    ultimately show ?thesis using usg [OF b(1,2)] by (auto simp: without_def)
  qed
  moreover have "ra_typ (h_obj h2 b) = ra_typ (h_obj h0 b)" if "b \<in> set R" for b
    using h2(3) nx [OF that] tys [OF that] by (auto simp: h1 reset_result_def)
  moreover have "h_next h0 \<le> h_next h2" using h2(2) h1(2) h by (simp add: removing_def)
  moreover have "h_obj h2 q = h_obj h0 q" if "q < h_next h0" "q \<notin> set R" for q
  proof -
    have "q < h_next h" "h_obj h q = h_obj h0 q" using h that by (auto simp: removing_def)
    moreover have "q \<notin> set ?us" "q \<noteq> a" "ra_Res (h_obj h a) \<noteq> Some q" using that(2) us a(1) ref by blast+
    ultimately show ?thesis using h2(3) by (simp add: h1)
  qed
  ultimately have "removing h0 R (insert a D) h2" by (auto simp: removing_def)
  with h2(1) step show ?thesis by auto
qed

lemma remove_results:
  assumes "linked_results h0 R" "removing h0 R D h" "set as \<subseteq> set R - D" "distinct as"
  shows "\<exists>h'. rfold remove_result as h = Inr h' \<and> removing h0 R (D \<union> set as) h'"
  using assms(2-4)
proof (induction as arbitrary: D h)
  case (Cons a as)
  then obtain h1 where h1: "remove_result a h = Inr h1" "removing h0 R (insert a D) h1"
    using remove_result_step [OF assms(1) Cons.prems(1), of a] by auto
  from Cons.IH [OF h1(2)] Cons.prems h1(1) show ?case by auto
qed simp

section \<open>Removing a call\<close>

definition same_types :: "arg_heap \<Rightarrow> arg_heap \<Rightarrow> ptr list \<Rightarrow> bool" where
  "same_types h h' ps \<longleftrightarrow> (\<forall>p \<in> set ps. ra_typ (h_obj h' p) = ra_typ (h_obj h p))"

lemma same_types_Type: "same_types h h' (arg_results a) \<Longrightarrow> arg_Type h' a = arg_Type h a"
  by (cases a) (auto simp: same_types_def)

lemma same_types_Size:
  "same_types h h' (arg_results a) \<Longrightarrow> arg_Size h' a = arg_Size h a"
  "same_types h h' (concat (map arg_results as)) \<Longrightarrow> inner_Size h' struct as = inner_Size h struct as"
proof (induction h a and h struct "as" rule: arg_Size_inner_Size.induct)
  case (8 h struct a as)
  then have s: "same_types h h' (arg_results a)" "same_types h h' (concat (map arg_results as))" by (auto simp: same_types_def)
  have e: "(if struct \<and> ty_BitfieldMiddle (arg_Type h' a) then Inr 0 else arg_Size h' a) = (if struct \<and> ty_BitfieldMiddle (arg_Type h a) then Inr 0 else arg_Size h a)"
    using 8(1) s(1) same_types_Type [OF s(1)] by auto
  show ?case unfolding inner_Size.simps e by (rule rbind_cong [OF refl]) (use 8(2) s(2) in auto)
qed (auto simp: same_types_def split: Type.splits)

lemma same_types_walk:
  "same_types h h' (arg_results a) \<Longrightarrow> foreachArgImpl h' ctx a = foreachArgImpl h ctx a"
  "same_types h h' (concat (map arg_results as)) \<Longrightarrow> foreach_inner h' ctx as = foreach_inner h ctx as"
proof (induction h ctx a and h ctx "as" rule: foreachArgImpl_foreach_inner.induct)
  case (1 h ctx p t inner)
  then show ?case using same_types_Size(1) [of h h' "GroupArg p t inner"] by simp
next
  case (9 h ctx a as)
  then have s: "same_types h h' (arg_results a)" "same_types h h' (concat (map arg_results as))" by (auto simp: same_types_def)
  show ?case using 9(1) [OF s(1)] 9(2) [OF _ _ s(2)] same_types_Type [OF s(1)] same_types_Size(1) [OF s(1)]
    by (auto simp: rbind_def split: sum.splits)
qed (auto simp: same_types_def)

definition result_of :: "Arg \<Rightarrow> ptr list" where
  "result_of a = (case a of ResultArg p \<Rightarrow> [p] | _ \<Rightarrow> [])"

lemma walk_results:
  "foreachArgImpl h ctx a = Inr vs \<Longrightarrow> concat (map (result_of \<circ> fst) vs) = arg_results a"
  "foreach_inner h ctx as = Inr (vs, sz) \<Longrightarrow> concat (map (result_of \<circ> fst) vs) = concat (map arg_results as)"
proof (induction h ctx a and h ctx "as" arbitrary: vs and vs sz rule: foreachArgImpl_foreach_inner.induct)
  case (9 h ctx a as)
  from 9(3) obtain vs1 x vs2 sz2 where v: "foreachArgImpl h ctx a = Inr vs1" "(if ty_BitfieldMiddle (arg_Type h a) then Inr 0 else arg_Size h a) = Inr x"
    "foreach_inner h (ctx\<lparr>ctx_Offset := ctx_Offset ctx + x\<rparr>) as = Inr (vs2, sz2)" "vs = vs1 @ vs2"
    unfolding foreach_inner.simps res_conv by auto
  show ?case using 9(1) [OF v(1)] 9(2) [OF v(1,2,3)] by (simp add: v(4))
qed (auto simp: res_conv result_of_def split: if_splits)

lemma remove_visited_all: "rfold remove_visited vs h = rfold remove_result (concat (map (result_of \<circ> fst) vs)) h"
proof (induction vs arbitrary: h)
  case (Cons v vs)
  then show ?case by (cases "fst v") (auto simp: remove_visited_def result_of_def rfold_append intro: rbind_cong)
qed simp

lemma removeArg_conv:
  assumes "ForeachSubArg h arg = Inr vs"
  shows "removeArg arg h = rfold remove_result (arg_results arg) h"
  using assms walk_results(1) [of h ctx0 arg vs] by (simp add: removeArg_def ForeachSubArg_def remove_visited_all)

definition walkable :: "arg_heap \<Rightarrow> Arg list \<Rightarrow> bool" where
  "walkable h as \<longleftrightarrow> (\<forall>a \<in> set as. \<exists>vs. ForeachSubArg h a = Inr vs)"

lemma removing_types: "removing h0 R D h \<Longrightarrow> set ps \<subseteq> set R \<Longrightarrow> same_types h0 h ps"
  by (auto simp: removing_def same_types_def)

lemma removeArgs:
  assumes L: "linked_results h0 R" and "removing h0 R D h" "set (concat (map arg_results as)) \<subseteq> set R - D" "distinct (concat (map arg_results as))"
    and "walkable h0 as"
  shows "\<exists>h'. rfold removeArg as h = Inr h' \<and> removing h0 R (D \<union> set (concat (map arg_results as))) h'"
  using assms(2-)
proof (induction "as" arbitrary: D h)
  case (Cons a as)
  obtain vs where "ForeachSubArg h0 a = Inr vs" using Cons.prems(4) by (auto simp: walkable_def)
  moreover have "same_types h0 h (arg_results a)" using removing_types [OF Cons.prems(1), of "arg_results a"] Cons.prems(2) by auto
  ultimately have "ForeachSubArg h a = Inr vs" using same_types_walk(1) by (simp add: ForeachSubArg_def)
  from removeArg_conv [OF this] remove_results [OF L Cons.prems(1), of "arg_results a"] Cons.prems(2,3)
  obtain h1 where h1: "removeArg a h = Inr h1" "removing h0 R (D \<union> set (arg_results a)) h1" by auto
  have "set (concat (map arg_results as)) \<subseteq> set R - (D \<union> set (arg_results a))" using Cons.prems(2,3) by auto
  from Cons.IH [OF h1(2) this] Cons.prems(3,4) h1(1) show ?case by (auto simp: walkable_def Un_assoc)
qed simp

lemma removed_linked:
  assumes L: "linked_results h0 (A @ B @ C)" and rm: "removing h0 (A @ B @ C) (set B) h"
  shows "linked_results h (A @ C)"
proof -
  let ?R = "A @ B @ C"
  have dist: "distinct ?R" using L by (simp add: linked_results_def)
  have W: "without (set B) (h_obj h0 a) (h_obj h a)" if "a \<in> set (A @ C)" for a using rm dist that by (auto simp: removing_def)
  have Res: "ra_Res (h_obj h a) = (if ra_Res (h_obj h0 a) \<in> Some ` set B then None else ra_Res (h_obj h0 a))" if "a \<in> set (A @ C)" for a
    by (rule without_Res [OF W [OF that]])
  have usg: "go_get (ra_uses (h_obj h a)) u = (if u \<in> set B then None else go_get (ra_uses (h_obj h0 a)) u)" if "a \<in> set (A @ C)" for a u
    using W [OF that] by (simp add: without_def)
  have "a < h_next h \<and> has_default (ra_typ (h_obj h a)) \<and> wfm (ra_uses (h_obj h a))" if "a \<in> set (A @ C)" for a
  proof -
    have R: "a \<in> set ?R" using that by auto
    have "ra_typ (h_obj h a) = ra_typ (h_obj h0 a)" "h_next h0 \<le> h_next h" using rm R by (auto simp: removing_def)
    then show ?thesis using linked_resultsD(1,2) [OF L R] W [OF that] by (simp add: without_def)
  qed
  moreover have "go_get (ra_uses (h_obj h a)) u = Some True \<and> u \<in> set (A @ C) \<and> ra_Res (h_obj h u) = Some a"
    if a: "a \<in> set (A @ C)" and u: "go_get (ra_uses (h_obj h a)) u \<noteq> None" for a u
  proof -
    have u0: "u \<notin> set B" "go_get (ra_uses (h_obj h a)) u = go_get (ra_uses (h_obj h0 a)) u" using u usg [OF a, of u] by (auto split: if_splits)
    then have u1: "go_get (ra_uses (h_obj h0 a)) u = Some True" "u \<in> set ?R" "ra_Res (h_obj h0 u) = Some a"
      using linked_resultsD(4) [OF L, of a u] a u by auto
    then have "u \<in> set (A @ C)" using u0(1) by auto
    moreover have "a \<notin> set B" using a dist by auto
    ultimately show ?thesis using u0(2) u1 Res [of u] by simp
  qed
  moreover have "r \<in> set xs \<and> go_get (ra_uses (h_obj h r)) a = Some True"
    if R: "A @ C = xs @ a # ys" and r: "ra_Res (h_obj h a) = Some r" for xs a ys r
  proof -
    have a: "a \<in> set (A @ C)" using R by simp
    have r0: "ra_Res (h_obj h0 a) = Some r" "r \<notin> set B" using r Res [OF a] by (auto split: if_splits)
    have "r \<in> set xs"
    proof (cases "length xs < length A")
      case True
      then obtain us where "A = xs @ us" "us @ C = a # ys" "us \<noteq> []" using R by (auto simp: append_eq_append_conv2)
      then obtain zs where "A = xs @ a # zs" by (cases us) auto
      then have "?R = xs @ a # (zs @ B @ C)" by simp
      then show ?thesis using L r0(1) unfolding linked_results_def by blast
    next
      case False
      then obtain zs where "xs = A @ zs" "C = zs @ a # ys" using R by (auto simp: append_eq_append_conv2 append_eq_Cons_conv)
      then have "?R = (A @ B @ zs) @ a # ys" "xs = A @ zs" by simp_all
      then have "r \<in> set (A @ B @ zs)" using L r0(1) unfolding linked_results_def by blast
      then show ?thesis using r0(2) \<open>xs = A @ zs\<close> by auto
    qed
    moreover have "r \<in> set (A @ C)" using calculation R by auto
    moreover have "a \<notin> set B" using a dist by auto
    ultimately show ?thesis using usg [of r a] linked_resultsD(5) [OF L, of a r] r0(1) a by auto
  qed
  ultimately show ?thesis using dist by (auto simp: linked_results_def)
qed

definition prog_args :: "program \<Rightarrow> Arg list" where
  "prog_args p = concat (map c_Args (pg_Calls p))"

lemma RemoveCall_law:
  assumes L: "linked_results h (prog_results p)" and walk: "walkable h (prog_args p)" and i: "i < length (pg_Calls p)"
  shows "\<exists>p' h'. RemoveCall (int i) (p, h) = Inr (p', h')
    \<and> pg_Calls p' = take i (pg_Calls p) @ drop (Suc i) (pg_Calls p)
    \<and> linked_results h' (prog_results p') \<and> walkable h' (prog_args p')
    \<and> (\<forall>a \<in> set (prog_results p'). without (set (call_results (pg_Calls p ! i))) (h_obj h a) (h_obj h' a))
    \<and> h_next h \<le> h_next h' \<and> (\<forall>q < h_next h. q \<notin> set (prog_results p) \<longrightarrow> h_obj h' q = h_obj h q)"
proof -
  let ?cs = "pg_Calls p" and ?c = "pg_Calls p ! i"
  define A where "A = concat (map call_results (take i ?cs))"
  define C where "C = concat (map call_results (drop (Suc i) ?cs))"
  have cs: "?cs = take i ?cs @ ?c # drop (Suc i) ?cs" using i by (simp add: id_take_nth_drop)
  have R: "prog_results p = A @ call_results ?c @ C" by (subst cs [THEN arg_cong, of "\<lambda>cs. concat (map call_results cs)", folded prog_results_def])
      (simp add: A_def C_def)
  let ?R = "prog_results p" and ?B = "set (concat (map arg_results (c_Args ?c)))"
  have dist: "distinct ?R" using L by (simp add: linked_results_def)
  have "set (c_Args ?c) \<subseteq> set (prog_args p)" using nth_mem [OF i] by (auto simp: prog_args_def)
  then have w: "walkable h (c_Args ?c)" using walk by (auto simp: walkable_def)
  have sub: "set (concat (map arg_results (c_Args ?c))) \<subseteq> set ?R - {}" "distinct (concat (map arg_results (c_Args ?c)))"
    using dist unfolding R by (auto simp: call_results_def)
  from removeArgs [OF L removing_start [OF L] sub w] obtain h1 where h1: "rfold removeArg (c_Args ?c) h = Inr h1" "removing h ?R ?B h1" by auto
  have "\<exists>h2. (case c_Ret ?c of None \<Rightarrow> Inr h1 | Some r \<Rightarrow> removeArg (ResultArg r) h1) = Inr h2 \<and> removing h ?R (set (call_results ?c)) h2"
  proof (cases "c_Ret ?c")
    case (Some r)
    have "r \<in> set ?R" "r \<notin> ?B" using Some dist unfolding R by (auto simp: call_results_def)
    from remove_result_step [OF L h1(2) this] obtain h2 where h2: "remove_result r h1 = Inr h2" "removing h ?R (insert r ?B) h2" by blast
    have "removeArg (ResultArg r) h1 = rfold remove_result (arg_results (ResultArg r)) h1"
      by (rule removeArg_conv [of _ _ "[(ResultArg r, ctx0)]"]) (simp add: ForeachSubArg_def)
    then show ?thesis using Some h2 by (simp add: call_results_def)
  qed (use h1 in \<open>simp add: call_results_def\<close>)
  then obtain h2 where h2: "(case c_Ret ?c of None \<Rightarrow> Inr h1 | Some r \<Rightarrow> removeArg (ResultArg r) h1) = Inr h2" "removing h ?R (set (call_results ?c)) h2" by blast
  define p' where "p' = p\<lparr>pg_Calls := take i ?cs @ drop (Suc i) ?cs\<rparr>"
  have R': "prog_results p' = A @ C" by (simp add: p'_def prog_results_def A_def C_def)
  have "RemoveCall (int i) (p, h) = Inr (p', h2)" using i h1(1) h2(1) by (simp add: RemoveCall_def p'_def)
  moreover have "linked_results h2 (prog_results p')" unfolding R' by (rule removed_linked [of h A "call_results ?c" C]) (use L h2(2) R in simp_all)
  moreover have "walkable h2 (prog_args p')"
  proof -
    have "ForeachSubArg h2 a = ForeachSubArg h a" if "a \<in> set (prog_args p')" for a
    proof -
      have "set (arg_results a) \<subseteq> set ?R"
        using that i by (auto simp: prog_args_def p'_def prog_results_def call_results_def dest!: in_set_takeD in_set_dropD)
      then show ?thesis using same_types_walk(1) [OF removing_types [OF h2(2)]] by (simp add: ForeachSubArg_def)
    qed
    moreover have "set (prog_args p') \<subseteq> set (prog_args p)" by (auto simp: prog_args_def p'_def dest!: in_set_takeD in_set_dropD)
    ultimately show ?thesis using walk by (auto simp: walkable_def)
  qed
  moreover have "without (set (call_results ?c)) (h_obj h a) (h_obj h2 a)" if "a \<in> set (prog_results p')" for a
    using h2(2) that dist unfolding R R' by (auto simp: removing_def)
  moreover have "h_next h \<le> h_next h2 \<and> (\<forall>q < h_next h. q \<notin> set ?R \<longrightarrow> h_obj h2 q = h_obj h q)" using h2(2) by (simp add: removing_def)
  ultimately show ?thesis by (intro exI [of _ p'] exI [of _ h2]) (auto simp: p'_def)
qed

section \<open>Cloning\<close>

type_synonym clone_state = "arg_heap \<times> (ptr, ptr) gomap"

definition fresh :: "clone_state \<Rightarrow> ptr \<times> clone_state" where
  "fresh st = (h_next (fst st), (fst st)\<lparr>h_next := Suc (h_next (fst st))\<rparr>, snd st)"

definition clone_result :: "ptr \<Rightarrow> clone_state \<Rightarrow> (ptr \<times> clone_state) res" where
  "clone_result p st =
    (case st of (h, newargs) \<Rightarrow>
     case h_new ((h_obj h p)\<lparr>ra_uses := None\<rparr>) h of (p1, h1) \<Rightarrow>
     rmap (\<lambda>h2. (p1, h2, go_set p p1 newargs))
       (case ra_Res (h_obj h p) of
         None \<Rightarrow> Inr h1
       | Some q \<Rightarrow> (case go_get newargs q of
           None \<Rightarrow> Inl (Panic ''nil pointer dereference'')
         | Some r \<Rightarrow> Inr (h_upd p1 (\<lambda>a. a\<lparr>ra_Res := Some r\<rparr>) (h_upd r (\<lambda>a. a\<lparr>ra_uses := go_set p1 True (ra_uses a)\<rparr>) h1)))))"

fun clone_arg :: "Arg \<Rightarrow> clone_state \<Rightarrow> (Arg \<times> clone_state) res"
and clone_args :: "Arg list \<Rightarrow> clone_state \<Rightarrow> (Arg list \<times> clone_state) res" where
  "clone_arg (ConstArg p t v) st = (case fresh st of (p1, st1) \<Rightarrow> Inr (ConstArg p1 t v, st1))"
| "clone_arg (PointerArg p t a s None) st = (case fresh st of (p1, st1) \<Rightarrow> Inr (PointerArg p1 t a s None, st1))"
| "clone_arg (PointerArg p t a s (Some r)) st =
    (case fresh st of (p1, st1) \<Rightarrow> rmap (\<lambda>(r1, st2). (PointerArg p1 t a s (Some r1), st2)) (clone_arg r st1))"
| "clone_arg (DataArg p t d s) st = (case fresh st of (p1, st1) \<Rightarrow> Inr (DataArg p1 t d s, st1))"
| "clone_arg (GroupArg p t inner) st =
    (case fresh st of (p1, st1) \<Rightarrow> rmap (\<lambda>(inner1, st2). (GroupArg p1 t inner1, st2)) (clone_args inner st1))"
| "clone_arg (UnionArg p t opt) st =
    (case fresh st of (p1, st1) \<Rightarrow> rmap (\<lambda>(opt1, st2). (UnionArg p1 t opt1, st2)) (clone_arg opt st1))"
| "clone_arg (ResultArg p) st = rmap (\<lambda>(p1, st1). (ResultArg p1, st1)) (clone_result p st)"
| "clone_args [] st = Inr ([], st)"
| "clone_args (a # as) st =
    rbind (clone_arg a st) (\<lambda>(a1, st1). rmap (\<lambda>(as1, st2). (a1 # as1, st2)) (clone_args as st1))"

definition clone_call :: "prog_call \<Rightarrow> prog_call list \<times> clone_state \<Rightarrow> (prog_call list \<times> clone_state) res" where
  "clone_call c s =
    (case s of (calls, st) \<Rightarrow>
     case fresh st of (c1, st1) \<Rightarrow>
     rbind (case c_Ret c of None \<Rightarrow> Inr (None, st1) | Some r \<Rightarrow> rmap (\<lambda>(r1, st2). (Some r1, st2)) (clone_result r st1)) (\<lambda>(ret, st2).
     rmap (\<lambda>(args, st3). (calls @ [\<lparr>c_ptr = c1, c_Meta = c_Meta c, c_Args = args, c_Ret = ret, c_Comment = []\<rparr>], st3)) (clone_args (c_Args c) st2)))"

definition Clone :: "program \<times> arg_heap \<Rightarrow> (program \<times> arg_heap) res" where
  "Clone s =
    (case s of (p, h) \<Rightarrow>
     rmap (\<lambda>(calls, h1, newargs). (\<lparr>pg_Calls = calls, pg_Comments = pg_Comments p\<rparr>, h1)) (rfold clone_call (pg_Calls p) ([], h, Some [])))"

text \<open>The copy that belongs to a result, and a tree with its results renamed and the other addresses left out.\<close>

abbreviation copy_of :: "(ptr, ptr) gomap \<Rightarrow> ptr \<Rightarrow> ptr" where
  "copy_of m a \<equiv> the (go_get m a)"

fun renamed :: "(ptr \<Rightarrow> ptr) \<Rightarrow> Arg \<Rightarrow> Arg" where
  "renamed g (ConstArg p t v) = ConstArg 0 t v"
| "renamed g (PointerArg p t a s r) = PointerArg 0 t a s (map_option (renamed g) r)"
| "renamed g (DataArg p t d s) = DataArg 0 t d s"
| "renamed g (GroupArg p t inner) = GroupArg 0 t (map (renamed g) inner)"
| "renamed g (UnionArg p t opt) = UnionArg 0 t (renamed g opt)"
| "renamed g (ResultArg p) = ResultArg (g p)"

lemma renamed_results: "renamed g' a' = renamed g a \<Longrightarrow> map g' (arg_results a') = map g (arg_results a)"
proof (induction a arbitrary: a')
  case (GroupArg p t inner)
  then obtain p' inner' where a': "a' = GroupArg p' t inner'" "map (renamed g') inner' = map (renamed g) inner" by (cases a') auto
  from a'(2) GroupArg.IH have "map g' (concat (map arg_results inner')) = map g (concat (map arg_results inner))"
  proof (induction inner arbitrary: inner')
    case (Cons x xs)
    then show ?case by (cases inner') auto
  qed simp
  then show ?case by (simp add: a')
next
  case (PointerArg p t a s r)
  then show ?case by (cases a'; cases r) auto
next
  case (UnionArg p t opt)
  then show ?case by (cases a') auto
qed (case_tac a', auto)+

lemma renamed_cong: "(\<And>p. p \<in> set (arg_results a) \<Longrightarrow> g p = g' p) \<Longrightarrow> renamed g a = renamed g' a"
proof (induction a)
  case (PointerArg p t a s r)
  then show ?case by (cases r) auto
qed auto

text \<open>The state of cloning after the results \<open>xs\<close>: the old heap is untouched, and the copies refer to each
  other as the originals do.\<close>

definition copy_ok :: "arg_heap \<Rightarrow> ptr list \<Rightarrow> (ptr, ptr) gomap \<Rightarrow> ptr \<Rightarrow> result_arg \<Rightarrow> bool" where
  "copy_ok h0 xs m a b \<longleftrightarrow>
     b\<lparr>ra_uses := None\<rparr> = (h_obj h0 a)\<lparr>ra_Res := map_option (copy_of m) (ra_Res (h_obj h0 a)), ra_uses := None\<rparr>
     \<and> wfm (ra_uses b)
     \<and> (\<forall>v. go_get (ra_uses b) v = (if \<exists>u \<in> set xs. v = copy_of m u \<and> ra_Res (h_obj h0 u) = Some a then Some True else None))"

definition cloned :: "arg_heap \<Rightarrow> ptr list \<Rightarrow> clone_state \<Rightarrow> bool" where
  "cloned h0 xs st \<longleftrightarrow> set (go_keys (snd st)) = set xs \<and> inj_on (copy_of (snd st)) (set xs)
     \<and> h_next h0 \<le> h_next (fst st) \<and> (\<forall>q < h_next h0. h_obj (fst st) q = h_obj h0 q)
     \<and> (\<forall>a \<in> set xs. h_next h0 \<le> copy_of (snd st) a \<and> copy_of (snd st) a < h_next (fst st)
         \<and> copy_ok h0 xs (snd st) a (h_obj (fst st) (copy_of (snd st) a)))"

definition extends :: "ptr list \<Rightarrow> (ptr, ptr) gomap \<Rightarrow> (ptr, ptr) gomap \<Rightarrow> bool" where
  "extends xs m m' \<longleftrightarrow> (\<forall>a \<in> set xs. copy_of m' a = copy_of m a)"

lemma fresh_cloned: "cloned h0 xs st \<Longrightarrow> fresh st = (p, st1) \<Longrightarrow> cloned h0 xs st1 \<and> snd st1 = snd st"
  by (auto simp: cloned_def fresh_def less_Suc_eq)

lemma clone_result_step:
  assumes L: "linked_results h0 (xs @ p # rest)" and c: "cloned h0 xs st"
  shows "\<exists>p1 st1. clone_result p st = Inr (p1, st1) \<and> cloned h0 (xs @ [p]) st1 \<and> extends xs (snd st) (snd st1) \<and> copy_of (snd st1) p = p1"
proof -
  obtain h m where st: "st = (h, m)" by (cases st)
  have p: "p < h_next h0" "p \<notin> set xs" using linked_resultsD(1) [OF L, of p] L by (auto simp: linked_results_def)
  have bck: "q \<in> set xs" if "ra_Res (h_obj h0 p) = Some q" for q using L that unfolding linked_results_def by blast
  have xs: "a < h_next h0" if "a \<in> set xs" for a using linked_resultsD(1) [OF L, of a] that by simp
  have obj: "h_obj h q = h_obj h0 q" if "q < h_next h0" for q using c that by (simp add: cloned_def st)
  have copies: "h_next h0 \<le> copy_of m a" "copy_of m a < h_next h" "copy_ok h0 xs m a (h_obj h (copy_of m a))" if "a \<in> set xs" for a
    using c that by (simp_all add: cloned_def st)
  have inj: "inj_on (copy_of m) (set xs)" and keys: "set (go_keys m) = set xs" and nx: "h_next h0 \<le> h_next h" using c by (simp_all add: cloned_def st)
  let ?p1 = "h_next h" and ?Res = "ra_Res (h_obj h0 p)"
  define m1 where "m1 = go_set p ?p1 m"
  have m1: "copy_of m1 a = copy_of m a" if "a \<in> set xs" for a using that p(2) by (auto simp: m1_def)
  have m1p: "copy_of m1 p = ?p1" by (simp add: m1_def)
  define h1 where "h1 = h\<lparr>h_obj := (\<lambda>q. if q = ?p1 then (h_obj h0 p)\<lparr>ra_Res := map_option (copy_of m) ?Res, ra_uses := None\<rparr>
      else if map_option (copy_of m) ?Res = Some q then (h_obj h q)\<lparr>ra_uses := go_set ?p1 True (ra_uses (h_obj h q))\<rparr> else h_obj h q), h_next := Suc ?p1\<rparr>"
  have "clone_result p st = Inr (?p1, h1, m1)"
  proof (cases ?Res)
    case None
    then show ?thesis using obj [OF p(1)] by (simp add: clone_result_def st h_new_def h1_def m1_def fun_eq_iff)
  next
    case (Some q)
    then have q: "q \<in> set xs" by (rule bck)
    then have "q \<in> set (go_keys m)" unfolding keys .
    then obtain r where r: "go_get m q = Some r" unfolding go_key_iff by blast
    then have "r \<noteq> ?p1" using copies(2) [OF q] by auto
    then show ?thesis using Some r obj [OF p(1)]
      by (auto simp: clone_result_def st h_new_def h_upd_def h1_def m1_def fun_eq_iff)
  qed
  moreover have "cloned h0 (xs @ [p]) (h1, m1)"
  proof -
    have ne: "copy_of m a \<noteq> ?p1" if "a \<in> set xs" for a using copies(2) [OF that] by simp
    have 1: "set (go_keys m1) = set (xs @ [p])" using keys by (simp add: m1_def)
    have 2: "inj_on (copy_of m1) (set (xs @ [p]))" using inj m1 m1p ne p(2) by (auto simp: inj_on_def) (metis | force)+
    have 3: "h_obj h1 q = h_obj h0 q" if q: "q < h_next h0" for q
    proof -
      have "map_option (copy_of m) ?Res \<noteq> Some q" using bck copies(1) q by (cases ?Res) force+
      moreover have "q \<noteq> ?p1" using q nx by simp
      ultimately have "h_obj h1 q = h_obj h q" unfolding h1_def by (simp del: map_option_eq_Some)
      then show ?thesis using obj [OF q] by simp
    qed
    have user: "(\<exists>u \<in> set (xs @ [p]). v = copy_of m1 u \<and> ra_Res (h_obj h0 u) = Some a)
        \<longleftrightarrow> (\<exists>u \<in> set xs. v = copy_of m u \<and> ra_Res (h_obj h0 u) = Some a) \<or> v = ?p1 \<and> ?Res = Some a" for v a
      using m1 m1p by auto
    have Res1: "map_option (copy_of m1) (ra_Res (h_obj h0 a)) = map_option (copy_of m) (ra_Res (h_obj h0 a))" if ap: "a \<in> set (xs @ [p])" for a
    proof (cases "ra_Res (h_obj h0 a)")
      case (Some q)
      have "q \<in> set xs"
      proof (cases "a = p")
        case False
        then obtain ys zs where "xs = ys @ a # zs" using ap split_list [of a xs] by auto
        then have "xs @ p # rest = ys @ a # (zs @ p # rest)" by simp
        then have "q \<in> set ys" using L Some unfolding linked_results_def by blast
        then show ?thesis using \<open>xs = ys @ a # zs\<close> by simp
      qed (use Some bck in simp)
      then show ?thesis using Some m1 by simp
    qed simp
    have 4: "copy_ok h0 (xs @ [p]) m1 a (h_obj h1 (copy_of m1 a))" if a: "a \<in> set (xs @ [p])" for a
    proof (cases "a = p")
      case True
      have "\<not> (\<exists>u \<in> set xs. ra_Res (h_obj h0 u) = Some p)"
      proof
        assume "\<exists>u \<in> set xs. ra_Res (h_obj h0 u) = Some p"
        then obtain u where u: "u \<in> set xs" "ra_Res (h_obj h0 u) = Some p" by blast
        then obtain ys zs where ys: "xs = ys @ u # zs" using split_list by fast
        then have "xs @ p # rest = ys @ u # (zs @ p # rest)" by simp
        then have "p \<in> set ys" using L u(2) unfolding linked_results_def by blast
        then show False using p(2) ys by simp
      qed
      moreover have "?Res \<noteq> Some p" using bck p(2) by blast
      ultimately show ?thesis using Res1 [of p] unfolding copy_ok_def user by (simp add: True m1p h1_def)
    next
      case False
      then have ax: "a \<in> set xs" using a by simp
      let ?b = "h_obj h (copy_of m a)"
      have "copy_of m q = copy_of m a \<longleftrightarrow> q = a" if "q \<in> set xs" for q using inj ax that by (auto simp: inj_on_def)
      then have b: "h_obj h1 (copy_of m1 a) = (if ?Res = Some a then ?b\<lparr>ra_uses := go_set ?p1 True (ra_uses ?b)\<rparr> else ?b)"
        using ne [OF ax] m1 [OF ax] bck by (cases ?Res) (auto simp: h1_def)
      show ?thesis using copies(3) [OF ax] Res1 [OF a] unfolding copy_ok_def user b by auto
    qed
    have "h_next h0 \<le> copy_of m1 a \<and> copy_of m1 a < h_next h1" if "a \<in> set (xs @ [p])" for a
      using that copies m1 m1p nx by (cases "a = p") (auto simp: h1_def less_Suc_eq)
    moreover have "h_next h0 \<le> h_next h1" using nx by (simp add: h1_def)
    ultimately show ?thesis using 1 2 3 4 unfolding cloned_def by simp
  qed
  ultimately show ?thesis using m1 m1p by (auto simp: extends_def st)
qed

lemma extends_trans: "extends xs m m1 \<Longrightarrow> extends (xs @ ys) m1 m2 \<Longrightarrow> extends xs m m2"
  by (simp add: extends_def)

lemma extends_refl [simp]: "extends xs m m"
  by (simp add: extends_def)

lemma clone_arg_steps:
  "linked_results h0 (xs @ arg_results a @ rest) \<Longrightarrow> cloned h0 xs st \<Longrightarrow>
   \<exists>a1 st1. clone_arg a st = Inr (a1, st1) \<and> cloned h0 (xs @ arg_results a) st1 \<and> extends xs (snd st) (snd st1)
     \<and> renamed (\<lambda>p. p) a1 = renamed (copy_of (snd st1)) a"
  "linked_results h0 (xs @ concat (map arg_results as) @ rest) \<Longrightarrow> cloned h0 xs st \<Longrightarrow>
   \<exists>as1 st1. clone_args as st = Inr (as1, st1) \<and> cloned h0 (xs @ concat (map arg_results as)) st1 \<and> extends xs (snd st) (snd st1)
     \<and> map (renamed (\<lambda>p. p)) as1 = map (renamed (copy_of (snd st1))) as"
proof (induction a st and "as" st arbitrary: xs rest and xs rest rule: clone_arg_clone_args.induct)
  case (3 p t a s r st)
  obtain p1 st0 where f: "fresh st = (p1, st0)" by (rule prod.exhaust)
  from fresh_cloned [OF 3(3) f] 3(1) [OF f [symmetric], of xs rest] 3(2) show ?case by (auto simp: f)
next
  case (5 p t inner st)
  obtain p1 st0 where f: "fresh st = (p1, st0)" by (rule prod.exhaust)
  from fresh_cloned [OF 5(3) f] 5(1) [OF f [symmetric], of xs rest] 5(2) show ?case by (auto simp: f)
next
  case (6 p t opt st)
  obtain p1 st0 where f: "fresh st = (p1, st0)" by (rule prod.exhaust)
  from fresh_cloned [OF 6(3) f] 6(1) [OF f [symmetric], of xs rest] 6(2) show ?case by (auto simp: f)
next
  case (7 p st)
  then show ?case using clone_result_step [of h0 xs p rest st] by auto
next
  case (9 a as st)
  from 9(3) have L: "linked_results h0 (xs @ arg_results a @ (concat (map arg_results as) @ rest))" by simp
  from 9(1) [OF L 9(4)] obtain a1 st1 where a1: "clone_arg a st = Inr (a1, st1)" "cloned h0 (xs @ arg_results a) st1" "extends xs (snd st) (snd st1)"
    "renamed (\<lambda>p. p) a1 = renamed (copy_of (snd st1)) a" by blast
  from L have L2: "linked_results h0 ((xs @ arg_results a) @ concat (map arg_results as) @ rest)" by simp
  from 9(2) [OF a1(1) refl L2 a1(2)] obtain as1 st2 where as1: "clone_args as st1 = Inr (as1, st2)"
    "cloned h0 ((xs @ arg_results a) @ concat (map arg_results as)) st2" "extends (xs @ arg_results a) (snd st1) (snd st2)"
    "map (renamed (\<lambda>p. p)) as1 = map (renamed (copy_of (snd st2))) as" by blast
  have "renamed (\<lambda>p. p) a1 = renamed (copy_of (snd st2)) a" unfolding a1(4) by (rule renamed_cong) (use as1(3) in \<open>simp add: extends_def\<close>)
  then show ?case using a1(1) as1 extends_trans [OF a1(3) as1(3)] by simp
qed (auto simp: fresh_def cloned_def less_Suc_eq)

definition same_call :: "(ptr \<Rightarrow> ptr) \<Rightarrow> prog_call \<Rightarrow> prog_call \<Rightarrow> bool" where
  "same_call g c c1 \<longleftrightarrow> c_Meta c1 = c_Meta c \<and> c_Ret c1 = map_option g (c_Ret c) \<and> map (renamed (\<lambda>p. p)) (c_Args c1) = map (renamed g) (c_Args c)"

lemma same_call_cong: "same_call g c c1 \<Longrightarrow> (\<And>p. p \<in> set (call_results c) \<Longrightarrow> g' p = g p) \<Longrightarrow> same_call g' c c1"
proof -
  assume s: "same_call g c c1" and g: "\<And>p. p \<in> set (call_results c) \<Longrightarrow> g' p = g p"
  have "renamed g a = renamed g' a" if a: "a \<in> set (c_Args c)" for a
  proof (rule renamed_cong)
    fix p assume "p \<in> set (arg_results a)"
    then have "p \<in> set (call_results c)" using a by (auto simp: call_results_def)
    then show "g p = g' p" using g by simp
  qed
  moreover have "map_option g' (c_Ret c) = map_option g (c_Ret c)" using g by (cases "c_Ret c") (auto simp: call_results_def)
  ultimately show ?thesis using s by (simp add: same_call_def)
qed

lemma clone_call_step:
  assumes L: "linked_results h0 (xs @ call_results c @ rest)" and st: "cloned h0 xs st"
  shows "\<exists>c1 st1. clone_call c (calls, st) = Inr (calls @ [c1], st1) \<and> cloned h0 (xs @ call_results c) st1
    \<and> extends xs (snd st) (snd st1) \<and> same_call (copy_of (snd st1)) c c1"
proof -
  obtain p1 st0 where f: "fresh st = (p1, st0)" by (rule prod.exhaust)
  note st0 = fresh_cloned [OF st f]
  let ?A = "concat (map arg_results (c_Args c))"
  let ?C = "case c_Ret c of None \<Rightarrow> Inr (None, st0) | Some r \<Rightarrow> rmap (\<lambda>(r1, st2). (Some r1, st2)) (clone_result r st0)"
  let ?X = "xs @ (case c_Ret c of None \<Rightarrow> [] | Some r \<Rightarrow> [r])"
  have "\<exists>ret st1. ?C = Inr (ret, st1) \<and> cloned h0 ?X st1 \<and> extends xs (snd st0) (snd st1) \<and> ret = map_option (copy_of (snd st1)) (c_Ret c)"
  proof (cases "c_Ret c")
    case (Some r)
    then have "linked_results h0 (xs @ r # (?A @ rest))" using L by (simp add: call_results_def)
    from clone_result_step [OF this conjunct1 [OF st0]] obtain r1 st1 where "clone_result r st0 = Inr (r1, st1)" "cloned h0 (xs @ [r]) st1"
      "extends xs (snd st0) (snd st1)" "copy_of (snd st1) r = r1" by (elim exE conjE) (rule that; assumption)
    with Some show ?thesis by (intro exI [of _ "Some r1"] exI [of _ st1]) simp
  next
    case None
    with st0 show ?thesis by (intro exI [of _ None] exI [of _ st0]) simp
  qed
  then obtain ret st1 where r: "?C = Inr (ret, st1)" "cloned h0 ?X st1" "extends xs (snd st0) (snd st1)" "ret = map_option (copy_of (snd st1)) (c_Ret c)"
    by (elim exE conjE) (rule that; assumption)
  have "linked_results h0 ((xs @ (case c_Ret c of None \<Rightarrow> [] | Some r \<Rightarrow> [r])) @ ?A @ rest)" using L by (simp add: call_results_def)
  from clone_arg_steps(2) [OF this r(2)] obtain as1 st2 where a: "clone_args (c_Args c) st1 = Inr (as1, st2)" "cloned h0 (xs @ call_results c) st2"
    "extends (xs @ (case c_Ret c of None \<Rightarrow> [] | Some r \<Rightarrow> [r])) (snd st1) (snd st2)" "map (renamed (\<lambda>p. p)) as1 = map (renamed (copy_of (snd st2))) (c_Args c)"
    by (auto simp: call_results_def)
  have "ret = map_option (copy_of (snd st2)) (c_Ret c)" using r(4) a(3) by (cases "c_Ret c") (auto simp: extends_def)
  then show ?thesis using f r(1) a(1,2,4) extends_trans [OF r(3) a(3)] st0 by (auto simp: clone_call_def same_call_def)
qed

lemma clone_calls:
  assumes "linked_results h0 (xs @ concat (map call_results cs))" "cloned h0 xs st"
  shows "\<exists>cs1 st1. rfold clone_call cs (calls, st) = Inr (calls @ cs1, st1) \<and> cloned h0 (xs @ concat (map call_results cs)) st1
    \<and> extends xs (snd st) (snd st1) \<and> list_all2 (same_call (copy_of (snd st1))) cs cs1"
  using assms
proof (induction cs arbitrary: xs st calls)
  case (Cons c cs)
  then have L: "linked_results h0 (xs @ call_results c @ concat (map call_results cs))" by simp
  from clone_call_step [OF L Cons.prems(2), of calls] obtain c1 st1 where c1: "clone_call c (calls, st) = Inr (calls @ [c1], st1)" "cloned h0 (xs @ call_results c) st1"
    "extends xs (snd st) (snd st1)" "same_call (copy_of (snd st1)) c c1" by blast
  have "linked_results h0 ((xs @ call_results c) @ concat (map call_results cs))" using L by simp
  from Cons.IH [OF this c1(2), of "calls @ [c1]"] obtain cs1 st2 where cs1: "rfold clone_call cs (calls @ [c1], st1) = Inr ((calls @ [c1]) @ cs1, st2)"
    "cloned h0 ((xs @ call_results c) @ concat (map call_results cs)) st2" "extends (xs @ call_results c) (snd st1) (snd st2)"
    "list_all2 (same_call (copy_of (snd st2))) cs cs1" by blast
  have "same_call (copy_of (snd st2)) c c1" by (rule same_call_cong [OF c1(4)]) (use cs1(3) in \<open>simp add: extends_def\<close>)
  then show ?case using c1(1) cs1 extends_trans [OF c1(3) cs1(3)] by (intro exI [of _ "c1 # cs1"] exI [of _ st2]) simp
qed simp

lemma same_calls_results:
  assumes "list_all2 (same_call g) cs cs1"
  shows "concat (map call_results cs1) = map g (concat (map call_results cs))"
  using assms
proof (induction rule: list_all2_induct)
  case (Cons c cs c1 cs1)
  have "concat (map arg_results as1) = map g (concat (map arg_results as))"
    if "map (renamed (\<lambda>p. p)) as1 = map (renamed g) as" for as as1
    using that
  proof (induction "as" arbitrary: as1)
    case (Cons a as)
    then obtain a1 as2 where "as1 = a1 # as2" "renamed (\<lambda>p. p) a1 = renamed g a" "map (renamed (\<lambda>p. p)) as2 = map (renamed g) as" by (cases as1) auto
    then show ?case using Cons.IH renamed_results [of "\<lambda>p. p" a1 g a] by simp
  qed simp
  from this [of "c_Args c1" "c_Args c"] have "call_results c1 = map g (call_results c)"
    using Cons.hyps(1) by (auto simp: call_results_def same_call_def map_concat split: option.splits)
  then show ?case using Cons.IH by (simp add: map_concat)
qed simp

lemma cloned_linked:
  assumes L: "linked_results h0 R" and c: "cloned h0 R (h, m)"
  shows "linked_results h (map (copy_of m) R)"
proof -
  let ?g = "copy_of m"
  have inj: "inj_on ?g (set R)" and b: "\<And>a. a \<in> set R \<Longrightarrow> ?g a < h_next h" and ok: "\<And>a. a \<in> set R \<Longrightarrow> copy_ok h0 R m a (h_obj h (?g a))"
    using c by (auto simp: cloned_def)
  have Res: "ra_Res (h_obj h (?g a)) = map_option ?g (ra_Res (h_obj h0 a))" "ra_typ (h_obj h (?g a)) = ra_typ (h_obj h0 a)" if "a \<in> set R" for a
    using ok [OF that] by (auto simp: copy_ok_def dest!: arg_cong [of _ _ ra_Res], auto simp: copy_ok_def dest!: arg_cong [of _ _ ra_typ])
  have usg: "go_get (ra_uses (h_obj h (?g a))) v = (if \<exists>u \<in> set R. v = ?g u \<and> ra_Res (h_obj h0 u) = Some a then Some True else None)" if "a \<in> set R" for a v
    using ok [OF that] by (simp add: copy_ok_def)
  have "distinct (map ?g R)" using L inj by (simp add: linked_results_def distinct_map)
  moreover have "x < h_next h \<and> has_default (ra_typ (h_obj h x)) \<and> wfm (ra_uses (h_obj h x))
      \<and> (\<forall>u. go_get (ra_uses (h_obj h x)) u \<noteq> None \<longrightarrow> go_get (ra_uses (h_obj h x)) u = Some True \<and> u \<in> set (map ?g R) \<and> ra_Res (h_obj h u) = Some x)"
    if x: "x \<in> set (map ?g R)" for x
  proof -
    obtain a where a: "a \<in> set R" "x = ?g a" using x by auto
    have "go_get (ra_uses (h_obj h x)) u = Some True \<and> u \<in> set (map ?g R) \<and> ra_Res (h_obj h u) = Some x" if u: "go_get (ra_uses (h_obj h x)) u \<noteq> None" for u
    proof -
      obtain w where w: "w \<in> set R" "u = ?g w" "ra_Res (h_obj h0 w) = Some a" using u usg [OF a(1), of u] a(2) by (auto split: if_splits)
      then show ?thesis using usg [OF a(1), of u] Res(1) [OF w(1)] a(2) by auto
    qed
    moreover have "wfm (ra_uses (h_obj h x))" using ok [OF a(1)] a(2) by (simp add: copy_ok_def)
    ultimately show ?thesis using b [OF a(1)] Res(2) [OF a(1)] linked_resultsD(2) [OF L a(1)] a(2) by simp
  qed
  moreover have "r \<in> set xs \<and> go_get (ra_uses (h_obj h r)) x = Some True" if s: "map ?g R = xs @ x # ys" and r: "ra_Res (h_obj h x) = Some r" for xs x ys r
  proof -
    from s obtain xs0 a ys0 where R: "R = xs0 @ a # ys0" "xs = map ?g xs0" "x = ?g a" by (auto simp: map_eq_append_conv map_eq_Cons_conv)
    then have a: "a \<in> set R" by simp
    then obtain q where q: "ra_Res (h_obj h0 a) = Some q" "r = ?g q" using r R(3) Res(1) by auto
    have "q \<in> set xs0" using L q(1) R(1) unfolding linked_results_def by blast
    moreover from this have "q \<in> set R" using R(1) by simp
    ultimately show ?thesis using usg [of q x] a q R(2,3) by auto
  qed
  ultimately show ?thesis unfolding linked_results_def by blast
qed

lemma Clone_law:
  assumes "linked_results h (prog_results p)"
  shows "\<exists>p1 h1 g. Clone (p, h) = Inr (p1, h1) \<and> list_all2 (same_call g) (pg_Calls p) (pg_Calls p1)
    \<and> prog_results p1 = map g (prog_results p) \<and> linked_results h1 (prog_results p1)
    \<and> h_next h \<le> h_next h1 \<and> (\<forall>q < h_next h. h_obj h1 q = h_obj h q)
    \<and> (\<forall>a \<in> set (prog_results p). h_next h \<le> g a
        \<and> (h_obj h1 (g a))\<lparr>ra_uses := None\<rparr> = (h_obj h a)\<lparr>ra_Res := map_option g (ra_Res (h_obj h a)), ra_uses := None\<rparr>)"
proof -
  have "cloned h [] (h, Some [])" by (simp add: cloned_def)
  moreover have "linked_results h ([] @ concat (map call_results (pg_Calls p)))" using assms by (simp add: prog_results_def)
  ultimately obtain cs1 h1 m where c: "rfold clone_call (pg_Calls p) ([], h, Some []) = Inr (cs1, h1, m)"
    "cloned h (prog_results p) (h1, m)" "list_all2 (same_call (copy_of m)) (pg_Calls p) cs1"
    using clone_calls [of h "[]" "pg_Calls p" "(h, Some [])" "[]"] by (auto simp: prog_results_def)
  let ?p1 = "\<lparr>pg_Calls = cs1, pg_Comments = pg_Comments p\<rparr>"
  have R: "prog_results ?p1 = map (copy_of m) (prog_results p)" using same_calls_results [OF c(3)] by (simp add: prog_results_def)
  have "Clone (p, h) = Inr (?p1, h1)" using c(1) by (simp add: Clone_def)
  moreover have "linked_results h1 (prog_results ?p1)" unfolding R by (rule cloned_linked [OF assms c(2)])
  moreover have "\<forall>q < h_next h. h_obj h1 q = h_obj h q" "h_next h \<le> h_next h1" using c(2) by (simp_all add: cloned_def)
  moreover have "h_next h \<le> copy_of m a \<and> (h_obj h1 (copy_of m a))\<lparr>ra_uses := None\<rparr>
      = (h_obj h a)\<lparr>ra_Res := map_option (copy_of m) (ra_Res (h_obj h a)), ra_uses := None\<rparr>" if "a \<in> set (prog_results p)" for a
    using c(2) that by (simp add: cloned_def copy_ok_def)
  ultimately show ?thesis using c(3) R by (intro exI [of _ ?p1] exI [of _ h1] exI [of _ "copy_of m"]) auto
qed

text \<open>Sizes and walks do not depend on the addresses.\<close>

definition types_along :: "arg_heap \<Rightarrow> arg_heap \<Rightarrow> (ptr \<Rightarrow> ptr) \<Rightarrow> ptr list \<Rightarrow> bool" where
  "types_along h h' g ps \<longleftrightarrow> (\<forall>p \<in> set ps. ra_typ (h_obj h' (g p)) = ra_typ (h_obj h p))"

lemma renamed_Type: "types_along h h' g (arg_results a) \<Longrightarrow> arg_Type h' (renamed g a) = arg_Type h a"
  by (cases a) (auto simp: types_along_def)

lemma renamed_Size:
  "types_along h h' g (arg_results a) \<Longrightarrow> arg_Size h' (renamed g a) = arg_Size h a"
  "types_along h h' g (concat (map arg_results as)) \<Longrightarrow> inner_Size h' struct (map (renamed g) as) = inner_Size h struct as"
proof (induction h a and h struct "as" rule: arg_Size_inner_Size.induct)
  case (8 h struct a as)
  then have s: "types_along h h' g (arg_results a)" "types_along h h' g (concat (map arg_results as))" by (auto simp: types_along_def)
  have e: "(if struct \<and> ty_BitfieldMiddle (arg_Type h' (renamed g a)) then Inr 0 else arg_Size h' (renamed g a))
      = (if struct \<and> ty_BitfieldMiddle (arg_Type h a) then Inr 0 else arg_Size h a)"
    using 8(1) s(1) renamed_Type [OF s(1)] by auto
  show ?case unfolding inner_Size.simps list.map e by (rule rbind_cong [OF refl]) (use 8(2) s(2) in auto)
qed (auto simp: types_along_def split: Type.splits)

definition no_value :: "'a res \<Rightarrow> unit res" where
  "no_value r = rmap (\<lambda>_. ()) r"

lemma no_value_simps [simp]: "no_value (Inl e) = Inl e" "no_value (Inr x) = Inr ()" "no_value (rmap f r) = no_value r"
  by (simp_all add: no_value_def) (cases r, auto)

lemma renamed_walk:
  "types_along h h' g (arg_results a) \<Longrightarrow> no_value (foreachArgImpl h' ctx' (renamed g a)) = no_value (foreachArgImpl h ctx a)"
  "types_along h h' g (concat (map arg_results as)) \<Longrightarrow> rmap snd (foreach_inner h' ctx' (map (renamed g) as)) = rmap snd (foreach_inner h ctx as)"
proof (induction h ctx a and h ctx "as" arbitrary: ctx' and ctx' rule: foreachArgImpl_foreach_inner.induct)
  case (1 h ctx p t inner)
  let ?c = "if (case t of StructType k f c a \<Rightarrow> True | _ \<Rightarrow> False) then ctx\<lparr>ctx_Parent := Some inner\<rparr> else ctx"
  let ?c' = "if (case t of StructType k f c a \<Rightarrow> True | _ \<Rightarrow> False) then ctx'\<lparr>ctx_Parent := Some (map (renamed g) inner)\<rparr> else ctx'"
  have t: "types_along h h' g (concat (map arg_results inner))" using 1(2) by simp
  have sz: "arg_Size h' (GroupArg 0 t (map (renamed g) inner)) = arg_Size h (GroupArg p t inner)" using renamed_Size(1) [OF 1(2)] by simp
  have "no_value (rbind r (\<lambda>(vs, tot). rbind S (\<lambda>cl. if bad_group t tot cl then Inl (Panic e) else Inr (x # vs))))
      = rbind (rmap snd r) (\<lambda>tot. rbind S (\<lambda>cl. if bad_group t tot cl then Inl (Panic e) else Inr ()))" for r S e and x :: "Arg \<times> ArgCtx"
    by (cases r; cases S) (auto split: prod.splits)
  then show ?case using 1(1) [OF t, of ?c'] by (simp only: foreachArgImpl.simps renamed.simps sz)
next
  case (9 h ctx a as)
  then have s: "types_along h h' g (arg_results a)" "types_along h h' g (concat (map arg_results as))" by (auto simp: types_along_def)
  have e: "(if ty_BitfieldMiddle (arg_Type h' (renamed g a)) then Inr 0 else arg_Size h' (renamed g a)) = (if ty_BitfieldMiddle (arg_Type h a) then Inr 0 else arg_Size h a)"
    using renamed_Type [OF s(1)] renamed_Size(1) [OF s(1)] by simp
  have split: "rmap snd (rbind r (\<lambda>vs. rbind S (\<lambda>sz. rmap (\<lambda>(vs', tot). (vs @ vs', sz + tot)) (F sz))))
      = rbind (no_value r) (\<lambda>_. rbind S (\<lambda>sz. rmap (\<lambda>tot. sz + tot) (rmap snd (F sz))))" for r :: "(Arg \<times> ArgCtx) list res" and S and F :: "uint64 \<Rightarrow> ((Arg \<times> ArgCtx) list \<times> uint64) res"
    by (cases r; cases S) (auto simp: rmap_def rbind_assoc rbind_def split: sum.splits prod.splits)
  show ?case unfolding foreach_inner.simps list.map split e
  proof (rule rbind_cong)
    show "no_value (foreachArgImpl h' ctx' (renamed g a)) = no_value (foreachArgImpl h ctx a)" by (rule 9(1) [OF s(1)])
    fix u assume "no_value (foreachArgImpl h ctx a) = Inr u"
    then obtain vs where vs: "foreachArgImpl h ctx a = Inr vs" by (cases "foreachArgImpl h ctx a") auto
    show "rbind (if ty_BitfieldMiddle (arg_Type h a) then Inr 0 else arg_Size h a) (\<lambda>sz. rmap (\<lambda>tot. sz + tot) (rmap snd (foreach_inner h' (ctx'\<lparr>ctx_Offset := ctx_Offset ctx' + sz\<rparr>) (map (renamed g) as))))
      = rbind (if ty_BitfieldMiddle (arg_Type h a) then Inr 0 else arg_Size h a) (\<lambda>sz. rmap (\<lambda>tot. sz + tot) (rmap snd (foreach_inner h (ctx\<lparr>ctx_Offset := ctx_Offset ctx + sz\<rparr>) as)))"
      by (rule rbind_cong [OF refl]) (use 9(2) [OF vs _ s(2)] in auto)
  qed
qed (auto simp: types_along_def)

lemma clone_walkable:
  assumes "list_all2 (same_call g) (pg_Calls p) (pg_Calls p1)" "walkable h (prog_args p)"
    and "\<forall>a \<in> set (prog_results p). ra_typ (h_obj h1 (g a)) = ra_typ (h_obj h a)"
  shows "walkable h1 (prog_args p1)"
  unfolding walkable_def
proof
  fix a1 assume "a1 \<in> set (prog_args p1)"
  then obtain c1 where c1: "c1 \<in> set (pg_Calls p1)" "a1 \<in> set (c_Args c1)" by (auto simp: prog_args_def)
  then obtain c where c: "c \<in> set (pg_Calls p)" "same_call g c c1" using assms(1) by (auto simp: list_all2_conv_all_nth in_set_conv_nth) blast
  then have "map (renamed (\<lambda>p. p)) (c_Args c1) = map (renamed g) (c_Args c)" by (simp add: same_call_def)
  then have "renamed (\<lambda>p. p) a1 \<in> renamed g ` set (c_Args c)" using c1(2) by (metis image_eqI list.set_map)
  then obtain a where a: "a \<in> set (c_Args c)" "renamed (\<lambda>p. p) a1 = renamed g a" by blast
  then have ap: "a \<in> set (prog_args p)" "set (arg_results a) \<subseteq> set (prog_results p)"
    using c(1) by (auto simp: prog_args_def prog_results_def call_results_def)
  then obtain vs where vs: "ForeachSubArg h a = Inr vs" using assms(2) by (auto simp: walkable_def)
  have "types_along h h1 g (arg_results a)" using ap(2) assms(3) by (auto simp: types_along_def)
  from renamed_walk(1) [OF this, of ctx0 ctx0] have "no_value (foreachArgImpl h1 ctx0 (renamed g a)) = Inr ()"
    using vs by (simp add: ForeachSubArg_def)
  moreover have "types_along h1 h1 (\<lambda>p. p) (arg_results a1)" by (simp add: types_along_def)
  from renamed_walk(1) [OF this, of ctx0 ctx0] have "no_value (foreachArgImpl h1 ctx0 a1) = no_value (foreachArgImpl h1 ctx0 (renamed g a))" by (simp add: a(2))
  ultimately show "\<exists>vs. ForeachSubArg h1 a1 = Inr vs" by (cases "foreachArgImpl h1 ctx0 a1") (auto simp: ForeachSubArg_def)
qed

text \<open>A program that can be edited: linked, and its sizes are consistent.\<close>

definition editable :: "program \<times> arg_heap \<Rightarrow> bool" where
  "editable s \<longleftrightarrow> linked_results (snd s) (prog_results (fst s)) \<and> walkable (snd s) (prog_args (fst s))"

definition metas :: "program \<Rightarrow> Syscall list" where
  "metas p = map c_Meta (pg_Calls p)"

lemma Clone_editable:
  assumes "editable (p, h)"
  shows "\<exists>p1 h1. Clone (p, h) = Inr (p1, h1) \<and> editable (p1, h1) \<and> metas p1 = metas p \<and> h_next h \<le> h_next h1
    \<and> (\<forall>q < h_next h. h_obj h1 q = h_obj h q) \<and> (\<forall>a \<in> set (prog_results p1). h_next h \<le> a)"
proof -
  have "linked_results h (prog_results p)" using assms by (simp add: editable_def)
  from Clone_law [OF this] obtain p1 h1 g where c: "Clone (p, h) = Inr (p1, h1)" "list_all2 (same_call g) (pg_Calls p) (pg_Calls p1)"
    "prog_results p1 = map g (prog_results p)" "linked_results h1 (prog_results p1)" "h_next h \<le> h_next h1" "\<forall>q < h_next h. h_obj h1 q = h_obj h q"
    "\<forall>a \<in> set (prog_results p). h_next h \<le> g a
        \<and> (h_obj h1 (g a))\<lparr>ra_uses := None\<rparr> = (h_obj h a)\<lparr>ra_Res := map_option g (ra_Res (h_obj h a)), ra_uses := None\<rparr>"
    by (elim exE conjE) (rule that; assumption)
  have "\<forall>a \<in> set (prog_results p). ra_typ (h_obj h1 (g a)) = ra_typ (h_obj h a)"
  proof
    fix a assume "a \<in> set (prog_results p)"
    with c(7) have "(h_obj h1 (g a))\<lparr>ra_uses := None\<rparr> = (h_obj h a)\<lparr>ra_Res := map_option g (ra_Res (h_obj h a)), ra_uses := None\<rparr>" by blast
    from arg_cong [OF this, of ra_typ] show "ra_typ (h_obj h1 (g a)) = ra_typ (h_obj h a)" by simp
  qed
  from clone_walkable [OF c(2) _ this] assms have "walkable h1 (prog_args p1)" by (simp add: editable_def)
  moreover have "metas p1 = metas p" unfolding metas_def using c(2)
    by (induction rule: list_all2_induct) (auto simp: same_call_def)
  moreover have "\<forall>a \<in> set (prog_results p1). h_next h \<le> a" using c(3,7) by auto
  ultimately show ?thesis using c(1,4,5,6) by (intro exI [of _ p1] exI [of _ h1]) (simp add: editable_def)
qed

section \<open>Minimization: removing calls\<close>

text \<open>
  \<open>removeCalls\<close> tries to drop the calls, last to first, except for the call of interest. The predicate runs the
  program, after it neutralized harmful calls in it (\<open>SanitizeCall\<close>); it may change the program it is given
  and the world.
\<close>

type_synonym 'w min_pred = "program \<times> arg_heap \<Rightarrow> int \<Rightarrow> 'w \<Rightarrow> bool \<times> (program \<times> arg_heap) \<times> 'w"

fun remove_calls :: "'w min_pred \<Rightarrow> nat \<Rightarrow> program \<Rightarrow> int \<Rightarrow> arg_heap \<Rightarrow> 'w \<Rightarrow> (program \<times> int \<times> arg_heap \<times> 'w) res" where
  "remove_calls pred 0 p0 callIndex0 h w = Inr (p0, callIndex0, h, w)"
| "remove_calls pred (Suc i) p0 callIndex0 h w =
    (if int i = callIndex0 then remove_calls pred i p0 callIndex0 h w
     else let callIndex = (if int i < callIndex0 then callIndex0 - 1 else callIndex0) in
       rbind (Clone (p0, h)) (\<lambda>s1.
       rbind (RemoveCall (int i) s1) (\<lambda>s2.
       case pred s2 callIndex w of (ok, (p, h1), w1) \<Rightarrow>
         if \<not> ok then remove_calls pred i p0 callIndex0 h1 w1 else remove_calls pred i p callIndex h1 w1)))"

definition removeCalls :: "'w min_pred \<Rightarrow> program \<Rightarrow> int \<Rightarrow> arg_heap \<Rightarrow> 'w \<Rightarrow> (program \<times> int \<times> arg_heap \<times> 'w) res" where
  "removeCalls pred p0 callIndex0 h w = remove_calls pred (length (pg_Calls p0)) p0 callIndex0 h w"

text \<open>What is asked of the predicate: it changes values within the arguments of the program it is given and
  nothing else, so that the program can still be edited.\<close>

definition pred_ok :: "'w min_pred \<Rightarrow> bool" where
  "pred_ok pred \<longleftrightarrow> (\<forall>p h i w ok p' h' w'. editable (p, h) \<longrightarrow> pred (p, h) i w = (ok, (p', h'), w') \<longrightarrow>
     editable (p', h') \<and> metas p' = metas p \<and> prog_results p' = prog_results p \<and> h_next h \<le> h_next h'
     \<and> (\<forall>q < h_next h. q \<notin> set (prog_results p) \<longrightarrow> h_obj h' q = h_obj h q))"

lemma editable_frame:
  assumes "editable (p, h)" "h_next h \<le> h_next h'" "\<forall>q < h_next h. h_obj h' q = h_obj h q"
  shows "editable (p, h')"
proof -
  let ?R = "prog_results p"
  have L: "linked_results h ?R" using assms(1) by (simp add: editable_def)
  have same: "h_obj h' a = h_obj h a" if "a \<in> set ?R" for a using linked_resultsD(1) [OF L that] assms(3) by simp
  have "linked_results h' ?R" unfolding linked_results_def
  proof (intro conjI ballI allI impI)
    show "distinct ?R" using L by (simp add: linked_results_def)
    fix a assume a: "a \<in> set ?R"
    show "a < h_next h'" "has_default (ra_typ (h_obj h' a))" "wfm (ra_uses (h_obj h' a))"
      using linked_resultsD(1,2,3) [OF L a] assms(2) same [OF a] by auto
    fix u assume u: "go_get (ra_uses (h_obj h' a)) u \<noteq> None"
    then show "go_get (ra_uses (h_obj h' a)) u = Some True" "u \<in> set ?R" "ra_Res (h_obj h' u) = Some a"
      using linked_resultsD(4) [OF L a, of u] same [OF a] same [of u] by auto
  next
    fix xs a ys r assume R: "?R = xs @ a # ys" and r: "ra_Res (h_obj h' a) = Some r"
    have "a \<in> set ?R" using R by simp
    then have "ra_Res (h_obj h a) = Some r" using r same by simp
    then have "r \<in> set xs \<and> go_get (ra_uses (h_obj h r)) a = Some True" using L R unfolding linked_results_def by blast
    moreover from this have "r \<in> set ?R" using R by simp
    ultimately show "r \<in> set xs" "go_get (ra_uses (h_obj h' r)) a = Some True" using same by auto
  qed
  moreover have "walkable h' (prog_args p)"
    unfolding walkable_def
  proof
    fix a assume a: "a \<in> set (prog_args p)"
    then have "set (arg_results a) \<subseteq> set ?R" by (auto simp: prog_args_def prog_results_def call_results_def)
    then have "same_types h h' (arg_results a)" using same by (auto simp: same_types_def)
    from same_types_walk(1) [OF this, of ctx0] a assms(1) show "\<exists>vs. ForeachSubArg h' a = Inr vs"
      by (auto simp: editable_def walkable_def ForeachSubArg_def)
  qed
  ultimately show ?thesis by (simp add: editable_def)
qed

text \<open>One attempt: the copy without the call can be run, and whatever comes of it, the program it was copied from
  stays as it is.\<close>

lemma remove_attempt:
  assumes ok: "pred_ok pred" and e: "editable (p, h)" and i: "i < length (pg_Calls p)"
  shows "\<exists>s1 s2 b p3 h3 w1. Clone (p, h) = Inr s1 \<and> RemoveCall (int i) s1 = Inr s2 \<and> pred s2 ci w = (b, (p3, h3), w1)
    \<and> editable (p3, h3) \<and> editable (p, h3) \<and> metas p3 = take i (metas p) @ drop (Suc i) (metas p)"
proof -
  from Clone_editable [OF e] obtain p1 h1 where c: "Clone (p, h) = Inr (p1, h1)" "editable (p1, h1)" "metas p1 = metas p" "h_next h \<le> h_next h1"
    "\<forall>q < h_next h. h_obj h1 q = h_obj h q" "\<forall>a \<in> set (prog_results p1). h_next h \<le> a" by (elim exE conjE) (rule that; assumption)
  have i1: "i < length (pg_Calls p1)" using i arg_cong [OF c(3), of length] by (simp add: metas_def)
  have "linked_results h1 (prog_results p1)" "walkable h1 (prog_args p1)" using c(2) by (simp_all add: editable_def)
  from RemoveCall_law [OF this i1] obtain p2 h2 where r: "RemoveCall (int i) (p1, h1) = Inr (p2, h2)"
    "pg_Calls p2 = take i (pg_Calls p1) @ drop (Suc i) (pg_Calls p1)" "linked_results h2 (prog_results p2)" "walkable h2 (prog_args p2)"
    "h_next h1 \<le> h_next h2" "\<forall>q < h_next h1. q \<notin> set (prog_results p1) \<longrightarrow> h_obj h2 q = h_obj h1 q" by (elim exE conjE) (rule that; assumption)
  have e2: "editable (p2, h2)" using r(3,4) by (simp add: editable_def)
  obtain b p3 h3 w1 where p: "pred (p2, h2) ci w = (b, (p3, h3), w1)" by (metis surj_pair)
  from ok e2 p have p3: "editable (p3, h3)" "metas p3 = metas p2" "h_next h2 \<le> h_next h3"
    "\<forall>q < h_next h2. q \<notin> set (prog_results p2) \<longrightarrow> h_obj h3 q = h_obj h2 q" unfolding pred_ok_def by blast+
  have sub: "set (prog_results p2) \<subseteq> set (prog_results p1)" using r(2) by (auto simp: prog_results_def dest: in_set_takeD in_set_dropD)
  have "h_obj h3 q = h_obj h q" if "q < h_next h" for q
  proof -
    have "q \<notin> set (prog_results p1)" using c(6) that by (meson leD)
    then have "q \<notin> set (prog_results p2)" "h_obj h2 q = h_obj h1 q" using sub r(6) that c(4) by auto
    then show ?thesis using p3(4) c(5) that c(4) r(5) by simp
  qed
  then have "editable (p, h3)" by (intro editable_frame [OF e]) (use c(4) r(5) p3(3) in auto)
  moreover have "metas p2 = take i (metas p) @ drop (Suc i) (metas p)" unfolding c(3) [symmetric] using r(2) by (simp add: metas_def take_map drop_map)
  ultimately show ?thesis using c(1) r(1) p p3(1,2) by auto
qed

definition index_ok :: "program \<Rightarrow> int \<Rightarrow> bool" where
  "index_ok p ci \<longleftrightarrow> ci = - 1 \<or> 0 \<le> ci \<and> ci < int (length (pg_Calls p))"

definition same_index :: "program \<Rightarrow> int \<Rightarrow> program \<Rightarrow> int \<Rightarrow> bool" where
  "same_index p ci p' ci' \<longleftrightarrow> index_ok p' ci' \<and> (if ci = - 1 then ci' = - 1 else 0 \<le> ci' \<and> metas p' ! nat ci' = metas p ! nat ci)"

lemma remove_index:
  assumes "index_ok p ci" "int i \<noteq> ci" "i < length (pg_Calls p)" "metas p' = take i (metas p) @ drop (Suc i) (metas p)"
  shows "same_index p ci p' (if int i < ci then ci - 1 else ci)"
proof -
  have "length (pg_Calls p') = length (pg_Calls p) - 1" using arg_cong [OF assms(4), of length] assms(3) by (simp add: metas_def)
  then show ?thesis using assms by (auto simp: same_index_def index_ok_def nth_append nat_diff_distrib min_def metas_def)
qed

lemma same_index_trans: "same_index p ci p1 ci1 \<Longrightarrow> same_index p1 ci1 p2 ci2 \<Longrightarrow> same_index p ci p2 ci2"
  by (auto simp: same_index_def split: if_splits)

lemma remove_calls_law:
  assumes ok: "pred_ok pred"
  shows "editable (p, h) \<Longrightarrow> index_ok p ci \<Longrightarrow> n \<le> length (pg_Calls p) \<Longrightarrow>
    \<exists>p' ci' h' w'. remove_calls pred n p ci h w = Inr (p', ci', h', w') \<and> editable (p', h') \<and> subseq (metas p') (metas p) \<and> same_index p ci p' ci'
      \<and> (p' = p \<and> ci' = ci \<or> (\<exists>s u h1 u1. pred s ci' u = (True, (p', h1), u1)))"
proof (induction n arbitrary: p ci h w)
  case 0
  then show ?case by (auto simp: same_index_def index_ok_def)
next
  case (Suc i)
  then have i: "i < length (pg_Calls p)" by simp
  show ?case
  proof (cases "int i = ci")
    case True
    then show ?thesis using Suc.IH [OF Suc.prems(1,2)] i by simp
  next
    case False
    let ?ci = "if int i < ci then ci - 1 else ci"
    from remove_attempt [OF ok Suc.prems(1) i, of ?ci w] obtain s1 s2 b p3 h3 w1 where a: "Clone (p, h) = Inr s1" "RemoveCall (int i) s1 = Inr s2"
      "pred s2 ?ci w = (b, (p3, h3), w1)" "editable (p3, h3)" "editable (p, h3)" "metas p3 = take i (metas p) @ drop (Suc i) (metas p)"
      by (elim exE conjE) (rule that; assumption)
    have eq: "remove_calls pred (Suc i) p ci h w = (if b then remove_calls pred i p3 ?ci h3 w1 else remove_calls pred i p ci h3 w1)"
      using False a(1-3) by (simp add: Let_def)
    show ?thesis
    proof (cases b)
      case False
      then show ?thesis using Suc.IH [OF a(5) Suc.prems(2), of w1] i eq by simp
    next
      case True
      have ix: "same_index p ci p3 ?ci" by (rule remove_index [OF Suc.prems(2) False i a(6)])
      then have "index_ok p3 ?ci" by (simp add: same_index_def)
      moreover have "i \<le> length (pg_Calls p3)" using arg_cong [OF a(6), of length] i by (simp add: metas_def)
      ultimately obtain p' ci' h' w' where r: "remove_calls pred i p3 ?ci h3 w1 = Inr (p', ci', h', w')" "editable (p', h')" "subseq (metas p') (metas p3)"
        "same_index p3 ?ci p' ci'" "p' = p3 \<and> ci' = ?ci \<or> (\<exists>s u h1 u1. pred s ci' u = (True, (p', h1), u1))"
        using Suc.IH [OF a(4), of ?ci w1] by blast
      have "subseq (metas p3) (metas p)"
      proof -
        have "metas p = take i (metas p) @ [metas p ! i] @ drop (Suc i) (metas p)" using id_take_nth_drop [of i "metas p"] i by (simp add: metas_def)
        moreover have "subseq (take i (metas p) @ drop (Suc i) (metas p)) (take i (metas p) @ [metas p ! i] @ drop (Suc i) (metas p))"
          by (intro list_emb_append_mono subseq_order.refl list_emb_append2)
        ultimately show ?thesis unfolding a(6) by metis
      qed
      then have "subseq (metas p') (metas p)" using r(3) subseq_order.trans by blast
      moreover have "p' = p \<and> ci' = ci \<or> (\<exists>s u h1 u1. pred s ci' u = (True, (p', h1), u1))" using r(5)
      proof
        assume "p' = p3 \<and> ci' = ?ci"
        then have "pred s2 ci' w = (True, (p', h3), w1)" using a(3) True by simp
        then show ?thesis by blast
      qed blast
      ultimately show ?thesis using eq True r(1,2) same_index_trans [OF ix r(4)] by auto
    qed
  qed
qed

section \<open>Properties\<close>

text \<open>
  C20: removing a call keeps the references of a program intact. \<open>RemoveCall\<close> of a call of a linked
  program neither panics nor leaves a reference into the call: the rest is linked again, a result
  that referred into the call holds the default value of its type, results of the call are no longer
  listed as users, and nothing else changes.
\<close>

theorem RemoveCall_relinks:
  assumes "linked_results h (prog_results p)" "walkable h (prog_args p)" "i < length (pg_Calls p)"
  shows "\<exists>p' h'. RemoveCall (int i) (p, h) = Inr (p', h')
    \<and> pg_Calls p' = take i (pg_Calls p) @ drop (Suc i) (pg_Calls p) \<and> linked_results h' (prog_results p')
    \<and> (\<forall>a \<in> set (prog_results p'). without (set (call_results (pg_Calls p ! i))) (h_obj h a) (h_obj h' a))"
  using RemoveCall_law [OF assms] by blast

text \<open>
  C21: \<open>Clone\<close> of a linked program returns and leaves the program as it is. The copy has the same calls and
  arguments, with new objects for the results; these hold the same values and refer to each other as
  the originals do, and the copy is linked again.
\<close>

theorem Clone_isomorphic:
  assumes "linked_results h (prog_results p)"
  shows "\<exists>p1 h1 g. Clone (p, h) = Inr (p1, h1) \<and> list_all2 (same_call g) (pg_Calls p) (pg_Calls p1)
    \<and> linked_results h1 (prog_results p1) \<and> (\<forall>q < h_next h. h_obj h1 q = h_obj h q)
    \<and> (\<forall>a \<in> set (prog_results p). h_next h \<le> g a
        \<and> (h_obj h1 (g a))\<lparr>ra_uses := None\<rparr> = (h_obj h a)\<lparr>ra_Res := map_option g (ra_Res (h_obj h a)), ra_uses := None\<rparr>)"
  using Clone_law [OF assms] by blast

text \<open>
  C22: \<open>removeCalls\<close> returns on every program that can be edited, whatever the predicate answers: the result is
  the program itself or one the predicate accepted, its calls are some of the calls of the program in
  their order, and the call of interest is still there, under the index that is returned.
\<close>

theorem removeCalls_keeps_call:
  assumes "pred_ok pred" "editable (p, h)" "index_ok p ci"
  shows "\<exists>p' ci' h' w'. removeCalls pred p ci h w = Inr (p', ci', h', w') \<and> editable (p', h')
    \<and> subseq (metas p') (metas p) \<and> same_index p ci p' ci'
    \<and> (p' = p \<and> ci' = ci \<or> (\<exists>s u h1 u1. pred s ci' u = (True, (p', h1), u1)))"
  unfolding removeCalls_def by (rule remove_calls_law [OF assms order.refl])

section \<open>Witnesses\<close>

text \<open>\<open>r0 = open(); read(r0)\<close>.\<close>

definition ex_result :: "Dir \<Rightarrow> ptr option \<Rightarrow> (ptr, bool) gomap \<Rightarrow> result_arg" where
  "ex_result d r us = \<lparr>ra_typ = ResourceType (ex_common d) 0 ex_fd, ra_Res = r, ra_OpDiv = 0, ra_OpAdd = 0, ra_Val = 7, ra_uses = us\<rparr>"

definition ex_heap :: arg_heap where
  "ex_heap = \<lparr>h_obj = (\<lambda>p. if p = 0 then ex_result DirOut None (Some [(1, True)]) else ex_result DirIn (Some 0) None), h_next = 2\<rparr>"

definition ex_prog :: program where
  "ex_prog = \<lparr>pg_Calls = [\<lparr>c_ptr = 10, c_Meta = ex_open_call, c_Args = [], c_Ret = Some 0, c_Comment = []\<rparr>,
     \<lparr>c_ptr = 11, c_Meta = ex_read_call, c_Args = [ResultArg 1], c_Ret = None, c_Comment = []\<rparr>], pg_Comments = []\<rparr>"

lemma ex_prog_editable: "editable (ex_prog, ex_heap)" "prog_results ex_prog = [0, 1]"
proof -
  show R: "prog_results ex_prog = [0, 1]" by (simp add: prog_results_def ex_prog_def call_results_def)
  have "linked_results ex_heap [0, 1]"
    by (auto simp: linked_results_def ex_heap_def ex_result_def has_default_def ex_fd_def go_get_Some Cons_eq_append_conv wfm_def go_keys_def split: if_splits)
  then show "editable (ex_prog, ex_heap)" by (simp add: editable_def R) (simp add: walkable_def prog_args_def ex_prog_def ForeachSubArg_def)
qed

theorem RemoveCall_relinks_witness:
  "\<exists>p' h'. RemoveCall (int 0) (ex_prog, ex_heap) = Inr (p', h') \<and> map c_Meta (pg_Calls p') = [ex_read_call]
    \<and> linked_results h' (prog_results p') \<and> ra_Res (h_obj h' 1) = None \<and> ra_Val (h_obj h' 1) = 0"
proof -
  have "linked_results ex_heap (prog_results ex_prog)" "walkable ex_heap (prog_args ex_prog)" using ex_prog_editable(1) by (simp_all add: editable_def)
  from RemoveCall_relinks [OF this, of 0] obtain p' h' where r: "RemoveCall (int 0) (ex_prog, ex_heap) = Inr (p', h')"
    "pg_Calls p' = take 0 (pg_Calls ex_prog) @ drop (Suc 0) (pg_Calls ex_prog)" "linked_results h' (prog_results p')"
    "\<forall>a \<in> set (prog_results p'). without (set (call_results (pg_Calls ex_prog ! 0))) (h_obj ex_heap a) (h_obj h' a)" by (auto simp: ex_prog_def)
  have "rmap (\<lambda>(p', h'). (ra_Res (h_obj h' 1), ra_Val (h_obj h' 1))) (RemoveCall 0 (ex_prog, ex_heap)) = Inr (None, 0)" by code_simp
  then show ?thesis using r by (auto simp: ex_prog_def)
qed

theorem Clone_isomorphic_witness:
  "\<exists>p1 h1. Clone (ex_prog, ex_heap) = Inr (p1, h1) \<and> linked_results h1 (prog_results p1) \<and> prog_results p1 = [3, 5] \<and> ra_Res (h_obj h1 5) = Some 3"
proof -
  have "linked_results ex_heap (prog_results ex_prog)" using ex_prog_editable(1) by (simp add: editable_def)
  from Clone_isomorphic [OF this] obtain p1 h1 where c: "Clone (ex_prog, ex_heap) = Inr (p1, h1)" "linked_results h1 (prog_results p1)" by blast
  have "rmap (\<lambda>(p1, h1). (prog_results p1, ra_Res (h_obj h1 5))) (Clone (ex_prog, ex_heap)) = Inr ([3, 5], Some 3)" by code_simp
  then show ?thesis using c by simp
qed

theorem removeCalls_keeps_call_witness:
  "\<exists>p' h'. removeCalls (\<lambda>s i w. (True, s, w)) ex_prog 1 ex_heap () = Inr (p', 0, h', ()) \<and> metas p' = [ex_read_call] \<and> editable (p', h')"
proof -
  have "pred_ok (\<lambda>s i (w :: unit). (True, s, w))" by (simp add: pred_ok_def)
  moreover have "index_ok ex_prog 1" by (simp add: index_ok_def ex_prog_def)
  ultimately obtain p' ci' h' where r: "removeCalls (\<lambda>s i w. (True, s, w)) ex_prog 1 ex_heap () = Inr (p', ci', h', ())" "editable (p', h')"
    using removeCalls_keeps_call [OF _ ex_prog_editable(1), of "\<lambda>s i w. (True, s, w)" 1 "()"] by auto
  have "rmap (\<lambda>(p', ci', h', w). (metas p', ci')) (removeCalls (\<lambda>s i w. (True, s, w)) ex_prog 1 ex_heap ()) = Inr ([ex_read_call], 0)" by code_simp
  then show ?thesis using r by simp
qed

end
