(* ===== verification/Exec_Format.thy ===== *)
theory Exec_Format
  imports Prog_Edit Corpus_DB
begin

text \<open>
  The form in which a program is handed to the executor, and its decoder (\<open>prog/decodeexec.go\<close> and the
  constants of \<open>prog/encodingexec.go\<close>): a sequence of 64-bit words that describes calls, the memory to fill
  before a call, and the results to keep after it.

  An error that the decoder notes in \<open>err\<close> is a value of its state; a panic is an error of the result.
  Memory is not bounded: \<open>make\<close> panics only when the length is not an \<open>int\<close>, and the loop that extends
  \<open>vars\<close> ends with memory exhausted only for the index that no length exceeds.
\<close>

section \<open>Constants and data\<close>

definition execInstrEOF :: uint64 where "execInstrEOF = NOT 0"
definition execInstrCopyin :: uint64 where "execInstrCopyin = NOT 1"
definition execInstrCopyout :: uint64 where "execInstrCopyout = NOT 2"
definition execArgConst :: uint64 where "execArgConst = 0"
definition execArgResult :: uint64 where "execArgResult = 1"
definition execArgData :: uint64 where "execArgData = 2"
definition execArgCsum :: uint64 where "execArgCsum = 3"
definition execArgDataReadable :: uint64 where "execArgDataReadable = push_bit 63 1"
definition ExecArgCsumInet :: uint64 where "ExecArgCsumInet = 0"
definition ExecArgCsumChunkData :: uint64 where "ExecArgCsumChunkData = 0"
definition ExecArgCsumChunkConst :: uint64 where "ExecArgCsumChunkConst = 1"
definition ExecNoCopyout :: uint64 where "ExecNoCopyout = NOT 0"

record ExecCsumChunk =
  eck_Kind :: uint64
  eck_Value :: uint64
  eck_Size :: uint64

text \<open>The arguments of \<open>ExecArgConst\<close> are size, format, value, offset and length of the bitfield and pid stride;
  those of \<open>ExecArgResult\<close> size, format, index, divisor, summand and default. \<open>ExecNil\<close> is the nil interface.\<close>

datatype ExecArg =
    ExecArgConst uint64 BinaryFormat uint64 uint64 uint64 uint64
  | ExecArgResult uint64 BinaryFormat uint64 uint64 uint64 uint64
  | ExecArgData bytes bool
  | ExecArgCsum uint64 uint64 "ExecCsumChunk list"
  | ExecNil

record ExecCopyin =
  ein_Addr :: uint64
  ein_Arg :: ExecArg

record ExecCopyout =
  eout_Index :: uint64
  eout_Addr :: uint64
  eout_Size :: uint64

record ExecCall =
  ec_Meta :: "Syscall option"
  ec_Index :: uint64
  ec_Args :: "ExecArg list"
  ec_Copyin :: "ExecCopyin list"
  ec_Copyout :: "ExecCopyout list"

record ExecProg =
  ep_Calls :: "ExecCall list"
  ep_Vars :: "uint64 list"

definition no_call :: ExecCall where
  "no_call = \<lparr>ec_Meta = None, ec_Index = 0, ec_Args = [], ec_Copyin = [], ec_Copyout = []\<rparr>"

section \<open>The decoder\<close>

record execDecoder =
  dec_data :: bytes
  dec_err :: "string option"
  dec_numVars :: uint64
  dec_vars :: "uint64 list"
  dec_call :: ExecCall
  dec_calls :: "ExecCall list"

definition setErr :: "string \<Rightarrow> execDecoder \<Rightarrow> execDecoder" where
  "setErr e d = (if dec_err d = None then d\<lparr>dec_err := Some e\<rparr> else d)"

definition or_bytes :: "bytes \<Rightarrow> uint64" where
  "or_bytes bs = fold (\<lambda>i v. v OR push_bit (i * 8) (of_char (bs ! i))) [0..<8] 0"

definition dec_read :: "execDecoder \<Rightarrow> uint64 \<times> execDecoder" where
  "dec_read d =
    (let d1 = (if length (dec_data d) < 8 then setErr ''exec program overflow'' d else d) in
     if dec_err d1 \<noteq> None then (0, d1)
     else (or_bytes (dec_data d1), d1\<lparr>dec_data := drop 8 (dec_data d1)\<rparr>))"

definition readBlob :: "uint64 \<Rightarrow> execDecoder \<Rightarrow> bytes \<times> execDecoder" where
  "readBlob sz d =
    (let padded = (sz + 7) div 8 * 8;
         d1 = (if length (dec_data d) < unat padded then setErr ''exec program overflow'' d else d) in
     if dec_err d1 \<noteq> None then ([], d1)
     else (take (unat sz) (dec_data d1), d1\<lparr>dec_data := drop (unat padded) (dec_data d1)\<rparr>))"

primrec read_chunks :: "nat \<Rightarrow> execDecoder \<Rightarrow> ExecCsumChunk list \<times> execDecoder" where
  "read_chunks 0 d = ([], d)"
| "read_chunks (Suc n) d =
    (case dec_read d of (kind, d1) \<Rightarrow>
     case dec_read d1 of (val, d2) \<Rightarrow>
     case dec_read d2 of (sz, d3) \<Rightarrow>
     case read_chunks n d3 of (cs, d4) \<Rightarrow> (\<lparr>eck_Kind = kind, eck_Value = val, eck_Size = sz\<rparr> # cs, d4))"

definition set_var :: "uint64 \<Rightarrow> uint64 \<Rightarrow> uint64 list \<Rightarrow> uint64 list" where
  "set_var i v vars = (vars @ replicate (unat i + 1 - length vars) 0)[unat i := v]"

definition dec_readArg :: "execDecoder \<Rightarrow> (ExecArg \<times> execDecoder) res" where
  "dec_readArg d =
    (case dec_read d of (typ, d1) \<Rightarrow>
     if typ = execArgConst then
       (case dec_read d1 of (meta, d2) \<Rightarrow> case dec_read d2 of (val, d3) \<Rightarrow>
        Inr (ExecArgConst (meta AND 0xff) (unat (drop_bit 8 meta AND 0xff)) val (drop_bit 16 meta AND 0xff)
               (drop_bit 24 meta AND 0xff) (drop_bit 32 meta), d3))
     else if typ = execArgResult then
       (case dec_read d1 of (meta, d2) \<Rightarrow> case dec_read d2 of (index, d3) \<Rightarrow> case dec_read d3 of (divop, d4) \<Rightarrow>
        case dec_read d4 of (addop, d5) \<Rightarrow> case dec_read d5 of (dflt, d6) \<Rightarrow>
        if index = NOT 0 then Inl (Panic ''out of memory'')
        else Inr (ExecArgResult (meta AND 0xff) (unat (drop_bit 8 meta AND 0xff)) index divop addop dflt,
               d6\<lparr>dec_vars := set_var index dflt (dec_vars d6)\<rparr>))
     else if typ = execArgData then
       (case dec_read d1 of (flags, d2) \<Rightarrow>
        case readBlob (flags AND NOT execArgDataReadable) d2 of (data, d3) \<Rightarrow>
        Inr (ExecArgData data (flags AND execArgDataReadable \<noteq> 0), d3))
     else if typ = execArgCsum then
       (case dec_read d1 of (sz, d2) \<Rightarrow> case dec_read d2 of (kind, d3) \<Rightarrow>
        if kind = ExecArgCsumInet then
          (case dec_read d3 of (n, d4) \<Rightarrow>
           if unat n \<ge> 2 ^ 63 then Inl (Panic ''makeslice: len out of range'')
           else case read_chunks (unat n) d4 of (cs, d5) \<Rightarrow> Inr (ExecArgCsum sz kind cs, d5))
        else Inr (ExecNil, setErr ''unknown csum kind'' d3))
     else Inr (ExecNil, setErr ''bad argument type'' d1))"

definition bump :: "uint64 \<Rightarrow> uint64 \<Rightarrow> uint64" where
  "bump i n = (if n < i + 1 then i + 1 else n)"

definition commitCall :: "execDecoder \<Rightarrow> execDecoder" where
  "commitCall d =
    (if ec_Meta (dec_call d) = None then d
     else let n1 = (if ec_Index (dec_call d) \<noteq> ExecNoCopyout then bump (ec_Index (dec_call d)) (dec_numVars d) else dec_numVars d);
              n2 = fold (\<lambda>co. bump (eout_Index co)) (ec_Copyout (dec_call d)) n1
          in d\<lparr>dec_numVars := n2, dec_calls := dec_calls d @ [dec_call d], dec_call := no_call\<rparr>)"

text \<open>The arguments of a call; the flag says whether \<open>parse\<close> goes on.\<close>

primrec read_args :: "nat \<Rightarrow> execDecoder \<Rightarrow> (bool \<times> execDecoder) res" where
  "read_args 0 d = Inr (True, d)"
| "read_args (Suc n) d =
    rbind (dec_readArg d) (\<lambda>(arg, d1).
    case arg of
      ExecArgConst _ _ _ _ _ _ \<Rightarrow> read_args n (d1\<lparr>dec_call := (dec_call d1)\<lparr>ec_Args := ec_Args (dec_call d1) @ [arg]\<rparr>\<rparr>)
    | ExecArgResult _ _ _ _ _ _ \<Rightarrow> read_args n (d1\<lparr>dec_call := (dec_call d1)\<lparr>ec_Args := ec_Args (dec_call d1) @ [arg]\<rparr>\<rparr>)
    | _ \<Rightarrow> Inr (False, setErr ''bad call arg'' d1))"

definition parse_step :: "Target \<Rightarrow> execDecoder \<Rightarrow> (bool \<times> execDecoder) res" where
  "parse_step tgt d =
    (case dec_read d of (instr, d1) \<Rightarrow>
     if instr = execInstrCopyin then
       (case dec_read (commitCall d1) of (addr, d2) \<Rightarrow>
        rmap (\<lambda>(arg, d3). (True, d3\<lparr>dec_call := (dec_call d3)\<lparr>ec_Copyin := ec_Copyin (dec_call d3) @ [\<lparr>ein_Addr = addr, ein_Arg = arg\<rparr>]\<rparr>\<rparr>))
          (dec_readArg d2))
     else if instr = execInstrCopyout then
       (case dec_read d1 of (index, d2) \<Rightarrow> case dec_read d2 of (addr, d3) \<Rightarrow> case dec_read d3 of (sz, d4) \<Rightarrow>
        Inr (True, d4\<lparr>dec_call := (dec_call d4)\<lparr>ec_Copyout := ec_Copyout (dec_call d4) @ [\<lparr>eout_Index = index, eout_Addr = addr, eout_Size = sz\<rparr>]\<rparr>\<rparr>))
     else if instr = execInstrEOF then Inr (False, commitCall d1)
     else let d2 = commitCall d1 in
       if unat instr \<ge> length (tg_Syscalls tgt) then Inr (False, setErr ''bad syscall'' d2)
       else case dec_read d2 of (index, d3) \<Rightarrow>
         case dec_read (d3\<lparr>dec_call := (dec_call d3)\<lparr>ec_Meta := Some (tg_Syscalls tgt ! unat instr), ec_Index := index\<rparr>\<rparr>) of (n, d4) \<Rightarrow>
         read_args (unat n) d4)"

text \<open>Every step takes a word from the data or notes an error.\<close>

definition dec_measure :: "execDecoder \<Rightarrow> nat" where
  "dec_measure d = (if dec_err d = None then Suc (length (dec_data d)) else 0)"

lemma setErr_measure [simp]: "dec_measure (setErr e d) = 0"
  by (auto simp: setErr_def dec_measure_def)

lemma commitCall_fields [simp]:
  "dec_data (commitCall d) = dec_data d" "dec_err (commitCall d) = dec_err d" "dec_vars (commitCall d) = dec_vars d"
  "dec_measure (commitCall d) = dec_measure d" "ec_Meta (dec_call (commitCall d)) = None"
  by (simp_all add: commitCall_def Let_def dec_measure_def no_call_def)

lemma dec_measure_other [simp]:
  "dec_measure (d\<lparr>dec_call := c\<rparr>) = dec_measure d" "dec_measure (d\<lparr>dec_vars := v\<rparr>) = dec_measure d"
  by (simp_all add: dec_measure_def)

lemma dec_read_le: "dec_read d = (v, d') \<Longrightarrow> dec_measure d' \<le> dec_measure d"
  by (auto simp: dec_read_def Let_def setErr_def dec_measure_def split: if_splits)

lemma dec_read_less: "dec_read d = (v, d') \<Longrightarrow> dec_err d = None \<Longrightarrow> dec_measure d' < dec_measure d"
  by (auto simp: dec_read_def Let_def setErr_def dec_measure_def split: if_splits)

lemma readBlob_le: "readBlob n d = (v, d') \<Longrightarrow> dec_measure d' \<le> dec_measure d"
  by (auto simp: readBlob_def Let_def setErr_def dec_measure_def split: if_splits)

lemma read_chunks_le: "read_chunks n d = (cs, d') \<Longrightarrow> dec_measure d' \<le> dec_measure d"
proof (induction n arbitrary: d cs d')
  case (Suc n)
  then show ?case by (auto split: prod.splits dest!: dec_read_le Suc.IH)
qed simp

lemma dec_readArg_le: "dec_readArg d = Inr (a, d') \<Longrightarrow> dec_measure d' \<le> dec_measure d"
  by (auto simp: dec_readArg_def split: prod.splits if_splits dest!: dec_read_le readBlob_le read_chunks_le)

lemma read_args_le: "read_args n d = Inr (b, d') \<Longrightarrow> dec_measure d' \<le> dec_measure d"
proof (induction n arbitrary: d)
  case (Suc n)
  from Suc.prems obtain a d1 where a: "dec_readArg d = Inr (a, d1)" by (auto simp: res_conv)
  have "dec_measure d' \<le> dec_measure d1" using Suc.prems a Suc.IH by (cases a) (fastforce dest: Suc.IH)+
  then show ?case using dec_readArg_le [OF a] by simp
qed simp

lemma parse_step_less: "parse_step tgt d = Inr (b, d') \<Longrightarrow> dec_err d = None \<Longrightarrow> dec_measure d' < dec_measure d"
proof -
  assume s: "parse_step tgt d = Inr (b, d')" and e: "dec_err d = None"
  obtain instr d1 where r: "dec_read d = (instr, d1)" by fastforce
  have "dec_measure d' \<le> dec_measure d1" using s
    by (auto simp: parse_step_def r Let_def res_conv split: prod.splits if_splits dest!: dec_read_le dec_readArg_le read_args_le)
  then show ?thesis using dec_read_less [OF r e] by simp
qed

function parse :: "Target \<Rightarrow> execDecoder \<Rightarrow> execDecoder res" where
  "parse tgt d =
    (if dec_err d \<noteq> None then Inr d
     else rbind (parse_step tgt d) (\<lambda>(go_on, d1). if go_on then parse tgt d1 else Inr d1))"
  by pat_completeness auto
termination
  by (relation "measure (dec_measure \<circ> snd)") (auto dest: parse_step_less)

declare parse.simps [simp del]

definition DeserializeExec :: "Target \<Rightarrow> bytes \<Rightarrow> (string + ExecProg) res" where
  "DeserializeExec tgt exec =
    rmap (\<lambda>d. case dec_err d of
        Some e \<Rightarrow> Inl e
      | None \<Rightarrow> if of_nat (length (dec_vars d)) \<noteq> dec_numVars d then Inl ''mismatching number of vars''
          else Inr \<lparr>ep_Calls = dec_calls d, ep_Vars = dec_vars d\<rparr>)
      (parse tgt \<lparr>dec_data = exec, dec_err = None, dec_numVars = 0, dec_vars = [], dec_call = no_call, dec_calls = []\<rparr>)"

section \<open>Words and their bytes\<close>

text \<open>\<open>byte(v >> 8*i)\<close>, and the eight bytes \<open>write\<close> puts.\<close>

definition word_byte :: "uint64 \<Rightarrow> nat \<Rightarrow> char" where
  "word_byte v i = char_of (unat (drop_bit (8 * i) v))"

definition word_bytes :: "uint64 \<Rightarrow> bytes" where
  "word_bytes v = map (word_byte v) [0..<8]"

lemma word_bytes_length [simp]: "length (word_bytes v) = 8"
  by (simp add: word_bytes_def)

lemma of_char_word_byte: "(of_char (word_byte v i) :: uint64) = take_bit 8 (drop_bit (8 * i) v)"
proof -
  have "(of_char (word_byte v i) :: uint64) = of_nat (of_char (word_byte v i))" by (simp add: of_nat_of_char)
  also have "\<dots> = of_nat (take_bit 8 (unat (drop_bit (8 * i) v)))" unfolding word_byte_def by (simp add: take_bit_eq_mod)
  also have "\<dots> = take_bit 8 (drop_bit (8 * i) v)" by (simp flip: unsigned_take_bit_eq)
  finally show ?thesis .
qed

lemma bit_fold_or: "bit (fold (\<lambda>i w. w OR f i) xs (s :: uint64)) n \<longleftrightarrow> bit s n \<or> (\<exists>i \<in> set xs. bit (f i) n)"
  by (induction xs arbitrary: s) (auto simp: bit_or_iff)

lemma or_bytes_word: "or_bytes (word_bytes v @ rest) = v"
proof (rule bit_word_eqI)
  fix n assume "n < LENGTH(64)"
  then have n: "n < 64" by simp
  have "or_bytes (word_bytes v @ rest) = fold (\<lambda>i w. w OR push_bit (i * 8) (take_bit 8 (drop_bit (8 * i) v))) [0..<8] 0"
    unfolding or_bytes_def by (rule fold_cong) (simp_all add: nth_append word_bytes_def of_char_word_byte)
  then have "bit (or_bytes (word_bytes v @ rest)) n \<longleftrightarrow> (\<exists>i \<in> {0..<8}. i * 8 \<le> n \<and> n - i * 8 < 8 \<and> bit v (8 * i + (n - i * 8)))"
    using n by (simp only: bit_fold_or) (simp add: bit_simps)
  moreover have "8 * i + (n - i * 8) = n" if "i * 8 \<le> n" for i using that by simp
  moreover have "\<exists>i \<in> {0..<8}. i * 8 \<le> n \<and> n - i * 8 < 8" using n by (intro bexI [of _ "n div 8"] conjI) (simp_all add: minus_div_mult_eq_mod)
  ultimately show "bit (or_bytes (word_bytes v @ rest)) n = bit v n" by metis
qed

lemma bit_less: "(w :: uint64) < 2 ^ k \<Longrightarrow> k \<le> 63 \<Longrightarrow> bit w n \<Longrightarrow> n < k"
proof (rule ccontr)
  assume w: "w < 2 ^ k" "k \<le> 63" "bit w n" "\<not> n < k"
  have "unat (of_nat (2 ^ k) :: uint64) = 2 ^ k"
    using power_strict_increasing [of k 64 "2 :: nat"] w(2) by (simp only: unsigned_of_nat) (simp add: take_bit_nat_eq_self)
  then have "unat w < 2 ^ k" using w(1) by (simp add: word_less_nat_alt)
  then have "take_bit k (unat w) = unat w" by (simp add: take_bit_nat_eq_self)
  moreover have "bit (unat w) n" using w(3) by (simp add: bit_unsigned_iff)
  ultimately show False using w(4) by (metis bit_take_bit_iff)
qed

section \<open>The words of a program\<close>

text \<open>
  What a program should be written as: words, and blocks of data that are padded to whole words with
  whatever the buffer holds.
\<close>

datatype chunk = Word uint64 | Blob bytes

definition padded :: "nat \<Rightarrow> nat" where
  "padded n = (n + 7) div 8 * 8"

fun chunk_len :: "chunk \<Rightarrow> nat" where
  "chunk_len (Word v) = 8"
| "chunk_len (Blob d) = padded (length d)"

definition chunks_len :: "chunk list \<Rightarrow> nat" where
  "chunks_len cs = sum_list (map chunk_len cs)"

fun laid :: "chunk list \<Rightarrow> bytes \<Rightarrow> bool" where
  "laid [] bs \<longleftrightarrow> bs = []"
| "laid (Word v # cs) bs \<longleftrightarrow> (\<exists>bs'. bs = word_bytes v @ bs' \<and> laid cs bs')"
| "laid (Blob d # cs) bs \<longleftrightarrow> (\<exists>pad bs'. bs = d @ pad @ bs' \<and> length (d @ pad) = padded (length d) \<and> laid cs bs')"

lemma laid_append: "laid (cs @ ds) bs \<longleftrightarrow> (\<exists>b1 b2. bs = b1 @ b2 \<and> laid cs b1 \<and> laid ds b2)"
proof (induction cs bs rule: laid.induct)
  case (2 v cs bs)
  show ?case
  proof
    assume "laid ((Word v # cs) @ ds) bs"
    then obtain bs' where bs: "bs = word_bytes v @ bs'" "laid (cs @ ds) bs'" by auto
    then obtain b1 b2 where "bs' = b1 @ b2" "laid cs b1" "laid ds b2" using 2 by blast
    then show "\<exists>b1 b2. bs = b1 @ b2 \<and> laid (Word v # cs) b1 \<and> laid ds b2" using bs(1) by (intro exI [of _ "word_bytes v @ b1"] exI [of _ b2]) simp
  next
    assume "\<exists>b1 b2. bs = b1 @ b2 \<and> laid (Word v # cs) b1 \<and> laid ds b2"
    then obtain b1' b2 where "bs = word_bytes v @ b1' @ b2" "laid cs b1'" "laid ds b2" by auto
    then show "laid ((Word v # cs) @ ds) bs" using 2 by auto
  qed
next
  case (3 d cs bs)
  show ?case
  proof
    assume "laid ((Blob d # cs) @ ds) bs"
    then obtain pad bs' where bs: "bs = d @ pad @ bs'" "length (d @ pad) = padded (length d)" "laid (cs @ ds) bs'" by auto
    then obtain b1 b2 where "bs' = b1 @ b2" "laid cs b1" "laid ds b2" using 3 by blast
    then show "\<exists>b1 b2. bs = b1 @ b2 \<and> laid (Blob d # cs) b1 \<and> laid ds b2"
      using bs(1,2) by (intro exI [of _ "d @ pad @ b1"] exI [of _ b2]) auto
  next
    assume "\<exists>b1 b2. bs = b1 @ b2 \<and> laid (Blob d # cs) b1 \<and> laid ds b2"
    then obtain pad b1' b2 where "bs = (d @ pad @ b1') @ b2" "length (d @ pad) = padded (length d)" "laid cs b1'" "laid ds b2" by auto
    then show "laid ((Blob d # cs) @ ds) bs" using 3 by auto
  qed
qed auto

lemma laid_length: "laid cs bs \<Longrightarrow> length bs = chunks_len cs"
  by (induction cs bs rule: laid.induct) (auto simp: chunks_len_def)

definition const_meta :: "uint64 \<Rightarrow> BinaryFormat \<Rightarrow> uint64 \<Rightarrow> uint64 \<Rightarrow> uint64 \<Rightarrow> uint64" where
  "const_meta sz bf bfOffset bfLength pidStride =
    sz OR push_bit 8 (of_nat bf) OR push_bit 16 bfOffset OR push_bit 24 bfLength OR push_bit 32 pidStride"

definition chunk_words :: "ExecCsumChunk \<Rightarrow> chunk list" where
  "chunk_words c = [Word (eck_Kind c), Word (eck_Value c), Word (eck_Size c)]"

fun arg_chunks :: "ExecArg \<Rightarrow> chunk list" where
  "arg_chunks (ExecArgConst sz f v bo bl ps) = [Word execArgConst, Word (const_meta sz f bo bl ps), Word v]"
| "arg_chunks (ExecArgResult sz f i dv ad df) =
    [Word execArgResult, Word (sz OR push_bit 8 (of_nat f)), Word i, Word dv, Word ad, Word df]"
| "arg_chunks (ExecArgData d r) =
    [Word execArgData, Word (of_nat (length d) OR (if r then execArgDataReadable else 0)), Blob d]"
| "arg_chunks (ExecArgCsum sz k cs) =
    [Word execArgCsum, Word sz, Word k, Word (of_nat (length cs))] @ concat (map chunk_words cs)"
| "arg_chunks ExecNil = []"

definition copyin_chunks :: "ExecCopyin \<Rightarrow> chunk list" where
  "copyin_chunks ci = [Word execInstrCopyin, Word (ein_Addr ci)] @ arg_chunks (ein_Arg ci)"

definition copyout_chunks :: "ExecCopyout \<Rightarrow> chunk list" where
  "copyout_chunks co = [Word execInstrCopyout, Word (eout_Index co), Word (eout_Addr co), Word (eout_Size co)]"

definition head_chunks :: "ExecCall \<Rightarrow> chunk list" where
  "head_chunks c = [Word (of_nat (case ec_Meta c of None \<Rightarrow> 0 | Some m \<Rightarrow> sc_ID m)), Word (ec_Index c), Word (of_nat (length (ec_Args c)))]
     @ concat (map arg_chunks (ec_Args c))"

definition call_chunks :: "ExecCall \<Rightarrow> chunk list" where
  "call_chunks c = concat (map copyin_chunks (ec_Copyin c)) @ head_chunks c @ concat (map copyout_chunks (ec_Copyout c))"

definition prog_chunks :: "ExecCall list \<Rightarrow> chunk list" where
  "prog_chunks cs = concat (map call_chunks cs) @ [Word execInstrEOF]"

text \<open>Values that fit into the fields they are packed in.\<close>

fun arg_fits :: "ExecArg \<Rightarrow> bool" where
  "arg_fits (ExecArgConst sz f v bo bl ps) \<longleftrightarrow> sz < 256 \<and> f < 256 \<and> bo < 256 \<and> bl < 256 \<and> ps < 2 ^ 32"
| "arg_fits (ExecArgResult sz f i dv ad df) \<longleftrightarrow> sz < 256 \<and> f < 256 \<and> i \<noteq> NOT 0"
| "arg_fits (ExecArgData d r) \<longleftrightarrow> length d < 2 ^ 63"
| "arg_fits (ExecArgCsum sz k cs) \<longleftrightarrow> k = ExecArgCsumInet \<and> length cs < 2 ^ 63"
| "arg_fits ExecNil \<longleftrightarrow> False"

fun scalar_arg :: "ExecArg \<Rightarrow> bool" where
  "scalar_arg (ExecArgConst _ _ _ _ _ _) \<longleftrightarrow> True"
| "scalar_arg (ExecArgResult _ _ _ _ _ _) \<longleftrightarrow> True"
| "scalar_arg _ \<longleftrightarrow> False"

definition call_fits :: "Target \<Rightarrow> ExecCall \<Rightarrow> bool" where
  "call_fits tgt c \<longleftrightarrow> (\<exists>m. ec_Meta c = Some m \<and> sc_ID m < length (tg_Syscalls tgt) \<and> tg_Syscalls tgt ! sc_ID m = m)
     \<and> length (tg_Syscalls tgt) < 2 ^ 63 \<and> length (ec_Args c) < 2 ^ 63
     \<and> (\<forall>a \<in> set (ec_Args c). arg_fits a \<and> scalar_arg a) \<and> (\<forall>ci \<in> set (ec_Copyin c). arg_fits (ein_Arg ci))"

text \<open>The variables after an argument, and their number after a call.\<close>

fun arg_vars :: "ExecArg \<Rightarrow> uint64 list \<Rightarrow> uint64 list" where
  "arg_vars (ExecArgResult sz f i dv ad df) vars = set_var i df vars"
| "arg_vars _ vars = vars"

definition call_vars :: "ExecCall \<Rightarrow> uint64 list \<Rightarrow> uint64 list" where
  "call_vars c vars = fold arg_vars (map ein_Arg (ec_Copyin c) @ ec_Args c) vars"

definition call_count :: "ExecCall \<Rightarrow> uint64 \<Rightarrow> uint64" where
  "call_count c n = fold (\<lambda>co. bump (eout_Index co)) (ec_Copyout c) (if ec_Index c \<noteq> ExecNoCopyout then bump (ec_Index c) n else n)"

lemma commitCall_conv:
  "commitCall d = (if ec_Meta (dec_call d) = None then d
     else d\<lparr>dec_numVars := call_count (dec_call d) (dec_numVars d), dec_calls := dec_calls d @ [dec_call d], dec_call := no_call\<rparr>)"
  by (simp add: commitCall_def call_count_def Let_def)

section \<open>Decoding what was written\<close>

lemma dec_read_word:
  "dec_data d = word_bytes v @ bs \<Longrightarrow> dec_err d = None \<Longrightarrow> dec_read d = (v, d\<lparr>dec_data := bs\<rparr>)"
  by (simp add: dec_read_def Let_def or_bytes_word)

lemma meta_fields:
  assumes "sz < (256 :: uint64)" "f < 256" "bo < (256 :: uint64)" "bl < (256 :: uint64)" "ps < (2 :: uint64) ^ 32"
  defines "m \<equiv> const_meta sz f bo bl ps"
  shows "m AND 0xff = sz" "unat (drop_bit 8 m AND 0xff) = f" "drop_bit 16 m AND 0xff = bo" "drop_bit 24 m AND 0xff = bl" "drop_bit 32 m = ps"
proof -
  have "take_bit 8 f = f" using assms(2) by (simp add: take_bit_nat_eq_self)
  then have f: "bit f n \<Longrightarrow> n < 8" for n by (metis bit_take_bit_iff)
  have b: "bit sz n \<Longrightarrow> n < 8" "bit f n \<Longrightarrow> n < 8" "bit bo n \<Longrightarrow> n < 8" "bit bl n \<Longrightarrow> n < 8" "bit ps n \<Longrightarrow> n < 32" for n
    using assms(1,3-5) f bit_less [of _ 8 n] bit_less [of ps 32 n] by simp_all
  have mask: "(0xff :: uint64) = mask 8" by (simp add: mask_eq_exp_minus_1)
  note [simp] = m_def const_meta_def mask bit_simps
  show "m AND 0xff = sz" by (rule bit_word_eqI) (auto dest: b(1))
  show "drop_bit 16 m AND 0xff = bo" by (rule bit_word_eqI) (auto dest: b)
  show "drop_bit 24 m AND 0xff = bl" by (rule bit_word_eqI) (auto dest: b)
  show "drop_bit 32 m = ps" by (rule bit_word_eqI) (auto dest: b)
  have "drop_bit 8 m AND 0xff = of_nat f" by (rule bit_word_eqI) (auto dest: b)
  then show "unat (drop_bit 8 m AND 0xff) = f" using assms(2) by (simp only: unsigned_of_nat) (simp add: take_bit_nat_eq_self)
qed

lemma result_meta:
  assumes "sz < (256 :: uint64)" "f < 256"
  shows "(sz OR push_bit 8 (of_nat f)) AND 0xff = sz" "unat (drop_bit 8 (sz OR push_bit 8 (of_nat f)) AND 0xff) = f"
  using meta_fields(1,2) [OF assms, of 0 0 0] by (simp_all add: const_meta_def)

lemma bit_readable: "bit execArgDataReadable k \<longleftrightarrow> k = 63"
proof -
  have "bit (push_bit 63 (1 :: uint64)) k \<longleftrightarrow> k = 63" by (subst bit_push_bit_iff) (auto simp: bit_1_iff)
  then show ?thesis by (simp only: execArgDataReadable_def)
qed

lemma data_flags:
  assumes "n < 2 ^ 63"
  shows "unat (((of_nat n :: uint64) OR (if r then execArgDataReadable else 0)) AND NOT execArgDataReadable) = n"
    and "((of_nat n :: uint64) OR (if r then execArgDataReadable else 0)) AND execArgDataReadable \<noteq> 0 \<longleftrightarrow> r"
proof -
  have "take_bit 63 n = n" using assms by (simp add: take_bit_nat_eq_self)
  then have n: "bit n k \<Longrightarrow> k < 63" for k by (metis bit_take_bit_iff)
  note [simp] = bit_readable bit_simps
  have "((of_nat n :: uint64) OR (if r then execArgDataReadable else 0)) AND NOT execArgDataReadable = of_nat n"
    by (rule bit_word_eqI) (auto dest: n)
  then show "unat (((of_nat n :: uint64) OR (if r then execArgDataReadable else 0)) AND NOT execArgDataReadable) = n"
    using assms by (simp only: unsigned_of_nat) (simp add: take_bit_nat_eq_self)
  have z: "(of_nat n :: uint64) AND execArgDataReadable = 0" by (rule bit_word_eqI) (auto dest: n)
  have p: "execArgDataReadable \<noteq> 0" using bit_readable [of 63] by (metis bit_0_eq bot_apply bot_bool_def)
  show "((of_nat n :: uint64) OR (if r then execArgDataReadable else 0)) AND execArgDataReadable \<noteq> 0 \<longleftrightarrow> r"
    using z p by (cases r) (simp_all add: bit.conj_disj_distrib2)
qed

lemma unat_padded: "unat n < 2 ^ 63 \<Longrightarrow> unat ((n + 7) div 8 * 8 :: uint64) = padded (unat n)"
  by (simp add: padded_def unat_word_ariths unat_div)

lemma readBlob_laid:
  assumes "dec_data d = data @ pad @ bs" "length (data @ pad) = padded (length data)" "dec_err d = None" "unat n = length data" "unat n < 2 ^ 63"
  shows "readBlob n d = (data, d\<lparr>dec_data := bs\<rparr>)"
proof -
  have "unat ((n + 7) div 8 * 8) = length (data @ pad)" using unat_padded [OF assms(5)] assms(2,4) by simp
  then show ?thesis using assms(1,3,4) by (simp add: readBlob_def Let_def)
qed

lemma read_chunks_laid:
  assumes "laid (concat (map chunk_words cs) @ rest) (dec_data d)" "dec_err d = None"
  shows "\<exists>bs. read_chunks (length cs) d = (cs, d\<lparr>dec_data := bs\<rparr>) \<and> laid rest bs"
  using assms
proof (induction cs arbitrary: d)
  case (Cons c cs)
  from Cons.prems(1) obtain bs where bs: "dec_data d = word_bytes (eck_Kind c) @ word_bytes (eck_Value c) @ word_bytes (eck_Size c) @ bs"
    "laid (concat (map chunk_words cs) @ rest) bs" by (auto simp: chunk_words_def [of c])
  from Cons.IH [of "d\<lparr>dec_data := bs\<rparr>"] bs(2) Cons.prems(2) obtain bs' where
    "read_chunks (length cs) (d\<lparr>dec_data := bs\<rparr>) = (cs, d\<lparr>dec_data := bs'\<rparr>)" "laid rest bs'" by auto
  then show ?case using bs(1) Cons.prems(2) by (auto simp: dec_read_word)
qed (auto intro!: exI [of _ "dec_data d" for d])

lemma readArg_laid:
  assumes "laid (arg_chunks a @ rest) (dec_data d)" "dec_err d = None" "arg_fits a"
  shows "\<exists>bs. dec_readArg d = Inr (a, d\<lparr>dec_data := bs, dec_vars := arg_vars a (dec_vars d)\<rparr>) \<and> laid rest bs"
proof (cases a)
  case (ExecArgConst sz f v bo bl ps)
  then obtain bs where "dec_data d = word_bytes execArgConst @ word_bytes (const_meta sz f bo bl ps) @ word_bytes v @ bs" "laid rest bs"
    using assms(1) by auto
  then show ?thesis using assms(2,3) ExecArgConst meta_fields [of sz f bo bl ps]
    by (auto simp: dec_readArg_def dec_read_word)
next
  case (ExecArgResult sz f i dv ad df)
  then obtain bs where "dec_data d = word_bytes execArgResult @ word_bytes (sz OR push_bit 8 (of_nat f)) @ word_bytes i
      @ word_bytes dv @ word_bytes ad @ word_bytes df @ bs" "laid rest bs" using assms(1) by auto
  then show ?thesis using assms(2,3) ExecArgResult result_meta [of sz f]
    by (auto simp: dec_readArg_def dec_read_word execArgConst_def execArgResult_def)
next
  case (ExecArgData data r)
  let ?m = "of_nat (length data) OR (if r then execArgDataReadable else 0)"
  from ExecArgData obtain pad bs where bs: "dec_data d = word_bytes execArgData @ word_bytes ?m @ data @ pad @ bs"
    "length (data @ pad) = padded (length data)" "laid rest bs" using assms(1) by auto
  have l: "length data < 2 ^ 63" using assms(3) ExecArgData by simp
  note f = data_flags [OF l, of r]
  have "readBlob (?m AND NOT execArgDataReadable) (d\<lparr>dec_data := data @ pad @ bs\<rparr>) = (data, d\<lparr>dec_data := bs\<rparr>)"
    using readBlob_laid [of "d\<lparr>dec_data := data @ pad @ bs\<rparr>" data pad bs] bs(2) assms(2) f(1) l by simp
  then show ?thesis using bs(1,3) assms(2) ExecArgData f(2)
    by (auto simp: dec_readArg_def dec_read_word execArgConst_def execArgResult_def execArgData_def)
next
  case (ExecArgCsum sz k cs)
  then obtain bs where bs: "dec_data d = word_bytes execArgCsum @ word_bytes sz @ word_bytes k @ word_bytes (of_nat (length cs)) @ bs"
    "laid (concat (map chunk_words cs) @ rest) bs" using assms(1) by auto
  have l: "length cs < 2 ^ 63" "k = ExecArgCsumInet" using assms(3) ExecArgCsum by simp_all
  then have u: "unat (of_nat (length cs) :: uint64) = length cs" by (simp add: unsigned_of_nat take_bit_nat_eq_self)
  from read_chunks_laid [of cs rest "d\<lparr>dec_data := bs\<rparr>"] bs(2) assms(2) obtain bs' where
    "read_chunks (length cs) (d\<lparr>dec_data := bs\<rparr>) = (cs, d\<lparr>dec_data := bs'\<rparr>)" "laid rest bs'" by auto
  then show ?thesis using bs(1) assms(2) ExecArgCsum l u
    by (auto simp: dec_readArg_def dec_read_word execArgConst_def execArgResult_def execArgData_def execArgCsum_def)
qed (use assms(3) in simp)

lemma instr_distinct [simp]:
  "execInstrCopyin \<noteq> execInstrCopyout" "execInstrCopyin \<noteq> execInstrEOF" "execInstrCopyout \<noteq> execInstrEOF"
  by (simp_all add: execInstrCopyin_def execInstrCopyout_def execInstrEOF_def)

text \<open>A call waits to be committed until the next instruction that is not a copyout.\<close>

lemma parse_commit:
  assumes "dec_data d = word_bytes v @ bs" "dec_err d = None" "v \<noteq> execInstrCopyout"
  shows "parse tgt d = parse tgt (commitCall d)"
proof -
  have i: "commitCall (commitCall x) = commitCall x" for x by (subst commitCall_conv) simp
  have r: "dec_read d = (v, d\<lparr>dec_data := bs\<rparr>)" "dec_read (commitCall d) = (v, (commitCall d)\<lparr>dec_data := bs\<rparr>)"
    using assms(1,2) by (simp_all add: dec_read_word)
  have c: "commitCall (d\<lparr>dec_data := bs\<rparr>) = (commitCall d)\<lparr>dec_data := bs\<rparr>" by (simp add: commitCall_conv)
  then have "commitCall ((commitCall d)\<lparr>dec_data := bs\<rparr>) = (commitCall d)\<lparr>dec_data := bs\<rparr>" by (metis i)
  then have "parse_step tgt d = parse_step tgt (commitCall d)" using assms(3) by (simp add: parse_step_def r c)
  then show ?thesis using assms(2) by (simp add: parse.simps [of tgt d] parse.simps [of tgt "commitCall d"])
qed

lemma parse_copyins:
  assumes "laid (concat (map copyin_chunks cis) @ rest) (dec_data d)" "dec_err d = None" "\<forall>ci \<in> set cis. arg_fits (ein_Arg ci)"
    and "ec_Meta (dec_call d) = None"
  shows "\<exists>bs. parse tgt d = parse tgt (d\<lparr>dec_data := bs, dec_vars := fold arg_vars (map ein_Arg cis) (dec_vars d),
      dec_call := (dec_call d)\<lparr>ec_Copyin := ec_Copyin (dec_call d) @ cis\<rparr>\<rparr>) \<and> laid rest bs"
  using assms
proof (induction cis arbitrary: d)
  case Nil
  then show ?case by (intro exI [of _ "dec_data d"]) simp
next
  case (Cons ci cis)
  let ?rest = "concat (map copyin_chunks cis) @ rest"
  from Cons.prems(1) obtain bs where bs: "dec_data d = word_bytes execInstrCopyin @ word_bytes (ein_Addr ci) @ bs" "laid (arg_chunks (ein_Arg ci) @ ?rest) bs"
    by (auto simp: copyin_chunks_def [of ci])
  have r: "dec_read d = (execInstrCopyin, d\<lparr>dec_data := word_bytes (ein_Addr ci) @ bs\<rparr>)" using bs(1) Cons.prems(2) by (simp add: dec_read_word)
  have c: "commitCall (d\<lparr>dec_data := word_bytes (ein_Addr ci) @ bs\<rparr>) = d\<lparr>dec_data := word_bytes (ein_Addr ci) @ bs\<rparr>"
    using Cons.prems(4) by (simp add: commitCall_conv)
  from readArg_laid [of "ein_Arg ci" ?rest "d\<lparr>dec_data := bs\<rparr>"] bs(2) Cons.prems(2,3) obtain bs' where
    a: "dec_readArg (d\<lparr>dec_data := bs\<rparr>) = Inr (ein_Arg ci, d\<lparr>dec_data := bs', dec_vars := arg_vars (ein_Arg ci) (dec_vars d)\<rparr>)" "laid ?rest bs'"
    by auto
  define d1 where "d1 = d\<lparr>dec_data := bs', dec_vars := arg_vars (ein_Arg ci) (dec_vars d), dec_call := (dec_call d)\<lparr>ec_Copyin := ec_Copyin (dec_call d) @ [ci]\<rparr>\<rparr>"
  have "parse_step tgt d = Inr (True, d1)" using a(1) Cons.prems(2) by (simp add: parse_step_def r c dec_read_word d1_def)
  then have p: "parse tgt d = parse tgt d1" using Cons.prems(2) by (simp add: parse.simps [of tgt d])
  from Cons.IH [of d1] a(2) Cons.prems(2-4) show ?case unfolding p by (auto simp: d1_def)
qed

lemma parse_copyouts:
  assumes "laid (concat (map copyout_chunks cos) @ rest) (dec_data d)" "dec_err d = None"
  shows "\<exists>bs. parse tgt d = parse tgt (d\<lparr>dec_data := bs, dec_call := (dec_call d)\<lparr>ec_Copyout := ec_Copyout (dec_call d) @ cos\<rparr>\<rparr>) \<and> laid rest bs"
  using assms
proof (induction cos arbitrary: d)
  case Nil
  then show ?case by (intro exI [of _ "dec_data d"]) simp
next
  case (Cons co cos)
  let ?rest = "concat (map copyout_chunks cos) @ rest"
  from Cons.prems(1) obtain bs where bs: "dec_data d = word_bytes execInstrCopyout @ word_bytes (eout_Index co) @ word_bytes (eout_Addr co)
      @ word_bytes (eout_Size co) @ bs" "laid ?rest bs" by (auto simp: copyout_chunks_def [of co])
  define d1 where "d1 = d\<lparr>dec_data := bs, dec_call := (dec_call d)\<lparr>ec_Copyout := ec_Copyout (dec_call d) @ [co]\<rparr>\<rparr>"
  have "parse_step tgt d = Inr (True, d1)" using bs(1) Cons.prems(2) instr_distinct(1) [symmetric] by (simp add: parse_step_def dec_read_word d1_def)
  then have p: "parse tgt d = parse tgt d1" using Cons.prems(2) by (simp add: parse.simps [of tgt d])
  from Cons.IH [of d1] bs(2) Cons.prems(2) show ?case unfolding p by (auto simp: d1_def)
qed

lemma read_args_laid:
  assumes "laid (concat (map arg_chunks as) @ rest) (dec_data d)" "dec_err d = None" "\<forall>a \<in> set as. arg_fits a \<and> scalar_arg a"
  shows "\<exists>bs. read_args (length as) d = Inr (True, d\<lparr>dec_data := bs, dec_vars := fold arg_vars as (dec_vars d),
      dec_call := (dec_call d)\<lparr>ec_Args := ec_Args (dec_call d) @ as\<rparr>\<rparr>) \<and> laid rest bs"
  using assms
proof (induction "as" arbitrary: d)
  case Nil
  then show ?case by (intro exI [of _ "dec_data d"]) simp
next
  case (Cons a as)
  let ?rest = "concat (map arg_chunks as) @ rest"
  from readArg_laid [of a ?rest d] Cons.prems obtain bs where
    a: "dec_readArg d = Inr (a, d\<lparr>dec_data := bs, dec_vars := arg_vars a (dec_vars d)\<rparr>)" "laid ?rest bs" by auto
  define d1 where "d1 = d\<lparr>dec_data := bs, dec_vars := arg_vars a (dec_vars d), dec_call := (dec_call d)\<lparr>ec_Args := ec_Args (dec_call d) @ [a]\<rparr>\<rparr>"
  have "scalar_arg a" using Cons.prems(3) by simp
  then have r: "read_args (length (a # as)) d = read_args (length as) d1" by (cases a) (simp_all add: a(1) d1_def)
  from Cons.IH [of d1] a(2) Cons.prems(2,3) show ?case unfolding r by (auto simp: d1_def)
qed

lemma parse_head:
  assumes "laid (head_chunks c @ rest) (dec_data d)" "dec_err d = None" "call_fits tgt c" "ec_Meta (dec_call d) = None"
    and "dec_call d = no_call\<lparr>ec_Copyin := cis\<rparr>"
  shows "\<exists>bs. parse tgt d = parse tgt (d\<lparr>dec_data := bs, dec_vars := fold arg_vars (ec_Args c) (dec_vars d),
      dec_call := no_call\<lparr>ec_Copyin := cis, ec_Meta := ec_Meta c, ec_Index := ec_Index c, ec_Args := ec_Args c\<rparr>\<rparr>) \<and> laid rest bs"
proof -
  from assms(3) obtain m where m: "ec_Meta c = Some m" "sc_ID m < length (tg_Syscalls tgt)" "tg_Syscalls tgt ! sc_ID m = m"
    "length (tg_Syscalls tgt) < 2 ^ 63" "length (ec_Args c) < 2 ^ 63" "\<forall>a \<in> set (ec_Args c). arg_fits a \<and> scalar_arg a"
    by (auto simp: call_fits_def)
  define v :: uint64 where "v = of_nat (sc_ID m)"
  have u: "unat v = sc_ID m" "unat (of_nat (length (ec_Args c)) :: uint64) = length (ec_Args c)"
    using m(2,4,5) by (simp_all add: v_def unsigned_of_nat take_bit_nat_eq_self)
  have "unat v < 2 ^ 63" using u(1) m(2,4) by simp
  then have ne: "v \<noteq> execInstrCopyin" "v \<noteq> execInstrCopyout" "v \<noteq> execInstrEOF"
    by (auto simp: execInstrCopyin_def execInstrCopyout_def execInstrEOF_def unsigned_minus_1_eq_mask mask_eq_exp_minus_1)
  from assms(1) m(1) obtain bs where bs: "dec_data d = word_bytes v @ word_bytes (ec_Index c) @ word_bytes (of_nat (length (ec_Args c))) @ bs"
    "laid (concat (map arg_chunks (ec_Args c)) @ rest) bs" by (auto simp: head_chunks_def v_def)
  define d1 where "d1 = d\<lparr>dec_call := no_call\<lparr>ec_Copyin := cis, ec_Meta := ec_Meta c, ec_Index := ec_Index c\<rparr>, dec_data := bs\<rparr>"
  from read_args_laid [of "ec_Args c" rest d1] bs(2) assms(2) m(6) obtain bs' where
    a: "read_args (length (ec_Args c)) d1 = Inr (True, d1\<lparr>dec_data := bs', dec_vars := fold arg_vars (ec_Args c) (dec_vars d),
      dec_call := (dec_call d1)\<lparr>ec_Args := ec_Args c\<rparr>\<rparr>)" "laid rest bs'" by (auto simp: d1_def no_call_def)
  have "commitCall (d\<lparr>dec_data := x\<rparr>) = d\<lparr>dec_data := x\<rparr>" for x using assms(4) by (simp add: commitCall_conv)
  then have "parse_step tgt d = read_args (length (ec_Args c)) d1"
    using ne u m(1-3) bs(1) assms(2,5) by (simp add: parse_step_def dec_read_word d1_def)
  moreover have "d1\<lparr>dec_data := bs', dec_vars := fold arg_vars (ec_Args c) (dec_vars d), dec_call := (dec_call d1)\<lparr>ec_Args := ec_Args c\<rparr>\<rparr>
      = d\<lparr>dec_data := bs', dec_vars := fold arg_vars (ec_Args c) (dec_vars d),
      dec_call := no_call\<lparr>ec_Copyin := cis, ec_Meta := ec_Meta c, ec_Index := ec_Index c, ec_Args := ec_Args c\<rparr>\<rparr>" by (simp add: d1_def)
  ultimately show ?thesis using a assms(2) by (intro exI [of _ bs']) (simp add: parse.simps [of tgt d])
qed

definition settled :: "execDecoder \<Rightarrow> bool" where
  "settled d \<longleftrightarrow> dec_err d = None \<and> (ec_Meta (dec_call d) = None \<longrightarrow> dec_call d = no_call)"

lemma parse_call:
  assumes "laid (call_chunks c @ rest) (dec_data d)" "settled d" "call_fits tgt c"
  shows "\<exists>bs. parse tgt d = parse tgt ((commitCall d)\<lparr>dec_data := bs, dec_vars := call_vars c (dec_vars d), dec_call := c\<rparr>) \<and> laid rest bs"
proof -
  have e: "dec_err d = None" using assms(2) by (simp add: settled_def)
  obtain m where m: "ec_Meta c = Some m" "sc_ID m < length (tg_Syscalls tgt)" "length (tg_Syscalls tgt) < 2 ^ 63" using assms(3) by (auto simp: call_fits_def)
  have "unat (of_nat (sc_ID m) :: uint64) < 2 ^ 63" using m(2,3) by (simp add: unsigned_of_nat take_bit_nat_eq_self)
  then have "of_nat (sc_ID m) \<noteq> execInstrCopyout" by (auto simp: execInstrCopyout_def)
  then have "\<exists>v bs. dec_data d = word_bytes v @ bs \<and> v \<noteq> execInstrCopyout"
    using assms(1) m(1) by (cases "ec_Copyin c") (auto simp: call_chunks_def head_chunks_def copyin_chunks_def)
  then have p0: "parse tgt d = parse tgt (commitCall d)" using parse_commit e by blast
  define d0 where "d0 = commitCall d"
  have d0: "dec_data d0 = dec_data d" "dec_err d0 = None" "dec_call d0 = no_call" "dec_vars d0 = dec_vars d"
    using assms(2) e by (auto simp: d0_def settled_def commitCall_conv)
  let ?r1 = "head_chunks c @ concat (map copyout_chunks (ec_Copyout c)) @ rest" and ?r2 = "concat (map copyout_chunks (ec_Copyout c)) @ rest"
  have "\<forall>ci \<in> set (ec_Copyin c). arg_fits (ein_Arg ci)" using assms(3) by (simp add: call_fits_def)
  with parse_copyins [of "ec_Copyin c" ?r1 d0 tgt] assms(1) d0 obtain bs1 where p1: "parse tgt d0 = parse tgt (d0\<lparr>dec_data := bs1,
      dec_vars := fold arg_vars (map ein_Arg (ec_Copyin c)) (dec_vars d), dec_call := no_call\<lparr>ec_Copyin := ec_Copyin c\<rparr>\<rparr>)" "laid ?r1 bs1"
    by (auto simp: call_chunks_def no_call_def)
  define d1 where "d1 = d0\<lparr>dec_data := bs1, dec_vars := fold arg_vars (map ein_Arg (ec_Copyin c)) (dec_vars d), dec_call := no_call\<lparr>ec_Copyin := ec_Copyin c\<rparr>\<rparr>"
  from parse_head [of c ?r2 d1 tgt "ec_Copyin c"] p1(2) d0 assms(3) obtain bs2 where p2: "parse tgt d1 = parse tgt (d1\<lparr>dec_data := bs2,
      dec_vars := call_vars c (dec_vars d),
      dec_call := no_call\<lparr>ec_Copyin := ec_Copyin c, ec_Meta := ec_Meta c, ec_Index := ec_Index c, ec_Args := ec_Args c\<rparr>\<rparr>)" "laid ?r2 bs2"
    by (auto simp: d1_def no_call_def call_vars_def)
  define d2 where "d2 = d1\<lparr>dec_data := bs2, dec_vars := call_vars c (dec_vars d),
      dec_call := no_call\<lparr>ec_Copyin := ec_Copyin c, ec_Meta := ec_Meta c, ec_Index := ec_Index c, ec_Args := ec_Args c\<rparr>\<rparr>"
  from parse_copyouts [of "ec_Copyout c" rest d2 tgt] p2(2) d0 obtain bs3 where p3: "parse tgt d2 = parse tgt (d2\<lparr>dec_data := bs3,
      dec_call := (dec_call d2)\<lparr>ec_Copyout := ec_Copyout c\<rparr>\<rparr>)" "laid rest bs3"
    by (auto simp: d2_def d1_def no_call_def)
  have "(dec_call d2)\<lparr>ec_Copyout := ec_Copyout c\<rparr> = c" by (simp add: d2_def no_call_def)
  then have "d2\<lparr>dec_data := bs3, dec_call := (dec_call d2)\<lparr>ec_Copyout := ec_Copyout c\<rparr>\<rparr> = d0\<lparr>dec_data := bs3, dec_vars := call_vars c (dec_vars d), dec_call := c\<rparr>"
    by (simp add: d2_def d1_def)
  then have "parse tgt d = parse tgt (d0\<lparr>dec_data := bs3, dec_vars := call_vars c (dec_vars d), dec_call := c\<rparr>)"
    using p0 p1(1) p2(1) p3(1) unfolding d0_def [symmetric] d1_def [symmetric] d2_def [symmetric] by metis
  then show ?thesis using p3(2) unfolding d0_def by blast
qed

lemma parse_calls:
  assumes "laid (prog_chunks cs) (dec_data d)" "settled d" "\<forall>c \<in> set cs. call_fits tgt c"
  shows "\<exists>d'. parse tgt d = Inr d' \<and> dec_err d' = None \<and> dec_vars d' = fold call_vars cs (dec_vars d)
    \<and> dec_calls d' = dec_calls (commitCall d) @ cs \<and> dec_numVars d' = fold call_count cs (dec_numVars (commitCall d))"
  using assms
proof (induction cs arbitrary: d)
  case Nil
  then obtain bs where bs: "dec_data d = word_bytes execInstrEOF @ bs" "dec_err d = None" by (auto simp: prog_chunks_def settled_def)
  then have "parse_step tgt d = Inr (False, commitCall (d\<lparr>dec_data := bs\<rparr>))" using instr_distinct [symmetric] by (simp add: parse_step_def dec_read_word)
  then have "parse tgt d = Inr (commitCall (d\<lparr>dec_data := bs\<rparr>))" using bs(2) by (subst parse.simps) simp
  then show ?case using bs(2) by (auto simp: commitCall_conv)
next
  case (Cons c cs)
  from parse_call [of c "prog_chunks cs" d tgt] Cons.prems obtain bs where p:
    "parse tgt d = parse tgt ((commitCall d)\<lparr>dec_data := bs, dec_vars := call_vars c (dec_vars d), dec_call := c\<rparr>)" "laid (prog_chunks cs) bs"
    by (auto simp: prog_chunks_def)
  define d1 where "d1 = (commitCall d)\<lparr>dec_data := bs, dec_vars := call_vars c (dec_vars d), dec_call := c\<rparr>"
  obtain m where m: "ec_Meta c = Some m" using Cons.prems(3) by (auto simp: call_fits_def)
  have "settled d1" using Cons.prems(2) m by (auto simp: settled_def d1_def)
  moreover have "commitCall d1 = d1\<lparr>dec_numVars := call_count c (dec_numVars d1), dec_calls := dec_calls d1 @ [c], dec_call := no_call\<rparr>"
    using m by (simp add: commitCall_conv d1_def)
  ultimately show ?case using Cons.IH [of d1] p Cons.prems(3) unfolding p(1) by (auto simp: d1_def)
qed

lemma DeserializeExec_laid:
  assumes "laid (prog_chunks cs) exec" "\<forall>c \<in> set cs. call_fits tgt c"
  shows "DeserializeExec tgt exec = Inr (if of_nat (length (fold call_vars cs [])) \<noteq> fold call_count cs 0 then Inl ''mismatching number of vars''
    else Inr \<lparr>ep_Calls = cs, ep_Vars = fold call_vars cs []\<rparr>)"
proof -
  let ?d = "\<lparr>dec_data = exec, dec_err = None, dec_numVars = 0, dec_vars = [], dec_call = no_call, dec_calls = []\<rparr>"
  have s: "settled ?d" "commitCall ?d = ?d" by (simp_all add: settled_def commitCall_conv no_call_def)
  from parse_calls [of cs ?d tgt] assms s obtain d' where "parse tgt ?d = Inr d'" "dec_err d' = None" "dec_vars d' = fold call_vars cs []"
    "dec_calls d' = cs" "dec_numVars d' = fold call_count cs 0" by auto
  then show ?thesis by (simp add: DeserializeExec_def)
qed

end
