(* ===== verification/Exec_Encode.thy ===== *)
theory Exec_Encode
  imports Exec_Format Hints
begin

text \<open>
  The encoding of a program for the executor (\<open>prog/encodingexec.go\<close>) with the checksums it asks the
  executor to compute (\<open>prog/checksum.go\<close>).

  The context of the encoder holds the bytes written so far and the rest of the buffer. Arguments are
  identified by their addresses, which are the keys of the maps. The loop of \<open>writeChecksums\<close> runs over a
  map that is sorted; since the order of a map is open, the stable sort yields every order that an
  unstable one may yield.
\<close>

section \<open>Checksums\<close>

datatype CsumChunkKind = CsumChunkArg | CsumChunkConst

record CsumChunk =
  cc_Kind :: CsumChunkKind
  cc_Arg :: "Arg option"
  cc_Value :: uint64
  cc_Size :: uint64

record CsumInfo =
  cs_Kind :: CsumKind
  cs_Chunks :: "CsumChunk list"

fun arg_ptr :: "Arg \<Rightarrow> ptr" where
  "arg_ptr (ConstArg p t v) = p"
| "arg_ptr (PointerArg p t a s r) = p"
| "arg_ptr (DataArg p t d s) = p"
| "arg_ptr (GroupArg p t as) = p"
| "arg_ptr (UnionArg p t a) = p"
| "arg_ptr (ResultArg p) = p"

text \<open>The inner argument of a pointer; nil for a pointer to nothing.\<close>

fun InnerArg :: "arg_heap \<Rightarrow> Arg \<Rightarrow> Arg option res" where
  "InnerArg h (PointerArg p t a s r) =
    (case t of PtrType c e \<Rightarrow> (case r of None \<Rightarrow> Inr None | Some arg \<Rightarrow> InnerArg h arg) | _ \<Rightarrow> Inr (Some (PointerArg p t a s r)))"
| "InnerArg h arg = (case arg_Type h arg of PtrType c e \<Rightarrow> Inl (Panic ''interface conversion'') | _ \<Rightarrow> Inr (Some arg))"

definition is_csum :: "CsumKind \<Rightarrow> Type \<Rightarrow> bool" where
  "is_csum k t = (case t of CsumType i k' b pr \<Rightarrow> k' = k | _ \<Rightarrow> False)"

definition csum_fields :: "arg_heap \<Rightarrow> CsumKind \<Rightarrow> (Arg \<times> ArgCtx) list \<Rightarrow> Arg list" where
  "csum_fields h k vs = filter (\<lambda>a. is_csum k (arg_Type h a)) (map fst vs)"

text \<open>The struct each field is in; the key is nil for a pointer field that points to nothing.\<close>

type_synonym parents = "(ptr option, Arg) gomap"

definition note_parent :: "arg_heap \<Rightarrow> Arg \<Rightarrow> Arg \<Rightarrow> parents \<Rightarrow> parents res" where
  "note_parent h arg field m = rmap (\<lambda>i. go_set (map_option arg_ptr i) arg m) (InnerArg h field)"

definition note_parents :: "arg_heap \<Rightarrow> Arg \<times> ArgCtx \<Rightarrow> parents \<Rightarrow> parents res" where
  "note_parents h v m =
    (case arg_Type h (fst v) of
      StructType k f c a \<Rightarrow> (case fst v of GroupArg p t inner \<Rightarrow> rfold (note_parent h (fst v)) inner m
        | _ \<Rightarrow> Inl (Panic ''interface conversion''))
    | _ \<Rightarrow> Inr m)"

text \<open>
  The search for the enclosing struct follows the parents. There are as many parents as the map has
  entries; a longer chain is a cycle, on which the loop of the code does not end. The last
  equation stands for that.
\<close>

fun find_parent :: "arg_heap \<Rightarrow> parents \<Rightarrow> string \<Rightarrow> nat \<Rightarrow> ptr \<Rightarrow> Arg res" where
  "find_parent h m buf (Suc n) q =
    (case go_get m (Some q) of
      None \<Rightarrow> Inl (Panic ''csum field references non existent field'')
    | Some parent \<Rightarrow> if buf = ty_Name (arg_Type h parent) then Inr parent else find_parent h m buf n (arg_ptr parent))"
| "find_parent h m buf 0 q = Inl (Fatal ''the loop does not end'')"

definition findCsummedArg :: "arg_heap \<Rightarrow> parents \<Rightarrow> string \<Rightarrow> Arg \<Rightarrow> Arg res" where
  "findCsummedArg h m buf arg =
    (if buf = ''parent'' then
       (case go_get m (Some (arg_ptr arg)) of Some a \<Rightarrow> Inr a | None \<Rightarrow> Inl (Panic ''parent is not in parents map''))
     else find_parent h m buf (Suc (go_len m)) (arg_ptr arg))"

definition chunk_arg :: "Arg \<Rightarrow> CsumChunk" where
  "chunk_arg a = \<lparr>cc_Kind = CsumChunkArg, cc_Arg = Some a, cc_Value = 0, cc_Size = 0\<rparr>"

definition chunk_const :: "uint64 \<Rightarrow> uint64 \<Rightarrow> CsumChunk" where
  "chunk_const v sz = \<lparr>cc_Kind = CsumChunkConst, cc_Arg = None, cc_Value = v, cc_Size = sz\<rparr>"

definition composePseudoCsumIPv4 :: "arg_heap \<Rightarrow> Arg \<Rightarrow> Arg \<Rightarrow> Arg \<Rightarrow> uint8 \<Rightarrow> CsumInfo res" where
  "composePseudoCsumIPv4 h tcpPacket srcAddr dstAddr protocol =
    rmap (\<lambda>sz. \<lparr>cs_Kind = CsumInet, cs_Chunks = [chunk_arg srcAddr, chunk_arg dstAddr,
        chunk_const (ucast (swap16 (ucast protocol))) 2, chunk_const (ucast (swap16 (ucast sz))) 2, chunk_arg tcpPacket]\<rparr>)
      (arg_Size h tcpPacket)"

definition composePseudoCsumIPv6 :: "arg_heap \<Rightarrow> Arg \<Rightarrow> Arg \<Rightarrow> Arg \<Rightarrow> uint8 \<Rightarrow> CsumInfo res" where
  "composePseudoCsumIPv6 h tcpPacket srcAddr dstAddr protocol =
    rmap (\<lambda>sz. \<lparr>cs_Kind = CsumInet, cs_Chunks = [chunk_arg srcAddr, chunk_arg dstAddr,
        chunk_const (ucast (swap32 (ucast sz))) 4, chunk_const (ucast (swap32 (ucast protocol))) 4, chunk_arg tcpPacket]\<rparr>)
      (arg_Size h tcpPacket)"

definition getFieldByName :: "arg_heap \<Rightarrow> Arg list \<Rightarrow> string \<Rightarrow> Arg res" where
  "getFieldByName h inner name =
    (case find (\<lambda>f. ty_FieldName (arg_Type h f) = name) inner of Some f \<Rightarrow> Inr f | None \<Rightarrow> Inl (Panic ''failed to find field''))"

definition extractHeaderParams :: "arg_heap \<Rightarrow> Arg list \<Rightarrow> uint64 \<Rightarrow> (Arg \<times> Arg) res" where
  "extractHeaderParams h inner sz =
    rbind (getFieldByName h inner ''src_ip'') (\<lambda>srcAddr.
    rbind (getFieldByName h inner ''dst_ip'') (\<lambda>dstAddr.
    rbind (arg_Size h srcAddr) (\<lambda>s1.
    if s1 \<noteq> sz then Inl (Panic ''bad size of src/dst_ip'')
    else rbind (arg_Size h dstAddr) (\<lambda>s2. if s2 \<noteq> sz then Inl (Panic ''bad size of src/dst_ip'') else Inr (srcAddr, dstAddr)))))"

definition note_header :: "arg_heap \<Rightarrow> Arg \<times> ArgCtx \<Rightarrow> (Arg \<times> Arg) option \<Rightarrow> (Arg \<times> Arg) option res" where
  "note_header h v ip =
    (case fst v of
      GroupArg p t inner \<Rightarrow>
        if ty_Name t \<in> {''ipv4_header'', ''syz_csum_ipv4_header''} then rmap Some (extractHeaderParams h inner 4)
        else if ty_Name t \<in> {''ipv6_packet'', ''syz_csum_ipv6_header''} then rmap Some (extractHeaderParams h inner 16)
        else Inr ip
    | _ \<Rightarrow> Inr ip)"

type_synonym csum_map = "(ptr, Arg \<times> CsumInfo) gomap"
type_synonym csum_uses = "(ptr, unit) gomap"

definition csum_buf :: "Type \<Rightarrow> string" where
  "csum_buf t = (case t of CsumType i k b pr \<Rightarrow> b | _ \<Rightarrow> [])"

definition csum_protocol :: "Type \<Rightarrow> uint8" where
  "csum_protocol t = (case t of CsumType i k b pr \<Rightarrow> ucast pr | _ \<Rightarrow> 0)"

definition inet_csum :: "arg_heap \<Rightarrow> parents \<Rightarrow> Arg \<Rightarrow> csum_map \<times> csum_uses \<Rightarrow> (csum_map \<times> csum_uses) res" where
  "inet_csum h parentsMap arg st =
    rmap (\<lambda>csummed. (go_set (arg_ptr arg) (arg, \<lparr>cs_Kind = CsumInet, cs_Chunks = [chunk_arg csummed]\<rparr>) (fst st),
                     go_set (arg_ptr csummed) () (snd st)))
      (findCsummedArg h parentsMap (csum_buf (arg_Type h arg)) arg)"

definition pseudo_csum :: "arg_heap \<Rightarrow> parents \<Rightarrow> Arg \<Rightarrow> Arg \<Rightarrow> Arg \<Rightarrow> csum_map \<times> csum_uses \<Rightarrow> (csum_map \<times> csum_uses) res" where
  "pseudo_csum h parentsMap srcAddr dstAddr arg st =
    rbind (findCsummedArg h parentsMap (csum_buf (arg_Type h arg)) arg) (\<lambda>csummed.
    rbind (arg_Size h srcAddr) (\<lambda>sz.
    rmap (\<lambda>info. (go_set (arg_ptr arg) (arg, info) (fst st),
                  go_set (arg_ptr dstAddr) () (go_set (arg_ptr srcAddr) () (go_set (arg_ptr csummed) () (snd st)))))
      ((if sz = 4 then composePseudoCsumIPv4 else composePseudoCsumIPv6) h csummed srcAddr dstAddr (csum_protocol (arg_Type h arg)))))"

definition calcChecksumsCall :: "arg_heap \<Rightarrow> prog_call \<Rightarrow> (csum_map \<times> csum_uses) res" where
  "calcChecksumsCall h c =
    rbind (ForeachArg h c) (\<lambda>vs.
    let inet = csum_fields h CsumInet vs; pseudo = csum_fields h CsumPseudo vs in
    if inet = [] \<and> pseudo = [] then Inr (None, None)
    else rbind (rfold (note_parents h) vs (Some [])) (\<lambda>parentsMap.
      rbind (rfold (inet_csum h parentsMap) inet (Some [], Some [])) (\<lambda>st.
      if pseudo = [] then Inr st
      else rbind (rfold (note_header h) vs None) (\<lambda>ip.
        case ip of
          None \<Rightarrow> Inl (Panic ''no ipv4 nor ipv6 header found'')
        | Some (srcAddr, dstAddr) \<Rightarrow> rfold (pseudo_csum h parentsMap srcAddr dstAddr) pseudo st))))"

section \<open>The encoder\<close>

record argInfo =
  ai_Addr :: uint64
  ai_Idx :: uint64
  ai_Ret :: bool

record execContext =
  w_out :: bytes
  w_buf :: bytes
  w_eof :: bool
  w_args :: "(ptr, argInfo) gomap"
  w_copyoutSeq :: uint64
  w_csumMap :: csum_map
  w_csumUses :: csum_uses

text \<open>What a missing entry reads as.\<close>

definition no_info :: argInfo where
  "no_info = \<lparr>ai_Addr = 0, ai_Idx = 0, ai_Ret = False\<rparr>"

definition w_info :: "execContext \<Rightarrow> ptr \<Rightarrow> argInfo" where
  "w_info w q = (case go_get (w_args w) q of None \<Rightarrow> no_info | Some i \<Rightarrow> i)"

definition w_write :: "uint64 \<Rightarrow> execContext \<Rightarrow> execContext" where
  "w_write v w =
    (if length (w_buf w) < 8 then w\<lparr>w_eof := True\<rparr>
     else w\<lparr>w_out := w_out w @ word_bytes v, w_buf := drop 8 (w_buf w)\<rparr>)"

definition w_writes :: "uint64 list \<Rightarrow> execContext \<Rightarrow> execContext" where
  "w_writes vs w = fold w_write vs w"

text \<open>The block of a data argument; the padding keeps what the buffer holds.\<close>

definition w_blob :: "bytes \<Rightarrow> execContext \<Rightarrow> execContext" where
  "w_blob data w =
    (let pad = 8 - length data mod 8; n = length data + (if pad \<noteq> 8 then pad else 0) in
     if length (w_buf w) < n then w\<lparr>w_eof := True\<rparr>
     else w\<lparr>w_out := w_out w @ data @ drop (length data) (take n (w_buf w)), w_buf := drop n (w_buf w)\<rparr>)"

definition writeConstArg :: "uint64 \<Rightarrow> uint64 \<Rightarrow> uint64 \<Rightarrow> uint64 \<Rightarrow> uint64 \<Rightarrow> BinaryFormat \<Rightarrow> execContext \<Rightarrow> execContext" where
  "writeConstArg sz val bfOffset bfLength pidStride bf w =
    w_writes [execArgConst, sz OR push_bit 8 (of_nat bf) OR push_bit 16 bfOffset OR push_bit 24 bfLength OR push_bit 32 pidStride, val] w"

definition isReadableDataType :: "BufferKind \<Rightarrow> bool" where
  "isReadableDataType k \<longleftrightarrow> k = BufferString \<or> k = BufferFilename"

fun writeArg :: "Target \<Rightarrow> arg_heap \<Rightarrow> Arg \<Rightarrow> execContext \<Rightarrow> execContext res" where
  "writeArg tgt h (ConstArg p t v) w =
    rbind (const_Value t v) (\<lambda>(val, pidStride).
    rmap (\<lambda>sz. writeConstArg sz val (ty_BitfieldOffset t) (ty_BitfieldLength t) pidStride (ty_Format t) w) (ty_Size t))"
| "writeArg tgt h (ResultArg p) w =
    (let a = h_obj h p; t = ra_typ a in
     case ra_Res a of
       None \<Rightarrow> rmap (\<lambda>sz. writeConstArg sz (ra_Val a) 0 0 0 (ty_Format t) w) (ty_Size t)
     | Some r \<Rightarrow> (case go_get (w_args w) r of
         None \<Rightarrow> Inl (Panic ''no copyout index'')
       | Some info \<Rightarrow> rbind (ty_Size t) (\<lambda>sz.
           case t of
             ResourceType c f d \<Rightarrow> rmap (\<lambda>dflt.
                 w_writes [execArgResult, sz OR push_bit 8 (of_nat (ty_Format t)), ai_Idx info, ra_OpDiv a, ra_OpAdd a, dflt] w) (res_Default d)
           | _ \<Rightarrow> Inl (Panic ''interface conversion''))))"
| "writeArg tgt h (PointerArg p t a s r) w =
    rbind (ty_Size t) (\<lambda>sz. rmap (\<lambda>addr. writeConstArg sz addr 0 0 0 FormatNative w) (PhysicalAddr tgt a s r))"
| "writeArg tgt h (DataArg p t d s) w =
    (if ty_Dir t = DirOut then Inl (Panic ''getting data of output data arg'')
     else if d = [] then Inr w
     else case t of
       BufferType c k b e x sk vs nz \<Rightarrow>
         Inr (w_blob d (w_writes [execArgData, of_nat (length d) OR (if isReadableDataType k then execArgDataReadable else 0)] w))
     | _ \<Rightarrow> Inl (Panic ''interface conversion''))"
| "writeArg tgt h (UnionArg p t opt) w = writeArg tgt h opt w"
| "writeArg tgt h (GroupArg p t inner) w = Inl (Panic ''unknown arg type'')"

definition is_used :: "arg_heap \<Rightarrow> ptr \<Rightarrow> bool" where
  "is_used h p \<longleftrightarrow> go_len (ra_uses (h_obj h p)) \<noteq> 0"

definition willBeUsed :: "arg_heap \<Rightarrow> execContext \<Rightarrow> Arg \<Rightarrow> bool" where
  "willBeUsed h w arg \<longleftrightarrow> (case arg of ResultArg p \<Rightarrow> is_used h p | _ \<Rightarrow> False)
     \<or> go_has (w_csumMap w) (arg_ptr arg) \<or> go_has (w_csumUses w) (arg_ptr arg)"

text \<open>The address of an argument that a walk visits below a pointer.\<close>

definition visit_addr :: "Target \<Rightarrow> ArgCtx \<Rightarrow> uint64 res option" where
  "visit_addr tgt ctx =
    (case ctx_Base ctx of Some (PointerArg p t a s r) \<Rightarrow> Some (rmap (\<lambda>b. b + ctx_Offset ctx) (PhysicalAddr tgt a s r)) | _ \<Rightarrow> None)"

definition copied_in :: "arg_heap \<Rightarrow> Arg \<Rightarrow> bool res" where
  "copied_in h arg =
    (case arg of
      GroupArg _ _ _ \<Rightarrow> Inr False
    | UnionArg _ _ _ \<Rightarrow> Inr False
    | _ \<Rightarrow> if ty_Dir (arg_Type h arg) = DirOut \<or> IsPad (arg_Type h arg) then Inr False else rmap (\<lambda>sz. sz \<noteq> 0) (arg_Size h arg))"

definition copyin_visit :: "Target \<Rightarrow> arg_heap \<Rightarrow> Arg \<times> ArgCtx \<Rightarrow> execContext \<Rightarrow> execContext res" where
  "copyin_visit tgt h v w =
    (case v of (arg, ctx) \<Rightarrow>
     case visit_addr tgt ctx of
       None \<Rightarrow> Inr w
     | Some r \<Rightarrow> rbind r (\<lambda>addr.
         let w1 = (if willBeUsed h w arg then w\<lparr>w_args := go_set (arg_ptr arg) \<lparr>ai_Addr = addr, ai_Idx = 0, ai_Ret = False\<rparr> (w_args w)\<rparr> else w) in
         rbind (copied_in h arg) (\<lambda>b. if b then writeArg tgt h arg (w_writes [execInstrCopyin, addr] w1) else Inr w1)))"

definition writeCopyin :: "Target \<Rightarrow> arg_heap \<Rightarrow> prog_call \<Rightarrow> execContext \<Rightarrow> execContext res" where
  "writeCopyin tgt h c w = rbind (ForeachArg h c) (\<lambda>vs. rfold (copyin_visit tgt h) vs w)"

definition write_chunk :: "arg_heap \<Rightarrow> CsumChunk \<Rightarrow> execContext \<Rightarrow> execContext res" where
  "write_chunk h chunk w =
    (case cc_Kind chunk of
      CsumChunkArg \<Rightarrow> (case cc_Arg chunk of
          None \<Rightarrow> Inl (Panic ''nil pointer dereference'')
        | Some a \<Rightarrow> rmap (\<lambda>sz. w_writes [ExecArgCsumChunkData, ai_Addr (w_info w (arg_ptr a)), sz] w) (arg_Size h a))
    | CsumChunkConst \<Rightarrow> Inr (w_writes [ExecArgCsumChunkConst, cc_Value chunk, cc_Size chunk] w))"

definition write_csum :: "arg_heap \<Rightarrow> Arg \<times> CsumInfo \<Rightarrow> execContext \<Rightarrow> execContext res" where
  "write_csum h ai w =
    (case ai of (arg, info) \<Rightarrow>
     case arg_Type h arg of
       CsumType i k b pr \<Rightarrow>
         rbind (arg_Size h arg) (\<lambda>sz.
         let w1 = w_writes [execInstrCopyin, ai_Addr (w_info w (arg_ptr arg)), execArgCsum, sz] w in
         case cs_Kind info of
           CsumInet \<Rightarrow> rfold (write_chunk h) (cs_Chunks info) (w_writes [ExecArgCsumInet, of_nat (length (cs_Chunks info))] w1)
         | CsumPseudo \<Rightarrow> Inl (Panic ''csum arg has unknown kind''))
     | _ \<Rightarrow> Inl (Panic ''csum arg is not csum type''))"

definition writeChecksums :: "arg_heap \<Rightarrow> execContext \<Rightarrow> execContext res" where
  "writeChecksums h w =
    rfold (write_csum h) (rev (sort_key (\<lambda>(arg, info). ai_Addr (w_info w (arg_ptr arg))) (map snd (go_range (w_csumMap w))))) w"

definition copyout_visit :: "arg_heap \<Rightarrow> Arg \<times> ArgCtx \<Rightarrow> execContext \<Rightarrow> execContext res" where
  "copyout_visit h v w =
    (case fst v of
      ResultArg p \<Rightarrow>
        if \<not> is_used h p then Inr w
        else let info = w_info w p in
          if ai_Ret info then Inr w
          else let info1 = info\<lparr>ai_Idx := w_copyoutSeq w\<rparr>;
                   w1 = w\<lparr>w_copyoutSeq := w_copyoutSeq w + 1, w_args := go_set p info1 (w_args w)\<rparr> in
            rmap (\<lambda>sz. w_writes [execInstrCopyout, ai_Idx info1, ai_Addr info1, sz] w1) (ty_Size (ra_typ (h_obj h p)))
    | _ \<Rightarrow> Inr w)"

definition writeCopyout :: "arg_heap \<Rightarrow> prog_call \<Rightarrow> execContext \<Rightarrow> execContext res" where
  "writeCopyout h c w = rbind (ForeachArg h c) (\<lambda>vs. rfold (copyout_visit h) vs w)"

text \<open>The index word of a call.\<close>

definition write_index :: "arg_heap \<Rightarrow> prog_call \<Rightarrow> execContext \<Rightarrow> execContext res" where
  "write_index h c w =
    (case c_Ret c of
      Some r \<Rightarrow> if is_used h r then
          (if go_has (w_args w) r then Inl (Panic ''argInfo is already created for return value'')
           else Inr ((w_write (w_copyoutSeq w) (w\<lparr>w_args := go_set r \<lparr>ai_Addr = 0, ai_Idx = w_copyoutSeq w, ai_Ret = True\<rparr> (w_args w)\<rparr>))
             \<lparr>w_copyoutSeq := w_copyoutSeq w + 1\<rparr>))
        else Inr (w_write ExecNoCopyout w)
    | None \<Rightarrow> Inr (w_write ExecNoCopyout w))"

definition serializeCall :: "Target \<Rightarrow> arg_heap \<Rightarrow> prog_call \<Rightarrow> execContext \<Rightarrow> execContext res" where
  "serializeCall tgt h c w =
    rbind (writeCopyin tgt h c w) (\<lambda>w1.
    rbind (writeChecksums h w1) (\<lambda>w2.
    rbind (write_index h c (w_write (of_nat (sc_ID (c_Meta c))) w2)) (\<lambda>w3.
    rbind (rfold (writeArg tgt h) (c_Args c) (w_write (of_nat (length (c_Args c))) w3)) (\<lambda>w4.
    writeCopyout h c w4))))"

definition serialize_next :: "Target \<Rightarrow> arg_heap \<Rightarrow> prog_call \<Rightarrow> execContext \<Rightarrow> execContext res" where
  "serialize_next tgt h c w =
    rbind (calcChecksumsCall h c) (\<lambda>(m, u). serializeCall tgt h c (w\<lparr>w_csumMap := m, w_csumUses := u\<rparr>))"

text \<open>The result is the number of bytes written, or an error, with the buffer afterwards.\<close>

definition SerializeForExec :: "Target \<Rightarrow> program \<times> arg_heap \<Rightarrow> bytes \<Rightarrow> ((string + nat) \<times> bytes) res" where
  "SerializeForExec tgt s buffer =
    (case s of (p, h) \<Rightarrow>
     rmap (\<lambda>w. let w1 = w_write execInstrEOF w in
        (if w_eof w1 then Inl ''provided buffer is too small'' else Inr (length buffer - length (w_buf w1)), w_out w1 @ w_buf w1))
      (rfold (serialize_next tgt h) (pg_Calls p)
        \<lparr>w_out = [], w_buf = buffer, w_eof = False, w_args = Some [], w_copyoutSeq = 0, w_csumMap = None, w_csumUses = None\<rparr>))"

section \<open>What a program means to the executor\<close>

text \<open>
  The calls a program should be decoded as, written down without buffers and indices that are
  handed out on the way: the index of a result is its position among the results of the program that are
  used.
\<close>

primrec rmapm :: "('a \<Rightarrow> 'b res) \<Rightarrow> 'a list \<Rightarrow> 'b list res" where
  "rmapm f [] = Inr []"
| "rmapm f (x # xs) = rbind (f x) (\<lambda>y. rmap (\<lambda>ys. y # ys) (rmapm f xs))"

fun exec_arg :: "Target \<Rightarrow> arg_heap \<Rightarrow> (ptr \<Rightarrow> uint64) \<Rightarrow> Arg \<Rightarrow> ExecArg res" where
  "exec_arg tgt h idx (ConstArg p t v) =
    rbind (const_Value t v) (\<lambda>(val, pidStride).
    rmap (\<lambda>sz. ExecArgConst sz (ty_Format t) val (ty_BitfieldOffset t) (ty_BitfieldLength t) pidStride) (ty_Size t))"
| "exec_arg tgt h idx (ResultArg p) =
    (let a = h_obj h p; t = ra_typ a in
     rbind (ty_Size t) (\<lambda>sz.
     case ra_Res a of
       None \<Rightarrow> Inr (ExecArgConst sz (ty_Format t) (ra_Val a) 0 0 0)
     | Some r \<Rightarrow> (case t of
           ResourceType c f d \<Rightarrow> rmap (\<lambda>dflt. ExecArgResult sz f (idx r) (ra_OpDiv a) (ra_OpAdd a) dflt) (res_Default d)
         | _ \<Rightarrow> Inl (Panic ''not a resource''))))"
| "exec_arg tgt h idx (PointerArg p t a s r) =
    rbind (ty_Size t) (\<lambda>sz. rmap (\<lambda>addr. ExecArgConst sz FormatNative addr 0 0 0) (PhysicalAddr tgt a s r))"
| "exec_arg tgt h idx (DataArg p t d s) =
    (if ty_Dir t = DirOut then Inl (Panic ''output data'')
     else if d = [] then Inr ExecNil
     else case t of BufferType c k b e x sk vs nz \<Rightarrow> Inr (ExecArgData d (isReadableDataType k)) | _ \<Rightarrow> Inl (Panic ''not a buffer''))"
| "exec_arg tgt h idx (UnionArg p t opt) = exec_arg tgt h idx opt"
| "exec_arg tgt h idx (GroupArg p t inner) = Inl (Panic ''a group has no value'')"

text \<open>The address at which a walk finds an argument; 0 for an argument that is not in memory.\<close>

definition addr_in :: "Target \<Rightarrow> (Arg \<times> ArgCtx) list \<Rightarrow> ptr \<Rightarrow> uint64" where
  "addr_in tgt vs q =
    (case find (\<lambda>v. arg_ptr (fst v) = q) vs of
      Some (arg, ctx) \<Rightarrow> (case visit_addr tgt ctx of Some (Inr a) \<Rightarrow> a | _ \<Rightarrow> 0)
    | None \<Rightarrow> 0)"

definition copyin_of :: "Target \<Rightarrow> arg_heap \<Rightarrow> (ptr \<Rightarrow> uint64) \<Rightarrow> Arg \<times> ArgCtx \<Rightarrow> ExecCopyin list res" where
  "copyin_of tgt h idx v =
    (case v of (arg, ctx) \<Rightarrow>
     case visit_addr tgt ctx of
       None \<Rightarrow> Inr []
     | Some r \<Rightarrow> rbind r (\<lambda>addr. rbind (copied_in h arg) (\<lambda>b.
         if b then rmap (\<lambda>e. [\<lparr>ein_Addr = addr, ein_Arg = e\<rparr>]) (exec_arg tgt h idx arg) else Inr [])))"

definition chunk_of :: "arg_heap \<Rightarrow> (ptr \<Rightarrow> uint64) \<Rightarrow> CsumChunk \<Rightarrow> ExecCsumChunk res" where
  "chunk_of h addr ck =
    (case (cc_Kind ck, cc_Arg ck) of
      (CsumChunkArg, Some a) \<Rightarrow> rmap (\<lambda>sz. \<lparr>eck_Kind = ExecArgCsumChunkData, eck_Value = addr (arg_ptr a), eck_Size = sz\<rparr>) (arg_Size h a)
    | (CsumChunkArg, None) \<Rightarrow> Inl (Panic ''no argument'')
    | (CsumChunkConst, _) \<Rightarrow> Inr \<lparr>eck_Kind = ExecArgCsumChunkConst, eck_Value = cc_Value ck, eck_Size = cc_Size ck\<rparr>)"

definition csum_of :: "arg_heap \<Rightarrow> (ptr \<Rightarrow> uint64) \<Rightarrow> Arg \<times> CsumInfo \<Rightarrow> ExecCopyin res" where
  "csum_of h addr ai =
    (case ai of (arg, info) \<Rightarrow>
     rbind (arg_Size h arg) (\<lambda>sz.
     rmap (\<lambda>cs. \<lparr>ein_Addr = addr (arg_ptr arg), ein_Arg = ExecArgCsum sz ExecArgCsumInet cs\<rparr>) (rmapm (chunk_of h addr) (cs_Chunks info))))"

definition copyout_of :: "arg_heap \<Rightarrow> (ptr \<Rightarrow> uint64) \<Rightarrow> (ptr \<Rightarrow> uint64) \<Rightarrow> ptr \<Rightarrow> ExecCopyout res" where
  "copyout_of h idx addr r = rmap (\<lambda>sz. \<lparr>eout_Index = idx r, eout_Addr = addr r, eout_Size = sz\<rparr>) (ty_Size (ra_typ (h_obj h r)))"

definition ret_index :: "arg_heap \<Rightarrow> (ptr \<Rightarrow> uint64) \<Rightarrow> prog_call \<Rightarrow> uint64" where
  "ret_index h idx c = (case c_Ret c of Some r \<Rightarrow> if is_used h r then idx r else ExecNoCopyout | None \<Rightarrow> ExecNoCopyout)"

definition exec_call :: "Target \<Rightarrow> arg_heap \<Rightarrow> (ptr \<Rightarrow> uint64) \<Rightarrow> prog_call \<Rightarrow> ExecCall res" where
  "exec_call tgt h idx c =
    rbind (ForeachArg h c) (\<lambda>vs.
    rbind (calcChecksumsCall h c) (\<lambda>(m, u).
    rbind (rmapm (copyin_of tgt h idx) vs) (\<lambda>cis.
    rbind (rmapm (csum_of h (addr_in tgt vs)) (rev (sort_key (\<lambda>(arg, info). addr_in tgt vs (arg_ptr arg)) (map snd (go_range m))))) (\<lambda>css.
    rbind (rmapm (exec_arg tgt h idx) (c_Args c)) (\<lambda>as.
    rmap (\<lambda>cos. \<lparr>ec_Meta = Some (c_Meta c), ec_Index = ret_index h idx c, ec_Args = as, ec_Copyin = concat cis @ css, ec_Copyout = cos\<rparr>)
      (rmapm (copyout_of h idx (addr_in tgt vs)) (filter (is_used h) (concat (map arg_results (c_Args c))))))))))"

definition exec_index :: "arg_heap \<Rightarrow> program \<Rightarrow> ptr \<Rightarrow> uint64" where
  "exec_index h p r = of_nat (length (takeWhile (\<lambda>q. q \<noteq> r) (filter (is_used h) (prog_results p))))"

definition exec_calls :: "Target \<Rightarrow> program \<times> arg_heap \<Rightarrow> ExecCall list res" where
  "exec_calls tgt s = (case s of (p, h) \<Rightarrow> rmapm (exec_call tgt h (exec_index h p)) (pg_Calls p))"

section \<open>Writing\<close>

text \<open>
  \<open>emits cs w w'\<close>: between the two contexts the chunks were written, or the buffer was too small, which is
  noted for good.
\<close>

definition emits :: "chunk list \<Rightarrow> execContext \<Rightarrow> execContext \<Rightarrow> bool" where
  "emits cs w w' \<longleftrightarrow> (w_eof w' \<longleftrightarrow> w_eof w \<or> chunks_len cs > length (w_buf w))
     \<and> (\<not> w_eof w' \<longrightarrow> (\<exists>bs. laid cs bs \<and> w_out w' = w_out w @ bs \<and> w_buf w' = drop (length bs) (w_buf w)))"

definition w_rest :: "execContext \<Rightarrow> (ptr, argInfo) gomap \<times> uint64 \<times> csum_map \<times> csum_uses" where
  "w_rest w = (w_args w, w_copyoutSeq w, w_csumMap w, w_csumUses w)"

lemma chunks_len_simps [simp]:
  "chunks_len [] = 0" "chunks_len (c # cs) = chunk_len c + chunks_len cs" "chunks_len (cs @ ds) = chunks_len cs + chunks_len ds"
  by (simp_all add: chunks_len_def)

lemma emits_refl: "emits [] w w"
  by (simp add: emits_def)

lemma emits_cong: "w_out w = w_out v \<Longrightarrow> w_buf w = w_buf v \<Longrightarrow> w_eof w = w_eof v \<Longrightarrow> emits cs w w' = emits cs v w'"
  by (simp add: emits_def)

lemma emits_trans: "emits cs w w1 \<Longrightarrow> emits ds w1 w2 \<Longrightarrow> emits (cs @ ds) w w2"
proof -
  assume e: "emits cs w w1" "emits ds w1 w2"
  show ?thesis
  proof (cases "w_eof w1")
    case True
    then have "w_eof w2" "w_eof w \<or> chunks_len cs > length (w_buf w)" using e by (auto simp: emits_def)
    then show ?thesis by (auto simp: emits_def)
  next
    case False
    then obtain bs where bs: "laid cs bs" "w_out w1 = w_out w @ bs" "w_buf w1 = drop (length bs) (w_buf w)" using e(1) by (auto simp: emits_def)
    have le: "\<not> w_eof w" "chunks_len cs \<le> length (w_buf w)" using e(1) False by (auto simp: emits_def)
    have w2: "w_eof w2 \<longleftrightarrow> chunks_len (cs @ ds) > length (w_buf w)" using e(2) False bs laid_length [OF bs(1)] le(2) by (auto simp: emits_def)
    have "\<exists>bs'. laid (cs @ ds) bs' \<and> w_out w2 = w_out w @ bs' \<and> w_buf w2 = drop (length bs') (w_buf w)" if ok: "\<not> w_eof w2"
    proof -
      obtain ds' where "laid ds ds'" "w_out w2 = w_out w1 @ ds'" "w_buf w2 = drop (length ds') (w_buf w1)" using ok e(2) by (auto simp: emits_def)
      then show ?thesis using bs by (intro exI [of _ "bs @ ds'"]) (auto simp: laid_append add.commute)
    qed
    then show ?thesis using w2 le(1) by (simp add: emits_def)
  qed
qed

lemma w_write_emits: "emits [Word v] w (w_write v w)" "w_rest (w_write v w) = w_rest w"
  by (auto simp: emits_def w_write_def w_rest_def)

lemma w_writes_emits: "emits (map Word vs) w (w_writes vs w)" "w_rest (w_writes vs w) = w_rest w"
proof -
  have "emits (map Word vs) w (fold w_write vs w) \<and> w_rest (fold w_write vs w) = w_rest w"
  proof (induction vs arbitrary: w)
    case (Cons v vs)
    then show ?case using emits_trans [OF w_write_emits(1) [of v w], of "map Word vs"] w_write_emits(2) by simp
  qed (simp add: emits_refl)
  then show "emits (map Word vs) w (w_writes vs w)" "w_rest (w_writes vs w) = w_rest w" by (simp_all add: w_writes_def)
qed

lemma padded_conv: "(let pad = 8 - n mod 8 in n + (if pad \<noteq> 8 then pad else 0)) = padded n"
proof -
  have d: "(n + 7) div 8 = (if n mod 8 = 0 then n div 8 else n div 8 + 1)" by presburger
  have "q * 8 + r + (8 - r) = (q + 1) * 8" if "r < 8" for q r :: nat using that by simp
  from this [of "n mod 8" "n div 8"] have "n + (8 - n mod 8) = (n div 8 + 1) * 8" by simp
  moreover have "n mod 8 = 0 \<Longrightarrow> n = n div 8 * 8" by auto
  moreover have "n mod 8 \<noteq> 0 \<Longrightarrow> 8 - n mod 8 \<noteq> 8" by arith
  ultimately show ?thesis unfolding padded_def Let_def d by (cases "n mod 8 = 0") simp_all
qed

lemma w_blob_emits: "emits [Blob d] w (w_blob d w)" "w_rest (w_blob d w) = w_rest w"
proof -
  have n: "length d + (if 8 - length d mod 8 \<noteq> 8 then 8 - length d mod 8 else 0) = padded (length d)" using padded_conv [of "length d"] by (simp only: Let_def)
  have b: "w_blob d w = (if length (w_buf w) < padded (length d) then w\<lparr>w_eof := True\<rparr>
     else w\<lparr>w_out := w_out w @ d @ drop (length d) (take (padded (length d)) (w_buf w)), w_buf := drop (padded (length d)) (w_buf w)\<rparr>)"
    unfolding w_blob_def Let_def n by (rule refl)
  have l: "length d \<le> padded (length d)" by (simp add: padded_def)
  show "w_rest (w_blob d w) = w_rest w" by (simp add: b w_rest_def)
  show "emits [Blob d] w (w_blob d w)" using l
    by (auto simp: emits_def b intro!: exI [of _ "d @ drop (length d) (take (padded (length d)) (w_buf w))"] exI [of _ "drop (length d) (take (padded (length d)) (w_buf w))"])
qed

text \<open>The indices of the results that the results \<open>ps\<close> refer to are known.\<close>

definition knows :: "arg_heap \<Rightarrow> (ptr \<Rightarrow> uint64) \<Rightarrow> (ptr, argInfo) gomap \<Rightarrow> ptr set \<Rightarrow> bool" where
  "knows h idx args ps \<longleftrightarrow> (\<forall>q \<in> ps. \<forall>r. ra_Res (h_obj h q) = Some r \<longrightarrow> (\<exists>i. go_get args r = Some i \<and> ai_Idx i = idx r))"

lemma knows_mono: "knows h idx args ps \<Longrightarrow> qs \<subseteq> ps \<Longrightarrow> knows h idx args qs"
  by (auto simp: knows_def)

lemma writeConstArg_emits:
  "emits (arg_chunks (ExecArgConst sz bf val bo bl ps)) w (writeConstArg sz val bo bl ps bf w)" "w_rest (writeConstArg sz val bo bl ps bf w) = w_rest w"
  using w_writes_emits [of "[execArgConst, const_meta sz bf bo bl ps, val]" w] by (simp_all add: writeConstArg_def const_meta_def)

text \<open>The results whose value an argument has itself, not behind a pointer.\<close>

fun own_results :: "Arg \<Rightarrow> ptr list" where
  "own_results (ResultArg p) = [p]"
| "own_results (UnionArg p t opt) = own_results opt"
| "own_results _ = []"

lemma own_results_sub: "set (own_results a) \<subseteq> set (arg_results a)"
  by (induction a) auto

lemma writeArg_emits:
  assumes "exec_arg tgt h idx arg = Inr e" "knows h idx (w_args w) (set (own_results arg))"
  shows "\<exists>w'. writeArg tgt h arg w = Inr w' \<and> emits (arg_chunks e) w w' \<and> w_rest w' = w_rest w"
  using assms
proof (induction arg)
  case (ResultArg p)
  let ?a = "h_obj h p"
  obtain sz where sz: "ty_Size (ra_typ ?a) = Inr sz" using ResultArg.prems(1) by (auto simp: Let_def res_conv)
  show ?case
  proof (cases "ra_Res ?a")
    case None
    then show ?thesis using ResultArg.prems(1) sz writeConstArg_emits by (auto simp: Let_def simp del: arg_chunks.simps)
  next
    case (Some r)
    then obtain i where i: "go_get (w_args w) r = Some i" "ai_Idx i = idx r" using ResultArg.prems(2) by (auto simp: knows_def)
    from ResultArg.prems(1) Some sz obtain c f d dflt where t: "ra_typ ?a = ResourceType c f d" "res_Default d = Inr dflt"
      "e = ExecArgResult sz f (idx r) (ra_OpDiv ?a) (ra_OpAdd ?a) dflt" by (auto simp: Let_def res_conv split: Type.splits)
    have "ty_Format (ra_typ ?a) = f" by (simp add: t(1) ty_Format_def)
    then show ?thesis using Some i sz t w_writes_emits [of "[execArgResult, sz OR push_bit 8 (of_nat f), idx r, ra_OpDiv ?a, ra_OpAdd ?a, dflt]" w]
      by (auto simp: Let_def)
  qed
next
  case (DataArg p t d s)
  show ?case
  proof (cases "d = []")
    case True
    then show ?thesis using DataArg.prems(1) by (auto simp: emits_refl split: if_splits)
  next
    case False
    then obtain c k b n x sk vs nz where t: "t = BufferType c k b n x sk vs nz" "ty_Dir t \<noteq> DirOut" "e = ExecArgData d (isReadableDataType k)"
      using DataArg.prems(1) by (auto split: Type.splits if_splits)
    let ?ws = "[execArgData, of_nat (length d) OR (if isReadableDataType k then execArgDataReadable else 0)]"
    have "emits (map Word ?ws @ [Blob d]) w (w_blob d (w_writes ?ws w))" by (rule emits_trans [OF w_writes_emits(1) w_blob_emits(1)])
    moreover have "w_rest (w_blob d (w_writes ?ws w)) = w_rest w" by (simp add: w_blob_emits w_writes_emits)
    ultimately show ?thesis using False t by simp
  qed
qed (auto simp: res_conv writeConstArg_emits simp del: arg_chunks.simps)

section \<open>Copying in\<close>

fun arg_ptrs :: "Arg \<Rightarrow> ptr list" where
  "arg_ptrs (PointerArg p t a s r) = p # (case r of None \<Rightarrow> [] | Some arg \<Rightarrow> arg_ptrs arg)"
| "arg_ptrs (GroupArg p t inner) = p # concat (map arg_ptrs inner)"
| "arg_ptrs (UnionArg p t opt) = p # arg_ptrs opt"
| "arg_ptrs (ConstArg p t v) = [p]"
| "arg_ptrs (DataArg p t d s) = [p]"
| "arg_ptrs (ResultArg p) = [p]"

definition call_ptrs :: "prog_call \<Rightarrow> ptr list" where
  "call_ptrs c = (case c_Ret c of None \<Rightarrow> [] | Some r \<Rightarrow> [r]) @ concat (map arg_ptrs (c_Args c))"

definition prog_ptrs :: "program \<Rightarrow> ptr list" where
  "prog_ptrs p = concat (map call_ptrs (pg_Calls p))"

lemma results_are_ptrs: "set (arg_results a) \<subseteq> set (arg_ptrs a)"
  by (induction a) (auto split: option.splits)

lemma call_results_are_ptrs: "set (call_results c) \<subseteq> set (call_ptrs c)"
  using results_are_ptrs by (auto simp: call_results_def call_ptrs_def split: option.splits)

lemma walk_ptrs:
  "foreachArgImpl h ctx a = Inr vs \<Longrightarrow> map (arg_ptr \<circ> fst) vs = arg_ptrs a"
  "foreach_inner h ctx as = Inr (vs, sz) \<Longrightarrow> map (arg_ptr \<circ> fst) vs = concat (map arg_ptrs as)"
proof (induction h ctx a and h ctx "as" arbitrary: vs and vs sz rule: foreachArgImpl_foreach_inner.induct)
  case (9 h ctx a as)
  from 9(3) obtain vs1 x vs2 sz2 where v: "foreachArgImpl h ctx a = Inr vs1" "(if ty_BitfieldMiddle (arg_Type h a) then Inr 0 else arg_Size h a) = Inr x"
    "foreach_inner h (ctx\<lparr>ctx_Offset := ctx_Offset ctx + x\<rparr>) as = Inr (vs2, sz2)" "vs = vs1 @ vs2"
    unfolding foreach_inner.simps res_conv by auto
  show ?case using 9(1) [OF v(1)] 9(2) [OF v(1,2,3)] by (simp add: v(4))
qed (auto simp: res_conv split: if_splits)

text \<open>A walk over a call visits the return value and the arguments one after the other.\<close>

lemma ForeachArg_concat:
  assumes "ForeachArg h c = Inr vs"
  shows "\<exists>vss. list_all2 (\<lambda>a vs. foreachArgImpl h (ctx0\<lparr>ctx_Parent := Some (c_Args c)\<rparr>) a = Inr vs) (c_Args c) vss
    \<and> vs = (case c_Ret c of None \<Rightarrow> [] | Some r \<Rightarrow> [(ResultArg r, ctx0)]) @ concat vss"
proof -
  let ?ctx = "ctx0\<lparr>ctx_Parent := Some (c_Args c)\<rparr>"
  have f: "\<exists>vss. list_all2 (\<lambda>a vs. foreachArgImpl h ?ctx a = Inr vs) as vss \<and> vs = vs0 @ concat vss"
    if "rfold (visit_next h ?ctx) as vs0 = Inr vs" for "as" vs0 vs
    using that
  proof (induction "as" arbitrary: vs0)
    case (Cons a as)
    then obtain va where va: "foreachArgImpl h ?ctx a = Inr va" "rfold (visit_next h ?ctx) as (vs0 @ va) = Inr vs"
      by (auto simp: visit_next_def [of _ _ a] res_conv)
    from Cons.IH [OF va(2)] obtain vss where "list_all2 (\<lambda>a vs. foreachArgImpl h ?ctx a = Inr vs) as vss" "vs = (vs0 @ va) @ concat vss" by blast
    then show ?case using va(1) by (intro exI [of _ "va # vss"]) simp
  qed simp
  from assms obtain vs0 where "(case c_Ret c of None \<Rightarrow> Inr [] | Some r \<Rightarrow> foreachArgImpl h ctx0 (ResultArg r)) = Inr vs0"
    "rfold (visit_next h ?ctx) (c_Args c) vs0 = Inr vs" by (auto simp: ForeachArg_def res_conv)
  then show ?thesis using f [of "c_Args c" vs0 vs] by (auto split: option.splits)
qed

lemma walk_call:
  assumes "ForeachArg h c = Inr vs"
  shows "map (arg_ptr \<circ> fst) vs = call_ptrs c" "concat (map (result_of \<circ> fst) vs) = call_results c"
proof -
  from ForeachArg_concat [OF assms] obtain vss where v: "list_all2 (\<lambda>a vs. foreachArgImpl h (ctx0\<lparr>ctx_Parent := Some (c_Args c)\<rparr>) a = Inr vs) (c_Args c) vss"
    "vs = (case c_Ret c of None \<Rightarrow> [] | Some r \<Rightarrow> [(ResultArg r, ctx0)]) @ concat vss" by blast
  have "map (arg_ptr \<circ> fst) (concat vss) = concat (map arg_ptrs (c_Args c))"
    "concat (map (result_of \<circ> fst) (concat vss)) = concat (map arg_results (c_Args c))"
    using v(1) by (induction rule: list_all2_induct) (auto dest: walk_ptrs(1) walk_results(1))
  then show "map (arg_ptr \<circ> fst) vs = call_ptrs c" "concat (map (result_of \<circ> fst) vs) = call_results c"
    by (auto simp: v(2) call_ptrs_def call_results_def result_of_def split: option.splits)
qed

text \<open>What the walk records about the argument with address \<open>q\<close>.\<close>

definition recorded :: "Target \<Rightarrow> arg_heap \<Rightarrow> execContext \<Rightarrow> (Arg \<times> ArgCtx) list \<Rightarrow> ptr \<Rightarrow> argInfo option" where
  "recorded tgt h w vs q =
    (case find (\<lambda>v. arg_ptr (fst v) = q) vs of
      Some (arg, ctx) \<Rightarrow> (case visit_addr tgt ctx of
          Some (Inr a) \<Rightarrow> if willBeUsed h w arg then Some \<lparr>ai_Addr = a, ai_Idx = 0, ai_Ret = False\<rparr> else go_get (w_args w) q
        | _ \<Rightarrow> go_get (w_args w) q)
    | None \<Rightarrow> go_get (w_args w) q)"

lemma recorded_other: "q \<notin> set (map (arg_ptr \<circ> fst) vs) \<Longrightarrow> recorded tgt h w vs q = go_get (w_args w) q"
proof -
  assume "q \<notin> set (map (arg_ptr \<circ> fst) vs)"
  then have "find (\<lambda>v. arg_ptr (fst v) = q) vs = None" by (force simp: find_None_iff)
  then show ?thesis by (simp add: recorded_def)
qed

lemma knows_same: "knows h idx args ps \<Longrightarrow> (\<And>q r. q \<in> ps \<Longrightarrow> ra_Res (h_obj h q) = Some r \<Longrightarrow> go_get args' r = go_get args r) \<Longrightarrow> knows h idx args' ps"
  unfolding knows_def by metis

lemma w_restD: "w_rest w' = w_rest w \<Longrightarrow> w_args w' = w_args w \<and> w_copyoutSeq w' = w_copyoutSeq w \<and> w_csumMap w' = w_csumMap w \<and> w_csumUses w' = w_csumUses w"
  by (simp add: w_rest_def)

lemma copyin_visit_emits:
  assumes "copyin_of tgt h idx (arg, ctx) = Inr cis" "knows h idx (w_args w) (set (result_of arg))"
    and fresh: "\<forall>q \<in> set (result_of arg). \<forall>r. ra_Res (h_obj h q) = Some r \<longrightarrow> r \<noteq> arg_ptr arg"
  shows "\<exists>w'. copyin_visit tgt h (arg, ctx) w = Inr w' \<and> emits (concat (map copyin_chunks cis)) w w'
    \<and> w_copyoutSeq w' = w_copyoutSeq w \<and> w_csumMap w' = w_csumMap w \<and> w_csumUses w' = w_csumUses w
    \<and> (\<forall>q. go_get (w_args w') q = recorded tgt h w [(arg, ctx)] q)"
proof (cases "visit_addr tgt ctx")
  case None
  then show ?thesis using assms(1) by (auto simp: copyin_of_def copyin_visit_def emits_refl recorded_def)
next
  case (Some ra)
  from assms(1) Some obtain addr b where ab: "ra = Inr addr" "copied_in h arg = Inr b" by (auto simp: copyin_of_def res_conv)
  define w1 where "w1 = (if willBeUsed h w arg then w\<lparr>w_args := go_set (arg_ptr arg) \<lparr>ai_Addr = addr, ai_Idx = 0, ai_Ret = False\<rparr> (w_args w)\<rparr> else w)"
  have w1: "w_copyoutSeq w1 = w_copyoutSeq w" "w_csumMap w1 = w_csumMap w" "w_csumUses w1 = w_csumUses w" "w_out w1 = w_out w" "w_buf w1 = w_buf w" "w_eof w1 = w_eof w"
    "\<forall>q. go_get (w_args w1) q = recorded tgt h w [(arg, ctx)] q" by (simp_all add: w1_def recorded_def Some ab(1))
  note same = emits_cong [OF w1(4-6)]
  show ?thesis
  proof (cases b)
    case False
    have "cis = []" using assms(1) Some ab False by (simp add: copyin_of_def)
    then show ?thesis using Some ab False w1 same emits_refl [of w1] by (simp add: copyin_visit_def w1_def [symmetric])
  next
    case True
    then obtain e where e: "exec_arg tgt h idx arg = Inr e" "cis = [\<lparr>ein_Addr = addr, ein_Arg = e\<rparr>]" using assms(1) Some ab by (auto simp: copyin_of_def res_conv)
    have rs: "own_results arg = result_of arg" using ab(2) True by (cases arg) (auto simp: copied_in_def result_of_def)
    let ?w2 = "w_writes [execInstrCopyin, addr] w1"
    have "knows h idx (w_args w1) (set (own_results arg))" unfolding rs
      by (rule knows_same [OF assms(2)]) (use fresh in \<open>auto simp: w1_def\<close>)
    moreover have "w_rest ?w2 = w_rest w1" by (rule w_writes_emits(2))
    ultimately have "knows h idx (w_args ?w2) (set (own_results arg))" by (simp add: w_rest_def)
    from writeArg_emits [OF e(1) this] obtain w' where w': "writeArg tgt h arg ?w2 = Inr w'" "emits (arg_chunks e) ?w2 w'" "w_rest w' = w_rest ?w2" by blast
    have "emits (map Word [execInstrCopyin, addr] @ arg_chunks e) w1 w'" by (rule emits_trans [OF w_writes_emits(1) w'(2)])
    then have "emits (concat (map copyin_chunks cis)) w w'" using same by (simp add: e(2) copyin_chunks_def)
    moreover have "w_rest w' = w_rest w1" using w'(3) w_writes_emits(2) by simp
    ultimately show ?thesis using Some ab True w'(1) w1 by (simp add: copyin_visit_def w1_def [symmetric] w_rest_def)
  qed
qed

lemma copyin_all:
  assumes "rmapm (copyin_of tgt h idx) vs = Inr ciss" "knows h idx (w_args w) (set (concat (map (result_of \<circ> fst) vs)))"
    and "distinct (map (arg_ptr \<circ> fst) vs)"
    and "\<And>q r. q \<in> set (concat (map (result_of \<circ> fst) vs)) \<Longrightarrow> ra_Res (h_obj h q) = Some r \<Longrightarrow> r \<notin> set (map (arg_ptr \<circ> fst) vs)"
  shows "\<exists>w'. rfold (copyin_visit tgt h) vs w = Inr w' \<and> emits (concat (map copyin_chunks (concat ciss))) w w'
    \<and> w_copyoutSeq w' = w_copyoutSeq w \<and> w_csumMap w' = w_csumMap w \<and> w_csumUses w' = w_csumUses w
    \<and> (\<forall>q. go_get (w_args w') q = recorded tgt h w vs q)"
  using assms
proof (induction vs arbitrary: w ciss)
  case Nil
  then show ?case by (auto simp: emits_refl recorded_def)
next
  case (Cons v vs)
  obtain arg ctx where v: "v = (arg, ctx)" by (cases v)
  from Cons.prems(1) obtain cis ciss' where c: "copyin_of tgt h idx (arg, ctx) = Inr cis" "rmapm (copyin_of tgt h idx) vs = Inr ciss'" "ciss = cis # ciss'"
    by (auto simp: v res_conv)
  have k: "knows h idx (w_args w) (set (result_of arg))" by (rule knows_mono [OF Cons.prems(2)]) (auto simp: v)
  have nr: "\<forall>q \<in> set (result_of arg). \<forall>r. ra_Res (h_obj h q) = Some r \<longrightarrow> r \<noteq> arg_ptr arg" using Cons.prems(4) by (auto simp: v)
  obtain w1 where w1: "copyin_visit tgt h (arg, ctx) w = Inr w1" "emits (concat (map copyin_chunks cis)) w w1"
    "w_copyoutSeq w1 = w_copyoutSeq w" "w_csumMap w1 = w_csumMap w" "w_csumUses w1 = w_csumUses w" "\<forall>q. go_get (w_args w1) q = recorded tgt h w [(arg, ctx)] q"
    using copyin_visit_emits [OF c(1) k nr] by blast
  have k1: "knows h idx (w_args w1) (set (concat (map (result_of \<circ> fst) vs)))"
  proof (rule knows_same [OF knows_mono [OF Cons.prems(2)]])
    fix q r assume "q \<in> set (concat (map (result_of \<circ> fst) vs))" "ra_Res (h_obj h q) = Some r"
    then have "r \<noteq> arg_ptr arg" using Cons.prems(4) [of q r] by (auto simp: v)
    then show "go_get (w_args w1) r = go_get (w_args w) r" using w1(6) by (simp add: recorded_other)
  qed auto
  from Cons.IH [OF c(2) k1] Cons.prems(3,4) obtain w2 where w2: "rfold (copyin_visit tgt h) vs w1 = Inr w2" "emits (concat (map copyin_chunks (concat ciss'))) w1 w2"
    "w_copyoutSeq w2 = w_copyoutSeq w1" "w_csumMap w2 = w_csumMap w1" "w_csumUses w2 = w_csumUses w1" "\<forall>q. go_get (w_args w2) q = recorded tgt h w1 vs q" by auto
  have "recorded tgt h w1 vs q = recorded tgt h w (v # vs) q" for q
  proof (cases "q = arg_ptr arg")
    case True
    then have "q \<notin> set (map (arg_ptr \<circ> fst) vs)" using Cons.prems(3) by (simp add: v)
    from recorded_other [OF this] show ?thesis using w1(6) True by (simp add: recorded_def v)
  next
    case False
    then have "go_get (w_args w1) q = go_get (w_args w) q" using w1(6) by (simp add: recorded_other)
    moreover have "willBeUsed h w1 a = willBeUsed h w a" for a using w1(4,5) by (simp add: willBeUsed_def)
    ultimately show ?thesis using False by (auto simp: recorded_def v split: option.splits sum.splits)
  qed
  then show ?case using w1 w2 emits_trans [OF w1(2) w2(2)] by (simp add: v c(3))
qed

section \<open>Checksums\<close>

text \<open>What \<open>calcChecksumsCall\<close> returns names only arguments of the call.\<close>

definition chunk_ok :: "Arg set \<Rightarrow> csum_uses \<Rightarrow> CsumChunk \<Rightarrow> bool" where
  "chunk_ok V u ck \<longleftrightarrow> (cc_Kind ck = CsumChunkArg \<longrightarrow> (\<exists>a \<in> V. cc_Arg ck = Some a \<and> arg_ptr a \<in> set (go_keys u)))"

definition csums_ok :: "arg_heap \<Rightarrow> Arg set \<Rightarrow> csum_map \<times> csum_uses \<Rightarrow> bool" where
  "csums_ok h V st \<longleftrightarrow> (\<forall>q arg info. (q, arg, info) \<in> set (go_range (fst st)) \<longrightarrow> q = arg_ptr arg \<and> arg \<in> V
     \<and> (\<exists>i k b pr. arg_Type h arg = CsumType i k b pr) \<and> cs_Kind info = CsumInet \<and> length (cs_Chunks info) \<le> 5
     \<and> (\<forall>ck \<in> set (cs_Chunks info). chunk_ok V (snd st) ck))"

lemma csums_ok_set:
  assumes "csums_ok h V (m, u)" "set (go_keys u) \<subseteq> set (go_keys u')" "arg \<in> V" "\<exists>i k b pr. arg_Type h arg = CsumType i k b pr"
    and "cs_Kind info = CsumInet" "length (cs_Chunks info) \<le> 5" "\<forall>ck \<in> set (cs_Chunks info). chunk_ok V u' ck"
  shows "csums_ok h V (go_set (arg_ptr arg) (arg, info) m, u')"
proof -
  have "chunk_ok V u ck \<Longrightarrow> chunk_ok V u' ck" for ck using assms(2) by (auto simp: chunk_ok_def)
  then show ?thesis using assms(1,3-) go_range_set [of "arg_ptr arg" "(arg, info)" m] unfolding csums_ok_def by (fastforce simp: subset_iff)
qed

lemma walk_fields:
  "foreachArgImpl h ctx a = Inr vs \<Longrightarrow> (GroupArg p t inner, c) \<in> set vs \<Longrightarrow> f \<in> set inner \<Longrightarrow> f \<in> fst ` set vs"
  "foreach_inner h ctx as = Inr (vs, sz) \<Longrightarrow> set as \<subseteq> fst ` set vs \<and> ((GroupArg p t inner, c) \<in> set vs \<longrightarrow> f \<in> set inner \<longrightarrow> f \<in> fst ` set vs)"
proof (induction h ctx a and h ctx "as" arbitrary: vs and vs sz rule: foreachArgImpl_foreach_inner.induct)
  case (1 h ctx p' t' inner')
  then obtain vs1 sz where v: "foreach_inner h (if (case t' of StructType k f c a \<Rightarrow> True | _ \<Rightarrow> False) then ctx\<lparr>ctx_Parent := Some inner'\<rparr> else ctx) inner' = Inr (vs1, sz)"
    "vs = (GroupArg p' t' inner', ctx) # vs1" by (auto simp: res_conv split: if_splits)
  show ?case using 1(1) [OF v(1)] 1(3,4) v(2) by auto
next
  case (9 h ctx a as)
  from 9(3) obtain vs1 x vs2 sz2 where v: "foreachArgImpl h ctx a = Inr vs1" "(if ty_BitfieldMiddle (arg_Type h a) then Inr 0 else arg_Size h a) = Inr x"
    "foreach_inner h (ctx\<lparr>ctx_Offset := ctx_Offset ctx + x\<rparr>) as = Inr (vs2, sz2)" "vs = vs1 @ vs2"
    unfolding foreach_inner.simps res_conv by auto
  have "a \<in> fst ` set vs1" using v(1) by (cases "(h, ctx, a)" rule: foreachArgImpl.cases) (auto simp: res_conv split: if_splits)
  then show ?case using 9(1) [OF v(1)] 9(2) [OF v(1,2,3)] by (auto simp: v(4))
qed (auto simp: res_conv)

lemma walk_call_fields:
  assumes "ForeachArg h c = Inr vs" "(GroupArg p t inner, ctx) \<in> set vs" "f \<in> set inner"
  shows "f \<in> fst ` set vs"
proof -
  from ForeachArg_concat [OF assms(1)] obtain vss where v: "list_all2 (\<lambda>a vs. foreachArgImpl h (ctx0\<lparr>ctx_Parent := Some (c_Args c)\<rparr>) a = Inr vs) (c_Args c) vss"
    "vs = (case c_Ret c of None \<Rightarrow> [] | Some r \<Rightarrow> [(ResultArg r, ctx0)]) @ concat vss" by blast
  from assms(2) v(2) obtain va where va: "va \<in> set vss" "(GroupArg p t inner, ctx) \<in> set va" by (auto split: option.splits)
  then obtain a where "foreachArgImpl h (ctx0\<lparr>ctx_Parent := Some (c_Args c)\<rparr>) a = Inr va" using v(1) by (auto simp: list_all2_conv_all_nth in_set_conv_nth)
  from walk_fields(1) [OF this va(2) assms(3)] va(1) v(2) show ?thesis by (auto intro: rev_image_eqI)
qed

lemma note_parents_range:
  assumes "rfold (note_parents h) vs m = Inr m'" "snd ` set (go_range m) \<subseteq> V" "fst ` set vs \<subseteq> V"
  shows "snd ` set (go_range m') \<subseteq> V"
proof (rule rfold_inv [OF assms(1), where I = "\<lambda>m. snd ` set (go_range m) \<subseteq> V", OF assms(2)])
  fix v s s' assume s: "v \<in> set vs" "snd ` set (go_range s) \<subseteq> V" "note_parents h v s = Inr s'"
  have v: "fst v \<in> V" using s(1) assms(3) by auto
  show "snd ` set (go_range s') \<subseteq> V"
  proof (cases "\<exists>inner. rfold (note_parent h (fst v)) inner s = Inr s'")
    case True
    then obtain inner where i: "rfold (note_parent h (fst v)) inner s = Inr s'" by blast
    show ?thesis
    proof (rule rfold_inv [OF i, where I = "\<lambda>m. snd ` set (go_range m) \<subseteq> V", OF s(2)])
      fix f n n' assume "snd ` set (go_range n) \<subseteq> V" "note_parent h (fst v) f n = Inr n'"
      then obtain k where "n' = go_set k (fst v) n" "snd ` set (go_range n) \<subseteq> V" by (auto simp: note_parent_def res_conv)
      then show "snd ` set (go_range n') \<subseteq> V" using go_range_set [of k "fst v" n] v by force
    qed
  next
    case False
    then have "s' = s" using s(3) by (auto simp: note_parents_def split: Type.splits Arg.splits)
    then show ?thesis using s(2) by simp
  qed
qed

lemma find_parent_range: "find_parent h m buf n q = Inr a \<Longrightarrow> snd ` set (go_range m) \<subseteq> V \<Longrightarrow> a \<in> V"
proof (induction h m buf n q rule: find_parent.induct)
  case (1 h m buf n q)
  then obtain pa where pa: "go_get m (Some q) = Some pa" by (auto split: option.splits)
  then have "pa \<in> V" using 1(3) by (force simp: go_get_def dest: map_of_SomeD)
  then show ?case using 1 pa by (auto split: if_splits)
qed simp

lemma findCsummedArg_range: "findCsummedArg h m buf arg = Inr a \<Longrightarrow> snd ` set (go_range m) \<subseteq> V \<Longrightarrow> a \<in> V"
  using find_parent_range [of h m buf _ _ a V]
  by (force simp: findCsummedArg_def go_get_def split: if_splits option.splits dest: map_of_SomeD)

lemma note_header_range:
  assumes "ForeachArg h c = Inr vs" "rfold (note_header h) vs None = Inr (Some (src, dst))"
  shows "src \<in> fst ` set vs \<and> dst \<in> fst ` set vs"
proof -
  have "\<forall>s d. Some (src, dst) = Some (s, d) \<longrightarrow> s \<in> fst ` set vs \<and> d \<in> fst ` set vs"
  proof (rule rfold_inv [OF assms(2), where I = "\<lambda>ip. \<forall>s d. ip = Some (s, d) \<longrightarrow> s \<in> fst ` set vs \<and> d \<in> fst ` set vs"])
    fix v ip ip' assume v: "v \<in> set vs" "\<forall>s d. ip = Some (s, d) \<longrightarrow> s \<in> fst ` set vs \<and> d \<in> fst ` set vs" "note_header h v ip = Inr ip'"
    have g: "f \<in> set inner" if "getFieldByName h inner n = Inr f" for inner n f
      using that by (auto simp: getFieldByName_def find_Some_iff split: option.splits)
    show "\<forall>s d. ip' = Some (s, d) \<longrightarrow> s \<in> fst ` set vs \<and> d \<in> fst ` set vs"
    proof (cases "fst v")
      case (GroupArg p t inner)
      then have gi: "(GroupArg p t inner, snd v) \<in> set vs" using v(1) by (metis prod.collapse)
      have "ip' = ip \<or> (\<exists>s d n. ip' = Some (s, d) \<and> extractHeaderParams h inner n = Inr (s, d))"
        using v(3) by (auto simp: note_header_def GroupArg res_conv split: if_splits)
      then show ?thesis using v(2) g walk_call_fields [OF assms(1) gi]
        by (auto simp: extractHeaderParams_def res_conv split: if_splits)
    qed (use v(2,3) in \<open>auto simp: note_header_def\<close>)
  qed simp
  then show ?thesis by simp
qed

lemma csum_fields_type: "a \<in> set (csum_fields h k vs) \<Longrightarrow> a \<in> fst ` set vs \<and> (\<exists>i b pr. arg_Type h a = CsumType i k b pr)"
  by (auto simp: csum_fields_def is_csum_def split: Type.splits)

lemma inet_csum_ok:
  assumes "csums_ok h V st" "inet_csum h ps arg st = Inr st'" "arg \<in> V" "arg_Type h arg = CsumType i k b pr" "snd ` set (go_range ps) \<subseteq> V"
  shows "csums_ok h V st'"
proof -
  from assms(2) obtain a where a: "findCsummedArg h ps (csum_buf (arg_Type h arg)) arg = Inr a"
    "st' = (go_set (arg_ptr arg) (arg, \<lparr>cs_Kind = CsumInet, cs_Chunks = [chunk_arg a]\<rparr>) (fst st), go_set (arg_ptr a) () (snd st))"
    by (auto simp: inet_csum_def res_conv)
  have "a \<in> V" by (rule findCsummedArg_range [OF a(1) assms(5)])
  then show ?thesis unfolding a(2) using assms(1,3,4) by (intro csums_ok_set [of h V "fst st" "snd st"]) (auto simp: chunk_ok_def chunk_arg_def)
qed

lemma pseudo_csum_ok:
  assumes "csums_ok h V st" "pseudo_csum h ps src dst arg st = Inr st'" "arg \<in> V" "arg_Type h arg = CsumType i k b pr" "snd ` set (go_range ps) \<subseteq> V"
    and "src \<in> V" "dst \<in> V"
  shows "csums_ok h V st'"
proof -
  from assms(2) obtain a info and sz :: uint64 where a: "findCsummedArg h ps (csum_buf (arg_Type h arg)) arg = Inr a"
    "(if sz = 4 then composePseudoCsumIPv4 else composePseudoCsumIPv6) h a src dst (csum_protocol (arg_Type h arg)) = Inr info"
    "st' = (go_set (arg_ptr arg) (arg, info) (fst st), go_set (arg_ptr dst) () (go_set (arg_ptr src) () (go_set (arg_ptr a) () (snd st))))"
    by (auto simp: pseudo_csum_def res_conv)
  have "a \<in> V" by (rule findCsummedArg_range [OF a(1) assms(5)])
  then show ?thesis unfolding a(3) using assms(1,3,4,6,7) a(2)
    by (intro csums_ok_set [of h V "fst st" "snd st"])
      (auto simp: chunk_ok_def chunk_arg_def chunk_const_def composePseudoCsumIPv4_def composePseudoCsumIPv6_def res_conv split: if_splits)
qed

lemma calcChecksumsCall_ok:
  assumes vs: "ForeachArg h c = Inr vs" and "calcChecksumsCall h c = Inr st"
  shows "csums_ok h (fst ` set vs) st"
proof (cases "csum_fields h CsumInet vs = [] \<and> csum_fields h CsumPseudo vs = []")
  case True
  then show ?thesis using assms by (auto simp: calcChecksumsCall_def csums_ok_def)
next
  case False
  let ?V = "fst ` set vs"
  from assms False obtain ps st1 where p: "rfold (note_parents h) vs (Some []) = Inr ps"
    "rfold (inet_csum h ps) (csum_fields h CsumInet vs) (Some [], Some []) = Inr st1"
    "(if csum_fields h CsumPseudo vs = [] then Inr st1
      else rbind (rfold (note_header h) vs None) (\<lambda>ip. case ip of None \<Rightarrow> Inl (Panic ''no ipv4 nor ipv6 header found'')
        | Some (srcAddr, dstAddr) \<Rightarrow> rfold (pseudo_csum h ps srcAddr dstAddr) (csum_fields h CsumPseudo vs) st1)) = Inr st"
    unfolding calcChecksumsCall_def Let_def vs by (simp only: rbind_simps if_False res_conv) blast
  have r: "snd ` set (go_range ps) \<subseteq> ?V" by (rule note_parents_range [OF p(1)]) auto
  have st1: "csums_ok h ?V st1"
    by (rule rfold_inv [OF p(2), where I = "csums_ok h ?V"]) (auto simp: csums_ok_def [of _ _ "(Some [], Some [])"] intro: inet_csum_ok [OF _ _ _ _ r] dest!: csum_fields_type)
  show ?thesis
  proof (cases "csum_fields h CsumPseudo vs = []")
    case True
    then show ?thesis using p(3) st1 by simp
  next
    case False
    from p(3) False obtain src dst where s: "rfold (note_header h) vs None = Inr (Some (src, dst))"
      "rfold (pseudo_csum h ps src dst) (csum_fields h CsumPseudo vs) st1 = Inr st" by (auto simp: res_conv split: option.splits)
    note sd = note_header_range [OF vs s(1)]
    show ?thesis by (rule rfold_inv [OF s(2), where I = "csums_ok h ?V", OF st1]) (use sd in \<open>auto intro: pseudo_csum_ok [OF _ _ _ _ r] dest!: csum_fields_type\<close>)
  qed
qed

text \<open>The addresses the encoder knows are those of the walk.\<close>

definition addrs_known :: "Target \<Rightarrow> (Arg \<times> ArgCtx) list \<Rightarrow> execContext \<Rightarrow> bool" where
  "addrs_known tgt vs w \<longleftrightarrow> (\<forall>q \<in> set (go_keys (w_csumMap w)) \<union> set (go_keys (w_csumUses w)).
     q \<in> set (map (arg_ptr \<circ> fst) vs) \<longrightarrow> ai_Addr (w_info w q) = addr_in tgt vs q)"

lemma write_chunks_emits:
  assumes "rmapm (chunk_of h (addr_in tgt vs)) cks = Inr cs" "addrs_known tgt vs w" "\<forall>ck \<in> set cks. chunk_ok (fst ` set vs) (w_csumUses w) ck"
  shows "\<exists>w'. rfold (write_chunk h) cks w = Inr w' \<and> emits (concat (map chunk_words cs)) w w' \<and> w_rest w' = w_rest w \<and> length cs = length cks"
  using assms
proof (induction cks arbitrary: w cs)
  case Nil
  then show ?case by (auto simp: emits_refl)
next
  case (Cons ck cks)
  from Cons.prems(1) obtain k cs' where c: "chunk_of h (addr_in tgt vs) ck = Inr k" "rmapm (chunk_of h (addr_in tgt vs)) cks = Inr cs'" "cs = k # cs'"
    by (auto simp: res_conv)
  have "\<exists>w1. write_chunk h ck w = Inr w1 \<and> emits (chunk_words k) w w1 \<and> w_rest w1 = w_rest w"
  proof (cases "cc_Kind ck")
    case CsumChunkArg
    then obtain a where a: "cc_Arg ck = Some a" "a \<in> fst ` set vs" "arg_ptr a \<in> set (go_keys (w_csumUses w))" using Cons.prems(3) by (auto simp: chunk_ok_def)
    then have "ai_Addr (w_info w (arg_ptr a)) = addr_in tgt vs (arg_ptr a)" using Cons.prems(2) by (auto simp: addrs_known_def)
    moreover obtain sz where "arg_Size h a = Inr sz" "k = \<lparr>eck_Kind = ExecArgCsumChunkData, eck_Value = addr_in tgt vs (arg_ptr a), eck_Size = sz\<rparr>"
      using c(1) CsumChunkArg a(1) by (auto simp: chunk_of_def res_conv)
    ultimately show ?thesis using CsumChunkArg a(1) w_writes_emits [of "[ExecArgCsumChunkData, addr_in tgt vs (arg_ptr a), sz]" w]
      by (simp add: write_chunk_def chunk_words_def)
  next
    case CsumChunkConst
    then show ?thesis using c(1) w_writes_emits [of "[ExecArgCsumChunkConst, cc_Value ck, cc_Size ck]" w]
      by (auto simp: chunk_of_def write_chunk_def chunk_words_def)
  qed
  then obtain w1 where w1: "write_chunk h ck w = Inr w1" "emits (chunk_words k) w w1" "w_rest w1 = w_rest w" by blast
  have "addrs_known tgt vs w1" "w_csumUses w1 = w_csumUses w" using Cons.prems(2) w_restD [OF w1(3)] by (simp_all add: addrs_known_def w_info_def)
  from Cons.IH [OF c(2) this(1)] this(2) Cons.prems(3) obtain w2 where w2: "rfold (write_chunk h) cks w1 = Inr w2"
    "emits (concat (map chunk_words cs')) w1 w2" "w_rest w2 = w_rest w1" "length cs' = length cks" by auto
  then show ?case using w1 emits_trans [OF w1(2) w2(2)] by (simp add: c(3))
qed

lemma write_csums_emits:
  assumes "rmapm (csum_of h (addr_in tgt vs)) ais = Inr css" "addrs_known tgt vs w" "csums_ok h (fst ` set vs) (w_csumMap w, w_csumUses w)"
    and "set ais \<subseteq> snd ` set (go_range (w_csumMap w))"
  shows "\<exists>w'. rfold (write_csum h) ais w = Inr w' \<and> emits (concat (map copyin_chunks css)) w w' \<and> w_rest w' = w_rest w"
  using assms
proof (induction ais arbitrary: w css)
  case Nil
  then show ?case by (auto simp: emits_refl)
next
  case (Cons ai ais)
  obtain arg info where ai: "ai = (arg, info)" by (cases ai)
  from Cons.prems(1) obtain sz cs css' where c: "arg_Size h arg = Inr sz" "rmapm (chunk_of h (addr_in tgt vs)) (cs_Chunks info) = Inr cs"
    "rmapm (csum_of h (addr_in tgt vs)) ais = Inr css'" "css = \<lparr>ein_Addr = addr_in tgt vs (arg_ptr arg), ein_Arg = ExecArgCsum sz ExecArgCsumInet cs\<rparr> # css'"
    by (auto simp: ai csum_of_def [of _ _ "(arg, info)"] res_conv)
  from Cons.prems(4) obtain q where q: "(q, arg, info) \<in> set (go_range (w_csumMap w))" by (auto simp: ai)
  with Cons.prems(3) obtain i k b pr where o: "q = arg_ptr arg" "arg \<in> fst ` set vs" "arg_Type h arg = CsumType i k b pr" "cs_Kind info = CsumInet"
    "\<forall>ck \<in> set (cs_Chunks info). chunk_ok (fst ` set vs) (w_csumUses w) ck" unfolding csums_ok_def by fastforce
  have ad: "ai_Addr (w_info w (arg_ptr arg)) = addr_in tgt vs (arg_ptr arg)"
    using Cons.prems(2) go_range_key [OF q] o(1,2) by (auto simp: addrs_known_def)
  let ?ws = "[execInstrCopyin, addr_in tgt vs (arg_ptr arg), execArgCsum, sz] @ [ExecArgCsumInet, of_nat (length (cs_Chunks info))]"
  let ?w1 = "w_writes ?ws w"
  note e1 = w_writes_emits [of ?ws w]
  have "addrs_known tgt vs ?w1" "w_csumUses ?w1 = w_csumUses w" "w_csumMap ?w1 = w_csumMap w"
    using Cons.prems(2) w_restD [OF e1(2)] by (simp_all add: addrs_known_def w_info_def)
  from write_chunks_emits [OF c(2) this(1)] this(2) o(5) obtain w2 where w2: "rfold (write_chunk h) (cs_Chunks info) ?w1 = Inr w2"
    "emits (concat (map chunk_words cs)) ?w1 w2" "w_rest w2 = w_rest ?w1" "length cs = length (cs_Chunks info)" by auto
  have w: "write_csum h ai w = Inr w2" using w2(1) o(3,4) c(1) by (simp add: ai write_csum_def ad w_writes_def)
  have r: "w_rest w2 = w_rest w" using w2(3) e1(2) by simp
  have "addrs_known tgt vs w2" "csums_ok h (fst ` set vs) (w_csumMap w2, w_csumUses w2)" "w_csumMap w2 = w_csumMap w"
    using Cons.prems(2,3) w_restD [OF r] by (simp_all add: addrs_known_def w_info_def)
  moreover from this(3) Cons.prems(4) have "set ais \<subseteq> snd ` set (go_range (w_csumMap w2))" by simp
  ultimately obtain w3 where w3: "rfold (write_csum h) ais w2 = Inr w3" "emits (concat (map copyin_chunks css')) w2 w3" "w_rest w3 = w_rest w2"
    using Cons.IH [OF c(3), of w2] by blast
  have "emits ((map Word ?ws @ concat (map chunk_words cs)) @ concat (map copyin_chunks css')) w w3" by (rule emits_trans [OF emits_trans [OF e1(1) w2(2)] w3(2)])
  then show ?case using w w3(1,3) r by (simp add: c(4) copyin_chunks_def [of "\<lparr>ein_Addr = x, ein_Arg = y\<rparr>" for x y] w2(4))
qed

section \<open>Calls\<close>

fun numbered :: "(ptr \<Rightarrow> uint64) \<Rightarrow> uint64 \<Rightarrow> ptr list \<Rightarrow> bool" where
  "numbered idx n [] \<longleftrightarrow> True"
| "numbered idx n (r # rs) \<longleftrightarrow> idx r = n \<and> numbered idx (n + 1) rs"

lemma numbered_append: "numbered idx n (rs @ ss) \<longleftrightarrow> numbered idx n rs \<and> numbered idx (n + of_nat (length rs)) ss"
  by (induction rs arbitrary: n) (auto simp: algebra_simps)

lemma writeArgs_emits:
  assumes "rmapm (exec_arg tgt h idx) as = Inr es" "knows h idx (w_args w) (set (concat (map own_results as)))"
  shows "\<exists>w'. rfold (writeArg tgt h) as w = Inr w' \<and> emits (concat (map arg_chunks es)) w w' \<and> w_rest w' = w_rest w \<and> length es = length as"
  using assms
proof (induction "as" arbitrary: w es)
  case Nil
  then show ?case by (auto simp: emits_refl)
next
  case (Cons a as)
  from Cons.prems(1) obtain e es' where e: "exec_arg tgt h idx a = Inr e" "rmapm (exec_arg tgt h idx) as = Inr es'" "es = e # es'" by (auto simp: res_conv)
  have "knows h idx (w_args w) (set (own_results a))" by (rule knows_mono [OF Cons.prems(2)]) auto
  from writeArg_emits [OF e(1) this] obtain w1 where w1: "writeArg tgt h a w = Inr w1" "emits (arg_chunks e) w w1" "w_rest w1 = w_rest w" by blast
  have "knows h idx (w_args w1) (set (concat (map own_results as)))" using knows_mono [OF Cons.prems(2)] w_restD [OF w1(3)] by simp
  from Cons.IH [OF e(2) this] obtain w2 where "rfold (writeArg tgt h) as w1 = Inr w2" "emits (concat (map arg_chunks es')) w1 w2" "w_rest w2 = w_rest w1" "length es' = length as"
    by blast
  then show ?case using w1 emits_trans [OF w1(2)] by (auto simp: e(3))
qed

text \<open>Copying out, on the results of the call.\<close>

lemma copyout_visits: "rfold (copyout_visit h) vs w = rfold (\<lambda>p. copyout_visit h (ResultArg p, ctx0)) (concat (map (result_of \<circ> fst) vs)) w"
proof (induction vs arbitrary: w)
  case (Cons v vs)
  then show ?case by (cases "fst v") (auto simp: copyout_visit_def result_of_def intro!: rbind_cong)
qed simp

lemma copyouts_emits:
  assumes "rmapm (copyout_of h idx addr) (filter (is_used h) rs) = Inr cos" "distinct rs" "numbered idx (w_copyoutSeq w) (filter (is_used h) rs)"
    and "\<forall>r \<in> set rs. is_used h r \<longrightarrow> \<not> ai_Ret (w_info w r) \<and> ai_Addr (w_info w r) = addr r"
  shows "\<exists>w'. rfold (\<lambda>p. copyout_visit h (ResultArg p, ctx0)) rs w = Inr w' \<and> emits (concat (map copyout_chunks cos)) w w'
    \<and> w_copyoutSeq w' = w_copyoutSeq w + of_nat (length (filter (is_used h) rs))
    \<and> (\<forall>q. if q \<in> set rs \<and> is_used h q then \<exists>i. go_get (w_args w') q = Some i \<and> ai_Idx i = idx q else go_get (w_args w') q = go_get (w_args w) q)"
  using assms
proof (induction rs arbitrary: w cos)
  case Nil
  then show ?case by (auto simp: emits_refl)
next
  case (Cons r rs)
  show ?case
  proof (cases "is_used h r")
    case False
    then have "copyout_visit h (ResultArg r, ctx0) w = Inr w" by (simp add: copyout_visit_def)
    then show ?thesis using Cons.IH [of cos w] Cons.prems False by auto
  next
    case True
    from Cons.prems(1) True obtain sz cos' where c: "ty_Size (ra_typ (h_obj h r)) = Inr sz" "rmapm (copyout_of h idx addr) (filter (is_used h) rs) = Inr cos'"
      "cos = \<lparr>eout_Index = idx r, eout_Addr = addr r, eout_Size = sz\<rparr> # cos'" by (auto simp: copyout_of_def [of _ _ _ r] res_conv)
    have r: "\<not> ai_Ret (w_info w r)" "ai_Addr (w_info w r) = addr r" "idx r = w_copyoutSeq w" using Cons.prems(3,4) True by auto
    let ?w0 = "w\<lparr>w_copyoutSeq := w_copyoutSeq w + 1, w_args := go_set r ((w_info w r)\<lparr>ai_Idx := w_copyoutSeq w\<rparr>) (w_args w)\<rparr>"
    define w1 where "w1 = w_writes [execInstrCopyout, w_copyoutSeq w, addr r, sz] ?w0"
    have w: "copyout_visit h (ResultArg r, ctx0) w = Inr w1" using True r c(1) by (simp add: copyout_visit_def Let_def w1_def)
    note e = w_writes_emits [of "[execInstrCopyout, w_copyoutSeq w, addr r, sz]" ?w0]
    have e1: "emits (copyout_chunks (hd cos)) w w1" using e(1) emits_cong [of ?w0 w] by (simp add: c(3) copyout_chunks_def w1_def r(3))
    have rest: "w_args w1 = w_args ?w0" "w_copyoutSeq w1 = w_copyoutSeq w + 1" using w_restD [OF e(2)] by (simp_all add: w1_def)
    have o: "go_get (w_args w1) q = go_get (w_args w) q" if "q \<noteq> r" for q using that rest(1) by simp
    have "\<forall>q \<in> set rs. is_used h q \<longrightarrow> \<not> ai_Ret (w_info w1 q) \<and> ai_Addr (w_info w1 q) = addr q"
    proof
      fix q assume "q \<in> set rs"
      then have q: "q \<noteq> r" "q \<in> set (r # rs)" using Cons.prems(2) by auto
      then have "w_info w1 q = w_info w q" "q \<in> set (r # rs)" using o [of q] by (simp_all add: w_info_def)
      then show "is_used h q \<longrightarrow> \<not> ai_Ret (w_info w1 q) \<and> ai_Addr (w_info w1 q) = addr q" using Cons.prems(4) by metis
    qed
    with Cons.IH [OF c(2), of w1] Cons.prems(2,3) True rest(2) obtain w2 where w2: "rfold (\<lambda>p. copyout_visit h (ResultArg p, ctx0)) rs w1 = Inr w2"
      "emits (concat (map copyout_chunks cos')) w1 w2" "w_copyoutSeq w2 = w_copyoutSeq w1 + of_nat (length (filter (is_used h) rs))"
      "\<forall>q. if q \<in> set rs \<and> is_used h q then \<exists>i. go_get (w_args w2) q = Some i \<and> ai_Idx i = idx q else go_get (w_args w2) q = go_get (w_args w1) q"
      by auto
    have "\<exists>i. go_get (w_args w2) r = Some i \<and> ai_Idx i = idx r" using w2(4) [rule_format, of r] Cons.prems(2) rest(1) r(3) by (simp split: if_splits)
    moreover have "if q \<in> set rs \<and> is_used h q then \<exists>i. go_get (w_args w2) q = Some i \<and> ai_Idx i = idx q else go_get (w_args w2) q = go_get (w_args w) q" if "q \<noteq> r" for q
      using w2(4) [rule_format, of q] o [OF that] by (simp split: if_splits)
    ultimately have "if q \<in> set (r # rs) \<and> is_used h q then \<exists>i. go_get (w_args w2) q = Some i \<and> ai_Idx i = idx q else go_get (w_args w2) q = go_get (w_args w) q" for q
      using True by (cases "q = r") simp_all
    then have "\<forall>q. if q \<in> set (r # rs) \<and> is_used h q then \<exists>i. go_get (w_args w2) q = Some i \<and> ai_Idx i = idx q else go_get (w_args w2) q = go_get (w_args w) q" by blast
    moreover have "emits (concat (map copyout_chunks cos)) w w2" using emits_trans [OF e1 w2(2)] by (simp add: c(3))
    ultimately show ?thesis using w w2(1,3) rest(2) True by (intro exI [of _ w2]) (simp add: algebra_simps)
  qed
qed

lemma write_index_emits:
  assumes "\<forall>r. c_Ret c = Some r \<longrightarrow> go_get (w_args w) r = None" "\<forall>r. c_Ret c = Some r \<longrightarrow> is_used h r \<longrightarrow> idx r = w_copyoutSeq w"
  shows "\<exists>w'. write_index h c w = Inr w' \<and> emits [Word (ret_index h idx c)] w w'
    \<and> w_copyoutSeq w' = w_copyoutSeq w + (case c_Ret c of Some r \<Rightarrow> if is_used h r then 1 else 0 | None \<Rightarrow> 0)
    \<and> (\<forall>q. go_get (w_args w') q = (if c_Ret c = Some q \<and> is_used h q then Some \<lparr>ai_Addr = 0, ai_Idx = idx q, ai_Ret = True\<rparr> else go_get (w_args w) q))"
proof (cases "\<exists>r. c_Ret c = Some r \<and> is_used h r")
  case True
  then obtain r where r: "c_Ret c = Some r" "is_used h r" by blast
  then have n: "r \<notin> set (go_keys (w_args w))" "idx r = w_copyoutSeq w" using assms by (auto simp: go_key_iff)
  let ?w0 = "w\<lparr>w_args := go_set r \<lparr>ai_Addr = 0, ai_Idx = w_copyoutSeq w, ai_Ret = True\<rparr> (w_args w)\<rparr>"
  define w1 where "w1 = w_write (w_copyoutSeq w) ?w0"
  have "emits [Word (w_copyoutSeq w)] ?w0 w1" "w_rest w1 = w_rest ?w0" unfolding w1_def by (rule w_write_emits)+
  then have "emits [Word (w_copyoutSeq w)] w (w1\<lparr>w_copyoutSeq := w_copyoutSeq w + 1\<rparr>)" "w_args w1 = w_args ?w0" by (simp_all add: emits_def w_rest_def)
  then show ?thesis using r n by (auto simp: write_index_def ret_index_def w1_def [symmetric])
next
  case False
  then have "write_index h c w = Inr (w_write ExecNoCopyout w)" "ret_index h idx c = ExecNoCopyout"
    by (auto simp: write_index_def ret_index_def split: option.splits)
  then show ?thesis using w_write_emits [of ExecNoCopyout w] False by (auto simp: w_rest_def split: option.splits)
qed

text \<open>
  The state between calls: results that were used in the calls so far have their indices, and nothing is
  recorded about the calls to come.
\<close>

definition between :: "arg_heap \<Rightarrow> (ptr \<Rightarrow> uint64) \<Rightarrow> ptr set \<Rightarrow> ptr list \<Rightarrow> execContext \<Rightarrow> bool" where
  "between h idx P R w \<longleftrightarrow> (\<forall>r \<in> set R. is_used h r \<longrightarrow> (\<exists>i. go_get (w_args w) r = Some i \<and> ai_Idx i = idx r))
     \<and> (\<forall>q. q \<notin> P \<longrightarrow> go_get (w_args w) q = None) \<and> w_copyoutSeq w = of_nat (length (filter (is_used h) R))"

lemma find_visit:
  assumes "q \<in> set (map (arg_ptr \<circ> fst) vs)"
  shows "\<exists>arg ctx. find (\<lambda>v. arg_ptr (fst v) = q) vs = Some (arg, ctx) \<and> (arg, ctx) \<in> set vs \<and> arg_ptr arg = q"
proof -
  have "find (\<lambda>v. arg_ptr (fst v) = q) vs \<noteq> None" using assms by (auto simp: find_None_iff)
  then obtain v where v: "find (\<lambda>v. arg_ptr (fst v) = q) vs = Some v" by blast
  then have "v \<in> set vs" "arg_ptr (fst v) = q" by (auto simp: find_Some_iff)
  moreover obtain arg ctx where "v = (arg, ctx)" by (cases v)
  ultimately show ?thesis using v by (intro exI [of _ arg] exI [of _ ctx]) simp
qed

lemma recorded_info:
  assumes "q \<in> set (map (arg_ptr \<circ> fst) vs)" "go_get (w_args w) q = None"
    and "\<And>arg ctx. (arg, ctx) \<in> set vs \<Longrightarrow> arg_ptr arg = q \<Longrightarrow> willBeUsed h w arg"
    and "\<And>arg ctx. (arg, ctx) \<in> set vs \<Longrightarrow> \<exists>cis. copyin_of tgt h idx (arg, ctx) = Inr cis"
  shows "ai_Addr (case recorded tgt h w vs q of None \<Rightarrow> no_info | Some i \<Rightarrow> i) = addr_in tgt vs q
    \<and> \<not> ai_Ret (case recorded tgt h w vs q of None \<Rightarrow> no_info | Some i \<Rightarrow> i)"
proof -
  from find_visit [OF assms(1)] obtain arg ctx where f: "find (\<lambda>v. arg_ptr (fst v) = q) vs = Some (arg, ctx)" "(arg, ctx) \<in> set vs" "arg_ptr arg = q" by blast
  have u: "willBeUsed h w arg" by (rule assms(3) [OF f(2,3)])
  show ?thesis
  proof (cases "visit_addr tgt ctx")
    case None
    then show ?thesis by (simp add: recorded_def addr_in_def f(1) assms(2) no_info_def)
  next
    case (Some ra)
    obtain a where "ra = Inr a" using assms(4) [OF f(2)] Some by (auto simp: copyin_of_def res_conv)
    then show ?thesis using Some u by (simp add: recorded_def addr_in_def f(1))
  qed
qed

lemma rmapm_all: "rmapm f xs = Inr ys \<Longrightarrow> x \<in> set xs \<Longrightarrow> \<exists>y. f x = Inr y"
  by (induction xs arbitrary: ys) (auto simp: res_conv)

lemma visited_result:
  assumes "(arg, ctx) \<in> set vs" "arg_ptr arg \<in> set (concat (map (result_of \<circ> fst) vs))" "distinct (map (arg_ptr \<circ> fst) vs)"
  shows "arg = ResultArg (arg_ptr arg)"
proof -
  from assms(2) obtain v where v: "v \<in> set vs" "arg_ptr arg \<in> set (result_of (fst v))" by auto
  then have "fst v = ResultArg (arg_ptr arg)" by (cases "fst v") (auto simp: result_of_def)
  moreover have "v = (arg, ctx)" by (rule inj_onD [OF distinct_map [THEN iffD1, OF assms(3), THEN conjunct2]]) (use v assms(1) calculation in simp_all)
  ultimately show ?thesis by simp
qed

lemma insort_key_same: "\<forall>y \<in> insert x (set ys). f y = g y \<Longrightarrow> insort_key f x ys = insort_key g x ys"
  by (induction ys) auto

lemma sort_key_same: "\<forall>x \<in> set xs. f x = g x \<Longrightarrow> sort_key f xs = sort_key g xs"
  by (induction xs) (auto intro: insort_key_same)

text \<open>The walk knows the address of each argument that will be used.\<close>

lemma walked_info:
  assumes vs: "ForeachArg h c = Inr vs" and ci: "rmapm (copyin_of tgt h idx) vs = Inr cis" and q: "q \<in> set (call_ptrs c)" and new: "go_get (w_args w) q = None"
    and rec: "\<forall>q. go_get (w_args w1) q = recorded tgt h w vs q"
    and u: "\<And>arg ctx. (arg, ctx) \<in> set vs \<Longrightarrow> arg_ptr arg = q \<Longrightarrow> willBeUsed h w arg"
  shows "ai_Addr (w_info w1 q) = addr_in tgt vs q \<and> \<not> ai_Ret (w_info w1 q)"
  using recorded_info [of q vs w h tgt idx] q new u rmapm_all [OF ci] walk_call(1) [OF vs] rec by (simp add: w_info_def)

lemma fill_memory:
  assumes vs: "ForeachArg h c = Inr vs" and ci: "rmapm (copyin_of tgt h idx) vs = Inr cis"
    and m: "calcChecksumsCall h c = Inr (w_csumMap w, w_csumUses w)"
    and cs: "rmapm (csum_of h (addr_in tgt vs)) (rev (sort_key (\<lambda>(arg, info). addr_in tgt vs (arg_ptr arg)) (map snd (go_range (w_csumMap w))))) = Inr css"
    and dist: "distinct (call_ptrs c)" and know: "knows h idx (w_args w) (set (call_results c))"
    and new: "\<forall>q \<in> set (call_ptrs c). go_get (w_args w) q = None"
    and old: "\<forall>q \<in> set (call_results c). \<forall>r. ra_Res (h_obj h q) = Some r \<longrightarrow> r \<notin> set (call_ptrs c)"
  shows "\<exists>w1 w2. writeCopyin tgt h c w = Inr w1 \<and> writeChecksums h w1 = Inr w2 \<and> emits (concat (map copyin_chunks (concat cis @ css))) w w2
    \<and> w_copyoutSeq w2 = w_copyoutSeq w \<and> (\<forall>q. go_get (w_args w2) q = recorded tgt h w vs q)"
proof -
  note wc = walk_call [OF vs]
  from copyin_all [OF ci, of w] know dist old wc obtain w1 where w1: "rfold (copyin_visit tgt h) vs w = Inr w1"
    "emits (concat (map copyin_chunks (concat cis))) w w1" "w_copyoutSeq w1 = w_copyoutSeq w" "w_csumMap w1 = w_csumMap w" "w_csumUses w1 = w_csumUses w"
    "\<forall>q. go_get (w_args w1) q = recorded tgt h w vs q" by auto
  have ak: "addrs_known tgt vs w1" unfolding addrs_known_def w1(4,5)
    using walked_info [OF vs ci _ _ w1(6)] new wc(1) by (auto simp: willBeUsed_def)
  have ok: "csums_ok h (fst ` set vs) (w_csumMap w1, w_csumUses w1)" using calcChecksumsCall_ok [OF vs m] by (simp add: w1(4,5))
  have key: "ai_Addr (w_info w1 (arg_ptr arg)) = addr_in tgt vs (arg_ptr arg)" if ai: "(arg, info) \<in> set (map snd (go_range (w_csumMap w)))" for arg info
  proof -
    from ai obtain q where q: "(q, arg, info) \<in> set (go_range (w_csumMap w1))" by (auto simp: w1(4))
    have "q = arg_ptr arg \<and> arg \<in> fst ` set vs" using ok q unfolding csums_ok_def fst_conv snd_conv by blast
    then show ?thesis using ak go_range_key [OF q] by (auto simp: addrs_known_def)
  qed
  have srt: "sort_key (\<lambda>(arg, info). ai_Addr (w_info w1 (arg_ptr arg))) (map snd (go_range (w_csumMap w1)))
      = sort_key (\<lambda>(arg, info). addr_in tgt vs (arg_ptr arg)) (map snd (go_range (w_csumMap w)))"
    unfolding w1(4) by (rule sort_key_same) (use key in force)
  from write_csums_emits [OF cs ak ok] obtain w2 where w2: "writeChecksums h w1 = Inr w2" "emits (concat (map copyin_chunks css)) w1 w2" "w_rest w2 = w_rest w1"
    unfolding writeChecksums_def srt by (auto simp: w1(4))
  then show ?thesis using w1 vs emits_trans [OF w1(2) w2(2)] w_restD [OF w2(3)] by (simp add: writeCopyin_def)
qed

text \<open>The words of the call itself, before its results are copied out.\<close>

lemma write_head:
  assumes ar: "rmapm (exec_arg tgt h idx) (c_Args c) = Inr as"
    and ret: "\<forall>r. c_Ret c = Some r \<longrightarrow> go_get (w_args w) r = None" "\<forall>r. c_Ret c = Some r \<longrightarrow> is_used h r \<longrightarrow> idx r = w_copyoutSeq w"
    and know: "knows h idx (w_args w) (set (concat (map own_results (c_Args c))))"
    and old: "\<forall>q \<in> set (concat (map own_results (c_Args c))). \<forall>r. ra_Res (h_obj h q) = Some r \<longrightarrow> c_Ret c \<noteq> Some r"
    and ec: "ec_Meta ec = Some (c_Meta c)" "ec_Index ec = ret_index h idx c" "ec_Args ec = as"
  shows "\<exists>w1 w2. write_index h c (w_write (of_nat (sc_ID (c_Meta c))) w) = Inr w1
    \<and> rfold (writeArg tgt h) (c_Args c) (w_write (of_nat (length (c_Args c))) w1) = Inr w2 \<and> emits (head_chunks ec) w w2
    \<and> w_copyoutSeq w2 = w_copyoutSeq w + (case c_Ret c of Some r \<Rightarrow> if is_used h r then 1 else 0 | None \<Rightarrow> 0)
    \<and> (\<forall>q. go_get (w_args w2) q = (if c_Ret c = Some q \<and> is_used h q then Some \<lparr>ai_Addr = 0, ai_Idx = idx q, ai_Ret = True\<rparr> else go_get (w_args w) q))"
proof -
  let ?v = "of_nat (sc_ID (c_Meta c)) :: uint64" and ?n = "of_nat (length (c_Args c)) :: uint64"
  let ?w0 = "w_write ?v w"
  note e0 = w_write_emits [of ?v w] and r0 = w_restD [OF w_write_emits(2) [of ?v w]]
  from write_index_emits [of c ?w0 h idx] ret r0 obtain w1 where w1: "write_index h c ?w0 = Inr w1" "emits [Word (ret_index h idx c)] ?w0 w1"
    "w_copyoutSeq w1 = w_copyoutSeq w + (case c_Ret c of Some r \<Rightarrow> if is_used h r then 1 else 0 | None \<Rightarrow> 0)"
    "\<forall>q. go_get (w_args w1) q = (if c_Ret c = Some q \<and> is_used h q then Some \<lparr>ai_Addr = 0, ai_Idx = idx q, ai_Ret = True\<rparr> else go_get (w_args w) q)"
    by auto
  let ?w1 = "w_write ?n w1"
  note e1 = w_write_emits [of ?n w1] and r1 = w_restD [OF w_write_emits(2) [of ?n w1]]
  have "knows h idx (w_args ?w1) (set (concat (map own_results (c_Args c))))"
    by (rule knows_same [OF know]) (use old w1(4) r1 in auto)
  from writeArgs_emits [OF ar this] obtain w2 where w2: "rfold (writeArg tgt h) (c_Args c) ?w1 = Inr w2" "emits (concat (map arg_chunks as)) ?w1 w2"
    "w_rest w2 = w_rest ?w1" "length as = length (c_Args c)" by blast
  have "emits ([Word ?v] @ [Word (ret_index h idx c)] @ [Word ?n] @ concat (map arg_chunks as)) w w2"
    by (rule emits_trans [OF e0(1) emits_trans [OF w1(2) emits_trans [OF e1(1) w2(2)]]])
  then have "emits (head_chunks ec) w w2" by (simp add: head_chunks_def ec w2(4))
  then show ?thesis using w1 w2(1) w_restD [OF w2(3)] r1 by auto
qed

text \<open>The results of the call, after it.\<close>

lemma copy_results:
  fixes w2 w4 :: execContext
  assumes vs: "ForeachArg h c = Inr vs" and co: "rmapm (copyout_of h idx (addr_in tgt vs)) (filter (is_used h) (concat (map arg_results (c_Args c)))) = Inr cos"
    and ci: "rmapm (copyin_of tgt h idx) vs = Inr cis" and dist: "distinct (call_ptrs c)" "distinct (call_results c)"
    and new: "\<forall>q \<in> set (call_ptrs c). go_get (w_args w) q = None" and rec: "\<forall>q. go_get (w_args w2) q = recorded tgt h w vs q"
    and w4: "\<forall>q. go_get (w_args w4) q = (if c_Ret c = Some q \<and> is_used h q then Some \<lparr>ai_Addr = 0, ai_Idx = idx q, ai_Ret = True\<rparr> else go_get (w_args w2) q)"
    and seq: "w_copyoutSeq w4 = n + (case c_Ret c of Some r \<Rightarrow> if is_used h r then 1 else 0 | None \<Rightarrow> 0)"
    and num: "numbered idx n (filter (is_used h) (call_results c))"
  shows "\<exists>w'. writeCopyout h c w4 = Inr w' \<and> emits (concat (map copyout_chunks cos)) w4 w'
    \<and> w_copyoutSeq w' = n + of_nat (length (filter (is_used h) (call_results c)))
    \<and> (\<forall>q. if q \<in> set (call_results c) \<and> is_used h q then \<exists>i. go_get (w_args w') q = Some i \<and> ai_Idx i = idx q else go_get (w_args w') q = go_get (w_args w2) q)"
proof -
  let ?rs = "concat (map arg_results (c_Args c))"
  have rs: "call_results c = (case c_Ret c of None \<Rightarrow> [] | Some r \<Rightarrow> [r]) @ ?rs" by (simp add: call_results_def)
  have "copyout_visit h (ResultArg r, ctx0) w4 = Inr w4" if "c_Ret c = Some r" for r
    using w4 [rule_format, of r] that by (simp add: copyout_visit_def w_info_def)
  then have wo: "writeCopyout h c w4 = rfold (\<lambda>p. copyout_visit h (ResultArg p, ctx0)) ?rs w4"
    unfolding writeCopyout_def vs rbind_simps copyout_visits [of h vs] walk_call(2) [OF vs] rs by (cases "c_Ret c") (simp_all)
  have nr: "c_Ret c \<noteq> Some r" if "r \<in> set ?rs" for r using dist(2) that unfolding rs by (auto simp del: set_concat split: option.splits)
  have info: "\<forall>r \<in> set ?rs. is_used h r \<longrightarrow> \<not> ai_Ret (w_info w4 r) \<and> ai_Addr (w_info w4 r) = addr_in tgt vs r"
  proof (intro ballI impI)
    fix r assume r: "r \<in> set ?rs" "is_used h r"
    have R: "r \<in> set (call_results c)" unfolding rs using r(1) by simp
    have "willBeUsed h w arg" if "(arg, ctx) \<in> set vs" "arg_ptr arg = r" for arg ctx
      using visited_result [OF that(1)] that(2) R walk_call [OF vs] dist(1) r(2) by (auto simp: willBeUsed_def)
    moreover have "r \<in> set (call_ptrs c)" using R call_results_are_ptrs by blast
    ultimately have "ai_Addr (w_info w2 r) = addr_in tgt vs r \<and> \<not> ai_Ret (w_info w2 r)"
      using walked_info [OF vs ci _ _ rec, of r] new by simp
    moreover have "w_info w4 r = w_info w2 r" using w4 [rule_format, of r] nr [OF r(1)] by (simp add: w_info_def)
    ultimately show "\<not> ai_Ret (w_info w4 r) \<and> ai_Addr (w_info w4 r) = addr_in tgt vs r" by simp
  qed
  have "numbered idx (w_copyoutSeq w4) (filter (is_used h) ?rs)" using num unfolding rs seq by (auto split: option.splits if_splits)
  moreover have "distinct ?rs" using dist(2) unfolding rs by simp
  ultimately obtain w' where w': "rfold (\<lambda>p. copyout_visit h (ResultArg p, ctx0)) ?rs w4 = Inr w'" "emits (concat (map copyout_chunks cos)) w4 w'"
    "w_copyoutSeq w' = w_copyoutSeq w4 + of_nat (length (filter (is_used h) ?rs))"
    "\<forall>q. if q \<in> set ?rs \<and> is_used h q then \<exists>i. go_get (w_args w') q = Some i \<and> ai_Idx i = idx q else go_get (w_args w') q = go_get (w_args w4) q"
    using copyouts_emits [OF co _ _ info] by blast
  have "if q \<in> set (call_results c) \<and> is_used h q then \<exists>i. go_get (w_args w') q = Some i \<and> ai_Idx i = idx q else go_get (w_args w') q = go_get (w_args w2) q" for q
    using w'(4) [rule_format, of q] w4 [rule_format, of q] nr [of q] unfolding rs by (cases "c_Ret c") (auto simp del: set_concat split: if_splits)
  then show ?thesis using w'(1-3) wo seq by (auto simp: rs algebra_simps split: option.splits)
qed

lemma between_call:
  fixes w2 :: execContext
  assumes B: "between h idx P R w"
    and w': "\<forall>q. if q \<in> set (call_results c) \<and> is_used h q then \<exists>i. go_get (w_args w') q = Some i \<and> ai_Idx i = idx q else go_get (w_args w') q = go_get (w_args w2) q"
    and far: "\<And>r. r \<notin> set (call_ptrs c) \<Longrightarrow> go_get (w_args w2) r = go_get (w_args w) r"
    and seq: "w_copyoutSeq w' = w_copyoutSeq w + of_nat (length (filter (is_used h) (call_results c)))"
    and "set R \<subseteq> P" "set (call_ptrs c) \<inter> P = {}"
  shows "between h idx (P \<union> set (call_ptrs c)) (R @ call_results c) w'"
proof -
  have o: "go_get (w_args w') q = go_get (w_args w) q" if "q \<notin> set (call_ptrs c)" for q
    using w' [rule_format, of q] far [OF that] that call_results_are_ptrs by (auto split: if_splits)
  have "\<exists>i. go_get (w_args w') r = Some i \<and> ai_Idx i = idx r" if "r \<in> set (R @ call_results c)" "is_used h r" for r
  proof (cases "r \<in> set (call_results c)")
    case True
    then show ?thesis using w' [rule_format, of r] that(2) by simp
  next
    case False
    then have "r \<in> set R" using that(1) by simp
    moreover from this have "r \<notin> set (call_ptrs c)" using assms(5,6) by blast
    ultimately show ?thesis using o [of r] B that(2) by (simp add: between_def)
  qed
  moreover have "go_get (w_args w') q = None" if "q \<notin> P \<union> set (call_ptrs c)" for q using o [of q] B that by (simp add: between_def)
  ultimately show ?thesis using seq B by (simp add: between_def)
qed

lemma serializeCall_emits:
  assumes X: "exec_call tgt h idx c = Inr ec" and B: "between h idx P R w" and m: "calcChecksumsCall h c = Inr (w_csumMap w, w_csumUses w)"
    and dist: "distinct (call_ptrs c)" and disj: "set (call_ptrs c) \<inter> P = {}"
    and refs: "\<forall>q \<in> set (call_results c). \<forall>r. ra_Res (h_obj h q) = Some r \<longrightarrow> r \<in> set R \<and> is_used h r" and RP: "set R \<subseteq> P"
    and rdist: "distinct (call_results c)" and num: "numbered idx (w_copyoutSeq w) (filter (is_used h) (call_results c))"
  shows "\<exists>w'. serializeCall tgt h c w = Inr w' \<and> emits (call_chunks ec) w w' \<and> between h idx (P \<union> set (call_ptrs c)) (R @ call_results c) w'"
proof -
  from X m obtain vs cis css "as" cos where vs: "ForeachArg h c = Inr vs" and ci: "rmapm (copyin_of tgt h idx) vs = Inr cis"
    and cs: "rmapm (csum_of h (addr_in tgt vs)) (rev (sort_key (\<lambda>(arg, info). addr_in tgt vs (arg_ptr arg)) (map snd (go_range (w_csumMap w))))) = Inr css"
    and ar: "rmapm (exec_arg tgt h idx) (c_Args c) = Inr as"
    and co: "rmapm (copyout_of h idx (addr_in tgt vs)) (filter (is_used h) (concat (map arg_results (c_Args c)))) = Inr cos"
    and ec: "ec = \<lparr>ec_Meta = Some (c_Meta c), ec_Index = ret_index h idx c, ec_Args = as, ec_Copyin = concat cis @ css, ec_Copyout = cos\<rparr>"
    by (auto simp: exec_call_def res_conv)
  note wc = walk_call [OF vs]
  let ?rs = "concat (map arg_results (c_Args c))"
  have rs: "call_results c = (case c_Ret c of None \<Rightarrow> [] | Some r \<Rightarrow> [r]) @ ?rs" by (simp add: call_results_def)
  have know: "knows h idx (w_args w) (set (call_results c))" using refs B by (auto simp: knows_def between_def)
  have new: "\<forall>q \<in> set (call_ptrs c). go_get (w_args w) q = None" using B disj by (auto simp: between_def)
  have old: "\<forall>q \<in> set (call_results c). \<forall>r. ra_Res (h_obj h q) = Some r \<longrightarrow> r \<notin> set (call_ptrs c)" using refs RP disj by blast
  obtain w1 w2 where w2: "writeCopyin tgt h c w = Inr w1" "writeChecksums h w1 = Inr w2" "emits (concat (map copyin_chunks (concat cis @ css))) w w2"
    "w_copyoutSeq w2 = w_copyoutSeq w" "\<forall>q. go_get (w_args w2) q = recorded tgt h w vs q"
    using fill_memory [OF vs ci m cs dist know new old] by blast
  have ret: "\<forall>r. c_Ret c = Some r \<longrightarrow> go_get (w_args w2) r = None"
  proof (intro allI impI)
    fix r assume r: "c_Ret c = Some r"
    then have "r \<in> set (call_ptrs c)" by (simp add: call_ptrs_def)
    moreover from ForeachArg_concat [OF vs] r obtain vs' where "vs = (ResultArg r, ctx0) # vs'" by auto
    ultimately show "go_get (w_args w2) r = None" using w2(5) new by (simp add: recorded_def visit_addr_def ctx0_def)
  qed
  have far: "go_get (w_args w2) r = go_get (w_args w) r" if "r \<notin> set (call_ptrs c)" for r using w2(5) recorded_other [of r vs] wc(1) that by simp
  have sub: "set (concat (map own_results (c_Args c))) \<subseteq> set (call_results c)" using own_results_sub by (fastforce simp: call_results_def)
  have k2: "knows h idx (w_args w2) (set (concat (map own_results (c_Args c))))"
    by (rule knows_same [OF knows_mono [OF know sub]]) (use far old sub in blast)
  have "c_Ret c = Some r \<Longrightarrow> r \<in> set (call_ptrs c)" for r by (simp add: call_ptrs_def)
  then have rc: "\<forall>q \<in> set (concat (map own_results (c_Args c))). \<forall>r. ra_Res (h_obj h q) = Some r \<longrightarrow> c_Ret c \<noteq> Some r" using old sub by blast
  have n2: "\<forall>r. c_Ret c = Some r \<longrightarrow> is_used h r \<longrightarrow> idx r = w_copyoutSeq w2" using num by (auto simp: rs w2(4))
  obtain w3 w4 where w4: "write_index h c (w_write (of_nat (sc_ID (c_Meta c))) w2) = Inr w3"
    "rfold (writeArg tgt h) (c_Args c) (w_write (of_nat (length (c_Args c))) w3) = Inr w4" "emits (head_chunks ec) w2 w4"
    "w_copyoutSeq w4 = w_copyoutSeq w2 + (case c_Ret c of Some r \<Rightarrow> if is_used h r then 1 else 0 | None \<Rightarrow> 0)"
    "\<forall>q. go_get (w_args w4) q = (if c_Ret c = Some q \<and> is_used h q then Some \<lparr>ai_Addr = 0, ai_Idx = idx q, ai_Ret = True\<rparr> else go_get (w_args w2) q)"
    using write_head [OF ar ret n2 k2 rc, of ec] ec by auto
  obtain w' where w': "writeCopyout h c w4 = Inr w'" "emits (concat (map copyout_chunks cos)) w4 w'"
    "w_copyoutSeq w' = w_copyoutSeq w + of_nat (length (filter (is_used h) (call_results c)))"
    "\<forall>q. if q \<in> set (call_results c) \<and> is_used h q then \<exists>i. go_get (w_args w') q = Some i \<and> ai_Idx i = idx q else go_get (w_args w') q = go_get (w_args w2) q"
    using copy_results [OF vs co ci dist rdist new w2(5) w4(5) w4(4) [unfolded w2(4)] num] by blast
  have "emits (concat (map copyin_chunks (concat cis @ css)) @ head_chunks ec @ concat (map copyout_chunks cos)) w w'"
    by (rule emits_trans [OF w2(3) emits_trans [OF w4(3) w'(2)]])
  then have "emits (call_chunks ec) w w'" by (simp add: call_chunks_def ec)
  moreover have "between h idx (P \<union> set (call_ptrs c)) (R @ call_results c) w'"
    by (rule between_call [OF B w'(4) far w'(3) RP disj])
  ultimately show ?thesis using w2(1,2) w4(1,2) w'(1) by (simp add: serializeCall_def)
qed

section \<open>Programs\<close>

text \<open>References go to results of earlier calls that list a user.\<close>

definition refs_earlier :: "arg_heap \<Rightarrow> prog_call list \<Rightarrow> bool" where
  "refs_earlier h cs \<longleftrightarrow> (\<forall>i < length cs. \<forall>q \<in> set (call_results (cs ! i)). \<forall>r. ra_Res (h_obj h q) = Some r
     \<longrightarrow> r \<in> set (concat (map call_results (take i cs))) \<and> is_used h r)"

lemma refs_earlierD:
  "refs_earlier h (pre @ c # post) \<Longrightarrow> q \<in> set (call_results c) \<Longrightarrow> ra_Res (h_obj h q) = Some r
    \<Longrightarrow> r \<in> set (concat (map call_results pre)) \<and> is_used h r"
proof -
  assume "refs_earlier h (pre @ c # post)"
  from this [unfolded refs_earlier_def, rule_format, of "length pre"]
  show "q \<in> set (call_results c) \<Longrightarrow> ra_Res (h_obj h q) = Some r \<Longrightarrow> r \<in> set (concat (map call_results pre)) \<and> is_used h r" by simp
qed

lemma exec_index_numbered: "distinct (prog_results p) \<Longrightarrow> numbered (exec_index h p) 0 (filter (is_used h) (prog_results p))"
proof -
  assume "distinct (prog_results p)"
  then have d: "distinct (filter (is_used h) (prog_results p))" by simp
  have "numbered (\<lambda>r. of_nat (length (takeWhile (\<lambda>q. q \<noteq> r) (xs @ ys)))) (of_nat (length xs)) ys" if "distinct (xs @ ys)" for xs ys :: "ptr list"
    using that
  proof (induction ys arbitrary: xs)
    case (Cons y ys)
    have "takeWhile (\<lambda>q. q \<noteq> y) (xs @ y # ys) = xs" using Cons.prems by (subst takeWhile_append2) auto
    moreover have "numbered (\<lambda>r. of_nat (length (takeWhile (\<lambda>q. q \<noteq> r) ((xs @ [y]) @ ys)))) (of_nat (length (xs @ [y]))) ys" by (rule Cons.IH) (use Cons.prems in auto)
    ultimately show ?case by (simp add: algebra_simps)
  qed simp
  from this [of "[]"] d show ?thesis unfolding exec_index_def by simp
qed

lemma serialize_calls:
  assumes "rmapm (exec_call tgt h idx) post = Inr ecs" "between h idx (set (concat (map call_ptrs pre))) (concat (map call_results pre)) w"
    and "distinct (concat (map call_ptrs (pre @ post)))" "distinct (concat (map call_results (pre @ post)))" "refs_earlier h (pre @ post)"
    and "numbered idx (w_copyoutSeq w) (filter (is_used h) (concat (map call_results post)))"
  shows "\<exists>w'. rfold (serialize_next tgt h) post w = Inr w' \<and> emits (concat (map call_chunks ecs)) w w'"
  using assms
proof (induction post arbitrary: pre w ecs)
  case Nil
  then show ?case by (auto simp: emits_refl)
next
  case (Cons c post)
  let ?P = "set (concat (map call_ptrs pre))" and ?R = "concat (map call_results pre)"
  from Cons.prems(1) obtain ec ecs' where e: "exec_call tgt h idx c = Inr ec" "rmapm (exec_call tgt h idx) post = Inr ecs'" "ecs = ec # ecs'" by (auto simp: res_conv)
  then obtain m u where mu: "calcChecksumsCall h c = Inr (m, u)" by (auto simp: exec_call_def res_conv)
  let ?w = "w\<lparr>w_csumMap := m, w_csumUses := u\<rparr>"
  have b: "between h idx ?P ?R ?w" using Cons.prems(2) by (simp add: between_def)
  have d: "distinct (call_ptrs c)" "set (call_ptrs c) \<inter> ?P = {}" "distinct (call_results c)" using Cons.prems(3,4) by auto
  have refs: "\<forall>q \<in> set (call_results c). \<forall>r. ra_Res (h_obj h q) = Some r \<longrightarrow> r \<in> set ?R \<and> is_used h r" using refs_earlierD [OF Cons.prems(5)] by blast
  have RP: "set ?R \<subseteq> ?P" using call_results_are_ptrs by fastforce
  have n: "numbered idx (w_copyoutSeq ?w) (filter (is_used h) (call_results c))"
    "numbered idx (w_copyoutSeq w + of_nat (length (filter (is_used h) (call_results c)))) (filter (is_used h) (concat (map call_results post)))"
    using Cons.prems(6) by (simp_all add: numbered_append)
  obtain w1 where w1: "serializeCall tgt h c ?w = Inr w1" "emits (call_chunks ec) ?w w1" "between h idx (?P \<union> set (call_ptrs c)) (?R @ call_results c) w1"
    using serializeCall_emits [OF e(1) b _ d(1,2) refs RP d(3) n(1)] mu by auto
  have "w_copyoutSeq w1 = w_copyoutSeq w + of_nat (length (filter (is_used h) (call_results c)))" using w1(3) Cons.prems(2) by (simp add: between_def)
  with Cons.IH [OF e(2), of "pre @ [c]" w1] w1(3) Cons.prems(3-5) n(2) obtain w2 where w2: "rfold (serialize_next tgt h) post w1 = Inr w2" "emits (concat (map call_chunks ecs')) w1 w2"
    by auto
  have "emits (call_chunks ec) w w1" using w1(2) emits_cong [of ?w w] by simp
  from emits_trans [OF this w2(2)] show ?case using w1(1) w2(1) mu by (simp add: serialize_next_def [of tgt h c w] e(3))
qed

lemma SerializeForExec_emits:
  assumes "exec_calls tgt (p, h) = Inr ecs" "distinct (prog_ptrs p)" "distinct (prog_results p)" "refs_earlier h (pg_Calls p)"
  shows "\<exists>out. SerializeForExec tgt (p, h) buffer =
      Inr (if chunks_len (prog_chunks ecs) > length buffer then Inl ''provided buffer is too small'' else Inr (chunks_len (prog_chunks ecs)), out)
    \<and> (chunks_len (prog_chunks ecs) \<le> length buffer \<longrightarrow> laid (prog_chunks ecs) (take (chunks_len (prog_chunks ecs)) out))"
proof -
  let ?idx = "exec_index h p"
  let ?w = "\<lparr>w_out = [], w_buf = buffer, w_eof = False, w_args = Some [], w_copyoutSeq = 0, w_csumMap = None, w_csumUses = None\<rparr> :: execContext"
  have "between h ?idx (set (concat (map call_ptrs []))) (concat (map call_results [])) ?w" by (simp add: between_def)
  moreover have "numbered ?idx 0 (filter (is_used h) (concat (map call_results (pg_Calls p))))"
    using exec_index_numbered [OF assms(3)] by (simp add: prog_results_def)
  ultimately obtain w where w: "rfold (serialize_next tgt h) (pg_Calls p) ?w = Inr w" "emits (concat (map call_chunks ecs)) ?w w"
    using serialize_calls [of tgt h ?idx "pg_Calls p" ecs "[]" ?w] assms by (auto simp: exec_calls_def prog_ptrs_def prog_results_def)
  let ?w1 = "w_write execInstrEOF w"
  have e: "emits (prog_chunks ecs) ?w ?w1" unfolding prog_chunks_def by (rule emits_trans [OF w(2) w_write_emits(1)])
  show ?thesis
  proof (cases "chunks_len (prog_chunks ecs) > length buffer")
    case True
    then have "w_eof ?w1" using e by (simp add: emits_def)
    then show ?thesis using w(1) True by (simp add: SerializeForExec_def Let_def)
  next
    case False
    then have n: "\<not> w_eof ?w1" using e by (simp add: emits_def)
    then obtain bs where bs: "laid (prog_chunks ecs) bs" "w_out ?w1 = bs" "w_buf ?w1 = drop (length bs) buffer" using e by (auto simp: emits_def)
    then show ?thesis using w(1) n False laid_length [OF bs(1)] by (simp add: SerializeForExec_def Let_def)
  qed
qed

section \<open>Variables\<close>

text \<open>
  The decoder counts the results that are kept, and the variables that are used; the two agree because
  every result that is kept has a user, and users are written.
\<close>

lemma unat_add_of_nat: "unat n + k < 2 ^ 64 \<Longrightarrow> unat (n + of_nat k :: uint64) = unat n + k"
  by (simp add: unat_word_ariths unsigned_of_nat take_bit_nat_eq_self)

lemma fold_bump:
  "numbered idx n rs \<Longrightarrow> unat n + length rs < 2 ^ 64 \<Longrightarrow> fold (\<lambda>r. bump (idx r)) rs n = n + of_nat (length rs)"
proof (induction rs arbitrary: n)
  case (Cons r rs)
  then have u: "unat (n + 1) = unat n + 1" by (simp add: unat_word_ariths)
  then have "n < n + 1" by (simp add: word_less_nat_alt)
  then have "bump (idx r) n = n + 1" using Cons.prems(1) by (simp add: bump_def)
  then show ?case using Cons.IH [of "n + 1"] Cons.prems u by (simp add: algebra_simps)
qed simp

lemma copyouts_conv: "rmapm (copyout_of h idx addr) rs = Inr cos \<Longrightarrow> map eout_Index cos = map idx rs"
  by (induction rs arbitrary: cos) (auto simp: copyout_of_def res_conv)

lemma call_count_conv:
  assumes "exec_call tgt h idx c = Inr ec" "numbered idx n (filter (is_used h) (call_results c))" "unat n + length (call_results c) < 2 ^ 64"
  shows "call_count ec n = n + of_nat (length (filter (is_used h) (call_results c)))"
proof -
  let ?rs = "filter (is_used h) (concat (map arg_results (c_Args c)))"
  from assms(1) obtain vs where "rmapm (copyout_of h idx (addr_in tgt vs)) ?rs = Inr (ec_Copyout ec)" and i: "ec_Index ec = ret_index h idx c"
    by (auto simp: exec_call_def res_conv)
  then have "map eout_Index (ec_Copyout ec) = map idx ?rs" by (simp add: copyouts_conv)
  then have f: "fold (\<lambda>co. bump (eout_Index co)) (ec_Copyout ec) k = fold (\<lambda>r. bump (idx r)) ?rs k" for k
    using fold_map [of bump eout_Index "ec_Copyout ec"] fold_map [of bump idx ?rs] by (simp add: comp_def)
  have "call_count ec n = fold (\<lambda>r. bump (idx r)) (filter (is_used h) (call_results c)) n"
  proof (cases "\<exists>r. c_Ret c = Some r \<and> is_used h r")
    case True
    then obtain r where r: "c_Ret c = Some r" "is_used h r" by blast
    then have "idx r = n" "unat n < 2 ^ 64 - 1" using assms(2,3) by (simp_all add: call_results_def)
    then have "idx r \<noteq> ExecNoCopyout" by (auto simp: ExecNoCopyout_def unsigned_minus_1_eq_mask mask_eq_exp_minus_1)
    then show ?thesis using r by (simp add: call_count_def f i ret_index_def call_results_def)
  next
    case False
    then have "ec_Index ec = ExecNoCopyout" by (auto simp: i ret_index_def split: option.splits)
    then show ?thesis using False by (auto simp: call_count_def f call_results_def split: option.splits)
  qed
  also have "\<dots> = n + of_nat (length (filter (is_used h) (call_results c)))"
    by (rule fold_bump [OF assms(2)]) (use assms(3) length_filter_le [of "is_used h" "call_results c"] in linarith)
  finally show ?thesis .
qed

lemma calls_count:
  assumes "rmapm (exec_call tgt h idx) cs = Inr ecs" "numbered idx n (filter (is_used h) (concat (map call_results cs)))"
    and "unat n + length (concat (map call_results cs)) < 2 ^ 64"
  shows "fold call_count ecs n = n + of_nat (length (filter (is_used h) (concat (map call_results cs))))"
  using assms
proof (induction cs arbitrary: n ecs)
  case (Cons c cs)
  from Cons.prems(1) obtain ec ecs' where e: "exec_call tgt h idx c = Inr ec" "rmapm (exec_call tgt h idx) cs = Inr ecs'" "ecs = ec # ecs'" by (auto simp: res_conv)
  let ?k = "length (filter (is_used h) (call_results c))"
  have k: "?k \<le> length (call_results c)" by (rule length_filter_le)
  have l: "unat n + length (call_results c) + length (concat (map call_results cs)) < 2 ^ 64" using Cons.prems(3) by simp
  have u: "unat (n + of_nat ?k) = unat n + ?k" by (rule unat_add_of_nat) (use l k in linarith)
  have "call_count ec n = n + of_nat ?k" by (rule call_count_conv [OF e(1)]) (use Cons.prems(2,3) in \<open>simp_all add: numbered_append\<close>)
  moreover have "unat (n + of_nat ?k) + length (concat (map call_results cs)) < 2 ^ 64" using l k u by linarith
  ultimately show ?case using Cons.IH [OF e(2), of "n + of_nat ?k"] Cons.prems(2) by (simp add: e(3) numbered_append add.assoc)
qed simp

definition call_args :: "ExecCall \<Rightarrow> ExecArg list" where
  "call_args c = map ein_Arg (ec_Copyin c) @ ec_Args c"

fun var_bound :: "ExecArg \<Rightarrow> nat" where
  "var_bound (ExecArgResult sz f i dv ad df) = unat i + 1"
| "var_bound _ = 0"

lemma length_arg_vars: "length (arg_vars a vars) = max (length vars) (var_bound a)"
  by (cases a) (simp_all add: set_var_def)

lemma length_fold_vars: "length (fold arg_vars as vars) = fold max (map var_bound as) (length vars)"
  by (induction "as" arbitrary: vars) (simp_all add: length_arg_vars max.commute)

lemma calls_vars: "fold call_vars ecs vars = fold arg_vars (concat (map call_args ecs)) vars"
  by (induction ecs arbitrary: vars) (simp_all add: call_vars_def call_args_def)

lemma length_vars:
  assumes "\<forall>a \<in> set as. var_bound a \<le> n" "n = 0 \<or> (\<exists>a \<in> set as. var_bound a = n)"
  shows "length (fold arg_vars as []) = n"
proof -
  have "fold max xs m \<le> k \<longleftrightarrow> m \<le> k \<and> (\<forall>x \<in> set xs. x \<le> k)" for xs and m k :: nat by (induction xs arbitrary: m) auto
  then have le: "fold max (map var_bound as) 0 \<le> k \<longleftrightarrow> (\<forall>a \<in> set as. var_bound a \<le> k)" for k by simp
  show ?thesis
  proof (rule antisym)
    show "length (fold arg_vars as []) \<le> n" using le [of n] assms(1) by (simp add: length_fold_vars)
    show "n \<le> length (fold arg_vars as [])" using le [of "fold max (map var_bound as) 0"] assms(2) by (auto simp: length_fold_vars)
  qed
qed

text \<open>Where the users of results are written.\<close>

definition in_memory :: "ArgCtx \<Rightarrow> bool" where
  "in_memory ctx \<longleftrightarrow> (\<exists>p t a s r. ctx_Base ctx = Some (PointerArg p t a s r))"

lemma in_memory_simps [simp]:
  "in_memory (ctx\<lparr>ctx_Parent := x\<rparr>) = in_memory ctx" "in_memory (ctx\<lparr>ctx_Offset := y\<rparr>) = in_memory ctx"
  "in_memory (ctx\<lparr>ctx_Base := Some (PointerArg p t a s r)\<rparr>)"
  by (simp_all add: in_memory_def)

lemma walk_in_memory:
  "foreachArgImpl h ctx a = Inr vs \<Longrightarrow> in_memory ctx \<Longrightarrow> (b, ctx') \<in> set vs \<Longrightarrow> in_memory ctx'"
  "foreach_inner h ctx as = Inr (vs, sz) \<Longrightarrow> in_memory ctx \<Longrightarrow> (b, ctx') \<in> set vs \<Longrightarrow> in_memory ctx'"
proof (induction h ctx a and h ctx "as" arbitrary: vs and vs sz rule: foreachArgImpl_foreach_inner.induct)
  case (9 h ctx a as)
  from 9(3) obtain vs1 x vs2 sz2 where v: "foreachArgImpl h ctx a = Inr vs1" "(if ty_BitfieldMiddle (arg_Type h a) then Inr 0 else arg_Size h a) = Inr x"
    "foreach_inner h (ctx\<lparr>ctx_Offset := ctx_Offset ctx + x\<rparr>) as = Inr (vs2, sz2)" "vs = vs1 @ vs2"
    unfolding foreach_inner.simps res_conv by auto
  show ?case using 9(1) [OF v(1)] 9(2) [OF v(1,2,3)] 9(4,5) by (auto simp: v(4))
next
  case (1 h ctx p t inner)
  let ?ctx = "if (case t of StructType k f c a \<Rightarrow> True | _ \<Rightarrow> False) then ctx\<lparr>ctx_Parent := Some inner\<rparr> else ctx"
  from 1(2) obtain vs1 sz where v: "foreach_inner h ?ctx inner = Inr (vs1, sz)" "vs = (GroupArg p t inner, ctx) # vs1" by (auto simp: res_conv split: if_splits)
  have "in_memory ?ctx" using 1(3) by simp
  from 1(1) [OF v(1) this] show ?case using 1(3,4) by (auto simp: v(2))
qed (auto simp: res_conv)

lemma result_visit: "u \<in> set (concat (map (result_of \<circ> fst) vs)) \<Longrightarrow> \<exists>ctx. (ResultArg u, ctx) \<in> set vs"
  by (auto simp: result_of_def split: Arg.splits)

lemma walk_result:
  assumes "exec_arg tgt h idx a = Inr e" "foreachArgImpl h ctx a = Inr vs" "u \<in> set (arg_results a)"
  shows "exec_arg tgt h idx (ResultArg u) = Inr e \<or> (\<exists>ctx'. (ResultArg u, ctx') \<in> set vs \<and> in_memory ctx')"
  using assms
proof (induction a arbitrary: vs)
  case (PointerArg p t ad s r)
  then obtain arg where r: "r = Some arg" "u \<in> set (arg_results arg)" by (auto split: option.splits)
  let ?ctx = "ctx\<lparr>ctx_Base := Some (PointerArg p t ad s r), ctx_Offset := 0\<rparr>"
  from PointerArg.prems(2) r(1) obtain vs1 where v: "foreachArgImpl h ?ctx arg = Inr vs1" "vs = (PointerArg p t ad s r, ctx) # vs1" by (auto simp: res_conv)
  obtain ctx' where c: "(ResultArg u, ctx') \<in> set vs1" using result_visit [of u vs1] walk_results(1) [OF v(1)] r(2) by auto
  have "in_memory ctx'" by (rule walk_in_memory(1) [OF v(1) _ c]) simp
  then show ?case using v(2) c by auto
next
  case (UnionArg p t opt)
  then obtain vs1 where "foreachArgImpl h ctx opt = Inr vs1" "vs = (UnionArg p t opt, ctx) # vs1" by (auto simp: res_conv)
  then show ?case using UnionArg.IH [of vs1] UnionArg.prems by auto
qed auto

lemma list_all2_left: "list_all2 P xs ys \<Longrightarrow> x \<in> set xs \<Longrightarrow> \<exists>y \<in> set ys. P x y"
  by (induction rule: list_all2_induct) auto

lemma rmapm_in: "rmapm f xs = Inr ys \<Longrightarrow> x \<in> set xs \<Longrightarrow> f x = Inr y \<Longrightarrow> y \<in> set ys"
  by (induction xs arbitrary: ys) (auto simp: res_conv)

lemma rmapm_from: "rmapm f xs = Inr ys \<Longrightarrow> y \<in> set ys \<Longrightarrow> \<exists>x \<in> set xs. f x = Inr y"
  by (induction xs arbitrary: ys) (auto simp: res_conv)

lemma exec_result:
  assumes "exec_arg tgt h idx (ResultArg u) = Inr e" "ra_Res (h_obj h u) = Some r"
  shows "\<exists>sz f dv ad df. e = ExecArgResult sz f (idx r) dv ad df"
  using assms by (cases "ra_typ (h_obj h u)") (auto simp: Let_def res_conv)

lemma user_written:
  assumes "exec_call tgt h idx c = Inr ec" "u \<in> set (concat (map arg_results (c_Args c)))" "ra_Res (h_obj h u) = Some r"
    and "ty_Dir (ra_typ (h_obj h u)) \<noteq> DirOut" "ty_Size (ra_typ (h_obj h u)) \<noteq> Inr 0" "has_default (ra_typ (h_obj h u))"
  shows "\<exists>a \<in> set (call_args ec). var_bound a = unat (idx r) + 1"
proof -
  from assms(1) obtain vs cis css m w where vs: "ForeachArg h c = Inr vs" and ci: "rmapm (copyin_of tgt h idx) vs = Inr cis"
    and ar: "rmapm (exec_arg tgt h idx) (c_Args c) = Inr (ec_Args ec)" and ec: "ec_Copyin ec = concat cis @ css"
    by (auto simp: exec_call_def res_conv)
  have vb: "var_bound e = unat (idx r) + 1" if "exec_arg tgt h idx (ResultArg u) = Inr e" for e
    using exec_result [OF that assms(3)] by auto
  from ForeachArg_concat [OF vs] obtain vss where v: "list_all2 (\<lambda>a vs. foreachArgImpl h (ctx0\<lparr>ctx_Parent := Some (c_Args c)\<rparr>) a = Inr vs) (c_Args c) vss"
    "set (concat vss) \<subseteq> set vs" by auto
  from assms(2) obtain a where a: "a \<in> set (c_Args c)" "u \<in> set (arg_results a)" by auto
  then obtain va where va: "foreachArgImpl h (ctx0\<lparr>ctx_Parent := Some (c_Args c)\<rparr>) a = Inr va" "va \<in> set vss"
    using list_all2_left [OF v(1)] by blast
  from rmapm_all [OF ar a(1)] obtain e where e: "exec_arg tgt h idx a = Inr e" by blast
  have "e \<in> set (ec_Args ec)" by (rule rmapm_in [OF ar a(1) e])
  from walk_result [OF e va(1) a(2)] show ?thesis
  proof
    assume "exec_arg tgt h idx (ResultArg u) = Inr e"
    then show ?thesis using vb \<open>e \<in> set (ec_Args ec)\<close> by (auto simp: call_args_def)
  next
    assume "\<exists>ctx'. (ResultArg u, ctx') \<in> set va \<and> in_memory ctx'"
    then obtain ctx' where x: "(ResultArg u, ctx') \<in> set vs" "in_memory ctx'" using va(2) v(2) by auto
    then obtain ra where ra: "visit_addr tgt ctx' = Some ra" by (auto simp: in_memory_def visit_addr_def)
    from rmapm_all [OF ci x(1)] obtain cs where cs: "copyin_of tgt h idx (ResultArg u, ctx') = Inr cs" by blast
    have "\<not> IsPad (ra_typ (h_obj h u))" using assms(6) by (auto simp: has_default_def IsPad_def)
    then obtain ci' e' where "cs = [ci']" "ein_Arg ci' = e'" "exec_arg tgt h idx (ResultArg u) = Inr e'"
      using cs ra assms(4,5) by (auto simp: copyin_of_def copied_in_def res_conv simp del: exec_arg.simps split: if_splits)
    moreover have "cs \<in> set cis" by (rule rmapm_in [OF ci x(1) cs])
    ultimately have "e' \<in> set (call_args ec)" by (auto simp: call_args_def ec intro!: rev_image_eqI [of ci'])
    then show ?thesis using vb [OF \<open>exec_arg tgt h idx (ResultArg u) = Inr e'\<close>] by blast
  qed
qed

text \<open>Indices that are used are indices of results of the program.\<close>

lemma used_index:
  assumes "exec_call tgt h idx c = Inr ec" "a \<in> set (call_args ec)" "var_bound a \<noteq> 0"
  shows "\<exists>q \<in> set (call_results c). \<exists>r. ra_Res (h_obj h q) = Some r \<and> var_bound a = unat (idx r) + 1"
proof -
  from assms(1) obtain vs cis css m w where vs: "ForeachArg h c = Inr vs" and ci: "rmapm (copyin_of tgt h idx) vs = Inr cis"
    and cs: "rmapm (csum_of h (addr_in tgt vs)) w = Inr css"
    and ar: "rmapm (exec_arg tgt h idx) (c_Args c) = Inr (ec_Args ec)" and ec: "ec_Copyin ec = concat cis @ css"
    by (auto simp: exec_call_def res_conv)
  have own: "\<exists>q \<in> set (own_results x). \<exists>r. ra_Res (h_obj h q) = Some r \<and> var_bound a = unat (idx r) + 1" if "exec_arg tgt h idx x = Inr a" for x
    using that
  proof (induction x)
    case (ResultArg q)
    then have "ra_Res (h_obj h q) \<noteq> None" using assms(3) by (cases "ra_Res (h_obj h q)") (auto simp: Let_def res_conv)
    then show ?case using exec_result [OF ResultArg] by auto
  qed (use assms(3) in \<open>auto simp: res_conv split: Type.splits if_splits\<close>)
  have "\<exists>x. exec_arg tgt h idx x = Inr a \<and> set (own_results x) \<subseteq> set (call_results c)"
  proof (cases "a \<in> set (ec_Args ec)")
    case True
    then obtain x where "x \<in> set (c_Args c)" "exec_arg tgt h idx x = Inr a" using rmapm_from [OF ar] by blast
    then show ?thesis using own_results_sub [of x] by (auto simp: call_results_def)
  next
    case False
    then obtain y where y: "y \<in> set (ec_Copyin ec)" "a = ein_Arg y" using assms(2) by (auto simp: call_args_def)
    have "y \<notin> set css" using rmapm_from [OF cs, of y] assms(3) y(2) by (auto simp: csum_of_def res_conv)
    then obtain ys where ys: "ys \<in> set cis" "y \<in> set ys" using y(1) by (auto simp: ec)
    from rmapm_from [OF ci ys(1)] obtain x ctx where x: "(x, ctx) \<in> set vs" "copyin_of tgt h idx (x, ctx) = Inr ys" by auto
    then have e: "exec_arg tgt h idx x = Inr a" "own_results x = result_of x" using ys(2) y(2)
      by (auto simp: copyin_of_def copied_in_def res_conv result_of_def split: option.splits if_splits Arg.splits)
    have "set (result_of x) \<subseteq> set (concat (map (result_of \<circ> fst) vs))" using x(1) by force
    then show ?thesis using e walk_call(2) [OF vs] by (intro exI [of _ x]) simp
  qed
  then show ?thesis using own by blast
qed

text \<open>
  What a program needs for its encoding to be faithful: its results are linked, each argument occurs
  once, references go to results of earlier calls, and a result that refers to another is an input of some
  size.
\<close>

definition executable :: "program \<Rightarrow> arg_heap \<Rightarrow> bool" where
  "executable p h \<longleftrightarrow> linked_results h (prog_results p) \<and> distinct (prog_ptrs p) \<and> length (prog_results p) < 2 ^ 63
     \<and> (\<forall>i < length (pg_Calls p). \<forall>q \<in> set (call_results (pg_Calls p ! i)). \<forall>r. ra_Res (h_obj h q) = Some r
          \<longrightarrow> r \<in> set (concat (map call_results (take i (pg_Calls p)))) \<and> c_Ret (pg_Calls p ! i) \<noteq> Some q
            \<and> ty_Dir (ra_typ (h_obj h q)) \<noteq> DirOut \<and> ty_Size (ra_typ (h_obj h q)) \<noteq> Inr 0)"

lemma is_used_iff:
  assumes "linked_results h R" "a \<in> set R"
  shows "is_used h a \<longleftrightarrow> (\<exists>u \<in> set R. ra_Res (h_obj h u) = Some a)"
proof
  assume "is_used h a"
  then obtain u where "go_get (ra_uses (h_obj h a)) u \<noteq> None" by (auto simp: is_used_def)
  then show "\<exists>u \<in> set R. ra_Res (h_obj h u) = Some a" using linked_resultsD(4) [OF assms, of u] by blast
next
  assume "\<exists>u \<in> set R. ra_Res (h_obj h u) = Some a"
  then obtain u where "u \<in> set R" "ra_Res (h_obj h u) = Some a" by blast
  then show "is_used h a" using linked_resultsD(5) [OF assms(1), of u a] by (auto simp: is_used_def)
qed

lemma executable_refs:
  assumes "executable p h"
  shows "refs_earlier h (pg_Calls p)"
proof -
  have L: "linked_results h (prog_results p)" using assms by (simp add: executable_def)
  have "r \<in> set (concat (map call_results (take i (pg_Calls p)))) \<and> is_used h r"
    if i: "i < length (pg_Calls p)" "q \<in> set (call_results (pg_Calls p ! i))" "ra_Res (h_obj h q) = Some r" for i q r
  proof -
    have r: "r \<in> set (concat (map call_results (take i (pg_Calls p))))" using assms i unfolding executable_def by blast
    moreover have "q \<in> set (prog_results p)" using i by (auto simp: prog_results_def)
    moreover have "r \<in> set (prog_results p)" using r by (auto simp: prog_results_def dest: in_set_takeD)
    ultimately show ?thesis using is_used_iff [OF L, of r] i(3) by blast
  qed
  then show ?thesis unfolding refs_earlier_def by blast
qed

lemma numbered_nth: "numbered idx n rs \<Longrightarrow> i < length rs \<Longrightarrow> idx (rs ! i) = n + of_nat i"
  by (induction rs arbitrary: n i) (auto simp: nth_Cons algebra_simps split: nat.splits)

lemma variables_agree:
  assumes ex: "executable p h" and ecs: "exec_calls tgt (p, h) = Inr ecs"
  shows "of_nat (length (fold call_vars ecs [])) = fold call_count ecs 0"
proof -
  let ?idx = "exec_index h p" and ?U = "filter (is_used h) (prog_results p)"
  have L: "linked_results h (prog_results p)" and len: "length (prog_results p) < 2 ^ 63" using ex by (simp_all add: executable_def)
  have num: "numbered ?idx 0 ?U" using L by (intro exec_index_numbered) (simp add: linked_results_def)
  have m: "rmapm (exec_call tgt h ?idx) (pg_Calls p) = Inr ecs" using ecs by (simp add: exec_calls_def)
  have cnt: "fold call_count ecs 0 = of_nat (length ?U)"
    using calls_count [OF m, of 0] num len by (simp add: prog_results_def)
  have lU: "length ?U < 2 ^ 64" by (rule le_less_trans [OF length_filter_le less_trans [OF len]]) simp
  have ui: "unat (?idx (?U ! i)) = i" if "i < length ?U" for i
    using numbered_nth [OF num that] that lU by (simp add: unsigned_of_nat take_bit_nat_eq_self)
  have "length (fold arg_vars (concat (map call_args ecs)) []) = length ?U"
  proof (rule length_vars)
    show "\<forall>a \<in> set (concat (map call_args ecs)). var_bound a \<le> length ?U"
    proof
      fix a assume "a \<in> set (concat (map call_args ecs))"
      then obtain ec where ec: "ec \<in> set ecs" "a \<in> set (call_args ec)" by auto
      from rmapm_from [OF m ec(1)] obtain c where c: "c \<in> set (pg_Calls p)" "exec_call tgt h ?idx c = Inr ec" by blast
      show "var_bound a \<le> length ?U"
      proof (cases "var_bound a = 0")
        case False
        from used_index [OF c(2) ec(2) False] obtain q r where q: "q \<in> set (call_results c)" "ra_Res (h_obj h q) = Some r" "var_bound a = unat (?idx r) + 1" by blast
        have "q \<in> set (prog_results p)" using q(1) c(1) by (auto simp: prog_results_def)
        then have "r \<in> set (prog_results p)" "is_used h r" using linked_resultsD(5) [OF L _ q(2)] is_used_iff [OF L, of r] q(2) by auto
        then have "r \<in> set ?U" by simp
        then obtain i where "i < length ?U" "r = ?U ! i" unfolding in_set_conv_nth by blast
        then show ?thesis using q(3) ui by simp
      qed simp
    qed
    show "length ?U = 0 \<or> (\<exists>a \<in> set (concat (map call_args ecs)). var_bound a = length ?U)"
    proof (cases "?U = []")
      case False
      define r where "r = last ?U"
      have r: "r \<in> set ?U" "r = ?U ! (length ?U - 1)" unfolding r_def by (rule last_in_set [OF False], rule last_conv_nth [OF False])
      then obtain u where u: "u \<in> set (prog_results p)" "ra_Res (h_obj h u) = Some r" using is_used_iff [OF L, of r] by auto
      then obtain i where i: "i < length (pg_Calls p)" "u \<in> set (call_results (pg_Calls p ! i))" by (auto simp: prog_results_def in_set_conv_nth [of _ "pg_Calls p"])
      have w: "c_Ret (pg_Calls p ! i) \<noteq> Some u" "ty_Dir (ra_typ (h_obj h u)) \<noteq> DirOut" "ty_Size (ra_typ (h_obj h u)) \<noteq> Inr 0"
        using ex i u(2) unfolding executable_def by blast+
      have ua: "u \<in> set (concat (map arg_results (c_Args (pg_Calls p ! i))))" using i(2) w(1) by (auto simp: call_results_def split: option.splits)
      from rmapm_all [OF m nth_mem [OF i(1)]] obtain ec where ec: "exec_call tgt h ?idx (pg_Calls p ! i) = Inr ec" by blast
      from user_written [OF ec ua u(2) w(2,3) linked_resultsD(2) [OF L u(1)]] obtain a where "a \<in> set (call_args ec)" "var_bound a = unat (?idx r) + 1" by blast
      moreover have "unat (?idx r) + 1 = length ?U" using ui [of "length ?U - 1"] r(2) False by (cases ?U) simp_all
      moreover have "ec \<in> set ecs" by (rule rmapm_in [OF m nth_mem [OF i(1)] ec])
      ultimately show ?thesis by auto
    qed simp
  qed
  then show ?thesis by (simp add: calls_vars cnt)
qed

section \<open>Properties\<close>

text \<open>
  C19: what the encoder writes for the executor is what the program means. On an executable program whose
  values fit into their fields, \<open>SerializeForExec\<close> returns for every buffer: an error exactly when the
  buffer is too small, and otherwise bytes from which \<open>DeserializeExec\<close> reads the calls of the program,
  with their memory, checksums and results, each result under its position among the used ones.
\<close>

theorem SerializeForExec_roundtrip:
  assumes "executable p h" "exec_calls tgt (p, h) = Inr ecs" "\<forall>ec \<in> set ecs. call_fits tgt ec"
  shows "\<exists>res out. SerializeForExec tgt (p, h) buffer = Inr (res, out)
    \<and> (case res of
        Inl e \<Rightarrow> chunks_len (prog_chunks ecs) > length buffer
      | Inr n \<Rightarrow> n = chunks_len (prog_chunks ecs) \<and> n \<le> length buffer
          \<and> DeserializeExec tgt (take n out) = Inr (Inr \<lparr>ep_Calls = ecs, ep_Vars = fold call_vars ecs []\<rparr>))"
proof -
  have d: "distinct (prog_ptrs p)" "distinct (prog_results p)" using assms(1) by (simp_all add: executable_def linked_results_def)
  from SerializeForExec_emits [OF assms(2) d executable_refs [OF assms(1)], of buffer] obtain out where o: "SerializeForExec tgt (p, h) buffer =
      Inr (if chunks_len (prog_chunks ecs) > length buffer then Inl ''provided buffer is too small'' else Inr (chunks_len (prog_chunks ecs)), out)"
    "chunks_len (prog_chunks ecs) \<le> length buffer \<longrightarrow> laid (prog_chunks ecs) (take (chunks_len (prog_chunks ecs)) out)" by blast
  then show ?thesis using DeserializeExec_laid [of ecs "take (chunks_len (prog_chunks ecs)) out" tgt] assms(3) variables_agree [OF assms(1,2)] by auto
qed

section \<open>Witness\<close>

text \<open>\<open>r0 = open(); read(r0, &"abc")\<close>.\<close>

definition ex_ptr_type :: Type where
  "ex_ptr_type = PtrType \<lparr>TypeName = ''ptr'', FldName = ''buf'', TypeSize = 8, ArgDir = DirIn, IsOptional = False, IsVarlen = False\<rparr>
    (ResourceType (ex_common DirIn) 0 ex_fd)"

definition ex_buf_type :: Type where
  "ex_buf_type = BufferType \<lparr>TypeName = ''buffer'', FldName = ''buf'', TypeSize = 0, ArgDir = DirIn, IsOptional = False, IsVarlen = True\<rparr>
    BufferString 0 0 TextTarget [] [] False"

definition ex_exec_prog :: program where
  "ex_exec_prog = \<lparr>pg_Calls = [\<lparr>c_ptr = 10, c_Meta = ex_open_call, c_Args = [], c_Ret = Some 0, c_Comment = []\<rparr>,
     \<lparr>c_ptr = 11, c_Meta = ex_read_call, c_Args = [ResultArg 1, PointerArg 2 ex_ptr_type 0x40 0 (Some (DataArg 3 ex_buf_type ''abc'' 0))],
       c_Ret = None, c_Comment = []\<rparr>], pg_Comments = []\<rparr>"

definition ex_exec_calls :: "ExecCall list" where
  "ex_exec_calls = [\<lparr>ec_Meta = Some ex_open_call, ec_Index = 0, ec_Args = [], ec_Copyin = [], ec_Copyout = []\<rparr>,
     \<lparr>ec_Meta = Some ex_read_call, ec_Index = ExecNoCopyout, ec_Args = [ExecArgResult 4 0 0 0 0 0, ExecArgConst 8 0 0x20000040 0 0 0],
      ec_Copyin = [\<lparr>ein_Addr = 0x20000040, ein_Arg = ExecArgData ''abc'' True\<rparr>], ec_Copyout = []\<rparr>]"

lemma ex_exec_executable: "executable ex_exec_prog ex_heap"
proof -
  have R: "prog_results ex_exec_prog = [0, 1]" "prog_ptrs ex_exec_prog = [0, 1, 2, 3]"
    by (simp_all add: prog_results_def prog_ptrs_def ex_exec_prog_def call_results_def call_ptrs_def)
  have "linked_results ex_heap [0, 1]" using ex_prog_editable by (simp add: editable_def)
  then show ?thesis unfolding executable_def R
    by (auto simp: ex_exec_prog_def call_results_def less_Suc_eq ex_heap_def ex_result_def ty_Dir_def ty_Size_def ex_common_def)
qed

lemma ex_exec_meaning: "exec_calls ex_target (ex_exec_prog, ex_heap) = Inr ex_exec_calls"
  by code_simp

theorem SerializeForExec_roundtrip_witness:
  "\<exists>out. SerializeForExec ex_target (ex_exec_prog, ex_heap) (replicate 200 CHR 0x00) = Inr (Inr 168, out)
    \<and> DeserializeExec ex_target (take 168 out) = Inr (Inr \<lparr>ep_Calls = ex_exec_calls, ep_Vars = [0]\<rparr>)"
proof -
  have fits: "\<forall>ec \<in> set ex_exec_calls. call_fits ex_target ec"
    by (simp add: ex_exec_calls_def call_fits_def ex_target_def ex_calls_def ex_open_call_def ex_read_call_def)
  have n: "chunks_len (prog_chunks ex_exec_calls) = 168" "fold call_vars ex_exec_calls [] = [0]"
    by (simp_all add: prog_chunks_def ex_exec_calls_def call_chunks_def copyin_chunks_def head_chunks_def padded_def call_vars_def set_var_def)
  from SerializeForExec_roundtrip [OF ex_exec_executable ex_exec_meaning fits, of "replicate 200 CHR 0x00"] obtain res out where
    r: "SerializeForExec ex_target (ex_exec_prog, ex_heap) (replicate 200 CHR 0x00) = Inr (res, out)"
    "case res of Inl e \<Rightarrow> 168 > length (replicate 200 CHR 0x00) | Inr n \<Rightarrow> n = 168 \<and> n \<le> length (replicate 200 CHR 0x00)
       \<and> DeserializeExec ex_target (take n out) = Inr (Inr \<lparr>ep_Calls = ex_exec_calls, ep_Vars = [0]\<rparr>)" unfolding n by blast
  then show ?thesis by (cases res) auto
qed

end
