(* ===== verification/Spec2Isabelle.thy ===== *)
theory Spec2Isabelle
  imports Dra_Queues Dra_Path Fuzzer_Invariant Gate Mem_Alloc Hub_Connector Crash_Loop Exec_Encode
begin

text \<open>
  Dependency-guided kernel fuzzing: a verification of the fuzzing system of this repository.

  \<^bold>\<open>The program.\<close> The system is a fork of syzkaller (\<open>03-syzkaller\<close>, Go) whose fuzzers are guided by a
  static analysis of the kernel. A \<^emph>\<open>manager\<close> keeps the corpus of programs, runs virtual machines and serves
  the \<^emph>\<open>fuzzers\<close> inside them: it hands out candidate programs, takes the inputs that reached new signal and
  spreads them to the others. A \<^emph>\<open>hub\<close> exchanges programs and reproducers between managers. Next to this
  runs the \<^emph>\<open>dependency server\<close> of \<open>pkg/dra\<close>: fuzzers report inputs with the addresses they cover, the
  analyser (\<open>02-dependency\<close>) reports which conditions an input leaves uncovered and which write
  instructions may open them, and the server makes tasks of the two: a program that reaches a condition with
  a program that writes what the condition reads. A fuzzer that works on a task combines the two programs,
  runs them and returns the task with what became of each uncovered address.

  \<^bold>\<open>Foundations.\<close>
  \<^item> \<open>Go_Prelude\<close>: what the components use of Go: maps (nil or made, visited in an open order),
    computations that may abort, loops whose body may abort, fixed-width integers, bit indices.
  \<^item> \<open>Step_System\<close>: runs of a step relation; the locale \<open>step_system\<close> (an invariant kept by each step
    holds in each state reached) and its extension \<open>step_progress\<close> (a measure that some step lowers gives a
    run to the goal).
  \<^item> \<open>Join_Merge\<close>: the locale \<open>join_merge\<close> of the operations that accumulate reports; merging in any order,
    and merging twice, gives the same.

  \<^bold>\<open>The dependency server\<close>, \<open>pkg/dra\<close>.
  \<^item> \<open>Dra_Types\<close>: the messages, as records with the fields of the generated structs, and the constants of
    \<open>default.go\<close>. Tasks are objects of a store, since \<open>Tasks\<close> reaches each one twice.
  \<^item> \<open>Dra_Merge\<close>: the merge methods; a merge unites address and index sets, a covered address wins over an
    uncovered one, a status only rises.
  \<^item> \<open>Dra_Tasks\<close>: the container of tasks. Map and array hold the same tasks under their hashes, every
    operation keeps this, and the container is a queue of distinct hashes (locale \<open>keyed_queue\<close>,
    interpreted as \<open>tq\<close>).
  \<^item> \<open>Dra_Dependency\<close>, \<open>Dra_Server\<close>: the data about inputs, uncovered addresses and write addresses, how a
    report is folded into it and how tasks are made. \<open>linked\<close>: uncovered addresses and write addresses refer
    to each other both ways, and the inputs an uncovered address lists are known and refer back to it (an
    input may name addresses that do not list it). It is kept by all methods, under it none aborts, and the
    number of tasks of an address stays within its budget.
  \<^item> \<open>Dra_Status\<close>: what the server learns from a returned task; statuses never fall.
  \<^item> \<open>Dra_RPC\<close>, \<open>Dra_Update\<close>: the handlers of the remote calls and the periodic \<open>Update\<close>, each as one step
    on the state of the server (\<open>server_steps\<close>, interpreted as \<open>server\<close>). In every state that is reached
    no covered address is listed as uncovered.
  \<^item> \<open>Dra_Queues\<close>: the queues between server and fuzzers: each task is handed out once and in order, in
    bounded portions, and only while it is worth working on.
  \<^item> \<open>Dra_Path\<close>: the comparison of two executions of one program.

  \<^bold>\<open>The fuzzer\<close>, \<open>syz-fuzzer\<close> and what it uses.
  \<^item> \<open>Signal\<close>: feedback signal (\<open>pkg/signal\<close>) and coverage (\<open>pkg/cover\<close>), both instances of
    \<open>join_merge\<close>; differences, minimization of a corpus, splitting and the round trip of the wire format.
  \<^item> \<open>Work_Queue\<close>: the queue of a fuzzer process refines a stack with priorities, and no item is lost
    between the goroutines (interpretation \<open>wq\<close>).
  \<^item> \<open>Gate\<close>: \<open>pkg/ipc/gate.go\<close> with its goroutines as a step relation: limits, exclusion of the
    callback, no lost wake-up (interpretations \<open>gate\<close> and \<open>drain\<close>).
  \<^item> \<open>Remove_Resource\<close>: removal of duplicate calls on the text of a program.
  \<^item> \<open>Fuzzer_State\<close>, \<open>Fuzzer_Dependency\<close>, \<open>Fuzzer_Proc\<close>: state of the process, execution of programs,
    the work on a task, triage, smashing, polling and the turns of the two loops, as one goroutine computes
    them. What counts as covered is tied to executions: \<open>seen\<close> says that a program of the task was run and
    what its coverage held.
  \<^item> \<open>Fuzzer_Locks\<close>: the functions that share corpus and signals, statement by statement and with their
    mutexes (\<open>advance\<close>), run by any number of goroutines in any order (\<open>fuzz_step\<close>, interpretation \<open>fuzz\<close>):
    corpus and signals are consistent outside of writing sections, writers exclude all others, and
    there is no deadlock. One goroutine alone computes what \<open>Fuzzer_State\<close> says.
  \<^item> \<open>Fuzzer_Invariant\<close>: the turns of the two loops are runs of these statements (locale
    \<open>signal_property\<close>, interpretation \<open>turns\<close>).
  \<^item> \<open>Mem_Alloc\<close>, \<open>Hints\<close>: the allocators of \<open>prog/alloc.go\<close> against a set of granules and pages;
    comparison hints of \<open>prog/hints.go\<close>.

  \<^bold>\<open>Programs\<close>, \<open>prog\<close>.
  \<^item> \<open>Prog_Types\<close>, \<open>Prog_Resources\<close>: the types of arguments and the walk over the types of a call
    (\<open>types.go\<close>), and which calls can be used when some are disabled (\<open>resources.go\<close>): the loop ends and
    computes the least set of calls that create what they use (\<open>runnable\<close>), in any iteration order.
  \<^item> \<open>Prog_Edit\<close>: programs with the references between their results, kept in a heap (\<open>prog.go\<close>,
    \<open>clone.go\<close>, the walk of \<open>analysis.go\<close>, \<open>removeCalls\<close> of \<open>minimization.go\<close>). \<open>linked_results\<close>: the
    references and the sets of users agree. Removal of a call keeps this and cuts every reference into
    the call, a clone is an isomorphic program on new objects, and minimization by removal returns
    and keeps the call it is about.
  \<^item> \<open>Exec_Format\<close>: the words a program is handed to the executor as, and their decoder
    (\<open>decodeexec.go\<close>): decoding the words of a list of calls gives back the calls.
  \<^item> \<open>Exec_Encode\<close>: the encoder (\<open>encodingexec.go\<close>) with the checksums (\<open>checksum.go\<close>), against \<open>exec_calls\<close>,
    which says what a program means to the executor without buffers and counters; encoder and
    decoder together are a round trip.

  \<^bold>\<open>Manager and hub.\<close>
  \<^item> \<open>Corpus_DB\<close>: the database of \<open>pkg/db\<close>: durability for every way the writes of a sequence of operations
    may end, up to an append torn in the middle (\<open>file_state\<close>), reading after a crash, and the contract
    \<open>kv_store\<close> its clients rely on (interpreted as \<open>store\<close>).
  \<^item> \<open>Hub_State\<close>: the hub as a step relation (interpretation \<open>hub\<close>): consistency in every state that is
    reached, and that an exchange serves what is pending as long as the corpora of all managers could be
    opened (\<open>all_open\<close>); after a failure to open one the next purge panics.
  \<^item> \<open>Manager\<close>: corpus, candidates, phases and remote calls of the manager as a step relation
    (interpretation \<open>manager\<close>); the ghost field \<open>ms_known\<close> records what each fuzzer has reported or been
    sent. Which calls of a fuzzer it does not answer is stated exactly.
  \<^item> \<open>Hub_Connector\<close>: the exchange of the manager with the hub, on the two models; the channel of
    reproducers is a list, and the theorem is about exchanges without reproducers.
  \<^item> \<open>Crash_Loop\<close>: the loop over the virtual machines and what is done with crashes, as a step relation
    (interpretations \<open>vms\<close>, \<open>down\<close>, \<open>tries\<close>): machines are accounted for, the loop can be shut down,
    failing reproductions are bounded.
  \<^item> This theory: what spans manager and fuzzer.

  \<^bold>\<open>How code corresponds to definitions.\<close> A definition has the name of the function it models, with a prefix
  where the name is taken (\<open>sig_\<close>, \<open>cov_\<close>, \<open>hub_\<close>, \<open>rpc_\<close>, \<open>db_\<close>, \<open>ma_\<close>, \<open>va_\<close>, \<open>hc_\<close>); a record has the
  fields of the struct, with a short prefix. A method returns its receiver changed. \<open>panic\<close> and
  \<open>log.Fatalf\<close> are values of \<open>go_err\<close>. A body of a loop is a definition of its own when lemmas speak about
  it. A handler that holds a lock throughout is one step; where the code gives a lock back in between, as in
  the queue, the gate and the signals of the fuzzer, the sections or the single statements are the steps.

  \<^bold>\<open>Loops and bounds.\<close> Most loops run over a list and are folds or structural recursion. Bounds in the
  definitions are those of the code: twelve tries of an execution (\<open>exec_tries\<close>), three attempts of a
  minimization, a hundred failing calls, a hundred mutations, forty changed parameters, a hundred
  records per reply of the hub, five hundred elements of signal per reply of the manager. \<open>ma_alloc\<close>
  has a depth of two: after a bankruptcy the bitmap is empty, and the theorem shows that the second
  attempt succeeds. A loop with no evident bound is a partial function, and the theorem about it
  shows that it returns (\<open>sync_loop\<close> of \<open>Hub_Connector\<close>, since every reply lowers the number of programs
  that are pending). So is \<open>enable_rounds\<close> of \<open>Prog_Resources\<close>: every round but the last adds
  a call. \<open>start_repros\<close>, \<open>start_instances\<close>, \<open>visit_types\<close> and \<open>parse\<close> are
  total by a measure. The search of \<open>find_parent\<close> has as many steps as there are parents; a longer one is a
  cycle, on which the code does not end.

  \<^bold>\<open>Parameters and hypotheses.\<close> Code outside the repository or below the modelled layer is an argument:
  operations on programs and the executor (\<open>Ops\<close>, and the parser in \<open>mgr_env\<close>), compression (\<open>flate_ok\<close>:
  decompression inverts compression and refuses a truncated stream), sorting (\<open>sort_ok\<close>, \<open>sorts\<close>: a sorted permutation; nothing is
  assumed about stability), the hash, the clock, random choices, and how file operations end.
  \<open>seq_room\<close> says that the sequence numbers of the hub do not wrap, \<open>writes_work\<close> that the files which record a
  failed reproduction can be written, \<open>described\<close> that the tables describe every struct a call mentions,
  and \<open>pred_ok\<close> that the predicate of a minimization changes at most values of the program it is given. \<open>executable\<close> and \<open>call_fits\<close> are what the
  encoding for the executor needs of a program: linked results, references to earlier calls, values that fit
  into their fields. No theorem depends on an iteration order of
  a map.

  \<^bold>\<open>Not modelled.\<close> The transports (RPC, gRPC, pipes and shared memory of the executor), log and bench files and
  web pages: input and output only. Of the package \<open>prog\<close> generation, mutation,
  minimization of single arguments and the textual form; the fuzzer takes these operations as arguments.
  \<open>debugValidate\<close> does nothing unless a debug flag is set, which only tests do.
  Start-up, flags and probing of the machine. The virtual machines,
  reproducers, crash reports, mail, builds, the dashboard and command line tools drive
  external programs and services. The system call descriptions with their generated tables and their
  compiler are data and tools of the build. The analyser (C++ over LLVM) and the experiment scripts are other
  programs; the model takes the messages the analyser sends, well-formed or not.
\<close>

section \<open>The manager and its fuzzers\<close>

lemma takes_input:
  assumes "input_ok env inp" "\<forall>p. parses env p \<longrightarrow> o_Deserialize ops p \<noteq> None" "f_corpusHashes f \<noteq> None"
  shows "\<exists>f'. addInputFromAnotherFuzzer ops inp f = Inr f' \<and> f_corpusHashes f' \<noteq> None"
proof -
  obtain p where "o_Deserialize ops (ri_Prog inp) = Some p" using assms(1,2) unfolding input_ok_def by blast
  then show ?thesis using input_ok_signal [OF assms(1)] assms(3)
    by (simp add: addInputFromAnotherFuzzer_def addInputToCorpus_def)
qed

lemma takes_candidate:
  assumes "parses env (rc_Prog c)" "\<forall>p. parses env p \<longrightarrow> o_Deserialize ops p \<noteq> None"
  shows "\<exists>f'. add_candidate ops c f = Inr f' \<and> True"
proof -
  obtain p where "o_Deserialize ops (rc_Prog c) = Some p" using assms by blast
  then show ?thesis by (simp add: add_candidate_def Let_def)
qed

text \<open>
  C15: a fuzzer never gives up on the reply of the manager. In every state the manager reaches, the
  reply to a poll can be taken by a fuzzer that parses what the manager parses: no program is
  refused, which would end the fuzzer, and no signal is corrupted.
\<close>

theorem poll_reply_accepted:
  assumes y: "reaches (\<lambda>y. sorts env \<and> mgr_start env y) (mgr_step env) y"
    and p: "rpc_Poll env name needCandidates ser stats (ms_srv y) = Inr (r, s)"
    and ops: "\<forall>p. parses env p \<longrightarrow> o_Deserialize ops p \<noteq> None" and f: "f_corpusHashes f \<noteq> None"
  shows "\<exists>busy f'. poll ops needCandidates named r f = Inr (busy, f')"
proof -
  have "sys_inv env y" using manager.reaches_inv [OF y] by blast
  from Poll_inv [OF this p] have ok: "\<forall>c \<in> set (po_Candidates r). parses env (rc_Prog c)" "\<forall>inp \<in> set (po_NewInputs r). input_ok env inp"
    by blast+
  have "length (Elems (po_MaxSignal r)) = length (Prios (po_MaxSignal r))" using rpc_Poll_parts [OF p] by auto
  then have "\<exists>maxSignal. sig_Deserialize (po_MaxSignal r) = Inr maxSignal" by (simp add: sig_Deserialize_def)
  then obtain maxSignal where m: "sig_Deserialize (po_MaxSignal r) = Inr maxSignal" by blast
  obtain sign f1 where g: "grabNewSignal f = (sign, f1)" by (metis surj_pair)
  define f2 where "f2 = addMaxSignal maxSignal (send (ManagerPoll needCandidates (sig_Serialize sign) named) f1)"
  have "f_corpusHashes f2 \<noteq> None" using f g by (auto simp: f2_def addMaxSignal_def send_def grabNewSignal_def Let_def split: if_splits)
  then obtain f3 where f3: "rfold (addInputFromAnotherFuzzer ops) (po_NewInputs r) f2 = Inr f3"
    using rfold_total [where I = "\<lambda>f. f_corpusHashes f \<noteq> None" and f = "addInputFromAnotherFuzzer ops" and xs = "po_NewInputs r" and s = f2]
      takes_input [OF _ ops] ok(2) by blast
  obtain f4 where "rfold (add_candidate ops) (po_Candidates r) f3 = Inr f4"
    using rfold_total [where I = "\<lambda>_. True" and f = "add_candidate ops" and xs = "po_Candidates r" and s = f3] takes_candidate [OF _ ops] ok(1) by blast
  then show ?thesis using g m f3 by (simp add: poll_def f2_def)
qed

theorem poll_reply_accepted_witness:
  "\<exists>r busy f'. poll ex_ops True [] r ex_fuzzer = Inr (busy, f')"
proof -
  obtain y f where y: "reaches (\<lambda>y. sorts ex_mgr_env \<and> mgr_start ex_mgr_env y) (mgr_step ex_mgr_env) y" "go_get (rs_fuzzers (ms_srv y)) ''vm-0'' = Some f"
    using ex_connected by blast
  then have "\<exists>r s. rpc_Poll ex_mgr_env ''vm-0'' True \<lparr>Elems = [7], Prios = [1]\<rparr> None (ms_srv y) = Inr (r, s)"
    using poll_answered by (simp add: go_key_iff)
  then obtain r s where "rpc_Poll ex_mgr_env ''vm-0'' True \<lparr>Elems = [7], Prios = [1]\<rparr> None (ms_srv y) = Inr (r, s)" by blast
  from poll_reply_accepted [OF y(1) this, of ex_ops ex_fuzzer "[]"] show ?thesis by (auto simp: ex_ops_def ex_fuzzer_def)
qed

end
